(* ===== verification/Prelude.thy ===== *)
theory Prelude
  imports Main "HOL-Library.Word" "HOL-Library.Multiset" "HOL-Library.Product_Lexorder"
begin

text \<open>
  What every component theory shares: the exceptions the program throws as the values of
  one datatype, the result type of a fallible function, the integer limits of the C++
  types, the bit-pattern view of \<open>float\<close> and \<open>double\<close>, and generic lemmas on lists,
  sums over finite maps and integer division that the component proofs use.
\<close>

subsection \<open>Exceptions and results\<close>

text \<open>
  The exception classes thrown under src/ (\<open>std::bad_array_new_length\<close>,
  \<open>std::bad_alloc\<close>, \<open>std::overflow_error\<close>, \<open>std::invalid_argument\<close>,
  \<open>std::runtime_error\<close>, \<open>std::logic_error\<close>), with their messages. A function that
  throws returns \<open>Inl\<close> of the exception, otherwise \<open>Inr\<close> of its value.
\<close>

datatype nss_error =
    Bad_array_new_length
  | Bad_alloc
  | Overflow_error string
  | Invalid_argument string
  | Runtime_error string
  | Logic_error string

type_synonym 'a res = "nss_error + 'a"

definition bindE :: "'a res \<Rightarrow> ('a \<Rightarrow> 'b res) \<Rightarrow> 'b res" where
  "bindE r f = (case r of Inl e \<Rightarrow> Inl e | Inr v \<Rightarrow> f v)"

lemma bindE_simps [simp]: "bindE (Inl e) f = Inl e" "bindE (Inr v) f = f v"
  by (simp_all add: bindE_def)

lemma bindE_Inr_iff: "bindE r f = Inr v \<longleftrightarrow> (\<exists>u. r = Inr u \<and> f u = Inr v)"
  by (cases r) auto

lemma bindE_Inl_iff: "bindE r f = Inl e \<longleftrightarrow> r = Inl e \<or> (\<exists>u. r = Inr u \<and> f u = Inl e)"
  by (cases r) auto

text \<open>A loop whose body may throw.\<close>

fun foldE :: "('a \<Rightarrow> 's \<Rightarrow> 's res) \<Rightarrow> 'a list \<Rightarrow> 's \<Rightarrow> 's res" where
  "foldE f [] s = Inr s"
| "foldE f (x # xs) s = bindE (f x s) (foldE f xs)"

text \<open>A loop invariant of a loop that returns; \<open>Q\<close> holds for the elements already done.\<close>

lemma foldE_invariant:
  assumes "foldE f xs s = Inr t" "P {} s"
    and "\<And>x A s s'. x \<in> set xs \<Longrightarrow> P A s \<Longrightarrow> f x s = Inr s' \<Longrightarrow> P (insert x A) s'"
  shows "P (set xs) t"
proof -
  have "foldE f ys s = Inr t \<Longrightarrow> P A s \<Longrightarrow> set ys \<subseteq> set xs \<Longrightarrow> P (A \<union> set ys) t" for ys A s
  proof (induction ys arbitrary: A s)
    case Nil
    then show ?case by simp
  next
    case (Cons y ys)
    obtain s' where "f y s = Inr s'" "foldE f ys s' = Inr t" using Cons.prems(1) by (auto simp: bindE_Inr_iff)
    then have "P (insert y A \<union> set ys) t" using Cons.IH [of s' "insert y A"] Cons.prems assms(3) by simp
    then show ?case by simp
  qed
  from this [of xs s "{}"] show ?thesis using assms(1,2) by simp
qed

text \<open>A loop of checks only.\<close>

lemma foldE_unit_all:
  assumes "foldE f xs () = Inr u"
  shows "\<forall>x \<in> set xs. f x () = Inr ()"
  using assms by (induction xs) (auto simp: bindE_Inr_iff)

lemma if_Inl_eq_Inr [simp]:
  "(if b then Inl e else r) = Inr v \<longleftrightarrow> \<not> b \<and> r = Inr v"
  by auto

subsection \<open>Integer limits\<close>

text \<open>
  \<open>int\<close> values are modelled by HOL's unbounded \<open>int\<close>; where the code guards against
  overflow, the guard is in the definition, and the properties state that every
  intermediate value is in the range of the C++ type. \<open>std::size_t\<close> values are \<open>nat\<close>
  with the limit written out.
\<close>

definition int_max :: int where "int_max = 2147483647"
definition int_min :: int where "int_min = - 2147483648"
definition size_max :: nat where "size_max = 18446744073709551615"

definition int32 :: "int \<Rightarrow> bool" where
  "int32 v \<longleftrightarrow> int_min \<le> v \<and> v \<le> int_max"

lemmas int_limits = int_max_def int_min_def size_max_def int32_def

text \<open>C++ division of \<open>int\<close> truncates towards zero.\<close>

definition cdiv :: "int \<Rightarrow> int \<Rightarrow> int" where
  "cdiv a b = sgn a * sgn b * (\<bar>a\<bar> div \<bar>b\<bar>)"

definition cmod :: "int \<Rightarrow> int \<Rightarrow> int" where
  "cmod a b = a - b * cdiv a b"

lemma cdiv_nonneg: "0 \<le> a \<Longrightarrow> 0 < b \<Longrightarrow> cdiv a b = a div b"
  by (cases "a = 0") (simp_all add: cdiv_def)

lemma cmod_nonneg: "0 \<le> a \<Longrightarrow> 0 < b \<Longrightarrow> cmod a b = a mod b"
  by (simp add: cmod_def cdiv_nonneg minus_mult_div_eq_mod)

text \<open>\<open>std::clamp\<close>.\<close>

definition cclamp :: "int \<Rightarrow> int \<Rightarrow> int \<Rightarrow> int" where
  "cclamp v lo hi = (if v < lo then lo else if hi < v then hi else v)"

lemma cclamp_bounds: "lo \<le> hi \<Longrightarrow> lo \<le> cclamp v lo hi \<and> cclamp v lo hi \<le> hi"
  by (auto simp: cclamp_def)

lemma cclamp_id: "lo \<le> v \<Longrightarrow> v \<le> hi \<Longrightarrow> cclamp v lo hi = v"
  by (auto simp: cclamp_def)

subsection \<open>Ceiling division\<close>

lemma ceil_div_mult_ge:
  fixes n q :: int
  assumes "0 < q" "0 \<le> n"
  shows "n \<le> ((n + q - 1) div q) * q"
proof -
  have "(n + q - 1) mod q < q" using assms by simp
  moreover have "n + q - 1 = (n + q - 1) div q * q + (n + q - 1) mod q" by simp
  ultimately show ?thesis by linarith
qed

lemma ceil_div_pred_mult_lt:
  fixes n q :: int
  assumes "0 < q" "0 < n"
  shows "((n + q - 1) div q - 1) * q < n"
proof -
  have "0 \<le> (n + q - 1) mod q" using assms by simp
  moreover have "n + q - 1 = (n + q - 1) div q * q + (n + q - 1) mod q" by simp
  moreover have "((n + q - 1) div q - 1) * q = (n + q - 1) div q * q - q"
    by (simp add: algebra_simps)
  ultimately show ?thesis by linarith
qed

subsection \<open>Lists\<close>

text \<open>An update at an index of a list whose elements are summed.\<close>

lemma sum_list_update_nat:
  fixes xs :: "nat list"
  assumes "k < length xs"
  shows "sum_list (xs[k := v]) + xs ! k = sum_list xs + v"
  using assms
proof (induction xs arbitrary: k)
  case Nil
  then show ?case by simp
next
  case (Cons a xs)
  then show ?case by (cases k) auto
qed

lemma member_le_sum_list_nat:
  fixes xs :: "nat list"
  assumes "k < length xs"
  shows "xs ! k \<le> sum_list xs"
  using assms by (simp add: member_le_sum_list)

text \<open>The running minimum and maximum of a loop over a list.\<close>

lemma fold_min_le:
  fixes f :: "'a \<Rightarrow> 'b::linorder"
  shows "fold (\<lambda>c m. min m (f c)) cs a \<le> a"
    and "c \<in> set cs \<Longrightarrow> fold (\<lambda>c m. min m (f c)) cs a \<le> f c"
proof -
  have le: "fold (\<lambda>c m. min m (f c)) cs a \<le> a \<and> (\<forall>c \<in> set cs. fold (\<lambda>c m. min m (f c)) cs a \<le> f c)" for a
  proof (induction cs arbitrary: a)
    case Nil
    then show ?case by simp
  next
    case (Cons c cs)
    from Cons [of "min a (f c)"] show ?case by (auto intro: order_trans)
  qed
  then show "fold (\<lambda>c m. min m (f c)) cs a \<le> a"
    and "c \<in> set cs \<Longrightarrow> fold (\<lambda>c m. min m (f c)) cs a \<le> f c" by simp_all
qed

lemma fold_min_cases:
  fixes f :: "'a \<Rightarrow> 'b::linorder"
  shows "fold (\<lambda>c m. min m (f c)) cs a = a \<or> (\<exists>c \<in> set cs. fold (\<lambda>c m. min m (f c)) cs a = f c)"
proof (induction cs arbitrary: a)
  case Nil
  then show ?case by simp
next
  case (Cons c cs)
  from Cons [of "min a (f c)"] show ?case by (auto simp: min_def split: if_splits)
qed

lemma fold_max_ge:
  fixes f :: "'a \<Rightarrow> 'b::linorder"
  shows "a \<le> fold (\<lambda>c m. max m (f c)) cs a"
    and "c \<in> set cs \<Longrightarrow> f c \<le> fold (\<lambda>c m. max m (f c)) cs a"
proof -
  have le: "a \<le> fold (\<lambda>c m. max m (f c)) cs a \<and> (\<forall>c \<in> set cs. f c \<le> fold (\<lambda>c m. max m (f c)) cs a)" for a
  proof (induction cs arbitrary: a)
    case Nil
    then show ?case by simp
  next
    case (Cons c cs)
    from Cons [of "max a (f c)"] show ?case by (auto intro: order_trans)
  qed
  then show "a \<le> fold (\<lambda>c m. max m (f c)) cs a"
    and "c \<in> set cs \<Longrightarrow> f c \<le> fold (\<lambda>c m. max m (f c)) cs a" by simp_all
qed

lemma fold_max_cases:
  fixes f :: "'a \<Rightarrow> 'b::linorder"
  shows "fold (\<lambda>c m. max m (f c)) cs a = a \<or> (\<exists>c \<in> set cs. fold (\<lambda>c m. max m (f c)) cs a = f c)"
proof (induction cs arbitrary: a)
  case Nil
  then show ?case by simp
next
  case (Cons c cs)
  from Cons [of "max a (f c)"] show ?case by (auto simp: max_def split: if_splits)
qed

subsection \<open>\<open>std::sort\<close>\<close>

text \<open>
  \<open>std::sort\<close> and \<open>std::stable_sort\<close> with a comparison function, as a stable insertion
  sort. \<open>std::sort\<close> leaves the order of elements that compare equal unspecified; the
  properties of sorted results are stated on the keys of the comparison, which do not
  depend on that order.
\<close>

fun insert_by :: "('a \<Rightarrow> 'a \<Rightarrow> bool) \<Rightarrow> 'a \<Rightarrow> 'a list \<Rightarrow> 'a list" where
  "insert_by lt x [] = [x]"
| "insert_by lt x (y # ys) = (if lt y x then y # insert_by lt x ys else x # y # ys)"

definition std_sort :: "('a \<Rightarrow> 'a \<Rightarrow> bool) \<Rightarrow> 'a list \<Rightarrow> 'a list" where
  "std_sort lt xs = foldr (insert_by lt) xs []"

lemma insert_by_insort_key:
  assumes "\<And>a b. lt a b \<longleftrightarrow> f a < f b"
  shows "insert_by lt x xs = insort_key f x xs"
  by (induction xs) (auto simp: assms not_less)

lemma std_sort_sort_key:
  assumes "\<And>a b. lt a b \<longleftrightarrow> f a < f b"
  shows "std_sort lt xs = sort_key f xs"
  by (induction xs) (simp_all add: std_sort_def insert_by_insort_key [OF assms])

lemma mset_insert_by [simp]: "mset (insert_by lt x xs) = add_mset x (mset xs)"
  by (induction xs) auto

lemma mset_std_sort [simp]: "mset (std_sort lt xs) = mset xs"
  by (induction xs) (simp_all add: std_sort_def)

lemma length_std_sort [simp]: "length (std_sort lt xs) = length xs"
  by (metis mset_std_sort size_mset)

lemma set_std_sort [simp]: "set (std_sort lt xs) = set xs"
  by (metis mset_std_sort set_mset_mset)

subsection \<open>The best elements of a multiset\<close>

text \<open>
  \<open>is_best k M B\<close>: \<open>B\<close> holds the \<open>k\<close> least elements of \<open>M\<close>, all of them
  when there are fewer. It determines the sorted list of \<open>B\<close>.
\<close>

definition is_best :: "nat \<Rightarrow> 'a::linorder multiset \<Rightarrow> 'a multiset \<Rightarrow> bool" where
  "is_best k M B \<longleftrightarrow>
     B \<subseteq># M \<and> size B = min k (size M) \<and> (\<forall>a \<in># B. \<forall>b \<in># M - B. a \<le> b)"

lemma is_best_empty: "is_best k {#} {#}"
  by (simp add: is_best_def)

lemma is_best_room:
  assumes "is_best k M B" "size B < k"
  shows "is_best k (add_mset c M) (add_mset c B)"
proof -
  have sub: "B \<subseteq># M" and sz: "size B = min k (size M)"
    using assms by (simp_all add: is_best_def)
  with assms(2) have "size B = size M" by simp
  with sub have "B = M"
    by (metis subset_mset.add_diff_inverse size_union add_cancel_left_right size_eq_0_iff_empty add.right_neutral)
  moreover have "size M < k" using assms(2) \<open>B = M\<close> by simp
  ultimately show ?thesis by (simp add: is_best_def)
qed

lemma is_best_keep:
  assumes best: "is_best k M B" and full: "size B = k" and le: "\<forall>a \<in># B. a \<le> c"
  shows "is_best k (add_mset c M) B"
proof -
  have sub: "B \<subseteq># M" using best by (simp add: is_best_def)
  have "add_mset c M - B = add_mset c (M - B)"
    using sub by (simp add: multiset_diff_union_assoc [of B M "{#c#}", simplified])
  moreover have "k \<le> size M" using size_mset_mono [OF sub] full by simp
  moreover have "B \<subseteq># add_mset c M" using sub by (rule subset_mset.order_trans) simp
  ultimately show ?thesis
    using best full le by (auto simp: is_best_def)
qed

lemma is_best_replace:
  assumes best: "is_best k M B" and full: "size B = k"
    and w: "w \<in># B" and worst: "\<forall>a \<in># B. a \<le> w" and c: "c < w"
  shows "is_best k (add_mset c M) (add_mset c (B - {#w#}))"
proof -
  have sub: "B \<subseteq># M" and rest: "\<forall>a \<in># B. \<forall>b \<in># M - B. a \<le> b"
    using best by (simp_all add: is_best_def)
  obtain R where M: "M = B + R" using sub by (metis subset_mset.add_diff_inverse)
  obtain C where B: "B = add_mset w C" using w by (metis mset_add)
  have R: "M - B = R" using M by simp
  have "add_mset c M - add_mset c (B - {#w#}) = add_mset w R"
    using M B by simp
  moreover have "size (add_mset c (B - {#w#})) = min k (size (add_mset c M))"
    using full M B by simp
  moreover have "add_mset c (B - {#w#}) \<subseteq># add_mset c M"
    using M B by (simp add: subset_mset.le_add_same_cancel1)
  moreover have "\<forall>a \<in># add_mset c (B - {#w#}). \<forall>b \<in># add_mset w R. a \<le> b"
    using worst rest c w R B by (auto intro: order_trans less_imp_le)
  ultimately show ?thesis by (simp add: is_best_def)
qed

lemma is_best_sorted:
  assumes "is_best k M B"
  shows "sorted_list_of_multiset B = take k (sorted_list_of_multiset M)"
proof -
  let ?b = "sorted_list_of_multiset B" and ?r = "sorted_list_of_multiset (M - B)"
  have sub: "B \<subseteq># M" and sz: "size B = min k (size M)"
    and le: "\<forall>a \<in># B. \<forall>b \<in># M - B. a \<le> b"
    using assms by (simp_all add: is_best_def)
  have "sorted (?b @ ?r)" using le by (simp add: sorted_append)
  moreover have "mset (?b @ ?r) = M" using sub by simp
  ultimately have "sorted_list_of_multiset M = ?b @ ?r"
    by (metis sorted_list_of_multiset_mset sorted_sort_id)
  moreover have "length ?b = min k (size M)"
    using sz by (metis size_mset mset_sorted_list_of_multiset)
  moreover have "size M = length ?b + length ?r"
    using calculation(1) by (metis length_append mset_sorted_list_of_multiset size_mset)
  ultimately show ?thesis by (cases "k \<le> size M") simp_all
qed

end
