(* ===== verification/Floats.thy ===== *)
theory Floats
  imports Prelude
begin

text \<open>
  Floats. A C++ \<open>float\<close> is its 32-bit pattern and a \<open>double\<close> its 64-bit pattern, so
  that the classifications the code makes by \<open>std::bit_cast\<close> (src/frontend/args.hpp,
  include/nss/cpu_common.hpp, src/frontend/validate.cpp) are the code's own. The
  comparisons are those of IEEE 754: the order of the sign-magnitude pattern, with equal
  zeros and no order on NaN. The arithmetic (sums, products, quotients, conversions) is
  rounded by the target, partly with -ffast-math and with fused operations chosen by the
  dispatcher, so it is a parameter of the definitions that use it (\<open>farith\<close>): every
  theorem holds for whatever the target computes.
\<close>

unbundle bit_operations_syntax

type_synonym f32 = "32 word"
type_synonym f64 = "64 word"

subsection \<open>Classification and order of single-precision patterns\<close>

definition f32_mag :: "f32 \<Rightarrow> int" where
  "f32_mag b = uint (take_bit 31 b)"

definition f32_neg :: "f32 \<Rightarrow> bool" where
  "f32_neg b \<longleftrightarrow> bit b 31"

definition f32_nan :: "f32 \<Rightarrow> bool" where
  "f32_nan b \<longleftrightarrow> 0x7f800000 < f32_mag b"

text \<open>The order key of a pattern that is not a NaN: its magnitude with its sign.\<close>

definition f32_key :: "f32 \<Rightarrow> int" where
  "f32_key b = (if f32_neg b then - f32_mag b else f32_mag b)"

definition f32_lt :: "f32 \<Rightarrow> f32 \<Rightarrow> bool" where
  "f32_lt a b \<longleftrightarrow> \<not> f32_nan a \<and> \<not> f32_nan b \<and> f32_key a < f32_key b"

definition f32_le :: "f32 \<Rightarrow> f32 \<Rightarrow> bool" where
  "f32_le a b \<longleftrightarrow> \<not> f32_nan a \<and> \<not> f32_nan b \<and> f32_key a \<le> f32_key b"

definition f32_eq :: "f32 \<Rightarrow> f32 \<Rightarrow> bool" where
  "f32_eq a b \<longleftrightarrow> \<not> f32_nan a \<and> \<not> f32_nan b \<and> f32_key a = f32_key b"

text \<open>\<open>is_finite_bits\<close> of include/nss/cpu_common.hpp, \<open>finite_bits\<close> of src/frontend/args.hpp.\<close>

definition is_finite_bits :: "f32 \<Rightarrow> bool" where
  "is_finite_bits v \<longleftrightarrow> v AND 0x7f800000 \<noteq> 0x7f800000"

definition finite_bits :: "f32 \<Rightarrow> bool" where
  "finite_bits v \<longleftrightarrow> v AND 0x7f800000 \<noteq> 0x7f800000"

lemma finite_bits_eq: "finite_bits = is_finite_bits"
  by (simp add: fun_eq_iff finite_bits_def is_finite_bits_def)

lemma f32_mag_nonneg [simp]: "0 \<le> f32_mag b"
  by (simp add: f32_mag_def)

lemma exponent_field:
  fixes b :: f32
  shows "b AND 0x7f800000 = push_bit 23 (take_bit 8 (drop_bit 23 b))"
proof -
  have m: "(0x7f800000 :: f32) = push_bit 23 (mask 8)"
    by (simp add: mask_numeral push_bit_numeral)
  show ?thesis
    unfolding m by (rule bit_word_eqI) (auto simp: bit_simps)
qed

text \<open>A pattern is finite when its magnitude is below that of the infinities.\<close>

lemma is_finite_iff_mag: "is_finite_bits b \<longleftrightarrow> f32_mag b < 0x7f800000"
proof -
  define e where "e = f32_mag b div 2 ^ 23"
  have m: "f32_mag b = take_bit 31 (uint b)"
    by (simp add: f32_mag_def unsigned_take_bit_eq)
  have mlt: "f32_mag b < 2 ^ 31" unfolding m by (rule take_bit_int_less_exp)
  have e_eq: "uint (take_bit 8 (drop_bit 23 b)) = e"
  proof -
    have "e = drop_bit 23 (take_bit 31 (uint b))"
      unfolding e_def m by (simp add: drop_bit_eq_div)
    also have "\<dots> = take_bit 8 (drop_bit 23 (uint b))"
      by (simp only: drop_bit_take_bit) simp
    also have "uint b = take_bit 32 (uint b)"
      using uint_lt2p [of b] by (simp add: take_bit_int_eq_self)
    finally show ?thesis
      by (simp add: unsigned_take_bit_eq unsigned_drop_bit_eq)
  qed
  have lt: "e < 256" and e_ge: "0 \<le> e" using mlt f32_mag_nonneg [of b] unfolding e_def by (simp_all add: pos_imp_zdiv_nonneg_iff)
  have inj: "push_bit 23 (take_bit 8 (drop_bit 23 b)) = 0x7f800000 \<longleftrightarrow> e = 255"
  proof -
    have "uint (push_bit 23 (take_bit 8 (drop_bit 23 b))) = e * 2 ^ 23"
      using lt e_eq e_ge by (simp add: push_bit_eq_mult uint_word_ariths)
    then have "push_bit 23 (take_bit 8 (drop_bit 23 b)) = 0x7f800000 \<longleftrightarrow> e * 2 ^ 23 = 0x7f800000"
      by (simp add: word_uint_eq_iff)
    then show ?thesis by simp
  qed
  have "e = 255 \<longleftrightarrow> 0x7f800000 \<le> f32_mag b"
    using mlt unfolding e_def by auto
  then show ?thesis
    by (auto simp: is_finite_bits_def exponent_field inj)
qed

lemma finite_not_nan [simp]: "is_finite_bits b \<Longrightarrow> \<not> f32_nan b"
  by (simp add: is_finite_iff_mag f32_nan_def)

text \<open>On patterns that are not NaN the comparisons are a linear order up to equal zeros.\<close>

lemma f32_lt_irrefl [simp]: "\<not> f32_lt a a"
  by (simp add: f32_lt_def)

lemma f32_lt_trans: "f32_lt a b \<Longrightarrow> f32_lt b c \<Longrightarrow> f32_lt a c"
  by (auto simp: f32_lt_def)

lemma f32_lt_asym: "f32_lt a b \<Longrightarrow> \<not> f32_lt b a"
  by (auto simp: f32_lt_def)

lemma f32_trichotomy: "\<not> f32_nan a \<Longrightarrow> \<not> f32_nan b \<Longrightarrow> f32_lt a b \<or> f32_eq a b \<or> f32_lt b a"
  by (auto simp: f32_lt_def f32_eq_def)

lemma f32_le_iff: "f32_le a b \<longleftrightarrow> f32_lt a b \<or> f32_eq a b"
  by (auto simp: f32_le_def f32_lt_def f32_eq_def)

subsection \<open>Double precision\<close>

definition f64_mag :: "f64 \<Rightarrow> int" where
  "f64_mag b = uint (take_bit 63 b)"

definition f64_nan :: "f64 \<Rightarrow> bool" where
  "f64_nan b \<longleftrightarrow> 0x7ff0000000000000 < f64_mag b"

definition f64_key :: "f64 \<Rightarrow> int" where
  "f64_key b = (if bit b 63 then - f64_mag b else f64_mag b)"

definition f64_lt :: "f64 \<Rightarrow> f64 \<Rightarrow> bool" where
  "f64_lt a b \<longleftrightarrow> \<not> f64_nan a \<and> \<not> f64_nan b \<and> f64_key a < f64_key b"

definition f64_le :: "f64 \<Rightarrow> f64 \<Rightarrow> bool" where
  "f64_le a b \<longleftrightarrow> \<not> f64_nan a \<and> \<not> f64_nan b \<and> f64_key a \<le> f64_key b"

definition f64_eq :: "f64 \<Rightarrow> f64 \<Rightarrow> bool" where
  "f64_eq a b \<longleftrightarrow> \<not> f64_nan a \<and> \<not> f64_nan b \<and> f64_key a = f64_key b"

text \<open>\<open>std::isfinite\<close> on a \<open>double\<close>: the exponent field is not all ones.\<close>

definition f64_finite :: "f64 \<Rightarrow> bool" where
  "f64_finite v \<longleftrightarrow> v AND 0x7ff0000000000000 \<noteq> 0x7ff0000000000000"

subsection \<open>Constants and the arithmetic parameter\<close>

definition f32_zero :: f32 where "f32_zero = 0"
definition f32_one :: f32 where "f32_one = 0x3f800000"
definition f32_255 :: f32 where "f32_255 = 0x437f0000"
text \<open>\<open>1e-12f\<close>, \<open>FLT_MIN\<close> and \<open>FLT_MAX\<close>.\<close>
definition f32_eps :: f32 where "f32_eps = 0x2b8cbccc"
definition f32_min_normal :: f32 where "f32_min_normal = 0x00800000"
definition f32_max :: f32 where "f32_max = 0x7f7fffff"

text \<open>The arithmetic of the target, as a record of functions on patterns.\<close>

record farith =
  fadd :: "f32 \<Rightarrow> f32 \<Rightarrow> f32"
  fsub :: "f32 \<Rightarrow> f32 \<Rightarrow> f32"
  fmul :: "f32 \<Rightarrow> f32 \<Rightarrow> f32"
  fdiv :: "f32 \<Rightarrow> f32 \<Rightarrow> f32"
  ffma :: "f32 \<Rightarrow> f32 \<Rightarrow> f32 \<Rightarrow> f32"
  f_of_int :: "int \<Rightarrow> f32"
  f_of_f64 :: "f64 \<Rightarrow> f32"
  f64_of_f32 :: "f32 \<Rightarrow> f64"

text \<open>An arithmetic for examples: that of the 32-bit patterns as integers.\<close>

definition example_arith :: farith where
  "example_arith = \<lparr>fadd = (+), fsub = (-), fmul = (*), fdiv = (\<lambda>a b. a - b), ffma = (\<lambda>a b c. a * b + c),
     f_of_int = word_of_int, f_of_f64 = (\<lambda>v. 0), f64_of_f32 = (\<lambda>v. 0)\<rparr>"

lemma f32_zero_facts [simp]:
  "is_finite_bits f32_zero" "f32_key f32_zero = 0" "\<not> f32_nan f32_zero"
  by (simp_all add: is_finite_bits_def f32_zero_def f32_key_def f32_mag_def f32_nan_def)

end
