(* ===== verification/TopK.thy ===== *)
theory TopK
  imports Floats
begin

text \<open>
  The retained sets of the block matchers (src/cpu/bm/matcher.hpp): the order of matches
  and the four implementations of a bounded set of the best candidates. A retained set is
  the filled prefix of its storage; \<open>tk_null\<close> says that the storage pointer is null.
  The interface locale \<open>topk\<close> states what a matcher may rely on, and every
  implementation is interpreted in it: whatever the implementation, a run of \<open>add\<close>
  followed by \<open>finish\<close> gives the least candidates in ascending order.
\<close>

subsection \<open>Matches and their order\<close>

record match =
  m_x :: int
  m_y :: int
  m_t :: int
  m_dist :: f32
  m_ord :: "32 word"

definition finite_distance :: "f32 \<Rightarrow> bool" where
  "finite_distance v = is_finite_bits v"

definition match_tie_less :: "match \<Rightarrow> match \<Rightarrow> bool" where
  "match_tie_less a b =
     (let a_self = m_ord a = 0; b_self = m_ord b = 0
      in if a_self \<noteq> b_self then a_self
         else if m_t a \<noteq> m_t b then m_t a < m_t b
         else if m_y a \<noteq> m_y b then m_y a < m_y b
         else if m_x a \<noteq> m_x b then m_x a < m_x b
         else m_ord a < m_ord b)"

definition match_less :: "match \<Rightarrow> match \<Rightarrow> bool" where
  "match_less a b =
     (let a_finite = finite_distance (m_dist a); b_finite = finite_distance (m_dist b)
      in if a_finite \<noteq> b_finite then a_finite
         else if a_finite \<and> \<not> f32_eq (m_dist a) (m_dist b) then f32_lt (m_dist a) (m_dist b)
         else match_tie_less a b)"

text \<open>The order is that of a lexicographic key, so it is a strict weak order.\<close>

type_synonym match_key = "bool \<times> int \<times> bool \<times> int \<times> int \<times> int \<times> nat"

definition match_key :: "match \<Rightarrow> match_key" where
  "match_key m =
     (\<not> finite_distance (m_dist m),
      if finite_distance (m_dist m) then f32_key (m_dist m) else 0,
      m_ord m \<noteq> 0, m_t m, m_y m, m_x m, unat (m_ord m))"

lemma match_tie_less_key:
  "match_tie_less a b \<longleftrightarrow>
     (m_ord a \<noteq> 0, m_t a, m_y a, m_x a, unat (m_ord a)) <
     (m_ord b \<noteq> 0, m_t b, m_y b, m_x b, unat (m_ord b))"
  by (auto simp: match_tie_less_def Let_def word_less_nat_alt)

lemma match_less_key: "match_less a b \<longleftrightarrow> match_key a < match_key b"
  by (auto simp: match_less_def match_tie_less_key match_key_def Let_def finite_distance_def
      f32_eq_def f32_lt_def)

lemma not_match_less: "\<not> match_less a b \<longleftrightarrow> match_key b \<le> match_key a"
  by (simp add: match_less_key not_less)

text \<open>The key of a match up to the pattern of its distance.\<close>

lemma match_key_coords:
  "match_key a = match_key b \<Longrightarrow>
     m_x a = m_x b \<and> m_y a = m_y b \<and> m_t a = m_t b \<and> m_ord a = m_ord b"
  by (simp add: match_key_def word_unat_eq_iff)

definition sort_matches :: "match list \<Rightarrow> match list" where
  "sort_matches ms = std_sort match_less ms"

lemma sort_matches_facts [simp]:
  "mset (sort_matches ms) = mset ms" "length (sort_matches ms) = length ms"
  "set (sort_matches ms) = set ms"
  by (simp_all add: sort_matches_def)

lemma sorted_sort_matches [simp]: "sorted (map match_key (sort_matches ms))"
  by (simp add: sort_matches_def std_sort_sort_key [of match_less match_key] match_less_key)

text \<open>Ascending matches are determined by the multiset of their keys.\<close>

lemma ascending_keys:
  assumes "sorted (map match_key ms)"
  shows "map match_key ms = sorted_list_of_multiset (image_mset match_key (mset ms))"
  using assms by (metis mset_map sorted_list_of_multiset_mset sorted_sort_id)

text \<open>The position of a match in its clip.\<close>

definition position :: "match \<Rightarrow> int \<times> int \<times> int" where
  "position m = (m_t m, m_y m, m_x m)"

text \<open>
  A list of distinct positions is ordered by the keys alone: what a retained set returns is
  the front of the sorted candidates, as a list of matches.
\<close>

lemma match_key_position: "match_key a = match_key b \<Longrightarrow> position a = position b"
  by (auto simp: position_def dest: match_key_coords)

lemma map_sort_key: "map f (sort_key f xs) = sort (map f xs)"
  by (rule properties_for_sort [symmetric]) simp_all

lemma best_list:
  assumes sub: "mset rs \<subseteq># mset cs" and dist: "distinct (map position cs)"
    and keys: "map match_key rs = take k (sort (map match_key cs))"
  shows "rs = take k (sort_key match_key cs)"
proof (rule map_inj_on)
  show "map match_key rs = map match_key (take k (sort_key match_key cs))"
    using keys by (simp only: take_map [symmetric] map_sort_key)
  have "set rs \<subseteq> set cs" using sub by (metis set_mset_mono set_mset_mset)
  moreover have "set (take k (sort_key match_key cs)) \<subseteq> set cs"
    by (metis set_sort set_take_subset)
  moreover have "inj_on match_key (set cs)"
    using dist by (auto simp: distinct_map inj_on_def dest: match_key_position)
  ultimately show "inj_on match_key (set rs \<union> set (take k (sort_key match_key cs)))"
    by (meson Un_least inj_on_subset)
qed

subsection \<open>The interface\<close>

text \<open>
  What a matcher relies on: \<open>retained\<close> is the multiset of the matches kept, \<open>cap\<close> how
  many are kept at most. A candidate goes into free room; against a full set it replaces
  one of the worst when it is better than that one, and is dropped otherwise; \<open>fin\<close>
  returns the retained matches in ascending order.
\<close>

locale topk =
  fixes add :: "match \<Rightarrow> 's \<Rightarrow> 's"
    and fin :: "'s \<Rightarrow> match list"
    and retained :: "'s \<Rightarrow> match multiset"
    and cap :: "'s \<Rightarrow> nat"
    and inv :: "'s \<Rightarrow> bool"
  assumes inv_add: "inv s \<Longrightarrow> inv (add c s)"
    and cap_add: "inv s \<Longrightarrow> cap (add c s) = cap s"
    and add_room: "inv s \<Longrightarrow> size (retained s) < cap s \<Longrightarrow>
          retained (add c s) = add_mset c (retained s)"
    and add_keep: "inv s \<Longrightarrow> size (retained s) = cap s \<Longrightarrow>
          \<forall>m \<in># retained s. match_key m \<le> match_key c \<Longrightarrow> retained (add c s) = retained s"
    and add_replace: "inv s \<Longrightarrow> size (retained s) = cap s \<Longrightarrow>
          m \<in># retained s \<Longrightarrow> match_key c < match_key m \<Longrightarrow>
          \<exists>w \<in># retained s. (\<forall>a \<in># retained s. match_key a \<le> match_key w) \<and>
            retained (add c s) = add_mset c (retained s - {#w#})"
    and mset_fin: "inv s \<Longrightarrow> mset (fin s) = retained s"
    and sorted_fin: "inv s \<Longrightarrow> sorted (map match_key (fin s))"
begin

lemma add_best:
  assumes inv: "inv s"
    and best: "is_best (cap s) M (image_mset match_key (retained s))"
  shows "is_best (cap s) (add_mset (match_key c) M) (image_mset match_key (retained (add c s)))"
proof (cases "size (retained s) < cap s")
  case True
  then show ?thesis
    using is_best_room [OF best] inv by (simp add: add_room)
next
  case False
  then have full: "size (retained s) = cap s"
    using best by (simp add: is_best_def min_def split: if_splits)
  show ?thesis
  proof (cases "\<forall>m \<in># retained s. match_key m \<le> match_key c")
    case True
    then show ?thesis
      using is_best_keep [OF best, of "match_key c"] full inv by (simp add: add_keep)
  next
    case False
    then obtain m where "m \<in># retained s" "match_key c < match_key m" by (auto simp: not_le)
    from add_replace [OF inv full this] obtain w where
      w: "w \<in># retained s" "\<forall>a \<in># retained s. match_key a \<le> match_key w"
      and eq: "retained (add c s) = add_mset c (retained s - {#w#})" by blast
    have "match_key c < match_key w"
      using \<open>match_key c < match_key m\<close> \<open>m \<in># retained s\<close> w(2) by (auto intro: less_le_trans)
    moreover have "image_mset match_key (retained s - {#w#}) =
        image_mset match_key (retained s) - {#match_key w#}"
      using w(1) by (simp add: image_mset_Diff)
    ultimately show ?thesis
      using is_best_replace [OF best, of "match_key w" "match_key c"] full w eq by simp
  qed
qed

lemma fold_add_best:
  assumes "inv s" "is_best (cap s) M (image_mset match_key (retained s))"
  shows "inv (fold add cs s) \<and> cap (fold add cs s) = cap s \<and>
    is_best (cap s) (M + image_mset match_key (mset cs))
      (image_mset match_key (retained (fold add cs s)))"
  using assms
proof (induction cs arbitrary: s M)
  case Nil
  then show ?case by simp
next
  case (Cons c cs)
  have best: "is_best (cap (add c s)) (add_mset (match_key c) M)
      (image_mset match_key (retained (add c s)))"
    using add_best [OF Cons.prems] Cons.prems(1) by (simp add: cap_add)
  from Cons.IH [OF inv_add [OF Cons.prems(1)] this] Cons.prems(1)
  show ?case by (simp add: cap_add)
qed

text \<open>From any state the result is the best of what was retained and what was added.\<close>

lemma finish_from:
  assumes "inv s" "size (retained s) \<le> cap s"
  shows "map match_key (fin (fold add cs s)) =
    take (cap s) (sorted_list_of_multiset (image_mset match_key (retained s + mset cs)))"
proof -
  have b0: "is_best (cap s) (image_mset match_key (retained s)) (image_mset match_key (retained s))"
    using assms(2) by (simp add: is_best_def)
  from fold_add_best [OF assms(1) b0, of cs]
  have inv': "inv (fold add cs s)"
    and best: "is_best (cap s) (image_mset match_key (retained s + mset cs))
      (image_mset match_key (retained (fold add cs s)))"
    by simp_all
  have "map match_key (fin (fold add cs s)) =
      sorted_list_of_multiset (image_mset match_key (retained (fold add cs s)))"
    using ascending_keys [OF sorted_fin [OF inv']] mset_fin [OF inv'] by simp
  with is_best_sorted [OF best] show ?thesis by simp
qed

lemma finish_all:
  assumes "inv s" "retained s = {#}"
  shows "map match_key (fin (fold add cs s)) = take (cap s) (sort (map match_key cs))"
proof -
  have "map match_key (fin (fold add cs s)) =
      take (cap s) (sorted_list_of_multiset (image_mset match_key (mset cs)))"
    using finish_from [OF assms(1), of cs] assms(2) by simp
  also have "sorted_list_of_multiset (image_mset match_key (mset cs)) = sort (map match_key cs)"
    by (metis mset_map sorted_list_of_multiset_mset)
  finally show ?thesis .
qed

lemma fold_room:
  assumes "inv s" "size (retained s) + length cs \<le> cap s"
  shows "inv (fold add cs s) \<and> cap (fold add cs s) = cap s \<and>
    retained (fold add cs s) = retained s + mset cs"
  using assms
proof (induction cs arbitrary: s)
  case Nil
  then show ?case by simp
next
  case (Cons c cs)
  then show ?case
    using Cons.IH [of "add c s"] by (simp add: inv_add cap_add add_room)
qed

lemma finish_subset:
  assumes "inv s" "size (retained s) \<le> cap s"
  shows "mset (fin (fold add cs s)) \<subseteq># retained s + mset cs"
proof -
  have "retained (fold add cs s) \<subseteq># retained s + mset cs \<and>
      inv (fold add cs s) \<and> size (retained (fold add cs s)) \<le> cap (fold add cs s)"
    using assms
  proof (induction cs arbitrary: s)
    case Nil
    then show ?case by simp
  next
    case (Cons c cs)
    have step: "retained (add c s) \<subseteq># add_mset c (retained s) \<and> size (retained (add c s)) \<le> cap s"
    proof (cases "size (retained s) < cap s")
      case True
      then show ?thesis using Cons.prems by (simp add: add_room)
    next
      case False
      then have full: "size (retained s) = cap s" using Cons.prems(2) by simp
      show ?thesis
      proof (cases "\<forall>m \<in># retained s. match_key m \<le> match_key c")
        case True
        then show ?thesis
          using add_keep [OF Cons.prems(1) full True] full
          by (simp add: subset_mset.less_imp_le)
      next
        case False
        then obtain m where "m \<in># retained s" "match_key c < match_key m" by (auto simp: not_le)
        from add_replace [OF Cons.prems(1) full this] obtain w where
          w: "w \<in># retained s" and eq: "retained (add c s) = add_mset c (retained s - {#w#})" by blast
        from w obtain C where "retained s = add_mset w C" by (metis mset_add)
        then show ?thesis using full eq by simp
      qed
    qed
    with Cons.prems have "size (retained (add c s)) \<le> cap (add c s)" by (simp add: cap_add)
    from Cons.IH [OF inv_add [OF Cons.prems(1)] this] step
    show ?case by (auto intro: subset_mset.order_trans subset_mset.add_right_mono)
  qed
  then show ?thesis by (simp add: mset_fin)
qed

end

text \<open>
  A retained set with its constructor, and with \<open>adopt\<close>, which takes over the first
  matches of the storage: what the spatial and the temporal search build on.
\<close>

locale topk_new = topk +
  fixes new :: "int \<Rightarrow> 'a"
  assumes inv_new: "inv (new k)"
    and cap_new: "cap (new k) = nat k"
    and retained_new: "retained (new k) = {#}"
begin

lemma run_list:
  assumes "distinct (map position cs)"
  shows "fin (fold add cs (new k)) = take (nat k) (sort_key match_key cs)"
proof (rule best_list [OF _ assms])
  show "mset (fin (fold add cs (new k))) \<subseteq># mset cs"
    using finish_subset [OF inv_new, of k cs] by (simp add: retained_new cap_new)
  show "map match_key (fin (fold add cs (new k))) = take (nat k) (sort (map match_key cs))"
    using finish_all [OF inv_new retained_new, of cs k] by (simp add: cap_new)
qed

end

locale topk_store = topk_new +
  fixes adopt :: "match list \<Rightarrow> int \<Rightarrow> 'a \<Rightarrow> 'a"
  assumes adopted: "0 \<le> n \<Longrightarrow> n \<le> k \<Longrightarrow> n = int (length st) \<Longrightarrow>
          inv (adopt st n (new k)) \<and> cap (adopt st n (new k)) = nat k \<and>
          retained (adopt st n (new k)) = mset st"
begin

lemma adopt_run_list:
  assumes "distinct (map position (st @ cs))" "int (length st) \<le> k"
  shows "fin (fold add cs (adopt st (int (length st)) (new k))) =
    take (nat k) (sort_key match_key (st @ cs))"
proof -
  let ?s = "adopt st (int (length st)) (new k)"
  have s: "inv ?s" "cap ?s = nat k" "retained ?s = mset st"
    using adopted [of "int (length st)" k st] assms(2) by simp_all
  have le: "size (retained ?s) \<le> cap ?s" using assms(2) by (simp add: s)
  show ?thesis
  proof (rule best_list [OF _ assms(1)])
    show "mset (fin (fold add cs ?s)) \<subseteq># mset (st @ cs)"
      using finish_subset [OF s(1) le, of cs] by (simp add: s)
    have "image_mset match_key (retained ?s + mset cs) = mset (map match_key (st @ cs))"
      by (simp add: s)
    then show "map match_key (fin (fold add cs ?s)) = take (nat k) (sort (map match_key (st @ cs)))"
      using finish_from [OF s(1) le, of cs] by (simp only: s(2) sorted_list_of_multiset_mset)
  qed
qed

end

subsection \<open>\<open>StableTopK\<close>: append, then replace the worst\<close>

record topk_set =
  tk_store :: "match list"
  tk_capacity :: int
  tk_null :: bool

definition tk_new :: "bool \<Rightarrow> int \<Rightarrow> topk_set" where
  "tk_new null capacity = \<lparr>tk_store = [], tk_capacity = capacity, tk_null = null\<rparr>"

text \<open>The scan for the worst retained match, from index \<open>i\<close> with the worst so far.\<close>

function scan_worst :: "match list \<Rightarrow> nat \<Rightarrow> nat \<Rightarrow> nat" where
  "scan_worst ms i worst =
     (if i < length ms
      then scan_worst ms (Suc i) (if match_less (ms ! worst) (ms ! i) then i else worst)
      else worst)"
  by pat_completeness auto
termination
  by (relation "measure (\<lambda>(ms, i, _). length ms - i)") auto

declare scan_worst.simps [simp del]

definition stable_add :: "match \<Rightarrow> topk_set \<Rightarrow> topk_set" where
  "stable_add candidate s =
     (if tk_null s \<or> tk_capacity s \<le> 0 then s
      else if int (length (tk_store s)) < tk_capacity s
      then s\<lparr>tk_store := tk_store s @ [candidate]\<rparr>
      else
        let worst = scan_worst (tk_store s) 1 0
        in if match_less candidate (tk_store s ! worst)
           then s\<lparr>tk_store := (tk_store s)[worst := candidate]\<rparr>
           else s)"

definition stable_finish :: "topk_set \<Rightarrow> match list" where
  "stable_finish s =
     (if 1 < length (tk_store s) then sort_matches (tk_store s) else tk_store s)"

text \<open>\<open>adopt\<close>: the first matches of the storage count as already inserted.\<close>

definition stable_adopt :: "match list \<Rightarrow> int \<Rightarrow> topk_set \<Rightarrow> topk_set" where
  "stable_adopt storage already s =
     (if tk_null s \<or> tk_capacity s \<le> 0 then s\<lparr>tk_store := []\<rparr>
      else if already < 0 then s\<lparr>tk_store := []\<rparr>
      else s\<lparr>tk_store := take (nat (if already > tk_capacity s then tk_capacity s else already)) storage\<rparr>)"

definition tk_cap :: "topk_set \<Rightarrow> nat" where
  "tk_cap s = (if tk_null s \<or> tk_capacity s \<le> 0 then 0 else nat (tk_capacity s))"

definition tk_retained :: "topk_set \<Rightarrow> match multiset" where
  "tk_retained s = mset (tk_store s)"

definition tk_inv :: "topk_set \<Rightarrow> bool" where
  "tk_inv s \<longleftrightarrow> length (tk_store s) \<le> tk_cap s"

lemma scan_worst_max:
  assumes "worst < length ms" "\<forall>j < i. j < length ms \<longrightarrow> match_key (ms ! j) \<le> match_key (ms ! worst)"
  shows "scan_worst ms i worst < length ms \<and>
    (\<forall>j < length ms. match_key (ms ! j) \<le> match_key (ms ! scan_worst ms i worst))"
  using assms
proof (induction ms i worst rule: scan_worst.induct)
  case (1 ms i worst)
  show ?case
  proof (cases "i < length ms")
    case True
    let ?w = "if match_less (ms ! worst) (ms ! i) then i else worst"
    have "\<forall>j < Suc i. j < length ms \<longrightarrow> match_key (ms ! j) \<le> match_key (ms ! ?w)"
      using "1.prems"(2) by (auto simp: less_Suc_eq match_less_key)
    moreover have "?w < length ms" using "1.prems"(1) True by simp
    ultimately show ?thesis
      using "1.IH" [OF True] True by (simp add: scan_worst.simps [of ms i worst])
  next
    case False
    then show ?thesis using "1.prems" by (simp add: scan_worst.simps [of ms i worst])
  qed
qed

lemma scan_worst_is_worst:
  assumes "ms \<noteq> []"
  shows "scan_worst ms 1 0 < length ms"
    and "\<forall>m \<in> set ms. match_key m \<le> match_key (ms ! scan_worst ms 1 0)"
  using scan_worst_max [of 0 ms 1] assms by (auto simp: in_set_conv_nth)

text \<open>Replacing an element at an index, as multisets.\<close>

lemma mset_update_worst:
  "i < length ms \<Longrightarrow> mset (ms[i := c]) = add_mset c (mset ms - {#ms ! i#})"
  by (simp add: mset_update)

lemma short_list_ascending: "length ms \<le> 1 \<Longrightarrow> sorted (map match_key ms)"
  by (cases ms) auto

lemma stable_topk: "topk stable_add stable_finish tk_retained tk_cap tk_inv"
proof (unfold_locales, goal_cases)
  case (1 s c)
  then show ?case by (auto simp: tk_inv_def stable_add_def tk_cap_def Let_def)
next
  case (2 s c)
  then show ?case by (auto simp: stable_add_def tk_cap_def Let_def)
next
  case (3 s c)
  then show ?case by (auto simp: stable_add_def tk_cap_def tk_retained_def split: if_splits)
next
  case (4 s c)
  show ?case
  proof (cases "tk_cap s = 0")
    case True
    then show ?thesis by (auto simp: stable_add_def tk_cap_def split: if_splits)
  next
    case False
    with 4 have ne: "tk_store s \<noteq> []" by (auto simp: tk_retained_def)
    have "\<not> match_less c (tk_store s ! scan_worst (tk_store s) 1 0)"
      using scan_worst_is_worst(1) [OF ne] 4(3) by (auto simp: not_match_less tk_retained_def)
    then show ?thesis
      using 4 False by (auto simp: stable_add_def tk_cap_def tk_retained_def Let_def split: if_splits)
  qed
next
  case (5 s m c)
  let ?w = "scan_worst (tk_store s) 1 0"
  have ne: "tk_store s \<noteq> []" using 5(3) by (auto simp: tk_retained_def)
  note w = scan_worst_is_worst [OF ne]
  have "match_less c (tk_store s ! ?w)"
    using 5(3,4) w(2) by (auto simp: match_less_key tk_retained_def intro: less_le_trans)
  moreover have "tk_cap s \<noteq> 0" using 5(2) ne by (metis length_0_conv size_mset tk_retained_def)
  ultimately have "tk_retained (stable_add c s) =
      add_mset c (tk_retained s - {#tk_store s ! ?w#})"
    using 5(2) w(1)
    by (auto simp: stable_add_def tk_cap_def tk_retained_def Let_def mset_update split: if_splits)
  with w show ?case by (intro bexI [of _ "tk_store s ! ?w"]) (auto simp: tk_retained_def)
next
  case (6 s)
  then show ?case by (simp add: stable_finish_def tk_retained_def)
next
  case (7 s)
  then show ?case by (simp add: stable_finish_def short_list_ascending)
qed

interpretation stable: topk stable_add stable_finish tk_retained tk_cap tk_inv
  by (rule stable_topk)

subsection \<open>\<open>SortedTopK\<close>: kept in ascending order once full\<close>

text \<open>
  The insertion loop: from the last slot, elements above the candidate move up by one
  until its place is found.
\<close>

fun shift_in :: "match list \<Rightarrow> match \<Rightarrow> nat \<Rightarrow> match list" where
  "shift_in ms c 0 = ms[0 := c]"
| "shift_in ms c (Suc p) =
     (if match_less c (ms ! p) then shift_in (ms[Suc p := ms ! p]) c p else ms[Suc p := c])"

definition sorted_add :: "match \<Rightarrow> topk_set \<Rightarrow> topk_set" where
  "sorted_add candidate s =
     (if tk_null s \<or> tk_capacity s \<le> 0 then s
      else if int (length (tk_store s)) < tk_capacity s
      then
        let store = tk_store s @ [candidate]
        in s\<lparr>tk_store := (if int (length store) = tk_capacity s then sort_matches store else store)\<rparr>
      else if \<not> match_less candidate (tk_store s ! (length (tk_store s) - 1)) then s
      else s\<lparr>tk_store := shift_in (tk_store s) candidate (length (tk_store s) - 1)\<rparr>)"

definition sorted_finish :: "topk_set \<Rightarrow> match list" where
  "sorted_finish s =
     (if 1 < length (tk_store s) \<and> int (length (tk_store s)) < tk_capacity s
      then sort_matches (tk_store s) else tk_store s)"

definition sorted_full :: "topk_set \<Rightarrow> bool" where
  "sorted_full s \<longleftrightarrow> \<not> tk_null s \<and> 0 < tk_capacity s \<and> int (length (tk_store s)) = tk_capacity s"

definition worst_distance :: "topk_set \<Rightarrow> f32" where
  "worst_distance s = m_dist (tk_store s ! (length (tk_store s) - 1))"

definition sorted_inv :: "topk_set \<Rightarrow> bool" where
  "sorted_inv s \<longleftrightarrow> tk_inv s \<and>
     (length (tk_store s) = tk_cap s \<longrightarrow> sorted (map match_key (tk_store s)))"

lemma length_shift_in [simp]: "length (shift_in ms c pos) = length ms"
  by (induction ms c pos rule: shift_in.induct) auto

lemma mset_shift_in:
  "pos < length ms \<Longrightarrow> mset (shift_in ms c pos) = add_mset c (mset ms - {#ms ! pos#})"
proof (induction ms c pos rule: shift_in.induct)
  case (1 ms c)
  then show ?case by (simp add: mset_update)
next
  case (2 ms c p)
  have "mset (ms[Suc p := ms ! p]) - {#ms ! p#} = mset ms - {#ms ! Suc p#}"
    using "2.prems" by (simp add: mset_update)
  then show ?case using "2.IH" "2.prems" by (auto simp: mset_update)
qed

lemma sorted_shift_in:
  assumes "pos < length ms" "sorted (map match_key (take pos ms @ drop (Suc pos) ms))"
    and "\<forall>m \<in> set (drop (Suc pos) ms). match_key c \<le> match_key m"
  shows "sorted (map match_key (shift_in ms c pos))"
  using assms
proof (induction ms c pos rule: shift_in.induct)
  case (1 ms c)
  then show ?case by (cases ms) auto
next
  case (2 ms c p)
  have take: "take (Suc p) ms = take p ms @ [ms ! p]"
    using "2.prems"(1) by (simp add: take_Suc_conv_app_nth)
  show ?case
  proof (cases "match_less c (ms ! p)")
    case True
    let ?ms = "ms[Suc p := ms ! p]"
    have dp: "drop (Suc p) ?ms = ms ! p # drop (Suc (Suc p)) ms"
      using "2.prems"(1)
      by (metis Cons_nth_drop_Suc drop_update_cancel length_list_update lessI nth_list_update_eq)
    have tk: "take p ?ms = take p ms" by simp
    have "sorted (map match_key (shift_in ?ms c p))"
      using "2.IH" [OF True] "2.prems" True take dp tk
      by (auto simp: match_less_key)
    then show ?thesis using True by simp
  next
    case False
    then have "match_key (ms ! p) \<le> match_key c" by (simp add: not_match_less)
    moreover have "ms[Suc p := c] = take (Suc p) ms @ c # drop (Suc (Suc p)) ms"
      using "2.prems"(1) by (simp add: upd_conv_take_nth_drop)
    ultimately show ?thesis
      using False "2.prems"(2,3) take by (auto simp: sorted_append intro: order_trans)
  qed
qed

text \<open>The last element of an ascending list is a worst one.\<close>

lemma last_is_worst:
  assumes "ms \<noteq> []" "sorted (map match_key ms)" "m \<in> set ms"
  shows "match_key m \<le> match_key (ms ! (length ms - 1))"
proof -
  obtain i where i: "i < length ms" "m = ms ! i" using assms(3) by (auto simp: in_set_conv_nth)
  then have "map match_key ms ! i \<le> map match_key ms ! (length ms - 1)"
    using assms(1,2) by (intro sorted_nth_mono) auto
  then show ?thesis using i assms(1) by simp
qed

lemma tk_full_store:
  assumes "size (tk_retained s) = tk_cap s"
  shows "length (tk_store s) = tk_cap s"
  using assms by (simp add: tk_retained_def)

lemma sorted_topk: "topk sorted_add sorted_finish tk_retained tk_cap sorted_inv"
proof (unfold_locales, goal_cases)
  case (1 s c)
  show ?case
  proof (cases "tk_null s \<or> tk_capacity s \<le> 0 \<or> int (length (tk_store s)) < tk_capacity s")
    case True
    then show ?thesis
      using 1 by (auto simp: sorted_inv_def tk_inv_def sorted_add_def tk_cap_def Let_def)
  next
    case False
    let ?ms = "tk_store s"
    have len: "length ?ms = tk_cap s" and ne: "?ms \<noteq> []"
      using False 1 by (auto simp: sorted_inv_def tk_inv_def tk_cap_def)
    have srt: "sorted (map match_key ?ms)" using 1 len by (simp add: sorted_inv_def)
    have "sorted (map match_key (take (length ?ms - 1) ?ms @ drop (Suc (length ?ms - 1)) ?ms))"
      using srt ne by (simp flip: take_map add: sorted_wrt_take)
    then have "sorted (map match_key (shift_in ?ms c (length ?ms - 1)))"
      using ne by (intro sorted_shift_in) auto
    then show ?thesis
      using False len srt 1 by (auto simp: sorted_inv_def tk_inv_def sorted_add_def tk_cap_def)
  qed
next
  case (2 s c)
  then show ?case by (auto simp: sorted_add_def tk_cap_def Let_def)
next
  case (3 s c)
  then show ?case by (auto simp: sorted_add_def tk_cap_def tk_retained_def Let_def split: if_splits)
next
  case (4 s c)
  note len = tk_full_store [OF 4(2)]
  show ?case
  proof (cases "tk_store s = []")
    case True
    then show ?thesis using len by (auto simp: sorted_add_def tk_cap_def split: if_splits)
  next
    case False
    then have "\<not> match_less c (tk_store s ! (length (tk_store s) - 1))"
      using 4(3) by (auto simp: not_match_less tk_retained_def)
    then show ?thesis using len by (auto simp: sorted_add_def tk_cap_def split: if_splits)
  qed
next
  case (5 s m c)
  let ?ms = "tk_store s" and ?w = "tk_store s ! (length (tk_store s) - 1)"
  note len = tk_full_store [OF 5(2)]
  have m: "m \<in> set ?ms" and ne: "?ms \<noteq> []" using 5(3) by (auto simp: tk_retained_def)
  have worst: "\<forall>a \<in> set ?ms. match_key a \<le> match_key ?w"
    using last_is_worst [OF ne] 5(1) len unfolding sorted_inv_def by blast
  have "match_less c ?w" using worst m 5(4) by (auto simp: match_less_key intro: less_le_trans)
  moreover have "\<not> tk_null s" "0 < tk_capacity s" "int (length ?ms) = tk_capacity s"
    using len ne by (auto simp: tk_cap_def split: if_splits)
  ultimately have "tk_retained (sorted_add c s) = add_mset c (tk_retained s - {#?w#})"
    using ne by (simp add: sorted_add_def tk_retained_def mset_shift_in)
  with worst ne show ?case
    by (intro bexI [of _ ?w]) (auto simp: tk_retained_def)
next
  case (6 s)
  then show ?case by (simp add: sorted_finish_def tk_retained_def)
next
  case (7 s)
  show ?case
  proof (cases "length (tk_store s) = tk_cap s")
    case True
    then show ?thesis using 7 by (simp add: sorted_finish_def sorted_inv_def)
  next
    case False
    then show ?thesis
      using 7 by (auto simp: sorted_finish_def sorted_inv_def tk_inv_def tk_cap_def
          short_list_ascending split: if_splits)
  qed
qed

interpretation sorted_set: topk sorted_add sorted_finish tk_retained tk_cap sorted_inv
  by (rule sorted_topk)

subsection \<open>\<open>SpatialSortedTopK\<close>: the same policy for the separately compiled matchers\<close>

definition spatial_sorted_add :: "match \<Rightarrow> topk_set \<Rightarrow> topk_set" where
  "spatial_sorted_add candidate s =
     (if tk_null s \<or> tk_capacity s \<le> 0 then s
      else if int (length (tk_store s)) < tk_capacity s
      then
        let store = tk_store s @ [candidate]
        in s\<lparr>tk_store := (if int (length store) = tk_capacity s then sort_matches store else store)\<rparr>
      else if \<not> match_less candidate (tk_store s ! (length (tk_store s) - 1)) then s
      else s\<lparr>tk_store := shift_in (tk_store s) candidate (length (tk_store s) - 1)\<rparr>)"

definition spatial_sorted_finish :: "topk_set \<Rightarrow> match list" where
  "spatial_sorted_finish s =
     (if 1 < length (tk_store s) \<and> int (length (tk_store s)) < tk_capacity s
      then sort_matches (tk_store s) else tk_store s)"

lemma spatial_sorted_eq:
  "spatial_sorted_add = sorted_add" "spatial_sorted_finish = sorted_finish"
  by (simp_all add: fun_eq_iff spatial_sorted_add_def sorted_add_def
      spatial_sorted_finish_def sorted_finish_def)

interpretation spatial_sorted: topk spatial_sorted_add spatial_sorted_finish tk_retained tk_cap sorted_inv
  unfolding spatial_sorted_eq by (rule sorted_topk)

subsection \<open>\<open>CachedWorstTopK\<close>: the index of the worst is kept\<close>

record cached_set =
  cw_store :: "match list"
  cw_cap :: int
  cw_worst :: nat

definition cached_new :: "int \<Rightarrow> cached_set" where
  "cached_new cap = \<lparr>cw_store = [], cw_cap = cap, cw_worst = 0\<rparr>"

definition cached_scan :: "cached_set \<Rightarrow> cached_set" where
  "cached_scan s = s\<lparr>cw_worst := scan_worst (cw_store s) 1 0\<rparr>"

definition cached_add :: "match \<Rightarrow> cached_set \<Rightarrow> cached_set" where
  "cached_add m s =
     (if cw_cap s \<le> 0 then s
      else if int (length (cw_store s)) < cw_cap s
      then
        let s' = s\<lparr>cw_store := cw_store s @ [m]\<rparr>
        in if int (length (cw_store s')) = cw_cap s' then cached_scan s' else s'
      else if match_less m (cw_store s ! cw_worst s)
      then cached_scan (s\<lparr>cw_store := (cw_store s)[cw_worst s := m]\<rparr>)
      else s)"

definition cached_adopt :: "match list \<Rightarrow> int \<Rightarrow> cached_set \<Rightarrow> cached_set" where
  "cached_adopt storage n s =
     (let s' = s\<lparr>cw_store := take (nat (cclamp n 0 (cw_cap s))) storage\<rparr>
      in if cclamp n 0 (cw_cap s) \<noteq> 0 then cached_scan s' else s')"

definition cached_finish :: "cached_set \<Rightarrow> match list" where
  "cached_finish s = sort_matches (cw_store s)"

definition cw_retained :: "cached_set \<Rightarrow> match multiset" where
  "cw_retained s = mset (cw_store s)"

definition cw_capacity :: "cached_set \<Rightarrow> nat" where
  "cw_capacity s = nat (cw_cap s)"

text \<open>The cached index is right whenever the set is full.\<close>

definition cached_inv :: "cached_set \<Rightarrow> bool" where
  "cached_inv s \<longleftrightarrow> length (cw_store s) \<le> cw_capacity s \<and>
     (cw_store s \<noteq> [] \<and> length (cw_store s) = cw_capacity s \<longrightarrow>
        cw_worst s = scan_worst (cw_store s) 1 0)"

lemma cached_inv_new: "cached_inv (cached_new cap)"
  by (simp add: cached_inv_def cached_new_def)

lemma cached_topk: "topk cached_add cached_finish cw_retained cw_capacity cached_inv"
proof (unfold_locales, goal_cases)
  case (1 s c)
  then show ?case
    by (auto simp: cached_inv_def cached_add_def cached_scan_def cw_capacity_def Let_def)
next
  case (2 s c)
  then show ?case by (auto simp: cached_add_def cached_scan_def cw_capacity_def Let_def)
next
  case (3 s c)
  then show ?case
    by (auto simp: cached_add_def cached_scan_def cw_capacity_def cw_retained_def Let_def)
next
  case (4 s c)
  show ?case
  proof (cases "cw_store s = []")
    case True
    then show ?thesis using 4 by (auto simp: cached_add_def cw_capacity_def cw_retained_def)
  next
    case False
    have "cw_worst s = scan_worst (cw_store s) 1 0"
      using 4(1,2) False by (auto simp: cached_inv_def cw_retained_def)
    then have "\<not> match_less c (cw_store s ! cw_worst s)"
      using scan_worst_is_worst(1) [OF False] 4(3) by (auto simp: not_match_less cw_retained_def)
    then show ?thesis using 4(2) by (auto simp: cached_add_def cw_capacity_def cw_retained_def)
  qed
next
  case (5 s m c)
  have ne: "cw_store s \<noteq> []" using 5(3) by (auto simp: cw_retained_def)
  have eq: "cw_worst s = scan_worst (cw_store s) 1 0"
    using 5(1,2) ne by (auto simp: cached_inv_def cw_retained_def)
  note w = scan_worst_is_worst [OF ne, folded eq]
  have "match_less c (cw_store s ! cw_worst s)"
    using 5(3,4) w(2) by (auto simp: match_less_key cw_retained_def intro: less_le_trans)
  then have "cw_retained (cached_add c s) =
      add_mset c (cw_retained s - {#cw_store s ! cw_worst s#})"
    using 5(2) w(1) ne
    by (auto simp: cached_add_def cached_scan_def cw_capacity_def cw_retained_def mset_update)
  with w show ?case
    by (intro bexI [of _ "cw_store s ! cw_worst s"]) (auto simp: cw_retained_def)
next
  case (6 s)
  then show ?case by (simp add: cached_finish_def cw_retained_def)
next
  case (7 s)
  then show ?case by (simp add: cached_finish_def)
qed

interpretation cached: topk cached_add cached_finish cw_retained cw_capacity cached_inv
  by (rule cached_topk)

subsection \<open>One contract for all\<close>

lemma tk_new_facts [simp]:
  "tk_store (tk_new null capacity) = []"
  "tk_retained (tk_new null capacity) = {#}"
  "tk_inv (tk_new null capacity)"
  "sorted_inv (tk_new null capacity)"
  "tk_cap (tk_new False capacity) = nat capacity"
  by (auto simp: tk_new_def tk_retained_def tk_inv_def sorted_inv_def tk_cap_def)

lemma cached_new_facts [simp]:
  "cw_retained (cached_new cap) = {#}" "cw_capacity (cached_new cap) = nat cap"
  "cached_inv (cached_new cap)"
  by (simp_all add: cached_new_def cw_retained_def cw_capacity_def cached_inv_def)

text \<open>The two sets \<open>CandidateTopK\<close> may name.\<close>

interpretation stable_store: topk_store stable_add stable_finish tk_retained tk_cap tk_inv "tk_new False" stable_adopt
proof (unfold_locales, goal_cases)
  case (4 n k st)
  then show ?case
    by (cases st) (auto simp: stable_adopt_def tk_new_def tk_inv_def tk_cap_def tk_retained_def)
qed simp_all

interpretation sorted_new: topk_new sorted_add sorted_finish tk_retained tk_cap sorted_inv "tk_new False"
  by unfold_locales simp_all

interpretation spatial_sorted_new: topk_new spatial_sorted_add spatial_sorted_finish tk_retained tk_cap sorted_inv "tk_new False"
  by unfold_locales simp_all

interpretation cached_store: topk_store cached_add cached_finish cw_retained cw_capacity cached_inv cached_new cached_adopt
proof (unfold_locales, goal_cases)
  case (4 n k st)
  then show ?case
    by (auto simp: cached_adopt_def cached_new_def cached_inv_def cw_capacity_def cw_retained_def
        cached_scan_def cclamp_id Let_def)
qed simp_all

end
