(* ===== verification/Matcher.thy ===== *)
theory Matcher
  imports TopK
begin

text \<open>
  Block matching (src/cpu/bm/matcher.hpp, src/cpu/bm/match.cpp): the raster scan of a
  search window, the temporal order of matches and the predictive search over the frames
  of a temporal window. The distance of two patches is a parameter (src/cpu/bm/ssd.cpp
  computes it with the target's arithmetic); the scans, their order, the ordinals and the
  retained sets are the code's.
\<close>

subsection \<open>Configuration (include/nss/params.hpp)\<close>

definition kBmMaxGroup :: int where "kBmMaxGroup = 64"
definition kBmMaxRadius :: int where "kBmMaxRadius = 16"

record search_config =
  sc_block :: int
  sc_step :: int
  sc_group :: int
  sc_bm_range :: int
  sc_radius :: int
  sc_ps_num :: int
  sc_ps_range :: int
  sc_valid_t_begin :: int
  sc_valid_t_end :: int

definition default_search_config :: search_config where
  "default_search_config =
     \<lparr>sc_block = 8, sc_step = 8, sc_group = 8, sc_bm_range = 7, sc_radius = 0, sc_ps_num = 2,
      sc_ps_range = 4, sc_valid_t_begin = 0, sc_valid_t_end = - 1\<rparr>"

subsection \<open>The spatial scan\<close>

text \<open>
  One row of the window, then all rows: the ordinal counts every position, the reference
  position is skipped. \<open>add\<close> is the retained set's insertion.
\<close>

fun scan_row :: "(match \<Rightarrow> 's \<Rightarrow> 's) \<Rightarrow> (int \<Rightarrow> int \<Rightarrow> f32) \<Rightarrow> int \<Rightarrow> int \<Rightarrow> int \<Rightarrow> int list \<Rightarrow>
    32 word \<Rightarrow> 's \<Rightarrow> 32 word \<times> 's" where
  "scan_row add dist cx cy y [] ordinal s = (ordinal, s)"
| "scan_row add dist cx cy y (x # xs) ordinal s =
     scan_row add dist cx cy y xs (ordinal + 1)
       (if x = cx \<and> y = cy then s
        else add \<lparr>m_x = x, m_y = y, m_t = 0, m_dist = dist x y, m_ord = ordinal\<rparr> s)"

fun scan_rows :: "(match \<Rightarrow> 's \<Rightarrow> 's) \<Rightarrow> (int \<Rightarrow> int \<Rightarrow> f32) \<Rightarrow> int \<Rightarrow> int \<Rightarrow> int \<Rightarrow> int \<Rightarrow>
    int list \<Rightarrow> 32 word \<Rightarrow> 's \<Rightarrow> 's" where
  "scan_rows add dist cx cy left right [] ordinal s = s"
| "scan_rows add dist cx cy left right (y # ys) ordinal s =
     (let (ordinal', s') = scan_row add dist cx cy y [left..right] ordinal s
      in scan_rows add dist cx cy left right ys ordinal' s')"

text \<open>The window of a reference position along one axis.\<close>

definition window_lo :: "int \<Rightarrow> int \<Rightarrow> int" where
  "window_lo c rng = max (c - rng) 0"

definition window_hi :: "int \<Rightarrow> int \<Rightarrow> int \<Rightarrow> int" where
  "window_hi c rng limit = min (c + rng) limit"

definition self_match :: "int \<Rightarrow> int \<Rightarrow> match" where
  "self_match cx cy = \<lparr>m_x = cx, m_y = cy, m_t = 0, m_dist = f32_zero, m_ord = 0\<rparr>"

text \<open>
  \<open>collect_spatial_coords\<close> over a retained set given by its constructor, \<open>add\<close> and
  \<open>finish\<close>: the list is what is written to \<open>out\<close>, its length the returned count.
\<close>

definition collect_spatial_with ::
    "(bool \<Rightarrow> int \<Rightarrow> 's) \<Rightarrow> (match \<Rightarrow> 's \<Rightarrow> 's) \<Rightarrow> ('s \<Rightarrow> match list) \<Rightarrow> bool \<Rightarrow>
     int \<Rightarrow> int \<Rightarrow> int \<Rightarrow> int \<Rightarrow> int \<Rightarrow> int \<Rightarrow> int \<Rightarrow> (int \<Rightarrow> int \<Rightarrow> int \<Rightarrow> int \<Rightarrow> f32) \<Rightarrow> match list" where
  "collect_spatial_with new add fin out_null width height bx by block bm_range grp distance =
     (if out_null \<or> width < 1 \<or> height < 1 \<or> block < 1 \<or> width < block \<or> height < block \<or> grp < 1
      then []
      else
        let wanted = min grp kBmMaxGroup;
            max_x = width - block; max_y = height - block;
            cx = cclamp bx 0 max_x; cy = cclamp by 0 max_y;
            rng = max bm_range 0;
            upper = window_lo cy rng; lower = window_hi cy rng max_y;
            left = window_lo cx rng; right = window_hi cx rng max_x
        in if wanted = 1 then [self_match cx cy]
           else self_match cx cy #
             fin (scan_rows add (distance cx cy) cx cy left right [upper..lower] 1
                    (new False (wanted - 1))))"

text \<open>The retained set of the build: \<open>StableTopK\<close>, or \<open>SpatialSortedTopK\<close> on arm64.\<close>

definition collect_spatial_coords ::
    "bool \<Rightarrow> int \<Rightarrow> int \<Rightarrow> int \<Rightarrow> int \<Rightarrow> int \<Rightarrow> int \<Rightarrow> int \<Rightarrow> (int \<Rightarrow> int \<Rightarrow> int \<Rightarrow> int \<Rightarrow> f32) \<Rightarrow> match list" where
  "collect_spatial_coords = collect_spatial_with tk_new stable_add stable_finish"

definition collect_spatial_coords_arm ::
    "bool \<Rightarrow> int \<Rightarrow> int \<Rightarrow> int \<Rightarrow> int \<Rightarrow> int \<Rightarrow> int \<Rightarrow> int \<Rightarrow> (int \<Rightarrow> int \<Rightarrow> int \<Rightarrow> int \<Rightarrow> f32) \<Rightarrow> match list" where
  "collect_spatial_coords_arm = collect_spatial_with tk_new spatial_sorted_add spatial_sorted_finish"

subsection \<open>The candidates of a window\<close>

text \<open>The matches a scan adds, in order: the specification of \<open>scan_rows\<close>.\<close>

definition row_candidates :: "(int \<Rightarrow> int \<Rightarrow> f32) \<Rightarrow> int \<Rightarrow> int \<Rightarrow> int \<Rightarrow> int \<Rightarrow> int \<Rightarrow> int \<Rightarrow> match list" where
  "row_candidates dist cx cy left right base y =
     map (\<lambda>x. \<lparr>m_x = x, m_y = y, m_t = 0, m_dist = dist x y, m_ord = word_of_int (base + (x - left))\<rparr>)
       (filter (\<lambda>x. \<not> (x = cx \<and> y = cy)) [left..right])"

definition window_candidates :: "(int \<Rightarrow> int \<Rightarrow> f32) \<Rightarrow> int \<Rightarrow> int \<Rightarrow> int \<Rightarrow> int \<Rightarrow> int \<Rightarrow> int \<Rightarrow> match list" where
  "window_candidates dist cx cy left right upper lower =
     concat (map (\<lambda>y. row_candidates dist cx cy left right (1 + (y - upper) * (right - left + 1)) y) [upper..lower])"

lemma scan_row_fold:
  "scan_row add dist cx cy y [a..b] (word_of_int n) s =
     (word_of_int (n + max 0 (b - a + 1)),
      fold add (map (\<lambda>x. \<lparr>m_x = x, m_y = y, m_t = 0, m_dist = dist x y, m_ord = word_of_int (n + (x - a))\<rparr>)
        (filter (\<lambda>x. \<not> (x = cx \<and> y = cy)) [a..b])) s)"
proof (induction "nat (b - a + 1)" arbitrary: a n s)
  case 0
  then show ?case by simp
next
  case (Suc k)
  have up: "[a..b] = a # [a + 1..b]" using Suc.hyps(2) by (intro upto_rec1) simp
  have len: "k = nat (b - (a + 1) + 1)" using Suc.hyps(2) by simp
  have shift: "n + 1 + (x - (a + 1)) = n + (x - a)" for x by simp
  let ?s = "if a = cx \<and> y = cy then s
    else add \<lparr>m_x = a, m_y = y, m_t = 0, m_dist = dist a y, m_ord = word_of_int n\<rparr> s"
  have "word_of_int n + 1 = (word_of_int (n + 1) :: 32 word)" by simp
  then have "scan_row add dist cx cy y [a..b] (word_of_int n) s =
      scan_row add dist cx cy y [a + 1..b] (word_of_int (n + 1)) ?s"
    unfolding up by simp
  also have "\<dots> = (word_of_int (n + 1 + max 0 (b - (a + 1) + 1)),
      fold add (map (\<lambda>x. \<lparr>m_x = x, m_y = y, m_t = 0, m_dist = dist x y, m_ord = word_of_int (n + (x - a))\<rparr>)
        (filter (\<lambda>x. \<not> (x = cx \<and> y = cy)) [a + 1..b])) ?s)"
    using Suc.hyps(1) [OF len, of "n + 1" ?s] by (simp only: shift)
  also have "n + 1 + max 0 (b - (a + 1) + 1) = n + max 0 (b - a + 1)" using Suc.hyps(2) by simp
  finally show ?case by (simp add: up)
qed

lemma scan_rows_fold:
  assumes "left \<le> right + 1"
  shows "scan_rows add dist cx cy left right [upper'..lower]
      (word_of_int (1 + (upper' - upper) * (right - left + 1))) s =
    fold add (concat (map (\<lambda>y. row_candidates dist cx cy left right
      (1 + (y - upper) * (right - left + 1)) y) [upper'..lower])) s"
proof (induction "nat (lower - upper' + 1)" arbitrary: upper' s)
  case 0
  then show ?case by simp
next
  case (Suc k)
  have up: "[upper'..lower] = upper' # [upper' + 1..lower]" using Suc.hyps(2) by (intro upto_rec1) simp
  have len: "k = nat (lower - (upper' + 1) + 1)" using Suc.hyps(2) by simp
  have next_base: "1 + (upper' - upper) * (right - left + 1) + max 0 (right - left + 1) =
      1 + (upper' + 1 - upper) * (right - left + 1)"
    using assms by (simp add: algebra_simps)
  show ?case
    unfolding up scan_rows.simps scan_row_fold prod.case next_base Let_def
    by (simp only: Suc.hyps(1) [OF len] list.map concat.simps fold_append o_def row_candidates_def)
qed

lemma scan_rows_candidates:
  assumes "left \<le> right + 1"
  shows "scan_rows add dist cx cy left right [upper..lower] 1 s =
    fold add (window_candidates dist cx cy left right upper lower) s"
  using scan_rows_fold [OF assms, of add dist cx cy upper lower upper s]
  by (simp add: window_candidates_def)

text \<open>The positions of the candidates: the window without the reference, each once.\<close>

lemma row_candidates_facts:
  "c \<in> set (row_candidates dist cx cy left right base y) \<longleftrightarrow>
     (\<exists>x. left \<le> x \<and> x \<le> right \<and> \<not> (x = cx \<and> y = cy) \<and>
       c = \<lparr>m_x = x, m_y = y, m_t = 0, m_dist = dist x y, m_ord = word_of_int (base + (x - left))\<rparr>)"
  by (auto simp: row_candidates_def)

lemma distinct_row_candidates: "distinct (map position (row_candidates dist cx cy left right base y))"
  by (simp add: row_candidates_def position_def comp_def distinct_map inj_on_def)

lemma distinct_window_candidates:
  "distinct (map position (window_candidates dist cx cy left right upper lower))"
proof -
  have "distinct (map position (concat (map (\<lambda>y. row_candidates dist cx cy left right (g y) y) ys)))"
    if "distinct ys" for ys g
    using that
  proof (induction ys)
    case Nil
    then show ?case by simp
  next
    case (Cons y ys)
    have "position ` set (row_candidates dist cx cy left right (g y) y) \<inter>
        position ` set (concat (map (\<lambda>y. row_candidates dist cx cy left right (g y) y) ys)) = {}"
      using Cons.prems by (auto simp: row_candidates_facts position_def)
    with Cons show ?case by (simp add: distinct_row_candidates)
  qed
  then show ?thesis by (simp add: window_candidates_def)
qed

lemma window_candidates_set:
  "c \<in> set (window_candidates dist cx cy left right upper lower) \<Longrightarrow>
     left \<le> m_x c \<and> m_x c \<le> right \<and> upper \<le> m_y c \<and> m_y c \<le> lower \<and> m_t c = 0 \<and>
     (m_x c, m_y c) \<noteq> (cx, cy) \<and> m_dist c = dist (m_x c) (m_y c)"
  by (auto simp: window_candidates_def row_candidates_facts)

lemma window_candidates_complete:
  assumes "left \<le> x" "x \<le> right" "upper \<le> y" "y \<le> lower" "(x, y) \<noteq> (cx, cy)"
  shows "(0, y, x) \<in> position ` set (window_candidates dist cx cy left right upper lower)"
proof -
  let ?b = "1 + (y - upper) * (right - left + 1)"
  let ?c = "\<lparr>m_x = x, m_y = y, m_t = 0, m_dist = dist x y, m_ord = word_of_int (?b + (x - left))\<rparr>"
  have "?c \<in> set (row_candidates dist cx cy left right ?b y)"
    using assms by (auto simp: row_candidates_facts)
  then have "?c \<in> set (window_candidates dist cx cy left right upper lower)"
    using assms(3,4) by (auto simp: window_candidates_def)
  moreover have "position ?c = (0, y, x)" by (simp add: position_def)
  ultimately show ?thesis by (metis imageI)
qed

lemma window_candidates_positions:
  "position ` set (window_candidates dist cx cy left right upper lower) =
     {(0, y, x) | x y. left \<le> x \<and> x \<le> right \<and> upper \<le> y \<and> y \<le> lower \<and> (x, y) \<noteq> (cx, cy)}"
  (is "?l = ?r")
proof (rule set_eqI, rule iffI)
  fix p assume "p \<in> ?l"
  then obtain c where "c \<in> set (window_candidates dist cx cy left right upper lower)" "p = position c"
    by blast
  then show "p \<in> ?r"
    using window_candidates_set by (auto simp: position_def)
next
  fix p assume "p \<in> ?r"
  then show "p \<in> ?l" using window_candidates_complete by blast
qed

subsection \<open>The result of the spatial search\<close>

text \<open>The arguments the matcher accepts, and the candidates of the clamped position.\<close>

definition spatial_args_ok :: "int \<Rightarrow> int \<Rightarrow> int \<Rightarrow> int \<Rightarrow> bool" where
  "spatial_args_ok width height block grp \<longleftrightarrow>
     1 \<le> width \<and> 1 \<le> height \<and> 1 \<le> block \<and> block \<le> width \<and> block \<le> height \<and> 1 \<le> grp"

definition spatial_candidates ::
    "int \<Rightarrow> int \<Rightarrow> int \<Rightarrow> int \<Rightarrow> int \<Rightarrow> int \<Rightarrow> (int \<Rightarrow> int \<Rightarrow> int \<Rightarrow> int \<Rightarrow> f32) \<Rightarrow> match list" where
  "spatial_candidates width height bx by block bm_range distance =
     (let cx = cclamp bx 0 (width - block); cy = cclamp by 0 (height - block); rng = max bm_range 0
      in window_candidates (distance cx cy) cx cy
           (window_lo cx rng) (window_hi cx rng (width - block))
           (window_lo cy rng) (window_hi cy rng (height - block)))"

lemma distinct_spatial_candidates:
  "distinct (map position (spatial_candidates width height bx by block bm_range distance))"
  by (simp add: spatial_candidates_def Let_def distinct_window_candidates)

lemma spatial_candidates_bounds:
  assumes "c \<in> set (spatial_candidates width height bx by block bm_range distance)"
  shows "0 \<le> m_x c \<and> m_x c \<le> width - block \<and> 0 \<le> m_y c \<and> m_y c \<le> height - block \<and> m_t c = 0 \<and>
    \<bar>m_x c - cclamp bx 0 (width - block)\<bar> \<le> max bm_range 0 \<and>
    \<bar>m_y c - cclamp by 0 (height - block)\<bar> \<le> max bm_range 0 \<and>
    (m_x c, m_y c) \<noteq> (cclamp bx 0 (width - block), cclamp by 0 (height - block))"
  using window_candidates_set [OF assms [unfolded spatial_candidates_def Let_def]]
  by (auto simp: window_lo_def window_hi_def)

lemma spatial_candidates_complete:
  assumes "0 \<le> x" "x \<le> width - block" "0 \<le> y" "y \<le> height - block"
    and "\<bar>x - cclamp bx 0 (width - block)\<bar> \<le> max bm_range 0"
    and "\<bar>y - cclamp by 0 (height - block)\<bar> \<le> max bm_range 0"
    and "(x, y) \<noteq> (cclamp bx 0 (width - block), cclamp by 0 (height - block))"
  shows "(0, y, x) \<in> position ` set (spatial_candidates width height bx by block bm_range distance)"
  unfolding spatial_candidates_def Let_def
  using assms by (intro window_candidates_complete) (auto simp: window_lo_def window_hi_def)

lemma spatial_candidates_positions:
  "position ` set (spatial_candidates width height bx by block bm_range distance) =
     {(0, y, x) | x y. 0 \<le> x \<and> x \<le> width - block \<and> 0 \<le> y \<and> y \<le> height - block \<and>
        \<bar>x - cclamp bx 0 (width - block)\<bar> \<le> max bm_range 0 \<and>
        \<bar>y - cclamp by 0 (height - block)\<bar> \<le> max bm_range 0 \<and>
        (x, y) \<noteq> (cclamp bx 0 (width - block), cclamp by 0 (height - block))}" (is "?l = ?r")
proof (rule set_eqI, rule iffI)
  fix p assume "p \<in> ?l"
  then obtain c where c: "c \<in> set (spatial_candidates width height bx by block bm_range distance)"
    and p: "p = (m_t c, m_y c, m_x c)" by (auto simp: position_def)
  show "p \<in> ?r" using spatial_candidates_bounds [OF c] unfolding p by simp
next
  fix p assume "p \<in> ?r"
  then obtain x y where p: "p = (0, y, x)" and "0 \<le> x" "x \<le> width - block" "0 \<le> y" "y \<le> height - block"
    "\<bar>x - cclamp bx 0 (width - block)\<bar> \<le> max bm_range 0"
    "\<bar>y - cclamp by 0 (height - block)\<bar> \<le> max bm_range 0"
    "(x, y) \<noteq> (cclamp bx 0 (width - block), cclamp by 0 (height - block))" by blast
  then show "p \<in> ?l" unfolding p by (intro spatial_candidates_complete)
qed

lemma spatial_candidates_dist:
  "\<forall>c \<in> set (spatial_candidates width height bx by block bm_range distance).
     m_dist c = distance (cclamp bx 0 (width - block)) (cclamp by 0 (height - block)) (m_x c) (m_y c)"
  using window_candidates_set unfolding spatial_candidates_def Let_def by blast

lemma collect_spatial_with_run:
  assumes "topk_new add fin kept room ok new" "spatial_args_ok width height block grp"
  shows "collect_spatial_with (\<lambda>_. new) add fin False width height bx by block bm_range grp distance =
    self_match (cclamp bx 0 (width - block)) (cclamp by 0 (height - block)) #
    take (nat (min grp kBmMaxGroup - 1))
      (sort_key match_key (spatial_candidates width height bx by block bm_range distance))"
proof -
  let ?cx = "cclamp bx 0 (width - block)" and ?cy = "cclamp by 0 (height - block)"
  let ?r = "max bm_range 0"
  have b: "0 \<le> width - block" "0 \<le> height - block"
    using assms(2) by (simp_all add: spatial_args_ok_def)
  have cx: "0 \<le> ?cx" "?cx \<le> width - block" using cclamp_bounds [OF b(1)] by simp_all
  have le: "window_lo ?cx ?r \<le> window_hi ?cx ?r (width - block) + 1"
    using cx b by (simp add: window_lo_def window_hi_def)
  note scan = scan_rows_candidates [OF le]
  have d: "distinct (map position (window_candidates (distance ?cx ?cy) ?cx ?cy
      (window_lo ?cx ?r) (window_hi ?cx ?r (width - block))
      (window_lo ?cy ?r) (window_hi ?cy ?r (height - block))))"
    by (rule distinct_window_candidates)
  note run = topk_new.run_list [OF assms(1) d, of "min grp kBmMaxGroup - 1"]
  have ok: "\<not> (False \<or> width < 1 \<or> height < 1 \<or> block < 1 \<or> width < block \<or> height < block \<or> grp < 1)"
    using assms(2) by (auto simp: spatial_args_ok_def)
  show ?thesis
    unfolding collect_spatial_with_def if_not_P [OF ok] Let_def scan run spatial_candidates_def
    by simp
qed

lemma collect_spatial_coords_run:
  assumes "spatial_args_ok width height block grp"
  shows "collect_spatial_coords False width height bx by block bm_range grp distance =
    self_match (cclamp bx 0 (width - block)) (cclamp by 0 (height - block)) #
    take (nat (min grp kBmMaxGroup - 1))
      (sort_key match_key (spatial_candidates width height bx by block bm_range distance))"
proof -
  have "collect_spatial_coords False width height bx by block bm_range grp distance =
      collect_spatial_with (\<lambda>_. tk_new False) stable_add stable_finish False width height bx by block
        bm_range grp distance"
    by (simp add: collect_spatial_coords_def collect_spatial_with_def)
  then show ?thesis
    using collect_spatial_with_run [OF stable_store.topk_new_axioms assms] by simp
qed

lemma collect_spatial_coords_arm_run:
  assumes "spatial_args_ok width height block grp"
  shows "collect_spatial_coords_arm False width height bx by block bm_range grp distance =
    self_match (cclamp bx 0 (width - block)) (cclamp by 0 (height - block)) #
    take (nat (min grp kBmMaxGroup - 1))
      (sort_key match_key (spatial_candidates width height bx by block bm_range distance))"
proof -
  have "collect_spatial_coords_arm False width height bx by block bm_range grp distance =
      collect_spatial_with (\<lambda>_. tk_new False) spatial_sorted_add spatial_sorted_finish False width height
        bx by block bm_range grp distance"
    by (simp add: collect_spatial_coords_arm_def collect_spatial_with_def)
  then show ?thesis
    using collect_spatial_with_run [OF spatial_sorted_new.topk_new_axioms assms] by simp
qed

text \<open>Every match lies in the plane, no position comes twice, and there are at most 64.\<close>

lemma collect_spatial_facts:
  assumes "spatial_args_ok width height block grp"
    and out_eq: "out = collect_spatial_coords False width height bx by block bm_range grp distance"
  shows "out \<noteq> []" "hd out = self_match (cclamp bx 0 (width - block)) (cclamp by 0 (height - block))"
    and "distinct (map position out)" "int (length out) \<le> min grp kBmMaxGroup"
    and "\<forall>m \<in> set out. 0 \<le> m_x m \<and> m_x m \<le> width - block \<and> 0 \<le> m_y m \<and> m_y m \<le> height - block \<and> m_t m = 0"
proof -
  let ?cx = "cclamp bx 0 (width - block)" and ?cy = "cclamp by 0 (height - block)"
  let ?cs = "spatial_candidates width height bx by block bm_range distance"
  let ?rest = "take (nat (min grp kBmMaxGroup - 1)) (sort_key match_key ?cs)"
  have out: "out = self_match ?cx ?cy # ?rest"
    unfolding out_eq by (rule collect_spatial_coords_run [OF assms(1)])
  have b: "0 \<le> width - block" "0 \<le> height - block" and g: "1 \<le> grp"
    using assms(1) by (simp_all add: spatial_args_ok_def)
  have sub: "set ?rest \<subseteq> set ?cs" by (metis set_sort set_take_subset)
  show "out \<noteq> []" "hd out = self_match ?cx ?cy" by (simp_all add: out)
  have "mset (sort_key match_key ?cs) = mset ?cs" by simp
  then have "distinct (map position (sort_key match_key ?cs))"
    using distinct_spatial_candidates by (metis mset_eq_imp_distinct_iff mset_map)
  then have dr: "distinct (map position ?rest)" by (simp only: take_map [symmetric] distinct_take)
  moreover have "position (self_match ?cx ?cy) \<notin> position ` set ?rest"
    using sub spatial_candidates_bounds by (fastforce simp: position_def self_match_def)
  ultimately show "distinct (map position out)" by (simp add: out)
  show "int (length out) \<le> min grp kBmMaxGroup"
    using g by (auto simp: out kBmMaxGroup_def min_def)
  show "\<forall>m \<in> set out. 0 \<le> m_x m \<and> m_x m \<le> width - block \<and> 0 \<le> m_y m \<and> m_y m \<le> height - block \<and> m_t m = 0"
    using sub spatial_candidates_bounds cclamp_bounds [OF b(1), of bx] cclamp_bounds [OF b(2), of "by"]
    by (auto simp: out self_match_def)
qed

subsection \<open>\<open>spatial_match\<close> (src/cpu/bm/ssd.cpp)\<close>

text \<open>
  The dispatcher: arguments are checked, the position is clamped, and a block size the
  target has a vector kernel for goes to that kernel. \<open>fast block grp\<close> is that kernel
  when there is one; every other block goes to the generic scan.
\<close>

definition spatial_match ::
    "(int \<Rightarrow> int \<Rightarrow> (int \<Rightarrow> int \<Rightarrow> int \<Rightarrow> match list) option) \<Rightarrow> bool \<Rightarrow> bool \<Rightarrow> int \<Rightarrow> int \<Rightarrow> int \<Rightarrow> int \<Rightarrow> int \<Rightarrow>
     int \<Rightarrow> int \<Rightarrow> int \<Rightarrow> (int \<Rightarrow> int \<Rightarrow> int \<Rightarrow> int \<Rightarrow> f32) \<Rightarrow> match list" where
  "spatial_match fast ref_null out_null stride width height bx by block bm_range grp distance =
     (if ref_null \<or> out_null \<or> width < 1 \<or> height < 1 \<or> block < 1 \<or> stride < width \<or>
         width - block < 0 \<or> height - block < 0 \<or> grp < 1
      then []
      else
        let cx = cclamp bx 0 (width - block); cy = cclamp by 0 (height - block)
        in case fast block grp of
             Some fast_kernel \<Rightarrow> fast_kernel cx cy (max bm_range 0)
           | None \<Rightarrow> collect_spatial_coords False width height cx cy block bm_range grp distance)"

lemma cclamp_idem: "lo \<le> hi \<Longrightarrow> cclamp (cclamp v lo hi) lo hi = cclamp v lo hi"
  by (auto simp: cclamp_def)

lemma spatial_match_generic:
  assumes "spatial_args_ok width height block grp" "width \<le> stride" "fast block grp = None"
  shows "spatial_match fast False False stride width height bx by block bm_range grp distance =
    collect_spatial_coords False width height bx by block bm_range grp distance"
  using assms unfolding collect_spatial_coords_run [OF assms(1)]
  by (simp add: spatial_match_def spatial_args_ok_def collect_spatial_coords_run cclamp_idem
      spatial_candidates_def Let_def)

end
