(* ===== verification/Temporal_Match.thy ===== *)
theory Temporal_Match
  imports Matcher
begin

text \<open>
  The predictive search over the frames of a temporal window
  (\<open>assign_temporal_order\<close> and \<open>collect_temporal\<close> of src/cpu/bm/matcher.hpp,
  \<open>predictive_match\<close> of src/cpu/bm/match.cpp). From the reference frame outwards, each
  frame is searched in the union of the windows around the best matches of the frame
  before it; every row of the union is swept once over sorted intervals. The specification
  at the end says what the sweeps and the retained sets compute: the best matches of the
  set union, and the best of all frames.
\<close>

subsection \<open>The temporal order of matches\<close>

definition kFrameStride :: "32 word" where "kFrameStride = push_bit 20 1"

fun assign_temporal_order :: "match list \<Rightarrow> int \<Rightarrow> int \<Rightarrow> 32 word \<Rightarrow> match list \<times> 32 word" where
  "assign_temporal_order [] t reference_t next_ordinal = ([], next_ordinal)"
| "assign_temporal_order (m # ms) t reference_t next_ordinal =
     (let local = m_ord m;
          m' = (if t = reference_t \<and> local = 0 then m\<lparr>m_t := t, m_ord := 0\<rparr>
                else m\<lparr>m_t := t, m_ord := word_of_int (max t 0 + 1) * kFrameStride + local\<rparr>);
          (ms', next') = assign_temporal_order ms t reference_t (max next_ordinal (m_ord m' + 1))
      in (m' # ms', next'))"

text \<open>One match in temporal order.\<close>

definition temporal_order :: "int \<Rightarrow> int \<Rightarrow> match \<Rightarrow> match" where
  "temporal_order t reference_t m =
     (if t = reference_t \<and> m_ord m = 0 then m\<lparr>m_t := t, m_ord := 0\<rparr>
      else m\<lparr>m_t := t, m_ord := word_of_int (max t 0 + 1) * kFrameStride + m_ord m\<rparr>)"

lemma assign_temporal_order_map:
  "fst (assign_temporal_order ms t rt nxt) = map (temporal_order t rt) ms"
  by (induction ms arbitrary: nxt) (simp_all add: temporal_order_def Let_def prod.case_eq_if)

lemma temporal_order_facts [simp]:
  "m_x (temporal_order t rt m) = m_x m" "m_y (temporal_order t rt m) = m_y m"
  "m_t (temporal_order t rt m) = t" "m_dist (temporal_order t rt m) = m_dist m"
  by (simp_all add: temporal_order_def)

lemma position_temporal_order [simp]: "position (temporal_order t rt m) = (t, m_y m, m_x m)"
  by (simp add: position_def)

subsection \<open>The sweep of one frame\<close>

text \<open>
  The state of a sweep: the number of the next visit, the next temporal ordinal, and the
  retained set.
\<close>

type_synonym 's sweep = "32 word \<times> 32 word \<times> 's"

fun visit_xs :: "(match \<Rightarrow> 's \<Rightarrow> 's) \<Rightarrow> (int \<Rightarrow> int \<Rightarrow> int \<Rightarrow> f32) \<Rightarrow> int \<Rightarrow> int \<Rightarrow> int \<Rightarrow>
    int list \<Rightarrow> 's sweep \<Rightarrow> 's sweep" where
  "visit_xs add distance t t0 y [] st = st"
| "visit_xs add distance t t0 y (x # xs) (visit, ordinal, s) =
     (let m = \<lparr>m_x = x, m_y = y, m_t = t, m_dist = distance t x y, m_ord = visit\<rparr>;
          (ms, ordinal') = assign_temporal_order [m] t t0 ordinal
      in visit_xs add distance t t0 y xs (visit + 1, ordinal', add (hd ms) s))"

fun visit_intervals :: "(match \<Rightarrow> 's \<Rightarrow> 's) \<Rightarrow> (int \<Rightarrow> int \<Rightarrow> int \<Rightarrow> f32) \<Rightarrow> int \<Rightarrow> int \<Rightarrow> int \<Rightarrow>
    int \<Rightarrow> (int \<times> int) list \<Rightarrow> 's sweep \<Rightarrow> 's sweep" where
  "visit_intervals add distance t t0 y done' [] st = st"
| "visit_intervals add distance t t0 y done' ((a, b) # ivs) st =
     visit_intervals add distance t t0 y (max done' b) ivs
       (visit_xs add distance t t0 y [max (done' + 1) a..b] st)"

definition row_intervals :: "search_config \<Rightarrow> int \<Rightarrow> int \<Rightarrow> match list \<Rightarrow> (int \<times> int) list" where
  "row_intervals cfg width y centers =
     map (\<lambda>c. (max 0 (m_x c - sc_ps_range cfg), min (width - sc_block cfg) (m_x c + sc_ps_range cfg)))
       (filter (\<lambda>c. \<bar>y - m_y c\<bar> \<le> sc_ps_range cfg) centers)"

fun visit_rows :: "(match \<Rightarrow> 's \<Rightarrow> 's) \<Rightarrow> (int \<Rightarrow> int \<Rightarrow> int \<Rightarrow> f32) \<Rightarrow> int \<Rightarrow> int \<Rightarrow> search_config \<Rightarrow> int \<Rightarrow>
    match list \<Rightarrow> int list \<Rightarrow> 's sweep \<Rightarrow> 's sweep" where
  "visit_rows add distance t t0 cfg width centers [] st = st"
| "visit_rows add distance t t0 cfg width centers (y # ys) st =
     visit_rows add distance t t0 cfg width centers ys
       (visit_intervals add distance t t0 y (- 1)
          (std_sort (\<lambda>a b. a < b) (row_intervals cfg width y centers)) st)"

definition layer_ymin :: "search_config \<Rightarrow> int \<Rightarrow> match list \<Rightarrow> int" where
  "layer_ymin cfg height centers =
     fold (\<lambda>c ymin. min ymin (max 0 (m_y c - sc_ps_range cfg))) centers height"

definition layer_ymax :: "search_config \<Rightarrow> int \<Rightarrow> match list \<Rightarrow> int" where
  "layer_ymax cfg height centers =
     fold (\<lambda>c ymax. max ymax (min (height - sc_block cfg) (m_y c + sc_ps_range cfg))) centers (- 1)"

definition temporal_layer :: "(int \<Rightarrow> 's) \<Rightarrow> (match \<Rightarrow> 's \<Rightarrow> 's) \<Rightarrow> ('s \<Rightarrow> match list) \<Rightarrow>
    (int \<Rightarrow> int \<Rightarrow> int \<Rightarrow> f32) \<Rightarrow> int \<Rightarrow> int \<Rightarrow> search_config \<Rightarrow> int \<Rightarrow> int \<Rightarrow> match list \<Rightarrow> 32 word \<Rightarrow>
    match list \<times> 32 word" where
  "temporal_layer new add fin distance t t0 cfg width height centers ordinal =
     (let (visit, ordinal', s) =
            visit_rows add distance t t0 cfg width centers
              [layer_ymin cfg height centers..layer_ymax cfg height centers]
              (1, ordinal, new (min (sc_ps_num cfg) (sc_group cfg)))
      in (fin s, ordinal'))"

text \<open>The walk away from the reference frame in one direction.\<close>

fun temporal_walk :: "(int \<Rightarrow> 's) \<Rightarrow> (match \<Rightarrow> 's \<Rightarrow> 's) \<Rightarrow> ('s \<Rightarrow> match list) \<Rightarrow>
    (int \<Rightarrow> int \<Rightarrow> int \<Rightarrow> f32) \<Rightarrow> int \<Rightarrow> search_config \<Rightarrow> int \<Rightarrow> int \<Rightarrow> int \<Rightarrow> int \<Rightarrow> int \<Rightarrow> int list \<Rightarrow>
    match list \<Rightarrow> 32 word \<times> 's \<Rightarrow> 32 word \<times> 's" where
  "temporal_walk new add fin distance t0 cfg width height first last' sign [] centers st = st"
| "temporal_walk new add fin distance t0 cfg width height first last' sign (dt # dts) centers (ordinal, global) =
     (let t = t0 + sign * dt
      in if t < first \<or> t \<ge> last' then (ordinal, global)
         else
           let (local, ordinal') = temporal_layer new add fin distance t t0 cfg width height centers ordinal;
               global' = fold add local global
           in if local = [] then (ordinal', global')
              else temporal_walk new add fin distance t0 cfg width height first last' sign dts local
                     (ordinal', global'))"

definition temporal_first_frame :: "search_config \<Rightarrow> int" where
  "temporal_first_frame cfg = max 0 (sc_valid_t_begin cfg)"

definition temporal_last_frame :: "search_config \<Rightarrow> int \<Rightarrow> int" where
  "temporal_last_frame cfg ntemp = (if sc_valid_t_end cfg < 0 then ntemp else min ntemp (sc_valid_t_end cfg))"

definition collect_temporal_with :: "(int \<Rightarrow> 's) \<Rightarrow> (match \<Rightarrow> 's \<Rightarrow> 's) \<Rightarrow> ('s \<Rightarrow> match list) \<Rightarrow>
    (match list \<Rightarrow> int \<Rightarrow> 's \<Rightarrow> 's) \<Rightarrow> int \<Rightarrow> int \<Rightarrow> int \<Rightarrow> int \<Rightarrow> search_config \<Rightarrow> match list \<Rightarrow>
    (int \<Rightarrow> int \<Rightarrow> int \<Rightarrow> f32) \<Rightarrow> match list" where
  "collect_temporal_with new add fin adopt width height t0 ntemp cfg out distance =
     (let n = int (length out);
          (out', ordinal) = assign_temporal_order out t0 t0 0
      in if n \<le> 0 \<or> sc_radius cfg = 0 \<or> ntemp = 1 \<or> sc_group cfg = 1 then out'
         else
           let seeds = take (nat (min n (min (sc_ps_num cfg) kBmMaxGroup))) out';
               global = adopt (tl out') (n - 1) (new (sc_group cfg - 1));
               first = temporal_first_frame cfg;
               last' = temporal_last_frame cfg ntemp;
               walk = (\<lambda>sign. temporal_walk new add fin distance t0 cfg width height first last' sign
                         [1..sc_radius cfg] seeds);
               (ordinal', global') = walk 1 (walk (- 1) (ordinal, global))
           in hd out' # fin global')"

text \<open>\<open>CandidateTopK\<close> of the default build, and of the \<open>NSS_BM_EXPERIMENT & 2\<close> build.\<close>

definition collect_temporal :: "int \<Rightarrow> int \<Rightarrow> int \<Rightarrow> int \<Rightarrow> search_config \<Rightarrow> match list \<Rightarrow>
    (int \<Rightarrow> int \<Rightarrow> int \<Rightarrow> f32) \<Rightarrow> match list" where
  "collect_temporal = collect_temporal_with (tk_new False) stable_add stable_finish stable_adopt"

definition collect_temporal_cached :: "int \<Rightarrow> int \<Rightarrow> int \<Rightarrow> int \<Rightarrow> search_config \<Rightarrow> match list \<Rightarrow>
    (int \<Rightarrow> int \<Rightarrow> int \<Rightarrow> f32) \<Rightarrow> match list" where
  "collect_temporal_cached = collect_temporal_with cached_new cached_add cached_finish cached_adopt"

subsection \<open>Specification\<close>

text \<open>The positions of a plane, in raster order, within reach of a center.\<close>

definition in_reach :: "search_config \<Rightarrow> match list \<Rightarrow> int \<Rightarrow> int \<Rightarrow> bool" where
  "in_reach cfg centers y x \<longleftrightarrow>
     (\<exists>c \<in> set centers. \<bar>y - m_y c\<bar> \<le> sc_ps_range cfg \<and> \<bar>x - m_x c\<bar> \<le> sc_ps_range cfg)"

definition reach :: "search_config \<Rightarrow> int \<Rightarrow> int \<Rightarrow> match list \<Rightarrow> (int \<times> int) list" where
  "reach cfg width height centers =
     concat (map (\<lambda>y. map (Pair y) (filter (in_reach cfg centers y) [0..width - sc_block cfg]))
       [0..height - sc_block cfg])"

text \<open>The candidates of a frame, numbered in the order of the visit.\<close>

fun frame_matches :: "(int \<Rightarrow> int \<Rightarrow> int \<Rightarrow> f32) \<Rightarrow> int \<Rightarrow> int \<Rightarrow> 32 word \<Rightarrow> (int \<times> int) list \<Rightarrow> match list" where
  "frame_matches distance t t0 v [] = []"
| "frame_matches distance t t0 v ((y, x) # ps) =
     temporal_order t t0 \<lparr>m_x = x, m_y = y, m_t = t, m_dist = distance t x y, m_ord = v\<rparr>
     # frame_matches distance t t0 (v + 1) ps"

definition best_matches :: "int \<Rightarrow> match list \<Rightarrow> match list" where
  "best_matches k cs = take (nat k) (sort_key match_key cs)"

definition frame_best :: "(int \<Rightarrow> int \<Rightarrow> int \<Rightarrow> f32) \<Rightarrow> int \<Rightarrow> int \<Rightarrow> search_config \<Rightarrow> int \<Rightarrow> int \<Rightarrow>
    match list \<Rightarrow> match list" where
  "frame_best distance t t0 cfg width height centers =
     best_matches (min (sc_ps_num cfg) (sc_group cfg))
       (frame_matches distance t t0 1 (reach cfg width height centers))"

fun walk_frames :: "(int \<Rightarrow> int \<Rightarrow> int \<Rightarrow> f32) \<Rightarrow> int \<Rightarrow> search_config \<Rightarrow> int \<Rightarrow> int \<Rightarrow> int \<Rightarrow> int \<Rightarrow> int \<Rightarrow>
    int list \<Rightarrow> match list \<Rightarrow> match list" where
  "walk_frames distance t0 cfg width height first last' sign [] centers = []"
| "walk_frames distance t0 cfg width height first last' sign (dt # dts) centers =
     (if t0 + sign * dt < first \<or> t0 + sign * dt \<ge> last' then []
      else
        let local = frame_best distance (t0 + sign * dt) t0 cfg width height centers
        in local @ (if local = [] then []
             else walk_frames distance t0 cfg width height first last' sign dts local))"

definition temporal_spec :: "int \<Rightarrow> int \<Rightarrow> int \<Rightarrow> int \<Rightarrow> search_config \<Rightarrow> match list \<Rightarrow>
    (int \<Rightarrow> int \<Rightarrow> int \<Rightarrow> f32) \<Rightarrow> match list" where
  "temporal_spec width height t0 ntemp cfg spatial distance =
     (let own = map (temporal_order t0 t0) spatial;
          seeds = take (nat (min (sc_ps_num cfg) kBmMaxGroup)) own;
          frames = (\<lambda>sign. walk_frames distance t0 cfg width height (temporal_first_frame cfg)
                      (temporal_last_frame cfg ntemp) sign [1..sc_radius cfg] seeds)
      in if own = [] \<or> sc_radius cfg = 0 \<or> ntemp = 1 \<or> sc_group cfg = 1 then own
         else hd own # best_matches (sc_group cfg - 1) (tl own @ frames (- 1) @ frames 1))"

subsection \<open>The sweep visits the union once, in raster order\<close>

fun sweep_xs :: "int \<Rightarrow> (int \<times> int) list \<Rightarrow> int list" where
  "sweep_xs done' [] = []"
| "sweep_xs done' ((a, b) # ivs) = [max (done' + 1) a..b] @ sweep_xs (max done' b) ivs"

lemma sweep_xs_set:
  assumes "sorted (map fst ivs)"
  shows "set (sweep_xs d ivs) = {x. d < x \<and> (\<exists>(a, b) \<in> set ivs. a \<le> x \<and> x \<le> b)}"
  using assms
proof (induction ivs arbitrary: d)
  case Nil
  then show ?case by simp
next
  case (Cons iv ivs)
  obtain a b where iv: "iv = (a, b)" by (cases iv)
  have le: "\<forall>(a', b') \<in> set ivs. a \<le> a'" using Cons.prems iv by auto
  have "set (sweep_xs d (iv # ivs)) = {x. d < x \<and> a \<le> x \<and> x \<le> b} \<union>
      {x. max d b < x \<and> (\<exists>(a, b) \<in> set ivs. a \<le> x \<and> x \<le> b)}"
    using Cons by (auto simp: iv)
  also have "\<dots> = {x. d < x \<and> (\<exists>(a, b) \<in> set (iv # ivs). a \<le> x \<and> x \<le> b)}"
    using le by (fastforce simp: iv)
  finally show ?case .
qed

lemma sweep_xs_sorted:
  assumes "sorted (map fst ivs)"
  shows "sorted_wrt (<) (sweep_xs d ivs)"
  using assms
proof (induction ivs arbitrary: d)
  case Nil
  then show ?case by simp
next
  case (Cons iv ivs)
  obtain a b where iv: "iv = (a, b)" by (cases iv)
  have "\<forall>x \<in> set (sweep_xs (max d b) ivs). b < x \<and> d < x"
    using Cons.prems by (simp add: sweep_xs_set)
  then have lt: "\<forall>u \<in> set [max (d + 1) a..b]. \<forall>v \<in> set (sweep_xs (max d b) ivs). u < v"
    by (metis atLeastAtMost_iff set_upto order_le_less_trans)
  have rest: "sorted_wrt (<) (sweep_xs (max d b) ivs)" using Cons by simp
  show ?case
    unfolding iv sweep_xs.simps sorted_wrt_append
    by (intro conjI rest lt) (rule sorted_wrt_upto)
qed

lemma sort_intervals:
  "std_sort (\<lambda>a b. a < b) (ivs :: (int \<times> int) list) = sort ivs"
  by (simp add: std_sort_sort_key [of _ "\<lambda>x. x"])

lemma sorted_fst_sort: "sorted (map fst (sort (ivs :: (int \<times> int) list)))"
proof -
  have "sorted_wrt (\<lambda>a b. fst a \<le> fst b) (sort ivs)"
    by (rule sorted_wrt_mono_rel [OF _ sorted_sort]) (auto simp: less_eq_prod_def)
  then show ?thesis by (simp add: sorted_wrt_map)
qed

lemma sweep_row:
  "sweep_xs (- 1) (sort (row_intervals cfg width y centers)) =
     filter (in_reach cfg centers y) [0..width - sc_block cfg]"
proof (rule strict_sorted_equal [symmetric])
  show "sorted_wrt (<) (sweep_xs (- 1) (sort (row_intervals cfg width y centers)))"
    by (rule sweep_xs_sorted [OF sorted_fst_sort])
  show "sorted_wrt (<) (filter (in_reach cfg centers y) [0..width - sc_block cfg])"
    by (simp add: sorted_wrt_filter)
  show "set (filter (in_reach cfg centers y) [0..width - sc_block cfg]) =
      set (sweep_xs (- 1) (sort (row_intervals cfg width y centers)))"
    by (auto simp: sweep_xs_set [OF sorted_fst_sort] row_intervals_def in_reach_def)
qed

lemma frame_matches_append:
  "frame_matches distance t t0 v (ps @ qs) =
     frame_matches distance t t0 v ps @ frame_matches distance t t0 (v + of_nat (length ps)) qs"
  by (induction distance t t0 v ps rule: frame_matches.induct) (auto simp: algebra_simps)

lemma visit_xs_fold:
  "fst (visit_xs add distance t t0 y xs st) = fst st + of_nat (length xs) \<and>
   snd (snd (visit_xs add distance t t0 y xs st)) =
     fold add (frame_matches distance t t0 (fst st) (map (Pair y) xs)) (snd (snd st))"
proof (induction xs arbitrary: st)
  case Nil
  then show ?case by simp
next
  case (Cons x xs)
  obtain v ord s where st: "st = (v, ord, s)" by (cases st)
  let ?m = "\<lparr>m_x = x, m_y = y, m_t = t, m_dist = distance t x y, m_ord = v\<rparr>"
  have hd: "hd (fst (assign_temporal_order [?m] t t0 ord)) = temporal_order t t0 ?m"
    by (simp only: assign_temporal_order_map list.map list.sel)
  have "visit_xs add distance t t0 y (x # xs) st =
      visit_xs add distance t t0 y xs (v + 1, snd (assign_temporal_order [?m] t t0 ord),
        add (temporal_order t t0 ?m) s)"
    by (simp only: st visit_xs.simps Let_def prod.case_eq_if hd)
  with Cons show ?case by (simp add: st temporal_order_def)
qed

lemma visit_intervals_fold:
  "fst (visit_intervals add distance t t0 y d ivs st) = fst st + of_nat (length (sweep_xs d ivs)) \<and>
   snd (snd (visit_intervals add distance t t0 y d ivs st)) =
     fold add (frame_matches distance t t0 (fst st) (map (Pair y) (sweep_xs d ivs))) (snd (snd st))"
proof (induction d ivs arbitrary: st rule: sweep_xs.induct)
  case (1 d)
  then show ?case by simp
next
  case (2 d a b ivs)
  then show ?case
    by (simp only: visit_intervals.simps sweep_xs.simps visit_xs_fold map_append
        frame_matches_append fold_append length_append length_map of_nat_add comp_apply add.assoc simp_thms)
qed

lemma visit_rows_fold:
  "fst (visit_rows add distance t t0 cfg width centers ys st) =
     fst st + of_nat (length (concat (map (\<lambda>y. map (Pair y)
       (filter (in_reach cfg centers y) [0..width - sc_block cfg])) ys))) \<and>
   snd (snd (visit_rows add distance t t0 cfg width centers ys st)) =
     fold add (frame_matches distance t t0 (fst st) (concat (map (\<lambda>y. map (Pair y)
       (filter (in_reach cfg centers y) [0..width - sc_block cfg])) ys))) (snd (snd st))"
proof (induction ys arbitrary: st)
  case Nil
  then show ?case by simp
next
  case (Cons y ys)
  show ?case
    by (simp only: visit_rows.simps Cons visit_intervals_fold sort_intervals sweep_row list.map
        concat.simps frame_matches_append fold_append length_append length_map of_nat_add
        comp_apply add.assoc simp_thms)
qed

text \<open>The rows outside the swept range hold no candidate.\<close>

lemma layer_ymin_le:
  "layer_ymin cfg height centers \<le> height"
  "c \<in> set centers \<Longrightarrow> layer_ymin cfg height centers \<le> max 0 (m_y c - sc_ps_range cfg)"
  unfolding layer_ymin_def by (rule fold_min_le) (rule fold_min_le)

lemma layer_ymax_ge:
  "c \<in> set centers \<Longrightarrow> min (height - sc_block cfg) (m_y c + sc_ps_range cfg) \<le> layer_ymax cfg height centers"
  unfolding layer_ymax_def by (rule fold_max_ge)

lemma layer_range:
  assumes "0 \<le> height"
  shows "0 \<le> layer_ymin cfg height centers"
    and "layer_ymax cfg height centers \<le> height - sc_block cfg \<or> layer_ymax cfg height centers = - 1"
  using fold_min_cases [of "\<lambda>c. max 0 (m_y c - sc_ps_range cfg)" centers height]
    fold_max_cases [of "\<lambda>c. min (height - sc_block cfg) (m_y c + sc_ps_range cfg)" centers "- 1"] assms
  by (auto simp: layer_ymin_def layer_ymax_def)

lemma concat_map_nonempty: "concat (map f xs) = concat (map f (filter (\<lambda>x. f x \<noteq> []) xs))"
  by (induction xs) auto

lemma reach_rows:
  assumes "0 \<le> height"
  shows "concat (map (\<lambda>y. map (Pair y) (filter (in_reach cfg centers y) [0..width - sc_block cfg]))
      [layer_ymin cfg height centers..layer_ymax cfg height centers]) = reach cfg width height centers"
proof -
  let ?row = "\<lambda>y. map (Pair y) (filter (in_reach cfg centers y) [0..width - sc_block cfg])"
  let ?ymin = "layer_ymin cfg height centers" and ?ymax = "layer_ymax cfg height centers"
  have reached: "?ymin \<le> y \<and> y \<le> ?ymax" if y: "0 \<le> y" "y \<le> height - sc_block cfg" "?row y \<noteq> []" for y
  proof -
    from y(3) obtain x c where "c \<in> set centers" "\<bar>y - m_y c\<bar> \<le> sc_ps_range cfg"
      by (auto simp: filter_empty_conv in_reach_def)
    then show ?thesis
      using layer_ymin_le(2) [of c centers cfg height] layer_ymax_ge [of c centers height cfg] y(1,2)
      by auto
  qed
  have "filter (\<lambda>y. ?row y \<noteq> []) [?ymin..?ymax] = filter (\<lambda>y. ?row y \<noteq> []) [0..height - sc_block cfg]"
  proof (rule strict_sorted_equal [symmetric])
    show "sorted_wrt (<) (filter (\<lambda>y. ?row y \<noteq> []) [?ymin..?ymax])"
      "sorted_wrt (<) (filter (\<lambda>y. ?row y \<noteq> []) [0..height - sc_block cfg])"
      by (rule sorted_wrt_filter, rule sorted_wrt_upto)+
    show "set (filter (\<lambda>y. ?row y \<noteq> []) [0..height - sc_block cfg]) =
        set (filter (\<lambda>y. ?row y \<noteq> []) [?ymin..?ymax])"
      using reached layer_range [OF assms, of cfg centers] by (simp only: set_filter set_upto) auto
  qed
  then show ?thesis
    unfolding reach_def
    by (subst concat_map_nonempty, subst (2) concat_map_nonempty) (rule arg_cong [of _ _ "\<lambda>ys. concat (map ?row ys)"])
qed

subsection \<open>Distinct positions\<close>

lemma position_frame_matches:
  "map position (frame_matches distance t t0 v ps) = map (\<lambda>(y, x). (t, y, x)) ps"
  by (induction distance t t0 v ps rule: frame_matches.induct) auto

lemma distinct_reach: "distinct (reach cfg width height centers)"
proof -
  have "distinct (concat (map (\<lambda>y. map (Pair y) (filter (in_reach cfg centers y) xs)) ys))"
    if "distinct xs" "distinct ys" for xs ys
    using that by (induction ys) (auto simp: distinct_map inj_on_def)
  then show ?thesis by (simp add: reach_def)
qed

lemma reach_set:
  "(y, x) \<in> set (reach cfg width height centers) \<longleftrightarrow>
     0 \<le> x \<and> x \<le> width - sc_block cfg \<and> 0 \<le> y \<and> y \<le> height - sc_block cfg \<and> in_reach cfg centers y x"
  by (auto simp: reach_def)

lemma frame_matches_set:
  assumes "m \<in> set (frame_matches distance t t0 v ps)"
  shows "m_t m = t \<and> (m_y m, m_x m) \<in> set ps \<and> m_dist m = distance t (m_x m) (m_y m)"
  using assms by (induction distance t t0 v ps rule: frame_matches.induct) auto

lemma distinct_frame_matches:
  assumes "distinct ps"
  shows "distinct (map position (frame_matches distance t t0 v ps))"
  using assms by (auto simp: position_frame_matches distinct_map inj_on_def)

lemma distinct_best_matches:
  assumes "distinct (map position cs)"
  shows "distinct (map position (best_matches k cs))"
proof -
  have "mset (map position (sort_key match_key cs)) = mset (map position cs)" by simp
  then have "distinct (map position (sort_key match_key cs))"
    using assms by (metis mset_eq_imp_distinct_iff)
  then show ?thesis by (simp only: best_matches_def take_map [symmetric] distinct_take)
qed

lemma set_best_matches: "set (best_matches k cs) \<subseteq> set cs"
  unfolding best_matches_def by (metis set_sort set_take_subset)

lemma length_best_matches: "0 \<le> k \<Longrightarrow> int (length (best_matches k cs)) \<le> k"
proof -
  assume "0 \<le> k"
  have "length (best_matches k cs) \<le> nat k" by (simp add: best_matches_def)
  then show ?thesis using \<open>0 \<le> k\<close> by linarith
qed

lemma set_cons_best:
  assumes "out = own \<or> out = hd own # best_matches k (tl own @ as @ bs)" "own \<noteq> []"
  shows "set out \<subseteq> set own \<union> set as \<union> set bs"
proof -
  have "set (tl own) \<subseteq> set own" "hd own \<in> set own" using assms(2) by (cases own; auto)+
  then show ?thesis using assms(1) set_best_matches [of k "tl own @ as @ bs"] by auto
qed

lemma distinct_cons_best:
  assumes "distinct (map position (m # cs))"
  shows "distinct (map position (m # best_matches k cs))"
  using assms distinct_best_matches [of cs k] set_best_matches [of k cs] by auto

lemma frame_best_set:
  assumes "m \<in> set (frame_best distance t t0 cfg width height centers)"
  shows "m_t m = t \<and> (m_y m, m_x m) \<in> set (reach cfg width height centers) \<and>
    m_dist m = distance t (m_x m) (m_y m)"
  using assms set_best_matches frame_matches_set unfolding frame_best_def by blast

lemma walk_frames_set:
  assumes "m \<in> set (walk_frames distance t0 cfg width height first last' sign dts centers)"
  shows "(\<exists>dt \<in> set dts. m_t m = t0 + sign * dt) \<and> first \<le> m_t m \<and> m_t m < last' \<and>
    0 \<le> m_x m \<and> m_x m \<le> width - sc_block cfg \<and> 0 \<le> m_y m \<and> m_y m \<le> height - sc_block cfg \<and>
    m_dist m = distance (m_t m) (m_x m) (m_y m)"
  using assms
proof (induction dts arbitrary: centers)
  case Nil
  then show ?case by simp
next
  case (Cons dt dts)
  then have rng: "first \<le> t0 + sign * dt" "t0 + sign * dt < last'" by (auto split: if_splits)
  let ?l = "frame_best distance (t0 + sign * dt) t0 cfg width height centers"
  from Cons.prems consider "m \<in> set ?l"
    | "m \<in> set (walk_frames distance t0 cfg width height first last' sign dts ?l)"
    by (auto simp: Let_def split: if_splits)
  then show ?case
  proof cases
    case 1
    then show ?thesis using frame_best_set [OF 1] rng by (auto simp: reach_set)
  next
    case 2
    then show ?thesis using Cons.IH by auto
  qed
qed

lemma distinct_walk_frames:
  assumes "distinct dts" "sign \<noteq> 0"
  shows "distinct (map position (walk_frames distance t0 cfg width height first last' sign dts centers))"
  using assms
proof (induction dts arbitrary: centers)
  case Nil
  then show ?case by simp
next
  case (Cons dt dts)
  let ?t = "t0 + sign * dt"
  let ?l = "frame_best distance ?t t0 cfg width height centers"
  let ?w = "walk_frames distance t0 cfg width height first last' sign dts ?l"
  have dl: "distinct (map position ?l)"
    unfolding frame_best_def by (intro distinct_best_matches distinct_frame_matches distinct_reach)
  have "m_t a \<noteq> m_t b" if "a \<in> set ?l" "b \<in> set ?w" for a b
    using frame_best_set [OF that(1)] walk_frames_set [OF that(2)] Cons.prems by auto
  then have "position ` set ?l \<inter> position ` set ?w = {}" by (auto simp: position_def)
  moreover have "distinct (map position ?w)" using Cons by simp
  ultimately show ?case using dl by (auto simp: Let_def)
qed

subsection \<open>The search over any retained set meets the specification\<close>

context topk_store
begin

lemma layer_result:
  assumes "0 \<le> height"
  shows "fst (temporal_layer new add fin distance t t0 cfg width height centers ordinal) =
    frame_best distance t t0 cfg width height centers"
proof -
  let ?st = "(1, ordinal, new (min (sc_ps_num cfg) (sc_group cfg))) :: 32 word \<times> 32 word \<times> 'a"
  have "fst (temporal_layer new add fin distance t t0 cfg width height centers ordinal) =
      fin (snd (snd (visit_rows add distance t t0 cfg width centers
        [layer_ymin cfg height centers..layer_ymax cfg height centers] ?st)))"
    by (simp add: temporal_layer_def prod.case_eq_if)
  also have "\<dots> = fin (fold add (frame_matches distance t t0 1 (reach cfg width height centers))
      (new (min (sc_ps_num cfg) (sc_group cfg))))"
    by (simp only: visit_rows_fold reach_rows [OF assms] fst_conv snd_conv)
  also have "\<dots> = frame_best distance t t0 cfg width height centers"
    unfolding frame_best_def best_matches_def
    by (rule run_list [OF distinct_frame_matches [OF distinct_reach]])
  finally show ?thesis .
qed

lemma walk_result:
  assumes "0 \<le> height"
  shows "snd (temporal_walk new add fin distance t0 cfg width height first last' sign dts centers st) =
    fold add (walk_frames distance t0 cfg width height first last' sign dts centers) (snd st)"
proof (induction dts arbitrary: centers st)
  case Nil
  then show ?case by (cases st) simp
next
  case (Cons dt dts)
  obtain ord g where st: "st = (ord, g)" by (cases st)
  let ?t = "t0 + sign * dt"
  obtain ms o' where layer: "temporal_layer new add fin distance ?t t0 cfg width height centers ord = (ms, o')"
    by (cases "temporal_layer new add fin distance ?t t0 cfg width height centers ord")
  have "ms = frame_best distance ?t t0 cfg width height centers"
    using layer_result [OF assms, of distance ?t t0 cfg width centers ord] layer by simp
  then show ?case using layer Cons by (simp add: st Let_def)
qed

theorem search_result:
  assumes "0 \<le> height" "int (length out) \<le> sc_group cfg"
    and dist: "distinct (map (\<lambda>m. (m_y m, m_x m)) out)"
  shows "collect_temporal_with new add fin adopt width height t0 ntemp cfg out distance =
    temporal_spec width height t0 ntemp cfg out distance"
proof -
  let ?own = "map (temporal_order t0 t0) out"
  obtain ord where own: "assign_temporal_order out t0 t0 0 = (?own, ord)"
    using assign_temporal_order_map [of out t0 t0 0] by (cases "assign_temporal_order out t0 t0 0") simp
  show ?thesis
  proof (cases "out = [] \<or> sc_radius cfg = 0 \<or> ntemp = 1 \<or> sc_group cfg = 1")
    case True
    then show ?thesis by (auto simp: collect_temporal_with_def temporal_spec_def own Let_def)
  next
    case False
    let ?n = "int (length out)"
    let ?seeds = "take (nat (min ?n (min (sc_ps_num cfg) kBmMaxGroup))) ?own"
    let ?wf = "\<lambda>sign. walk_frames distance t0 cfg width height (temporal_first_frame cfg)
      (temporal_last_frame cfg ntemp) sign [1..sc_radius cfg] ?seeds"
    let ?g = "adopt (tl ?own) (?n - 1) (new (sc_group cfg - 1))"
    have seeds: "?seeds = take (nat (min (sc_ps_num cfg) kBmMaxGroup)) ?own"
      by (cases "min (sc_ps_num cfg) kBmMaxGroup \<le> ?n") (simp_all add: min_def)
    have "distinct (map position (tl ?own @ ?wf (- 1) @ ?wf 1))"
    proof -
      have t_own: "m_t m = t0" if "m \<in> set (tl ?own)" for m
        using that by (cases out) auto
      have sides: "m_t a \<noteq> t0 \<and> m_t a \<noteq> m_t b" if "a \<in> set (?wf (- 1))" "b \<in> set (?wf 1)" for a b
        using walk_frames_set [OF that(1)] walk_frames_set [OF that(2)] by auto
      have ne: "m_t a \<noteq> t0" if "a \<in> set (?wf s)" "s = - 1 \<or> s = 1" for a s
        using walk_frames_set [OF that(1)] that(2) by auto
      have "distinct (map (\<lambda>m. (t0, m_y m, m_x m)) out)"
        using dist by (auto simp: distinct_map inj_on_def)
      then have "distinct (map position ?own)" by (simp add: comp_def)
      then have "distinct (map position (tl ?own))" by (simp add: map_tl distinct_tl)
      moreover have "distinct (map position (?wf (- 1)))" "distinct (map position (?wf 1))"
        by (intro distinct_walk_frames; simp)+
      moreover have "position ` set (?wf (- 1)) \<inter> position ` set (?wf 1) = {}"
        using sides by (fastforce simp: position_def)
      moreover have "position ` set (tl ?own) \<inter> (position ` set (?wf (- 1)) \<union> position ` set (?wf 1)) = {}"
        using t_own ne by (fastforce simp: position_def)
      ultimately show ?thesis by (simp only: map_append distinct_append set_append set_map simp_thms)
    qed
    moreover have "int (length (tl ?own)) = ?n - 1" using False by (cases out) auto
    ultimately have run: "fin (fold add (?wf (- 1) @ ?wf 1) ?g) =
        best_matches (sc_group cfg - 1) (tl ?own @ ?wf (- 1) @ ?wf 1)"
      using adopt_run_list [of "tl ?own" "?wf (- 1) @ ?wf 1" "sc_group cfg - 1"] assms(2)
      by (simp only: best_matches_def)
    let ?walk = "\<lambda>sign. temporal_walk new add fin distance t0 cfg width height (temporal_first_frame cfg)
      (temporal_last_frame cfg ntemp) sign [1..sc_radius cfg] ?seeds"
    have "collect_temporal_with new add fin adopt width height t0 ntemp cfg out distance =
        hd ?own # fin (snd (?walk 1 (?walk (- 1) (ord, ?g))))"
      using False by (simp add: collect_temporal_with_def own Let_def prod.case_eq_if)
    also have "\<dots> = hd ?own # fin (fold add (?wf (- 1) @ ?wf 1) ?g)"
      by (simp only: walk_result [OF assms(1)] snd_conv fold_append comp_apply)
    also have "\<dots> = temporal_spec width height t0 ntemp cfg out distance"
      unfolding run using False seeds by (simp add: temporal_spec_def Let_def)
    finally show ?thesis .
  qed
qed

end

lemma collect_temporal_spec:
  assumes "0 \<le> height" "int (length out) \<le> sc_group cfg" "distinct (map (\<lambda>m. (m_y m, m_x m)) out)"
  shows "collect_temporal width height t0 ntemp cfg out distance =
      temporal_spec width height t0 ntemp cfg out distance"
    and "collect_temporal_cached width height t0 ntemp cfg out distance =
      temporal_spec width height t0 ntemp cfg out distance"
  unfolding collect_temporal_def collect_temporal_cached_def
  by (rule stable_store.search_result [OF assms], rule cached_store.search_result [OF assms])

text \<open>What the specification guarantees of the group of a reference patch.\<close>

lemma temporal_spec_group:
  assumes "spatial \<noteq> []" "int (length spatial) \<le> sc_group cfg"
    and dist: "distinct (map (\<lambda>m. (m_y m, m_x m)) spatial)"
    and inside: "\<forall>m \<in> set spatial. 0 \<le> m_x m \<and> m_x m \<le> width - sc_block cfg \<and>
      0 \<le> m_y m \<and> m_y m \<le> height - sc_block cfg"
    and t0: "temporal_first_frame cfg \<le> t0" "t0 < temporal_last_frame cfg ntemp"
    and out_eq: "out = temporal_spec width height t0 ntemp cfg spatial distance"
  shows "out \<noteq> []" "hd out = temporal_order t0 t0 (hd spatial)"
    and "distinct (map position out)" "int (length out) \<le> sc_group cfg"
    and "\<forall>m \<in> set out. 0 \<le> m_x m \<and> m_x m \<le> width - sc_block cfg \<and> 0 \<le> m_y m \<and>
      m_y m \<le> height - sc_block cfg \<and> temporal_first_frame cfg \<le> m_t m \<and>
      m_t m < temporal_last_frame cfg ntemp \<and> \<bar>m_t m - t0\<bar> \<le> max 0 (sc_radius cfg)"
proof -
  let ?own = "map (temporal_order t0 t0) spatial"
  let ?wf = "\<lambda>sign. walk_frames distance t0 cfg width height (temporal_first_frame cfg)
    (temporal_last_frame cfg ntemp) sign [1..sc_radius cfg]
    (take (nat (min (sc_ps_num cfg) kBmMaxGroup)) ?own)"
  let ?cs = "tl ?own @ ?wf (- 1) @ ?wf 1"
  have t_own: "m_t m = t0" if "m \<in> set ?own" for m using that by auto
  have d_own: "distinct (map position ?own)"
    using dist by (auto simp: distinct_map inj_on_def comp_def)
  have off: "m_t a \<noteq> t0" if "a \<in> set (?wf s)" "s = - 1 \<or> s = 1" for a s
    using walk_frames_set [OF that(1)] that(2) by auto
  have sides: "m_t a \<noteq> m_t b" if "a \<in> set (?wf (- 1))" "b \<in> set (?wf 1)" for a b
    using walk_frames_set [OF that(1)] walk_frames_set [OF that(2)] by auto
  have d_all: "distinct (map position (hd ?own # ?cs))"
  proof -
    have own: "hd ?own # tl ?own = ?own" using assms(1) by (cases spatial) auto
    have "distinct (map position (?wf (- 1)))" "distinct (map position (?wf 1))"
      by (intro distinct_walk_frames; simp)+
    moreover have "position ` set (?wf (- 1)) \<inter> position ` set (?wf 1) = {}"
      using sides by (fastforce simp: position_def)
    moreover have "position ` set ?own \<inter> (position ` set (?wf (- 1)) \<union> position ` set (?wf 1)) = {}"
      using t_own off by (fastforce simp: position_def)
    ultimately have "distinct (map position (?own @ ?wf (- 1) @ ?wf 1))"
      using d_own by (simp only: map_append distinct_append set_append set_map simp_thms)
    then show ?thesis by (metis own append_Cons)
  qed
  have in_own: "m \<in> set spatial \<Longrightarrow> temporal_order t0 t0 m \<in> set ?own" for m by simp
  have ok: "0 \<le> m_x m \<and> m_x m \<le> width - sc_block cfg \<and> 0 \<le> m_y m \<and> m_y m \<le> height - sc_block cfg \<and>
      temporal_first_frame cfg \<le> m_t m \<and> m_t m < temporal_last_frame cfg ntemp \<and>
      \<bar>m_t m - t0\<bar> \<le> max 0 (sc_radius cfg)"
    if "m \<in> set ?own \<or> m \<in> set (?wf (- 1)) \<or> m \<in> set (?wf 1)" for m
  proof -
    from that consider "m \<in> set ?own" | s where "s = - 1 \<or> s = 1" "m \<in> set (?wf s)" by blast
    then show ?thesis
    proof cases
      case 1
      then show ?thesis using inside t0 by auto
    next
      case 2
      then show ?thesis using walk_frames_set [OF 2(2)] by auto
    qed
  qed
  have out: "out = ?own \<or> out = hd ?own # best_matches (sc_group cfg - 1) ?cs"
    unfolding out_eq temporal_spec_def Let_def by (simp only: split: if_split) blast
  have nonempty: "?own \<noteq> []" using assms(1) by simp
  have hd_own: "hd ?own = temporal_order t0 t0 (hd spatial)" using assms(1) by (simp add: hd_map)
  show "out \<noteq> []" using out nonempty by auto
  show "hd out = temporal_order t0 t0 (hd spatial)" using out hd_own by auto
  have d_best: "distinct (map position (hd ?own # best_matches k ?cs))" for k
    by (rule distinct_cons_best [OF d_all])
  show "distinct (map position out)" using out d_own d_best by metis
  have "1 \<le> sc_group cfg" using assms(1,2) by (cases spatial) auto
  then have "int (length (hd ?own # best_matches (sc_group cfg - 1) ?cs)) \<le> sc_group cfg"
    using length_best_matches [of "sc_group cfg - 1" ?cs] by simp
  then show "int (length out) \<le> sc_group cfg" using out assms(2) by (metis length_map)
  have "set out \<subseteq> set ?own \<union> set (?wf (- 1)) \<union> set (?wf 1)"
    by (rule set_cons_best [OF out nonempty])
  then show "\<forall>m \<in> set out. 0 \<le> m_x m \<and> m_x m \<le> width - sc_block cfg \<and> 0 \<le> m_y m \<and>
      m_y m \<le> height - sc_block cfg \<and> temporal_first_frame cfg \<le> m_t m \<and>
      m_t m < temporal_last_frame cfg ntemp \<and> \<bar>m_t m - t0\<bar> \<le> max 0 (sc_radius cfg)"
    using ok by blast
qed

subsection \<open>\<open>predictive_match\<close> (src/cpu/bm/match.cpp)\<close>

text \<open>
  \<open>refs t\<close> is the plane of frame \<open>t\<close>, \<open>None\<close> for a null pointer, \<open>strides t\<close> its stride.
  \<open>ssd p sp x y q sq x' y' block\<close> is \<open>ssd_block\<close> on the patch of plane \<open>p\<close> at \<open>(x, y)\<close>
  and the patch of plane \<open>q\<close> at \<open>(x', y')\<close>.
\<close>

type_synonym 'p patch_ssd = "'p \<Rightarrow> int \<Rightarrow> int \<Rightarrow> int \<Rightarrow> 'p \<Rightarrow> int \<Rightarrow> int \<Rightarrow> int \<Rightarrow> int \<Rightarrow> f32"

definition predictive_match ::
    "(int \<Rightarrow> int \<Rightarrow> (int \<Rightarrow> int \<Rightarrow> int \<Rightarrow> match list) option) \<Rightarrow> 'p patch_ssd \<Rightarrow> bool \<Rightarrow> (int \<Rightarrow> 'p option) \<Rightarrow>
     (int \<Rightarrow> int) \<Rightarrow> int \<Rightarrow> int \<Rightarrow> int \<Rightarrow> int \<Rightarrow> int \<Rightarrow> int \<Rightarrow> search_config \<Rightarrow> match list" where
  "predictive_match fast ssd null_args refs strides ntemp width height bx by t0 cfg =
     (if null_args \<or> ntemp < 1 \<or> t0 < 0 \<or> t0 \<ge> ntemp \<or> width < sc_block cfg \<or> height < sc_block cfg \<or>
         sc_block cfg < 1 \<or> sc_group cfg < 1 \<or> sc_group cfg > kBmMaxGroup \<or> sc_step cfg < 1 \<or>
         sc_bm_range cfg < 0 \<or> sc_ps_num cfg < 1 \<or> sc_ps_range cfg < 0 \<or> sc_radius cfg < 0 \<or>
         sc_radius cfg > kBmMaxRadius \<or> refs t0 = None \<or> strides t0 < width
      then []
      else if sc_valid_t_begin cfg < 0 \<or> sc_valid_t_begin cfg > t0 \<or>
         (sc_valid_t_end cfg \<noteq> - 1 \<and> (sc_valid_t_end cfg \<le> t0 \<or> sc_valid_t_end cfg > ntemp))
      then []
      else if \<exists>t \<in> set [0..ntemp - 1]. refs t = None \<or> strides t < width then []
      else
        let block = sc_block cfg;
            self = the (refs t0);
            out = spatial_match fast False False (strides t0) width height bx by block (sc_bm_range cfg)
                    (sc_group cfg)
                    (\<lambda>cx cy x y. ssd self (strides t0) cx cy self (strides t0) x y block);
            cx = cclamp bx 0 (width - block); cy = cclamp by 0 (height - block)
        in collect_temporal width height t0 ntemp cfg out
             (\<lambda>t x y. ssd self (strides t0) cx cy (the (refs t)) (strides t) x y block))"

definition predictive_args_ok ::
    "(int \<Rightarrow> 'p option) \<Rightarrow> (int \<Rightarrow> int) \<Rightarrow> int \<Rightarrow> int \<Rightarrow> int \<Rightarrow> int \<Rightarrow> search_config \<Rightarrow> bool" where
  "predictive_args_ok refs strides ntemp width height t0 cfg \<longleftrightarrow>
     1 \<le> ntemp \<and> 0 \<le> t0 \<and> t0 < ntemp \<and> 1 \<le> sc_block cfg \<and> sc_block cfg \<le> width \<and>
     sc_block cfg \<le> height \<and> 1 \<le> sc_group cfg \<and> sc_group cfg \<le> kBmMaxGroup \<and> 1 \<le> sc_step cfg \<and>
     0 \<le> sc_bm_range cfg \<and> 1 \<le> sc_ps_num cfg \<and> 0 \<le> sc_ps_range cfg \<and> 0 \<le> sc_radius cfg \<and>
     sc_radius cfg \<le> kBmMaxRadius \<and> 0 \<le> sc_valid_t_begin cfg \<and> sc_valid_t_begin cfg \<le> t0 \<and>
     (sc_valid_t_end cfg = - 1 \<or> t0 < sc_valid_t_end cfg \<and> sc_valid_t_end cfg \<le> ntemp) \<and>
     (\<forall>t \<in> set [0..ntemp - 1]. refs t \<noteq> None \<and> width \<le> strides t)"

lemma predictive_match_invalid:
  assumes "\<not> predictive_args_ok refs strides ntemp width height t0 cfg"
  shows "predictive_match fast ssd False refs strides ntemp width height bx by t0 cfg = []"
  using assms unfolding predictive_match_def predictive_args_ok_def by auto

lemma predictive_match_valid:
  assumes ok: "predictive_args_ok refs strides ntemp width height t0 cfg"
    and slow: "fast (sc_block cfg) (sc_group cfg) = None"
  shows "predictive_match fast ssd False refs strides ntemp width height bx by t0 cfg =
    temporal_spec width height t0 ntemp cfg
      (collect_spatial_coords False width height bx by (sc_block cfg) (sc_bm_range cfg) (sc_group cfg)
        (\<lambda>cx cy x y. ssd (the (refs t0)) (strides t0) cx cy (the (refs t0)) (strides t0) x y (sc_block cfg)))
      (\<lambda>t x y. ssd (the (refs t0)) (strides t0) (cclamp bx 0 (width - sc_block cfg))
        (cclamp by 0 (height - sc_block cfg)) (the (refs t)) (strides t) x y (sc_block cfg))"
proof -
  let ?d = "\<lambda>cx cy x y. ssd (the (refs t0)) (strides t0) cx cy (the (refs t0)) (strides t0) x y (sc_block cfg)"
  let ?s = "collect_spatial_coords False width height bx by (sc_block cfg) (sc_bm_range cfg) (sc_group cfg) ?d"
  have args: "spatial_args_ok width height (sc_block cfg) (sc_group cfg)"
    and st: "width \<le> strides t0"
    using ok by (auto simp: predictive_args_ok_def spatial_args_ok_def)
  obtain p where r0: "refs t0 = Some p" using ok by (fastforce simp: predictive_args_ok_def)
  have s: "spatial_match fast False False (strides t0) width height bx by (sc_block cfg) (sc_bm_range cfg)
      (sc_group cfg) ?d = ?s"
    by (rule spatial_match_generic) (use args st slow in simp_all)
  note facts = collect_spatial_facts [OF args refl, of bx "by" "sc_bm_range cfg" ?d]
  have "distinct (map position ?s)" by (rule facts(3))
  then have d: "distinct (map (\<lambda>m. (m_y m, m_x m)) ?s)"
    using facts(5) by (auto simp: distinct_map inj_on_def position_def)
  have len: "int (length ?s) \<le> sc_group cfg" and h: "0 \<le> height"
    using facts(4) ok by (auto simp: predictive_args_ok_def)
  have "predictive_match fast ssd False refs strides ntemp width height bx by t0 cfg =
      collect_temporal width height t0 ntemp cfg ?s
        (\<lambda>t x y. ssd (the (refs t0)) (strides t0) (cclamp bx 0 (width - sc_block cfg))
          (cclamp by 0 (height - sc_block cfg)) (the (refs t)) (strides t) x y (sc_block cfg))"
    using ok r0 unfolding predictive_match_def Let_def s by (auto simp: predictive_args_ok_def)
  then show ?thesis by (simp only: collect_temporal_spec(1) [OF h len d])
qed

subsection \<open>Properties of the matchers\<close>

text \<open>
  C6. The spatial search returns the reference patch, clamped into the plane, followed by
  the best of all other patches of the window (at most \<open>min group 64 - 1\<close>) in ascending
  order of the total order of matches; the candidates are exactly the positions of the
  window inside the plane without the reference, each with its own distance.
\<close>

theorem spatial_search_best:
  assumes "spatial_args_ok width height block grp"
  shows "let cx = cclamp bx 0 (width - block); cy = cclamp by 0 (height - block);
      cands = spatial_candidates width height bx by block bm_range distance
    in collect_spatial_coords False width height bx by block bm_range grp distance =
        self_match cx cy # take (nat (min grp kBmMaxGroup - 1)) (sort_key match_key cands) \<and>
      position ` set cands = {(0, y, x) | x y. 0 \<le> x \<and> x \<le> width - block \<and> 0 \<le> y \<and> y \<le> height - block \<and>
        \<bar>x - cx\<bar> \<le> max bm_range 0 \<and> \<bar>y - cy\<bar> \<le> max bm_range 0 \<and> (x, y) \<noteq> (cx, cy)} \<and>
      distinct (map position cands) \<and> (\<forall>c \<in> set cands. m_dist c = distance cx cy (m_x c) (m_y c))"
  unfolding Let_def
  by (intro conjI collect_spatial_coords_run [OF assms] spatial_candidates_positions
      distinct_spatial_candidates spatial_candidates_dist)

theorem spatial_search_best_witness:
  "hd (collect_spatial_coords False 9 9 20 0 4 1 3 (\<lambda>cx cy x y. word_of_int (cx + x + y))) = self_match 5 0"
  using spatial_search_best [of 9 9 4 3 20 0 1 "\<lambda>cx cy x y. word_of_int (cx + x + y)"]
  by (simp add: spatial_args_ok_def cclamp_def kBmMaxGroup_def Let_def)

text \<open>
  C2. The temporal search equals its specification, with either of the retained sets
  \<open>CandidateTopK\<close> names: in each frame, walking away from the reference frame, the best
  \<open>min ps_num group\<close> of the union of the windows around the centers, each position visited
  once; the group is the reference followed by the best \<open>group - 1\<close> of the spatial matches
  and of all frames.
\<close>

theorem temporal_search_refines_spec:
  assumes "0 \<le> height" "int (length out) \<le> sc_group cfg"
    and "distinct (map (\<lambda>m. (m_y m, m_x m)) out)"
  shows "collect_temporal width height t0 ntemp cfg out distance =
      temporal_spec width height t0 ntemp cfg out distance \<and>
    collect_temporal_cached width height t0 ntemp cfg out distance =
      temporal_spec width height t0 ntemp cfg out distance"
  using collect_temporal_spec [OF assms] by simp

definition example_search :: search_config where
  "example_search = default_search_config\<lparr>sc_block := 4, sc_radius := 1, sc_ps_range := 1\<rparr>"

theorem temporal_search_refines_spec_witness:
  "collect_temporal 9 9 1 3 example_search [self_match 5 0] (\<lambda>t x y. word_of_int (t + x + y)) =
     temporal_spec 9 9 1 3 example_search [self_match 5 0] (\<lambda>t x y. word_of_int (t + x + y))"
  using temporal_search_refines_spec [of 9 "[self_match 5 0]" example_search 9 1 3
      "\<lambda>t x y. word_of_int (t + x + y)"]
  by (simp add: example_search_def default_search_config_def)



text \<open>
  C28. The separately compiled matchers of arm64, which keep their matches sorted, return
  the same matches as the generic one.
\<close>

theorem spatial_sets_agree:
  "collect_spatial_coords_arm null width height bx by block bm_range grp distance =
     collect_spatial_coords null width height bx by block bm_range grp distance"
proof (cases "null \<or> \<not> spatial_args_ok width height block grp")
  case True
  then show ?thesis
    by (auto simp: collect_spatial_coords_arm_def collect_spatial_coords_def collect_spatial_with_def
        spatial_args_ok_def)
next
  case False
  then show ?thesis
    by (simp add: collect_spatial_coords_run collect_spatial_coords_arm_run)
qed

end
