(* ===== verification/Match_Batch.thy ===== *)
theory Match_Batch
  imports Temporal_Match
begin

text \<open>
  The match batches of src/cpu/batch.cpp and their contract (src/cpu/batch_contract.hpp):
  items are processed in buckets of equal shape, each writes its own row of the match
  array, and the result is the smallest failed index of the caller, plus one. The lemmas
  show that the order of the buckets is not visible in the results.
\<close>

subsection \<open>The batch contract\<close>

definition record_batch_failure :: "nat \<Rightarrow> nat \<Rightarrow> nat" where
  "record_batch_failure original_index first_error =
     (let code = original_index + 1
      in if first_error = 0 \<or> code < first_error then code else first_error)"

definition match_capacity_valid :: "int \<Rightarrow> int \<Rightarrow> bool" where
  "match_capacity_valid grp match_stride \<longleftrightarrow> 0 < grp \<and> min grp kBmMaxGroup \<le> match_stride"

text \<open>The smallest of a set of failed indices, plus one, and zero for none.\<close>

definition first_failure :: "nat set \<Rightarrow> nat" where
  "first_failure F = (if F = {} then 0 else Min F + 1)"

lemma first_failure_empty [simp]: "first_failure {} = 0"
  by (simp add: first_failure_def)

lemma record_first_failure:
  "finite F \<Longrightarrow> record_batch_failure i (first_failure F) = first_failure (insert i F)"
proof (cases "F = {}")
  case True
  then show ?thesis by (simp add: first_failure_def record_batch_failure_def)
next
  case False
  obtain m where m: "Min F = m" by simp
  assume "finite F"
  then have "Min (insert i F) = min i m" using False m by simp
  then show ?thesis using False m by (simp add: first_failure_def record_batch_failure_def Let_def)
qed

lemma first_failure_0 [simp]: "first_failure F = 0 \<longleftrightarrow> F = {}"
  by (simp add: first_failure_def)

subsection \<open>Buckets\<close>

text \<open>
  The processing order: indices sorted by the items' shapes, equal shapes by index. With
  \<open>NSS_BM_HOMOGENEOUS\<close> a batch of one shape keeps the caller's order, which is the same.
\<close>

definition bucket_less :: "('i \<Rightarrow> 'i \<Rightarrow> bool) \<Rightarrow> 'i list \<Rightarrow> nat \<Rightarrow> nat \<Rightarrow> bool" where
  "bucket_less lt items a b =
     (if lt (items ! a) (items ! b) then True
      else if lt (items ! b) (items ! a) then False
      else a < b)"

definition homogeneous_batch :: "('i \<Rightarrow> 'i \<Rightarrow> bool) \<Rightarrow> 'i list \<Rightarrow> bool" where
  "homogeneous_batch lt items \<longleftrightarrow>
     (\<forall>i \<in> set [1..<length items]. \<not> (lt (items ! 0) (items ! i) \<or> lt (items ! i) (items ! 0)))"

definition bucket_order :: "bool \<Rightarrow> ('i \<Rightarrow> 'i \<Rightarrow> bool) \<Rightarrow> 'i list \<Rightarrow> nat list" where
  "bucket_order nss_bm_homogeneous lt items =
     (if nss_bm_homogeneous \<and> homogeneous_batch lt items then [0..<length items]
      else std_sort (bucket_less lt items) [0..<length items])"

lemma mset_bucket_order [simp]: "mset (bucket_order h lt items) = mset [0..<length items]"
  by (simp add: bucket_order_def)

lemma set_bucket_order [simp]: "set (bucket_order h lt items) = {0..<length items}"
proof -
  have "set_mset (mset (bucket_order h lt items)) = set_mset (mset [0..<length items])" by simp
  then show ?thesis by (simp only: set_mset_mset set_upt)
qed

lemma distinct_bucket_order [simp]: "distinct (bucket_order h lt items)"
  using mset_eq_imp_distinct_iff [OF mset_bucket_order, of h lt items] by simp

text \<open>With a comparison by a key, the order is that of the key and the index.\<close>

lemma bucket_order_sorted:
  fixes key :: "'i \<Rightarrow> 'k::linorder"
  assumes "\<And>a b. lt a b \<longleftrightarrow> key a < key b"
  shows "sorted (map (\<lambda>i. (key (items ! i), i)) (bucket_order h lt items))"
proof -
  have "bucket_less lt items a b \<longleftrightarrow> (key (items ! a), a) < (key (items ! b), b)" for a b
    using assms by (auto simp: bucket_less_def less_prod_def)
  then have sort_eq: "std_sort (bucket_less lt items) is = sort_key (\<lambda>i. (key (items ! i), i)) is" for "is"
    by (rule std_sort_sort_key)
  show ?thesis
  proof (cases "h \<and> homogeneous_batch lt items")
    case True
    have same: "key (items ! i) = key (items ! 0)" if "i < length items" for i
      using True that assms [of "items ! 0" "items ! i"] assms [of "items ! i" "items ! 0"]
      by (cases "i = 0") (auto simp: homogeneous_batch_def dest!: bspec [of _ _ i])
    have "sorted_wrt (\<lambda>i j. (key (items ! i), i) \<le> (key (items ! j), j)) [0..<length items]"
      by (rule sorted_wrt_mono_rel [OF _ sorted_wrt_upt]) (auto simp: same less_eq_prod_def)
    then show ?thesis using True by (simp add: bucket_order_def sorted_wrt_map)
  next
    case False
    then show ?thesis by (auto simp: bucket_order_def sort_eq)
  qed
qed

subsection \<open>Match batches\<close>

record match_item =
  mi_bx :: int
  mi_by :: int
  mi_block :: int
  mi_bm_range :: int
  mi_group :: int
  mi_avx2_features :: "32 word"

definition match_item_less :: "match_item \<Rightarrow> match_item \<Rightarrow> bool" where
  "match_item_less a b =
     (if mi_block a \<noteq> mi_block b then mi_block a < mi_block b
      else if mi_group a \<noteq> mi_group b then mi_group a < mi_group b
      else mi_bm_range a < mi_bm_range b)"

text \<open>Writing a matcher's result at an offset of the match array.\<close>

definition write_matches :: "match list \<Rightarrow> nat \<Rightarrow> match list \<Rightarrow> match list" where
  "write_matches arr off ms = take off arr @ ms @ drop (off + length ms) arr"

text \<open>
  The loop all four batches share: \<open>run\<close> is the matcher called for an item; the state is
  the first error, the match array and the counts.
\<close>

definition match_batch_step ::
    "(match_item \<Rightarrow> match list) \<Rightarrow> match_item list \<Rightarrow> int \<Rightarrow> nat \<Rightarrow>
     nat \<times> match list \<times> int list \<Rightarrow> nat \<times> match list \<times> int list" where
  "match_batch_step run items match_stride index st =
     (let (first_error, matches, counts) = st; item = items ! index
      in if \<not> match_capacity_valid (mi_group item) match_stride
         then (record_batch_failure index first_error, matches, counts[index := 0])
         else
           let ms = run item; n = int (length ms)
           in (if n \<le> 0 then record_batch_failure index first_error else first_error,
               write_matches matches (index * nat match_stride) ms, counts[index := n]))"

definition match_batch_with ::
    "bool \<Rightarrow> (match_item \<Rightarrow> match list) \<Rightarrow> bool \<Rightarrow> match_item list \<Rightarrow> int \<Rightarrow> int \<Rightarrow> match list \<Rightarrow> int list \<Rightarrow>
     int \<times> match list \<times> int list" where
  "match_batch_with h run null_args items cnt match_stride matches counts =
     (if cnt = 0 then (0, matches, counts)
      else if null_args \<or> cnt < 0 \<or> match_stride < 1 then (- 1, matches, counts)
      else
        let (first_error, matches', counts') =
              fold (match_batch_step run items match_stride) (bucket_order h match_item_less items)
                (0, matches, counts)
        in (int first_error, matches', counts'))"

definition spatial_match_batch where
  "spatial_match_batch h fast stride width height distance null_args items cnt match_stride matches counts =
     match_batch_with h
       (\<lambda>item. spatial_match fast False False stride width height (mi_bx item) (mi_by item) (mi_block item)
                 (mi_bm_range item) (mi_group item) (distance (mi_block item)))
       null_args items cnt match_stride matches counts"

definition item_search :: "search_config \<Rightarrow> match_item \<Rightarrow> search_config" where
  "item_search cfg item =
     cfg\<lparr>sc_block := mi_block item, sc_group := mi_group item, sc_bm_range := mi_bm_range item\<rparr>"

definition predictive_match_batch where
  "predictive_match_batch h fast ssd refs strides ntemp width height t0 cfg null_args items cnt
       match_stride matches counts =
     match_batch_with h
       (\<lambda>item. predictive_match fast ssd False refs strides ntemp width height (mi_bx item) (mi_by item)
                 t0 (item_search cfg item))
       null_args items cnt match_stride matches counts"

subsection \<open>Matching over several channels (src/cpu/mcwnnm/match_nch.cpp)\<close>

text \<open>
  \<open>ssd_nch cx cy x y block\<close> is the distance summed over the channels; \<open>channel_ok c\<close> tells
  whether the channel's plane is present with a stride of at least the width.
\<close>

definition spatial_match_nch where
  "spatial_match_nch null_args channel_ok nch width height bx by block bm_range grp distance =
     (if null_args \<or> nch < 1 \<or> 3 < nch \<or> width < 1 \<or> height < 1 \<or> block < 1 \<or> grp < 1 \<or>
         kBmMaxGroup < grp \<or> bm_range < 0 \<or> (\<exists>c \<in> set [0..nch - 1]. \<not> channel_ok c)
      then []
      else collect_spatial_coords False width height bx by block bm_range grp distance)"

definition predictive_match_nch where
  "predictive_match_nch ssd null_args refs strides nch ntemp width height bx by t0 cfg =
     (if null_args \<or> nch < 1 \<or> 3 < nch \<or> ntemp < 1 \<or> t0 < 0 \<or> t0 \<ge> ntemp \<or> width < sc_block cfg \<or>
         height < sc_block cfg \<or> sc_block cfg < 1 \<or> sc_group cfg < 1 \<or> kBmMaxGroup < sc_group cfg \<or>
         sc_step cfg < 1 \<or> sc_bm_range cfg < 0 \<or> sc_ps_num cfg < 1 \<or> sc_ps_range cfg < 0 \<or>
         sc_radius cfg < 0 \<or> kBmMaxRadius < sc_radius cfg
      then []
      else if sc_valid_t_begin cfg < 0 \<or> sc_valid_t_begin cfg > t0 \<or>
         (sc_valid_t_end cfg \<noteq> - 1 \<and> (sc_valid_t_end cfg \<le> t0 \<or> sc_valid_t_end cfg > ntemp))
      then []
      else if \<exists>c \<in> set [0..nch - 1]. strides c < width \<or> (\<exists>t \<in> set [0..ntemp - 1]. refs (c * ntemp + t) = None)
      then []
      else
        let frame = (\<lambda>t. map (\<lambda>c. (the (refs (c * ntemp + t)), strides c)) [0..nch - 1]);
            out = spatial_match_nch False (\<lambda>c. width \<le> strides c) nch width height bx by (sc_block cfg)
                    (sc_bm_range cfg) (sc_group cfg)
                    (\<lambda>cx cy x y. ssd (frame t0) cx cy (frame t0) x y (sc_block cfg));
            cx = cclamp bx 0 (width - sc_block cfg); cy = cclamp by 0 (height - sc_block cfg)
        in collect_temporal width height t0 ntemp cfg out
             (\<lambda>t x y. ssd (frame t0) cx cy (frame t) x y (sc_block cfg)))"

definition spatial_match_nch_batch where
  "spatial_match_nch_batch h channel_ok nch width height distance null_args items cnt match_stride matches counts =
     match_batch_with h
       (\<lambda>item. spatial_match_nch False channel_ok nch width height (mi_bx item) (mi_by item) (mi_block item)
                 (mi_bm_range item) (mi_group item) (distance (mi_block item)))
       null_args items cnt match_stride matches counts"

definition predictive_match_nch_batch where
  "predictive_match_nch_batch h ssd refs strides nch ntemp width height t0 cfg null_args items cnt
       match_stride matches counts =
     match_batch_with h
       (\<lambda>item. predictive_match_nch ssd False refs strides nch ntemp width height (mi_bx item) (mi_by item)
                 t0 (item_search cfg item))
       null_args items cnt match_stride matches counts"

lemma match_item_less_key:
  "match_item_less a b \<longleftrightarrow>
     (mi_block a, mi_group a, mi_bm_range a) < (mi_block b, mi_group b, mi_bm_range b)"
  by (auto simp: match_item_less_def less_prod_def)

subsection \<open>Rows do not interfere\<close>

lemma length_write_matches:
  "off + length ms \<le> length arr \<Longrightarrow> length (write_matches arr off ms) = length arr"
  by (simp add: write_matches_def)

lemma write_matches_own:
  "off + length ms \<le> length arr \<Longrightarrow> take (length ms) (drop off (write_matches arr off ms)) = ms"
  by (simp add: write_matches_def)

lemma write_matches_nth:
  assumes "off + length ms \<le> length arr"
  shows "write_matches arr off ms ! k =
    (if off \<le> k \<and> k < off + length ms then ms ! (k - off) else arr ! k)"
  using assms by (auto simp: write_matches_def nth_append)

text \<open>The result of an item by itself.\<close>

definition item_matches :: "(match_item \<Rightarrow> match list) \<Rightarrow> int \<Rightarrow> match_item \<Rightarrow> match list" where
  "item_matches run match_stride item =
     (if match_capacity_valid (mi_group item) match_stride then run item else [])"

text \<open>What a partly processed batch holds.\<close>

definition batch_state_ok ::
    "(match_item \<Rightarrow> match list) \<Rightarrow> match_item list \<Rightarrow> int \<Rightarrow> match list \<Rightarrow> int list \<Rightarrow> nat set \<Rightarrow>
     nat \<times> match list \<times> int list \<Rightarrow> bool" where
  "batch_state_ok run items match_stride matches counts P st \<longleftrightarrow>
     (let (fe, arr, cs) = st; r = (\<lambda>i. item_matches run match_stride (items ! i)); w = nat match_stride
      in fe = first_failure {i \<in> P. r i = []} \<and>
         length arr = length matches \<and> length cs = length counts \<and>
         (\<forall>i < length counts. cs ! i = (if i \<in> P then int (length (r i)) else counts ! i)) \<and>
         (\<forall>k < length matches. arr ! k =
            (if k div w \<in> P \<and> k mod w < length (r (k div w)) then r (k div w) ! (k mod w)
             else matches ! k)))"

lemma row_index:
  fixes k w i n :: nat
  assumes "n \<le> w"
  shows "i * w \<le> k \<and> k < i * w + n \<longleftrightarrow> k div w = i \<and> k mod w < n"
proof (cases "w = 0")
  case True
  then show ?thesis using assms by simp
next
  case False
  show ?thesis
  proof
    assume k: "i * w \<le> k \<and> k < i * w + n"
    define d where "d = k - i * w"
    have d: "k = d + i * w" "d < n" using k unfolding d_def by linarith+
    then have "d < w" using assms by simp
    then show "k div w = i \<and> k mod w < n" using d False by simp
  next
    assume "k div w = i \<and> k mod w < n"
    then show "i * w \<le> k \<and> k < i * w + n" by (metis add_le_cancel_left div_mult_mod_eq le0 nat_add_left_cancel_less add_0_right)
  qed
qed

lemma batch_step_ok:
  assumes ok: "batch_state_ok run items match_stride matches counts P st"
    and new: "i \<notin> P" "finite P" "i < length items"
    and len: "length counts = length items" "length items * nat match_stride \<le> length matches"
    and fits: "int (length (item_matches run match_stride (items ! i))) \<le> match_stride"
  shows "batch_state_ok run items match_stride matches counts (insert i P)
    (match_batch_step run items match_stride i st)"
proof -
  let ?r = "\<lambda>i. item_matches run match_stride (items ! i)" and ?w = "nat match_stride"
  obtain fe arr cs where st: "st = (fe, arr, cs)" by (cases st)
  have fe: "fe = first_failure {i \<in> P. ?r i = []}"
    and la: "length arr = length matches" and lc: "length cs = length counts"
    and cs: "\<forall>i < length counts. cs ! i = (if i \<in> P then int (length (?r i)) else counts ! i)"
    and arr: "\<forall>k < length matches. arr ! k =
      (if k div ?w \<in> P \<and> k mod ?w < length (?r (k div ?w)) then ?r (k div ?w) ! (k mod ?w) else matches ! k)"
    using ok by (simp_all add: st batch_state_ok_def Let_def)
  let ?fe = "if ?r i = [] then record_batch_failure i fe else fe"
  let ?arr = "if ?r i = [] then arr else write_matches arr (i * ?w) (?r i)"
  have step: "match_batch_step run items match_stride i st = (?fe, ?arr, cs[i := int (length (?r i))])"
    by (auto simp: match_batch_step_def st Let_def item_matches_def write_matches_def)
  have "{j \<in> insert i P. ?r j = []} = (if ?r i = [] then insert i {j \<in> P. ?r j = []} else {j \<in> P. ?r j = []})"
    by auto
  then have "?fe = first_failure {j \<in> insert i P. ?r j = []}"
    using new(2) fe by (auto simp: record_first_failure)
  moreover have room: "i * ?w + length (?r i) \<le> length arr"
  proof -
    have "i * ?w + length (?r i) \<le> i * ?w + ?w" using fits by simp
    also have "\<dots> = Suc i * ?w" by simp
    also have "\<dots> \<le> length items * ?w" using new(3) by (intro mult_le_mono1) simp
    finally show ?thesis using len la by simp
  qed
  moreover have "length ?arr = length matches" using room la by (simp add: length_write_matches)
  moreover have "\<forall>k < length matches. ?arr ! k =
      (if k div ?w \<in> insert i P \<and> k mod ?w < length (?r (k div ?w)) then ?r (k div ?w) ! (k mod ?w) else matches ! k)"
  proof (intro allI impI)
    fix k assume k: "k < length matches"
    have w: "i * ?w \<le> k \<and> k < i * ?w + length (?r i) \<longleftrightarrow> k div ?w = i \<and> k mod ?w < length (?r i)"
      using fits by (intro row_index) simp
    show "?arr ! k =
      (if k div ?w \<in> insert i P \<and> k mod ?w < length (?r (k div ?w)) then ?r (k div ?w) ! (k mod ?w) else matches ! k)"
    proof (cases "k div ?w = i \<and> k mod ?w < length (?r i)")
      case True
      then have "k - i * ?w = k mod ?w" by (metis minus_div_mult_eq_mod)
      with True show ?thesis using w room by (auto simp: write_matches_nth)
    next
      case False
      then have "?arr ! k = arr ! k" using w room by (auto simp: write_matches_nth)
      then show ?thesis using False arr k new(1) by auto
    qed
  qed
  moreover have "\<forall>j < length counts. cs[i := int (length (?r i))] ! j =
      (if j \<in> insert i P then int (length (?r j)) else counts ! j)"
    using cs lc new(3) len(1) by (simp add: nth_list_update)
  ultimately show ?thesis
    unfolding step batch_state_ok_def Let_def prod.case using lc by simp
qed

lemma batch_fold_ok:
  assumes "distinct is" "set is \<inter> P = {}" "finite P" "set is \<subseteq> {0..<length items}"
    and "length counts = length items" "length items * nat match_stride \<le> length matches"
    and "\<forall>i \<in> set is. int (length (item_matches run match_stride (items ! i))) \<le> match_stride"
    and "batch_state_ok run items match_stride matches counts P st"
  shows "batch_state_ok run items match_stride matches counts (P \<union> set is)
    (fold (match_batch_step run items match_stride) is st)"
  using assms
proof (induction "is" arbitrary: P st)
  case Nil
  then show ?case by simp
next
  case (Cons i "is")
  have "batch_state_ok run items match_stride matches counts (insert i P)
      (match_batch_step run items match_stride i st)"
    using Cons.prems by (intro batch_step_ok) auto
  then show ?case
    using Cons.IH [of "insert i P" "match_batch_step run items match_stride i st"] Cons.prems by auto
qed

lemma match_batch_result:
  assumes "items \<noteq> []" "1 \<le> match_stride" "length counts = length items"
    and "length items * nat match_stride \<le> length matches"
    and "\<forall>item \<in> set items. int (length (item_matches run match_stride item)) \<le> match_stride"
    and res: "match_batch_with h run False items (int (length items)) match_stride matches counts =
      (ret, matches', counts')"
  shows "ret = int (first_failure {i. i < length items \<and> item_matches run match_stride (items ! i) = []})"
    and "counts' = map (\<lambda>item. int (length (item_matches run match_stride item))) items"
    and "length matches' = length matches"
    and "i < length items \<Longrightarrow> j < length (item_matches run match_stride (items ! i)) \<Longrightarrow>
      matches' ! (i * nat match_stride + j) = item_matches run match_stride (items ! i) ! j"
proof -
  let ?r = "\<lambda>i. item_matches run match_stride (items ! i)" and ?w = "nat match_stride"
  obtain fe where fold_eq: "fold (match_batch_step run items match_stride)
      (bucket_order h match_item_less items) (0, matches, counts) = (fe, matches', counts')"
    and ret: "ret = int fe"
    using res assms(1,2) by (auto simp: match_batch_with_def Let_def split: prod.splits)
  have ok: "batch_state_ok run items match_stride matches counts {0..<length items} (fe, matches', counts')"
  proof -
    have s0: "batch_state_ok run items match_stride matches counts {} (0, matches, counts)"
      by (simp add: batch_state_ok_def)
    have "batch_state_ok run items match_stride matches counts ({} \<union> set (bucket_order h match_item_less items))
        (fold (match_batch_step run items match_stride) (bucket_order h match_item_less items) (0, matches, counts))"
      by (rule batch_fold_ok) (use assms(3-5) s0 in auto)
    then show ?thesis by (simp add: fold_eq)
  qed
  have "{i \<in> {0..<length items}. ?r i = []} = {i. i < length items \<and> ?r i = []}" by auto
  then show "ret = int (first_failure {i. i < length items \<and> ?r i = []})"
    using ok ret by (simp add: batch_state_ok_def Let_def)
  show "length matches' = length matches" using ok by (simp add: batch_state_ok_def Let_def)
  show "counts' = map (\<lambda>item. int (length (item_matches run match_stride item))) items"
    using ok assms(3) by (intro nth_equalityI) (auto simp: batch_state_ok_def Let_def)
  assume ij: "i < length items" "j < length (?r i)"
  have j: "j < ?w" using assms(5) ij by (metis less_le_trans nth_mem zless_nat_eq_int_zless of_nat_less_iff)
  then have k: "(i * ?w + j) div ?w = i" "(i * ?w + j) mod ?w = j" by auto
  have "i * ?w + j < Suc i * ?w" using j by simp
  also have "\<dots> \<le> length items * ?w" using ij(1) by (intro mult_le_mono1) simp
  finally have "i * ?w + j < length matches" using assms(4) by simp
  then show "matches' ! (i * ?w + j) = ?r i ! j"
    using ok ij k by (simp add: batch_state_ok_def Let_def)
qed

subsection \<open>The matchers fit their rows\<close>

lemma collect_spatial_length:
  "int (length (collect_spatial_coords False width height bx by block bm_range grp distance)) \<le> max 0 (min grp kBmMaxGroup)"
proof (cases "spatial_args_ok width height block grp")
  case True
  show ?thesis by (rule order_trans [OF collect_spatial_facts(4) [OF True refl] max.cobounded2])
next
  case False
  then show ?thesis
    by (auto simp: collect_spatial_coords_def collect_spatial_with_def spatial_args_ok_def)
qed

lemma collect_temporal_length:
  assumes "int (length out) \<le> sc_group cfg" "out \<noteq> []"
    and "distinct (map (\<lambda>m. (m_y m, m_x m)) out)" "0 \<le> height"
  shows "int (length (collect_temporal width height t0 ntemp cfg out distance)) \<le> sc_group cfg"
proof -
  have g: "0 \<le> sc_group cfg - 1" using assms(1,2) by (cases out) auto
  show ?thesis
    unfolding collect_temporal_spec(1) [OF assms(4,1,3)] temporal_spec_def Let_def
    using assms(1) length_best_matches [OF g] by (auto simp: add.commute le_diff_eq)
qed

definition matcher_fits ::
    "(match_item \<Rightarrow> match list) \<Rightarrow> bool" where
  "matcher_fits run \<longleftrightarrow> (\<forall>item. 0 < mi_group item \<longrightarrow> int (length (run item)) \<le> min (mi_group item) kBmMaxGroup)"

lemma item_matches_fit:
  assumes "matcher_fits run" "1 \<le> match_stride"
  shows "int (length (item_matches run match_stride item)) \<le> match_stride"
  using assms by (auto simp: item_matches_def match_capacity_valid_def matcher_fits_def intro: order_trans)

lemma spatial_matcher_fits:
  assumes "\<forall>block grp fast_kernel cx cy r. fast block grp = Some fast_kernel \<longrightarrow>
    int (length (fast_kernel cx cy r)) \<le> min grp kBmMaxGroup"
  shows "matcher_fits (\<lambda>item. spatial_match fast False False stride width height (mi_bx item) (mi_by item)
    (mi_block item) (mi_bm_range item) (mi_group item) (distance (mi_block item)))"
proof (unfold matcher_fits_def, intro allI impI)
  fix item :: match_item
  assume g: "0 < mi_group item"
  have generic: "int (length (collect_spatial_coords False width height bx by (mi_block item) (mi_bm_range item)
      (mi_group item) (distance (mi_block item)))) \<le> min (mi_group item) kBmMaxGroup" for bx "by"
    using collect_spatial_length [of width height bx "by" "mi_block item" "mi_bm_range item" "mi_group item"
        "distance (mi_block item)"] g by (simp add: kBmMaxGroup_def)
  show "int (length (spatial_match fast False False stride width height (mi_bx item) (mi_by item)
      (mi_block item) (mi_bm_range item) (mi_group item) (distance (mi_block item)))) \<le> min (mi_group item) kBmMaxGroup"
  proof (cases "fast (mi_block item) (mi_group item)")
    case None
    then show ?thesis using generic g by (simp add: spatial_match_def Let_def kBmMaxGroup_def)
  next
    case (Some f)
    have "int (length (f cx cy r)) \<le> min (mi_group item) kBmMaxGroup" for cx cy r
      using assms Some by blast
    then show ?thesis using Some g by (simp add: spatial_match_def Let_def kBmMaxGroup_def)
  qed
qed

lemma predictive_matcher_fits:
  assumes "\<forall>block grp. fast block grp = None"
  shows "matcher_fits (\<lambda>item. predictive_match fast ssd False refs strides ntemp width height (mi_bx item)
    (mi_by item) t0 (item_search cfg item))"
proof (unfold matcher_fits_def, intro allI impI)
  fix item :: match_item
  assume g: "0 < mi_group item"
  let ?cfg = "item_search cfg item"
  show "int (length (predictive_match fast ssd False refs strides ntemp width height (mi_bx item)
      (mi_by item) t0 ?cfg)) \<le> min (mi_group item) kBmMaxGroup"
  proof (cases "predictive_args_ok refs strides ntemp width height t0 ?cfg")
    case False
    then show ?thesis using g by (simp add: predictive_match_invalid kBmMaxGroup_def)
  next
    case True
    let ?d = "\<lambda>cx cy x y. ssd (the (refs t0)) (strides t0) cx cy (the (refs t0)) (strides t0) x y (sc_block ?cfg)"
    let ?s = "collect_spatial_coords False width height (mi_bx item) (mi_by item) (sc_block ?cfg)
      (sc_bm_range ?cfg) (sc_group ?cfg) ?d"
    have args: "spatial_args_ok width height (sc_block ?cfg) (sc_group ?cfg)" and h: "0 \<le> height"
      using True by (auto simp: predictive_args_ok_def spatial_args_ok_def)
    note sp = collect_spatial_facts [OF args refl, of "mi_bx item" "mi_by item" "sc_bm_range ?cfg" ?d]
    have d: "distinct (map (\<lambda>m. (m_y m, m_x m)) ?s)"
      using sp(3,5) by (auto simp: distinct_map inj_on_def position_def)
    have len: "int (length ?s) \<le> sc_group ?cfg" using sp(4) by simp
    have eq: "predictive_match fast ssd False refs strides ntemp width height (mi_bx item) (mi_by item) t0 ?cfg =
        temporal_spec width height t0 ntemp ?cfg ?s
          (\<lambda>t x y. ssd (the (refs t0)) (strides t0) (cclamp (mi_bx item) 0 (width - sc_block ?cfg))
            (cclamp (mi_by item) 0 (height - sc_block ?cfg)) (the (refs t)) (strides t) x y (sc_block ?cfg))"
      by (rule predictive_match_valid [OF True]) (simp add: assms)
    have "int (length (predictive_match fast ssd False refs strides ntemp width height (mi_bx item)
        (mi_by item) t0 ?cfg)) \<le> sc_group ?cfg"
      using collect_temporal_length [OF len sp(1) d h] collect_temporal_spec(1) [OF h len d]
      unfolding eq by simp
    moreover have "sc_group ?cfg = mi_group item" "sc_group ?cfg \<le> kBmMaxGroup"
      using True by (auto simp: item_search_def predictive_args_ok_def)
    ultimately show ?thesis by simp
  qed
qed

subsection \<open>Properties of the batches\<close>

text \<open>
  C27. A batch gives every item what the matcher gives it alone, in the item's own row of
  the caller's array and in the caller's order, whatever the buckets; an item without a
  group or without room in its row counts zero, writes nothing and leaves the rows of the
  others intact; the result is the smallest failed index plus one, zero for none. Stated
  for the spatial batch over any kernels that return at most \<open>min group 64\<close> matches.
\<close>

theorem spatial_match_batch_rows:
  assumes "items \<noteq> []" "1 \<le> match_stride" "length counts = length items"
    and "length items * nat match_stride \<le> length matches"
    and "\<forall>block grp fast_kernel cx cy r. fast block grp = Some fast_kernel \<longrightarrow>
      int (length (fast_kernel cx cy r)) \<le> min grp kBmMaxGroup"
  shows "let alone = (\<lambda>item. if match_capacity_valid (mi_group item) match_stride
        then spatial_match fast False False stride width height (mi_bx item) (mi_by item) (mi_block item)
          (mi_bm_range item) (mi_group item) (distance (mi_block item)) else []);
      (ret, matches', counts') = spatial_match_batch h fast stride width height distance False items
        (int (length items)) match_stride matches counts
    in ret = int (first_failure {i. i < length items \<and> alone (items ! i) = []}) \<and>
      counts' = map (\<lambda>item. int (length (alone item))) items \<and> length matches' = length matches \<and>
      (\<forall>i < length items. \<forall>j < length (alone (items ! i)).
        matches' ! (i * nat match_stride + j) = alone (items ! i) ! j)"
proof -
  let ?run = "\<lambda>item. spatial_match fast False False stride width height (mi_bx item) (mi_by item) (mi_block item)
          (mi_bm_range item) (mi_group item) (distance (mi_block item))"
  obtain ret matches' counts' where res:
    "match_batch_with h ?run False items (int (length items)) match_stride matches counts = (ret, matches', counts')"
    by (rule prod_cases3)
  have fits: "\<forall>item \<in> set items. int (length (item_matches ?run match_stride item)) \<le> match_stride"
    using item_matches_fit [OF spatial_matcher_fits [OF assms(5)] assms(2)] by blast
  note r = match_batch_result [OF assms(1-4) fits res]
  show ?thesis
    unfolding spatial_match_batch_def res Let_def prod.case
    by (intro conjI allI impI r [unfolded item_matches_def]; assumption)
qed

definition example_items :: "match_item list" where
  "example_items =
     [\<lparr>mi_bx = 0, mi_by = 0, mi_block = 9, mi_bm_range = 1, mi_group = 2, mi_avx2_features = 0\<rparr>,
      \<lparr>mi_bx = 1, mi_by = 1, mi_block = 2, mi_bm_range = 1, mi_group = 1, mi_avx2_features = 0\<rparr>]"

theorem spatial_match_batch_rows_witness:
  "fst (spatial_match_batch False (\<lambda>_ _. None) 4 4 4 (\<lambda>_ _ _ _ _. 0) False example_items
      (int (length example_items)) 2 (replicate 4 (self_match 0 0)) [7, 7]) = 1"
proof -
  obtain ret matches' counts' where res: "spatial_match_batch False (\<lambda>_ _. None) 4 4 4 (\<lambda>_ _ _ _ _. 0) False
      example_items (int (length example_items)) 2 (replicate 4 (self_match 0 0)) [7, 7] = (ret, matches', counts')"
    by (rule prod_cases3)
  have "{i. i < length example_items \<and>
      (if match_capacity_valid (mi_group (example_items ! i)) 2
        then spatial_match (\<lambda>_ _. None) False False 4 4 4 (mi_bx (example_items ! i)) (mi_by (example_items ! i))
          (mi_block (example_items ! i)) (mi_bm_range (example_items ! i)) (mi_group (example_items ! i))
          (\<lambda>_ _ _ _. 0) else []) = []} = {0}"
    by (auto simp: example_items_def less_Suc_eq spatial_match_def match_capacity_valid_def kBmMaxGroup_def
        collect_spatial_coords_def collect_spatial_with_def cclamp_def Let_def)
  moreover have "ret = int (first_failure {i. i < length example_items \<and>
      (if match_capacity_valid (mi_group (example_items ! i)) 2
        then spatial_match (\<lambda>_ _. None) False False 4 4 4 (mi_bx (example_items ! i)) (mi_by (example_items ! i))
          (mi_block (example_items ! i)) (mi_bm_range (example_items ! i)) (mi_group (example_items ! i))
          (\<lambda>_ _ _ _. 0) else []) = []})"
    using spatial_match_batch_rows [of example_items 2 "[7, 7]" "replicate 4 (self_match 0 0)" "\<lambda>_ _. None"
        4 4 4 "\<lambda>_ _ _ _ _. 0" False, unfolded Let_def res prod.case]
    by (simp add: example_items_def)
  ultimately show ?thesis by (simp add: res first_failure_def)
qed



end
