(* ===== verification/Checked.thy ===== *)
theory Checked
  imports Prelude
begin

text \<open>
  Checked size arithmetic (include/nss/checked.hpp), the parameter limits and admitted
  shapes of include/nss/params.hpp, and the scratch sizes computed with them
  (include/nss/cpu_api.hpp). \<open>std::size_t\<close> values are \<open>nat\<close> up to \<open>size_max\<close>; every
  operation of the code that could wrap around is preceded by the code's own test.
\<close>

subsection \<open>Limits (include/nss/params.hpp)\<close>

definition kBmMaxBlock :: int where "kBmMaxBlock = 32"
definition kBmMaxRange :: int where "kBmMaxRange = 64"
definition kSvdMaxM :: int where "kSvdMaxM = 256"
definition kSvdMaxN :: int where "kSvdMaxN = 32"

definition bm_allowed_block :: "int \<Rightarrow> bool" where
  "bm_allowed_block v \<longleftrightarrow> v = 1 \<or> v = 2 \<or> v = 4 \<or> v = 8 \<or> v = 12 \<or> v = 16 \<or> v = 32"

definition lssc_allowed_block :: "int \<Rightarrow> bool" where
  "lssc_allowed_block v \<longleftrightarrow> v = 1 \<or> v = 2 \<or> v = 4 \<or> v = 8 \<or> v = 16"

definition bm_allowed_group :: "int \<Rightarrow> bool" where
  "bm_allowed_group v \<longleftrightarrow> v = 1 \<or> v = 2 \<or> v = 4 \<or> v = 8 \<or> v = 16 \<or> v = 32 \<or> v = 64"

lemma allowed_bounds:
  "bm_allowed_block v \<Longrightarrow> 1 \<le> v \<and> v \<le> kBmMaxBlock"
  "lssc_allowed_block v \<Longrightarrow> 1 \<le> v \<and> v \<le> 16"
  "bm_allowed_group v \<Longrightarrow> 1 \<le> v \<and> v \<le> 64"
  by (auto simp: bm_allowed_block_def lssc_allowed_block_def bm_allowed_group_def kBmMaxBlock_def)

subsection \<open>Checked operations\<close>

definition checked_add :: "nat \<Rightarrow> nat \<Rightarrow> nat res" where
  "checked_add a b = (if b > size_max - a then Inl Bad_array_new_length else Inr (a + b))"

text \<open>The terms of \<open>checked_sum\<close> may be signed; a negative one is rejected.\<close>

fun checked_sum_from :: "nat \<Rightarrow> int list \<Rightarrow> nat res" where
  "checked_sum_from v [] = Inr v"
| "checked_sum_from v (term # terms) =
     (if term < 0 then Inl Bad_array_new_length
      else bindE (checked_add v (nat term)) (\<lambda>v'. checked_sum_from v' terms))"

definition checked_sum :: "int list \<Rightarrow> nat res" where
  "checked_sum terms = checked_sum_from 0 terms"

definition checked_mul :: "nat \<Rightarrow> nat \<Rightarrow> nat res" where
  "checked_mul a b =
     (if a \<noteq> 0 \<and> b > size_max div a then Inl Bad_array_new_length else Inr (a * b))"

fun checked_product_from :: "nat \<Rightarrow> nat list \<Rightarrow> nat res" where
  "checked_product_from v [] = Inr v"
| "checked_product_from v (f # fs) = bindE (checked_mul v f) (\<lambda>v'. checked_product_from v' fs)"

definition checked_product :: "nat list \<Rightarrow> nat res" where
  "checked_product factors = checked_product_from 1 factors"

definition checked_int :: "nat \<Rightarrow> int res" where
  "checked_int value' =
     (if value' > nat int_max then Inl (Overflow_error ''nss: size exceeds the kernel integer range'')
      else Inr (int value'))"

definition checked_solver_shape :: "int \<Rightarrow> int \<Rightarrow> unit res" where
  "checked_solver_shape m n =
     (if m < 1 \<or> m > kSvdMaxM \<or> n < 1 \<or> n > kSvdMaxN
      then Inl (Invalid_argument ''nss: unsupported solver workspace shape'') else Inr ())"

text \<open>The product is computed in 64 bits: \<open>mod 2 ^ 64\<close> is the wrap-around of the type.\<close>

definition checked_fat_height :: "int \<Rightarrow> int \<Rightarrow> int res" where
  "checked_fat_height height radius =
     (if height < 1 \<or> radius < 0 then Inl (Invalid_argument ''nss: invalid temporal dimensions'')
      else checked_int (nat height * ((2 * nat radius + 1) mod 2 ^ 64) mod 2 ^ 64 * 2 mod 2 ^ 64))"

definition bm3d_filter_work_floats :: "int \<Rightarrow> int \<Rightarrow> int res" where
  "bm3d_filter_work_floats grp block =
     (if \<not> bm_allowed_group grp \<or> \<not> bm_allowed_block block
      then Inl (Invalid_argument ''nss: unsupported BM3D workspace shape'')
      else Inr (2 * grp * block * block))"

definition wnnm_shrink_work_floats :: "int \<Rightarrow> int \<Rightarrow> int res" where
  "wnnm_shrink_work_floats m n =
     bindE (checked_solver_shape m n)
       (\<lambda>_. let sh = m * n + n + n * n + m; svd = m * n * 6 + n * n * 8 + n + 256 in Inr (sh + svd))"

subsection \<open>Correctness\<close>

lemma checked_add_iff:
  assumes "a \<le> size_max"
  shows "checked_add a b = Inr c \<longleftrightarrow> c = a + b \<and> a + b \<le> size_max"
  using assms by (auto simp: checked_add_def)

lemma checked_add_error: "checked_add a b = Inl e \<Longrightarrow> e = Bad_array_new_length"
  by (simp add: checked_add_def split: if_splits)

lemma checked_mul_iff: "checked_mul a b = Inr c \<longleftrightarrow> c = a * b \<and> a * b \<le> size_max"
proof (cases "a = 0")
  case True
  then show ?thesis by (auto simp: checked_mul_def)
next
  case False
  then have "b \<le> size_max div a \<longleftrightarrow> a * b \<le> size_max"
    by (simp add: less_eq_div_iff_mult_less_eq mult.commute)
  then show ?thesis using False by (auto simp: checked_mul_def not_less)
qed

lemma checked_mul_error: "checked_mul a b = Inl e \<Longrightarrow> e = Bad_array_new_length"
  by (simp add: checked_mul_def split: if_splits)

lemma checked_sum_from_iff:
  assumes "v \<le> size_max"
  shows "checked_sum_from v ts = Inr c \<longleftrightarrow>
    (\<forall>t \<in> set ts. 0 \<le> t) \<and> int c = int v + sum_list ts \<and> c \<le> size_max"
  using assms
proof (induction ts arbitrary: v)
  case Nil
  then show ?case by auto
next
  case (Cons t ts)
  show ?case
  proof (cases "0 \<le> t \<and> v + nat t \<le> size_max")
    case True
    then have "checked_add v (nat t) = Inr (v + nat t)" using Cons.prems by (simp add: checked_add_iff)
    then show ?thesis using True Cons.IH [of "v + nat t"] by auto
  next
    case False
    have "sum_list ts \<ge> 0" if "\<forall>t \<in> set ts. 0 \<le> t"
      using that by (intro sum_list_nonneg) auto
    moreover have "checked_sum_from v (t # ts) \<noteq> Inr c"
      using False Cons.prems by (auto simp: bindE_Inr_iff checked_add_def split: if_splits)
    ultimately show ?thesis using False by auto
  qed
qed

lemma checked_sum_iff:
  "checked_sum ts = Inr c \<longleftrightarrow> (\<forall>t \<in> set ts. 0 \<le> t) \<and> int c = sum_list ts \<and> c \<le> size_max"
  by (simp add: checked_sum_def checked_sum_from_iff)

lemma checked_sum_from_error: "checked_sum_from v ts = Inl e \<Longrightarrow> e = Bad_array_new_length"
  by (induction ts arbitrary: v) (auto simp: bindE_Inl_iff checked_add_def split: if_splits)

lemma prod_list_pos: "0 \<notin> set fs \<Longrightarrow> 0 < prod_list (fs :: nat list)"
  by (induction fs) auto

text \<open>
  A product fails at the first factor whose partial product does not fit; it succeeds only
  with the exact product.
\<close>

lemma checked_product_from_Inr:
  "checked_product_from v fs = Inr c \<Longrightarrow> v \<le> size_max \<Longrightarrow> c = v * prod_list fs \<and> c \<le> size_max"
proof (induction fs arbitrary: v)
  case Nil
  then show ?case by simp
next
  case (Cons f fs)
  then have "v * f \<le> size_max" "checked_product_from (v * f) fs = Inr c"
    by (auto simp: bindE_Inr_iff checked_mul_iff)
  then show ?case using Cons.IH [of "v * f"] by (simp add: mult.assoc)
qed

lemma checked_product_from_total:
  assumes "v * prod_list fs \<le> size_max" "0 \<notin> set fs"
  shows "checked_product_from v fs = Inr (v * prod_list fs)"
  using assms
proof (induction fs arbitrary: v)
  case Nil
  then show ?case by simp
next
  case (Cons f fs)
  have "0 < prod_list fs" using Cons.prems(2) by (simp add: prod_list_pos)
  then have "v * f \<le> v * f * prod_list fs" by simp
  also have "\<dots> \<le> size_max" using Cons.prems(1) by (simp add: mult.assoc)
  finally have "checked_mul v f = Inr (v * f)" by (simp add: checked_mul_iff)
  then show ?case using Cons by (simp add: mult.assoc)
qed

lemma checked_int_iff: "checked_int v = Inr c \<longleftrightarrow> c = int v \<and> int v \<le> int_max"
  by (auto simp: checked_int_def int_max_def)

lemma fat_height_no_wrap:
  assumes "1 \<le> height" "height \<le> int_max" "0 \<le> radius" "radius \<le> int_max"
  shows "nat height * ((2 * nat radius + 1) mod 2 ^ 64) mod 2 ^ 64 * 2 mod 2 ^ 64 =
    nat (2 * height * (2 * radius + 1))"
proof -
  have h: "nat height \<le> 2147483647" "nat radius \<le> 2147483647" using assms by (simp_all add: int_max_def)
  let ?s = "2 * nat radius + 1"
  have s: "?s \<le> 4294967295" using h by simp
  have p: "nat height * ?s \<le> 2147483647 * 4294967295" using h s by (intro mult_le_mono)
  have "nat height * (?s mod 2 ^ 64) mod 2 ^ 64 * 2 mod 2 ^ 64 = nat height * ?s * 2"
    using s p by simp
  also have "\<dots> = nat (2 * height * (2 * radius + 1))"
    using assms by (simp add: nat_mult_distrib nat_add_distrib)
  finally show ?thesis .
qed

subsection \<open>Properties\<close>

text \<open>
  The checked operations return the exact mathematical value when it fits the type and
  every signed term is non-negative, and throw otherwise; nothing wraps around.
\<close>

theorem checked_arithmetic_exact:
  "(a \<le> size_max \<longrightarrow> checked_add a b = (if a + b \<le> size_max then Inr (a + b) else Inl Bad_array_new_length)) \<and>
   checked_mul a b = (if a * b \<le> size_max then Inr (a * b) else Inl Bad_array_new_length) \<and>
   checked_sum ts = (if (\<forall>t \<in> set ts. 0 \<le> t) \<and> sum_list ts \<le> int size_max
     then Inr (nat (sum_list ts)) else Inl Bad_array_new_length) \<and>
   (0 \<notin> set fs \<longrightarrow> checked_product fs =
     (if prod_list fs \<le> size_max then Inr (prod_list fs) else Inl Bad_array_new_length)) \<and>
   (1 \<le> height \<and> height \<le> int_max \<and> 0 \<le> radius \<and> radius \<le> int_max \<longrightarrow>
     checked_fat_height height radius =
       (if 2 * height * (2 * radius + 1) \<le> int_max then Inr (2 * height * (2 * radius + 1))
        else Inl (Overflow_error ''nss: size exceeds the kernel integer range'')))"
proof (intro conjI impI)
  assume "a \<le> size_max"
  then show "checked_add a b = (if a + b \<le> size_max then Inr (a + b) else Inl Bad_array_new_length)"
    by (auto simp: checked_add_def)
next
  show "checked_mul a b = (if a * b \<le> size_max then Inr (a * b) else Inl Bad_array_new_length)"
    using checked_mul_iff [of a b] checked_mul_error [of a b] by (cases "checked_mul a b") auto
next
  show "checked_sum ts = (if (\<forall>t \<in> set ts. 0 \<le> t) \<and> sum_list ts \<le> int size_max
     then Inr (nat (sum_list ts)) else Inl Bad_array_new_length)"
  proof (cases "checked_sum ts")
    case (Inl e)
    then have e: "e = Bad_array_new_length" by (simp add: checked_sum_def checked_sum_from_error)
    have "\<not> ((\<forall>t \<in> set ts. 0 \<le> t) \<and> sum_list ts \<le> int size_max)"
    proof
      assume h: "(\<forall>t \<in> set ts. 0 \<le> t) \<and> sum_list ts \<le> int size_max"
      then have "0 \<le> sum_list ts" by (intro sum_list_nonneg) auto
      then have "checked_sum ts = Inr (nat (sum_list ts))" using h by (subst checked_sum_iff) auto
      then show False using Inl by simp
    qed
    then show ?thesis using Inl e by auto
  next
    case (Inr c)
    then show ?thesis by (auto simp: checked_sum_iff)
  qed
next
  assume nz: "0 \<notin> set fs"
  show "checked_product fs = (if prod_list fs \<le> size_max then Inr (prod_list fs) else Inl Bad_array_new_length)"
  proof (cases "prod_list fs \<le> size_max")
    case True
    then show ?thesis using checked_product_from_total [of 1 fs] nz by (simp add: checked_product_def)
  next
    case False
    have "e = Bad_array_new_length" if "checked_product_from v fs = Inl e" for v e
      using that by (induction fs arbitrary: v) (auto simp: bindE_Inl_iff checked_mul_error)
    then show ?thesis
      using False checked_product_from_Inr [of 1 fs]
      by (cases "checked_product fs") (auto simp: checked_product_def size_max_def)
  qed
next
  assume h: "1 \<le> height \<and> height \<le> int_max \<and> 0 \<le> radius \<and> radius \<le> int_max"
  then have nn: "0 \<le> 2 * height * (2 * radius + 1)" by simp
  have "\<not> (height < 1 \<or> radius < 0)" using h by auto
  then have "checked_fat_height height radius = checked_int (nat (2 * height * (2 * radius + 1)))"
    using h by (simp only: checked_fat_height_def if_False fat_height_no_wrap)
  then show "checked_fat_height height radius =
      (if 2 * height * (2 * radius + 1) \<le> int_max then Inr (2 * height * (2 * radius + 1))
       else Inl (Overflow_error ''nss: size exceeds the kernel integer range''))"
    using nn by (auto simp: checked_int_def int_max_def)
qed

theorem checked_arithmetic_exact_witness:
  "checked_fat_height 1080 4 = Inr 19440 \<and> checked_mul 3 5 = Inr 15 \<and> checked_sum [2, - 1] = Inl Bad_array_new_length"
  using checked_arithmetic_exact [where a = 3 and b = 5 and ts = "[2, - 1]" and fs = "[]" and height = 1080 and radius = 4]
  by (simp add: size_max_def int_max_def)

end
