(* ===== verification/Resources.thy ===== *)
theory Resources
  imports Checked
begin

text \<open>
  The memory budget of a node (include/nss/resources.hpp): a budget counts the bytes of
  each category, what of them the node owns, and the peak; an account belongs to one
  allocation and knows its category and its bytes. Every operation holds the budget's
  mutex for its whole body, so it is one step of the transition system below.
\<close>

subsection \<open>Budget and accounts\<close>

datatype resource_kind = Workspace_kind | Cached_kind | Pinned_kind | Inflight_kind | Output_kind | Framework_kind

definition all_kinds :: "resource_kind list" where
  "all_kinds = [Workspace_kind, Cached_kind, Pinned_kind, Inflight_kind, Output_kind, Framework_kind]"

record budget =
  b_bytes :: "resource_kind \<Rightarrow> nat"
  b_owned :: nat
  b_peak :: nat
  b_limit :: nat

definition new_budget :: "nat \<Rightarrow> budget" where
  "new_budget limit = \<lparr>b_bytes = (\<lambda>_. 0), b_owned = 0, b_peak = 0, b_limit = limit\<rparr>"

record account =
  a_kind :: resource_kind
  a_bytes :: nat

definition new_account :: "resource_kind \<Rightarrow> account" where
  "new_account kind = \<lparr>a_kind = kind, a_bytes = 0\<rparr>"

text \<open>\<open>ResourceAccount::acquire\<close>: \<open>None\<close> is an account without a budget.\<close>

definition acquire :: "nat \<Rightarrow> budget option \<Rightarrow> account \<Rightarrow> (budget option \<times> account) res" where
  "acquire bytes bo a =
     (case bo of
        None \<Rightarrow> Inr (None, a)
      | Some b \<Rightarrow>
          let owned = (a_kind a \<noteq> Framework_kind)
          in if owned \<and> bytes > b_limit b - b_owned b
             then Inl (Runtime_error ''nss: memory_limit_mb exceeded'')
             else
               bindE (checked_add (b_bytes b (a_kind a)) bytes) (\<lambda>next.
               bindE (checked_add (a_bytes a) bytes) (\<lambda>account_next.
                 let b1 = b\<lparr>b_bytes := (b_bytes b)(a_kind a := next)\<rparr>;
                     a1 = a\<lparr>a_bytes := account_next\<rparr>
                 in Inr (Some (if owned
                      then b1\<lparr>b_owned := b_owned b1 + bytes, b_peak := max (b_peak b1) (b_owned b1 + bytes)\<rparr>
                      else b1), a1))))"

definition release :: "nat \<Rightarrow> budget option \<Rightarrow> account \<Rightarrow> budget option \<times> account" where
  "release bytes bo a =
     (case bo of
        None \<Rightarrow> (None, a)
      | Some b \<Rightarrow>
          let b1 = b\<lparr>b_bytes := (b_bytes b)(a_kind a := b_bytes b (a_kind a) - bytes)\<rparr>
          in (Some (if a_kind a \<noteq> Framework_kind then b1\<lparr>b_owned := b_owned b1 - bytes\<rparr> else b1),
              a\<lparr>a_bytes := a_bytes a - bytes\<rparr>))"

definition retag :: "resource_kind \<Rightarrow> budget option \<Rightarrow> account \<Rightarrow> budget option \<times> account" where
  "retag kind bo a =
     (case bo of
        None \<Rightarrow> (None, a)
      | Some b \<Rightarrow>
          if kind = a_kind a then (Some b, a)
          else
            let bytes1 = (b_bytes b)(a_kind a := b_bytes b (a_kind a) - a_bytes a);
                bytes2 = bytes1(kind := bytes1 kind + a_bytes a)
            in (Some (b\<lparr>b_bytes := bytes2\<rparr>), a\<lparr>a_kind := kind\<rparr>))"

subsection \<open>\<open>ResourceAllocator\<close> and \<open>ResourceScope\<close>\<close>

text \<open>
  \<open>allocate\<close>: the charge comes before the allocation and is taken back when it fails;
  \<open>malloc_ok\<close> is the answer of \<open>std::allocator\<close>.
\<close>

definition allocate :: "nat \<Rightarrow> bool \<Rightarrow> nat \<Rightarrow> budget option \<Rightarrow> account \<Rightarrow> nss_error option \<times> budget option \<times> account" where
  "allocate size_of malloc_ok n bo a =
     (case checked_mul n size_of of
        Inl e \<Rightarrow> (Some e, bo, a)
      | Inr bytes \<Rightarrow>
          (case acquire bytes bo a of
             Inl e \<Rightarrow> (Some e, bo, a)
           | Inr (bo', a') \<Rightarrow>
               if malloc_ok then (None, bo', a')
               else (let (bo'', a'') = release bytes bo' a' in (Some Bad_alloc, bo'', a''))))"

definition deallocate :: "nat \<Rightarrow> nat \<Rightarrow> budget option \<Rightarrow> account \<Rightarrow> budget option \<times> account" where
  "deallocate size_of n bo a = release (n * size_of) bo a"

text \<open>
  \<open>ResourceScope\<close> installs a budget and an account for the thread and restores the old
  ones: \<open>'b\<close> and \<open>'a\<close> are the shared pointers. \<open>fresh b\<close> is the account made for a budget
  that comes without one, \<open>None\<close> when that allocation fails.
\<close>

record ('b, 'a) thread_locals =
  tl_budget :: "'b option"
  tl_account :: "'a option"

definition scope_enter :: "('b \<Rightarrow> 'a option) \<Rightarrow> 'b option \<Rightarrow> 'a option \<Rightarrow> ('b, 'a) thread_locals \<Rightarrow>
    (('b, 'a) thread_locals \<times> ('b, 'a) thread_locals) res" where
  "scope_enter fresh budget account tls =
     (case budget of
        Some b \<Rightarrow>
          if account = None
          then (case fresh b of
                  None \<Rightarrow> Inl Bad_alloc
                | Some a \<Rightarrow> Inr (tls, \<lparr>tl_budget = Some b, tl_account = Some a\<rparr>))
          else Inr (tls, \<lparr>tl_budget = budget, tl_account = account\<rparr>)
      | None \<Rightarrow> Inr (tls, \<lparr>tl_budget = budget, tl_account = account\<rparr>))"

definition scope_exit :: "('b, 'a) thread_locals \<Rightarrow> ('b, 'a) thread_locals \<Rightarrow> ('b, 'a) thread_locals" where
  "scope_exit saved tls = saved"

subsection \<open>The system: one budget, many accounts\<close>

record resources =
  rs_budget :: budget
  rs_accounts :: "account list"

text \<open>
  Clients release what they acquired, and retag only between categories the node owns (the
  comment in \<open>retag\<close>); threads interleave whole operations.
\<close>

inductive resource_step :: "resources \<Rightarrow> resources \<Rightarrow> bool" where
  new_step: "resource_step r (r\<lparr>rs_accounts := rs_accounts r @ [new_account k]\<rparr>)"
| acquire_step: "i < length (rs_accounts r) \<Longrightarrow>
    acquire n (Some (rs_budget r)) (rs_accounts r ! i) = Inr (Some b, a) \<Longrightarrow>
    resource_step r \<lparr>rs_budget = b, rs_accounts = (rs_accounts r)[i := a]\<rparr>"
| release_step: "i < length (rs_accounts r) \<Longrightarrow> n \<le> a_bytes (rs_accounts r ! i) \<Longrightarrow>
    release n (Some (rs_budget r)) (rs_accounts r ! i) = (Some b, a) \<Longrightarrow>
    resource_step r \<lparr>rs_budget = b, rs_accounts = (rs_accounts r)[i := a]\<rparr>"
| retag_step: "i < length (rs_accounts r) \<Longrightarrow> k \<noteq> Framework_kind \<Longrightarrow>
    a_kind (rs_accounts r ! i) \<noteq> Framework_kind \<Longrightarrow>
    retag k (Some (rs_budget r)) (rs_accounts r ! i) = (Some b, a) \<Longrightarrow>
    resource_step r \<lparr>rs_budget = b, rs_accounts = (rs_accounts r)[i := a]\<rparr>"

inductive resource_reachable :: "nat \<Rightarrow> resources \<Rightarrow> bool" for limit where
  resource_init: "resource_reachable limit \<lparr>rs_budget = new_budget limit, rs_accounts = []\<rparr>"
| resource_next: "resource_reachable limit r \<Longrightarrow> resource_step r r' \<Longrightarrow> resource_reachable limit r'"

text \<open>The bytes charged to a category, and to all owned ones, by the accounts.\<close>

definition kind_bytes :: "resource_kind \<Rightarrow> account \<Rightarrow> nat" where
  "kind_bytes k a = (if a_kind a = k then a_bytes a else 0)"

definition owned_bytes :: "account \<Rightarrow> nat" where
  "owned_bytes a = (if a_kind a \<noteq> Framework_kind then a_bytes a else 0)"

definition resource_inv :: "nat \<Rightarrow> resources \<Rightarrow> bool" where
  "resource_inv limit r \<longleftrightarrow>
     (let b = rs_budget r; as = rs_accounts r
      in (\<forall>k. b_bytes b k = sum_list (map (kind_bytes k) as)) \<and>
         b_owned b = sum_list (map owned_bytes as) \<and>
         b_owned b \<le> b_peak b \<and> b_peak b \<le> b_limit b \<and> b_limit b = limit)"

lemma account_sum_update:
  fixes f :: "account \<Rightarrow> nat"
  assumes "i < length as"
  shows "sum_list (map f (as[i := a])) + f (as ! i) = sum_list (map f as) + f a"
  using sum_list_update_nat [of i "map f as" "f a"] assms by (simp add: map_update)

lemma account_sum_ge:
  fixes f :: "account \<Rightarrow> nat"
  assumes "i < length as"
  shows "f (as ! i) \<le> sum_list (map f as)"
  using member_le_sum_list_nat [of i "map f as"] assms by simp

lemma acquire_cases:
  assumes "acquire n (Some b) a = Inr (bo, a')"
  shows "\<exists>b'. bo = Some b' \<and> a' = a\<lparr>a_bytes := a_bytes a + n\<rparr> \<and>
    (a_kind a = Framework_kind \<or> n \<le> b_limit b - b_owned b) \<and>
    b' = (if a_kind a \<noteq> Framework_kind
      then b\<lparr>b_bytes := (b_bytes b)(a_kind a := b_bytes b (a_kind a) + n), b_owned := b_owned b + n,
             b_peak := max (b_peak b) (b_owned b + n)\<rparr>
      else b\<lparr>b_bytes := (b_bytes b)(a_kind a := b_bytes b (a_kind a) + n)\<rparr>)"
  using assms
  by (auto simp: acquire_def Let_def bindE_Inr_iff checked_add_def not_less split: if_splits)

lemma resource_inv_init: "resource_inv limit \<lparr>rs_budget = new_budget limit, rs_accounts = []\<rparr>"
  by (simp add: resource_inv_def new_budget_def)

lemma resource_step_inv:
  assumes "resource_step r r'" "resource_inv limit r"
  shows "resource_inv limit r'"
  using assms
proof (induction rule: resource_step.induct)
  case (new_step r k)
  then show ?case by (auto simp: resource_inv_def Let_def new_account_def kind_bytes_def owned_bytes_def)
next
  case (acquire_step i r n b a)
  let ?a = "rs_accounts r ! i"
  note upd = account_sum_update [OF acquire_step(1), of _ a]
  have a: "a = ?a\<lparr>a_bytes := a_bytes ?a + n\<rparr>" using acquire_cases [OF acquire_step(2)] by simp
  have kinds: "sum_list (map (kind_bytes k) ((rs_accounts r)[i := a])) =
      sum_list (map (kind_bytes k) (rs_accounts r)) + (if k = a_kind ?a then n else 0)" for k
    using upd [of "kind_bytes k"] by (auto simp: a kind_bytes_def split: if_splits)
  have own: "sum_list (map owned_bytes ((rs_accounts r)[i := a])) =
      sum_list (map owned_bytes (rs_accounts r)) + (if a_kind ?a \<noteq> Framework_kind then n else 0)"
    using upd [of owned_bytes] by (auto simp: a owned_bytes_def split: if_splits)
  let ?b = "rs_budget r"
  have b: "b = (if a_kind ?a \<noteq> Framework_kind
      then ?b\<lparr>b_bytes := (b_bytes ?b)(a_kind ?a := b_bytes ?b (a_kind ?a) + n), b_owned := b_owned ?b + n,
             b_peak := max (b_peak ?b) (b_owned ?b + n)\<rparr>
      else ?b\<lparr>b_bytes := (b_bytes ?b)(a_kind ?a := b_bytes ?b (a_kind ?a) + n)\<rparr>)"
    and room: "a_kind ?a = Framework_kind \<or> n \<le> b_limit ?b - b_owned ?b"
    using acquire_cases [OF acquire_step(2)] by auto
  have "b_bytes b k = sum_list (map (kind_bytes k) ((rs_accounts r)[i := a]))" for k
    using kinds [of k] acquire_step(3) by (auto simp: b resource_inv_def Let_def)
  moreover have "b_owned b = sum_list (map owned_bytes ((rs_accounts r)[i := a]))"
    using own acquire_step(3) by (auto simp: b resource_inv_def Let_def)
  moreover have "b_owned b \<le> b_peak b" "b_peak b \<le> b_limit b" "b_limit b = limit"
    using room acquire_step(3) by (auto simp: b resource_inv_def Let_def)
  ultimately show ?case by (simp add: resource_inv_def Let_def)
next
  case (release_step i r n b a)
  let ?a = "rs_accounts r ! i" and ?b = "rs_budget r"
  note upd = account_sum_update [OF release_step(1), of _ a]
  have a: "a = ?a\<lparr>a_bytes := a_bytes ?a - n\<rparr>"
    and b: "b = (if a_kind ?a \<noteq> Framework_kind
      then ?b\<lparr>b_bytes := (b_bytes ?b)(a_kind ?a := b_bytes ?b (a_kind ?a) - n), b_owned := b_owned ?b - n\<rparr>
      else ?b\<lparr>b_bytes := (b_bytes ?b)(a_kind ?a := b_bytes ?b (a_kind ?a) - n)\<rparr>)"
    using release_step(3) by (auto simp: release_def Let_def split: if_splits)
  have kinds: "sum_list (map (kind_bytes k) ((rs_accounts r)[i := a])) + (if k = a_kind ?a then n else 0) =
      sum_list (map (kind_bytes k) (rs_accounts r))" for k
    using upd [of "kind_bytes k"] release_step(2) by (auto simp: a kind_bytes_def split: if_splits)
  have own: "sum_list (map owned_bytes ((rs_accounts r)[i := a])) + (if a_kind ?a \<noteq> Framework_kind then n else 0) =
      sum_list (map owned_bytes (rs_accounts r))"
    using upd [of owned_bytes] release_step(2) by (auto simp: a owned_bytes_def split: if_splits)
  have "b_bytes b k = sum_list (map (kind_bytes k) ((rs_accounts r)[i := a]))" for k
    using kinds [of k] release_step(4) by (auto simp: b resource_inv_def Let_def)
  moreover have "b_owned b = sum_list (map owned_bytes ((rs_accounts r)[i := a]))"
    using own release_step(4) by (auto simp: b resource_inv_def Let_def)
  moreover have "b_owned b \<le> b_owned ?b" "b_peak b = b_peak ?b" "b_limit b = b_limit ?b" by (simp_all add: b)
  ultimately show ?case using release_step(4) by (simp add: resource_inv_def Let_def)
next
  case (retag_step i r k b a)
  let ?a = "rs_accounts r ! i" and ?b = "rs_budget r"
  show ?case
  proof (cases "k = a_kind ?a")
    case True
    then show ?thesis using retag_step by (auto simp: retag_def resource_inv_def)
  next
    case False
    note upd = account_sum_update [OF retag_step(1), of _ a]
    have a: "a = ?a\<lparr>a_kind := k\<rparr>"
      and b: "b = ?b\<lparr>b_bytes := (b_bytes ?b)(a_kind ?a := b_bytes ?b (a_kind ?a) - a_bytes ?a,
        k := b_bytes ?b k + a_bytes ?a)\<rparr>"
      using retag_step(4) False by (auto simp: retag_def Let_def)
    have kinds: "sum_list (map (kind_bytes j) ((rs_accounts r)[i := a])) + (if j = a_kind ?a then a_bytes ?a else 0) =
        sum_list (map (kind_bytes j) (rs_accounts r)) + (if j = k then a_bytes ?a else 0)" for j
      using upd [of "kind_bytes j"] False by (auto simp: a kind_bytes_def split: if_splits)
    have own: "sum_list (map owned_bytes ((rs_accounts r)[i := a])) = sum_list (map owned_bytes (rs_accounts r))"
      using upd [of owned_bytes] retag_step(2,3) by (auto simp: a owned_bytes_def)
    have "b_bytes b j = sum_list (map (kind_bytes j) ((rs_accounts r)[i := a]))" for j
      using kinds [of j] False retag_step(5) by (auto simp: b resource_inv_def Let_def split: if_splits)
    moreover have "b_owned b = b_owned ?b" "b_peak b = b_peak ?b" "b_limit b = b_limit ?b" by (simp_all add: b)
    ultimately show ?thesis using retag_step(5) own by (simp add: resource_inv_def Let_def)
  qed
qed

subsection \<open>Properties\<close>

text \<open>
  C11. Whatever the interleaving of acquires, releases and retags of any number of accounts,
  the budget's bytes of each category are the sum of the accounts of that category, the
  owned bytes are the sum over all categories but the framework's, and they never exceed
  the limit of the node; nor does the recorded peak, which bounds them.
\<close>

theorem budget_never_exceeded:
  assumes "resource_reachable limit r"
  shows "(\<forall>k. b_bytes (rs_budget r) k = sum_list (map (kind_bytes k) (rs_accounts r))) \<and>
    b_owned (rs_budget r) = sum_list (map owned_bytes (rs_accounts r)) \<and>
    b_owned (rs_budget r) \<le> b_peak (rs_budget r) \<and> b_peak (rs_budget r) \<le> limit"
proof -
  have "resource_inv limit r"
    using assms by (induction rule: resource_reachable.induct) (auto intro: resource_inv_init resource_step_inv)
  then show ?thesis by (simp add: resource_inv_def Let_def)
qed

theorem budget_never_exceeded_witness:
  "b_peak (rs_budget \<lparr>rs_budget = new_budget 100, rs_accounts = [new_account Cached_kind]\<rparr>) \<le> 100"
proof -
  have "resource_reachable 100 (\<lparr>rs_budget = new_budget 100, rs_accounts = []\<rparr>
      \<lparr>rs_accounts := rs_accounts \<lparr>rs_budget = new_budget 100, rs_accounts = []\<rparr> @ [new_account Cached_kind]\<rparr>)"
    by (rule resource_next [OF resource_init new_step])
  from budget_never_exceeded [OF this] show ?thesis by simp
qed

text \<open>
  A charge that is refused, or an allocation that fails after its charge, leaves the
  budget's accounting as it was, and a freed allocation gives back exactly what it charged.
\<close>

theorem failed_allocation_keeps_accounting:
  assumes "allocate size_of malloc_ok n (Some b) a = (Some e, bo, a')"
  shows "a' = a \<and> (\<exists>b'. bo = Some b' \<and> b_bytes b' = b_bytes b \<and> b_owned b' = b_owned b \<and> b_limit b' = b_limit b)"
proof (cases "checked_mul n size_of")
  case (Inl e')
  then show ?thesis using assms by (auto simp: allocate_def)
next
  case (Inr bytes)
  show ?thesis
  proof (cases "acquire bytes (Some b) a")
    case (Inl e')
    then show ?thesis using assms Inr by (auto simp: allocate_def)
  next
    case (Inr r)
    obtain bo1 a1 where r: "r = (bo1, a1)" by (cases r)
    note c = acquire_cases [OF Inr [unfolded r]]
    show ?thesis
      using assms \<open>checked_mul n size_of = Inr bytes\<close> Inr c
      by (auto simp: allocate_def r release_def Let_def fun_upd_idem split: if_splits)
  qed
qed

theorem failed_allocation_keeps_accounting_witness:
  "\<exists>b'. fst (snd (allocate 4 False 8 (Some (new_budget 100)) (new_account Inflight_kind))) = Some b' \<and>
     b_owned b' = 0"
proof -
  obtain e bo a' where r: "allocate 4 False 8 (Some (new_budget 100)) (new_account Inflight_kind) = (Some e, bo, a')"
    by (simp add: allocate_def checked_mul_def acquire_def release_def new_budget_def new_account_def
        checked_add_def size_max_def Let_def)
  from failed_allocation_keeps_accounting [OF this] r show ?thesis by (auto simp: new_budget_def)
qed

end
