(* ===== verification/Workspace.thy ===== *)
theory Workspace
  imports Resources
begin

text \<open>
  The per-thread scratch buffers (include/nss/workspace.hpp, src/host/workspace.cpp). A
  workspace maps threads to buffers (an address and a capacity in floats) and charges each
  buffer to its account; in serial mode every thread shares one. \<open>get\<close> is atomic: its
  fast path holds the shared lock, its slow path the exclusive one and looks again.
  Addresses are numbers, zero is the null pointer; the answer of \<open>posix_memalign\<close> is an
  argument. The nodes of the map itself, which the account is charged for too, are left out.
\<close>

record workspace =
  ws_account :: account
  ws_budget :: "budget option"
  ws_serial :: bool
  ws_map :: "(nat \<times> nat \<times> nat) list"

definition ws_new :: "budget option \<Rightarrow> workspace" where
  "ws_new b = \<lparr>ws_account = new_account Workspace_kind, ws_budget = b, ws_serial = False, ws_map = []\<rparr>"

definition buffer_charge :: "nat \<Rightarrow> nat" where
  "buffer_charge n = max 64 (n * 4)"

text \<open>\<open>aligned64\<close>: no request is smaller than one line.\<close>

definition aligned64 :: "(nat \<Rightarrow> nat option) \<Rightarrow> nat \<Rightarrow> nat option" where
  "aligned64 memalign bytes = memalign (if bytes = 0 then 64 else bytes)"

text \<open>\<open>std::thread::id{}\<close> is thread 0.\<close>

definition ws_key :: "workspace \<Rightarrow> nat \<Rightarrow> nat" where
  "ws_key w thread = (if ws_serial w then 0 else thread)"

definition ws_entry :: "workspace \<Rightarrow> nat \<Rightarrow> nat \<times> nat" where
  "ws_entry w key = (case map_of (ws_map w) key of None \<Rightarrow> (0, 0) | Some e \<Rightarrow> e)"

text \<open>\<open>map_[id]\<close> makes an entry with a null buffer when there is none.\<close>

definition ws_touch :: "nat \<Rightarrow> workspace \<Rightarrow> workspace" where
  "ws_touch key w =
     (case map_of (ws_map w) key of
        None \<Rightarrow> w\<lparr>ws_map := ws_map w @ [(key, 0, 0)]\<rparr>
      | Some _ \<Rightarrow> w)"

definition ws_set :: "nat \<Rightarrow> nat \<times> nat \<Rightarrow> workspace \<Rightarrow> workspace" where
  "ws_set key e w = w\<lparr>ws_map := map (\<lambda>(k, e'). if k = key then (k, e) else (k, e')) (ws_map w)\<rparr>"

definition ws_get :: "(nat \<Rightarrow> nat option) \<Rightarrow> nat \<Rightarrow> nat \<Rightarrow> workspace \<Rightarrow> nat res \<times> workspace" where
  "ws_get memalign thread floats w =
     (if floats > size_max div 4 then (Inl Bad_array_new_length, w)
      else
        let bytes = buffer_charge floats; key = ws_key w thread; (p, n) = ws_entry w key
        in if p \<noteq> 0 \<and> floats \<le> n then (Inr p, w)
           else
             let w1 = ws_touch key w
             in case acquire bytes (ws_budget w1) (ws_account w1) of
                  Inl e \<Rightarrow> (Inl e, w1)
                | Inr (bo, a) \<Rightarrow>
                    case aligned64 memalign bytes of
                      None \<Rightarrow>
                        (let (bo', a') = release bytes bo a
                         in (Inl Bad_alloc, w1\<lparr>ws_budget := bo', ws_account := a'\<rparr>))
                    | Some replacement \<Rightarrow>
                        let (bo', a') = (if p \<noteq> 0 then release (buffer_charge n) bo a else (bo, a))
                        in (Inr replacement,
                            ws_set key (replacement, floats) (w1\<lparr>ws_budget := bo', ws_account := a'\<rparr>)))"

definition ws_set_serial :: "workspace \<Rightarrow> workspace res" where
  "ws_set_serial w =
     (if ws_map w \<noteq> [] then Inl (Logic_error ''nss: workspace mode already in use'')
      else Inr (w\<lparr>ws_serial := True\<rparr>))"

definition ws_buffer_count :: "workspace \<Rightarrow> nat" where
  "ws_buffer_count w = length (ws_map w)"

definition ws_destroy :: "workspace \<Rightarrow> budget option \<times> account" where
  "ws_destroy w =
     fold (\<lambda>(k, p, n) (bo, a). if p \<noteq> 0 then release (buffer_charge n) bo a else (bo, a)) (ws_map w)
       (ws_budget w, ws_account w)"

subsection \<open>The account holds exactly the live buffers\<close>

definition entry_charge :: "nat \<times> nat \<times> nat \<Rightarrow> nat" where
  "entry_charge = (\<lambda>(k, p, n). if p \<noteq> 0 then buffer_charge n else 0)"

definition ws_charge :: "workspace \<Rightarrow> nat" where
  "ws_charge w = sum_list (map entry_charge (ws_map w))"

definition ws_inv :: "workspace \<Rightarrow> bool" where
  "ws_inv w \<longleftrightarrow> distinct (map fst (ws_map w)) \<and> a_kind (ws_account w) = Workspace_kind \<and>
     (ws_budget w \<noteq> None \<longrightarrow> a_bytes (ws_account w) = ws_charge w) \<and>
     (ws_serial w \<longrightarrow> fst ` set (ws_map w) \<subseteq> {0})"

lemma map_of_distinct_update:
  assumes "distinct (map fst m)" "map_of m key = Some e"
  shows "sum_list (map entry_charge (map (\<lambda>(k, e'). if k = key then (k, v) else (k, e')) m)) + entry_charge (key, e) =
    sum_list (map entry_charge m) + entry_charge (key, v)"
  using assms
proof (induction m)
  case Nil
  then show ?case by simp
next
  case (Cons x m)
  obtain k e0 where x: "x = (k, e0)" by (cases x)
  show ?case
  proof (cases "k = key")
    case True
    then have "key \<notin> fst ` set m" using Cons.prems x by simp
    then have "map (\<lambda>(k, e'). if k = key then (k, v) else (k, e')) m = m"
      by (intro map_idI) (auto simp: image_iff)
    then show ?thesis using True Cons.prems by (simp add: x)
  next
    case False
    then show ?thesis using Cons by (simp add: x)
  qed
qed

lemma map_fst_set: "map fst (map (\<lambda>(k, e'). if k = key then (k, v) else (k, e')) m) = map fst m"
  by (induction m) auto

lemma map_of_set:
  "map_of (map (\<lambda>(k, e'). if k = key then (k, v) else (k, e')) m) j =
     (if j = key \<and> map_of m key \<noteq> None then Some v else map_of m j)"
  by (induction m) auto

lemma acquire_frame:
  "acquire n bo a = Inr (bo', a') \<Longrightarrow> a_kind a' = a_kind a \<and> (bo' = None \<longleftrightarrow> bo = None) \<and>
     (bo \<noteq> None \<longrightarrow> a_bytes a' = a_bytes a + n)"
  by (cases bo) (auto simp: acquire_def Let_def bindE_Inr_iff checked_add_def split: if_splits)

lemma release_frame:
  "release n bo a = (bo', a') \<Longrightarrow> a_kind a' = a_kind a \<and> (bo' = None \<longleftrightarrow> bo = None) \<and>
     (bo \<noteq> None \<longrightarrow> a_bytes a' = a_bytes a - n)"
  by (cases bo) (auto simp: release_def Let_def split: if_splits)

lemma ws_touch_facts:
  assumes "ws_inv w" "ws_entry w key = (p, n)" "ws_serial w \<longrightarrow> key = 0"
  shows "ws_inv (ws_touch key w)" "ws_charge (ws_touch key w) = ws_charge w"
    and "map_of (ws_map (ws_touch key w)) key = Some (p, n)"
    and "ws_budget (ws_touch key w) = ws_budget w" "ws_account (ws_touch key w) = ws_account w"
    and "ws_serial (ws_touch key w) = ws_serial w"
    and "j \<noteq> key \<Longrightarrow> ws_entry (ws_touch key w) j = ws_entry w j"
proof -
  have "ws_inv (ws_touch key w) \<and> ws_charge (ws_touch key w) = ws_charge w \<and>
    map_of (ws_map (ws_touch key w)) key = Some (p, n) \<and> ws_budget (ws_touch key w) = ws_budget w \<and>
    ws_account (ws_touch key w) = ws_account w \<and> ws_serial (ws_touch key w) = ws_serial w \<and>
    (\<forall>j. j \<noteq> key \<longrightarrow> ws_entry (ws_touch key w) j = ws_entry w j)"
  proof (cases "map_of (ws_map w) key")
    case None
    then have t: "ws_touch key w = w\<lparr>ws_map := ws_map w @ [(key, 0, 0)]\<rparr>" by (simp add: ws_touch_def)
    have new: "key \<notin> fst ` set (ws_map w)" using None by (simp add: map_of_eq_None_iff)
    have "p = 0" "n = 0" using assms(2) None by (simp_all add: ws_entry_def)
    then show ?thesis
      using assms(1,3) None new unfolding t
      by (simp add: ws_inv_def ws_charge_def entry_charge_def ws_entry_def map_add_def split: option.split)
  next
    case (Some e)
    then have t: "ws_touch key w = w" by (simp add: ws_touch_def)
    show ?thesis using assms Some unfolding t by (simp add: ws_entry_def)
  qed
  then show "ws_inv (ws_touch key w)" "ws_charge (ws_touch key w) = ws_charge w"
    "map_of (ws_map (ws_touch key w)) key = Some (p, n)"
    "ws_budget (ws_touch key w) = ws_budget w" "ws_account (ws_touch key w) = ws_account w"
    "ws_serial (ws_touch key w) = ws_serial w"
    "j \<noteq> key \<Longrightarrow> ws_entry (ws_touch key w) j = ws_entry w j" by simp_all
qed

text \<open>What one call of \<open>get\<close> does.\<close>

lemma ws_get_facts:
  assumes inv: "ws_inv w" and get: "ws_get memalign thread floats w = (r, w')"
    and align: "\<forall>b q. memalign b = Some q \<longrightarrow> q \<noteq> 0"
  shows "ws_inv w'"
    and "r = Inr q \<Longrightarrow> q \<noteq> 0 \<and> fst (ws_entry w' (ws_key w thread)) = q \<and> floats \<le> snd (ws_entry w' (ws_key w thread))"
    and "r = Inl e \<Longrightarrow> ws_entry w' j = ws_entry w j"
    and "j \<noteq> ws_key w thread \<Longrightarrow> ws_entry w' j = ws_entry w j"
    and "ws_serial w' = ws_serial w"
proof -
  let ?key = "ws_key w thread"
  obtain p n where pn: "ws_entry w ?key = (p, n)" by (cases "ws_entry w ?key")
  have serial: "ws_serial w \<longrightarrow> ?key = 0" by (simp add: ws_key_def)
  note t = ws_touch_facts [OF inv pn serial]
  have all: "ws_inv w' \<and> (\<forall>q. r = Inr q \<longrightarrow> q \<noteq> 0 \<and> fst (ws_entry w' ?key) = q \<and> floats \<le> snd (ws_entry w' ?key)) \<and>
      (\<forall>e j. r = Inl e \<longrightarrow> ws_entry w' j = ws_entry w j) \<and> (\<forall>j. j \<noteq> ?key \<longrightarrow> ws_entry w' j = ws_entry w j) \<and>
      ws_serial w' = ws_serial w"
  proof (cases "floats > size_max div 4")
    case True
    then show ?thesis using get inv by (auto simp: ws_get_def)
  next
    case small: False
    show ?thesis
    proof (cases "p \<noteq> 0 \<and> floats \<le> n")
      case True
      then show ?thesis using get inv small pn by (auto simp: ws_get_def Let_def)
    next
      case grow: False
      let ?b = "buffer_charge floats" and ?w1 = "ws_touch ?key w"
      have key1: "ws_entry ?w1 ?key = ws_entry w ?key" using t(3) pn by (simp add: ws_entry_def)
      have same: "ws_entry ?w1 j = ws_entry w j" for j using t(7) key1 by (cases "j = ?key") auto
      show ?thesis
      proof (cases "acquire ?b (ws_budget w) (ws_account w)")
        case (Inl e)
        then have "r = Inl e" "w' = ?w1" using get small grow pn t(4,5) by (auto simp: ws_get_def Let_def)
        then show ?thesis using t(1,6) same by simp
      next
        case (Inr s)
        obtain bo a where s: "s = (bo, a)" by (cases s)
        note aq = acquire_frame [OF Inr [unfolded s]]
        have charge: "ws_budget w \<noteq> None \<longrightarrow> a_bytes (ws_account w) = ws_charge w"
          and kind: "a_kind (ws_account w) = Workspace_kind" using inv by (simp_all add: ws_inv_def)
        show ?thesis
        proof (cases "aligned64 memalign ?b")
          case None
          obtain bo' a' where rel: "release ?b bo a = (bo', a')" by (cases "release ?b bo a")
          have w': "r = Inl Bad_alloc" "w' = ?w1\<lparr>ws_budget := bo', ws_account := a'\<rparr>"
            using get small grow pn t(4,5) Inr s None rel by (auto simp: ws_get_def Let_def)
          have "ws_inv w'"
            using t(1,2) release_frame [OF rel] aq charge kind
            by (auto simp: w' ws_inv_def ws_charge_def)
          then show ?thesis using same t(6) by (simp add: w' ws_entry_def)
        next
          case (Some q)
          obtain bo' a' where rel: "(if p \<noteq> 0 then release (buffer_charge n) bo a else (bo, a)) = (bo', a')"
            by (cases "if p \<noteq> 0 then release (buffer_charge n) bo a else (bo, a)")
          have w': "r = Inr q" "w' = ws_set ?key (q, floats) (?w1\<lparr>ws_budget := bo', ws_account := a'\<rparr>)"
            using get small grow pn t(4,5) Inr s Some rel by (auto simp: ws_get_def Let_def split: if_splits)
          have q: "q \<noteq> 0" using align Some by (auto simp: aligned64_def)
          have bytes: "a_kind a' = a_kind a \<and> (bo' = None \<longleftrightarrow> bo = None) \<and>
              (bo \<noteq> None \<longrightarrow> a_bytes a' = a_bytes a - entry_charge (?key, p, n))"
            using rel release_frame [of "buffer_charge n" bo a bo' a'] by (auto simp: entry_charge_def split: if_splits)
          have d: "distinct (map fst (ws_map ?w1))" using t(1) by (simp add: ws_inv_def)
          have upd: "ws_charge w' + entry_charge (?key, p, n) = ws_charge w + entry_charge (?key, q, floats)"
            using map_of_distinct_update [OF d t(3), of "(q, floats)"] t(2)
            by (simp add: w' ws_set_def ws_charge_def)
          have "entry_charge (?key, q, floats) = ?b" using q by (simp add: entry_charge_def)
          then have "ws_budget w' \<noteq> None \<longrightarrow> a_bytes (ws_account w') = ws_charge w'"
            using upd bytes aq charge by (auto simp: w' ws_set_def)
          moreover have "map fst (ws_map w') = map fst (ws_map ?w1)"
            by (simp add: w' ws_set_def map_fst_set del: map_map)
          moreover from this have "fst ` set (ws_map w') = fst ` set (ws_map ?w1)"
            by (metis image_set)
          ultimately have "ws_inv w'"
            using t(1) bytes aq kind by (simp add: ws_inv_def) (simp add: w' ws_set_def)
          moreover have "ws_entry w' ?key = (q, floats)"
            using t(3) by (simp add: w' ws_entry_def ws_set_def map_of_set)
          moreover have "ws_entry w' j = ws_entry w j" if "j \<noteq> ?key" for j
            using same [of j] that by (simp add: w' ws_entry_def ws_set_def map_of_set)
          ultimately show ?thesis using q t(6) by (simp add: w' ws_set_def)
        qed
      qed
    qed
  qed
  then show "ws_inv w'" by blast
  show "r = Inr q \<Longrightarrow> q \<noteq> 0 \<and> fst (ws_entry w' ?key) = q \<and> floats \<le> snd (ws_entry w' ?key)" using all by blast
  show "r = Inl e \<Longrightarrow> ws_entry w' j = ws_entry w j" using all by blast
  show "j \<noteq> ?key \<Longrightarrow> ws_entry w' j = ws_entry w j" using all by blast
  show "ws_serial w' = ws_serial w" using all by blast
qed

lemma ws_destroy_from:
  assumes "bo \<noteq> None" "sum_list (map entry_charge m) \<le> a_bytes a"
  shows "a_bytes (snd (fold (\<lambda>(k, p, n) (bo, a). if p \<noteq> 0 then release (buffer_charge n) bo a else (bo, a)) m (bo, a))) =
    a_bytes a - sum_list (map entry_charge m)"
  using assms
proof (induction m arbitrary: bo a)
  case Nil
  then show ?case by simp
next
  case (Cons x m)
  obtain k p n where x: "x = (k, p, n)" by (cases x) 
  show ?case
  proof (cases "p \<noteq> 0")
    case True
    obtain bo' a' where rel: "release (buffer_charge n) bo a = (bo', a')"
      by (cases "release (buffer_charge n) bo a")
    note f = release_frame [OF rel]
    have "bo' \<noteq> None" "sum_list (map entry_charge m) \<le> a_bytes a'"
      using f Cons.prems True by (auto simp: x entry_charge_def)
    then show ?thesis using Cons.IH [of bo' a'] f Cons.prems True rel by (simp add: x entry_charge_def)
  next
    case False
    then show ?thesis using Cons by (simp add: x entry_charge_def)
  qed
qed

subsection \<open>Properties\<close>

text \<open>
  A successful \<open>get\<close> returns the thread's buffer, not null and at least as large as
  asked; a failed one leaves every buffer as it was; no call touches another thread's
  buffer. The account always holds exactly the sizes of the live buffers, and the
  destructor takes all of them back.
\<close>

theorem workspace_get_contract:
  assumes "ws_inv w" "ws_get memalign thread floats w = (r, w')"
    and "\<forall>b q. memalign b = Some q \<longrightarrow> q \<noteq> 0"
  shows "ws_inv w' \<and>
    (\<forall>q. r = Inr q \<longrightarrow> q \<noteq> 0 \<and> fst (ws_entry w' (ws_key w thread)) = q \<and>
       floats \<le> snd (ws_entry w' (ws_key w thread)) \<and> ws_get memalign thread floats w' = (Inr q, w')) \<and>
    (\<forall>e j. r = Inl e \<longrightarrow> ws_entry w' j = ws_entry w j) \<and>
    (\<forall>j. j \<noteq> ws_key w thread \<longrightarrow> ws_entry w' j = ws_entry w j) \<and>
    (ws_budget w' \<noteq> None \<longrightarrow> a_bytes (ws_account w') = ws_charge w' \<and> a_bytes (snd (ws_destroy w')) = 0)"
proof -
  note f = ws_get_facts [OF assms]
  have "ws_get memalign thread floats w' = (Inr q, w')" if "r = Inr q" for q
  proof -
    have k: "ws_key w' thread = ws_key w thread" using f(5) by (simp add: ws_key_def)
    have "floats \<le> size_max div 4" using assms(2) that by (auto simp: ws_get_def split: if_splits)
    then show ?thesis using f(2) [OF that] by (auto simp: ws_get_def Let_def k split: prod.splits)
  qed
  moreover have "a_bytes (snd (ws_destroy w')) = 0" if "ws_budget w' \<noteq> None"
  proof -
    have "a_bytes (ws_account w') = ws_charge w'" using f(1) that by (simp add: ws_inv_def)
    then show ?thesis
      using ws_destroy_from [OF that, of "ws_map w'" "ws_account w'"] by (simp add: ws_destroy_def ws_charge_def)
  qed
  moreover have "ws_budget w' \<noteq> None \<longrightarrow> a_bytes (ws_account w') = ws_charge w'"
    using f(1) by (simp add: ws_inv_def)
  ultimately show ?thesis using f by blast
qed

theorem workspace_get_contract_witness:
  "let (r, w) = ws_get (\<lambda>b. Some 7) 3 20 (ws_new (Some (new_budget 1000)))
   in r = Inr 7 \<and> ws_entry w 3 = (7, 20) \<and> a_bytes (ws_account w) = 80 \<and> a_bytes (snd (ws_destroy w)) = 0"
proof -
  let ?w = "ws_new (Some (new_budget 1000))"
  obtain r w where g: "ws_get (\<lambda>b. Some 7) 3 20 ?w = (r, w)" by (cases "ws_get (\<lambda>b. Some 7) 3 20 ?w")
  have v: "r = Inr 7" "ws_entry w 3 = (7, 20)" "a_bytes (ws_account w) = 80" "ws_budget w \<noteq> None"
    using g by (auto simp: ws_get_def ws_new_def new_budget_def new_account_def size_max_def Let_def ws_entry_def
        ws_key_def buffer_charge_def acquire_def checked_add_def ws_touch_def aligned64_def ws_set_def)
  have "ws_inv ?w" by (simp add: ws_inv_def ws_new_def new_account_def ws_charge_def)
  from workspace_get_contract [OF this g] v show ?thesis by (simp add: g)
qed

end
