(* ===== verification/Group_Batch.thy ===== *)
theory Group_Batch
  imports Match_Batch Checked
begin

text \<open>
  The group filter batches of src/cpu/batch.cpp: singular value decompositions, matrix
  products, and the BM3D, WNNM, MCWNNM and NCSR groups. The numerical kernels are
  parameters acting on a memory \<open>'mem\<close> (the buffers the items point to); what is modelled
  is the control: validation, buckets, the vector path with its per-item fallbacks, the
  statuses and the returned code.
\<close>

subsection \<open>Statuses\<close>

text \<open>An item's status pointer: \<open>None\<close> is null.\<close>

definition set_status :: "nat \<Rightarrow> int \<Rightarrow> int option list \<Rightarrow> int option list" where
  "set_status i v sts = sts[i := map_option (\<lambda>_. v) (sts ! i)]"

definition clear_statuses :: "int option list \<Rightarrow> int option list" where
  "clear_statuses sts = fold (\<lambda>i. set_status i 0) [0..<length sts] sts"

type_synonym 'mem batch_state = "'mem \<times> nat \<times> int option list"

text \<open>An item is settled once: as done, or as failed.\<close>

definition settle :: "nat \<Rightarrow> bool \<Rightarrow> nat \<times> int option list \<Rightarrow> nat \<times> int option list" where
  "settle i ok st =
     (let (first_error, sts) = st
      in if ok then (first_error, set_status i 1 sts) else (record_batch_failure i first_error, sts))"

definition attempt :: "(nat \<Rightarrow> 'mem \<Rightarrow> 'mem \<times> bool) \<Rightarrow> nat \<Rightarrow> 'mem batch_state \<Rightarrow> 'mem batch_state" where
  "attempt run i st = (let (mem, fs) = st; (mem', ok) = run i mem in (mem', settle i ok fs))"

text \<open>The runs of equal shape in the bucket order: the \<open>begin\<close>/\<open>end\<close> loops.\<close>

function bucket_runs :: "(nat \<Rightarrow> nat \<Rightarrow> bool) \<Rightarrow> nat list \<Rightarrow> nat list list" where
  "bucket_runs same [] = []"
| "bucket_runs same (i # is) = (i # takeWhile (same i) is) # bucket_runs same (dropWhile (same i) is)"
  by pat_completeness auto
termination
  by (relation "measure (\<lambda>(_, is). length is)") (auto simp: length_dropWhile_le le_imp_less_Suc)

lemma concat_bucket_runs: "concat (bucket_runs same is) = is"
  by (induction same "is" rule: bucket_runs.induct) auto

subsection \<open>\<open>svd_economy_batch\<close>\<close>

record svd_item =
  sv_m :: int
  sv_n :: int
  sv_lda :: int
  sv_ldu :: int
  sv_ldvt :: int
  sv_pointers :: bool

definition svd_item_less :: "svd_item \<Rightarrow> svd_item \<Rightarrow> bool" where
  "svd_item_less a b = (if sv_m a \<noteq> sv_m b then sv_m a < sv_m b else sv_n a < sv_n b)"

definition svd_takes_8 :: "svd_item \<Rightarrow> bool" where
  "svd_takes_8 item \<longleftrightarrow> sv_n item = 8 \<and> 8 \<le> sv_m item \<and> sv_m item \<le> 64 \<and> sv_pointers item \<and>
     sv_m item \<le> sv_lda item \<and> sv_m item \<le> sv_ldu item \<and> 8 \<le> sv_ldvt item"

text \<open>
  After a batch that ran, an item with unusable singular values is retried alone; after one
  that failed, every item is.
\<close>

definition svd_bucket :: "svd_item list \<Rightarrow> (nat \<Rightarrow> 'mem \<Rightarrow> 'mem \<times> bool) \<Rightarrow> (nat list \<Rightarrow> 'mem \<Rightarrow> 'mem \<times> bool) \<Rightarrow>
    (nat \<Rightarrow> 'mem \<Rightarrow> bool) \<Rightarrow> nat list \<Rightarrow> 'mem batch_state \<Rightarrow> 'mem batch_state" where
  "svd_bucket items svd svd8 sv_finite bucket st =
     (let batch_indices = filter (\<lambda>i. svd_takes_8 (items ! i)) bucket;
          st1 = fold (attempt svd) (filter (\<lambda>i. \<not> svd_takes_8 (items ! i)) bucket) st
      in if length batch_indices = 1 then attempt svd (hd batch_indices) st1
         else if batch_indices = [] then st1
         else
           let (mem, fs) = st1; (mem', ok) = svd8 batch_indices mem
           in if \<not> ok then fold (attempt svd) batch_indices (mem', fs)
              else fold (attempt (\<lambda>i mem. if sv_finite i mem then (mem, True) else svd i mem))
                     batch_indices (mem', fs))"

definition svd_economy_batch where
  "svd_economy_batch h svd svd8 sv_finite null_items items cnt mem sts =
     (if cnt = 0 then (0, mem, sts)
      else if null_items \<or> cnt < (0::int) then (- 1, mem, sts)
      else
        let sts0 = clear_statuses sts;
            order = bucket_order h svd_item_less items;
            same = (\<lambda>i j. sv_m (items ! j) = sv_m (items ! i) \<and> sv_n (items ! j) = sv_n (items ! i));
            (mem', first_error, sts') =
              fold (svd_bucket items svd svd8 sv_finite) (bucket_runs same order) (mem, 0, sts0)
        in (int first_error, mem', sts'))"

subsection \<open>\<open>gemm_nn_batch\<close>\<close>

record gemm_item =
  ge_m :: int
  ge_n :: int
  ge_k :: int

definition gemm_item_less :: "gemm_item \<Rightarrow> gemm_item \<Rightarrow> bool" where
  "gemm_item_less a b =
     (if ge_m a \<noteq> ge_m b then ge_m a < ge_m b
      else if ge_n a \<noteq> ge_n b then ge_n a < ge_n b
      else ge_k a < ge_k b)"

definition gemm_nn_batch :: "bool \<Rightarrow> (nat \<Rightarrow> 'mem \<Rightarrow> 'mem) \<Rightarrow> bool \<Rightarrow> gemm_item list \<Rightarrow> int \<Rightarrow> 'mem \<Rightarrow> 'mem" where
  "gemm_nn_batch h gemm null_items items cnt mem =
     (if null_items \<or> cnt \<le> 0 then mem else fold gemm (bucket_order h gemm_item_less items) mem)"

subsection \<open>\<open>bm3d_filter_group_batch\<close>\<close>

record bm3d_item =
  bi_lda :: int
  bi_group :: int
  bi_k :: int
  bi_block :: int
  bi_wiener :: bool
  bi_patches :: bool
  bi_ref_patches :: bool
  bi_weight :: bool
  bi_work :: bool

definition bm3d_item_less :: "bm3d_item \<Rightarrow> bm3d_item \<Rightarrow> bool" where
  "bm3d_item_less a b =
     (if bi_block a \<noteq> bi_block b then bi_block a < bi_block b
      else if bi_group a \<noteq> bi_group b then bi_group a < bi_group b
      else if bi_k a \<noteq> bi_k b then bi_k a < bi_k b
      else \<not> bi_wiener a \<and> bi_wiener b)"

definition bm3d_item_valid :: "bm3d_item \<Rightarrow> bool" where
  "bm3d_item_valid p \<longleftrightarrow> bi_patches p \<and> bi_weight p \<and> bi_work p \<and> bm_allowed_block (bi_block p) \<and>
     bm_allowed_group (bi_group p) \<and> bi_block p * bi_block p \<le> bi_lda p \<and> 1 \<le> bi_k p \<and> bi_k p \<le> bi_group p"

text \<open>The test of the \<open>NSS_BM_HOMOGENEOUS\<close> build for one dispatch of the whole batch.\<close>

definition bm3d_homogeneous :: "bm3d_item list \<Rightarrow> bool" where
  "bm3d_homogeneous items \<longleftrightarrow>
     (\<forall>p \<in> set items. bm3d_item_valid p \<and> (bi_wiener p \<longrightarrow> bi_ref_patches p) \<and>
        bi_block p = bi_block (items ! 0) \<and> bi_group p = bi_group (items ! 0) \<and>
        bi_wiener p = bi_wiener (items ! 0))"

definition bm3d_batch_step :: "bm3d_item list \<Rightarrow> (nat \<Rightarrow> 'mem \<Rightarrow> 'mem) \<Rightarrow> nat \<Rightarrow> 'mem batch_state \<Rightarrow> 'mem batch_state" where
  "bm3d_batch_step items kernel_run i st =
     (let (mem, fs) = st; item = items ! i
      in if bi_k item = 0 then (mem, settle i True fs)
         else if \<not> bm3d_item_valid item \<or> bi_block item < 1 then (mem, settle i False fs)
         else if bi_wiener item \<and> \<not> bi_ref_patches item then (mem, settle i False fs)
         else (kernel_run i mem, settle i True fs))"

definition bm3d_filter_group_batch where
  "bm3d_filter_group_batch h kernel_run homogeneous_run null_items items cnt mem sts =
     (if cnt = 0 then (0, mem, sts)
      else if null_items \<or> cnt < (0::int) then (- 1, mem, sts)
      else
        let sts0 = clear_statuses sts
        in if h \<and> bm3d_homogeneous items
           then (0, homogeneous_run mem, fold (\<lambda>i. set_status i 1) [0..<length items] sts0)
           else
             let (mem', first_error, sts') =
                   fold (bm3d_batch_step items kernel_run) (bucket_order h bm3d_item_less items) (mem, 0, sts0)
             in (int first_error, mem', sts'))"

subsection \<open>\<open>wnnm_shrink_batch\<close>\<close>

record wnnm_item =
  wi_m :: int
  wi_n :: int
  wi_lda :: int
  wi_residual :: int
  wi_adaptive :: int
  wi_group :: bool
  wi_work :: bool
  wi_work_floats :: int

definition wnnm_item_less :: "wnnm_item \<Rightarrow> wnnm_item \<Rightarrow> bool" where
  "wnnm_item_less a b =
     (if wi_m a \<noteq> wi_m b then wi_m a < wi_m b
      else if wi_n a \<noteq> wi_n b then wi_n a < wi_n b
      else if wi_residual a \<noteq> wi_residual b then wi_residual a < wi_residual b
      else wi_adaptive a < wi_adaptive b)"

text \<open>The kernels of a WNNM group, by the index of the item.\<close>

record 'mem wnnm_kernels =
  wk_shrink :: "nat \<Rightarrow> 'mem \<Rightarrow> 'mem \<times> bool"
  wk_center_sub :: "nat \<Rightarrow> 'mem \<Rightarrow> 'mem"
  wk_center_add :: "nat \<Rightarrow> 'mem \<Rightarrow> 'mem"
  wk_batch_sv :: "nat list \<Rightarrow> 'mem \<Rightarrow> 'mem \<times> bool"
  wk_svd :: "nat \<Rightarrow> 'mem \<Rightarrow> 'mem \<times> bool"
  wk_finite :: "nat \<Rightarrow> 'mem \<Rightarrow> bool"
  wk_finish :: "nat \<Rightarrow> 'mem \<Rightarrow> 'mem"
  wk_finish_sv :: "nat \<Rightarrow> 'mem \<Rightarrow> 'mem"

definition wnnm_item_valid :: "wnnm_item \<Rightarrow> bool" where
  "wnnm_item_valid item \<longleftrightarrow> wi_group item \<and> 1 \<le> wi_m item \<and> 1 \<le> wi_n item \<and> wi_m item \<le> wi_lda item \<and>
     wi_work item \<and> 1 \<le> wi_work_floats item"

definition wnnm_takes_8 :: "wnnm_item \<Rightarrow> bool" where
  "wnnm_takes_8 item \<longleftrightarrow> wi_n item = 8 \<and> 8 \<le> wi_m item \<and> wi_m item \<le> 64 \<and>
     (case wnnm_shrink_work_floats (wi_m item) (wi_n item) of
        Inl _ \<Rightarrow> False | Inr need \<Rightarrow> need \<le> wi_work_floats item)"

text \<open>The scalar retry of one item of the vector path, mean restored when it fails.\<close>

definition wnnm_retry :: "'mem wnnm_kernels \<Rightarrow> wnnm_item list \<Rightarrow> nat \<Rightarrow> 'mem \<Rightarrow> 'mem \<times> bool" where
  "wnnm_retry k items i mem =
     (let (mem', ok) = wk_svd k i mem
      in if \<not> ok then (if wi_residual (items ! i) \<noteq> 0 then wk_center_add k i mem' else mem', False)
         else (wk_finish k i mem', True))"

definition wnnm_first_pass :: "'mem wnnm_kernels \<Rightarrow> wnnm_item list \<Rightarrow> nat \<Rightarrow> 'mem \<Rightarrow> 'mem \<times> bool" where
  "wnnm_first_pass k items i mem =
     (if \<not> wnnm_item_valid (items ! i) then (mem, False) else wk_shrink k i mem)"

definition wnnm_bucket :: "'mem wnnm_kernels \<Rightarrow> wnnm_item list \<Rightarrow> nat list \<Rightarrow> 'mem batch_state \<Rightarrow> 'mem batch_state" where
  "wnnm_bucket k items bucket st =
     (let joined = (\<lambda>i. wnnm_item_valid (items ! i) \<and> wnnm_takes_8 (items ! i));
          batch_indices = filter joined bucket;
          st1 = fold (attempt (wnnm_first_pass k items)) (filter (\<lambda>i. \<not> joined i) bucket) st
      in if length batch_indices = 1 then attempt (wk_shrink k) (hd batch_indices) st1
         else if batch_indices = [] then st1
         else
           let (mem, fs) = st1;
               mem1 = fold (\<lambda>i m. if wi_residual (items ! i) \<noteq> 0 then wk_center_sub k i m else m) batch_indices mem;
               (mem2, ok) = wk_batch_sv k batch_indices mem1
           in if \<not> ok then fold (attempt (wnnm_retry k items)) batch_indices (mem2, fs)
              else fold (attempt (\<lambda>i m. if wk_finite k i m then (wk_finish_sv k i m, True) else wnnm_retry k items i m))
                     batch_indices (mem2, fs))"

definition wnnm_shrink_batch where
  "wnnm_shrink_batch h k null_items items cnt mem sts =
     (if cnt = 0 then (0, mem, sts)
      else if null_items \<or> cnt < (0::int) then (- 1, mem, sts)
      else
        let sts0 = clear_statuses sts;
            order = bucket_order h wnnm_item_less items;
            same = (\<lambda>i j. \<not> (wi_m (items ! j) \<noteq> wi_m (items ! i) \<or> wi_n (items ! j) \<noteq> wi_n (items ! i) \<or>
                       wi_residual (items ! j) \<noteq> wi_residual (items ! i) \<or>
                       wi_adaptive (items ! j) \<noteq> wi_adaptive (items ! i)));
            (mem', first_error, sts') = fold (wnnm_bucket k items) (bucket_runs same order) (mem, 0, sts0)
        in (int first_error, mem', sts'))"

subsection \<open>\<open>mcwnnm_filter_group_batch\<close>\<close>

record mcwnnm_item =
  mw_m :: int
  mw_n :: int
  mw_residual :: int
  mw_group :: bool
  mw_sigma :: bool
  mw_work :: bool
  mw_work_floats :: int

definition mcwnnm_item_less :: "mcwnnm_item \<Rightarrow> mcwnnm_item \<Rightarrow> bool" where
  "mcwnnm_item_less a b =
     (if mw_m a \<noteq> mw_m b then mw_m a < mw_m b
      else if mw_n a \<noteq> mw_n b then mw_n a < mw_n b
      else mw_residual a < mw_residual b)"

definition mcwnnm_run :: "(nat \<Rightarrow> 'mem \<Rightarrow> 'mem \<times> bool) \<Rightarrow> mcwnnm_item list \<Rightarrow> nat \<Rightarrow> 'mem \<Rightarrow> 'mem \<times> bool" where
  "mcwnnm_run kernel_run items i mem =
     (let item = items ! i
      in if mw_m item < 1 \<or> mw_n item < 1 \<or> \<not> mw_group item \<or> \<not> mw_sigma item \<or> \<not> mw_work item \<or>
            mw_work_floats item < 1
         then (mem, False) else kernel_run i mem)"

definition mcwnnm_filter_group_batch where
  "mcwnnm_filter_group_batch h kernel_run null_items items cnt mem sts =
     (if cnt = 0 then (0, mem, sts)
      else if null_items \<or> cnt < (0::int) then (- 1, mem, sts)
      else
        let (mem', first_error, sts') =
              fold (attempt (mcwnnm_run kernel_run items)) (bucket_order h mcwnnm_item_less items)
                (mem, 0, clear_statuses sts)
        in (int first_error, mem', sts'))"

subsection \<open>\<open>ncsr_filter_group_batch\<close>\<close>

record ncsr_item =
  nc_m :: int
  nc_n :: int
  nc_lda :: int
  nc_group :: bool
  nc_work :: bool
  nc_work_floats :: int

definition ncsr_item_less :: "ncsr_item \<Rightarrow> ncsr_item \<Rightarrow> bool" where
  "ncsr_item_less a b = (if nc_m a \<noteq> nc_m b then nc_m a < nc_m b else nc_n a < nc_n b)"

definition pca_work_floats :: "int \<Rightarrow> int \<Rightarrow> int res" where
  "pca_work_floats m n =
     bindE (checked_solver_shape m n)
       (\<lambda>_. let local = m * n + n + n * n + m + m * n; svd = m * n * 6 + n * n * 8 + n + 256
            in Inr (local + svd))"

record 'mem ncsr_kernels =
  nk_group :: "nat \<Rightarrow> 'mem \<Rightarrow> 'mem \<times> bool"
  nk_center_sub :: "nat \<Rightarrow> 'mem \<Rightarrow> 'mem"
  nk_center_add :: "nat \<Rightarrow> 'mem \<Rightarrow> 'mem"
  nk_batch_u :: "nat list \<Rightarrow> 'mem \<Rightarrow> 'mem \<times> bool"
  nk_svd :: "nat \<Rightarrow> 'mem \<Rightarrow> 'mem \<times> bool"
  nk_finite :: "nat \<Rightarrow> 'mem \<Rightarrow> bool"
  nk_finish :: "nat \<Rightarrow> 'mem \<Rightarrow> 'mem"

definition ncsr_item_valid :: "ncsr_item \<Rightarrow> bool" where
  "ncsr_item_valid item \<longleftrightarrow> nc_group item \<and> nc_work item \<and> 1 \<le> nc_m item \<and> 1 \<le> nc_n item \<and>
     nc_m item \<le> nc_lda item \<and> 1 \<le> nc_work_floats item"

definition ncsr_takes_8 :: "ncsr_item \<Rightarrow> bool" where
  "ncsr_takes_8 item \<longleftrightarrow> nc_n item = 8 \<and> 8 \<le> nc_m item \<and> nc_m item \<le> 64 \<and>
     (case pca_work_floats (nc_m item) (nc_n item) of Inl _ \<Rightarrow> False | Inr need \<Rightarrow> need \<le> nc_work_floats item)"

definition ncsr_first_pass :: "'mem ncsr_kernels \<Rightarrow> ncsr_item list \<Rightarrow> nat \<Rightarrow> 'mem \<Rightarrow> 'mem \<times> bool" where
  "ncsr_first_pass k items i mem =
     (if \<not> ncsr_item_valid (items ! i) then (mem, False) else nk_group k i mem)"

definition ncsr_batched_item :: "'mem ncsr_kernels \<Rightarrow> bool \<Rightarrow> nat \<Rightarrow> 'mem \<Rightarrow> 'mem \<times> bool" where
  "ncsr_batched_item k batch_ok i mem =
     (let (mem', ok) = (if \<not> batch_ok \<or> \<not> nk_finite k i mem then nk_svd k i mem else (mem, True))
      in if \<not> ok then (nk_center_add k i mem', False) else (nk_finish k i mem', True))"

definition ncsr_bucket :: "'mem ncsr_kernels \<Rightarrow> ncsr_item list \<Rightarrow> nat list \<Rightarrow> 'mem batch_state \<Rightarrow> 'mem batch_state" where
  "ncsr_bucket k items bucket st =
     (let joined = (\<lambda>i. ncsr_item_valid (items ! i) \<and> ncsr_takes_8 (items ! i));
          batch_indices = filter joined bucket;
          st1 = fold (attempt (ncsr_first_pass k items)) (filter (\<lambda>i. \<not> joined i) bucket) st
      in if length batch_indices < 2 then fold (attempt (nk_group k)) batch_indices st1
         else
           let (mem, fs) = st1; mem1 = fold (nk_center_sub k) batch_indices mem;
               (mem2, batch_ok) = nk_batch_u k batch_indices mem1
           in fold (attempt (ncsr_batched_item k batch_ok)) batch_indices (mem2, fs))"

definition ncsr_filter_group_batch where
  "ncsr_filter_group_batch h k null_items items cnt mem sts =
     (if cnt = 0 then (0, mem, sts)
      else if null_items \<or> cnt < (0::int) then (- 1, mem, sts)
      else
        let order = bucket_order h ncsr_item_less items;
            same = (\<lambda>i j. nc_m (items ! j) = nc_m (items ! i) \<and> nc_n (items ! j) = nc_n (items ! i));
            (mem', first_error, sts') =
              fold (ncsr_bucket k items) (bucket_runs same order) (mem, 0, clear_statuses sts)
        in (int first_error, mem', sts'))"

subsection \<open>Every item is settled exactly once\<close>

text \<open>
  \<open>settles is st st'\<close>: the step from \<open>st\<close> to \<open>st'\<close> settles the items \<open>is\<close>, in this
  order, each with some outcome.
\<close>

definition settles :: "nat list \<Rightarrow> 'mem batch_state \<Rightarrow> 'mem batch_state \<Rightarrow> bool" where
  "settles is st st' \<longleftrightarrow> (\<exists>oks. length oks = length is \<and>
     snd st' = fold (\<lambda>(i, ok). settle i ok) (zip is oks) (snd st))"

lemma settles_nil: "settles [] st st"
  by (simp add: settles_def)

lemma settles_memory: "snd st = snd st1 \<Longrightarrow> settles is st1 st' \<Longrightarrow> settles is st st'"
  by (simp add: settles_def)

lemma settles_append:
  assumes "settles is st st1" "settles js st1 st2"
  shows "settles (is @ js) st st2"
proof -
  obtain a b where "length a = length is" "snd st1 = fold (\<lambda>(i, ok). settle i ok) (zip is a) (snd st)"
    "length b = length js" "snd st2 = fold (\<lambda>(i, ok). settle i ok) (zip js b) (snd st1)"
    using assms unfolding settles_def by blast
  then show ?thesis unfolding settles_def by (intro exI [of _ "a @ b"]) simp
qed

lemma settles_attempt: "settles [i] st (attempt run i st)"
  unfolding settles_def attempt_def
  by (intro exI [of _ "[snd (run i (fst st))]"]) (simp add: prod.case_eq_if)

lemma settles_fold:
  assumes "\<And>i st. settles [i] st (f i st)"
  shows "settles is st (fold f is st)"
proof (induction "is" arbitrary: st)
  case Nil
  then show ?case by (simp add: settles_nil)
next
  case (Cons i "is")
  show ?case using settles_append [OF assms [of i st] Cons [of "f i st"]] by simp
qed

lemma settles_buckets:
  assumes "\<And>b st. \<exists>js. mset js = mset b \<and> settles js st (f b st)"
  shows "\<exists>js. mset js = mset (concat bs) \<and> settles js st (fold f bs st)"
proof (induction bs arbitrary: st)
  case Nil
  then show ?case by (auto intro: settles_nil)
next
  case (Cons b bs)
  obtain js where js: "mset js = mset b" "settles js st (f b st)" using assms by blast
  obtain ks where "mset ks = mset (concat bs)" "settles ks (f b st) (fold f bs (f b st))"
    using Cons by blast
  then show ?case using settles_append [OF js(2)] js(1) by (metis concat.simps(2) fold_simps(2) mset_append)
qed

lemma partition_mset: "mset (filter (\<lambda>i. \<not> P i) xs @ filter P xs) = mset xs"
  by simp

text \<open>A bucket: some items alone, then the joined ones.\<close>

lemma settles_partition:
  assumes "settles (filter (\<lambda>i. \<not> P i) b) st st1" "settles (filter P b) st1 st2"
  shows "\<exists>js. mset js = mset b \<and> settles js st st2"
  using settles_append [OF assms] partition_mset by blast

lemma settles_single:
  assumes "length (filter P b) = 1"
  shows "settles (filter P b) st (attempt run (hd (filter P b)) st)"
proof -
  obtain i where "filter P b = [i]" using assms by (auto simp: length_Suc_conv)
  then show ?thesis by (simp only: list.sel settles_attempt)
qed

lemma svd_bucket_settles: "\<exists>js. mset js = mset b \<and> settles js st (svd_bucket items svd svd8 fine b st)"
proof -
  let ?P = "\<lambda>i. svd_takes_8 (items ! i)"
  let ?st1 = "fold (attempt svd) (filter (\<lambda>i. \<not> ?P i) b) st"
  have first: "settles (filter (\<lambda>i. \<not> ?P i) b) st ?st1" by (rule settles_fold [OF settles_attempt])
  have "settles (filter ?P b) ?st1 (svd_bucket items svd svd8 fine b st)"
  proof (cases "length (filter ?P b) = 1")
    case True
    then show ?thesis using settles_single [OF True] by (simp add: svd_bucket_def Let_def)
  next
    case False
    then show ?thesis
      by (auto simp: svd_bucket_def Let_def prod.case_eq_if
          intro: settles_nil settles_memory [OF _ settles_fold [OF settles_attempt]])
  qed
  then show ?thesis by (rule settles_partition [OF first])
qed

lemma wnnm_bucket_settles: "\<exists>js. mset js = mset b \<and> settles js st (wnnm_bucket k items b st)"
proof -
  let ?P = "\<lambda>i. wnnm_item_valid (items ! i) \<and> wnnm_takes_8 (items ! i)"
  let ?st1 = "fold (attempt (wnnm_first_pass k items)) (filter (\<lambda>i. \<not> ?P i) b) st"
  have first: "settles (filter (\<lambda>i. \<not> ?P i) b) st ?st1" by (rule settles_fold [OF settles_attempt])
  have "settles (filter ?P b) ?st1 (wnnm_bucket k items b st)"
  proof (cases "length (filter ?P b) = 1")
    case True
    then show ?thesis using settles_single [OF True] by (simp add: wnnm_bucket_def Let_def)
  next
    case False
    then show ?thesis
      by (auto simp: wnnm_bucket_def Let_def prod.case_eq_if
          intro: settles_nil settles_memory [OF _ settles_fold [OF settles_attempt]])
  qed
  then show ?thesis by (rule settles_partition [OF first])
qed

lemma ncsr_bucket_settles: "\<exists>js. mset js = mset b \<and> settles js st (ncsr_bucket k items b st)"
proof -
  let ?P = "\<lambda>i. ncsr_item_valid (items ! i) \<and> ncsr_takes_8 (items ! i)"
  let ?st1 = "fold (attempt (ncsr_first_pass k items)) (filter (\<lambda>i. \<not> ?P i) b) st"
  have first: "settles (filter (\<lambda>i. \<not> ?P i) b) st ?st1" by (rule settles_fold [OF settles_attempt])
  have "settles (filter ?P b) ?st1 (ncsr_bucket k items b st)"
    by (auto simp: ncsr_bucket_def Let_def prod.case_eq_if
        intro: settles_fold [OF settles_attempt] settles_memory [OF _ settles_fold [OF settles_attempt]])
  then show ?thesis by (rule settles_partition [OF first])
qed

text \<open>What the settled items amount to.\<close>

definition status_contract :: "nat \<Rightarrow> int option list \<Rightarrow> nat set \<Rightarrow> nat \<Rightarrow> int option list \<Rightarrow> bool" where
  "status_contract n sts0 F first_error sts \<longleftrightarrow>
     F \<subseteq> {0..<n} \<and> length sts = n \<and> first_error = first_failure F \<and>
     (\<forall>i < n. sts ! i = map_option (\<lambda>_. if i \<in> F then 0 else 1) (sts0 ! i))"

lemma length_set_status [simp]: "length (set_status i v sts) = length sts"
  by (simp add: set_status_def)

lemma fold_set_status:
  "length (fold (\<lambda>i. set_status i v) is sts) = length sts \<and>
   (\<forall>j < length sts. fold (\<lambda>i. set_status i v) is sts ! j =
     (if j \<in> set is then map_option (\<lambda>_. v) (sts ! j) else sts ! j))"
proof (induction "is" arbitrary: sts)
  case Nil
  then show ?case by simp
next
  case (Cons i "is")
  have "length (set_status i v sts) = length sts" by simp
  moreover have "set_status i v sts ! j = (if j = i then map_option (\<lambda>_. v) (sts ! j) else sts ! j)"
    if "j < length sts" for j
    using that by (simp add: set_status_def nth_list_update)
  ultimately show ?case using Cons [of "set_status i v sts"] by (auto simp: map_option.compositionality comp_def)
qed

lemma clear_statuses_facts:
  "length (clear_statuses sts) = length sts"
  "j < length sts \<Longrightarrow> clear_statuses sts ! j = map_option (\<lambda>_. 0) (sts ! j)"
  using fold_set_status [of 0 "[0..<length sts]" sts] by (simp_all add: clear_statuses_def)

lemma settle_simps:
  "settle i True (first_error, sts) = (first_error, set_status i 1 sts)"
  "settle i False (first_error, sts) = (record_batch_failure i first_error, sts)"
  by (simp_all add: settle_def)

lemma settle_fold:
  assumes "length oks = length is" "distinct is" "finite F" "set is \<inter> D = {}" "F \<subseteq> D" "set is \<subseteq> {0..<length sts}"
    and "\<forall>j < length sts. sts ! j = map_option (\<lambda>_. if j \<in> D - F then 1 else 0) (sts0 ! j)"
  shows "\<exists>F' sts'. fold (\<lambda>(i, ok). settle i ok) (zip is oks) (first_failure F, sts) = (first_failure F', sts') \<and>
    F \<subseteq> F' \<and> F' \<subseteq> D \<union> set is \<and> length sts' = length sts \<and>
    (\<forall>j < length sts. sts' ! j = map_option (\<lambda>_. if j \<in> (D \<union> set is) - F' then 1 else 0) (sts0 ! j))"
  using assms
proof (induction "is" arbitrary: oks F D sts)
  case Nil
  then show ?case by auto
next
  case (Cons i "is")
  obtain ok oks' where oks: "oks = ok # oks'" using Cons.prems(1) by (cases oks) auto
  have union: "insert i D \<union> set is = D \<union> set (i # is)" by auto
  show ?case
  proof (cases ok)
    case True
    let ?sts = "set_status i 1 sts"
    have upd: "\<forall>j < length ?sts. ?sts ! j = map_option (\<lambda>_. if j \<in> insert i D - F then 1 else 0) (sts0 ! j)"
    proof (intro allI impI)
      fix j assume j: "j < length ?sts"
      have i: "i \<notin> D" "i \<notin> F" "i < length sts" using Cons.prems(4,5,6) by auto
      have "?sts ! j = (if j = i then map_option (\<lambda>_. 1) (sts ! j) else sts ! j)"
        using j i(3) by (simp add: set_status_def nth_list_update)
      then show "?sts ! j = map_option (\<lambda>_. if j \<in> insert i D - F then 1 else 0) (sts0 ! j)"
        using Cons.prems(7) i j by (simp add: map_option.compositionality comp_def)
    qed
    have "\<exists>F' sts'. fold (\<lambda>(i, ok). settle i ok) (zip is oks') (first_failure F, ?sts) = (first_failure F', sts') \<and>
        F \<subseteq> F' \<and> F' \<subseteq> insert i D \<union> set is \<and> length sts' = length ?sts \<and>
        (\<forall>j < length ?sts. sts' ! j = map_option (\<lambda>_. if j \<in> (insert i D \<union> set is) - F' then 1 else 0) (sts0 ! j))"
      by (rule Cons.IH) (use Cons.prems oks upd in auto)
    then show ?thesis
      unfolding union by (simp only: oks zip_Cons_Cons fold_simps prod.case True settle_simps length_set_status)
  next
    case False
    let ?F = "insert i F"
    have rec: "record_batch_failure i (first_failure F) = first_failure ?F"
      by (rule record_first_failure) (use Cons.prems in auto)
    have old: "\<forall>j < length sts. sts ! j = map_option (\<lambda>_. if j \<in> insert i D - ?F then 1 else 0) (sts0 ! j)"
      using Cons.prems(4,7) by auto
    have "\<exists>F' sts'. fold (\<lambda>(i, ok). settle i ok) (zip is oks') (first_failure ?F, sts) = (first_failure F', sts') \<and>
        ?F \<subseteq> F' \<and> F' \<subseteq> insert i D \<union> set is \<and> length sts' = length sts \<and>
        (\<forall>j < length sts. sts' ! j = map_option (\<lambda>_. if j \<in> (insert i D \<union> set is) - F' then 1 else 0) (sts0 ! j))"
      by (rule Cons.IH) (use Cons.prems oks old in auto)
    then have "\<exists>F' sts'. fold (\<lambda>(i, ok). settle i ok) (zip is oks') (first_failure ?F, sts) = (first_failure F', sts') \<and>
        F \<subseteq> F' \<and> F' \<subseteq> insert i D \<union> set is \<and> length sts' = length sts \<and>
        (\<forall>j < length sts. sts' ! j = map_option (\<lambda>_. if j \<in> (insert i D \<union> set is) - F' then 1 else 0) (sts0 ! j))"
      by blast
    moreover have "ok = False" using False by simp
    ultimately show ?thesis
      unfolding union by (simp only: oks zip_Cons_Cons fold_simps prod.case settle_simps rec)
  qed
qed

lemma settles_contract:
  assumes "settles js (mem, 0, clear_statuses sts) (mem', fe, sts')" "mset js = mset [0..<length sts]"
  shows "\<exists>F. status_contract (length sts) sts F fe sts'"
proof -
  obtain oks where oks: "length oks = length js"
    and eq: "(fe, sts') = fold (\<lambda>(i, ok). settle i ok) (zip js oks) (0, clear_statuses sts)"
    using assms(1) unfolding settles_def by auto
  have js: "distinct js" "set js = {0..<length sts}"
    using assms(2) by (metis distinct_upt mset_eq_imp_distinct_iff) (metis assms(2) mset_eq_setD set_upt)
  have "\<exists>F' s'. fold (\<lambda>(i, ok). settle i ok) (zip js oks) (first_failure {}, clear_statuses sts) = (first_failure F', s') \<and>
      {} \<subseteq> F' \<and> F' \<subseteq> {} \<union> set js \<and> length s' = length (clear_statuses sts) \<and>
      (\<forall>j < length (clear_statuses sts). s' ! j = map_option (\<lambda>_. if j \<in> ({} \<union> set js) - F' then 1 else 0) (sts ! j))"
    by (rule settle_fold) (use oks js in \<open>auto simp: clear_statuses_facts\<close>)
  then obtain F' where "fe = first_failure F'" "F' \<subseteq> set js" "length sts' = length sts"
    "\<forall>j < length sts. sts' ! j = map_option (\<lambda>_. if j \<in> set js - F' then 1 else 0) (sts ! j)"
    using eq clear_statuses_facts(1) by auto
  then have "status_contract (length sts) sts F' fe sts'"
    using js by (auto simp: status_contract_def)
  then show ?thesis ..
qed

subsection \<open>The batches keep the contract\<close>

lemma buckets_contract:
  assumes "\<And>b st. \<exists>js. mset js = mset b \<and> settles js st (f b st)"
    and "fold f (bucket_runs same (bucket_order h lt items)) (mem, 0, clear_statuses sts) = (mem', fe, sts')"
    and "length sts = length items"
  shows "\<exists>F. status_contract (length sts) sts F fe sts'"
proof -
  obtain js where js: "mset js = mset (concat (bucket_runs same (bucket_order h lt items)))"
    "settles js (mem, 0, clear_statuses sts) (mem', fe, sts')"
    using settles_buckets [of f, OF assms(1)] assms(2) by metis
  have "mset js = mset [0..<length sts]"
    using js(1) assms(3) by (simp only: concat_bucket_runs mset_bucket_order)
  then show ?thesis using settles_contract [OF js(2)] by simp
qed

lemma items_contract:
  assumes "\<And>i st. settles [i] st (f i st)"
    and "fold f (bucket_order h lt items) (mem, 0, clear_statuses sts) = (mem', fe, sts')"
    and "length sts = length items"
  shows "\<exists>F. status_contract (length sts) sts F fe sts'"
proof (rule settles_contract)
  show "settles (bucket_order h lt items) (mem, 0, clear_statuses sts) (mem', fe, sts')"
    using settles_fold [of f, OF assms(1)] assms(2) by metis
  show "mset (bucket_order h lt items) = mset [0..<length sts]" using assms(3) by simp
qed

lemma svd_batch_contract:
  assumes "items \<noteq> []" "length sts = length items"
  shows "let (ret, mem', sts') = svd_economy_batch h svd svd8 fine False items (int (length items)) mem sts
    in \<exists>F fe. ret = int fe \<and> status_contract (length items) sts F fe sts'"
proof -
  obtain ret mem' sts' where res: "svd_economy_batch h svd svd8 fine False items (int (length items)) mem sts = (ret, mem', sts')"
    by (rule prod_cases3)
  obtain fe where "ret = int fe" "\<exists>F. status_contract (length sts) sts F fe sts'"
    using res assms(1) buckets_contract [where f = "svd_bucket items svd svd8 fine", OF svd_bucket_settles _ assms(2)]
    by (auto simp: svd_economy_batch_def Let_def split: prod.splits)
  then show ?thesis unfolding res Let_def prod.case using assms(2) by metis
qed

lemma wnnm_batch_contract:
  assumes "items \<noteq> []" "length sts = length items"
  shows "let (ret, mem', sts') = wnnm_shrink_batch h wk False items (int (length items)) mem sts
    in \<exists>F fe. ret = int fe \<and> status_contract (length items) sts F fe sts'"
proof -
  obtain ret mem' sts' where res: "wnnm_shrink_batch h wk False items (int (length items)) mem sts = (ret, mem', sts')"
    by (rule prod_cases3)
  obtain fe where "ret = int fe" "\<exists>F. status_contract (length sts) sts F fe sts'"
    using res assms(1) buckets_contract [where f = "wnnm_bucket wk items", OF wnnm_bucket_settles _ assms(2)]
    by (auto simp: wnnm_shrink_batch_def Let_def split: prod.splits)
  then show ?thesis unfolding res Let_def prod.case using assms(2) by metis
qed

lemma mcwnnm_batch_contract:
  assumes "items \<noteq> []" "length sts = length items"
  shows "let (ret, mem', sts') = mcwnnm_filter_group_batch h mrun False items (int (length items)) mem sts
    in \<exists>F fe. ret = int fe \<and> status_contract (length items) sts F fe sts'"
proof -
  obtain ret mem' sts' where res: "mcwnnm_filter_group_batch h mrun False items (int (length items)) mem sts = (ret, mem', sts')"
    by (rule prod_cases3)
  obtain fe where "ret = int fe" "\<exists>F. status_contract (length sts) sts F fe sts'"
    using res assms(1) items_contract [where f = "attempt (mcwnnm_run mrun items)", OF settles_attempt _ assms(2)]
    by (auto simp: mcwnnm_filter_group_batch_def Let_def split: prod.splits)
  then show ?thesis unfolding res Let_def prod.case using assms(2) by metis
qed

lemma ncsr_batch_contract:
  assumes "items \<noteq> []" "length sts = length items"
  shows "let (ret, mem', sts') = ncsr_filter_group_batch h nk False items (int (length items)) mem sts
    in \<exists>F fe. ret = int fe \<and> status_contract (length items) sts F fe sts'"
proof -
  obtain ret mem' sts' where res: "ncsr_filter_group_batch h nk False items (int (length items)) mem sts = (ret, mem', sts')"
    by (rule prod_cases3)
  obtain fe where "ret = int fe" "\<exists>F. status_contract (length sts) sts F fe sts'"
    using res assms(1) buckets_contract [where f = "ncsr_bucket nk items", OF ncsr_bucket_settles _ assms(2)]
    by (auto simp: ncsr_filter_group_batch_def Let_def split: prod.splits)
  then show ?thesis unfolding res Let_def prod.case using assms(2) by metis
qed

text \<open>A BM3D group fails exactly when it is not valid.\<close>

definition bm3d_item_fails :: "bm3d_item \<Rightarrow> bool" where
  "bm3d_item_fails item \<longleftrightarrow> bi_k item \<noteq> 0 \<and>
     (\<not> bm3d_item_valid item \<or> (bi_wiener item \<and> \<not> bi_ref_patches item))"

lemma bm3d_valid_block: "bm3d_item_valid p \<Longrightarrow> 1 \<le> bi_block p"
  using allowed_bounds(1) by (simp add: bm3d_item_valid_def)

lemma bm3d_step_settle:
  "snd (bm3d_batch_step items kernel_run i st) = settle i (\<not> bm3d_item_fails (items ! i)) (snd st)"
  using bm3d_valid_block [of "items ! i"]
  by (cases "bm3d_item_valid (items ! i)") (auto simp: bm3d_batch_step_def bm3d_item_fails_def Let_def prod.case_eq_if)

lemma settle_fold_exact:
  assumes "distinct is" "finite F" "set is \<inter> D = {}" "F \<subseteq> D" "set is \<subseteq> {0..<length sts}"
    and "\<forall>j < length sts. sts ! j = map_option (\<lambda>_. if j \<in> D - F then 1 else 0) (sts0 ! j)"
  shows "\<exists>sts'. fold (\<lambda>i. settle i (\<not> bad i)) is (first_failure F, sts) =
      (first_failure (F \<union> {i \<in> set is. bad i}), sts') \<and> length sts' = length sts \<and>
    (\<forall>j < length sts. sts' ! j = map_option (\<lambda>_. if j \<in> (D \<union> set is) - (F \<union> {i \<in> set is. bad i}) then 1 else 0) (sts0 ! j))"
  using assms
proof (induction "is" arbitrary: F D sts)
  case Nil
  then show ?case by auto
next
  case (Cons i "is")
  have union: "insert i D \<union> set is = D \<union> set (i # is)" by auto
  have i: "i \<notin> D" "i \<notin> F" "i < length sts" using Cons.prems by auto
  show ?case
  proof (cases "bad i")
    case False
    have upd: "\<forall>j < length (set_status i 1 sts). set_status i 1 sts ! j =
        map_option (\<lambda>_. if j \<in> insert i D - F then 1 else 0) (sts0 ! j)"
    proof (intro allI impI)
      fix j assume j: "j < length (set_status i 1 sts)"
      have "set_status i 1 sts ! j = (if j = i then map_option (\<lambda>_. 1) (sts ! j) else sts ! j)"
        using j i(3) by (simp add: set_status_def nth_list_update)
      then show "set_status i 1 sts ! j = map_option (\<lambda>_. if j \<in> insert i D - F then 1 else 0) (sts0 ! j)"
        using Cons.prems(6) i j by (simp add: map_option.compositionality comp_def)
    qed
    have "F \<union> {k \<in> set (i # is). bad k} = F \<union> {k \<in> set is. bad k}" using False by auto
    moreover have "\<exists>sts'. fold (\<lambda>i. settle i (\<not> bad i)) is (first_failure F, set_status i 1 sts) =
        (first_failure (F \<union> {i \<in> set is. bad i}), sts') \<and> length sts' = length (set_status i 1 sts) \<and>
      (\<forall>j < length (set_status i 1 sts). sts' ! j = map_option (\<lambda>_. if j \<in> (insert i D \<union> set is) - (F \<union> {i \<in> set is. bad i}) then 1 else 0) (sts0 ! j))"
      by (rule Cons.IH) (use Cons.prems i upd in auto)
    ultimately show ?thesis using False unfolding union by (simp add: settle_simps)
  next
    case True
    have rec: "record_batch_failure i (first_failure F) = first_failure (insert i F)"
      by (rule record_first_failure) (use Cons.prems in auto)
    have "F \<union> {k \<in> set (i # is). bad k} = insert i F \<union> {k \<in> set is. bad k}" using True by auto
    moreover have "\<exists>sts'. fold (\<lambda>i. settle i (\<not> bad i)) is (first_failure (insert i F), sts) =
        (first_failure (insert i F \<union> {i \<in> set is. bad i}), sts') \<and> length sts' = length sts \<and>
      (\<forall>j < length sts. sts' ! j = map_option (\<lambda>_. if j \<in> (insert i D \<union> set is) - (insert i F \<union> {i \<in> set is. bad i}) then 1 else 0) (sts0 ! j))"
      by (rule Cons.IH) (use Cons.prems i in auto)
    ultimately show ?thesis using True rec unfolding union by (simp add: settle_simps)
  qed
qed

lemma bm3d_fold_settle:
  "snd (fold (bm3d_batch_step items kernel_run) is st) =
     fold (\<lambda>i. settle i (\<not> bm3d_item_fails (items ! i))) is (snd st)"
  by (induction "is" arbitrary: st) (simp_all add: bm3d_step_settle)

lemma bm3d_batch_contract:
  assumes "items \<noteq> []" "length sts = length items"
    and res: "bm3d_filter_group_batch h kernel_run homogeneous_run False items (int (length items)) mem sts =
      (ret, mem', sts')"
  shows "\<exists>fe. ret = int fe \<and>
    status_contract (length items) sts {i. i < length items \<and> bm3d_item_fails (items ! i)} fe sts'"
proof (cases "h \<and> bm3d_homogeneous items")
  case True
  have none: "{i. i < length items \<and> bm3d_item_fails (items ! i)} = {}"
    using True by (auto simp: bm3d_homogeneous_def bm3d_item_fails_def)
  have "ret = 0" "sts' = fold (\<lambda>i. set_status i 1) [0..<length items] (clear_statuses sts)"
    using res True assms(1) by (auto simp: bm3d_filter_group_batch_def)
  then have "status_contract (length items) sts {} 0 sts'"
    using fold_set_status [of 1 "[0..<length items]" "clear_statuses sts"] assms(2)
    by (auto simp: status_contract_def clear_statuses_facts map_option.compositionality comp_def)
  then show ?thesis unfolding none using \<open>ret = 0\<close> by (intro exI [of _ 0]) simp
next
  case False
  let ?order = "bucket_order h bm3d_item_less items" and ?bad = "\<lambda>i. bm3d_item_fails (items ! i)"
  obtain fe where st: "fold (bm3d_batch_step items kernel_run) ?order (mem, 0, clear_statuses sts) = (mem', fe, sts')"
    and ret: "ret = int fe"
    using res False assms(1) by (auto simp: bm3d_filter_group_batch_def Let_def split: prod.splits)
  have "\<exists>s'. fold (\<lambda>i. settle i (\<not> ?bad i)) ?order (first_failure {}, clear_statuses sts) =
      (first_failure ({} \<union> {i \<in> set ?order. ?bad i}), s') \<and> length s' = length (clear_statuses sts) \<and>
    (\<forall>j < length (clear_statuses sts). s' ! j =
      map_option (\<lambda>_. if j \<in> ({} \<union> set ?order) - ({} \<union> {i \<in> set ?order. ?bad i}) then 1 else 0) (sts ! j))"
    by (rule settle_fold_exact) (use assms(2) in \<open>auto simp: clear_statuses_facts\<close>)
  moreover have "fold (\<lambda>i. settle i (\<not> ?bad i)) ?order (0, clear_statuses sts) = (fe, sts')"
    using bm3d_fold_settle [of items kernel_run ?order "(mem, 0, clear_statuses sts)"] st by simp
  moreover have "{i \<in> set ?order. ?bad i} = {i. i < length items \<and> ?bad i}" by auto
  ultimately have "status_contract (length items) sts {i. i < length items \<and> ?bad i} fe sts'"
    using assms(2) by (auto simp: status_contract_def clear_statuses_facts)
  then show ?thesis using ret by blast
qed

subsection \<open>Properties\<close>



definition example_bm3d :: "bm3d_item list" where
  "example_bm3d =
     [\<lparr>bi_lda = 64, bi_group = 8, bi_k = 3, bi_block = 8, bi_wiener = False, bi_patches = True,
       bi_ref_patches = False, bi_weight = True, bi_work = True\<rparr>,
      \<lparr>bi_lda = 64, bi_group = 8, bi_k = 9, bi_block = 8, bi_wiener = False, bi_patches = True,
       bi_ref_patches = False, bi_weight = True, bi_work = True\<rparr>]"



end
