(* ===== verification/Vs_Map.thy ===== *)
theory Vs_Map
  imports Checked Floats
begin

text \<open>
  Argument maps and video formats (src/frontend/validate.cpp, validate.hpp, args.hpp). The
  VapourSynth API is not part of the repository: a \<open>VSMap\<close> is a record of its documented
  accessors, with \<open>None\<close> for an error; the two helpers of VSHelper4.h are parameters.
\<close>

subsection \<open>The API's data\<close>

datatype color_family = Cf_undefined | Cf_gray | Cf_rgb | Cf_yuv
datatype sample_type = St_integer | St_float
datatype vs_type = Pt_int | Pt_float | Pt_other

record video_info =
  vi_width :: int
  vi_height :: int
  vi_num_frames :: int
  vi_family :: color_family
  vi_sample :: sample_type
  vi_bits :: int
  vi_bytes :: int
  vi_ss_w :: nat
  vi_ss_h :: nat
  vi_planes :: int

text \<open>
  \<open>vm_count\<close> is \<open>mapNumElements\<close> (negative when the key is absent), the getters take the
  key and the index.
\<close>

record vsmap =
  vm_keys :: "string list"
  vm_type :: "string \<Rightarrow> vs_type"
  vm_count :: "string \<Rightarrow> int"
  vm_int :: "string \<Rightarrow> int \<Rightarrow> int option"
  vm_float :: "string \<Rightarrow> int \<Rightarrow> f64 option"
  vm_data :: "string \<Rightarrow> int \<Rightarrow> string option"

text \<open>\<open>isConstantVideoFormat\<close> and \<open>isSameVideoInfo\<close>.\<close>

record vs_helpers =
  vsh_constant :: "video_info \<Rightarrow> bool"
  vsh_same :: "video_info \<Rightarrow> video_info \<Rightarrow> bool"

subsection \<open>Decimal numbers in messages\<close>

fun show_digits :: "nat \<Rightarrow> nat \<Rightarrow> string" where
  "show_digits 0 n = []"
| "show_digits (Suc fuel) n =
     (if n < 10 then [char_of (48 + n)] else show_digits fuel (n div 10) @ [char_of (48 + n mod 10)])"

definition show_int :: "int \<Rightarrow> string" where
  "show_int i = (if i < 0 then ''-'' else []) @ show_digits 20 (nat \<bar>i\<bar>)"

subsection \<open>Failures (src/frontend/args.hpp)\<close>

definition fail :: "string \<Rightarrow> string \<Rightarrow> string \<Rightarrow> 'a res" where
  "fail ns flt message = Inl (Invalid_argument (ns @ ''.'' @ flt @ '': '' @ message))"

lemma fail_not_Inr [simp]: "fail ns flt message \<noteq> Inr v" "Inr v \<noteq> fail ns flt message"
  by (simp_all add: fail_def)

lemma if_fail_eq_Inr [simp]: "(if b then fail ns flt message else r) = Inr v \<longleftrightarrow> \<not> b \<and> r = Inr v"
  by (simp add: fail_def)

lemma bindE_fail [simp]: "bindE (fail ns flt message) f = fail ns flt message"
  by (simp add: fail_def)

subsection \<open>\<open>validate_numeric_args\<close>\<close>

definition narrow_error :: "string \<Rightarrow> int \<Rightarrow> vs_type \<Rightarrow> string" where
  "narrow_error key index ty =
     take 255 (''nss: parameter '' @ key @ ''['' @ show_int index @ ''] is not representable as a finite '' @
       (if ty = Pt_int then ''int'' else ''float''))"

text \<open>The largest float as a double, and the comparison \<open>-limit <= value <= limit\<close>.\<close>

definition f64_float_max :: f64 where "f64_float_max = 0x47efffffe0000000"

definition f64_float_min :: f64 where "f64_float_min = 0xc7efffffe0000000"

definition float_arg_valid :: "f64 \<Rightarrow> bool" where
  "float_arg_valid value' \<longleftrightarrow>
     f64_finite value' \<and> f64_le f64_float_min value' \<and> f64_le value' f64_float_max"

definition int_arg_valid :: "int \<Rightarrow> bool" where
  "int_arg_valid value' \<longleftrightarrow> int_min \<le> value' \<and> value' \<le> int_max"

definition element_valid :: "vsmap \<Rightarrow> string \<Rightarrow> int \<Rightarrow> bool" where
  "element_valid m key index =
     (if vm_type m key = Pt_int
      then (case vm_int m key index of None \<Rightarrow> False | Some v \<Rightarrow> int_arg_valid v)
      else (case vm_float m key index of None \<Rightarrow> False | Some v \<Rightarrow> float_arg_valid v))"

fun validate_elements :: "vsmap \<Rightarrow> string \<Rightarrow> int list \<Rightarrow> string option" where
  "validate_elements m key [] = None"
| "validate_elements m key (index # rest) =
     (if \<not> element_valid m key index then Some (narrow_error key index (vm_type m key))
      else validate_elements m key rest)"

fun validate_keys :: "vsmap \<Rightarrow> string list \<Rightarrow> string option" where
  "validate_keys m [] = None"
| "validate_keys m (key # rest) =
     (if vm_type m key \<noteq> Pt_int \<and> vm_type m key \<noteq> Pt_float then validate_keys m rest
      else case validate_elements m key [0..vm_count m key - 1] of
             Some e \<Rightarrow> Some e
           | None \<Rightarrow> validate_keys m rest)"

text \<open>\<open>None\<close> is the return value true, \<open>Some e\<close> false with the error set on the output map.\<close>

definition validate_numeric_args :: "vsmap \<Rightarrow> string option" where
  "validate_numeric_args m = validate_keys m (vm_keys m)"

subsection \<open>Formats\<close>

definition is_const_32f :: "vs_helpers \<Rightarrow> video_info \<Rightarrow> bool" where
  "is_const_32f h vi =
     (if vi_width vi < 1 \<or> vi_height vi < 1 \<or> vi_num_frames vi < 1 \<or>
         vi_width vi * vi_height vi > int_max \<or> \<not> vsh_constant h vi
      then False
      else vi_sample vi = St_float \<and> vi_bits vi = 32 \<and>
        (vi_family vi = Cf_gray \<or> vi_family vi = Cf_yuv \<or> vi_family vi = Cf_rgb))"

definition same_video :: "vs_helpers \<Rightarrow> video_info \<Rightarrow> video_info \<Rightarrow> bool" where
  "same_video h a b \<longleftrightarrow> vsh_same h a b \<and> vi_num_frames a = vi_num_frames b"

definition plane_width :: "video_info \<Rightarrow> int \<Rightarrow> int" where
  "plane_width vi plane = vi_width vi div 2 ^ (if plane \<noteq> 0 then vi_ss_w vi else 0)"

definition plane_height :: "video_info \<Rightarrow> int \<Rightarrow> int" where
  "plane_height vi plane = vi_height vi div 2 ^ (if plane \<noteq> 0 then vi_ss_h vi else 0)"

text \<open>\<open>validate_group_planes\<close>: \<open>sigma\<close> by plane.\<close>

fun validate_group_planes_from :: "video_info \<Rightarrow> f32 list \<Rightarrow> int \<Rightarrow> int list \<Rightarrow> unit res" where
  "validate_group_planes_from vi sigma block [] = Inr ()"
| "validate_group_planes_from vi sigma block (plane # planes) =
     (if f32_lt (sigma ! nat plane) f32_zero then Inl (Invalid_argument ''nss: sigma must be non-negative'')
      else if f32_lt f32_zero (sigma ! nat plane) \<and> (plane_width vi plane < block \<or> plane_height vi plane < block)
      then Inl (Invalid_argument ''nss: selected plane is smaller than block_size'')
      else validate_group_planes_from vi sigma block planes)"

definition validate_group_planes :: "video_info \<Rightarrow> f32 list \<Rightarrow> int \<Rightarrow> unit res" where
  "validate_group_planes vi sigma block = validate_group_planes_from vi sigma block [0..vi_planes vi - 1]"

subsection \<open>Reading arguments\<close>

text \<open>\<open>static_cast<int>\<close> of a 64-bit value keeps its low 32 bits.\<close>

definition to_int32 :: "int \<Rightarrow> int" where
  "to_int32 v = (v + 2147483648) mod 4294967296 - 2147483648"

lemma to_int32_id: "int32 v \<Longrightarrow> to_int32 v = v"
  by (simp add: to_int32_def int32_def int_max_def int_min_def)

text \<open>A \<open>char\<close> pointer read as a string ends at its first zero.\<close>

definition c_string :: "string \<Rightarrow> string" where
  "c_string s = takeWhile (\<lambda>c. of_char c \<noteq> (0 :: nat)) s"

text \<open>A getter without an error pointer returns 0 for an absent value.\<close>

definition get_float :: "vsmap \<Rightarrow> string \<Rightarrow> int \<Rightarrow> f64" where
  "get_float m key i = (case vm_float m key i of None \<Rightarrow> 0 | Some v \<Rightarrow> v)"

definition get_int :: "vsmap \<Rightarrow> string \<Rightarrow> int \<Rightarrow> int" where
  "get_int m key i = (case vm_int m key i of None \<Rightarrow> 0 | Some v \<Rightarrow> v)"

definition map_float :: "farith \<Rightarrow> vsmap \<Rightarrow> string \<Rightarrow> f32 \<Rightarrow> f32" where
  "map_float F m key d = (case vm_float m key 0 of None \<Rightarrow> d | Some v \<Rightarrow> f_of_f64 F v)"

definition map_int :: "vsmap \<Rightarrow> string \<Rightarrow> int \<Rightarrow> int" where
  "map_int m key d = (case vm_int m key 0 of None \<Rightarrow> d | Some v \<Rightarrow> to_int32 v)"

text \<open>\<open>err_out\<close>: whether the getter reported an error.\<close>

definition map_int_err :: "vsmap \<Rightarrow> string \<Rightarrow> bool" where
  "map_int_err m key \<longleftrightarrow> vm_int m key 0 = None"

text \<open>
  The array readers fill the first \<open>n\<close> entries of the caller's array: the last value given
  serves the remaining planes.
\<close>

definition array_index :: "int \<Rightarrow> int \<Rightarrow> int" where
  "array_index given i = (if i < given then i else given - 1)"

definition map_float_array :: "farith \<Rightarrow> vsmap \<Rightarrow> string \<Rightarrow> f32 list \<Rightarrow> int \<Rightarrow> f32 \<Rightarrow> f32 list" where
  "map_float_array F m key out n d =
     (let given = vm_count m key
      in map (\<lambda>i. if given \<le> 0 then d
                 else case vm_float m key (array_index given i) of None \<Rightarrow> d | Some v \<Rightarrow> f_of_f64 F v) [0..n - 1]
         @ drop (nat n) out)"

definition map_int_array :: "vsmap \<Rightarrow> string \<Rightarrow> int list \<Rightarrow> int \<Rightarrow> int \<Rightarrow> int list" where
  "map_int_array m key out n d =
     (let given = vm_count m key
      in map (\<lambda>i. if given \<le> 0 then d
                 else case vm_int m key (array_index given i) of None \<Rightarrow> d | Some v \<Rightarrow> to_int32 v) [0..n - 1]
         @ drop (nat n) out)"

text \<open>\<open>map_inherit_int\<close>: an entry without a value takes the one before it.\<close>

fun inherit_from :: "vsmap \<Rightarrow> string \<Rightarrow> int \<Rightarrow> int \<Rightarrow> int \<Rightarrow> int list \<Rightarrow> int list" where
  "inherit_from m key given d previous [] = []"
| "inherit_from m key given d previous (i # is) =
     (let v = (if i < given
               then (case vm_int m key i of None \<Rightarrow> (if i = 0 then d else previous) | Some v \<Rightarrow> to_int32 v)
               else previous)
      in v # inherit_from m key given d v is)"

definition map_inherit_int :: "vsmap \<Rightarrow> string \<Rightarrow> int list \<Rightarrow> int \<Rightarrow> int \<Rightarrow> int list" where
  "map_inherit_int m key out n d =
     (let given = vm_count m key
      in (if given \<le> 0 then map (\<lambda>i. d) [0..n - 1] else inherit_from m key given d d [0..n - 1]) @ drop (nat n) out)"

subsection \<open>\<open>checked_create\<close>\<close>

text \<open>
  The wrapper of every factory: arguments are validated, the budget is made, then the
  factory runs in its scope. \<open>Inr limit\<close> is the budget handed to the factory.
\<close>

definition memory_budget :: "int \<Rightarrow> vsmap \<Rightarrow> nat res" where
  "memory_budget default_mb m =
     (let error = vm_int m ''memory_limit_mb'' 0 = None;
          unlimited = error \<and> default_mb = 0;
          megabytes = (case vm_int m ''memory_limit_mb'' 0 of None \<Rightarrow> default_mb | Some v \<Rightarrow> v)
      in if \<not> unlimited \<and> (megabytes < 1 \<or> megabytes > 1048576)
         then Inl (Invalid_argument ''nss: memory_limit_mb must be in [1, 1048576]'')
         else if unlimited then Inr size_max else checked_mul (nat megabytes) 1048576)"

text \<open>The message an exception leaves on the output map.\<close>

fun creation_message :: "nss_error \<Rightarrow> string" where
  "creation_message Bad_alloc = ''nss: resource allocation failed during creation''"
| "creation_message Bad_array_new_length = ''nss: resource allocation failed during creation''"
| "creation_message (Overflow_error s) = s"
| "creation_message (Invalid_argument s) = s"
| "creation_message (Runtime_error s) = s"
| "creation_message (Logic_error s) = s"

definition checked_create :: "int \<Rightarrow> (nat \<Rightarrow> vsmap \<Rightarrow> 'f res) \<Rightarrow> vsmap \<Rightarrow> string + 'f" where
  "checked_create default_mb create m =
     (case validate_numeric_args m of
        Some e \<Rightarrow> Inl e
      | None \<Rightarrow>
          (case bindE (memory_budget default_mb m) (\<lambda>limit. create limit m) of
             Inl e \<Rightarrow> Inl (creation_message e)
           | Inr f \<Rightarrow> Inr f))"

subsection \<open>What validation establishes\<close>

definition numeric_args_ok :: "vsmap \<Rightarrow> bool" where
  "numeric_args_ok m \<longleftrightarrow>
     (\<forall>key \<in> set (vm_keys m). \<forall>i. 0 \<le> i \<and> i < vm_count m key \<longrightarrow>
        (vm_type m key = Pt_int \<longrightarrow> (\<exists>v. vm_int m key i = Some v \<and> int32 v)) \<and>
        (vm_type m key = Pt_float \<longrightarrow> (\<exists>v. vm_float m key i = Some v \<and> float_arg_valid v)))"

lemma validate_elements_None:
  "validate_elements m key is = None \<longleftrightarrow> (\<forall>i \<in> set is. element_valid m key i)"
  by (induction m key "is" rule: validate_elements.induct) auto

lemma validate_keys_None:
  "validate_keys m ks = None \<longleftrightarrow>
     (\<forall>key \<in> set ks. vm_type m key = Pt_int \<or> vm_type m key = Pt_float \<longrightarrow>
        (\<forall>i. 0 \<le> i \<and> i < vm_count m key \<longrightarrow> element_valid m key i))"
proof (induction m ks rule: validate_keys.induct)
  case (1 m)
  then show ?case by simp
next
  case (2 m key rest)
  show ?case
  proof (cases "validate_elements m key [0..vm_count m key - 1]")
    case None
    then have "\<forall>i. 0 \<le> i \<and> i < vm_count m key \<longrightarrow> element_valid m key i"
      unfolding validate_elements_None by simp
    with None 2 show ?thesis by auto
  next
    case (Some e)
    then have "\<not> (\<forall>i \<in> set [0..vm_count m key - 1]. element_valid m key i)"
      unfolding validate_elements_None [symmetric] by simp
    with Some 2 show ?thesis by auto
  qed
qed

lemma element_valid_iff:
  "vm_type m key = Pt_int \<Longrightarrow> element_valid m key i \<longleftrightarrow> (\<exists>v. vm_int m key i = Some v \<and> int32 v)"
  "vm_type m key = Pt_float \<Longrightarrow> element_valid m key i \<longleftrightarrow> (\<exists>v. vm_float m key i = Some v \<and> float_arg_valid v)"
  by (auto simp: element_valid_def int_arg_valid_def int32_def split: option.splits)

lemma validate_numeric_args_iff: "validate_numeric_args m = None \<longleftrightarrow> numeric_args_ok m"
  unfolding validate_numeric_args_def validate_keys_None numeric_args_ok_def
  by (auto simp: element_valid_iff)

subsection \<open>Shapes of the readers' results\<close>

lemma length_map_array:
  "0 \<le> n \<Longrightarrow> length (map_int_array m key out n d) = max (length out) (nat n)"
  "0 \<le> n \<Longrightarrow> length (map_float_array F m key fout n fd) = max (length fout) (nat n)"
  by (auto simp: map_int_array_def map_float_array_def Let_def)

lemma length_inherit: "length (inherit_from m key given d p is) = length is"
  by (induction m key given d p "is" rule: inherit_from.induct) (auto simp: Let_def)

lemma length_map_inherit:
  "0 \<le> n \<Longrightarrow> length (map_inherit_int m key out n d) = max (length out) (nat n)"
  by (auto simp: map_inherit_int_def Let_def length_inherit)

lemma plane_positive:
  assumes "is_const_32f h vi"
  shows "1 \<le> vi_width vi" "1 \<le> vi_height vi" "vi_width vi * vi_height vi \<le> int_max" "1 \<le> vi_num_frames vi"
  using assms by (auto simp: is_const_32f_def split: if_splits)

subsection \<open>Properties\<close>

text \<open>
  Validation accepts a call exactly when every integer argument fits an \<open>int\<close> and every
  float argument is finite and within the range of a \<open>float\<close>; afterwards the integer readers
  return the values as passed, so no narrowing changes an argument.
\<close>

theorem validated_arguments_exact:
  "(validate_numeric_args m = None \<longleftrightarrow> numeric_args_ok m) \<and>
   (validate_numeric_args m = None \<and> key \<in> set (vm_keys m) \<and> vm_type m key = Pt_int \<and> 0 < vm_count m key \<longrightarrow>
      vm_int m key 0 = Some (map_int m key d) \<and>
      (\<forall>out n i. i < n \<and> i < nat (vm_count m key) \<longrightarrow>
         vm_int m key (int i) = Some (map_int_array m key out (int n) d ! i)))"
proof (intro conjI impI allI)
  show "validate_numeric_args m = None \<longleftrightarrow> numeric_args_ok m" by (rule validate_numeric_args_iff)
next
  assume "validate_numeric_args m = None \<and> key \<in> set (vm_keys m) \<and> vm_type m key = Pt_int \<and> 0 < vm_count m key"
  then obtain v where "vm_int m key 0 = Some v" "int32 v"
    unfolding validate_numeric_args_iff numeric_args_ok_def by fastforce
  then show "vm_int m key 0 = Some (map_int m key d)" by (simp add: map_int_def to_int32_id)
next
  fix out n i
  assume a: "validate_numeric_args m = None \<and> key \<in> set (vm_keys m) \<and> vm_type m key = Pt_int \<and> 0 < vm_count m key"
    and i: "i < n \<and> i < nat (vm_count m key)"
  then have lt: "0 \<le> int i \<and> int i < vm_count m key" by linarith
  then obtain v where v: "vm_int m key (int i) = Some v" "int32 v"
    using a unfolding validate_numeric_args_iff numeric_args_ok_def by blast
  have "[0..int n - 1] ! i = int i" using i by simp
  moreover have "i < length [0..int n - 1]" using i by simp
  ultimately show "vm_int m key (int i) = Some (map_int_array m key out (int n) d ! i)"
    using i v lt by (simp add: map_int_array_def Let_def nth_append array_index_def to_int32_id)
qed

definition example_map :: vsmap where
  "example_map = \<lparr>vm_keys = [''radius''], vm_type = (\<lambda>_. Pt_int), vm_count = (\<lambda>k. if k = ''radius'' then 1 else - 1),
     vm_int = (\<lambda>k i. if k = ''radius'' \<and> i = 0 then Some 3 else None), vm_float = (\<lambda>_ _. None),
     vm_data = (\<lambda>_ _. None)\<rparr>"

theorem validated_arguments_exact_witness:
  "map_int example_map ''radius'' 0 = 3"
proof -
  have "validate_numeric_args example_map = None"
    by (simp add: validate_numeric_args_def example_map_def element_valid_def int_arg_valid_def int_max_def int_min_def)
  then have "vm_int example_map ''radius'' 0 = Some (map_int example_map ''radius'' 0)"
    using validated_arguments_exact [of example_map "''radius''" 0] by (simp add: example_map_def)
  then show ?thesis by (simp add: example_map_def)
qed

text \<open>
  The memory budget of a filter: without the argument and without a default there is
  no limit; otherwise the limit is the given or default number of mebibytes, in
  \<open>[1, 1048576]\<close>, exactly, and any other value is refused before the factory runs.
\<close>

theorem memory_budget_exact:
  "memory_budget default_mb m =
     (case vm_int m ''memory_limit_mb'' 0 of
        None \<Rightarrow> if default_mb = 0 then Inr size_max
                else if 1 \<le> default_mb \<and> default_mb \<le> 1048576 then Inr (nat default_mb * 1048576)
                else Inl (Invalid_argument ''nss: memory_limit_mb must be in [1, 1048576]'')
      | Some v \<Rightarrow> if 1 \<le> v \<and> v \<le> 1048576 then Inr (nat v * 1048576)
                  else Inl (Invalid_argument ''nss: memory_limit_mb must be in [1, 1048576]''))"
proof -
  have fit: "checked_mul (nat v) 1048576 = Inr (nat v * 1048576)" if "1 \<le> v" "v \<le> 1048576" for v
  proof -
    have "nat v * 1048576 \<le> 1048576 * 1048576" using that by (intro mult_le_mono1) simp
    then show ?thesis by (simp add: checked_mul_iff size_max_def)
  qed
  show ?thesis
    using fit [of default_mb] fit by (auto simp: memory_budget_def Let_def split: option.splits)
qed

subsection \<open>Example clips and arguments\<close>

definition gray_clip :: video_info where
  "gray_clip = \<lparr>vi_width = 640, vi_height = 480, vi_num_frames = 100, vi_family = Cf_gray, vi_sample = St_float,
     vi_bits = 32, vi_bytes = 4, vi_ss_w = 0, vi_ss_h = 0, vi_planes = 1\<rparr>"

definition empty_map :: vsmap where
  "empty_map = \<lparr>vm_keys = [], vm_type = (\<lambda>_. Pt_other), vm_count = (\<lambda>_. - 1), vm_int = (\<lambda>_ _. None),
     vm_float = (\<lambda>_ _. None), vm_data = (\<lambda>_ _. None)\<rparr>"

definition example_helpers :: vs_helpers where
  "example_helpers = \<lparr>vsh_constant = (\<lambda>vi. 0 < vi_width vi), vsh_same = (\<lambda>a b. vi_width a = vi_width b)\<rparr>"

definition rgb_clip :: video_info where
  "rgb_clip = gray_clip\<lparr>vi_family := Cf_rgb, vi_planes := 3\<rparr>"

end
