(* ===== verification/Commit_Queue.thy ===== *)
theory Commit_Queue
  imports Prelude
begin

text \<open>
  Group scheduling (include/nss/cpu_batch.hpp): the order of group keys, the bucketing of
  group jobs, and \<open>OrderedCommitQueue\<close>, the bounded reorder queue between the threads
  that finish groups in any order and the accumulator that must see them in raster order.
\<close>

subsection \<open>Group keys\<close>

datatype group_algorithm = GA_bm3d | GA_wnnm | GA_twsc | GA_mcwnnm | GA_ncsr | GA_nlh | GA_lssc

text \<open>\<open>static_cast<std::uint8_t>\<close> of the enumerator.\<close>

fun algorithm_rank :: "group_algorithm \<Rightarrow> nat" where
  "algorithm_rank GA_bm3d = 0"
| "algorithm_rank GA_wnnm = 1"
| "algorithm_rank GA_twsc = 2"
| "algorithm_rank GA_mcwnnm = 3"
| "algorithm_rank GA_ncsr = 4"
| "algorithm_rank GA_nlh = 5"
| "algorithm_rank GA_lssc = 6"

lemma algorithm_rank_eq: "algorithm_rank a = algorithm_rank b \<longleftrightarrow> a = b"
  by (cases a; cases b) simp_all

datatype group_key = Group_key (gk_m: int) (gk_k: int) (gk_channels: int)
  (gk_algorithm: group_algorithm) (gk_basic: bool) (gk_residual: bool)

text \<open>\<open>operator<\<close>, as the comparison cascade of the source; \<open>false < true\<close>.\<close>

definition group_key_less :: "group_key \<Rightarrow> group_key \<Rightarrow> bool" where
  "group_key_less a b =
     (if gk_m a \<noteq> gk_m b then gk_m a < gk_m b
      else if gk_k a \<noteq> gk_k b then gk_k a < gk_k b
      else if gk_channels a \<noteq> gk_channels b then gk_channels a < gk_channels b
      else if gk_algorithm a \<noteq> gk_algorithm b
      then algorithm_rank (gk_algorithm a) < algorithm_rank (gk_algorithm b)
      else if gk_basic a \<noteq> gk_basic b then \<not> gk_basic a \<and> gk_basic b
      else \<not> gk_residual a \<and> gk_residual b)"

definition key_tuple :: "group_key \<Rightarrow> int \<times> int \<times> int \<times> nat \<times> bool \<times> bool" where
  "key_tuple a = (gk_m a, gk_k a, gk_channels a, algorithm_rank (gk_algorithm a), gk_basic a, gk_residual a)"

lemma key_tuple_inject: "key_tuple a = key_tuple b \<longleftrightarrow> a = b"
  by (cases a; cases b) (auto simp: key_tuple_def algorithm_rank_eq)

lemma group_key_less_tuple: "group_key_less a b \<longleftrightarrow> key_tuple a < key_tuple b"
  using algorithm_rank_eq [of "gk_algorithm a" "gk_algorithm b"]
  by (auto simp: group_key_less_def key_tuple_def less_prod_def')

text \<open>With \<open>operator==\<close> as equality the cascade is a linear order.\<close>

instantiation group_key :: linorder
begin

definition less_group_key :: "group_key \<Rightarrow> group_key \<Rightarrow> bool" where
  "less_group_key a b = group_key_less a b"

definition less_eq_group_key :: "group_key \<Rightarrow> group_key \<Rightarrow> bool" where
  "less_eq_group_key a b = (group_key_less a b \<or> a = b)"

instance
proof
  fix a b c :: group_key
  have le: "x \<le> y \<longleftrightarrow> key_tuple x \<le> key_tuple y" for x y :: group_key
    by (auto simp: less_eq_group_key_def group_key_less_tuple key_tuple_inject le_less)
  have lt: "x < y \<longleftrightarrow> key_tuple x < key_tuple y" for x y :: group_key
    by (simp add: less_group_key_def group_key_less_tuple)
  show "a < b \<longleftrightarrow> a \<le> b \<and> \<not> b \<le> a" unfolding le lt by (rule less_le_not_le)
  show "a \<le> a" unfolding le by simp
  show "a \<le> b \<Longrightarrow> b \<le> c \<Longrightarrow> a \<le> c" unfolding le by (rule order_trans)
  show "a \<le> b \<Longrightarrow> b \<le> a \<Longrightarrow> a = b" unfolding le key_tuple_inject [symmetric] by (rule antisym)
  show "a \<le> b \<or> b \<le> a" unfolding le by (rule linear)
qed

end

record group_job =
  gj_ordinal :: nat
  gj_x :: int
  gj_y :: int
  gj_t :: int
  gj_key :: group_key

definition group_job_less :: "group_job \<Rightarrow> group_job \<Rightarrow> bool" where
  "group_job_less a b =
     (if gj_key a = gj_key b then gj_ordinal a < gj_ordinal b else group_key_less (gj_key a) (gj_key b))"

definition bucket_group_jobs :: "group_job list \<Rightarrow> group_job list" where
  "bucket_group_jobs jobs = std_sort group_job_less jobs"

lemma group_job_less_key:
  "group_job_less a b \<longleftrightarrow> (gj_key a, gj_ordinal a) < (gj_key b, gj_ordinal b)"
  by (auto simp: group_job_less_def less_prod_def' less_group_key_def group_key_less_tuple)

lemma sorted_map_fst:
  fixes ps :: "('a::linorder \<times> 'b::linorder) list"
  shows "sorted ps \<Longrightarrow> sorted (map fst ps)"
  by (induction ps) (auto simp: less_eq_prod_def)

lemma insort_key_cong_le:
  "(\<And>y. y \<in> set xs \<Longrightarrow> f x \<le> f y \<longleftrightarrow> g x \<le> g y) \<Longrightarrow> insort_key f x xs = insort_key g x xs"
  by (induction xs) auto

lemma sort_key_cong_le:
  "(\<And>x y. x \<in> set xs \<Longrightarrow> y \<in> set xs \<Longrightarrow> f x \<le> f y \<longleftrightarrow> g x \<le> g y) \<Longrightarrow> sort_key f xs = sort_key g xs"
proof (induction xs)
  case Nil
  then show ?case by simp
next
  case (Cons x xs)
  have "sort_key f xs = sort_key g xs" using Cons by simp
  moreover have "insort_key f x (sort_key g xs) = insort_key g x (sort_key g xs)"
    using Cons.prems by (intro insort_key_cong_le) simp
  ultimately show ?case by simp
qed

lemma bucket_group_jobs_sort_key:
  "bucket_group_jobs jobs = sort_key (\<lambda>j. (gj_key j, gj_ordinal j)) jobs"
  unfolding bucket_group_jobs_def by (rule std_sort_sort_key) (rule group_job_less_key)

subsection \<open>\<open>OrderedCommitQueue\<close>\<close>

text \<open>
  Ordinals are \<open>std::uint64_t\<close>: natural numbers below \<open>2 ^ 64\<close>, the increment wraps.
\<close>

record 'r commit_queue =
  cq_next :: nat
  cq_window :: nat
  cq_pending :: "(nat \<times> 'r) list"

definition cq_new :: "nat \<Rightarrow> nat \<Rightarrow> 'r commit_queue" where
  "cq_new first_ordinal window = \<lparr>cq_next = first_ordinal, cq_window = max 1 window, cq_pending = []\<rparr>"

definition cq_push :: "nat \<Rightarrow> 'r \<Rightarrow> 'r commit_queue \<Rightarrow> 'r commit_queue option" where
  "cq_push ordinal result q =
     (if ordinal < cq_next q then None
      else if ordinal - cq_next q > cq_window q then None
      else if \<exists>item \<in> set (cq_pending q). fst item = ordinal then None
      else Some (q\<lparr>cq_pending := cq_pending q @ [(ordinal, result)]\<rparr>))"

text \<open>\<open>find_if\<close> and \<open>erase\<close>: the first item with the ordinal, and the others in order.\<close>

fun take_item :: "nat \<Rightarrow> (nat \<times> 'r) list \<Rightarrow> ('r \<times> (nat \<times> 'r) list) option" where
  "take_item n [] = None"
| "take_item n ((ordinal, result) # items) =
     (if ordinal = n then Some (result, items)
      else case take_item n items of None \<Rightarrow> None | Some (r, rest) \<Rightarrow> Some (r, (ordinal, result) # rest))"

lemma take_item_length: "take_item n items = Some (r, rest) \<Longrightarrow> length items = Suc (length rest)"
  by (induction n items arbitrary: r rest rule: take_item.induct) (auto split: if_splits option.splits)

text \<open>\<open>drain\<close>: the results in the order they are committed, and the queue left.\<close>

function cq_drain :: "'r commit_queue \<Rightarrow> 'r list \<times> 'r commit_queue" where
  "cq_drain q =
     (case take_item (cq_next q) (cq_pending q) of
        None \<Rightarrow> ([], q)
      | Some (r, rest) \<Rightarrow>
          (case cq_drain (q\<lparr>cq_pending := rest, cq_next := (cq_next q + 1) mod 2 ^ 64\<rparr>) of
             (rs, q') \<Rightarrow> (r # rs, q')))"
  by pat_completeness auto
termination
  by (relation "measure (\<lambda>q. length (cq_pending q))") (auto dest: take_item_length)

declare cq_drain.simps [simp del]

definition cq_finish :: "'r commit_queue \<Rightarrow> 'r list \<times> 'r commit_queue" where
  "cq_finish q = cq_drain q"

definition cq_needs_drain :: "'r commit_queue \<Rightarrow> bool" where
  "cq_needs_drain q \<longleftrightarrow> cq_window q < length (cq_pending q)"

definition cq_complete :: "'r commit_queue \<Rightarrow> bool" where
  "cq_complete q \<longleftrightarrow> cq_pending q = []"

subsection \<open>Producers and the consumer\<close>

text \<open>
  A run of the queue: producers submit results, the consumer drains. The state is the
  queue, the accepted submissions (last first) and the committed results.
\<close>

datatype 'r queue_op = Push nat 'r | Drain

fun schedule :: "(nat \<Rightarrow> 'r \<Rightarrow> 'q \<Rightarrow> 'q option) \<Rightarrow> ('q \<Rightarrow> 'r list \<times> 'q) \<Rightarrow> 'r queue_op list \<Rightarrow>
    'q \<times> (nat \<times> 'r) list \<times> 'r list \<Rightarrow> 'q \<times> (nat \<times> 'r) list \<times> 'r list" where
  "schedule push drain [] s = s"
| "schedule push drain (Push n r # ops) (q, acc, out) =
     (case push n r q of
        None \<Rightarrow> schedule push drain ops (q, acc, out)
      | Some q' \<Rightarrow> schedule push drain ops (q', (n, r) # acc, out))"
| "schedule push drain (Drain # ops) (q, acc, out) =
     (case drain q of (rs, q') \<Rightarrow> schedule push drain ops (q', acc, out @ rs))"

text \<open>
  What a consumer may rely on: \<open>held\<close> are the results waiting in the queue by ordinal,
  \<open>next_of\<close> the ordinal that is committed next.
\<close>

locale reorder_queue =
  fixes push :: "nat \<Rightarrow> 'r \<Rightarrow> 'q \<Rightarrow> 'q option"
    and drain :: "'q \<Rightarrow> 'r list \<times> 'q"
    and ok :: "'q \<Rightarrow> bool"
    and next_of :: "'q \<Rightarrow> nat"
    and held :: "'q \<Rightarrow> nat \<Rightarrow> 'r option"
  assumes push_law: "ok q \<Longrightarrow> n + 1 < 2 ^ 64 \<Longrightarrow> push n r q = Some q' \<Longrightarrow>
      ok q' \<and> next_of q' = next_of q \<and> next_of q \<le> n \<and> held q n = None \<and> held q' = (held q)(n \<mapsto> r)"
    and drain_law: "ok q \<Longrightarrow> drain q = (rs, q') \<Longrightarrow>
      ok q' \<and> next_of q' = next_of q + length rs \<and>
      (\<forall>i < length rs. held q (next_of q + i) = Some (rs ! i)) \<and>
      held q' = held q |` {next_of q'..} \<and> held q' (next_of q') = None"
begin

definition run_inv :: "nat \<Rightarrow> 'q \<times> (nat \<times> 'r) list \<times> 'r list \<Rightarrow> bool" where
  "run_inv first s =
     (case s of (q, acc, out) \<Rightarrow>
        ok q \<and> next_of q = first + length out \<and> distinct (map fst acc) \<and> (\<forall>x \<in> set acc. first \<le> fst x) \<and>
        (\<forall>i < length out. map_of acc (first + i) = Some (out ! i)) \<and>
        held q = map_of acc |` {next_of q..})"

lemma run_inv_push:
  assumes inv: "run_inv first (q, acc, out)" and n: "n + 1 < 2 ^ 64" and p: "push n r q = Some q'"
  shows "run_inv first (q', (n, r) # acc, out)"
proof -
  have ok: "ok q" and nx: "next_of q = first + length out" and d: "distinct (map fst acc)"
    and ge: "\<forall>x \<in> set acc. first \<le> fst x" and out: "\<forall>i < length out. map_of acc (first + i) = Some (out ! i)"
    and held: "held q = map_of acc |` {next_of q..}"
    using inv by (auto simp: run_inv_def)
  have law: "ok q'" "next_of q' = next_of q" "next_of q \<le> n" "held q n = None" "held q' = (held q)(n \<mapsto> r)"
    using push_law [OF ok n p] by auto
  have "map_of acc n = None" using held law(3,4) by (simp add: restrict_map_def)
  then have fresh: "n \<notin> fst ` set acc" by (simp add: map_of_eq_None_iff)
  have "\<forall>i < length out. map_of ((n, r) # acc) (first + i) = Some (out ! i)" using out law(3) nx by auto
  moreover have "held q' = map_of ((n, r) # acc) |` {next_of q'..}"
    using law held by (auto simp: restrict_map_def fun_eq_iff)
  ultimately show ?thesis using law d ge fresh nx by (auto simp: run_inv_def)
qed

lemma run_inv_drain:
  assumes inv: "run_inv first (q, acc, out)" and dr: "drain q = (rs, q')"
  shows "run_inv first (q', acc, out @ rs) \<and> map_of acc (next_of q') = None"
proof -
  have ok: "ok q" and nx: "next_of q = first + length out"
    and out: "\<forall>i < length out. map_of acc (first + i) = Some (out ! i)"
    and held: "held q = map_of acc |` {next_of q..}"
    using inv by (auto simp: run_inv_def)
  have law: "ok q'" "next_of q' = next_of q + length rs"
    "\<forall>i < length rs. held q (next_of q + i) = Some (rs ! i)" "held q' = held q |` {next_of q'..}"
    "held q' (next_of q') = None"
    using drain_law [OF ok dr] by auto
  have "map_of acc (first + i) = Some ((out @ rs) ! i)" if i: "i < length (out @ rs)" for i
  proof (cases "i < length out")
    case True
    then show ?thesis using out by (simp add: nth_append)
  next
    case False
    then have j: "i - length out < length rs" "next_of q + (i - length out) = first + i" using i nx by auto
    with law(3) held have "map_of acc (first + i) = Some (rs ! (i - length out))"
      by (metis (no_types, lifting) atLeast_iff le_add1 restrict_in)
    then show ?thesis using False by (simp add: nth_append)
  qed
  moreover have "held q' = map_of acc |` {next_of q'..}"
    using law(2,4) held by (auto simp: restrict_map_def fun_eq_iff)
  ultimately show ?thesis using inv law nx by (auto simp: run_inv_def restrict_map_def)
qed

lemma schedule_inv:
  assumes "run_inv first s" "\<forall>n r. Push n r \<in> set ops \<longrightarrow> n + 1 < 2 ^ 64"
  shows "run_inv first (schedule push drain ops s)"
  using assms
proof (induction ops arbitrary: s)
  case Nil
  then show ?case by simp
next
  case (Cons a ops)
  obtain q acc out where s: "s = (q, acc, out)" by (rule prod_cases3)
  have small: "\<forall>n r. Push n r \<in> set ops \<longrightarrow> n + 1 < 2 ^ 64" using Cons.prems(2) by simp
  show ?case
  proof (cases a)
    case (Push n r)
    then have "n + 1 < 2 ^ 64" using Cons.prems(2) by simp
    then show ?thesis
      using Cons.IH [OF _ small] Cons.prems(1) run_inv_push [of first q acc out n r] s Push
      by (cases "push n r q") auto
  next
    case Drain
    then show ?thesis
      using Cons.IH [OF _ small] Cons.prems(1) run_inv_drain [of first q acc out] s
      by (cases "drain q") auto
  qed
qed

end

subsection \<open>\<open>OrderedCommitQueue\<close> provides the interface\<close>

definition cq_ok :: "'r commit_queue \<Rightarrow> bool" where
  "cq_ok q \<longleftrightarrow>
     1 \<le> cq_window q \<and> distinct (map fst (cq_pending q)) \<and>
     (\<forall>x \<in> set (cq_pending q). cq_next q \<le> fst x \<and> fst x \<le> cq_next q + cq_window q \<and> fst x + 1 < 2 ^ 64)"

definition cq_held :: "'r commit_queue \<Rightarrow> nat \<Rightarrow> 'r option" where
  "cq_held q = map_of (cq_pending q)"

lemma take_item_None: "take_item n items = None \<longleftrightarrow> map_of items n = None"
  by (induction n items rule: take_item.induct) (auto split: option.splits)

lemma take_item_Some:
  "take_item n items = Some (r, rest) \<Longrightarrow> distinct (map fst items) \<Longrightarrow>
     map_of items n = Some r \<and> map_of rest = (map_of items)(n := None) \<and>
     distinct (map fst rest) \<and> set rest = {x \<in> set items. fst x \<noteq> n}"
proof (induction n items arbitrary: r rest rule: take_item.induct)
  case (1 n)
  then show ?case by simp
next
  case (2 n ordinal result items)
  show ?case
  proof (cases "ordinal = n")
    case True
    then have "map_of items n = None" using 2(3) by (simp add: map_of_eq_None_iff)
    then show ?thesis using True 2 by (auto simp: fun_eq_iff)
  next
    case False
    then obtain rest' where t: "take_item n items = Some (r, rest')" "rest = (ordinal, result) # rest'"
      using 2(2) by (auto split: option.splits)
    with 2(1) [OF False t(1)] 2(3) False show ?thesis by (auto simp: fun_eq_iff)
  qed
qed

lemma cq_push_law:
  assumes ok: "cq_ok q" and n: "n + 1 < 2 ^ 64" and p: "cq_push n r q = Some q'"
  shows "cq_ok q' \<and> cq_next q' = cq_next q \<and> cq_next q \<le> n \<and> cq_held q n = None \<and> cq_held q' = (cq_held q)(n \<mapsto> r)"
proof -
  have q': "q' = q\<lparr>cq_pending := cq_pending q @ [(n, r)]\<rparr>" "cq_next q \<le> n" "n - cq_next q \<le> cq_window q"
    "n \<notin> fst ` set (cq_pending q)"
    using p by (auto simp: cq_push_def split: if_splits)
  have none: "cq_held q n = None" using q'(4) by (simp add: cq_held_def map_of_eq_None_iff)
  have "cq_held q' = (cq_held q)(n \<mapsto> r)"
    using none by (auto simp: q'(1) cq_held_def map_add_def fun_eq_iff split: option.splits)
  moreover have "cq_ok q'" using ok q' n by (auto simp: cq_ok_def)
  ultimately show ?thesis using q' none by simp
qed

lemma cq_drain_law:
  assumes "cq_ok q" "cq_drain q = (rs, q')"
  shows "cq_ok q' \<and> cq_next q' = cq_next q + length rs \<and>
      (\<forall>i < length rs. cq_held q (cq_next q + i) = Some (rs ! i)) \<and>
      cq_held q' = cq_held q |` {cq_next q'..} \<and> cq_held q' (cq_next q') = None"
  using assms
proof (induction q arbitrary: rs q' rule: cq_drain.induct)
  case (1 q)
  have ge: "map_of (cq_pending q) k = Some v \<Longrightarrow> cq_next q \<le> k" for k v
    using 1(2) by (force simp: cq_ok_def dest: map_of_SomeD)
  show ?case
  proof (cases "take_item (cq_next q) (cq_pending q)")
    case None
    then have "rs = []" "q' = q" using 1(3) by (simp_all add: cq_drain.simps)
    moreover have "cq_held q = cq_held q |` {cq_next q..}"
      using ge by (force simp: cq_held_def restrict_map_def fun_eq_iff not_le)
    ultimately show ?thesis using None 1(2) by (simp add: take_item_None cq_held_def)
  next
    case (Some x)
    then obtain r rest where t: "take_item (cq_next q) (cq_pending q) = Some (r, rest)" by (cases x) auto
    let ?q = "q\<lparr>cq_pending := rest, cq_next := (cq_next q + 1) mod 2 ^ 64\<rparr>"
    obtain rs' where d: "cq_drain ?q = (rs', q')" "rs = r # rs'"
      using 1(3) t by (subst (asm) cq_drain.simps) (auto split: prod.splits)
    have m: "map_of (cq_pending q) (cq_next q) = Some r" "map_of rest = (map_of (cq_pending q))(cq_next q := None)"
      "distinct (map fst rest)" "set rest = {x \<in> set (cq_pending q). fst x \<noteq> cq_next q}"
      using take_item_Some [OF t] 1(2) by (auto simp: cq_ok_def)
    have "cq_next q + 1 < 2 ^ 64" using m(1) 1(2) by (auto simp: cq_ok_def dest!: map_of_SomeD)
    then have nx: "cq_next ?q = cq_next q + 1" by simp
    have ok: "cq_ok ?q" using 1(2) m(3,4) nx by (auto simp: cq_ok_def)
    have ih: "cq_ok q'" "cq_next q' = cq_next q + 1 + length rs'"
      "\<forall>i < length rs'. cq_held ?q (cq_next q + 1 + i) = Some (rs' ! i)"
      "cq_held q' = cq_held ?q |` {cq_next q'..}" "cq_held q' (cq_next q') = None"
      using 1(1) [OF t refl ok d(1)] nx by auto
    have held: "cq_held ?q = (cq_held q)(cq_next q := None)" using m(2) by (simp add: cq_held_def)
    have "cq_held q (cq_next q + i) = Some (rs ! i)" if "i < length rs" for i
      using that ih(3) d(2) m(1) held by (cases i) (auto simp: cq_held_def)
    moreover have "cq_held q' = cq_held q |` {cq_next q'..}"
      using ih(2,4) held by (auto simp: restrict_map_def fun_eq_iff)
    ultimately show ?thesis using ih d(2) by simp
  qed
qed

interpretation commits: reorder_queue cq_push cq_drain cq_ok cq_next cq_held
proof unfold_locales
  fix q q' :: "'r commit_queue" and n r
  assume "cq_ok q" "n + 1 < 2 ^ 64" "cq_push n r q = Some q'"
  then show "cq_ok q' \<and> cq_next q' = cq_next q \<and> cq_next q \<le> n \<and> cq_held q n = None \<and> cq_held q' = (cq_held q)(n \<mapsto> r)"
    by (rule cq_push_law)
next
  fix q q' :: "'r commit_queue" and rs
  assume "cq_ok q" "cq_drain q = (rs, q')"
  then show "cq_ok q' \<and> cq_next q' = cq_next q + length rs \<and>
      (\<forall>i < length rs. cq_held q (cq_next q + i) = Some (rs ! i)) \<and>
      cq_held q' = cq_held q |` {cq_next q'..} \<and> cq_held q' (cq_next q') = None"
    by (rule cq_drain_law)
qed

lemma cq_new_inv: "commits.run_inv first (cq_new first window, [], [])"
  by (simp add: commits.run_inv_def cq_ok_def cq_new_def cq_held_def restrict_map_def fun_eq_iff)

lemma cq_pending_bound:
  assumes "cq_ok q"
  shows "length (cq_pending q) \<le> cq_window q + 1"
proof -
  have "fst ` set (cq_pending q) \<subseteq> {cq_next q..cq_next q + cq_window q}" using assms by (auto simp: cq_ok_def)
  then have "card (fst ` set (cq_pending q)) \<le> cq_window q + 1"
    using card_mono [OF finite_atLeastAtMost, of "fst ` set (cq_pending q)" "cq_next q" "cq_next q + cq_window q"]
    by simp
  moreover have "card (fst ` set (cq_pending q)) = length (cq_pending q)"
    using assms distinct_card [of "map fst (cq_pending q)"] by (simp add: cq_ok_def)
  ultimately show ?thesis by simp
qed

subsection \<open>Properties\<close>

text \<open>
  C5. Whatever order the producers submit in and however draining is interleaved, the
  results committed are those accepted for the ordinals from the first on, each once and in
  increasing order; the pending results are exactly the accepted ones not yet committed,
  never more than the reserved capacity; and when the accepted ordinals are
  \<open>first, ..., first + n - 1\<close>, finishing commits all \<open>n\<close> in order and the queue is complete.
\<close>

theorem commits_in_ordinal_order:
  assumes "\<forall>n r. Push n r \<in> set ops \<longrightarrow> n + 1 < 2 ^ 64"
    and "schedule cq_push cq_drain ops (cq_new first window, [], []) = (q, acc, out)"
  shows "distinct (map fst acc) \<and>
    (\<forall>i < length out. (first + i, out ! i) \<in> set acc) \<and>
    set (cq_pending q) = {x \<in> set acc. first + length out \<le> fst x} \<and>
    length (cq_pending q) \<le> cq_window q + 1 \<and>
    (fst ` set acc = {first..<first + n} \<longrightarrow>
       (case cq_finish q of (rs, q') \<Rightarrow>
          out @ rs = map (\<lambda>i. the (map_of acc (first + i))) [0..<n] \<and> cq_complete q'))"
proof -
  have inv: "commits.run_inv first (q, acc, out)"
    using commits.schedule_inv [OF cq_new_inv assms(1), of first window] assms(2) by simp
  then have ok: "cq_ok q" and nx: "cq_next q = first + length out" and d: "distinct (map fst acc)"
    and out: "\<forall>i < length out. map_of acc (first + i) = Some (out ! i)"
    and held: "map_of (cq_pending q) = map_of acc |` {cq_next q..}"
    by (auto simp: commits.run_inv_def cq_held_def)
  have "(k, r) \<in> set (cq_pending q) \<longleftrightarrow> (k, r) \<in> set acc \<and> cq_next q \<le> k" for k r
  proof -
    have "(k, r) \<in> set (cq_pending q) \<longleftrightarrow> map_of (cq_pending q) k = Some r"
      using ok by (simp add: cq_ok_def)
    also have "\<dots> \<longleftrightarrow> map_of acc k = Some r \<and> cq_next q \<le> k" by (auto simp: held restrict_map_def)
    finally show ?thesis using d by simp
  qed
  then have pending: "set (cq_pending q) = {x \<in> set acc. first + length out \<le> fst x}" using nx by auto
  have fin: "out @ rs = map (\<lambda>i. the (map_of acc (first + i))) [0..<n] \<and> cq_complete q'"
    if all: "fst ` set acc = {first..<first + n}" and f: "cq_finish q = (rs, q')" for rs q'
  proof -
    have inv': "commits.run_inv first (q', acc, out @ rs)" and stop: "map_of acc (cq_next q') = None"
      using commits.run_inv_drain [OF inv] f by (auto simp: cq_finish_def)
    have nx': "cq_next q' = first + length (out @ rs)"
      and res: "\<forall>i < length (out @ rs). map_of acc (first + i) = Some ((out @ rs) ! i)"
      and held': "map_of (cq_pending q') = map_of acc |` {cq_next q'..}"
      using inv' by (auto simp: commits.run_inv_def cq_held_def)
    have dom: "map_of acc k = None \<longleftrightarrow> k < first \<or> first + n \<le> k" for k
      using all by (simp add: map_of_eq_None_iff) auto
    have "n \<le> length (out @ rs)" using stop nx' by (simp add: dom)
    moreover have "length (out @ rs) \<le> n"
    proof (rule ccontr)
      assume "\<not> length (out @ rs) \<le> n"
      then have "map_of acc (first + n) = Some ((out @ rs) ! n)" using res by simp
      then show False using dom [of "first + n"] by simp
    qed
    ultimately have len: "length (out @ rs) = n" by simp
    have "map_of (cq_pending q') = Map.empty"
      using held' nx' len dom by (auto simp: restrict_map_def fun_eq_iff)
    then have "cq_complete q'" by (simp add: cq_complete_def)
    moreover have "out @ rs = map (\<lambda>i. the (map_of acc (first + i))) [0..<n]"
      using len res by (intro nth_equalityI) auto
    ultimately show ?thesis by simp
  qed
  have accepted: "\<forall>i < length out. (first + i, out ! i) \<in> set acc"
    using out d by (metis map_of_eq_Some_iff)
  show ?thesis
    using d accepted pending cq_pending_bound [OF ok] fin by (cases "cq_finish q") blast
qed

theorem commits_in_ordinal_order_witness:
  "fst (cq_finish (fst (schedule cq_push cq_drain [Push 2 ''c'', Push 0 ''a'', Drain, Push 1 ''b''] (cq_new 0 2, [], []))))
     = [''b'', ''c'']"
proof -
  let ?ops = "[Push 2 ''c'', Push 0 ''a'', Drain, Push 1 ''b'']"
  obtain q acc out where s: "schedule cq_push cq_drain ?ops (cq_new 0 2, [], []) = (q, acc, out)"
    by (rule prod_cases3)
  have out: "acc = [(1, ''b''), (0, ''a''), (2, ''c'')] \<and> out = [''a'']"
    using s by (simp add: cq_push_def cq_new_def cq_drain.simps)
  obtain rs q' where f: "cq_finish q = (rs, q')" by (cases "cq_finish q")
  have "fst ` set acc = {0..<0 + 3}" using out by (auto simp: numeral_3_eq_3 less_Suc_eq)
  then have "out @ rs = map (\<lambda>i. the (map_of acc (0 + i))) [0..<3]"
    using commits_in_ordinal_order [of ?ops 0 2 q acc out 3] s f by auto
  then show ?thesis using s f out by (simp add: numeral_3_eq_3)
qed

text \<open>
  Bucketing permutes the jobs into increasing key order, keeps jobs of equal key
  contiguous and orders them by ordinal, so that a bucket is processed in raster order.
\<close>

theorem bucket_group_jobs_ordered:
  "mset (bucket_group_jobs jobs) = mset jobs \<and>
   sorted (map gj_key (bucket_group_jobs jobs)) \<and>
   (\<forall>key. filter (\<lambda>j. gj_key j = key) (bucket_group_jobs jobs) =
      sort_key gj_ordinal (filter (\<lambda>j. gj_key j = key) jobs))"
proof (intro conjI allI)
  show "mset (bucket_group_jobs jobs) = mset jobs" by (simp add: bucket_group_jobs_def)
  have "sorted (map (\<lambda>j. (gj_key j, gj_ordinal j)) (bucket_group_jobs jobs))"
    by (simp add: bucket_group_jobs_sort_key)
  then have "sorted (map fst (map (\<lambda>j. (gj_key j, gj_ordinal j)) (bucket_group_jobs jobs)))"
    by (rule sorted_map_fst)
  then show "sorted (map gj_key (bucket_group_jobs jobs))" by (simp add: comp_def)
next
  fix key :: group_key
  have "sort_key (\<lambda>j. (key, gj_ordinal j)) js = sort_key gj_ordinal js" for js :: "group_job list"
    by (rule sort_key_cong_le) auto
  moreover have "sort_key (\<lambda>j. (gj_key j, gj_ordinal j)) (filter (\<lambda>j. gj_key j = key) jobs) =
      sort_key (\<lambda>j. (key, gj_ordinal j)) (filter (\<lambda>j. gj_key j = key) jobs)"
    by (rule sort_key_cong_le) auto
  ultimately show "filter (\<lambda>j. gj_key j = key) (bucket_group_jobs jobs) =
      sort_key gj_ordinal (filter (\<lambda>j. gj_key j = key) jobs)"
    by (simp add: bucket_group_jobs_sort_key filter_sort)
qed

end
