(* ===== verification/Chunk_Cache.thy ===== *)
theory Chunk_Cache
  imports Prelude
begin

text \<open>
  The cache of finished rolling chunks (src/gpuhost/chunk_cache.hpp): \<open>ChunkCache\<close> as an
  explicit state with one definition per critical section, a step relation in which any
  number of request threads run them, and the planning order \<open>PlanOrder\<close>. A chunk is
  identified by its first frame.
\<close>

subsection \<open>State\<close>

record cc_entry =
  ce_start :: int
  ce_readers :: int

record chunk_cache =
  cc_size :: int
  cc_cap :: int
  cc_dropped :: "int list"
  cc_dropped_hits :: int
  cc_entries :: "cc_entry list"
  cc_computing :: "int set"

definition cc_new :: chunk_cache where
  "cc_new = \<lparr>cc_size = 1, cc_cap = 1, cc_dropped = [], cc_dropped_hits = 0, cc_entries = [], cc_computing = {}\<rparr>"

definition cc_configure :: "int \<Rightarrow> int \<Rightarrow> chunk_cache \<Rightarrow> chunk_cache" where
  "cc_configure size' cap c = c\<lparr>cc_size := size', cc_cap := cap\<rparr>"

subsection \<open>The critical sections of \<open>get\<close>\<close>

text \<open>A hit: the first entry with the start, spliced to the front with one more reader.\<close>

fun cc_find :: "int \<Rightarrow> cc_entry list \<Rightarrow> (cc_entry \<times> cc_entry list) option" where
  "cc_find start [] = None"
| "cc_find start (e # es) =
     (if ce_start e = start then Some (e, es)
      else case cc_find start es of None \<Rightarrow> None | Some (e', rest) \<Rightarrow> Some (e', e # rest))"

definition cc_hit :: "int \<Rightarrow> chunk_cache \<Rightarrow> chunk_cache option" where
  "cc_hit start c =
     (case cc_find start (cc_entries c) of
        None \<Rightarrow> None
      | Some (e, rest) \<Rightarrow> Some (c\<lparr>cc_entries := e\<lparr>ce_readers := ce_readers e + 1\<rparr> # rest\<rparr>))"

text \<open>A miss on a recently dropped chunk: after two of them the cache keeps one more.\<close>

definition cc_note_miss :: "int \<Rightarrow> chunk_cache \<Rightarrow> chunk_cache" where
  "cc_note_miss start c =
     (if cc_size c < cc_cap c \<and> start \<in> set (cc_dropped c)
      then let c1 = c\<lparr>cc_dropped := remove1 start (cc_dropped c), cc_dropped_hits := cc_dropped_hits c + 1\<rparr>
           in if 2 \<le> cc_dropped_hits c1 then c1\<lparr>cc_dropped_hits := 0, cc_size := cc_size c + 1\<rparr> else c1
      else c)"

definition cc_begin_compute :: "int \<Rightarrow> chunk_cache \<Rightarrow> chunk_cache" where
  "cc_begin_compute start c = (cc_note_miss start c)\<lparr>cc_computing := insert start (cc_computing c)\<rparr>"

definition cc_compute_failed :: "int \<Rightarrow> chunk_cache \<Rightarrow> chunk_cache" where
  "cc_compute_failed start c = c\<lparr>cc_computing := cc_computing c - {start}\<rparr>"

definition cc_insert :: "int \<Rightarrow> chunk_cache \<Rightarrow> chunk_cache" where
  "cc_insert start c =
     c\<lparr>cc_computing := cc_computing c - {start},
       cc_entries := \<lparr>ce_start = start, ce_readers = 0\<rparr> # cc_entries c\<rparr>"

text \<open>The victim: the last entry after the front without a reader.\<close>

definition cc_victim :: "cc_entry list \<Rightarrow> nat option" where
  "cc_victim es = find (\<lambda>i. ce_readers (es ! i) = 0) (rev [1..<length es])"

lemma cc_victim_Some: "cc_victim es = Some i \<Longrightarrow> 1 \<le> i \<and> i < length es \<and> ce_readers (es ! i) = 0"
proof -
  assume "cc_victim es = Some i"
  then obtain k where "k < length (rev [1..<length es])" "ce_readers (es ! (rev [1..<length es] ! k)) = 0"
    "i = rev [1..<length es] ! k"
    unfolding cc_victim_def find_Some_iff by blast
  moreover then have "i \<in> set (rev [1..<length es])" using nth_mem by blast
  ultimately show ?thesis by auto
qed

lemma cc_victim_None: "cc_victim es = None \<longleftrightarrow> (\<forall>i. 1 \<le> i \<and> i < length es \<longrightarrow> ce_readers (es ! i) \<noteq> 0)"
  by (auto simp: cc_victim_def find_None_iff)

text \<open>
  The loop over size: true when the cache fits, false when it has to wait because every
  entry after the front is being read.
\<close>

function cc_shrink :: "chunk_cache \<Rightarrow> bool \<times> chunk_cache" where
  "cc_shrink c =
     (if int (length (cc_entries c)) > cc_size c
      then (case cc_victim (cc_entries c) of
              None \<Rightarrow> (False, c)
            | Some i \<Rightarrow>
                cc_shrink (c\<lparr>cc_dropped := cc_dropped c @ [ce_start (cc_entries c ! i)],
                            cc_entries := take i (cc_entries c) @ drop (Suc i) (cc_entries c)\<rparr>))
      else (True, c))"
  by pat_completeness auto
termination
  by (relation "measure (\<lambda>c. length (cc_entries c))") (auto dest!: cc_victim_Some)

declare cc_shrink.simps [simp del]

definition cc_drop_limit :: "chunk_cache \<Rightarrow> nat" where
  "cc_drop_limit c = nat (max 8 (2 * cc_cap c))"

text \<open>\<open>while (dropped_.size() > limit) dropped_.pop_front()\<close>.\<close>

definition cc_trim :: "chunk_cache \<Rightarrow> chunk_cache" where
  "cc_trim c = c\<lparr>cc_dropped := drop (length (cc_dropped c) - cc_drop_limit c) (cc_dropped c)\<rparr>"

definition cc_settle :: "chunk_cache \<Rightarrow> bool \<times> chunk_cache" where
  "cc_settle c = (case cc_shrink c of (ok, c') \<Rightarrow> if ok then (True, cc_trim c') else (False, c'))"

text \<open>\<open>release\<close>: the entry of a hit, which the cache has not dropped, has one reader less.\<close>

definition cc_release :: "int \<Rightarrow> chunk_cache \<Rightarrow> chunk_cache" where
  "cc_release start c =
     c\<lparr>cc_entries := map (\<lambda>e. if ce_start e = start then e\<lparr>ce_readers := ce_readers e - 1\<rparr> else e) (cc_entries c)\<rparr>"

definition cc_clear :: "chunk_cache \<Rightarrow> chunk_cache" where
  "cc_clear c = c\<lparr>cc_entries := []\<rparr>"

subsection \<open>Threads\<close>

text \<open>
  What a request thread does: nothing, wants a chunk (possibly waiting for the thread that
  computes it), computes it, waits in the loop over size, reads a hit, or holds the store
  it computed.
\<close>

datatype cc_pc = Idle | Want int | Computing int | Shrinking int | Reading int | Owning int

type_synonym cc_state = "chunk_cache \<times> (nat \<Rightarrow> cc_pc)"

inductive cc_step :: "cc_state \<Rightarrow> cc_state \<Rightarrow> bool" where
  request: "pc t = Idle \<Longrightarrow> cc_step (c, pc) (c, pc(t := Want s))"
| hit: "pc t = Want s \<Longrightarrow> cc_hit s c = Some c' \<Longrightarrow> cc_step (c, pc) (c', pc(t := Reading s))"
| miss: "pc t = Want s \<Longrightarrow> cc_hit s c = None \<Longrightarrow> s \<notin> cc_computing c \<Longrightarrow>
    cc_step (c, pc) (cc_begin_compute s c, pc(t := Computing s))"
| failed: "pc t = Computing s \<Longrightarrow> cc_step (c, pc) (cc_compute_failed s c, pc(t := Idle))"
| computed: "pc t = Computing s \<Longrightarrow> cc_settle (cc_insert s c) = (ok, c') \<Longrightarrow>
    cc_step (c, pc) (c', pc(t := (if ok then Owning s else Shrinking s)))"
| resume: "pc t = Shrinking s \<Longrightarrow> cc_settle c = (ok, c') \<Longrightarrow>
    cc_step (c, pc) (c', pc(t := (if ok then Owning s else Shrinking s)))"
| release: "pc t = Reading s \<Longrightarrow> cc_step (c, pc) (cc_release s c, pc(t := Idle))"
| forget: "pc t = Owning s \<Longrightarrow> cc_step (c, pc) (c, pc(t := Idle))"
| clear: "\<forall>t. pc t = Idle \<Longrightarrow> cc_step (c, pc) (cc_clear c, pc)"

inductive_cases cc_stepE: "cc_step (c, pc) s'"

inductive cc_reachable :: "int \<Rightarrow> int \<Rightarrow> cc_state \<Rightarrow> bool" for size' cap where
  start: "cc_reachable size' cap (cc_configure size' cap cc_new, \<lambda>t. Idle)"
| step: "cc_reachable size' cap s \<Longrightarrow> cc_step s s' \<Longrightarrow> cc_reachable size' cap s'"

subsection \<open>The invariant\<close>

definition shrinkers :: "(nat \<Rightarrow> cc_pc) \<Rightarrow> nat" where
  "shrinkers pc = card {t. \<exists>s. pc t = Shrinking s}"

definition entries_inv :: "chunk_cache \<Rightarrow> (nat \<Rightarrow> cc_pc) \<Rightarrow> bool" where
  "entries_inv c pc \<longleftrightarrow>
     distinct (map ce_start (cc_entries c)) \<and>
     (\<forall>e \<in> set (cc_entries c). ce_readers e = int (card {t. pc t = Reading (ce_start e)})) \<and>
     (\<forall>t s. pc t = Reading s \<longrightarrow> s \<in> ce_start ` set (cc_entries c))"

definition computing_inv :: "chunk_cache \<Rightarrow> (nat \<Rightarrow> cc_pc) \<Rightarrow> bool" where
  "computing_inv c pc \<longleftrightarrow>
     (\<forall>s. s \<in> cc_computing c \<longleftrightarrow> (\<exists>t. pc t = Computing s)) \<and>
     (\<forall>t t' s. pc t = Computing s \<and> pc t' = Computing s \<longrightarrow> t = t') \<and>
     cc_computing c \<inter> ce_start ` set (cc_entries c) = {}"

definition size_inv :: "int \<Rightarrow> int \<Rightarrow> chunk_cache \<Rightarrow> (nat \<Rightarrow> cc_pc) \<Rightarrow> bool" where
  "size_inv size' cap c pc \<longleftrightarrow>
     cc_cap c = cap \<and> size' \<le> cc_size c \<and> cc_size c \<le> max size' cap \<and>
     int (length (cc_entries c)) \<le> cc_size c + int (shrinkers pc) \<and>
     (length (cc_dropped c) \<le> cc_drop_limit c \<or> 0 < shrinkers pc)"

definition cc_inv :: "int \<Rightarrow> int \<Rightarrow> cc_state \<Rightarrow> bool" where
  "cc_inv size' cap s =
     (case s of (c, pc) \<Rightarrow> finite {t. pc t \<noteq> Idle} \<and> entries_inv c pc \<and> computing_inv c pc \<and> size_inv size' cap c pc)"

text \<open>One thread moves: the number of threads in a class of states.\<close>

lemma card_move:
  assumes "finite {t. pc t \<noteq> Idle}" "\<not> P Idle"
  shows "int (card {u. P ((pc(t := x)) u)}) = int (card {u. P (pc u)}) + of_bool (P x) - of_bool (P (pc t))"
proof -
  have fin: "finite {u. P (pc u)}"
    by (rule finite_subset [OF _ assms(1)]) (use assms(2) in auto)
  define A where "A = {u. P (pc u)}"
  have eq: "{u. P ((pc(t := x)) u)} = (if P x then insert t (A - {t}) else A - {t})"
    by (auto simp: A_def)
  have t: "t \<in> A \<longleftrightarrow> P (pc t)" by (simp add: A_def)
  show ?thesis
  proof (cases "P (pc t)")
    case True
    then have "0 < card A" using fin t by (auto simp: card_gt_0_iff A_def [symmetric])
    moreover have "card (A - {t}) = card A - 1" using True t by (simp add: card_Diff_singleton)
    moreover have "card (insert t (A - {t})) = card A" using True t by (simp add: insert_absorb)
    ultimately show ?thesis using True unfolding eq A_def [symmetric] by auto
  next
    case False
    then have "A - {t} = A" using t by auto
    moreover have "card (insert t A) = Suc (card A)" using False t fin by (simp add: A_def)
    ultimately show ?thesis using False unfolding eq A_def [symmetric] by auto
  qed
qed

lemma finite_move: "finite {t. pc t \<noteq> Idle} \<Longrightarrow> finite {u. (pc(t := x)) u \<noteq> Idle}"
  by (rule finite_subset [of _ "insert t {t. pc t \<noteq> Idle}"]) auto

lemma readers_move:
  "finite {t. pc t \<noteq> Idle} \<Longrightarrow>
     int (card {u. (pc(t := x)) u = Reading s}) =
     int (card {u. pc u = Reading s}) + of_bool (x = Reading s) - of_bool (pc t = Reading s)"
  by (rule card_move [where P = "\<lambda>p. p = Reading s"]) simp_all

lemma shrinkers_move:
  "finite {t. pc t \<noteq> Idle} \<Longrightarrow>
     int (shrinkers (pc(t := x))) =
     int (shrinkers pc) + of_bool (\<exists>s. x = Shrinking s) - of_bool (\<exists>s. pc t = Shrinking s)"
  unfolding shrinkers_def by (rule card_move [where P = "\<lambda>p. \<exists>s. p = Shrinking s"]) simp_all

lemma shrinkers_pos: "finite {t. pc t \<noteq> Idle} \<Longrightarrow> pc t = Shrinking s \<Longrightarrow> 0 < shrinkers pc"
  unfolding shrinkers_def by (auto simp: card_gt_0_iff intro: finite_subset [of _ "{t. pc t \<noteq> Idle}"])

subsection \<open>The critical sections\<close>

lemma cc_find_Some:
  "cc_find start es = Some (e, rest) \<Longrightarrow> ce_start e = start \<and> mset es = add_mset e (mset rest)"
  by (induction start es arbitrary: e rest rule: cc_find.induct) (auto split: if_splits option.splits)

lemma cc_find_None: "cc_find start es = None \<longleftrightarrow> start \<notin> ce_start ` set es"
  by (induction start es rule: cc_find.induct) (auto split: option.splits)

lemma distinct_without:
  "distinct (map f xs) \<Longrightarrow> i < length xs \<Longrightarrow>
     distinct (map f (take i xs @ drop (Suc i) xs)) \<and>
     set (take i xs @ drop (Suc i) xs) = {x \<in> set xs. f x \<noteq> f (xs ! i)}"
proof -
  assume d: "distinct (map f xs)" and i: "i < length xs"
  have xs: "xs = take i xs @ xs ! i # drop (Suc i) xs" by (rule id_take_nth_drop [OF i])
  from d have "distinct (map f (take i xs @ xs ! i # drop (Suc i) xs))" by (simp only: xs [symmetric])
  then have D: "distinct (map f (take i xs @ drop (Suc i) xs))"
    and N: "f (xs ! i) \<notin> f ` set (take i xs @ drop (Suc i) xs)" by auto
  have "set xs = insert (xs ! i) (set (take i xs @ drop (Suc i) xs))"
    by (subst xs) auto
  moreover have "\<forall>x \<in> set (take i xs @ drop (Suc i) xs). f x \<noteq> f (xs ! i)" using N by (metis imageI)
  ultimately show ?thesis using D by auto
qed

lemma cc_shrink_spec:
  assumes "cc_shrink c = (ok, c')" "distinct (map ce_start (cc_entries c))"
  shows "distinct (map ce_start (cc_entries c')) \<and> set (cc_entries c') \<subseteq> set (cc_entries c) \<and>
    (\<forall>e \<in> set (cc_entries c). ce_readers e \<noteq> 0 \<longrightarrow> e \<in> set (cc_entries c')) \<and>
    length (cc_entries c') \<le> length (cc_entries c) \<and>
    cc_size c' = cc_size c \<and> cc_cap c' = cc_cap c \<and> cc_computing c' = cc_computing c \<and>
    (if ok then int (length (cc_entries c')) \<le> cc_size c
     else cc_size c < int (length (cc_entries c')) \<and>
       (\<forall>i. 1 \<le> i \<and> i < length (cc_entries c') \<longrightarrow> ce_readers (cc_entries c' ! i) \<noteq> 0))"
  using assms
proof (induction c arbitrary: ok c' rule: cc_shrink.induct)
  case (1 c)
  show ?case
  proof (cases "int (length (cc_entries c)) > cc_size c")
    case over: True
    show ?thesis
    proof (cases "cc_victim (cc_entries c)")
      case None
      then have "ok = False" "c' = c" using 1(2) over by (simp_all add: cc_shrink.simps [of c])
      then show ?thesis using None over 1(3) by (simp add: cc_victim_None)
    next
      case (Some i)
      let ?c = "c\<lparr>cc_dropped := cc_dropped c @ [ce_start (cc_entries c ! i)],
                  cc_entries := take i (cc_entries c) @ drop (Suc i) (cc_entries c)\<rparr>"
      have i: "i < length (cc_entries c)" "ce_readers (cc_entries c ! i) = 0"
        using cc_victim_Some [OF Some] by simp_all
      have sh: "cc_shrink ?c = (ok, c')" using 1(2) over Some by (simp add: cc_shrink.simps [of c])
      have d: "distinct (map ce_start (cc_entries ?c))"
        and st: "set (cc_entries ?c) = {x \<in> set (cc_entries c). ce_start x \<noteq> ce_start (cc_entries c ! i)}"
        using distinct_without [OF 1(3) i(1)] by simp_all
      have keep: "e \<in> set (cc_entries ?c)" if "e \<in> set (cc_entries c)" "ce_readers e \<noteq> 0" for e
      proof -
        have "e \<noteq> cc_entries c ! i" using that i by auto
        then have "ce_start e \<noteq> ce_start (cc_entries c ! i)"
          using 1(3) that(1) i(1) by (auto simp: distinct_map dest: inj_onD)
        then show ?thesis using st that(1) by simp
      qed
      have len: "length (cc_entries ?c) \<le> length (cc_entries c)" using i(1) by simp
      note ih = 1(1) [OF over Some sh d]
      have "set (cc_entries c') \<subseteq> set (cc_entries c)" using ih st by blast
      moreover have "\<forall>e \<in> set (cc_entries c). ce_readers e \<noteq> 0 \<longrightarrow> e \<in> set (cc_entries c')" using ih keep by blast
      moreover have "length (cc_entries c') \<le> length (cc_entries c)" using ih len by linarith
      ultimately show ?thesis using ih by (cases ok) simp_all
    qed
  next
    case False
    then have "ok = True" "c' = c" using 1(2) by (simp_all add: cc_shrink.simps [of c])
    then show ?thesis using False 1(3) by simp
  qed
qed

lemma cc_settle_spec:
  assumes "cc_settle c = (ok, c')" "distinct (map ce_start (cc_entries c))"
  shows "distinct (map ce_start (cc_entries c')) \<and> set (cc_entries c') \<subseteq> set (cc_entries c) \<and>
    (\<forall>e \<in> set (cc_entries c). ce_readers e \<noteq> 0 \<longrightarrow> e \<in> set (cc_entries c')) \<and>
    length (cc_entries c') \<le> length (cc_entries c) \<and>
    cc_size c' = cc_size c \<and> cc_cap c' = cc_cap c \<and> cc_computing c' = cc_computing c \<and>
    (ok \<longrightarrow> int (length (cc_entries c')) \<le> cc_size c \<and> length (cc_dropped c') \<le> cc_drop_limit c') \<and>
    (\<not> ok \<longrightarrow> cc_size c < int (length (cc_entries c')) \<and>
       (\<forall>i. 1 \<le> i \<and> i < length (cc_entries c') \<longrightarrow> ce_readers (cc_entries c' ! i) \<noteq> 0))"
proof -
  obtain ok1 c1 where sh: "cc_shrink c = (ok1, c1)" by (cases "cc_shrink c")
  then have "ok = ok1" "c' = (if ok1 then cc_trim c1 else c1)"
    using assms(1) by (auto simp: cc_settle_def split: if_splits)
  then show ?thesis using cc_shrink_spec [OF sh assms(2)] by (cases ok1) (simp_all add: cc_trim_def cc_drop_limit_def)
qed

lemma cc_hit_Some:
  assumes "cc_hit s c = Some c'" "distinct (map ce_start (cc_entries c))"
  obtains e rest where "ce_start e = s" "distinct (map ce_start (e # rest))" "mset (cc_entries c) = add_mset e (mset rest)"
    "c' = c\<lparr>cc_entries := e\<lparr>ce_readers := ce_readers e + 1\<rparr> # rest\<rparr>"
proof -
  obtain e rest where f: "cc_find s (cc_entries c) = Some (e, rest)"
    and c': "c' = c\<lparr>cc_entries := e\<lparr>ce_readers := ce_readers e + 1\<rparr> # rest\<rparr>"
    using assms(1) by (auto simp: cc_hit_def split: option.splits)
  have m: "ce_start e = s" "mset (cc_entries c) = add_mset e (mset rest)" using cc_find_Some [OF f] by simp_all
  then have "mset (map ce_start (cc_entries c)) = mset (map ce_start (e # rest))" by simp
  then have "distinct (map ce_start (e # rest))" using assms(2) mset_eq_imp_distinct_iff by blast
  then show thesis using that m c' by blast
qed

lemma cc_hit_None: "cc_hit s c = None \<longleftrightarrow> s \<notin> ce_start ` set (cc_entries c)"
  by (auto simp: cc_hit_def cc_find_None [symmetric] split: option.splits)

lemma note_miss_spec:
  "cc_entries (cc_note_miss s c) = cc_entries c \<and> cc_cap (cc_note_miss s c) = cc_cap c \<and>
   cc_size c \<le> cc_size (cc_note_miss s c) \<and> cc_size (cc_note_miss s c) \<le> max (cc_size c) (cc_cap c) \<and>
   length (cc_dropped (cc_note_miss s c)) \<le> length (cc_dropped c)"
  by (auto simp: cc_note_miss_def Let_def length_remove1)

text \<open>Moves that the parts of the invariant do not see.\<close>

lemma entries_inv_same:
  assumes "\<And>u k. pc' u = Reading k \<longleftrightarrow> pc u = Reading k" "cc_entries c' = cc_entries c"
  shows "entries_inv c' pc' \<longleftrightarrow> entries_inv c pc"
  by (simp add: entries_inv_def assms)

lemma computing_inv_same:
  assumes "\<And>u k. pc' u = Computing k \<longleftrightarrow> pc u = Computing k"
    and "ce_start ` set (cc_entries c') = ce_start ` set (cc_entries c)" "cc_computing c' = cc_computing c"
  shows "computing_inv c' pc' \<longleftrightarrow> computing_inv c pc"
  by (simp add: computing_inv_def assms)

lemma entries_inv_move:
  assumes "\<And>k. x \<noteq> Reading k" "\<And>k. pc t \<noteq> Reading k" "cc_entries c' = cc_entries c"
  shows "entries_inv c' (pc(t := x)) \<longleftrightarrow> entries_inv c pc"
  by (rule entries_inv_same) (use assms in auto)

lemma computing_inv_move:
  assumes "\<And>k. x \<noteq> Computing k" "\<And>k. pc t \<noteq> Computing k"
    and "ce_start ` set (cc_entries c') = ce_start ` set (cc_entries c)" "cc_computing c' = cc_computing c"
  shows "computing_inv c' (pc(t := x)) \<longleftrightarrow> computing_inv c pc"
  by (rule computing_inv_same) (use assms in auto)

lemma inv_hit:
  assumes inv: "cc_inv size' cap (c, pc)" and pc: "pc t = Want s" and h: "cc_hit s c = Some c'"
  shows "cc_inv size' cap (c', pc(t := Reading s))"
proof -
  have fin: "finite {t. pc t \<noteq> Idle}" and e: "entries_inv c pc" and k: "computing_inv c pc" and z: "size_inv size' cap c pc"
    using inv by (auto simp: cc_inv_def)
  have d: "distinct (map ce_start (cc_entries c))" using e by (simp add: entries_inv_def)
  obtain e0 rest where r: "ce_start e0 = s" "distinct (map ce_start (e0 # rest))" "mset (cc_entries c) = add_mset e0 (mset rest)"
    "c' = c\<lparr>cc_entries := e0\<lparr>ce_readers := ce_readers e0 + 1\<rparr> # rest\<rparr>"
    by (rule cc_hit_Some [OF h d])
  have st: "set (cc_entries c) = insert e0 (set rest)" using r(3) by (metis set_mset_add_mset_insert set_mset_mset)
  have len: "length (cc_entries c) = Suc (length rest)" using r(3) by (metis size_add_mset size_mset)
  have rd: "int (card {u. (pc(t := Reading s)) u = Reading k}) = int (card {u. pc u = Reading k}) + of_bool (s = k)" for k
    using readers_move [OF fin, of t "Reading s" k] pc by simp
  have "entries_inv c' (pc(t := Reading s))"
    unfolding entries_inv_def
  proof (intro conjI ballI allI impI)
    show "distinct (map ce_start (cc_entries c'))" using r(2,4) by simp
  next
    fix x assume "x \<in> set (cc_entries c')"
    then consider "x = e0\<lparr>ce_readers := ce_readers e0 + 1\<rparr>" | "x \<in> set rest" using r(4) by auto
    then show "ce_readers x = int (card {u. (pc(t := Reading s)) u = Reading (ce_start x)})"
    proof cases
      case 1
      then show ?thesis using e st r(1) unfolding rd by (auto simp: entries_inv_def)
    next
      case 2
      then have "ce_start x \<noteq> s" using r(1,2) by (metis distinct.simps(2) image_eqI list.simps(9) set_map)
      then show ?thesis using 2 e st unfolding rd by (auto simp: entries_inv_def)
    qed
  next
    fix u k assume "(pc(t := Reading s)) u = Reading k"
    then have "k = s \<or> k \<in> ce_start ` set (cc_entries c)" using e by (auto simp: entries_inv_def split: if_splits)
    then show "k \<in> ce_start ` set (cc_entries c')" using r st by auto
  qed
  moreover have "computing_inv c' (pc(t := Reading s))"
    using k computing_inv_move [of "Reading s" pc t c' c] st r pc by simp
  moreover have "size_inv size' cap c' (pc(t := Reading s))"
    using z r(4) len pc shrinkers_move [OF fin, of t "Reading s"] by (auto simp: size_inv_def cc_drop_limit_def)
  ultimately show ?thesis using finite_move [OF fin] by (simp add: cc_inv_def)
qed

definition quiet :: "cc_pc \<Rightarrow> bool" where
  "quiet p \<longleftrightarrow> p = Idle \<or> (\<exists>s. p = Want s) \<or> (\<exists>s. p = Owning s)"

lemma quiet_simps [simp]:
  "quiet Idle" "quiet (Want s)" "quiet (Owning s)" "\<not> quiet (Reading s)" "\<not> quiet (Computing s)" "\<not> quiet (Shrinking s)"
  by (simp_all add: quiet_def)

lemma quiet_ne:
  "quiet p \<Longrightarrow> p \<noteq> Reading k" "quiet p \<Longrightarrow> p \<noteq> Computing k" "quiet p \<Longrightarrow> p \<noteq> Shrinking k"
  by auto

lemma inv_neutral:
  assumes inv: "cc_inv size' cap (c, pc)" and old: "quiet (pc t)" and new: "quiet x"
  shows "cc_inv size' cap (c, pc(t := x))"
proof -
  have fin: "finite {t. pc t \<noteq> Idle}" and e: "entries_inv c pc" and k: "computing_inv c pc" and z: "size_inv size' cap c pc"
    using inv by (auto simp: cc_inv_def)
  have "entries_inv c (pc(t := x))"
    using e entries_inv_move [of x pc t c c] quiet_ne(1) [OF new] quiet_ne(1) [OF old] by simp
  moreover have "computing_inv c (pc(t := x))"
    using k computing_inv_move [of x pc t c c] quiet_ne(2) [OF new] quiet_ne(2) [OF old] by simp
  moreover have "shrinkers (pc(t := x)) = shrinkers pc"
    using shrinkers_move [OF fin, of t x] quiet_ne(3) [OF new] quiet_ne(3) [OF old] by simp
  then have "size_inv size' cap c (pc(t := x))" using z by (simp add: size_inv_def)
  ultimately show ?thesis using finite_move [OF fin] by (simp add: cc_inv_def)
qed

lemma inv_miss:
  assumes inv: "cc_inv size' cap (c, pc)" and pc: "pc t = Want s"
    and no: "s \<notin> ce_start ` set (cc_entries c)" "s \<notin> cc_computing c"
  shows "cc_inv size' cap (cc_begin_compute s c, pc(t := Computing s))"
proof -
  have fin: "finite {t. pc t \<noteq> Idle}" and e: "entries_inv c pc" and k: "computing_inv c pc" and z: "size_inv size' cap c pc"
    using inv by (auto simp: cc_inv_def)
  have n: "cc_entries (cc_begin_compute s c) = cc_entries c" "cc_cap (cc_begin_compute s c) = cc_cap c"
    "cc_size c \<le> cc_size (cc_begin_compute s c)" "cc_size (cc_begin_compute s c) \<le> max (cc_size c) (cc_cap c)"
    "length (cc_dropped (cc_begin_compute s c)) \<le> length (cc_dropped c)"
    "cc_computing (cc_begin_compute s c) = insert s (cc_computing c)"
    using note_miss_spec [of s c] by (simp_all add: cc_begin_compute_def)
  have e': "entries_inv (cc_begin_compute s c) (pc(t := Computing s))"
    using e entries_inv_move [of "Computing s" pc t "cc_begin_compute s c" c] pc n(1) by simp
  have iff: "(pc(t := Computing s)) u = Computing k \<longleftrightarrow> pc u = Computing k \<or> u = t \<and> k = s" for u k
    using pc by auto
  have none: "pc u \<noteq> Computing s" for u using k no(2) by (auto simp: computing_inv_def)
  have k': "computing_inv (cc_begin_compute s c) (pc(t := Computing s))"
    unfolding computing_inv_def iff n(1,6)
  proof (intro conjI allI impI)
    show "s' \<in> insert s (cc_computing c) \<longleftrightarrow> (\<exists>u. pc u = Computing s' \<or> u = t \<and> s' = s)" for s'
      using k by (auto simp: computing_inv_def)
    show "t1 = t2" if "(pc t1 = Computing s' \<or> t1 = t \<and> s' = s) \<and> (pc t2 = Computing s' \<or> t2 = t \<and> s' = s)" for t1 t2 s'
      using that k none by (auto simp: computing_inv_def)
    show "insert s (cc_computing c) \<inter> ce_start ` set (cc_entries c) = {}"
      using k no(1) by (auto simp: computing_inv_def)
  qed
  have "shrinkers (pc(t := Computing s)) = shrinkers pc"
    using shrinkers_move [OF fin, of t "Computing s"] pc by simp
  then have "size_inv size' cap (cc_begin_compute s c) (pc(t := Computing s))"
    using z n by (auto simp: size_inv_def cc_drop_limit_def)
  then show ?thesis using finite_move [OF fin] e' k' by (simp add: cc_inv_def)
qed

lemma inv_failed:
  assumes inv: "cc_inv size' cap (c, pc)" and pc: "pc t = Computing s"
  shows "cc_inv size' cap (cc_compute_failed s c, pc(t := Idle))"
proof -
  have fin: "finite {t. pc t \<noteq> Idle}" and e: "entries_inv c pc" and k: "computing_inv c pc" and z: "size_inv size' cap c pc"
    using inv by (auto simp: cc_inv_def)
  have e': "entries_inv (cc_compute_failed s c) (pc(t := Idle))"
    using e entries_inv_move [of Idle pc t "cc_compute_failed s c" c] pc by (simp add: cc_compute_failed_def)
  have iff: "(pc(t := Idle)) u = Computing k \<longleftrightarrow> pc u = Computing k \<and> k \<noteq> s" for u k
    using pc k by (auto simp: computing_inv_def)
  have k': "computing_inv (cc_compute_failed s c) (pc(t := Idle))"
    using k unfolding computing_inv_def iff by (auto simp: cc_compute_failed_def)
  have "shrinkers (pc(t := Idle)) = shrinkers pc"
    using shrinkers_move [OF fin, of t Idle] pc by simp
  then have "size_inv size' cap (cc_compute_failed s c) (pc(t := Idle))"
    using z by (auto simp: size_inv_def cc_compute_failed_def cc_drop_limit_def)
  then show ?thesis using finite_move [OF fin] e' k' by (simp add: cc_inv_def)
qed

lemma inv_insert:
  assumes inv: "cc_inv size' cap (c, pc)" and pc: "pc t = Computing s"
  shows "cc_inv size' cap (cc_insert s c, pc(t := Shrinking s))"
proof -
  have fin: "finite {t. pc t \<noteq> Idle}" and e: "entries_inv c pc" and k: "computing_inv c pc" and z: "size_inv size' cap c pc"
    using inv by (auto simp: cc_inv_def)
  have "s \<in> cc_computing c" using k pc unfolding computing_inv_def by blast
  then have fresh: "s \<notin> ce_start ` set (cc_entries c)" using k unfolding computing_inv_def by blast
  then have "{u. pc u = Reading s} = {}" using e by (auto simp: entries_inv_def)
  moreover have "entries_inv c (pc(t := Shrinking s))"
    using e entries_inv_move [of "Shrinking s" pc t c c] pc by simp
  moreover have "{u. (pc(t := Shrinking s)) u = Reading s} = {u. pc u = Reading s}" using pc by auto
  ultimately have e': "entries_inv (cc_insert s c) (pc(t := Shrinking s))"
    using fresh unfolding entries_inv_def by (simp add: cc_insert_def del: fun_upd_apply)
  have iff: "(pc(t := Shrinking s)) u = Computing k \<longleftrightarrow> pc u = Computing k \<and> k \<noteq> s" for u k
    using pc k by (auto simp: computing_inv_def)
  have k': "computing_inv (cc_insert s c) (pc(t := Shrinking s))"
    using k unfolding computing_inv_def iff by (auto simp: cc_insert_def)
  have sh: "shrinkers (pc(t := Shrinking s)) = shrinkers pc + 1"
    using shrinkers_move [OF fin, of t "Shrinking s"] pc by simp
  have "size_inv size' cap (cc_insert s c) (pc(t := Shrinking s))"
    using z unfolding size_inv_def sh by (auto simp: cc_insert_def cc_drop_limit_def)
  then show ?thesis using finite_move [OF fin] e' k' by (simp add: cc_inv_def)
qed

lemma inv_resume:
  assumes inv: "cc_inv size' cap (c, pc)" and pc: "pc t = Shrinking s" and st: "cc_settle c = (ok, c')"
  shows "cc_inv size' cap (c', pc(t := (if ok then Owning s else Shrinking s)))"
proof -
  let ?pc = "pc(t := (if ok then Owning s else Shrinking s))"
  have fin: "finite {t. pc t \<noteq> Idle}" and e: "entries_inv c pc" and k: "computing_inv c pc" and z: "size_inv size' cap c pc"
    using inv by (auto simp: cc_inv_def)
  have d: "distinct (map ce_start (cc_entries c))" using e by (simp add: entries_inv_def)
  note sp = cc_settle_spec [OF st d]
  have kept: "k \<in> ce_start ` set (cc_entries c')" if r: "pc u = Reading k" for u k
  proof -
    have "k \<in> ce_start ` set (cc_entries c)" using e r unfolding entries_inv_def by blast
    then obtain x where x: "x \<in> set (cc_entries c)" "ce_start x = k" by blast
    have "finite {v. pc v = Reading k}" by (rule finite_subset [OF _ fin]) auto
    then have "0 < card {v. pc v = Reading k}" using r by (auto simp: card_gt_0_iff)
    then have "ce_readers x \<noteq> 0" using e x by (auto simp: entries_inv_def)
    then have "x \<in> set (cc_entries c')" using sp x(1) by blast
    then show ?thesis using x(2) by blast
  qed
  have "entries_inv c' pc" using e sp kept by (auto simp: entries_inv_def)
  then have e': "entries_inv c' ?pc" using entries_inv_move [of "if ok then Owning s else Shrinking s" pc t c' c'] pc by simp
  have "ce_start ` set (cc_entries c') \<subseteq> ce_start ` set (cc_entries c)" using sp by blast
  moreover have "cc_computing c' = cc_computing c" using sp by simp
  moreover have "cc_computing c \<inter> ce_start ` set (cc_entries c) = {}" using k by (simp add: computing_inv_def)
  ultimately have "cc_computing c' \<inter> ce_start ` set (cc_entries c') = {}" by (simp only:) blast
  then have "computing_inv c' pc" using k sp by (simp add: computing_inv_def)
  then have k': "computing_inv c' ?pc"
    using computing_inv_move [of "if ok then Owning s else Shrinking s" pc t c' c'] pc by simp
  have sh: "int (shrinkers ?pc) = int (shrinkers pc) - (if ok then 1 else 0)"
    using shrinkers_move [OF fin, of t "if ok then Owning s else Shrinking s"] pc by auto
  have pos: "0 < shrinkers pc" by (rule shrinkers_pos [OF fin pc])
  have "size_inv size' cap c' ?pc"
  proof (cases ok)
    case True
    then show ?thesis using z sp sh pos unfolding size_inv_def by auto
  next
    case False
    then have "shrinkers ?pc = shrinkers pc" using sh by simp
    then show ?thesis using z sp pos unfolding size_inv_def by auto
  qed
  then show ?thesis using finite_move [OF fin] e' k' by (simp add: cc_inv_def)
qed

lemma inv_release:
  assumes inv: "cc_inv size' cap (c, pc)" and pc: "pc t = Reading s"
  shows "cc_inv size' cap (cc_release s c, pc(t := Idle))"
proof -
  have fin: "finite {t. pc t \<noteq> Idle}" and e: "entries_inv c pc" and k: "computing_inv c pc" and z: "size_inv size' cap c pc"
    using inv by (auto simp: cc_inv_def)
  have starts: "map ce_start (cc_entries (cc_release s c)) = map ce_start (cc_entries c)"
    by (simp add: cc_release_def comp_def if_distrib cong: if_cong)
  then have sets: "ce_start ` set (cc_entries (cc_release s c)) = ce_start ` set (cc_entries c)"
    by (metis set_map)
  have rd: "int (card {u. (pc(t := Idle)) u = Reading k}) = int (card {u. pc u = Reading k}) - of_bool (s = k)" for k
    using readers_move [OF fin, of t Idle k] pc by simp
  have "entries_inv (cc_release s c) (pc(t := Idle))"
    unfolding entries_inv_def starts sets
  proof (intro conjI ballI allI impI)
    show "distinct (map ce_start (cc_entries c))" using e by (simp add: entries_inv_def)
  next
    fix x assume "x \<in> set (cc_entries (cc_release s c))"
    then obtain y where y: "y \<in> set (cc_entries c)" "x = (if ce_start y = s then y\<lparr>ce_readers := ce_readers y - 1\<rparr> else y)"
      by (auto simp: cc_release_def)
    then show "ce_readers x = int (card {u. (pc(t := Idle)) u = Reading (ce_start x)})"
      using e unfolding rd by (auto simp: entries_inv_def)
  next
    fix u k assume "(pc(t := Idle)) u = Reading k"
    then show "k \<in> ce_start ` set (cc_entries c)" using e by (auto simp: entries_inv_def split: if_splits)
  qed
  moreover have "computing_inv (cc_release s c) (pc(t := Idle))"
    using k computing_inv_move [of Idle pc t "cc_release s c" c] pc sets by (simp add: cc_release_def)
  moreover have "shrinkers (pc(t := Idle)) = shrinkers pc" using shrinkers_move [OF fin, of t Idle] pc by simp
  then have "size_inv size' cap (cc_release s c) (pc(t := Idle))"
    using z by (auto simp: size_inv_def cc_release_def cc_drop_limit_def)
  ultimately show ?thesis using finite_move [OF fin] by (simp add: cc_inv_def)
qed

lemma cc_step_inv:
  assumes "cc_step s s'" "cc_inv size' cap s" "0 \<le> size'"
  shows "cc_inv size' cap s'"
  using assms
proof (induction rule: cc_step.induct)
  case (computed pc t s c ok c')
  have "cc_inv size' cap (c', (pc(t := Shrinking s))(t := (if ok then Owning s else Shrinking s)))"
    by (rule inv_resume [OF inv_insert [OF computed(3,1)] _ computed(2)]) simp
  then show ?case by simp
next
  case (resume pc t s c ok c')
  then show ?case by (intro inv_resume)
next
  case (clear pc c)
  have "shrinkers pc = 0" using clear(1) by (simp add: shrinkers_def)
  then show ?case using clear
    by (auto simp: cc_inv_def cc_clear_def entries_inv_def computing_inv_def size_inv_def cc_drop_limit_def)
qed (auto intro: inv_neutral inv_hit inv_miss inv_failed inv_release simp: cc_hit_None)

lemma cc_reachable_inv:
  assumes "cc_reachable size' cap s" "1 \<le> size'"
  shows "cc_inv size' cap s"
  using assms(1)
proof induction
  case start
  have "shrinkers (\<lambda>t. Idle) = 0" by (simp add: shrinkers_def)
  then show ?case using assms(2)
    by (simp add: cc_inv_def cc_configure_def cc_new_def entries_inv_def computing_inv_def size_inv_def cc_drop_limit_def)
next
  case (step s s')
  then show ?case using cc_step_inv assms(2) by simp
qed

subsection \<open>Planning order\<close>

text \<open>
  \<open>PlanOrder\<close>: the chunks planned so far. \<open>computing\<close> is what the cache answers,
  \<open>expired\<close> whether the 5 ms have passed.
\<close>

definition must_wait :: "int \<Rightarrow> int \<Rightarrow> bool \<Rightarrow> bool \<Rightarrow> int set \<Rightarrow> bool" where
  "must_wait start chunk computing expired planned \<longleftrightarrow>
     0 \<le> start - chunk \<and> start - chunk \<notin> planned \<and> (computing \<or> \<not> expired)"

definition plan_done :: "int \<Rightarrow> int \<Rightarrow> int set \<Rightarrow> int set" where
  "plan_done start chunk planned = {s \<in> insert start planned. start - 64 * chunk \<le> s}"

lemma plan_done_wakes:
  "0 < chunk \<Longrightarrow> \<not> must_wait (start + chunk) chunk computing expired (plan_done start chunk planned)"
  by (simp add: must_wait_def plan_done_def)

subsection \<open>Properties\<close>

text \<open>
  C4. In every reachable state of the chunk cache, with any number of threads: the cached
  chunks are distinct, a chunk is computed by at most one thread and never while it is
  cached, the readers of an entry are exactly the threads holding it as a hit, so that no
  chunk a reader holds is dropped; the size stays between its configured start and the cap,
  and the cache exceeds it by at most the number of threads waiting to shrink it.
\<close>

theorem chunk_cache_invariant:
  assumes "cc_reachable size' cap (c, pc)" "1 \<le> size'"
  shows "distinct (map ce_start (cc_entries c)) \<and>
    (\<forall>e \<in> set (cc_entries c). ce_readers e = int (card {t. pc t = Reading (ce_start e)})) \<and>
    (\<forall>t s. pc t = Reading s \<longrightarrow> s \<in> ce_start ` set (cc_entries c)) \<and>
    (\<forall>t t' s. pc t = Computing s \<and> pc t' = Computing s \<longrightarrow> t = t') \<and>
    (\<forall>t s. pc t = Computing s \<longrightarrow> s \<in> cc_computing c \<and> s \<notin> ce_start ` set (cc_entries c)) \<and>
    size' \<le> cc_size c \<and> cc_size c \<le> max size' cap \<and>
    int (length (cc_entries c)) \<le> cc_size c + int (card {t. \<exists>s. pc t = Shrinking s})"
proof -
  have "cc_inv size' cap (c, pc)" by (rule cc_reachable_inv [OF assms])
  then have e: "entries_inv c pc" and k: "computing_inv c pc" and z: "size_inv size' cap c pc"
    by (auto simp: cc_inv_def)
  have "s \<in> cc_computing c \<and> s \<notin> ce_start ` set (cc_entries c)" if "pc t = Computing s" for t s
    using k that unfolding computing_inv_def by blast
  moreover have "\<forall>t t' s. pc t = Computing s \<and> pc t' = Computing s \<longrightarrow> t = t'"
    using k by (simp add: computing_inv_def)
  moreover have "size' \<le> cc_size c \<and> cc_size c \<le> max size' cap \<and>
    int (length (cc_entries c)) \<le> cc_size c + int (card {t. \<exists>s. pc t = Shrinking s})"
    using z by (simp add: size_inv_def shrinkers_def)
  ultimately show ?thesis using e by (simp add: entries_inv_def)
qed

definition example_cache :: cc_state where
  "example_cache =
     (\<lparr>cc_size = 1, cc_cap = 2, cc_dropped = [], cc_dropped_hits = 0,
       cc_entries = [\<lparr>ce_start = 0, ce_readers = 1\<rparr>], cc_computing = {16}\<rparr>,
      (\<lambda>t. Idle)(0 := Owning 0, 1 := Reading 0, 2 := Computing 16, 3 := Want 16))"

lemma example_cache_reachable: "cc_reachable 1 2 example_cache"
proof -
  let ?e = "\<lparr>cc_size = 1, cc_cap = 2, cc_dropped = [], cc_dropped_hits = 0, cc_entries = [], cc_computing = {}\<rparr>"
  let ?f = "?e\<lparr>cc_entries := [\<lparr>ce_start = 0, ce_readers = 0\<rparr>]\<rparr>"
  let ?g = "?e\<lparr>cc_entries := [\<lparr>ce_start = 0, ce_readers = 1\<rparr>]\<rparr>"
  let ?i = "\<lambda>t::nat. Idle"
  have "cc_reachable 1 2 (?e, ?i)" using cc_reachable.start [of 1 2] by (simp add: cc_configure_def cc_new_def)
  then have "cc_reachable 1 2 (?e, ?i(0 := Want 0))" by (rule cc_reachable.step) (rule request, simp)
  then have "cc_reachable 1 2 (?e\<lparr>cc_computing := {0}\<rparr>, ?i(0 := Computing 0))"
    by (rule cc_reachable.step) (use miss [of "?i(0 := Want 0)" 0 0 ?e] in
        \<open>simp add: cc_hit_def cc_begin_compute_def cc_note_miss_def\<close>)
  then have "cc_reachable 1 2 (?f, ?i(0 := Owning 0))"
    by (rule cc_reachable.step) (use computed [of "?i(0 := Computing 0)" 0 0 "?e\<lparr>cc_computing := {0}\<rparr>" True ?f] in
        \<open>simp add: cc_settle_def cc_insert_def cc_shrink.simps cc_trim_def\<close>)
  then have "cc_reachable 1 2 (?f, ?i(0 := Owning 0, 1 := Want 0))"
    by (rule cc_reachable.step) (rule request, simp)
  then have "cc_reachable 1 2 (?g, ?i(0 := Owning 0, 1 := Reading 0))"
    by (rule cc_reachable.step) (use hit [of "?i(0 := Owning 0, 1 := Want 0)" 1 0 ?f ?g] in \<open>simp add: cc_hit_def\<close>)
  then have "cc_reachable 1 2 (?g, ?i(0 := Owning 0, 1 := Reading 0, 2 := Want 16))"
    by (rule cc_reachable.step) (rule request, simp)
  then have "cc_reachable 1 2 (?g\<lparr>cc_computing := {16}\<rparr>, ?i(0 := Owning 0, 1 := Reading 0, 2 := Computing 16))"
    by (rule cc_reachable.step) (use miss [of "?i(0 := Owning 0, 1 := Reading 0, 2 := Want 16)" 2 16 ?g] in
        \<open>simp add: cc_hit_def cc_begin_compute_def cc_note_miss_def\<close>)
  then have "cc_reachable 1 2 (?g\<lparr>cc_computing := {16}\<rparr>, ?i(0 := Owning 0, 1 := Reading 0, 2 := Computing 16, 3 := Want 16))"
    by (rule cc_reachable.step) (rule request, simp)
  then show ?thesis by (simp add: example_cache_def)
qed

theorem chunk_cache_invariant_witness:
  "card {t. snd example_cache t = Reading 0} = 1"
proof -
  have r: "cc_reachable 1 2 (fst example_cache, snd example_cache)" using example_cache_reachable by simp
  have "\<forall>e \<in> set (cc_entries (fst example_cache)).
      ce_readers e = int (card {t. snd example_cache t = Reading (ce_start e)})"
    using chunk_cache_invariant [OF r] by simp
  then show ?thesis by (simp add: example_cache_def)
qed



end
