(* ===== verification/Aggregate.thy ===== *)
theory Aggregate
  imports Floats
begin

text \<open>
  Patches and accumulation (src/cpu/bm/pack.cpp, src/cpu/bm/agg.cpp): gathering a patch from
  a plane, adding a weighted patch into the numerator and denominator planes, and the final
  quotients. A buffer of floats is a function from the element offset; the arithmetic is two
  \<open>farith\<close> parameters, of the vector code and of the scalar tails, because -ffast-math lets
  the compiler contract the latter.
\<close>

type_synonym buffer = "int \<Rightarrow> f32"

subsection \<open>Targets and row loops\<close>

text \<open>
  What the dispatcher fixes: the lanes of a full vector, whether 32-, 16- and 64-byte
  vectors exist, and whether the AVX2 experiment for 12-wide rows is compiled in.
\<close>

record simd =
  sd_lanes :: int
  sd_bytes16 :: bool
  sd_bytes32 :: bool
  sd_bytes64 :: bool
  sd_avx2_12 :: bool
  sd_vec :: farith
  sd_scalar :: farith

text \<open>A store of elements \<open>lo\<close> to \<open>hi - 1\<close> of the row at \<open>base\<close>, each from its old value.\<close>

definition map_span :: "int \<Rightarrow> int \<Rightarrow> int \<Rightarrow> (int \<Rightarrow> f32 \<Rightarrow> f32) \<Rightarrow> buffer \<Rightarrow> buffer" where
  "map_span base lo hi g b = (\<lambda>i. if base + lo \<le> i \<and> i < base + hi then g (i - base) (b i) else b i)"

text \<open>\<open>for (; px + step <= len; px += step) body(px)\<close>.\<close>

function step_loop :: "int \<Rightarrow> int \<Rightarrow> (int \<Rightarrow> 's \<Rightarrow> 's) \<Rightarrow> int \<Rightarrow> 's \<Rightarrow> int \<times> 's" where
  "step_loop step len body px s =
     (if step \<le> 0 \<or> len < px + step then (px, s) else step_loop step len body (px + step) (body px s))"
  by pat_completeness auto
termination
  by (relation "measure (\<lambda>(step, len, body, px, s). nat (len - px))") auto

declare step_loop.simps [simp del]

lemma map_span_empty: "hi \<le> lo \<Longrightarrow> map_span base lo hi g b = b"
  by (auto simp: map_span_def fun_eq_iff)

lemma map_span_split:
  "lo \<le> mid \<Longrightarrow> mid \<le> hi \<Longrightarrow> map_span base mid hi g (map_span base lo mid g b) = map_span base lo hi g b"
  by (auto simp: map_span_def fun_eq_iff)

text \<open>A loop over composable spans is one span, up to the last full step.\<close>

lemma step_loop_spans:
  assumes comp: "\<And>lo mid hi s. lo \<le> mid \<Longrightarrow> mid \<le> hi \<Longrightarrow> F mid hi (F lo mid s) = F lo hi s"
    and empty: "\<And>lo s. F lo lo s = s"
    and "px \<le> len" "0 < step"
  shows "step_loop step len (\<lambda>px. F px (px + step)) px s =
    (px + step * ((len - px) div step), F px (px + step * ((len - px) div step)) s)"
  using assms(3,4)
proof (induction "nat (len - px)" arbitrary: px s rule: less_induct)
  case less
  show ?case
  proof (cases "len < px + step")
    case True
    then have "(len - px) div step = 0" using less.prems by (simp add: div_pos_pos_trivial)
    then show ?thesis using True empty by (simp add: step_loop.simps)
  next
    case False
    have d: "step * ((len - px) div step) = step + step * ((len - (px + step)) div step)"
    proof -
      have "len - px = (len - (px + step)) + step * 1" by simp
      then have "(len - px) div step = (len - (px + step)) div step + 1"
        using less.prems(2) by (metis div_mult_self2 less_irrefl add.commute)
      then show ?thesis by (simp add: algebra_simps)
    qed
    have "0 \<le> (len - (px + step)) div step" using False less.prems by (simp add: pos_imp_zdiv_nonneg_iff)
    then have nn: "0 \<le> step * ((len - (px + step)) div step)" using less.prems by simp
    have "step_loop step len (\<lambda>px. F px (px + step)) (px + step) (F px (px + step) s) =
        (px + step + step * ((len - (px + step)) div step),
         F (px + step) (px + step + step * ((len - (px + step)) div step)) (F px (px + step) s))"
      using less.hyps [of "px + step"] less.prems False by simp
    also have "\<dots> = (px + step * ((len - px) div step), F px (px + step * ((len - px) div step)) s)"
      using less.prems nn by (simp add: comp d add.assoc)
    finally show ?thesis using False less.prems by (simp add: step_loop.simps [of step len _ px])
  qed
qed

lemma step_loop_span:
  "px \<le> len \<Longrightarrow> 0 < step \<Longrightarrow>
    step_loop step len (\<lambda>px s. map_span b px (px + step) g s) px s =
      (px + step * ((len - px) div step), map_span b px (px + step * ((len - px) div step)) g s)"
  by (rule step_loop_spans [where F = "\<lambda>lo hi s. map_span b lo hi g s"]) (simp_all add: map_span_split map_span_empty)

lemma step_loop_span2:
  "px \<le> len \<Longrightarrow> 0 < step \<Longrightarrow>
    step_loop step len (\<lambda>px s. (map_span b px (px + step) g (fst s), map_span b px (px + step) h (snd s))) px s =
      (px + step * ((len - px) div step),
       map_span b px (px + step * ((len - px) div step)) g (fst s),
       map_span b px (px + step * ((len - px) div step)) h (snd s))"
  by (rule step_loop_spans [where F = "\<lambda>lo hi s. (map_span b lo hi g (fst s), map_span b lo hi h (snd s))"])
    (simp_all add: map_span_split map_span_empty)

subsection \<open>Gathering a patch (\<open>PackPatch\<close>)\<close>

definition patch_inside :: "int \<Rightarrow> int \<Rightarrow> int \<Rightarrow> int \<Rightarrow> int \<Rightarrow> bool" where
  "patch_inside x y block width height \<longleftrightarrow> 0 \<le> x \<and> 0 \<le> y \<and> x + block \<le> width \<and> y + block \<le> height"

definition pack_patch :: "buffer \<Rightarrow> buffer \<Rightarrow> int \<Rightarrow> int \<Rightarrow> int \<Rightarrow> int \<Rightarrow> int \<Rightarrow> int \<Rightarrow> buffer" where
  "pack_patch col src stride x y block width height =
     (if patch_inside x y block width height
      then fold (\<lambda>py col. map_span (py * block) 0 block (\<lambda>k _. src ((y + py) * stride + x + k)) col) [0..block - 1] col
      else fold (\<lambda>py col.
             fold (\<lambda>px col. col(py * block + px := src (cclamp (y + py) 0 (height - 1) * stride + cclamp (x + px) 0 (width - 1))))
               [0..block - 1] col) [0..block - 1] col)"

subsection \<open>Adding a patch (\<open>UnpackPatch\<close>, \<open>UnpackPatchFixed\<close>)\<close>

text \<open>The two updates of an element: \<open>n += w * v\<close> fused on vectors, and in the scalar tail.\<close>

definition vec_num :: "simd \<Rightarrow> f32 \<Rightarrow> (int \<Rightarrow> f32) \<Rightarrow> int \<Rightarrow> f32 \<Rightarrow> f32" where
  "vec_num sd w row k n = ffma (sd_vec sd) w (row k) n"

definition vec_den :: "simd \<Rightarrow> f32 \<Rightarrow> int \<Rightarrow> f32 \<Rightarrow> f32" where
  "vec_den sd w k d = fadd (sd_vec sd) d w"

definition tail_num :: "simd \<Rightarrow> f32 \<Rightarrow> (int \<Rightarrow> f32) \<Rightarrow> int \<Rightarrow> f32 \<Rightarrow> f32" where
  "tail_num sd w row k n = fadd (sd_scalar sd) n (fmul (sd_scalar sd) w (row k))"

definition tail_den :: "simd \<Rightarrow> f32 \<Rightarrow> int \<Rightarrow> f32 \<Rightarrow> f32" where
  "tail_den sd w k d = fadd (sd_scalar sd) d w"

text \<open>One clipped row of \<open>len\<close> elements at \<open>base\<close>: an 8-wide row, or full vectors, 8-wide vectors and the tail.\<close>

definition unpack_row :: "simd \<Rightarrow> f32 \<Rightarrow> (int \<Rightarrow> f32) \<Rightarrow> int \<Rightarrow> int \<Rightarrow> buffer \<times> buffer \<Rightarrow> buffer \<times> buffer" where
  "unpack_row sd w row base len s =
     (if sd_bytes32 sd \<and> len = 8
      then (map_span base 0 8 (vec_num sd w row) (fst s), map_span base 0 8 (vec_den sd w) (snd s))
      else
        (let body = (\<lambda>step px s. (map_span base px (px + step) (vec_num sd w row) (fst s),
                                  map_span base px (px + step) (vec_den sd w) (snd s)));
             s1 = step_loop (sd_lanes sd) len (body (sd_lanes sd)) 0 s;
             s2 = (if sd_bytes32 sd then step_loop 8 len (body 8) (fst s1) (snd s1) else s1);
             s3 = step_loop 1 len (\<lambda>px s. (map_span base px (px + 1) (tail_num sd w row) (fst s),
                                           map_span base px (px + 1) (tail_den sd w) (snd s))) (fst s2) (snd s2)
         in snd s3))"

definition unpack_patch :: "simd \<Rightarrow> int \<Rightarrow> int \<Rightarrow> int \<Rightarrow> buffer \<Rightarrow> int \<Rightarrow> int \<Rightarrow> int \<Rightarrow> f32 \<Rightarrow>
    buffer \<times> buffer \<Rightarrow> buffer \<times> buffer" where
  "unpack_patch sd stride x y col block width height w s =
     (let x0 = max x 0; y0 = max y 0; x1 = min (x + block) width; y1 = min (y + block) height in
      if x1 \<le> x0 \<or> y1 \<le> y0 then s
      else fold (\<lambda>yy s. unpack_row sd w (\<lambda>k. col ((yy - y) * block + (x0 - x) + k)) (yy * stride + x0) (x1 - x0) s)
             [y0..y1 - 1] s)"

text \<open>The fixed-width rows: one vector of 4, one masked vector of 12, or vectors of 8 and 4.\<close>

definition fixed_row :: "simd \<Rightarrow> f32 \<Rightarrow> (int \<Rightarrow> f32) \<Rightarrow> int \<Rightarrow> int \<Rightarrow> buffer \<times> buffer \<Rightarrow> buffer \<times> buffer" where
  "fixed_row sd w row base len s =
     (map_span base 0 len (vec_num sd w row) (fst s), map_span base 0 len (vec_den sd w) (snd s))"

definition fixed_row_8_4 :: "simd \<Rightarrow> f32 \<Rightarrow> (int \<Rightarrow> f32) \<Rightarrow> int \<Rightarrow> buffer \<times> buffer \<Rightarrow> buffer \<times> buffer" where
  "fixed_row_8_4 sd w row base s =
     (map_span base 8 12 (vec_num sd w row) (map_span base 0 8 (vec_num sd w row) (fst s)),
      map_span base 8 12 (vec_den sd w) (map_span base 0 8 (vec_den sd w) (snd s)))"

definition unpack_patch_fixed :: "simd \<Rightarrow> bool \<Rightarrow> int \<Rightarrow> int \<Rightarrow> int \<Rightarrow> buffer \<Rightarrow> int \<Rightarrow> int \<Rightarrow> int \<Rightarrow> f32 \<Rightarrow>
    buffer \<times> buffer \<Rightarrow> buffer \<times> buffer" where
  "unpack_patch_fixed sd feature512 stride x y col block width height w s =
     (if \<not> patch_inside x y block width height then unpack_patch sd stride x y col block width height w s
      else if sd_bytes16 sd \<and> block = 4
      then fold (\<lambda>row s. fixed_row sd w (\<lambda>k. col (row * 4 + k)) ((y + row) * stride + x) 4 s) [0..3] s
      else if sd_bytes64 sd \<and> block = 12
      then fold (\<lambda>row s. fixed_row sd w (\<lambda>k. col (row * block + k)) ((y + row) * stride + x) block s) [0..block - 1] s
      else if sd_avx2_12 sd \<and> block = 12 \<and> feature512
      then fold (\<lambda>row s. fixed_row_8_4 sd w (\<lambda>k. col (row * 12 + k)) ((y + row) * stride + x) s) [0..11] s
      else unpack_patch sd stride x y col block width height w s)"

definition aggregate_add :: "simd \<Rightarrow> int \<Rightarrow> int \<Rightarrow> int \<Rightarrow> buffer \<Rightarrow> int \<Rightarrow> int \<Rightarrow> int \<Rightarrow> f32 \<Rightarrow>
    buffer \<times> buffer \<Rightarrow> buffer \<times> buffer" where
  "aggregate_add sd stride x y patch block width height w s = unpack_patch sd stride x y patch block width height w s"

subsection \<open>Quotients\<close>

definition pixel_quotient :: "farith \<Rightarrow> f32 \<Rightarrow> f32 \<Rightarrow> f32 \<Rightarrow> f32" where
  "pixel_quotient F num den src = (if f32_lt f32_eps den then fdiv F num den else src)"

text \<open>A row of the output: full vectors, then the scalar tail.\<close>

definition finish_row :: "int \<Rightarrow> int \<Rightarrow> int \<Rightarrow> (int \<Rightarrow> f32) \<Rightarrow> (int \<Rightarrow> f32) \<Rightarrow> buffer \<Rightarrow> buffer" where
  "finish_row lanes base width vec tail dst =
     (case step_loop lanes width (\<lambda>px. map_span base px (px + lanes) (\<lambda>k _. vec k)) 0 dst of
        (e, dst') \<Rightarrow> snd (step_loop 1 width (\<lambda>px. map_span base px (px + 1) (\<lambda>k _. tail k)) e dst'))"

definition aggregate_finish :: "simd \<Rightarrow> buffer \<Rightarrow> buffer \<Rightarrow> buffer \<Rightarrow> buffer \<Rightarrow> int \<Rightarrow> int \<Rightarrow> int \<Rightarrow> int \<Rightarrow> int \<Rightarrow> buffer" where
  "aggregate_finish sd dst num den src width height dstride buf_stride sstride =
     (let ss = (if sstride < 1 then dstride else sstride);
          value' = (\<lambda>F y k. pixel_quotient F (num (y * buf_stride + k)) (den (y * buf_stride + k)) (src (y * ss + k)))
      in fold (\<lambda>y. finish_row (sd_lanes sd) (y * dstride) width (value' (sd_vec sd) y) (value' (sd_scalar sd) y))
           [0..height - 1] dst)"

text \<open>The sums over the slices of a fat plane, in slice order, by the two address computations.\<close>

definition slice_sums :: "farith \<Rightarrow> (int \<Rightarrow> f32) \<Rightarrow> (int \<Rightarrow> f32) \<Rightarrow> int \<Rightarrow> f32 \<times> f32" where
  "slice_sums F num den slices =
     fold (\<lambda>t (n, d). (fadd F n (num t), fadd F d (den t))) [0..slices - 1] (f32_zero, f32_zero)"

definition impl_sums :: "farith \<Rightarrow> buffer \<Rightarrow> int \<Rightarrow> int \<Rightarrow> int \<Rightarrow> int \<Rightarrow> int \<Rightarrow> f32 \<times> f32" where
  "impl_sums F fat height fstride slices y k =
     (let plane_stride = height * fstride; slice_stride = 2 * plane_stride; num0 = y * fstride; den0 = num0 + plane_stride
      in slice_sums F (\<lambda>t. fat (num0 + (t * slice_stride + k))) (\<lambda>t. fat (den0 + (t * slice_stride + k))) slices)"

definition runtime_sums :: "farith \<Rightarrow> buffer \<Rightarrow> int \<Rightarrow> int \<Rightarrow> int \<Rightarrow> int \<Rightarrow> int \<Rightarrow> f32 \<times> f32" where
  "runtime_sums F fat height fstride slices y k =
     slice_sums F (\<lambda>t. fat ((t * 2 * height + y) * fstride + k)) (\<lambda>t. fat (((t * 2 + 1) * height + y) * fstride + k)) slices"

text \<open>
  \<open>VAggReduceImpl\<close> keeps the quotient vector as it is when every denominator of the vector
  passes; the lane \<open>k\<close> belongs to the vector that starts at \<open>lanes * (k div lanes)\<close>.
\<close>

definition impl_lane :: "simd \<Rightarrow> (int \<Rightarrow> f32 \<times> f32) \<Rightarrow> (int \<Rightarrow> f32) \<Rightarrow> int \<Rightarrow> f32" where
  "impl_lane sd sums src k =
     (let first = sd_lanes sd * (k div sd_lanes sd);
          ok = (\<lambda>j. f32_lt f32_eps (snd (sums j)));
          value' = fdiv (sd_vec sd) (fst (sums k)) (snd (sums k))
      in if \<not> list_all ok [first..first + sd_lanes sd - 1] then (if ok k then value' else src k) else value')"

definition vagg_reduce_impl :: "simd \<Rightarrow> int \<Rightarrow> buffer \<Rightarrow> buffer \<Rightarrow> buffer \<Rightarrow> int \<Rightarrow> int \<Rightarrow> int \<Rightarrow> int \<Rightarrow> int \<Rightarrow> int \<Rightarrow> buffer" where
  "vagg_reduce_impl sd k_slices dst fat src width height dstride fstride sstride radius =
     (let slices = (if 0 < k_slices then k_slices else 2 * radius + 1);
          ss = (if sstride < 1 then dstride else sstride)
      in fold (\<lambda>y. finish_row (sd_lanes sd) (y * dstride) width
             (impl_lane sd (impl_sums (sd_vec sd) fat height fstride slices y) (\<lambda>k. src (y * ss + k)))
             (\<lambda>k. case impl_sums (sd_scalar sd) fat height fstride slices y k of
                    (n, d) \<Rightarrow> pixel_quotient (sd_scalar sd) n d (src (y * ss + k))))
           [0..height - 1] dst)"

definition vagg_reduce_runtime :: "simd \<Rightarrow> buffer \<Rightarrow> buffer \<Rightarrow> buffer \<Rightarrow> int \<Rightarrow> int \<Rightarrow> int \<Rightarrow> int \<Rightarrow> int \<Rightarrow> int \<Rightarrow> buffer" where
  "vagg_reduce_runtime sd dst fat src width height dstride fstride sstride radius =
     (let slices = 2 * radius + 1;
          ss = (if sstride < 1 then dstride else sstride);
          value' = (\<lambda>F y k. case runtime_sums F fat height fstride slices y k of (n, d) \<Rightarrow> pixel_quotient F n d (src (y * ss + k)))
      in fold (\<lambda>y. finish_row (sd_lanes sd) (y * dstride) width (value' (sd_vec sd) y) (value' (sd_scalar sd) y))
           [0..height - 1] dst)"

definition vaggregate_reduce :: "simd \<Rightarrow> buffer \<Rightarrow> buffer \<Rightarrow> buffer \<Rightarrow> int \<Rightarrow> int \<Rightarrow> int \<Rightarrow> int \<Rightarrow> int \<Rightarrow> int \<Rightarrow> buffer" where
  "vaggregate_reduce sd dst fat src width height dstride fstride sstride radius =
     (if radius = 0 then vagg_reduce_impl sd 1 dst fat src width height dstride fstride sstride radius
      else if radius = 1 then vagg_reduce_impl sd 3 dst fat src width height dstride fstride sstride radius
      else if radius = 2 then vagg_reduce_impl sd 5 dst fat src width height dstride fstride sstride radius
      else if radius = 3 then vagg_reduce_impl sd 7 dst fat src width height dstride fstride sstride radius
      else if radius = 4 then vagg_reduce_impl sd 9 dst fat src width height dstride fstride sstride radius
      else vagg_reduce_runtime sd dst fat src width height dstride fstride sstride radius)"

text \<open>
  \<open>VAggTarget\<close>: the sums over the contributions in list order, with the identity kept for
  a unit denominator on vectors and for a single contribution.
\<close>

definition target_sums :: "farith \<Rightarrow> (buffer \<times> buffer \<times> int) list \<Rightarrow> int \<Rightarrow> int \<Rightarrow> f32 \<times> f32" where
  "target_sums F contributions y k =
     fold (\<lambda>(num, den, stride) (n, d). (fadd F n (num (y * stride + k)), fadd F d (den (y * stride + k))))
       contributions (f32_zero, f32_zero)"

definition target_lane :: "farith \<Rightarrow> f32 \<times> f32 \<Rightarrow> f32 \<Rightarrow> f32" where
  "target_lane F sums src =
     (case sums of (n, d) \<Rightarrow>
        let ok = f32_lt f32_eps d; safe = (if ok then d else f32_one);
            normalized = (if f32_eq d f32_one then n else fdiv F n safe)
        in if ok then normalized else src)"

definition vaggregate_target :: "simd \<Rightarrow> buffer \<Rightarrow> (buffer \<times> buffer \<times> int) list \<Rightarrow> buffer \<Rightarrow> int \<Rightarrow> int \<Rightarrow> int \<Rightarrow> int \<Rightarrow> buffer" where
  "vaggregate_target sd dst contributions src width height dstride sstride =
     (case contributions of
        [(num, den, stride)] \<Rightarrow>
          fold (\<lambda>y dst. snd (step_loop 1 width (\<lambda>px. map_span (y * dstride) px (px + 1)
                 (\<lambda>k _. if f32_eq (den (y * stride + k)) f32_one then num (y * stride + k)
                        else pixel_quotient (sd_scalar sd) (num (y * stride + k)) (den (y * stride + k)) (src (y * sstride + k)))) 0 dst))
            [0..height - 1] dst
      | _ \<Rightarrow>
          fold (\<lambda>y. finish_row (sd_lanes sd) (y * dstride) width
                 (\<lambda>k. target_lane (sd_vec sd) (target_sums (sd_vec sd) contributions y k) (src (y * sstride + k)))
                 (\<lambda>k. case target_sums (sd_scalar sd) contributions y k of
                        (n, d) \<Rightarrow> pixel_quotient (sd_scalar sd) n d (src (y * sstride + k))))
            [0..height - 1] dst)"

subsection \<open>Rows of a plane\<close>

text \<open>The element \<open>(X, Y)\<close> of a plane lies in a span of row \<open>y\<close> only when \<open>y = Y\<close>.\<close>

lemma row_hit:
  fixes stride :: int
  assumes "0 \<le> X" "X < stride" "0 \<le> x0" "x0 + len \<le> stride"
  shows "(y * stride + x0 \<le> Y * stride + X \<and> Y * stride + X < y * stride + x0 + len) \<longleftrightarrow>
    y = Y \<and> x0 \<le> X \<and> X < x0 + len"
proof
  assume h: "y * stride + x0 \<le> Y * stride + X \<and> Y * stride + X < y * stride + x0 + len"
  have "Y = (Y * stride + X) div stride" using assms by simp
  moreover have "(Y * stride + X) div stride = y"
  proof -
    have "Y * stride + X = y * stride + (Y * stride + X - y * stride)" by simp
    moreover have "0 \<le> Y * stride + X - y * stride \<and> Y * stride + X - y * stride < stride" using h assms by linarith
    ultimately show ?thesis using div_pos_pos_trivial [of "Y * stride + X - y * stride" stride] assms
      by (metis add.commute add.right_neutral div_mult_self1 less_le_trans linorder_not_less not_less_iff_gr_or_eq order.strict_trans)
  qed
  ultimately have "y = Y" by simp
  then show "y = Y \<and> x0 \<le> X \<and> X < x0 + len" using h by simp
qed auto

lemma fold_rows:
  assumes "0 \<le> X" "X < stride" "0 \<le> x0" "x0 + len \<le> stride" "distinct ys"
  shows "fold (\<lambda>y. map_span (y * stride + x0) 0 len (g y)) ys b (Y * stride + X) =
    (if Y \<in> set ys \<and> x0 \<le> X \<and> X < x0 + len then g Y (X - x0) (b (Y * stride + X)) else b (Y * stride + X))"
  using assms(5)
proof (induction ys arbitrary: b)
  case Nil
  then show ?case by simp
next
  case (Cons y ys)
  have "map_span (y * stride + x0) 0 len (g y) b (Y * stride + X) =
      (if y = Y \<and> x0 \<le> X \<and> X < x0 + len then g Y (X - x0) (b (Y * stride + X)) else b (Y * stride + X))"
    using row_hit [OF assms(1-4), of y Y] by (auto simp: map_span_def)
  then show ?case using Cons by auto
qed

lemma fold_fst: "fst (fold (\<lambda>y s. (f y (fst s), g y (snd s))) ys s) = fold f ys (fst s)"
  by (induction ys arbitrary: s) simp_all

lemma fold_snd: "snd (fold (\<lambda>y s. (f y (fst s), g y (snd s))) ys s) = fold g ys (snd s)"
  by (induction ys arbitrary: s) simp_all

subsection \<open>What a row does\<close>

text \<open>The first element of a row of \<open>len\<close> that the scalar tail handles.\<close>

definition vec_end :: "simd \<Rightarrow> int \<Rightarrow> int" where
  "vec_end sd len =
     (if sd_bytes32 sd \<and> len = 8 then 8
      else let e = sd_lanes sd * (len div sd_lanes sd)
           in if sd_bytes32 sd then e + 8 * ((len - e) div 8) else e)"

definition row_num :: "simd \<Rightarrow> int \<Rightarrow> f32 \<Rightarrow> (int \<Rightarrow> f32) \<Rightarrow> int \<Rightarrow> f32 \<Rightarrow> f32" where
  "row_num sd len w row k n = (if k < vec_end sd len then vec_num sd w row k n else tail_num sd w row k n)"

definition row_den :: "simd \<Rightarrow> int \<Rightarrow> f32 \<Rightarrow> int \<Rightarrow> f32 \<Rightarrow> f32" where
  "row_den sd len w k d = (if k < vec_end sd len then vec_den sd w k d else tail_den sd w k d)"

lemma mult_div_bounds:
  fixes n q :: int
  assumes "0 < q" "0 \<le> n"
  shows "0 \<le> q * (n div q)" "q * (n div q) \<le> n"
proof -
  show "0 \<le> q * (n div q)" using assms by (simp add: pos_imp_zdiv_nonneg_iff)
  have "0 \<le> n mod q" using assms by simp
  then show "q * (n div q) \<le> n" using mult_div_mod_eq [of q n] by linarith
qed

lemma vec_end_bounds:
  assumes "0 < sd_lanes sd" "0 \<le> len"
  shows "0 \<le> vec_end sd len \<and> vec_end sd len \<le> len"
proof -
  let ?e = "sd_lanes sd * (len div sd_lanes sd)"
  have "0 \<le> ?e" "?e \<le> len" using mult_div_bounds [OF assms] by auto
  moreover have "0 \<le> 8 * ((len - ?e) div 8)" "8 * ((len - ?e) div 8) \<le> len - ?e"
    using mult_div_bounds [of 8 "len - ?e"] calculation by auto
  ultimately show ?thesis using assms by (auto simp: vec_end_def Let_def)
qed

lemma map_span_join:
  assumes "lo \<le> mid" "mid \<le> hi"
  shows "map_span b mid hi g (map_span b lo mid f s) = map_span b lo hi (\<lambda>k. if k < mid then f k else g k) s"
  using assms by (auto simp: map_span_def fun_eq_iff)

lemma tail_loop:
  assumes "0 \<le> f" "f \<le> len"
    and "\<And>k. g k = (if k < f then g1 k else g2 k)" "\<And>k. h k = (if k < f then h1 k else h2 k)"
  shows "step_loop 1 len (\<lambda>px s. (map_span b px (px + 1) g2 (fst s), map_span b px (px + 1) h2 (snd s))) f
      (map_span b 0 f g1 a, map_span b 0 f h1 c) =
    (len, map_span b 0 len g a, map_span b 0 len h c)"
proof -
  have "g = (\<lambda>k. if k < f then g1 k else g2 k)" "h = (\<lambda>k. if k < f then h1 k else h2 k)"
    using assms(3,4) by auto
  then show ?thesis using assms(1,2) by (simp add: step_loop_span2 map_span_join)
qed

lemma unpack_row_eq:
  assumes "0 < sd_lanes sd" "0 \<le> len"
  shows "unpack_row sd w row base len s =
    (map_span base 0 len (row_num sd len w row) (fst s), map_span base 0 len (row_den sd len w) (snd s))"
proof (cases "sd_bytes32 sd \<and> len = 8")
  case True
  then show ?thesis
    by (auto simp: unpack_row_def map_span_def row_num_def row_den_def vec_end_def fun_eq_iff)
next
  case False
  let ?e = "sd_lanes sd * (len div sd_lanes sd)"
  let ?f = "if sd_bytes32 sd then ?e + 8 * ((len - ?e) div 8) else ?e"
  have e: "0 \<le> ?e" "?e \<le> len" using mult_div_bounds [OF assms] by auto
  have f: "?e \<le> ?f" "?f \<le> len" using mult_div_bounds [of 8 "len - ?e"] e by auto
  have end_eq: "vec_end sd len = ?f" using False by (simp add: vec_end_def Let_def)
  have s1: "step_loop (sd_lanes sd) len (\<lambda>px s. (map_span base px (px + sd_lanes sd) (vec_num sd w row) (fst s),
      map_span base px (px + sd_lanes sd) (vec_den sd w) (snd s))) 0 s =
    (?e, map_span base 0 ?e (vec_num sd w row) (fst s), map_span base 0 ?e (vec_den sd w) (snd s))"
    using step_loop_span2 [of 0 len "sd_lanes sd"] assms by simp
  have s2: "(if sd_bytes32 sd then step_loop 8 len (\<lambda>px s. (map_span base px (px + 8) (vec_num sd w row) (fst s),
      map_span base px (px + 8) (vec_den sd w) (snd s))) ?e
        (map_span base 0 ?e (vec_num sd w row) (fst s), map_span base 0 ?e (vec_den sd w) (snd s))
      else (?e, map_span base 0 ?e (vec_num sd w row) (fst s), map_span base 0 ?e (vec_den sd w) (snd s))) =
    (?f, map_span base 0 ?f (vec_num sd w row) (fst s), map_span base 0 ?f (vec_den sd w) (snd s))"
    using step_loop_span2 [of ?e len 8] e f(1) by (simp add: map_span_split)
  have s3: "step_loop 1 len (\<lambda>px s. (map_span base px (px + 1) (tail_num sd w row) (fst s),
      map_span base px (px + 1) (tail_den sd w) (snd s))) ?f
        (map_span base 0 ?f (vec_num sd w row) (fst s), map_span base 0 ?f (vec_den sd w) (snd s)) =
    (len, map_span base 0 len (row_num sd len w row) (fst s), map_span base 0 len (row_den sd len w) (snd s))"
    using f e by (intro tail_loop) (auto simp: row_num_def row_den_def end_eq fun_eq_iff)
  show ?thesis using False s1 s2 s3 by (cases "sd_bytes32 sd") (simp_all add: unpack_row_def Let_def)
qed

lemma finish_row_eq:
  assumes "0 < lanes" "0 \<le> width"
  shows "finish_row lanes base width vec tail dst =
    map_span base 0 width (\<lambda>k _. if k < lanes * (width div lanes) then vec k else tail k) dst"
proof -
  let ?e = "lanes * (width div lanes)"
  have e: "0 \<le> ?e" "?e \<le> width" using mult_div_bounds [OF assms] by auto
  have "finish_row lanes base width vec tail dst =
      map_span base ?e width (\<lambda>k _. tail k) (map_span base 0 ?e (\<lambda>k _. vec k) dst)"
    using step_loop_span [of 0 width lanes] step_loop_span [of ?e width 1] assms e by (simp add: finish_row_def)
  also have "\<dots> = map_span base 0 width (\<lambda>k. if k < ?e then (\<lambda>_. vec k) else (\<lambda>_. tail k)) dst"
    using map_span_join [of 0 ?e width base] e by simp
  finally show ?thesis by (simp add: map_span_def fun_eq_iff)
qed

subsection \<open>Gathering, fixed rows and lanes\<close>

lemma fold_elements:
  assumes "\<forall>k \<in> set ks. lo \<le> k \<and> k < hi" "\<forall>k. lo \<le> k \<and> k < hi \<longrightarrow> k \<in> set ks"
  shows "fold (\<lambda>k col. col(base + k := f k)) ks col = map_span base lo hi (\<lambda>k _. f k) col"
proof -
  have "fold (\<lambda>k col. col(base + k := f k)) ks col i = (if i - base \<in> set ks then f (i - base) else col i)" for i
    by (induction ks arbitrary: col) auto
  moreover have "i - base \<in> set ks \<longleftrightarrow> base + lo \<le> i \<and> i < base + hi" for i
    using assms(1) [rule_format, of "i - base"] assms(2) [rule_format, of "i - base"] by linarith
  ultimately show ?thesis unfolding map_span_def by (intro ext) (simp only:)
qed

lemma pack_patch_eq:
  assumes "0 \<le> px" "px < block" "0 \<le> py" "py < block"
  shows "pack_patch col src stride x y block width height (py * block + px) =
    src (cclamp (y + py) 0 (height - 1) * stride + cclamp (x + px) 0 (width - 1))"
proof -
  let ?f = "\<lambda>py k. src (cclamp (y + py) 0 (height - 1) * stride + cclamp (x + k) 0 (width - 1))"
  have rows: "fold (\<lambda>py. map_span (py * block + 0) 0 block (\<lambda>k _. g py k)) [0..block - 1] col (py * block + px) = g py px" for g
    using fold_rows [of px block 0 block "[0..block - 1]" "\<lambda>py k _. g py k" col py] assms by simp
  show ?thesis
  proof (cases "patch_inside x y block width height")
    case True
    then have "?f py px = src ((y + py) * stride + x + px)"
      using assms by (auto simp: patch_inside_def cclamp_def add.assoc)
    then show ?thesis using True rows [of "\<lambda>py k. src ((y + py) * stride + x + k)"] by (simp add: pack_patch_def)
  next
    case False
    have "fold (\<lambda>px col. col(py * block + px := ?f py px)) [0..block - 1] = map_span (py * block + 0) 0 block (\<lambda>k _. ?f py k)"
      for py by (rule ext, subst fold_elements) auto
    then show ?thesis using False rows [of ?f] by (simp add: pack_patch_def)
  qed
qed

lemma fixed_row_unpack:
  assumes "0 < sd_lanes sd" "0 \<le> len"
    and "\<And>w v n. fadd (sd_scalar sd) n (fmul (sd_scalar sd) w v) = ffma (sd_vec sd) w v n"
    and "\<And>a b. fadd (sd_scalar sd) a b = fadd (sd_vec sd) a b"
  shows "fixed_row sd w row base len s = unpack_row sd w row base len s"
proof -
  have "fadd (sd_vec sd) n (fmul (sd_scalar sd) w v) = ffma (sd_vec sd) w v n" for n v
    using assms(3) by (simp add: assms(4))
  then have "row_num sd len w row = vec_num sd w row" "row_den sd len w = vec_den sd w"
    by (auto simp: fun_eq_iff row_num_def row_den_def vec_num_def vec_den_def tail_num_def tail_den_def assms(4))
  then show ?thesis by (simp add: unpack_row_eq [OF assms(1,2)] fixed_row_def)
qed

lemma unpack_patch_inside:
  assumes "patch_inside x y block width height" "0 < block"
  shows "unpack_patch sd stride x y col block width height w s =
    fold (\<lambda>row s. unpack_row sd w (\<lambda>k. col (row * block + k)) ((y + row) * stride + x) block s) [0..block - 1] s"
proof -
  have m: "max x 0 = x" "max y 0 = y" "min (x + block) width = x + block" "min (y + block) height = y + block"
    using assms by (auto simp: patch_inside_def)
  have "[y..y + block - 1] = map ((+) y) [0..block - 1]"
    by (rule nth_equalityI) auto
  then show ?thesis
    using assms(2) by (simp add: unpack_patch_def Let_def m fold_map comp_def)
qed

lemma fold_finish_rows:
  assumes "0 < lanes" "0 \<le> X" "X < width" "width \<le> dstride" "0 \<le> Y" "Y < height"
  shows "fold (\<lambda>y. finish_row lanes (y * dstride) width (v y) (t y)) [0..height - 1] dst (Y * dstride + X) =
    (if X < lanes * (width div lanes) then v Y X else t Y X)"
proof -
  have "finish_row lanes (y * dstride) width (v y) (t y) =
      map_span (y * dstride + 0) 0 width (\<lambda>k _. if k < lanes * (width div lanes) then v y k else t y k)" for y
    by (rule ext) (use assms in \<open>simp add: finish_row_eq\<close>)
  then show ?thesis
    using fold_rows [of X dstride 0 width "[0..height - 1]" "\<lambda>y k _. if k < lanes * (width div lanes) then v y k else t y k" dst Y] assms
    by simp
qed

lemma impl_lane_quotient:
  assumes "0 < sd_lanes sd"
  shows "impl_lane sd sums src k = pixel_quotient (sd_vec sd) (fst (sums k)) (snd (sums k)) (src k)"
proof -
  let ?f = "sd_lanes sd * (k div sd_lanes sd)"
  have "0 \<le> k mod sd_lanes sd" "k mod sd_lanes sd < sd_lanes sd" using assms by simp_all
  moreover have "?f + k mod sd_lanes sd = k" by simp
  ultimately have "?f \<le> k" "k \<le> ?f + sd_lanes sd - 1" by linarith+
  then have "k \<in> set [?f..?f + sd_lanes sd - 1]" by simp
  then have "list_all (\<lambda>j. f32_lt f32_eps (snd (sums j))) [?f..?f + sd_lanes sd - 1] \<Longrightarrow> f32_lt f32_eps (snd (sums k))"
    by (simp only: list_all_iff)
  then show ?thesis by (auto simp: impl_lane_def Let_def pixel_quotient_def)
qed

lemma impl_sums_runtime: "impl_sums F fat height fstride slices y k = runtime_sums F fat height fstride slices y k"
  by (simp add: impl_sums_def runtime_sums_def Let_def algebra_simps)

lemma vagg_reduce_impl_runtime:
  assumes "0 < sd_lanes sd" "(if 0 < k then k else 2 * radius + 1) = 2 * radius + 1"
  shows "vagg_reduce_impl sd k dst fat src width height dstride fstride sstride radius =
    vagg_reduce_runtime sd dst fat src width height dstride fstride sstride radius"
proof -
  have "impl_sums F fat height fstride slices = runtime_sums F fat height fstride slices" for F slices
    by (simp add: fun_eq_iff impl_sums_runtime)
  moreover have "impl_lane sd sums src = (\<lambda>k. pixel_quotient (sd_vec sd) (fst (sums k)) (snd (sums k)) (src k))" for sums src
    by (rule ext) (rule impl_lane_quotient [OF assms(1)])
  ultimately show ?thesis
    by (simp add: vagg_reduce_impl_def vagg_reduce_runtime_def assms(2) Let_def split_beta)
qed

subsection \<open>Properties\<close>

text \<open>
  C9. Adding a patch updates exactly the elements of the plane that the patch covers after
  clipping, each once and with the patch's own value there; every other element, the padding
  of the rows included, keeps its bits. Only whether the sum is fused depends on the lanes.
\<close>

theorem unpack_patch_exact:
  assumes "0 < sd_lanes sd" "width \<le> stride" "0 \<le> X" "X < stride" "0 \<le> Y"
  shows "let (num', den') = unpack_patch sd stride x y col block width height w (num, den);
             covered = x \<le> X \<and> X < x + block \<and> X < width \<and> y \<le> Y \<and> Y < y + block \<and> Y < height;
             len = min (x + block) width - max x 0; k = X - max x 0; i = Y * stride + X;
             v = (\<lambda>j. col ((Y - y) * block + (max x 0 - x) + j))
         in num' i = (if covered then row_num sd len w v k (num i) else num i) \<and>
            den' i = (if covered then row_den sd len w k (den i) else den i) \<and>
            (covered \<longrightarrow> v k = col ((Y - y) * block + (X - x)))"
proof -
  let ?x0 = "max x 0" and ?y0 = "max y 0" and ?x1 = "min (x + block) width" and ?y1 = "min (y + block) height"
  let ?len = "?x1 - ?x0" and ?v = "\<lambda>yy k. col ((yy - y) * block + (?x0 - x) + k)"
  let ?num = "\<lambda>yy. map_span (yy * stride + ?x0) 0 ?len (row_num sd ?len w (?v yy))"
  let ?den = "\<lambda>yy. map_span (yy * stride + ?x0) 0 ?len (row_den sd ?len w)"
  have covered: "(?x0 < ?x1 \<and> ?y0 < ?y1 \<and> Y \<in> set [?y0..?y1 - 1] \<and> ?x0 \<le> X \<and> X < ?x0 + ?len) \<longleftrightarrow>
      (x \<le> X \<and> X < x + block \<and> X < width \<and> y \<le> Y \<and> Y < y + block \<and> Y < height)"
    using assms by auto
  obtain num' den' where u: "unpack_patch sd stride x y col block width height w (num, den) = (num', den')"
    by (cases "unpack_patch sd stride x y col block width height w (num, den)")
  have "num' (Y * stride + X) = (if x \<le> X \<and> X < x + block \<and> X < width \<and> y \<le> Y \<and> Y < y + block \<and> Y < height
        then row_num sd ?len w (?v Y) (X - ?x0) (num (Y * stride + X)) else num (Y * stride + X)) \<and>
      den' (Y * stride + X) = (if x \<le> X \<and> X < x + block \<and> X < width \<and> y \<le> Y \<and> Y < y + block \<and> Y < height
        then row_den sd ?len w (X - ?x0) (den (Y * stride + X)) else den (Y * stride + X))"
  proof (cases "?x1 \<le> ?x0 \<or> ?y1 \<le> ?y0")
    case True
    then have "num' = num" "den' = den" using u by (auto simp: unpack_patch_def Let_def)
    then show ?thesis using covered True by auto
  next
    case False
    have "unpack_row sd w (?v yy) (yy * stride + ?x0) ?len = (\<lambda>s. (?num yy (fst s), ?den yy (snd s)))" for yy
      by (rule ext, rule unpack_row_eq) (use False assms(1) in auto)
    then have F: "unpack_patch sd stride x y col block width height w (num, den) =
        fold (\<lambda>yy s. (?num yy (fst s), ?den yy (snd s))) [?y0..?y1 - 1] (num, den)"
      using False by (simp only: unpack_patch_def Let_def if_False)
    have "fst (num', den') = fold ?num [?y0..?y1 - 1] num" "snd (num', den') = fold ?den [?y0..?y1 - 1] den"
      unfolding u [symmetric] F fold_fst [of ?num ?den] fold_snd [of ?num ?den] by (simp_all only: fst_conv snd_conv)
    then have eqs: "num' = fold ?num [?y0..?y1 - 1] num" "den' = fold ?den [?y0..?y1 - 1] den" by simp_all
    have b: "0 \<le> ?x0" "?x0 + ?len \<le> stride" using assms by auto
    show ?thesis
      unfolding eqs fold_rows [OF assms(3,4) b distinct_upto] using covered False by auto
  qed
  then show ?thesis using u by (auto simp: Let_def algebra_simps)
qed

definition example_simd :: simd where
  "example_simd = \<lparr>sd_lanes = 4, sd_bytes16 = True, sd_bytes32 = False, sd_bytes64 = False, sd_avx2_12 = False,
     sd_vec = example_arith, sd_scalar = example_arith\<rparr>"

theorem unpack_patch_exact_witness:
  "fst (unpack_patch example_simd 16 (- 2) 3 (\<lambda>k. word_of_int k) 8 12 9 2 (\<lambda>_. 1, \<lambda>_. 0)) (4 * 16 + 5) = 31"
proof -
  have "0 < sd_lanes example_simd" "(12::int) \<le> 16" "0 \<le> (5::int)" "(5::int) < 16" "0 \<le> (4::int)"
    by (simp_all add: example_simd_def)
  note h = unpack_patch_exact [OF this, of "- 2" 3 "\<lambda>k. word_of_int k" 8 9 2 "\<lambda>_. 1" "\<lambda>_. 0"]
  show ?thesis using h
    by (simp add: Let_def row_num_def vec_end_def example_simd_def example_arith_def tail_num_def split: prod.splits)
qed

text \<open>
  A gathered patch holds, at every position, the plane's value at the clamped
  coordinates; the copy of whole rows is the same function, and no read leaves the plane.
\<close>

theorem pack_patch_exact:
  assumes "1 \<le> width" "1 \<le> height" "0 \<le> px" "px < block" "0 \<le> py" "py < block"
  shows "\<exists>X Y. 0 \<le> X \<and> X < width \<and> 0 \<le> Y \<and> Y < height \<and>
    pack_patch col src stride x y block width height (py * block + px) = src (Y * stride + X) \<and>
    X = min (max (x + px) 0) (width - 1) \<and> Y = min (max (y + py) 0) (height - 1)"
proof -
  have c: "cclamp v 0 (n - 1) = min (max v 0) (n - 1)" if "1 \<le> n" for v n :: int
    using that by (auto simp: cclamp_def)
  show ?thesis
    using pack_patch_eq [OF assms(3-6), of col src stride x y width height] assms by (auto simp: c)
qed

theorem pack_patch_exact_witness:
  "pack_patch (\<lambda>_. 0) (\<lambda>i. word_of_int i) 16 10 (- 1) 4 12 8 (2 * 4 + 3) = 27"
proof -
  have "(1::int) \<le> 12" "(1::int) \<le> 8" "0 \<le> (3::int)" "(3::int) < 4" "0 \<le> (2::int)" "(2::int) < 4" by simp_all
  from pack_patch_exact [OF this, of "\<lambda>_. 0" "\<lambda>i. word_of_int i" 16 10 "- 1"]
  show ?thesis by auto
qed

text \<open>
  The fixed-width rows are an optimisation only: where the scalar arithmetic rounds like
  the vector arithmetic they leave both planes as the generic routine does, bit for bit, for
  every block size, target and position.
\<close>

theorem unpack_patch_fixed_equiv:
  assumes "0 < sd_lanes sd" "0 < block"
    and "\<And>w v n. fadd (sd_scalar sd) n (fmul (sd_scalar sd) w v) = ffma (sd_vec sd) w v n"
    and "\<And>a b. fadd (sd_scalar sd) a b = fadd (sd_vec sd) a b"
  shows "unpack_patch_fixed sd feature512 stride x y col block width height w s =
    unpack_patch sd stride x y col block width height w s"
proof -
  have fr: "fixed_row sd w row base len = unpack_row sd w row base len" if "0 \<le> len" for row base len
    by (rule ext) (rule fixed_row_unpack [OF assms(1) that assms(3,4)])
  have fr84: "fixed_row_8_4 sd w row base = unpack_row sd w row base 12" for row base
    unfolding fr [of 12, simplified, symmetric] by (simp add: fun_eq_iff fixed_row_8_4_def fixed_row_def map_span_split)
  show ?thesis
    using assms(2) by (auto simp: unpack_patch_fixed_def unpack_patch_inside fr fr84)
qed

theorem unpack_patch_fixed_equiv_witness:
  "unpack_patch_fixed example_simd False 16 2 3 (\<lambda>k. word_of_int k) 4 12 9 2 (\<lambda>_. 1, \<lambda>_. 0) =
   unpack_patch example_simd 16 2 3 (\<lambda>k. word_of_int k) 4 12 9 2 (\<lambda>_. 1, \<lambda>_. 0)"
  by (rule unpack_patch_fixed_equiv) (simp_all add: example_simd_def example_arith_def)

text \<open>
  C26. The temporal reduction gives every element of the output the quotient of the two
  sums over the \<open>2 * radius + 1\<close> slices in slice order, or the source where the
  denominator is too small; the unrolled versions for radii up to 4 are the same function
  as the one with the run-time loop.
\<close>

theorem vaggregate_reduce_exact:
  assumes "0 < sd_lanes sd" "0 \<le> X" "X < width" "width \<le> dstride" "0 \<le> Y" "Y < height"
  shows "vaggregate_reduce sd dst fat src width height dstride fstride sstride radius =
      vagg_reduce_runtime sd dst fat src width height dstride fstride sstride radius \<and>
    (let F = (if X < sd_lanes sd * (width div sd_lanes sd) then sd_vec sd else sd_scalar sd);
         ss = (if sstride < 1 then dstride else sstride);
         n = fold (\<lambda>t n. fadd F n (fat ((2 * t * height + Y) * fstride + X))) [0..2 * radius] f32_zero;
         d = fold (\<lambda>t d. fadd F d (fat (((2 * t + 1) * height + Y) * fstride + X))) [0..2 * radius] f32_zero
     in vaggregate_reduce sd dst fat src width height dstride fstride sstride radius (Y * dstride + X) =
        (if f32_lt f32_eps d then fdiv F n d else src (Y * ss + X)))"
proof -
  have eq: "vaggregate_reduce sd dst fat src width height dstride fstride sstride radius =
      vagg_reduce_runtime sd dst fat src width height dstride fstride sstride radius"
    by (simp add: vaggregate_reduce_def vagg_reduce_impl_runtime [OF assms(1)])
  have split: "fold (\<lambda>t (n, d). (f t n, g t d)) ts (n0, d0) = (fold f ts n0, fold g ts d0)"
    for f g :: "int \<Rightarrow> f32 \<Rightarrow> f32" and ts n0 d0
    by (induction ts arbitrary: n0 d0) simp_all
  have rows: "vagg_reduce_runtime sd dst fat src width height dstride fstride sstride radius (Y * dstride + X) =
      (let F = (if X < sd_lanes sd * (width div sd_lanes sd) then sd_vec sd else sd_scalar sd)
       in case runtime_sums F fat height fstride (2 * radius + 1) Y X of
            (n, d) \<Rightarrow> pixel_quotient F n d (src (Y * (if sstride < 1 then dstride else sstride) + X)))"
    unfolding vagg_reduce_runtime_def Let_def fold_finish_rows [OF assms] by simp
  show ?thesis
    unfolding eq rows by (simp add: Let_def runtime_sums_def slice_sums_def split pixel_quotient_def mult.commute)
qed

theorem vaggregate_reduce_exact_witness:
  "vaggregate_reduce example_simd (\<lambda>_. 7) (\<lambda>i. 0x10000000) (\<lambda>_. 5) 6 4 8 8 0 1 (2 * 8 + 3) = 0"
proof -
  have "0 < sd_lanes example_simd" "0 \<le> (3::int)" "(3::int) < 6" "(6::int) \<le> 8" "0 \<le> (2::int)" "(2::int) < 4"
    by (simp_all add: example_simd_def)
  note h = vaggregate_reduce_exact [OF this, of "\<lambda>_. 7" "\<lambda>i. 0x10000000" "\<lambda>_. 5" 8 0 1, THEN conjunct2]
  have ts: "[0..2 * 1] = [0, 1, 2 :: int]" by (simp add: upto.simps)
  have ex: "sd_vec example_simd = example_arith" "sd_scalar example_simd = example_arith" "fadd example_arith = (+)"
    "fdiv example_arith = (\<lambda>a b. a - b)" by (simp_all add: example_simd_def example_arith_def)
  have "f32_lt f32_eps 0x30000000" by (simp add: f32_lt_def f32_nan_def f32_key_def f32_mag_def f32_neg_def f32_eps_def)
  then show ?thesis using h unfolding ts by (simp add: Let_def ex f32_zero_def)
qed

lemma vaggregate_target_at:
  assumes "0 < sd_lanes sd" "0 \<le> X" "X < width" "width \<le> dstride" "0 \<le> Y" "Y < height"
  shows "(\<forall>num den stride. contributions = [(num, den, stride)] \<longrightarrow>
      (let n = num (Y * stride + X); d = den (Y * stride + X); s = src (Y * sstride + X)
       in vaggregate_target sd dst contributions src width height dstride sstride (Y * dstride + X) =
          (if f32_eq d f32_one then n else if f32_lt f32_eps d then fdiv (sd_scalar sd) n d else s))) \<and>
    (length contributions \<noteq> 1 \<longrightarrow>
      (let vec = X < sd_lanes sd * (width div sd_lanes sd);
           F = (if vec then sd_vec sd else sd_scalar sd);
           n = fold (\<lambda>(num, den, stride) n. fadd F n (num (Y * stride + X))) contributions f32_zero;
           d = fold (\<lambda>(num, den, stride) d. fadd F d (den (Y * stride + X))) contributions f32_zero
       in vaggregate_target sd dst contributions src width height dstride sstride (Y * dstride + X) =
          (if \<not> f32_lt f32_eps d then src (Y * sstride + X)
           else if vec \<and> f32_eq d f32_one then n else fdiv F n d)))"
proof (intro conjI allI impI)
  fix num den stride assume c: "contributions = [(num, den, stride)]"
  have w: "0 \<le> width" using assms by simp
  have row: "(\<lambda>dst. snd (step_loop 1 width (\<lambda>px. map_span (y * dstride) px (px + 1) (\<lambda>k _. f k)) 0 dst)) =
      map_span (y * dstride + 0) 0 width (\<lambda>k _. f k)" for y f
    using step_loop_span [OF w, of 1] by (simp add: fun_eq_iff)
  show "let n = num (Y * stride + X); d = den (Y * stride + X); s = src (Y * sstride + X)
       in vaggregate_target sd dst contributions src width height dstride sstride (Y * dstride + X) =
          (if f32_eq d f32_one then n else if f32_lt f32_eps d then fdiv (sd_scalar sd) n d else s)"
    unfolding c vaggregate_target_def list.case prod.case row Let_def
    using assms by (subst fold_rows) (auto simp: pixel_quotient_def)
next
  assume len: "length contributions \<noteq> 1"
  have split: "fold (\<lambda>(num, den, stride) (n, d). (f num stride n, g den stride d)) cs (n0, d0) =
      (fold (\<lambda>(num, den, stride) n. f num stride n) cs n0, fold (\<lambda>(num, den, stride) d. g den stride d) cs d0)"
    for f g :: "buffer \<Rightarrow> int \<Rightarrow> f32 \<Rightarrow> f32" and cs n0 d0
    by (induction cs arbitrary: n0 d0) (auto split: prod.splits)
  let ?vec = "X < sd_lanes sd * (width div sd_lanes sd)"
  have "vaggregate_target sd dst contributions src width height dstride sstride (Y * dstride + X) =
      (if ?vec then target_lane (sd_vec sd) (target_sums (sd_vec sd) contributions Y X) (src (Y * sstride + X))
       else case target_sums (sd_scalar sd) contributions Y X of
              (n, d) \<Rightarrow> pixel_quotient (sd_scalar sd) n d (src (Y * sstride + X)))"
    using len fold_finish_rows [OF assms]
    by (cases contributions rule: remdups_adj.cases) (auto simp: vaggregate_target_def)
  then show "let vec = ?vec; F = (if vec then sd_vec sd else sd_scalar sd);
           n = fold (\<lambda>(num, den, stride) n. fadd F n (num (Y * stride + X))) contributions f32_zero;
           d = fold (\<lambda>(num, den, stride) d. fadd F d (den (Y * stride + X))) contributions f32_zero
       in vaggregate_target sd dst contributions src width height dstride sstride (Y * dstride + X) =
          (if \<not> f32_lt f32_eps d then src (Y * sstride + X)
           else if vec \<and> f32_eq d f32_one then n else fdiv F n d)"
    by (simp add: Let_def target_sums_def split target_lane_def pixel_quotient_def)
qed

text \<open>
  The target of a temporal filter: with a single contribution an element whose
  denominator is exactly one is passed through bit for bit; otherwise each element is the
  quotient of the sums over the contributions in their order, or the source where the
  denominator is too small.
\<close>

theorem vaggregate_target_exact:
  assumes "0 < sd_lanes sd" "0 \<le> X" "X < width" "width \<le> dstride" "0 \<le> Y" "Y < height"
  shows "(\<forall>num den stride. contributions = [(num, den, stride)] \<longrightarrow>
      (let n = num (Y * stride + X); d = den (Y * stride + X); s = src (Y * sstride + X)
       in vaggregate_target sd dst contributions src width height dstride sstride (Y * dstride + X) =
          (if f32_eq d f32_one then n else if f32_lt f32_eps d then fdiv (sd_scalar sd) n d else s))) \<and>
    (length contributions \<noteq> 1 \<longrightarrow>
      (let vec = X < sd_lanes sd * (width div sd_lanes sd);
           F = (if vec then sd_vec sd else sd_scalar sd);
           n = fold (\<lambda>(num, den, stride) n. fadd F n (num (Y * stride + X))) contributions f32_zero;
           d = fold (\<lambda>(num, den, stride) d. fadd F d (den (Y * stride + X))) contributions f32_zero
       in vaggregate_target sd dst contributions src width height dstride sstride (Y * dstride + X) =
          (if \<not> f32_lt f32_eps d then src (Y * sstride + X)
           else if vec \<and> f32_eq d f32_one then n else fdiv F n d)))"
  using assms by (rule vaggregate_target_at)

theorem vaggregate_target_exact_witness:
  "vaggregate_target example_simd (\<lambda>_. 0) [(\<lambda>i. word_of_int i, \<lambda>_. f32_one, 8)] (\<lambda>_. 5) 6 4 8 8 (2 * 8 + 3) = 19"
proof -
  have "0 < sd_lanes example_simd" "0 \<le> (3::int)" "(3::int) < 6" "(6::int) \<le> 8" "0 \<le> (2::int)" "(2::int) < 4"
    by (simp_all add: example_simd_def)
  note h = vaggregate_target_exact [OF this, of "[(\<lambda>i. word_of_int i, \<lambda>_. f32_one, 8)]" "\<lambda>_. 5" 8 "\<lambda>_. 0"]
  have "f32_eq f32_one f32_one" by (simp add: f32_eq_def f32_nan_def f32_mag_def f32_one_def)
  then show ?thesis using h by (simp add: Let_def)
qed

end
