(* ===== verification/Contribution.thy ===== *)
theory Contribution
  imports Vs_Map
begin

text \<open>
  The identity of temporal contributions (include/nss/contracts.hpp,
  src/frontend/contribution.hpp): a filter in legacy temporal mode stamps its fat frames
  with the model, its semantic version, the radius and the center, and VAggregate accepts
  only frames whose stamp matches what it is asked to aggregate.
\<close>

subsection \<open>Models and versions\<close>

datatype model = M_bm3d | M_wnnm | M_mcwnnm | M_twsc | M_ncsr | M_nlh | M_lssc | M_nlm

fun model_id :: "model \<Rightarrow> int" where
  "model_id M_bm3d = 1"
| "model_id M_wnnm = 2"
| "model_id M_mcwnnm = 3"
| "model_id M_twsc = 4"
| "model_id M_ncsr = 5"
| "model_id M_nlh = 6"
| "model_id M_lssc = 7"
| "model_id M_nlm = 8"

definition kSemanticVersion :: int where "kSemanticVersion = 2"
definition kContributionVersion :: int where "kContributionVersion = 2"
definition kContributionNumDenSlices :: int where "kContributionNumDenSlices = 1"
definition noise_profile_bm3d :: int where "noise_profile_bm3d = 1"

text \<open>\<open>model_semantic_version\<close>, on the number of the enumerator (the code casts any integer to it).\<close>

definition model_semantic_version :: "int \<Rightarrow> int" where
  "model_semantic_version m =
     (if m = model_id M_nlh then 7
      else if m = model_id M_twsc then 6
      else if m = model_id M_ncsr then 3
      else if m = model_id M_lssc then 4
      else if m = model_id M_bm3d then 3
      else kSemanticVersion)"

record contribution_layout =
  cl_version :: int
  cl_radius :: int
  cl_center :: int
  cl_slice_layout :: int
  cl_model :: int
  cl_profile :: int

subsection \<open>Frame properties\<close>

text \<open>
  The property map of a frame: a key holds integers or data of another type.
  \<open>mapNumElements\<close> is negative for a key that is not there, \<open>mapGetInt\<close> fails for one
  without integers. Setting an integer may fail; \<open>refuses\<close> says for which keys.
\<close>

datatype prop_value = Prop_ints "int list" | Prop_other nat

type_synonym props = "string \<Rightarrow> prop_value option"

definition prop_count :: "props \<Rightarrow> string \<Rightarrow> int" where
  "prop_count p key =
     (case p key of None \<Rightarrow> - 1 | Some (Prop_ints vs) \<Rightarrow> int (length vs) | Some (Prop_other n) \<Rightarrow> int n)"

definition prop_int :: "props \<Rightarrow> string \<Rightarrow> int option" where
  "prop_int p key = (case p key of Some (Prop_ints (v # vs)) \<Rightarrow> Some v | _ \<Rightarrow> None)"

definition contribution_set :: "(string \<Rightarrow> bool) \<Rightarrow> string \<Rightarrow> int \<Rightarrow> props \<Rightarrow> props res" where
  "contribution_set refuses key value' p = (if refuses key then Inl Bad_alloc else Inr (p(key \<mapsto> Prop_ints [value'])))"

definition fat_keys :: "string list" where
  "fat_keys = [''_NSSFatVersion'', ''_NSSFatRadius'', ''_NSSFatCenter'', ''_NSSFatLayout'']"

definition stamp_contribution :: "(string \<Rightarrow> bool) \<Rightarrow> int \<Rightarrow> int \<Rightarrow> model \<Rightarrow> props \<Rightarrow> props res" where
  "stamp_contribution refuses radius center m p =
     (let profile = (if m = M_bm3d then noise_profile_bm3d else 0)
      in bindE (contribution_set refuses ''_NSSModel'' (model_id m) p) (\<lambda>p.
         bindE (contribution_set refuses ''_NSSModelVersion'' (model_semantic_version (model_id m)) p) (\<lambda>p.
         bindE (contribution_set refuses ''_NSSNoiseProfile'' profile p) (\<lambda>p.
           if 0 < radius
           then bindE (contribution_set refuses ''_NSSFatVersion'' kContributionVersion p) (\<lambda>p.
                bindE (contribution_set refuses ''_NSSFatRadius'' radius p) (\<lambda>p.
                bindE (contribution_set refuses ''_NSSFatCenter'' center p) (\<lambda>p.
                contribution_set refuses ''_NSSFatLayout'' kContributionNumDenSlices p)))
           else Inr (fold (\<lambda>key p. p(key := None)) fat_keys p)))))"

definition contribution_property :: "string \<Rightarrow> props \<Rightarrow> string \<Rightarrow> int res" where
  "contribution_property ns p key =
     (case prop_int p key of
        None \<Rightarrow> Inl (Invalid_argument (ns @ ''.VAggregate: missing or invalid contribution identity''))
      | Some v \<Rightarrow>
          if v < 0 \<or> v > 2147483647
          then Inl (Invalid_argument (ns @ ''.VAggregate: missing or invalid contribution identity''))
          else Inr v)"

definition legacy_keys :: "string list" where
  "legacy_keys = [''_NSSFatRadius'', ''_NSSFatCenter'', ''_NSSFatLayout'', ''_NSSModel'', ''_NSSModelVersion'', ''_NSSNoiseProfile'']"

definition validate_contribution :: "string \<Rightarrow> int \<Rightarrow> int \<Rightarrow> bool \<Rightarrow> props \<Rightarrow> contribution_layout res" where
  "validate_contribution ns radius center allow_legacy p =
     (if prop_count p ''_NSSFatVersion'' < 0 \<and> allow_legacy
      then if \<exists>key \<in> set legacy_keys. 0 \<le> prop_count p key
           then Inl (Invalid_argument (ns @ ''.VAggregate: partial contribution identity''))
           else Inr \<lparr>cl_version = 0, cl_radius = radius, cl_center = center,
                     cl_slice_layout = kContributionNumDenSlices, cl_model = 0, cl_profile = 0\<rparr>
      else
        bindE (contribution_property ns p ''_NSSFatVersion'') (\<lambda>version.
        bindE (contribution_property ns p ''_NSSFatRadius'') (\<lambda>r.
        bindE (contribution_property ns p ''_NSSFatCenter'') (\<lambda>c.
        bindE (contribution_property ns p ''_NSSFatLayout'') (\<lambda>layout.
        bindE (contribution_property ns p ''_NSSModel'') (\<lambda>m.
        bindE (contribution_property ns p ''_NSSNoiseProfile'') (\<lambda>profile.
          let bad = Inl (Invalid_argument (ns @ ''.VAggregate: incompatible contribution identity''))
          in if version \<noteq> kContributionVersion \<or> r \<noteq> radius \<or> c \<noteq> center \<or>
                layout \<noteq> kContributionNumDenSlices \<or> m < 1 \<or> m > 6 \<or>
                profile \<noteq> (if m = model_id M_bm3d then noise_profile_bm3d else 0)
             then bad
             else bindE (contribution_property ns p ''_NSSModelVersion'') (\<lambda>v.
                    if v \<noteq> model_semantic_version m then bad
                    else Inr \<lparr>cl_version = version, cl_radius = r, cl_center = c,
                              cl_slice_layout = layout, cl_model = m, cl_profile = profile\<rparr>))))))))"

subsection \<open>What a stamp holds\<close>

lemma prop_int_upd [simp]: "prop_int (p(key \<mapsto> Prop_ints [v])) k = (if k = key then Some v else prop_int p k)"
  by (simp add: prop_int_def)

lemma prop_count_upd [simp]: "prop_count (p(key \<mapsto> Prop_ints [v])) k = (if k = key then 1 else prop_count p k)"
  by (simp add: prop_count_def)

lemma contribution_set_Inr:
  "contribution_set refuses key v p = Inr q \<longleftrightarrow> \<not> refuses key \<and> q = p(key \<mapsto> Prop_ints [v])"
  by (auto simp: contribution_set_def)

lemma stamp_Inr:
  assumes "stamp_contribution refuses radius center m p = Inr q"
  shows "q = (let p1 = p(''_NSSModel'' \<mapsto> Prop_ints [model_id m], ''_NSSModelVersion'' \<mapsto> Prop_ints [model_semantic_version (model_id m)],
                        ''_NSSNoiseProfile'' \<mapsto> Prop_ints [if m = M_bm3d then noise_profile_bm3d else 0])
             in if 0 < radius
                then p1(''_NSSFatVersion'' \<mapsto> Prop_ints [kContributionVersion], ''_NSSFatRadius'' \<mapsto> Prop_ints [radius],
                        ''_NSSFatCenter'' \<mapsto> Prop_ints [center], ''_NSSFatLayout'' \<mapsto> Prop_ints [kContributionNumDenSlices])
                else fold (\<lambda>key p. p(key := None)) fat_keys p1)"
proof (cases "0 < radius")
  case True
  then show ?thesis using assms
    by (simp only: stamp_contribution_def Let_def bindE_Inr_iff contribution_set_Inr if_True) blast
next
  case False
  then show ?thesis using assms
    by (simp only: stamp_contribution_def Let_def bindE_Inr_iff contribution_set_Inr if_False sum.inject) blast
qed

lemma stamped:
  assumes "stamp_contribution refuses radius center m p = Inr q" "0 < radius"
  shows "prop_int q ''_NSSModel'' = Some (model_id m)"
    "prop_int q ''_NSSModelVersion'' = Some (model_semantic_version (model_id m))"
    "prop_int q ''_NSSNoiseProfile'' = Some (if m = M_bm3d then noise_profile_bm3d else 0)"
    "prop_int q ''_NSSFatVersion'' = Some kContributionVersion"
    "prop_int q ''_NSSFatRadius'' = Some radius"
    "prop_int q ''_NSSFatCenter'' = Some center"
    "prop_int q ''_NSSFatLayout'' = Some kContributionNumDenSlices"
    "prop_count q ''_NSSFatVersion'' = 1"
  unfolding stamp_Inr [OF assms(1)] Let_def if_P [OF assms(2)] by simp_all

lemma stamped_radius_0:
  assumes "stamp_contribution refuses radius center m p = Inr q" "radius \<le> 0"
  shows "prop_int q ''_NSSFatVersion'' = None" "prop_count q ''_NSSFatVersion'' < 0" "0 \<le> prop_count q ''_NSSModel''"
proof -
  have "\<not> 0 < radius" using assms(2) by simp
  then show "prop_int q ''_NSSFatVersion'' = None" "prop_count q ''_NSSFatVersion'' < 0" "0 \<le> prop_count q ''_NSSModel''"
    unfolding stamp_Inr [OF assms(1)] Let_def by (simp_all add: fat_keys_def prop_int_def prop_count_def)
qed

lemma model_id_range: "1 \<le> model_id m \<and> model_id m \<le> 8"
  by (cases m) simp_all

lemma model_id_bm3d: "model_id m = 1 \<longleftrightarrow> m = M_bm3d"
  by (cases m) simp_all

lemma model_version_range: "0 \<le> model_semantic_version m \<and> model_semantic_version m \<le> 7"
  by (simp add: model_semantic_version_def kSemanticVersion_def)

lemma validate_stamped:
  assumes st: "stamp_contribution refuses radius center m p = Inr q"
    and r: "0 < radius" "radius \<le> int_max" "0 \<le> center" "center \<le> int_max"
  shows "validate_contribution ns radius' center' allow_legacy q =
    (if radius' = radius \<and> center' = center \<and> model_id m \<le> 6
     then Inr \<lparr>cl_version = kContributionVersion, cl_radius = radius, cl_center = center,
               cl_slice_layout = kContributionNumDenSlices, cl_model = model_id m,
               cl_profile = (if m = M_bm3d then noise_profile_bm3d else 0)\<rparr>
     else Inl (Invalid_argument (ns @ ''.VAggregate: incompatible contribution identity'')))"
proof -
  note s = stamped [OF st r(1)]
  have props: "contribution_property ns q ''_NSSFatVersion'' = Inr kContributionVersion"
    "contribution_property ns q ''_NSSFatRadius'' = Inr radius"
    "contribution_property ns q ''_NSSFatCenter'' = Inr center"
    "contribution_property ns q ''_NSSFatLayout'' = Inr kContributionNumDenSlices"
    "contribution_property ns q ''_NSSModel'' = Inr (model_id m)"
    "contribution_property ns q ''_NSSNoiseProfile'' = Inr (if m = M_bm3d then noise_profile_bm3d else 0)"
    "contribution_property ns q ''_NSSModelVersion'' = Inr (model_semantic_version (model_id m))"
    using s r model_id_range [of m] model_version_range [of "model_id m"]
    by (auto simp: contribution_property_def int_max_def kContributionVersion_def kContributionNumDenSlices_def noise_profile_bm3d_def)
  show ?thesis
    using s(8) model_id_range [of m]
    by (auto simp: validate_contribution_def props Let_def model_id_bm3d)
qed

subsection \<open>Properties\<close>

text \<open>
  C10. A frame stamped with a radius is accepted for exactly that radius and center, and for
  the six models whose contributions can be aggregated, and the layout read back is the
  one stamped; for any other radius, center or model it is refused. A frame stamped with
  radius zero carries no fat identity and is always refused, also by the legacy adapter.
\<close>

theorem contribution_roundtrip:
  assumes "stamp_contribution refuses radius center m p = Inr q"
    and "radius \<le> int_max" "0 \<le> center" "center \<le> int_max"
  shows "(0 < radius \<longrightarrow>
      validate_contribution ns radius' center' allow_legacy q =
        (if radius' = radius \<and> center' = center \<and> m \<notin> {M_lssc, M_nlm}
         then Inr \<lparr>cl_version = kContributionVersion, cl_radius = radius, cl_center = center,
                   cl_slice_layout = kContributionNumDenSlices, cl_model = model_id m,
                   cl_profile = (if m = M_bm3d then noise_profile_bm3d else 0)\<rparr>
         else Inl (Invalid_argument (ns @ ''.VAggregate: incompatible contribution identity'')))) \<and>
    (radius \<le> 0 \<longrightarrow> (\<exists>e. validate_contribution ns radius' center' allow_legacy q = Inl e))"
proof (intro conjI impI)
  have six: "model_id m \<le> 6 \<longleftrightarrow> m \<notin> {M_lssc, M_nlm}" by (cases m) simp_all
  show "validate_contribution ns radius' center' allow_legacy q =
        (if radius' = radius \<and> center' = center \<and> m \<notin> {M_lssc, M_nlm}
         then Inr \<lparr>cl_version = kContributionVersion, cl_radius = radius, cl_center = center,
                   cl_slice_layout = kContributionNumDenSlices, cl_model = model_id m,
                   cl_profile = (if m = M_bm3d then noise_profile_bm3d else 0)\<rparr>
         else Inl (Invalid_argument (ns @ ''.VAggregate: incompatible contribution identity'')))" if "0 < radius"
    unfolding six [symmetric] by (rule validate_stamped [OF assms(1) that assms(2-4)])
  show "\<exists>e. validate_contribution ns radius' center' allow_legacy q = Inl e" if "radius \<le> 0"
    using stamped_radius_0 [OF assms(1) that]
    by (cases allow_legacy) (auto simp: validate_contribution_def contribution_property_def legacy_keys_def)
qed

theorem contribution_roundtrip_witness:
  "\<exists>q. stamp_contribution (\<lambda>_. False) 2 7 M_nlh (\<lambda>_. None) = Inr q \<and>
     (\<exists>l. validate_contribution ''nss'' 2 7 False q = Inr l \<and> cl_model l = 6) \<and>
     (\<exists>e. validate_contribution ''nss'' 2 8 False q = Inl e)"
proof -
  obtain q where q: "stamp_contribution (\<lambda>_. False) 2 7 M_nlh (\<lambda>_. None) = Inr q"
    by (simp add: stamp_contribution_def contribution_set_def Let_def)
  have "(2::int) \<le> int_max" "0 \<le> (7::int)" "(7::int) \<le> int_max" by (simp_all add: int_max_def)
  from contribution_roundtrip [OF q this, of "''nss''" 2 7 False] contribution_roundtrip [OF q this, of "''nss''" 2 8 False] q
  show ?thesis by simp
qed

end
