(* ===== verification/Temporal_Args.thy ===== *)
theory Temporal_Args
  imports Vs_Map
begin

text \<open>
  The temporal execution mode shared by every backend (include/nss/params/temporal.hpp,
  src/frontend/temporal_args.cpp): the parsers of the mode and of the rolling arguments, and
  the composition of a filter with VAggregate.
\<close>

subsection \<open>Modes and arguments\<close>

datatype temporal_mode = Legacy | Rolling
datatype rolling_cache = Fixed | Adaptive

record rolling_params =
  rp_chunk :: int
  rp_cache_chunks :: int
  rp_cache_limit :: int

definition default_rolling_params :: rolling_params where
  "default_rolling_params = \<lparr>rp_chunk = 4, rp_cache_chunks = 1, rp_cache_limit = 1\<rparr>"

definition ascii_lower :: "char \<Rightarrow> char" where
  "ascii_lower c = (if (65::nat) \<le> of_char c \<and> of_char c \<le> (90::nat) then char_of (of_char c + (32::nat)) else c)"

text \<open>An absent argument and an empty string both leave the string empty.\<close>

definition mode_string :: "vsmap \<Rightarrow> string" where
  "mode_string m = (case vm_data m ''temporal_mode'' 0 of None \<Rightarrow> [] | Some s \<Rightarrow> map ascii_lower (c_string s))"

definition parse_temporal_mode :: "vsmap \<Rightarrow> int \<Rightarrow> string \<Rightarrow> string \<Rightarrow> temporal_mode \<Rightarrow> temporal_mode res" where
  "parse_temporal_mode m radius flt ns unset =
     (let mode = mode_string m in
      if mode = ''fused'' then fail ns flt ''temporal_mode=fused is not supported; use rolling or legacy''
      else if mode \<noteq> [] \<and> mode \<noteq> ''rolling'' \<and> mode \<noteq> ''legacy''
      then fail ns flt ''temporal_mode must be rolling or legacy''
      else if radius \<le> 0 then Inr Legacy
      else if mode = [] then Inr unset
      else Inr (if mode = ''rolling'' then Rolling else Legacy))"

text \<open>The cache arguments after the two of them have been reconciled.\<close>

definition resolve_cache :: "vsmap \<Rightarrow> string \<Rightarrow> string \<Rightarrow> bool \<Rightarrow> rolling_params \<Rightarrow> rolling_params res" where
  "resolve_cache m flt ns adaptive p =
     (let limit_err = map_int_err m ''rolling_cache_limit''; chunks_err = map_int_err m ''rolling_cache_chunks'' in
      if \<not> adaptive
      then if \<not> limit_err \<and> \<not> chunks_err
           then fail ns flt ''use only one of rolling_cache_limit and rolling_cache_chunks''
           else let p1 = (if \<not> chunks_err then p\<lparr>rp_cache_limit := rp_cache_chunks p\<rparr> else p)
                in Inr (p1\<lparr>rp_cache_chunks := rp_cache_limit p1\<rparr>)
      else if limit_err \<and> \<not> chunks_err then Inr (p\<lparr>rp_cache_limit := rp_cache_chunks p\<rparr>)
      else Inr p)"

definition parse_rolling :: "vsmap \<Rightarrow> int \<Rightarrow> string \<Rightarrow> string \<Rightarrow> rolling_cache \<Rightarrow> rolling_params res" where
  "parse_rolling m radius flt ns cache =
     (let adaptive = (cache = Adaptive);
          p = \<lparr>rp_chunk = map_int m ''rolling_chunk'' (if adaptive then 1 else 4),
               rp_cache_chunks = map_int m ''rolling_cache_chunks'' 1,
               rp_cache_limit = map_int m ''rolling_cache_limit'' (if adaptive then 16 else 1)\<rparr>
      in if radius < 1 then fail ns flt ''rolling mode requires radius > 0''
         else if rp_chunk p < 1 \<or> rp_chunk p > 64 then fail ns flt ''rolling_chunk must be in [1, 64]''
         else bindE (resolve_cache m flt ns adaptive p) (\<lambda>p.
           if rp_cache_limit p < 1 \<or> rp_cache_limit p > 64 \<or> rp_cache_chunks p < 1 \<or> rp_cache_chunks p > 64
           then fail ns flt ''rolling_cache_limit must be in [1, 64]''
           else if rp_cache_limit p < rp_cache_chunks p
           then fail ns flt ''rolling_cache_limit must be at least rolling_cache_chunks''
           else Inr p))"

record temporal_request =
  tq_rolling :: bool
  tq_params :: rolling_params

definition parse_temporal :: "vsmap \<Rightarrow> int \<Rightarrow> string \<Rightarrow> string \<Rightarrow> temporal_mode \<Rightarrow> rolling_cache \<Rightarrow> temporal_request res" where
  "parse_temporal m default_radius flt ns unset cache =
     (let radius = map_int m ''radius'' default_radius in
      bindE (parse_temporal_mode m radius flt ns unset) (\<lambda>mode.
        if mode = Rolling
        then bindE (parse_rolling m radius flt ns cache) (\<lambda>p. Inr \<lparr>tq_rolling = True, tq_params = p\<rparr>)
        else Inr \<lparr>tq_rolling = False, tq_params = default_rolling_params\<rparr>))"

subsection \<open>Rolling as legacy and VAggregate\<close>

text \<open>
  A call of a filter leaves an error or a node on its output map. \<open>vaggregate\<close> is
  \<open>None\<close> when the plugin is not found, else VAggregate's answer to the fat clip, the
  source clip and the radius.
\<close>

type_synonym 'node outcome = "string + 'node"

definition aggregate_rolling :: "('node \<Rightarrow> 'node \<Rightarrow> int \<Rightarrow> 'node outcome) option \<Rightarrow> vsmap \<Rightarrow> 'node \<Rightarrow> 'node outcome \<Rightarrow>
    int \<Rightarrow> string \<Rightarrow> string \<Rightarrow> 'node outcome res" where
  "aggregate_rolling vaggregate m clip out default_radius flt ns =
     (case out of
        Inl e \<Rightarrow> Inr (Inl e)
      | Inr fat \<Rightarrow>
          (case vaggregate of
             None \<Rightarrow> fail ns flt ''rolling mode could not find VAggregate''
           | Some aggregate \<Rightarrow>
               (case aggregate fat clip (map_int m ''radius'' default_radius) of
                  Inl error \<Rightarrow> Inl (Runtime_error (ns @ ''.'' @ flt @ '': rolling aggregation failed: '' @ error))
                | Inr node \<Rightarrow> Inr (Inr node))))"

definition create_temporal :: "(vsmap \<Rightarrow> 'node outcome) \<Rightarrow> ('node \<Rightarrow> 'node \<Rightarrow> int \<Rightarrow> 'node outcome) option \<Rightarrow> vsmap \<Rightarrow> 'node \<Rightarrow>
    int \<Rightarrow> string \<Rightarrow> string \<Rightarrow> temporal_mode \<Rightarrow> rolling_cache \<Rightarrow> 'node outcome res" where
  "create_temporal create vaggregate m clip default_radius flt ns unset cache =
     bindE (parse_temporal m default_radius flt ns unset cache) (\<lambda>request.
       let out = create m
       in if tq_rolling request then aggregate_rolling vaggregate m clip out default_radius flt ns else Inr out)"

subsection \<open>Accepted requests\<close>

definition rolling_params_ok :: "rolling_cache \<Rightarrow> rolling_params \<Rightarrow> bool" where
  "rolling_params_ok cache p \<longleftrightarrow>
     1 \<le> rp_chunk p \<and> rp_chunk p \<le> 64 \<and> 1 \<le> rp_cache_chunks p \<and> rp_cache_chunks p \<le> rp_cache_limit p \<and>
     rp_cache_limit p \<le> 64 \<and> (cache = Fixed \<longrightarrow> rp_cache_chunks p = rp_cache_limit p)"

lemma resolve_cache_facts:
  "resolve_cache m flt ns adaptive p = Inr q \<Longrightarrow>
     rp_chunk q = rp_chunk p \<and> (\<not> adaptive \<longrightarrow> rp_cache_chunks q = rp_cache_limit q)"
  by (auto simp: resolve_cache_def Let_def split: if_splits)

lemma parse_rolling_ok:
  assumes "parse_rolling m radius flt ns cache = Inr q"
  shows "rolling_params_ok cache q \<and> 1 \<le> radius"
proof -
  let ?p = "\<lparr>rp_chunk = map_int m ''rolling_chunk'' (if cache = Adaptive then 1 else 4),
             rp_cache_chunks = map_int m ''rolling_cache_chunks'' 1,
             rp_cache_limit = map_int m ''rolling_cache_limit'' (if cache = Adaptive then 16 else 1)\<rparr>"
  have r: "resolve_cache m flt ns (cache = Adaptive) ?p = Inr q" "\<not> radius < 1"
    and c: "\<not> (rp_chunk ?p < 1 \<or> rp_chunk ?p > 64)"
    and l: "\<not> (rp_cache_limit q < 1 \<or> rp_cache_limit q > 64 \<or> rp_cache_chunks q < 1 \<or> rp_cache_chunks q > 64)"
      "\<not> rp_cache_limit q < rp_cache_chunks q"
    using assms by (auto simp: parse_rolling_def Let_def bindE_Inr_iff)
  from resolve_cache_facts [OF r(1)] c l r(2) show ?thesis
    by (cases cache) (auto simp: rolling_params_ok_def)
qed

lemma parse_mode_iff:
  "parse_temporal_mode m radius flt ns unset = Inr mode \<longleftrightarrow>
     mode_string m \<in> {[], ''rolling'', ''legacy''} \<and>
     mode = (if radius \<le> 0 then Legacy else if mode_string m = [] then unset
             else if mode_string m = ''rolling'' then Rolling else Legacy)"
  by (auto simp: parse_temporal_mode_def Let_def)

lemma parse_temporal_ok:
  assumes "parse_temporal m default_radius flt ns unset cache = Inr q"
  shows "mode_string m \<in> {[], ''rolling'', ''legacy''} \<and>
    (tq_rolling q \<longleftrightarrow> 0 < map_int m ''radius'' default_radius \<and>
      (mode_string m = ''rolling'' \<or> mode_string m = [] \<and> unset = Rolling)) \<and>
    (if tq_rolling q then rolling_params_ok cache (tq_params q) else tq_params q = default_rolling_params)"
proof -
  let ?r = "map_int m ''radius'' default_radius"
  obtain mode where mode: "parse_temporal_mode m ?r flt ns unset = Inr mode"
    and rest: "(if mode = Rolling
        then bindE (parse_rolling m ?r flt ns cache) (\<lambda>p. Inr \<lparr>tq_rolling = True, tq_params = p\<rparr>)
        else Inr \<lparr>tq_rolling = False, tq_params = default_rolling_params\<rparr>) = Inr q"
    using assms by (auto simp: parse_temporal_def Let_def bindE_Inr_iff)
  note md = mode [unfolded parse_mode_iff]
  show ?thesis
  proof (cases "mode = Rolling")
    case True
    then obtain p where p: "parse_rolling m ?r flt ns cache = Inr p" "q = \<lparr>tq_rolling = True, tq_params = p\<rparr>"
      using rest by (auto simp: bindE_Inr_iff)
    then show ?thesis using md True parse_rolling_ok [OF p(1)] by (auto split: if_splits)
  next
    case False
    then have "q = \<lparr>tq_rolling = False, tq_params = default_rolling_params\<rparr>" using rest by simp
    then show ?thesis using md False by (cases unset) (auto split: if_splits)
  qed
qed

subsection \<open>Properties\<close>

text \<open>
  C31. A filter created in temporal mode rolls exactly when the radius is positive and the
  mode asks for it; the rolling arguments it then uses are in range, with a cache that
  starts at no more than its limit and does not grow when it is fixed. Otherwise the
  filter's own result is returned untouched. When it rolls, an error of the filter is kept,
  a missing VAggregate and its errors are reported, and the clip returned is VAggregate's.
\<close>

theorem create_temporal_exact:
  assumes "parse_temporal m default_radius flt ns unset cache = Inr q"
  shows "(tq_rolling q \<longleftrightarrow> 0 < map_int m ''radius'' default_radius \<and>
      (mode_string m = ''rolling'' \<or> mode_string m = [] \<and> unset = Rolling)) \<and>
    (tq_rolling q \<longrightarrow> rolling_params_ok cache (tq_params q)) \<and>
    create_temporal create vaggregate m clip default_radius flt ns unset cache =
      (if \<not> tq_rolling q then Inr (create m)
       else case create m of
         Inl e \<Rightarrow> Inr (Inl e)
       | Inr fat \<Rightarrow>
           (case vaggregate of
              None \<Rightarrow> Inl (Invalid_argument (ns @ ''.'' @ flt @ '': rolling mode could not find VAggregate''))
            | Some aggregate \<Rightarrow>
                (case aggregate fat clip (map_int m ''radius'' default_radius) of
                   Inl error \<Rightarrow> Inl (Runtime_error (ns @ ''.'' @ flt @ '': rolling aggregation failed: '' @ error))
                 | Inr node \<Rightarrow> Inr (Inr node))))"
  using parse_temporal_ok [OF assms] assms
  by (auto simp: create_temporal_def aggregate_rolling_def fail_def Let_def split: if_splits sum.splits option.splits)

definition rolling_map :: vsmap where
  "rolling_map =
     \<lparr>vm_keys = [''radius'', ''temporal_mode''], vm_type = (\<lambda>k. if k = ''radius'' then Pt_int else Pt_other),
      vm_count = (\<lambda>k. if k = ''radius'' \<or> k = ''temporal_mode'' then 1 else - 1),
      vm_int = (\<lambda>k i. if k = ''radius'' \<and> i = 0 then Some 2 else None), vm_float = (\<lambda>_ _. None),
      vm_data = (\<lambda>k i. if k = ''temporal_mode'' \<and> i = 0 then Some ''Rolling'' else None)\<rparr>"

theorem create_temporal_exact_witness:
  "create_temporal (\<lambda>_. Inr (10 :: nat)) (Some (\<lambda>fat src radius. Inr (fat + src + nat radius))) rolling_map 1
     0 ''BM3D'' ''nss'' Legacy Fixed = Inr (Inr 13)"
proof -
  have "mode_string rolling_map = ''rolling''"
    by (simp add: mode_string_def rolling_map_def c_string_def ascii_lower_def char_of_def bit_0)
  moreover have "map_int rolling_map ''radius'' 0 = 2" by (simp add: map_int_def rolling_map_def to_int32_def)
  ultimately have p: "parse_temporal rolling_map 0 ''BM3D'' ''nss'' Legacy Fixed =
      Inr \<lparr>tq_rolling = True, tq_params = \<lparr>rp_chunk = 4, rp_cache_chunks = 1, rp_cache_limit = 1\<rparr>\<rparr>"
    by (simp add: parse_temporal_def parse_temporal_mode_def parse_rolling_def resolve_cache_def map_int_err_def
        map_int_def rolling_map_def Let_def)
  show ?thesis
    using create_temporal_exact [OF p, of "\<lambda>_. Inr 10" "Some (\<lambda>fat src radius. Inr (fat + src + nat radius))" 1]
      \<open>map_int rolling_map ''radius'' 0 = 2\<close> by simp
qed

end
