(* ===== verification/Bm3d_Args.thy ===== *)
theory Bm3d_Args
  imports Vs_Map Temporal_Match
begin

text \<open>
  The arguments of BM3D (include/nss/params/bm3d.hpp, src/frontend/bm3d_args.cpp): the
  parser shared by the backends, in the order in which it reads and checks, and the
  search configuration a plane is matched with (src/host/filter_bm3d.cpp).
\<close>

subsection \<open>Parameters\<close>

record bm3d_params =
  bp_sigma :: "f32 list"
  bp_block :: "int list"
  bp_group :: "int list"
  bp_step :: "int list"
  bp_range :: "int list"
  bp_ps_num :: "int list"
  bp_ps_range :: "int list"
  bp_radius :: int
  bp_chroma :: bool
  bp_final :: bool
  bp_sigma_basic :: "f32 list"
  bp_block_basic :: "int list"
  bp_group_basic :: "int list"
  bp_step_basic :: "int list"
  bp_ps_num_basic :: "int list"

text \<open>\<open>3.0f\<close>, \<open>0.75f\<close> and the rounded \<open>1.f / 255.f\<close> is left to the arithmetic.\<close>

definition kBmDefaultSigma :: f32 where "kBmDefaultSigma = 0x40400000"
definition bm3d_calibration :: f32 where "bm3d_calibration = 0x3f400000"
definition kBmBlock :: int where "kBmBlock = 8"
definition kBmGroup :: int where "kBmGroup = 8"
definition kBmDefaultStep :: int where "kBmDefaultStep = 8"
definition kBm3dDefaultRange :: int where "kBm3dDefaultRange = 9"
definition kBmDefaultPsNum :: int where "kBmDefaultPsNum = 2"
definition kBmDefaultPsRange :: int where "kBmDefaultPsRange = 4"

definition bm3d_effective :: "farith \<Rightarrow> f32 \<Rightarrow> f32" where
  "bm3d_effective F user_sigma = fmul F (fmul F user_sigma (fdiv F f32_one f32_255)) bm3d_calibration"

definition default_bm3d_params :: bm3d_params where
  "default_bm3d_params =
     \<lparr>bp_sigma = replicate 3 kBmDefaultSigma, bp_block = replicate 3 kBmBlock, bp_group = replicate 3 kBmGroup,
      bp_step = replicate 3 kBmDefaultStep, bp_range = replicate 3 kBm3dDefaultRange,
      bp_ps_num = replicate 3 kBmDefaultPsNum, bp_ps_range = replicate 3 kBmDefaultPsRange,
      bp_radius = 0, bp_chroma = False, bp_final = False, bp_sigma_basic = replicate 3 0,
      bp_block_basic = replicate 3 0, bp_group_basic = replicate 3 0, bp_step_basic = replicate 3 0,
      bp_ps_num_basic = replicate 3 0\<rparr>"

subsection \<open>The parser\<close>

text \<open>The loop of \<open>parse_sigma\<close> over the planes: checked, then scaled unless zero.\<close>

definition sigma_invalid :: "f32 \<Rightarrow> bool" where
  "sigma_invalid s \<longleftrightarrow> \<not> finite_bits s \<or> f32_lt s f32_zero"

definition effective_or_zero :: "farith \<Rightarrow> f32 \<Rightarrow> f32" where
  "effective_or_zero F s = (if \<not> f32_eq s f32_zero then bm3d_effective F s else s)"

definition sigma_step :: "farith \<Rightarrow> string \<Rightarrow> nat \<Rightarrow> f32 list \<Rightarrow> f32 list res" where
  "sigma_step F ns i sigma =
     (if sigma_invalid (sigma ! i) then fail ns ''BM3D'' ''sigma must be finite and non-negative''
      else Inr (sigma[i := effective_or_zero F (sigma ! i)]))"

definition parse_sigma :: "farith \<Rightarrow> vsmap \<Rightarrow> nat \<Rightarrow> string \<Rightarrow> bm3d_params \<Rightarrow> (f32 list \<times> bm3d_params) res" where
  "parse_sigma F m np ns p =
     (let given = map_float_array F m ''sigma'' (bp_sigma p) (int np) kBmDefaultSigma
      in bindE (foldE (sigma_step F ns) [0..<np] given) (\<lambda>sigma. Inr (given, p\<lparr>bp_sigma := sigma\<rparr>)))"

definition map_adaptive :: "vsmap \<Rightarrow> string \<Rightarrow> int list \<Rightarrow> nat \<Rightarrow> int \<Rightarrow> int list \<Rightarrow> int list" where
  "map_adaptive m key out np fallback limit =
     (if vm_count m key \<le> 0 then map (\<lambda>i. min fallback (limit ! i)) [0..<np] @ drop np out
      else map_inherit_int m key out (int np) fallback)"

text \<open>Planes 1 to \<open>np - 1\<close> take the value of plane 0.\<close>

definition spread :: "nat \<Rightarrow> 'a list \<Rightarrow> 'a list" where
  "spread np xs = fold (\<lambda>i xs. xs[i := xs ! 0]) [1..<np] xs"

definition parse_chroma :: "vsmap \<Rightarrow> video_info \<Rightarrow> string \<Rightarrow> bm3d_params \<Rightarrow> bm3d_params res" where
  "parse_chroma m vi ns p =
     (let chroma = map_int m ''chroma'' 0; np = nat (vi_planes vi) in
      if chroma \<noteq> 0 \<and> chroma \<noteq> 1 then fail ns ''BM3D'' ''chroma must be 0 or 1''
      else let p = p\<lparr>bp_chroma := chroma \<noteq> 0\<rparr> in
        if \<not> bp_chroma p then Inr p
        else if vi_family vi \<noteq> Cf_yuv \<or> vi_ss_w vi \<noteq> 0 \<or> vi_ss_h vi \<noteq> 0
        then fail ns ''BM3D'' ''chroma requires a YUV 4:4:4 clip''
        else Inr (p\<lparr>bp_block := spread np (bp_block p), bp_group := spread np (bp_group p), bp_step := spread np (bp_step p),
                   bp_range := spread np (bp_range p), bp_ps_num := spread np (bp_ps_num p),
                   bp_ps_range := spread np (bp_ps_range p)\<rparr>))"

text \<open>One plane of the basic stage.\<close>

definition basic_plane :: "farith \<Rightarrow> video_info \<Rightarrow> string \<Rightarrow> f32 list \<Rightarrow> bool \<Rightarrow> bool \<Rightarrow> nat \<Rightarrow> bm3d_params \<Rightarrow> bm3d_params res" where
  "basic_plane F vi ns sigma_given step_given ps_given i p =
     (let plane = (if bp_chroma p then 0 else i);
          block = bp_block_basic p ! plane; group' = bp_group_basic p ! plane;
          p = p\<lparr>bp_block_basic := (bp_block_basic p)[i := block], bp_group_basic := (bp_group_basic p)[i := group']\<rparr>
      in if sigma_invalid (sigma_given ! i) then fail ns ''BM3D'' ''sigma_basic must be finite and non-negative''
         else let p = p\<lparr>bp_sigma_basic := (bp_sigma_basic p)
                [i := if \<not> f32_eq (sigma_given ! i) f32_zero then bm3d_effective F (sigma_given ! i) else f32_zero]\<rparr> in
         if \<not> bm_allowed_block block then fail ns ''BM3D'' ''block_size_basic must be one of 1, 2, 4, 8, 12, 16, 32''
         else if \<not> bm_allowed_group group' then fail ns ''BM3D'' ''group_size_basic must be one of 1, 2, 4, 8, 16, 32, 64''
         else if block > plane_width vi (int i) \<or> block > plane_height vi (int i)
         then fail ns ''BM3D'' ''block_size_basic must not exceed plane dimensions''
         else let step = (if step_given then bp_step p ! i else min kBmDefaultStep block);
                  ps_num = (if ps_given then bp_ps_num p ! i else min kBmDefaultPsNum group');
                  p = p\<lparr>bp_step_basic := (bp_step_basic p)[i := step], bp_ps_num_basic := (bp_ps_num_basic p)[i := ps_num]\<rparr>
              in if step > block then fail ns ''BM3D'' ''block_step must be in [1, block_size_basic]''
                 else if ps_num > group' then fail ns ''BM3D'' ''ps_num must be in [1, group_size_basic]''
                 else Inr p)"

definition copy_first :: "nat \<Rightarrow> 'a list \<Rightarrow> 'a list \<Rightarrow> 'a list" where
  "copy_first np src dst = take np src @ drop np dst"

definition parse_basic_stage :: "farith \<Rightarrow> vsmap \<Rightarrow> video_info \<Rightarrow> string \<Rightarrow> bool \<Rightarrow> bool \<Rightarrow> bool \<Rightarrow> f32 list \<Rightarrow> bm3d_params \<Rightarrow> bm3d_params res" where
  "parse_basic_stage F m vi ns sigma_basic block_basic group_basic sigma_given p =
     (let np = nat (vi_planes vi);
          given = (if sigma_basic then map_float_array F m ''sigma_basic'' sigma_given (int np) kBmDefaultSigma else sigma_given);
          step_given = 0 < vm_count m ''block_step'';
          ps_given = 0 < vm_count m ''ps_num'';
          blocks = copy_first np (bp_block p) (bp_block_basic p);
          groups = copy_first np (bp_group p) (bp_group_basic p);
          p = p\<lparr>bp_block_basic := (if block_basic then map_inherit_int m ''block_size_basic'' blocks (int np) kBmBlock else blocks),
                bp_group_basic := (if group_basic then map_inherit_int m ''group_size_basic'' groups (int np) kBmGroup else groups)\<rparr>
      in foldE (basic_plane F vi ns given step_given ps_given) [0..<np] p)"

definition check_plane :: "video_info \<Rightarrow> string \<Rightarrow> bm3d_params \<Rightarrow> nat \<Rightarrow> unit \<Rightarrow> unit res" where
  "check_plane vi ns p i u =
     (if \<not> bm_allowed_block (bp_block p ! i) then fail ns ''BM3D'' ''block_size must be one of 1, 2, 4, 8, 12, 16, 32''
      else if \<not> bm_allowed_group (bp_group p ! i) then fail ns ''BM3D'' ''group_size must be one of 1, 2, 4, 8, 16, 32, 64''
      else if bp_block p ! i > plane_width vi (int i) \<or> bp_block p ! i > plane_height vi (int i)
      then fail ns ''BM3D'' ''block_size must not exceed plane dimensions''
      else if bp_step p ! i < 1 \<or> bp_step p ! i > bp_block p ! i
      then fail ns ''BM3D'' ''block_step must be in [1, block_size]''
      else if bp_ps_num p ! i < 1 \<or> bp_ps_num p ! i > bp_group p ! i
      then fail ns ''BM3D'' ''ps_num must be in [1, group_size]''
      else if bp_range p ! i < 1 \<or> bp_range p ! i > kBmMaxRange then fail ns ''BM3D'' ''bm_range must be in [1, 64]''
      else if bp_ps_range p ! i < 0 \<or> bp_ps_range p ! i > kBmMaxRange then fail ns ''BM3D'' ''ps_range must be in [0, 64]''
      else Inr u)"

definition check_planes :: "video_info \<Rightarrow> string \<Rightarrow> bm3d_params \<Rightarrow> unit res" where
  "check_planes vi ns p = foldE (check_plane vi ns p) [0..<nat (vi_planes vi)] ()"

text \<open>The shape arguments in the order they are read, then the two stages.\<close>

definition read_shapes :: "vsmap \<Rightarrow> nat \<Rightarrow> bm3d_params \<Rightarrow> bm3d_params" where
  "read_shapes m np p =
     (let block = map_inherit_int m ''block_size'' (bp_block p) (int np) kBmBlock;
          group' = map_inherit_int m ''group_size'' (bp_group p) (int np) kBmGroup
      in p\<lparr>bp_block := block, bp_group := group',
           bp_step := map_adaptive m ''block_step'' (bp_step p) np kBmDefaultStep block,
           bp_range := map_int_array m ''bm_range'' (bp_range p) (int np) kBm3dDefaultRange,
           bp_ps_num := map_adaptive m ''ps_num'' (bp_ps_num p) np kBmDefaultPsNum group',
           bp_ps_range := map_int_array m ''ps_range'' (bp_ps_range p) (int np) kBmDefaultPsRange,
           bp_radius := map_int m ''radius'' 0\<rparr>)"

definition parse_final :: "farith \<Rightarrow> vsmap \<Rightarrow> video_info \<Rightarrow> video_info option \<Rightarrow> string \<Rightarrow> f32 list \<Rightarrow> bm3d_params \<Rightarrow> bm3d_params res" where
  "parse_final F m vi ref_vi ns sigma_given p =
     (let final = map_int m ''final'' 0 in
      if final \<noteq> 0 \<and> final \<noteq> 1 then fail ns ''BM3D'' ''final must be 0 or 1''
      else let p = p\<lparr>bp_final := final \<noteq> 0\<rparr>;
               sigma_basic = 0 < vm_count m ''sigma_basic'';
               block_basic = 0 < vm_count m ''block_size_basic'';
               group_basic = 0 < vm_count m ''group_size_basic''
           in if \<not> bp_final p \<and> (sigma_basic \<or> block_basic \<or> group_basic)
              then fail ns ''BM3D'' ''sigma_basic, block_size_basic and group_size_basic require final=1''
              else if bp_final p \<and> ref_vi \<noteq> None then fail ns ''BM3D'' ''use only one of final and ref''
              else if bp_final p then parse_basic_stage F m vi ns sigma_basic block_basic group_basic sigma_given p
              else Inr p)"

definition parse_bm3d :: "vs_helpers \<Rightarrow> farith \<Rightarrow> vsmap \<Rightarrow> video_info \<Rightarrow> video_info option \<Rightarrow> string \<Rightarrow> bm3d_params res" where
  "parse_bm3d h F m vi ref_vi ns =
     (if \<not> is_const_32f h vi then fail ns ''BM3D'' ''constant Gray/YUV/RGB 32-bit float required''
      else if (case ref_vi of None \<Rightarrow> False | Some r \<Rightarrow> \<not> same_video h vi r) then fail ns ''BM3D'' ''ref must match clip''
      else bindE (parse_sigma F m (nat (vi_planes vi)) ns default_bm3d_params) (\<lambda>(sigma_given, p).
        let p = read_shapes m (nat (vi_planes vi)) p in
        if bp_radius p < 0 \<or> bp_radius p > kBmMaxRadius then fail ns ''BM3D'' ''radius must be in [0, 16]''
        else bindE (parse_chroma m vi ns p) (\<lambda>p.
             bindE (parse_final F m vi ref_vi ns sigma_given p) (\<lambda>p.
             bindE (check_planes vi ns p) (\<lambda>_. Inr p)))))"

subsection \<open>The search of a plane\<close>

text \<open>The configuration \<open>process_planes_batched\<close> gives the matcher, for the frame \<open>center\<close> of the clip.\<close>

definition bm3d_search :: "int \<Rightarrow> int \<Rightarrow> int \<Rightarrow> int \<Rightarrow> int \<Rightarrow> int \<Rightarrow> int \<Rightarrow> int \<Rightarrow> int \<Rightarrow> search_config" where
  "bm3d_search block group' step bm_range ps_num ps_range radius center frame_count =
     default_search_config\<lparr>sc_block := block, sc_step := step, sc_group := group', sc_bm_range := bm_range,
       sc_radius := radius, sc_valid_t_begin := max 0 (radius - center),
       sc_valid_t_end := radius + min (radius + 1) (frame_count - center),
       sc_ps_num := ps_num, sc_ps_range := ps_range\<rparr>"

subsection \<open>What an accepted call satisfies\<close>

definition bm3d_plane_ok :: "video_info \<Rightarrow> bm3d_params \<Rightarrow> nat \<Rightarrow> bool" where
  "bm3d_plane_ok vi p i \<longleftrightarrow>
     bm_allowed_block (bp_block p ! i) \<and> bm_allowed_group (bp_group p ! i) \<and>
     bp_block p ! i \<le> plane_width vi (int i) \<and> bp_block p ! i \<le> plane_height vi (int i) \<and>
     1 \<le> bp_step p ! i \<and> bp_step p ! i \<le> bp_block p ! i \<and>
     1 \<le> bp_ps_num p ! i \<and> bp_ps_num p ! i \<le> bp_group p ! i \<and>
     1 \<le> bp_range p ! i \<and> bp_range p ! i \<le> kBmMaxRange \<and>
     0 \<le> bp_ps_range p ! i \<and> bp_ps_range p ! i \<le> kBmMaxRange"

definition bm3d_basic_ok :: "video_info \<Rightarrow> bm3d_params \<Rightarrow> nat \<Rightarrow> bool" where
  "bm3d_basic_ok vi p i \<longleftrightarrow>
     bm_allowed_block (bp_block_basic p ! i) \<and> bm_allowed_group (bp_group_basic p ! i) \<and>
     bp_block_basic p ! i \<le> plane_width vi (int i) \<and> bp_block_basic p ! i \<le> plane_height vi (int i) \<and>
     1 \<le> bp_step_basic p ! i \<and> bp_step_basic p ! i \<le> bp_block_basic p ! i \<and>
     1 \<le> bp_ps_num_basic p ! i \<and> bp_ps_num_basic p ! i \<le> bp_group_basic p ! i"

lemma check_plane_iff: "check_plane vi ns p i u = Inr v \<longleftrightarrow> bm3d_plane_ok vi p i"
  by (auto simp: check_plane_def bm3d_plane_ok_def not_less)

lemma check_planes_ok:
  assumes "check_planes vi ns p = Inr u"
  shows "\<forall>i < nat (vi_planes vi). bm3d_plane_ok vi p i"
  using foldE_invariant [OF assms [unfolded check_planes_def], where P = "\<lambda>A _. \<forall>i \<in> A. bm3d_plane_ok vi p i"]
  by (auto simp: check_plane_iff)

lemma parse_sigma_ok:
  assumes "parse_sigma F m np ns p = Inr (given, q)" "length (bp_sigma p) = 3" "np \<le> 3"
  shows "given = map_float_array F m ''sigma'' (bp_sigma p) (int np) kBmDefaultSigma \<and>
    (\<exists>sigma. q = p\<lparr>bp_sigma := sigma\<rparr> \<and>
      (\<forall>i < np. \<not> sigma_invalid (given ! i) \<and> sigma ! i = effective_or_zero F (given ! i)))"
proof -
  let ?g = "map_float_array F m ''sigma'' (bp_sigma p) (int np) kBmDefaultSigma"
  obtain sigma where f: "foldE (sigma_step F ns) [0..<np] ?g = Inr sigma"
    and q: "given = ?g" "q = p\<lparr>bp_sigma := sigma\<rparr>"
    using assms(1) by (auto simp: parse_sigma_def Let_def bindE_Inr_iff)
  have len: "length ?g = 3" using assms(2,3) length_map_array(2) [of "int np" F m "''sigma''" "bp_sigma p"] by auto
  have run: "foldE (sigma_step F ns) is s = Inr t \<Longrightarrow> distinct is \<Longrightarrow> \<forall>i \<in> set is. i < length s \<Longrightarrow>
      (\<forall>i \<in> set is. \<not> sigma_invalid (s ! i) \<and> t ! i = effective_or_zero F (s ! i)) \<and>
      (\<forall>i. i \<notin> set is \<longrightarrow> t ! i = s ! i)" for "is" s t
  proof (induction "is" arbitrary: s)
    case Nil
    then show ?case by simp
  next
    case (Cons i "is")
    let ?s = "s[i := effective_or_zero F (s ! i)]"
    obtain s' where s': "sigma_step F ns i s = Inr s'" "foldE (sigma_step F ns) is s' = Inr t"
      using Cons.prems(1) by (auto simp: bindE_Inr_iff)
    then have st: "\<not> sigma_invalid (s ! i)" "foldE (sigma_step F ns) is ?s = Inr t"
      by (auto simp: sigma_step_def)
    with Cons.IH [OF st(2)] Cons.prems(2,3)
    have ih: "(\<forall>j \<in> set is. \<not> sigma_invalid (?s ! j) \<and> t ! j = effective_or_zero F (?s ! j)) \<and>
      (\<forall>j. j \<notin> set is \<longrightarrow> t ! j = ?s ! j)" by simp
    have "?s ! j = (if j = i then effective_or_zero F (s ! i) else s ! j)" for j
      using Cons.prems(3) by (simp add: nth_list_update)
    then show ?case using ih st(1) Cons.prems(2) by auto
  qed
  have "\<forall>i \<in> set [0..<np]. i < length ?g" using len assms(3) by auto
  from run [OF f distinct_upt this] show ?thesis using q by auto
qed

lemma spread_spec:
  assumes "np \<le> length xs"
  shows "length (spread np xs) = length xs \<and> (i < np \<longrightarrow> spread np xs ! i = xs ! 0)"
proof -
  have "length (fold (\<lambda>i xs. xs[i := xs ! 0]) is xs) = length xs \<and>
      (0 \<notin> set is \<and> (\<forall>j \<in> set is. j < length xs) \<longrightarrow>
        (\<forall>j. fold (\<lambda>i xs. xs[i := xs ! 0]) is xs ! j = (if j \<in> set is then xs ! 0 else xs ! j)))" for "is" and xs :: "'a list"
    by (induction "is" arbitrary: xs) (auto simp: nth_list_update)
  from this [of "[1..<np]" xs] show ?thesis
    using assms unfolding spread_def by (cases i) auto
qed

lemma parse_chroma_ok:
  assumes "parse_chroma m vi ns p = Inr q"
  shows "bp_sigma q = bp_sigma p \<and> bp_radius q = bp_radius p \<and>
    (bp_chroma q \<longrightarrow> vi_family vi = Cf_yuv \<and> vi_ss_w vi = 0 \<and> vi_ss_h vi = 0 \<and>
      q = p\<lparr>bp_chroma := True, bp_block := spread (nat (vi_planes vi)) (bp_block p),
            bp_group := spread (nat (vi_planes vi)) (bp_group p), bp_step := spread (nat (vi_planes vi)) (bp_step p),
            bp_range := spread (nat (vi_planes vi)) (bp_range p), bp_ps_num := spread (nat (vi_planes vi)) (bp_ps_num p),
            bp_ps_range := spread (nat (vi_planes vi)) (bp_ps_range p)\<rparr>) \<and>
    (\<not> bp_chroma q \<longrightarrow> q = p\<lparr>bp_chroma := False\<rparr>)"
  using assms by (auto simp: parse_chroma_def Let_def split: if_splits)

lemma length_spread [simp]: "length (spread np xs) = length xs"
proof -
  have "length (fold (\<lambda>i xs. xs[i := xs ! 0]) is xs) = length xs" for "is" and xs :: "'a list"
    by (induction "is" arbitrary: xs) simp_all
  then show ?thesis by (simp add: spread_def)
qed

lemma parse_chroma_keep:
  assumes "parse_chroma m vi ns p = Inr q"
  shows "bp_sigma q = bp_sigma p" "bp_radius q = bp_radius p" "length (bp_block q) = length (bp_block p)"
    "length (bp_group q) = length (bp_group p)" "bp_block_basic q = bp_block_basic p" "bp_group_basic q = bp_group_basic p"
    "bp_sigma_basic q = bp_sigma_basic p" "bp_step_basic q = bp_step_basic p" "bp_ps_num_basic q = bp_ps_num_basic p"
  using parse_chroma_ok [OF assms] by (cases "bp_chroma q"; simp)+

subsection \<open>The basic stage\<close>

lemma basic_plane_Inr:
  assumes "basic_plane F vi ns given step_given ps_given i p = Inr q"
  defines "plane \<equiv> if bp_chroma p then 0 else i"
  shows "\<not> sigma_invalid (given ! i) \<and> bm_allowed_block (bp_block_basic p ! plane) \<and> bm_allowed_group (bp_group_basic p ! plane) \<and>
    bp_block_basic p ! plane \<le> plane_width vi (int i) \<and> bp_block_basic p ! plane \<le> plane_height vi (int i) \<and>
    (if step_given then bp_step p ! i else min kBmDefaultStep (bp_block_basic p ! plane)) \<le> bp_block_basic p ! plane \<and>
    (if ps_given then bp_ps_num p ! i else min kBmDefaultPsNum (bp_group_basic p ! plane)) \<le> bp_group_basic p ! plane \<and>
    q = p\<lparr>bp_block_basic := (bp_block_basic p)[i := bp_block_basic p ! plane],
          bp_group_basic := (bp_group_basic p)[i := bp_group_basic p ! plane],
          bp_sigma_basic := (bp_sigma_basic p)[i := if \<not> f32_eq (given ! i) f32_zero then bm3d_effective F (given ! i) else f32_zero],
          bp_step_basic := (bp_step_basic p)[i := if step_given then bp_step p ! i else min kBmDefaultStep (bp_block_basic p ! plane)],
          bp_ps_num_basic := (bp_ps_num_basic p)[i := if ps_given then bp_ps_num p ! i else min kBmDefaultPsNum (bp_group_basic p ! plane)]\<rparr>"
  using assms(1) unfolding basic_plane_def Let_def plane_def [symmetric]
  by (auto simp: not_less simp del: if_fail_eq_Inr split: if_split_asm)

text \<open>What the loop over the planes keeps and establishes.\<close>

definition basic_lengths :: "bm3d_params \<Rightarrow> bool" where
  "basic_lengths p \<longleftrightarrow> length (bp_block_basic p) = 3 \<and> length (bp_group_basic p) = 3 \<and> length (bp_sigma_basic p) = 3 \<and>
     length (bp_step_basic p) = 3 \<and> length (bp_ps_num_basic p) = 3"

definition basic_done :: "farith \<Rightarrow> video_info \<Rightarrow> f32 list \<Rightarrow> bool \<Rightarrow> bool \<Rightarrow> nat \<Rightarrow> bm3d_params \<Rightarrow> bool" where
  "basic_done F vi given step_given ps_given i p \<longleftrightarrow>
     \<not> sigma_invalid (given ! i) \<and>
     bp_sigma_basic p ! i = (if \<not> f32_eq (given ! i) f32_zero then bm3d_effective F (given ! i) else f32_zero) \<and>
     bm_allowed_block (bp_block_basic p ! i) \<and> bm_allowed_group (bp_group_basic p ! i) \<and>
     bp_block_basic p ! i \<le> plane_width vi (int i) \<and> bp_block_basic p ! i \<le> plane_height vi (int i) \<and>
     bp_step_basic p ! i = (if step_given then bp_step p ! i else min kBmDefaultStep (bp_block_basic p ! i)) \<and>
     bp_step_basic p ! i \<le> bp_block_basic p ! i \<and>
     bp_ps_num_basic p ! i = (if ps_given then bp_ps_num p ! i else min kBmDefaultPsNum (bp_group_basic p ! i)) \<and>
     bp_ps_num_basic p ! i \<le> bp_group_basic p ! i \<and>
     (bp_chroma p \<longrightarrow> bp_block_basic p ! i = bp_block_basic p ! 0 \<and> bp_group_basic p ! i = bp_group_basic p ! 0)"

definition basic_truncate :: "bm3d_params \<Rightarrow> bm3d_params" where
  "basic_truncate p = p\<lparr>bp_sigma_basic := [], bp_block_basic := [], bp_group_basic := [], bp_step_basic := [], bp_ps_num_basic := []\<rparr>"

lemma basic_plane_step:
  assumes st: "basic_plane F vi ns given step_given ps_given i p = Inr q"
    and len: "basic_lengths p" and i: "i < 3"
    and P: "\<forall>j \<in> A. j < 3 \<and> basic_done F vi given step_given ps_given j p"
  shows "basic_lengths q \<and> basic_truncate q = basic_truncate p \<and>
    (\<forall>j \<in> insert i A. j < 3 \<and> basic_done F vi given step_given ps_given j q)"
proof -
  note h = basic_plane_Inr [OF st]
  have lq: "basic_lengths q" "basic_truncate q = basic_truncate p"
    using h len by (simp_all add: basic_lengths_def basic_truncate_def)
  have same: "bp_chroma q = bp_chroma p" "bp_step q = bp_step p" "bp_ps_num q = bp_ps_num p" using h by simp_all
  have z: "bp_chroma p \<Longrightarrow> bp_block_basic q ! 0 = bp_block_basic p ! 0 \<and> bp_group_basic q ! 0 = bp_group_basic p ! 0"
    using h len i by (cases "i = 0") (auto simp: basic_lengths_def)
  have "basic_done F vi given step_given ps_given j q" if j: "j \<in> insert i A" for j
  proof (cases "j = i")
    case True
    have "bp_chroma p \<Longrightarrow> bp_block_basic q ! i = bp_block_basic q ! 0 \<and> bp_group_basic q ! i = bp_group_basic q ! 0"
      using h len i z by (auto simp: basic_lengths_def)
    then show ?thesis using h len i same True by (simp add: basic_done_def basic_lengths_def)
  next
    case False
    then have "basic_done F vi given step_given ps_given j p" using P j by simp
    then show ?thesis using h False z by (simp add: basic_done_def)
  qed
  then show ?thesis using lq P i by auto
qed

lemma parse_basic_ok:
  assumes "parse_basic_stage F m vi ns sigma_basic block_basic group_basic sigma_given p = Inr q"
    and "basic_lengths p" "length (bp_block p) = 3" "length (bp_group p) = 3"
    and planes: "0 \<le> vi_planes vi" "vi_planes vi \<le> 3"
  shows "basic_truncate q = basic_truncate p \<and>
    (\<forall>i < nat (vi_planes vi). basic_done F vi
       (if sigma_basic then map_float_array F m ''sigma_basic'' sigma_given (vi_planes vi) kBmDefaultSigma else sigma_given)
       (0 < vm_count m ''block_step'') (0 < vm_count m ''ps_num'') i q)"
proof -
  let ?np = "nat (vi_planes vi)"
  let ?given = "if sigma_basic then map_float_array F m ''sigma_basic'' sigma_given (int ?np) kBmDefaultSigma else sigma_given"
  let ?blocks = "copy_first ?np (bp_block p) (bp_block_basic p)" and ?groups = "copy_first ?np (bp_group p) (bp_group_basic p)"
  let ?p = "p\<lparr>bp_block_basic := (if block_basic then map_inherit_int m ''block_size_basic'' ?blocks (int ?np) kBmBlock else ?blocks),
              bp_group_basic := (if group_basic then map_inherit_int m ''group_size_basic'' ?groups (int ?np) kBmGroup else ?groups)\<rparr>"
  let ?step = "0 < vm_count m ''block_step''" and ?ps = "0 < vm_count m ''ps_num''"
  have run: "foldE (basic_plane F vi ns ?given ?step ?ps) [0..<?np] ?p = Inr q"
    using assms(1) by (simp only: parse_basic_stage_def Let_def)
  have np: "?np \<le> 3" using planes by simp
  have len: "basic_lengths ?p" using assms(2-4) np by (auto simp: basic_lengths_def copy_first_def length_map_inherit)
  let ?P = "\<lambda>A s. basic_lengths s \<and> basic_truncate s = basic_truncate ?p \<and>
      (\<forall>j \<in> A. j < 3 \<and> basic_done F vi ?given ?step ?ps j s)"
  have step: "?P (insert j A) s'" if "j \<in> set [0..<?np]" "?P A s" "basic_plane F vi ns ?given ?step ?ps j s = Inr s'"
    for j A s s'
  proof -
    have "j < 3" using that(1) np by simp
    moreover have "basic_lengths s" "\<forall>j \<in> A. j < 3 \<and> basic_done F vi ?given ?step ?ps j s"
      and t: "basic_truncate s = basic_truncate ?p" using that(2) by blast+
    ultimately show ?thesis using basic_plane_step [OF that(3)] unfolding t by blast
  qed
  have "?P (set [0..<?np]) q"
  proof (rule foldE_invariant [where P = ?P, OF run])
    show "?P {} ?p" using len by blast
    show "?P (insert j A) s'" if "j \<in> set [0..<?np]" "?P A s" "basic_plane F vi ns ?given ?step ?ps j s = Inr s'" for j A s s'
      by (rule step [OF that])
  qed
  moreover have "int ?np = vi_planes vi" using planes by simp
  ultimately have "basic_truncate q = basic_truncate ?p"
    and "\<forall>j < ?np. basic_done F vi (if sigma_basic then map_float_array F m ''sigma_basic'' sigma_given (vi_planes vi) kBmDefaultSigma
          else sigma_given) ?step ?ps j q"
    by (auto simp only: set_upt atLeastLessThan_iff)
  then show ?thesis by (simp add: basic_truncate_def)
qed

subsection \<open>The whole parser\<close>

lemma truncate_fields:
  "basic_truncate q = basic_truncate p \<Longrightarrow>
     bp_sigma q = bp_sigma p \<and> bp_block q = bp_block p \<and> bp_group q = bp_group p \<and> bp_step q = bp_step p \<and>
     bp_range q = bp_range p \<and> bp_ps_num q = bp_ps_num p \<and> bp_ps_range q = bp_ps_range p \<and>
     bp_radius q = bp_radius p \<and> bp_chroma q = bp_chroma p \<and> bp_final q = bp_final p"
proof -
  assume h: "basic_truncate q = basic_truncate p"
  note c = arg_cong [OF h]
  show ?thesis
    using c [of bp_sigma] c [of bp_block] c [of bp_group] c [of bp_step] c [of bp_range] c [of bp_ps_num] c [of bp_ps_range]
      c [of bp_radius] c [of bp_chroma] c [of bp_final]
    by (simp add: basic_truncate_def)
qed

text \<open>
  Everything the parser has read, checked and derived when it returns: \<open>given\<close> are the
  sigmas of the call before scaling.
\<close>

lemma parse_bm3d_ok:
  assumes parse: "parse_bm3d h F m vi ref_vi ns = Inr p" and planes: "1 \<le> vi_planes vi" "vi_planes vi \<le> 3"
  defines "np \<equiv> nat (vi_planes vi)"
  defines "given \<equiv> map_float_array F m ''sigma'' (replicate 3 kBmDefaultSigma) (int np) kBmDefaultSigma"
  shows "is_const_32f h vi" "\<And>r. ref_vi = Some r \<Longrightarrow> same_video h vi r"
    "0 \<le> bp_radius p" "bp_radius p \<le> kBmMaxRadius" "bp_radius p = map_int m ''radius'' 0"
    "\<And>i. i < np \<Longrightarrow> bm3d_plane_ok vi p i"
    "\<And>i. i < np \<Longrightarrow> \<not> sigma_invalid (given ! i) \<and> bp_sigma p ! i = effective_or_zero F (given ! i)"
    "\<And>i. bp_chroma p \<Longrightarrow> i < np \<Longrightarrow> vi_family vi = Cf_yuv \<and> vi_ss_w vi = 0 \<and> vi_ss_h vi = 0 \<and>
      bp_block p ! i = bp_block p ! 0 \<and> bp_group p ! i = bp_group p ! 0 \<and> bp_step p ! i = bp_step p ! 0 \<and>
      bp_range p ! i = bp_range p ! 0 \<and> bp_ps_num p ! i = bp_ps_num p ! 0 \<and> bp_ps_range p ! i = bp_ps_range p ! 0"
    "bp_final p \<Longrightarrow> ref_vi = None"
    "\<And>i. bp_final p \<Longrightarrow> i < np \<Longrightarrow> basic_done F vi
       (if 0 < vm_count m ''sigma_basic'' then map_float_array F m ''sigma_basic'' given (vi_planes vi) kBmDefaultSigma else given)
       (0 < vm_count m ''block_step'') (0 < vm_count m ''ps_num'') i p"
proof -
  have np: "np \<le> 3" "int np = vi_planes vi" using planes by (auto simp: np_def)
  obtain g p0 pc u where s: "parse_sigma F m np ns default_bm3d_params = Inr (g, p0)"
    and c: "parse_chroma m vi ns (read_shapes m np p0) = Inr pc"
    and f: "parse_final F m vi ref_vi ns g pc = Inr p" and k: "check_planes vi ns p = Inr u"
    and r: "\<not> (bp_radius (read_shapes m np p0) < 0 \<or> bp_radius (read_shapes m np p0) > kBmMaxRadius)"
    and vi: "is_const_32f h vi" and ref: "\<not> (case ref_vi of None \<Rightarrow> False | Some r \<Rightarrow> \<not> same_video h vi r)"
    using parse unfolding parse_bm3d_def Let_def np_def [symmetric] by (auto simp: bindE_Inr_iff split: prod.splits)
  obtain sigma where p0: "g = given" "p0 = default_bm3d_params\<lparr>bp_sigma := sigma\<rparr>"
    and sig: "\<And>i. i < np \<Longrightarrow> \<not> sigma_invalid (given ! i) \<and> sigma ! i = effective_or_zero F (given ! i)"
    using parse_sigma_ok [OF s _ np(1)] by (auto simp: default_bm3d_params_def given_def)
  note ch = parse_chroma_ok [OF c]
  have lens: "length (bp_block (read_shapes m np p0)) = 3" "length (bp_group (read_shapes m np p0)) = 3"
    "length (bp_step (read_shapes m np p0)) = 3" "length (bp_range (read_shapes m np p0)) = 3"
    "length (bp_ps_num (read_shapes m np p0)) = 3" "length (bp_ps_range (read_shapes m np p0)) = 3"
    using np(1) by (auto simp: read_shapes_def Let_def p0 default_bm3d_params_def map_adaptive_def length_map_inherit length_map_array)
  show "is_const_32f h vi" by (rule vi)
  show "same_video h vi r" if "ref_vi = Some r" for r using ref that by simp
  note ck = parse_chroma_keep [OF c]
  have basic: "basic_lengths pc" unfolding basic_lengths_def ck
    by (simp add: read_shapes_def Let_def p0 default_bm3d_params_def)
  have keep: "bp_radius pc = map_int m ''radius'' 0" "bp_sigma pc = sigma"
    unfolding ck by (simp_all add: read_shapes_def Let_def p0)
  have len: "length (bp_block pc) = 3" "length (bp_group pc) = 3" unfolding ck by (rule lens)+
  let ?final = "map_int m ''final'' 0 \<noteq> 0" and ?p = "pc\<lparr>bp_final := map_int m ''final'' 0 \<noteq> 0\<rparr>"
  have fin: "if ?final then ref_vi = None \<and> parse_basic_stage F m vi ns (0 < vm_count m ''sigma_basic'')
      (0 < vm_count m ''block_size_basic'') (0 < vm_count m ''group_size_basic'') given ?p = Inr p else p = ?p"
    using f by (auto simp: parse_final_def Let_def p0 split: if_splits)
  have tr: "basic_truncate p = basic_truncate ?p"
  proof (cases ?final)
    case True
    have "basic_lengths ?p" using basic by (simp add: basic_lengths_def)
    then show ?thesis using parse_basic_ok [of F m vi ns _ _ _ given ?p p] fin True len planes by auto
  next
    case False
    then show ?thesis using fin by simp
  qed
  note tf = truncate_fields [OF tr]
  have fp: "bp_final p = ?final" "bp_chroma p = bp_chroma pc" using tf by simp_all
  show "bp_radius p = map_int m ''radius'' 0" using tf keep by simp
  then show "0 \<le> bp_radius p" "bp_radius p \<le> kBmMaxRadius" using r by (simp_all add: read_shapes_def Let_def)
  show "bm3d_plane_ok vi p i" if "i < np" for i
    using check_planes_ok [of vi ns p u] k that by (simp add: np_def)
  show "\<not> sigma_invalid (given ! i) \<and> bp_sigma p ! i = effective_or_zero F (given ! i)" if "i < np" for i
    using sig [OF that] tf keep by simp
  show "bp_final p \<Longrightarrow> ref_vi = None" using fin fp by simp
  show "basic_done F vi
       (if 0 < vm_count m ''sigma_basic'' then map_float_array F m ''sigma_basic'' given (vi_planes vi) kBmDefaultSigma else given)
       (0 < vm_count m ''block_step'') (0 < vm_count m ''ps_num'') i p" if "bp_final p" "i < np" for i
  proof -
    have bl: "basic_lengths ?p" "length (bp_block ?p) = 3" "length (bp_group ?p) = 3"
      using basic len by (simp_all add: basic_lengths_def)
    have "0 \<le> vi_planes vi" using planes(1) by simp
    moreover have "parse_basic_stage F m vi ns (0 < vm_count m ''sigma_basic'') (0 < vm_count m ''block_size_basic'')
        (0 < vm_count m ''group_size_basic'') given ?p = Inr p"
      using fin that(1) fp(1) by simp
    ultimately show ?thesis using parse_basic_ok [OF _ bl _ planes(2)] that(2) np_def by blast
  qed
  show "vi_family vi = Cf_yuv \<and> vi_ss_w vi = 0 \<and> vi_ss_h vi = 0 \<and>
      bp_block p ! i = bp_block p ! 0 \<and> bp_group p ! i = bp_group p ! 0 \<and> bp_step p ! i = bp_step p ! 0 \<and>
      bp_range p ! i = bp_range p ! 0 \<and> bp_ps_num p ! i = bp_ps_num p ! 0 \<and> bp_ps_range p ! i = bp_ps_range p ! 0"
    if "bp_chroma p" "i < np" for i
  proof -
    have sp: "length xs = 3 \<Longrightarrow> spread np xs ! i = spread np xs ! 0" for xs :: "int list"
      using spread_spec [of np xs i] spread_spec [of np xs 0] that(2) np(1) by simp
    have "bp_chroma pc" using that(1) fp(2) by simp
    then show ?thesis using ch tf sp lens by (simp add: np_def [symmetric])
  qed
qed

text \<open>The basic stage of an accepted call is as sound as the final one.\<close>

lemma parse_bm3d_basic_ok:
  assumes "parse_bm3d h F m vi ref_vi ns = Inr p" "1 \<le> vi_planes vi" "vi_planes vi \<le> 3" "i < nat (vi_planes vi)" and f: "bp_final p"
  shows "bm3d_basic_ok vi p i"
proof -
  note ok = parse_bm3d_ok [OF assms(1-3)]
  have pl: "bm3d_plane_ok vi p i" by (rule ok(6) [OF assms(4)])
  have b: "1 \<le> v" if "bm_allowed_block v" for v using that by (auto simp: bm_allowed_block_def)
  have g: "1 \<le> v" if "bm_allowed_group v" for v using that by (auto simp: bm_allowed_group_def)
  note d = ok(10) [OF f assms(4), unfolded basic_done_def]
  have "1 \<le> bp_block_basic p ! i" "1 \<le> bp_group_basic p ! i" using d b g by blast+
  moreover have "1 \<le> bp_step p ! i" "1 \<le> bp_ps_num p ! i" using pl by (simp_all add: bm3d_plane_ok_def)
  ultimately have "1 \<le> bp_step_basic p ! i" "1 \<le> bp_ps_num_basic p ! i"
    using d by (simp_all add: kBmDefaultStep_def kBmDefaultPsNum_def)
  then show ?thesis using d by (simp add: bm3d_basic_ok_def)
qed

subsection \<open>Properties\<close>

text \<open>
  C30. Whatever BM3D's parser accepts is inside the documented ranges on every plane, for
  both stages: block and group sizes from the two lists and no larger than the plane, steps
  and predictive counts at least one and within block and group, ranges within their
  limits; every sigma is finite and non-negative and has been scaled exactly when it is not
  zero; CBM3D is accepted only for YUV 4:4:4 and then all planes share plane 0's shape; and
  the two-stage call has no reference.
\<close>

theorem parse_bm3d_sound:
  assumes "parse_bm3d h F m vi ref_vi ns = Inr p" "1 \<le> vi_planes vi" "vi_planes vi \<le> 3" "i < nat (vi_planes vi)"
  shows "bm3d_plane_ok vi p i \<and> 0 \<le> bp_radius p \<and> bp_radius p \<le> kBmMaxRadius \<and>
    (\<exists>s. is_finite_bits s \<and> \<not> f32_lt s f32_zero \<and>
      bp_sigma p ! i = (if f32_eq s f32_zero then s else bm3d_effective F s)) \<and>
    (bp_chroma p \<longrightarrow> vi_family vi = Cf_yuv \<and> vi_ss_w vi = 0 \<and> vi_ss_h vi = 0 \<and>
      bp_block p ! i = bp_block p ! 0 \<and> bp_group p ! i = bp_group p ! 0 \<and> bp_step p ! i = bp_step p ! 0) \<and>
    (bp_final p \<longrightarrow> ref_vi = None \<and> bm3d_basic_ok vi p i)"
proof -
  note ok = parse_bm3d_ok [OF assms(1-3)]
  have basic: "bm3d_basic_ok vi p i" if "bp_final p" by (rule parse_bm3d_basic_ok [OF assms that])
  let ?g = "map_float_array F m ''sigma'' (replicate 3 kBmDefaultSigma) (int (nat (vi_planes vi))) kBmDefaultSigma ! i"
  have sg: "\<not> sigma_invalid ?g" "bp_sigma p ! i = effective_or_zero F ?g" using ok(7) [OF assms(4)] by simp_all
  show ?thesis
  proof (intro conjI impI)
    show "\<exists>s. is_finite_bits s \<and> \<not> f32_lt s f32_zero \<and> bp_sigma p ! i = (if f32_eq s f32_zero then s else bm3d_effective F s)"
      by (rule exI [of _ ?g]) (use sg in \<open>simp add: sigma_invalid_def finite_bits_eq effective_or_zero_def\<close>)
  qed (use ok(3,4) ok(6) [OF assms(4)] ok(8) [OF _ assms(4)] ok(9) basic in simp_all)
qed

text \<open>
  C8. The search BM3D configures from accepted arguments is one the matcher accepts, at
  every frame of the clip: with the \<open>2 * radius + 1\<close> frames of the window and valid planes
  the predictive match never rejects its arguments.
\<close>

theorem bm3d_search_accepted:
  assumes "parse_bm3d h F m vi ref_vi ns = Inr p" "1 \<le> vi_planes vi" "vi_planes vi \<le> 3" "i < nat (vi_planes vi)"
    and "0 \<le> center" "center < vi_num_frames vi"
    and "\<forall>t. 0 \<le> t \<and> t < 2 * bp_radius p + 1 \<longrightarrow> refs t \<noteq> None \<and> plane_width vi (int i) \<le> strides t"
  shows "predictive_args_ok refs strides (2 * bp_radius p + 1) (plane_width vi (int i)) (plane_height vi (int i)) (bp_radius p)
    (bm3d_search (bp_block p ! i) (bp_group p ! i) (bp_step p ! i) (bp_range p ! i) (bp_ps_num p ! i) (bp_ps_range p ! i)
       (bp_radius p) center (vi_num_frames vi))"
proof -
  note ok = parse_bm3d_ok [OF assms(1-3)]
  have r: "0 \<le> bp_radius p" "bp_radius p \<le> kBmMaxRadius" by (rule ok(3), rule ok(4))
  have g: "1 \<le> bp_group p ! i \<and> bp_group p ! i \<le> kBmMaxGroup" "1 \<le> bp_block p ! i"
    using ok(6) [OF assms(4)] by (auto simp: bm3d_plane_ok_def bm_allowed_group_def bm_allowed_block_def kBmMaxGroup_def)
  show ?thesis
    using ok(6) [OF assms(4)] r g assms(5-7)
    by (auto simp: predictive_args_ok_def bm3d_search_def default_search_config_def bm3d_plane_ok_def)
qed

lemma parse_defaults:
  "\<exists>p. parse_bm3d example_helpers F empty_map gray_clip None ''nss'' = Inr p \<and> bp_radius p = 0 \<and> bp_block p ! 0 = 8"
proof -
  have "\<not> sigma_invalid kBmDefaultSigma"
    by (simp add: sigma_invalid_def finite_bits_def f32_lt_def f32_zero_def f32_nan_def f32_key_def f32_mag_def f32_neg_def kBmDefaultSigma_def)
  then show ?thesis
    by (simp add: parse_bm3d_def is_const_32f_def example_helpers_def gray_clip_def int_max_def parse_sigma_def Let_def
        map_float_array_def empty_map_def default_bm3d_params_def numeral_3_eq_3 sigma_step_def read_shapes_def
        map_inherit_int_def map_adaptive_def map_int_array_def map_int_def kBmMaxRadius_def parse_chroma_def parse_final_def
        check_planes_def check_plane_def bm_allowed_block_def bm_allowed_group_def kBmBlock_def kBmGroup_def plane_width_def plane_height_def
        kBmDefaultStep_def kBmDefaultPsNum_def kBmDefaultPsRange_def kBm3dDefaultRange_def kBmMaxRange_def fail_def
        del: upt_Suc add: upt_conv_Cons)
qed

theorem parse_bm3d_sound_witness:
  "\<exists>p. parse_bm3d example_helpers example_arith empty_map gray_clip None ''nss'' = Inr p \<and> bm3d_plane_ok gray_clip p 0"
proof -
  obtain p where p: "parse_bm3d example_helpers example_arith empty_map gray_clip None ''nss'' = Inr p"
    using parse_defaults by blast
  have "1 \<le> vi_planes gray_clip" "vi_planes gray_clip \<le> 3" "0 < nat (vi_planes gray_clip)" by (simp_all add: gray_clip_def)
  from parse_bm3d_sound [OF p this] p show ?thesis by blast
qed

theorem bm3d_search_accepted_witness:
  "\<exists>p. parse_bm3d example_helpers example_arith empty_map gray_clip None ''nss'' = Inr p \<and>
     predictive_args_ok (\<lambda>_. Some ()) (\<lambda>_. 640) (2 * bp_radius p + 1) 640 480 (bp_radius p)
       (bm3d_search (bp_block p ! 0) (bp_group p ! 0) (bp_step p ! 0) (bp_range p ! 0) (bp_ps_num p ! 0) (bp_ps_range p ! 0)
          (bp_radius p) 7 100)"
proof -
  obtain p where p: "parse_bm3d example_helpers example_arith empty_map gray_clip None ''nss'' = Inr p"
    using parse_defaults by blast
  have "1 \<le> vi_planes gray_clip" "vi_planes gray_clip \<le> 3" "0 < nat (vi_planes gray_clip)" "(0::int) \<le> 7"
    "7 < vi_num_frames gray_clip" by (simp_all add: gray_clip_def)
  from bm3d_search_accepted [OF p this, of "\<lambda>_. Some ()" "\<lambda>_. 640"] p
  show ?thesis by (auto simp: gray_clip_def plane_width_def plane_height_def)
qed

end
