(* ===== verification/Filter_Args.thy ===== *)
theory Filter_Args
  imports Vs_Map Temporal_Match
begin

text \<open>
  The argument parsers of the filters other than BM3D (src/frontend: wnnm_args.cpp,
  mcwnnm_args.cpp, ncsr_args.cpp, lssc_args.cpp, nlm_args.cpp, pnlm_args.cpp,
  bm4d_args.cpp, da3d_args.cpp, vaggregate_args.cpp) with the parameter structures of
  include/nss/params. Every parser reads and checks in the order of the code, so the error
  of a call is the one the code reports first.
\<close>

subsection \<open>Limits and defaults (include/nss/params.hpp)\<close>

definition kWnnmMaxBlock :: int where "kWnnmMaxBlock = 16"
definition kWnnmMaxGroup :: int where "kWnnmMaxGroup = 32"

text \<open>\<open>3.0f\<close>, the default sigma of every filter.\<close>

definition kDefaultSigma :: f32 where "kDefaultSigma = 0x40400000"
definition f32_0_1 :: f32 where "f32_0_1 = 0x3dcccccd"

definition kNlmDefaultH :: f32 where "kNlmDefaultH = 0x3f99999a"
definition kNlmMaxD :: int where "kNlmMaxD = 256"
definition kNlmMaxS :: int where "kNlmMaxS = 1024"
definition kNlmMaxA :: int where "kNlmMaxA = 64"
definition kNlmMaxPinnedFrameBytes :: int where "kNlmMaxPinnedFrameBytes = 2 * 2 ^ 30"
definition kPnlmMaxD :: int where "kPnlmMaxD = 31"
definition kPnlmMaxA :: int where "kPnlmMaxA = 64"
definition kPnlmMaxGroup :: int where "kPnlmMaxGroup = 32"
definition kPnlmMaxSide :: int where "kPnlmMaxSide = 8192"

lemmas filter_limits = kWnnmMaxBlock_def kWnnmMaxGroup_def kNlmMaxD_def kNlmMaxS_def kNlmMaxA_def
  kNlmMaxPinnedFrameBytes_def kPnlmMaxD_def kPnlmMaxA_def kPnlmMaxGroup_def kPnlmMaxSide_def kBmMaxRange_def kBmMaxRadius_def

text \<open>The sigma argument as an array of three, one value per plane of the clip.\<close>

definition sigma_array :: "farith \<Rightarrow> vsmap \<Rightarrow> int \<Rightarrow> f32 list" where
  "sigma_array F m planes = map_float_array F m ''sigma'' (replicate 3 kDefaultSigma) planes kDefaultSigma"

subsection \<open>WNNM, MCWNNM and NCSR\<close>

record wnnm_params =
  wp_sigma :: "f32 list"
  wp_block :: int
  wp_step :: int
  wp_group :: int
  wp_range :: int
  wp_radius :: int
  wp_ps_num :: int
  wp_ps_range :: int

record wnnm_args = wnnm_params +
  wa_residual :: int
  wa_adaptive :: int

record mcwnnm_args = wnnm_args +
  ma_admm_iter :: int
  ma_rho :: f32
  ma_mu :: f32
  ma_iters :: int
  ma_delta :: f32

record ncsr_args = wnnm_params +
  na_iters :: int
  na_delta :: f32

definition parse_wnnm :: "vs_helpers \<Rightarrow> farith \<Rightarrow> vsmap \<Rightarrow> video_info \<Rightarrow> string \<Rightarrow> wnnm_args res" where
  "parse_wnnm h F m vi ns =
     (if \<not> is_const_32f h vi then fail ns ''WNNM'' ''constant Gray/YUV/RGB 32-bit float required''
      else let block = map_int m ''block_size'' 8; step = map_int m ''block_step'' 8; group' = map_int m ''group_size'' 8;
               bm_range = map_int m ''bm_range'' 7; radius = map_int m ''radius'' 0;
               ps_num = map_int m ''ps_num'' 2; ps_range = map_int m ''ps_range'' 4
           in if block < 1 \<or> block > kWnnmMaxBlock \<or> group' < 1 \<or> group' > kWnnmMaxGroup \<or>
                 step < 1 \<or> step > block \<or> radius < 0 \<or> radius > kBmMaxRadius
              then fail ns ''WNNM'' ''invalid block_size/group_size/block_step/radius''
              else if bm_range < 1 \<or> bm_range > kBmMaxRange then fail ns ''WNNM'' ''bm_range must be in [1, 64]''
              else if ps_num < 1 \<or> ps_num > group' \<or> ps_range < 1 \<or> ps_range > kBmMaxRange
              then fail ns ''WNNM'' ''invalid ps_num/ps_range''
              else Inr \<lparr>wp_sigma = sigma_array F m (vi_planes vi), wp_block = block, wp_step = step, wp_group = group',
                         wp_range = bm_range, wp_radius = radius, wp_ps_num = ps_num, wp_ps_range = ps_range,
                         wa_residual = map_int m ''residual'' 0, wa_adaptive = map_int m ''adaptive_aggregation'' 1\<rparr>)"

definition parse_mcwnnm :: "vs_helpers \<Rightarrow> farith \<Rightarrow> vsmap \<Rightarrow> video_info \<Rightarrow> string \<Rightarrow> mcwnnm_args res" where
  "parse_mcwnnm h F m vi ns =
     (if \<not> is_const_32f h vi then fail ns ''MCWNNM'' ''constant RGBS or YUV444PS required''
      else if vi_planes vi \<noteq> 3 \<or> vi_ss_w vi \<noteq> 0 \<or> vi_ss_h vi \<noteq> 0 \<or> vi_family vi \<noteq> Cf_rgb \<and> vi_family vi \<noteq> Cf_yuv
      then fail ns ''MCWNNM'' ''constant RGBS or YUV444PS required''
      else let sigma = sigma_array F m 3 in
        if \<exists>c \<in> set [0..<3]. \<not> finite_bits (sigma ! c) then fail ns ''MCWNNM'' ''sigma must be finite''
        else let block = map_int m ''block_size'' 8; step = map_int m ''block_step'' 8; group' = map_int m ''group_size'' 8;
                 bm_range = map_int m ''bm_range'' 7; radius = map_int m ''radius'' 0;
                 ps_num = map_int m ''ps_num'' 2; ps_range = map_int m ''ps_range'' 4;
                 admm_iter = map_int m ''admm_iter'' 10; rho = map_float F m ''rho'' kDefaultSigma;
                 mu = map_float F m ''mu'' 0x3f8020c5; iters = map_int m ''iters'' 2; delta = map_float F m ''delta'' f32_0_1
             in if block < 1 \<or> block > kWnnmMaxBlock \<or> group' < 1 \<or> group' > kWnnmMaxGroup \<or>
                   step < 1 \<or> step > block \<or> radius < 0 \<or> radius > kBmMaxRadius
                then fail ns ''MCWNNM'' ''invalid block_size/group_size/block_step/radius''
                else if 3 * block * block > kSvdMaxM then fail ns ''MCWNNM'' ''3*block_size*block_size exceeds SVD limit''
                else if bm_range < 1 \<or> bm_range > kBmMaxRange then fail ns ''MCWNNM'' ''bm_range must be in [1, 64]''
                else if admm_iter < 1 \<or> admm_iter > 1000 \<or> \<not> f32_lt f32_zero rho \<or> f32_lt mu f32_one \<or>
                   \<not> finite_bits rho \<or> \<not> finite_bits mu
                then fail ns ''MCWNNM'' ''invalid admm_iter/rho/mu (admm_iter in [1, 1000], mu >= 1)''
                else if iters < 1 \<or> iters > 64 \<or> \<not> finite_bits delta \<or> f32_lt delta f32_zero \<or> f32_lt f32_one delta
                then fail ns ''MCWNNM'' ''invalid iters/delta (iters in [1, 64], delta in [0, 1])''
                else if ps_num < 1 \<or> ps_num > group' \<or> ps_range < 1 \<or> ps_range > kBmMaxRange
                then fail ns ''MCWNNM'' ''invalid ps_num/ps_range''
                else Inr \<lparr>wp_sigma = sigma, wp_block = block, wp_step = step, wp_group = group',
                           wp_range = bm_range, wp_radius = radius, wp_ps_num = ps_num, wp_ps_range = ps_range,
                           wa_residual = map_int m ''residual'' 1, wa_adaptive = map_int m ''adaptive_aggregation'' 0,
                           ma_admm_iter = admm_iter, ma_rho = rho, ma_mu = mu, ma_iters = iters, ma_delta = delta\<rparr>)"

definition parse_ncsr :: "vs_helpers \<Rightarrow> farith \<Rightarrow> vsmap \<Rightarrow> video_info \<Rightarrow> string \<Rightarrow> ncsr_args res" where
  "parse_ncsr h F m vi ns =
     (if \<not> is_const_32f h vi then fail ns ''NCSR'' ''constant Gray/YUV/RGB 32-bit float required''
      else let block = map_int m ''block_size'' 8; step = map_int m ''block_step'' 8; group' = map_int m ''group_size'' 8;
               bm_range = map_int m ''bm_range'' 7; radius = map_int m ''radius'' 0;
               ps_num = map_int m ''ps_num'' 2; ps_range = map_int m ''ps_range'' 4;
               iters = map_int m ''iters'' 2; delta = map_float F m ''delta'' f32_0_1
           in if block < 1 \<or> block > kWnnmMaxBlock \<or> group' < 1 \<or> group' > kWnnmMaxGroup \<or>
                 step < 1 \<or> step > block \<or> radius < 0 \<or> radius > kBmMaxRadius
              then fail ns ''NCSR'' ''invalid block_size/group_size/block_step/radius''
              else if iters < 1 \<or> iters > 64 \<or> \<not> is_finite_bits delta \<or> f32_lt delta f32_zero \<or> f32_lt f32_one delta
              then fail ns ''NCSR'' ''invalid iters/delta (iters in [1, 64], delta in [0, 1])''
              else if ps_num < 1 \<or> ps_num > group' \<or> ps_range < 1 \<or> ps_range > kBmMaxRange
              then fail ns ''NCSR'' ''invalid ps_num/ps_range''
              else if bm_range < 1 \<or> bm_range > kBmMaxRange then fail ns ''NCSR'' ''bm_range must be in [1, 64]''
              else Inr \<lparr>wp_sigma = sigma_array F m (vi_planes vi), wp_block = block, wp_step = step, wp_group = group',
                         wp_range = bm_range, wp_radius = radius, wp_ps_num = ps_num, wp_ps_range = ps_range,
                         na_iters = iters, na_delta = delta\<rparr>)"

text \<open>The search of a plane (\<open>process_plane_batched\<close> of src/host/filter_wnnm.cpp, and NCSR's and MCWNNM's).\<close>

definition wnnm_search :: "('x) wnnm_params_scheme \<Rightarrow> int \<Rightarrow> int \<Rightarrow> search_config" where
  "wnnm_search p center frame_count =
     default_search_config\<lparr>sc_block := wp_block p, sc_step := wp_step p, sc_group := wp_group p,
       sc_bm_range := wp_range p, sc_radius := wp_radius p,
       sc_valid_t_begin := max 0 (wp_radius p - center),
       sc_valid_t_end := wp_radius p + min (wp_radius p + 1) (frame_count - center),
       sc_ps_num := wp_ps_num p, sc_ps_range := wp_ps_range p\<rparr>"

subsection \<open>LSSC (src/frontend/lssc_args.cpp, include/nss/params/lssc.hpp)\<close>

text \<open>The axis count is computed in 64 bits from the \<open>int\<close> operands.\<close>

definition lssc_axis_count :: "int \<Rightarrow> int \<Rightarrow> int \<Rightarrow> int res" where
  "lssc_axis_count len block step =
     (if len < block \<or> block < 1 \<or> step < 1 then Inr 0
      else checked_int (((nat (len - block) + nat step - 1) mod 2 ^ 64 div nat step + 1) mod 2 ^ 64))"

definition lssc_grid_count :: "int \<Rightarrow> int \<Rightarrow> int \<Rightarrow> int \<Rightarrow> int res" where
  "lssc_grid_count width height block step =
     bindE (lssc_axis_count width block step) (\<lambda>nx.
     bindE (lssc_axis_count height block step) (\<lambda>ny.
       checked_int (nat nx * nat ny mod 2 ^ 64)))"

definition lssc_default_step :: "int \<Rightarrow> int" where
  "lssc_default_step block = (if block > 1 then cdiv block 2 else 1)"

record lssc_params =
  lp_sigma :: "f32 list"
  lp_block :: int
  lp_step :: int
  lp_radius :: int

definition parse_lssc :: "vs_helpers \<Rightarrow> farith \<Rightarrow> vsmap \<Rightarrow> video_info \<Rightarrow> string \<Rightarrow> lssc_params res" where
  "parse_lssc h F m vi ns =
     (if \<not> is_const_32f h vi then fail ns ''LSSC'' ''constant Gray/YUV/RGB 32-bit float required''
      else let block = map_int m ''block_size'' 8; step = map_int m ''block_step'' (lssc_default_step block);
               radius = map_int m ''radius'' 0
           in if \<not> lssc_allowed_block block \<or> step < 1 \<or> step > block
              then fail ns ''LSSC'' ''block_size must be 1, 2, 4, 8, or 16''
              else if radius \<noteq> 0 then fail ns ''LSSC'' ''radius>0 is not implemented (no temporal clustering)''
              else bindE (lssc_grid_count (vi_width vi) (vi_height vi) block step) (\<lambda>patches.
                let area = block * block in
                if area > 0 \<and> patches > cdiv 16000000 area then fail ns ''LSSC'' ''grid too large; increase block_step''
                else Inr \<lparr>lp_sigma = sigma_array F m (vi_planes vi), lp_block = block, lp_step = step, lp_radius = radius\<rparr>))"

subsection \<open>NLM (src/frontend/nlm_args.cpp)\<close>

datatype channel_mode = Ch_y | Ch_uv | Ch_yuv | Ch_rgb
datatype nlm_weight = Welsch | Bisquare_a | Bisquare_b | Bisquare_c

record nlm_params =
  nl_d :: int
  nl_a :: int
  nl_s :: int
  nl_h :: f32
  nl_wref :: f32
  nl_channels :: channel_mode
  nl_weight :: nlm_weight

fun nlm_weight_of :: "int \<Rightarrow> nlm_weight" where
  "nlm_weight_of wmode = (if wmode = 0 then Welsch else if wmode = 1 then Bisquare_a else if wmode = 2 then Bisquare_b else Bisquare_c)"

definition frame_bytes :: "video_info \<Rightarrow> int" where
  "frame_bytes vi = vi_bytes vi * vi_width vi * vi_height vi * vi_planes vi"

definition nlm_channels :: "vsmap \<Rightarrow> video_info \<Rightarrow> string \<Rightarrow> channel_mode res" where
  "nlm_channels m vi ns =
     (let cs = (case vm_data m ''channels'' 0 of None \<Rightarrow> ''AUTO'' | Some s \<Rightarrow> c_string s) in
      bindE (if cs = ''Y'' then Inr Ch_y else if cs = ''UV'' then Inr Ch_uv else if cs = ''YUV'' then Inr Ch_yuv
             else if cs = ''RGB'' then Inr Ch_rgb
             else if cs = ''AUTO'' then Inr (if vi_family vi = Cf_rgb then Ch_rgb else Ch_y)
             else fail ns ''NLM'' ''channels must be Y, UV, YUV, RGB, or AUTO'') (\<lambda>channels.
        if channels = Ch_uv \<and> vi_family vi \<noteq> Cf_yuv then fail ns ''NLM'' ''UV requires YUV''
        else if channels = Ch_yuv \<and> (vi_family vi \<noteq> Cf_yuv \<or> vi_ss_w vi \<noteq> 0 \<or> vi_ss_h vi \<noteq> 0)
        then fail ns ''NLM'' ''YUV requires YUV444''
        else if channels = Ch_rgb \<and> vi_family vi \<noteq> Cf_rgb then fail ns ''NLM'' ''RGB requires RGB''
        else Inr channels))"

text \<open>The planes a channel mode processes.\<close>

definition nlm_planes :: "channel_mode \<Rightarrow> video_info \<Rightarrow> int list" where
  "nlm_planes channels vi =
     (let first_plane = (if channels = Ch_uv then 1 else 0);
          last_plane = (if channels = Ch_uv then 2 else if channels \<noteq> Ch_y then vi_planes vi - 1 else 0)
      in [first_plane..last_plane])"

definition parse_nlm :: "vs_helpers \<Rightarrow> farith \<Rightarrow> vsmap \<Rightarrow> video_info \<Rightarrow> string \<Rightarrow> nlm_params res" where
  "parse_nlm h F m vi ns =
     (if \<not> is_const_32f h vi then fail ns ''NLM'' ''constant Gray/YUV/RGB 32-bit float required''
      else let d = map_int m ''d'' 1; a = map_int m ''a'' 2; s = map_int m ''s'' 4;
               hh = map_float F m ''h'' kNlmDefaultH; wref = map_float F m ''wref'' f32_one
           in if d < 0 \<or> d > kNlmMaxD \<or> a \<le> 0 \<or> s < 0 \<or> a > kNlmMaxA \<or> s > kNlmMaxS \<or>
                 \<not> is_finite_bits hh \<or> f32_le hh f32_zero \<or> \<not> is_finite_bits wref \<or> f32_le wref f32_zero
              then fail ns ''NLM'' ''invalid d/a/s/h/wref''
              else if (2 * d + 1) * frame_bytes vi > kNlmMaxPinnedFrameBytes
              then fail ns ''NLM'' ''temporal radius d pins too much frame memory for this frame size''
              else let wmode = map_int m ''wmode'' 0 in
                if wmode < 0 \<or> wmode > 3 then fail ns ''NLM'' ''wmode must be 0 (Welsch) or 1, 2, 3 (Bisquare A, B, C)''
                else bindE (nlm_channels m vi ns) (\<lambda>channels.
                     bindE (foldE (\<lambda>plane u. if a \<ge> plane_width vi plane
                         then fail ns ''NLM'' ''search radius a must be smaller than the processed plane width'' else Inr u)
                         (nlm_planes channels vi) ()) (\<lambda>_.
                       Inr \<lparr>nl_d = d, nl_a = a, nl_s = s, nl_h = hh, nl_wref = wref, nl_channels = channels,
                            nl_weight = nlm_weight_of wmode\<rparr>)))"

subsection \<open>PNLM, BM4D and DA3D\<close>

text \<open>
  The check of one plane's sigma in the parsers of PNLM, BM4D and DA3D: finite,
  non-negative, and with a square that is a normal number unless it is zero.
\<close>

definition normal_sigma :: "farith \<Rightarrow> string \<Rightarrow> string \<Rightarrow> f32 \<Rightarrow> unit \<Rightarrow> unit res" where
  "normal_sigma F ns flt sigma u =
     (let s = fdiv F sigma f32_255 in
      if \<not> f32_le f32_zero sigma \<or> \<not> is_finite_bits sigma then fail ns flt ''sigma must be finite and non-negative''
      else if f32_lt f32_zero sigma \<and> \<not> f32_le f32_min_normal (fmul F s s) then fail ns flt ''sigma is too small''
      else Inr u)"

record pnlm_params =
  pn_sigma :: "f32 list"
  pn_d :: int
  pn_a :: int
  pn_block :: int
  pn_group :: int

definition pnlm_plane :: "video_info \<Rightarrow> string \<Rightarrow> f32 list \<Rightarrow> int \<Rightarrow> int \<Rightarrow> unit \<Rightarrow> unit res" where
  "pnlm_plane vi ns sigma block plane u =
     (if f32_eq (sigma ! nat plane) f32_zero then Inr u
      else let w = plane_width vi plane; h = plane_height vi plane in
        if w < block \<or> h < block then fail ns ''PNLM'' ''a filtered plane is smaller than block_size''
        else if w > kPnlmMaxSide \<or> h > kPnlmMaxSide then fail ns ''PNLM'' ''filtered planes are limited to 8192 x 8192''
        else Inr u)"

definition parse_pnlm :: "vs_helpers \<Rightarrow> farith \<Rightarrow> vsmap \<Rightarrow> video_info \<Rightarrow> string \<Rightarrow> pnlm_params res" where
  "parse_pnlm h F m vi ns =
     (if \<not> is_const_32f h vi then fail ns ''PNLM'' ''constant Gray/YUV/RGB 32-bit float required''
      else let sigma = sigma_array F m (vi_planes vi); planes = [0..vi_planes vi - 1] in
        bindE (foldE (\<lambda>plane. normal_sigma F ns ''PNLM'' (sigma ! nat plane)) planes ()) (\<lambda>u.
          let d = map_int m ''d'' 1; a = map_int m ''a'' 2; block = map_int m ''block_size'' 6; group' = map_int m ''group_size'' 16
          in if d < 0 \<or> d > kPnlmMaxD then fail ns ''PNLM'' ''d must be in [0, 31]''
             else if a < 1 \<or> a > kPnlmMaxA then fail ns ''PNLM'' ''a must be in [1, 64]''
             else if block \<noteq> 4 \<and> block \<noteq> 6 \<and> block \<noteq> 8 then fail ns ''PNLM'' ''block_size must be 4, 6 or 8''
             else if group' < 2 \<or> group' > kPnlmMaxGroup then fail ns ''PNLM'' ''group_size must be in [2, 32]''
             else bindE (foldE (pnlm_plane vi ns sigma block) planes u) (\<lambda>_.
               if (2 * d + 1) * frame_bytes vi > kNlmMaxPinnedFrameBytes
               then fail ns ''PNLM'' ''temporal radius d pins too much frame memory for this frame size''
               else Inr \<lparr>pn_sigma = sigma, pn_d = d, pn_a = a, pn_block = block, pn_group = group'\<rparr>)))"

text \<open>BM4D and DA3D have no other argument: their parameters are the sigmas.\<close>

definition parse_bm4d :: "vs_helpers \<Rightarrow> farith \<Rightarrow> vsmap \<Rightarrow> video_info \<Rightarrow> string \<Rightarrow> f32 list res" where
  "parse_bm4d h F m vi ns =
     (if \<not> is_const_32f h vi then fail ns ''BM4D'' ''constant Gray/YUV/RGB 32-bit float required''
      else if vi_num_frames vi < 1 then fail ns ''BM4D'' ''a clip of known length required''
      else let sigma = sigma_array F m (vi_planes vi) in
        bindE (foldE (\<lambda>plane. normal_sigma F ns ''BM4D'' (sigma ! nat plane)) [0..vi_planes vi - 1] ()) (\<lambda>_. Inr sigma))"

definition parse_da3d :: "vs_helpers \<Rightarrow> farith \<Rightarrow> vsmap \<Rightarrow> video_info \<Rightarrow> string \<Rightarrow> f32 list res" where
  "parse_da3d h F m vi ns =
     (if \<not> is_const_32f h vi then fail ns ''DA3D'' ''constant Gray/YUV/RGB 32-bit float required''
      else let sigma = sigma_array F m (vi_planes vi) in
        bindE (foldE (\<lambda>plane. normal_sigma F ns ''DA3D'' (sigma ! nat plane)) [0..vi_planes vi - 1] ()) (\<lambda>_. Inr sigma))"

subsection \<open>VAggregate (src/frontend/vaggregate_args.cpp)\<close>

record vaggregate_params =
  vp_radius :: int
  vp_allow_legacy :: bool
  vp_planes :: "int list"

text \<open>One value of the \<open>planes\<close> argument: narrowed to \<open>int\<close>, then checked. A getter that fails returns 0.\<close>

definition select_plane :: "vsmap \<Rightarrow> video_info \<Rightarrow> string \<Rightarrow> int \<Rightarrow> int list \<Rightarrow> int list res" where
  "select_plane m src ns i planes =
     (let v = vm_int m ''planes'' i; plane = (case v of None \<Rightarrow> 0 | Some v \<Rightarrow> to_int32 v) in
      if v = None \<or> plane < 0 \<or> plane \<ge> vi_planes src \<or> planes ! nat plane \<noteq> 0
      then fail ns ''VAggregate'' ''planes must contain unique valid plane indices''
      else Inr (planes[nat plane := 1]))"

definition parse_vaggregate :: "vsmap \<Rightarrow> video_info \<Rightarrow> string \<Rightarrow> vaggregate_params res" where
  "parse_vaggregate m src ns =
     (let radius = map_int m ''radius'' 0; num_plane_args = vm_count m ''planes'' in
      bindE (if num_plane_args > 0 then foldE (select_plane m src ns) [0..num_plane_args - 1] [0, 0, 0] else Inr [1, 1, 1]) (\<lambda>planes.
        let allow_legacy = map_int m ''allow_legacy'' 0 in
        if allow_legacy \<noteq> 0 \<and> allow_legacy \<noteq> 1 then fail ns ''VAggregate'' ''allow_legacy must be 0 or 1''
        else Inr \<lparr>vp_radius = radius, vp_allow_legacy = (allow_legacy \<noteq> 0), vp_planes = planes\<rparr>))"

definition same_format :: "video_info \<Rightarrow> video_info \<Rightarrow> bool" where
  "same_format a b \<longleftrightarrow>
     vi_family a = vi_family b \<and> vi_sample a = vi_sample b \<and> vi_bits a = vi_bits b \<and> vi_bytes a = vi_bytes b \<and>
     vi_ss_w a = vi_ss_w b \<and> vi_ss_h a = vi_ss_h b \<and> vi_planes a = vi_planes b"

definition validate_vaggregate_shape :: "vs_helpers \<Rightarrow> video_info \<Rightarrow> video_info \<Rightarrow> int \<Rightarrow> string \<Rightarrow> unit res" where
  "validate_vaggregate_shape h src fat radius ns =
     (if \<not> is_const_32f h src \<or> \<not> is_const_32f h fat then fail ns ''VAggregate'' ''constant 32f clips required''
      else if radius < 0 \<or> radius > kBmMaxRadius then fail ns ''VAggregate'' ''radius must be in [0, 16]''
      else bindE (checked_fat_height (vi_height src) radius) (\<lambda>expect_h.
        if \<not> same_format src fat \<or> vi_width fat \<noteq> vi_width src \<or> vi_height fat \<noteq> expect_h \<or> vi_num_frames fat \<noteq> vi_num_frames src
        then fail ns ''VAggregate'' ''clip must match src format, width, and frame count, with height=src.height*(2*radius+1)*2''
        else Inr ()))"

subsection \<open>Accepted shapes of the low-rank filters\<close>

text \<open>
  The common part of what the three parsers accept; a group of MCWNNM stacks the patches of
  three channels.
\<close>

definition wnnm_family ::
  "vs_helpers \<Rightarrow> farith \<Rightarrow> vsmap \<Rightarrow> video_info \<Rightarrow> string \<Rightarrow> int \<Rightarrow> wnnm_params \<Rightarrow> bool" where
  "wnnm_family h F m vi ns channels p \<longleftrightarrow>
     channels = 1 \<and> map_sum id wnnm_params.truncate (parse_wnnm h F m vi ns) = Inr p \<or>
     channels = 1 \<and> map_sum id wnnm_params.truncate (parse_ncsr h F m vi ns) = Inr p \<or>
     channels = 3 \<and> map_sum id wnnm_params.truncate (parse_mcwnnm h F m vi ns) = Inr p"

lemma block_area: "1 \<le> b \<Longrightarrow> b \<le> 16 \<Longrightarrow> b * b \<le> (256 :: int)"
  using mult_mono [of b 16 b 16] by simp

lemma map_sum_id_Inr: "map_sum id f r = Inr p \<longleftrightarrow> (\<exists>q. r = Inr q \<and> p = f q)"
  by (cases r) auto

definition shape_range :: "'x wnnm_params_scheme \<Rightarrow> bool" where
  "shape_range p \<longleftrightarrow>
     1 \<le> wp_block p \<and> wp_block p \<le> 16 \<and> 1 \<le> wp_group p \<and> wp_group p \<le> 32 \<and> 1 \<le> wp_step p \<and> wp_step p \<le> wp_block p \<and>
     0 \<le> wp_radius p \<and> wp_radius p \<le> 16 \<and> 1 \<le> wp_range p \<and> wp_range p \<le> 64 \<and>
     1 \<le> wp_ps_num p \<and> wp_ps_num p \<le> wp_group p \<and> 1 \<le> wp_ps_range p \<and> wp_ps_range p \<le> 64"

lemma parse_wnnm_range: "parse_wnnm h F m vi ns = Inr q \<Longrightarrow> shape_range q"
  unfolding parse_wnnm_def Let_def if_fail_eq_Inr not_less de_Morgan_disj sum.inject filter_limits shape_range_def
  by (elim conjE, hypsubst) (simp only: wnnm_params.simps simp_thms)

lemma parse_ncsr_range: "parse_ncsr h F m vi ns = Inr q \<Longrightarrow> shape_range q"
  unfolding parse_ncsr_def Let_def if_fail_eq_Inr not_less de_Morgan_disj sum.inject filter_limits shape_range_def
  by (elim conjE, hypsubst) (simp only: wnnm_params.simps simp_thms)

lemma parse_mcwnnm_range:
  "parse_mcwnnm h F m vi ns = Inr q \<Longrightarrow> shape_range q \<and> 3 * wp_block q * wp_block q \<le> kSvdMaxM"
  unfolding parse_mcwnnm_def Let_def if_fail_eq_Inr not_less de_Morgan_disj sum.inject filter_limits shape_range_def
  by (elim conjE, hypsubst) (simp only: wnnm_params.simps simp_thms)

definition wnnm_shape_ok :: "int \<Rightarrow> wnnm_params \<Rightarrow> bool" where
  "wnnm_shape_ok channels p \<longleftrightarrow> shape_range p \<and> channels * wp_block p * wp_block p \<le> kSvdMaxM"

lemma wnnm_family_ok:
  assumes "wnnm_family h F m vi ns channels p"
  shows "wnnm_shape_ok channels p"
proof -
  have tr: "shape_range (wnnm_params.truncate q) = shape_range q" "wp_block (wnnm_params.truncate q) = wp_block q"
    for q :: "'x wnnm_params_scheme"
    by (simp_all add: shape_range_def wnnm_params.truncate_def)
  have "(\<exists>q. channels = 1 \<and> parse_wnnm h F m vi ns = Inr q \<and> p = wnnm_params.truncate q) \<or>
      (\<exists>q. channels = 1 \<and> parse_ncsr h F m vi ns = Inr q \<and> p = wnnm_params.truncate q) \<or>
      (\<exists>q. channels = 3 \<and> parse_mcwnnm h F m vi ns = Inr q \<and> p = wnnm_params.truncate q)"
    using assms by (auto simp: wnnm_family_def map_sum_id_Inr)
  then show ?thesis
    by (auto simp: wnnm_shape_ok_def tr kSvdMaxM_def dest!: parse_wnnm_range parse_ncsr_range parse_mcwnnm_range)
       (simp_all add: shape_range_def block_area)
qed

lemma solver_work_fits:
  assumes "1 \<le> m" "m \<le> 256" "1 \<le> n" "n \<le> 32"
  shows "checked_solver_shape m n = Inr () \<and>
    (\<exists>work. wnnm_shrink_work_floats m n = Inr work \<and> 0 < work \<and> int32 work)"
proof -
  have c: "checked_solver_shape m n = Inr ()"
    using assms by (auto simp: checked_solver_shape_def kSvdMaxM_def kSvdMaxN_def)
  have "0 \<le> m * n" "0 \<le> n * n" using assms by simp_all
  moreover have "m * n \<le> 256 * 32" "n * n \<le> 32 * 32" using assms mult_mono [of m 256 n 32] mult_mono [of n 32 n 32] by simp_all
  ultimately have "0 < m * n + n + n * n + m + (m * n * 6 + n * n * 8 + n + 256)"
      "int32 (m * n + n + n * n + m + (m * n * 6 + n * n * 8 + n + 256))"
    using assms unfolding int32_def int_max_def int_min_def by linarith+
  then show ?thesis unfolding wnnm_shrink_work_floats_def c Let_def bindE_simps using c by blast
qed

lemma wnnm_work_fits:
  assumes "wnnm_shape_ok channels p" "1 \<le> channels"
  shows "checked_solver_shape (channels * wp_block p * wp_block p) (wp_group p) = Inr () \<and>
    (\<exists>work. wnnm_shrink_work_floats (channels * wp_block p * wp_block p) (wp_group p) = Inr work \<and> 0 < work \<and> int32 work)"
proof (rule solver_work_fits)
  have "1 \<le> wp_block p" using assms(1) by (simp add: wnnm_shape_ok_def shape_range_def)
  then show "1 \<le> channels * wp_block p * wp_block p"
    using mult_mono [of 1 channels 1 "wp_block p"] mult_mono [of 1 "channels * wp_block p" 1 "wp_block p"] assms(2) by simp
qed (use assms(1) in \<open>simp_all add: wnnm_shape_ok_def shape_range_def kSvdMaxM_def\<close>)

text \<open>
  Arguments accepted by WNNM, NCSR or MCWNNM give a search the matcher accepts at every
  frame of the clip, and groups the solver accepts: the stacked patch fits its limits and
  its scratch size is a positive \<open>int\<close>.
\<close>

theorem wnnm_search_accepted:
  assumes "wnnm_family h F m vi ns channels p"
    and "wp_block p \<le> plane_width vi plane" "wp_block p \<le> plane_height vi plane" "0 \<le> center" "center < vi_num_frames vi"
    and "\<forall>t. 0 \<le> t \<and> t < 2 * wp_radius p + 1 \<longrightarrow> refs t \<noteq> None \<and> plane_width vi plane \<le> strides t"
  shows "predictive_args_ok refs strides (2 * wp_radius p + 1) (plane_width vi plane) (plane_height vi plane) (wp_radius p)
      (wnnm_search p center (vi_num_frames vi)) \<and>
    checked_solver_shape (channels * wp_block p * wp_block p) (wp_group p) = Inr () \<and>
    (\<exists>work. wnnm_shrink_work_floats (channels * wp_block p * wp_block p) (wp_group p) = Inr work \<and> 0 < work \<and> int32 work)"
proof -
  have ok: "wnnm_shape_ok channels p" by (rule wnnm_family_ok [OF assms(1)])
  have "1 \<le> channels" using assms(1) by (auto simp: wnnm_family_def)
  note work = wnnm_work_fits [OF ok this]
  show ?thesis
    using ok assms(2-6) work
    by (auto simp: wnnm_shape_ok_def shape_range_def predictive_args_ok_def wnnm_search_def default_search_config_def kBmMaxGroup_def kBmMaxRadius_def)
qed

lemmas example_args = rgb_clip_def gray_clip_def empty_map_def example_helpers_def is_const_32f_def int_max_def map_int_def
  map_float_def sigma_array_def map_float_array_def filter_limits Let_def

lemma wnnm_example:
  "\<exists>p. wnnm_family example_helpers F empty_map rgb_clip ''nss'' 1 p \<and> wp_block p = 8 \<and> wp_radius p = 0 \<and> wp_group p = 8"
proof -
  obtain q where q: "parse_wnnm example_helpers F empty_map rgb_clip ''nss'' = Inr q" "wp_block q = 8" "wp_radius q = 0" "wp_group q = 8"
    by (simp add: parse_wnnm_def example_args)
  then show ?thesis
    by (intro exI [of _ "wnnm_params.truncate q"]) (simp add: wnnm_family_def wnnm_params.truncate_def)
qed

theorem wnnm_search_accepted_witness:
  "\<exists>p. wnnm_family example_helpers example_arith empty_map rgb_clip ''nss'' 1 p \<and>
     predictive_args_ok (\<lambda>_. Some ()) (\<lambda>_. 640) 1 640 480 0 (wnnm_search p 7 100)"
proof -
  obtain p where p: "wnnm_family example_helpers example_arith empty_map rgb_clip ''nss'' 1 p" "wp_block p = 8" "wp_radius p = 0"
    using wnnm_example by blast
  have "predictive_args_ok (\<lambda>_. Some ()) (\<lambda>_. 640) 1 640 480 0 (wnnm_search p 7 100)"
    using wnnm_search_accepted [OF p(1), of 0 7 "\<lambda>_. Some ()" "\<lambda>_. 640"] p(2,3)
    by (simp add: rgb_clip_def gray_clip_def plane_width_def plane_height_def)
  then show ?thesis using p(1) by blast
qed

subsection \<open>Accepted arguments of the other filters\<close>

text \<open>What the API documents of a constant 32-bit float format.\<close>

definition format_documented :: "video_info \<Rightarrow> bool" where
  "format_documented vi \<longleftrightarrow> vi_bytes vi = 4 \<and> vi_planes vi = (if vi_family vi = Cf_gray then 1 else 3)"

lemma clip_limits:
  assumes "is_const_32f h vi"
  shows "1 \<le> vi_width vi" "vi_width vi \<le> int_max" "1 \<le> vi_height vi" "vi_height vi \<le> int_max"
proof -
  note q = plane_positive [OF assms]
  show "1 \<le> vi_width vi" "1 \<le> vi_height vi" by (rule q)+
  have "1 * vi_height vi \<le> vi_width vi * vi_height vi" "vi_width vi * 1 \<le> vi_width vi * vi_height vi"
    using q by (intro mult_right_mono mult_left_mono; simp)+
  then show "vi_width vi \<le> int_max" "vi_height vi \<le> int_max"
    using q(3) by (simp_all only: mult_1_left mult_1_right)
qed

lemma frame_bytes_bounds:
  assumes "is_const_32f h vi" "format_documented vi"
  shows "0 < frame_bytes vi" "frame_bytes vi \<le> 12 * int_max"
proof -
  note p = plane_positive [OF assms(1)]
  obtain a where a: "vi_width vi * vi_height vi = a" by simp
  have b: "frame_bytes vi = 4 * vi_planes vi * a"
    using assms(2) by (simp add: frame_bytes_def format_documented_def flip: a)
  have wh: "0 < a" using p(1,2) by (simp flip: a)
  have pl: "vi_planes vi = 1 \<or> vi_planes vi = 3" using assms(2) by (auto simp: format_documented_def)
  show "0 < frame_bytes vi" using wh pl b by auto
  show "frame_bytes vi \<le> 12 * int_max" using wh p(3) [unfolded a] pl b by auto
qed

lemma nlm_planes_valid:
  assumes "nlm_channels m vi ns = Inr ch" "format_documented vi" "plane \<in> set (nlm_planes ch vi)"
  shows "0 \<le> plane \<and> plane < vi_planes vi"
proof -
  have "(ch = Ch_uv \<longrightarrow> vi_family vi = Cf_yuv)"
    using assms(1) by (auto simp: nlm_channels_def Let_def bindE_Inr_iff split: if_splits)
  then show ?thesis
    using assms(2,3) by (auto simp: nlm_planes_def Let_def format_documented_def split: if_splits)
qed

text \<open>
  What NLM accepts keeps its kernels inside their buffers: every processed plane exists and
  is wider than the search radius, the radii are in range, \<open>h\<close> and \<open>wref\<close> are finite and
  positive, the \<open>2 d + 1\<close> pinned frames hold at most 2 GiB, and the 64-bit product that
  checks this cannot overflow for any radius that reaches it.
\<close>

theorem nlm_args_sound:
  assumes "parse_nlm h F m vi ns = Inr p" "format_documented vi"
  shows "0 \<le> nl_d p \<and> nl_d p \<le> 256 \<and> 1 \<le> nl_a p \<and> nl_a p \<le> 64 \<and> 0 \<le> nl_s p \<and> nl_s p \<le> 1024 \<and>
    is_finite_bits (nl_h p) \<and> f32_lt f32_zero (nl_h p) \<and> is_finite_bits (nl_wref p) \<and> f32_lt f32_zero (nl_wref p) \<and>
    (\<forall>plane \<in> set (nlm_planes (nl_channels p) vi).
       0 \<le> plane \<and> plane < vi_planes vi \<and> nl_a p < plane_width vi plane) \<and>
    (2 * nl_d p + 1) * frame_bytes vi \<le> kNlmMaxPinnedFrameBytes \<and>
    (\<forall>d. 0 \<le> d \<and> d \<le> kNlmMaxD \<longrightarrow> 0 < (2 * d + 1) * frame_bytes vi \<and> (2 * d + 1) * frame_bytes vi < 2 ^ 63)"
proof -
  let ?d = "map_int m ''d'' 1" and ?a = "map_int m ''a'' 2" and ?s = "map_int m ''s'' 4"
    and ?h = "map_float F m ''h'' kNlmDefaultH" and ?w = "map_float F m ''wref'' f32_one"
  have vi: "is_const_32f h vi" and range: "\<not> (?d < 0 \<or> ?d > kNlmMaxD \<or> ?a \<le> 0 \<or> ?s < 0 \<or> ?a > kNlmMaxA \<or> ?s > kNlmMaxS \<or>
        \<not> is_finite_bits ?h \<or> f32_le ?h f32_zero \<or> \<not> is_finite_bits ?w \<or> f32_le ?w f32_zero)"
    and pin: "\<not> (2 * ?d + 1) * frame_bytes vi > kNlmMaxPinnedFrameBytes"
    and rest: "bindE (nlm_channels m vi ns) (\<lambda>channels.
        bindE (foldE (\<lambda>plane u. if ?a \<ge> plane_width vi plane
            then fail ns ''NLM'' ''search radius a must be smaller than the processed plane width'' else Inr u)
            (nlm_planes channels vi) ()) (\<lambda>_.
          Inr \<lparr>nl_d = ?d, nl_a = ?a, nl_s = ?s, nl_h = ?h, nl_wref = ?w, nl_channels = channels,
               nl_weight = nlm_weight_of (map_int m ''wmode'' 0)\<rparr>)) = Inr p"
    using assms(1) unfolding parse_nlm_def Let_def if_fail_eq_Inr by blast+
  obtain ch u where ch: "nlm_channels m vi ns = Inr ch"
    and loop: "foldE (\<lambda>plane u. if ?a \<ge> plane_width vi plane
            then fail ns ''NLM'' ''search radius a must be smaller than the processed plane width'' else Inr u)
            (nlm_planes ch vi) () = Inr u"
    and p: "p = \<lparr>nl_d = ?d, nl_a = ?a, nl_s = ?s, nl_h = ?h, nl_wref = ?w, nl_channels = ch,
               nl_weight = nlm_weight_of (map_int m ''wmode'' 0)\<rparr>"
    using rest unfolding bindE_Inr_iff sum.inject by blast
  have pos: "f32_lt f32_zero v" if "is_finite_bits v" "\<not> f32_le v f32_zero" for v
    using that by (auto simp: f32_le_def f32_lt_def)
  have planes: "0 \<le> plane \<and> plane < vi_planes vi \<and> ?a < plane_width vi plane" if "plane \<in> set (nlm_planes ch vi)" for plane
    using foldE_unit_all [OF loop] that nlm_planes_valid [OF ch assms(2) that] by (auto simp: not_le)
  have fit: "0 < (2 * d + 1) * frame_bytes vi \<and> (2 * d + 1) * frame_bytes vi < 2 ^ 63" if "0 \<le> d \<and> d \<le> kNlmMaxD" for d
  proof -
    note f = frame_bytes_bounds [OF vi assms(2)]
    have "(2 * d + 1) * frame_bytes vi \<le> 513 * (12 * int_max)"
      using that f by (intro mult_mono) (auto simp: kNlmMaxD_def)
    then show ?thesis using f that by (simp add: int_max_def)
  qed
  show ?thesis
    unfolding p nlm_params.simps using range pin planes fit pos by (auto simp: filter_limits)
qed

theorem nlm_args_sound_witness:
  "\<exists>p. parse_nlm example_helpers example_arith empty_map rgb_clip ''nss'' = Inr p \<and> nl_a p < plane_width rgb_clip 2"
proof -
  have "\<not> f32_le kNlmDefaultH f32_zero" "\<not> f32_le f32_one f32_zero" "is_finite_bits kNlmDefaultH" "is_finite_bits f32_one"
    by (simp_all add: f32_le_def f32_key_def f32_mag_def f32_neg_def f32_zero_def kNlmDefaultH_def f32_one_def is_finite_bits_def f32_nan_def)
  then obtain p where p: "parse_nlm example_helpers example_arith empty_map rgb_clip ''nss'' = Inr p" "nl_channels p = Ch_rgb"
    by (simp add: parse_nlm_def example_args frame_bytes_def nlm_channels_def nlm_planes_def plane_width_def upto.simps)
  have "format_documented rgb_clip" by (simp add: format_documented_def rgb_clip_def gray_clip_def)
  moreover have "2 \<in> set (nlm_planes Ch_rgb rgb_clip)" by (simp add: nlm_planes_def rgb_clip_def gray_clip_def)
  ultimately have "nl_a p < plane_width rgb_clip 2" using nlm_args_sound [OF p(1)] p(2) by simp
  then show ?thesis using p(1) by blast
qed


subsection \<open>VAggregate's planes\<close>

lemma select_plane_Inr:
  "select_plane m src ns i planes = Inr q \<longleftrightarrow>
     (\<exists>v. vm_int m ''planes'' i = Some v \<and> 0 \<le> to_int32 v \<and> to_int32 v < vi_planes src \<and> planes ! nat (to_int32 v) = 0 \<and>
       q = planes[nat (to_int32 v) := 1])"
  by (auto simp: select_plane_def Let_def not_le split: option.splits)

definition plane_args :: "vsmap \<Rightarrow> int list \<Rightarrow> int list" where
  "plane_args m is = map (\<lambda>i. to_int32 (the (vm_int m ''planes'' i))) is"

lemma select_planes:
  assumes "foldE (select_plane m src ns) is planes = Inr q" "vi_planes src \<le> int (length planes)"
    and "\<forall>k < length planes. planes ! k = 0 \<or> planes ! k = 1"
  shows "length q = length planes \<and> (\<forall>i \<in> set is. vm_int m ''planes'' i \<noteq> None) \<and>
    (\<forall>k \<in> set (plane_args m is). 0 \<le> k \<and> k < vi_planes src \<and> planes ! nat k = 0) \<and> distinct (plane_args m is) \<and>
    (\<forall>k < length planes. q ! k = (if int k \<in> set (plane_args m is) then 1 else planes ! k))"
  using assms
proof (induction "is" arbitrary: planes)
  case Nil
  then show ?case by (simp add: plane_args_def)
next
  case (Cons i "is")
  obtain v where v: "vm_int m ''planes'' i = Some v" "0 \<le> to_int32 v" "to_int32 v < vi_planes src" "planes ! nat (to_int32 v) = 0"
    and run: "foldE (select_plane m src ns) is (planes[nat (to_int32 v) := 1]) = Inr q"
    using Cons.prems(1) by (auto simp: bindE_Inr_iff select_plane_Inr)
  obtain k where k: "to_int32 v = int k" using v(2) nonneg_int_cases by blast
  have lt: "k < length planes" using v(3) Cons.prems(2) k by linarith
  have "\<forall>j < length (planes[k := 1]). planes[k := 1] ! j = 0 \<or> planes[k := 1] ! j = 1"
    using Cons.prems(3) lt by (simp add: nth_list_update)
  note ih = Cons.IH [OF run, unfolded k nat_int length_list_update, OF Cons.prems(2) this [unfolded length_list_update]]
  have a: "plane_args m (i # is) = int k # plane_args m is" using v(1) k by (simp add: plane_args_def)
  have new: "int k \<notin> set (plane_args m is)" using ih lt by fastforce
  have other: "planes ! nat j = 0" if "j \<in> set (plane_args m is)" for j
  proof -
    have "0 \<le> j" "planes[k := 1] ! nat j = 0" "j \<noteq> int k" using ih that new by auto
    then show ?thesis by (auto simp: nth_list_update split: if_splits)
  qed
  show ?case
    unfolding a using ih v k new other lt by (auto simp: nth_list_update)
qed

text \<open>What the check of the shapes leaves.\<close>

lemma vaggregate_shape_ok:
  assumes "validate_vaggregate_shape h src fat radius ns = Inr ()"
  shows "0 \<le> radius" "radius \<le> 16" "vi_width fat = vi_width src" "vi_num_frames fat = vi_num_frames src"
    "vi_height fat = vi_height src * (2 * radius + 1) * 2" "same_format src fat" "1 \<le> vi_height src"
proof -
  obtain eh where r: "0 \<le> radius" "radius \<le> kBmMaxRadius"
    and eh: "checked_fat_height (vi_height src) radius = Inr eh" "vi_height fat = eh"
    and same: "vi_width fat = vi_width src" "vi_num_frames fat = vi_num_frames src" "same_format src fat" and src: "is_const_32f h src"
    using assms unfolding validate_vaggregate_shape_def if_fail_eq_Inr bindE_Inr_iff by (auto simp: not_less)
  have h: "vi_height src \<le> int_max" "1 \<le> vi_height src" using clip_limits [OF src] by simp_all
  then have "eh = vi_height src * (2 * radius + 1) * 2"
    using eh(1) r fat_height_no_wrap [of "vi_height src" radius]
    by (auto simp: checked_fat_height_def checked_int_iff kBmMaxRadius_def int_max_def algebra_simps)
  then show "0 \<le> radius" "radius \<le> 16" "vi_width fat = vi_width src" "vi_num_frames fat = vi_num_frames src"
    "vi_height fat = vi_height src * (2 * radius + 1) * 2" "same_format src fat" "1 \<le> vi_height src"
    using r eh(2) same h by (simp_all add: kBmMaxRadius_def)
qed


definition one_plane_map :: vsmap where
  "one_plane_map = empty_map\<lparr>vm_count := (\<lambda>k. if k = ''planes'' then 1 else - 1),
     vm_int := (\<lambda>k i. if k = ''planes'' \<and> i = 0 then Some 2 else if k = ''radius'' \<and> i = 0 then Some 3 else None)\<rparr>"


end
