(* ===== verification/Raster.thy ===== *)
theory Raster
  imports Commit_Queue Checked
begin

text \<open>
  Reference positions (src/host/batch_runner.hpp): the loops of \<open>append_raster_jobs\<close>, the
  lazily indexed \<open>RasterJobs\<close>, and the window \<open>commit_prepared_chunk\<close> commits. Both
  enumerations are one axis rule, also the one of LSSC's and PNLM's grids: positions
  \<open>0, step, 2 step, \<dots>\<close> and the last one at the far edge.
\<close>

definition kGroupBatchWindow :: nat where "kGroupBatchWindow = 32"

subsection \<open>The loops\<close>

text \<open>\<open>for (v = 0; v < limit; v += step)\<close>.\<close>

function axis_loop :: "int \<Rightarrow> int \<Rightarrow> int \<Rightarrow> int list" where
  "axis_loop limit step v = (if v < limit \<and> 0 < step then v # axis_loop limit step (v + step) else [])"
  by pat_completeness auto
termination
  by (relation "measure (\<lambda>(limit, step, v). nat (limit - v))") auto

declare axis_loop.simps [simp del]

definition axis_positions :: "int \<Rightarrow> int \<Rightarrow> int \<Rightarrow> int list" where
  "axis_positions n block step = map (\<lambda>v. min v (n - block)) (axis_loop (n - block + step) step 0)"

text \<open>The ordinal of a job is the number of jobs before it, those already in the vector included.\<close>

definition push_job :: "group_key \<Rightarrow> int \<Rightarrow> int \<times> int \<Rightarrow> group_job list \<Rightarrow> group_job list" where
  "push_job key t p jobs =
     jobs @ [\<lparr>gj_ordinal = length jobs, gj_x = fst p, gj_y = snd p, gj_t = t, gj_key = key\<rparr>]"

definition append_raster_jobs :: "group_job list \<Rightarrow> int \<Rightarrow> int \<Rightarrow> int \<Rightarrow> int \<Rightarrow> group_key \<Rightarrow> int \<Rightarrow> group_job list" where
  "append_raster_jobs jobs width height block step key t =
     (if width < block \<or> height < block \<or> step < 1 then jobs
      else fold (\<lambda>y jobs. fold (\<lambda>x. push_job key t (x, y)) (axis_positions width block step) jobs)
             (axis_positions height block step) jobs)"

subsection \<open>\<open>RasterJobs\<close>\<close>

text \<open>
  The counts are computed in 64 bits from \<open>int\<close> operands; the constructor's callers pass a
  plane no smaller than the block and a positive step.
\<close>

definition raster_count :: "int \<Rightarrow> int \<Rightarrow> int \<Rightarrow> int res" where
  "raster_count n block step = checked_int (((nat (n - block) + nat step - 1) mod 2 ^ 64 div nat step + 1) mod 2 ^ 64)"

record raster_jobs =
  rj_w :: int
  rj_h :: int
  rj_b :: int
  rj_step :: int
  rj_key :: group_key
  rj_t :: int
  rj_nx :: int
  rj_ny :: int

definition raster_jobs_new :: "int \<Rightarrow> int \<Rightarrow> int \<Rightarrow> int \<Rightarrow> group_key \<Rightarrow> int \<Rightarrow> raster_jobs res" where
  "raster_jobs_new w h b step key t =
     bindE (raster_count w b step) (\<lambda>nx. bindE (raster_count h b step) (\<lambda>ny.
       Inr \<lparr>rj_w = w, rj_h = h, rj_b = b, rj_step = step, rj_key = key, rj_t = t, rj_nx = nx, rj_ny = ny\<rparr>))"

definition raster_size :: "raster_jobs \<Rightarrow> nat" where
  "raster_size r = nat (rj_nx r) * nat (rj_ny r)"

definition raster_at :: "raster_jobs \<Rightarrow> nat \<Rightarrow> group_job" where
  "raster_at r i =
     \<lparr>gj_ordinal = i, gj_x = int (min (i mod nat (rj_nx r) * nat (rj_step r)) (nat (rj_w r - rj_b r))),
      gj_y = int (min (i div nat (rj_nx r) * nat (rj_step r)) (nat (rj_h r - rj_b r))), gj_t = rj_t r, gj_key = rj_key r\<rparr>"

text \<open>
  \<open>commit_prepared_chunk\<close>: the jobs \<open>begin\<close> to \<open>end - 1\<close> in order; \<open>prepare\<close> fills a fresh
  result, whose validity the commit looks at.
\<close>

definition commit_prepared_chunk :: "group_job list \<Rightarrow> nat \<Rightarrow> nat \<Rightarrow> (group_job \<Rightarrow> 'r option) \<Rightarrow> ('r option \<Rightarrow> 's \<Rightarrow> 's) \<Rightarrow> 's \<Rightarrow> 's" where
  "commit_prepared_chunk jobs begin' end' prepare commit s =
     (if begin' \<ge> end' \<or> end' > length jobs then s
      else fold (\<lambda>index s. commit (prepare (jobs ! index)) s) [begin'..<end'] s)"

subsection \<open>The positions of an axis\<close>

text \<open>Their number, as a quotient, and the \<open>i\<close>-th of them.\<close>

definition axis_count :: "int \<Rightarrow> int \<Rightarrow> int \<Rightarrow> nat" where
  "axis_count n block step = nat ((n - block + step - 1) div step + 1)"

definition axis_position :: "int \<Rightarrow> int \<Rightarrow> int \<Rightarrow> nat \<Rightarrow> int" where
  "axis_position n block step i = min (int i * step) (n - block)"

lemma axis_loop_eq:
  assumes "0 < step"
  shows "axis_loop limit step v = map (\<lambda>i. v + int i * step) [0..<nat ((limit - v + step - 1) div step)]"
  using assms
proof (induction limit step v rule: axis_loop.induct)
  case (1 limit step v)
  show ?case
  proof (cases "v < limit \<and> 0 < step")
    case True
    let ?k = "(limit - (v + step) + step - 1) div step"
    have "limit - v + step - 1 = limit - (v + step) + step - 1 + step" by simp
    then have "(limit - v + step - 1) div step = (limit - (v + step) + step - 1 + step) div step" by (rule arg_cong)
    also have "\<dots> = ?k + 1" by (rule div_add_self2) (use True in simp)
    finally have q: "(limit - v + step - 1) div step = ?k + 1" .
    have "0 \<le> ?k" using True by (simp add: pos_imp_zdiv_nonneg_iff)
    then have "nat ((limit - v + step - 1) div step) = Suc (nat ?k)" using q by simp
    then show ?thesis
      using True 1 by (simp add: axis_loop.simps [of limit step v] map_upt_Suc algebra_simps del: upt_Suc)
  next
    case False
    have "(limit - v + step - 1) div step \<le> (step - 1) div step" using False 1 by (intro zdiv_mono1) auto
    also have "(step - 1) div step = 0" using 1 by simp
    finally show ?thesis using False by (simp add: axis_loop.simps)
  qed
qed

lemma axis_positions_eq:
  assumes "1 \<le> step" "block \<le> n"
  shows "axis_positions n block step = map (axis_position n block step) [0..<axis_count n block step]"
proof -
  have "n - block + step - 0 + step - 1 = n - block + step - 1 + step" by simp
  then have "(n - block + step - 0 + step - 1) div step = (n - block + step - 1 + step) div step" by (rule arg_cong)
  also have "\<dots> = (n - block + step - 1) div step + 1" by (rule div_add_self2) (use assms in simp)
  finally have "nat ((n - block + step - 0 + step - 1) div step) = axis_count n block step" by (simp only: axis_count_def)
  then show ?thesis using assms by (simp add: axis_positions_def axis_loop_eq axis_position_def)
qed

text \<open>Positions are inside, start at 0, end at the far edge, and leave no gap larger than the step.\<close>

lemma axis_count_bounds:
  assumes "1 \<le> step" "block \<le> n"
  shows "1 \<le> axis_count n block step" "int (axis_count n block step) \<le> n - block + 1"
    "n - block \<le> (int (axis_count n block step) - 1) * step"
    "(int (axis_count n block step) - 2) * step < n - block \<or> axis_count n block step = 1"
proof -
  let ?q = "(n - block + step - 1) div step"
  have q: "0 \<le> ?q" using assms by (simp add: pos_imp_zdiv_nonneg_iff)
  then have c: "int (axis_count n block step) = ?q + 1" by (simp add: axis_count_def)
  show "1 \<le> axis_count n block step" using q by (simp add: axis_count_def)
  show "n - block \<le> (int (axis_count n block step) - 1) * step"
    using ceil_div_mult_ge [of step "n - block"] assms c by simp
  show lt: "(int (axis_count n block step) - 2) * step < n - block \<or> axis_count n block step = 1"
  proof (cases "n = block")
    case True
    then show ?thesis using assms by (simp add: axis_count_def)
  next
    case False
    then have "(?q - 1) * step < n - block" using assms ceil_div_pred_mult_lt [of step "n - block"] by simp
    then show ?thesis using c by (simp add: algebra_simps)
  qed
  show "int (axis_count n block step) \<le> n - block + 1"
  proof (cases "axis_count n block step = 1")
    case False
    then have "(int (axis_count n block step) - 2) * 1 \<le> (int (axis_count n block step) - 2) * step"
      using assms c q by (intro mult_left_mono) auto
    also have "\<dots> < n - block" using lt False by blast
    finally show ?thesis by simp
  qed (use assms in simp)
qed

lemma axis_position_inside:
  assumes "1 \<le> step" "block \<le> n"
  shows "0 \<le> axis_position n block step i" "axis_position n block step i \<le> n - block"
  using assms by (auto simp: axis_position_def)

lemma axis_position_last:
  assumes "1 \<le> step" "block \<le> n"
  shows "axis_position n block step (axis_count n block step - 1) = n - block"
  using axis_count_bounds [OF assms] by (auto simp: axis_position_def of_nat_diff)

text \<open>Every pixel is in the block of some position when the step is no larger than the block.\<close>

lemma axis_covers:
  assumes "1 \<le> step" "step \<le> block" "block \<le> n" "0 \<le> p" "p < n"
  shows "\<exists>i < axis_count n block step. axis_position n block step i \<le> p \<and> p < axis_position n block step i + block"
proof (cases "n - block \<le> p")
  case True
  have "axis_count n block step - 1 < axis_count n block step" using axis_count_bounds(1) [of step block n] assms by simp
  then show ?thesis using True assms axis_position_last [of step block n] by (intro exI [of _ "axis_count n block step - 1"]) auto
next
  case False
  let ?i = "nat (p div step)"
  have i: "int ?i = p div step" using assms by (simp add: pos_imp_zdiv_nonneg_iff)
  have m: "p div step * step \<le> p" "p < p div step * step + step"
    using assms pos_mod_sign [of step p] pos_mod_bound [of step p] div_mult_mod_eq [of p step] by linarith+
  have "p div step < int (axis_count n block step)"
  proof (rule ccontr)
    assume "\<not> p div step < int (axis_count n block step)"
    then have "(int (axis_count n block step) - 1) * step \<le> p div step * step" using assms by (intro mult_right_mono) auto
    then show False using axis_count_bounds(3) [of step block n] m False assms by linarith
  qed
  then have "?i < axis_count n block step" using i by linarith
  moreover have "axis_position n block step ?i = p div step * step" using i m False by (simp add: axis_position_def)
  ultimately show ?thesis using m assms by (intro exI [of _ ?i]) auto
qed

lemma axis_positions_distinct:
  assumes "1 \<le> step" "block \<le> n"
  shows "sorted_wrt (<) (axis_positions n block step)"
proof -
  have "axis_position n block step i < axis_position n block step j" if "i < j" "j < axis_count n block step" for i j
  proof -
    have "int i * step \<le> (int (axis_count n block step) - 2) * step" using that assms by (intro mult_right_mono) auto
    then have "int i * step < n - block" using axis_count_bounds(4) [OF assms] that by auto
    moreover have "int i * step < int j * step" using that assms by (intro mult_strict_right_mono) auto
    ultimately show ?thesis by (simp add: axis_position_def)
  qed
  then show ?thesis by (simp add: axis_positions_eq [OF assms] sorted_wrt_map sorted_wrt_iff_nth_less)
qed

subsection \<open>The loops and the index agree\<close>

lemma push_jobs:
  "fold (push_job key t) ps jobs = jobs @ map (\<lambda>i. \<lparr>gj_ordinal = length jobs + i, gj_x = fst (ps ! i), gj_y = snd (ps ! i),
     gj_t = t, gj_key = key\<rparr>) [0..<length ps]"
proof (induction ps arbitrary: jobs)
  case Nil
  then show ?case by simp
next
  case (Cons p ps)
  show ?case
    unfolding fold_simps Cons.IH by (simp add: push_job_def map_upt_Suc del: upt_Suc)
qed

lemma push_grid:
  "fold (\<lambda>y jobs. fold (\<lambda>x. push_job key t (x, y)) xs jobs) ys jobs =
    fold (push_job key t) (concat (map (\<lambda>y. map (\<lambda>x. (x, y)) xs) ys)) jobs"
proof -
  have "fold (\<lambda>x. push_job key t (x, y)) xs jobs = fold (push_job key t) (map (\<lambda>x. (x, y)) xs) jobs" for y jobs
    by (induction xs arbitrary: jobs) simp_all
  then show ?thesis by (induction ys arbitrary: jobs) simp_all
qed

lemma grid_nth:
  "i < length xs * length ys \<Longrightarrow>
    concat (map (\<lambda>y. map (\<lambda>x. (x, y)) xs) ys) ! i = (xs ! (i mod length xs), ys ! (i div length xs))"
proof (induction ys arbitrary: i)
  case Nil
  then show ?case by simp
next
  case (Cons y ys)
  show ?case
  proof (cases "i < length xs")
    case True
    then show ?thesis by (simp add: nth_append)
  next
    case False
    then have pos: "0 < length xs" using Cons.prems by (cases xs) auto
    have "i - length xs < length xs * length ys" using Cons.prems False by simp
    moreover have "i div length xs = Suc ((i - length xs) div length xs)" "i mod length xs = (i - length xs) mod length xs"
      using False pos by (simp_all add: le_div_geq le_mod_geq)
    ultimately show ?thesis using Cons.IH [of "i - length xs"] False by (simp add: nth_append)
  qed
qed

lemma length_grid: "length (concat (map (\<lambda>y. map (\<lambda>x. (x, y)) xs) ys)) = length xs * length ys"
  by (induction ys) simp_all

lemma raster_count_eq:
  assumes "1 \<le> step" "1 \<le> block" "block \<le> n" "n \<le> int_max" "step \<le> int_max"
  shows "raster_count n block step = Inr (int (axis_count n block step))"
proof -
  have "nat (n - block) + nat step - 1 = nat (n - block + step - 1)" using assms by (simp add: nat_add_distrib nat_diff_distrib)
  moreover have "nat (n - block + step - 1) < 2 ^ 64" using assms by (simp add: int_max_def)
  ultimately have e: "(nat (n - block) + nat step - 1) mod 2 ^ 64 div nat step + 1 = axis_count n block step"
    using assms by (simp add: axis_count_def nat_div_distrib nat_add_distrib pos_imp_zdiv_nonneg_iff)
  have c: "int (axis_count n block step) \<le> int_max" using axis_count_bounds(2) [of step block n] assms by simp
  then have "axis_count n block step < 2 ^ 64" by (simp add: int_max_def)
  then show ?thesis unfolding raster_count_def e using c by (simp add: checked_int_iff)
qed

lemma length_axis_positions: "1 \<le> step \<Longrightarrow> block \<le> n \<Longrightarrow> length (axis_positions n block step) = axis_count n block step"
  by (simp add: axis_positions_eq)

text \<open>The jobs of a plane, by index.\<close>

lemma append_raster_jobs_nth:
  assumes "1 \<le> step" "block \<le> width" "block \<le> height"
  defines "nx \<equiv> axis_count width block step" and "ny \<equiv> axis_count height block step"
  shows "append_raster_jobs [] width height block step key t =
    map (\<lambda>i. \<lparr>gj_ordinal = i, gj_x = axis_position width block step (i mod nx), gj_y = axis_position height block step (i div nx),
      gj_t = t, gj_key = key\<rparr>) [0..<nx * ny]"
proof -
  let ?xs = "axis_positions width block step" and ?ys = "axis_positions height block step"
  have len: "length ?xs = nx" "length ?ys = ny" using assms by (simp_all add: length_axis_positions)
  have nx: "0 < nx" using axis_count_bounds(1) [of step block width] assms by (simp add: nx_def)
  have "?xs ! (i mod nx) = axis_position width block step (i mod nx)" "?ys ! (i div nx) = axis_position height block step (i div nx)"
    if "i < nx * ny" for i
  proof -
    have "i mod nx < nx" "i div nx < ny" using that nx by (simp_all add: less_mult_imp_div_less mult.commute)
    then show "?xs ! (i mod nx) = axis_position width block step (i mod nx)" "?ys ! (i div nx) = axis_position height block step (i div nx)"
      using assms by (simp_all add: axis_positions_eq)
  qed
  then show ?thesis
    using assms(1-3) by (simp add: append_raster_jobs_def push_grid push_jobs length_grid grid_nth len)
qed

text \<open>
  C34. The lazily indexed raster is the eager job list of the same grid: the same jobs at the
  same positions, ordinals equal to the index, every block inside the plane, and every pixel
  of the plane in some block when the step does not exceed the block. Neither the counts nor
  the positions wrap around.
\<close>

theorem raster_jobs_equiv:
  assumes "1 \<le> block" "1 \<le> step" "step \<le> int_max" "block \<le> width" "block \<le> height" "width \<le> int_max" "height \<le> int_max"
  shows "\<exists>r. raster_jobs_new width height block step key t = Inr r \<and>
    append_raster_jobs [] width height block step key t = map (raster_at r) [0..<raster_size r] \<and>
    (\<forall>i < raster_size r. gj_ordinal (raster_at r i) = i \<and> 0 \<le> gj_x (raster_at r i) \<and> gj_x (raster_at r i) + block \<le> width \<and>
      0 \<le> gj_y (raster_at r i) \<and> gj_y (raster_at r i) + block \<le> height) \<and>
    (step \<le> block \<longrightarrow> (\<forall>px py. 0 \<le> px \<and> px < width \<and> 0 \<le> py \<and> py < height \<longrightarrow>
      (\<exists>i < raster_size r. gj_x (raster_at r i) \<le> px \<and> px < gj_x (raster_at r i) + block \<and>
        gj_y (raster_at r i) \<le> py \<and> py < gj_y (raster_at r i) + block)))"
proof -
  let ?nx = "axis_count width block step" and ?ny = "axis_count height block step"
  let ?r = "\<lparr>rj_w = width, rj_h = height, rj_b = block, rj_step = step, rj_key = key, rj_t = t, rj_nx = int ?nx, rj_ny = int ?ny\<rparr>"
  have new: "raster_jobs_new width height block step key t = Inr ?r"
    using assms by (simp add: raster_jobs_new_def raster_count_eq)
  have size: "raster_size ?r = ?nx * ?ny" by (simp add: raster_size_def)
  have pos: "int (min (i * nat step) (nat (n - block))) = axis_position n block step i" if "block \<le> n" for i n
    using that assms by (simp add: axis_position_def of_nat_min)
  have at: "raster_at ?r i = \<lparr>gj_ordinal = i, gj_x = axis_position width block step (i mod ?nx),
      gj_y = axis_position height block step (i div ?nx), gj_t = t, gj_key = key\<rparr>" for i
    using pos [OF assms(4), of "i mod ?nx"] pos [OF assms(5), of "i div ?nx"] by (simp add: raster_at_def)
  have eq: "append_raster_jobs [] width height block step key t = map (raster_at ?r) [0..<raster_size ?r]"
    unfolding size append_raster_jobs_nth [OF assms(2,4,5)] by (simp add: at)
  have nx: "0 < ?nx" using axis_count_bounds(1) [of step block width] assms by simp
  have cover: "\<exists>i < raster_size ?r. gj_x (raster_at ?r i) \<le> px \<and> px < gj_x (raster_at ?r i) + block \<and>
        gj_y (raster_at ?r i) \<le> py \<and> py < gj_y (raster_at ?r i) + block"
    if "step \<le> block" "0 \<le> px" "px < width" "0 \<le> py" "py < height" for px py
  proof -
    note cx = axis_covers [OF assms(2) that(1) assms(4) that(2,3)] and cy = axis_covers [OF assms(2) that(1) assms(5) that(4,5)]
    obtain i j where i: "i < ?nx" "axis_position width block step i \<le> px" "px < axis_position width block step i + block"
      and j: "j < ?ny" "axis_position height block step j \<le> py" "py < axis_position height block step j + block"
      using cx cy by blast
    have "j * ?nx + i < ?ny * ?nx"
    proof -
      have "j * ?nx + i < Suc j * ?nx" using i by simp
      also have "\<dots> \<le> ?ny * ?nx" using j by (intro mult_le_mono1) simp
      finally show ?thesis .
    qed
    moreover have "(j * ?nx + i) mod ?nx = i" "(j * ?nx + i) div ?nx = j" using i by simp_all
    ultimately show ?thesis using i j by (intro exI [of _ "j * ?nx + i"]) (simp add: size at mult.commute)
  qed
  show ?thesis
    by (intro exI [of _ ?r] conjI allI impI new eq cover; (elim conjE)?)
       (use assms axis_position_inside [OF assms(2,4)] axis_position_inside [OF assms(2,5)] in \<open>simp_all add: at algebra_simps\<close>)
qed

theorem raster_jobs_equiv_witness:
  "\<exists>r. raster_jobs_new 19 10 8 6 (Group_key 64 8 1 GA_wnnm False False) 0 = Inr r \<and>
     length (append_raster_jobs [] 19 10 8 6 (Group_key 64 8 1 GA_wnnm False False) 0) = 6 \<and>
     (\<exists>i < 6. gj_x (raster_at r i) \<le> 18 \<and> 18 < gj_x (raster_at r i) + 8 \<and> gj_y (raster_at r i) \<le> 9)"
proof -
  let ?k = "Group_key 64 8 1 GA_wnnm False False"
  have a: "(1::int) \<le> 8" "(1::int) \<le> 6" "6 \<le> int_max" "(8::int) \<le> 19" "(8::int) \<le> 10" "19 \<le> int_max" "10 \<le> int_max"
    by (simp_all add: int_max_def)
  obtain r where r: "raster_jobs_new 19 10 8 6 ?k 0 = Inr r"
    "append_raster_jobs [] 19 10 8 6 ?k 0 = map (raster_at r) [0..<raster_size r]"
    "\<forall>px py. 0 \<le> px \<and> px < 19 \<and> 0 \<le> py \<and> py < 10 \<longrightarrow>
      (\<exists>i < raster_size r. gj_x (raster_at r i) \<le> px \<and> px < gj_x (raster_at r i) + 8 \<and>
        gj_y (raster_at r i) \<le> py \<and> py < gj_y (raster_at r i) + 8)"
    using raster_jobs_equiv [OF a, of ?k 0] by auto
  have "raster_size r = 6" using r(1) by (auto simp: raster_jobs_new_def raster_count_def checked_int_def int_max_def raster_size_def)
  then show ?thesis using r(1,2) r(3) [rule_format, of 18 9] by auto
qed

end
