(* ===== verification/Geometry.thy ===== *)
theory Geometry
  imports Raster Filter_Args Bm3d_Args
begin

text \<open>
  Geometry shared by the backends: LSSC's grid size (include/nss/params/lssc.hpp), the tile
  grids of BM4D and DA3D with BM4D's chunks (include/nss/params/bm4d.hpp, da3d.hpp) and the
  frames of a temporal window (src/frontend/temporal.hpp).
\<close>

subsection \<open>LSSC's grid\<close>

lemma lssc_axis_raster: "1 \<le> block \<Longrightarrow> block \<le> n \<Longrightarrow> 1 \<le> step \<Longrightarrow> lssc_axis_count n block step = raster_count n block step"
  by (simp add: lssc_axis_count_def raster_count_def)

text \<open>The number of patches of one axis, zero when the plane is smaller than the block.\<close>

definition grid_count :: "int \<Rightarrow> int \<Rightarrow> int \<Rightarrow> nat" where
  "grid_count n block step = (if n < block then 0 else axis_count n block step)"

lemma lssc_axis_count_eq:
  assumes "1 \<le> block" "1 \<le> step" "step \<le> int_max" "n \<le> int_max"
  shows "lssc_axis_count n block step = Inr (int (grid_count n block step))"
proof (cases "n < block")
  case True
  then show ?thesis by (simp add: lssc_axis_count_def grid_count_def)
next
  case False
  then show ?thesis using assms by (simp add: grid_count_def lssc_axis_raster raster_count_eq)
qed

lemma grid_count_le: "1 \<le> block \<Longrightarrow> 1 \<le> step \<Longrightarrow> 0 \<le> n \<Longrightarrow> int (grid_count n block step) \<le> n"
  using axis_count_bounds(2) [of step block n] by (auto simp: grid_count_def)

text \<open>
  LSSC admits a call only with a grid of whole patches: the axis and grid counts are exact,
  with no wrap-around of the 64-bit arithmetic or of \<open>int\<close>, and the patches of the plane
  together hold at most 16,000,000 pixels.
\<close>

theorem lssc_grid_admitted:
  assumes "parse_lssc h F m vi ns = Inr p"
  shows "lssc_allowed_block (lp_block p) \<and> 1 \<le> lp_step p \<and> lp_step p \<le> lp_block p \<and> lp_radius p = 0 \<and>
    lssc_grid_count (vi_width vi) (vi_height vi) (lp_block p) (lp_step p) =
      Inr (int (grid_count (vi_width vi) (lp_block p) (lp_step p) * grid_count (vi_height vi) (lp_block p) (lp_step p))) \<and>
    int (grid_count (vi_width vi) (lp_block p) (lp_step p) * grid_count (vi_height vi) (lp_block p) (lp_step p)) *
      (lp_block p * lp_block p) \<le> 16000000"
proof -
  let ?b = "map_int m ''block_size'' 8"
  let ?s = "map_int m ''block_step'' (lssc_default_step ?b)" and ?r = "map_int m ''radius'' 0"
  have vi: "is_const_32f h vi" and ok: "\<not> (\<not> lssc_allowed_block ?b \<or> ?s < 1 \<or> ?s > ?b)" "\<not> ?r \<noteq> 0"
    and rest: "bindE (lssc_grid_count (vi_width vi) (vi_height vi) ?b ?s) (\<lambda>patches.
        if ?b * ?b > 0 \<and> patches > cdiv 16000000 (?b * ?b) then fail ns ''LSSC'' ''grid too large; increase block_step''
        else Inr \<lparr>lp_sigma = sigma_array F m (vi_planes vi), lp_block = ?b, lp_step = ?s, lp_radius = ?r\<rparr>) = Inr p"
    using assms unfolding parse_lssc_def Let_def if_fail_eq_Inr by blast+
  obtain n where n: "lssc_grid_count (vi_width vi) (vi_height vi) ?b ?s = Inr n"
    and le: "\<not> (?b * ?b > 0 \<and> n > cdiv 16000000 (?b * ?b))"
    and p: "p = \<lparr>lp_sigma = sigma_array F m (vi_planes vi), lp_block = ?b, lp_step = ?s, lp_radius = ?r\<rparr>"
    using rest unfolding bindE_Inr_iff if_fail_eq_Inr sum.inject by blast
  have b: "1 \<le> ?b" "?b \<le> 16" "1 \<le> ?s" "?s \<le> int_max" using ok allowed_bounds(2) [of ?b] by (auto simp: int_max_def)
  note lim = clip_limits [OF vi]
  let ?nx = "grid_count (vi_width vi) ?b ?s" and ?ny = "grid_count (vi_height vi) ?b ?s"
  have "int ?nx * int ?ny \<le> vi_width vi * vi_height vi"
    using lim grid_count_le [OF b(1,3)] by (intro mult_mono) auto
  then have prod: "int (?nx * ?ny) \<le> int_max" using plane_positive(3) [OF vi] by simp
  define N where "N = ?nx * ?ny"
  have "int N \<le> int_max" using prod by (simp only: N_def)
  then have "N < 2 ^ 64" by (simp add: int_max_def)
  then have "?nx * ?ny < 2 ^ 64" by (simp only: N_def)
  then have count: "lssc_grid_count (vi_width vi) (vi_height vi) ?b ?s = Inr (int (?nx * ?ny))"
    using prod by (simp add: lssc_grid_count_def lssc_axis_count_eq [OF b(1,3,4)] lim checked_int_iff)
  have "0 < ?b * ?b" using b by simp
  then have "int (?nx * ?ny) \<le> 16000000 div (?b * ?b)" using le n count by (auto simp: cdiv_nonneg)
  then have "int (?nx * ?ny) * (?b * ?b) \<le> 16000000 div (?b * ?b) * (?b * ?b)" by (rule mult_right_mono) simp
  also have "\<dots> \<le> 16000000" using \<open>0 < ?b * ?b\<close> by (metis div_mult_mod_eq le_add_same_cancel1 pos_mod_sign)
  finally show ?thesis unfolding p using ok count by simp
qed

theorem lssc_grid_admitted_witness:
  "\<exists>p. parse_lssc example_helpers example_arith empty_map rgb_clip ''nss'' = Inr p \<and>
     grid_count 640 (lp_block p) (lp_step p) * grid_count 480 (lp_block p) (lp_step p) = 159 * 119"
proof -
  obtain p where p: "parse_lssc example_helpers example_arith empty_map rgb_clip ''nss'' = Inr p" "lp_block p = 8" "lp_step p = 4"
    by (simp add: parse_lssc_def lssc_allowed_block_def lssc_default_step_def lssc_grid_count_def lssc_axis_count_def
        checked_int_def cdiv_def example_args)
  have "lssc_grid_count 640 480 8 4 = Inr (159 * 119)"
    by (simp add: lssc_grid_count_def lssc_axis_count_def checked_int_def int_max_def)
  then have "int (grid_count 640 8 4 * grid_count 480 8 4) = 159 * 119"
    using lssc_grid_admitted [OF p(1)] p(2,3) by (simp add: rgb_clip_def gray_clip_def)
  then have "grid_count 640 8 4 * grid_count 480 8 4 = 159 * 119" by linarith
  then show ?thesis using p by auto
qed

subsection \<open>Tiles (BM4D, DA3D)\<close>

definition kBm4dTile :: int where "kBm4dTile = 256"
definition kDa3dTile :: int where "kDa3dTile = 128"
definition kBm4dChunk :: int where "kBm4dChunk = 32"

definition bm4d_tile_count :: "int \<Rightarrow> int" where
  "bm4d_tile_count n = (let c = cdiv (n + cdiv kBm4dTile 2) kBm4dTile in if c > 0 then c else 1)"

definition bm4d_tile_start :: "int \<Rightarrow> int \<Rightarrow> int \<Rightarrow> int" where
  "bm4d_tile_start n cnt i = cdiv (n * i) cnt"

definition bm4d_tile_max :: "int \<Rightarrow> int" where
  "bm4d_tile_max n =
     (let cnt = bm4d_tile_count n
      in fold (\<lambda>i best. let e = bm4d_tile_start n cnt (i + 1) - bm4d_tile_start n cnt i in if e > best then e else best)
           [0..cnt - 1] 0)"

definition bm4d_chunk_first :: "int \<Rightarrow> int" where
  "bm4d_chunk_first n = n - cmod n kBm4dChunk"

definition da3d_tile_count :: "int \<Rightarrow> int" where
  "da3d_tile_count n = (let c = cdiv (n + cdiv kDa3dTile 2) kDa3dTile in if c > 0 then c else 1)"

definition da3d_tile_start :: "int \<Rightarrow> int \<Rightarrow> int \<Rightarrow> int" where
  "da3d_tile_start n cnt i = cdiv (n * i) cnt"

definition da3d_tile_max :: "int \<Rightarrow> int" where
  "da3d_tile_max n =
     (let cnt = da3d_tile_count n
      in fold (\<lambda>i best. let e = da3d_tile_start n cnt (i + 1) - da3d_tile_start n cnt i in if e > best then e else best)
           [0..cnt - 1] 0)"

text \<open>
  What a tiling of \<open>n\<close> pixels promises: the starts run from 0 to \<open>n\<close> and increase, every
  pixel is in exactly one tile, and no tile is wider than \<open>bound\<close>, which some tile reaches,
  nor than \<open>limit\<close>.
\<close>

locale tiling =
  fixes tiles :: "int \<Rightarrow> int" and start :: "int \<Rightarrow> int \<Rightarrow> int" and limit :: int
  assumes tiles_pos: "1 \<le> n \<Longrightarrow> 1 \<le> tiles n"
    and first: "1 \<le> n \<Longrightarrow> start n 0 = 0"
    and last: "1 \<le> n \<Longrightarrow> start n (tiles n) = n"
    and step: "1 \<le> n \<Longrightarrow> 0 \<le> i \<Longrightarrow> i < tiles n \<Longrightarrow> start n i < start n (i + 1) \<and> start n (i + 1) - start n i \<le> limit"
begin

lemma mono: "1 \<le> n \<Longrightarrow> 0 \<le> i \<Longrightarrow> i \<le> j \<Longrightarrow> j \<le> tiles n \<Longrightarrow> start n i + (j - i) \<le> start n j"
proof (induction "nat (j - i)" arbitrary: j)
  case 0
  then show ?case by simp
next
  case (Suc d)
  then have "start n i + (j - 1 - i) \<le> start n (j - 1)" by (intro Suc.hyps(1)) auto
  moreover have "start n (j - 1) < start n j" using step [of n "j - 1"] Suc by auto
  ultimately show ?case by simp
qed

lemma unique_tile:
  assumes "1 \<le> n" "0 \<le> p" "p < n"
  shows "\<exists>!i. 0 \<le> i \<and> i < tiles n \<and> start n i \<le> p \<and> p < start n (i + 1)"
proof (rule ex_ex1I)
  have "\<exists>i. 0 \<le> i \<and> i < j \<and> start n i \<le> p \<and> p < start n (i + 1)" if "0 \<le> j" "j \<le> tiles n" "p < start n j" for j
    using that
  proof (induction "nat j" arbitrary: j)
    case 0
    then show ?case using assms first [of n] by simp
  next
    case (Suc d)
    show ?case
    proof (cases "p < start n (j - 1)")
      case True
      then have "\<exists>i. 0 \<le> i \<and> i < j - 1 \<and> start n i \<le> p \<and> p < start n (i + 1)" using Suc by (intro Suc.hyps(1)) auto
      then show ?thesis by fastforce
    next
      case False
      then show ?thesis using Suc by (intro exI [of _ "j - 1"]) auto
    qed
  qed
  from this [of "tiles n"] show "\<exists>i. 0 \<le> i \<and> i < tiles n \<and> start n i \<le> p \<and> p < start n (i + 1)"
    using assms tiles_pos [of n] last [of n] by simp
next
  fix i j
  assume ij: "0 \<le> i \<and> i < tiles n \<and> start n i \<le> p \<and> p < start n (i + 1)"
    "0 \<le> j \<and> j < tiles n \<and> start n j \<le> p \<and> p < start n (j + 1)"
  have "\<not> i < j" using mono [of n "i + 1" j] assms ij by auto
  moreover have "\<not> j < i" using mono [of n "j + 1" i] assms ij by auto
  ultimately show "i = j" by simp
qed

lemma widest:
  assumes "1 \<le> n"
  shows "(\<forall>i. 0 \<le> i \<and> i < tiles n \<longrightarrow> start n (i + 1) - start n i \<le>
      fold (\<lambda>i best. let e = start n (i + 1) - start n i in if e > best then e else best) [0..tiles n - 1] 0) \<and>
   fold (\<lambda>i best. let e = start n (i + 1) - start n i in if e > best then e else best) [0..tiles n - 1] 0 \<le> limit"
proof -
  have eq: "(\<lambda>i best. let e = start n (i + 1) - start n i in if e > best then e else best) =
      (\<lambda>i best. max best (start n (i + 1) - start n i))"
    by (auto simp: fun_eq_iff Let_def)
  have "0 \<le> limit" using step [of n 0] tiles_pos [of n] assms by simp
  then show ?thesis
    unfolding eq
    using fold_max_ge(2) [of _ "[0..tiles n - 1]" "\<lambda>i. start n (i + 1) - start n i" 0]
      fold_max_cases [of "\<lambda>i. start n (i + 1) - start n i" "[0..tiles n - 1]" 0] step [of n] assms
    by fastforce
qed

end

text \<open>Rounding the number of tiles to nearest keeps the edges within one and a half times the nominal one.\<close>

lemma rounded_tiles:
  fixes n T :: int
  assumes "1 \<le> n" "2 \<le> T"
  defines "c \<equiv> (let c = cdiv (n + cdiv T 2) T in if c > 0 then c else 1)"
  shows "1 \<le> c" "c \<le> n" "n \<le> c * T + T div 2"
proof -
  have d: "cdiv T 2 = T div 2" using assms by (intro cdiv_nonneg) auto
  have q: "cdiv (n + cdiv T 2) T = (n + T div 2) div T" unfolding d using assms by (intro cdiv_nonneg) auto
  let ?q = "(n + T div 2) div T"
  have m: "?q * T \<le> n + T div 2" "n + T div 2 < ?q * T + T"
    using assms pos_mod_sign [of T "n + T div 2"] pos_mod_bound [of T "n + T div 2"] div_mult_mod_eq [of "n + T div 2" T] by linarith+
  have q0: "0 \<le> ?q" using assms by (simp add: pos_imp_zdiv_nonneg_iff)
  show "1 \<le> c" unfolding c_def q Let_def by simp
  show "n \<le> c * T + T div 2"
  proof (cases "?q > 0")
    case True
    then show ?thesis using m unfolding c_def q Let_def by simp
  next
    case False
    then have "?q = 0" using q0 by simp
    then show ?thesis using m assms unfolding c_def q Let_def by simp
  qed
  show "c \<le> n"
  proof (cases "?q > 0")
    case True
    have "(?q - 1) * 2 \<le> (?q - 1) * T" using True assms by (intro mult_left_mono) auto
    moreover have "?q * T = (?q - 1) * T + T" by (simp add: algebra_simps)
    moreover have "T div 2 < T" using assms by simp
    ultimately show ?thesis using m(1) True assms unfolding c_def q Let_def by (auto intro: )
  next
    case False
    then show ?thesis using assms unfolding c_def q Let_def by simp
  qed
qed

lemma proportional_tiling:
  fixes T :: int
  assumes T: "2 \<le> T" and tiles: "\<And>n. tiles n = (let c = cdiv (n + cdiv T 2) T in if c > 0 then c else 1)"
    and start: "\<And>n i. start n i = cdiv (n * i) (tiles n)"
  shows "tiling tiles start (T + T div 2)"
proof
  fix n :: int
  assume n: "1 \<le> n"
  note c = rounded_tiles [OF n T, folded tiles]
  show "1 \<le> tiles n" by (rule c(1))
  show "start n 0 = 0" by (simp add: start cdiv_def)
  show "start n (tiles n) = n" unfolding start using c n by (subst cdiv_nonneg) auto
  fix i :: int
  assume i: "0 \<le> i" "i < tiles n"
  let ?c = "tiles n"
  have s: "start n j = n * j div ?c" if "0 \<le> j" for j unfolding start using that c n by (intro cdiv_nonneg) auto
  have e: "n * (i + 1) div ?c = (n * i + n) div ?c" by (simp add: algebra_simps)
  have lo: "n * i div ?c + 1 \<le> (n * i + n) div ?c"
  proof -
    have "(n * i + ?c) div ?c \<le> (n * i + n) div ?c" using c by (intro zdiv_mono1) auto
    moreover have "(n * i + ?c) div ?c = n * i div ?c + 1" by (rule div_add_self2) (use c in simp)
    ultimately show ?thesis by linarith
  qed
  have hi: "(n * i + n) div ?c \<le> n * i div ?c + (T + T div 2)"
  proof -
    have "T div 2 \<le> ?c * (T div 2)" using c T mult_right_mono [of 1 ?c "T div 2"] by simp
    then have "n \<le> ?c * (T + T div 2)" using c(3) by (simp add: algebra_simps)
    then have "(n * i + n) div ?c \<le> (n * i + ?c * (T + T div 2)) div ?c" using c by (intro zdiv_mono1) auto
    also have "\<dots> = n * i div ?c + (T + T div 2)" using c by simp
    finally show ?thesis .
  qed
  show "start n i < start n (i + 1) \<and> start n (i + 1) - start n i \<le> T + T div 2"
    using lo hi i by (simp add: s e)
qed

text \<open>The tile grids of the two filters, along any edge of a plane.\<close>

interpretation bm4d: tiling bm4d_tile_count "\<lambda>n. bm4d_tile_start n (bm4d_tile_count n)" "kBm4dTile + kBm4dTile div 2"
  by (rule proportional_tiling) (simp_all add: bm4d_tile_count_def bm4d_tile_start_def kBm4dTile_def)

interpretation da3d: tiling da3d_tile_count "\<lambda>n. da3d_tile_start n (da3d_tile_count n)" "kDa3dTile + kDa3dTile div 2"
  by (rule proportional_tiling) (simp_all add: da3d_tile_count_def da3d_tile_start_def kDa3dTile_def)



subsection \<open>The frames of a temporal window (src/frontend/temporal.hpp)\<close>

definition temporal_first :: "int \<Rightarrow> int \<Rightarrow> int" where
  "temporal_first center radius = center - min center radius"

definition temporal_last :: "int \<Rightarrow> int \<Rightarrow> int \<Rightarrow> int" where
  "temporal_last center radius frames = center + min radius (frames - 1 - center)"

definition temporal_slot_frame :: "int \<Rightarrow> int \<Rightarrow> int \<Rightarrow> int \<Rightarrow> int" where
  "temporal_slot_frame center slot radius frames = center + cclamp (slot - radius) (- center) (frames - 1 - center)"

text \<open>
  A temporal window: every slot shows a frame of the clip inside the requested range, the
  nearest one when it would be outside; the range of valid slots given to the matcher holds
  exactly the slots that show their own frame, so no frame is searched twice; and no
  subtraction leaves the range of \<open>int\<close>, for clips of any length.
\<close>

theorem temporal_window_exact:
  assumes "0 \<le> center" "center < frames" "frames \<le> int_max" "0 \<le> radius" "radius \<le> kBmMaxRadius"
    and "0 \<le> slot" "slot < 2 * radius + 1"
  shows "let cfg = bm3d_search block grp step bm_range ps_num ps_range radius center frames;
        frame = temporal_slot_frame center slot radius frames in
    temporal_first center radius \<le> frame \<and> frame \<le> temporal_last center radius frames \<and>
    0 \<le> temporal_first center radius \<and> temporal_last center radius frames < frames \<and>
    frame = max 0 (min (frames - 1) (center + slot - radius)) \<and>
    (sc_valid_t_begin cfg \<le> slot \<and> slot < sc_valid_t_end cfg \<longleftrightarrow> 0 \<le> center + slot - radius \<and> center + slot - radius < frames) \<and>
    (\<forall>v \<in> {slot - radius, - center, frames - 1 - center, sc_valid_t_begin cfg, sc_valid_t_end cfg, frame}. int32 v)"
  using assms
  by (auto simp: temporal_first_def temporal_last_def temporal_slot_frame_def cclamp_def bm3d_search_def Let_def
      default_search_config_def int32_def int_max_def int_min_def kBmMaxRadius_def)

theorem temporal_window_exact_witness:
  "temporal_slot_frame 1 0 3 100 = 0 \<and> temporal_slot_frame 98 6 3 100 = 99"
  using temporal_window_exact [of 1 100 3 0 8 8 8 9 2 4] temporal_window_exact [of 98 100 3 6 8 8 8 9 2 4]
  by (simp add: int_max_def kBmMaxRadius_def Let_def)

end
