(* ===== verification/Pnlm_Search.thy ===== *)
theory Pnlm_Search
  imports Raster Filter_Args Aggregate
begin

text \<open>
  The patch search of PNLM (include/nss/params/pnlm.hpp, src/cpu/pnlm/pnlm.cpp): the grid of
  reference patches, the 64-bit search keys, the column sums shared by the references of a
  grid row, and the sorted lists of the best keys. The theorems show that the packed keys
  order and name the candidates as documented, and that the row search keeps for every
  reference exactly the candidates of least key, whatever the vector length.
\<close>

subsection \<open>Grid and keys (include/nss/params/pnlm.hpp)\<close>

definition pnlm_grid_count :: "int \<Rightarrow> int \<Rightarrow> int" where
  "pnlm_grid_count n block = (let q = cdiv block 2 in if n < block then 0 else cdiv (n - block + q - 1) q + 1)"

definition pnlm_grid_pos :: "int \<Rightarrow> int \<Rightarrow> int \<Rightarrow> int" where
  "pnlm_grid_pos i n block = (let v = i * cdiv block 2; last = n - block in if v < last then v else last)"

definition pnlm_pos :: "int \<Rightarrow> int \<Rightarrow> int \<Rightarrow> 32 word" where
  "pnlm_pos t y x = push_bit 26 (word_of_int t) OR push_bit 13 (word_of_int y) OR word_of_int x"

definition pnlm_pos_t :: "32 word \<Rightarrow> int" where "pnlm_pos_t p = uint (drop_bit 26 p)"
definition pnlm_pos_y :: "32 word \<Rightarrow> int" where "pnlm_pos_y p = uint (drop_bit 13 p AND 8191)"
definition pnlm_pos_x :: "32 word \<Rightarrow> int" where "pnlm_pos_x p = uint (p AND 8191)"

text \<open>The key of a candidate: the bits of its distance, capped at infinity, above its position.\<close>

definition pnlm_key :: "f32 \<Rightarrow> 32 word \<Rightarrow> 64 word" where
  "pnlm_key tot pos = (let bits = min tot 0x7f800000 in push_bit 32 (ucast bits) OR ucast pos)"

text \<open>A position is in range for a window of at most 63 frames and planes of at most 8192 pixels a side.\<close>

definition pos_ok :: "int \<times> int \<times> int \<Rightarrow> bool" where
  "pos_ok p \<longleftrightarrow> (case p of (t, y, x) \<Rightarrow> 0 \<le> t \<and> t < 64 \<and> 0 \<le> y \<and> y < 8192 \<and> 0 \<le> x \<and> x < 8192)"

lemma uint_drop_bit: "uint (drop_bit n w) = uint (w :: 'a::len word) div 2 ^ n"
proof -
  have "take_bit LENGTH('a) (uint w) = uint w" using uint_lt2p [of w] by (simp add: take_bit_int_eq_self)
  then have "uint (drop_bit n w) = drop_bit n (uint w)" by (simp only: unsigned_drop_bit_eq)
  also have "\<dots> = uint w div 2 ^ n" by (rule drop_bit_eq_div)
  finally show ?thesis .
qed

lemma uint_push_OR:
  fixes hi lo :: "'a::len word"
  assumes "uint hi * 2 ^ k < 2 ^ LENGTH('a)" "uint lo < 2 ^ k" "k < LENGTH('a)"
  shows "uint (push_bit k hi OR lo) = uint hi * 2 ^ k + uint lo"
proof -
  have "push_bit k hi AND lo = 0"
  proof (rule bit_word_eqI)
    fix n assume n: "n < LENGTH('a)"
    have "\<not> bit lo n" if "k \<le> n"
    proof -
      have "uint lo < 2 ^ n" using assms(2) that by (meson dual_order.strict_trans1 one_le_numeral power_increasing)
      then have "\<not> bit (uint lo) n" by (simp add: bit_iff_odd div_pos_pos_trivial)
      then show ?thesis using n by (simp add: bit_uint_iff)
    qed
    then show "bit (push_bit k hi AND lo) n = bit (0 :: 'a word) n" by (auto simp: bit_simps)
  qed
  then have "push_bit k hi OR lo = push_bit k hi + lo" by (simp only: disjunctive_add_eq_or)
  moreover have p: "uint (push_bit k hi) = uint hi * 2 ^ k"
    using assms(1) by (simp only: unsigned_push_bit_eq) (simp add: push_bit_eq_mult take_bit_int_eq_self)
  have e: "(2 :: int) ^ LENGTH('a) = 2 ^ (LENGTH('a) - k) * 2 ^ k" using assms(3) by (simp flip: power_add)
  then have "uint hi < 2 ^ (LENGTH('a) - k)" using assms(1) by simp
  then have "(uint hi + 1) * 2 ^ k \<le> 2 ^ (LENGTH('a) - k) * 2 ^ k" by (intro mult_right_mono) simp_all
  then have lt: "uint hi * 2 ^ k + uint lo < 2 ^ LENGTH('a)" using assms(2) e by (simp add: algebra_simps)
  ultimately show ?thesis using p lt by (simp add: uint_word_ariths)
qed

lemma uint_pnlm_pos:
  assumes "pos_ok (t, y, x)"
  shows "uint (pnlm_pos t y x) = t * 2 ^ 26 + y * 2 ^ 13 + x"
proof -
  have u: "uint (word_of_int t :: 32 word) = t" "uint (word_of_int y :: 32 word) = y" "uint (word_of_int x :: 32 word) = x"
    using assms by (simp_all add: pos_ok_def unsigned_of_int take_bit_int_eq_self)
  have yx: "uint (push_bit 13 (word_of_int y) OR word_of_int x :: 32 word) = y * 2 ^ 13 + x"
    using assms uint_push_OR [of "word_of_int y :: 32 word" 13 "word_of_int x"] by (simp add: u pos_ok_def)
  show ?thesis
    unfolding pnlm_pos_def or.assoc
    using assms uint_push_OR [of "word_of_int t :: 32 word" 26 "push_bit 13 (word_of_int y) OR word_of_int x"]
    by (simp add: u yx pos_ok_def)
qed

lemma pnlm_pos_fields:
  assumes "pos_ok (t, y, x)"
  shows "pnlm_pos_t (pnlm_pos t y x) = t" "pnlm_pos_y (pnlm_pos t y x) = y" "pnlm_pos_x (pnlm_pos t y x) = x"
proof -
  note u = uint_pnlm_pos [OF assms]
  have r: "0 \<le> t" "t < 64" "0 \<le> y" "y < 8192" "0 \<le> x" "x < 8192" using assms by (simp_all add: pos_ok_def)
  have m: "(8191 :: 32 word) = mask 13" by (simp add: mask_numeral)
  have "(t * 2 ^ 26 + y * 2 ^ 13 + x) div 2 ^ 26 = t" using r by simp
  then show "pnlm_pos_t (pnlm_pos t y x) = t"
    by (simp only: pnlm_pos_t_def uint_drop_bit u)
  have e: "t * 2 ^ 26 + y * 2 ^ 13 + x = x + (t * 2 ^ 13 + y) * 2 ^ 13" by simp
  then have "(t * 2 ^ 26 + y * 2 ^ 13 + x) div 2 ^ 13 = (x + (t * 2 ^ 13 + y) * 2 ^ 13) div 2 ^ 13" by (rule arg_cong)
  also have "\<dots> = t * 2 ^ 13 + y + x div 2 ^ 13" by (rule div_mult_self1) simp
  also have "\<dots> mod 2 ^ 13 = y" using r by simp
  finally have "(t * 2 ^ 26 + y * 2 ^ 13 + x) div 2 ^ 13 mod 2 ^ 13 = y" .
  then show "pnlm_pos_y (pnlm_pos t y x) = y"
    unfolding pnlm_pos_y_def m take_bit_eq_mask [symmetric] unsigned_take_bit_eq uint_drop_bit u
    by (simp only: take_bit_eq_mod)
  have "(x + (t * 2 ^ 13 + y) * 2 ^ 13) mod 2 ^ 13 = x mod 2 ^ 13" by (rule mod_mult_self1)
  then have "(t * 2 ^ 26 + y * 2 ^ 13 + x) mod 2 ^ 13 = x" unfolding e using r by simp
  then show "pnlm_pos_x (pnlm_pos t y x) = x"
    unfolding pnlm_pos_x_def m take_bit_eq_mask [symmetric] unsigned_take_bit_eq u by (simp only: take_bit_eq_mod)
qed

lemma uint_pnlm_key: "uint (pnlm_key tot pos) = uint (min tot 0x7f800000) * 2 ^ 32 + uint pos"
proof -
  have c: "uint (ucast w :: 64 word) = uint w" for w :: "32 word"
    using uint_lt2p [of w] by (simp add: unsigned_ucast_eq take_bit_int_eq_self)
  have "uint (min tot 0x7f800000) < 2 ^ 32" "uint pos < 2 ^ 32" using uint_lt2p [of "min tot 0x7f800000"] uint_lt2p [of pos] by simp_all
  then show ?thesis
    unfolding pnlm_key_def Let_def
    using uint_push_OR [of "ucast (min tot 0x7f800000) :: 64 word" 32 "ucast pos"] by (simp add: c)
qed

text \<open>Keys compare by the capped distance, then by frame, row and column.\<close>

lemma pnlm_key_less:
  assumes "pos_ok (t, y, x)" "pos_ok (t', y', x')"
  shows "pnlm_key d (pnlm_pos t y x) < pnlm_key d' (pnlm_pos t' y' x') \<longleftrightarrow>
    (min d 0x7f800000, t, y, x) < (min d' 0x7f800000, t', y', x')"
proof -
  let ?p = "t * 2 ^ 26 + y * 2 ^ 13 + x" and ?p' = "t' * 2 ^ 26 + y' * 2 ^ 13 + x'"
  have r: "0 \<le> t" "t < 64" "0 \<le> y" "y < 8192" "0 \<le> x" "x < 8192" "0 \<le> t'" "t' < 64" "0 \<le> y'" "y' < 8192" "0 \<le> x'" "x' < 8192"
    using assms by (simp_all add: pos_ok_def)
  have p: "0 \<le> ?p" "?p < 2 ^ 32" "0 \<le> ?p'" "?p' < 2 ^ 32" using r by simp_all
  have eq: "?p = ?p' \<longleftrightarrow> (t, y, x) = (t', y', x')"
  proof
    assume "?p = ?p'"
    then have "pnlm_pos t y x = pnlm_pos t' y' x'"
      by (simp only: word_uint_eq_iff uint_pnlm_pos [OF assms(1)] uint_pnlm_pos [OF assms(2)])
    then show "(t, y, x) = (t', y', x')" using pnlm_pos_fields [OF assms(1)] pnlm_pos_fields [OF assms(2)] by simp
  qed simp
  have pos: "?p < ?p' \<longleftrightarrow> (t, y, x) < (t', y', x')"
    using r by (auto simp: less_prod_def')
  have key: "a * 2 ^ 32 + ?p < a' * 2 ^ 32 + ?p' \<longleftrightarrow> a < a' \<or> a = a' \<and> ?p < ?p'" for a a' :: int
    using p by auto
  show ?thesis
    unfolding word_less_def uint_pnlm_key uint_pnlm_pos [OF assms(1)] uint_pnlm_pos [OF assms(2)] key pos eq
    by (auto simp: less_prod_def' word_less_def word_uint_eq_iff)
qed

lemma pnlm_key_pos: "ucast (pnlm_key d pos) = pos"
proof -
  have "uint (ucast (pnlm_key d pos) :: 32 word) = (uint (min d 0x7f800000) * 2 ^ 32 + uint pos) mod 2 ^ 32"
    by (simp only: unsigned_ucast_eq uint_pnlm_key take_bit_eq_mod) simp
  also have "\<dots> = uint pos" using uint_lt2p [of pos] by simp
  finally show ?thesis by (simp only: word_uint_eq_iff)
qed

subsection \<open>The image and the work buffer (include/nss/cpu_pnlm.hpp, pnlm.cpp)\<close>

record pnlm_image =
  pi_width :: int
  pi_height :: int
  pi_frames :: int
  pi_center :: int
  pi_src :: "int \<Rightarrow> buffer"
  pi_stride :: "int \<Rightarrow> int"
  pi_sigma :: f32
  pi_a :: int
  pi_block :: int
  pi_group :: int

definition kPad :: int where "kPad = 32"

text \<open>A row of the column sums; the work buffer holds five.\<close>

definition col_row :: "pnlm_image \<Rightarrow> int" where
  "col_row img = pi_width img + kPad"

subsection \<open>Column sums\<close>

text \<open>
  One lane of a quarter's column sum: \<open>q\<close> squared differences of the rows of the reference
  and the candidate, fused, top to bottom; lanes past the valid columns load zeros.
\<close>

definition column_sum :: "farith \<Rightarrow> int \<Rightarrow> (int \<Rightarrow> f32) \<Rightarrow> (int \<Rightarrow> f32) \<Rightarrow> f32" where
  "column_sum F q rv cv = fold (\<lambda>r sum. let d = fsub F (rv r) (cv r) in ffma F d d sum) [0..q - 1] f32_zero"

definition store_vector :: "int \<Rightarrow> int \<Rightarrow> (int \<Rightarrow> f32) \<Rightarrow> buffer \<Rightarrow> buffer" where
  "store_vector lanes base v b = map_span base 0 lanes (\<lambda>k _. v k) b"

definition column_pass :: "farith \<Rightarrow> int \<Rightarrow> pnlm_image \<Rightarrow> int \<Rightarrow> int \<Rightarrow> int \<Rightarrow> int \<Rightarrow> int \<Rightarrow> int \<Rightarrow> buffer \<Rightarrow> buffer" where
  "column_pass F lanes img q y0 t yc dx qy cols =
     (let x_lo = max 0 (- dx); x_hi = min (pi_width img) (pi_width img - dx);
          cs = pi_stride img (pi_center img); fs = pi_stride img t;
          rrow = (y0 + qy * q) * cs; crow = (yc + qy * q) * fs + dx
      in fold (\<lambda>x cols. let n = min lanes (x_hi - x) in
             store_vector lanes (qy * col_row img + x)
               (\<lambda>k. column_sum F q (\<lambda>r. if k < n then pi_src img (pi_center img) (rrow + r * cs + x + k) else f32_zero)
                                   (\<lambda>r. if k < n then pi_src img t (crow + r * fs + x + k) else f32_zero)) cols)
           (axis_loop x_hi lanes x_lo) cols)"

text \<open>\<open>pnlm_columns\<close>: the column sums of a quarter, added.\<close>

definition pnlm_columns :: "farith \<Rightarrow> int \<Rightarrow> (int \<Rightarrow> f32) \<Rightarrow> f32" where
  "pnlm_columns F q c =
     (if q = 4 then fadd F (fadd F (c 0) (c 1)) (fadd F (c 2) (c 3))
      else if q = 3 then fadd F (fadd F (c 0) (c 1)) (c 2)
      else fadd F (c 0) (c 1))"

definition quarter_pass :: "farith \<Rightarrow> int \<Rightarrow> pnlm_image \<Rightarrow> int \<Rightarrow> int \<Rightarrow> int \<Rightarrow> buffer \<Rightarrow> buffer" where
  "quarter_pass F lanes img q dx qy cols =
     (let x_lo = max 0 (- dx); x_hi = min (pi_width img) (pi_width img - dx); t_hi = x_hi - 2 * q + 1
      in fold (\<lambda>x cols. store_vector lanes ((2 + qy) * col_row img + x)
             (\<lambda>k. pnlm_columns F q (\<lambda>j. cols (qy * col_row img + x + k + j))) cols)
           (axis_loop (t_hi + q) lanes x_lo) cols)"

definition total_pass :: "farith \<Rightarrow> int \<Rightarrow> pnlm_image \<Rightarrow> int \<Rightarrow> int \<Rightarrow> buffer \<Rightarrow> buffer" where
  "total_pass F lanes img q dx cols =
     (let x_lo = max 0 (- dx); x_hi = min (pi_width img) (pi_width img - dx); t_hi = x_hi - 2 * q + 1;
          qt = 2 * col_row img; qb = 3 * col_row img
      in fold (\<lambda>x cols. store_vector lanes (4 * col_row img + x)
             (\<lambda>k. fadd F (fadd F (cols (qt + x + k)) (cols (qt + x + q + k)))
                         (fadd F (cols (qb + x + k)) (cols (qb + x + q + k)))) cols)
           (axis_loop t_hi lanes x_lo) cols)"

subsection \<open>The best keys of a reference\<close>

text \<open>\<open>for (; i > 0 && key < b[i - 1]; --i) b[i] = b[i - 1]; b[i] = key\<close>.\<close>

fun place_key :: "nat \<Rightarrow> 64 word \<Rightarrow> 64 word list \<Rightarrow> 64 word list" where
  "place_key 0 key b = b[0 := key]"
| "place_key (Suc i) key b = (if key < b ! i then place_key i key (b[Suc i := b ! i]) else b[Suc i := key])"

type_synonym best_keys = "64 word list \<times> nat"

definition insert_key :: "nat \<Rightarrow> 64 word \<Rightarrow> best_keys \<Rightarrow> best_keys" where
  "insert_key K key bk =
     (case bk of (b, k) \<Rightarrow>
        if k = K \<and> \<not> key < b ! (K - 1) then (b, k)
        else if k < K then (place_key k key b, k + 1)
        else (place_key (K - 1) key b, k))"

subsection \<open>The references of a grid row\<close>

text \<open>One displacement: the shared sums, then the run of references whose candidate is inside the plane.\<close>

definition run_first :: "int \<Rightarrow> int list \<Rightarrow> nat" where
  "run_first dx xs = length (takeWhile (\<lambda>x. x + dx < 0) xs)"

definition run_last :: "int \<Rightarrow> int \<Rightarrow> int list \<Rightarrow> nat" where
  "run_last limit dx xs = length xs - length (takeWhile (\<lambda>x. x + dx > limit) (rev (drop (run_first dx xs) xs)))"

definition displacement :: "farith \<Rightarrow> int \<Rightarrow> pnlm_image \<Rightarrow> int \<Rightarrow> int list \<Rightarrow> int \<Rightarrow> int \<Rightarrow> int \<Rightarrow> int \<Rightarrow>
    buffer \<times> best_keys list \<Rightarrow> buffer \<times> best_keys list" where
  "displacement F lanes img q xs y0 t dy dx st =
     (case st of (cols, best) \<Rightarrow>
        let yc = y0 + dy;
            cols1 = fold (column_pass F lanes img q y0 t yc dx) [0, 1] cols
        in if t = pi_center img \<and> dx = 0 \<and> dy = 0 then (cols1, best)
           else
             let cols3 = total_pass F lanes img q dx (fold (quarter_pass F lanes img q dx) [0, 1] cols1);
                 K = nat (pi_group img - 1)
             in (cols3,
                 fold (\<lambda>ix best. best[ix := insert_key K
                     (pnlm_key (cols3 (4 * col_row img + xs ! ix)) (pnlm_pos t yc (xs ! ix + dx))) (best ! ix)])
                   [run_first dx xs..<run_last (pi_width img - 2 * q) dx xs] best))"

definition match_row :: "farith \<Rightarrow> int \<Rightarrow> pnlm_image \<Rightarrow> int \<Rightarrow> int list \<Rightarrow> int \<Rightarrow> buffer \<times> best_keys list \<Rightarrow> buffer \<times> best_keys list" where
  "match_row F lanes img q xs y0 st =
     (case st of (cols, best) \<Rightarrow>
        fold (\<lambda>t st. fold (\<lambda>dy st.
            if y0 + dy < 0 \<or> y0 + dy > pi_height img - 2 * q then st
            else fold (\<lambda>dx. displacement F lanes img q xs y0 t dy dx) [- pi_a img..pi_a img] st)
          [- pi_a img..pi_a img] st)
        [0..pi_frames img - 1] (cols, map (\<lambda>(b, k). (b, 0)) best))"

subsection \<open>Loops of vector stores\<close>

lemma store_vector_at:
  "store_vector lanes base v b i = (if base \<le> i \<and> i < base + lanes then v (i - base) else b i)"
  by (simp add: store_vector_def map_span_def)

text \<open>
  A loop of vector stores over \<open>lo\<close> to \<open>hi - 1\<close>, whose body may read the buffer outside the
  stretch it writes: it computes every element, whatever the number of lanes, and touches
  nothing but the stretch and less than one vector after it.
\<close>

lemma vector_loop_from:
  assumes "0 < lanes" "lo \<le> v"
    and "\<And>x b k. lo \<le> x \<Longrightarrow> (\<forall>i. i < off + lo \<or> off + hi + lanes \<le> i \<longrightarrow> b i = b0 i) \<Longrightarrow> 0 \<le> k \<Longrightarrow> k < lanes \<Longrightarrow> x + k < hi \<Longrightarrow>
      g x b k = h (x + k)"
    and "\<forall>i. i < off + lo \<or> off + hi + lanes \<le> i \<longrightarrow> b i = b0 i" "\<forall>p. lo \<le> p \<and> p < v \<and> p < hi \<longrightarrow> b (off + p) = h p"
  defines "r \<equiv> fold (\<lambda>x b. store_vector lanes (off + x) (g x b) b) (axis_loop hi lanes v) b"
  shows "(\<forall>i. i < off + lo \<or> off + hi + lanes \<le> i \<longrightarrow> r i = b0 i) \<and> (\<forall>p. lo \<le> p \<and> p < hi \<longrightarrow> r (off + p) = h p)"
  using assms(2,4,5) unfolding r_def
proof (induction "nat (hi - v)" arbitrary: v b rule: less_induct)
  case less
  show ?case
  proof (cases "v < hi")
    case False
    then show ?thesis using less.prems by (simp add: axis_loop.simps)
  next
    case True
    let ?b = "store_vector lanes (off + v) (g v b) b"
    have frame: "\<forall>i. i < off + lo \<or> off + hi + lanes \<le> i \<longrightarrow> ?b i = b0 i"
      using less.prems True by (auto simp: store_vector_at)
    have filled: "\<forall>p. lo \<le> p \<and> p < v + lanes \<and> p < hi \<longrightarrow> ?b (off + p) = h p"
    proof (intro allI impI)
      fix p
      assume p: "lo \<le> p \<and> p < v + lanes \<and> p < hi"
      show "?b (off + p) = h p"
      proof (cases "p < v")
        case True
        then show ?thesis using less.prems p by (simp add: store_vector_at)
      next
        case False
        then have "g v b (p - v) = h (v + (p - v))" using less.prems p by (intro assms(3)) auto
        then show ?thesis using False p by (simp add: store_vector_at)
      qed
    qed
    have "nat (hi - (v + lanes)) < nat (hi - v)" "lo \<le> v + lanes" using True assms(1) less.prems by auto
    then show ?thesis
      using less.hyps [OF _ _ frame filled] True assms(1) by (simp add: axis_loop.simps [of hi lanes v])
  qed
qed

lemma vector_loop:
  assumes "0 < lanes"
    and "\<And>x b k. lo \<le> x \<Longrightarrow> (\<forall>i. i < off + lo \<or> off + hi + lanes \<le> i \<longrightarrow> b i = b0 i) \<Longrightarrow> 0 \<le> k \<Longrightarrow> k < lanes \<Longrightarrow> x + k < hi \<Longrightarrow>
      g x b k = h (x + k)"
  shows "i < off + lo \<or> off + hi + lanes \<le> i \<Longrightarrow>
      fold (\<lambda>x b. store_vector lanes (off + x) (g x b) b) (axis_loop hi lanes lo) b0 i = b0 i"
    and "lo \<le> p \<Longrightarrow> p < hi \<Longrightarrow>
      fold (\<lambda>x b. store_vector lanes (off + x) (g x b) b) (axis_loop hi lanes lo) b0 (off + p) = h p"
proof -
  have all: "(\<forall>i. i < off + lo \<or> off + hi + lanes \<le> i \<longrightarrow>
        fold (\<lambda>x b. store_vector lanes (off + x) (g x b) b) (axis_loop hi lanes lo) b0 i = b0 i) \<and>
      (\<forall>p. lo \<le> p \<and> p < hi \<longrightarrow>
        fold (\<lambda>x b. store_vector lanes (off + x) (g x b) b) (axis_loop hi lanes lo) b0 (off + p) = h p)"
    by (rule vector_loop_from [OF assms(1) order_refl]) (rule assms(2), assumption+, simp, auto)
  show "i < off + lo \<or> off + hi + lanes \<le> i \<Longrightarrow>
      fold (\<lambda>x b. store_vector lanes (off + x) (g x b) b) (axis_loop hi lanes lo) b0 i = b0 i"
    using all by blast
  show "lo \<le> p \<Longrightarrow> p < hi \<Longrightarrow>
      fold (\<lambda>x b. store_vector lanes (off + x) (g x b) b) (axis_loop hi lanes lo) b0 (off + p) = h p"
    using all by blast
qed

subsection \<open>The distance of a candidate\<close>

text \<open>The documented distance: the sums of the four quarters, each over its columns.\<close>

definition pnlm_pixel :: "pnlm_image \<Rightarrow> int \<Rightarrow> int \<Rightarrow> int \<Rightarrow> f32" where
  "pnlm_pixel img t y x = pi_src img t (y * pi_stride img t + x)"

definition quarter_distance :: "farith \<Rightarrow> pnlm_image \<Rightarrow> int \<Rightarrow> int \<Rightarrow> int \<Rightarrow> int \<Rightarrow> int \<Rightarrow> int \<Rightarrow> f32" where
  "quarter_distance F img q x y t xc yc =
     pnlm_columns F q (\<lambda>c. column_sum F q (\<lambda>r. pnlm_pixel img (pi_center img) (y + r) (x + c)) (\<lambda>r. pnlm_pixel img t (yc + r) (xc + c)))"

definition pnlm_distance :: "farith \<Rightarrow> pnlm_image \<Rightarrow> int \<Rightarrow> int \<Rightarrow> int \<Rightarrow> int \<Rightarrow> int \<Rightarrow> int \<Rightarrow> f32" where
  "pnlm_distance F img q x y t xc yc =
     fadd F (fadd F (quarter_distance F img q x y t xc yc) (quarter_distance F img q (x + q) y t (xc + q) yc))
            (fadd F (quarter_distance F img q x (y + q) t xc (yc + q)) (quarter_distance F img q (x + q) (y + q) t (xc + q) (yc + q)))"

lemma column_sum_cong:
  assumes "\<And>r. 0 \<le> r \<Longrightarrow> r < q \<Longrightarrow> rv r = rv' r" "\<And>r. 0 \<le> r \<Longrightarrow> r < q \<Longrightarrow> cv r = cv' r"
  shows "column_sum F q rv cv = column_sum F q rv' cv'"
  unfolding column_sum_def by (rule fold_cong) (use assms in \<open>auto simp: fun_eq_iff\<close>)

lemma pnlm_columns_cong:
  assumes "q = 2 \<or> q = 3 \<or> q = 4" "\<And>j. 0 \<le> j \<Longrightarrow> j < q \<Longrightarrow> c j = c' j"
  shows "pnlm_columns F q c = pnlm_columns F q c'"
  using assms(1) assms(2) [of 0] assms(2) [of 1] assms(2) [of 2] assms(2) [of 3] by (auto simp: pnlm_columns_def)

definition image_ok :: "pnlm_image \<Rightarrow> int \<Rightarrow> int \<Rightarrow> bool" where
  "image_ok img q lanes \<longleftrightarrow>
     (q = 2 \<or> q = 3 \<or> q = 4) \<and> 1 \<le> lanes \<and> lanes \<le> kPad \<and>
     2 * q \<le> pi_width img \<and> 2 * q \<le> pi_height img \<and> pi_width img \<le> kPnlmMaxSide \<and> pi_height img \<le> kPnlmMaxSide \<and>
     1 \<le> pi_frames img \<and> pi_frames img \<le> 2 * kPnlmMaxD + 1 \<and> 0 \<le> pi_center img \<and> pi_center img < pi_frames img \<and>
     2 \<le> pi_group img \<and> pi_group img \<le> kPnlmMaxGroup \<and> 1 \<le> pi_a img"

text \<open>The columns of the reference row, as \<open>match_row\<close> forms them.\<close>

definition row_column :: "farith \<Rightarrow> pnlm_image \<Rightarrow> int \<Rightarrow> int \<Rightarrow> int \<Rightarrow> int \<Rightarrow> int \<Rightarrow> int \<Rightarrow> int \<Rightarrow> f32" where
  "row_column F img q y0 t yc dx qy x =
     column_sum F q (\<lambda>r. pnlm_pixel img (pi_center img) (y0 + qy * q + r) x) (\<lambda>r. pnlm_pixel img t (yc + qy * q + r) (x + dx))"

lemma column_pass_spec:
  fixes dx :: int
  assumes "image_ok img q lanes" "qy = 0 \<or> qy = 1"
  defines "x_lo \<equiv> max 0 (- dx)" and "x_hi \<equiv> min (pi_width img) (pi_width img - dx)" and "R \<equiv> col_row img"
  shows "i < qy * R \<or> (qy + 1) * R \<le> i \<Longrightarrow> column_pass F lanes img q y0 t yc dx qy cols i = cols i"
    and "x_lo \<le> x \<Longrightarrow> x < x_hi \<Longrightarrow> column_pass F lanes img q y0 t yc dx qy cols (qy * R + x) = row_column F img q y0 t yc dx qy x"
proof -
  let ?cs = "pi_stride img (pi_center img)" and ?fs = "pi_stride img t"
  let ?g = "\<lambda>x (b :: buffer) k. column_sum F q
      (\<lambda>r. if k < min lanes (x_hi - x) then pi_src img (pi_center img) ((y0 + qy * q) * ?cs + r * ?cs + x + k) else f32_zero)
      (\<lambda>r. if k < min lanes (x_hi - x) then pi_src img t ((yc + qy * q) * ?fs + dx + r * ?fs + x + k) else f32_zero)"
  have l: "0 < lanes" "lanes \<le> 32" using assms(1) by (auto simp: image_ok_def kPad_def)
  have g: "?g x b k = row_column F img q y0 t yc dx qy (x + k)"
    if "x_lo \<le> x" "\<forall>i. i < qy * R + x_lo \<or> qy * R + x_hi + lanes \<le> i \<longrightarrow> b i = cols i" "0 \<le> k" "k < lanes" "x + k < x_hi" for x b k
    unfolding row_column_def
    by (rule column_sum_cong) (use that in \<open>auto simp: pnlm_pixel_def algebra_simps\<close>)
  have e: "column_pass F lanes img q y0 t yc dx qy cols =
      fold (\<lambda>x b. store_vector lanes (qy * R + x) (?g x b) b) (axis_loop x_hi lanes x_lo) cols"
    by (simp add: column_pass_def Let_def x_lo_def x_hi_def R_def)
  note loop = vector_loop [where g = ?g and h = "\<lambda>x. row_column F img q y0 t yc dx qy x" and off = "qy * R" and hi = x_hi
      and lo = x_lo and ?b0.0 = cols and lanes = lanes, OF l(1) g]
  show "column_pass F lanes img q y0 t yc dx qy cols i = cols i" if "i < qy * R \<or> (qy + 1) * R \<le> i"
    unfolding e
    by (rule loop(1)) (use that l in \<open>auto simp: x_lo_def x_hi_def R_def col_row_def kPad_def algebra_simps\<close>)
  show "column_pass F lanes img q y0 t yc dx qy cols (qy * R + x) = row_column F img q y0 t yc dx qy x" if "x_lo \<le> x" "x < x_hi"
    unfolding e by (rule loop(2)) (use that in auto)
qed

lemma quarter_pass_spec:
  fixes dx :: int
  assumes "image_ok img q lanes" "qy = 0 \<or> qy = 1"
  defines "x_lo \<equiv> max 0 (- dx)" and "x_hi \<equiv> min (pi_width img) (pi_width img - dx)" and "R \<equiv> col_row img"
  assumes cols: "\<And>x. x_lo \<le> x \<Longrightarrow> x < x_hi \<Longrightarrow> cols (qy * R + x) = col x"
  shows "i < (2 + qy) * R \<or> (3 + qy) * R \<le> i \<Longrightarrow> quarter_pass F lanes img q dx qy cols i = cols i"
    and "x_lo \<le> x \<Longrightarrow> x + q \<le> x_hi \<Longrightarrow> quarter_pass F lanes img q dx qy cols ((2 + qy) * R + x) = pnlm_columns F q (\<lambda>j. col (x + j))"
proof -
  have ok: "q = 2 \<or> q = 3 \<or> q = 4" "0 < lanes" "lanes \<le> 32" "0 \<le> pi_width img" using assms(1) by (auto simp: image_ok_def kPad_def)
  let ?hi = "x_hi - 2 * q + 1 + q"
  let ?g = "\<lambda>x (b :: buffer) k. pnlm_columns F q (\<lambda>j. b (qy * R + x + k + j))"
  have g: "?g x b k = pnlm_columns F q (\<lambda>j. col (x + k + j))"
    if "x_lo \<le> x" "\<forall>i. i < (2 + qy) * R + x_lo \<or> (2 + qy) * R + ?hi + lanes \<le> i \<longrightarrow> b i = cols i" "0 \<le> k" "k < lanes" "x + k < ?hi" for x b k
  proof (rule pnlm_columns_cong [OF ok(1)])
    fix j :: int
    assume j: "0 \<le> j" "j < q"
    have "x + k + j < x_hi" "x_hi \<le> pi_width img" "x_lo \<le> x + k + j" "0 \<le> x_lo"
      using that j by (auto simp: x_hi_def x_lo_def)
    moreover from this have "qy * R + (x + k + j) < (2 + qy) * R + x_lo"
      using assms(2) ok(4) by (auto simp: R_def col_row_def kPad_def)
    ultimately show "b (qy * R + x + k + j) = col (x + k + j)"
      using that(2) cols [of "x + k + j"] by (simp add: add.assoc)
  qed
  have e: "quarter_pass F lanes img q dx qy cols =
      fold (\<lambda>x b. store_vector lanes ((2 + qy) * R + x) (?g x b) b) (axis_loop ?hi lanes x_lo) cols"
    by (simp add: quarter_pass_def Let_def x_lo_def x_hi_def R_def)
  note loop = vector_loop [where g = ?g and h = "\<lambda>x. pnlm_columns F q (\<lambda>j. col (x + j))" and off = "(2 + qy) * R" and hi = ?hi
      and lo = x_lo and ?b0.0 = cols and lanes = lanes, OF ok(2) g]
  show "quarter_pass F lanes img q dx qy cols i = cols i" if "i < (2 + qy) * R \<or> (3 + qy) * R \<le> i"
    unfolding e
    by (rule loop(1)) (use that ok assms(2) in \<open>auto simp: x_lo_def x_hi_def R_def col_row_def kPad_def algebra_simps\<close>)
  show "quarter_pass F lanes img q dx qy cols ((2 + qy) * R + x) = pnlm_columns F q (\<lambda>j. col (x + j))" if "x_lo \<le> x" "x + q \<le> x_hi"
    unfolding e by (rule loop(2)) (use that in auto)
qed

lemma total_pass_spec:
  fixes dx :: int
  assumes "image_ok img q lanes"
  defines "x_lo \<equiv> max 0 (- dx)" and "x_hi \<equiv> min (pi_width img) (pi_width img - dx)" and "R \<equiv> col_row img"
  assumes qs: "\<And>x. x_lo \<le> x \<Longrightarrow> x + q \<le> x_hi \<Longrightarrow> cols (2 * R + x) = qt x \<and> cols (3 * R + x) = qb x"
    and x: "x_lo \<le> x" "x + 2 * q \<le> x_hi"
  shows "total_pass F lanes img q dx cols (4 * R + x) = fadd F (fadd F (qt x) (qt (x + q))) (fadd F (qb x) (qb (x + q)))"
proof -
  have ok: "q = 2 \<or> q = 3 \<or> q = 4" "0 < lanes" "lanes \<le> 32" "0 \<le> pi_width img" using assms(1) by (auto simp: image_ok_def kPad_def)
  let ?hi = "x_hi - 2 * q + 1"
  let ?g = "\<lambda>x (b :: buffer) k. fadd F (fadd F (b (2 * R + x + k)) (b (2 * R + x + q + k))) (fadd F (b (3 * R + x + k)) (b (3 * R + x + q + k)))"
  have g: "?g x b k = fadd F (fadd F (qt (x + k)) (qt (x + k + q))) (fadd F (qb (x + k)) (qb (x + k + q)))"
    if "x_lo \<le> x" "\<forall>i. i < 4 * R + x_lo \<or> 4 * R + ?hi + lanes \<le> i \<longrightarrow> b i = cols i" "0 \<le> k" "k < lanes" "x + k < ?hi" for x b k
  proof -
    note frame = that(2)
    have rd: "b (2 * R + p) = qt p \<and> b (3 * R + p) = qb p" if p: "x_lo \<le> p" "p + q \<le> x_hi" for p
    proof -
      have "x_hi \<le> pi_width img" "0 \<le> x_lo" by (simp_all add: x_hi_def x_lo_def)
      then have "2 * R + p < 4 * R + x_lo" "3 * R + p < 4 * R + x_lo" using p ok by (auto simp: R_def col_row_def kPad_def)
      then show ?thesis using frame qs [OF p] by simp
    qed
    have "x_lo \<le> x + k" "x + k + q \<le> x_hi" "x + k + q + q \<le> x_hi" "x_lo \<le> x + k + q" using that ok by auto
    then show ?thesis using rd [of "x + k"] rd [of "x + k + q"] by (simp add: algebra_simps)
  qed
  have e: "total_pass F lanes img q dx cols = fold (\<lambda>x b. store_vector lanes (4 * R + x) (?g x b) b) (axis_loop ?hi lanes x_lo) cols"
    by (simp add: total_pass_def Let_def x_lo_def x_hi_def R_def)
  show ?thesis
    unfolding e
    by (rule vector_loop(2) [where g = ?g and hi = ?hi and lo = x_lo and off = "4 * R" and ?b0.0 = cols and lanes = lanes
          and h = "\<lambda>x. fadd F (fadd F (qt x) (qt (x + q))) (fadd F (qb x) (qb (x + q)))", OF ok(2) g]) (use x in auto)
qed

text \<open>The total of a reference whose candidate is inside the plane is the documented distance.\<close>

definition row_sums :: "farith \<Rightarrow> int \<Rightarrow> pnlm_image \<Rightarrow> int \<Rightarrow> int \<Rightarrow> int \<Rightarrow> int \<Rightarrow> int \<Rightarrow> buffer \<Rightarrow> buffer" where
  "row_sums F lanes img q y0 t dy dx cols =
     total_pass F lanes img q dx (fold (quarter_pass F lanes img q dx) [0, 1]
       (fold (column_pass F lanes img q y0 t (y0 + dy) dx) [0, 1] cols))"

lemma row_sums_distance:
  assumes ok: "image_ok img q lanes" and x: "0 \<le> x" "x \<le> pi_width img - 2 * q" "0 \<le> x + dx" "x + dx \<le> pi_width img - 2 * q"
  shows "row_sums F lanes img q y0 t dy dx cols (4 * col_row img + x) = pnlm_distance F img q x y0 t (x + dx) (y0 + dy)"
proof -
  let ?R = "col_row img" and ?lo = "max 0 (- dx)" and ?hi = "min (pi_width img) (pi_width img - dx)" and ?yc = "y0 + dy"
  let ?c1 = "column_pass F lanes img q y0 t ?yc dx 0 cols"
  let ?c2 = "column_pass F lanes img q y0 t ?yc dx 1 ?c1"
  let ?q1 = "quarter_pass F lanes img q dx 0 ?c2"
  let ?q2 = "quarter_pass F lanes img q dx 1 ?q1"
  let ?col = "row_column F img q y0 t ?yc dx"
  let ?quart = "\<lambda>qy x. pnlm_columns F q (\<lambda>j. ?col qy (x + j))"
  have R: "0 < ?R" "?hi < ?R" "0 \<le> ?lo" using ok by (auto simp: image_ok_def col_row_def kPad_def)
  have c: "?c2 (qy * ?R + p) = ?col qy p" if "qy = 0 \<or> qy = 1" "?lo \<le> p" "p < ?hi" for qy p
  proof -
    have "?c2 (0 * ?R + p) = ?c1 (0 * ?R + p)" using that R by (intro column_pass_spec(1) [OF ok]) auto
    then show ?thesis
      using that column_pass_spec(2) [OF ok, of 0 dx p F y0 t ?yc cols] column_pass_spec(2) [OF ok, of 1 dx p F y0 t ?yc ?c1] by auto
  qed
  have c': "?q1 (1 * ?R + p) = ?col 1 p" if p: "?lo \<le> p" "p < ?hi" for p
  proof -
    have "?q1 (1 * ?R + p) = ?c2 (1 * ?R + p)"
      using p R c [of 0] by (intro quarter_pass_spec(1) [OF ok, where col = "?col 0"]) auto
    then show ?thesis using c [of 1 p] p by simp
  qed
  have q0: "?q1 ((2 + 0) * ?R + p) = ?quart 0 p" if "?lo \<le> p" "p + q \<le> ?hi" for p
    using that c [of 0] by (intro quarter_pass_spec(2) [OF ok]) auto
  have qs: "?q2 (2 * ?R + p) = ?quart 0 p \<and> ?q2 (3 * ?R + p) = ?quart 1 p" if p: "?lo \<le> p" "p + q \<le> ?hi" for p
  proof -
    have "?q2 (2 * ?R + p) = ?q1 (2 * ?R + p)"
      using p R c' ok by (intro quarter_pass_spec(1) [OF ok, where col = "?col 1"]) (auto simp: image_ok_def)
    moreover have "?q2 ((2 + 1) * ?R + p) = ?quart 1 p" using p c' by (intro quarter_pass_spec(2) [OF ok]) auto
    ultimately show ?thesis using q0 [OF p] by simp
  qed
  have "total_pass F lanes img q dx ?q2 (4 * ?R + x) =
      fadd F (fadd F (?quart 0 x) (?quart 0 (x + q))) (fadd F (?quart 1 x) (?quart 1 (x + q)))"
    by (rule total_pass_spec [OF ok qs]) (use x in auto)
  then show ?thesis
    by (simp add: row_sums_def pnlm_distance_def quarter_distance_def row_column_def add.assoc) (simp add: algebra_simps)
qed

subsection \<open>Keeping the best keys\<close>

lemma sorted_mset_eq: "sorted xs \<Longrightarrow> sorted ys \<Longrightarrow> mset xs = mset ys \<Longrightarrow> xs = ys"
  by (metis properties_for_sort)

lemma place_key_spec:
  "i < length b \<Longrightarrow> sorted (take i b) \<Longrightarrow>
    length (place_key i key b) = length b \<and> take (Suc i) (place_key i key b) = insort key (take i b)"
proof (induction i key b rule: place_key.induct)
  case (1 key b)
  then show ?case by (cases b) simp_all
next
  case (2 i key b)
  have tk: "take (Suc i) b = take i b @ [b ! i]" using 2 by (simp add: take_Suc_conv_app_nth)
  have srt: "sorted (take i b)" "\<forall>a \<in> set (take i b). a \<le> b ! i" using 2 tk by (simp_all add: sorted_append)
  show ?case
  proof (cases "key < b ! i")
    case True
    let ?b = "b[Suc i := b ! i]" and ?r = "place_key i key (b[Suc i := b ! i])"
    have ih: "length ?r = length b" "take (Suc i) ?r = insort key (take i b)"
      using 2(1) [OF True] 2(2) srt by simp_all
    have "?r ! Suc i = b ! i"
    proof -
      have "place_key j k c ! n = c ! n" if "j < n" for j k n and c :: "64 word list"
        using that by (induction j k c rule: place_key.induct) auto
      from this [of i "Suc i" key ?b] show ?thesis using 2(2) by simp
    qed
    then have "take (Suc (Suc i)) ?r = insort key (take i b) @ [b ! i]" using ih 2(2) by (simp add: take_Suc_conv_app_nth)
    also have "\<dots> = insort key (take i b @ [b ! i])"
      by (rule sorted_mset_eq) (use True srt in \<open>auto simp: sorted_append sorted_insort set_insort_key\<close>)
    finally show ?thesis using True ih tk by simp
  next
    case False
    have "take (Suc (Suc i)) (b[Suc i := key]) = take (Suc i) b @ [key]" using 2(2) by (simp add: take_Suc_conv_app_nth)
    also have "\<dots> = insort key (take (Suc i) b)"
      by (rule sorted_mset_eq) (use False srt 2(3) in \<open>auto simp: sorted_append sorted_insort tk\<close>)
    finally show ?thesis using False 2(2) by simp
  qed
qed

text \<open>What the array and the count hold after the keys \<open>M\<close> have been offered.\<close>

definition keys_kept :: "nat \<Rightarrow> 64 word multiset \<Rightarrow> best_keys \<Rightarrow> bool" where
  "keys_kept K M bk \<longleftrightarrow> (case bk of (b, k) \<Rightarrow>
     length b = K \<and> k \<le> K \<and> sorted (take k b) \<and> is_best K M (mset (take k b)))"

lemma keys_kept_empty: "length b = K \<Longrightarrow> keys_kept K {#} (b, 0)"
  by (simp add: keys_kept_def is_best_empty)

lemma insert_key_kept:
  assumes "keys_kept K M bk" "1 \<le> K"
  shows "keys_kept K (add_mset key M) (insert_key K key bk)"
proof -
  obtain b k where bk: "bk = (b, k)" by (cases bk)
  have inv: "length b = K" "k \<le> K" "sorted (take k b)" "is_best K M (mset (take k b))"
    using assms(1) by (simp_all add: keys_kept_def bk)
  show ?thesis
  proof (cases "k < K")
    case True
    note p = place_key_spec [of k b key] True inv
    have "is_best K (add_mset key M) (add_mset key (mset (take k b)))"
      by (rule is_best_room [OF inv(4)]) (use True inv in simp)
    then show ?thesis using p by (simp add: insert_key_def bk keys_kept_def sorted_insort)
  next
    case False
    then have k: "k = K" using inv by simp
    have last: "take K b = take (K - 1) b @ [b ! (K - 1)]"
      using assms(2) inv(1) take_Suc_conv_app_nth [of "K - 1" b] by simp
    have worst: "\<forall>a \<in># mset (take K b). a \<le> b ! (K - 1)" "sorted (take (K - 1) b)"
      using inv(3) k last by (auto simp: sorted_append)
    have full: "size (mset (take K b)) = K" using inv by simp
    show ?thesis
    proof (cases "key < b ! (K - 1)")
      case True
      have p: "length (place_key (K - 1) key b) = K" "take K (place_key (K - 1) key b) = insort key (take (K - 1) b)"
        using place_key_spec [of "K - 1" b key] worst(2) inv assms(2) by simp_all
      have "is_best K (add_mset key M) (add_mset key (mset (take K b) - {#b ! (K - 1)#}))"
      proof (rule is_best_replace)
        show "is_best K M (mset (take K b))" using inv(4) k by simp
        show "b ! (K - 1) \<in># mset (take K b)" unfolding last by simp
      qed (fact full worst(1) True)+
      moreover have "mset (take K b) - {#b ! (K - 1)#} = mset (take (K - 1) b)" by (simp add: last)
      ultimately show ?thesis
        using p True k worst(2) by (simp add: insert_key_def bk keys_kept_def sorted_insort)
    next
      case False
      have "is_best K (add_mset key M) (mset (take K b))"
        by (rule is_best_keep) (use inv k full worst False in auto)
      then show ?thesis using False k inv by (simp add: insert_key_def bk keys_kept_def)
    qed
  qed
qed

lemma insert_keys_kept:
  assumes "keys_kept K M bk" "1 \<le> K"
  shows "keys_kept K (M + mset keys) (fold (insert_key K) keys bk)"
  using assms(1)
proof (induction keys arbitrary: M bk)
  case Nil
  then show ?case by simp
next
  case (Cons key keys)
  from Cons.IH [OF insert_key_kept [OF Cons.prems assms(2), of key]] show ?case by simp
qed

lemma keys_kept_list:
  assumes "keys_kept K (mset keys) (b, k)"
  shows "take k b = take K (sort keys)" "k = min K (length keys)"
proof -
  have kb: "sorted (take k b)" "is_best K (mset keys) (mset (take k b))" "length b = K" "k \<le> K" using assms by (simp_all add: keys_kept_def)
  have "sorted_list_of_multiset (mset (take k b)) = take k b"
    using kb(1) by (simp only: sorted_list_of_multiset_mset sorted_sort_id)
  then show "take k b = take K (sort keys)" using is_best_sorted [OF kb(2)] by simp
  have "size (mset (take k b)) = min K (size (mset keys))" using kb(2) by (simp add: is_best_def)
  then show "k = min K (length keys)" using kb(3,4) by simp
qed

subsection \<open>The run of references\<close>

lemma takeWhile_less:
  fixes xs :: "int list"
  shows "sorted xs \<Longrightarrow> i < length xs \<Longrightarrow> length (takeWhile (\<lambda>x. x < c) xs) \<le> i \<longleftrightarrow> c \<le> xs ! i"
proof (induction xs arbitrary: i)
  case Nil
  then show ?case by simp
next
  case (Cons x xs)
  show ?case
  proof (cases i)
    case 0
    then show ?thesis by simp
  next
    case (Suc j)
    then have le: "x \<le> xs ! j" using Cons.prems by simp
    show ?thesis
    proof (cases "x < c")
      case True
      then show ?thesis using Cons Suc by simp
    next
      case False
      then have "c \<le> xs ! j" using le by simp
      then show ?thesis using False Suc by simp
    qed
  qed
qed

lemma takeWhile_rev_greater:
  fixes xs :: "int list"
  shows "sorted xs \<Longrightarrow> i < length xs \<Longrightarrow> i < length xs - length (takeWhile (\<lambda>x. x > c) (rev xs)) \<longleftrightarrow> xs ! i \<le> c"
proof (induction xs rule: rev_induct)
  case Nil
  then show ?case by simp
next
  case (snoc x xs)
  have le: "i < length xs \<Longrightarrow> xs ! i \<le> x" using snoc.prems by (simp add: sorted_append)
  show ?case
  proof (cases "x > c")
    case True
    then show ?thesis using snoc by (cases "i = length xs") (auto simp: sorted_append nth_append)
  next
    case False
    then show ?thesis using snoc.prems le by (cases "i = length xs") (auto simp: nth_append)
  qed
qed

lemma reference_run:
  assumes "sorted xs" "ix < length xs"
  shows "ix \<in> set [run_first dx xs..<run_last limit dx xs] \<longleftrightarrow> 0 \<le> xs ! ix + dx \<and> xs ! ix + dx \<le> limit"
proof -
  let ?f = "run_first dx xs"
  have e: "(\<lambda>x. x + dx < 0) = (\<lambda>x. x < - dx)" "(\<lambda>x. x + dx > limit) = (\<lambda>x. x > limit - dx)" by auto
  have f: "?f \<le> ix \<longleftrightarrow> - dx \<le> xs ! ix" unfolding run_first_def e by (rule takeWhile_less [OF assms])
  show ?thesis
  proof (cases "?f \<le> ix")
    case True
    let ?w = "length (takeWhile (\<lambda>x. x > limit - dx) (rev (drop ?f xs)))"
    have w: "?w \<le> length xs - ?f" using length_takeWhile_le [of "\<lambda>x. x > limit - dx" "rev (drop ?f xs)"] by simp
    have "ix - ?f < length (drop ?f xs) - ?w \<longleftrightarrow> drop ?f xs ! (ix - ?f) \<le> limit - dx"
      by (rule takeWhile_rev_greater) (use assms True sorted_wrt_drop in auto)
    moreover have "ix - ?f < length (drop ?f xs) - ?w \<longleftrightarrow> ix < length xs - ?w" using True assms(2) w by auto
    ultimately have "ix < run_last limit dx xs \<longleftrightarrow> xs ! ix \<le> limit - dx"
      using True assms(2) by (simp add: run_last_def e)
    then show ?thesis using True f by auto
  next
    case False
    then show ?thesis using f by auto
  qed
qed

text \<open>One update of each reference in a run of distinct indices.\<close>

lemma fold_list_update:
  "distinct is \<Longrightarrow> \<forall>i \<in> set is. i < length best \<Longrightarrow>
    length (fold (\<lambda>i best. best[i := f i (best ! i)]) is best) = length best \<and>
    (\<forall>j < length best. fold (\<lambda>i best. best[i := f i (best ! i)]) is best ! j = (if j \<in> set is then f j (best ! j) else best ! j))"
proof (induction "is" arbitrary: best)
  case Nil
  then show ?case by simp
next
  case (Cons i "is")
  from Cons.IH [of "best[i := f i (best ! i)]"] Cons.prems show ?case by (auto simp: nth_list_update)
qed

subsection \<open>The row search\<close>

definition candidate_key :: "farith \<Rightarrow> pnlm_image \<Rightarrow> int \<Rightarrow> int \<Rightarrow> int \<Rightarrow> int \<Rightarrow> int \<Rightarrow> int \<Rightarrow> 64 word" where
  "candidate_key F img q x y t xc yc = pnlm_key (pnlm_distance F img q x y t xc yc) (pnlm_pos t yc xc)"

text \<open>A displacement offers a reference its candidate, if there is one.\<close>

definition offered :: "pnlm_image \<Rightarrow> int \<Rightarrow> int \<Rightarrow> int \<Rightarrow> int \<times> int \<times> int \<Rightarrow> bool" where
  "offered img q x y p \<longleftrightarrow> (case p of (t, dy, dx) \<Rightarrow>
     0 \<le> y + dy \<and> y + dy \<le> pi_height img - 2 * q \<and> 0 \<le> x + dx \<and> x + dx \<le> pi_width img - 2 * q \<and>
     \<not> (t = pi_center img \<and> dx = 0 \<and> dy = 0))"

definition offered_key :: "farith \<Rightarrow> pnlm_image \<Rightarrow> int \<Rightarrow> int \<Rightarrow> int \<Rightarrow> int \<times> int \<times> int \<Rightarrow> 64 word" where
  "offered_key F img q x y p = (case p of (t, dy, dx) \<Rightarrow> candidate_key F img q x y t (x + dx) (y + dy))"

lemma displacement_best:
  assumes ok: "image_ok img q lanes" and xs: "sorted xs" "ix < length xs" "\<forall>x \<in> set xs. 0 \<le> x \<and> x \<le> pi_width img - 2 * q"
    and y: "0 \<le> y0 + dy" "y0 + dy \<le> pi_height img - 2 * q" and len: "length (snd st) = length xs"
  shows "length (snd (displacement F lanes img q xs y0 t dy dx st)) = length xs \<and>
    snd (displacement F lanes img q xs y0 t dy dx st) ! ix =
      fold (insert_key (nat (pi_group img - 1)))
        (if offered img q (xs ! ix) y0 (t, dy, dx) then [offered_key F img q (xs ! ix) y0 (t, dy, dx)] else []) (snd st ! ix)"
proof -
  obtain cols best where st: "st = (cols, best)" by (cases st)
  show ?thesis
  proof (cases "t = pi_center img \<and> dx = 0 \<and> dy = 0")
    case True
    then show ?thesis using len by (simp add: displacement_def st Let_def offered_def)
  next
    case False
    let ?is = "[run_first dx xs..<run_last (pi_width img - 2 * q) dx xs]"
    let ?cols = "row_sums F lanes img q y0 t dy dx cols"
    let ?f = "\<lambda>ix bk. insert_key (nat (pi_group img - 1)) (pnlm_key (?cols (4 * col_row img + xs ! ix)) (pnlm_pos t (y0 + dy) (xs ! ix + dx))) bk"
    have d: "displacement F lanes img q xs y0 t dy dx st = (?cols, fold (\<lambda>i best. best[i := ?f i (best ! i)]) ?is best)"
      unfolding displacement_def st row_sums_def Let_def prod.case using False by (simp only: if_False)
    have b: "\<forall>i \<in> set ?is. i < length best" using len by (auto simp: st run_last_def)
    have len': "length best = length xs" using len by (simp add: st)
    note f = fold_list_update [OF distinct_upt b, of ?f]
    have x: "0 \<le> xs ! ix" "xs ! ix \<le> pi_width img - 2 * q" using xs(2,3) by auto
    show ?thesis
    proof (cases "0 \<le> xs ! ix + dx \<and> xs ! ix + dx \<le> pi_width img - 2 * q")
      case True
      then have "ix \<in> set ?is" using reference_run [OF xs(1,2)] by blast
      moreover have "?cols (4 * col_row img + xs ! ix) = pnlm_distance F img q (xs ! ix) y0 t (xs ! ix + dx) (y0 + dy)"
        using True by (intro row_sums_distance [OF ok x]) auto
      ultimately show ?thesis
        using f True False y len' xs(2) unfolding d by (simp add: offered_def offered_key_def candidate_key_def st del: set_upt)
    next
      case out: False
      then have "ix \<notin> set ?is" using reference_run [OF xs(1,2)] by blast
      moreover have "\<not> offered img q (xs ! ix) y0 (t, dy, dx)" using out by (auto simp: offered_def)
      ultimately show ?thesis using f len' xs(2) unfolding d by (simp add: st del: set_upt)
    qed
  qed
qed

lemma fold_project:
  assumes "\<And>x s. x \<in> set xs \<Longrightarrow> P s \<Longrightarrow> P (f x s) \<and> pr (f x s) = g x (pr s)" "P s"
  shows "P (fold f xs s) \<and> pr (fold f xs s) = fold g xs (pr s)"
  using assms
proof (induction xs arbitrary: s)
  case Nil
  then show ?case by simp
next
  case (Cons x xs)
  have "P (f x s)" "pr (f x s) = g x (pr s)" using Cons.prems by auto
  then show ?case using Cons.IH [of "f x s"] Cons.prems(1) by auto
qed

lemma fold_concat_map: "fold (\<lambda>x. fold f (h x)) xs = fold f (concat (map h xs))"
  by (induction xs) (simp_all add: fun_eq_iff)

lemma concat_filter_map: "concat (map (\<lambda>x. if c x then [k x] else []) xs) = map k (filter c xs)"
  by (induction xs) simp_all

lemma concat_product: "concat (map (\<lambda>x. concat (map (\<lambda>y. h (x, y)) ys)) xs) = concat (map h (List.product xs ys))"
  by (induction xs) (simp_all add: comp_def)

text \<open>The keys offered to a reference during the row, in the order of the loops.\<close>

definition row_keys :: "farith \<Rightarrow> pnlm_image \<Rightarrow> int \<Rightarrow> int \<Rightarrow> int \<Rightarrow> 64 word list" where
  "row_keys F img q x y =
     map (offered_key F img q x y) (filter (offered img q x y)
       (List.product [0..pi_frames img - 1] (List.product [- pi_a img..pi_a img] [- pi_a img..pi_a img])))"

lemma match_row_best:
  assumes ok: "image_ok img q lanes" and xs: "sorted xs" "ix < length xs" "\<forall>x \<in> set xs. 0 \<le> x \<and> x \<le> pi_width img - 2 * q"
    and len: "length best = length xs"
  shows "length (snd (match_row F lanes img q xs y0 (cols, best))) = length xs \<and>
    snd (match_row F lanes img q xs y0 (cols, best)) ! ix =
      fold (insert_key (nat (pi_group img - 1))) (row_keys F img q (xs ! ix) y0) (fst (best ! ix), 0)"
proof -
  let ?ins = "insert_key (nat (pi_group img - 1))" and ?ds = "[- pi_a img..pi_a img]" and ?ts = "[0..pi_frames img - 1]"
  let ?P = "\<lambda>st :: buffer \<times> best_keys list. length (snd st) = length xs"
  let ?k = "\<lambda>p. if offered img q (xs ! ix) y0 p then [offered_key F img q (xs ! ix) y0 p] else []"
  let ?row = "\<lambda>t dy st. if y0 + dy < 0 \<or> y0 + dy > pi_height img - 2 * q then st
            else fold (\<lambda>dx. displacement F lanes img q xs y0 t dy dx) ?ds st"
  have row: "?P (?row t dy st) \<and> snd (?row t dy st) ! ix = fold (\<lambda>dx. fold ?ins (?k (t, dy, dx))) ?ds (snd st ! ix)" if "?P st" for t dy st
  proof (cases "y0 + dy < 0 \<or> y0 + dy > pi_height img - 2 * q")
    case True
    then have "?k (t, dy, dx) = []" for dx by (auto simp: offered_def)
    moreover have "fold (\<lambda>_ s. s) ys s = s" for ys :: "int list" and s :: best_keys by (induction ys) simp_all
    ultimately show ?thesis using True that by (simp add: id_def)
  next
    case False
    have y: "0 \<le> y0 + dy" "y0 + dy \<le> pi_height img - 2 * q" using False by auto
    have "?P (fold (\<lambda>dx. displacement F lanes img q xs y0 t dy dx) ?ds st) \<and>
        snd (fold (\<lambda>dx. displacement F lanes img q xs y0 t dy dx) ?ds st) ! ix = fold (\<lambda>dx. fold ?ins (?k (t, dy, dx))) ?ds (snd st ! ix)"
      by (rule fold_project [where P = ?P and pr = "\<lambda>st. snd st ! ix"]) (use displacement_best [OF ok xs y] that in auto)
    then show ?thesis using False by simp
  qed
  have frame: "?P (fold (?row t) ?ds st) \<and> snd (fold (?row t) ?ds st) ! ix =
      fold (\<lambda>dy. fold (\<lambda>dx. fold ?ins (?k (t, dy, dx))) ?ds) ?ds (snd st ! ix)" if "?P st" for t st
    by (rule fold_project [where P = ?P and pr = "\<lambda>st. snd st ! ix"]) (use row that in auto)
  let ?st = "(cols, map (\<lambda>(b, k). (b, 0 :: nat)) best)"
  have all: "?P (fold (\<lambda>t. fold (?row t) ?ds) ?ts ?st) \<and> snd (fold (\<lambda>t. fold (?row t) ?ds) ?ts ?st) ! ix =
      fold (\<lambda>t. fold (\<lambda>dy. fold (\<lambda>dx. fold ?ins (?k (t, dy, dx))) ?ds) ?ds) ?ts (snd ?st ! ix)"
    by (rule fold_project [where P = ?P and pr = "\<lambda>st. snd st ! ix"]) (use frame len in auto)
  have m: "match_row F lanes img q xs y0 (cols, best) = fold (\<lambda>t. fold (?row t) ?ds) ?ts ?st"
    by (simp add: match_row_def)
  have start: "snd ?st ! ix = (fst (best ! ix), 0)" using xs(2) len by (simp add: case_prod_beta)
  have keys: "fold (\<lambda>t. fold (\<lambda>dy. fold (\<lambda>dx. fold ?ins (?k (t, dy, dx))) ?ds) ?ds) ?ts = fold ?ins (row_keys F img q (xs ! ix) y0)"
    unfolding fold_concat_map row_keys_def concat_filter_map [symmetric]
    by (simp only: concat_product [of "\<lambda>p. ?k (t, p)" for t, simplified] concat_product [of ?k])
  show ?thesis using all unfolding m start keys by simp
qed

subsection \<open>Reference positions\<close>

definition pnlm_positions :: "int \<Rightarrow> int \<Rightarrow> int list" where
  "pnlm_positions n block = map (\<lambda>i. pnlm_grid_pos i n block) [0..pnlm_grid_count n block - 1]"

lemma map_int_upt: "map int [0..<n] = [0..int n - 1]"
  by (rule nth_equalityI) simp_all

lemma pnlm_grid_axis:
  assumes "1 \<le> q" "2 * q \<le> n"
  shows "pnlm_grid_count n (2 * q) = int (axis_count n (2 * q) q)" "pnlm_grid_pos (int i) n (2 * q) = axis_position n (2 * q) q i"
    "pnlm_positions n (2 * q) = axis_positions n (2 * q) q"
proof -
  have q: "cdiv (2 * q) 2 = q" using assms by (subst cdiv_nonneg) auto
  have "0 \<le> (n - 2 * q + q - 1) div q" using assms by (simp add: pos_imp_zdiv_nonneg_iff)
  moreover have "cdiv (n - 2 * q + q - 1) q = (n - 2 * q + q - 1) div q" using assms by (intro cdiv_nonneg) auto
  ultimately show c: "pnlm_grid_count n (2 * q) = int (axis_count n (2 * q) q)"
    using assms by (simp add: pnlm_grid_count_def axis_count_def q Let_def)
  show p: "pnlm_grid_pos (int i) n (2 * q) = axis_position n (2 * q) q i" for i
    by (simp add: pnlm_grid_pos_def axis_position_def q Let_def min_def)
  have "[0..int (axis_count n (2 * q) q) - 1] = map int [0..<axis_count n (2 * q) q]"
    by (simp add: map_int_upt)
  then show "pnlm_positions n (2 * q) = axis_positions n (2 * q) q"
    using assms by (simp add: pnlm_positions_def c axis_positions_eq p)
qed

lemma pnlm_positions_facts:
  assumes "1 \<le> q" "2 * q \<le> n"
  shows "sorted (pnlm_positions n (2 * q))" "\<forall>x \<in> set (pnlm_positions n (2 * q)). 0 \<le> x \<and> x \<le> n - 2 * q"
    "length (pnlm_positions n (2 * q)) = axis_count n (2 * q) q"
proof -
  show "sorted (pnlm_positions n (2 * q))"
    using axis_positions_distinct [OF assms] sorted_wrt_mono_rel [of "axis_positions n (2 * q) q" "(<)" "(\<le>)"]
    unfolding pnlm_grid_axis(3) [OF assms] by simp
  show "\<forall>x \<in> set (pnlm_positions n (2 * q)). 0 \<le> x \<and> x \<le> n - 2 * q"
    unfolding pnlm_grid_axis(3) [OF assms] using axis_position_inside [OF assms] by (auto simp: axis_positions_eq [OF assms])
  show "length (pnlm_positions n (2 * q)) = axis_count n (2 * q) q"
    unfolding pnlm_grid_axis(3) [OF assms] by (rule length_axis_positions [OF assms])
qed

subsection \<open>Properties\<close>

text \<open>The candidates of a reference: patches within the window, in every frame, without the reference.\<close>

definition pnlm_candidates :: "pnlm_image \<Rightarrow> int \<Rightarrow> int \<Rightarrow> int \<Rightarrow> (int \<times> int \<times> int) set" where
  "pnlm_candidates img q x y =
     {(t, y', x'). 0 \<le> t \<and> t < pi_frames img \<and> \<bar>y' - y\<bar> \<le> pi_a img \<and> \<bar>x' - x\<bar> \<le> pi_a img \<and>
        0 \<le> x' \<and> x' \<le> pi_width img - 2 * q \<and> 0 \<le> y' \<and> y' \<le> pi_height img - 2 * q \<and>
        (t, y', x') \<noteq> (pi_center img, y, x)}"

definition key_of :: "farith \<Rightarrow> pnlm_image \<Rightarrow> int \<Rightarrow> int \<Rightarrow> int \<Rightarrow> int \<times> int \<times> int \<Rightarrow> 64 word" where
  "key_of F img q x y c = (case c of (t, y', x') \<Rightarrow> candidate_key F img q x y t x' y')"

definition decode :: "64 word \<Rightarrow> int \<times> int \<times> int" where
  "decode key = (pnlm_pos_t (ucast key), pnlm_pos_y (ucast key), pnlm_pos_x (ucast key))"

lemma candidates_pos_ok:
  assumes "image_ok img q lanes" "c \<in> pnlm_candidates img q x y"
  shows "pos_ok c"
  using assms by (auto simp: pnlm_candidates_def pos_ok_def image_ok_def kPnlmMaxD_def kPnlmMaxSide_def)

lemma decode_key: "pos_ok c \<Longrightarrow> decode (key_of F img q x y c) = c"
  by (cases c) (simp add: decode_def key_of_def candidate_key_def pnlm_key_pos pnlm_pos_fields)

lemma row_keys_candidates:
  assumes ok: "image_ok img q lanes"
  shows "set (row_keys F img q x y) = key_of F img q x y ` pnlm_candidates img q x y"
    and "distinct (row_keys F img q x y)" and "length (row_keys F img q x y) = card (pnlm_candidates img q x y)"
proof -
  let ?l = "filter (offered img q x y) (List.product [0..pi_frames img - 1] (List.product [- pi_a img..pi_a img] [- pi_a img..pi_a img]))"
  let ?m = "\<lambda>(t, dy, dx). (t, y + dy, x + dx)"
  have img: "?m ` set ?l = pnlm_candidates img q x y"
  proof (intro equalityI subsetI)
    fix c assume "c \<in> ?m ` set ?l"
    then show "c \<in> pnlm_candidates img q x y" by (auto simp: pnlm_candidates_def offered_def)
  next
    fix c assume c: "c \<in> pnlm_candidates img q x y"
    obtain t y' x' where "c = (t, y', x')" by (rule prod_cases3)
    with c show "c \<in> ?m ` set ?l"
      by (intro image_eqI [of _ _ "(t, y' - y, x' - x)"]) (auto simp: pnlm_candidates_def offered_def)
  qed
  have inj: "inj_on ?m (set ?l)" by (auto simp: inj_on_def)
  have key: "offered_key F img q x y p = key_of F img q x y (?m p)" for p
    by (cases p) (simp add: offered_key_def key_of_def)
  have keys: "row_keys F img q x y = map (key_of F img q x y) (map ?m ?l)"
    by (simp add: row_keys_def key comp_def)
  show "set (row_keys F img q x y) = key_of F img q x y ` pnlm_candidates img q x y"
    unfolding keys by (simp only: set_map img)
  have dl: "distinct ?l" by (intro distinct_filter distinct_product) simp_all
  have ki: "inj_on (key_of F img q x y) (pnlm_candidates img q x y)"
    by (rule inj_on_inverseI [where g = decode]) (use decode_key candidates_pos_ok [OF ok] in blast)
  have "inj_on (key_of F img q x y \<circ> ?m) (set ?l)" using inj ki unfolding img [symmetric] by (rule comp_inj_on)
  then show "distinct (row_keys F img q x y)"
    unfolding keys using dl by (simp add: distinct_map del: set_filter)
  show "length (row_keys F img q x y) = card (pnlm_candidates img q x y)"
    using distinct_card [of "map ?m ?l"] dl inj unfolding keys by (simp add: distinct_map img del: set_filter)
qed

lemma match_row_search:
  assumes "image_ok img q lanes" "ix < nat (pnlm_grid_count (pi_width img) (2 * q))"
    and "length best = nat (pnlm_grid_count (pi_width img) (2 * q))" "\<forall>bk \<in> set best. length (fst bk) = nat (pi_group img - 1)"
  shows "let xs = pnlm_positions (pi_width img) (2 * q); (b, k) = snd (match_row F lanes img q xs y0 (cols, best)) ! ix;
        cands = pnlm_candidates img q (xs ! ix) y0; key = key_of F img q (xs ! ix) y0; K = nat (pi_group img - 1)
    in take k b = take K (sorted_list_of_set (key ` cands)) \<and> k = min K (card cands) \<and> length b = K \<and>
      (\<forall>c \<in> cands. decode (key c) = c)"
proof -
  let ?xs = "pnlm_positions (pi_width img) (2 * q)" and ?K = "nat (pi_group img - 1)"
  have q: "1 \<le> q" "2 * q \<le> pi_width img" "1 \<le> ?K" using assms(1) by (auto simp: image_ok_def)
  note xs = pnlm_positions_facts [OF q(1,2)]
  have n: "nat (pnlm_grid_count (pi_width img) (2 * q)) = length ?xs" using xs(3) pnlm_grid_axis(1) [OF q(1,2)] by simp
  have ix: "ix < length ?xs" using assms(2) n by simp
  have len: "length best = length ?xs" using assms(3) n by simp
  let ?keys = "row_keys F img q (?xs ! ix) y0"
  obtain b k where bk: "snd (match_row F lanes img q ?xs y0 (cols, best)) ! ix = (b, k)" by (rule prod.exhaust)
  have "(b, k) = fold (insert_key ?K) ?keys (fst (best ! ix), 0)"
    using match_row_best [OF assms(1) xs(1) ix xs(2) len, of F y0 cols] bk by simp
  moreover have "keys_kept ?K {#} (fst (best ! ix), 0)" using assms(4) ix len by (intro keys_kept_empty) simp
  ultimately have kept: "keys_kept ?K (mset ?keys) (b, k)"
    using insert_keys_kept [of ?K "{#}" "(fst (best ! ix), 0)" ?keys] q(3) by simp
  note r = row_keys_candidates [OF assms(1), of F "?xs ! ix" y0]
  have "sort ?keys = sorted_list_of_set (set ?keys)" using r(2) by (simp add: sorted_list_of_set_sort_remdups distinct_remdups_id)
  then show ?thesis
    using keys_kept_list [OF kept] kept r candidates_pos_ok [OF assms(1)] decode_key
    unfolding Let_def bk prod.case by (simp add: keys_kept_def)
qed

text \<open>
  C25. The row search keeps for every reference exactly the candidates of least key, in key
  order: those of the whole window in every frame, the reference excepted, with the
  documented distance, whatever the number of lanes and the contents of the work buffer;
  all of them when there are no more than the group admits. Every key decodes to its
  candidate.
\<close>

theorem pnlm_search_exact:
  assumes "image_ok img q lanes" "ix < nat (pnlm_grid_count (pi_width img) (2 * q))"
    and "length best = nat (pnlm_grid_count (pi_width img) (2 * q))" "\<forall>bk \<in> set best. length (fst bk) = nat (pi_group img - 1)"
  shows "let xs = pnlm_positions (pi_width img) (2 * q); (b, k) = snd (match_row F lanes img q xs y0 (cols, best)) ! ix;
        cands = pnlm_candidates img q (xs ! ix) y0; key = key_of F img q (xs ! ix) y0; K = nat (pi_group img - 1)
    in take k b = take K (sorted_list_of_set (key ` cands)) \<and> k = min K (card cands) \<and> length b = K \<and>
      (\<forall>c \<in> cands. decode (key c) = c)"
  by (rule match_row_search [OF assms])

definition example_image :: pnlm_image where
  "example_image = \<lparr>pi_width = 4, pi_height = 4, pi_frames = 2, pi_center = 0, pi_src = (\<lambda>t i. 0), pi_stride = (\<lambda>_. 4),
     pi_sigma = f32_one, pi_a = 1, pi_block = 4, pi_group = 3\<rparr>"

theorem pnlm_search_exact_witness:
  "snd (snd (match_row example_arith 4 example_image 2 [0] 0 (\<lambda>_. 0, [([0, 0], 0)])) ! 0) = 1"
proof -
  have g: "pnlm_grid_count 4 4 = 1" "pnlm_positions 4 4 = [0]"
    by (simp_all add: pnlm_grid_count_def pnlm_positions_def pnlm_grid_pos_def cdiv_def Let_def)
  have c: "pnlm_candidates example_image 2 0 0 = {(1, 0, 0)}"
    by (auto simp: pnlm_candidates_def example_image_def)
  have ok: "image_ok example_image 2 4"
    by (simp add: image_ok_def example_image_def kPad_def kPnlmMaxSide_def kPnlmMaxD_def kPnlmMaxGroup_def)
  obtain b k where bk: "snd (match_row example_arith 4 example_image 2 [0] 0 (\<lambda>_. 0, [([0, 0], 0)])) ! 0 = (b, k)"
    by (rule prod.exhaust)
  have pre: "0 < nat (pnlm_grid_count (pi_width example_image) (2 * 2))"
    "length [([0, 0 :: 64 word], 0 :: nat)] = nat (pnlm_grid_count (pi_width example_image) (2 * 2))"
    "\<forall>bk \<in> set [([0, 0 :: 64 word], 0 :: nat)]. length (fst bk) = nat (pi_group example_image - 1)"
    by (simp_all add: example_image_def g)
  have "pi_width example_image = 4" "pi_group example_image = 3" by (simp_all add: example_image_def)
  with pnlm_search_exact [OF ok pre, of example_arith 0 "\<lambda>_. 0"]
  have "k = min 2 (card (pnlm_candidates example_image 2 0 0))" by (simp add: g bk Let_def)
  then show ?thesis by (simp add: c bk)
qed

lemma parse_pnlm_ok:
  assumes "parse_pnlm h F m vi ns = Inr p"
  shows "0 \<le> pn_d p \<and> pn_d p \<le> 31 \<and> 1 \<le> pn_a p \<and> pn_a p \<le> 64 \<and> (pn_block p = 4 \<or> pn_block p = 6 \<or> pn_block p = 8) \<and>
    2 \<le> pn_group p \<and> pn_group p \<le> 32 \<and>
    (\<forall>plane \<in> set [0..vi_planes vi - 1]. \<not> f32_eq (pn_sigma p ! nat plane) f32_zero \<longrightarrow>
       pn_block p \<le> plane_width vi plane \<and> pn_block p \<le> plane_height vi plane \<and>
       plane_width vi plane \<le> 8192 \<and> plane_height vi plane \<le> 8192)"
proof -
  let ?d = "map_int m ''d'' 1" and ?a = "map_int m ''a'' 2" and ?b = "map_int m ''block_size'' 6" and ?g = "map_int m ''group_size'' 16"
    and ?s = "sigma_array F m (vi_planes vi)" and ?pl = "[0..vi_planes vi - 1]"
  have rest: "bindE (foldE (\<lambda>plane. normal_sigma F ns ''PNLM'' (?s ! nat plane)) ?pl ()) (\<lambda>u.
      if ?d < 0 \<or> ?d > kPnlmMaxD then fail ns ''PNLM'' ''d must be in [0, 31]''
      else if ?a < 1 \<or> ?a > kPnlmMaxA then fail ns ''PNLM'' ''a must be in [1, 64]''
      else if ?b \<noteq> 4 \<and> ?b \<noteq> 6 \<and> ?b \<noteq> 8 then fail ns ''PNLM'' ''block_size must be 4, 6 or 8''
      else if ?g < 2 \<or> ?g > kPnlmMaxGroup then fail ns ''PNLM'' ''group_size must be in [2, 32]''
      else bindE (foldE (pnlm_plane vi ns ?s ?b) ?pl u) (\<lambda>_.
        if (2 * ?d + 1) * frame_bytes vi > kNlmMaxPinnedFrameBytes
        then fail ns ''PNLM'' ''temporal radius d pins too much frame memory for this frame size''
        else Inr \<lparr>pn_sigma = ?s, pn_d = ?d, pn_a = ?a, pn_block = ?b, pn_group = ?g\<rparr>)) = Inr p"
    using assms unfolding parse_pnlm_def Let_def if_fail_eq_Inr by blast
  obtain u u' where r: "\<not> (?d < 0 \<or> ?d > kPnlmMaxD)" "\<not> (?a < 1 \<or> ?a > kPnlmMaxA)" "\<not> (?b \<noteq> 4 \<and> ?b \<noteq> 6 \<and> ?b \<noteq> 8)"
      "\<not> (?g < 2 \<or> ?g > kPnlmMaxGroup)"
    and planes: "foldE (pnlm_plane vi ns ?s ?b) ?pl u = Inr u'"
    and p: "p = \<lparr>pn_sigma = ?s, pn_d = ?d, pn_a = ?a, pn_block = ?b, pn_group = ?g\<rparr>"
    using rest unfolding bindE_Inr_iff if_fail_eq_Inr sum.inject by blast
  have pl: "pnlm_plane vi ns ?s ?b plane () = Inr ()" if "plane \<in> set ?pl" for plane
    using foldE_unit_all [of "pnlm_plane vi ns ?s ?b" ?pl u'] planes that by simp
  have "?b \<le> plane_width vi plane \<and> ?b \<le> plane_height vi plane \<and> plane_width vi plane \<le> 8192 \<and> plane_height vi plane \<le> 8192"
    if "plane \<in> set ?pl" "\<not> f32_eq (?s ! nat plane) f32_zero" for plane
    using pl [OF that(1)] that(2) by (auto simp: pnlm_plane_def Let_def kPnlmMaxSide_def)
  then show ?thesis unfolding p using r by (auto simp: kPnlmMaxD_def kPnlmMaxA_def kPnlmMaxGroup_def)
qed

text \<open>
  With the arguments PNLM accepts, the fields of a packed key never overlap: for every
  frame of the window and every pixel of a filtered plane the key decodes to the position,
  and keys compare as the tuples of distance, frame, row and column.
\<close>

theorem pnlm_keys_exact:
  assumes "parse_pnlm h F m vi ns = Inr p" "plane \<in> set [0..vi_planes vi - 1]" "\<not> f32_eq (pn_sigma p ! nat plane) f32_zero"
    and "0 \<le> t" "t < 2 * pn_d p + 1" "0 \<le> y" "y < plane_height vi plane" "0 \<le> x" "x < plane_width vi plane"
    and "0 \<le> t'" "t' < 2 * pn_d p + 1" "0 \<le> y'" "y' < plane_height vi plane" "0 \<le> x'" "x' < plane_width vi plane"
  shows "decode (pnlm_key dist (pnlm_pos t y x)) = (t, y, x) \<and>
    (pnlm_key dist (pnlm_pos t y x) < pnlm_key dist' (pnlm_pos t' y' x') \<longleftrightarrow>
      (min dist 0x7f800000, t, y, x) < (min dist' 0x7f800000, t', y', x'))"
proof -
  have "pos_ok (t, y, x)" "pos_ok (t', y', x')" using parse_pnlm_ok [OF assms(1)] assms(2-) by (auto simp: pos_ok_def)
  then show ?thesis using pnlm_key_less by (simp add: decode_def pnlm_key_pos pnlm_pos_fields)
qed

definition unit_arith :: farith where "unit_arith = example_arith\<lparr>fmul := (\<lambda>_ _. f32_one)\<rparr>"

lemma pnlm_defaults:
  "\<exists>p. parse_pnlm example_helpers unit_arith empty_map gray_clip ''nss'' = Inr p \<and> pn_d p = 1 \<and> \<not> f32_eq (pn_sigma p ! 0) f32_zero"
proof -
  have "f32_le f32_zero kDefaultSigma" "is_finite_bits kDefaultSigma" "\<not> f32_eq kDefaultSigma f32_zero"
    "f32_le f32_min_normal (fmul unit_arith a b)" for a b
    by (simp_all add: f32_le_def f32_eq_def f32_key_def f32_mag_def f32_neg_def f32_zero_def kDefaultSigma_def f32_min_normal_def
        is_finite_bits_def f32_nan_def unit_arith_def f32_one_def)
  then show ?thesis
    by (simp add: parse_pnlm_def example_args normal_sigma_def pnlm_plane_def frame_bytes_def plane_width_def plane_height_def)
qed

theorem pnlm_keys_exact_witness: "pnlm_key 5 (pnlm_pos 2 0 7) < pnlm_key 5 (pnlm_pos 2 1 0)"
proof -
  obtain p where p: "parse_pnlm example_helpers unit_arith empty_map gray_clip ''nss'' = Inr p" "pn_d p = 1"
    "\<not> f32_eq (pn_sigma p ! nat 0) f32_zero"
    using pnlm_defaults by auto
  have "0 \<in> set [0..vi_planes gray_clip - 1]" by (simp add: gray_clip_def)
  from pnlm_keys_exact [OF p(1) this p(3), of 2 0 7 2 1 0 5 5] show ?thesis
    by (simp add: p(2) gray_clip_def plane_width_def plane_height_def less_prod_def')
qed

end
