(* ===== verification/Pnlm_Plane.thy ===== *)
theory Pnlm_Plane
  imports Pnlm_Search
begin

text \<open>
  PNLM's plane filter (src/cpu/pnlm/pnlm.cpp, constants and flat-patch rule of
  include/nss/params/pnlm.hpp): the estimate of a reference patch from its matches, the
  ring of grid rows, the gathering of output rows as soon as they are complete, and the
  whole run. The theorem of the run states the documented result, pixel by pixel, without
  ring, covers or vectors.
\<close>

subsection \<open>Weights\<close>

text \<open>Rounding to nearest and the conversion of a rounded value, as the target computes them.\<close>

record fexp =
  f_rint :: "f32 \<Rightarrow> f32"
  f_to_int :: "f32 \<Rightarrow> int"

record pnlm_scale =
  ps_inv_area :: f32
  ps_offset :: f32
  ps_inv_h2 :: f32
  ps_inv_s2 :: f32

definition kPnlmLambda :: f32 where "kPnlmLambda = 0x40000000"
definition kPnlmBias :: f32 where "kPnlmBias = f32_one"
definition kPnlmFlatLo :: f32 where "kPnlmFlatLo = 0x3f666666"
definition kPnlmFlatHi :: f32 where "kPnlmFlatHi = 0x3fcccccd"

definition pnlm_scale_of :: "farith \<Rightarrow> f32 \<Rightarrow> int \<Rightarrow> pnlm_scale" where
  "pnlm_scale_of F sigma8 block =
     (let s = fdiv F sigma8 f32_255; s2 = fmul F s s; h = fmul F kPnlmLambda s
      in \<lparr>ps_inv_area = fdiv F f32_one (f_of_int F (block * block)), ps_offset = fmul F kPnlmBias (fmul F 0x40000000 s2),
          ps_inv_h2 = fdiv F f32_one (fmul F h h), ps_inv_s2 = fdiv F f32_one s2\<rparr>)"

definition f32_negate :: "f32 \<Rightarrow> f32" where
  "f32_negate v = v XOR 0x80000000"

text \<open>
  A lane of \<open>weights\<close>: the exponential of a non-positive argument by a polynomial of degree
  6, scaled by a power of two built from its exponent bits, zero at -87 and below.
\<close>

definition weight_lane :: "farith \<Rightarrow> fexp \<Rightarrow> pnlm_scale \<Rightarrow> f32 \<Rightarrow> f32" where
  "weight_lane F E c dist =
     (let u = fsub F (fmul F dist (ps_inv_area c)) (ps_offset c);
          x = f32_negate (fmul F (if f32_lt f32_zero u then u else f32_zero) (ps_inv_h2 c));
          t = fmul F x 0x3fb8aa3b;
          k = f_rint E t;
          f = fsub F t k;
          q = fold (\<lambda>coefficient q. ffma F q f coefficient)
                [0x3aaf9f29, 0x3c1d96a6, 0x3d635774, 0x3e75fdee, 0x3f317218, 0x3f800000] 0x3920fdde;
          scale2 = push_bit 23 (word_of_int (f_to_int E k) + 127);
          e = fmul F q scale2
      in if f32_lt 0xc2ae0000 x then e else f32_zero)"

subsection \<open>The flat-patch rule\<close>

definition pnlm_lanes :: "int \<Rightarrow> int" where
  "pnlm_lanes area = (if area \<le> 16 then 16 else 32)"

text \<open>The lanes added by halves: \<open>l += l + off\<close> for \<open>off = lanes / 2, \<dots>, 1\<close>, vectors of lanes at first.\<close>

function halvings :: "int \<Rightarrow> int list" where
  "halvings n = (if n \<le> 1 then [] else cdiv n 2 # halvings (cdiv n 2))"
  by pat_completeness auto
termination
  by (relation "measure nat") (auto simp: cdiv_nonneg)

declare halvings.simps [simp del]

definition lane_sum :: "farith \<Rightarrow> int \<Rightarrow> (int \<Rightarrow> f32) \<Rightarrow> f32" where
  "lane_sum F lanes s = fold (\<lambda>off s l. if l < off then fadd F (s l) (s (l + off)) else s l) (halvings lanes) s 0"

record pnlm_flat =
  pf_alpha_mean :: f32
  pf_one_minus :: f32

definition pnlm_flat_of :: "farith \<Rightarrow> f32 \<Rightarrow> f32 \<Rightarrow> f32 \<Rightarrow> pnlm_scale \<Rightarrow> pnlm_flat" where
  "pnlm_flat_of F s1 s2 cnt c =
     (let mean = fdiv F s1 cnt; ex2 = fdiv F s2 cnt; m2 = fmul F mean mean; v = fsub F ex2 m2;
          r = fmul F (if f32_lt f32_zero v then v else f32_zero) (ps_inv_s2 c);
          alpha = fdiv F (fsub F kPnlmFlatHi r) (fsub F kPnlmFlatHi kPnlmFlatLo);
          alpha = (if f32_lt alpha f32_zero then f32_zero else if f32_lt f32_one alpha then f32_one else alpha)
      in \<lparr>pf_alpha_mean = fmul F alpha mean, pf_one_minus = fsub F f32_one alpha\<rparr>)"

definition pnlm_tent :: "farith \<Rightarrow> int \<Rightarrow> int \<Rightarrow> f32" where
  "pnlm_tent F i p =
     (let e = f_of_int F (2 * i + 1 - p)
      in fsub F f32_one (fdiv F (if f32_lt e f32_zero then f32_negate e else e) (f_of_int F p)))"

subsection \<open>The estimate of a patch\<close>

text \<open>The \<open>i\<close>-th match: the reference itself, then the best keys, each with its weight.\<close>

definition nth_match :: "farith \<Rightarrow> fexp \<Rightarrow> pnlm_image \<Rightarrow> pnlm_scale \<Rightarrow> int \<Rightarrow> int \<Rightarrow> 64 word list \<Rightarrow> nat \<Rightarrow> int \<times> int \<times> int \<times> f32" where
  "nth_match F E img c x0 y0 best i =
     (if i = 0 then (pi_center img, y0, x0, f32_one)
      else let key = best ! (i - 1); pos = ucast key
           in (pnlm_pos_t pos, pnlm_pos_y pos, pnlm_pos_x pos, weight_lane F E c (ucast (drop_bit 32 key))))"

definition estimate :: "farith \<Rightarrow> fexp \<Rightarrow> pnlm_image \<Rightarrow> pnlm_scale \<Rightarrow> int \<Rightarrow> int \<Rightarrow> int \<Rightarrow> best_keys \<Rightarrow> int \<Rightarrow> f32" where
  "estimate F E img c q x0 y0 bk =
     (case bk of (best, found) \<Rightarrow>
        let P = 2 * q; A = P * P; L = pnlm_lanes A;
            ms = map (nth_match F E img c x0 y0 best) [0..<found + 1];
            v = (\<lambda>(t, y, x, w) j. pi_src img t (y * pi_stride img t + x + (j div P) * pi_stride img t + j mod P));
            wsum = fold (\<lambda>(t, y, x, w) s. fadd F s w) ms f32_zero;
            acc = (\<lambda>j. fold (\<lambda>(t, y, x, w) a. ffma F w (v (t, y, x, w) j) a) ms f32_zero);
            s1 = (\<lambda>l. fold (\<lambda>i s. let s = fadd F s (v i l) in if l < A - L then fadd F s (v i (L + l)) else s) ms f32_zero);
            s2 = (\<lambda>l. fold (\<lambda>i s. let s = ffma F (v i l) (v i l) s
                   in if l < A - L then ffma F (v i (L + l)) (v i (L + l)) s else s) ms f32_zero);
            flat = pnlm_flat_of F (lane_sum F L s1) (lane_sum F L s2) (f_of_int F ((int found + 1) * A)) c
        in (\<lambda>j. fadd F (pf_alpha_mean flat) (fmul F (pf_one_minus flat) (fdiv F (acc j) wsum))))"

subsection \<open>Covers\<close>

definition kRing :: int where "kRing = 4"

record cover =
  cv_lo :: int
  cv_hi :: int
  cv_last :: int

definition cover_of :: "int \<Rightarrow> int \<Rightarrow> int \<Rightarrow> int \<Rightarrow> cover" where
  "cover_of q v n cnt =
     (let P = 2 * q; hi = min (cnt - 1) (cdiv v q); last = n - P
      in \<lparr>cv_lo = (if v - P + 1 \<le> 0 then 0 else cdiv (v - P + 1 + q - 1) q), cv_hi = hi,
          cv_last = (if hi < cnt - 1 \<and> last \<le> v \<and> v < last + P then cnt - 1 else - 1)\<rparr>)"

text \<open>The entries the gather loops visit.\<close>

definition cover_entries :: "cover \<Rightarrow> int list" where
  "cover_entries c =
     map (\<lambda>i. if cv_lo c + i \<le> cv_hi c then cv_lo c + i else cv_last c)
       [0..cv_hi c - cv_lo c + (if 0 \<le> cv_last c then 1 else 0)]"

subsection \<open>Gathering a row\<close>

definition est_at :: "int \<Rightarrow> int \<Rightarrow> int \<Rightarrow> int \<Rightarrow> int" where
  "est_at q nx iy ix = (cmod iy kRing * nx + ix) * (2 * q * (2 * q))"

definition gather_pixel :: "farith \<Rightarrow> pnlm_image \<Rightarrow> int \<Rightarrow> buffer \<Rightarrow> int \<Rightarrow> int \<Rightarrow> f32" where
  "gather_pixel F img q ring y x =
     (let P = 2 * q; W = pi_width img; H = pi_height img; nx = pnlm_grid_count W P; ny = pnlm_grid_count H P;
          (n, d) = fold (\<lambda>iy nd.
            let gy = pnlm_grid_pos iy H P
            in if gy > y \<or> y \<ge> gy + P then nd
               else let wy = pnlm_tent F (y - gy) P
                    in fold (\<lambda>ix (n, d).
                         let gx = pnlm_grid_pos ix W P
                         in if gx > x \<or> x \<ge> gx + P then (n, d)
                            else let wxy = fmul F wy (pnlm_tent F (x - gx) P)
                                 in (ffma F wxy (ring (est_at q nx iy ix + ((y - gy) * P + (x - gx)))) n, fadd F d wxy))
                       (cover_entries (cover_of q x W nx)) nd)
            (cover_entries (cover_of q y H ny)) (f32_zero, f32_zero)
      in fdiv F n d)"

definition gather :: "farith \<Rightarrow> pnlm_image \<Rightarrow> int \<Rightarrow> buffer \<Rightarrow> int \<Rightarrow> int \<Rightarrow> buffer \<Rightarrow> buffer" where
  "gather F img q ring out_stride y out = map_span (y * out_stride) 0 (pi_width img) (\<lambda>x _. gather_pixel F img q ring y x) out"

subsection \<open>The run\<close>

record pnlm_state =
  pst_cols :: buffer
  pst_best :: "best_keys list"
  pst_ring :: buffer
  pst_out :: buffer
  pst_next :: int

definition store_estimates :: "farith \<Rightarrow> fexp \<Rightarrow> pnlm_image \<Rightarrow> pnlm_scale \<Rightarrow> int \<Rightarrow> int list \<Rightarrow> int \<Rightarrow> int \<Rightarrow> best_keys list \<Rightarrow> buffer \<Rightarrow> buffer" where
  "store_estimates F E img c q xs iy y0 best ring =
     fold (\<lambda>ix. map_span (est_at q (int (length xs)) iy (int ix)) 0 (2 * q * (2 * q)) (\<lambda>k _. estimate F E img c q (xs ! ix) y0 (best ! ix) k))
       [0..<length xs] ring"

definition run_row :: "farith \<Rightarrow> fexp \<Rightarrow> int \<Rightarrow> pnlm_image \<Rightarrow> pnlm_scale \<Rightarrow> int \<Rightarrow> int list \<Rightarrow> int \<Rightarrow> int \<Rightarrow> pnlm_state \<Rightarrow> pnlm_state" where
  "run_row F E lanes img c q xs out_stride iy st =
     (let P = 2 * q; H = pi_height img; ny = pnlm_grid_count H P;
          y0 = pnlm_grid_pos iy H P;
          (cols, best) = match_row F lanes img q xs y0 (pst_cols st, pst_best st);
          ring = store_estimates F E img c q xs iy y0 best (pst_ring st);
          end' = (if iy + 1 < ny then pnlm_grid_pos (iy + 1) H P else H)
      in \<lparr>pst_cols = cols, pst_best = best, pst_ring = ring,
          pst_out = fold (gather F img q ring out_stride) [pst_next st..end' - 1] (pst_out st),
          pst_next = max (pst_next st) end'\<rparr>)"

text \<open>\<open>prepare\<close> clears the column sums and forms the grid columns.\<close>

definition pnlm_run :: "farith \<Rightarrow> fexp \<Rightarrow> int \<Rightarrow> pnlm_image \<Rightarrow> int \<Rightarrow> int \<Rightarrow> buffer \<Rightarrow> best_keys list \<Rightarrow> buffer \<Rightarrow> buffer \<Rightarrow> buffer" where
  "pnlm_run F E lanes img q out_stride cols best ring out =
     (let P = 2 * q; c = pnlm_scale_of F (pi_sigma img) P;
          xs = pnlm_positions (pi_width img) P;
          cols0 = map_span 0 0 (5 * col_row img) (\<lambda>_ _. f32_zero) cols
      in pst_out (fold (run_row F E lanes img c q xs out_stride) [0..pnlm_grid_count (pi_height img) P - 1]
           \<lparr>pst_cols = cols0, pst_best = best, pst_ring = ring, pst_out = out, pst_next = 0\<rparr>))"

text \<open>The work buffer (\<open>layout\<close>) and the entry point.\<close>

record pnlm_layout =
  la_ring :: nat
  la_cols :: nat
  la_best :: nat
  la_kept :: nat
  la_total :: nat

definition align16 :: "nat \<Rightarrow> nat" where
  "align16 n = unat ((word_of_nat (n + 15) :: 64 word) AND NOT 15)"

definition pnlm_layout_of :: "int \<Rightarrow> int \<Rightarrow> pnlm_layout" where
  "pnlm_layout_of width block =
     (let nx = nat (pnlm_grid_count width block); b = nat block;
          cols = align16 (nat kRing * nx * b * b);
          best = cols + align16 (5 * (nat width + nat kPad));
          kept = best + align16 (nx * (nat kPnlmMaxGroup - 1) * 2)
      in \<lparr>la_ring = 0, la_cols = cols, la_best = best, la_kept = kept, la_total = kept + align16 nx + 16\<rparr>)"

definition pnlm_denoise :: "farith \<Rightarrow> fexp \<Rightarrow> int \<Rightarrow> pnlm_image \<Rightarrow> int \<Rightarrow> nat \<Rightarrow> buffer \<Rightarrow> best_keys list \<Rightarrow> buffer \<Rightarrow> buffer \<Rightarrow> buffer res" where
  "pnlm_denoise F E lanes img out_stride work_floats cols best ring out =
     (if pi_width img < pi_block img \<or> pi_height img < pi_block img \<or> pi_width img > kPnlmMaxSide \<or> pi_height img > kPnlmMaxSide \<or>
         pi_frames img < 1 \<or> pi_frames img > 2 * kPnlmMaxD + 1 \<or> pi_center img < 0 \<or> pi_center img \<ge> pi_frames img \<or>
         pi_group img < 2 \<or> pi_group img > kPnlmMaxGroup \<or> pi_a img < 1 \<or> \<not> f32_lt f32_zero (pi_sigma img) \<or>
         work_floats < la_total (pnlm_layout_of (pi_width img) (pi_block img))
      then Inl (Invalid_argument ''nss.PNLM: invalid plane geometry or arguments'')
      else if pi_block img = 4 then Inr (pnlm_run F E lanes img 2 out_stride cols best ring out)
      else if pi_block img = 6 then Inr (pnlm_run F E lanes img 3 out_stride cols best ring out)
      else if pi_block img = 8 then Inr (pnlm_run F E lanes img 4 out_stride cols best ring out)
      else Inl (Invalid_argument ''nss.PNLM: block_size must be 4, 6 or 8''))"

subsection \<open>Positions and covers\<close>

lemma grid_pos_min: "1 \<le> q \<Longrightarrow> pnlm_grid_pos i n (2 * q) = min (i * q) (n - 2 * q)"
  by (simp add: pnlm_grid_pos_def cdiv_nonneg Let_def min_def)

lemma grid_count_facts:
  assumes "1 \<le> q" "2 * q \<le> n"
  shows "1 \<le> pnlm_grid_count n (2 * q)" "n - 2 * q \<le> (pnlm_grid_count n (2 * q) - 1) * q"
    "(pnlm_grid_count n (2 * q) - 2) * q < n - 2 * q \<or> pnlm_grid_count n (2 * q) = 1"
  using axis_count_bounds [OF assms] by (simp_all add: pnlm_grid_axis(1) [OF assms])

text \<open>Positions before the last are exact multiples, so they increase strictly.\<close>

lemma grid_pos_exact:
  assumes "1 \<le> q" "2 * q \<le> n" "0 \<le> i" "i < pnlm_grid_count n (2 * q) - 1"
  shows "pnlm_grid_pos i n (2 * q) = i * q" "i * q < n - 2 * q"
proof -
  have le: "i * q \<le> (pnlm_grid_count n (2 * q) - 2) * q" using assms by (intro mult_right_mono) auto
  have "pnlm_grid_count n (2 * q) \<noteq> 1" using assms(3,4) by linarith
  then have "(pnlm_grid_count n (2 * q) - 2) * q < n - 2 * q" using grid_count_facts(3) [OF assms(1,2)] by blast
  then show *: "i * q < n - 2 * q" using le by linarith
  show "pnlm_grid_pos i n (2 * q) = i * q" using * assms(1) by (simp add: grid_pos_min)
qed

lemma grid_pos_mono:
  assumes "1 \<le> q" "i \<le> j"
  shows "pnlm_grid_pos i n (2 * q) \<le> pnlm_grid_pos j n (2 * q)"
proof -
  have "i * q \<le> j * q" using assms by (intro mult_right_mono) auto
  then show ?thesis unfolding grid_pos_min [OF assms(1)] by (intro min.mono) auto
qed

definition covers :: "int \<Rightarrow> int \<Rightarrow> int \<Rightarrow> int \<Rightarrow> bool" where
  "covers q n v e \<longleftrightarrow> pnlm_grid_pos e n (2 * q) \<le> v \<and> v < pnlm_grid_pos e n (2 * q) + 2 * q"

lemma cover_entries_eq:
  assumes "cv_lo c \<le> cv_hi c"
  shows "cover_entries c = [cv_lo c..cv_hi c] @ (if 0 \<le> cv_last c then [cv_last c] else [])"
proof -
  have e: "map (\<lambda>i. if cv_lo c + i \<le> cv_hi c then cv_lo c + i else cv_last c) [0..cv_hi c - cv_lo c] = [cv_lo c..cv_hi c]"
    by (rule nth_equalityI) (use assms in auto)
  have s: "[0..cv_hi c - cv_lo c + 1] = [0..cv_hi c - cv_lo c] @ [cv_hi c - cv_lo c + 1]"
    using assms by (simp add: upto_rec2)
  show ?thesis
  proof (cases "0 \<le> cv_last c")
    case True
    then show ?thesis unfolding cover_entries_def by (simp add: s e)
  next
    case False
    then show ?thesis unfolding cover_entries_def by (simp add: e)
  qed
qed

lemma cover_exact:
  assumes q: "1 \<le> q" and n: "2 * q \<le> n" and v: "0 \<le> v" "v < n"
  defines "cnt \<equiv> pnlm_grid_count n (2 * q)"
  shows "filter (covers q n v) (cover_entries (cover_of q v n cnt)) = filter (covers q n v) [0..cnt - 1]"
proof -
  let ?c = "cover_of q v n cnt" and ?d = "v div q"
  have d: "?d * q \<le> v" "v < ?d * q + q"
    using q pos_mod_sign [of q v] pos_mod_bound [of q v] div_mult_mod_eq [of v q] by linarith+
  have hi: "cv_hi ?c = min (cnt - 1) ?d" using q v by (simp add: cover_of_def Let_def cdiv_nonneg)
  have last: "cv_last ?c = (if cv_hi ?c < cnt - 1 \<and> n - 2 * q \<le> v then cnt - 1 else - 1)"
    using v by (simp add: cover_of_def Let_def)
  have d0: "0 \<le> ?d" using q v by (simp add: pos_imp_zdiv_nonneg_iff)
  have lo: "cv_lo ?c = (if v < 2 * q then 0 else ?d - 1)"
  proof (cases "v < 2 * q")
    case True
    then show ?thesis by (simp add: cover_of_def Let_def)
  next
    case False
    have e: "v - 2 * q + 1 + q - 1 = v + (- 1) * q" by simp
    have "cdiv (v - 2 * q + 1 + q - 1) q = (v - 2 * q + 1 + q - 1) div q" using False q by (intro cdiv_nonneg) auto
    also have "\<dots> = ?d - 1" unfolding e using q by (subst div_mult_self1) auto
    finally show ?thesis using False by (simp add: cover_of_def Let_def)
  qed
  have cnt: "1 \<le> cnt" "n - 2 * q \<le> (cnt - 1) * q" using grid_count_facts [OF q n] by (simp_all add: cnt_def)
  have d_le: "?d \<le> cnt"
  proof (rule ccontr)
    assume "\<not> ?d \<le> cnt"
    then have "(cnt + 1) * q \<le> ?d * q" using q by (intro mult_right_mono) auto
    then show False using d v cnt by (simp add: algebra_simps)
  qed
  have lohi: "cv_lo ?c \<le> cv_hi ?c" "0 \<le> cv_lo ?c"
  proof -
    have "1 \<le> ?d" if "\<not> v < 2 * q" using that q zdiv_mono1 [of "2 * q" v q] by simp
    then show "0 \<le> cv_lo ?c" unfolding lo by auto
    show "cv_lo ?c \<le> cv_hi ?c" unfolding lo hi using d0 d_le cnt by auto
  qed
  have set_eq: "e \<in> set (cover_entries ?c) \<and> covers q n v e \<longleftrightarrow> 0 \<le> e \<and> e < cnt \<and> covers q n v e" for e
  proof
    assume "e \<in> set (cover_entries ?c) \<and> covers q n v e"
    then show "0 \<le> e \<and> e < cnt \<and> covers q n v e"
      using lohi hi last cnt by (auto simp: cover_entries_eq split: if_splits)
  next
    assume e: "0 \<le> e \<and> e < cnt \<and> covers q n v e"
    then have p: "min (e * q) (n - 2 * q) \<le> v" "v < min (e * q) (n - 2 * q) + 2 * q" by (simp_all add: covers_def grid_pos_min [OF q])
    have "e \<in> set (cover_entries ?c)"
    proof (cases "e \<le> cv_hi ?c")
      case True
      have "cv_lo ?c \<le> e"
      proof (cases "v < 2 * q")
        case False
        have "?d - 1 \<le> e"
        proof (rule ccontr)
          assume "\<not> ?d - 1 \<le> e"
          then have "(e + 2) * q \<le> ?d * q" using q by (intro mult_right_mono) auto
          then show False using p d by (simp add: algebra_simps)
        qed
        then show ?thesis using False by (simp add: lo)
      qed (use e in \<open>simp add: lo\<close>)
      then show ?thesis using True lohi by (simp add: cover_entries_eq)
    next
      case False
      then have "?d < e" using hi e by auto
      then have "(?d + 1) * q \<le> e * q" using q by (intro mult_right_mono) auto
      then have gt: "v < e * q" using d by (simp add: algebra_simps)
      then have "n - 2 * q \<le> v" using p by auto
      moreover have "e = cnt - 1"
      proof (rule ccontr)
        assume "e \<noteq> cnt - 1"
        then have "e * q < n - 2 * q" using e grid_pos_exact(2) [OF q n, of e] by (simp add: cnt_def)
        then show False using gt \<open>n - 2 * q \<le> v\<close> by simp
      qed
      moreover have "cv_hi ?c < cnt - 1" using False \<open>e = cnt - 1\<close> by simp
      ultimately have "cv_last ?c = e" by (simp add: last)
      then show ?thesis using lohi e by (simp add: cover_entries_eq)
    qed
    then show "e \<in> set (cover_entries ?c) \<and> covers q n v e" using e by simp
  qed
  have "sorted_wrt (<) (cover_entries ?c)"
    using lohi hi last by (auto simp: cover_entries_eq sorted_wrt_append)
  then have srt: "sorted_wrt (<) (filter (covers q n v) (cover_entries ?c))" by (rule sorted_wrt_filter)
  have "sorted_wrt (<) (filter (covers q n v) [0..cnt - 1])" by (rule sorted_wrt_filter) simp
  moreover have "set (filter (covers q n v) (cover_entries ?c)) = set (filter (covers q n v) [0..cnt - 1])"
    using set_eq by auto
  ultimately show ?thesis using srt by (simp add: strict_sorted_equal)
qed

subsection \<open>A pixel without ring and covers\<close>

definition gather_step :: "farith \<Rightarrow> pnlm_image \<Rightarrow> int \<Rightarrow> (int \<Rightarrow> int \<Rightarrow> int \<Rightarrow> f32) \<Rightarrow> int \<Rightarrow> int \<Rightarrow> int \<Rightarrow> int \<Rightarrow> f32 \<times> f32 \<Rightarrow> f32 \<times> f32" where
  "gather_step F img q est y x iy ix nd =
     (let P = 2 * q; gy = pnlm_grid_pos iy (pi_height img) P; gx = pnlm_grid_pos ix (pi_width img) P;
          wxy = fmul F (pnlm_tent F (y - gy) P) (pnlm_tent F (x - gx) P)
      in (ffma F wxy (est iy ix ((y - gy) * P + (x - gx))) (fst nd), fadd F (snd nd) wxy))"

definition gathered :: "farith \<Rightarrow> pnlm_image \<Rightarrow> int \<Rightarrow> (int \<Rightarrow> int \<Rightarrow> int \<Rightarrow> f32) \<Rightarrow> int \<Rightarrow> int \<Rightarrow> f32" where
  "gathered F img q est y x =
     (case fold (\<lambda>iy. fold (gather_step F img q est y x iy) (filter (covers q (pi_width img) x) [0..pnlm_grid_count (pi_width img) (2 * q) - 1]))
            (filter (covers q (pi_height img) y) [0..pnlm_grid_count (pi_height img) (2 * q) - 1]) (f32_zero, f32_zero)
      of (n, d) \<Rightarrow> fdiv F n d)"

lemma fold_skip: "fold (\<lambda>x s. if c x then s else f x s) xs s = fold f (filter (\<lambda>x. \<not> c x) xs) s"
  by (induction xs arbitrary: s) simp_all

lemma fold_cong_set: "(\<And>x s. x \<in> set xs \<Longrightarrow> f x s = g x s) \<Longrightarrow> fold f xs s = fold g xs s"
  by (induction xs arbitrary: s) simp_all

lemma gather_pixel_steps:
  assumes "1 \<le> q" "2 * q \<le> pi_height img" "0 \<le> y" "y < pi_height img" "2 * q \<le> pi_width img" "0 \<le> x" "x < pi_width img"
  shows "gather_pixel F img q ring y x = gathered F img q (\<lambda>iy ix k. ring (est_at q (pnlm_grid_count (pi_width img) (2 * q)) iy ix + k)) y x"
proof -
  have c: "(\<lambda>e. \<not> (v < pnlm_grid_pos e n (2 * q) \<or> pnlm_grid_pos e n (2 * q) + 2 * q \<le> v)) = covers q n v" for n v
    by (auto simp: covers_def fun_eq_iff)
  have e: "case_prod (\<lambda>n d. if b then (n, d) else g n d) = (\<lambda>nd. if b then nd else g (fst nd) (snd nd))"
    for b and g :: "f32 \<Rightarrow> f32 \<Rightarrow> f32 \<times> f32" by (auto simp: fun_eq_iff)
  show ?thesis
    unfolding gathered_def gather_pixel_def
    by (simp only: Let_def e prod.case_eq_if fold_skip c cover_exact [OF assms(1,2-4)] cover_exact [OF assms(1,5-7)] gather_step_def [abs_def] fst_conv snd_conv)
qed

lemma gathered_cong:
  assumes q: "1 \<le> q"
    and est: "\<And>iy ix k. 0 \<le> iy \<Longrightarrow> iy < pnlm_grid_count (pi_height img) (2 * q) \<Longrightarrow> covers q (pi_height img) y iy \<Longrightarrow>
      0 \<le> ix \<Longrightarrow> ix < pnlm_grid_count (pi_width img) (2 * q) \<Longrightarrow> 0 \<le> k \<Longrightarrow> k < 2 * q * (2 * q) \<Longrightarrow> est iy ix k = est' iy ix k"
  shows "gathered F img q est y x = gathered F img q est' y x"
proof -
  have step: "gather_step F img q est y x iy ix nd = gather_step F img q est' y x iy ix nd"
    if iy: "0 \<le> iy" "iy < pnlm_grid_count (pi_height img) (2 * q)" "covers q (pi_height img) y iy"
      and ix: "0 \<le> ix" "ix < pnlm_grid_count (pi_width img) (2 * q)" "covers q (pi_width img) x ix" for iy ix nd
  proof -
    let ?y = "y - pnlm_grid_pos iy (pi_height img) (2 * q)" and ?x = "x - pnlm_grid_pos ix (pi_width img) (2 * q)"
    have y: "0 \<le> ?y" "?y \<le> 2 * q - 1" and x: "0 \<le> ?x" "?x < 2 * q" using iy(3) ix(3) by (auto simp: covers_def)
    have "?y * (2 * q) \<le> (2 * q - 1) * (2 * q)" using y q by (intro mult_right_mono) auto
    also have "\<dots> = 2 * q * (2 * q) - 2 * q" by (simp add: left_diff_distrib)
    finally have "?y * (2 * q) + ?x < 2 * q * (2 * q)" using x by linarith
    moreover have "0 \<le> ?y * (2 * q) + ?x" using y(1) x(1) q by (intro add_nonneg_nonneg mult_nonneg_nonneg) auto
    ultimately show ?thesis using est [OF iy ix(1,2)] by (simp add: gather_step_def Let_def)
  qed
  have "fold (\<lambda>iy. fold (gather_step F img q est y x iy) (filter (covers q (pi_width img) x) [0..pnlm_grid_count (pi_width img) (2 * q) - 1]))
            (filter (covers q (pi_height img) y) [0..pnlm_grid_count (pi_height img) (2 * q) - 1]) (f32_zero, f32_zero) =
        fold (\<lambda>iy. fold (gather_step F img q est' y x iy) (filter (covers q (pi_width img) x) [0..pnlm_grid_count (pi_width img) (2 * q) - 1]))
            (filter (covers q (pi_height img) y) [0..pnlm_grid_count (pi_height img) (2 * q) - 1]) (f32_zero, f32_zero)"
    by (rule fold_cong_set, rule fold_cong_set) (use step in auto)
  then show ?thesis by (simp add: gathered_def)
qed

subsection \<open>The ring\<close>

text \<open>Spans stored one after the other do not disturb each other.\<close>

lemma map_span_out: "i < base + lo \<or> base + hi \<le> i \<Longrightarrow> map_span base lo hi g b i = b i"
  by (auto simp: map_span_def)

lemma fold_spans:
  assumes "0 \<le> len" "len \<le> step"
  shows "(\<forall>j k. j < n \<and> 0 \<le> k \<and> k < len \<longrightarrow> fold (\<lambda>j. map_span (base + int j * step) 0 len (\<lambda>k _. g j k)) [0..<n] b (base + int j * step + k) = g j k) \<and>
    (\<forall>i. i < base \<or> base + int n * step \<le> i \<longrightarrow> fold (\<lambda>j. map_span (base + int j * step) 0 len (\<lambda>k _. g j k)) [0..<n] b i = b i)"
proof (induction n)
  case 0
  then show ?case by simp
next
  case (Suc n)
  let ?f = "\<lambda>n. fold (\<lambda>j. map_span (base + int j * step) 0 len (\<lambda>k _. g j k)) [0..<n] b"
  have s: "?f (Suc n) = map_span (base + int n * step) 0 len (\<lambda>k _. g n k) (?f n)" by simp
  have le: "int j * step + step \<le> int n * step" if "j < n" for j
  proof -
    have "(int j + 1) * step \<le> int n * step" using that assms by (intro mult_right_mono) auto
    then show ?thesis by (simp add: distrib_right)
  qed
  have nn: "0 \<le> int n * step" using assms by simp
  show ?case
  proof (intro conjI allI impI)
    fix j k
    assume jk: "j < Suc n \<and> 0 \<le> k \<and> k < len"
    show "?f (Suc n) (base + int j * step + k) = g j k"
    proof (cases "j = n")
      case True
      then show ?thesis using jk unfolding s by (simp add: map_span_def)
    next
      case False
      then have j: "j < n" using jk by simp
      then have "base + int j * step + k < base + int n * step + 0" using le [OF j] jk assms by linarith
      then show ?thesis unfolding s using Suc.IH j jk by (simp only: map_span_out simp_thms)
    qed
  next
    fix i
    assume i: "i < base \<or> base + int (Suc n) * step \<le> i"
    then have i: "i < base \<or> base + int n * step \<le> i" "i < base + int n * step + 0 \<or> base + int n * step + len \<le> i"
      using i nn assms unfolding of_nat_Suc distrib_right by linarith+
    then show "?f (Suc n) i = b i" unfolding s using Suc.IH i by (auto simp only: map_span_out simp_thms add_0_right not_less not_le de_Morgan_conj)
  qed
qed

definition patch_best :: "farith \<Rightarrow> pnlm_image \<Rightarrow> int \<Rightarrow> int \<Rightarrow> int \<Rightarrow> 64 word list" where
  "patch_best F img q x y = take (nat (pi_group img - 1)) (sorted_list_of_set (key_of F img q x y ` pnlm_candidates img q x y))"

definition grid_estimate :: "farith \<Rightarrow> fexp \<Rightarrow> pnlm_image \<Rightarrow> int \<Rightarrow> int \<Rightarrow> int \<Rightarrow> int \<Rightarrow> f32" where
  "grid_estimate F E img q iy ix =
     (let x = pnlm_grid_pos ix (pi_width img) (2 * q); y = pnlm_grid_pos iy (pi_height img) (2 * q); b = patch_best F img q x y
      in estimate F E img (pnlm_scale_of F (pi_sigma img) (2 * q)) q x y (b, length b))"

text \<open>Only the keys kept are read.\<close>

lemma estimate_cong:
  assumes "take k b = take k b'"
  shows "estimate F E img c q x y (b, k) = estimate F E img c q x y (b', k)"
proof -
  have "nth_match F E img c x y b i = nth_match F E img c x y b' i" if "i \<in> set [0..<k + 1]" for i
  proof -
    have "b ! (i - 1) = b' ! (i - 1)" if "0 < i"
    proof -
      have "i - 1 < k" using that \<open>i \<in> set [0..<k + 1]\<close> by auto
      then show ?thesis using nth_take [of "i - 1" k b] nth_take [of "i - 1" k b'] assms by simp
    qed
    then show ?thesis by (simp add: nth_match_def)
  qed
  then have "map (nth_match F E img c x y b) [0..<k + 1] = map (nth_match F E img c x y b') [0..<k + 1]"
    by (rule map_cong [OF refl])
  then show ?thesis unfolding estimate_def by (simp only: prod.case)
qed

definition best_shape :: "pnlm_image \<Rightarrow> int \<Rightarrow> best_keys list \<Rightarrow> bool" where
  "best_shape img q best \<longleftrightarrow>
     length best = nat (pnlm_grid_count (pi_width img) (2 * q)) \<and> (\<forall>bk \<in> set best. length (fst bk) = nat (pi_group img - 1))"

lemma match_row_estimates:
  fixes F :: farith and cols :: buffer and iy :: int
  assumes ok: "image_ok img q lanes" and best: "best_shape img q best"
  defines "best' \<equiv> snd (match_row F lanes img q (pnlm_positions (pi_width img) (2 * q)) (pnlm_grid_pos iy (pi_height img) (2 * q)) (cols, best))"
  shows "best_shape img q best'"
    "ix < nat (pnlm_grid_count (pi_width img) (2 * q)) \<Longrightarrow>
      estimate F E img (pnlm_scale_of F (pi_sigma img) (2 * q)) q (pnlm_positions (pi_width img) (2 * q) ! ix)
        (pnlm_grid_pos iy (pi_height img) (2 * q)) (best' ! ix) = grid_estimate F E img q iy (int ix)"
proof -
  let ?xs = "pnlm_positions (pi_width img) (2 * q)" and ?y = "pnlm_grid_pos iy (pi_height img) (2 * q)"
    and ?nx = "nat (pnlm_grid_count (pi_width img) (2 * q))" and ?K = "nat (pi_group img - 1)"
  have q: "1 \<le> q" "2 * q \<le> pi_width img" using ok by (auto simp: image_ok_def)
  have len: "length best = ?nx" "\<forall>bk \<in> set best. length (fst bk) = ?K" using best by (simp_all add: best_shape_def)
  note xs = pnlm_positions_facts [OF q]
  have n: "?nx = length ?xs" using xs(3) pnlm_grid_axis(1) [OF q] by simp
  have pos: "?xs ! i = pnlm_grid_pos (int i) (pi_width img) (2 * q)" if "i < ?nx" for i
    unfolding pnlm_positions_def using that by (subst nth_map) auto
  have nx0: "0 < ?nx" using grid_count_facts(1) [OF q] by simp
  have len': "length best' = ?nx"
    using match_row_best [OF ok xs(1) _ xs(2), of 0 best F ?y cols] nx0 len(1) n unfolding best'_def by simp
  note r = match_row_search [OF ok _ len, of _ F ?y cols, unfolded Let_def case_prod_beta, folded best'_def]
  have "length (fst (best' ! i)) = ?K" if "i < ?nx" for i using r [OF that] by blast
  then show "best_shape img q best'" using len' by (simp add: best_shape_def all_set_conv_all_nth)
  assume ix: "ix < ?nx"
  obtain b k where bk: "best' ! ix = (b, k)" by (rule prod.exhaust)
  let ?p = "patch_best F img q (?xs ! ix) ?y" and ?cs = "pnlm_candidates img q (?xs ! ix) ?y"
  have t: "take k b = ?p" "k = min ?K (card ?cs)" using r [OF ix, unfolded bk fst_conv snd_conv] unfolding patch_best_def by blast+
  have keys: "card (key_of F img q (?xs ! ix) ?y ` ?cs) = card ?cs"
    using r [OF ix] by (intro card_image inj_on_inverseI [where g = decode]) blast
  then have l: "length ?p = k" using t(2) by (simp add: patch_best_def)
  have "estimate F E img (pnlm_scale_of F (pi_sigma img) (2 * q)) q (?xs ! ix) ?y (b, k) =
      estimate F E img (pnlm_scale_of F (pi_sigma img) (2 * q)) q (?xs ! ix) ?y (?p, k)"
    using t(1) l by (intro estimate_cong) simp
  then show "estimate F E img (pnlm_scale_of F (pi_sigma img) (2 * q)) q (?xs ! ix) ?y (best' ! ix) = grid_estimate F E img q iy (int ix)"
    using l pos [OF ix] by (simp add: bk grid_estimate_def Let_def)
qed

subsection \<open>The run\<close>

lemma store_estimates_at:
  assumes q: "1 \<le> q" and ix: "ix < length xs" and k: "0 \<le> k" "k < 2 * q * (2 * q)"
    and iy': "0 \<le> iy" "0 \<le> iy'"
  shows "store_estimates F E img c q xs iy y0 best ring (est_at q (int (length xs)) iy' (int ix) + k) =
    (if cmod iy' kRing = cmod iy kRing then estimate F E img c q (xs ! ix) y0 (best ! ix) k
     else ring (est_at q (int (length xs)) iy' (int ix) + k))"
proof -
  let ?A = "2 * q * (2 * q)" and ?n = "int (length xs)"
  let ?b = "cmod iy kRing * ?n * ?A" and ?b' = "cmod iy' kRing * ?n * ?A"
  have A: "0 \<le> ?A" using q by simp
  have e: "est_at q ?n j (int i) = cmod j kRing * ?n * ?A + int i * ?A" for j i by (simp add: est_at_def distrib_right)
  have st: "store_estimates F E img c q xs iy y0 best ring =
      fold (\<lambda>ix. map_span (?b + int ix * ?A) 0 ?A (\<lambda>k _. estimate F E img c q (xs ! ix) y0 (best ! ix) k)) [0..<length xs] ring"
    by (simp add: store_estimates_def e)
  note f = fold_spans [of ?A ?A "length xs" ?b "\<lambda>ix. estimate F E img c q (xs ! ix) y0 (best ! ix)" ring, OF A order_refl]
  show ?thesis
  proof (cases "cmod iy' kRing = cmod iy kRing")
    case True
    then show ?thesis using conjunct1 [OF f] ix k by (simp add: st e)
  next
    case False
    have "(int ix + 1) * ?A \<le> ?n * ?A" using ix A by (intro mult_right_mono) auto
    then have i: "0 \<le> int ix * ?A + k" "int ix * ?A + k < ?n * ?A" using k A by (auto simp: distrib_right)
    have "?b' + (int ix * ?A + k) < ?b \<or> ?b + ?n * ?A \<le> ?b' + (int ix * ?A + k)"
    proof (cases "cmod iy' kRing < cmod iy kRing")
      case True
      then have "(cmod iy' kRing + 1) * (?n * ?A) \<le> cmod iy kRing * (?n * ?A)" using A by (intro mult_right_mono) auto
      then show ?thesis using i by (simp add: distrib_right mult.assoc)
    next
      case ge: False
      then have "(cmod iy kRing + 1) * (?n * ?A) \<le> cmod iy' kRing * (?n * ?A)" using A False by (intro mult_right_mono) auto
      then show ?thesis using i by (simp add: distrib_right mult.assoc)
    qed
    then have "fold (\<lambda>ix. map_span (?b + int ix * ?A) 0 ?A (\<lambda>k _. estimate F E img c q (xs ! ix) y0 (best ! ix) k)) [0..<length xs] ring
        (?b' + (int ix * ?A + k)) = ring (?b' + (int ix * ?A + k))" using conjunct2 [OF f] by blast
    then show ?thesis using False by (simp only: st e add.assoc if_False)
  qed
qed

lemma ring_slot:
  assumes "0 \<le> m" "0 \<le> i" "m - 3 \<le> i" "i < m"
  shows "cmod i kRing \<noteq> cmod m kRing"
proof
  assume e: "cmod i kRing = cmod m kRing"
  have "cmod v kRing = v mod 4" if "0 \<le> v" for v using that by (simp add: kRing_def cmod_nonneg)
  then have "(m - i) mod 4 = 0" using e assms by (simp add: mod_eq_dvd_iff [symmetric] mod_diff_eq [symmetric, of m])
  moreover have "(m - i) mod 4 = m - i" using assms by (intro mod_pos_pos_trivial) auto
  ultimately show False using assms by simp
qed

lemma gather_rows:
  assumes "0 \<le> pi_width img" "pi_width img \<le> os"
  shows "a \<le> y \<Longrightarrow> y < b \<Longrightarrow> 0 \<le> x \<Longrightarrow> x < pi_width img \<Longrightarrow> fold (gather F img q ring os) [a..b - 1] out (y * os + x) = gather_pixel F img q ring y x"
    "y < a \<Longrightarrow> 0 \<le> x \<Longrightarrow> x < pi_width img \<Longrightarrow> fold (gather F img q ring os) [a..b - 1] out (y * os + x) = out (y * os + x)"
proof -
  have l: "[a..b - 1] = map (\<lambda>j. a + int j) [0..<nat (b - a)]" by (rule nth_equalityI) simp_all
  have g: "fold (gather F img q ring os) [a..b - 1] out =
      fold (\<lambda>j. map_span (a * os + int j * os) 0 (pi_width img) (\<lambda>x _. gather_pixel F img q ring (a + int j) x)) [0..<nat (b - a)] out"
    unfolding l by (simp add: fold_map gather_def [abs_def] comp_def distrib_right)
  note f = fold_spans [OF assms, of "nat (b - a)" "a * os" "\<lambda>j. gather_pixel F img q ring (a + int j)" out, folded g]
  show "fold (gather F img q ring os) [a..b - 1] out (y * os + x) = gather_pixel F img q ring y x"
    if "a \<le> y" "y < b" "0 \<le> x" "x < pi_width img"
    using conjunct1 [OF f, rule_format, of "nat (y - a)" x] that by (simp add: left_diff_distrib)
  show "fold (gather F img q ring os) [a..b - 1] out (y * os + x) = out (y * os + x)" if "y < a" "0 \<le> x" "x < pi_width img"
  proof -
    have "(y + 1) * os \<le> a * os" using that assms by (intro mult_right_mono) auto
    then have "y * os + x < a * os" using that assms by (simp add: distrib_right)
    then show ?thesis using conjunct2 [OF f] by blast
  qed
qed

definition row_end :: "pnlm_image \<Rightarrow> int \<Rightarrow> int \<Rightarrow> int" where
  "row_end img q m = (if m < pnlm_grid_count (pi_height img) (2 * q) then pnlm_grid_pos m (pi_height img) (2 * q) else pi_height img)"

text \<open>The rows a completed output row needs are the last three.\<close>

lemma covering_rows:
  assumes q: "1 \<le> q" "2 * q \<le> pi_height img" and m: "0 \<le> m" "m < pnlm_grid_count (pi_height img) (2 * q)"
    and y: "row_end img q m \<le> y" "y < row_end img q (m + 1)"
    and e: "0 \<le> e" "e < pnlm_grid_count (pi_height img) (2 * q)" "covers q (pi_height img) y e"
  shows "m - 2 \<le> e" "e \<le> m"
proof -
  let ?H = "pi_height img" let ?ny = "pnlm_grid_count ?H (2 * q)"
  have c: "pnlm_grid_pos e ?H (2 * q) \<le> y" "y < pnlm_grid_pos e ?H (2 * q) + 2 * q" using e(3) by (simp_all add: covers_def)
  show "e \<le> m"
  proof (rule ccontr)
    assume "\<not> e \<le> m"
    then have "m + 1 < ?ny" "pnlm_grid_pos (m + 1) ?H (2 * q) \<le> pnlm_grid_pos e ?H (2 * q)" using e grid_pos_mono [OF q(1)] by auto
    then show False using y(2) c by (simp add: row_end_def)
  qed
  show "m - 2 \<le> e"
  proof (rule ccontr)
    assume "\<not> m - 2 \<le> e"
    then have le: "(e + 2) * q \<le> (m - 1) * q" and lt: "m - 1 < ?ny - 1" "0 \<le> m - 1" using q m e by (auto intro: mult_right_mono)
    have "pnlm_grid_pos (m - 1) ?H (2 * q) = (m - 1) * q" by (rule grid_pos_exact(1) [OF q lt(2,1)])
    moreover have "pnlm_grid_pos (m - 1) ?H (2 * q) \<le> pnlm_grid_pos m ?H (2 * q)" by (rule grid_pos_mono [OF q(1)]) simp
    moreover have "pnlm_grid_pos e ?H (2 * q) \<le> e * q" by (simp add: grid_pos_min [OF q(1)])
    ultimately show False using y(1) m c le by (simp add: row_end_def distrib_right)
  qed
qed

definition run_ok :: "farith \<Rightarrow> fexp \<Rightarrow> pnlm_image \<Rightarrow> int \<Rightarrow> int \<Rightarrow> int \<Rightarrow> pnlm_state \<Rightarrow> bool" where
  "run_ok F E img q os m st \<longleftrightarrow>
     best_shape img q (pst_best st) \<and> pst_next st = row_end img q m \<and>
     (\<forall>iy ix k. 0 \<le> iy \<and> m - 4 \<le> iy \<and> iy < m \<and> ix < nat (pnlm_grid_count (pi_width img) (2 * q)) \<and> 0 \<le> k \<and> k < 2 * q * (2 * q) \<longrightarrow>
        pst_ring st (est_at q (pnlm_grid_count (pi_width img) (2 * q)) iy (int ix) + k) = grid_estimate F E img q iy (int ix) k) \<and>
     (\<forall>y x. 0 \<le> y \<and> y < row_end img q m \<and> 0 \<le> x \<and> x < pi_width img \<longrightarrow>
        pst_out st (y * os + x) = gathered F img q (grid_estimate F E img q) y x)"

lemma run_row_ok:
  assumes ok: "image_ok img q lanes" and os: "pi_width img \<le> os"
    and m: "0 \<le> m" "m < pnlm_grid_count (pi_height img) (2 * q)" and st: "run_ok F E img q os m st"
  shows "run_ok F E img q os (m + 1)
    (run_row F E lanes img (pnlm_scale_of F (pi_sigma img) (2 * q)) q (pnlm_positions (pi_width img) (2 * q)) os m st)"
proof -
  let ?W = "pi_width img" and ?H = "pi_height img" and ?P = "2 * q" and ?xs = "pnlm_positions (pi_width img) (2 * q)"
    and ?c = "pnlm_scale_of F (pi_sigma img) (2 * q)"
  let ?nx = "pnlm_grid_count ?W ?P" and ?ny = "pnlm_grid_count ?H ?P" and ?y0 = "pnlm_grid_pos m ?H ?P"
  have q: "1 \<le> q" "?P \<le> ?W" "?P \<le> ?H" using ok by (auto simp: image_ok_def)
  have nx: "int (length ?xs) = ?nx" "length ?xs = nat ?nx" using pnlm_positions_facts(3) [OF q(1,2)] pnlm_grid_axis(1) [OF q(1,2)] by simp_all
  obtain cols best where mr: "match_row F lanes img q ?xs ?y0 (pst_cols st, pst_best st) = (cols, best)" by (rule prod.exhaust)
  have shape: "best_shape img q (pst_best st)" and nxt: "pst_next st = row_end img q m" using st by (simp_all add: run_ok_def)
  note me = match_row_estimates [OF ok shape, where F = F and iy = m and cols = "pst_cols st", unfolded mr snd_conv]
  let ?ring = "store_estimates F E img ?c q ?xs m ?y0 best (pst_ring st)"
  have e: "(if m + 1 < ?ny then pnlm_grid_pos (m + 1) ?H ?P else ?H) = row_end img q (m + 1)" by (simp add: row_end_def)
  have mono: "row_end img q m \<le> row_end img q (m + 1)"
  proof (cases "m + 1 < ?ny")
    case True
    then show ?thesis using m grid_pos_mono [OF q(1), of m "m + 1" ?H] by (simp add: row_end_def)
  next
    case False
    have "pnlm_grid_pos m ?H ?P \<le> ?H" using q by (simp add: grid_pos_min [OF q(1)] min_le_iff_disj)
    then show ?thesis using m False by (simp add: row_end_def)
  qed
  have rr: "run_row F E lanes img ?c q ?xs os m st = \<lparr>pst_cols = cols, pst_best = best, pst_ring = ?ring,
      pst_out = fold (gather F img q ?ring os) [row_end img q m..row_end img q (m + 1) - 1] (pst_out st), pst_next = row_end img q (m + 1)\<rparr>"
    unfolding run_row_def Let_def mr prod.case e nxt using mono by (simp add: max_absorb2)
  have ring: "?ring (est_at q ?nx iy (int ix) + k) = grid_estimate F E img q iy (int ix) k"
    if "0 \<le> iy" "m + 1 - 4 \<le> iy" "iy < m + 1" "ix < nat ?nx" "0 \<le> k" "k < ?P * ?P" for iy ix k
  proof -
    note s = store_estimates_at [where F = F and E = E and img = img and c = ?c and ?y0.0 = ?y0 and best = best and ring = "pst_ring st" and xs = ?xs,
        OF q(1) _ that(5,6) m(1) that(1), unfolded nx(1)]
    show ?thesis
    proof (cases "iy = m")
      case True
      then show ?thesis using s that(4) nx(2) me(2) [OF that(4)] by simp
    next
      case False
      then have "cmod iy kRing \<noteq> cmod m kRing" using that m by (intro ring_slot) auto
      moreover have "pst_ring st (est_at q ?nx iy (int ix) + k) = grid_estimate F E img q iy (int ix) k"
        using st that False by (simp add: run_ok_def)
      ultimately show ?thesis using s that(4) nx(2) by simp
    qed
  qed
  have pixel: "gather_pixel F img q ?ring y x = gathered F img q (grid_estimate F E img q) y x"
    if y: "0 \<le> y" "row_end img q m \<le> y" "y < row_end img q (m + 1)" and x: "0 \<le> x" "x < ?W" for y x
  proof -
    have "row_end img q (m + 1) \<le> ?H" using q by (simp add: row_end_def grid_pos_min [OF q(1)] min_le_iff_disj)
    then have yH: "y < ?H" using y by simp
    have est: "?ring (est_at q ?nx iy ix + k) = grid_estimate F E img q iy ix k"
      if "0 \<le> iy" "iy < ?ny" "covers q ?H y iy" "0 \<le> ix" "ix < ?nx" "0 \<le> k" "k < ?P * ?P" for iy ix k
      using covering_rows [OF q(1,3) m y(2,3) that(1-3)] that ring [of iy "nat ix" k] by simp
    show ?thesis unfolding gather_pixel_steps [OF q(1,3) y(1) yH q(2) x] by (rule gathered_cong [OF q(1)]) (rule est)
  qed
  have w: "0 \<le> ?W" using q by simp
  have out: "fold (gather F img q ?ring os) [row_end img q m..row_end img q (m + 1) - 1] (pst_out st) (y * os + x) =
      gathered F img q (grid_estimate F E img q) y x" if "0 \<le> y" "y < row_end img q (m + 1)" "0 \<le> x" "x < ?W" for y x
  proof (cases "row_end img q m \<le> y")
    case True
    show ?thesis by (simp only: gather_rows(1) [OF w os True that(2-4)] pixel [OF that(1) True that(2-4)])
  next
    case False
    then have lt: "y < row_end img q m" by simp
    show ?thesis using st that lt unfolding gather_rows(2) [OF w os lt that(3,4)] by (simp add: run_ok_def)
  qed
  show ?thesis unfolding rr run_ok_def using me(1) ring out by simp
qed

lemma run_rows_ok:
  assumes ok: "image_ok img q lanes" and os: "pi_width img \<le> os" and st: "run_ok F E img q os 0 st"
    and n: "int n \<le> pnlm_grid_count (pi_height img) (2 * q)"
  shows "run_ok F E img q os (int n)
    (fold (run_row F E lanes img (pnlm_scale_of F (pi_sigma img) (2 * q)) q (pnlm_positions (pi_width img) (2 * q)) os) (map int [0..<n]) st)"
  using n
proof (induction n)
  case 0
  then show ?case using st by simp
next
  case (Suc n)
  then show ?case using run_row_ok [OF ok os, of "int n"] by (simp add: add.commute [of 1])
qed

lemma pnlm_run_pixels:
  assumes ok: "image_ok img q lanes" and os: "pi_width img \<le> os" and best: "best_shape img q best"
    and "0 \<le> y" "y < pi_height img" "0 \<le> x" "x < pi_width img"
  shows "pnlm_run F E lanes img q os cols best ring out (y * os + x) = gathered F img q (grid_estimate F E img q) y x"
proof -
  let ?ny = "pnlm_grid_count (pi_height img) (2 * q)"
  have q: "1 \<le> q" "2 * q \<le> pi_height img" using ok by (auto simp: image_ok_def)
  have ny: "1 \<le> ?ny" by (rule grid_count_facts(1) [OF q])
  then have l: "[0..?ny - 1] = map int [0..<nat ?ny]" by (simp add: map_int_upt)
  let ?st = "\<lparr>pst_cols = map_span 0 0 (5 * col_row img) (\<lambda>_ _. f32_zero) cols, pst_best = best, pst_ring = ring, pst_out = out, pst_next = 0\<rparr>"
  have "row_end img q 0 = 0" using ny q by (simp add: row_end_def grid_pos_min [OF q(1)])
  then have "run_ok F E img q os 0 ?st" using best by (auto simp: run_ok_def)
  from run_rows_ok [OF ok os this, of "nat ?ny"]
  show ?thesis using ny assms(4-) unfolding pnlm_run_def Let_def l run_ok_def by (simp add: row_end_def)
qed

lemma layout_block: "pi_block img = 4 \<or> pi_block img = 6 \<or> pi_block img = 8 \<Longrightarrow> pnlm_denoise F E lanes img os n cols best ring out = Inr r \<Longrightarrow>
    r = pnlm_run F E lanes img (pi_block img div 2) os cols best ring out \<and>
    pi_block img \<le> pi_width img \<and> pi_block img \<le> pi_height img \<and> pi_width img \<le> kPnlmMaxSide \<and> pi_height img \<le> kPnlmMaxSide \<and>
    1 \<le> pi_frames img \<and> pi_frames img \<le> 2 * kPnlmMaxD + 1 \<and> 0 \<le> pi_center img \<and> pi_center img < pi_frames img \<and>
    2 \<le> pi_group img \<and> pi_group img \<le> kPnlmMaxGroup \<and> 1 \<le> pi_a img"
  unfolding pnlm_denoise_def by (auto split: if_splits)

lemma denoise_image_ok:
  assumes "pnlm_denoise F E lanes img os n cols best ring out = Inr r" "1 \<le> lanes" "lanes \<le> kPad"
  shows "image_ok img (pi_block img div 2) lanes \<and> r = pnlm_run F E lanes img (pi_block img div 2) os cols best ring out"
proof -
  have b: "pi_block img = 4 \<or> pi_block img = 6 \<or> pi_block img = 8" using assms(1) unfolding pnlm_denoise_def by (auto split: if_splits)
  then show ?thesis using layout_block [OF b assms(1)] assms(2,3) by (auto simp: image_ok_def)
qed

text \<open>
  C3. When PNLM's plane filter returns, every pixel of the output is the tent-weighted mean
  of the estimates of all the reference patches that cover it, each computed from the best
  candidates of the whole window, in the order of the grid: the ring of four grid rows never
  loses an estimate a row still needs, rows are gathered only when complete, the lookup of
  covers misses no reference, and the work buffer's contents do not matter.
\<close>

theorem pnlm_plane_exact:
  assumes "pnlm_denoise F E lanes img os n cols best ring out = Inr r" "1 \<le> lanes" "lanes \<le> kPad" "pi_width img \<le> os"
    and "best_shape img (pi_block img div 2) best" "0 \<le> y" "y < pi_height img" "0 \<le> x" "x < pi_width img"
  shows "r (y * os + x) = gathered F img (pi_block img div 2) (grid_estimate F E img (pi_block img div 2)) y x"
  using denoise_image_ok [OF assms(1-3)] pnlm_run_pixels [OF _ assms(4-)] by simp

theorem pnlm_plane_exact_witness:
  "\<exists>r. pnlm_denoise example_arith \<lparr>f_rint = (\<lambda>v. v), f_to_int = sint\<rparr> 4 example_image 4 2000 (\<lambda>_. 0) [([0, 0], 0)] (\<lambda>_. 0) (\<lambda>_. 0) = Inr r \<and>
    r 5 = gathered example_arith example_image 2 (grid_estimate example_arith \<lparr>f_rint = (\<lambda>v. v), f_to_int = sint\<rparr> example_image 2) 1 1"
proof -
  let ?E = "\<lparr>f_rint = (\<lambda>v. v), f_to_int = sint\<rparr> :: fexp"
  have g: "pnlm_grid_count 4 4 = 1" by (simp add: pnlm_grid_count_def cdiv_def Let_def)
  have l: "la_total (pnlm_layout_of 4 4) \<le> 2000"
    by (simp add: pnlm_layout_of_def g align16_def kRing_def kPad_def kPnlmMaxGroup_def Let_def)
  have s: "f32_lt f32_zero f32_one" by (simp add: f32_lt_def f32_key_def f32_mag_def f32_neg_def f32_zero_def f32_one_def f32_nan_def)
  obtain r where r: "pnlm_denoise example_arith ?E 4 example_image 4 2000 (\<lambda>_. 0) [([0, 0], 0)] (\<lambda>_. 0) (\<lambda>_. 0) = Inr r"
    using l s by (simp add: pnlm_denoise_def example_image_def kPnlmMaxSide_def kPnlmMaxD_def kPnlmMaxGroup_def)
  have shape: "best_shape example_image (pi_block example_image div 2) [([0, 0], 0)]"
    by (simp add: best_shape_def example_image_def g)
  have "r (1 * 4 + 1) = gathered example_arith example_image (pi_block example_image div 2)
      (grid_estimate example_arith ?E example_image (pi_block example_image div 2)) 1 1"
    by (rule pnlm_plane_exact [OF r _ _ _ shape]) (simp_all add: kPad_def example_image_def)
  moreover have "pi_block example_image div 2 = 2" by (simp add: example_image_def)
  ultimately show ?thesis using r by simp
qed

end
