(* ===== verification/Bm3d_Nodes.thy ===== *)
theory Bm3d_Nodes
  imports Bm3d_Args
begin

text \<open>
  BM3D with \<open>final=1\<close> (\<open>bm3d_two_nodes\<close> of src/frontend/bm3d_args.cpp): the call becomes two
  calls of the plugin itself, a basic stage on the clip and a final stage with the basic
  clip as its reference. The argument maps of both are built by editing a copy of the
  call's map; the theorem shows that the parser, run again on them, accepts and finds the
  parameters the first run had resolved.
\<close>

subsection \<open>Editing an argument map\<close>

text \<open>
  \<open>mapDeleteKey\<close>, \<open>mapSetFloat\<close> and \<open>mapSetInt\<close> with \<open>maAppend\<close>, \<open>mapSetData\<close> with
  \<open>maReplace\<close>. A value appended to a key of another type is refused by the API and leaves
  the map unchanged.
\<close>

definition delete_key :: "string \<Rightarrow> vsmap \<Rightarrow> vsmap" where
  "delete_key key m =
     m\<lparr>vm_keys := removeAll key (vm_keys m), vm_type := (vm_type m)(key := Pt_other), vm_count := (vm_count m)(key := - 1),
       vm_int := (vm_int m)(key := \<lambda>_. None), vm_float := (vm_float m)(key := \<lambda>_. None), vm_data := (vm_data m)(key := \<lambda>_. None)\<rparr>"

definition append_float :: "string \<Rightarrow> f64 \<Rightarrow> vsmap \<Rightarrow> vsmap" where
  "append_float key v m =
     (if vm_count m key < 0
      then m\<lparr>vm_keys := vm_keys m @ [key], vm_type := (vm_type m)(key := Pt_float), vm_count := (vm_count m)(key := 1),
             vm_float := (vm_float m)(key := (\<lambda>_. None)(0 := Some v))\<rparr>
      else if vm_type m key \<noteq> Pt_float then m
      else m\<lparr>vm_count := (vm_count m)(key := vm_count m key + 1),
             vm_float := (vm_float m)(key := (vm_float m key)(vm_count m key := Some v))\<rparr>)"

definition append_int :: "string \<Rightarrow> int \<Rightarrow> vsmap \<Rightarrow> vsmap" where
  "append_int key v m =
     (if vm_count m key < 0
      then m\<lparr>vm_keys := vm_keys m @ [key], vm_type := (vm_type m)(key := Pt_int), vm_count := (vm_count m)(key := 1),
             vm_int := (vm_int m)(key := (\<lambda>_. None)(0 := Some v))\<rparr>
      else if vm_type m key \<noteq> Pt_int then m
      else m\<lparr>vm_count := (vm_count m)(key := vm_count m key + 1),
             vm_int := (vm_int m)(key := (vm_int m key)(vm_count m key := Some v))\<rparr>)"

definition replace_data :: "string \<Rightarrow> string \<Rightarrow> vsmap \<Rightarrow> vsmap" where
  "replace_data key v m =
     (let m = delete_key key m
      in m\<lparr>vm_keys := vm_keys m @ [key], vm_count := (vm_count m)(key := 1), vm_data := (vm_data m)(key := (\<lambda>_. None)(0 := Some v))\<rparr>)"

subsection \<open>The two calls\<close>

definition one_stage_args :: "vsmap \<Rightarrow> vsmap" where
  "one_stage_args m = fold delete_key [''final'', ''sigma_basic'', ''block_size_basic'', ''group_size_basic''] m"

definition take_basic :: "vsmap \<Rightarrow> string \<Rightarrow> vsmap \<Rightarrow> vsmap" where
  "take_basic m name basic =
     (let src = name @ ''_basic''; n = vm_count m src
      in if n \<le> 0 then basic
         else fold (\<lambda>i. if name = ''sigma'' then append_float name (get_float m src i) else append_int name (get_int m src i))
                [0..n - 1] (delete_key name basic))"

definition basic_args :: "vsmap \<Rightarrow> vsmap" where
  "basic_args m =
     (let basic = fold (take_basic m) [''sigma'', ''block_size'', ''group_size''] (one_stage_args m)
      in if map_int m ''radius'' 0 > 0 then replace_data ''temporal_mode'' ''rolling'' basic else basic)"

text \<open>
  \<open>plugin\<close> is \<open>None\<close> when the plugin is not found, else its BM3D function: it takes the
  arguments with the reference clip, if there is one, and leaves a clip or an error.
\<close>

definition invoke_stage :: "(vsmap \<Rightarrow> 'node option \<Rightarrow> string + 'node) \<Rightarrow> string \<Rightarrow> string \<Rightarrow> vsmap \<Rightarrow> 'node option \<Rightarrow> 'node res" where
  "invoke_stage bm3d ns stage m ref =
     (case bm3d m ref of
        Inl error \<Rightarrow> Inl (Runtime_error (ns @ ''.BM3D: the '' @ stage @ '' stage failed: '' @ error))
      | Inr node \<Rightarrow> Inr node)"

definition bm3d_two_nodes :: "(vsmap \<Rightarrow> 'node option \<Rightarrow> string + 'node) option \<Rightarrow> string \<Rightarrow> vsmap \<Rightarrow> 'node res" where
  "bm3d_two_nodes plugin ns m =
     (case plugin of
        None \<Rightarrow> fail ns ''BM3D'' ''final could not find the plugin''
      | Some bm3d \<Rightarrow>
          bindE (invoke_stage bm3d ns ''basic'' (basic_args m) None) (\<lambda>estimate.
            invoke_stage bm3d ns ''final'' (one_stage_args m) (Some estimate)))"

subsection \<open>What the edits leave\<close>

lemma delete_key_other:
  "k \<noteq> key \<Longrightarrow> vm_count (delete_key key m) k = vm_count m k" "k \<noteq> key \<Longrightarrow> vm_int (delete_key key m) k = vm_int m k"
  "k \<noteq> key \<Longrightarrow> vm_float (delete_key key m) k = vm_float m k" "k \<noteq> key \<Longrightarrow> vm_data (delete_key key m) k = vm_data m k"
  by (simp_all add: delete_key_def)

lemma delete_key_gone: "vm_count (delete_key key m) key = - 1" "vm_int (delete_key key m) key = (\<lambda>_. None)"
  by (simp_all add: delete_key_def)

lemma append_other:
  assumes "k \<noteq> key"
  shows "vm_count (append_float key v m) k = vm_count m k \<and> vm_int (append_float key v m) k = vm_int m k \<and>
    vm_float (append_float key v m) k = vm_float m k"
    "vm_count (append_int key w m) k = vm_count m k \<and> vm_int (append_int key w m) k = vm_int m k \<and>
    vm_float (append_int key w m) k = vm_float m k"
  using assms by (auto simp: append_float_def append_int_def)

lemma append_floats:
  "let r = fold (\<lambda>i. append_float key (g i)) [0..int n - 1] (delete_key key m)
   in vm_count r key = (if n = 0 then - 1 else int n) \<and> (n \<noteq> 0 \<longrightarrow> vm_type r key = Pt_float) \<and>
     (\<forall>i. 0 \<le> i \<and> i < int n \<longrightarrow> vm_float r key i = Some (g i)) \<and>
     (\<forall>k. k \<noteq> key \<longrightarrow> vm_count r k = vm_count m k \<and> vm_int r k = vm_int m k \<and> vm_float r k = vm_float m k)"
proof (induction n)
  case 0
  then show ?case by (auto simp: delete_key_other delete_key_gone Let_def)
next
  case (Suc n)
  have l: "[0..int (Suc n) - 1] = [0..int n - 1] @ [int n]" by (simp add: upto_rec2)
  have one: "i = 0" if "0 \<le> i" "i < 1" for i :: int using that by simp
  show ?case using Suc l by (cases "n = 0") (auto simp: append_float_def Let_def delete_key_gone dest: one)
qed

lemma append_ints:
  "let r = fold (\<lambda>i. append_int key (g i)) [0..int n - 1] (delete_key key m)
   in vm_count r key = (if n = 0 then - 1 else int n) \<and> (n \<noteq> 0 \<longrightarrow> vm_type r key = Pt_int) \<and>
     (\<forall>i. 0 \<le> i \<and> i < int n \<longrightarrow> vm_int r key i = Some (g i)) \<and>
     (\<forall>k. k \<noteq> key \<longrightarrow> vm_count r k = vm_count m k \<and> vm_int r k = vm_int m k \<and> vm_float r k = vm_float m k)"
proof (induction n)
  case 0
  then show ?case by (auto simp: delete_key_other delete_key_gone Let_def)
next
  case (Suc n)
  have l: "[0..int (Suc n) - 1] = [0..int n - 1] @ [int n]" by (simp add: upto_rec2)
  have one: "i = 0" if "0 \<le> i" "i < 1" for i :: int using that by simp
  show ?case using Suc l by (cases "n = 0") (auto simp: append_int_def Let_def delete_key_gone dest: one)
qed

text \<open>The values of a key agree with those of a key of another map.\<close>

definition same_floats :: "vsmap \<Rightarrow> string \<Rightarrow> vsmap \<Rightarrow> string \<Rightarrow> bool" where
  "same_floats a k b l \<longleftrightarrow> vm_count a k = vm_count b l \<and> (\<forall>i. 0 \<le> i \<and> i < vm_count b l \<longrightarrow> vm_float a k i = vm_float b l i)"

definition same_ints :: "vsmap \<Rightarrow> string \<Rightarrow> vsmap \<Rightarrow> string \<Rightarrow> bool" where
  "same_ints a k b l \<longleftrightarrow> vm_count a k = vm_count b l \<and> (\<forall>i. 0 \<le> i \<and> i < vm_count b l \<longrightarrow> vm_int a k i = vm_int b l i)"

definition untouched :: "string set \<Rightarrow> vsmap \<Rightarrow> vsmap \<Rightarrow> bool" where
  "untouched K a b \<longleftrightarrow> (\<forall>k. k \<notin> K \<longrightarrow> vm_count a k = vm_count b k \<and> vm_int a k = vm_int b k \<and> vm_float a k = vm_float b k)"

lemma read_floats:
  assumes "same_floats a k b l"
  shows "map_float_array F a k out n d = map_float_array F b l out n d"
  using assms unfolding map_float_array_def same_floats_def Let_def
  by (auto simp: array_index_def intro!: arg_cong2 [where f = append] map_cong split: option.splits)

lemma read_ints:
  assumes "same_ints a k b l"
  shows "map_int_array a k out n d = map_int_array b l out n d" "map_inherit_int a k out n d = map_inherit_int b l out n d"
    "map_adaptive a k iout np d limit = map_adaptive b l iout np d limit"
proof -
  have c: "vm_count a k = vm_count b l" and v: "\<And>i. 0 \<le> i \<Longrightarrow> i < vm_count b l \<Longrightarrow> vm_int a k i = vm_int b l i"
    using assms by (simp_all add: same_ints_def)
  have inh: "inherit_from a k given d p is = inherit_from b l given d p is"
    if "given \<le> vm_count b l" "\<forall>i \<in> set is. 0 \<le> i" for given d p "is"
    using that by (induction "is" arbitrary: p) (simp_all add: v Let_def)
  show i: "map_inherit_int a k out n d = map_inherit_int b l out n d" for out n d
    unfolding map_inherit_int_def Let_def c using inh [of "vm_count b l" "[0..n - 1]"] by simp
  show "map_int_array a k out n d = map_int_array b l out n d"
    unfolding map_int_array_def Let_def c using v
    by (auto simp: array_index_def intro!: arg_cong2 [where f = append] map_cong split: option.splits)
  show "map_adaptive a k iout np d limit = map_adaptive b l iout np d limit" by (simp add: map_adaptive_def c i)
qed

lemma untouched_refl: "untouched K m m"
  by (simp add: untouched_def)

lemma untouched_trans: "untouched K a b \<Longrightarrow> untouched L b c \<Longrightarrow> untouched (K \<union> L) a c"
  by (simp add: untouched_def)

lemma untouched_same:
  assumes "untouched K a b" "k \<notin> K"
  shows "same_floats a k b k" "same_ints a k b k" "map_int a k d = map_int b k d"
  using assms by (simp_all add: untouched_def same_floats_def same_ints_def map_int_def)

lemma delete_key_untouched: "untouched {key} (delete_key key m) m"
  by (simp add: untouched_def delete_key_other)

lemma one_stage_facts:
  "untouched {''final'', ''sigma_basic'', ''block_size_basic'', ''group_size_basic''} (one_stage_args m) m"
  "vm_int (one_stage_args m) ''final'' = (\<lambda>_. None)"
  "vm_count (one_stage_args m) ''sigma_basic'' = - 1" "vm_count (one_stage_args m) ''block_size_basic'' = - 1"
  "vm_count (one_stage_args m) ''group_size_basic'' = - 1"
  by (simp_all add: one_stage_args_def untouched_def delete_key_def)

definition readable :: "vsmap \<Rightarrow> bool" where
  "readable m \<longleftrightarrow> (\<forall>i. 0 \<le> i \<and> i < vm_count m ''sigma_basic'' \<longrightarrow> vm_float m ''sigma_basic'' i \<noteq> None) \<and>
     (\<forall>key \<in> {''block_size_basic'', ''group_size_basic''}. \<forall>i. 0 \<le> i \<and> i < vm_count m key \<longrightarrow> vm_int m key i \<noteq> None)"

lemma take_basic_untouched: "untouched {name} (take_basic m name b) b"
proof (cases "vm_count m (name @ ''_basic'') \<le> 0")
  case True
  then show ?thesis by (simp add: take_basic_def Let_def untouched_def)
next
  case False
  let ?s = "name @ ''_basic''"
  have n: "int (nat (vm_count m ?s)) = vm_count m ?s" using False by simp
  show ?thesis
    using False append_floats [of name "get_float m ?s" "nat (vm_count m ?s)" b, unfolded n]
      append_ints [of name "get_int m ?s" "nat (vm_count m ?s)" b, unfolded n]
    by (cases "name = ''sigma''") (simp_all add: take_basic_def Let_def untouched_def)
qed

lemma take_basic_values:
  assumes "0 < vm_count m (name @ ''_basic'')"
  shows "name = ''sigma'' \<Longrightarrow> \<forall>i. 0 \<le> i \<and> i < vm_count m (name @ ''_basic'') \<longrightarrow> vm_float m (name @ ''_basic'') i \<noteq> None \<Longrightarrow>
      same_floats (take_basic m name b) name m (name @ ''_basic'')"
    "name \<noteq> ''sigma'' \<Longrightarrow> \<forall>i. 0 \<le> i \<and> i < vm_count m (name @ ''_basic'') \<longrightarrow> vm_int m (name @ ''_basic'') i \<noteq> None \<Longrightarrow>
      same_ints (take_basic m name b) name m (name @ ''_basic'')"
proof -
  let ?s = "name @ ''_basic''"
  have n: "int (nat (vm_count m ?s)) = vm_count m ?s" "nat (vm_count m ?s) \<noteq> 0" using assms by simp_all
  show "same_floats (take_basic m name b) name m ?s"
    if "name = ''sigma''" "\<forall>i. 0 \<le> i \<and> i < vm_count m ?s \<longrightarrow> vm_float m ?s i \<noteq> None"
    using assms that n(2) append_floats [of name "get_float m ?s" "nat (vm_count m ?s)" b, unfolded n(1)]
    by (auto simp: take_basic_def Let_def same_floats_def get_float_def split: option.splits)
  show "same_ints (take_basic m name b) name m ?s"
    if "name \<noteq> ''sigma''" "\<forall>i. 0 \<le> i \<and> i < vm_count m ?s \<longrightarrow> vm_int m ?s i \<noteq> None"
    using assms that n(2) append_ints [of name "get_int m ?s" "nat (vm_count m ?s)" b, unfolded n(1)]
    by (auto simp: take_basic_def Let_def same_ints_def get_int_def split: option.splits)
qed

text \<open>The map of the basic stage: the basic values where they are given, the call's elsewhere.\<close>

lemma basic_args_facts:
  assumes "readable m"
  shows "untouched {''final'', ''sigma_basic'', ''block_size_basic'', ''group_size_basic'', ''sigma'', ''block_size'', ''group_size'',
      ''temporal_mode''} (basic_args m) m"
    "vm_int (basic_args m) ''final'' = (\<lambda>_. None)"
    "vm_count (basic_args m) ''sigma_basic'' = - 1" "vm_count (basic_args m) ''block_size_basic'' = - 1"
    "vm_count (basic_args m) ''group_size_basic'' = - 1"
    "same_floats (basic_args m) ''sigma'' m (if 0 < vm_count m ''sigma_basic'' then ''sigma_basic'' else ''sigma'')"
    "same_ints (basic_args m) ''block_size'' m (if 0 < vm_count m ''block_size_basic'' then ''block_size_basic'' else ''block_size'')"
    "same_ints (basic_args m) ''group_size'' m (if 0 < vm_count m ''group_size_basic'' then ''group_size_basic'' else ''group_size'')"
proof -
  let ?o = "one_stage_args m"
  let ?s = "take_basic m ''sigma'' ?o" let ?b = "take_basic m ''block_size'' ?s" let ?g = "take_basic m ''group_size'' ?b"
  note u = take_basic_untouched [of "''sigma''" m ?o] take_basic_untouched [of "''block_size''" m ?s]
    take_basic_untouched [of "''group_size''" m ?b]
  have r: "untouched {''temporal_mode''} (replace_data ''temporal_mode'' ''rolling'' a) a" for a
    by (simp add: replace_data_def Let_def untouched_def delete_key_other)
  have e: "basic_args m = (if map_int m ''radius'' 0 > 0 then replace_data ''temporal_mode'' ''rolling'' ?g else ?g)"
    by (simp add: basic_args_def Let_def)
  have t: "untouched {''temporal_mode''} (basic_args m) ?g" unfolding e using r [of ?g] by (simp add: untouched_def)
  note o = one_stage_facts [of m]
  show "untouched {''final'', ''sigma_basic'', ''block_size_basic'', ''group_size_basic'', ''sigma'', ''block_size'', ''group_size'',
      ''temporal_mode''} (basic_args m) m"
    using t u o(1) by (simp add: untouched_def)
  show "vm_int (basic_args m) ''final'' = (\<lambda>_. None)"
    "vm_count (basic_args m) ''sigma_basic'' = - 1" "vm_count (basic_args m) ''block_size_basic'' = - 1"
    "vm_count (basic_args m) ''group_size_basic'' = - 1"
    using t u o by (simp_all add: untouched_def)
  have not: "take_basic m name b = b" if "\<not> 0 < vm_count m (name @ ''_basic'')" for name b
    using that by (simp add: take_basic_def Let_def)
  show "same_floats (basic_args m) ''sigma'' m (if 0 < vm_count m ''sigma_basic'' then ''sigma_basic'' else ''sigma'')"
  proof (cases "0 < vm_count m ''sigma_basic''")
    case True
    then have "same_floats ?s ''sigma'' m ''sigma_basic''"
      using take_basic_values(1) [of m "''sigma''" ?o] assms by (simp add: readable_def)
    then show ?thesis using True t u(2,3) by (simp add: untouched_def same_floats_def)
  next
    case False
    then have "?s = ?o" using not [of "''sigma''" ?o] by simp
    then show ?thesis using False t u(2,3) o(1) by (simp add: untouched_def same_floats_def)
  qed
  show "same_ints (basic_args m) ''block_size'' m (if 0 < vm_count m ''block_size_basic'' then ''block_size_basic'' else ''block_size'')"
  proof (cases "0 < vm_count m ''block_size_basic''")
    case True
    then have "same_ints ?b ''block_size'' m ''block_size_basic''"
      using take_basic_values(2) [of m "''block_size''" ?s] assms by (simp add: readable_def)
    then show ?thesis using True t u(3) by (simp add: untouched_def same_ints_def)
  next
    case False
    then have "?b = ?s" using not [of "''block_size''" ?s] by simp
    then show ?thesis using False t u o(1) by (simp add: untouched_def same_ints_def)
  qed
  show "same_ints (basic_args m) ''group_size'' m (if 0 < vm_count m ''group_size_basic'' then ''group_size_basic'' else ''group_size'')"
  proof (cases "0 < vm_count m ''group_size_basic''")
    case True
    then have "same_ints ?g ''group_size'' m ''group_size_basic''"
      using take_basic_values(2) [of m "''group_size''" ?b] assms by (simp add: readable_def)
    then show ?thesis using True t by (simp add: untouched_def same_ints_def)
  next
    case False
    then have "?g = ?b" using not [of "''group_size''" ?b] by simp
    then show ?thesis using False t u o(1) by (simp add: untouched_def same_ints_def)
  qed
qed

subsection \<open>The parser, run forwards\<close>

definition spread_shapes :: "nat \<Rightarrow> bm3d_params \<Rightarrow> bm3d_params" where
  "spread_shapes np p = p\<lparr>bp_block := spread np (bp_block p), bp_group := spread np (bp_group p), bp_step := spread np (bp_step p),
     bp_range := spread np (bp_range p), bp_ps_num := spread np (bp_ps_num p), bp_ps_range := spread np (bp_ps_range p)\<rparr>"

definition call_shapes :: "vsmap \<Rightarrow> nat \<Rightarrow> bool \<Rightarrow> bm3d_params" where
  "call_shapes m np chroma =
     (let p = read_shapes m np default_bm3d_params in if chroma then spread_shapes np p else p)"

definition shapes_agree :: "bm3d_params \<Rightarrow> bm3d_params \<Rightarrow> bool" where
  "shapes_agree p q \<longleftrightarrow> bp_block p = bp_block q \<and> bp_group p = bp_group q \<and> bp_step p = bp_step q \<and> bp_range p = bp_range q \<and>
     bp_ps_num p = bp_ps_num q \<and> bp_ps_range p = bp_ps_range q"

lemma shapes_agree_ok: "shapes_agree p q \<Longrightarrow> bm3d_plane_ok vi p i \<longleftrightarrow> bm3d_plane_ok vi q i"
  by (simp add: shapes_agree_def bm3d_plane_ok_def)

lemma lengths_read:
  assumes "np \<le> 3"
  shows "length (bp_block (read_shapes m np default_bm3d_params)) = 3" "length (bp_group (read_shapes m np default_bm3d_params)) = 3"
    "length (bp_step (read_shapes m np default_bm3d_params)) = 3" "length (bp_range (read_shapes m np default_bm3d_params)) = 3"
    "length (bp_ps_num (read_shapes m np default_bm3d_params)) = 3" "length (bp_ps_range (read_shapes m np default_bm3d_params)) = 3"
  using assms
  by (auto simp: read_shapes_def Let_def default_bm3d_params_def map_adaptive_def length_map_inherit length_map_array)

lemma call_shapes_at:
  fixes m :: vsmap
  assumes "np \<le> 3" "i < np"
  defines "raw \<equiv> read_shapes m np default_bm3d_params" and "j \<equiv> \<lambda>chroma. if chroma then 0 else i"
  shows "bp_block (call_shapes m np c) ! i = bp_block raw ! j c" "bp_group (call_shapes m np c) ! i = bp_group raw ! j c"
    "bp_step (call_shapes m np c) ! i = bp_step raw ! j c" "bp_range (call_shapes m np c) ! i = bp_range raw ! j c"
    "bp_ps_num (call_shapes m np c) ! i = bp_ps_num raw ! j c" "bp_ps_range (call_shapes m np c) ! i = bp_ps_range raw ! j c"
proof -
  have s: "length xs = 3 \<Longrightarrow> spread np xs ! i = xs ! 0" for xs :: "int list" using spread_spec [of np xs i] assms(1,2) by simp
  note l = lengths_read [OF assms(1), of m, folded raw_def]
  show "bp_block (call_shapes m np c) ! i = bp_block raw ! j c" "bp_group (call_shapes m np c) ! i = bp_group raw ! j c"
    "bp_step (call_shapes m np c) ! i = bp_step raw ! j c" "bp_range (call_shapes m np c) ! i = bp_range raw ! j c"
    "bp_ps_num (call_shapes m np c) ! i = bp_ps_num raw ! j c" "bp_ps_range (call_shapes m np c) ! i = bp_ps_range raw ! j c"
    unfolding call_shapes_def Let_def raw_def [symmetric] j_def by (auto simp: spread_shapes_def s l)
qed

lemma sigma_steps:
  assumes "\<forall>i \<in> set is. i < length s \<and> \<not> sigma_invalid (s ! i)" "distinct is"
  shows "\<exists>t. foldE (sigma_step F ns) is s = Inr t"
  using assms
proof (induction "is" arbitrary: s)
  case Nil
  then show ?case by simp
next
  case (Cons i "is")
  let ?s = "s[i := effective_or_zero F (s ! i)]"
  have "\<forall>j \<in> set is. j < length ?s \<and> \<not> sigma_invalid (?s ! j)" using Cons.prems by (auto simp: nth_list_update)
  from Cons.IH [OF this] Cons.prems show ?case by (auto simp: sigma_step_def)
qed

lemma check_planes_Inr:
  assumes "\<forall>i < nat (vi_planes vi). bm3d_plane_ok vi p i"
  shows "check_planes vi ns p = Inr ()"
proof -
  have "\<forall>i \<in> set is. bm3d_plane_ok vi p i \<Longrightarrow> foldE (check_plane vi ns p) is () = Inr ()" for "is"
  proof (induction "is")
    case (Cons i "is")
    then have "check_plane vi ns p i () = Inr ()" using check_plane_iff [of vi ns p i "()" "()"] by simp
    then show ?case using Cons by simp
  qed simp
  then show ?thesis using assms by (simp add: check_planes_def)
qed

lemma parse_bm3d_forward:
  fixes F :: farith and m :: vsmap
  assumes np: "nat (vi_planes vi) \<le> 3"
  defines "np \<equiv> nat (vi_planes vi)"
  defines "given \<equiv> map_float_array F m ''sigma'' (replicate 3 kBmDefaultSigma) (int np) kBmDefaultSigma"
    and "chroma \<equiv> map_int m ''chroma'' 0"
  assumes vi: "is_const_32f h vi" and ref: "\<And>r. ref_vi = Some r \<Longrightarrow> same_video h vi r"
    and sigma: "\<And>i. i < np \<Longrightarrow> \<not> sigma_invalid (given ! i)"
    and radius: "0 \<le> map_int m ''radius'' 0" "map_int m ''radius'' 0 \<le> kBmMaxRadius"
    and ch: "chroma = 0 \<or> chroma = 1 \<and> vi_family vi = Cf_yuv \<and> vi_ss_w vi = 0 \<and> vi_ss_h vi = 0"
    and final: "map_int m ''final'' 0 = 0" "vm_count m ''sigma_basic'' \<le> 0" "vm_count m ''block_size_basic'' \<le> 0"
      "vm_count m ''group_size_basic'' \<le> 0"
    and planes: "\<And>i. i < np \<Longrightarrow> bm3d_plane_ok vi (call_shapes m np (chroma \<noteq> 0)) i"
  shows "\<exists>q. parse_bm3d h F m vi ref_vi ns = Inr q \<and> shapes_agree q (call_shapes m np (chroma \<noteq> 0)) \<and> \<not> bp_final q \<and>
    (bp_chroma q \<longleftrightarrow> chroma \<noteq> 0) \<and> bp_radius q = map_int m ''radius'' 0 \<and>
    (\<forall>i < np. bp_sigma q ! i = effective_or_zero F (given ! i))"
proof -
  have np3: "np \<le> 3" using np by (simp add: np_def)
  have len: "length given = 3" using np3 by (simp add: given_def length_map_array)
  have "\<forall>i \<in> set [0..<np]. i < length given \<and> \<not> sigma_invalid (given ! i)" using sigma len np3 by auto
  from sigma_steps [OF this distinct_upt, of F ns] obtain sg where sg: "foldE (sigma_step F ns) [0..<np] given = Inr sg" by blast
  have ps: "parse_sigma F m np ns default_bm3d_params = Inr (given, default_bm3d_params\<lparr>bp_sigma := sg\<rparr>)"
    using sg by (simp add: parse_sigma_def Let_def default_bm3d_params_def given_def)
  have l3: "length (bp_sigma default_bm3d_params) = 3" by (simp add: default_bm3d_params_def)
  obtain sg' where "default_bm3d_params\<lparr>bp_sigma := sg\<rparr> = default_bm3d_params\<lparr>bp_sigma := sg'\<rparr>"
    and v': "\<forall>i < np. sg' ! i = effective_or_zero F (given ! i)"
    using parse_sigma_ok [OF ps l3 np3] by blast
  then have "sg = sg'" by (drule_tac f = bp_sigma in arg_cong) simp
  with v' have sv: "\<forall>i < np. sg ! i = effective_or_zero F (given ! i)" by simp
  let ?r = "read_shapes m np (default_bm3d_params\<lparr>bp_sigma := sg\<rparr>)"
  have rr: "bp_radius ?r = map_int m ''radius'' 0" by (simp add: read_shapes_def Let_def)
  have rd: "?r = (read_shapes m np default_bm3d_params)\<lparr>bp_sigma := sg\<rparr>" by (simp add: read_shapes_def Let_def)
  let ?q = "(call_shapes m np (chroma \<noteq> 0))\<lparr>bp_sigma := sg, bp_chroma := chroma \<noteq> 0\<rparr>"
  have pc: "parse_chroma m vi ns ?r = Inr ?q"
    using ch unfolding rd parse_chroma_def Let_def chroma_def [symmetric] np_def [symmetric] call_shapes_def spread_shapes_def
    by auto
  let ?p = "?q\<lparr>bp_final := False\<rparr>"
  have pf: "parse_final F m vi ref_vi ns given ?q = Inr ?p" using final by (simp add: parse_final_def Let_def)
  have "\<forall>i < nat (vi_planes vi). bm3d_plane_ok vi ?p i" using planes by (simp add: np_def bm3d_plane_ok_def)
  then have ck: "check_planes vi ns ?p = Inr ()" by (rule check_planes_Inr)
  have "\<not> (case ref_vi of None \<Rightarrow> False | Some r \<Rightarrow> \<not> same_video h vi r)" using ref by (auto split: option.splits)
  then have "parse_bm3d h F m vi ref_vi ns = Inr ?p"
    using vi ps radius pc pf ck unfolding parse_bm3d_def Let_def np_def [symmetric] by (simp add: rr)
  moreover have "bp_radius ?p = map_int m ''radius'' 0"
    by (simp add: call_shapes_def spread_shapes_def read_shapes_def Let_def)
  ultimately show ?thesis using sv by (intro exI [of _ ?p]) (simp add: shapes_agree_def)
qed

subsection \<open>What the first run resolved\<close>

text \<open>The basic values of a plane are those of the lists, of plane 0 under \<open>chroma\<close>.\<close>

definition basic_blocks :: "vsmap \<Rightarrow> nat \<Rightarrow> bm3d_params \<Rightarrow> int list" where
  "basic_blocks m np p =
     (let blocks = copy_first np (bp_block p) (bp_block_basic p)
      in if 0 < vm_count m ''block_size_basic'' then map_inherit_int m ''block_size_basic'' blocks (int np) kBmBlock else blocks)"

definition basic_groups :: "vsmap \<Rightarrow> nat \<Rightarrow> bm3d_params \<Rightarrow> int list" where
  "basic_groups m np p =
     (let groups = copy_first np (bp_group p) (bp_group_basic p)
      in if 0 < vm_count m ''group_size_basic'' then map_inherit_int m ''group_size_basic'' groups (int np) kBmGroup else groups)"

lemma basic_stage_values:
  assumes "parse_basic_stage F m vi ns sb (0 < vm_count m ''block_size_basic'') (0 < vm_count m ''group_size_basic'') g p = Inr q"
    and len: "basic_lengths p" "length (bp_block p) = 3" "length (bp_group p) = 3" and np: "nat (vi_planes vi) \<le> 3"
    and i: "i < nat (vi_planes vi)"
  shows "bp_block_basic q ! i = basic_blocks m (nat (vi_planes vi)) p ! (if bp_chroma p then 0 else i)"
    "bp_group_basic q ! i = basic_groups m (nat (vi_planes vi)) p ! (if bp_chroma p then 0 else i)"
proof -
  let ?np = "nat (vi_planes vi)" let ?B = "basic_blocks m ?np p" and ?G = "basic_groups m ?np p"
  let ?p = "p\<lparr>bp_block_basic := ?B, bp_group_basic := ?G\<rparr>"
  obtain g' sg pg where run: "foldE (basic_plane F vi ns g' sg pg) [0..<?np] ?p = Inr q"
    using assms(1) unfolding parse_basic_stage_def Let_def basic_blocks_def basic_groups_def by blast
  let ?v = "\<lambda>A X j. if j \<in> A \<and> bp_chroma p then X ! 0 else X ! j"
  let ?P = "\<lambda>A s. A \<subseteq> set [0..<?np] \<and> bp_chroma s = bp_chroma p \<and> length (bp_block_basic s) = 3 \<and> length (bp_group_basic s) = 3 \<and>
    (\<forall>j < 3. bp_block_basic s ! j = ?v A ?B j \<and> bp_group_basic s ! j = ?v A ?G j)"
  have "?P (set [0..<?np]) q"
  proof (rule foldE_invariant [where P = ?P, OF run])
    show "?P {} ?p"
      using len np by (auto simp: basic_blocks_def basic_groups_def Let_def basic_lengths_def copy_first_def length_map_inherit)
  next
    fix x A s s'
    assume x: "x \<in> set [0..<?np]" and P: "?P A s" and st: "basic_plane F vi ns g' sg pg x s = Inr s'"
    have x3: "x < 3" using x np by simp
    note b = basic_plane_Inr [OF st]
    have bl: "bp_block_basic s' = (bp_block_basic s)[x := bp_block_basic s ! (if bp_chroma s then 0 else x)]"
      "bp_group_basic s' = (bp_group_basic s)[x := bp_group_basic s ! (if bp_chroma s then 0 else x)]" "bp_chroma s' = bp_chroma s"
      using b by simp_all
    have z: "bp_block_basic s ! 0 = ?B ! 0" "bp_group_basic s ! 0 = ?G ! 0"
      using P by (auto split: if_splits)
    show "?P (insert x A) s'" using P x x3 z bl by (auto simp: nth_list_update)
  qed
  then show "bp_block_basic q ! i = ?B ! (if bp_chroma p then 0 else i)" "bp_group_basic q ! i = ?G ! (if bp_chroma p then 0 else i)"
    using i np by auto
qed

lemma parse_bm3d_backward:
  fixes F :: farith and m :: vsmap
  assumes parse: "parse_bm3d h F m vi None ns = Inr p" and planes: "1 \<le> vi_planes vi" "vi_planes vi \<le> 3" and final: "bp_final p"
  defines "np \<equiv> nat (vi_planes vi)"
  defines "q \<equiv> call_shapes m np (map_int m ''chroma'' 0 \<noteq> 0)"
  shows "shapes_agree p q" "bp_chroma p \<longleftrightarrow> map_int m ''chroma'' 0 \<noteq> 0"
    "map_int m ''chroma'' 0 = 0 \<or> map_int m ''chroma'' 0 = 1 \<and> vi_family vi = Cf_yuv \<and> vi_ss_w vi = 0 \<and> vi_ss_h vi = 0"
    "\<And>i. i < np \<Longrightarrow> bp_block_basic p ! i =
      (if 0 < vm_count m ''block_size_basic'' then map_inherit_int m ''block_size_basic'' (replicate 3 kBmBlock) (int np) kBmBlock
       else bp_block (read_shapes m np default_bm3d_params)) ! (if bp_chroma p then 0 else i)"
    "\<And>i. i < np \<Longrightarrow> bp_group_basic p ! i =
      (if 0 < vm_count m ''group_size_basic'' then map_inherit_int m ''group_size_basic'' (replicate 3 kBmGroup) (int np) kBmGroup
       else bp_group (read_shapes m np default_bm3d_params)) ! (if bp_chroma p then 0 else i)"
proof -
  let ?c = "map_int m ''chroma'' 0 \<noteq> 0"
  have np: "np \<le> 3" "0 < np" using planes by (auto simp: np_def)
  obtain g p0 pc u where s: "parse_sigma F m np ns default_bm3d_params = Inr (g, p0)"
    and c: "parse_chroma m vi ns (read_shapes m np p0) = Inr pc"
    and f: "parse_final F m vi None ns g pc = Inr p" and k: "check_planes vi ns p = Inr u"
    using parse unfolding parse_bm3d_def Let_def np_def [symmetric] by (auto simp: bindE_Inr_iff split: prod.splits)
  obtain sg where p0: "p0 = default_bm3d_params\<lparr>bp_sigma := sg\<rparr>"
    using parse_sigma_ok [OF s _ np(1)] by (auto simp: default_bm3d_params_def)
  have rd: "read_shapes m np p0 = (read_shapes m np default_bm3d_params)\<lparr>bp_sigma := sg\<rparr>" by (simp add: p0 read_shapes_def Let_def)
  show ch: "map_int m ''chroma'' 0 = 0 \<or> map_int m ''chroma'' 0 = 1 \<and> vi_family vi = Cf_yuv \<and> vi_ss_w vi = 0 \<and> vi_ss_h vi = 0"
    using c by (auto simp: parse_chroma_def Let_def split: if_splits)
  have pc: "pc = q\<lparr>bp_sigma := sg, bp_chroma := ?c\<rparr>"
    using c unfolding rd q_def parse_chroma_def Let_def np_def [symmetric] call_shapes_def spread_shapes_def
    by (auto split: if_splits)
  let ?p = "pc\<lparr>bp_final := map_int m ''final'' 0 \<noteq> 0\<rparr>"
  have l: "length (bp_block ?p) = 3" "length (bp_group ?p) = 3"
    using lengths_read [OF np(1), of m] unfolding pc q_def call_shapes_def Let_def by (auto simp: spread_shapes_def)
  have bl: "basic_lengths ?p"
    unfolding pc q_def call_shapes_def Let_def by (simp add: basic_lengths_def spread_shapes_def read_shapes_def Let_def default_bm3d_params_def)
  have "map_int m ''final'' 0 \<noteq> 0"
  proof
    assume "map_int m ''final'' 0 = 0"
    then have "p = ?p" using f by (simp add: parse_final_def Let_def split: if_splits)
    then have "bp_final p = bp_final ?p" by (rule arg_cong)
    then show False using final \<open>map_int m ''final'' 0 = 0\<close> by simp
  qed
  then have run: "parse_basic_stage F m vi ns (0 < vm_count m ''sigma_basic'') (0 < vm_count m ''block_size_basic'')
      (0 < vm_count m ''group_size_basic'') g ?p = Inr p"
    using f by (simp add: parse_final_def Let_def split: if_splits)
  have "0 \<le> vi_planes vi" using planes by simp
  then have tr: "basic_truncate p = basic_truncate ?p" using parse_basic_ok [OF run bl l _ planes(2)] by simp
  note tf = truncate_fields [OF tr]
  show "shapes_agree p q" using tf by (simp add: pc shapes_agree_def)
  show cc: "bp_chroma p \<longleftrightarrow> ?c" using tf by (simp add: pc)
  note v = basic_stage_values [OF run bl l, folded np_def, OF np(1)]
  have lr: "length (bp_block (read_shapes m np default_bm3d_params)) = 3" "length (bp_group (read_shapes m np default_bm3d_params)) = 3"
    using lengths_read [OF np(1)] by simp_all
  have sh: "bp_block pc ! j = bp_block (read_shapes m np default_bm3d_params) ! (if ?c then 0 else j)"
    "bp_group pc ! j = bp_group (read_shapes m np default_bm3d_params) ! (if ?c then 0 else j)" if "j < np" for j
    using call_shapes_at [OF np(1) that, of m ?c] by (simp_all add: pc q_def)
  have b0: "bp_block_basic ?p = replicate 3 0" "bp_group_basic ?p = replicate 3 0"
    unfolding pc q_def call_shapes_def Let_def by (simp_all add: spread_shapes_def read_shapes_def Let_def default_bm3d_params_def)
  have inh: "map_inherit_int m key out (int np) d ! j = map_inherit_int m key out' (int np) d ! j" if "j < np" for key out out' d j
    using that by (simp add: map_inherit_int_def Let_def length_inherit nth_append)
  have cp: "copy_first np xs ys ! j = xs ! j" if "j < np" "length xs = 3" for xs ys :: "int list" and j
    using that np by (simp add: copy_first_def nth_append)
  show "bp_block_basic p ! i =
      (if 0 < vm_count m ''block_size_basic'' then map_inherit_int m ''block_size_basic'' (replicate 3 kBmBlock) (int np) kBmBlock
       else bp_block (read_shapes m np default_bm3d_params)) ! (if bp_chroma p then 0 else i)" if "i < np" for i
  proof -
    let ?j = "if ?c then 0 else i"
    have j: "?j < np" using that np by simp
    have "bp_block_basic p ! i = basic_blocks m np ?p ! ?j" using v(1) [OF that] by (simp add: pc)
    also have "\<dots> = (if 0 < vm_count m ''block_size_basic'' then map_inherit_int m ''block_size_basic'' (replicate 3 kBmBlock) (int np) kBmBlock
       else bp_block (read_shapes m np default_bm3d_params)) ! ?j"
      using inh [OF j, of "''block_size_basic''"] cp [OF j l(1)] sh(1) [OF j] unfolding basic_blocks_def Let_def by auto
    finally show ?thesis unfolding cc .
  qed
  show "bp_group_basic p ! i =
      (if 0 < vm_count m ''group_size_basic'' then map_inherit_int m ''group_size_basic'' (replicate 3 kBmGroup) (int np) kBmGroup
       else bp_group (read_shapes m np default_bm3d_params)) ! (if bp_chroma p then 0 else i)" if "i < np" for i
  proof -
    let ?j = "if ?c then 0 else i"
    have j: "?j < np" using that np by simp
    have "bp_group_basic p ! i = basic_groups m np ?p ! ?j" using v(2) [OF that] by (simp add: pc)
    also have "\<dots> = (if 0 < vm_count m ''group_size_basic'' then map_inherit_int m ''group_size_basic'' (replicate 3 kBmGroup) (int np) kBmGroup
       else bp_group (read_shapes m np default_bm3d_params)) ! ?j"
      using inh [OF j, of "''group_size_basic''"] cp [OF j l(2)] sh(2) [OF j] unfolding basic_groups_def Let_def by auto
    finally show ?thesis unfolding cc .
  qed
qed

subsection \<open>The two stages\<close>

lemma final_args_accepted:
  fixes vi :: video_info
  assumes parse: "parse_bm3d h F m vi None ns = Inr p" and planes: "1 \<le> vi_planes vi" "vi_planes vi \<le> 3" and final: "bp_final p"
    and ref: "same_video h vi ref"
  shows "\<exists>c. parse_bm3d h F (one_stage_args m) vi (Some ref) ns = Inr c \<and> \<not> bp_final c \<and> bp_chroma c = bp_chroma p \<and>
    bp_radius c = bp_radius p \<and> shapes_agree c p \<and> (\<forall>i < nat (vi_planes vi). bp_sigma c ! i = bp_sigma p ! i)"
proof -
  let ?np = "nat (vi_planes vi)" and ?m = "one_stage_args m"
  have np: "?np \<le> 3" using planes by simp
  note ok = parse_bm3d_ok [OF parse planes] and bw = parse_bm3d_backward [OF parse planes final]
  note o = one_stage_facts [of m]
  note u = untouched_same [OF o(1)]
  have rd: "read_shapes ?m ?np default_bm3d_params = read_shapes m ?np default_bm3d_params"
    unfolding read_shapes_def Let_def
    by (simp add: u(3) read_ints [OF u(2), of "''block_size''"] read_ints [OF u(2), of "''group_size''"]
        read_ints [OF u(2), of "''block_step''"] read_ints [OF u(2), of "''bm_range''"] read_ints [OF u(2), of "''ps_num''"]
        read_ints [OF u(2), of "''ps_range''"])
  have cs: "call_shapes ?m ?np c = call_shapes m ?np c" for c by (simp add: call_shapes_def rd)
  have sg: "map_float_array F ?m ''sigma'' out n d = map_float_array F m ''sigma'' out n d" for out n d
    by (rule read_floats [OF u(1)]) simp
  have ints: "map_int ?m ''chroma'' 0 = map_int m ''chroma'' 0" "map_int ?m ''radius'' 0 = map_int m ''radius'' 0"
    by (simp_all add: u(3))
  have fin: "map_int ?m ''final'' 0 = 0" by (simp add: map_int_def o(2))
  have r: "0 \<le> map_int m ''radius'' 0" "map_int m ''radius'' 0 \<le> kBmMaxRadius" using ok(3-5) by simp_all
  have pl: "bm3d_plane_ok vi (call_shapes m ?np (map_int m ''chroma'' 0 \<noteq> 0)) i" if "i < ?np" for i
    using shapes_agree_ok [OF bw(1)] ok(6) [OF that] by blast
  obtain c where c: "parse_bm3d h F ?m vi (Some ref) ns = Inr c" "shapes_agree c (call_shapes m ?np (map_int m ''chroma'' 0 \<noteq> 0))"
    "\<not> bp_final c" "bp_chroma c \<longleftrightarrow> map_int m ''chroma'' 0 \<noteq> 0" "bp_radius c = map_int m ''radius'' 0"
    "\<And>i. i < ?np \<Longrightarrow> bp_sigma c ! i = effective_or_zero F (map_float_array F m ''sigma'' (replicate 3 kBmDefaultSigma) (int ?np) kBmDefaultSigma ! i)"
    using parse_bm3d_forward [OF np, of h "Some ref" F ?m ns, unfolded cs sg ints fin] ok(1) ok(7) ref r bw(3) o pl by auto
  show ?thesis
  proof (intro exI [of _ c] conjI)
    show "shapes_agree c p" using c(2) bw(1) by (simp add: shapes_agree_def)
    show "bp_chroma c = bp_chroma p" using c(4) bw(2) by simp
    show "bp_radius c = bp_radius p" using c(5) ok(5) by simp
    show "\<forall>i < ?np. bp_sigma c ! i = bp_sigma p ! i" using c(6) ok(7) by simp
  qed (rule c)+
qed

lemma basic_args_accepted:
  fixes vi :: video_info
  assumes parse: "parse_bm3d h F m vi None ns = Inr p" and planes: "1 \<le> vi_planes vi" "vi_planes vi \<le> 3" and final: "bp_final p"
    and readable: "readable m"
  shows "\<exists>b. parse_bm3d h F (basic_args m) vi None ns = Inr b \<and> \<not> bp_final b \<and> bp_chroma b = bp_chroma p \<and> bp_radius b = bp_radius p \<and>
    (\<forall>i < nat (vi_planes vi). bp_block b ! i = bp_block_basic p ! i \<and> bp_group b ! i = bp_group_basic p ! i \<and>
      bp_step b ! i = bp_step_basic p ! i \<and> bp_ps_num b ! i = bp_ps_num_basic p ! i \<and>
      bp_range b ! i = bp_range p ! i \<and> bp_ps_range b ! i = bp_ps_range p ! i \<and>
      (bp_sigma b ! i = bp_sigma_basic p ! i \<or> f32_eq (bp_sigma b ! i) f32_zero \<and> f32_eq (bp_sigma_basic p ! i) f32_zero))"
proof -
  let ?np = "nat (vi_planes vi)" and ?m = "basic_args m" and ?c = "map_int m ''chroma'' 0 \<noteq> 0"
  have np: "?np \<le> 3" "int ?np = vi_planes vi" using planes by simp_all
  note ok = parse_bm3d_ok [OF parse planes] and bw = parse_bm3d_backward [OF parse planes final]
  note bf = basic_args_facts [OF readable]
  note u = untouched_same [OF bf(1)]
  let ?raw = "read_shapes ?m ?np default_bm3d_params" and ?own = "read_shapes m ?np default_bm3d_params"
  have raw: "bp_block ?raw = (if 0 < vm_count m ''block_size_basic''
        then map_inherit_int m ''block_size_basic'' (replicate 3 kBmBlock) (int ?np) kBmBlock else bp_block ?own)"
    "bp_group ?raw = (if 0 < vm_count m ''group_size_basic''
        then map_inherit_int m ''group_size_basic'' (replicate 3 kBmGroup) (int ?np) kBmGroup else bp_group ?own)"
    "bp_step ?raw = map_adaptive m ''block_step'' (replicate 3 kBmDefaultStep) ?np kBmDefaultStep (bp_block ?raw)"
    "bp_ps_num ?raw = map_adaptive m ''ps_num'' (replicate 3 kBmDefaultPsNum) ?np kBmDefaultPsNum (bp_group ?raw)"
    "bp_range ?raw = bp_range ?own" "bp_ps_range ?raw = bp_ps_range ?own"
    using read_ints(2) [OF bf(7)] read_ints(2) [OF bf(8)]
    by (auto simp: read_shapes_def Let_def default_bm3d_params_def read_ints [OF u(2), of "''block_step''"] read_ints [OF u(2), of "''bm_range''"]
        read_ints [OF u(2), of "''ps_num''"] read_ints [OF u(2), of "''ps_range''"] u(3))
  have ints: "map_int ?m ''chroma'' 0 = map_int m ''chroma'' 0" "map_int ?m ''radius'' 0 = map_int m ''radius'' 0"
    by (simp_all add: u(3))
  have fin: "map_int ?m ''final'' 0 = 0" by (simp add: map_int_def bf(2))
  have r: "0 \<le> map_int m ''radius'' 0" "map_int m ''radius'' 0 \<le> kBmMaxRadius" using ok(3-5) by simp_all
  let ?given = "map_float_array F m ''sigma'' (replicate 3 kBmDefaultSigma) (int ?np) kBmDefaultSigma"
  let ?g = "if 0 < vm_count m ''sigma_basic'' then map_float_array F m ''sigma_basic'' ?given (vi_planes vi) kBmDefaultSigma else ?given"
  have sg: "map_float_array F ?m ''sigma'' (replicate 3 kBmDefaultSigma) (int ?np) kBmDefaultSigma ! i = ?g ! i" if "i < ?np" for i
    unfolding read_floats [OF bf(6)] using that np(2) by (auto simp: map_float_array_def Let_def nth_append)
  let ?s = "call_shapes ?m ?np ?c"
  have sh: "bp_block ?s ! i = bp_block_basic p ! i \<and> bp_group ?s ! i = bp_group_basic p ! i \<and> bp_step ?s ! i = bp_step_basic p ! i \<and>
      bp_ps_num ?s ! i = bp_ps_num_basic p ! i \<and> bp_range ?s ! i = bp_range p ! i \<and> bp_ps_range ?s ! i = bp_ps_range p ! i"
    if i: "i < ?np" for i
  proof -
    let ?j = "if ?c then 0 else i"
    have j: "?j < ?np" using i planes by simp
    note at = call_shapes_at [OF np(1) i, of ?m ?c] and ow = call_shapes_at [OF np(1) i, of m ?c]
    have agree: "bp_step p ! i = bp_step ?own ! ?j" "bp_ps_num p ! i = bp_ps_num ?own ! ?j" "bp_range p ! i = bp_range ?own ! ?j"
      "bp_ps_range p ! i = bp_ps_range ?own ! ?j"
      using bw(1) ow unfolding shapes_agree_def by simp_all
    have bg: "bp_block ?raw ! ?j = bp_block_basic p ! i" "bp_group ?raw ! ?j = bp_group_basic p ! i"
      unfolding bw(4) [OF i] bw(5) [OF i] bw(2) raw(1,2) by (rule refl)+
    have ad: "map_adaptive m key out ?np d limit ! ?j =
        (if 0 < vm_count m key then map_adaptive m key out ?np d limit' ! ?j else min d (limit ! ?j))" for key out d limit limit'
      using j by (simp add: map_adaptive_def nth_append)
    have own: "bp_step ?own = map_adaptive m ''block_step'' (replicate 3 kBmDefaultStep) ?np kBmDefaultStep (bp_block ?own)"
      "bp_ps_num ?own = map_adaptive m ''ps_num'' (replicate 3 kBmDefaultPsNum) ?np kBmDefaultPsNum (bp_group ?own)"
      by (simp_all add: read_shapes_def Let_def default_bm3d_params_def)
    note d = ok(10) [OF final i, unfolded basic_done_def]
    have "bp_step ?raw ! ?j = (if 0 < vm_count m ''block_step'' then bp_step ?own ! ?j else min kBmDefaultStep (bp_block_basic p ! i))"
      unfolding raw(3) own(1) bg(1) [symmetric] by (rule ad)
    moreover have "bp_ps_num ?raw ! ?j = (if 0 < vm_count m ''ps_num'' then bp_ps_num ?own ! ?j else min kBmDefaultPsNum (bp_group_basic p ! i))"
      unfolding raw(4) own(2) bg(2) [symmetric] by (rule ad)
    ultimately show ?thesis using at bg agree d raw(5,6) by simp
  qed
  have pl: "bm3d_plane_ok vi ?s i" if "i < ?np" for i
    using sh [OF that] ok(6) [OF that] parse_bm3d_basic_ok [OF parse planes that final] by (simp add: bm3d_plane_ok_def bm3d_basic_ok_def)
  have inv: "\<not> sigma_invalid (?g ! i)" if "i < ?np" for i using ok(10) [OF final that] unfolding basic_done_def by blast
  obtain b where b: "parse_bm3d h F ?m vi None ns = Inr b" "shapes_agree b ?s" "\<not> bp_final b" "bp_chroma b \<longleftrightarrow> ?c"
    "bp_radius b = map_int m ''radius'' 0" "\<And>i. i < ?np \<Longrightarrow> bp_sigma b ! i = effective_or_zero F (?g ! i)"
    using parse_bm3d_forward [OF np(1), of h None F ?m ns, unfolded ints fin] ok(1) r bw(3) bf(3-5) pl inv sg by auto
  have sig: "bp_sigma b ! i = bp_sigma_basic p ! i \<or> f32_eq (bp_sigma b ! i) f32_zero \<and> f32_eq (bp_sigma_basic p ! i) f32_zero"
    if "i < ?np" for i
  proof -
    have "f32_eq f32_zero f32_zero" by (simp add: f32_eq_def)
    moreover have "bp_sigma_basic p ! i = (if \<not> f32_eq (?g ! i) f32_zero then bm3d_effective F (?g ! i) else f32_zero)"
      using ok(10) [OF final that] unfolding basic_done_def by blast
    ultimately show ?thesis using b(6) [OF that] by (auto simp: effective_or_zero_def)
  qed
  show ?thesis
  proof (intro exI [of _ b] conjI)
    show "bp_chroma b = bp_chroma p" using b(4) bw(2) by simp
    show "bp_radius b = bp_radius p" using b(5) ok(5) by simp
    show "\<forall>i < ?np. bp_block b ! i = bp_block_basic p ! i \<and> bp_group b ! i = bp_group_basic p ! i \<and>
      bp_step b ! i = bp_step_basic p ! i \<and> bp_ps_num b ! i = bp_ps_num_basic p ! i \<and>
      bp_range b ! i = bp_range p ! i \<and> bp_ps_range b ! i = bp_ps_range p ! i \<and>
      (bp_sigma b ! i = bp_sigma_basic p ! i \<or> f32_eq (bp_sigma b ! i) f32_zero \<and> f32_eq (bp_sigma_basic p ! i) f32_zero)"
      using sh sig b(2) unfolding shapes_agree_def by auto
  qed (rule b)+
qed

text \<open>
  C37. A two-stage call of BM3D that was accepted is accepted again in both stages: the
  parser run on the map of the basic stage finds the basic values the first run resolved
  (sizes, steps, predictive counts and ranges of every plane, sigma up to the sign of a zero),
  and on the map of the final stage, with a reference of the clip's format, the values of
  the call. Neither nested call asks for two stages again.
\<close>

theorem two_nodes_arguments:
  assumes "parse_bm3d h F m vi None ns = Inr p" "1 \<le> vi_planes vi" "vi_planes vi \<le> 3" "bp_final p" "readable m" "same_video h vi ref"
  shows "(\<exists>b. parse_bm3d h F (basic_args m) vi None ns = Inr b \<and> \<not> bp_final b \<and> bp_chroma b = bp_chroma p \<and> bp_radius b = bp_radius p \<and>
      (\<forall>i < nat (vi_planes vi). bp_block b ! i = bp_block_basic p ! i \<and> bp_group b ! i = bp_group_basic p ! i \<and>
        bp_step b ! i = bp_step_basic p ! i \<and> bp_ps_num b ! i = bp_ps_num_basic p ! i \<and>
        bp_range b ! i = bp_range p ! i \<and> bp_ps_range b ! i = bp_ps_range p ! i \<and>
        (bp_sigma b ! i = bp_sigma_basic p ! i \<or> f32_eq (bp_sigma b ! i) f32_zero \<and> f32_eq (bp_sigma_basic p ! i) f32_zero))) \<and>
    (\<exists>c. parse_bm3d h F (one_stage_args m) vi (Some ref) ns = Inr c \<and> \<not> bp_final c \<and> bp_chroma c = bp_chroma p \<and>
      bp_radius c = bp_radius p \<and> shapes_agree c p \<and> (\<forall>i < nat (vi_planes vi). bp_sigma c ! i = bp_sigma p ! i))"
  using basic_args_accepted [OF assms(1-5)] final_args_accepted [OF assms(1-4,6)] by (rule conjI)

definition final_map :: vsmap where
  "final_map = empty_map\<lparr>vm_keys := [''final'', ''block_size_basic''],
     vm_type := (\<lambda>k. if k = ''final'' \<or> k = ''block_size_basic'' then Pt_int else Pt_other),
     vm_count := (\<lambda>k. if k = ''final'' \<or> k = ''block_size_basic'' then 1 else - 1),
     vm_int := (\<lambda>k i. if i \<noteq> 0 then None else if k = ''final'' then Some 1 else if k = ''block_size_basic'' then Some 4 else None)\<rparr>"

lemma parse_final_map:
  "\<exists>p. parse_bm3d example_helpers F final_map gray_clip None ''nss'' = Inr p \<and> bp_final p \<and> bp_block_basic p ! 0 = 4"
proof -
  have "\<not> sigma_invalid kBmDefaultSigma"
    by (simp add: sigma_invalid_def finite_bits_def f32_lt_def f32_zero_def f32_nan_def f32_key_def f32_mag_def f32_neg_def kBmDefaultSigma_def)
  then show ?thesis
    by (simp add: parse_bm3d_def is_const_32f_def example_helpers_def gray_clip_def int_max_def parse_sigma_def Let_def to_int32_def
        map_float_array_def final_map_def empty_map_def default_bm3d_params_def numeral_3_eq_3 sigma_step_def read_shapes_def
        map_inherit_int_def map_adaptive_def map_int_array_def map_int_def kBmMaxRadius_def parse_chroma_def parse_final_def
        parse_basic_stage_def copy_first_def basic_plane_def
        check_planes_def check_plane_def bm_allowed_block_def bm_allowed_group_def kBmBlock_def kBmGroup_def plane_width_def plane_height_def
        kBmDefaultStep_def kBmDefaultPsNum_def kBmDefaultPsRange_def kBm3dDefaultRange_def kBmMaxRange_def fail_def
        del: upt_Suc add: upt_conv_Cons)
qed

theorem two_nodes_arguments_witness:
  "\<exists>b. parse_bm3d example_helpers example_arith (basic_args final_map) gray_clip None ''nss'' = Inr b \<and> bp_block b ! 0 = 4"
proof -
  obtain p where p: "parse_bm3d example_helpers example_arith final_map gray_clip None ''nss'' = Inr p" "bp_final p" "bp_block_basic p ! 0 = 4"
    using parse_final_map by blast
  have v: "1 \<le> vi_planes gray_clip" "vi_planes gray_clip \<le> 3" "0 < nat (vi_planes gray_clip)" by (simp_all add: gray_clip_def)
  have one: "i = 0" if "0 \<le> i" "i < 1" for i :: int using that by simp
  have "readable final_map" by (auto simp: readable_def final_map_def empty_map_def dest: one)
  moreover have "same_video example_helpers gray_clip gray_clip" by (simp add: same_video_def example_helpers_def)
  ultimately show ?thesis using conjunct1 [OF two_nodes_arguments [OF p(1) v(1,2) p(2)]] v(3) p(3) by metis
qed

end
