(* ===== verification/Full_Image_Args.thy ===== *)
theory Full_Image_Args
  imports Filter_Args Contribution
begin

text \<open>
  The arguments of the full-image filters TWSC and NLH (src/frontend/full_image_args.cpp,
  include/nss/params/full_image.hpp, nlh.hpp, twsc.hpp): the shared parser, NLH's preset
  and the geometry check at creation. Doubles are patterns; their arithmetic is a parameter.
\<close>

subsection \<open>Doubles\<close>

record darith =
  d_add :: "f64 \<Rightarrow> f64 \<Rightarrow> f64"
  d_mul :: "f64 \<Rightarrow> f64 \<Rightarrow> f64"
  d_sqrt :: "f64 \<Rightarrow> f64"

definition f64_zero :: f64 where "f64_zero = 0"
definition f64_one :: f64 where "f64_one = 0x3ff0000000000000"
definition f64_minus_one :: f64 where "f64_minus_one = 0xbff0000000000000"
definition f64_3 :: f64 where "f64_3 = 0x4008000000000000"
definition f64_255 :: f64 where "f64_255 = 0x406fe00000000000"
text \<open>0.5, 1.1, 1e-6, 0.6 and 0.32.\<close>
definition f64_half :: f64 where "f64_half = 0x3fe0000000000000"
definition f64_1_1 :: f64 where "f64_1_1 = 0x3ff199999999999a"
definition f64_1e_6 :: f64 where "f64_1e_6 = 0x3eb0c6f7a0b5ed8d"
definition f64_0_6 :: f64 where "f64_0_6 = 0x3fe3333333333333"
definition f64_0_32 :: f64 where "f64_0_32 = 0x3fd47ae147ae147b"

subsection \<open>Parameters\<close>

record twsc_solver =
  ts_iterations :: int
  ts_rho :: f64
  ts_mu :: f64
  ts_tolerance :: f64

record twsc_options =
  tw_block :: int
  tw_group :: int
  tw_iterations :: int
  tw_step :: int
  tw_window :: int
  tw_radius :: int
  tw_ps_num :: int
  tw_ps_range :: int
  tw_lambda2 :: f64
  tw_delta :: f64
  tw_solver :: twsc_solver
  tw_cfast :: bool

definition default_twsc_options :: twsc_options where
  "default_twsc_options = \<lparr>tw_block = 8, tw_group = 8, tw_iterations = 2, tw_step = 8, tw_window = 60, tw_radius = 0, tw_ps_num = 2,
     tw_ps_range = 4, tw_lambda2 = f64_one, tw_delta = f64_zero,
     tw_solver = \<lparr>ts_iterations = 10, ts_rho = f64_half, ts_mu = f64_1_1, ts_tolerance = f64_1e_6\<rparr>, tw_cfast = True\<rparr>"

record nlh_options =
  no_block :: "int list"
  no_step :: "int list"
  no_group :: "int list"
  no_q :: "int list"
  no_window :: "int list"
  no_basic_iterations :: int
  no_wiener_iterations :: int
  no_radius :: int
  no_ps_num :: int
  no_ps_range :: int
  no_basic_mix :: f64
  no_hard_strength :: f64
  no_wiener_sigma_scale :: f64
  no_real_noise :: bool

definition default_nlh_options :: nlh_options where
  "default_nlh_options = \<lparr>no_block = [0, 0], no_step = [0, 0], no_group = [0, 0], no_q = [0, 0], no_window = [0, 0],
     no_basic_iterations = 0, no_wiener_iterations = 0, no_radius = 0, no_ps_num = 2, no_ps_range = 4,
     no_basic_mix = f64_minus_one, no_hard_strength = f64_minus_one, no_wiener_sigma_scale = f64_minus_one, no_real_noise = False\<rparr>"

record full_image_params =
  fi_sigma :: "f32 list"
  fi_sigma_units :: "f64 list"
  fi_estimate :: bool
  fi_twsc :: twsc_options
  fi_nlh :: nlh_options

definition default_full_image_params :: full_image_params where
  "default_full_image_params = \<lparr>fi_sigma = replicate 3 kDefaultSigma, fi_sigma_units = replicate 3 f64_3, fi_estimate = False,
     fi_twsc = default_twsc_options, fi_nlh = default_nlh_options\<rparr>"

subsection \<open>Reading one argument\<close>

definition fail_plain :: "string \<Rightarrow> string \<Rightarrow> 'a res" where
  "fail_plain ns message = Inl (Invalid_argument (ns @ '': '' @ message))"

lemma fail_plain_simps [simp]:
  "fail_plain ns message \<noteq> Inr v" "(if b then fail_plain ns message else r) = Inr v \<longleftrightarrow> \<not> b \<and> r = Inr v"
  by (simp_all add: fail_plain_def)

definition present :: "vsmap \<Rightarrow> string \<Rightarrow> bool" where
  "present m key \<longleftrightarrow> 0 \<le> vm_count m key"

definition integer :: "vsmap \<Rightarrow> string \<Rightarrow> int \<Rightarrow> int \<Rightarrow> int \<Rightarrow> string \<Rightarrow> int res" where
  "integer m key fallback low high ns =
     (if \<not> present m key then Inr fallback
      else if vm_count m key \<noteq> 1 then fail_plain ns (key @ '' requires one integer'')
      else let v = map_int m key fallback in
        if v < low \<or> v > high then fail_plain ns (key @ '' outside supported range'') else Inr v)"

definition real_arg :: "vsmap \<Rightarrow> string \<Rightarrow> f64 \<Rightarrow> f64 \<Rightarrow> f64 \<Rightarrow> string \<Rightarrow> f64 res" where
  "real_arg m key fallback low high ns =
     (if \<not> present m key then Inr fallback
      else if vm_count m key \<noteq> 1 then fail_plain ns (key @ '' requires one number'')
      else case vm_float m key 0 of
          None \<Rightarrow> fail_plain ns (''invalid '' @ key)
        | Some v \<Rightarrow> if \<not> f64_finite v \<or> f64_lt v low \<or> f64_lt high v then fail_plain ns (''invalid '' @ key) else Inr v)"

text \<open>The values of the two stages; one value serves both.\<close>

definition stage_step :: "vsmap \<Rightarrow> string \<Rightarrow> int \<Rightarrow> int \<Rightarrow> string \<Rightarrow> nat \<Rightarrow> int list \<Rightarrow> int list res" where
  "stage_step m key low high ns i result =
     (case vm_int m key (min (int i) (vm_count m key - 1)) of
        None \<Rightarrow> fail ns ''NLH'' (''invalid '' @ key)
      | Some v \<Rightarrow> if v < low \<or> v > high then fail ns ''NLH'' (''invalid '' @ key) else Inr (result[i := to_int32 v]))"

definition stage :: "vsmap \<Rightarrow> string \<Rightarrow> int \<Rightarrow> int \<Rightarrow> int \<Rightarrow> string \<Rightarrow> int list res" where
  "stage m key fallback low high ns =
     (if \<not> present m key then Inr [fallback, fallback]
      else if vm_count m key < 1 \<or> vm_count m key > 2 then fail ns ''NLH'' (key @ '' must have one or two values'')
      else foldE (stage_step m key low high ns) [0, 1] [fallback, fallback])"

subsection \<open>TWSC\<close>

definition parse_twsc :: "vsmap \<Rightarrow> bool \<Rightarrow> full_image_params \<Rightarrow> string \<Rightarrow> full_image_params res" where
  "parse_twsc m sigma_given d ns =
     bindE (integer m ''estimate_sigma'' 0 0 1 ns) (\<lambda>estimate.
     if estimate \<noteq> 0 \<and> sigma_given then fail ns ''TWSC'' ''estimate_sigma and explicit sigma are mutually exclusive''
     else
     bindE (integer m ''block_size'' 8 1 16 ns) (\<lambda>block.
     bindE (integer m ''group_size'' 8 1 256 ns) (\<lambda>group'.
     bindE (integer m ''block_step'' (if present m ''block_step'' then 8 else min 8 block) 1 block ns) (\<lambda>step.
     bindE (integer m ''iters'' 2 1 64 ns) (\<lambda>iterations.
     bindE (if present m ''bm_range'' then bindE (integer m ''bm_range'' 0 1 64 ns) (\<lambda>v. Inr (2 * v + 1))
            else integer m ''search_window'' 60 1 129 ns) (\<lambda>window.
     bindE (integer m ''radius'' 0 0 16 ns) (\<lambda>radius.
     bindE (integer m ''ps_num'' 2 1 256 ns) (\<lambda>ps_given.
     bindE (integer m ''ps_range'' 4 1 64 ns) (\<lambda>ps_range.
     let ps_num = (if group' = 1 \<and> \<not> present m ''ps_num'' then 1 else ps_given) in
     if ps_num > group' then fail ns ''TWSC'' ''ps_num exceeds resolved group_size''
     else
     bindE (real_arg m ''lambda2'' f64_one f64_zero f64_float_max ns) (\<lambda>lambda2.
     bindE (real_arg m ''delta'' f64_zero f64_zero f64_one ns) (\<lambda>delta.
     bindE (integer m ''admm_iter'' 10 1 1000 ns) (\<lambda>admm.
     bindE (real_arg m ''rho'' f64_half f64_zero f64_float_max ns) (\<lambda>rho.
     bindE (real_arg m ''mu'' f64_1_1 f64_one f64_float_max ns) (\<lambda>mu.
     bindE (real_arg m ''tol'' f64_1e_6 f64_zero f64_float_max ns) (\<lambda>tol.
     if \<not> f64_lt f64_zero rho \<or> \<not> f64_lt f64_zero tol then fail ns ''TWSC'' ''rho and tol must be positive''
     else
     bindE (integer m ''cfast'' 1 0 1 ns) (\<lambda>cfast.
       Inr (d\<lparr>fi_estimate := estimate \<noteq> 0,
              fi_twsc := \<lparr>tw_block = block, tw_group = group', tw_iterations = iterations, tw_step = step, tw_window = window,
                tw_radius = radius, tw_ps_num = ps_num, tw_ps_range = ps_range, tw_lambda2 = lambda2, tw_delta = delta,
                tw_solver = \<lparr>ts_iterations = admm, ts_rho = rho, ts_mu = mu, ts_tolerance = tol\<rparr>, tw_cfast = (cfast \<noteq> 0)\<rparr>\<rparr>)))))))))))))))))"

definition twsc_color_split :: "twsc_options \<Rightarrow> bool \<Rightarrow> bool \<Rightarrow> f64 list \<Rightarrow> bool" where
  "twsc_color_split opts rgb estimate units \<longleftrightarrow> tw_cfast opts \<and> rgb \<and> \<not> estimate \<and> tw_radius opts = 0 \<and>
     f64_lt f64_zero (units ! 0) \<and> f64_eq (units ! 0) (units ! 1) \<and> f64_eq (units ! 0) (units ! 2)"

subsection \<open>NLH\<close>

definition pow2_or_zero :: "int \<Rightarrow> bool" where
  "pow2_or_zero v \<longleftrightarrow> v AND (v - 1) = 0"

definition nlh_stage_invalid :: "int \<Rightarrow> int \<Rightarrow> int \<Rightarrow> int \<Rightarrow> bool" where
  "nlh_stage_invalid group' q block step \<longleftrightarrow>
     \<not> pow2_or_zero group' \<or> \<not> pow2_or_zero q \<or> block \<noteq> 0 \<and> (q > block * block \<or> step > block)"

text \<open>\<open>mapGetDataSize\<close> bytes: the whole value, zeros included.\<close>

definition noise_model :: "vsmap \<Rightarrow> string \<Rightarrow> string res" where
  "noise_model m ns =
     (if present m ''noise_model''
      then case vm_data m ''noise_model'' 0 of None \<Rightarrow> fail ns ''NLH'' ''invalid noise_model'' | Some s \<Rightarrow> Inr s
      else Inr ''auto'')"

definition parse_nlh :: "vsmap \<Rightarrow> video_info \<Rightarrow> bool \<Rightarrow> full_image_params \<Rightarrow> string \<Rightarrow> full_image_params res" where
  "parse_nlh m vi sigma_given d ns =
     bindE (noise_model m ns) (\<lambda>nm.
     if nm \<noteq> ''auto'' \<and> nm \<noteq> ''awgn'' \<and> nm \<noteq> ''real'' then fail ns ''NLH'' ''noise_model must be auto, awgn, or real''
     else
     bindE (stage m ''block_size'' 0 2 16 ns) (\<lambda>block.
     bindE (stage m ''block_step'' 0 1 16 ns) (\<lambda>step.
     bindE (stage m ''group_size'' 0 2 64 ns) (\<lambda>group'.
     bindE (stage m ''q'' 0 2 16 ns) (\<lambda>q.
     bindE (if present m ''bm_range'' then bindE (integer m ''bm_range'' 0 1 64 ns) (\<lambda>v. Inr [2 * v + 1, 2 * v + 1])
            else stage m ''search_window'' 0 1 129 ns) (\<lambda>window.
     if \<exists>s \<in> {0, 1}. nlh_stage_invalid (group' ! s) (q ! s) (block ! s) (step ! s)
     then fail ns ''NLH'' ''invalid stage group/q/block/step combination''
     else
     bindE (integer m ''radius'' 0 0 16 ns) (\<lambda>radius.
     bindE (integer m ''ps_num'' 2 1
              (min (if group' ! 0 \<noteq> 0 then group' ! 0 else 64) (if group' ! 1 \<noteq> 0 then group' ! 1 else 64)) ns) (\<lambda>ps_num.
     bindE (integer m ''ps_range'' 4 1 64 ns) (\<lambda>ps_range.
     bindE (integer m ''basic_iters'' 0 1 64 ns) (\<lambda>basic_iterations.
     bindE (integer m ''wiener_iters'' 0 1 64 ns) (\<lambda>wiener_iterations.
     bindE (real_arg m ''lambda_basic'' f64_minus_one f64_zero f64_one ns) (\<lambda>basic_mix.
     bindE (real_arg m ''hard_strength'' f64_minus_one f64_zero f64_float_max ns) (\<lambda>hard_strength.
     bindE (real_arg m ''wiener_sigma_scale'' f64_minus_one f64_zero f64_float_max ns) (\<lambda>wiener_sigma_scale.
       Inr (d\<lparr>fi_estimate := \<not> sigma_given,
              fi_nlh := \<lparr>no_block = block, no_step = step, no_group = group', no_q = q, no_window = window,
                no_basic_iterations = basic_iterations, no_wiener_iterations = wiener_iterations, no_radius = radius,
                no_ps_num = ps_num, no_ps_range = ps_range, no_basic_mix = basic_mix, no_hard_strength = hard_strength,
                no_wiener_sigma_scale = wiener_sigma_scale,
                no_real_noise = (nm = ''real'' \<or> nm = ''auto'' \<and> vi_family vi \<noteq> Cf_gray)\<rparr>\<rparr>)))))))))))))))"

subsection \<open>The shared parser\<close>

definition sigma_unit :: "farith \<Rightarrow> vsmap \<Rightarrow> bool \<Rightarrow> f32 list \<Rightarrow> string \<Rightarrow> nat \<Rightarrow> f64 list \<Rightarrow> f64 list res" where
  "sigma_unit F m given sigma ns c units =
     (let units = (if given then units[c := get_float m ''sigma'' (min (int c) (vm_count m ''sigma'' - 1))] else units) in
      if f64_lt (units ! c) f64_zero then fail_plain ns ''sigma must be nonnegative''
      else if f64_lt f64_zero (units ! c) \<and> \<not> f32_lt f32_zero (fdiv F (sigma ! c) f32_255)
      then fail_plain ns ''positive sigma is not representable after float32 normalization''
      else Inr units)"

definition parse_full_image :: "vs_helpers \<Rightarrow> farith \<Rightarrow> vsmap \<Rightarrow> video_info \<Rightarrow> video_info option \<Rightarrow> model \<Rightarrow> string \<Rightarrow> full_image_params res" where
  "parse_full_image h F m vi rclip_vi md ns =
     (let given = present m ''sigma'' in
      if \<not> is_const_32f h vi then fail_plain ns ''constant Gray/YUV/RGB 32-bit float required''
      else if given \<and> (vm_count m ''sigma'' < 1 \<or> vm_count m ''sigma'' > vi_planes vi)
      then fail_plain ns ''sigma must contain one value per selected input plane (last value broadcasts)''
      else
        let sigma = map_float_array F m ''sigma'' (replicate 3 kDefaultSigma) (vi_planes vi) kDefaultSigma in
        bindE (foldE (sigma_unit F m given sigma ns) [0..<nat (vi_planes vi)] (replicate 3 f64_3)) (\<lambda>units.
        let d = default_full_image_params\<lparr>fi_sigma := sigma, fi_sigma_units := units\<rparr> in
        if (case rclip_vi of None \<Rightarrow> False | Some r \<Rightarrow> \<not> same_video h vi r) then fail_plain ns ''rclip must match clip''
        else if present m ''bm_range'' \<and> present m ''search_window''
        then fail_plain ns ''bm_range and search_window are mutually exclusive''
        else if md = M_twsc then parse_twsc m given d ns
        else parse_nlh m vi given d ns))"

subsection \<open>NLH's preset (include/nss/params/nlh.hpp)\<close>

definition kPreset :: nlh_options where
  "kPreset = default_nlh_options\<lparr>no_block := [8, 16], no_step := [6, 15], no_group := [16, 16], no_q := [4, 4], no_window := [24, 16],
     no_basic_iterations := 3, no_wiener_iterations := 2, no_basic_mix := f64_0_6, no_hard_strength := f64_one,
     no_wiener_sigma_scale := f64_0_32\<rparr>"

text \<open>\<open>while (q > area) q /= 2\<close>; the area is a square.\<close>

function halve_to :: "int \<Rightarrow> int \<Rightarrow> int" where
  "halve_to area q = (if q \<le> area \<or> area < 0 then q else halve_to area (cdiv q 2))"
  by pat_completeness auto
termination
  by (relation "measure (\<lambda>(area, q). nat q)") (auto simp: cdiv_nonneg)

declare halve_to.simps [simp del]

definition resolve_stage :: "int \<Rightarrow> nat \<Rightarrow> nlh_options \<Rightarrow> nlh_options res" where
  "resolve_stage available s opt =
     (let block = (if no_block opt ! s \<noteq> 0 then no_block opt ! s else min (no_block kPreset ! s) available);
          opt = opt\<lparr>no_block := (no_block opt)[s := block]\<rparr>
      in if block < 2 \<or> block > 16 \<or> block > available then Inl (Invalid_argument ''nss.NLH: invalid resolved block_size'')
         else
           let step = (if no_step opt ! s \<noteq> 0 then no_step opt ! s else min (no_step kPreset ! s) block);
               q = (if no_q opt ! s = 0 then halve_to (block * block) (no_q kPreset ! s) else no_q opt ! s);
               group' = (if no_group opt ! s \<noteq> 0 then no_group opt ! s else no_group kPreset ! s);
               window = (if no_window opt ! s \<noteq> 0 then no_window opt ! s else no_window kPreset ! s)
           in if q < 2 \<or> q > 16 \<or> \<not> pow2_or_zero q \<or> q > block * block \<or> group' < 2 \<or> group' > 64 \<or> \<not> pow2_or_zero group' \<or>
                 step < 1 \<or> step > block \<or> window < 1 \<or> window > 129
              then Inl (Invalid_argument ''nss.NLH: invalid resolved stage shape'')
              else Inr (opt\<lparr>no_step := (no_step opt)[s := step], no_q := (no_q opt)[s := q], no_group := (no_group opt)[s := group'],
                         no_window := (no_window opt)[s := window]\<rparr>))"

definition preset_or :: "f64 \<Rightarrow> f64 \<Rightarrow> f64" where
  "preset_or v preset = (if f64_eq v f64_minus_one then preset else v)"

definition nlh_resolve_preset :: "int \<Rightarrow> nlh_options \<Rightarrow> nlh_options res" where
  "nlh_resolve_preset available requested =
     (if available < 2 then Inl (Invalid_argument ''nss: selected plane is smaller than block_size'')
      else bindE (foldE (resolve_stage available) [0, 1] requested) (\<lambda>opt.
        let opt = opt\<lparr>no_basic_iterations := (if no_basic_iterations opt \<noteq> 0 then no_basic_iterations opt else no_basic_iterations kPreset),
                  no_wiener_iterations := (if no_wiener_iterations opt \<noteq> 0 then no_wiener_iterations opt else no_wiener_iterations kPreset),
                  no_basic_mix := preset_or (no_basic_mix opt) (no_basic_mix kPreset),
                  no_hard_strength := preset_or (no_hard_strength opt) (no_hard_strength kPreset),
                  no_wiener_sigma_scale := preset_or (no_wiener_sigma_scale opt) (no_wiener_sigma_scale kPreset)\<rparr>
        in if no_basic_iterations opt < 1 \<or> no_basic_iterations opt > 64 \<or> no_wiener_iterations opt < 1 \<or> no_wiener_iterations opt > 64 \<or>
              \<not> (f64_le f64_zero (no_basic_mix opt) \<and> f64_le (no_basic_mix opt) f64_one) \<or> \<not> f64_finite (no_basic_mix opt) \<or>
              \<not> f64_le f64_zero (no_hard_strength opt) \<or> \<not> f64_finite (no_hard_strength opt) \<or>
              \<not> f64_le f64_zero (no_wiener_sigma_scale opt) \<or> \<not> f64_finite (no_wiener_sigma_scale opt) \<or>
              no_radius opt < 0 \<or> no_radius opt > 16 \<or> no_ps_num opt < 1 \<or> no_ps_num opt > min (no_group opt ! 0) (no_group opt ! 1) \<or>
              no_ps_range opt < 1 \<or> no_ps_range opt > 64
           then Inl (Invalid_argument ''nss.NLH: invalid resolved iteration, coefficient or temporal parameters'')
           else Inr opt))"

subsection \<open>Sigma of the working domain\<close>

definition yuv_matrix :: "f64 list list" where
  "yuv_matrix = [[0x3fd322d0e5604189, 0x3fe2c8b439581062, 0x3fbd2f1a9fbe76c9],
                 [0xbfc5992940a88564, 0xbfd5336b5fabbd4e, f64_half],
                 [f64_half, 0xbfdacbc6a7ef9db2, 0xbfb4d0e560418937]]"

text \<open>The unit of a plane, exact when it was given.\<close>

definition unit_of :: "farith \<Rightarrow> darith \<Rightarrow> f32 list \<Rightarrow> f64 list \<Rightarrow> nat \<Rightarrow> f64" where
  "unit_of F D sigma units c = (if f64_le f64_zero (units ! c) then units ! c else d_mul D (f64_of_f32 F (sigma ! c)) f64_255)"

definition nlh_rgb_sigma_to_yuv :: "farith \<Rightarrow> darith \<Rightarrow> f32 list \<Rightarrow> f64 list \<Rightarrow> f32 list \<times> f64 list" where
  "nlh_rgb_sigma_to_yuv F D sigma units =
     (let w = (\<lambda>c k. d_mul D (yuv_matrix ! c ! k) (yuv_matrix ! c ! k));
          v = (\<lambda>c. fold (\<lambda>k s. d_add D s (d_mul D (d_mul D (w c k) (f64_of_f32 F (sigma ! k))) (f64_of_f32 F (sigma ! k)))) [0, 1, 2] f64_zero);
          u = (\<lambda>c. fold (\<lambda>k s. d_add D s (d_mul D (d_mul D (w c k) (unit_of F D sigma units k)) (unit_of F D sigma units k))) [0, 1, 2] f64_zero)
      in (map (\<lambda>c. f_of_f64 F (d_sqrt D (v c))) [0, 1, 2], map (\<lambda>c. d_sqrt D (u c)) [0, 1, 2]))"

subsection \<open>The geometry check\<close>

definition normalized_sigma :: "farith \<Rightarrow> full_image_params \<Rightarrow> int \<Rightarrow> f32 list" where
  "normalized_sigma F p planes = map (\<lambda>c. if int c < planes then fdiv F (fi_sigma p ! c) f32_255 else f32_zero) [0, 1, 2]"

definition given_units :: "full_image_params \<Rightarrow> int \<Rightarrow> f64 list" where
  "given_units p planes = map (\<lambda>c. if int c < planes then fi_sigma_units p ! c else f64_minus_one) [0, 1, 2]"

text \<open>The loop over the planes: the largest unit and the smallest filtered dimension.\<close>

definition available_step :: "farith \<Rightarrow> darith \<Rightarrow> video_info \<Rightarrow> string \<Rightarrow> f32 list \<Rightarrow> f64 list \<Rightarrow> nat \<Rightarrow> int \<Rightarrow> int res" where
  "available_step F D vi ns sigma units c available =
     (let u = unit_of F D sigma units c in
      if \<not> f64_le f64_zero u \<or> \<not> f64_finite u then fail ns ''NLH'' ''invalid preset sigma''
      else Inr (if f32_lt f32_zero (sigma ! c) then min available (min (plane_width vi (int c)) (plane_height vi (int c))) else available))"

definition check_stage :: "video_info \<Rightarrow> string \<Rightarrow> f32 list \<Rightarrow> int \<times> int \<Rightarrow> unit \<Rightarrow> unit res" where
  "check_stage vi ns sigma bs u =
     (case bs of (block, step) \<Rightarrow>
        if step > block then fail_plain ns ''block_step exceeds resolved block_size''
        else foldE (\<lambda>c u. if f32_lt f32_zero (sigma ! c) \<and> (plane_width vi (int c) < block \<or> plane_height vi (int c) < block)
                     then fail_plain ns ''selected plane is smaller than block_size'' else Inr u) [0..<nat (vi_planes vi)] u)"

definition working_sigma :: "farith \<Rightarrow> darith \<Rightarrow> full_image_params \<Rightarrow> video_info \<Rightarrow> model \<Rightarrow> f32 list \<times> f64 list" where
  "working_sigma F D p vi md =
     (let sigma = normalized_sigma F p (vi_planes vi); units = given_units p (vi_planes vi)
      in if md = M_nlh \<and> vi_family vi = Cf_rgb then nlh_rgb_sigma_to_yuv F D sigma units else (sigma, units))"

definition nlh_available :: "farith \<Rightarrow> darith \<Rightarrow> video_info \<Rightarrow> string \<Rightarrow> f32 list \<times> f64 list \<Rightarrow> int res" where
  "nlh_available F D vi ns su = (case su of (sigma, units) \<Rightarrow> foldE (available_step F D vi ns sigma units) [0..<nat (vi_planes vi)] 16)"

definition validate_full_image_geometry :: "farith \<Rightarrow> darith \<Rightarrow> full_image_params \<Rightarrow> video_info \<Rightarrow> model \<Rightarrow> string \<Rightarrow> unit res" where
  "validate_full_image_geometry F D p vi md ns =
     (if fi_estimate p
      then foldE (\<lambda>c u. if plane_width vi (int c) < 8 \<or> plane_height vi (int c) < 8
             then fail_plain ns ''noise estimation block_size requires at least 8x8 per plane'' else Inr u) [0..<nat (vi_planes vi)] ()
      else
        let su = working_sigma F D p vi md in
        bindE (if md = M_twsc then Inr [(tw_block (fi_twsc p), tw_step (fi_twsc p))]
               else bindE (nlh_available F D vi ns su) (\<lambda>available.
                    bindE (nlh_resolve_preset available (fi_nlh p)) (\<lambda>opt.
                      Inr [(no_block opt ! 0, no_step opt ! 0), (no_block opt ! 1, no_step opt ! 1)])))
          (\<lambda>stages. foldE (check_stage vi ns (fst su)) stages ()))"

subsection \<open>What the readers return\<close>

lemma integer_Inr: "integer m key fallback low high ns = Inr v \<Longrightarrow> v = fallback \<or> low \<le> v \<and> v \<le> high"
  by (auto simp: integer_def Let_def split: if_splits)

lemma real_arg_Inr:
  "real_arg m key fallback low high ns = Inr v \<Longrightarrow> v = fallback \<or> f64_finite v \<and> \<not> f64_lt v low \<and> \<not> f64_lt high v"
  by (auto simp: real_arg_def split: if_splits option.splits)

lemma stage_step_Inr:
  assumes "stage_step m key low high ns i r = Inr r'" "int_min \<le> low" "high \<le> int_max"
  shows "\<exists>v. r' = r[i := v] \<and> low \<le> v \<and> v \<le> high"
  using assms by (auto simp: stage_step_def int32_def to_int32_id split: option.splits if_splits)

lemma stage_Inr:
  assumes "stage m key fallback low high ns = Inr r" "int_min \<le> low" "high \<le> int_max"
  shows "length r = 2 \<and> (\<forall>s < 2. r ! s = fallback \<or> low \<le> r ! s \<and> r ! s \<le> high)"
proof (cases "present m key")
  case False
  then show ?thesis using assms(1) by (auto simp: stage_def less_2_cases_iff)
next
  case True
  then have "foldE (stage_step m key low high ns) [0, 1] [fallback, fallback] = Inr r"
    using assms(1) by (auto simp: stage_def split: if_splits)
  then obtain r1 where r1: "stage_step m key low high ns 0 [fallback, fallback] = Inr r1" "stage_step m key low high ns 1 r1 = Inr r"
    by (auto simp: bindE_Inr_iff)
  obtain v where v: "r1 = [fallback, fallback][0 := v]" "low \<le> v" "v \<le> high" using stage_step_Inr [OF r1(1) assms(2,3)] by blast
  obtain w where w: "r = r1[1 := w]" "low \<le> w" "w \<le> high" using stage_step_Inr [OF r1(2) assms(2,3)] by blast
  show ?thesis using v w by (auto simp: less_2_cases_iff)
qed

text \<open>A finite double is not a NaN.\<close>

lemma f64_finite_not_nan:
  assumes "f64_finite v"
  shows "\<not> f64_nan v"
proof
  assume nan: "f64_nan v"
  have m: "(0x7ff0000000000000 :: f64) = push_bit 52 (mask 11)" by (simp add: mask_numeral push_bit_numeral)
  have "v AND 0x7ff0000000000000 = push_bit 52 (take_bit 11 (drop_bit 52 v))"
    unfolding m by (rule bit_word_eqI) (auto simp: bit_simps)
  moreover have "take_bit 11 (drop_bit 52 v) = mask 11"
  proof -
    have e: "f64_mag v = take_bit 63 (uint v)" by (simp add: f64_mag_def unsigned_take_bit_eq)
    have lt: "f64_mag v < 2 ^ 63" unfolding e by (rule take_bit_int_less_exp)
    have ge: "0x7ff0000000000000 < f64_mag v" using nan by (simp add: f64_nan_def)
    have "uint (take_bit 11 (drop_bit 52 v)) = take_bit 11 (drop_bit 52 (uint v))"
      by (simp add: unsigned_take_bit_eq unsigned_drop_bit_eq take_bit_drop_bit min_def take_bit_int_eq_self)
    also have "\<dots> = drop_bit 52 (take_bit 63 (uint v))" by (simp add: drop_bit_take_bit)
    also have "\<dots> = f64_mag v div 2 ^ 52" unfolding e by (simp add: drop_bit_eq_div)
    also have "\<dots> = 2047" using lt ge by simp
    finally have "uint (take_bit 11 (drop_bit 52 v)) = 2047" .
    then show ?thesis by (simp add: word_uint_eq_iff mask_numeral)
  qed
  ultimately have "v AND 0x7ff0000000000000 = 0x7ff0000000000000" unfolding m by simp
  then show False using assms by (simp add: f64_finite_def)
qed

lemma f64_not_lt: "\<not> f64_nan a \<Longrightarrow> \<not> f64_nan b \<Longrightarrow> \<not> f64_lt a b \<longleftrightarrow> f64_le b a"
  by (auto simp: f64_lt_def f64_le_def)

lemma f64_constants [simp]:
  "\<not> f64_nan f64_zero" "\<not> f64_nan f64_one" "\<not> f64_nan f64_float_max" "\<not> f64_nan f64_minus_one" "\<not> f64_nan f64_0_6" "\<not> f64_nan f64_0_32"
  "f64_key f64_zero = 0" "f64_key f64_minus_one < 0" "0 < f64_key f64_0_6" "f64_key f64_0_6 < f64_key f64_one" "0 < f64_key f64_0_32"
  "0 < f64_key f64_one" "f64_finite f64_0_6" "f64_finite f64_0_32" "f64_finite f64_one"
  by (simp_all add: f64_nan_def f64_mag_def f64_key_def f64_zero_def f64_one_def f64_float_max_def f64_minus_one_def f64_0_6_def f64_0_32_def
      f64_finite_def)

subsection \<open>An accepted NLH request\<close>

definition coefficient_ok :: "f64 \<Rightarrow> bool" where
  "coefficient_ok v \<longleftrightarrow> v = f64_minus_one \<or> f64_finite v \<and> f64_le f64_zero v"

definition nlh_request_ok :: "nlh_options \<Rightarrow> bool" where
  "nlh_request_ok r \<longleftrightarrow>
     length (no_block r) = 2 \<and> length (no_step r) = 2 \<and> length (no_group r) = 2 \<and> length (no_q r) = 2 \<and> length (no_window r) = 2 \<and>
     (\<forall>s < 2. (no_block r ! s = 0 \<or> 2 \<le> no_block r ! s \<and> no_block r ! s \<le> 16) \<and>
       (no_step r ! s = 0 \<or> 1 \<le> no_step r ! s \<and> no_step r ! s \<le> 16) \<and>
       (no_group r ! s = 0 \<or> 2 \<le> no_group r ! s \<and> no_group r ! s \<le> 64) \<and> pow2_or_zero (no_group r ! s) \<and>
       (no_q r ! s = 0 \<or> 2 \<le> no_q r ! s \<and> no_q r ! s \<le> 16) \<and> pow2_or_zero (no_q r ! s) \<and>
       (no_window r ! s = 0 \<or> 1 \<le> no_window r ! s \<and> no_window r ! s \<le> 129)) \<and>
     (no_basic_iterations r = 0 \<or> 1 \<le> no_basic_iterations r \<and> no_basic_iterations r \<le> 64) \<and>
     (no_wiener_iterations r = 0 \<or> 1 \<le> no_wiener_iterations r \<and> no_wiener_iterations r \<le> 64) \<and>
     0 \<le> no_radius r \<and> no_radius r \<le> 16 \<and> 1 \<le> no_ps_num r \<and> 1 \<le> no_ps_range r \<and> no_ps_range r \<le> 64 \<and>
     coefficient_ok (no_basic_mix r) \<and> (no_basic_mix r \<noteq> f64_minus_one \<longrightarrow> f64_le (no_basic_mix r) f64_one) \<and>
     coefficient_ok (no_hard_strength r) \<and> coefficient_ok (no_wiener_sigma_scale r)"

lemma window_Inr:
  assumes "(if present m ''bm_range'' then bindE (integer m ''bm_range'' 0 1 64 ns) (\<lambda>v. Inr [2 * v + 1, 2 * v + 1])
            else stage m ''search_window'' 0 1 129 ns) = Inr w"
  shows "length w = 2 \<and> (\<forall>s < 2. w ! s = 0 \<or> 1 \<le> w ! s \<and> w ! s \<le> 129)"
proof (cases "present m ''bm_range''")
  case True
  then obtain v where "integer m ''bm_range'' 0 1 64 ns = Inr v" "w = [2 * v + 1, 2 * v + 1]" using assms by (auto simp: bindE_Inr_iff)
  then show ?thesis using integer_Inr [of m "''bm_range''" 0 1 64 ns v] by (auto simp: less_2_cases_iff)
next
  case False
  then have "stage m ''search_window'' 0 1 129 ns = Inr w" using assms by simp
  from stage_Inr [OF this] show ?thesis by (simp add: int_min_def int_max_def)
qed

lemma parse_nlh_ok:
  assumes "parse_nlh m vi given d ns = Inr p"
  shows "nlh_request_ok (fi_nlh p) \<and> fi_estimate p = (\<not> given) \<and> fi_sigma p = fi_sigma d \<and> fi_sigma_units p = fi_sigma_units d"
proof -
  have i32: "int_min \<le> 1" "int_min \<le> 2" "16 \<le> int_max" "64 \<le> int_max" by (simp_all add: int_min_def int_max_def)
  obtain nm block step g q w radius ps psr bi wi bm hs ws where
    b: "stage m ''block_size'' 0 2 16 ns = Inr block" and st: "stage m ''block_step'' 0 1 16 ns = Inr step"
    and g: "stage m ''group_size'' 0 2 64 ns = Inr g" and q: "stage m ''q'' 0 2 16 ns = Inr q"
    and w: "(if present m ''bm_range'' then bindE (integer m ''bm_range'' 0 1 64 ns) (\<lambda>v. Inr [2 * v + 1, 2 * v + 1])
            else stage m ''search_window'' 0 1 129 ns) = Inr w"
    and inv: "\<not> (\<exists>s \<in> {0, 1}. nlh_stage_invalid (g ! s) (q ! s) (block ! s) (step ! s))"
    and i: "integer m ''radius'' 0 0 16 ns = Inr radius" "integer m ''ps_range'' 4 1 64 ns = Inr psr"
      "integer m ''basic_iters'' 0 1 64 ns = Inr bi" "integer m ''wiener_iters'' 0 1 64 ns = Inr wi"
    and ps: "integer m ''ps_num'' 2 1 (min (if g ! 0 \<noteq> 0 then g ! 0 else 64) (if g ! 1 \<noteq> 0 then g ! 1 else 64)) ns = Inr ps"
    and r: "real_arg m ''lambda_basic'' f64_minus_one f64_zero f64_one ns = Inr bm"
      "real_arg m ''hard_strength'' f64_minus_one f64_zero f64_float_max ns = Inr hs"
      "real_arg m ''wiener_sigma_scale'' f64_minus_one f64_zero f64_float_max ns = Inr ws"
    and p: "p = d\<lparr>fi_estimate := \<not> given,
              fi_nlh := \<lparr>no_block = block, no_step = step, no_group = g, no_q = q, no_window = w,
                no_basic_iterations = bi, no_wiener_iterations = wi, no_radius = radius,
                no_ps_num = ps, no_ps_range = psr, no_basic_mix = bm, no_hard_strength = hs,
                no_wiener_sigma_scale = ws,
                no_real_noise = (nm = ''real'' \<or> nm = ''auto'' \<and> vi_family vi \<noteq> Cf_gray)\<rparr>\<rparr>"
    using assms unfolding parse_nlh_def bindE_Inr_iff if_fail_eq_Inr sum.inject by blast
  have fin: "coefficient_ok v" if "v = f64_minus_one \<or> f64_finite v \<and> \<not> f64_lt v f64_zero \<and> \<not> f64_lt hi v" for v hi
    using that f64_finite_not_nan f64_not_lt [of v f64_zero] by (auto simp: coefficient_ok_def)
  have one: "f64_le bm f64_one" if "bm \<noteq> f64_minus_one"
    using real_arg_Inr [OF r(1)] that f64_finite_not_nan f64_not_lt [of f64_one bm] by auto
  note iv = integer_Inr [OF i(1)] integer_Inr [OF i(2)] integer_Inr [OF i(3)] integer_Inr [OF i(4)] integer_Inr [OF ps]
  note sv = stage_Inr [OF b i32(2,3)] stage_Inr [OF st i32(1,3)] stage_Inr [OF g i32(2,4)] stage_Inr [OF q i32(2,3)] window_Inr [OF w]
  have pw: "pow2_or_zero (g ! s) \<and> pow2_or_zero (q ! s)" if "s < 2" for s
    using inv that by (auto simp: nlh_stage_invalid_def less_2_cases_iff)
  have "coefficient_ok bm" "coefficient_ok hs" "coefficient_ok ws"
    using fin [OF real_arg_Inr [OF r(1)]] fin [OF real_arg_Inr [OF r(2)]] fin [OF real_arg_Inr [OF r(3)]] by simp_all
  then have "nlh_request_ok (fi_nlh p)"
    unfolding p nlh_request_ok_def using iv sv pw one by (auto simp del: One_nat_def)
  then show ?thesis by (simp add: p)
qed

subsection \<open>The preset, resolved\<close>

definition resolved_block :: "int \<Rightarrow> nlh_options \<Rightarrow> nat \<Rightarrow> int" where
  "resolved_block available r s = (if no_block r ! s \<noteq> 0 then no_block r ! s else min (no_block kPreset ! s) available)"

definition resolved :: "int \<Rightarrow> nlh_options \<Rightarrow> nlh_options" where
  "resolved available r =
     (let or = (\<lambda>v d. if v \<noteq> 0 then v else d :: int)
      in r\<lparr>no_block := map (resolved_block available r) [0, 1],
           no_step := map (\<lambda>s. or (no_step r ! s) (min (no_step kPreset ! s) (resolved_block available r s))) [0, 1],
           no_group := map (\<lambda>s. or (no_group r ! s) 16) [0, 1], no_q := map (\<lambda>s. or (no_q r ! s) 4) [0, 1],
           no_window := map (\<lambda>s. or (no_window r ! s) (no_window kPreset ! s)) [0, 1],
           no_basic_iterations := or (no_basic_iterations r) 3, no_wiener_iterations := or (no_wiener_iterations r) 2,
           no_basic_mix := preset_or (no_basic_mix r) f64_0_6, no_hard_strength := preset_or (no_hard_strength r) f64_one,
           no_wiener_sigma_scale := preset_or (no_wiener_sigma_scale r) f64_0_32\<rparr>)"

text \<open>What a request that was accepted can still violate.\<close>

definition preset_fits :: "int \<Rightarrow> nlh_options \<Rightarrow> bool" where
  "preset_fits available r \<longleftrightarrow> 2 \<le> available \<and>
     (\<forall>s \<in> {0, 1}. no_block r ! s \<le> available \<and> no_step r ! s \<le> no_block r ! s \<and> no_q r ! s \<le> no_block r ! s * no_block r ! s) \<and>
     no_ps_num r \<le> min (no_group r ! 0) (no_group r ! 1)"

lemma pow2_presets [simp]: "pow2_or_zero 16" "pow2_or_zero 4"
  by (simp_all add: pow2_or_zero_def)

lemma square_ge:
  assumes "2 \<le> b"
  shows "4 \<le> b * (b :: int)"
  using mult_mono [of 2 b 2 b] assms by simp

lemma halve_preset: "2 \<le> b \<Longrightarrow> halve_to (b * b) 4 = 4"
  using square_ge [of b] by (simp add: halve_to.simps)

text \<open>One stage: its own entries are resolved, the other stage's are kept.\<close>

definition stage_done :: "int \<Rightarrow> nlh_options \<Rightarrow> nat \<Rightarrow> nlh_options \<Rightarrow> nlh_options" where
  "stage_done available r s t =
     (let v = resolved available r
      in t\<lparr>no_block := (no_block t)[s := no_block v ! s], no_step := (no_step t)[s := no_step v ! s], no_q := (no_q t)[s := no_q v ! s],
           no_group := (no_group t)[s := no_group v ! s], no_window := (no_window t)[s := no_window v ! s]\<rparr>)"

definition stage_fits :: "int \<Rightarrow> nlh_options \<Rightarrow> nat \<Rightarrow> bool" where
  "stage_fits available v s \<longleftrightarrow>
     no_block v ! s \<le> available \<and> no_step v ! s \<le> no_block v ! s \<and> no_q v ! s \<le> no_block v ! s * no_block v ! s"

lemma resolve_stage_spec:
  assumes ok: "nlh_request_ok r" and s: "s < 2" and a: "2 \<le> available"
    and t: "no_block t ! s = no_block r ! s" "no_step t ! s = no_step r ! s" "no_q t ! s = no_q r ! s" "no_group t ! s = no_group r ! s"
      "no_window t ! s = no_window r ! s" "length (no_block t) = 2"
  shows "resolve_stage available s t = Inr t' \<longleftrightarrow> stage_fits available (resolved available r) s \<and> t' = stage_done available r s t"
proof -
  let ?b = "resolved_block available r s" and ?v = "resolved available r"
  have s2: "s = 0 \<or> s = 1" using s by auto
  have req: "no_block r ! s = 0 \<or> 2 \<le> no_block r ! s \<and> no_block r ! s \<le> 16" "no_step r ! s = 0 \<or> 1 \<le> no_step r ! s"
    "no_group r ! s = 0 \<or> 2 \<le> no_group r ! s \<and> no_group r ! s \<le> 64" "pow2_or_zero (no_group r ! s)"
    "no_q r ! s = 0 \<or> 2 \<le> no_q r ! s \<and> no_q r ! s \<le> 16" "pow2_or_zero (no_q r ! s)"
    "no_window r ! s = 0 \<or> 1 \<le> no_window r ! s \<and> no_window r ! s \<le> 129"
    using ok s unfolding nlh_request_ok_def by blast+
  have pre: "no_block kPreset ! s = 8 \<or> no_block kPreset ! s = 16" "no_step kPreset ! s = 6 \<or> no_step kPreset ! s = 15"
    "no_group kPreset ! s = 16" "no_q kPreset ! s = 4" "no_window kPreset ! s = 24 \<or> no_window kPreset ! s = 16"
    using s2 by (auto simp: kPreset_def default_nlh_options_def)
  have b: "2 \<le> ?b" "?b \<le> 16" using req(1) pre(1) a by (auto simp: resolved_block_def)
  have v: "no_block ?v ! s = ?b" "no_step ?v ! s = (if no_step r ! s \<noteq> 0 then no_step r ! s else min (no_step kPreset ! s) ?b)"
    "no_group ?v ! s = (if no_group r ! s \<noteq> 0 then no_group r ! s else 16)" "no_q ?v ! s = (if no_q r ! s \<noteq> 0 then no_q r ! s else 4)"
    "no_window ?v ! s = (if no_window r ! s \<noteq> 0 then no_window r ! s else no_window kPreset ! s)"
    using s2 by (auto simp: resolved_def Let_def)
  have tb: "(no_block t)[s := ?b] ! s = ?b" using t(6) s by simp
  have blk: "(if no_block t ! s \<noteq> 0 then no_block t ! s else min (no_block kPreset ! s) available) = ?b" by (simp add: t(1) resolved_block_def)
  have q: "(if no_q t ! s = 0 then halve_to (?b * ?b) (no_q kPreset ! s) else no_q t ! s) = no_q ?v ! s"
    using halve_preset [OF b(1)] by (simp add: t(3) v(4) pre(4))
  have g: "(if no_group t ! s \<noteq> 0 then no_group t ! s else no_group kPreset ! s) = no_group ?v ! s" by (simp add: t(4) v(3) pre(3))
  have w: "(if no_window t ! s \<noteq> 0 then no_window t ! s else no_window kPreset ! s) = no_window ?v ! s" by (simp add: t(5) v(5))
  have st: "(if no_step t ! s \<noteq> 0 then no_step t ! s else min (no_step kPreset ! s) ?b) = no_step ?v ! s" by (simp add: t(2) v(2))
  have rng: "\<not> (no_q ?v ! s < 2 \<or> no_q ?v ! s > 16 \<or> \<not> pow2_or_zero (no_q ?v ! s))"
    "\<not> (no_group ?v ! s < 2 \<or> no_group ?v ! s > 64 \<or> \<not> pow2_or_zero (no_group ?v ! s))"
    "\<not> no_step ?v ! s < 1" "\<not> (no_window ?v ! s < 1 \<or> no_window ?v ! s > 129)"
  proof -
    show "\<not> (no_q ?v ! s < 2 \<or> no_q ?v ! s > 16 \<or> \<not> pow2_or_zero (no_q ?v ! s))" using req(5,6) unfolding v by auto
    show "\<not> (no_group ?v ! s < 2 \<or> no_group ?v ! s > 64 \<or> \<not> pow2_or_zero (no_group ?v ! s))" using req(3,4) unfolding v by auto
    show "\<not> no_step ?v ! s < 1" using req(2) pre(2) b(1) unfolding v by (cases "no_step r ! s = 0") auto
    show "\<not> (no_window ?v ! s < 1 \<or> no_window ?v ! s > 129)" using req(7) pre(5) unfolding v by (cases "no_window r ! s = 0") auto
  qed
  let ?shape = "no_q ?v ! s < 2 \<or> no_q ?v ! s > 16 \<or> \<not> pow2_or_zero (no_q ?v ! s) \<or> no_q ?v ! s > ?b * ?b \<or> no_group ?v ! s < 2 \<or>
      no_group ?v ! s > 64 \<or> \<not> pow2_or_zero (no_group ?v ! s) \<or> no_step ?v ! s < 1 \<or> no_step ?v ! s > ?b \<or> no_window ?v ! s < 1 \<or>
      no_window ?v ! s > 129"
  have upd: "no_step (t\<lparr>no_block := b\<rparr>) = no_step t" "no_q (t\<lparr>no_block := b\<rparr>) = no_q t" "no_group (t\<lparr>no_block := b\<rparr>) = no_group t"
    "no_window (t\<lparr>no_block := b\<rparr>) = no_window t" for b by simp_all
  have e: "resolve_stage available s t =
      (if ?b < 2 \<or> ?b > 16 \<or> ?b > available then Inl (Invalid_argument ''nss.NLH: invalid resolved block_size'')
       else if ?shape then Inl (Invalid_argument ''nss.NLH: invalid resolved stage shape'') else Inr (stage_done available r s t))"
    unfolding resolve_stage_def Let_def blk stage_done_def v(1) by (simp only: upd q g w st)
  have sh: "?shape \<longleftrightarrow> no_q ?v ! s > ?b * ?b \<or> no_step ?v ! s > ?b" using rng by blast
  have bb: "?b < 2 \<or> ?b > 16 \<or> ?b > available \<longleftrightarrow> ?b > available" using b by linarith
  show ?thesis unfolding e sh bb stage_fits_def v(1) not_less [symmetric] by (auto simp only: if_Inl_eq_Inr sum.inject)
qed

text \<open>Both stages.\<close>

lemma resolve_stages:
  assumes ok: "nlh_request_ok r" and a: "2 \<le> available"
  shows "foldE (resolve_stage available) [0, 1] r = Inr t \<longleftrightarrow>
    stage_fits available (resolved available r) 0 \<and> stage_fits available (resolved available r) 1 \<and>
    t = stage_done available r 1 (stage_done available r 0 r)"
proof -
  let ?t = "stage_done available r 0 r"
  have l: "length (no_block r) = 2" using ok by (simp add: nlh_request_ok_def)
  have keep: "no_block ?t ! 1 = no_block r ! 1" "no_step ?t ! 1 = no_step r ! 1" "no_q ?t ! 1 = no_q r ! 1" "no_group ?t ! 1 = no_group r ! 1"
    "no_window ?t ! 1 = no_window r ! 1" "length (no_block ?t) = 2"
    by (simp_all add: stage_done_def Let_def l)
  have z: "(0::nat) < 2" "(1::nat) < 2" by simp_all
  note s0 = resolve_stage_spec [OF ok z(1) a refl refl refl refl refl l]
  note s1 = resolve_stage_spec [OF ok z(2) a keep]
  have "foldE (resolve_stage available) [0, 1] r = Inr t \<longleftrightarrow>
      (\<exists>t0. resolve_stage available 0 r = Inr t0 \<and> resolve_stage available 1 t0 = Inr t)"
    by (auto simp: bindE_Inr_iff)
  then show ?thesis unfolding s0 using s1 by blast
qed

lemma stages_resolved:
  fixes available :: int
  assumes ok: "nlh_request_ok r"
  defines "t \<equiv> stage_done available r 1 (stage_done available r 0 r)"
  shows "no_block t = no_block (resolved available r)" "no_step t = no_step (resolved available r)" "no_q t = no_q (resolved available r)"
    "no_group t = no_group (resolved available r)" "no_window t = no_window (resolved available r)"
proof -
  have pair: "length xs = 2 \<Longrightarrow> length ys = 2 \<Longrightarrow> xs[0 := ys ! 0, 1 := ys ! 1] = ys" for xs ys :: "int list"
    by (rule nth_equalityI) (auto simp: less_2_cases_iff)
  note l = ok [unfolded nlh_request_ok_def]
  have lr: "length (no_block (resolved available r)) = 2" "length (no_step (resolved available r)) = 2" "length (no_q (resolved available r)) = 2"
    "length (no_group (resolved available r)) = 2" "length (no_window (resolved available r)) = 2"
    by (simp_all add: resolved_def Let_def)
  show "no_block t = no_block (resolved available r)" "no_step t = no_step (resolved available r)" "no_q t = no_q (resolved available r)"
    "no_group t = no_group (resolved available r)" "no_window t = no_window (resolved available r)"
    unfolding t_def stage_done_def Let_def using l pair lr by simp_all
qed

lemma coefficient_resolved:
  assumes "coefficient_ok v" "f64_finite d" "f64_le f64_zero d"
  shows "f64_le f64_zero (preset_or v d)" "f64_finite (preset_or v d)"
    "(v \<noteq> f64_minus_one \<longrightarrow> f64_le v f64_one) \<Longrightarrow> f64_le d f64_one \<Longrightarrow> f64_le (preset_or v d) f64_one"
proof -
  have "f64_eq v f64_minus_one \<longleftrightarrow> v = f64_minus_one"
  proof
    assume e: "f64_eq v f64_minus_one"
    show "v = f64_minus_one"
    proof (rule ccontr)
      assume "v \<noteq> f64_minus_one"
      then have "f64_le f64_zero v" using assms(1) by (simp add: coefficient_ok_def)
      then show False using e f64_constants(8) by (simp add: f64_le_def f64_eq_def)
    qed
  qed (simp add: f64_eq_def)
  then have p: "preset_or v d = (if v = f64_minus_one then d else v)" by (simp add: preset_or_def)
  show "f64_le f64_zero (preset_or v d)" "f64_finite (preset_or v d)" using assms unfolding p by (auto simp: coefficient_ok_def)
  show "f64_le (preset_or v d) f64_one" if "v \<noteq> f64_minus_one \<longrightarrow> f64_le v f64_one" "f64_le d f64_one"
    using that unfolding p by auto
qed

lemma resolve_preset_spec:
  assumes ok: "nlh_request_ok r"
  shows "nlh_resolve_preset available r = Inr v \<longleftrightarrow> preset_fits available (resolved available r) \<and> v = resolved available r"
proof (cases "available < 2")
  case True
  then show ?thesis by (simp add: nlh_resolve_preset_def preset_fits_def)
next
  case False
  then have a: "2 \<le> available" by simp
  let ?v = "resolved available r" and ?t = "stage_done available r 1 (stage_done available r 0 r)"
  have tf: "no_basic_iterations ?t = no_basic_iterations r" "no_wiener_iterations ?t = no_wiener_iterations r" "no_basic_mix ?t = no_basic_mix r"
    "no_hard_strength ?t = no_hard_strength r" "no_wiener_sigma_scale ?t = no_wiener_sigma_scale r" "no_radius ?t = no_radius r"
    "no_ps_num ?t = no_ps_num r" "no_ps_range ?t = no_ps_range r" "no_real_noise ?t = no_real_noise r"
    by (simp_all add: stage_done_def Let_def)
  have pr: "no_basic_iterations kPreset = 3" "no_wiener_iterations kPreset = 2" "no_basic_mix kPreset = f64_0_6" "no_hard_strength kPreset = f64_one"
    "no_wiener_sigma_scale kPreset = f64_0_32" by (simp_all add: kPreset_def)
  let ?u = "?t\<lparr>no_basic_iterations := (if no_basic_iterations ?t \<noteq> 0 then no_basic_iterations ?t else no_basic_iterations kPreset),
                  no_wiener_iterations := (if no_wiener_iterations ?t \<noteq> 0 then no_wiener_iterations ?t else no_wiener_iterations kPreset),
                  no_basic_mix := preset_or (no_basic_mix ?t) (no_basic_mix kPreset),
                  no_hard_strength := preset_or (no_hard_strength ?t) (no_hard_strength kPreset),
                  no_wiener_sigma_scale := preset_or (no_wiener_sigma_scale ?t) (no_wiener_sigma_scale kPreset)\<rparr>"
  have eq: "?u = ?v"
    by (rule nlh_options.equality)
      (simp_all del: One_nat_def add: stages_resolved [OF ok] tf pr, simp_all add: resolved_def Let_def)
  note c = ok [unfolded nlh_request_ok_def]
  have le: "f64_le f64_zero f64_0_6" "f64_le f64_zero f64_one" "f64_le f64_zero f64_0_32" "f64_le f64_0_6 f64_one"
    by (simp_all add: f64_le_def order.strict_implies_order)
  have bm: "f64_le f64_zero (no_basic_mix ?v) \<and> f64_le (no_basic_mix ?v) f64_one" "f64_finite (no_basic_mix ?v)"
    and hs: "f64_le f64_zero (no_hard_strength ?v)" "f64_finite (no_hard_strength ?v)"
    and ws: "f64_le f64_zero (no_wiener_sigma_scale ?v)" "f64_finite (no_wiener_sigma_scale ?v)"
    using c coefficient_resolved [of "no_basic_mix r" f64_0_6] coefficient_resolved [of "no_hard_strength r" f64_one]
      coefficient_resolved [of "no_wiener_sigma_scale r" f64_0_32] le
    by (simp_all add: resolved_def Let_def)
  have it: "\<not> no_basic_iterations ?v < 1" "\<not> no_basic_iterations ?v > 64" "\<not> no_wiener_iterations ?v < 1" "\<not> no_wiener_iterations ?v > 64"
    "\<not> no_radius ?v < 0" "\<not> no_radius ?v > 16" "\<not> no_ps_num ?v < 1" "\<not> no_ps_range ?v < 1" "\<not> no_ps_range ?v > 64"
    using c by (auto simp: resolved_def Let_def)
  have "nlh_resolve_preset available r = Inr v \<longleftrightarrow> stage_fits available ?v 0 \<and> stage_fits available ?v 1 \<and>
      \<not> no_ps_num ?v > min (no_group ?v ! 0) (no_group ?v ! 1) \<and> v = ?v"
    unfolding nlh_resolve_preset_def Let_def
    by (simp only: False if_False bindE_Inr_iff resolve_stages [OF ok a])
      (auto simp only: eq bm hs ws it if_Inl_eq_Inr sum.inject simp_thms)
  then show ?thesis using a by (auto simp: preset_fits_def stage_fits_def not_less)
qed

subsection \<open>Properties\<close>

text \<open>The shapes NLH runs with.\<close>

definition nlh_shapes_ok :: "nlh_options \<Rightarrow> bool" where
  "nlh_shapes_ok v \<longleftrightarrow>
     (\<forall>s < 2. 2 \<le> no_block v ! s \<and> no_block v ! s \<le> 16 \<and> 1 \<le> no_step v ! s \<and> no_step v ! s \<le> no_block v ! s \<and>
       2 \<le> no_q v ! s \<and> no_q v ! s \<le> 16 \<and> pow2_or_zero (no_q v ! s) \<and> no_q v ! s \<le> no_block v ! s * no_block v ! s \<and>
       2 \<le> no_group v ! s \<and> no_group v ! s \<le> 64 \<and> pow2_or_zero (no_group v ! s) \<and> no_ps_num v \<le> no_group v ! s \<and>
       1 \<le> no_window v ! s \<and> no_window v ! s \<le> 129) \<and>
     1 \<le> no_ps_num v \<and> 1 \<le> no_ps_range v \<and> no_ps_range v \<le> 64 \<and> 0 \<le> no_radius v \<and> no_radius v \<le> 16"

lemma resolved_shapes_ok:
  assumes ok: "nlh_request_ok r" and fits: "preset_fits available (resolved available r)"
  shows "nlh_shapes_ok (resolved available r)"
proof -
  let ?v = "resolved available r"
  have a: "2 \<le> available" using fits by (simp add: preset_fits_def)
  have st: "2 \<le> no_block ?v ! s \<and> no_block ?v ! s \<le> 16 \<and> 1 \<le> no_step ?v ! s \<and> no_step ?v ! s \<le> no_block ?v ! s \<and>
       2 \<le> no_q ?v ! s \<and> no_q ?v ! s \<le> 16 \<and> pow2_or_zero (no_q ?v ! s) \<and> no_q ?v ! s \<le> no_block ?v ! s * no_block ?v ! s \<and>
       2 \<le> no_group ?v ! s \<and> no_group ?v ! s \<le> 64 \<and> pow2_or_zero (no_group ?v ! s) \<and> no_ps_num ?v \<le> no_group ?v ! s \<and>
       1 \<le> no_window ?v ! s \<and> no_window ?v ! s \<le> 129" if s: "s < 2" for s
  proof -
    let ?b = "resolved_block available r s"
    have s2: "s = 0 \<or> s = 1" using s by auto
    have req: "no_block r ! s = 0 \<or> 2 \<le> no_block r ! s \<and> no_block r ! s \<le> 16" "no_step r ! s = 0 \<or> 1 \<le> no_step r ! s"
      "no_group r ! s = 0 \<or> 2 \<le> no_group r ! s \<and> no_group r ! s \<le> 64" "pow2_or_zero (no_group r ! s)"
      "no_q r ! s = 0 \<or> 2 \<le> no_q r ! s \<and> no_q r ! s \<le> 16" "pow2_or_zero (no_q r ! s)"
      "no_window r ! s = 0 \<or> 1 \<le> no_window r ! s \<and> no_window r ! s \<le> 129"
      using ok s unfolding nlh_request_ok_def by blast+
    have pre: "no_block kPreset ! s = 8 \<or> no_block kPreset ! s = 16" "no_step kPreset ! s = 6 \<or> no_step kPreset ! s = 15"
      "no_window kPreset ! s = 24 \<or> no_window kPreset ! s = 16"
      using s2 by (auto simp: kPreset_def default_nlh_options_def)
    have v: "no_block ?v ! s = ?b" "no_step ?v ! s = (if no_step r ! s \<noteq> 0 then no_step r ! s else min (no_step kPreset ! s) ?b)"
      "no_group ?v ! s = (if no_group r ! s \<noteq> 0 then no_group r ! s else 16)" "no_q ?v ! s = (if no_q r ! s \<noteq> 0 then no_q r ! s else 4)"
      "no_window ?v ! s = (if no_window r ! s \<noteq> 0 then no_window r ! s else no_window kPreset ! s)"
      using s2 by (auto simp: resolved_def Let_def)
    have b: "2 \<le> no_block ?v ! s" "no_block ?v ! s \<le> 16" using req(1) pre(1) a by (auto simp: resolved_block_def v)
    have "1 \<le> no_step ?v ! s" using req(2) pre(2) b(1) unfolding v by (cases "no_step r ! s = 0") auto
    moreover have "2 \<le> no_q ?v ! s" "no_q ?v ! s \<le> 16" "pow2_or_zero (no_q ?v ! s)" using req(5,6) unfolding v by auto
    moreover have "2 \<le> no_group ?v ! s" "no_group ?v ! s \<le> 64" "pow2_or_zero (no_group ?v ! s)" using req(3,4) unfolding v by auto
    moreover have "1 \<le> no_window ?v ! s" "no_window ?v ! s \<le> 129" using req(7) pre(3) unfolding v by (cases "no_window r ! s = 0"; auto)+
    moreover have "no_step ?v ! s \<le> no_block ?v ! s" "no_q ?v ! s \<le> no_block ?v ! s * no_block ?v ! s" "no_ps_num ?v \<le> no_group ?v ! s"
      using fits s2 unfolding preset_fits_def by auto
    ultimately show ?thesis using b by blast
  qed
  have "1 \<le> no_ps_num ?v \<and> 1 \<le> no_ps_range ?v \<and> no_ps_range ?v \<le> 64 \<and> 0 \<le> no_radius ?v \<and> no_radius ?v \<le> 16"
    using ok by (simp add: nlh_request_ok_def resolved_def Let_def)
  then show ?thesis using st unfolding nlh_shapes_ok_def by blast
qed

lemma parse_full_nlh_ok:
  assumes "parse_full_image h F m vi rv M_nlh ns = Inr p"
  shows "nlh_request_ok (fi_nlh p)"
proof -
  obtain u where "parse_nlh m vi (present m ''sigma'')
      (default_full_image_params\<lparr>fi_sigma := map_float_array F m ''sigma'' (replicate 3 kDefaultSigma) (vi_planes vi) kDefaultSigma,
        fi_sigma_units := u\<rparr>) ns = Inr p"
    using assms unfolding parse_full_image_def Let_def bindE_Inr_iff fail_plain_simps by auto
  from parse_nlh_ok [OF this] show ?thesis by blast
qed

text \<open>
  C38. The preset of an accepted NLH call resolves exactly when, for the smallest filtered
  dimension, the resolved blocks fit, the steps do not exceed them, the row counts do not
  exceed their areas and the predictive count does not exceed a resolved group; nothing
  else of the call can be refused then. Values given are kept, omitted ones come from the
  preset, and the shapes the kernels receive are valid in both stages.
\<close>

theorem nlh_preset_exact:
  assumes "parse_full_image h F m vi rv M_nlh ns = Inr p"
  shows "(nlh_resolve_preset available (fi_nlh p) = Inr v \<longleftrightarrow>
      preset_fits available (resolved available (fi_nlh p)) \<and> v = resolved available (fi_nlh p)) \<and>
    (preset_fits available (resolved available (fi_nlh p)) \<longrightarrow> nlh_shapes_ok (resolved available (fi_nlh p)))"
  using resolve_preset_spec [OF parse_full_nlh_ok [OF assms]] resolved_shapes_ok [OF parse_full_nlh_ok [OF assms]] by blast

text \<open>
  The witness is a call whose predictive count exceeds the preset's group: it is accepted at
  creation, where a blind call is only checked for planes of 8x8, and no frame of it can be
  resolved.
\<close>

definition ps_map :: vsmap where
  "ps_map = empty_map\<lparr>vm_keys := [''ps_num''], vm_type := (\<lambda>k. if k = ''ps_num'' then Pt_int else Pt_other),
     vm_count := (\<lambda>k. if k = ''ps_num'' then 1 else - 1),
     vm_int := (\<lambda>k i. if k = ''ps_num'' \<and> i = 0 then Some 32 else None)\<rparr>"

definition full_arith :: farith where "full_arith = example_arith\<lparr>fdiv := (\<lambda>_ _. f32_one)\<rparr>"

definition example_double :: darith where "example_double = \<lparr>d_add = (+), d_mul = (*), d_sqrt = (\<lambda>v. v)\<rparr>"

lemma full_arith_facts [simp]: "f32_lt f32_zero (fdiv full_arith a b)" "\<not> f64_lt f64_3 f64_zero"
  by (simp_all add: full_arith_def f32_lt_def f32_key_def f32_mag_def f32_neg_def f32_zero_def f32_one_def f32_nan_def
      f64_lt_def f64_key_def f64_mag_def f64_3_def f64_zero_def)

lemmas example_full = parse_full_image_def Let_def present_def is_const_32f_def example_helpers_def gray_clip_def int_max_def empty_map_def
  sigma_unit_def map_float_array_def integer_def stage_def real_arg_def map_int_def to_int32_def pow2_or_zero_def nlh_stage_invalid_def
  default_full_image_params_def

lemma parse_ps_map:
  "\<exists>p. parse_full_image example_helpers full_arith ps_map gray_clip None M_nlh ''nss'' = Inr p \<and> fi_estimate p \<and>
    no_ps_num (fi_nlh p) = 32 \<and> no_group (fi_nlh p) = [0, 0]"
  by (simp add: example_full ps_map_def parse_nlh_def noise_model_def)

theorem nlh_preset_exact_witness:
  "\<exists>p. parse_full_image example_helpers full_arith ps_map gray_clip None M_nlh ''nss'' = Inr p \<and>
     validate_full_image_geometry full_arith example_double p gray_clip M_nlh ''nss'' = Inr () \<and>
     (\<forall>available v. nlh_resolve_preset available (fi_nlh p) \<noteq> Inr v)"
proof -
  obtain p where p: "parse_full_image example_helpers full_arith ps_map gray_clip None M_nlh ''nss'' = Inr p" "fi_estimate p"
    "no_ps_num (fi_nlh p) = 32" "no_group (fi_nlh p) = [0, 0]"
    using parse_ps_map by blast
  have "\<not> preset_fits a (resolved a (fi_nlh p))" for a using p(3,4) by (simp add: preset_fits_def resolved_def Let_def)
  then have "nlh_resolve_preset available (fi_nlh p) \<noteq> Inr v" for available v using nlh_preset_exact [OF p(1), of available v] by blast
  moreover have "validate_full_image_geometry full_arith example_double p gray_clip M_nlh ''nss'' = Inr ()"
    using p(2) by (simp add: validate_full_image_geometry_def gray_clip_def plane_width_def plane_height_def)
  ultimately show ?thesis using p(1) by blast
qed

lemma check_stages_Inr:
  assumes "foldE (check_stage vi ns sigma) stages () = Inr u" "(block, step) \<in> set stages"
  shows "step \<le> block \<and> (\<forall>c < nat (vi_planes vi). f32_lt f32_zero (sigma ! c) \<longrightarrow>
    block \<le> plane_width vi (int c) \<and> block \<le> plane_height vi (int c))"
proof -
  have "check_stage vi ns sigma (block, step) () = Inr ()" using foldE_unit_all [OF assms(1)] assms(2) by blast
  then have s: "\<not> step > block" and f: "foldE (\<lambda>c u. if f32_lt f32_zero (sigma ! c) \<and> (plane_width vi (int c) < block \<or> plane_height vi (int c) < block)
                     then fail_plain ns ''selected plane is smaller than block_size'' else Inr u) [0..<nat (vi_planes vi)] () = Inr ()"
    by (simp_all add: check_stage_def)
  from foldE_unit_all [OF f] have "\<not> (f32_lt f32_zero (sigma ! c) \<and> (plane_width vi (int c) < block \<or> plane_height vi (int c) < block))"
    if "c < nat (vi_planes vi)" for c using that by auto
  then show ?thesis using s by force
qed

lemma available_min:
  assumes "foldE (available_step F D vi ns sigma units) cs a = Inr b"
  shows "b \<le> a \<and> (\<forall>c \<in> set cs. f32_lt f32_zero (sigma ! c) \<longrightarrow> b \<le> plane_width vi (int c) \<and> b \<le> plane_height vi (int c))"
  using assms
proof (induction cs arbitrary: a)
  case Nil
  then show ?case by simp
next
  case (Cons c cs)
  obtain a' where a': "available_step F D vi ns sigma units c a = Inr a'" "foldE (available_step F D vi ns sigma units) cs a' = Inr b"
    using Cons.prems by (auto simp: bindE_Inr_iff)
  have e: "a' = (if f32_lt f32_zero (sigma ! c) then min a (min (plane_width vi (int c)) (plane_height vi (int c))) else a)"
    using a'(1) by (simp add: available_step_def Let_def)
  have ih: "b \<le> a'" "\<forall>c \<in> set cs. f32_lt f32_zero (sigma ! c) \<longrightarrow> b \<le> plane_width vi (int c) \<and> b \<le> plane_height vi (int c)"
    using Cons.IH [OF a'(2)] by simp_all
  have "b \<le> a" using ih(1) unfolding e by (simp split: if_splits)
  moreover have "f32_lt f32_zero (sigma ! c) \<longrightarrow> b \<le> plane_width vi (int c) \<and> b \<le> plane_height vi (int c)"
    using ih(1) unfolding e by (simp split: if_splits)
  ultimately show ?case using ih(2) by simp
qed



end
