(* ===== verification/Frames.thy ===== *)
theory Frames
  imports Pnlm_Plane Contribution Geometry
begin

text \<open>
  Frames of planes, and the copies the frame handlers make of planes they do not process:
  the plane itself, or its identity slices in a fat frame (\<open>temporal_identity\<close> of
  src/frontend/temporal.hpp). A plane is a buffer with a stride in bytes, as the API gives
  it; an unbounded buffer stands for the memory behind a plane pointer, so that rows are
  addressed as in the code.
\<close>

record vs_frame =
  vf_planes :: int
  vf_width :: "int \<Rightarrow> int"
  vf_height :: "int \<Rightarrow> int"
  vf_stride :: "int \<Rightarrow> int"
  vf_plane :: "int \<Rightarrow> buffer"
  vf_props :: props

text \<open>Rows of \<open>w\<close> floats, copied one after the other.\<close>

definition copy_rows :: "int \<Rightarrow> int \<Rightarrow> int \<Rightarrow> int \<Rightarrow> buffer \<Rightarrow> buffer \<Rightarrow> buffer" where
  "copy_rows w h dstride sstride src dst = fold (\<lambda>y. map_span (y * dstride) 0 w (\<lambda>x _. src (y * sstride + x))) [0..h - 1] dst"

definition temporal_identity :: "buffer \<Rightarrow> int \<Rightarrow> buffer \<Rightarrow> int \<Rightarrow> int \<Rightarrow> int \<Rightarrow> int \<Rightarrow> buffer" where
  "temporal_identity dst ds src ss w h radius =
     fold (\<lambda>t. fold (\<lambda>y dst.
         let num = (2 * t * h + y) * ds; den = num + h * ds;
             dst = map_span num 0 w (\<lambda>x _. if t = radius then src (y * ss + x) else f32_zero) dst
         in map_span den 0 w (\<lambda>_ _. if t = radius then f32_one else f32_zero) dst) [0..h - 1])
       [0..2 * radius] dst"

text \<open>
  Writing rows whose contents depend on the row only: in any order, repeated or not, a
  written row holds its contents and the others are kept.
\<close>

lemma row_spans_disjoint:
  fixes w ds x r r' :: int
  assumes "w \<le> ds" "0 \<le> x" "x < w" "r \<noteq> r'"
  shows "r' * ds + x < r * ds + 0 \<or> r * ds + w \<le> r' * ds + x"
proof (cases "r' < r")
  case True
  then have "(r' + 1) * ds \<le> r * ds" using assms by (intro mult_right_mono) auto
  then show ?thesis using assms by (simp add: distrib_right)
next
  case False
  then have "(r + 1) * ds \<le> r' * ds" using assms by (intro mult_right_mono) auto
  then show ?thesis using assms by (simp add: distrib_right)
qed

lemma fold_row_spans:
  assumes "w \<le> ds" "0 \<le> x" "x < w"
  shows "fold (\<lambda>r. map_span (r * ds) 0 w (\<lambda>k _. g r k)) rows b (r' * ds + x) = (if r' \<in> set rows then g r' x else b (r' * ds + x))"
proof (induction rows arbitrary: b)
  case Nil
  then show ?case by simp
next
  case (Cons r rows)
  have "map_span (r * ds) 0 w (\<lambda>k _. g r k) b (r' * ds + x) = (if r' = r then g r' x else b (r' * ds + x))"
  proof (cases "r' = r")
    case True
    then show ?thesis using assms by (simp add: map_span_def)
  next
    case False
    then show ?thesis using map_span_out [OF row_spans_disjoint [OF assms]] by auto
  qed
  then show ?case using Cons.IH [of "map_span (r * ds) 0 w (\<lambda>k _. g r k) b"] by auto
qed

lemma copy_rows_at:
  assumes "w \<le> dstride" "0 \<le> y" "y < h" "0 \<le> x" "x < w"
  shows "copy_rows w h dstride sstride src dst (y * dstride + x) = src (y * sstride + x)"
  unfolding copy_rows_def
  using fold_row_spans [OF assms(1,4,5), of "\<lambda>y x. src (y * sstride + x)" "[0..h - 1]" dst y] assms by simp

definition identity_row :: "buffer \<Rightarrow> int \<Rightarrow> int \<Rightarrow> int \<Rightarrow> int \<Rightarrow> int \<Rightarrow> f32" where
  "identity_row src ss h radius row x =
     (let slice = row div h; y = row mod h; t = slice div 2
      in if slice mod 2 = 0 then (if t = radius then src (y * ss + x) else f32_zero) else (if t = radius then f32_one else f32_zero))"

lemma identity_rows:
  assumes "0 \<le> y" "y < h"
  shows "identity_row src ss h radius (2 * t * h + y) x = (if t = radius then src (y * ss + x) else f32_zero)"
    "identity_row src ss h radius ((2 * t + 1) * h + y) x = (if t = radius then f32_one else f32_zero)"
proof -
  have n: "(2 * t * h + y) div h = 2 * t" "(2 * t * h + y) mod h = y" using assms by simp_all
  have d: "((2 * t + 1) * h + y) div h = 2 * t + 1" "((2 * t + 1) * h + y) mod h = y" using assms by simp_all
  show "identity_row src ss h radius (2 * t * h + y) x = (if t = radius then src (y * ss + x) else f32_zero)"
    unfolding identity_row_def n Let_def by simp
  show "identity_row src ss h radius ((2 * t + 1) * h + y) x = (if t = radius then f32_one else f32_zero)"
    unfolding identity_row_def d Let_def by simp
qed

text \<open>The slices of a plane that is not processed: the source and ones in the middle, zeros elsewhere.\<close>

lemma temporal_identity_at:
  assumes "w \<le> ds" "0 \<le> t" "t \<le> 2 * radius" "0 \<le> y" "y < h" "0 \<le> x" "x < w"
  shows "temporal_identity dst ds src ss w h radius ((2 * t * h + y) * ds + x) = (if t = radius then src (y * ss + x) else f32_zero)"
    "temporal_identity dst ds src ss w h radius (((2 * t + 1) * h + y) * ds + x) = (if t = radius then f32_one else f32_zero)"
proof -
  let ?g = "identity_row src ss h radius"
  let ?rows = "concat (map (\<lambda>t. concat (map (\<lambda>y. [2 * t * h + y, (2 * t + 1) * h + y]) [0..h - 1])) [0..2 * radius])"
  have step: "(let num = (2 * t * h + y) * ds; den = num + h * ds;
             b = map_span num 0 w (\<lambda>x _. if t = radius then src (y * ss + x) else f32_zero) b
         in map_span den 0 w (\<lambda>_ _. if t = radius then f32_one else f32_zero) b) =
      fold (\<lambda>r. map_span (r * ds) 0 w (\<lambda>k _. ?g r k)) [2 * t * h + y, (2 * t + 1) * h + y] b" if "y \<in> set [0..h - 1]" for t y b
  proof -
    have y: "0 \<le> y" "y < h" using that by auto
    have e: "((2 * t + 1) * h + y) * ds = (2 * t * h + y) * ds + h * ds" by (simp add: algebra_simps)
    show ?thesis unfolding Let_def by (simp add: identity_rows [OF y, of src ss radius t] e)
  qed
  have "temporal_identity dst ds src ss w h radius = fold (\<lambda>r. map_span (r * ds) 0 w (\<lambda>k _. ?g r k)) ?rows dst"
    unfolding temporal_identity_def fold_concat_map [symmetric]
    by (rule fold_cong_set, rule fold_cong_set) (rule step)
  then have at: "temporal_identity dst ds src ss w h radius (r * ds + x) = (if r \<in> set ?rows then ?g r x else dst (r * ds + x))" for r
    using fold_row_spans [OF assms(1,6,7), of ?g ?rows dst r] by simp
  have t: "t \<in> set [0..2 * radius]" and y: "y \<in> set [0..h - 1]" using assms(2-5) by auto
  have slice: "{2 * t * h + y, (2 * t + 1) * h + y} \<subseteq> set (concat (map (\<lambda>y. [2 * t * h + y, (2 * t + 1) * h + y]) [0..h - 1]))"
    using y by fastforce
  have "set (concat (map (\<lambda>y. [2 * t * h + y, (2 * t + 1) * h + y]) [0..h - 1])) \<subseteq> set ?rows"
    using t by fastforce
  then have "2 * t * h + y \<in> set ?rows" "(2 * t + 1) * h + y \<in> set ?rows" using slice by blast+
  then show "temporal_identity dst ds src ss w h radius ((2 * t * h + y) * ds + x) = (if t = radius then src (y * ss + x) else f32_zero)"
    "temporal_identity dst ds src ss w h radius (((2 * t + 1) * h + y) * ds + x) = (if t = radius then f32_one else f32_zero)"
    unfolding at using identity_rows [OF assms(4,5)] by simp_all
qed

end
