(* ===== verification/Ownership.thy ===== *)
theory Ownership
  imports Frames Resources
begin

text \<open>
  The frames a callback holds (\<open>FrameScope\<close> of src/frontend/ownership.hpp). Every frame the
  host hands over is entered in a table of 128 slots, then in a vector, and its bytes are
  charged to an account of the node's budget; the destructor frees what is left. A frame
  pointer is a number, 0 is null, the same pointer may be held several times.
\<close>

subsection \<open>State\<close>

record entry =
  en_frame :: nat
  en_bytes :: nat
  en_output :: bool

definition no_entry :: entry where
  "no_entry = \<lparr>en_frame = 0, en_bytes = 0, en_output = False\<rparr>"

record mirror =
  mi_frame :: nat
  mi_plane :: int
  mi_stride :: int
  mi_pixels :: buffer

text \<open>
  The last two fields are the host's side: the references it gave to the callback and has
  not got back, and of those the ones the callback passed on as its result. Without a budget
  there is no account, and \<open>acquire\<close> and \<open>release\<close> do nothing.
\<close>

record frame_scope =
  fs_inline :: "entry list"
  fs_spill :: "entry list"
  fs_outputs :: account
  fs_framework :: account
  fs_budget :: "budget option"
  fs_mirrors :: "mirror list"
  fs_refs :: "nat \<Rightarrow> int"
  fs_given :: "nat \<Rightarrow> int"

definition new_scope :: "budget option \<Rightarrow> frame_scope" where
  "new_scope b =
     \<lparr>fs_inline = replicate 128 no_entry, fs_spill = [], fs_outputs = new_account Output_kind,
      fs_framework = new_account Framework_kind, fs_budget = b, fs_mirrors = [], fs_refs = (\<lambda>_. 0), fs_given = (\<lambda>_. 0)\<rparr>"

subsection \<open>Operations\<close>

text \<open>\<open>api_->freeFrame\<close>.\<close>

definition api_free :: "nat \<Rightarrow> frame_scope \<Rightarrow> frame_scope" where
  "api_free frame s = s\<lparr>fs_refs := (fs_refs s)(frame := fs_refs s frame - 1)\<rparr>"

definition uncharge :: "entry \<Rightarrow> frame_scope \<Rightarrow> frame_scope" where
  "uncharge e s =
     (if en_output e
      then let (b, a) = release (en_bytes e) (fs_budget s) (fs_outputs s) in s\<lparr>fs_budget := b, fs_outputs := a\<rparr>
      else let (b, a) = release (en_bytes e) (fs_budget s) (fs_framework s) in s\<lparr>fs_budget := b, fs_framework := a\<rparr>)"

definition charge :: "bool \<Rightarrow> nat \<Rightarrow> frame_scope \<Rightarrow> frame_scope res" where
  "charge output bytes s =
     (if output
      then bindE (acquire bytes (fs_budget s) (fs_outputs s)) (\<lambda>(b, a). Inr (s\<lparr>fs_budget := b, fs_outputs := a\<rparr>))
      else bindE (acquire bytes (fs_budget s) (fs_framework s)) (\<lambda>(b, a). Inr (s\<lparr>fs_budget := b, fs_framework := a\<rparr>)))"

text \<open>The bytes of a frame: the conversion to \<open>std::size_t\<close> of a signed value is modulo \<open>2\<^sup>6\<^sup>4\<close>.\<close>

definition to_size :: "int \<Rightarrow> nat" where
  "to_size v = nat (v mod 2 ^ 64)"

definition frame_charge :: "vs_frame \<Rightarrow> nat res" where
  "frame_charge vf =
     foldE (\<lambda>plane bytes. bindE (checked_mul (to_size (vf_stride vf plane)) (to_size (vf_height vf plane))) (checked_add bytes))
       [0..vf_planes vf - 1] 0"

text \<open>The first empty slot; the first slot with a frame.\<close>

fun place :: "entry \<Rightarrow> entry list \<Rightarrow> entry list option" where
  "place e [] = None"
| "place e (slot # slots) = (if en_frame slot = 0 then Some (e # slots) else map_option ((#) slot) (place e slots))"

fun take_out :: "nat \<Rightarrow> entry list \<Rightarrow> (entry \<times> entry list) option" where
  "take_out frame [] = None"
| "take_out frame (slot # slots) =
     (if en_frame slot = frame then Some (slot, no_entry # slots)
      else map_option (apsnd ((#) slot)) (take_out frame slots))"

text \<open>
  \<open>hold\<close>: \<open>vf\<close> is the frame behind the pointer. When the vector has to grow, its allocation
  may fail: \<open>grow\<close> gives the error.
\<close>

definition hold :: "(entry list \<Rightarrow> nss_error option) \<Rightarrow> vs_frame \<Rightarrow> bool \<Rightarrow> nat \<Rightarrow> frame_scope \<Rightarrow> nat res \<times> frame_scope" where
  "hold grow vf output frame s0 =
     (if frame = 0 then (Inl Bad_alloc, s0)
      else
        let s = s0\<lparr>fs_refs := (fs_refs s0)(frame := fs_refs s0 frame + 1)\<rparr>;
            charged = fs_budget s \<noteq> None
        in case (if charged then bindE (frame_charge vf) (\<lambda>bytes. map_sum id (Pair bytes) (charge output bytes s)) else Inr (0, s)) of
             Inl e \<Rightarrow> (Inl e, api_free frame s)
           | Inr (bytes, s1) \<Rightarrow>
               let entry = \<lparr>en_frame = frame, en_bytes = bytes, en_output = output\<rparr>
               in case place entry (fs_inline s1) of
                    Some slots \<Rightarrow> (Inr frame, s1\<lparr>fs_inline := slots\<rparr>)
                  | None \<Rightarrow>
                      (case place entry (fs_spill s1) of
                         Some slots \<Rightarrow> (Inr frame, s1\<lparr>fs_spill := slots\<rparr>)
                       | None \<Rightarrow>
                           (case grow (fs_spill s1) of
                              None \<Rightarrow> (Inr frame, s1\<lparr>fs_spill := fs_spill s1 @ [entry]\<rparr>)
                            | Some e \<Rightarrow> (Inl e, api_free frame (if charged then uncharge entry s1 else s1)))))"

definition forget :: "nat \<Rightarrow> frame_scope \<Rightarrow> frame_scope" where
  "forget frame s =
     (case take_out frame (fs_inline s) of
        Some (e, slots) \<Rightarrow> (uncharge e s)\<lparr>fs_inline := slots\<rparr>
      | None \<Rightarrow>
          (case take_out frame (fs_spill s) of
             Some (e, slots) \<Rightarrow> (uncharge e s)\<lparr>fs_spill := slots\<rparr>
           | None \<Rightarrow> s))"

definition free_frame :: "nat \<Rightarrow> frame_scope \<Rightarrow> frame_scope" where
  "free_frame frame s = (if frame \<noteq> 0 then api_free frame (forget frame s) else s)"

text \<open>A frame that leaves the scope: the callback gives its reference to the host.\<close>

definition release_frame :: "nat \<Rightarrow> frame_scope \<Rightarrow> frame_scope" where
  "release_frame frame s = (forget frame s)\<lparr>fs_given := (fs_given s)(frame := fs_given s frame + 1)\<rparr>"

text \<open>\<open>getFrameFilter\<close>, \<open>adoptInput\<close> and the ways to an output are \<open>hold\<close> after a call of the API.\<close>

definition scope_new_frame :: "(entry list \<Rightarrow> nss_error option) \<Rightarrow> int \<Rightarrow> int \<Rightarrow> vs_frame \<Rightarrow> nat \<Rightarrow> frame_scope \<Rightarrow> nat res \<times> frame_scope" where
  "scope_new_frame grow w h vf frame s =
     (case bindE (checked_mul (to_size w) (to_size h)) checked_int of
        Inl e \<Rightarrow> (Inl e, s)
      | Inr _ \<Rightarrow> hold grow vf True frame s)"

text \<open>The stride of a plane, in bytes, checked.\<close>

definition get_stride :: "vs_frame \<Rightarrow> int \<Rightarrow> int res" where
  "get_stride vf plane =
     (let bytes = vf_stride vf plane; height = vf_height vf plane; width = vf_width vf plane
      in if bytes \<le> 0 \<or> bytes mod 4 \<noteq> 0 \<or> height < 1 \<or> width < 1 \<or> bytes div 4 < width
         then Inl (Invalid_argument ''nss: invalid float frame stride'')
         else bindE (checked_mul (to_size (bytes div 4)) (to_size height)) (\<lambda>size.
              bindE (checked_int size) (\<lambda>_. Inr bytes)))"

text \<open>
  \<open>readPlane\<close>: the plane itself when its stride is the one asked for, otherwise a copy of it
  in a mirror, made once; \<open>alloc_fails\<close> is the allocation of the mirror.
\<close>

definition mirror_pixels :: "int \<Rightarrow> int \<Rightarrow> int \<Rightarrow> int \<Rightarrow> buffer \<Rightarrow> buffer" where
  "mirror_pixels width height expected actual source = copy_rows width height expected actual source (\<lambda>_. f32_zero)"

definition read_plane :: "(nat \<Rightarrow> nss_error option) \<Rightarrow> vs_frame \<Rightarrow> nat \<Rightarrow> int \<Rightarrow> int \<Rightarrow> frame_scope \<Rightarrow> buffer res \<times> frame_scope" where
  "read_plane alloc_fails vf frame plane expected s =
     (case get_stride vf plane of
        Inl e \<Rightarrow> (Inl e, s)
      | Inr bytes \<Rightarrow>
          let actual = bytes div 4; source = vf_plane vf plane; height = vf_height vf plane; width = vf_width vf plane
          in if actual = expected then (Inr source, s)
             else if expected < width then (Inl (Invalid_argument ''nss: incompatible plane stride''), s)
             else
               case find (\<lambda>m. mi_frame m = frame \<and> mi_plane m = plane \<and> mi_stride m = expected) (fs_mirrors s) of
                 Some m \<Rightarrow> (Inr (mi_pixels m), s)
               | None \<Rightarrow>
                   (case bindE (checked_mul (to_size expected) (to_size height)) (\<lambda>n. case alloc_fails n of None \<Rightarrow> Inr n | Some e \<Rightarrow> Inl e) of
                      Inl e \<Rightarrow> (Inl e, s)
                    | Inr _ \<Rightarrow>
                        let m = \<lparr>mi_frame = frame, mi_plane = plane, mi_stride = expected,
                                 mi_pixels = mirror_pixels width height expected actual source\<rparr>
                        in (Inr (mi_pixels m), s\<lparr>fs_mirrors := fs_mirrors s @ [m]\<rparr>)))"

text \<open>
  \<open>keep\<close> writes what the budget charges into the properties of the result before it lets go
  of it; \<open>refuses\<close> are the keys the host fails to set.
\<close>

definition resource_props :: "(string \<Rightarrow> bool) \<Rightarrow> budget \<Rightarrow> props \<Rightarrow> props res" where
  "resource_props refuses b p =
     (if refuses ''_NSSResourceBytes'' then Inl Bad_alloc
      else bindE (contribution_set refuses ''_NSSResourcePeak'' (int (b_peak b))
             (p(''_NSSResourceBytes'' \<mapsto> Prop_ints (map (\<lambda>k. int (b_bytes b k)) all_kinds))))
           (contribution_set refuses ''_NSSResourceLimit'' (if b_limit b = size_max then 0 else int (b_limit b))))"

definition keep_frame :: "(string \<Rightarrow> bool) \<Rightarrow> nat \<Rightarrow> props \<Rightarrow> frame_scope \<Rightarrow> props res \<times> frame_scope" where
  "keep_frame refuses frame p s =
     (case (case fs_budget s of None \<Rightarrow> Inr p | Some b \<Rightarrow> resource_props refuses b p) of
        Inl e \<Rightarrow> (Inl e, s)
      | Inr p' \<Rightarrow> (Inr p', release_frame frame s))"

text \<open>The destructor.\<close>

definition scope_drop :: "entry \<Rightarrow> frame_scope \<Rightarrow> frame_scope" where
  "scope_drop e s = (if en_frame e \<noteq> 0 then api_free (en_frame e) (uncharge e s) else s)"

definition scope_destroy :: "frame_scope \<Rightarrow> frame_scope" where
  "scope_destroy s = fold scope_drop (fs_spill s) (fold scope_drop (fs_inline s) s)"

subsection \<open>The invariant\<close>

definition slots :: "frame_scope \<Rightarrow> entry list" where
  "slots s = fs_inline s @ fs_spill s"

definition held :: "nat \<Rightarrow> frame_scope \<Rightarrow> nat" where
  "held f s = length (filter (\<lambda>e. en_frame e = f) (slots s))"

definition charged_bytes :: "bool \<Rightarrow> entry list \<Rightarrow> nat" where
  "charged_bytes output es = sum_list (map (\<lambda>e. if en_output e = output then en_bytes e else 0) es)"

text \<open>
  Every reference not given away is in the table, an empty slot charges nothing, and the two
  accounts hold exactly the bytes of the entries.
\<close>

definition scope_inv :: "frame_scope \<Rightarrow> bool" where
  "scope_inv s \<longleftrightarrow>
     (\<forall>f. f \<noteq> 0 \<longrightarrow> fs_refs s f = fs_given s f + int (held f s)) \<and> fs_refs s 0 = 0 \<and>
     (\<forall>e \<in> set (slots s). en_frame e = 0 \<longrightarrow> en_bytes e = 0) \<and>
     charged_bytes True (slots s) = a_bytes (fs_outputs s) \<and> charged_bytes False (slots s) = a_bytes (fs_framework s) \<and>
     (fs_budget s = None \<longrightarrow> a_bytes (fs_outputs s) = 0 \<and> a_bytes (fs_framework s) = 0)"

lemma new_scope_inv: "scope_inv (new_scope b)"
  by (simp add: scope_inv_def new_scope_def slots_def held_def charged_bytes_def no_entry_def new_account_def
      sum_list_replicate filter_replicate)

subsection \<open>What the operations keep\<close>

text \<open>The parts of the scope that charging does not touch.\<close>

definition same_table :: "frame_scope \<Rightarrow> frame_scope \<Rightarrow> bool" where
  "same_table s s' \<longleftrightarrow>
     fs_inline s' = fs_inline s \<and> fs_spill s' = fs_spill s \<and> fs_mirrors s' = fs_mirrors s \<and> fs_refs s' = fs_refs s \<and>
     fs_given s' = fs_given s \<and> (fs_budget s' = None \<longleftrightarrow> fs_budget s = None)"

lemma release_bytes:
  "release n bo a = (bo', a') \<Longrightarrow> a_bytes a' = (if bo = None then a_bytes a else a_bytes a - n) \<and> (bo' = None \<longleftrightarrow> bo = None)"
  by (cases bo) (auto simp: release_def Let_def)

lemma acquire_bytes:
  "acquire n bo a = Inr (bo', a') \<Longrightarrow> a_bytes a' = (if bo = None then a_bytes a else a_bytes a + n) \<and> (bo' = None \<longleftrightarrow> bo = None)"
proof (cases bo)
  case None
  then show "acquire n bo a = Inr (bo', a') \<Longrightarrow> ?thesis" by (auto simp: acquire_def)
next
  case (Some b)
  then show "acquire n bo a = Inr (bo', a') \<Longrightarrow> ?thesis" using acquire_cases [of n b a bo' a'] by auto
qed

lemma uncharge_facts:
  "same_table s (uncharge e s)"
  "a_bytes (fs_outputs (uncharge e s)) = (if en_output e \<and> fs_budget s \<noteq> None then a_bytes (fs_outputs s) - en_bytes e else a_bytes (fs_outputs s))"
  "a_bytes (fs_framework (uncharge e s)) =
    (if \<not> en_output e \<and> fs_budget s \<noteq> None then a_bytes (fs_framework s) - en_bytes e else a_bytes (fs_framework s))"
  by (auto simp: uncharge_def same_table_def dest!: release_bytes split: prod.splits)

lemma charge_facts:
  assumes "charge output n s = Inr s'"
  shows "same_table s s'"
    "a_bytes (fs_outputs s') = (if output \<and> fs_budget s \<noteq> None then a_bytes (fs_outputs s) + n else a_bytes (fs_outputs s))"
    "a_bytes (fs_framework s') = (if \<not> output \<and> fs_budget s \<noteq> None then a_bytes (fs_framework s) + n else a_bytes (fs_framework s))"
  using assms
  by (auto simp: charge_def same_table_def bindE_Inr_iff dest!: acquire_bytes split: if_splits prod.splits)

lemma charged_bytes_simps [simp]:
  "charged_bytes b [] = 0"
  "charged_bytes b (e # es) = (if en_output e = b then en_bytes e else 0) + charged_bytes b es"
  "charged_bytes b (es @ es') = charged_bytes b es + charged_bytes b es'"
  by (simp_all add: charged_bytes_def)

lemma no_entry_simps [simp]: "en_frame no_entry = 0" "en_bytes no_entry = 0" "en_output no_entry = False"
  by (simp_all add: no_entry_def)

text \<open>Entering and taking out, on a list of slots whose empty ones charge nothing.\<close>

definition idle_empty :: "entry list \<Rightarrow> bool" where
  "idle_empty es \<longleftrightarrow> (\<forall>e \<in> set es. en_frame e = 0 \<longrightarrow> en_bytes e = 0)"

lemma place_facts:
  assumes "place e es = Some es'" "en_frame e \<noteq> 0" "idle_empty es"
  shows "idle_empty es' \<and> charged_bytes b es' = charged_bytes b es + (if en_output e = b then en_bytes e else 0) \<and>
    (f \<noteq> 0 \<longrightarrow> length (filter (\<lambda>e. en_frame e = f) es') = length (filter (\<lambda>e. en_frame e = f) es) + (if en_frame e = f then 1 else 0))"
  using assms
proof (induction es arbitrary: es')
  case (Cons slot es)
  show ?case
  proof (cases "en_frame slot = 0")
    case True
    then show ?thesis using Cons.prems by (auto simp: idle_empty_def)
  next
    case False
    then obtain t where t: "place e es = Some t" "es' = slot # t" using Cons.prems(1) by auto
    have "idle_empty es" using Cons.prems(3) by (simp add: idle_empty_def)
    from Cons.IH [OF t(1) Cons.prems(2) this] show ?thesis using t(2) False by (auto simp: idle_empty_def)
  qed
qed simp

lemma take_out_facts:
  assumes "take_out frame es = Some (e, es')" "frame \<noteq> 0" "idle_empty es"
  shows "e \<in> set es \<and> en_frame e = frame \<and> idle_empty es' \<and>
    charged_bytes b es = charged_bytes b es' + (if en_output e = b then en_bytes e else 0) \<and>
    (f \<noteq> 0 \<longrightarrow> length (filter (\<lambda>e. en_frame e = f) es) = length (filter (\<lambda>e. en_frame e = f) es') + (if frame = f then 1 else 0))"
  using assms
proof (induction es arbitrary: es')
  case (Cons slot es)
  show ?case
  proof (cases "en_frame slot = frame")
    case True
    then show ?thesis using Cons.prems by (auto simp: idle_empty_def)
  next
    case False
    then obtain t where t: "take_out frame es = Some (e, t)" "es' = slot # t" using Cons.prems(1) by auto
    have "idle_empty es" using Cons.prems(3) by (simp add: idle_empty_def)
    from Cons.IH [OF t(1) Cons.prems(2) this] show ?thesis using t(2) False Cons.prems(3) by (auto simp: idle_empty_def)
  qed
qed simp

lemma take_out_None: "take_out frame es = None \<longleftrightarrow> (\<forall>e \<in> set es. en_frame e \<noteq> frame)"
  by (induction es) auto

lemma scope_inv_iff:
  "scope_inv s \<longleftrightarrow>
     (\<forall>f. f \<noteq> 0 \<longrightarrow> fs_refs s f = fs_given s f + int (held f s)) \<and> fs_refs s 0 = 0 \<and> idle_empty (slots s) \<and>
     charged_bytes True (slots s) = a_bytes (fs_outputs s) \<and> charged_bytes False (slots s) = a_bytes (fs_framework s) \<and>
     (fs_budget s = None \<longrightarrow> a_bytes (fs_outputs s) = 0 \<and> a_bytes (fs_framework s) = 0)"
  by (simp add: scope_inv_def idle_empty_def)

lemma held_parts: "held f s = length (filter (\<lambda>e. en_frame e = f) (fs_inline s)) + length (filter (\<lambda>e. en_frame e = f) (fs_spill s))"
  by (simp add: held_def slots_def)

text \<open>
  The scope after an entry for \<open>frame\<close> has gone in or come out: the other parts follow from
  the invariant of the scope before.
\<close>

definition entered :: "entry \<Rightarrow> frame_scope \<Rightarrow> frame_scope \<Rightarrow> bool" where
  "entered e s s' \<longleftrightarrow>
     idle_empty (slots s') \<and> (\<forall>b. charged_bytes b (slots s') = charged_bytes b (slots s) + (if en_output e = b then en_bytes e else 0)) \<and>
     (\<forall>f. f \<noteq> 0 \<longrightarrow> held f s' = held f s + (if en_frame e = f then 1 else 0))"

lemma place_entered:
  assumes "idle_empty (slots s)" "en_frame e \<noteq> 0"
  shows "place e (fs_inline s) = Some es \<Longrightarrow> entered e s (s\<lparr>fs_inline := es\<rparr>)"
    "place e (fs_spill s) = Some es \<Longrightarrow> entered e s (s\<lparr>fs_spill := es\<rparr>)"
    "entered e s (s\<lparr>fs_spill := fs_spill s @ [e]\<rparr>)"
proof -
  have i: "idle_empty (fs_inline s)" "idle_empty (fs_spill s)" using assms(1) by (auto simp: idle_empty_def slots_def)
  show "entered e s (s\<lparr>fs_inline := es\<rparr>)" if "place e (fs_inline s) = Some es"
    using place_facts [OF that assms(2) i(1)] i unfolding entered_def held_parts by (auto simp: slots_def idle_empty_def)
  show "entered e s (s\<lparr>fs_spill := es\<rparr>)" if "place e (fs_spill s) = Some es"
    using place_facts [OF that assms(2) i(2)] i unfolding entered_def held_parts by (auto simp: slots_def idle_empty_def)
  show "entered e s (s\<lparr>fs_spill := fs_spill s @ [e]\<rparr>)"
    using i assms(2) unfolding entered_def held_parts by (auto simp: slots_def idle_empty_def)
qed

lemma take_out_entered:
  assumes "idle_empty (slots s)" "frame \<noteq> 0"
  shows "take_out frame (fs_inline s) = Some (e, es) \<Longrightarrow> en_frame e = frame \<and> entered e (s\<lparr>fs_inline := es\<rparr>) s \<and> idle_empty (slots (s\<lparr>fs_inline := es\<rparr>))"
    "take_out frame (fs_spill s) = Some (e, es) \<Longrightarrow> en_frame e = frame \<and> entered e (s\<lparr>fs_spill := es\<rparr>) s \<and> idle_empty (slots (s\<lparr>fs_spill := es\<rparr>))"
proof -
  have i: "idle_empty (fs_inline s)" "idle_empty (fs_spill s)" using assms(1) by (auto simp: idle_empty_def slots_def)
  show "en_frame e = frame \<and> entered e (s\<lparr>fs_inline := es\<rparr>) s \<and> idle_empty (slots (s\<lparr>fs_inline := es\<rparr>))"
    if "take_out frame (fs_inline s) = Some (e, es)"
    using take_out_facts [OF that assms(2) i(1)] i unfolding entered_def held_parts by (auto simp: slots_def idle_empty_def)
  show "en_frame e = frame \<and> entered e (s\<lparr>fs_spill := es\<rparr>) s \<and> idle_empty (slots (s\<lparr>fs_spill := es\<rparr>))"
    if "take_out frame (fs_spill s) = Some (e, es)"
    using take_out_facts [OF that assms(2) i(2)] i unfolding entered_def held_parts by (auto simp: slots_def idle_empty_def)
qed

lemma same_table_slots: "same_table s s' \<Longrightarrow> slots s' = slots s \<and> held f s' = held f s"
  by (simp add: same_table_def slots_def held_def)

lemma map_sum_id_Inl: "map_sum id f r = Inl e \<longleftrightarrow> r = Inl e"
  by (cases r) auto

lemma hold_keeps:
  assumes "scope_inv s" "hold grow vf output frame s = (r, s')"
  shows "scope_inv s' \<and> fs_given s' = fs_given s \<and>
    (case r of Inl _ \<Rightarrow> \<forall>f. f \<noteq> 0 \<longrightarrow> held f s' = held f s
     | Inr v \<Rightarrow> v = frame \<and> frame \<noteq> 0 \<and> (\<forall>f. f \<noteq> 0 \<longrightarrow> held f s' = held f s + (if f = frame then 1 else 0)))"
proof (cases "frame = 0")
  case True
  then show ?thesis using assms by (auto simp: hold_def)
next
  case False
  define t where "t = s\<lparr>fs_refs := (fs_refs s)(frame := fs_refs s frame + 1)\<rparr>"
  have t: "slots t = slots s" "\<And>f. held f t = held f s" "fs_given t = fs_given s" "fs_budget t = fs_budget s"
    "fs_outputs t = fs_outputs s" "fs_framework t = fs_framework s" by (simp_all add: t_def slots_def held_def)
  have undo: "api_free frame t = s" by (simp add: t_def api_free_def)
  have inv: "idle_empty (slots s)" using assms(1) by (simp add: scope_inv_iff)
  let ?c = "if fs_budget t \<noteq> None then bindE (frame_charge vf) (\<lambda>bytes. map_sum id (Pair bytes) (charge output bytes t)) else Inr (0, t)"
  show ?thesis
  proof (cases ?c)
    case (Inl e)
    then have "r = Inl e" "s' = s" using assms(2) False undo by (auto simp: hold_def t_def [symmetric] Let_def)
    then show ?thesis using assms(1) by simp
  next
    case (Inr p)
    obtain bytes s1 where p: "p = (bytes, s1)" by (cases p)
    have s1: "same_table t s1"
      "a_bytes (fs_outputs s1) = a_bytes (fs_outputs t) + (if output then bytes else 0)"
      "a_bytes (fs_framework s1) = a_bytes (fs_framework t) + (if output then 0 else bytes)"
      "fs_budget t = None \<Longrightarrow> bytes = 0"
        using Inr p charge_facts [where n = bytes and s = t and s' = s1]
      by (auto simp: bindE_Inr_iff same_table_def map_sum_id_Inr split: if_splits)
    define e where "e = \<lparr>en_frame = frame, en_bytes = bytes, en_output = output\<rparr>"
    have i1: "idle_empty (slots s1)" "en_frame e \<noteq> 0" using inv same_table_slots [OF s1(1)] t False by (auto simp: e_def)
    have ok: "scope_inv s' \<and> fs_given s' = fs_given s \<and> (\<forall>f. f \<noteq> 0 \<longrightarrow> held f s' = held f s + (if f = frame then 1 else 0))"
      if "entered e s1 s'" "fs_refs s' = fs_refs s1" "fs_given s' = fs_given s1" "fs_outputs s' = fs_outputs s1"
        "fs_framework s' = fs_framework s1" "fs_budget s' = fs_budget s1"
      using that s1 assms(1) False same_table_slots [OF s1(1)] t
      unfolding scope_inv_iff entered_def by (auto simp: e_def t_def same_table_def)
    note place = place_entered [OF i1]
    have res: "hold grow vf output frame s = (case place e (fs_inline s1) of
            Some es \<Rightarrow> (Inr frame, s1\<lparr>fs_inline := es\<rparr>)
          | None \<Rightarrow> (case place e (fs_spill s1) of
                 Some es \<Rightarrow> (Inr frame, s1\<lparr>fs_spill := es\<rparr>)
               | None \<Rightarrow> (case grow (fs_spill s1) of
                      None \<Rightarrow> (Inr frame, s1\<lparr>fs_spill := fs_spill s1 @ [e]\<rparr>)
                    | Some err \<Rightarrow> (Inl err, api_free frame (if fs_budget t \<noteq> None then uncharge e s1 else s1)))))"
      unfolding hold_def t_def [symmetric] Let_def e_def using Inr [unfolded p] by (simp only: False if_False sum.case prod.case)
    show ?thesis
    proof (cases "place e (fs_inline s1)")
      case (Some es)
      then show ?thesis using res assms(2) ok place(1) False by auto
    next
      case inl: None
      show ?thesis
      proof (cases "place e (fs_spill s1)")
        case (Some es)
        then show ?thesis using res assms(2) ok place(2) inl False by auto
      next
        case spl: None
        show ?thesis
        proof (cases "grow (fs_spill s1)")
          case None
          then show ?thesis using res assms(2) ok place(3) inl spl False by auto
        next
          case (Some err)
          then have r: "r = Inl err" "s' = api_free frame (if fs_budget t \<noteq> None then uncharge e s1 else s1)"
            using res assms(2) inl spl by auto
          let ?u = "if fs_budget t \<noteq> None then uncharge e s1 else s1"
          have u: "same_table s1 ?u" using uncharge_facts(1) [of s1 e] by (simp add: same_table_def)
          have b: "a_bytes (fs_outputs ?u) = a_bytes (fs_outputs s)" "a_bytes (fs_framework ?u) = a_bytes (fs_framework s)"
            using uncharge_facts(2,3) [where s = s1 and e = e] s1 t(4-6) unfolding e_def same_table_def by auto
          have sl: "slots s' = slots s" using same_table_slots [OF u] same_table_slots [OF s1(1)] t(1) unfolding r(2)
            by (simp add: api_free_def slots_def)
          have refs: "fs_refs s' = fs_refs s" "fs_given s' = fs_given s"
            using u s1(1) unfolding r(2) same_table_def by (auto simp: api_free_def t_def)
          have bud: "fs_budget s' = None \<longleftrightarrow> fs_budget s = None" "fs_outputs s' = fs_outputs ?u" "fs_framework s' = fs_framework ?u"
            using u s1(1) t(4) unfolding r(2) same_table_def by (simp_all add: api_free_def)
          have "scope_inv s' \<and> fs_given s' = fs_given s \<and> (\<forall>f. f \<noteq> 0 \<longrightarrow> held f s' = held f s)"
            using assms(1) unfolding scope_inv_iff held_def sl refs bud b by simp
          then show ?thesis using r(1) by simp
        qed
      qed
    qed
  qed
qed

lemma forget_some:
  assumes "scope_inv s" "frame \<noteq> 0" "en_frame e = frame" "entered e t s" "idle_empty (slots t)"
    and "fs_refs t = fs_refs s" "fs_given t = fs_given s" "fs_budget t = None \<longleftrightarrow> fs_budget s = None"
    and "fs_outputs t = fs_outputs (uncharge e s)" "fs_framework t = fs_framework (uncharge e s)"
  shows "scope_inv (api_free frame t) \<and> scope_inv (t\<lparr>fs_given := (fs_given t)(frame := fs_given t frame + 1)\<rparr>) \<and>
    (\<forall>f. f \<noteq> 0 \<longrightarrow> held f s = held f t + (if f = frame then 1 else 0))"
proof -
  have h: "f \<noteq> 0 \<Longrightarrow> held f s = held f t + (if f = frame then 1 else 0)" for f using assms(3,4) by (simp add: entered_def)
  have c: "charged_bytes b (slots s) = charged_bytes b (slots t) + (if en_output e = b then en_bytes e else 0)" for b
    using assms(4) by (simp add: entered_def)
  have a: "a_bytes (fs_outputs t) = charged_bytes True (slots t)" "a_bytes (fs_framework t) = charged_bytes False (slots t)"
    "fs_budget t = None \<Longrightarrow> a_bytes (fs_outputs t) = 0 \<and> a_bytes (fs_framework t) = 0"
    using c [of True] c [of False] assms(1,8) uncharge_facts(2,3) [where s = s and e = e] unfolding assms(9,10) scope_inv_iff by auto
  have r: "f \<noteq> 0 \<Longrightarrow> fs_refs t f = fs_given t f + int (held f t) + (if f = frame then 1 else 0)" "fs_refs t 0 = 0" for f
    using assms(1) h unfolding assms(6,7) scope_inv_iff by auto
  have same: "slots (api_free frame t) = slots t" "held f (api_free frame t) = held f t" "slots (t\<lparr>fs_given := g\<rparr>) = slots t" "held f (t\<lparr>fs_given := g\<rparr>) = held f t" for f g
    by (simp_all add: api_free_def slots_def held_def)
  have "scope_inv (api_free frame t)" unfolding scope_inv_iff same using a r assms(2,5) by (simp add: api_free_def)
  moreover have "scope_inv (t\<lparr>fs_given := (fs_given t)(frame := fs_given t frame + 1)\<rparr>)"
    unfolding scope_inv_iff same using a r assms(2,5) by simp
  ultimately show ?thesis using h by blast
qed

lemma forget_keeps:
  assumes "scope_inv s" "0 < held frame s" "frame \<noteq> 0"
  shows "scope_inv (api_free frame (forget frame s)) \<and> scope_inv (release_frame frame s) \<and> fs_given (forget frame s) = fs_given s \<and>
    (\<forall>f. f \<noteq> 0 \<longrightarrow> held f s = held f (forget frame s) + (if f = frame then 1 else 0))"
proof -
  have idle: "idle_empty (slots s)" using assms(1) by (simp add: scope_inv_iff)
  have g: "fs_given (forget frame s) = fs_given s"
    using uncharge_facts(1) unfolding same_table_def by (auto simp: forget_def split: option.splits)
  show ?thesis
  proof (cases "take_out frame (fs_inline s)")
    case (Some p)
    obtain e es where p: "take_out frame (fs_inline s) = Some (e, es)" using Some by (cases p) auto
    let ?t = "(uncharge e s)\<lparr>fs_inline := es\<rparr>"
    have u: "same_table s (uncharge e s)" by (rule uncharge_facts(1))
    have t: "forget frame s = ?t" using p by (simp add: forget_def)
    have sl: "slots ?t = slots (s\<lparr>fs_inline := es\<rparr>)" "held f ?t = held f (s\<lparr>fs_inline := es\<rparr>)" for f
      using u by (simp_all add: same_table_def slots_def held_def)
    note q = take_out_entered(1) [OF idle assms(3) p]
    have "entered e ?t s" using q unfolding entered_def sl by simp
    from forget_some [OF assms(1,3) _ this] q u
    show ?thesis unfolding release_frame_def g t sl by (simp add: same_table_def sl)
  next
    case None
    then have "take_out frame (fs_spill s) \<noteq> None"
      using assms(2) unfolding take_out_None held_def slots_def by (auto simp: filter_empty_conv)
    then obtain e es where p: "take_out frame (fs_spill s) = Some (e, es)" by auto
    let ?t = "(uncharge e s)\<lparr>fs_spill := es\<rparr>"
    have u: "same_table s (uncharge e s)" by (rule uncharge_facts(1))
    have t: "forget frame s = ?t" using p None by (simp add: forget_def)
    have sl: "slots ?t = slots (s\<lparr>fs_spill := es\<rparr>)" "held f ?t = held f (s\<lparr>fs_spill := es\<rparr>)" for f
      using u by (simp_all add: same_table_def slots_def held_def)
    note q = take_out_entered(2) [OF idle assms(3) p]
    have "entered e ?t s" using q unfolding entered_def sl by simp
    from forget_some [OF assms(1,3) _ this] q u
    show ?thesis unfolding release_frame_def g t sl by (simp add: same_table_def sl)
  qed
qed

lemma free_frame_keeps:
  assumes "scope_inv s" "frame = 0 \<or> 0 < held frame s"
  shows "scope_inv (free_frame frame s)" "fs_given (free_frame frame s) = fs_given s"
    "frame \<noteq> 0 \<Longrightarrow> f \<noteq> 0 \<Longrightarrow> held f s = held f (free_frame frame s) + (if f = frame then 1 else 0)"
proof -
  have h: "held f (api_free frame t) = held f t" for f t by (simp add: api_free_def held_def slots_def)
  show "scope_inv (free_frame frame s)" "fs_given (free_frame frame s) = fs_given s"
    using assms forget_keeps [OF assms(1), of frame] by (auto simp: free_frame_def) (simp add: api_free_def)
  show "frame \<noteq> 0 \<Longrightarrow> f \<noteq> 0 \<Longrightarrow> held f s = held f (free_frame frame s) + (if f = frame then 1 else 0)"
    using assms forget_keeps [OF assms(1), of frame] by (simp add: free_frame_def h)
qed

lemma keep_frame_keeps:
  assumes "scope_inv s" "0 < held frame s" "frame \<noteq> 0" "keep_frame refuses frame p s = (r, s')"
  shows "scope_inv s'" "r = Inl e \<Longrightarrow> s' = s"
    "r = Inr q \<Longrightarrow> fs_given s' = (fs_given s)(frame := fs_given s frame + 1) \<and>
       (f \<noteq> 0 \<longrightarrow> held f s = held f s' + (if f = frame then 1 else 0))"
proof -
  have h: "held f (release_frame frame s) = held f (forget frame s)" for f by (simp add: release_frame_def held_def slots_def)
  show "scope_inv s'" "r = Inl e \<Longrightarrow> s' = s" using assms forget_keeps [OF assms(1-3)] by (auto simp: keep_frame_def split: sum.splits)
  show "r = Inr q \<Longrightarrow> fs_given s' = (fs_given s)(frame := fs_given s frame + 1) \<and>
       (f \<noteq> 0 \<longrightarrow> held f s = held f s' + (if f = frame then 1 else 0))"
    using assms(4) forget_keeps [OF assms(1-3)] h by (auto simp: keep_frame_def release_frame_def split: sum.splits)
qed

lemma read_plane_keeps:
  assumes "scope_inv s" "read_plane alloc_fails vf frame plane expected s = (r, s')"
  shows "scope_inv s'" "held f s' = held f s" "fs_given s' = fs_given s"
proof -
  have "\<exists>ms. s' = s\<lparr>fs_mirrors := ms\<rparr>"
  proof -
    have "s' = s \<or> (\<exists>ms. s' = s\<lparr>fs_mirrors := ms\<rparr>)"
      using assms(2) by (auto simp: read_plane_def Let_def split: sum.splits option.splits if_splits)
    moreover have "s = s\<lparr>fs_mirrors := fs_mirrors s\<rparr>" by simp
    ultimately show ?thesis by metis
  qed
  then show "scope_inv s'" "held f s' = held f s" "fs_given s' = fs_given s"
    using assms(1) by (auto simp: scope_inv_iff slots_def held_def)
qed

text \<open>The destructor, entry by entry.\<close>

lemma scope_drops:
  assumes "idle_empty es" "charged_bytes True es \<le> a_bytes (fs_outputs s)" "charged_bytes False es \<le> a_bytes (fs_framework s)"
    and "fs_budget s = None \<Longrightarrow> charged_bytes True es = 0 \<and> charged_bytes False es = 0"
  shows "let s' = fold scope_drop es s in
    (\<forall>f. f \<noteq> 0 \<longrightarrow> fs_refs s' f = fs_refs s f - int (length (filter (\<lambda>e. en_frame e = f) es))) \<and>
    fs_given s' = fs_given s \<and> (fs_budget s' = None \<longleftrightarrow> fs_budget s = None) \<and> slots s' = slots s \<and>
    a_bytes (fs_outputs s') = a_bytes (fs_outputs s) - charged_bytes True es \<and>
    a_bytes (fs_framework s') = a_bytes (fs_framework s) - charged_bytes False es"
  using assms
proof (induction es arbitrary: s)
  case (Cons e es)
  let ?s = "scope_drop e s"
  have u: "same_table s (uncharge e s)" by (rule uncharge_facts(1))
  have z: "en_frame e = 0 \<Longrightarrow> en_bytes e = 0" using Cons.prems(1) by (simp add: idle_empty_def)
  have i: "idle_empty es" using Cons.prems(1) by (simp add: idle_empty_def)
  have a: "a_bytes (fs_outputs ?s) = a_bytes (fs_outputs s) - (if en_output e then en_bytes e else 0)"
    "a_bytes (fs_framework ?s) = a_bytes (fs_framework s) - (if en_output e then 0 else en_bytes e)"
    using uncharge_facts(2,3) [where s = s and e = e] Cons.prems(4) z by (auto simp: scope_drop_def api_free_def)
  have b: "fs_given ?s = fs_given s" "(fs_budget ?s = None) = (fs_budget s = None)" "slots ?s = slots s"
    "\<forall>f. f \<noteq> 0 \<longrightarrow> fs_refs ?s f = fs_refs s f - (if en_frame e = f then 1 else 0)"
    using u by (auto simp: scope_drop_def api_free_def same_table_def slots_def)
  have "charged_bytes True es \<le> a_bytes (fs_outputs ?s)" "charged_bytes False es \<le> a_bytes (fs_framework ?s)"
    "fs_budget ?s = None \<Longrightarrow> charged_bytes True es = 0 \<and> charged_bytes False es = 0"
    using Cons.prems(2-4) unfolding a b(2) by auto
  from Cons.IH [OF i this] show ?case using a b Cons.prems(2,3) by (auto simp: Let_def)
qed simp

lemma destroy_frees:
  assumes "scope_inv s"
  shows "fs_given (scope_destroy s) = fs_given s" "f \<noteq> 0 \<Longrightarrow> fs_refs (scope_destroy s) f = fs_given s f"
    "a_bytes (fs_outputs (scope_destroy s)) = 0" "a_bytes (fs_framework (scope_destroy s)) = 0"
proof -
  have d: "scope_destroy s = fold scope_drop (slots s) s" by (simp add: scope_destroy_def slots_def)
  have "let s' = fold scope_drop (slots s) s in
    (\<forall>f. f \<noteq> 0 \<longrightarrow> fs_refs s' f = fs_refs s f - int (length (filter (\<lambda>e. en_frame e = f) (slots s)))) \<and>
    fs_given s' = fs_given s \<and> (fs_budget s' = None \<longleftrightarrow> fs_budget s = None) \<and> slots s' = slots s \<and>
    a_bytes (fs_outputs s') = a_bytes (fs_outputs s) - charged_bytes True (slots s) \<and>
    a_bytes (fs_framework s') = a_bytes (fs_framework s) - charged_bytes False (slots s)"
    using assms by (intro scope_drops) (auto simp: scope_inv_iff)
  then show "fs_given (scope_destroy s) = fs_given s" "f \<noteq> 0 \<Longrightarrow> fs_refs (scope_destroy s) f = fs_given s f"
    "a_bytes (fs_outputs (scope_destroy s)) = 0" "a_bytes (fs_framework (scope_destroy s)) = 0"
    using assms unfolding d by (auto simp: Let_def scope_inv_iff held_def)
qed

subsection \<open>Strides and mirrors\<close>

lemma get_stride_Inr:
  assumes "get_stride vf plane = Inr bytes"
  shows "bytes = vf_stride vf plane" "0 < bytes" "bytes mod 4 = 0" "1 \<le> vf_width vf plane" "1 \<le> vf_height vf plane" "vf_width vf plane \<le> bytes div 4"
  using assms by (auto simp: get_stride_def Let_def bindE_Inr_iff split: if_splits)

text \<open>What the mirrors hold, and what \<open>readPlane\<close> returns: the pixels of the plane, at the stride asked for.\<close>

definition plane_pixels :: "vs_frame \<Rightarrow> int \<Rightarrow> int \<Rightarrow> buffer \<Rightarrow> bool" where
  "plane_pixels vf plane stride b \<longleftrightarrow>
     (\<forall>y x. 0 \<le> y \<longrightarrow> y < vf_height vf plane \<longrightarrow> 0 \<le> x \<longrightarrow> x < vf_width vf plane \<longrightarrow>
       b (y * stride + x) = vf_plane vf plane (y * (vf_stride vf plane div 4) + x))"

definition mirrors_ok :: "(nat \<Rightarrow> vs_frame) \<Rightarrow> frame_scope \<Rightarrow> bool" where
  "mirrors_ok frames s \<longleftrightarrow> (\<forall>m \<in> set (fs_mirrors s). plane_pixels (frames (mi_frame m)) (mi_plane m) (mi_stride m) (mi_pixels m))"

lemma read_plane_pixels:
  assumes "mirrors_ok frames s" "read_plane alloc_fails (frames f) f plane expected s = (r, s')"
  shows "mirrors_ok frames s' \<and> (\<forall>b. r = Inr b \<longrightarrow> plane_pixels (frames f) plane expected b)"
proof (cases "get_stride (frames f) plane")
  case (Inl e)
  then show ?thesis using assms by (auto simp: read_plane_def)
next
  case (Inr bytes)
  let ?vf = "frames f"
  have bytes: "bytes = vf_stride ?vf plane" by (rule get_stride_Inr(1) [OF Inr])
  let ?hit = "\<lambda>m. mi_frame m = f \<and> mi_plane m = plane \<and> mi_stride m = expected"
  have same: "plane_pixels ?vf plane (bytes div 4) (vf_plane ?vf plane)" by (simp add: plane_pixels_def bytes)
  show ?thesis
  proof (cases "bytes div 4 = expected \<or> expected < vf_width ?vf plane")
    case True
    then show ?thesis using assms Inr same by (auto simp: read_plane_def Let_def split: if_splits)
  next
    case False
    then have w: "vf_width ?vf plane \<le> expected" by simp
    show ?thesis
    proof (cases "find ?hit (fs_mirrors s)")
      case (Some m)
      then have "m \<in> set (fs_mirrors s)" "?hit m" by (auto simp: find_Some_iff)
      then have "plane_pixels ?vf plane expected (mi_pixels m)" using assms(1) by (auto simp: mirrors_ok_def)
      then show ?thesis using assms Inr False Some by (auto simp: read_plane_def Let_def)
    next
      case None
      let ?p = "mirror_pixels (vf_width ?vf plane) (vf_height ?vf plane) expected (bytes div 4) (vf_plane ?vf plane)"
      have p: "plane_pixels ?vf plane expected ?p"
        using copy_rows_at [OF w] by (simp add: plane_pixels_def mirror_pixels_def bytes)
      show ?thesis
        using assms Inr False None p by (auto simp: read_plane_def Let_def mirrors_ok_def split: sum.splits)
    qed
  qed
qed

subsection \<open>Everything a callback may do\<close>

text \<open>A callback frees, passes on and keeps only frames it holds.\<close>

inductive scope_step :: "frame_scope \<Rightarrow> frame_scope \<Rightarrow> bool" where
  step_hold: "hold grow vf out frame s = (r, s') \<Longrightarrow> scope_step s s'"
| step_free: "frame = 0 \<or> 0 < held frame s \<Longrightarrow> scope_step s (free_frame frame s)"
| step_release: "frame \<noteq> 0 \<Longrightarrow> 0 < held frame s \<Longrightarrow> scope_step s (release_frame frame s)"
| step_keep: "frame \<noteq> 0 \<Longrightarrow> 0 < held frame s \<Longrightarrow> keep_frame refuses frame p s = (k, s') \<Longrightarrow> scope_step s s'"
| step_read: "read_plane alloc_fails vf frame plane expected s = (b, s') \<Longrightarrow> scope_step s s'"

inductive scope_reachable :: "budget option \<Rightarrow> frame_scope \<Rightarrow> bool" for b where
  scope_init: "scope_reachable b (new_scope b)"
| scope_next: "scope_reachable b s \<Longrightarrow> scope_step s s' \<Longrightarrow> scope_reachable b s'"

lemma scope_step_inv: "scope_step s s' \<Longrightarrow> scope_inv s \<Longrightarrow> scope_inv s'"
proof (induction rule: scope_step.induct)
  case (step_hold grow vf out frame s r s')
  then show ?case using hold_keeps by blast
next
  case (step_free frame s)
  then show ?case using free_frame_keeps(1) by blast
next
  case (step_release frame s)
  then show ?case using forget_keeps by blast
next
  case (step_keep frame s refuses p k s')
  then show ?case using keep_frame_keeps(1) by blast
next
  case (step_read alloc_fails vf frame plane expected s b s')
  then show ?case using read_plane_keeps(1) by blast
qed

lemma scope_reachable_inv: "scope_reachable b s \<Longrightarrow> scope_inv s"
  by (induction rule: scope_reachable.induct) (use new_scope_inv scope_step_inv in blast)+

text \<open>
  C14. Whatever a callback does with its frames - errors of the host, of the budget and of
  the allocator included, and more frames than the 128 slots - the destructor gives back
  exactly the references that were not passed on: none is leaked and none is freed twice.
  Both accounts are back at zero, so the node's budget holds nothing of a finished callback.
\<close>

theorem frame_scope_no_leak:
  assumes "scope_reachable b s" "f \<noteq> 0"
  shows "fs_given s f \<le> fs_refs s f \<and>
    fs_refs (scope_destroy s) f = fs_given (scope_destroy s) f \<and> fs_given (scope_destroy s) f = fs_given s f \<and>
    a_bytes (fs_outputs (scope_destroy s)) = 0 \<and> a_bytes (fs_framework (scope_destroy s)) = 0"
  using destroy_frees [OF scope_reachable_inv [OF assms(1)]] scope_reachable_inv [OF assms(1)] assms(2)
  by (simp add: scope_inv_iff)

definition example_frame :: vs_frame where
  "example_frame = \<lparr>vf_planes = 1, vf_width = (\<lambda>_. 8), vf_height = (\<lambda>_. 4), vf_stride = (\<lambda>_. 64), vf_plane = (\<lambda>_ i. word_of_int i),
     vf_props = (\<lambda>_. None)\<rparr>"

lemma example_charge: "frame_charge example_frame = Inr 256"
  by (simp add: frame_charge_def example_frame_def to_size_def checked_mul_def checked_add_def size_max_def)

lemma example_slots: "replicate 128 no_entry = no_entry # no_entry # replicate 126 no_entry"
  by (simp add: numeral_eq_Suc)

text \<open>Two frames of 256 bytes, one an output that is then kept.\<close>

theorem frame_scope_no_leak_witness:
  "let s = snd (hold (\<lambda>_. None) example_frame False 5 (snd (hold (\<lambda>_. None) example_frame True 7 (new_scope (Some (new_budget 1000))))));
       s' = snd (keep_frame (\<lambda>_. False) 7 (\<lambda>_. None) s)
   in a_bytes (fs_outputs s) = 256 \<and> fs_refs s 5 = 1 \<and> fs_refs (scope_destroy s') 5 = 0 \<and> fs_refs (scope_destroy s') 7 = 1"
proof -
  let ?b = "new_budget 1000"
  define s0 where "s0 = new_scope (Some ?b)"
  define s1 where "s1 = snd (hold (\<lambda>_. None) example_frame True 7 s0)"
  define s where "s = snd (hold (\<lambda>_. None) example_frame False 5 s1)"
  define s' where "s' = snd (keep_frame (\<lambda>_. False) 7 (\<lambda>_. None) s)"
  let ?o = "\<lparr>en_frame = 7, en_bytes = 256, en_output = True\<rparr>" and ?i = "\<lparr>en_frame = 5, en_bytes = 256, en_output = False\<rparr>"
  have e1: "fs_inline s1 = ?o # no_entry # replicate 126 no_entry" "fs_spill s1 = []" "a_bytes (fs_outputs s1) = 256"
    "fs_budget s1 = Some (?b\<lparr>b_bytes := (b_bytes ?b)(Output_kind := 256), b_owned := 256, b_peak := 256\<rparr>)"
    "fs_framework s1 = new_account Framework_kind" "fs_refs s1 = (\<lambda>_. 0)(7 := 1)" "fs_given s1 = (\<lambda>_. 0)"
    by (simp_all add: s1_def s0_def hold_def new_scope_def example_charge example_slots charge_def acquire_def new_budget_def new_account_def
        checked_add_def size_max_def Let_def)
  have e: "fs_inline s = ?o # ?i # replicate 126 no_entry" "fs_spill s = []" "a_bytes (fs_outputs s) = 256"
    "fs_refs s = (\<lambda>_. 0)(7 := 1, 5 := 1)" "fs_given s = (\<lambda>_. 0)"
    by (simp_all add: s_def hold_def e1 example_charge charge_def acquire_def new_budget_def new_account_def
        checked_add_def size_max_def Let_def)
  have e': "fs_given s' = (\<lambda>_. 0)(7 := 1)"
    by (simp add: s'_def keep_frame_def resource_props_def contribution_set_def release_frame_def e split: option.split)
  have h: "0 < held 7 s" by (simp add: held_def slots_def e)
  have r1: "scope_reachable (Some ?b) s1"
    unfolding s1_def s0_def by (rule scope_next [OF scope_init step_hold [OF surjective_pairing]])
  have r: "scope_reachable (Some ?b) s"
    unfolding s_def by (rule scope_next [OF r1 step_hold [OF surjective_pairing]])
  have "scope_reachable (Some ?b) s'"
    unfolding s'_def using h by (intro scope_next [OF r] step_keep [OF _ _ surjective_pairing]) simp_all
  from frame_scope_no_leak [OF this, of 5] frame_scope_no_leak [OF this, of 7] e e'
  show ?thesis unfolding Let_def s_def [symmetric] s'_def [symmetric] s1_def [symmetric] s0_def [symmetric] by simp
qed

end
