(* ===== verification/Callback.thy ===== *)
theory Callback
  imports Ownership Workspace "HOL-Library.Multiset"
begin

text \<open>
  Frame callbacks as computations over an explicit state: the frames the callback holds, the
  workspace of its filter and the contents of the frames. A step returns a value or throws,
  and changes the state either way; an exception ends the callback with the state reached so
  far, which is what the destructors then see. \<open>outcome\<close> is the Hoare triple of such a
  step, with one postcondition for a value and one for an exception.
\<close>

subsection \<open>Steps and triples\<close>

type_synonym ('s, 'a) act = "'s \<Rightarrow> 'a res \<times> 's"

definition return_act :: "'a \<Rightarrow> ('s, 'a) act" where
  "return_act v s = (Inr v, s)"

definition bind_act :: "('s, 'a) act \<Rightarrow> ('a \<Rightarrow> ('s, 'b) act) \<Rightarrow> ('s, 'b) act" where
  "bind_act m f s = (case m s of (Inl e, s') \<Rightarrow> (Inl e, s') | (Inr v, s') \<Rightarrow> f v s')"

definition lift_res :: "'a res \<Rightarrow> ('s, 'a) act" where
  "lift_res r s = (r, s)"

fun for_act :: "('a \<Rightarrow> ('s, unit) act) \<Rightarrow> 'a list \<Rightarrow> ('s, unit) act" where
  "for_act f [] = return_act ()"
| "for_act f (x # xs) = bind_act (f x) (\<lambda>_. for_act f xs)"

fun map_act :: "('a \<Rightarrow> ('s, 'b) act) \<Rightarrow> 'a list \<Rightarrow> ('s, 'b list) act" where
  "map_act f [] = return_act []"
| "map_act f (x # xs) = bind_act (f x) (\<lambda>v. bind_act (map_act f xs) (\<lambda>vs. return_act (v # vs)))"

fun fold_act :: "('a \<Rightarrow> 'b \<Rightarrow> ('s, 'b) act) \<Rightarrow> 'a list \<Rightarrow> 'b \<Rightarrow> ('s, 'b) act" where
  "fold_act f [] v = return_act v"
| "fold_act f (x # xs) v = bind_act (f x v) (fold_act f xs)"

definition outcome :: "('s \<Rightarrow> bool) \<Rightarrow> ('s, 'a) act \<Rightarrow> ('a \<Rightarrow> 's \<Rightarrow> bool) \<Rightarrow> (nss_error \<Rightarrow> 's \<Rightarrow> bool) \<Rightarrow> bool" where
  "outcome P m Q E \<longleftrightarrow> (\<forall>s. P s \<longrightarrow> (case m s of (Inl e, s') \<Rightarrow> E e s' | (Inr v, s') \<Rightarrow> Q v s'))"

lemma outcomeI: "(\<And>s v s'. P s \<Longrightarrow> m s = (Inr v, s') \<Longrightarrow> Q v s') \<Longrightarrow> (\<And>s e s'. P s \<Longrightarrow> m s = (Inl e, s') \<Longrightarrow> E e s') \<Longrightarrow> outcome P m Q E"
  by (auto simp: outcome_def split: prod.split sum.split)

lemma outcomeD:
  "outcome P m Q E \<Longrightarrow> P s \<Longrightarrow> m s = (Inr v, s') \<Longrightarrow> Q v s'"
  "outcome P m Q E \<Longrightarrow> P s \<Longrightarrow> m s = (Inl e, s') \<Longrightarrow> E e s'"
  by (auto simp: outcome_def)

lemma outcome_return: "(\<And>s. P s \<Longrightarrow> Q v s) \<Longrightarrow> outcome P (return_act v) Q E"
  by (simp add: outcome_def return_act_def)

lemma outcome_lift: "(\<And>s v. P s \<Longrightarrow> r = Inr v \<Longrightarrow> Q v s) \<Longrightarrow> (\<And>s e. P s \<Longrightarrow> r = Inl e \<Longrightarrow> E e s) \<Longrightarrow> outcome P (lift_res r) Q E"
  by (auto simp: outcome_def lift_res_def split: sum.split)

lemma outcome_bind:
  assumes "outcome P m R E" "\<And>v. outcome (R v) (f v) Q E"
  shows "outcome P (bind_act m f) Q E"
  using assms unfolding outcome_def bind_act_def by (fastforce split: prod.splits sum.splits)

lemma outcome_weaken:
  assumes "outcome P m Q E" "\<And>s. P' s \<Longrightarrow> P s" "\<And>v s. Q v s \<Longrightarrow> Q' v s" "\<And>e s. E e s \<Longrightarrow> E' e s"
  shows "outcome P' m Q' E'"
  using assms unfolding outcome_def by (fastforce split: prod.splits sum.splits)

text \<open>A fact that does not depend on the state.\<close>

lemma outcome_pure: "(c \<Longrightarrow> outcome P m Q E) \<Longrightarrow> outcome (\<lambda>s. c \<and> P s) m Q E"
  by (auto simp: outcome_def)

lemma outcome_if: "(c \<Longrightarrow> outcome P m Q E) \<Longrightarrow> (\<not> c \<Longrightarrow> outcome P m' Q E) \<Longrightarrow> outcome P (if c then m else m') Q E"
  by simp

text \<open>Loops: the invariant names the elements done so far.\<close>

lemma outcome_for:
  assumes "\<And>xs0 x xs1. xs = xs0 @ x # xs1 \<Longrightarrow> outcome (I xs0) (f x) (\<lambda>_. I (xs0 @ [x])) E"
  shows "outcome (I []) (for_act f xs) (\<lambda>_. I xs) E"
proof -
  have "outcome (I ys) (for_act f zs) (\<lambda>_. I xs) E" if "xs = ys @ zs" for ys zs
    using that
  proof (induction zs arbitrary: ys)
    case Nil
    then show ?case by (simp add: outcome_return)
  next
    case (Cons z zs)
    show ?case
      unfolding for_act.simps by (rule outcome_bind [OF assms [OF Cons.prems]]) (rule Cons.IH, simp add: Cons.prems)
  qed
  from this [of "[]" xs] show ?thesis by simp
qed

lemma outcome_map:
  assumes "\<And>xs0 x xs1 vs. xs = xs0 @ x # xs1 \<Longrightarrow> length vs = length xs0 \<Longrightarrow> outcome (I xs0 vs) (f x) (\<lambda>v. I (xs0 @ [x]) (vs @ [v])) E"
  shows "outcome (I [] []) (map_act f xs) (\<lambda>vs s. length vs = length xs \<and> I xs vs s) E"
proof -
  have "outcome (I ys vs) (map_act f zs) (\<lambda>ws s. length ws = length zs \<and> I xs (vs @ ws) s) E"
    if "xs = ys @ zs" "length vs = length ys" for ys zs vs
    using that
  proof (induction zs arbitrary: ys vs)
    case Nil
    then show ?case by (simp add: outcome_return)
  next
    case (Cons z zs)
    show ?case
      unfolding map_act.simps
    proof (rule outcome_bind [OF assms [OF Cons.prems]], rule outcome_bind)
      fix v
      show "outcome (I (ys @ [z]) (vs @ [v])) (map_act f zs) (\<lambda>ws s. length ws = length zs \<and> I xs ((vs @ [v]) @ ws) s) E"
        by (rule Cons.IH) (simp_all add: Cons.prems)
      show "outcome (\<lambda>s. length ws = length zs \<and> I xs ((vs @ [v]) @ ws) s) (return_act (v # ws))
          (\<lambda>ws s. length ws = length (z # zs) \<and> I xs (vs @ ws) s) E" for ws
        by (rule outcome_return) simp
    qed
  qed
  from this [of "[]" xs "[]"] show ?thesis by simp
qed

lemma outcome_fold:
  assumes "\<And>xs0 x xs1 v. xs = xs0 @ x # xs1 \<Longrightarrow> outcome (I xs0 v) (f x v) (I (xs0 @ [x])) E"
  shows "outcome (I [] v) (fold_act f xs v) (I xs) E"
proof -
  have "outcome (I ys v) (fold_act f zs v) (I xs) E" if "xs = ys @ zs" for ys zs v
    using that
  proof (induction zs arbitrary: ys v)
    case Nil
    then show ?case by (simp add: outcome_return)
  next
    case (Cons z zs)
    show ?case
      unfolding fold_act.simps by (rule outcome_bind [OF assms [OF Cons.prems]]) (rule Cons.IH, simp add: Cons.prems)
  qed
  from this [of "[]" xs v] show ?thesis by simp
qed

subsection \<open>The state of a callback and the host\<close>

record callback =
  cb_scope :: frame_scope
  cb_ws :: workspace
  cb_frames :: "nat \<Rightarrow> vs_frame"

text \<open>
  The host as a callback sees it: the frame a node gives (0 on failure), the frame
  \<open>newVideoFrame\<close> makes, with its planes not initialised, the outcome of allocations, the
  thread and its aligned memory, the property keys it fails to set, and whether the node has a
  memory budget.
\<close>

record host =
  ho_source :: "nat \<Rightarrow> int \<Rightarrow> nat"
  ho_fresh :: nat
  ho_blank :: vs_frame
  ho_grow :: "entry list \<Rightarrow> nss_error option"
  ho_alloc :: "nat \<Rightarrow> nss_error option"
  ho_memalign :: "nat \<Rightarrow> nat option"
  ho_thread :: nat
  ho_refuses :: "string \<Rightarrow> bool"
  ho_limited :: bool

definition start_callback :: "budget option \<Rightarrow> workspace \<Rightarrow> (nat \<Rightarrow> vs_frame) \<Rightarrow> callback" where
  "start_callback b ws frames = \<lparr>cb_scope = new_scope b, cb_ws = ws, cb_frames = frames\<rparr>"

definition get_frame :: "host \<Rightarrow> nat \<Rightarrow> int \<Rightarrow> (callback, nat) act" where
  "get_frame H node n s =
     (let p = ho_source H node n; (r, sc) = hold (ho_grow H) (cb_frames s p) False p (cb_scope s) in (r, s\<lparr>cb_scope := sc\<rparr>))"

text \<open>\<open>newVideoFrame\<close> copies the properties of \<open>props_of\<close>.\<close>

definition new_frame :: "host \<Rightarrow> int \<Rightarrow> int \<Rightarrow> nat \<Rightarrow> (callback, nat) act" where
  "new_frame H w h props_of s =
     (let p = ho_fresh H; vf = (ho_blank H)\<lparr>vf_props := vf_props (cb_frames s props_of)\<rparr>;
          (r, sc) = scope_new_frame (ho_grow H) w h vf p (cb_scope s)
      in (r, s\<lparr>cb_scope := sc, cb_frames := (cb_frames s)(p := vf)\<rparr>))"

definition float_stride :: "nat \<Rightarrow> int \<Rightarrow> (callback, int) act" where
  "float_stride f plane s = (map_sum id (\<lambda>bytes. bytes div 4) (get_stride (cb_frames s f) plane), s)"

definition read_act :: "host \<Rightarrow> nat \<Rightarrow> int \<Rightarrow> int \<Rightarrow> (callback, buffer) act" where
  "read_act H f plane expected s =
     (let (r, sc) = read_plane (ho_alloc H) (cb_frames s f) f plane expected (cb_scope s) in (r, s\<lparr>cb_scope := sc\<rparr>))"

text \<open>\<open>getReadPtr\<close>, and a store through \<open>getWritePtr\<close>.\<close>

definition plane_of :: "nat \<Rightarrow> int \<Rightarrow> (callback, buffer) act" where
  "plane_of f plane s = (Inr (vf_plane (cb_frames s f) plane), s)"

definition write_plane :: "nat \<Rightarrow> int \<Rightarrow> (buffer \<Rightarrow> buffer) \<Rightarrow> (callback, unit) act" where
  "write_plane f plane g s =
     (let vf = cb_frames s f
      in (Inr (), s\<lparr>cb_frames := (cb_frames s)(f := vf\<lparr>vf_plane := (vf_plane vf)(plane := g (vf_plane vf plane))\<rparr>)\<rparr>))"

definition write_props :: "nat \<Rightarrow> (props \<Rightarrow> props res) \<Rightarrow> (callback, unit) act" where
  "write_props f g s =
     (let vf = cb_frames s f
      in case g (vf_props vf) of
           Inl e \<Rightarrow> (Inl e, s)
         | Inr p \<Rightarrow> (Inr (), s\<lparr>cb_frames := (cb_frames s)(f := vf\<lparr>vf_props := p\<rparr>)\<rparr>))"

definition scratch_floats :: "host \<Rightarrow> nat \<Rightarrow> (callback, nat) act" where
  "scratch_floats H n s =
     (let (r, ws) = ws_get (ho_memalign H) (ho_thread H) n (cb_ws s) in (r, s\<lparr>cb_ws := ws\<rparr>))"

definition free_act :: "nat \<Rightarrow> (callback, unit) act" where
  "free_act f s = (Inr (), s\<lparr>cb_scope := free_frame f (cb_scope s)\<rparr>)"

definition keep_act :: "host \<Rightarrow> nat \<Rightarrow> (callback, nat) act" where
  "keep_act H f s =
     (let vf = cb_frames s f; (r, sc) = keep_frame (ho_refuses H) f (vf_props vf) (cb_scope s)
      in case r of
           Inl e \<Rightarrow> (Inl e, s\<lparr>cb_scope := sc\<rparr>)
         | Inr p \<Rightarrow> (Inr f, s\<lparr>cb_scope := sc, cb_frames := (cb_frames s)(f := vf\<lparr>vf_props := p\<rparr>)\<rparr>))"

text \<open>\<open>checked_frame\<close>: an exception becomes the error of the frame; the destructor of the scope runs in either case.\<close>

fun frame_message :: "nss_error \<Rightarrow> string" where
  "frame_message Bad_alloc = ''nss: resource allocation failed''"
| "frame_message Bad_array_new_length = ''nss: resource allocation failed''"
| "frame_message (Overflow_error m) = m"
| "frame_message (Invalid_argument m) = m"
| "frame_message (Runtime_error m) = m"
| "frame_message (Logic_error m) = m"

definition checked_frame :: "(callback, nat) act \<Rightarrow> callback \<Rightarrow> (string + nat) \<times> callback" where
  "checked_frame m s = (case m s of (r, s') \<Rightarrow> (map_sum frame_message id r, s'\<lparr>cb_scope := scope_destroy (cb_scope s')\<rparr>))"

subsection \<open>What the host promises, and what a callback owns\<close>

text \<open>An error of the arguments, as opposed to one of the resources.\<close>

definition refusal :: "nss_error \<Rightarrow> bool" where
  "refusal e \<longleftrightarrow> (\<exists>m. e = Invalid_argument m)"

text \<open>
  A new frame is none of those a node gives, aligned memory is not null, and an allocation
  that fails does so for want of memory or budget.
\<close>

definition host_ok :: "host \<Rightarrow> bool" where
  "host_ok H \<longleftrightarrow>
     (\<forall>node n. ho_source H node n \<noteq> 0 \<longrightarrow> ho_source H node n \<noteq> ho_fresh H) \<and>
     (\<forall>es e. ho_grow H es = Some e \<longrightarrow> \<not> refusal e) \<and> (\<forall>n e. ho_alloc H n = Some e \<longrightarrow> \<not> refusal e) \<and>
     (\<forall>b q. ho_memalign H b = Some q \<longrightarrow> q \<noteq> 0)"

text \<open>
  A host that has every frame and all the memory a callback asks for, to a node without a
  budget; what can still fail is a size that is not representable.
\<close>

definition generous :: "host \<Rightarrow> bool" where
  "generous H \<longleftrightarrow>
     (\<forall>node n. ho_source H node n \<noteq> 0) \<and> ho_fresh H \<noteq> 0 \<and> (\<forall>es. ho_grow H es = None) \<and> (\<forall>n. ho_alloc H n = None) \<and>
     (\<forall>b. ho_memalign H b \<noteq> None) \<and> (\<forall>key. \<not> ho_refuses H key) \<and> \<not> ho_limited H"

definition size_error :: "nss_error \<Rightarrow> bool" where
  "size_error e \<longleftrightarrow> e = Bad_array_new_length \<or> (\<exists>m. e = Overflow_error m)"

text \<open>A frame of a clip: its planes have the clip's dimensions, and rows of whole floats that do not overlap.\<close>

definition has_format :: "video_info \<Rightarrow> vs_frame \<Rightarrow> bool" where
  "has_format vi vf \<longleftrightarrow>
     vf_planes vf = vi_planes vi \<and>
     (\<forall>plane. 0 \<le> plane \<longrightarrow> plane < vi_planes vi \<longrightarrow>
       vf_width vf plane = plane_width vi plane \<and> vf_height vf plane = plane_height vi plane \<and>
       1 \<le> plane_width vi plane \<and> 1 \<le> plane_height vi plane \<and>
       vf_stride vf plane mod 4 = 0 \<and> plane_width vi plane \<le> vf_stride vf plane div 4)"

definition owns :: "host \<Rightarrow> nat multiset \<Rightarrow> callback \<Rightarrow> bool" where
  "owns H M s \<longleftrightarrow>
     scope_inv (cb_scope s) \<and> fs_given (cb_scope s) = (\<lambda>_. 0) \<and> (\<forall>f. f \<noteq> 0 \<longrightarrow> held f (cb_scope s) = count M f) \<and> 0 \<notin># M \<and>
     mirrors_ok (cb_frames s) (cb_scope s) \<and> (\<forall>m \<in> set (fs_mirrors (cb_scope s)). mi_frame m \<noteq> ho_fresh H) \<and> ws_inv (cb_ws s) \<and>
     (\<not> ho_limited H \<longrightarrow> fs_budget (cb_scope s) = None \<and> ws_budget (cb_ws s) = None)"

definition failed :: "host \<Rightarrow> nss_error \<Rightarrow> callback \<Rightarrow> bool" where
  "failed H e s \<longleftrightarrow>
     scope_inv (cb_scope s) \<and> fs_given (cb_scope s) = (\<lambda>_. 0) \<and> ws_inv (cb_ws s) \<and> \<not> refusal e \<and> (generous H \<longrightarrow> size_error e)"

lemma start_owns:
  "ws_inv ws \<Longrightarrow> \<not> ho_limited H \<longrightarrow> b = None \<and> ws_budget ws = None \<Longrightarrow> owns H {#} (start_callback b ws frames)"
  by (simp add: owns_def start_callback_def new_scope_inv)
    (simp add: new_scope_def held_def slots_def no_entry_def mirrors_ok_def)

lemma owns_failed: "owns H M s \<Longrightarrow> size_error e \<Longrightarrow> failed H e s"
  by (auto simp: owns_def failed_def refusal_def size_error_def)

subsection \<open>Errors of the resources\<close>

lemma no_refusal [simp]:
  "\<not> refusal Bad_alloc" "\<not> refusal Bad_array_new_length" "\<not> refusal (Overflow_error m)" "\<not> refusal (Runtime_error m)" "refusal (Invalid_argument m)"
  by (simp_all add: refusal_def)

lemma checked_size_error:
  "checked_mul a b = Inl e \<Longrightarrow> size_error e" "checked_add a b = Inl e \<Longrightarrow> size_error e" "checked_int c = Inl e \<Longrightarrow> size_error e"
  by (auto simp: checked_mul_def checked_add_def checked_int_def size_error_def split: if_splits)

lemma size_error_no_refusal: "size_error e \<Longrightarrow> \<not> refusal e"
  by (auto simp: refusal_def size_error_def)

lemmas checked_no_refusal = checked_size_error [THEN size_error_no_refusal]

lemma foldE_no_refusal: "foldE f xs v = Inl e \<Longrightarrow> (\<And>x v e. f x v = Inl e \<Longrightarrow> \<not> refusal e) \<Longrightarrow> \<not> refusal e"
proof (induction xs arbitrary: v)
  case (Cons x xs)
  then show ?case by (cases "f x v") auto
qed simp

lemma frame_charge_no_refusal: "frame_charge vf = Inl e \<Longrightarrow> \<not> refusal e"
  unfolding frame_charge_def by (erule foldE_no_refusal) (auto simp: bindE_Inl_iff dest: checked_no_refusal)

lemma acquire_no_refusal: "acquire n b a = Inl e \<Longrightarrow> \<not> refusal e"
  by (cases b) (auto simp: acquire_def Let_def bindE_Inl_iff dest: checked_no_refusal split: if_splits)

lemma charge_no_refusal: "charge out n s = Inl e \<Longrightarrow> \<not> refusal e"
  by (auto simp: charge_def bindE_Inl_iff dest: acquire_no_refusal split: if_splits)

lemma hold_no_refusal:
  assumes "hold grow vf out f s = (Inl e, s')" "\<And>es e. grow es = Some e \<Longrightarrow> \<not> refusal e"
  shows "\<not> refusal e"
proof (cases "f = 0")
  case True
  then show ?thesis using assms(1) by (auto simp: hold_def)
next
  case False
  define t where "t = s\<lparr>fs_refs := (fs_refs s)(f := fs_refs s f + 1)\<rparr>"
  let ?c = "if fs_budget t \<noteq> None then bindE (frame_charge vf) (\<lambda>bytes. map_sum id (Pair bytes) (charge out bytes t)) else Inr (0, t)"
  show ?thesis
  proof (cases ?c)
    case (Inl e')
    then have "e = e'" using assms(1) False by (auto simp: hold_def t_def [symmetric] Let_def)
    moreover have "\<not> refusal e'" using Inl frame_charge_no_refusal charge_no_refusal
      by (auto simp: bindE_Inl_iff map_sum_id_Inl split: if_splits)
    ultimately show ?thesis by simp
  next
    case (Inr p)
    obtain bytes s1 where p: "p = (bytes, s1)" by (cases p)
    let ?e = "\<lparr>en_frame = f, en_bytes = bytes, en_output = out\<rparr>"
    have "hold grow vf out f s = (case place ?e (fs_inline s1) of
            Some es \<Rightarrow> (Inr f, s1\<lparr>fs_inline := es\<rparr>)
          | None \<Rightarrow> (case place ?e (fs_spill s1) of
                 Some es \<Rightarrow> (Inr f, s1\<lparr>fs_spill := es\<rparr>)
               | None \<Rightarrow> (case grow (fs_spill s1) of
                      None \<Rightarrow> (Inr f, s1\<lparr>fs_spill := fs_spill s1 @ [?e]\<rparr>)
                    | Some err \<Rightarrow> (Inl err, api_free f (if fs_budget t \<noteq> None then uncharge ?e s1 else s1)))))"
      unfolding hold_def t_def [symmetric] Let_def using Inr [unfolded p] by (simp only: False if_False sum.case prod.case)
    then have "grow (fs_spill s1) = Some e" using assms(1) by (simp split: option.splits)
    then show ?thesis using assms(2) by blast
  qed
qed

lemma ws_get_no_refusal: "ws_get memalign thread n w = (Inl e, w') \<Longrightarrow> \<not> refusal e"
  by (auto simp: ws_get_def Let_def dest: acquire_no_refusal split: if_splits prod.splits sum.splits option.splits)

lemma ws_get_unlimited:
  assumes "ws_get memalign thread n w = (r, w')" "ws_budget w = None"
  shows "ws_budget w' = None" "r = Inl e \<Longrightarrow> \<forall>b. memalign b \<noteq> None \<Longrightarrow> size_error e"
proof -
  have t: "ws_budget (ws_touch k w) = None" for k using assms(2) by (simp add: ws_touch_def split: option.split)
  show "ws_budget w' = None" using assms t
    by (auto simp: ws_get_def Let_def acquire_def release_def aligned64_def ws_set_def split: if_splits prod.splits sum.splits option.splits)
  show "size_error e" if r: "r = Inl e" and al: "\<forall>b. memalign b \<noteq> None"
  proof -
    obtain q where "aligned64 memalign (buffer_charge n) = Some q" using al unfolding aligned64_def by blast
    then show ?thesis using assms t r
      by (auto simp: ws_get_def Let_def acquire_def release_def size_error_def split: if_splits prod.splits sum.splits option.splits)
  qed
qed

lemma hold_unlimited:
  assumes "hold grow vf out f s = (r, s')" "fs_budget s = None"
  shows "fs_budget s' = None" "f \<noteq> 0 \<Longrightarrow> \<forall>es. grow es = None \<Longrightarrow> r \<noteq> Inl e"
  using assms by (auto simp: hold_def Let_def api_free_def split: if_splits option.splits)

subsection \<open>The steps\<close>

lemma hold_mirrors: "hold grow vf out f s = (r, s') \<Longrightarrow> fs_mirrors s' = fs_mirrors s"
proof (cases "f = 0")
  case True
  then show "hold grow vf out f s = (r, s') \<Longrightarrow> ?thesis" by (simp add: hold_def)
next
  case False
  have c: "charge out n t = Inr t' \<Longrightarrow> fs_mirrors t' = fs_mirrors t" for n t t' using charge_facts(1) by (simp add: same_table_def)
  have u: "fs_mirrors (uncharge e t) = fs_mirrors t" for e t using uncharge_facts(1) by (simp add: same_table_def)
  show "hold grow vf out f s = (r, s') \<Longrightarrow> ?thesis"
    using False by (auto simp: hold_def Let_def api_free_def u bindE_Inr_iff map_sum_id_Inr dest: c split: if_splits sum.splits option.splits prod.splits)
qed

lemma forget_mirrors: "fs_mirrors (forget f s) = fs_mirrors s"
proof -
  have u: "fs_mirrors (uncharge e t) = fs_mirrors t" for e t using uncharge_facts(1) by (simp add: same_table_def)
  show ?thesis by (auto simp: forget_def u split: option.split)
qed

text \<open>Every step, with any predicate on the contents of the frames carried along.\<close>

lemma get_frame_step:
  assumes "host_ok H"
  shows "outcome (\<lambda>s. owns H M s \<and> K (cb_frames s)) (get_frame H node n)
    (\<lambda>p s. p = ho_source H node n \<and> p \<noteq> 0 \<and> p \<noteq> ho_fresh H \<and> owns H (add_mset p M) s \<and> K (cb_frames s)) (failed H)"
proof (rule outcomeI)
  fix s v s'
  assume P: "owns H M s \<and> K (cb_frames s)" and g: "get_frame H node n s = (Inr v, s')"
  obtain sc where h: "hold (ho_grow H) (cb_frames s (ho_source H node n)) False (ho_source H node n) (cb_scope s) = (Inr v, sc)"
    and s': "s' = s\<lparr>cb_scope := sc\<rparr>" using g by (auto simp: get_frame_def Let_def split: prod.splits)
  from hold_keeps [OF _ h] P hold_mirrors [OF h] hold_unlimited(1) [OF h] assms
  show "v = ho_source H node n \<and> v \<noteq> 0 \<and> v \<noteq> ho_fresh H \<and> owns H (add_mset v M) s' \<and> K (cb_frames s')"
    unfolding s' by (auto simp: owns_def host_ok_def mirrors_ok_def)
next
  fix s e s'
  assume P: "owns H M s \<and> K (cb_frames s)" and g: "get_frame H node n s = (Inl e, s')"
  obtain sc where h: "hold (ho_grow H) (cb_frames s (ho_source H node n)) False (ho_source H node n) (cb_scope s) = (Inl e, sc)"
    and s': "s' = s\<lparr>cb_scope := sc\<rparr>" using g by (auto simp: get_frame_def Let_def split: prod.splits)
  have "\<not> refusal e" using hold_no_refusal [OF h] assms by (auto simp: host_ok_def)
  moreover have "\<not> generous H" using hold_unlimited(2) [OF h] P unfolding generous_def owns_def by metis
  ultimately show "failed H e s'" using hold_keeps [OF _ h] P unfolding s' by (auto simp: owns_def failed_def)
qed

lemma mirrors_ok_fresh:
  "mirrors_ok fr sc \<Longrightarrow> \<forall>m \<in> set (fs_mirrors sc). mi_frame m \<noteq> f \<Longrightarrow> mirrors_ok (fr(f := x)) sc"
  by (auto simp: mirrors_ok_def)

lemma new_frame_step:
  assumes "host_ok H"
    and "\<And>fr. K fr \<Longrightarrow> K' (fr(ho_fresh H := (ho_blank H)\<lparr>vf_props := vf_props (fr f)\<rparr>))"
  shows "outcome (\<lambda>s. owns H M s \<and> K (cb_frames s)) (new_frame H w h f)
    (\<lambda>p s. p = ho_fresh H \<and> p \<noteq> 0 \<and> owns H (add_mset p M) s \<and> K' (cb_frames s)) (failed H)"
proof -
  have mir: "mirrors_ok (fr(ho_fresh H := x)) sc" if "mirrors_ok fr sc0" "fs_mirrors sc = fs_mirrors sc0" "\<forall>m \<in> set (fs_mirrors sc0). mi_frame m \<noteq> ho_fresh H"
    for fr x sc sc0 using that by (auto simp: mirrors_ok_def)
  show ?thesis
  proof (rule outcomeI)
    fix s v s'
    assume P: "owns H M s \<and> K (cb_frames s)" and g: "new_frame H w h f s = (Inr v, s')"
    let ?vf = "(ho_blank H)\<lparr>vf_props := vf_props (cb_frames s f)\<rparr>"
    obtain sc where "scope_new_frame (ho_grow H) w h ?vf (ho_fresh H) (cb_scope s) = (Inr v, sc)"
      and s': "s' = s\<lparr>cb_scope := sc, cb_frames := (cb_frames s)(ho_fresh H := ?vf)\<rparr>" using g by (auto simp: new_frame_def Let_def split: prod.splits)
    then have h: "hold (ho_grow H) ?vf True (ho_fresh H) (cb_scope s) = (Inr v, sc)" by (auto simp: scope_new_frame_def split: sum.splits)
    have "K' (cb_frames s')" unfolding s' using assms(2) [of "cb_frames s"] P by simp
    with hold_keeps [OF _ h] P hold_mirrors [OF h] hold_unlimited(1) [OF h]
    show "v = ho_fresh H \<and> v \<noteq> 0 \<and> owns H (add_mset v M) s' \<and> K' (cb_frames s')"
      unfolding s' by (auto simp: owns_def intro: mir)
  next
    fix s e s'
    assume P: "owns H M s \<and> K (cb_frames s)" and g: "new_frame H w h f s = (Inl e, s')"
    let ?vf = "(ho_blank H)\<lparr>vf_props := vf_props (cb_frames s f)\<rparr>"
    obtain sc where n: "scope_new_frame (ho_grow H) w h ?vf (ho_fresh H) (cb_scope s) = (Inl e, sc)"
      and s': "s' = s\<lparr>cb_scope := sc, cb_frames := (cb_frames s)(ho_fresh H := ?vf)\<rparr>" using g by (auto simp: new_frame_def Let_def split: prod.splits)
    show "failed H e s'"
    proof (cases "bindE (checked_mul (to_size w) (to_size h)) checked_int")
      case (Inl e')
      then have "size_error e'" by (auto simp: bindE_Inl_iff dest: checked_size_error)
      then show ?thesis using n P Inl size_error_no_refusal unfolding s' by (auto simp: scope_new_frame_def owns_def failed_def)
    next
      case (Inr i)
      then have h: "hold (ho_grow H) ?vf True (ho_fresh H) (cb_scope s) = (Inl e, sc)" using n by (simp add: scope_new_frame_def)
      have "\<not> refusal e" using hold_no_refusal [OF h] assms(1) by (auto simp: host_ok_def)
      moreover have "\<not> generous H" using hold_unlimited(2) [OF h] P unfolding generous_def owns_def by metis
      ultimately show ?thesis using hold_keeps [OF _ h] P unfolding s' by (auto simp: owns_def failed_def)
    qed
  qed
qed

lemma format_stride:
  assumes "has_format vi vf" "0 \<le> plane" "plane < vi_planes vi"
  shows "0 < vf_stride vf plane"
proof -
  have "4 * (vf_stride vf plane div 4) = vf_stride vf plane" "1 \<le> vf_stride vf plane div 4" using assms by (auto simp: has_format_def)
  then show ?thesis by linarith
qed

lemma float_stride_step:
  assumes "\<And>fr. K fr \<Longrightarrow> has_format vi (fr f)" "0 \<le> plane" "plane < vi_planes vi"
  shows "outcome (\<lambda>s. owns H M s \<and> K (cb_frames s)) (float_stride f plane)
    (\<lambda>v s. plane_width vi plane \<le> v \<and> owns H M s \<and> K (cb_frames s) \<and> v = vf_stride (cb_frames s f) plane div 4) (failed H)"
proof (rule outcomeI)
  fix s v s'
  assume P: "owns H M s \<and> K (cb_frames s)" and g: "float_stride f plane s = (Inr v, s')"
  have "has_format vi (cb_frames s f)" using P assms(1) by blast
  then show "plane_width vi plane \<le> v \<and> owns H M s' \<and> K (cb_frames s') \<and> v = vf_stride (cb_frames s' f) plane div 4"
    using P g assms(2,3) get_stride_Inr [of "cb_frames s f" plane] by (auto simp: float_stride_def map_sum_id_Inr has_format_def)
next
  fix s e s'
  assume P: "owns H M s \<and> K (cb_frames s)" and g: "float_stride f plane s = (Inl e, s')"
  have fm: "has_format vi (cb_frames s f)" using P assms(1) by blast
  have s': "s' = s" and e: "get_stride (cb_frames s f) plane = Inl e" using g by (auto simp: float_stride_def map_sum_id_Inl)
  have "size_error e" using e fm assms(2,3) format_stride [OF fm assms(2,3)]
    by (auto simp: get_stride_def Let_def has_format_def bindE_Inl_iff dest: checked_size_error split: if_splits)
  then show "failed H e s'" using P s' by (auto intro: owns_failed)
qed

lemma read_act_step:
  assumes "host_ok H" "\<And>fr. K fr \<Longrightarrow> has_format vi (fr f)" "0 \<le> plane" "plane < vi_planes vi" "f \<noteq> ho_fresh H" "plane_width vi plane \<le> expected"
  shows "outcome (\<lambda>s. owns H M s \<and> K (cb_frames s)) (read_act H f plane expected)
    (\<lambda>b s. owns H M s \<and> K (cb_frames s) \<and> plane_pixels (cb_frames s f) plane expected b) (failed H)"
proof -
  have keeps: "owns H M s'" "cb_frames s' = cb_frames s" "r = Inr b \<Longrightarrow> plane_pixels (cb_frames s' f) plane expected b"
    if P: "owns H M s" and r: "read_plane (ho_alloc H) (cb_frames s f) f plane expected (cb_scope s) = (r, sc)" and s': "s' = s\<lparr>cb_scope := sc\<rparr>"
    for s r sc s' b
  proof -
    have m: "set (fs_mirrors sc) \<subseteq> set (fs_mirrors (cb_scope s)) \<union> {m. mi_frame m = f}"
      using r by (auto simp: read_plane_def Let_def split: sum.splits option.splits if_splits)
    note k = read_plane_keeps [OF _ r] read_plane_pixels [where frames = "cb_frames s", OF _ r]
    have "fs_budget sc = fs_budget (cb_scope s)"
      using r by (auto simp: read_plane_def Let_def split: sum.splits option.splits if_splits)
    then show "owns H M s'" using P m k assms(5) unfolding s' owns_def by auto
    show "cb_frames s' = cb_frames s" by (simp add: s')
    show "plane_pixels (cb_frames s' f) plane expected b" if "r = Inr b" using k P that unfolding s' owns_def by simp
  qed
  show ?thesis
  proof (rule outcomeI)
    fix s v s'
    assume P: "owns H M s \<and> K (cb_frames s)" and g: "read_act H f plane expected s = (Inr v, s')"
    obtain sc where r: "read_plane (ho_alloc H) (cb_frames s f) f plane expected (cb_scope s) = (Inr v, sc)" "s' = s\<lparr>cb_scope := sc\<rparr>"
      using g by (auto simp: read_act_def split: prod.splits)
    from keeps [OF conjunct1 [OF P] r] P show "owns H M s' \<and> K (cb_frames s') \<and> plane_pixels (cb_frames s' f) plane expected v" by simp
  next
    fix s e s'
    assume P: "owns H M s \<and> K (cb_frames s)" and g: "read_act H f plane expected s = (Inl e, s')"
    obtain sc where r: "read_plane (ho_alloc H) (cb_frames s f) f plane expected (cb_scope s) = (Inl e, sc)" "s' = s\<lparr>cb_scope := sc\<rparr>"
      using g by (auto simp: read_act_def split: prod.splits)
    have fm: "has_format vi (cb_frames s f)" using P assms(2) by blast
    have "\<not> refusal e \<and> (generous H \<longrightarrow> size_error e)" using r(1) fm assms(1,3,4,6) format_stride [OF fm assms(3,4)]
      by (auto simp: read_plane_def get_stride_def Let_def has_format_def host_ok_def generous_def bindE_Inl_iff
          dest: checked_no_refusal checked_size_error split: if_splits sum.splits option.splits)
    then show "failed H e s'" using keeps(1) [OF conjunct1 [OF P] r] by (auto simp: owns_def failed_def)
  qed
qed

lemma plane_of_step: "outcome (\<lambda>s. owns H M s \<and> K (cb_frames s)) (plane_of f plane)
    (\<lambda>b s. owns H M s \<and> K (cb_frames s) \<and> b = vf_plane (cb_frames s f) plane) (failed H)"
  by (simp add: outcome_def plane_of_def)

lemma write_plane_step:
  assumes "\<And>fr. K fr \<Longrightarrow> K' (fr(ho_fresh H := fr (ho_fresh H)\<lparr>vf_plane := (vf_plane (fr (ho_fresh H)))(plane := g (vf_plane (fr (ho_fresh H)) plane))\<rparr>))"
  shows "outcome (\<lambda>s. owns H M s \<and> K (cb_frames s)) (write_plane (ho_fresh H) plane g) (\<lambda>_ s. owns H M s \<and> K' (cb_frames s)) (failed H)"
  using assms by (auto simp: outcome_def write_plane_def owns_def Let_def intro: mirrors_ok_fresh)

lemma write_props_step:
  assumes "\<And>fr p. K fr \<Longrightarrow> g (vf_props (fr (ho_fresh H))) = Inr p \<Longrightarrow> K' (fr(ho_fresh H := fr (ho_fresh H)\<lparr>vf_props := p\<rparr>))"
    and "\<And>p e. g p = Inl e \<Longrightarrow> \<not> refusal e \<and> (generous H \<longrightarrow> size_error e)"
  shows "outcome (\<lambda>s. owns H M s \<and> K (cb_frames s)) (write_props (ho_fresh H) g) (\<lambda>_ s. owns H M s \<and> K' (cb_frames s)) (failed H)"
proof (rule outcomeI)
  fix s v s'
  assume P: "owns H M s \<and> K (cb_frames s)" and w: "write_props (ho_fresh H) g s = (Inr v, s')"
  then obtain p where p: "g (vf_props (cb_frames s (ho_fresh H))) = Inr p"
    "s' = s\<lparr>cb_frames := (cb_frames s)(ho_fresh H := cb_frames s (ho_fresh H)\<lparr>vf_props := p\<rparr>)\<rparr>"
    by (auto simp: write_props_def Let_def split: sum.splits)
  show "owns H M s' \<and> K' (cb_frames s')"
    using P assms(1) [of "cb_frames s" p] p(1) unfolding p(2) owns_def by (auto intro: mirrors_ok_fresh)
next
  fix s e s'
  assume P: "owns H M s \<and> K (cb_frames s)" and w: "write_props (ho_fresh H) g s = (Inl e, s')"
  then have "s' = s" "g (vf_props (cb_frames s (ho_fresh H))) = Inl e" by (auto simp: write_props_def Let_def split: sum.splits)
  then show "failed H e s'" using P assms(2) by (auto simp: owns_def failed_def)
qed

lemma scratch_step:
  assumes "host_ok H"
  shows "outcome (\<lambda>s. owns H M s \<and> K (cb_frames s)) (scratch_floats H n) (\<lambda>p s. p \<noteq> 0 \<and> owns H M s \<and> K (cb_frames s)) (failed H)"
proof -
  have al: "\<forall>b q. ho_memalign H b = Some q \<longrightarrow> q \<noteq> 0" using assms by (simp add: host_ok_def)
  show ?thesis
  proof (rule outcomeI)
    fix s v s'
    assume P: "owns H M s \<and> K (cb_frames s)" and g: "scratch_floats H n s = (Inr v, s')"
    obtain w where w: "ws_get (ho_memalign H) (ho_thread H) n (cb_ws s) = (Inr v, w)" "s' = s\<lparr>cb_ws := w\<rparr>"
      using g by (auto simp: scratch_floats_def split: prod.splits)
    from ws_get_facts(1,2) [OF _ w(1) al] ws_get_unlimited(1) [OF w(1)] P show "v \<noteq> 0 \<and> owns H M s' \<and> K (cb_frames s')" unfolding w(2) by (auto simp: owns_def)
  next
    fix s e s'
    assume P: "owns H M s \<and> K (cb_frames s)" and g: "scratch_floats H n s = (Inl e, s')"
    obtain w where w: "ws_get (ho_memalign H) (ho_thread H) n (cb_ws s) = (Inl e, w)" "s' = s\<lparr>cb_ws := w\<rparr>"
      using g by (auto simp: scratch_floats_def split: prod.splits)
    have "generous H \<longrightarrow> size_error e" using ws_get_unlimited(2) [OF w(1)] P unfolding generous_def owns_def by blast
    with ws_get_facts(1) [OF _ w(1) al] P ws_get_no_refusal [OF w(1)] show "failed H e s'" unfolding w(2) by (auto simp: owns_def failed_def)
  qed
qed

lemma free_frame_mirrors: "fs_mirrors (free_frame f sc) = fs_mirrors sc"
  by (simp add: free_frame_def api_free_def forget_mirrors)

lemma free_act_step:
  assumes "f \<in># M"
  shows "outcome (\<lambda>s. owns H M s \<and> K (cb_frames s)) (free_act f) (\<lambda>_ s. owns H (M - {#f#}) s \<and> K (cb_frames s)) (failed H)"
proof (rule outcomeI)
  fix s v s'
  assume P: "owns H M s \<and> K (cb_frames s)" and g: "free_act f s = (Inr v, s')"
  have f: "f \<noteq> 0" using P assms(1) unfolding owns_def by metis
  have h: "0 < held f (cb_scope s)" using P f assms by (simp add: owns_def)
  note k = free_frame_keeps [OF _ disjI2 [OF h]]
  have c: "held g (free_frame f (cb_scope s)) = count (M - {#f#}) g" if "g \<noteq> 0" for g
    using k(3) [OF _ f that] P that by (auto simp: owns_def)
  have b: "fs_budget (free_frame f (cb_scope s)) = None \<longleftrightarrow> fs_budget (cb_scope s) = None"
    using uncharge_facts(1) f by (auto simp: free_frame_def api_free_def forget_def same_table_def split: option.splits)
  have z: "0 \<notin># M - {#f#}" using P by (auto simp: owns_def dest: in_diffD)
  show "owns H (M - {#f#}) s' \<and> K (cb_frames s')"
    using P g k c z b by (auto simp: owns_def free_act_def free_frame_mirrors mirrors_ok_def)
qed (simp add: free_act_def)

text \<open>Freeing a list of frames that are held.\<close>

lemma free_all_step:
  "outcome (\<lambda>s. owns H (M + mset fs) s \<and> K (cb_frames s)) (for_act free_act fs) (\<lambda>_ s. owns H M s \<and> K (cb_frames s)) (failed H)"
proof (induction fs)
  case Nil
  then show ?case by (simp add: outcome_return)
next
  case (Cons f fs)
  have "f \<in># M + mset (f # fs)" by simp
  from free_act_step [OF this, of H K]
  show ?case unfolding for_act.simps by (intro outcome_bind [OF _ Cons]) simp
qed

text \<open>What is left when the result has been handed over.\<close>

definition handed :: "nat \<Rightarrow> nat multiset \<Rightarrow> callback \<Rightarrow> bool" where
  "handed f M s \<longleftrightarrow>
     scope_inv (cb_scope s) \<and> fs_given (cb_scope s) = (\<lambda>_. 0)(f := 1) \<and> (\<forall>g. g \<noteq> 0 \<longrightarrow> held g (cb_scope s) = count (M - {#f#}) g) \<and> ws_inv (cb_ws s)"

lemma resource_props_no_refusal: "resource_props refuses b p = Inl e \<Longrightarrow> \<not> refusal e"
  by (auto simp: resource_props_def contribution_set_def split: if_splits)

definition resource_keys :: "string set" where
  "resource_keys = {''_NSSResourceBytes'', ''_NSSResourcePeak'', ''_NSSResourceLimit''}"

lemma keep_frame_props:
  "keep_frame refuses f p s = (Inr q, s') \<Longrightarrow> key \<notin> resource_keys \<Longrightarrow> q key = p key"
  by (auto simp: keep_frame_def resource_props_def contribution_set_def resource_keys_def bindE_Inr_iff
      split: option.splits sum.splits if_splits)

lemma keep_act_step:
  assumes "f \<in># M"
    and "\<And>fr p. K fr \<Longrightarrow> (\<And>key. key \<notin> resource_keys \<Longrightarrow> p key = vf_props (fr f) key) \<Longrightarrow> K' (fr(f := fr f\<lparr>vf_props := p\<rparr>))"
  shows "outcome (\<lambda>s. owns H M s \<and> K (cb_frames s)) (keep_act H f) (\<lambda>v s. v = f \<and> handed f M s \<and> K' (cb_frames s)) (failed H)"
proof (rule outcomeI)
  fix s v s'
  assume P: "owns H M s \<and> K (cb_frames s)" and g: "keep_act H f s = (Inr v, s')"
  obtain p sc where k: "keep_frame (ho_refuses H) f (vf_props (cb_frames s f)) (cb_scope s) = (Inr p, sc)" "v = f"
    "s' = s\<lparr>cb_scope := sc, cb_frames := (cb_frames s)(f := cb_frames s f\<lparr>vf_props := p\<rparr>)\<rparr>"
    using g by (auto simp: keep_act_def Let_def split: prod.splits sum.splits)
  have f: "f \<noteq> 0" using P assms(1) unfolding owns_def by metis
  have h: "0 < held f (cb_scope s)" using P f assms by (simp add: owns_def)
  note kk = keep_frame_keeps [OF _ h f k(1)]
  have i: "scope_inv (cb_scope s)" "fs_given (cb_scope s) = (\<lambda>_. 0)" using P by (simp_all add: owns_def)
  have "fs_given sc = (\<lambda>_. 0)(f := 1)" using kk(3) [OF i(1), of p] i(2) by simp
  moreover have "held g sc = count (M - {#f#}) g" if "g \<noteq> 0" for g
    using kk(3) [OF i(1), of p g] P that by (auto simp: owns_def)
  ultimately show "v = f \<and> handed f M s' \<and> K' (cb_frames s')"
    using P kk(1) [OF i(1)] assms(2) [of "cb_frames s" p] keep_frame_props [OF k(1)] unfolding k(2,3) by (auto simp: handed_def owns_def)
next
  fix s e s'
  assume P: "owns H M s \<and> K (cb_frames s)" and g: "keep_act H f s = (Inl e, s')"
  obtain sc where k: "keep_frame (ho_refuses H) f (vf_props (cb_frames s f)) (cb_scope s) = (Inl e, sc)" "s' = s\<lparr>cb_scope := sc\<rparr>"
    using g by (auto simp: keep_act_def Let_def split: prod.splits sum.splits)
  have "\<not> refusal e" using k(1) resource_props_no_refusal by (auto simp: keep_frame_def split: option.splits sum.splits)
  moreover have "\<not> generous H" using k(1) P by (auto simp: keep_frame_def generous_def owns_def split: option.splits sum.splits)
  moreover have "sc = cb_scope s" using k(1) by (auto simp: keep_frame_def split: sum.splits)
  ultimately show "failed H e s'" using P unfolding k(2) by (auto simp: failed_def owns_def)
qed

text \<open>A callback that handed over \<open>f\<close>, or failed, leaves nothing behind when its scope is destroyed.\<close>

lemma handed_clean:
  "handed f M s \<Longrightarrow> g \<noteq> 0 \<Longrightarrow> fs_refs (scope_destroy (cb_scope s)) g = (if g = f then 1 else 0)"
  "failed H e s \<Longrightarrow> g \<noteq> 0 \<Longrightarrow> fs_refs (scope_destroy (cb_scope s)) g = 0"
  using destroy_frees(2) [of "cb_scope s" g] by (simp_all add: handed_def failed_def)

subsection \<open>Windows of frames, and planes that are copied\<close>

definition copy_plane_act :: "nat \<Rightarrow> nat \<Rightarrow> int \<Rightarrow> int \<Rightarrow> int \<Rightarrow> int \<Rightarrow> (callback, unit) act" where
  "copy_plane_act dst src plane w h out_stride =
     bind_act (plane_of src plane) (\<lambda>input.
     bind_act (float_stride src plane) (\<lambda>in_stride.
     write_plane dst plane (copy_rows w h out_stride in_stride input)))"

definition window_planes :: "nat list \<Rightarrow> int \<Rightarrow> (callback, (buffer \<times> int) list) act" where
  "window_planes window plane =
     map_act (\<lambda>f. bind_act (plane_of f plane) (\<lambda>b. bind_act (float_stride f plane) (\<lambda>stride. return_act (b, stride)))) window"

lemma window_step:
  assumes "host_ok H"
  shows "outcome (\<lambda>s. owns H {#} s \<and> cb_frames s = frames) (map_act (get_frame H node) is)
    (\<lambda>vs s. (vs = map (ho_source H node) is \<and> (\<forall>f \<in> set vs. f \<noteq> 0 \<and> f \<noteq> ho_fresh H)) \<and> (owns H (mset vs) s \<and> cb_frames s = frames)) (failed H)"
proof -
  let ?I = "\<lambda>xs vs s. (vs = map (ho_source H node) xs \<and> (\<forall>f \<in> set vs. f \<noteq> 0 \<and> f \<noteq> ho_fresh H)) \<and> (owns H (mset vs) s \<and> cb_frames s = frames)"
  have "outcome (?I [] []) (map_act (get_frame H node) is) (\<lambda>vs s. length vs = length is \<and> ?I is vs s) (failed H)"
  proof (rule outcome_map)
    fix xs0 x xs1 vs
    show "outcome (?I xs0 vs) (get_frame H node x) (\<lambda>v. ?I (xs0 @ [x]) (vs @ [v])) (failed H)"
      by (rule outcome_weaken [OF get_frame_step [OF assms, where K = "\<lambda>fr. (vs = map (ho_source H node) xs0 \<and> (\<forall>f \<in> set vs. f \<noteq> 0 \<and> f \<noteq> ho_fresh H)) \<and> fr = frames"
            and M = "mset vs"]]) auto
  qed
  then show ?thesis by (rule outcome_weaken) auto
qed

text \<open>Reading one plane of the frames of a window.\<close>

lemma views_step:
  assumes "\<And>fr. K fr \<Longrightarrow> \<forall>f \<in> set window. has_format vi (fr f) \<and> fr f = frames f" "0 \<le> plane" "plane < vi_planes vi"
  shows "outcome (\<lambda>s. owns H M s \<and> K (cb_frames s))
    (window_planes window plane)
    (\<lambda>views s. views = map (\<lambda>f. (vf_plane (frames f) plane, vf_stride (frames f) plane div 4)) window \<and> (owns H M s \<and> K (cb_frames s))) (failed H)"
proof -
  let ?I = "\<lambda>xs vs s. vs = map (\<lambda>f. (vf_plane (frames f) plane, vf_stride (frames f) plane div 4)) xs \<and> (owns H M s \<and> K (cb_frames s))"
  have "outcome (?I [] []) (map_act (\<lambda>f. bind_act (plane_of f plane) (\<lambda>b. bind_act (float_stride f plane) (\<lambda>stride. return_act (b, stride)))) window)
      (\<lambda>vs s. length vs = length window \<and> ?I window vs s) (failed H)"
  proof (rule outcome_map)
    fix xs0 f xs1 vs
    assume w: "window = xs0 @ f # xs1"
    let ?K = "\<lambda>fr. vs = map (\<lambda>f. (vf_plane (frames f) plane, vf_stride (frames f) plane div 4)) xs0 \<and> K fr"
    have fm: "\<And>fr. ?K fr \<and> b = vf_plane (fr f) plane \<Longrightarrow> has_format vi (fr f)" for b using assms(1) w by auto
    show "outcome (?I xs0 vs) (bind_act (plane_of f plane) (\<lambda>b. bind_act (float_stride f plane) (\<lambda>stride. return_act (b, stride))))
        (\<lambda>v. ?I (xs0 @ [f]) (vs @ [v])) (failed H)"
    proof (rule outcome_weaken [where Q = "\<lambda>v. ?I (xs0 @ [f]) (vs @ [v])" and E = "failed H" and P = "\<lambda>s. owns H M s \<and> ?K (cb_frames s)"])
      show "outcome (\<lambda>s. owns H M s \<and> ?K (cb_frames s)) (bind_act (plane_of f plane) (\<lambda>b. bind_act (float_stride f plane) (\<lambda>stride. return_act (b, stride))))
        (\<lambda>v. ?I (xs0 @ [f]) (vs @ [v])) (failed H)"
      proof (rule outcome_bind [OF plane_of_step], rule outcome_bind)
        fix b
        show "outcome (\<lambda>s. owns H M s \<and> ?K (cb_frames s) \<and> b = vf_plane (cb_frames s f) plane) (float_stride f plane)
            (\<lambda>v s. plane_width vi plane \<le> v \<and> owns H M s \<and> (?K (cb_frames s) \<and> b = vf_plane (cb_frames s f) plane) \<and> v = vf_stride (cb_frames s f) plane div 4) (failed H)"
          by (rule outcome_weaken [OF float_stride_step [where K = "\<lambda>fr. ?K fr \<and> b = vf_plane (fr f) plane", OF fm assms(2,3)]]) auto
        show "outcome (\<lambda>s. plane_width vi plane \<le> v \<and> owns H M s \<and> (?K (cb_frames s) \<and> b = vf_plane (cb_frames s f) plane) \<and> v = vf_stride (cb_frames s f) plane div 4)
            (return_act (b, v)) (\<lambda>v. ?I (xs0 @ [f]) (vs @ [v])) (failed H)" for v
          by (rule outcome_return) (use assms(1) w in auto)
      qed
    qed auto
  qed
  then show ?thesis unfolding window_planes_def by (rule outcome_weaken) auto
qed

lemma copy_plane_step:
  assumes "\<And>fr. K fr \<Longrightarrow> has_format vi (fr src) \<and> fr src = frames src" "0 \<le> plane" "plane < vi_planes vi" "plane_width vi plane \<le> os"
    and "\<And>fr b. K fr \<Longrightarrow> (\<And>y x. 0 \<le> y \<Longrightarrow> y < plane_height vi plane \<Longrightarrow> 0 \<le> x \<Longrightarrow> x < plane_width vi plane \<Longrightarrow>
        b (y * os + x) = vf_plane (frames src) plane (y * (vf_stride (frames src) plane div 4) + x)) \<Longrightarrow>
      K' (fr(ho_fresh H := fr (ho_fresh H)\<lparr>vf_plane := (vf_plane (fr (ho_fresh H)))(plane := b)\<rparr>))"
  shows "outcome (\<lambda>s. owns H M s \<and> K (cb_frames s))
    (copy_plane_act (ho_fresh H) src plane (plane_width vi plane) (plane_height vi plane) os) (\<lambda>_ s. owns H M s \<and> K' (cb_frames s)) (failed H)"
  unfolding copy_plane_act_def
proof (rule outcome_bind [OF plane_of_step], rule outcome_bind)
  fix input w
  let ?K = "\<lambda>fr. K fr \<and> input = vf_plane (fr src) plane"
  show "outcome (\<lambda>s. owns H M s \<and> ?K (cb_frames s)) (float_stride src plane)
    (\<lambda>w s. plane_width vi plane \<le> w \<and> owns H M s \<and> ?K (cb_frames s) \<and> w = vf_stride (cb_frames s src) plane div 4) (failed H)"
    by (rule float_stride_step [OF _ assms(2,3)]) (use assms(1) in blast)
  have "outcome (\<lambda>s. owns H M s \<and> (?K (cb_frames s) \<and> w = vf_stride (cb_frames s src) plane div 4))
    (write_plane (ho_fresh H) plane (copy_rows (plane_width vi plane) (plane_height vi plane) os w input)) (\<lambda>_ s. owns H M s \<and> K' (cb_frames s)) (failed H)"
  proof (rule write_plane_step)
    fix fr
    assume k: "?K fr \<and> w = vf_stride (fr src) plane div 4"
    have fr: "fr src = frames src" using assms(1) k by blast
    show "K' (fr(ho_fresh H := fr (ho_fresh H)\<lparr>vf_plane := (vf_plane (fr (ho_fresh H)))(plane :=
        copy_rows (plane_width vi plane) (plane_height vi plane) os w input (vf_plane (fr (ho_fresh H)) plane))\<rparr>))"
      by (rule assms(5)) (use k fr copy_rows_at [OF assms(4)] in auto)
  qed
  then show "outcome (\<lambda>s. plane_width vi plane \<le> w \<and> owns H M s \<and> ?K (cb_frames s) \<and> w = vf_stride (cb_frames s src) plane div 4)
    (write_plane (ho_fresh H) plane (copy_rows (plane_width vi plane) (plane_height vi plane) os w input)) (\<lambda>_ s. owns H M s \<and> K' (cb_frames s)) (failed H)"
    by (rule outcome_weaken) auto
qed

subsection \<open>Writing the planes of a new frame\<close>

text \<open>
  The rows a callback writes of a plane, \<open>h plane\<close> of \<open>w plane\<close> pixels, hold what is
  specified by \<open>px\<close>; the frames while planes are written: sources untouched, the planes done
  so far finished. \<open>vi\<close> is the format of the new frame.
\<close>

definition plane_painted :: "host \<Rightarrow> (int \<Rightarrow> int) \<Rightarrow> (int \<Rightarrow> int) \<Rightarrow> (int \<Rightarrow> int \<Rightarrow> int \<Rightarrow> f32) \<Rightarrow> int \<Rightarrow> buffer \<Rightarrow> bool" where
  "plane_painted H w h px plane b \<longleftrightarrow>
     (\<forall>y x. 0 \<le> y \<longrightarrow> y < h plane \<longrightarrow> 0 \<le> x \<longrightarrow> x < w plane \<longrightarrow> b (y * (vf_stride (ho_blank H) plane div 4) + x) = px plane y x)"

definition painted :: "host \<Rightarrow> video_info \<Rightarrow> (nat \<Rightarrow> vs_frame) \<Rightarrow> (int \<Rightarrow> int) \<Rightarrow> (int \<Rightarrow> int) \<Rightarrow> (int \<Rightarrow> int \<Rightarrow> int \<Rightarrow> f32) \<Rightarrow> int list \<Rightarrow>
    (nat \<Rightarrow> vs_frame) \<Rightarrow> bool" where
  "painted H vi frames w h px planes fr \<longleftrightarrow>
     (\<forall>f. f \<noteq> ho_fresh H \<longrightarrow> fr f = frames f) \<and> has_format vi (fr (ho_fresh H)) \<and> vf_stride (fr (ho_fresh H)) = vf_stride (ho_blank H) \<and>
     (\<forall>plane \<in> set planes. plane_painted H w h px plane (vf_plane (fr (ho_fresh H)) plane))"

lemma painted_blank:
  "has_format vi (ho_blank H) \<Longrightarrow> painted H vi frames w h px [] (frames(ho_fresh H := (ho_blank H)\<lparr>vf_props := q\<rparr>))"
  by (auto simp: painted_def has_format_def)

lemma painted_write:
  assumes "painted H vi frames w h px planes fr" "plane_painted H w h px plane b"
  shows "painted H vi frames w h px (planes @ [plane])
    (fr(ho_fresh H := fr (ho_fresh H)\<lparr>vf_plane := (vf_plane (fr (ho_fresh H)))(plane := b)\<rparr>))"
  using assms by (auto simp: painted_def has_format_def)

lemma painted_props:
  "painted H vi frames w h px planes fr \<Longrightarrow> painted H vi frames w h px planes (fr(ho_fresh H := fr (ho_fresh H)\<lparr>vf_props := p\<rparr>))"
  by (auto simp: painted_def has_format_def)

lemma painted_source: "painted H vi frames w h px planes fr \<Longrightarrow> f \<noteq> ho_fresh H \<Longrightarrow> fr f = frames f"
  by (simp add: painted_def)

lemma painted_stride:
  assumes "0 \<le> plane" "plane < vi_planes vi"
  shows "outcome (\<lambda>s. owns H M s \<and> painted H vi frames w h px planes (cb_frames s)) (float_stride (ho_fresh H) plane)
    (\<lambda>v s. v = vf_stride (ho_blank H) plane div 4 \<and> (owns H M s \<and> painted H vi frames w h px planes (cb_frames s))) (failed H)"
  by (rule outcome_weaken [OF float_stride_step [where K = "painted H vi frames w h px planes", OF _ assms]]) (auto simp: painted_def)

subsection \<open>An example host\<close>

text \<open>A host whose frame \<open>n\<close> is pointer \<open>n + 2\<close>, with all the memory a callback may ask for.\<close>

definition example_host :: "vs_frame \<Rightarrow> host" where
  "example_host blank = \<lparr>ho_source = (\<lambda>node n. nat n + 2), ho_fresh = 1, ho_blank = blank, ho_grow = (\<lambda>_. None), ho_alloc = (\<lambda>_. None),
     ho_memalign = (\<lambda>_. Some 64), ho_thread = 3, ho_refuses = (\<lambda>_. False),
     ho_limited = False\<rparr>"

lemma example_host_ok: "host_ok (example_host blank)"
  by (simp add: host_ok_def example_host_def)

lemma example_host_generous: "generous (example_host blank)"
  by (simp add: generous_def example_host_def)

lemma new_workspace_inv: "ws_inv (ws_new b)"
  by (simp add: ws_inv_def ws_new_def new_account_def ws_charge_def)

end
