(* ===== verification/Pnlm_Filter.thy ===== *)
theory Pnlm_Filter
  imports Callback
begin

text \<open>
  The frame callback of PNLM (src/host/filter_pnlm.cpp, with the frame window of
  src/frontend/pnlm_args.hpp): the window of frames, the planes that are copied, and those
  that go through the plane filter with the thread's workspace. Its theorem joins the
  argument parser, the ownership of frames, the workspace and the plane filter. The vectors
  of pointers (at most 63 elements) are lists; their allocation is taken to succeed.
\<close>

subsection \<open>The callback\<close>

definition pnlm_first_frame :: "int \<Rightarrow> int \<Rightarrow> int" where
  "pnlm_first_frame n d = (if n - d > 0 then n - d else 0)"

definition pnlm_last_frame :: "int \<Rightarrow> int \<Rightarrow> int \<Rightarrow> int" where
  "pnlm_last_frame n d frames = (if n + d < frames - 1 then n + d else frames - 1)"

text \<open>The frames requested when the callback is activated first.\<close>

definition pnlm_window :: "pnlm_params \<Rightarrow> video_info \<Rightarrow> int \<Rightarrow> int list" where
  "pnlm_window p vi n = [pnlm_first_frame n (pn_d p)..pnlm_last_frame n (pn_d p) (vi_num_frames vi)]"

text \<open>What the thread's work buffer holds when a plane starts: it is not initialised.\<close>

record pnlm_work =
  pw_ring :: buffer
  pw_cols :: buffer
  pw_keys :: "nat \<Rightarrow> 64 word"

definition work_best :: "pnlm_image \<Rightarrow> (nat \<Rightarrow> 64 word) \<Rightarrow> best_keys list" where
  "work_best img keys =
     (let k = nat (pi_group img - 1)
      in map (\<lambda>ix. (map (\<lambda>i. keys (ix * k + i)) [0..<k], 0)) [0..<nat (pnlm_grid_count (pi_width img) (pi_block img))])"

definition pnlm_image_of :: "pnlm_params \<Rightarrow> video_info \<Rightarrow> int \<Rightarrow> int \<Rightarrow> (buffer \<times> int) list \<Rightarrow> pnlm_image" where
  "pnlm_image_of p vi plane center views =
     \<lparr>pi_width = plane_width vi plane, pi_height = plane_height vi plane, pi_frames = int (length views), pi_center = center,
      pi_src = (\<lambda>t. fst (views ! nat t)), pi_stride = (\<lambda>t. snd (views ! nat t)), pi_sigma = pn_sigma p ! nat plane,
      pi_a = pn_a p, pi_block = pn_block p, pi_group = pn_group p\<rparr>"

text \<open>A plane that is processed.\<close>

definition denoise_plane_act :: "host \<Rightarrow> farith \<Rightarrow> fexp \<Rightarrow> int \<Rightarrow> (nat \<Rightarrow> int \<Rightarrow> pnlm_work) \<Rightarrow> pnlm_params \<Rightarrow> video_info \<Rightarrow> int \<Rightarrow>
    nat list \<Rightarrow> nat \<Rightarrow> int \<Rightarrow> int \<Rightarrow> (callback, unit) act" where
  "denoise_plane_act H F E lanes memory p vi center window dst plane out_stride =
     bind_act (window_planes window plane) (\<lambda>views.
       let img = pnlm_image_of p vi plane center views; need = la_total (pnlm_layout_of (plane_width vi plane) (pn_block p))
       in bind_act (scratch_floats H need) (\<lambda>ptr.
          let work = memory ptr plane
          in bind_act (plane_of dst plane) (\<lambda>old.
             bind_act (lift_res (pnlm_denoise F E lanes img out_stride need (pw_cols work) (work_best img (pw_keys work)) (pw_ring work) old)) (\<lambda>result.
             write_plane dst plane (\<lambda>_. result)))))"

definition pnlm_plane_act :: "host \<Rightarrow> farith \<Rightarrow> fexp \<Rightarrow> int \<Rightarrow> (nat \<Rightarrow> int \<Rightarrow> pnlm_work) \<Rightarrow> pnlm_params \<Rightarrow> video_info \<Rightarrow> int \<Rightarrow>
    nat list \<Rightarrow> nat \<Rightarrow> int \<Rightarrow> (callback, unit) act" where
  "pnlm_plane_act H F E lanes memory p vi center window dst plane =
     bind_act (float_stride dst plane) (\<lambda>out_stride.
       if f32_eq (pn_sigma p ! nat plane) f32_zero
       then copy_plane_act dst (window ! nat center) plane (plane_width vi plane) (plane_height vi plane) out_stride
       else denoise_plane_act H F E lanes memory p vi center window dst plane out_stride)"

definition pnlm_get_frame :: "host \<Rightarrow> farith \<Rightarrow> fexp \<Rightarrow> int \<Rightarrow> (nat \<Rightarrow> int \<Rightarrow> pnlm_work) \<Rightarrow> pnlm_params \<Rightarrow> video_info \<Rightarrow> int \<Rightarrow> (callback, nat) act" where
  "pnlm_get_frame H F E lanes memory p vi n =
     (let center = n - pnlm_first_frame n (pn_d p)
      in bind_act (map_act (get_frame H 0) (pnlm_window p vi n)) (\<lambda>window.
         bind_act (new_frame H (vi_width vi) (vi_height vi) (window ! nat center)) (\<lambda>dst.
         bind_act (for_act (pnlm_plane_act H F E lanes memory p vi center window dst) [0..vi_planes vi - 1]) (\<lambda>_.
         bind_act (for_act free_act window) (\<lambda>_. keep_act H dst)))))"

subsection \<open>Accepted arguments\<close>

lemma parse_pnlm_sigma:
  assumes "parse_pnlm h F m vi ns = Inr p" "0 \<le> plane" "plane < vi_planes vi" "\<not> f32_eq (pn_sigma p ! nat plane) f32_zero"
  shows "f32_lt f32_zero (pn_sigma p ! nat plane)"
proof -
  let ?s = "sigma_array F m (vi_planes vi)" and ?pl = "[0..vi_planes vi - 1]"
  obtain u where n: "foldE (\<lambda>plane. normal_sigma F ns ''PNLM'' (?s ! nat plane)) ?pl () = Inr u" and p: "pn_sigma p = ?s"
    using assms(1) unfolding parse_pnlm_def Let_def if_fail_eq_Inr bindE_Inr_iff by (auto simp: fail_def split: if_splits)
  have "normal_sigma F ns ''PNLM'' (?s ! nat plane) () = Inr ()"
    using foldE_unit_all [OF n] assms(2,3) by simp
  then have "f32_le f32_zero (?s ! nat plane)" by (auto simp: normal_sigma_def Let_def fail_def split: if_splits)
  then show ?thesis using assms(4) p by (auto simp: f32_le_iff f32_eq_def)
qed

lemma window_facts:
  assumes "0 \<le> n" "n < frames" "0 \<le> d"
  shows "0 \<le> pnlm_first_frame n d" "pnlm_first_frame n d \<le> n" "n \<le> pnlm_last_frame n d frames" "pnlm_last_frame n d frames < frames"
    "pnlm_last_frame n d frames - pnlm_first_frame n d \<le> 2 * d"
    "i \<in> {pnlm_first_frame n d..pnlm_last_frame n d frames} \<longleftrightarrow> 0 \<le> i \<and> i < frames \<and> abs (i - n) \<le> d"
  using assms by (auto simp: pnlm_first_frame_def pnlm_last_frame_def)

text \<open>With accepted arguments the plane filter returns, whatever the work buffer holds.\<close>

lemma accepted_plane:
  assumes "parse_pnlm h F m vi ns = Inr p" "0 \<le> plane" "plane < vi_planes vi" "\<not> f32_eq (pn_sigma p ! nat plane) f32_zero"
    and "0 \<le> center" "center < int (length views)" "int (length views) \<le> 2 * pn_d p + 1"
    and "1 \<le> lanes" "lanes \<le> kPad" "plane_width vi plane \<le> os"
  shows "\<exists>r. let img = pnlm_image_of p vi plane center views in
    pnlm_denoise F E lanes img os (la_total (pnlm_layout_of (plane_width vi plane) (pn_block p))) cols (work_best img keys) ring old = Inr r \<and>
    (\<forall>y x. 0 \<le> y \<longrightarrow> y < plane_height vi plane \<longrightarrow> 0 \<le> x \<longrightarrow> x < plane_width vi plane \<longrightarrow>
       r (y * os + x) = gathered F img (pn_block p div 2) (grid_estimate F E img (pn_block p div 2)) y x)"
proof -
  let ?img = "pnlm_image_of p vi plane center views" and ?n = "la_total (pnlm_layout_of (plane_width vi plane) (pn_block p))"
  have img: "pi_width ?img = plane_width vi plane" "pi_height ?img = plane_height vi plane" "pi_frames ?img = int (length views)"
    "pi_center ?img = center" "pi_sigma ?img = pn_sigma p ! nat plane" "pi_a ?img = pn_a p" "pi_block ?img = pn_block p" "pi_group ?img = pn_group p"
    by (simp_all add: pnlm_image_of_def)
  note ok = parse_pnlm_ok [OF assms(1)]
  have pl: "plane \<in> set [0..vi_planes vi - 1]" using assms(2,3) by simp
  have b: "pn_block p = 4 \<or> pn_block p = 6 \<or> pn_block p = 8" using ok by blast
  have "\<exists>r. pnlm_denoise F E lanes ?img os ?n cols (work_best ?img keys) ring old = Inr r"
    unfolding pnlm_denoise_def img using ok pl assms(4-7) parse_pnlm_sigma [OF assms(1-4)] b
    by (auto simp: kPnlmMaxSide_def kPnlmMaxD_def kPnlmMaxGroup_def)
  then obtain r where r: "pnlm_denoise F E lanes ?img os ?n cols (work_best ?img keys) ring old = Inr r" by blast
  note d = denoise_image_ok [OF r assms(8,9)]
  have "2 * (pn_block p div 2) = pn_block p" using b by auto
  then have shape: "best_shape ?img (pi_block ?img div 2) (work_best ?img keys)"
    by (auto simp: best_shape_def work_best_def img Let_def)
  have "r (y * os + x) = gathered F ?img (pn_block p div 2) (grid_estimate F E ?img (pn_block p div 2)) y x"
    if "0 \<le> y" "y < plane_height vi plane" "0 \<le> x" "x < plane_width vi plane" for y x
    using pnlm_run_pixels [OF conjunct1 [OF d] _ shape, of os y x F E cols ring old] d that assms(10) by (simp add: img)
  with r show ?thesis by (auto simp: Let_def)
qed

subsection \<open>A frame\<close>

text \<open>What the frames of the clip must be: the ones of the window and the new one have the clip's format.\<close>

definition clip_ok :: "host \<Rightarrow> video_info \<Rightarrow> (nat \<Rightarrow> vs_frame) \<Rightarrow> int list \<Rightarrow> bool" where
  "clip_ok H vi frames window \<longleftrightarrow>
     has_format vi (ho_blank H) \<and> (\<forall>i \<in> set window. ho_source H 0 i \<noteq> 0 \<longrightarrow> has_format vi (frames (ho_source H 0 i)))"

text \<open>
  The pixel of the result: of the source when the plane is not processed, otherwise the
  documented mean over the window.
\<close>

definition pnlm_views :: "host \<Rightarrow> pnlm_params \<Rightarrow> video_info \<Rightarrow> (nat \<Rightarrow> vs_frame) \<Rightarrow> int \<Rightarrow> int \<Rightarrow> (buffer \<times> int) list" where
  "pnlm_views H p vi frames n plane =
     map (\<lambda>i. (vf_plane (frames (ho_source H 0 i)) plane, vf_stride (frames (ho_source H 0 i)) plane div 4)) (pnlm_window p vi n)"

definition pnlm_pixel :: "farith \<Rightarrow> fexp \<Rightarrow> host \<Rightarrow> pnlm_params \<Rightarrow> video_info \<Rightarrow> (nat \<Rightarrow> vs_frame) \<Rightarrow> int \<Rightarrow> int \<Rightarrow> int \<Rightarrow> int \<Rightarrow> f32" where
  "pnlm_pixel F E H p vi frames n plane y x =
     (let src = frames (ho_source H 0 n);
          img = pnlm_image_of p vi plane (n - pnlm_first_frame n (pn_d p)) (pnlm_views H p vi frames n plane)
      in if f32_eq (pn_sigma p ! nat plane) f32_zero then vf_plane src plane (y * (vf_stride src plane div 4) + x)
         else gathered F img (pn_block p div 2) (grid_estimate F E img (pn_block p div 2)) y x)"

lemma denoise_plane_step:
  assumes "host_ok H" "0 \<le> plane" "plane < vi_planes vi"
    and window: "\<And>fr. K fr \<Longrightarrow> \<forall>f \<in> set window. has_format vi (fr f) \<and> fr f = frames f"
    and views: "views = map (\<lambda>f. (vf_plane (frames f) plane, vf_stride (frames f) plane div 4)) window"
    and filt: "\<And>cols keys ring old. \<exists>r. pnlm_denoise F E lanes (pnlm_image_of p vi plane center views) os
        (la_total (pnlm_layout_of (plane_width vi plane) (pn_block p))) cols (work_best (pnlm_image_of p vi plane center views) keys) ring old = Inr r \<and> good r"
    and "\<And>fr b. K fr \<Longrightarrow> good b \<Longrightarrow> K' (fr(ho_fresh H := fr (ho_fresh H)\<lparr>vf_plane := (vf_plane (fr (ho_fresh H)))(plane := b)\<rparr>))"
  shows "outcome (\<lambda>s. owns H M s \<and> K (cb_frames s))
    (denoise_plane_act H F E lanes memory p vi center window (ho_fresh H) plane os) (\<lambda>_ s. owns H M s \<and> K' (cb_frames s)) (failed H)"
  unfolding denoise_plane_act_def Let_def
proof (rule outcome_bind)
  show "outcome (\<lambda>s. owns H M s \<and> K (cb_frames s)) (window_planes window plane) (\<lambda>v s. v = views \<and> (owns H M s \<and> K (cb_frames s))) (failed H)"
    unfolding views by (rule views_step [OF window assms(2,3)])
next
  let ?need = "la_total (pnlm_layout_of (plane_width vi plane) (pn_block p))"
  fix v
  show "outcome (\<lambda>s. v = views \<and> (owns H M s \<and> K (cb_frames s))) (bind_act (scratch_floats H ?need) (\<lambda>ptr.
      bind_act (plane_of (ho_fresh H) plane) (\<lambda>old.
        bind_act (lift_res (pnlm_denoise F E lanes (pnlm_image_of p vi plane center v) os ?need
            (pw_cols (memory ptr plane)) (work_best (pnlm_image_of p vi plane center v) (pw_keys (memory ptr plane))) (pw_ring (memory ptr plane)) old))
          (\<lambda>result. write_plane (ho_fresh H) plane (\<lambda>_. result))))) (\<lambda>_ s. owns H M s \<and> K' (cb_frames s)) (failed H)"
  proof (rule outcome_pure, hypsubst, rule outcome_bind [OF scratch_step [OF assms(1)]], rule outcome_pure, rule outcome_bind [OF plane_of_step])
    fix ptr old
    let ?d = "pnlm_denoise F E lanes (pnlm_image_of p vi plane center views) os ?need (pw_cols (memory ptr plane))
        (work_best (pnlm_image_of p vi plane center views) (pw_keys (memory ptr plane))) (pw_ring (memory ptr plane)) old"
    obtain r where r: "?d = Inr r" "good r" using filt by blast
    show "outcome (\<lambda>s. owns H M s \<and> K (cb_frames s) \<and> old = vf_plane (cb_frames s (ho_fresh H)) plane)
      (bind_act (lift_res ?d) (\<lambda>result. write_plane (ho_fresh H) plane (\<lambda>_. result))) (\<lambda>_ s. owns H M s \<and> K' (cb_frames s)) (failed H)"
    proof (rule outcome_bind)
      show "outcome (\<lambda>s. owns H M s \<and> K (cb_frames s) \<and> old = vf_plane (cb_frames s (ho_fresh H)) plane) (lift_res ?d)
          (\<lambda>result s. owns H M s \<and> (K (cb_frames s) \<and> good result)) (failed H)"
        by (rule outcome_lift) (use r in auto)
      show "outcome (\<lambda>s. owns H M s \<and> (K (cb_frames s) \<and> good result)) (write_plane (ho_fresh H) plane (\<lambda>_. result))
          (\<lambda>_ s. owns H M s \<and> K' (cb_frames s)) (failed H)" for result
        by (rule write_plane_step [where K = "\<lambda>fr. K fr \<and> good result"]) (use assms(7) in blast)
    qed
  qed
qed

text \<open>One plane: written as documented, whatever was in the new frame and in the work buffer.\<close>

lemma plane_step:
  assumes parsed: "parse_pnlm h F m vi ns = Inr p" and H: "host_ok H" and n: "0 \<le> n" "n < vi_num_frames vi" and lanes: "1 \<le> lanes" "lanes \<le> kPad"
    and clip: "clip_ok H vi frames (pnlm_window p vi n)" and plane: "0 \<le> plane" "plane < vi_planes vi"
    and window: "window = map (ho_source H 0) (pnlm_window p vi n)" "\<forall>f \<in> set window. f \<noteq> 0 \<and> f \<noteq> ho_fresh H"
  shows "outcome (\<lambda>s. owns H M s \<and> painted H vi frames (plane_width vi) (plane_height vi) (pnlm_pixel F E H p vi frames n) planes (cb_frames s))
    (pnlm_plane_act H F E lanes memory p vi (n - pnlm_first_frame n (pn_d p)) window (ho_fresh H) plane)
    (\<lambda>_ s. owns H M s \<and> painted H vi frames (plane_width vi) (plane_height vi) (pnlm_pixel F E H p vi frames n) (planes @ [plane]) (cb_frames s)) (failed H)"
proof -
  let ?c = "n - pnlm_first_frame n (pn_d p)" and ?os = "vf_stride (ho_blank H) plane div 4" and ?K = "painted H vi frames (plane_width vi) (plane_height vi) (pnlm_pixel F E H p vi frames n) planes"
  let ?src = "ho_source H 0 n" and ?views = "pnlm_views H p vi frames n plane"
  have d: "0 \<le> pn_d p" using parse_pnlm_ok [OF parsed] by blast
  note wf = window_facts [OF n d]
  have len: "int (length window) = pnlm_last_frame n (pn_d p) (vi_num_frames vi) - pnlm_first_frame n (pn_d p) + 1"
    using wf by (simp add: window(1) pnlm_window_def)
  have src: "window ! nat ?c = ?src" using wf len by (simp add: window(1) pnlm_window_def)
  have "n \<in> set (pnlm_window p vi n)" using wf by (simp add: pnlm_window_def)
  then have srcw: "?src \<in> set window" unfolding window(1) by simp
  have fm: "\<forall>f \<in> set window. has_format vi (fr f) \<and> fr f = frames f" if "?K fr" for fr
    using that clip window by (auto simp: painted_def clip_ok_def)
  have views: "?views = map (\<lambda>f. (vf_plane (frames f) plane, vf_stride (frames f) plane div 4)) window"
    by (simp add: pnlm_views_def window(1))
  have os: "plane_width vi plane \<le> ?os" using clip plane by (auto simp: clip_ok_def has_format_def)
  show ?thesis
    unfolding pnlm_plane_act_def src
  proof (rule outcome_bind)
    show "outcome (\<lambda>s. owns H M s \<and> ?K (cb_frames s)) (float_stride (ho_fresh H) plane) (\<lambda>v s. v = ?os \<and> (owns H M s \<and> ?K (cb_frames s))) (failed H)"
      by (rule painted_stride [OF plane])
    show "outcome (\<lambda>s. v = ?os \<and> (owns H M s \<and> ?K (cb_frames s)))
      (if f32_eq (pn_sigma p ! nat plane) f32_zero
       then copy_plane_act (ho_fresh H) ?src plane (plane_width vi plane) (plane_height vi plane) v
       else denoise_plane_act H F E lanes memory p vi ?c window (ho_fresh H) plane v)
      (\<lambda>_ s. owns H M s \<and> painted H vi frames (plane_width vi) (plane_height vi) (pnlm_pixel F E H p vi frames n) (planes @ [plane]) (cb_frames s)) (failed H)" for v
    proof (rule outcome_pure, hypsubst, rule outcome_if)
      assume z: "f32_eq (pn_sigma p ! nat plane) f32_zero"
      show "outcome (\<lambda>s. owns H M s \<and> ?K (cb_frames s)) (copy_plane_act (ho_fresh H) ?src plane (plane_width vi plane) (plane_height vi plane) ?os)
        (\<lambda>_ s. owns H M s \<and> painted H vi frames (plane_width vi) (plane_height vi) (pnlm_pixel F E H p vi frames n) (planes @ [plane]) (cb_frames s)) (failed H)"
        by (rule copy_plane_step [where frames = frames, OF _ plane os])
          (use fm srcw in blast, rule painted_write, assumption, simp add: plane_painted_def pnlm_pixel_def z Let_def)
    next
      assume nz: "\<not> f32_eq (pn_sigma p ! nat plane) f32_zero"
      have lc: "0 \<le> ?c" "?c < int (length ?views)" "int (length ?views) \<le> 2 * pn_d p + 1"
        using wf len by (simp_all add: views)
      show "outcome (\<lambda>s. owns H M s \<and> ?K (cb_frames s)) (denoise_plane_act H F E lanes memory p vi ?c window (ho_fresh H) plane ?os)
        (\<lambda>_ s. owns H M s \<and> painted H vi frames (plane_width vi) (plane_height vi) (pnlm_pixel F E H p vi frames n) (planes @ [plane]) (cb_frames s)) (failed H)"
      proof (rule denoise_plane_step [OF H plane fm views])
        show "\<exists>r. pnlm_denoise F E lanes (pnlm_image_of p vi plane ?c ?views) ?os (la_total (pnlm_layout_of (plane_width vi plane) (pn_block p))) cols
            (work_best (pnlm_image_of p vi plane ?c ?views) keys) ring old = Inr r \<and>
            plane_painted H (plane_width vi) (plane_height vi) (pnlm_pixel F E H p vi frames n) plane r" for cols keys ring old
          using accepted_plane [OF parsed plane nz lc lanes os, of E cols keys ring old] nz
          by (auto simp: Let_def plane_painted_def pnlm_pixel_def)
      qed (blast intro: painted_write)+
    qed
  qed
qed

lemma pnlm_frame_triple:
  assumes "parse_pnlm h F m vi ns = Inr p" "host_ok H" "0 \<le> n" "n < vi_num_frames vi" "1 \<le> lanes" "lanes \<le> kPad"
    and "clip_ok H vi frames (pnlm_window p vi n)"
  shows "outcome (\<lambda>s. owns H {#} s \<and> cb_frames s = frames) (pnlm_get_frame H F E lanes memory p vi n)
      (\<lambda>f s. f = ho_fresh H \<and> handed f {#f#} s \<and> painted H vi frames (plane_width vi) (plane_height vi) (pnlm_pixel F E H p vi frames n) [0..vi_planes vi - 1] (cb_frames s)) (failed H)"
proof -
  let ?w = "pnlm_window p vi n" and ?c = "n - pnlm_first_frame n (pn_d p)" and ?W = "\<lambda>planes. painted H vi frames (plane_width vi) (plane_height vi) (pnlm_pixel F E H p vi frames n) planes"
  show ?thesis
    unfolding pnlm_get_frame_def Let_def
  proof (rule outcome_bind [OF window_step [OF assms(2)]], rule outcome_pure, rule outcome_bind)
    fix window
    assume w: "window = map (ho_source H 0) ?w \<and> (\<forall>f \<in> set window. f \<noteq> 0 \<and> f \<noteq> ho_fresh H)"
    have blank: "?W [] (frames(ho_fresh H := (ho_blank H)\<lparr>vf_props := q\<rparr>))" for q
      using assms(7) by (auto simp: painted_def clip_ok_def has_format_def)
    show "outcome (\<lambda>s. owns H (mset window) s \<and> cb_frames s = frames) (new_frame H (vi_width vi) (vi_height vi) (window ! nat ?c))
        (\<lambda>dst s. dst = ho_fresh H \<and> dst \<noteq> 0 \<and> owns H (add_mset dst (mset window)) s \<and> ?W [] (cb_frames s)) (failed H)"
      by (rule new_frame_step [OF assms(2), where K = "\<lambda>fr. fr = frames"]) (hypsubst, rule blank)
    fix dst
    show "outcome (\<lambda>s. dst = ho_fresh H \<and> dst \<noteq> 0 \<and> owns H (add_mset dst (mset window)) s \<and> ?W [] (cb_frames s))
        (bind_act (for_act (pnlm_plane_act H F E lanes memory p vi ?c window dst) [0..vi_planes vi - 1])
          (\<lambda>_. bind_act (for_act free_act window) (\<lambda>_. keep_act H dst)))
        (\<lambda>f s. f = ho_fresh H \<and> handed f {#f#} s \<and> ?W [0..vi_planes vi - 1] (cb_frames s)) (failed H)"
    proof (rule outcome_pure, hypsubst, rule outcome_pure, rule outcome_bind)
      let ?M = "add_mset (ho_fresh H) (mset window)"
      show "outcome (\<lambda>s. owns H ?M s \<and> ?W [] (cb_frames s)) (for_act (pnlm_plane_act H F E lanes memory p vi ?c window (ho_fresh H)) [0..vi_planes vi - 1])
          (\<lambda>_ s. owns H ?M s \<and> ?W [0..vi_planes vi - 1] (cb_frames s)) (failed H)"
      proof (rule outcome_for)
        fix xs0 plane xs1
        assume "[0..vi_planes vi - 1] = xs0 @ plane # xs1"
        then have "plane \<in> set [0..vi_planes vi - 1]" by simp
        then have pl: "0 \<le> plane" "plane < vi_planes vi" by auto
        show "outcome (\<lambda>s. owns H ?M s \<and> ?W xs0 (cb_frames s)) (pnlm_plane_act H F E lanes memory p vi ?c window (ho_fresh H) plane)
            (\<lambda>_ s. owns H ?M s \<and> ?W (xs0 @ [plane]) (cb_frames s)) (failed H)"
          using plane_step [OF assms(1-7) pl] w by blast
      qed
      fix u
      show "outcome (\<lambda>s. owns H ?M s \<and> ?W [0..vi_planes vi - 1] (cb_frames s)) (bind_act (for_act free_act window) (\<lambda>_. keep_act H (ho_fresh H)))
          (\<lambda>f s. f = ho_fresh H \<and> handed f {#f#} s \<and> ?W [0..vi_planes vi - 1] (cb_frames s)) (failed H)"
      proof (rule outcome_bind)
        show "outcome (\<lambda>s. owns H ?M s \<and> ?W [0..vi_planes vi - 1] (cb_frames s)) (for_act free_act window)
            (\<lambda>_ s. owns H {#ho_fresh H#} s \<and> ?W [0..vi_planes vi - 1] (cb_frames s)) (failed H)"
          using free_all_step [of H "{#ho_fresh H#}" window "?W [0..vi_planes vi - 1]"] by simp
        show "outcome (\<lambda>s. owns H {#ho_fresh H#} s \<and> ?W [0..vi_planes vi - 1] (cb_frames s)) (keep_act H (ho_fresh H))
            (\<lambda>f s. f = ho_fresh H \<and> handed f {#f#} s \<and> ?W [0..vi_planes vi - 1] (cb_frames s)) (failed H)" for v
          by (rule outcome_weaken [OF keep_act_step [where K = "?W [0..vi_planes vi - 1]" and K' = "?W [0..vi_planes vi - 1]" and f = "ho_fresh H" and M = "{#ho_fresh H#}"]])
            (auto simp: painted_def has_format_def)
      qed
    qed
  qed
qed


definition gray_frame :: vs_frame where
  "gray_frame = \<lparr>vf_planes = 1, vf_width = (\<lambda>_. 640), vf_height = (\<lambda>_. 480), vf_stride = (\<lambda>_. 2560), vf_plane = (\<lambda>_ i. word_of_int i),
     vf_props = (\<lambda>_. None)\<rparr>"

lemma gray_frame_format: "has_format gray_clip gray_frame"
  by (auto simp: has_format_def gray_clip_def gray_frame_def plane_width_def plane_height_def)


end
