(* ===== verification/Vaggregate_Filter.thy ===== *)
theory Vaggregate_Filter
  imports Callback
begin

text \<open>
  The frame callback of VAggregate (src/host/filter_vaggregate.cpp): the contributions of the
  window are fetched and checked to be of one model, the planes selected are reduced and the
  others copied, and the result carries the model without the fat layout. Node 0 is the
  intermediate clip, node 1 the source.
\<close>

subsection \<open>The callback\<close>

definition vagg_window :: "vaggregate_params \<Rightarrow> video_info \<Rightarrow> int \<Rightarrow> int list" where
  "vagg_window p vi n = [max 0 (n - vp_radius p)..temporal_last n (vp_radius p) (vi_num_frames vi)]"

text \<open>The storage of \<open>elements\<close> elements of a vector, when it has to grow.\<close>

definition reserve_act :: "host \<Rightarrow> nat \<Rightarrow> (callback, unit) act" where
  "reserve_act H elements = lift_res (case ho_alloc H elements of None \<Rightarrow> Inr () | Some e \<Rightarrow> Inl e)"

definition props_of :: "nat \<Rightarrow> (callback, props) act" where
  "props_of f s = (Inr (vf_props (cb_frames s f)), s)"

text \<open>The loop over the contributions: the frames so far and their model, negative before the first.\<close>

definition vagg_collect :: "host \<Rightarrow> vaggregate_params \<Rightarrow> int \<Rightarrow> nat list \<times> int \<Rightarrow> (callback, nat list \<times> int) act" where
  "vagg_collect H p c collected =
     (case collected of (frames, m) \<Rightarrow>
        bind_act (get_frame H 0 c) (\<lambda>f.
        bind_act (props_of f) (\<lambda>props.
        bind_act (lift_res (validate_contribution ''nss'' (vp_radius p) c (vp_allow_legacy p) props)) (\<lambda>identity.
          if m \<ge> 0 \<and> m \<noteq> cl_model identity
          then lift_res (Inl (Invalid_argument ''nss.VAggregate: mixed contribution models''))
          else bind_act (reserve_act H (length frames + 1)) (\<lambda>_. return_act (frames @ [f], cl_model identity))))))"

text \<open>The slice of a contribution, as the numerator, the denominator and their stride.\<close>

definition vagg_slice :: "vaggregate_params \<Rightarrow> int \<Rightarrow> int \<Rightarrow> int \<Rightarrow> int \<Rightarrow> buffer \<Rightarrow> buffer \<times> buffer \<times> int" where
  "vagg_slice p n ph c stride base =
     (let slice = n - c + vp_radius p; num = slice * 2 * ph * stride; den = num + ph * stride
      in (\<lambda>i. base (num + i), \<lambda>i. base (den + i), stride))"

definition vagg_contribution :: "vaggregate_params \<Rightarrow> int \<Rightarrow> int \<Rightarrow> int \<Rightarrow> int \<times> nat \<Rightarrow> (callback, buffer \<times> buffer \<times> int) act" where
  "vagg_contribution p n ph plane cf =
     (case cf of (c, f) \<Rightarrow>
        bind_act (float_stride f plane) (\<lambda>stride.
        bind_act (plane_of f plane) (\<lambda>base. return_act (vagg_slice p n ph c stride base))))"

definition vagg_plane_act :: "simd \<Rightarrow> vaggregate_params \<Rightarrow> video_info \<Rightarrow> int \<Rightarrow> nat list \<Rightarrow> nat \<Rightarrow> nat \<Rightarrow> int \<Rightarrow> (callback, unit) act" where
  "vagg_plane_act sd p vi n frames src dst plane =
     (let pw = plane_width vi plane; ph = plane_height vi plane
      in bind_act (float_stride src plane) (\<lambda>sstride.
         bind_act (float_stride dst plane) (\<lambda>dstride.
         bind_act (plane_of src plane) (\<lambda>srcp.
           if vp_planes p ! nat plane = 0
           then write_plane dst plane (copy_rows pw ph dstride sstride srcp)
           else bind_act (map_act (vagg_contribution p n ph plane) (zip (vagg_window p vi n) frames)) (\<lambda>contributions.
                write_plane dst plane (\<lambda>old. vaggregate_target sd old contributions srcp pw ph dstride sstride))))))"

text \<open>\<open>static_cast<Model>\<close> of a number from 1 to 8.\<close>

definition model_at :: "int \<Rightarrow> model" where
  "model_at v = [M_bm3d, M_wnnm, M_mcwnnm, M_twsc, M_ncsr, M_nlh, M_lssc, M_nlm] ! nat (v - 1)"

definition drop_fat_keys :: "props \<Rightarrow> props" where
  "drop_fat_keys p = fold (\<lambda>key p. p(key := None)) fat_keys p"

definition vagg_get_frame :: "host \<Rightarrow> simd \<Rightarrow> vaggregate_params \<Rightarrow> video_info \<Rightarrow> int \<Rightarrow> (callback, nat) act" where
  "vagg_get_frame H sd p vi n =
     bind_act (fold_act (vagg_collect H p) (vagg_window p vi n) ([], - 1)) (\<lambda>(frames, m).
     bind_act (get_frame H 1 n) (\<lambda>src.
     bind_act (new_frame H (vi_width vi) (vi_height vi) src) (\<lambda>dst.
     bind_act (for_act (vagg_plane_act sd p vi n frames src dst) [0..vi_planes vi - 1]) (\<lambda>_.
     bind_act (if 0 < m then write_props dst (stamp_contribution (ho_refuses H) 0 n (model_at m)) else return_act ()) (\<lambda>_.
     bind_act (write_props dst (\<lambda>props. Inr (drop_fat_keys props))) (\<lambda>_.
     bind_act (for_act free_act frames) (\<lambda>_.
     bind_act (free_act src) (\<lambda>_. keep_act H dst))))))))"

subsection \<open>Specification\<close>

text \<open>The model of the window's contributions: what they all must carry.\<close>

definition contribution_ok :: "host \<Rightarrow> vaggregate_params \<Rightarrow> (nat \<Rightarrow> vs_frame) \<Rightarrow> int \<Rightarrow> int \<Rightarrow> bool" where
  "contribution_ok H p frames c m \<longleftrightarrow>
     (\<exists>identity. validate_contribution ''nss'' (vp_radius p) c (vp_allow_legacy p) (vf_props (frames (ho_source H 0 c))) = Inr identity \<and>
       cl_model identity = m)"

text \<open>Row \<open>y\<close> of slice \<open>k\<close> of a fat plane (numerators are even slices, denominators odd ones).\<close>

definition fat_at :: "vs_frame \<Rightarrow> int \<Rightarrow> int \<Rightarrow> int \<Rightarrow> int \<Rightarrow> int \<Rightarrow> f32" where
  "fat_at vf plane ph k y x = vf_plane vf plane ((k * ph + y) * (vf_stride vf plane div 4) + x)"

text \<open>
  The reduced pixel: with one contribution a unit denominator passes the numerator through,
  with several it does so only in full vectors.
\<close>

definition vagg_quotient :: "simd \<Rightarrow> int \<Rightarrow> int \<Rightarrow> (f32 \<times> f32) list \<Rightarrow> f32 \<Rightarrow> f32" where
  "vagg_quotient sd width x terms s =
     (case terms of
        [(n, d)] \<Rightarrow> if f32_eq d f32_one then n else if f32_lt f32_eps d then fdiv (sd_scalar sd) n d else s
      | _ \<Rightarrow>
          let vec = x < sd_lanes sd * (width div sd_lanes sd); F = (if vec then sd_vec sd else sd_scalar sd);
              n = fold (\<lambda>(num, den) n. fadd F n num) terms f32_zero; d = fold (\<lambda>(num, den) d. fadd F d den) terms f32_zero
          in if \<not> f32_lt f32_eps d then s else if vec \<and> f32_eq d f32_one then n else fdiv F n d)"

definition vagg_pixel :: "simd \<Rightarrow> host \<Rightarrow> vaggregate_params \<Rightarrow> video_info \<Rightarrow> (nat \<Rightarrow> vs_frame) \<Rightarrow> int \<Rightarrow> int \<Rightarrow> int \<Rightarrow> int \<Rightarrow> f32" where
  "vagg_pixel sd H p vi frames n plane y x =
     (let src = frames (ho_source H 1 n); s = vf_plane src plane (y * (vf_stride src plane div 4) + x); ph = plane_height vi plane
      in if vp_planes p ! nat plane = 0 then s
         else vagg_quotient sd (plane_width vi plane) x
                (map (\<lambda>c. let vf = frames (ho_source H 0 c); slice = n - c + vp_radius p
                           in (fat_at vf plane ph (2 * slice) y x, fat_at vf plane ph (2 * slice + 1) y x)) (vagg_window p vi n)) s)"

lemma vagg_target_pixel:
  assumes "0 < sd_lanes sd" "0 \<le> x" "x < pw" "pw \<le> dstride" "0 \<le> y" "y < ph"
  shows "vaggregate_target sd dst (map (\<lambda>(c, vf). vagg_slice p n ph c (vf_stride vf plane div 4) (vf_plane vf plane)) cs) src pw ph dstride sstride (y * dstride + x) =
    vagg_quotient sd pw x (map (\<lambda>(c, vf). let slice = n - c + vp_radius p
        in (fat_at vf plane ph (2 * slice) y x, fat_at vf plane ph (2 * slice + 1) y x)) cs) (src (y * sstride + x))"
proof -
  let ?g = "\<lambda>(c, vf). vagg_slice p n ph c (vf_stride vf plane div 4) (vf_plane vf plane)"
  let ?t = "\<lambda>(c, vf). let slice = n - c + vp_radius p in (fat_at vf plane ph (2 * slice) y x, fat_at vf plane ph (2 * slice + 1) y x)"
  have el: "num (y * stride + x) = fst (?t cf) \<and> den (y * stride + x) = snd (?t cf)" if "?g cf = (num, den, stride)" for cf num den stride
    using that by (auto simp: vagg_slice_def fat_at_def Let_def algebra_simps split: prod.splits)
  have step: "(\<lambda>(num, den, stride) n. fadd F n (num (y * stride + x))) \<circ> ?g = (\<lambda>(num, den) n. fadd F n num) \<circ> ?t"
    "(\<lambda>(num, den, stride) d. fadd F d (den (y * stride + x))) \<circ> ?g = (\<lambda>(num, den) d. fadd F d den) \<circ> ?t" for F
    by (auto simp: fun_eq_iff vagg_slice_def fat_at_def Let_def algebra_simps)
  have num: "fold (\<lambda>(num, den, stride) n. fadd F n (num (y * stride + x))) (map ?g cs) v = fold (\<lambda>(num, den) n. fadd F n num) (map ?t cs) v"
    and den: "fold (\<lambda>(num, den, stride) d. fadd F d (den (y * stride + x))) (map ?g cs) v = fold (\<lambda>(num, den) d. fadd F d den) (map ?t cs) v" for F v
    unfolding fold_map step by simp_all
  note t = vaggregate_target_at [OF assms, where contributions = "map ?g cs" and dst = dst and src = src and sstride = sstride]
  show ?thesis
  proof (cases "length cs = 1")
    case True
    then obtain cf where cs: "cs = [cf]" by (auto simp: length_Suc_conv)
    obtain num den stride where g: "?g cf = (num, den, stride)" by (cases "?g cf") auto
    have "?t cf = (num (y * stride + x), den (y * stride + x))" using el [OF g] by (simp add: prod_eq_iff)
    then show ?thesis using t g by (simp add: cs vagg_quotient_def Let_def)
  next
    case False
    then have q: "vagg_quotient sd pw x (map ?t cs) v = (let vec = x < sd_lanes sd * (pw div sd_lanes sd); F = (if vec then sd_vec sd else sd_scalar sd);
          n = fold (\<lambda>(num, den) n. fadd F n num) (map ?t cs) f32_zero; d = fold (\<lambda>(num, den) d. fadd F d den) (map ?t cs) f32_zero
        in if \<not> f32_lt f32_eps d then v else if vec \<and> f32_eq d f32_one then n else fdiv F n d)" for v
      by (cases "map ?t cs" rule: remdups_adj.cases) (auto simp: vagg_quotient_def)
    have "length (map ?g cs) \<noteq> 1" using False by simp
    from mp [OF conjunct2 [OF t] this] show ?thesis unfolding q num den by (simp only: Let_def)
  qed
qed

subsection \<open>Collecting the contributions\<close>

lemma validate_model: "validate_contribution ns radius c legacy p = Inr identity \<Longrightarrow> cl_model identity = 0 \<or> 1 \<le> cl_model identity \<and> cl_model identity \<le> 6"
  unfolding validate_contribution_def Let_def by (auto simp: bindE_Inr_iff split: if_splits)

text \<open>
  How a callback that also checks its frames may stop: with an error of the arguments only
  where \<open>bad\<close> holds.
\<close>

definition stopped :: "host \<Rightarrow> bool \<Rightarrow> nss_error \<Rightarrow> callback \<Rightarrow> bool" where
  "stopped H bad e s \<longleftrightarrow>
     scope_inv (cb_scope s) \<and> fs_given (cb_scope s) = (\<lambda>_. 0) \<and> ws_inv (cb_ws s) \<and>
     (refusal e \<longrightarrow> bad) \<and> (generous H \<and> \<not> bad \<longrightarrow> size_error e)"

lemma failed_stopped: "failed H e s \<Longrightarrow> stopped H bad e s"
  by (simp add: failed_def stopped_def)

lemma owns_stopped: "owns H M s \<Longrightarrow> bad \<Longrightarrow> stopped H bad e s"
  by (simp add: owns_def stopped_def)

definition no_common_model :: "host \<Rightarrow> vaggregate_params \<Rightarrow> (nat \<Rightarrow> vs_frame) \<Rightarrow> int list \<Rightarrow> bool" where
  "no_common_model H p frames cs \<longleftrightarrow> \<not> (\<exists>m. \<forall>c \<in> set cs. contribution_ok H p frames c m)"

definition collected :: "host \<Rightarrow> vaggregate_params \<Rightarrow> (nat \<Rightarrow> vs_frame) \<Rightarrow> int list \<Rightarrow> nat list \<times> int \<Rightarrow> callback \<Rightarrow> bool" where
  "collected H p frames cs fm s \<longleftrightarrow>
     (fst fm = map (ho_source H 0) cs \<and> (\<forall>f \<in> set (fst fm). f \<noteq> 0 \<and> f \<noteq> ho_fresh H) \<and> (\<forall>c \<in> set cs. contribution_ok H p frames c (snd fm)) \<and>
      (cs = [] \<longrightarrow> snd fm = - 1) \<and> (cs \<noteq> [] \<longrightarrow> 0 \<le> snd fm \<and> snd fm \<le> 6)) \<and>
     (owns H (mset (fst fm)) s \<and> cb_frames s = frames)"

lemma contribution_model: "contribution_ok H p frames c m \<Longrightarrow> contribution_ok H p frames c m' \<Longrightarrow> m = m'"
  by (auto simp: contribution_ok_def)

text \<open>After the identity of a contribution has been read.\<close>

lemma collect_model_step:
  fixes H p frames cs0 c fs m identity
  defines "f \<equiv> ho_source H 0 c"
  defines "P \<equiv> \<lambda>s. f \<noteq> 0 \<and> f \<noteq> ho_fresh H \<and> owns H (add_mset f (mset fs)) s \<and> cb_frames s = frames"
  assumes H: "host_ok H" and window: "window = cs0 @ c # cs1" and bad: "bad = no_common_model H p frames window"
    and c: "fs = map (ho_source H 0) cs0" "\<forall>f \<in> set fs. f \<noteq> 0 \<and> f \<noteq> ho_fresh H" "\<forall>c \<in> set cs0. contribution_ok H p frames c m"
      "cs0 = [] \<longrightarrow> m = - 1" "cs0 \<noteq> [] \<longrightarrow> 0 \<le> m \<and> m \<le> 6"
    and v: "validate_contribution ''nss'' (vp_radius p) c (vp_allow_legacy p) (vf_props (frames f)) = Inr identity"
  shows "outcome P (if m \<ge> 0 \<and> m \<noteq> cl_model identity
      then lift_res (Inl (Invalid_argument ''nss.VAggregate: mixed contribution models''))
      else bind_act (reserve_act H (length fs + 1)) (\<lambda>_. return_act (fs @ [f], cl_model identity)))
    (collected H p frames (cs0 @ [c])) (stopped H bad)"
proof -
  have ok: "contribution_ok H p frames c (cl_model identity)" using v by (simp add: contribution_ok_def f_def)
  show ?thesis
  proof (cases "m \<ge> 0 \<and> m \<noteq> cl_model identity")
    case True
    then obtain c0 where "c0 \<in> set cs0" using c(4) by (cases cs0) auto
    then have "contribution_ok H p frames c0 m" "c0 \<in> set window" "c \<in> set window" using c(3) window by auto
    then have bad using True ok contribution_model unfolding no_common_model_def bad by metis
    then show ?thesis using True by (auto intro!: outcome_lift owns_stopped simp: P_def)
  next
    case False
    then have m: "\<forall>c \<in> set cs0. contribution_ok H p frames c (cl_model identity)" using c by (cases cs0) auto
    have "outcome P (bind_act (reserve_act H (length fs + 1)) (\<lambda>_. return_act (fs @ [f], cl_model identity)))
      (collected H p frames (cs0 @ [c])) (stopped H bad)"
    proof (rule outcome_bind)
      show "outcome P (reserve_act H (length fs + 1)) (\<lambda>_. P) (stopped H bad)"
        unfolding reserve_act_def using H
        by (intro outcome_lift) (auto simp: host_ok_def P_def owns_def stopped_def generous_def split: option.splits)
      show "outcome P (return_act (fs @ [f], cl_model identity)) (collected H p frames (cs0 @ [c])) (stopped H bad)" for u
        by (rule outcome_return) (use c m ok validate_model [OF v] in \<open>auto simp: collected_def P_def f_def\<close>)
    qed
    then show ?thesis using False by (simp only: if_False)
  qed
qed

lemma collect_step:
  assumes "host_ok H" "window = cs0 @ c # cs1"
  shows "outcome (collected H p frames cs0 fm) (vagg_collect H p c fm) (collected H p frames (cs0 @ [c])) (stopped H (no_common_model H p frames window))"
proof -
  obtain fs m where fm: "fm = (fs, m)" by (cases fm)
  let ?bad = "no_common_model H p frames window" and ?f = "ho_source H 0 c"
  let ?c = "fs = map (ho_source H 0) cs0 \<and> (\<forall>f \<in> set fs. f \<noteq> 0 \<and> f \<noteq> ho_fresh H) \<and> (\<forall>c \<in> set cs0. contribution_ok H p frames c m) \<and>
      (cs0 = [] \<longrightarrow> m = - 1) \<and> (cs0 \<noteq> [] \<longrightarrow> 0 \<le> m \<and> m \<le> 6)"
  let ?v = "validate_contribution ''nss'' (vp_radius p) c (vp_allow_legacy p) (vf_props (frames ?f))"
  let ?P = "\<lambda>s. ?f \<noteq> 0 \<and> ?f \<noteq> ho_fresh H \<and> owns H (add_mset ?f (mset fs)) s \<and> cb_frames s = frames"
  show ?thesis
    unfolding collected_def fm fst_conv snd_conv vagg_collect_def prod.case
  proof (rule outcome_pure, rule outcome_bind)
    assume c: ?c
    show "outcome (\<lambda>s. owns H (mset fs) s \<and> cb_frames s = frames) (get_frame H 0 c) (\<lambda>f s. f = ?f \<and> ?P s) (stopped H ?bad)"
      by (rule outcome_weaken [OF get_frame_step [OF assms(1), where K = "\<lambda>fr. fr = frames"]]) (auto intro: failed_stopped)
    fix f
    let ?Q = "\<lambda>fm s. collected H p frames (cs0 @ [c]) fm s"
    have "outcome (\<lambda>s. f = ?f \<and> ?P s) (bind_act (props_of f) (\<lambda>props.
        bind_act (lift_res (validate_contribution ''nss'' (vp_radius p) c (vp_allow_legacy p) props)) (\<lambda>identity.
          if m \<ge> 0 \<and> m \<noteq> cl_model identity
          then lift_res (Inl (Invalid_argument ''nss.VAggregate: mixed contribution models''))
          else bind_act (reserve_act H (length fs + 1)) (\<lambda>_. return_act (fs @ [f], cl_model identity))))) ?Q (stopped H ?bad)"
    proof (rule outcome_pure, hypsubst, rule outcome_bind)
      show "outcome ?P (props_of ?f) (\<lambda>pr s. pr = vf_props (frames ?f) \<and> ?P s) (stopped H ?bad)"
        by (simp add: outcome_def props_of_def)
      fix pr
      show "outcome (\<lambda>s. pr = vf_props (frames ?f) \<and> ?P s) (bind_act (lift_res (validate_contribution ''nss'' (vp_radius p) c (vp_allow_legacy p) pr)) (\<lambda>identity.
          if m \<ge> 0 \<and> m \<noteq> cl_model identity
          then lift_res (Inl (Invalid_argument ''nss.VAggregate: mixed contribution models''))
          else bind_act (reserve_act H (length fs + 1)) (\<lambda>_. return_act (fs @ [?f], cl_model identity)))) ?Q (stopped H ?bad)"
      proof (rule outcome_pure, hypsubst, rule outcome_bind)
        have inv: ?bad if "?v = Inl e" for e
          using that assms(2) by (auto simp: no_common_model_def contribution_ok_def)
        show "outcome ?P (lift_res ?v) (\<lambda>identity s. ?v = Inr identity \<and> ?P s) (stopped H ?bad)"
          by (rule outcome_lift, blast) (rule owns_stopped [OF _ inv], blast+)
        fix identity
        show "outcome (\<lambda>s. ?v = Inr identity \<and> ?P s) (if m \<ge> 0 \<and> m \<noteq> cl_model identity
          then lift_res (Inl (Invalid_argument ''nss.VAggregate: mixed contribution models''))
          else bind_act (reserve_act H (length fs + 1)) (\<lambda>_. return_act (fs @ [?f], cl_model identity))) ?Q (stopped H ?bad)"
          by (rule outcome_pure) (use collect_model_step [OF assms refl] c in blast)
      qed
    qed
    then show "outcome (\<lambda>s. f = ?f \<and> ?P s) (bind_act (props_of f) (\<lambda>props.
        bind_act (lift_res (validate_contribution ''nss'' (vp_radius p) c (vp_allow_legacy p) props)) (\<lambda>identity.
          if m \<ge> 0 \<and> m \<noteq> cl_model identity
          then lift_res (Inl (Invalid_argument ''nss.VAggregate: mixed contribution models''))
          else bind_act (reserve_act H (length fs + 1)) (\<lambda>_. return_act (fs @ [f], cl_model identity)))))
      (\<lambda>fm s. (fst fm = map (ho_source H 0) (cs0 @ [c]) \<and> (\<forall>f \<in> set (fst fm). f \<noteq> 0 \<and> f \<noteq> ho_fresh H) \<and>
        (\<forall>c \<in> set (cs0 @ [c]). contribution_ok H p frames c (snd fm)) \<and> (cs0 @ [c] = [] \<longrightarrow> snd fm = - 1) \<and>
        (cs0 @ [c] \<noteq> [] \<longrightarrow> 0 \<le> snd fm \<and> snd fm \<le> 6)) \<and> owns H (mset (fst fm)) s \<and> cb_frames s = frames) (stopped H ?bad)"
      unfolding collected_def by simp
  qed
qed

subsection \<open>Writing the planes\<close>

lemma contributions_step:
  assumes "\<And>fr. K fr \<Longrightarrow> \<forall>f \<in> snd ` set cfs. has_format fat (fr f) \<and> fr f = frames f" "0 \<le> plane" "plane < vi_planes fat"
  shows "outcome (\<lambda>s. owns H M s \<and> K (cb_frames s)) (map_act (vagg_contribution p n ph plane) cfs)
    (\<lambda>vs s. vs = map (\<lambda>(c, f). vagg_slice p n ph c (vf_stride (frames f) plane div 4) (vf_plane (frames f) plane)) cfs \<and>
      (owns H M s \<and> K (cb_frames s))) (failed H)"
proof -
  let ?g = "\<lambda>(c, f). vagg_slice p n ph c (vf_stride (frames f) plane div 4) (vf_plane (frames f) plane)"
  let ?I = "\<lambda>xs vs s. vs = map ?g xs \<and> (owns H M s \<and> K (cb_frames s))"
  have "outcome (?I [] []) (map_act (vagg_contribution p n ph plane) cfs) (\<lambda>vs s. length vs = length cfs \<and> ?I cfs vs s) (failed H)"
  proof (rule outcome_map)
    fix xs0 cf xs1 vs
    assume w: "cfs = xs0 @ cf # xs1"
    obtain c f where cf: "cf = (c, f)" by (cases cf)
    have fm: "K fr \<Longrightarrow> has_format fat (fr f) \<and> fr f = frames f" for fr using assms(1) [of fr] w cf by auto
    show "outcome (?I xs0 vs) (vagg_contribution p n ph plane cf) (\<lambda>v. ?I (xs0 @ [cf]) (vs @ [v])) (failed H)"
      unfolding cf vagg_contribution_def prod.case
    proof (rule outcome_pure, rule outcome_bind)
      assume vs: "vs = map ?g xs0"
      show "outcome (\<lambda>s. owns H M s \<and> K (cb_frames s)) (float_stride f plane)
          (\<lambda>v s. v = vf_stride (frames f) plane div 4 \<and> (owns H M s \<and> K (cb_frames s))) (failed H)"
        by (rule outcome_weaken [OF float_stride_step [where K = K, OF _ assms(2,3)]]) (use fm in auto)
      show "outcome (\<lambda>s. v = vf_stride (frames f) plane div 4 \<and> (owns H M s \<and> K (cb_frames s)))
          (bind_act (plane_of f plane) (\<lambda>base. return_act (vagg_slice p n ph c v base))) (\<lambda>v. ?I (xs0 @ [(c, f)]) (vs @ [v])) (failed H)" for v
      proof (rule outcome_pure, hypsubst, rule outcome_bind [OF plane_of_step])
        show "outcome (\<lambda>s. owns H M s \<and> K (cb_frames s) \<and> base = vf_plane (cb_frames s f) plane)
          (return_act (vagg_slice p n ph c (vf_stride (frames f) plane div 4) base)) (\<lambda>v. ?I (xs0 @ [(c, f)]) (vs @ [v])) (failed H)" for base
          by (rule outcome_return) (use vs fm in auto)
      qed
    qed
  qed
  then show ?thesis by (rule outcome_weaken) auto
qed

lemma vagg_plane_step:
  assumes H: "host_ok H" and lanes: "0 < sd_lanes sd" and plane: "0 \<le> plane" "plane < vi_planes vi" "plane < vi_planes fat"
    and blank: "has_format vi (ho_blank H)"
    and src: "src = ho_source H 1 n" "src \<noteq> ho_fresh H" "has_format vi (frames src)"
    and fs: "fs = map (ho_source H 0) (vagg_window p vi n)" "\<forall>f \<in> set fs. f \<noteq> ho_fresh H \<and> has_format fat (frames f)"
  defines "K \<equiv> painted H vi frames (plane_width vi) (plane_height vi) (vagg_pixel sd H p vi frames n)"
  shows "outcome (\<lambda>s. owns H M s \<and> K planes (cb_frames s)) (vagg_plane_act sd p vi n fs src (ho_fresh H) plane)
    (\<lambda>_ s. owns H M s \<and> K (planes @ [plane]) (cb_frames s)) (failed H)"
proof -
  let ?os = "vf_stride (ho_blank H) plane div 4" and ?is = "vf_stride (frames src) plane div 4" and ?ps = "vf_plane (frames src) plane"
  let ?w = "plane_width vi plane" and ?h = "plane_height vi plane"
  have os: "?w \<le> ?os" using blank plane by (auto simp: has_format_def)
  have sf: "K planes fr \<Longrightarrow> fr src = frames src" for fr using src(2) by (auto simp: K_def painted_def)
  have fsf: "K planes fr \<Longrightarrow> \<forall>f \<in> set fs. has_format fat (fr f) \<and> fr f = frames f" for fr using fs(2) by (auto simp: K_def painted_def)
  let ?cs = "map (\<lambda>(c, f). vagg_slice p n ?h c (vf_stride (frames f) plane div 4) (vf_plane (frames f) plane)) (zip (vagg_window p vi n) fs)"
  have cs: "?cs = map (\<lambda>(c, vf). vagg_slice p n ?h c (vf_stride vf plane div 4) (vf_plane vf plane)) (map (\<lambda>c. (c, frames (ho_source H 0 c))) (vagg_window p vi n))"
    unfolding fs(1) by (simp add: zip_map2 zip_same_conv_map)
  have copied: "plane_painted H (plane_width vi) (plane_height vi) (vagg_pixel sd H p vi frames n) plane (copy_rows ?w ?h ?os ?is ?ps old)"
    if "vp_planes p ! nat plane = 0" for old
    using copy_rows_at [OF os] that by (simp add: plane_painted_def vagg_pixel_def Let_def src(1))
  have px: "vagg_pixel sd H p vi frames n plane y x = vagg_quotient sd ?w x
      (map (\<lambda>(c, vf). let slice = n - c + vp_radius p in (fat_at vf plane ?h (2 * slice) y x, fat_at vf plane ?h (2 * slice + 1) y x))
        (map (\<lambda>c. (c, frames (ho_source H 0 c))) (vagg_window p vi n))) (?ps (y * ?is + x))" if "vp_planes p ! nat plane \<noteq> 0" for y x
    using that by (simp add: vagg_pixel_def Let_def src(1) comp_def)
  have reduced: "plane_painted H (plane_width vi) (plane_height vi) (vagg_pixel sd H p vi frames n) plane (vaggregate_target sd old ?cs ?ps ?w ?h ?os ?is)"
    if "vp_planes p ! nat plane \<noteq> 0" for old
    unfolding cs plane_painted_def px [OF that] using vagg_target_pixel [OF lanes _ _ os] by blast
  have st: "outcome (\<lambda>s. owns H M s \<and> K planes (cb_frames s)) (float_stride (ho_fresh H) plane)
      (\<lambda>v s. v = ?os \<and> (owns H M s \<and> K planes (cb_frames s))) (failed H)"
    unfolding K_def by (rule painted_stride [OF plane(1,2)])
  show ?thesis
    unfolding vagg_plane_act_def Let_def
  proof (rule outcome_bind)
    show "outcome (\<lambda>s. owns H M s \<and> K planes (cb_frames s)) (float_stride src plane) (\<lambda>v s. v = ?is \<and> (owns H M s \<and> K planes (cb_frames s))) (failed H)"
      by (rule outcome_weaken [OF float_stride_step [where K = "K planes", OF _ plane(1,2)]]) (use sf src(3) in auto)
    fix sstride
    show "outcome (\<lambda>s. sstride = ?is \<and> (owns H M s \<and> K planes (cb_frames s)))
      (bind_act (float_stride (ho_fresh H) plane) (\<lambda>dstride. bind_act (plane_of src plane) (\<lambda>srcp.
         if vp_planes p ! nat plane = 0 then write_plane (ho_fresh H) plane (copy_rows ?w ?h dstride sstride srcp)
         else bind_act (map_act (vagg_contribution p n ?h plane) (zip (vagg_window p vi n) fs)) (\<lambda>contributions.
              write_plane (ho_fresh H) plane (\<lambda>old. vaggregate_target sd old contributions srcp ?w ?h dstride sstride)))))
      (\<lambda>_ s. owns H M s \<and> K (planes @ [plane]) (cb_frames s)) (failed H)"
    proof (rule outcome_pure, hypsubst, rule outcome_bind [OF st], rule outcome_pure, hypsubst, rule outcome_bind)
      show "outcome (\<lambda>s. owns H M s \<and> K planes (cb_frames s)) (plane_of src plane) (\<lambda>v s. v = ?ps \<and> (owns H M s \<and> K planes (cb_frames s))) (failed H)"
        by (rule outcome_weaken [OF plane_of_step [where K = "K planes"]]) (use sf in auto)
      fix srcp
      show "outcome (\<lambda>s. srcp = ?ps \<and> (owns H M s \<and> K planes (cb_frames s)))
        (if vp_planes p ! nat plane = 0 then write_plane (ho_fresh H) plane (copy_rows ?w ?h ?os ?is srcp)
         else bind_act (map_act (vagg_contribution p n ?h plane) (zip (vagg_window p vi n) fs)) (\<lambda>contributions.
              write_plane (ho_fresh H) plane (\<lambda>old. vaggregate_target sd old contributions srcp ?w ?h ?os ?is)))
        (\<lambda>_ s. owns H M s \<and> K (planes @ [plane]) (cb_frames s)) (failed H)"
      proof (rule outcome_pure, hypsubst, rule outcome_if)
        assume z: "vp_planes p ! nat plane = 0"
        show "outcome (\<lambda>s. owns H M s \<and> K planes (cb_frames s)) (write_plane (ho_fresh H) plane (copy_rows ?w ?h ?os ?is ?ps))
          (\<lambda>_ s. owns H M s \<and> K (planes @ [plane]) (cb_frames s)) (failed H)"
          unfolding K_def by (rule write_plane_step, rule painted_write [OF _ copied [OF z]])
      next
        assume z: "vp_planes p ! nat plane \<noteq> 0"
        show "outcome (\<lambda>s. owns H M s \<and> K planes (cb_frames s)) (bind_act (map_act (vagg_contribution p n ?h plane) (zip (vagg_window p vi n) fs)) (\<lambda>contributions.
                write_plane (ho_fresh H) plane (\<lambda>old. vaggregate_target sd old contributions ?ps ?w ?h ?os ?is)))
          (\<lambda>_ s. owns H M s \<and> K (planes @ [plane]) (cb_frames s)) (failed H)"
        proof (rule outcome_bind)
          show "outcome (\<lambda>s. owns H M s \<and> K planes (cb_frames s)) (map_act (vagg_contribution p n ?h plane) (zip (vagg_window p vi n) fs))
            (\<lambda>vs s. vs = ?cs \<and> (owns H M s \<and> K planes (cb_frames s))) (failed H)"
            by (rule contributions_step [OF _ plane(1,3)]) (use fsf in \<open>auto dest: set_zip_rightD\<close>)
          show "outcome (\<lambda>s. vs = ?cs \<and> (owns H M s \<and> K planes (cb_frames s)))
            (write_plane (ho_fresh H) plane (\<lambda>old. vaggregate_target sd old vs ?ps ?w ?h ?os ?is))
            (\<lambda>_ s. owns H M s \<and> K (planes @ [plane]) (cb_frames s)) (failed H)" for vs
            by (rule outcome_pure, hypsubst, unfold K_def, rule write_plane_step, rule painted_write [OF _ reduced [OF z]])
        qed
      qed
    qed
  qed
qed

subsection \<open>A frame\<close>

lemma outcome_stopped: "outcome P m Q (failed H) \<Longrightarrow> outcome P m Q (stopped H bad)"
  by (erule outcome_weaken) (auto intro: failed_stopped)

text \<open>The identity of the result: the model of the contributions and nothing of the fat layout.\<close>

definition vagg_props_ok :: "int \<Rightarrow> props \<Rightarrow> bool" where
  "vagg_props_ok m q \<longleftrightarrow> (\<forall>key \<in> set fat_keys. q key = None) \<and> (0 < m \<longrightarrow> prop_int q ''_NSSModel'' = Some m)"

lemma model_id_at: "1 \<le> m \<Longrightarrow> m \<le> 6 \<Longrightarrow> model_id (model_at m) = m"
proof -
  assume "1 \<le> m" "m \<le> 6"
  then have "m = 1 \<or> m = 2 \<or> m = 3 \<or> m = 4 \<or> m = 5 \<or> m = 6" by linarith
  then show ?thesis by (elim disjE) (simp_all add: model_at_def)
qed

lemma stamp_no_refusal: "stamp_contribution refuses radius center m p = Inl e \<Longrightarrow> \<not> refusal e \<and> (\<exists>key. refuses key)"
  by (auto simp: stamp_contribution_def Let_def bindE_Inl_iff contribution_set_def split: if_splits)

lemma stamp_then_drop:
  assumes "stamp_contribution refuses 0 n (model_at m) p = Inr q" "1 \<le> m" "m \<le> 6"
  shows "prop_int (drop_fat_keys q) ''_NSSModel'' = Some m"
  unfolding stamp_Inr [OF assms(1)] using model_id_at [OF assms(2,3)]
  by (simp add: drop_fat_keys_def fat_keys_def prop_int_def)

lemma dropped: "key \<in> set fat_keys \<Longrightarrow> drop_fat_keys q key = None"
  by (auto simp: drop_fat_keys_def fat_keys_def)

lemma vagg_finish:
  assumes "\<And>fr q. K fr \<Longrightarrow> K (fr(ho_fresh H := fr (ho_fresh H)\<lparr>vf_props := q\<rparr>))" "- 1 \<le> m" "m \<le> 6"
  shows "outcome (\<lambda>s. owns H (add_mset (ho_fresh H) (add_mset src (mset fs))) s \<and> K (cb_frames s))
    (bind_act (if 0 < m then write_props (ho_fresh H) (stamp_contribution (ho_refuses H) 0 n (model_at m)) else return_act ()) (\<lambda>_.
     bind_act (write_props (ho_fresh H) (\<lambda>props. Inr (drop_fat_keys props))) (\<lambda>_.
     bind_act (for_act free_act fs) (\<lambda>_. bind_act (free_act src) (\<lambda>_. keep_act H (ho_fresh H))))))
    (\<lambda>f s. f = ho_fresh H \<and> handed f {#f#} s \<and> K (cb_frames s) \<and> vagg_props_ok m (vf_props (cb_frames s f))) (failed H)"
proof (rule outcome_bind)
  let ?d = "ho_fresh H"
  let ?M = "add_mset ?d (add_mset src (mset fs))"
  let ?K1 = "\<lambda>fr. K fr \<and> (0 < m \<longrightarrow> prop_int (drop_fat_keys (vf_props (fr ?d))) ''_NSSModel'' = Some m)"
  let ?K2 = "\<lambda>fr. K fr \<and> vagg_props_ok m (vf_props (fr ?d))"
  show "outcome (\<lambda>s. owns H ?M s \<and> K (cb_frames s)) (if 0 < m then write_props ?d (stamp_contribution (ho_refuses H) 0 n (model_at m)) else return_act ())
    (\<lambda>_ s. owns H ?M s \<and> ?K1 (cb_frames s)) (failed H)"
  proof (rule outcome_if)
    assume "0 < m"
    then show "outcome (\<lambda>s. owns H ?M s \<and> K (cb_frames s)) (write_props ?d (stamp_contribution (ho_refuses H) 0 n (model_at m)))
      (\<lambda>_ s. owns H ?M s \<and> ?K1 (cb_frames s)) (failed H)"
    proof (intro write_props_step)
      fix fr p
      assume "0 < m" "K fr" "stamp_contribution (ho_refuses H) 0 n (model_at m) (vf_props (fr ?d)) = Inr p"
      then show "?K1 (fr(?d := fr ?d\<lparr>vf_props := p\<rparr>))" using assms(1) [of fr p] stamp_then_drop [of "ho_refuses H" n m _ p] assms(3) by simp
    next
      fix p e
      assume "stamp_contribution (ho_refuses H) 0 n (model_at m) p = Inl e"
      from stamp_no_refusal [OF this] show "\<not> refusal e \<and> (generous H \<longrightarrow> size_error e)" by (auto simp: generous_def)
    qed
  next
    assume "\<not> 0 < m"
    then show "outcome (\<lambda>s. owns H ?M s \<and> K (cb_frames s)) (return_act ()) (\<lambda>_ s. owns H ?M s \<and> ?K1 (cb_frames s)) (failed H)"
      by (intro outcome_return) simp
  qed
  fix u
  show "outcome (\<lambda>s. owns H ?M s \<and> ?K1 (cb_frames s))
    (bind_act (write_props ?d (\<lambda>props. Inr (drop_fat_keys props))) (\<lambda>_.
     bind_act (for_act free_act fs) (\<lambda>_. bind_act (free_act src) (\<lambda>_. keep_act H ?d))))
    (\<lambda>f s. f = ?d \<and> handed f {#f#} s \<and> K (cb_frames s) \<and> vagg_props_ok m (vf_props (cb_frames s f))) (failed H)"
  proof (rule outcome_bind)
    show "outcome (\<lambda>s. owns H ?M s \<and> ?K1 (cb_frames s)) (write_props ?d (\<lambda>props. Inr (drop_fat_keys props))) (\<lambda>_ s. owns H ?M s \<and> ?K2 (cb_frames s)) (failed H)"
    proof (rule write_props_step)
      fix fr p
      assume "?K1 fr" "Inr (drop_fat_keys (vf_props (fr ?d))) = (Inr p :: props res)"
      then show "?K2 (fr(?d := fr ?d\<lparr>vf_props := p\<rparr>))" using assms(1) [of fr p] dropped by (auto simp: vagg_props_ok_def)
    qed simp
    show "outcome (\<lambda>s. owns H ?M s \<and> ?K2 (cb_frames s)) (bind_act (for_act free_act fs) (\<lambda>_. bind_act (free_act src) (\<lambda>_. keep_act H ?d)))
      (\<lambda>f s. f = ?d \<and> handed f {#f#} s \<and> K (cb_frames s) \<and> vagg_props_ok m (vf_props (cb_frames s f))) (failed H)" for u
    proof (rule outcome_bind)
      show "outcome (\<lambda>s. owns H ?M s \<and> ?K2 (cb_frames s)) (for_act free_act fs) (\<lambda>_ s. owns H {#?d, src#} s \<and> ?K2 (cb_frames s)) (failed H)"
        using free_all_step [of H "{#?d, src#}" fs ?K2] by simp
      show "outcome (\<lambda>s. owns H {#?d, src#} s \<and> ?K2 (cb_frames s)) (bind_act (free_act src) (\<lambda>_. keep_act H ?d))
        (\<lambda>f s. f = ?d \<and> handed f {#f#} s \<and> K (cb_frames s) \<and> vagg_props_ok m (vf_props (cb_frames s f))) (failed H)" for v
      proof (rule outcome_bind)
        show "outcome (\<lambda>s. owns H {#?d, src#} s \<and> ?K2 (cb_frames s)) (free_act src) (\<lambda>_ s. owns H {#?d#} s \<and> ?K2 (cb_frames s)) (failed H)"
          using free_act_step [of src "{#?d, src#}" H ?K2] by simp
        show "outcome (\<lambda>s. owns H {#?d#} s \<and> ?K2 (cb_frames s)) (keep_act H ?d)
          (\<lambda>f s. f = ?d \<and> handed f {#f#} s \<and> K (cb_frames s) \<and> vagg_props_ok m (vf_props (cb_frames s f))) (failed H)" for v
        proof (rule outcome_weaken [OF keep_act_step [of ?d "{#?d#}" ?K2 ?K2]])
          fix fr p
          assume k: "?K2 fr" and p: "\<And>key. key \<notin> resource_keys \<Longrightarrow> p key = vf_props (fr ?d) key"
          have "p key = vf_props (fr ?d) key" if "key \<in> insert ''_NSSModel'' (set fat_keys)" for key
            using that by (intro p) (auto simp: fat_keys_def resource_keys_def)
          then show "?K2 (fr(?d := fr ?d\<lparr>vf_props := p\<rparr>))"
            using k assms(1) [of fr p] by (auto simp: vagg_props_ok_def prop_int_def)
        qed auto
      qed
    qed
  qed
qed


definition vagg_clips_ok :: "host \<Rightarrow> video_info \<Rightarrow> video_info \<Rightarrow> (nat \<Rightarrow> vs_frame) \<Rightarrow> int list \<Rightarrow> int \<Rightarrow> bool" where
  "vagg_clips_ok H vi fat frames window n \<longleftrightarrow>
     has_format vi (ho_blank H) \<and> has_format vi (frames (ho_source H 1 n)) \<and> (\<forall>c \<in> set window. has_format fat (frames (ho_source H 0 c)))"

definition vagg_result :: "simd \<Rightarrow> host \<Rightarrow> vaggregate_params \<Rightarrow> video_info \<Rightarrow> (nat \<Rightarrow> vs_frame) \<Rightarrow> int \<Rightarrow> nat \<Rightarrow> callback \<Rightarrow> bool" where
  "vagg_result sd H p vi frames n f s \<longleftrightarrow>
     f = ho_fresh H \<and> handed f {#f#} s \<and>
     painted H vi frames (plane_width vi) (plane_height vi) (vagg_pixel sd H p vi frames n) [0..vi_planes vi - 1] (cb_frames s) \<and>
     (\<exists>m. (\<forall>c \<in> set (vagg_window p vi n). contribution_ok H p frames c m) \<and> vagg_props_ok m (vf_props (cb_frames s f)))"

text \<open>Once the contributions are collected, only the resources can fail.\<close>

lemma vagg_rest:
  assumes H: "host_ok H" and lanes: "0 < sd_lanes sd" and planes: "vi_planes fat = vi_planes vi"
    and clips: "vagg_clips_ok H vi fat frames (vagg_window p vi n) n"
    and fs: "fs = map (ho_source H 0) (vagg_window p vi n)" "\<forall>f \<in> set fs. f \<noteq> 0 \<and> f \<noteq> ho_fresh H"
    and m: "\<forall>c \<in> set (vagg_window p vi n). contribution_ok H p frames c m" "- 1 \<le> m" "m \<le> 6"
  shows "outcome (\<lambda>s. owns H (mset fs) s \<and> cb_frames s = frames)
    (bind_act (get_frame H 1 n) (\<lambda>src.
     bind_act (new_frame H (vi_width vi) (vi_height vi) src) (\<lambda>dst.
     bind_act (for_act (vagg_plane_act sd p vi n fs src dst) [0..vi_planes vi - 1]) (\<lambda>_.
     bind_act (if 0 < m then write_props dst (stamp_contribution (ho_refuses H) 0 n (model_at m)) else return_act ()) (\<lambda>_.
     bind_act (write_props dst (\<lambda>props. Inr (drop_fat_keys props))) (\<lambda>_.
     bind_act (for_act free_act fs) (\<lambda>_.
     bind_act (free_act src) (\<lambda>_. keep_act H dst))))))))
    (vagg_result sd H p vi frames n) (failed H)"
proof -
  let ?W = "\<lambda>planes. painted H vi frames (plane_width vi) (plane_height vi) (vagg_pixel sd H p vi frames n) planes"
  let ?src = "ho_source H 1 n" and ?d = "ho_fresh H" and ?ps = "[0..vi_planes vi - 1]"
  let ?M = "add_mset ?d (add_mset ?src (mset fs))"
  have blank: "has_format vi (ho_blank H)" and sfm: "has_format vi (frames ?src)" and ffm: "\<forall>f \<in> set fs. f \<noteq> ho_fresh H \<and> has_format fat (frames f)"
    using clips fs by (auto simp: vagg_clips_ok_def)
  show ?thesis
  proof (rule outcome_bind [OF get_frame_step [OF H, where K = "\<lambda>fr. fr = frames"]], rule outcome_pure, hypsubst, rule outcome_pure, rule outcome_pure, rule outcome_bind)
    assume src: "?src \<noteq> ?d"
    show "outcome (\<lambda>s. owns H (add_mset ?src (mset fs)) s \<and> cb_frames s = frames) (new_frame H (vi_width vi) (vi_height vi) ?src)
        (\<lambda>dst s. dst = ?d \<and> dst \<noteq> 0 \<and> owns H (add_mset dst (add_mset ?src (mset fs))) s \<and> ?W [] (cb_frames s)) (failed H)"
      by (rule new_frame_step [OF H, where K = "\<lambda>fr. fr = frames"]) (hypsubst, rule painted_blank [OF blank])
    fix dst
    show "outcome (\<lambda>s. dst = ?d \<and> dst \<noteq> 0 \<and> owns H (add_mset dst (add_mset ?src (mset fs))) s \<and> ?W [] (cb_frames s))
      (bind_act (for_act (vagg_plane_act sd p vi n fs ?src dst) ?ps) (\<lambda>_.
       bind_act (if 0 < m then write_props dst (stamp_contribution (ho_refuses H) 0 n (model_at m)) else return_act ()) (\<lambda>_.
       bind_act (write_props dst (\<lambda>props. Inr (drop_fat_keys props))) (\<lambda>_.
       bind_act (for_act free_act fs) (\<lambda>_. bind_act (free_act ?src) (\<lambda>_. keep_act H dst))))))
      (vagg_result sd H p vi frames n) (failed H)"
    proof (rule outcome_pure, hypsubst, rule outcome_pure, rule outcome_bind)
      show "outcome (\<lambda>s. owns H ?M s \<and> ?W [] (cb_frames s)) (for_act (vagg_plane_act sd p vi n fs ?src ?d) ?ps)
          (\<lambda>_ s. owns H ?M s \<and> ?W ?ps (cb_frames s)) (failed H)"
      proof (rule outcome_for)
        fix xs0 plane xs1
        assume "?ps = xs0 @ plane # xs1"
        then have "plane \<in> set ?ps" by simp
        then have pl: "0 \<le> plane" "plane < vi_planes vi" "plane < vi_planes fat" using planes by auto
        show "outcome (\<lambda>s. owns H ?M s \<and> ?W xs0 (cb_frames s)) (vagg_plane_act sd p vi n fs ?src ?d plane)
            (\<lambda>_ s. owns H ?M s \<and> ?W (xs0 @ [plane]) (cb_frames s)) (failed H)"
          by (rule vagg_plane_step [OF H lanes pl blank refl src sfm fs(1) ffm])
      qed
      show "outcome (\<lambda>s. owns H ?M s \<and> ?W ?ps (cb_frames s))
        (bind_act (if 0 < m then write_props ?d (stamp_contribution (ho_refuses H) 0 n (model_at m)) else return_act ()) (\<lambda>_.
         bind_act (write_props ?d (\<lambda>props. Inr (drop_fat_keys props))) (\<lambda>_.
         bind_act (for_act free_act fs) (\<lambda>_. bind_act (free_act ?src) (\<lambda>_. keep_act H ?d)))))
        (vagg_result sd H p vi frames n) (failed H)" for u
        by (rule outcome_weaken [OF vagg_finish [where K = "?W ?ps", OF painted_props m(2,3)]]) (use m(1) in \<open>auto simp: vagg_result_def\<close>)
    qed
  qed
qed

lemma vagg_frame_triple:
  assumes "host_ok H" "0 < sd_lanes sd" "vi_planes fat = vi_planes vi" "vagg_clips_ok H vi fat frames (vagg_window p vi n) n"
  shows "outcome (\<lambda>s. owns H {#} s \<and> cb_frames s = frames) (vagg_get_frame H sd p vi n) (vagg_result sd H p vi frames n)
    (stopped H (no_common_model H p frames (vagg_window p vi n)))"
proof -
  let ?w = "vagg_window p vi n"
  have start: "outcome (collected H p frames [] ([], - 1)) (fold_act (vagg_collect H p) ?w ([], - 1)) (collected H p frames ?w)
      (stopped H (no_common_model H p frames ?w))"
    by (rule outcome_fold) (rule collect_step [OF assms(1)])
  show ?thesis
    unfolding vagg_get_frame_def
  proof (rule outcome_bind [where R = "collected H p frames ?w"])
    show "outcome (\<lambda>s. owns H {#} s \<and> cb_frames s = frames) (fold_act (vagg_collect H p) ?w ([], - 1)) (collected H p frames ?w)
      (stopped H (no_common_model H p frames ?w))"
      by (rule outcome_weaken [OF start _ _ ]) (simp add: collected_def, assumption+)
    fix fm :: "nat list \<times> int"
    obtain fs m where fm: "fm = (fs, m)" by (cases fm)
    show "outcome (collected H p frames ?w fm) (case fm of (fs, m) \<Rightarrow>
       bind_act (get_frame H 1 n) (\<lambda>src.
       bind_act (new_frame H (vi_width vi) (vi_height vi) src) (\<lambda>dst.
       bind_act (for_act (vagg_plane_act sd p vi n fs src dst) [0..vi_planes vi - 1]) (\<lambda>_.
       bind_act (if 0 < m then write_props dst (stamp_contribution (ho_refuses H) 0 n (model_at m)) else return_act ()) (\<lambda>_.
       bind_act (write_props dst (\<lambda>props. Inr (drop_fat_keys props))) (\<lambda>_.
       bind_act (for_act free_act fs) (\<lambda>_.
       bind_act (free_act src) (\<lambda>_. keep_act H dst))))))))
      (vagg_result sd H p vi frames n) (stopped H (no_common_model H p frames ?w))"
      unfolding fm prod.case collected_def fst_conv snd_conv
      by (rule outcome_pure, rule outcome_stopped, rule vagg_rest [OF assms]) (auto split: if_splits)
  qed
qed

text \<open>Where the rows of a contribution are: inside the fat plane, also with subsampling.\<close>

lemma vagg_slices:
  assumes "validate_vaggregate_shape h vi fat (vp_radius p) ns = Inr ()" "0 \<le> n" "n < vi_num_frames vi" "c \<in> set (vagg_window p vi n)"
  shows "0 \<le> n - c + vp_radius p" "n - c + vp_radius p \<le> 2 * vp_radius p" "vi_planes fat = vi_planes vi"
    "(2 * (n - c + vp_radius p) + 2) * plane_height vi plane \<le> plane_height fat plane"
proof -
  note v = vaggregate_shape_ok [OF assms(1)]
  have c: "max 0 (n - vp_radius p) \<le> c" "c \<le> temporal_last n (vp_radius p) (vi_num_frames vi)" using assms(4) by (auto simp: vagg_window_def)
  then show k: "0 \<le> n - c + vp_radius p" "n - c + vp_radius p \<le> 2 * vp_radius p" by (auto simp: temporal_last_def)
  have same: "vi_ss_h fat = vi_ss_h vi" "vi_planes fat = vi_planes vi" using v(6) by (simp_all add: same_format_def)
  then show "vi_planes fat = vi_planes vi" by simp
  let ?k = "2 * (n - c + vp_radius p) + 2" and ?K = "(2 * vp_radius p + 1) * 2"
  have mul: "?K * (a div q) \<le> (a * ?K) div q" if "0 < q" for a q :: int
  proof -
    have "a div q * q \<le> a" using that by (simp add: minus_mod_eq_div_mult [symmetric])
    then have "?K * (a div q * q) \<le> ?K * a" using v(1) by (intro mult_left_mono) auto
    then have "(?K * (a div q) * q) div q \<le> (a * ?K) div q" using that by (intro zdiv_mono1) (simp_all add: mult.assoc mult.commute)
    then show ?thesis using that by simp
  qed
  have "?k * plane_height vi plane \<le> ?K * plane_height vi plane"
    using k v(7) by (intro mult_right_mono) (auto simp: plane_height_def pos_imp_zdiv_nonneg_iff)
  also have "\<dots> \<le> plane_height fat plane"
    using mul [of "2 ^ (if plane \<noteq> 0 then vi_ss_h vi else 0)" "vi_height vi"] unfolding plane_height_def same v(5) by (simp add: mult.assoc)
  finally show "?k * plane_height vi plane \<le> plane_height fat plane" .
qed

text \<open>
  C13. A frame of VAggregate, for arguments and clips the filter accepted: the callback fails
  with an error of the arguments only when the contributions of the window do not all carry a
  valid identity of one model, and, where nothing is limited and they do, only for a size that
  is not representable; when it returns, the planes not selected are the source, every pixel
  of the others is the quotient of the sums over the slices of the window (the source where
  the weights vanish), and the properties name the model and nothing of the fat layout; the
  slices read lie inside the fat planes; and either way the host gets back every reference
  but the one of the result.
\<close>

theorem vaggregate_frame_exact:
  assumes "validate_vaggregate_shape h vi fat (vp_radius p) ns = Inr ()" "host_ok H" "0 \<le> n" "n < vi_num_frames vi" "0 < sd_lanes sd"
    and "vagg_clips_ok H vi fat frames (vagg_window p vi n) n" "ws_inv ws" "\<not> ho_limited H \<longrightarrow> b = None \<and> ws_budget ws = None"
    and "vagg_get_frame H sd p vi n (start_callback b ws frames) = (r, s)"
  defines "bad \<equiv> no_common_model H p frames (vagg_window p vi n)"
  shows "(case r of
      Inl e \<Rightarrow> (refusal e \<longrightarrow> bad) \<and> (generous H \<and> \<not> bad \<longrightarrow> size_error e) \<and> (\<forall>f. f \<noteq> 0 \<longrightarrow> fs_refs (scope_destroy (cb_scope s)) f = 0)
    | Inr f \<Rightarrow> f = ho_fresh H \<and> (\<forall>g. g \<noteq> 0 \<longrightarrow> fs_refs (scope_destroy (cb_scope s)) g = (if g = f then 1 else 0)) \<and>
        (\<exists>m. (\<forall>c \<in> set (vagg_window p vi n). contribution_ok H p frames c m) \<and> vagg_props_ok m (vf_props (cb_frames s f))) \<and>
        (\<forall>plane y x. 0 \<le> plane \<longrightarrow> plane < vi_planes vi \<longrightarrow> 0 \<le> y \<longrightarrow> y < plane_height vi plane \<longrightarrow> 0 \<le> x \<longrightarrow> x < plane_width vi plane \<longrightarrow>
           vf_plane (cb_frames s f) plane (y * (vf_stride (ho_blank H) plane div 4) + x) = vagg_pixel sd H p vi frames n plane y x)) \<and>
    (\<forall>c \<in> set (vagg_window p vi n). \<forall>plane. 0 \<le> n - c + vp_radius p \<and>
       (2 * (n - c + vp_radius p) + 2) * plane_height vi plane \<le> plane_height fat plane)"
proof -
  have "vi_planes fat = vi_planes vi" using vaggregate_shape_ok(6) [OF assms(1)] by (simp add: same_format_def)
  note triple = outcomeD [OF vagg_frame_triple [OF assms(2,5) this assms(6)], of "start_callback b ws frames"]
  have pre: "owns H {#} (start_callback b ws frames) \<and> cb_frames (start_callback b ws frames) = frames"
    using start_owns [OF assms(7,8)] by (simp add: start_callback_def)
  note slices = vagg_slices [OF assms(1,3,4)]
  show ?thesis
  proof (cases r)
    case (Inl e)
    then have "stopped H bad e s" using triple(2) [OF pre] assms(9) by (simp add: bad_def)
    then show ?thesis using slices Inl destroy_frees(2) [of "cb_scope s"] by (auto simp: stopped_def)
  next
    case (Inr f)
    then have r: "vagg_result sd H p vi frames n f s" using triple(1) [OF pre] assms(9) by simp
    then have "handed f {#f#} s" unfolding vagg_result_def by blast
    then show ?thesis using slices r handed_clean(1) [OF \<open>handed f {#f#} s\<close>] Inr
      by (auto simp: vagg_result_def painted_def plane_painted_def)
  qed
qed

definition legacy_map :: vsmap where
  "legacy_map = empty_map\<lparr>vm_int := (\<lambda>k i. if k = ''allow_legacy'' \<and> i = 0 then Some 1 else None)\<rparr>"

definition fat_frame :: vs_frame where
  "fat_frame = \<lparr>vf_planes = 1, vf_width = (\<lambda>_. 640), vf_height = (\<lambda>_. 960), vf_stride = (\<lambda>_. 2560), vf_plane = (\<lambda>_ i. word_of_int i),
     vf_props = (\<lambda>_. None)\<rparr>"

definition plain_frame :: vs_frame where
  "plain_frame = fat_frame\<lparr>vf_height := (\<lambda>_. 480)\<rparr>"

text \<open>Node 0 gives pointer 2, the contribution; node 1 gives pointer 3.\<close>

definition two_node_host :: host where
  "two_node_host = (example_host plain_frame)\<lparr>ho_source := (\<lambda>node n. node + 2)\<rparr>"

theorem vaggregate_frame_exact_witness:
  "\<exists>p r s. parse_vaggregate legacy_map gray_clip ''nss'' = Inr p \<and>
    vagg_get_frame two_node_host example_simd p gray_clip 3 (start_callback None (ws_new None) (\<lambda>f. if f = 2 then fat_frame else plain_frame)) = (r, s) \<and>
    (\<forall>e. r = Inl e \<longrightarrow> size_error e) \<and> fs_refs (scope_destroy (cb_scope s)) 2 = 0"
proof -
  let ?fr = "\<lambda>f. if f = (2::nat) then fat_frame else plain_frame" and ?fat = "gray_clip\<lparr>vi_height := 960\<rparr>" and ?H = two_node_host
  obtain p where p: "parse_vaggregate legacy_map gray_clip ''nss'' = Inr p" "vp_radius p = 0" "vp_allow_legacy p"
    by (simp add: parse_vaggregate_def legacy_map_def to_int32_def example_args)
  have v: "validate_vaggregate_shape example_helpers gray_clip ?fat (vp_radius p) ''nss'' = Inr ()"
    using p(2) by (simp add: validate_vaggregate_shape_def checked_fat_height_def checked_int_def same_format_def example_args)
  obtain r s where g: "vagg_get_frame ?H example_simd p gray_clip 3 (start_callback None (ws_new None) ?fr) = (r, s)" by (meson surj_pair)
  have ok: "host_ok ?H" "generous ?H" by (auto simp: host_ok_def generous_def two_node_host_def example_host_def)
  have n: "0 \<le> (3::int)" "3 < vi_num_frames gray_clip" by (simp_all add: gray_clip_def)
  have w: "vagg_window p gray_clip 3 = [3]" using p(2) by (simp add: vagg_window_def temporal_last_def gray_clip_def)
  have lanes: "0 < sd_lanes example_simd" by (simp add: example_simd_def)
  have c: "vagg_clips_ok ?H gray_clip ?fat ?fr (vagg_window p gray_clip 3) 3" unfolding w
    by (auto simp: vagg_clips_ok_def two_node_host_def example_host_def has_format_def gray_clip_def plane_width_def plane_height_def fat_frame_def plain_frame_def)
  have "validate_contribution ''nss'' (vp_radius p) 3 (vp_allow_legacy p) (vf_props fat_frame) =
      Inr \<lparr>cl_version = 0, cl_radius = 0, cl_center = 3, cl_slice_layout = kContributionNumDenSlices, cl_model = 0, cl_profile = 0\<rparr>"
    using p by (simp add: validate_contribution_def fat_frame_def prop_count_def legacy_keys_def)
  then have "\<not> no_common_model ?H p ?fr (vagg_window p gray_clip 3)" unfolding w
    by (auto simp: no_common_model_def contribution_ok_def two_node_host_def example_host_def)
  moreover have l: "\<not> ho_limited ?H \<longrightarrow> None = None \<and> ws_budget (ws_new None) = None" by (simp add: ws_new_def)
  moreover note vaggregate_frame_exact [OF v ok(1) n lanes c new_workspace_inv l g]
  moreover have "ho_fresh ?H = 1" by (simp add: two_node_host_def example_host_def)
  ultimately have "(\<forall>e. r = Inl e \<longrightarrow> size_error e) \<and> fs_refs (scope_destroy (cb_scope s)) 2 = 0"
    using ok(2) by (cases r) auto
  then show ?thesis using p(1) g by blast
qed

end
