(* ===== verification/Bm3d_Pass.thy ===== *)
theory Bm3d_Pass
  imports Match_Batch Group_Batch Raster Aggregate Bm3d_Args Frames
begin

text \<open>
  One pass of BM3D over the groups of a center frame (\<open>process_planes_batched\<close> of
  src/host/filter_bm3d.cpp, as the default build compiles it): windows of 32 reference
  positions are matched as a batch on one plane, and every channel filters the groups of the
  window and adds them to its sums. The group kernels are parameters; the matching, the
  gathering of patches, the batch and the aggregation are those of the other theories.
\<close>

subsection \<open>Arguments\<close>

record bm3d_pass =
  ps_ntemp :: int
  ps_t0 :: int
  ps_width :: int
  ps_height :: int
  ps_block :: int
  ps_group :: int
  ps_step :: int
  ps_bm_range :: int
  ps_ps_num :: int
  ps_ps_range :: int
  ps_radius :: int
  ps_wiener :: bool
  ps_center :: int
  ps_frame_count :: int

text \<open>A channel, without its output and its sums, which the pass changes.\<close>

record bm3d_channel =
  bc_srcs :: "int \<Rightarrow> buffer"
  bc_src_strides :: "int \<Rightarrow> int"
  bc_refs :: "int \<Rightarrow> buffer"
  bc_ref_strides :: "int \<Rightarrow> int"
  bc_dstride :: int
  bc_fat_stride :: int
  bc_sigma :: f32

text \<open>The numerators and the denominators of all slices; the scratch holds one behind the other.\<close>

type_synonym sums = "buffer \<times> buffer"

text \<open>
  The target: lanes, vector matchers, the distance of two patches, the dispatch features,
  the shapes with a fused kernel, and the group kernels. \<open>bb_group\<close> filters the first \<open>k\<close>
  patches of a group and gives their weight; \<open>bb_storage\<close> and \<open>bb_pool\<close> are the contents
  of arrays that are not initialised.
\<close>

record bm3d_build =
  bb_simd :: simd
  bb_fast :: "buffer \<Rightarrow> int \<Rightarrow> int \<Rightarrow> int \<Rightarrow> int \<Rightarrow> int \<Rightarrow> (int \<Rightarrow> int \<Rightarrow> int \<Rightarrow> match list) option"
  bb_ssd :: "buffer patch_ssd"
  bb_features :: "int \<Rightarrow> int \<Rightarrow> int \<Rightarrow> bool \<Rightarrow> 32 word"
  bb_serves :: "int \<Rightarrow> int \<Rightarrow> bool"
  bb_fused :: "bm3d_pass \<Rightarrow> bm3d_channel \<Rightarrow> match list \<Rightarrow> sums \<Rightarrow> sums"
  bb_filter8 :: "bm3d_pass \<Rightarrow> bm3d_channel \<Rightarrow> match list \<Rightarrow> sums \<Rightarrow> sums"
  bb_direct :: "bm3d_pass \<Rightarrow> bm3d_channel \<Rightarrow> match list \<Rightarrow> sums \<Rightarrow> sums"
  bb_group :: "int \<Rightarrow> int \<Rightarrow> nat \<Rightarrow> f32 \<Rightarrow> buffer option \<Rightarrow> buffer \<Rightarrow> buffer \<times> f32"
  bb_storage :: "nat \<Rightarrow> nat \<Rightarrow> match"
  bb_pool :: "nat \<Rightarrow> buffer"

subsection \<open>Views at an offset\<close>

definition at_offset :: "int \<Rightarrow> (buffer \<Rightarrow> buffer) \<Rightarrow> buffer \<Rightarrow> buffer" where
  "at_offset off f b = (\<lambda>i. f (\<lambda>k. b (off + k)) (i - off))"

definition at_slice :: "int \<Rightarrow> (sums \<Rightarrow> sums) \<Rightarrow> sums \<Rightarrow> sums" where
  "at_slice off f s =
     (case f (\<lambda>k. fst s (off + k), \<lambda>k. snd s (off + k)) of (n, d) \<Rightarrow> (\<lambda>i. n (i - off), \<lambda>i. d (i - off)))"

subsection \<open>Matching a window\<close>

definition pass_search :: "bm3d_pass \<Rightarrow> search_config" where
  "pass_search P =
     bm3d_search (ps_block P) (ps_group P) (ps_step P) (ps_bm_range P) (ps_ps_num P) (ps_ps_range P) (ps_radius P) (ps_center P) (ps_frame_count P)"

definition pass_key :: "bm3d_pass \<Rightarrow> group_key" where
  "pass_key P = Group_key (ps_block P * ps_block P) (ps_group P) 1 GA_bm3d (\<not> ps_wiener P) False"

definition pass_jobs :: "bm3d_pass \<Rightarrow> group_job list" where
  "pass_jobs P = append_raster_jobs [] (ps_width P) (ps_height P) (ps_block P) (ps_step P) (pass_key P) (ps_t0 P)"

definition job_item :: "bm3d_build \<Rightarrow> bm3d_pass \<Rightarrow> group_job \<Rightarrow> match_item" where
  "job_item B P job =
     \<lparr>mi_bx = gj_x job, mi_by = gj_y job, mi_block = ps_block P, mi_bm_range = ps_bm_range P, mi_group = ps_group P,
      mi_avx2_features = bb_features B (ps_block P) (ps_group P) (ps_radius P) (ps_wiener P)\<rparr>"

text \<open>The vector matchers of the target, on the plane of the center.\<close>

abbreviation pass_fast :: "bm3d_build \<Rightarrow> bm3d_pass \<Rightarrow> (int \<Rightarrow> buffer) \<Rightarrow> (int \<Rightarrow> int) \<Rightarrow> int \<Rightarrow> int \<Rightarrow> (int \<Rightarrow> int \<Rightarrow> int \<Rightarrow> match list) option" where
  "pass_fast B P mat strides \<equiv> bb_fast B (mat (ps_t0 P)) (strides (ps_t0 P)) (ps_width P) (ps_height P)"

definition match_window :: "bm3d_build \<Rightarrow> bm3d_pass \<Rightarrow> (int \<Rightarrow> buffer) \<Rightarrow> (int \<Rightarrow> int) \<Rightarrow> match_item list \<Rightarrow> match list \<Rightarrow> int \<times> match list \<times> int list" where
  "match_window B P mat strides items storage =
     (let n = length items; t0 = ps_t0 P; zeros = replicate n 0
      in if 0 < ps_radius P
         then predictive_match_batch False (pass_fast B P mat strides) (bb_ssd B) (\<lambda>t. Some (mat t)) strides (ps_ntemp P) (ps_width P) (ps_height P) t0
                (pass_search P) False items (int n) kBmMaxGroup storage zeros
         else spatial_match_batch False (pass_fast B P mat strides) (strides t0) (ps_width P) (ps_height P)
                (\<lambda>block cx cy x y. bb_ssd B (mat t0) (strides t0) cx cy (mat t0) (strides t0) x y block)
                False items (int n) kBmMaxGroup storage zeros)"

text \<open>The matches of group \<open>i\<close> of the window.\<close>

definition group_matches :: "match list \<Rightarrow> int list \<Rightarrow> nat \<Rightarrow> match list" where
  "group_matches storage counts i = take (nat (counts ! i)) (drop (i * nat kBmMaxGroup) storage)"

definition with_k :: "int \<Rightarrow> group_job \<Rightarrow> group_job" where
  "with_k k job =
     (let key = gj_key job
      in job\<lparr>gj_key := Group_key (gk_m key) k (gk_channels key) (gk_algorithm key) (gk_basic key) (gk_residual key)\<rparr>)"

subsection \<open>Filtering a window of a channel\<close>

definition fused_shape :: "bm3d_pass \<Rightarrow> bool" where
  "fused_shape P \<longleftrightarrow> ps_block P = 8 \<and> ps_group P = 8 \<and> ps_radius P = 0"

definition template_shape :: "bm3d_build \<Rightarrow> bm3d_pass \<Rightarrow> bool" where
  "template_shape B P \<longleftrightarrow> \<not> fused_shape P \<and> bb_serves B (ps_block P) (ps_group P)"

definition direct_shape :: "bm3d_build \<Rightarrow> bm3d_pass \<Rightarrow> bool" where
  "direct_shape B P \<longleftrightarrow> ps_radius P = 0 \<and> ps_block P \<in> {4, 8, 12, 16} \<and> \<not> fused_shape P \<and> \<not> template_shape B P"

text \<open>The kernels that load, filter and add a group themselves, when the shape has one.\<close>

definition fused_kernel :: "bm3d_build \<Rightarrow> bm3d_pass \<Rightarrow> (bm3d_pass \<Rightarrow> bm3d_channel \<Rightarrow> match list \<Rightarrow> sums \<Rightarrow> sums) option" where
  "fused_kernel B P =
     (if template_shape B P then Some (bb_fused B) else if fused_shape P then Some (bb_filter8 B)
      else if direct_shape B P then Some (bb_direct B) else None)"

definition group_floats :: "bm3d_pass \<Rightarrow> int" where
  "group_floats P = ps_group P * (ps_block P * ps_block P)"

text \<open>The patches of a group, gathered into the buffer at \<open>base\<close>.\<close>

definition pack_group :: "bm3d_pass \<Rightarrow> (int \<Rightarrow> buffer) \<Rightarrow> (int \<Rightarrow> int) \<Rightarrow> int \<Rightarrow> match list \<Rightarrow> buffer \<Rightarrow> buffer" where
  "pack_group P planes strides base ms =
     fold (\<lambda>j. let m = ms ! j; t = (if 0 < ps_radius P then m_t m else ps_t0 P)
           in at_offset (base + int j * (ps_block P * ps_block P))
                (\<lambda>col. pack_patch col (planes t) (strides t) (m_x m) (m_y m) (ps_block P) (ps_width P) (ps_height P)))
       [0..<length ms]"

definition batch_item :: "bm3d_pass \<Rightarrow> nat \<Rightarrow> bm3d_item" where
  "batch_item P k =
     \<lparr>bi_lda = ps_block P * ps_block P, bi_group = ps_group P, bi_k = int k, bi_block = ps_block P, bi_wiener = ps_wiener P,
      bi_patches = True, bi_ref_patches = ps_wiener P, bi_weight = True, bi_work = True\<rparr>"

text \<open>The memory of the batch: the patches of all groups and their weights.\<close>

definition run_group :: "bm3d_build \<Rightarrow> bm3d_pass \<Rightarrow> f32 \<Rightarrow> buffer \<Rightarrow> (nat \<Rightarrow> nat) \<Rightarrow> nat \<Rightarrow> buffer \<times> (nat \<Rightarrow> f32) \<Rightarrow> buffer \<times> (nat \<Rightarrow> f32)" where
  "run_group B P sigma refs k i mem =
     (case mem of (patches, weights) \<Rightarrow>
        let base = int i * group_floats P;
            (out, w) = bb_group B (ps_block P) (ps_group P) (k i) sigma
              (if ps_wiener P then Some (\<lambda>q. refs (base + q)) else None) (\<lambda>q. patches (base + q))
        in (map_span base 0 (group_floats P) (\<lambda>q _. out q) patches, weights(i := w)))"

text \<open>A prepared group: its matches with the slices they belong to, its patches and weight.\<close>

type_synonym prepared = "(match \<times> int) list \<times> buffer \<times> f32"

definition match_slice :: "bm3d_pass \<Rightarrow> match \<Rightarrow> int" where
  "match_slice P m = (if 0 < ps_radius P then cclamp (m_t m - ps_t0 P + ps_radius P) 0 (2 * ps_radius P) else 0)"

definition commit_group :: "bm3d_build \<Rightarrow> bm3d_pass \<Rightarrow> prepared option \<Rightarrow> sums \<Rightarrow> sums" where
  "commit_group B P result s =
     (case result of None \<Rightarrow> s
      | Some (ms, patches, w) \<Rightarrow>
          fold (\<lambda>j. case ms ! j of (m, sl) \<Rightarrow>
              at_slice (sl * (ps_width P * ps_height P))
                (aggregate_add (bb_simd B) (ps_width P) (m_x m) (m_y m) (\<lambda>q. patches (int j * (ps_block P * ps_block P) + q))
                   (ps_block P) (ps_width P) (ps_height P) w)) [0..<length ms] s)"

definition group_window :: "bm3d_build \<Rightarrow> bm3d_pass \<Rightarrow> bm3d_channel \<Rightarrow> group_job list \<Rightarrow> nat \<Rightarrow> (nat \<Rightarrow> match list) \<Rightarrow> nat \<Rightarrow>
    buffer \<times> buffer \<Rightarrow> sums \<Rightarrow> ((buffer \<times> buffer) \<times> sums) res" where
  "group_window B P ch jobs begin' groups n pool s =
     (let G = group_floats P; k = (\<lambda>i. length (groups i));
          patches = fold (\<lambda>i. pack_group P (bc_srcs ch) (bc_src_strides ch) (int i * G) (groups i)) [0..<n] (fst pool);
          refs = (if ps_wiener P then fold (\<lambda>i. pack_group P (bc_refs ch) (bc_ref_strides ch) (int i * G) (groups i)) [0..<n] (snd pool)
                  else snd pool);
          (rc, (patches, weights), sts) =
            bm3d_filter_group_batch False (run_group B P (bc_sigma ch) refs k) (\<lambda>mem. mem) False (map (\<lambda>i. batch_item P (k i)) [0..<n]) (int n)
              (patches, \<lambda>_. f32_one) (replicate n (Some 0))
      in if rc \<noteq> 0 then Inl (Runtime_error ''nss: numerical group processing failed'')
         else
           let prepare = (\<lambda>job.
                 let i = gj_ordinal job - gj_ordinal (jobs ! begin')
                 in if i \<ge> n \<or> k i = 0 \<or> sts ! i = Some 0 then None
                    else Some (map (\<lambda>m. (m, match_slice P m)) (groups i), \<lambda>q. patches (int i * G + q), weights i))
           in Inr ((patches, refs), commit_prepared_chunk jobs begin' (begin' + n) prepare (commit_group B P) s))"

definition channel_window :: "bm3d_build \<Rightarrow> bm3d_pass \<Rightarrow> bm3d_channel \<Rightarrow> group_job list \<Rightarrow> nat \<Rightarrow> (nat \<Rightarrow> match list) \<Rightarrow> nat \<Rightarrow>
    buffer \<times> buffer \<Rightarrow> sums \<Rightarrow> ((buffer \<times> buffer) \<times> sums) res" where
  "channel_window B P ch jobs begin' groups n pool s =
     (case fused_kernel B P of
        Some kernel_run \<Rightarrow> Inr (pool, fold (\<lambda>i s. if groups i = [] then s else kernel_run P ch (groups i) s) [0..<n] s)
      | None \<Rightarrow> group_window B P ch jobs begin' groups n pool s)"

subsection \<open>The pass\<close>

record pass_state =
  pa_jobs :: "group_job list"
  pa_pool :: "buffer \<times> buffer"
  pa_sums :: "sums list"

definition pass_window :: "bm3d_build \<Rightarrow> bm3d_pass \<Rightarrow> (int \<Rightarrow> buffer) \<Rightarrow> (int \<Rightarrow> int) \<Rightarrow> bm3d_channel list \<Rightarrow> nat \<Rightarrow> pass_state \<Rightarrow> pass_state res" where
  "pass_window B P mat strides channels begin' st =
     (let jobs = pa_jobs st; n = min (length jobs - begin') kGroupBatchWindow;
          items = map (\<lambda>i. job_item B P (jobs ! (begin' + i))) [0..<n];
          (rc, storage, counts) = match_window B P mat strides items (map (bb_storage B begin') [0..<kGroupBatchWindow * nat kBmMaxGroup])
      in if rc \<noteq> 0 then Inl (Runtime_error ''nss: matching failed for an active group'')
         else
           let jobs = fold (\<lambda>i jobs. jobs[begin' + i := with_k (counts ! i) (jobs ! (begin' + i))]) [0..<n] jobs
           in foldE (\<lambda>c st.
                bindE (channel_window B P (channels ! c) jobs begin' (group_matches storage counts) n (pa_pool st) (pa_sums st ! c))
                  (\<lambda>(pool, s). Inr (st\<lparr>pa_pool := pool, pa_sums := (pa_sums st)[c := s]\<rparr>)))
              [0..<length channels] (st\<lparr>pa_jobs := jobs\<rparr>))"

definition pass_begins :: "nat \<Rightarrow> nat list" where
  "pass_begins n = map (\<lambda>w. w * kGroupBatchWindow) [0..<(n + kGroupBatchWindow - 1) div kGroupBatchWindow]"

definition zero_sums :: sums where
  "zero_sums = (\<lambda>_. f32_zero, \<lambda>_. f32_zero)"

definition pass_sums :: "bm3d_build \<Rightarrow> bm3d_pass \<Rightarrow> (int \<Rightarrow> buffer) \<Rightarrow> (int \<Rightarrow> int) \<Rightarrow> bm3d_channel list \<Rightarrow> sums list res" where
  "pass_sums B P mat strides channels =
     map_sum id pa_sums
       (foldE (pass_window B P mat strides channels) (pass_begins (length (pass_jobs P)))
          \<lparr>pa_jobs = pass_jobs P, pa_pool = (bb_pool B 0, bb_pool B 1), pa_sums = replicate (length channels) zero_sums\<rparr>)"

text \<open>The fat planes, or the quotients.\<close>

definition emit_fat :: "bm3d_pass \<Rightarrow> bm3d_channel \<Rightarrow> sums \<Rightarrow> buffer \<Rightarrow> buffer" where
  "emit_fat P ch s =
     fold (\<lambda>sl dst.
       let w = ps_width P; h = ps_height P; fs = bc_fat_stride ch;
           dst = at_offset (2 * sl * h * fs) (copy_rows w h fs w (\<lambda>q. fst s (sl * (w * h) + q))) dst
       in at_offset ((2 * sl + 1) * h * fs) (copy_rows w h fs w (\<lambda>q. snd s (sl * (w * h) + q))) dst)
     [0..2 * ps_radius P]"

definition pass_output :: "bm3d_build \<Rightarrow> bm3d_pass \<Rightarrow> bool \<Rightarrow> bm3d_channel \<Rightarrow> sums \<Rightarrow> buffer \<Rightarrow> buffer" where
  "pass_output B P fat ch s dst =
     (if fat then emit_fat P ch s dst
      else aggregate_finish (bb_simd B) dst (fst s) (snd s) (bc_srcs ch (ps_t0 P)) (ps_width P) (ps_height P) (bc_dstride ch) (ps_width P)
             (bc_src_strides ch (ps_t0 P)))"

definition process_planes_batched :: "bm3d_build \<Rightarrow> bm3d_pass \<Rightarrow> bool \<Rightarrow> bool \<Rightarrow> (int \<Rightarrow> buffer) \<Rightarrow> (int \<Rightarrow> int) \<Rightarrow> bm3d_channel list \<Rightarrow>
    buffer list \<Rightarrow> (sums list \<times> buffer list) res" where
  "process_planes_batched B P fat scratch_only mat strides channels dsts =
     bindE (pass_sums B P mat strides channels) (\<lambda>ss.
       Inr (ss, if pass_jobs P = [] \<or> scratch_only then dsts
                else map (\<lambda>c. pass_output B P fat (channels ! c) (ss ! c) (dsts ! c)) [0..<length channels]))"

text \<open>One plane: it is its own channel, matched on its reference.\<close>

definition process_plane_batched :: "bm3d_build \<Rightarrow> bm3d_pass \<Rightarrow> bool \<Rightarrow> bool \<Rightarrow> bm3d_channel \<Rightarrow> buffer \<Rightarrow> (sums \<times> buffer) res" where
  "process_plane_batched B P fat scratch_only ch dst =
     map_sum id (\<lambda>(ss, ds). (ss ! 0, ds ! 0))
       (process_planes_batched B P fat scratch_only (bc_refs ch) (bc_ref_strides ch) [ch] [dst])"

subsection \<open>Gathering\<close>

definition agree :: "int \<Rightarrow> buffer \<Rightarrow> buffer \<Rightarrow> bool" where
  "agree n p q \<longleftrightarrow> (\<forall>i. 0 \<le> i \<and> i < n \<longrightarrow> p i = q i)"

lemma agree_refl [simp]: "agree n p p" by (simp add: agree_def)

lemma pack_patch_at:
  assumes "1 \<le> block"
  shows "pack_patch col src stride x y block width height i =
    (if 0 \<le> i \<and> i < block * block
     then src (cclamp (y + i div block) 0 (height - 1) * stride + cclamp (x + i mod block) 0 (width - 1)) else col i)"
proof (cases "0 \<le> i \<and> i < block * block")
  case True
  then have "i div block * block < block * block" using assms pos_mod_sign [of block i] div_mult_mod_eq [of i block] by linarith
  then have "0 \<le> i div block" "i div block < block" "0 \<le> i mod block" "i mod block < block"
    using True assms by (simp_all add: pos_imp_zdiv_nonneg_iff)
  from pack_patch_eq [OF this(3,4,1,2), of col src stride x y width height] show ?thesis using True by simp
next
  case False
  have one: "map_span (py * block) 0 block f b i = b i" if "py \<in> set [0..block - 1]" for py f b
  proof -
    have "0 \<le> py * block" using that assms by simp
    moreover have "py * block + block \<le> block * block"
      using mult_right_mono [of "py + 1" block block] that assms by (simp add: algebra_simps)
    ultimately show ?thesis using False by (auto simp: map_span_def)
  qed
  have rows: "fold (\<lambda>py. map_span (py * block) 0 block (f py)) pys b i = b i" if "set pys \<subseteq> set [0..block - 1]" for f pys b
    using that by (induction pys arbitrary: b) (auto simp: one)
  have cell: "fold (\<lambda>px col. col(py * block + px := f px)) pxs b i = b i"
    if "py \<in> set [0..block - 1]" "set pxs \<subseteq> set [0..block - 1]" for py f pxs b
    using that(2)
  proof (induction pxs arbitrary: b)
    case (Cons px pxs)
    have "py * block + block \<le> block * block" "0 \<le> py * block"
      using mult_right_mono [of "py + 1" block block] that(1) assms by (simp_all add: algebra_simps)
    then have "py * block + px \<noteq> i" using Cons.prems False by auto
    then show ?case using Cons by simp
  qed simp
  have cells: "fold (\<lambda>py col. fold (\<lambda>px col. col(py * block + px := f py px)) [0..block - 1] col) pys b i = b i"
    if "set pys \<subseteq> set [0..block - 1]" for f pys b
    using that by (induction pys arbitrary: b) (auto simp: cell)
  show ?thesis unfolding pack_patch_def if_not_P [OF False] by (simp add: rows cells)
qed

text \<open>Element \<open>q\<close> of the patches of a group.\<close>

definition patch_value :: "bm3d_pass \<Rightarrow> (int \<Rightarrow> buffer) \<Rightarrow> (int \<Rightarrow> int) \<Rightarrow> match list \<Rightarrow> buffer" where
  "patch_value P planes strides ms q =
     (let A = ps_block P * ps_block P; m = ms ! nat (q div A); i = q mod A; t = (if 0 < ps_radius P then m_t m else ps_t0 P)
      in planes t (cclamp (m_y m + i div ps_block P) 0 (ps_height P - 1) * strides t + cclamp (m_x m + i mod ps_block P) 0 (ps_width P - 1)))"

lemma pack_group_at:
  assumes "1 \<le> ps_block P"
  shows "pack_group P planes strides base ms b i =
    (if base \<le> i \<and> i < base + int (length ms) * (ps_block P * ps_block P) then patch_value P planes strides ms (i - base) else b i)"
proof -
  let ?A = "ps_block P * ps_block P"
  have A: "1 \<le> ?A" using mult_mono [of 1 "ps_block P" 1 "ps_block P"] assms by simp
  let ?step = "\<lambda>j. let m = ms ! j; t = (if 0 < ps_radius P then m_t m else ps_t0 P)
           in at_offset (base + int j * ?A)
                (\<lambda>col. pack_patch col (planes t) (strides t) (m_x m) (m_y m) (ps_block P) (ps_width P) (ps_height P))"
  have "fold ?step [0..<n] b i = (if base \<le> i \<and> i < base + int n * ?A then patch_value P planes strides ms (i - base) else b i)" for n
  proof (induction n)
    case 0
    then show ?case by auto
  next
    case (Suc n)
    have in_n: "(i - base) div ?A = int n \<and> (i - base) mod ?A = i - base - int n * ?A"
      if "0 \<le> i - base - int n * ?A" "i - base - int n * ?A < ?A"
      using that int_div_pos_eq [of "i - base" ?A "int n" "i - base - int n * ?A"] int_mod_pos_eq [of "i - base" ?A "int n" "i - base - int n * ?A"]
      by (simp add: mult.commute)
    have s: "?step n c i = (if 0 \<le> i - base - int n * ?A \<and> i - base - int n * ?A < ?A then patch_value P planes strides ms (i - base) else c i)" for c
    proof (cases "0 \<le> i - base - int n * ?A \<and> i - base - int n * ?A < ?A")
      case True
      note q = in_n [OF conjunct1 [OF True] conjunct2 [OF True]]
      have e: "i - (base + int n * ?A) = (i - base) mod ?A" using q by linarith
      have q': "nat ((i - base) div ?A) = n" using q by simp
      have "0 \<le> (i - base) mod ?A" "(i - base) mod ?A < ?A" using A by simp_all
      then show ?thesis using True by (simp add: at_offset_def Let_def pack_patch_at [OF assms] patch_value_def e q' del: int_nat_eq)
    next
      case False
      then show ?thesis
        by (auto simp: at_offset_def Let_def pack_patch_at [OF assms] algebra_simps)
    qed
    define k where "k = int n * ?A"
    have k: "0 \<le> k" "int (Suc n) * ?A = k + ?A" using A by (simp_all add: k_def distrib_right)
    have "fold ?step [0..<Suc n] b i = (if 0 \<le> i - base - k \<and> i - base - k < ?A then patch_value P planes strides ms (i - base)
        else if base \<le> i \<and> i < base + k then patch_value P planes strides ms (i - base) else b i)"
      unfolding upt_Suc_append [OF le0] fold_append by (simp add: s Suc.IH k_def)
    also have "\<dots> = (if base \<le> i \<and> i < base + (k + ?A) then patch_value P planes strides ms (i - base) else b i)"
      using k(1) A by (simp del: diff_diff_eq)
    finally show ?case unfolding k(2) .
  qed
  then show ?thesis by (simp add: pack_group_def)
qed

lemma packed_at:
  assumes "1 \<le> ps_block P" "\<forall>i < n. int (length (groups i)) \<le> ps_group P" "i < n" "0 \<le> q"
    and "q < int (length (groups i)) * (ps_block P * ps_block P)"
  shows "fold (\<lambda>i. pack_group P planes strides (int i * group_floats P) (groups i)) [0..<n] b (int i * group_floats P + q) =
    patch_value P planes strides (groups i) q"
  using assms(2,3)
proof (induction n)
  case 0
  then show ?case by simp
next
  case (Suc n)
  let ?A = "ps_block P * ps_block P" and ?G = "group_floats P"
  have A: "0 < ?A" using assms(1) by simp
  show ?case
  proof (cases "i = n")
    case True
    then show ?thesis unfolding upt_Suc_append [OF le0] fold_append using assms(4,5) by (simp add: pack_group_at [OF assms(1)])
  next
    case False
    have len: "int (length (groups i)) * ?A \<le> ?G"
      using Suc.prems A by (simp add: group_floats_def mult_right_mono)
    have G: "0 \<le> ?G" using len A order_trans [OF _ len, of 0] by simp
    have "(int i + 1) * ?G \<le> int n * ?G" using False Suc.prems G by (intro mult_right_mono) auto
    then have "int i * ?G + q < int n * ?G" using assms(5) len by (simp add: distrib_right)
    then have "pack_group P planes strides (int n * ?G) (groups n) c (int i * ?G + q) = c (int i * ?G + q)" for c
      by (simp add: pack_group_at [OF assms(1)])
    then show ?thesis unfolding upt_Suc_append [OF le0] fold_append using Suc False by simp
  qed
qed

subsection \<open>The batch of a window\<close>

text \<open>What the group kernel is documented to do: its results for \<open>k\<close> patches depend on them alone.\<close>

definition kernel_local :: "bm3d_build \<Rightarrow> bm3d_pass \<Rightarrow> bool" where
  "kernel_local B P \<longleftrightarrow>
     (\<forall>k sigma refs refs' p p'. 1 \<le> k \<longrightarrow> int k \<le> ps_group P \<longrightarrow>
        (let n = int k * (ps_block P * ps_block P); r = bb_group B (ps_block P) (ps_group P) k sigma refs p;
             r' = bb_group B (ps_block P) (ps_group P) k sigma refs' p'
         in rel_option (agree n) refs refs' \<longrightarrow> agree n p p' \<longrightarrow> agree n (fst r) (fst r') \<and> snd r = snd r'))"

lemma kernel_localD:
  assumes "kernel_local B P" "1 \<le> k" "int k \<le> ps_group P" "rel_option (agree (int k * (ps_block P * ps_block P))) refs refs'"
    and "agree (int k * (ps_block P * ps_block P)) p p'"
  shows "agree (int k * (ps_block P * ps_block P)) (fst (bb_group B (ps_block P) (ps_group P) k sigma refs p)) (fst (bb_group B (ps_block P) (ps_group P) k sigma refs' p'))"
    "snd (bb_group B (ps_block P) (ps_group P) k sigma refs p) = snd (bb_group B (ps_block P) (ps_group P) k sigma refs' p')"
  using assms unfolding kernel_local_def Let_def by blast+

text \<open>The result of a group by itself.\<close>

definition group_result :: "bm3d_build \<Rightarrow> bm3d_pass \<Rightarrow> f32 \<Rightarrow> buffer \<Rightarrow> (nat \<Rightarrow> nat) \<Rightarrow> nat \<Rightarrow> buffer \<Rightarrow> buffer \<times> f32" where
  "group_result B P sigma refs k i patches =
     bb_group B (ps_block P) (ps_group P) (k i) sigma
       (if ps_wiener P then Some (\<lambda>q. refs (int i * group_floats P + q)) else None) (\<lambda>q. patches (int i * group_floats P + q))"

lemma run_group_at:
  assumes "0 \<le> q" "q < group_floats P"
  shows "fst (run_group B P sigma refs k i (p, w)) (int j * group_floats P + q) =
      (if j = i then fst (group_result B P sigma refs k i p) q else p (int j * group_floats P + q))"
    "snd (run_group B P sigma refs k i (p, w)) = w(i := snd (group_result B P sigma refs k i p))"
proof -
  let ?G = "group_floats P"
  have run: "run_group B P sigma refs k i (p, w) =
      (map_span (int i * ?G) 0 ?G (\<lambda>q _. fst (group_result B P sigma refs k i p) q) p, w(i := snd (group_result B P sigma refs k i p)))"
    by (simp add: run_group_def group_result_def Let_def split: prod.split)
  have "int j * ?G + q < int i * ?G \<or> int i * ?G + ?G \<le> int j * ?G + q" if "j \<noteq> i"
  proof (cases "j < i")
    case True
    then have "(int j + 1) * ?G \<le> int i * ?G" using assms by (intro mult_right_mono) auto
    then show ?thesis using assms by (simp add: distrib_right)
  next
    case False
    then have "(int i + 1) * ?G \<le> int j * ?G" using assms that by (intro mult_right_mono) auto
    then show ?thesis using assms by (simp add: distrib_right)
  qed
  then show "fst (run_group B P sigma refs k i (p, w)) (int j * ?G + q) = (if j = i then fst (group_result B P sigma refs k i p) q else p (int j * ?G + q))"
    unfolding run using assms by (auto simp: map_span_def)
  show "snd (run_group B P sigma refs k i (p, w)) = w(i := snd (group_result B P sigma refs k i p))" unfolding run by simp
qed

text \<open>In any order, every group of the list is filtered as if it were alone.\<close>

lemma run_groups_at:
  assumes loc: "kernel_local B P" and b: "1 \<le> ps_block P" and "distinct is" "\<forall>i \<in> set is. 1 \<le> k i \<and> int (k i) \<le> ps_group P"
  shows "\<exists>p' w'. fold (run_group B P sigma refs k) is (p, w) = (p', w') \<and>
    (\<forall>i \<in> set is. agree (int (k i) * (ps_block P * ps_block P)) (\<lambda>q. p' (int i * group_floats P + q)) (fst (group_result B P sigma refs k i p)) \<and>
       w' i = snd (group_result B P sigma refs k i p)) \<and>
    (\<forall>i q. i \<notin> set is \<longrightarrow> 0 \<le> q \<longrightarrow> q < group_floats P \<longrightarrow> p' (int i * group_floats P + q) = p (int i * group_floats P + q)) \<and>
    (\<forall>i. i \<notin> set is \<longrightarrow> w' i = w i)"
  using assms(3,4)
proof (induction "is" arbitrary: p w)
  case Nil
  then show ?case by simp
next
  case (Cons i "is")
  let ?A = "ps_block P * ps_block P" and ?G = "group_floats P" and ?one = "\<lambda>j p. group_result B P sigma refs k j p"
  have A: "0 < ?A" using b by simp
  have fit: "int (k j) * ?A \<le> ?G" if "j \<in> set (i # is)" for j
  proof -
    have "int (k j) \<le> ps_group P" using Cons.prems(2) that by blast
    then show ?thesis using A unfolding group_floats_def by (intro mult_right_mono) auto
  qed
  obtain p1 w1 where r: "run_group B P sigma refs k i (p, w) = (p1, w1)" by fastforce
  note at = run_group_at [of _ P B sigma refs k i p w, unfolded r fst_conv snd_conv]
  obtain p' w' where f: "fold (run_group B P sigma refs k) is (p1, w1) = (p', w')"
    and done1: "\<And>j. j \<in> set is \<Longrightarrow> agree (int (k j) * ?A) (\<lambda>q. p' (int j * ?G + q)) (fst (?one j p1)) \<and> w' j = snd (?one j p1)"
    and rest: "\<And>j q. j \<notin> set is \<Longrightarrow> 0 \<le> q \<Longrightarrow> q < ?G \<Longrightarrow> p' (int j * ?G + q) = p1 (int j * ?G + q)" "\<And>j. j \<notin> set is \<Longrightarrow> w' j = w1 j"
    using Cons.IH [of p1 w1] Cons.prems by auto
  have same: "agree (int (k j) * ?A) (fst (?one j p1)) (fst (?one j p)) \<and> snd (?one j p1) = snd (?one j p)" if j: "j \<in> set is" for j
  proof -
    have "j \<noteq> i" "1 \<le> k j" "int (k j) \<le> ps_group P" using j Cons.prems by auto
    moreover have "agree (int (k j) * ?A) (\<lambda>q. p1 (int j * ?G + q)) (\<lambda>q. p (int j * ?G + q))"
      using at(1) [of _ j] fit [of j] j \<open>j \<noteq> i\<close> by (auto simp: agree_def)
    moreover have "rel_option (agree (int (k j) * ?A)) rf rf" for rf by (rule option.rel_refl) simp
    ultimately show ?thesis unfolding group_result_def using kernel_localD [OF loc] by blast
  qed
  have "0 < int (k i)" using Cons.prems(2) by force
  then have "0 < int (k i) * ?A" using A by (rule mult_pos_pos)
  then have "0 < ?G" using fit [of i] by simp
  then have w1: "w1 = w(i := snd (?one i p))" using at(2) [of 0] by simp
  have i: "i \<notin> set is" using Cons.prems by simp
  have "agree (int (k i) * ?A) (\<lambda>q. p' (int i * ?G + q)) (fst (?one i p))"
    using rest(1) [OF i] at(1) [of _ i] fit [of i] by (auto simp: agree_def)
  moreover have "agree (int (k j) * ?A) (\<lambda>q. p' (int j * ?G + q)) (fst (?one j p)) \<and> w' j = snd (?one j p)" if "j \<in> set is" for j
    using done1 [OF that] same [OF that] by (auto simp: agree_def)
  ultimately have "\<forall>j \<in> set (i # is). agree (int (k j) * ?A) (\<lambda>q. p' (int j * ?G + q)) (fst (?one j p)) \<and> w' j = snd (?one j p)"
    using rest(2) [OF i] w1 by simp
  moreover have "\<forall>j q. j \<notin> set (i # is) \<longrightarrow> 0 \<le> q \<longrightarrow> q < ?G \<longrightarrow> p' (int j * ?G + q) = p (int j * ?G + q)"
    using rest(1) at(1) by simp
  moreover have "\<forall>j. j \<notin> set (i # is) \<longrightarrow> w' j = w j" using rest(2) w1 by simp
  ultimately show ?case using f r by simp
qed

lemma batch_runs:
  assumes "1 \<le> n" "bm_allowed_block (ps_block P)" "bm_allowed_group (ps_group P)" "\<forall>i < n. 1 \<le> k i \<and> int (k i) \<le> ps_group P"
  shows "\<exists>order sts. bm3d_filter_group_batch False kernel_run hr False (map (\<lambda>i. batch_item P (k i)) [0..<n]) (int n) mem (replicate n (Some 0)) =
      (0, fold kernel_run order mem, sts) \<and> distinct order \<and> set order = {0..<n} \<and> (\<forall>i < n. sts ! i = Some 1)"
proof -
  let ?items = "map (\<lambda>i. batch_item P (k i)) [0..<n]"
  have valid: "bm3d_item_valid (?items ! i) \<and> bi_k (?items ! i) \<noteq> 0 \<and> 1 \<le> bi_block (?items ! i) \<and> (bi_wiener (?items ! i) \<longrightarrow> bi_ref_patches (?items ! i))"
    if "i < n" for i
    using that assms allowed_bounds(1) [OF assms(2)] by (auto simp: batch_item_def bm3d_item_valid_def)
  have step: "fst (fold (bm3d_batch_step ?items kernel_run) is st) = fold kernel_run is (fst st)" if "set is \<subseteq> {0..<n}" for "is" st
    using that
  proof (induction "is" arbitrary: st)
    case (Cons i "is")
    then have "fst (bm3d_batch_step ?items kernel_run i st) = kernel_run i (fst st)"
      using valid [of i] by (auto simp: bm3d_batch_step_def Let_def prod.case_eq_if)
    then show ?case using Cons by simp
  qed simp
  let ?order = "bucket_order False bm3d_item_less ?items"
  obtain rc mem' sts where res: "bm3d_filter_group_batch False kernel_run hr False ?items (int (length ?items)) mem (replicate n (Some 0)) = (rc, mem', sts)"
    by (rule prod_cases3)
  have ne: "?items \<noteq> []" "length (replicate n (Some (0::int))) = length ?items" using assms(1) by simp_all
  have "{i. i < length ?items \<and> bm3d_item_fails (?items ! i)} = {}"
    using valid by (auto simp: bm3d_item_fails_def)
  then have c: "rc = 0" "\<forall>i < n. sts ! i = Some 1"
    using bm3d_batch_contract [OF ne res] by (auto simp: status_contract_def first_failure_def)
  have "set ?order \<subseteq> {0..<n}" by simp
  then have "mem' = fold kernel_run ?order mem" using res assms(1) step [of ?order "(mem, 0, clear_statuses (replicate n (Some 0)))"]
    by (auto simp: bm3d_filter_group_batch_def Let_def prod.case_eq_if)
  then show ?thesis using res c by (intro exI [of _ ?order] exI [of _ sts]) simp
qed

subsection \<open>Committing a group\<close>

lemma aggregate_add_cong:
  assumes "0 < sd_lanes sd" "agree (block * block) p q"
  shows "aggregate_add sd stride x y p block width height w s = aggregate_add sd stride x y q block width height w s"
proof -
  let ?x0 = "max x 0" and ?y0 = "max y 0" and ?x1 = "min (x + block) width" and ?y1 = "min (y + block) height"
  have row: "unpack_row sd w (\<lambda>k. p ((yy - y) * block + (?x0 - x) + k)) (yy * stride + ?x0) (?x1 - ?x0) s =
      unpack_row sd w (\<lambda>k. q ((yy - y) * block + (?x0 - x) + k)) (yy * stride + ?x0) (?x1 - ?x0) s"
    if "yy \<in> set [?y0..?y1 - 1]" "\<not> ?x1 \<le> ?x0" for yy s
  proof -
    have same: "p ((yy - y) * block + (?x0 - x) + k) = q ((yy - y) * block + (?x0 - x) + k)" if k: "0 \<le> k" "k < ?x1 - ?x0" for k
    proof -
      have y: "0 \<le> yy - y" "yy - y \<le> block - 1" and b: "0 \<le> block" using \<open>yy \<in> set [?y0..?y1 - 1]\<close> by auto
      have "(yy - y) * block \<le> (block - 1) * block" using y b by (intro mult_right_mono) auto
      moreover have "0 \<le> (yy - y) * block" using y b by simp
      ultimately have "0 \<le> (yy - y) * block + (?x0 - x) + k" "(yy - y) * block + (?x0 - x) + k < block * block"
        using k by (auto simp: left_diff_distrib)
      then show ?thesis using assms(2) by (simp add: agree_def)
    qed
    have len: "0 \<le> ?x1 - ?x0" using that(2) by linarith
    have span: "map_span b 0 (?x1 - ?x0) (row_num sd (?x1 - ?x0) w f) = map_span b 0 (?x1 - ?x0) (row_num sd (?x1 - ?x0) w g)"
      if "\<And>k. 0 \<le> k \<Longrightarrow> k < ?x1 - ?x0 \<Longrightarrow> f k = g k" for b f g
      using that by (auto simp: map_span_def fun_eq_iff row_num_def vec_num_def tail_num_def)
    show ?thesis unfolding unpack_row_eq [OF assms(1) len] using span [OF same] by simp
  qed
  show ?thesis
  proof (cases "?x1 \<le> ?x0 \<or> ?y1 \<le> ?y0")
    case False
    then show ?thesis
      unfolding aggregate_add_def unpack_patch_def Let_def by (simp only: if_False) (rule fold_cong_set, rule row, auto)
  qed (auto simp: aggregate_add_def unpack_patch_def Let_def)
qed

lemma commit_group_cong:
  assumes "0 < sd_lanes (bb_simd B)" "1 \<le> ps_block P" "agree (int (length ms) * (ps_block P * ps_block P)) p q"
  shows "commit_group B P (Some (ms, p, w)) s = commit_group B P (Some (ms, q, w)) s"
proof -
  let ?A = "ps_block P * ps_block P"
  have "agree ?A (\<lambda>i. p (int j * ?A + i)) (\<lambda>i. q (int j * ?A + i))" if "j \<in> set [0..<length ms]" for j
  proof -
    have A: "0 < ?A" using assms(2) by simp
    have "(int j + 1) * ?A \<le> int (length ms) * ?A" using that A by (intro mult_right_mono) auto
    then show ?thesis using assms(3) A by (auto simp: agree_def distrib_right)
  qed
  from aggregate_add_cong [OF assms(1) this]
  have "fold (\<lambda>j. case ms ! j of (m, sl) \<Rightarrow> at_slice (sl * (ps_width P * ps_height P))
        (aggregate_add (bb_simd B) (ps_width P) (m_x m) (m_y m) (\<lambda>i. p (int j * ?A + i)) (ps_block P) (ps_width P) (ps_height P) w)) [0..<length ms] s =
      fold (\<lambda>j. case ms ! j of (m, sl) \<Rightarrow> at_slice (sl * (ps_width P * ps_height P))
        (aggregate_add (bb_simd B) (ps_width P) (m_x m) (m_y m) (\<lambda>i. q (int j * ?A + i)) (ps_block P) (ps_width P) (ps_height P) w)) [0..<length ms] s"
    by (intro fold_cong_set) (simp add: at_slice_def split: prod.split)
  then show ?thesis by (simp add: commit_group_def)
qed

subsection \<open>Specification: one group at a time\<close>

text \<open>The group of a reference position, by the matcher alone.\<close>

definition group_of :: "bm3d_build \<Rightarrow> bm3d_pass \<Rightarrow> (int \<Rightarrow> buffer) \<Rightarrow> (int \<Rightarrow> int) \<Rightarrow> group_job \<Rightarrow> match list" where
  "group_of B P mat strides job =
     (let t0 = ps_t0 P
      in if 0 < ps_radius P
         then predictive_match (pass_fast B P mat strides) (bb_ssd B) False (\<lambda>t. Some (mat t)) strides (ps_ntemp P) (ps_width P) (ps_height P) (gj_x job) (gj_y job)
                t0 (pass_search P)
         else spatial_match (pass_fast B P mat strides) False False (strides t0) (ps_width P) (ps_height P) (gj_x job) (gj_y job) (ps_block P) (ps_bm_range P)
                (ps_group P) (\<lambda>cx cy x y. bb_ssd B (mat t0) (strides t0) cx cy (mat t0) (strides t0) x y (ps_block P)))"

text \<open>A group filtered and added to the sums of a channel.\<close>

definition filter_group :: "bm3d_build \<Rightarrow> bm3d_pass \<Rightarrow> bm3d_channel \<Rightarrow> match list \<Rightarrow> sums \<Rightarrow> sums" where
  "filter_group B P ch ms s =
     (case fused_kernel B P of
        Some kernel_run \<Rightarrow> kernel_run P ch ms s
      | None \<Rightarrow>
          let (out, w) = bb_group B (ps_block P) (ps_group P) (length ms) (bc_sigma ch)
                (if ps_wiener P then Some (patch_value P (bc_refs ch) (bc_ref_strides ch) ms) else None) (patch_value P (bc_srcs ch) (bc_src_strides ch) ms)
          in commit_group B P (Some (map (\<lambda>m. (m, match_slice P m)) ms, out, w)) s)"

lemma group_window_exact:
  assumes n: "1 \<le> n" "begin' + n \<le> length jobs" "\<forall>i < n. gj_ordinal (jobs ! (begin' + i)) = begin' + i"
    and shape: "bm_allowed_block (ps_block P)" "bm_allowed_group (ps_group P)"
    and groups: "\<forall>i < n. groups i \<noteq> [] \<and> int (length (groups i)) \<le> ps_group P"
    and B: "kernel_local B P" "0 < sd_lanes (bb_simd B)" and none: "fused_kernel B P = None"
  shows "\<exists>pool'. group_window B P ch jobs begin' groups n pool s = Inr (pool', fold (\<lambda>i. filter_group B P ch (groups i)) [0..<n] s)"
proof -
  let ?G = "group_floats P" and ?A = "ps_block P * ps_block P" and ?k = "\<lambda>i. length (groups i)"
  let ?fill = "\<lambda>planes strides. fold (\<lambda>i. pack_group P planes strides (int i * ?G) (groups i)) [0..<n]"
  define patches where "patches = ?fill (bc_srcs ch) (bc_src_strides ch) (fst pool)"
  define refs where "refs = (if ps_wiener P then ?fill (bc_refs ch) (bc_ref_strides ch) (snd pool) else snd pool)"
  have b: "1 \<le> ps_block P" using allowed_bounds(1) [OF shape(1)] by simp
  have k: "\<forall>i < n. 1 \<le> ?k i \<and> int (?k i) \<le> ps_group P" using groups by (auto simp: Suc_le_eq)
  have len: "\<forall>i < n. int (?k i) \<le> ps_group P" using k by blast
  obtain order sts where batch: "bm3d_filter_group_batch False (run_group B P (bc_sigma ch) refs ?k) (\<lambda>mem. mem) False
      (map (\<lambda>i. batch_item P (?k i)) [0..<n]) (int n) (patches, \<lambda>_. f32_one) (replicate n (Some 0)) =
      (0, fold (run_group B P (bc_sigma ch) refs ?k) order (patches, \<lambda>_. f32_one), sts)"
    and order: "distinct order" "set order = {0..<n}" and sts: "\<forall>i < n. sts ! i = Some 1"
    using batch_runs [OF n(1) shape k, of "run_group B P (bc_sigma ch) refs ?k" "\<lambda>mem. mem" "(patches, \<lambda>_. f32_one)"]
    by (elim exE conjE) (rule that)
  have k': "\<forall>i \<in> set order. 1 \<le> ?k i \<and> int (?k i) \<le> ps_group P" using k order(2) by auto
  obtain p' w' where run: "fold (run_group B P (bc_sigma ch) refs ?k) order (patches, \<lambda>_. f32_one) = (p', w')"
    and at: "\<forall>i \<in> set order. agree (int (?k i) * ?A) (\<lambda>q. p' (int i * ?G + q)) (fst (group_result B P (bc_sigma ch) refs ?k i patches)) \<and>
       w' i = snd (group_result B P (bc_sigma ch) refs ?k i patches)"
    using run_groups_at [OF B(1) b order(1) k', of "bc_sigma ch" refs patches "\<lambda>_. f32_one"] by (elim exE conjE) (rule that)
  let ?prepare = "\<lambda>job. let i = gj_ordinal job - gj_ordinal (jobs ! begin')
      in if i \<ge> n \<or> ?k i = 0 \<or> sts ! i = Some 0 then None
         else Some (map (\<lambda>m. (m, match_slice P m)) (groups i), \<lambda>q. p' (int i * ?G + q), w' i)"
  have win: "group_window B P ch jobs begin' groups n pool s =
      Inr ((p', refs), commit_prepared_chunk jobs begin' (begin' + n) ?prepare (commit_group B P) s)"
    unfolding group_window_def Let_def patches_def [symmetric] refs_def [symmetric] batch [unfolded run] by simp
  have "[begin'..<begin' + n] = map (\<lambda>i. begin' + i) [0..<n]" by (rule nth_equalityI) simp_all
  then have "commit_prepared_chunk jobs begin' (begin' + n) ?prepare (commit_group B P) s =
      fold (\<lambda>i. commit_group B P (?prepare (jobs ! (begin' + i)))) [0..<n] s"
    using n(1,2) by (simp add: commit_prepared_chunk_def fold_map comp_def)
  also have "\<dots> = fold (\<lambda>i. filter_group B P ch (groups i)) [0..<n] s"
  proof (rule fold_cong_set)
    fix i s
    assume "i \<in> set [0..<n]"
    then have i: "i < n" by simp
    let ?ms = "groups i"
    have ord: "gj_ordinal (jobs ! (begin' + i)) - gj_ordinal (jobs ! begin') = i" using n(1,3) i by (metis add_0_right add_diff_cancel_left' not_less_eq_eq le0 less_le_trans zero_less_one order_refl)
    have "int (?k i) * ?A \<le> ?G" using len i b by (simp add: group_floats_def mult_right_mono)
    have src: "agree (int (?k i) * ?A) (\<lambda>q. patches (int i * ?G + q)) (patch_value P (bc_srcs ch) (bc_src_strides ch) ?ms)"
      using packed_at [OF b len i] unfolding patches_def agree_def by blast
    have "agree (int (?k i) * ?A) (\<lambda>q. refs (int i * ?G + q)) (patch_value P (bc_refs ch) (bc_ref_strides ch) ?ms)" if "ps_wiener P"
      using packed_at [OF b len i] that unfolding refs_def agree_def by simp
    then have ref: "rel_option (agree (int (?k i) * ?A)) (if ps_wiener P then Some (\<lambda>q. refs (int i * ?G + q)) else None)
        (if ps_wiener P then Some (patch_value P (bc_refs ch) (bc_ref_strides ch) ?ms) else None)" by simp
    obtain out w where r: "bb_group B (ps_block P) (ps_group P) (?k i) (bc_sigma ch)
        (if ps_wiener P then Some (patch_value P (bc_refs ch) (bc_ref_strides ch) ?ms) else None) (patch_value P (bc_srcs ch) (bc_src_strides ch) ?ms) = (out, w)"
      by fastforce
    have "i \<in> set order" using i order(2) by simp
    with at have a: "agree (int (?k i) * ?A) (\<lambda>q. p' (int i * ?G + q)) (fst (group_result B P (bc_sigma ch) refs ?k i patches))"
      "w' i = snd (group_result B P (bc_sigma ch) refs ?k i patches)" by blast+
    have l: "agree (int (?k i) * ?A) (fst (group_result B P (bc_sigma ch) refs ?k i patches)) out" "snd (group_result B P (bc_sigma ch) refs ?k i patches) = w"
      using kernel_localD [OF B(1) _ _ ref src, of "bc_sigma ch"] k i unfolding group_result_def r by auto
    have "?prepare (jobs ! (begin' + i)) = Some (map (\<lambda>m. (m, match_slice P m)) ?ms, \<lambda>q. p' (int i * ?G + q), w)"
      using i groups sts l(2) a(2) by (simp add: ord Let_def)
    moreover have "commit_group B P (Some (map (\<lambda>m. (m, match_slice P m)) ?ms, \<lambda>q. p' (int i * ?G + q), w)) s =
        commit_group B P (Some (map (\<lambda>m. (m, match_slice P m)) ?ms, out, w)) s"
      by (rule commit_group_cong [OF B(2) b]) (use a(1) l(1) in \<open>auto simp: agree_def\<close>)
    ultimately show "commit_group B P (?prepare (jobs ! (begin' + i))) s = filter_group B P ch ?ms s"
      by (simp only: filter_group_def none option.case r Let_def prod.case)
  qed
  finally show ?thesis using win by auto
qed

subsection \<open>Matching a window\<close>

text \<open>A vector matcher, where the target has one, returns what the generic search does.\<close>

definition fast_agrees :: "bm3d_build \<Rightarrow> bm3d_pass \<Rightarrow> (int \<Rightarrow> buffer) \<Rightarrow> (int \<Rightarrow> int) \<Rightarrow> bool" where
  "fast_agrees B P mat strides \<longleftrightarrow>
     (\<forall>kernel_run cx cy. pass_fast B P mat strides (ps_block P) (ps_group P) = Some kernel_run \<longrightarrow>
        kernel_run cx cy (max (ps_bm_range P) 0) =
          collect_spatial_coords False (ps_width P) (ps_height P) cx cy (ps_block P) (ps_bm_range P) (ps_group P)
            (\<lambda>cx cy x y. bb_ssd B (mat (ps_t0 P)) (strides (ps_t0 P)) cx cy (mat (ps_t0 P)) (strides (ps_t0 P)) x y (ps_block P)))"

definition matchable :: "bm3d_build \<Rightarrow> bm3d_pass \<Rightarrow> (int \<Rightarrow> buffer) \<Rightarrow> (int \<Rightarrow> int) \<Rightarrow> bool" where
  "matchable B P mat strides \<longleftrightarrow>
     predictive_args_ok (\<lambda>t. Some (mat t)) strides (ps_ntemp P) (ps_width P) (ps_height P) (ps_t0 P) (pass_search P) \<and> fast_agrees B P mat strides"

lemma pass_search_fields [simp]:
  "sc_block (pass_search P) = ps_block P" "sc_group (pass_search P) = ps_group P" "sc_bm_range (pass_search P) = ps_bm_range P"
  "sc_step (pass_search P) = ps_step P"
  by (simp_all add: pass_search_def bm3d_search_def)

lemma job_item_search [simp]: "item_search (pass_search P) (job_item B P job) = pass_search P"
  by (simp add: item_search_def job_item_def)

lemma job_item_fields [simp]:
  "mi_bx (job_item B P job) = gj_x job" "mi_by (job_item B P job) = gj_y job" "mi_block (job_item B P job) = ps_block P"
  "mi_bm_range (job_item B P job) = ps_bm_range P" "mi_group (job_item B P job) = ps_group P"
  by (simp_all add: job_item_def)

lemma fast_spatial:
  assumes "fast_agrees B P mat strides"
  shows "spatial_match (pass_fast B P mat strides) False False (strides (ps_t0 P)) (ps_width P) (ps_height P) bx by (ps_block P) (ps_bm_range P) (ps_group P)
      (\<lambda>cx cy x y. bb_ssd B (mat (ps_t0 P)) (strides (ps_t0 P)) cx cy (mat (ps_t0 P)) (strides (ps_t0 P)) x y (ps_block P)) =
    spatial_match (\<lambda>_ _. None) False False (strides (ps_t0 P)) (ps_width P) (ps_height P) bx by (ps_block P) (ps_bm_range P) (ps_group P)
      (\<lambda>cx cy x y. bb_ssd B (mat (ps_t0 P)) (strides (ps_t0 P)) cx cy (mat (ps_t0 P)) (strides (ps_t0 P)) x y (ps_block P))"
  using assms by (auto simp: spatial_match_def Let_def fast_agrees_def split: option.split)

lemma fast_predictive:
  assumes "fast_agrees B P mat strides"
  shows "predictive_match (pass_fast B P mat strides) (bb_ssd B) False (\<lambda>t. Some (mat t)) strides (ps_ntemp P) (ps_width P) (ps_height P) bx by (ps_t0 P) (pass_search P) =
    predictive_match (\<lambda>_ _. None) (bb_ssd B) False (\<lambda>t. Some (mat t)) strides (ps_ntemp P) (ps_width P) (ps_height P) bx by (ps_t0 P) (pass_search P)"
  unfolding predictive_match_def Let_def pass_search_fields option.sel fast_spatial [OF assms] ..

lemma group_of_facts:
  assumes "matchable B P mat strides"
  shows "group_of B P mat strides job \<noteq> []" "int (length (group_of B P mat strides job)) \<le> ps_group P" "1 \<le> ps_group P" "ps_group P \<le> kBmMaxGroup"
proof -
  have ok: "predictive_args_ok (\<lambda>t. Some (mat t)) strides (ps_ntemp P) (ps_width P) (ps_height P) (ps_t0 P) (pass_search P)"
    and fa: "fast_agrees B P mat strides" using assms by (simp_all add: matchable_def)
  show g: "1 \<le> ps_group P" "ps_group P \<le> kBmMaxGroup" using ok by (simp_all add: predictive_args_ok_def)
  have args: "spatial_args_ok (ps_width P) (ps_height P) (ps_block P) (ps_group P)" and st: "ps_width P \<le> strides (ps_t0 P)"
    using ok by (auto simp: predictive_args_ok_def spatial_args_ok_def)
  have "group_of B P mat strides job \<noteq> [] \<and> int (length (group_of B P mat strides job)) \<le> ps_group P"
  proof (cases "0 < ps_radius P")
    case True
    let ?m = "predictive_match (\<lambda>_ _. None) (bb_ssd B) False (\<lambda>t. Some (mat t)) strides (ps_ntemp P) (ps_width P) (ps_height P) (gj_x job) (gj_y job) (ps_t0 P) (pass_search P)"
    have "group_of B P mat strides job = ?m" using True by (simp add: group_of_def fast_predictive [OF fa])
    moreover have "?m \<noteq> []"
      unfolding predictive_match_valid [OF ok, of "\<lambda>_ _. None", OF refl]
      using collect_spatial_facts(1) [OF args refl] by (simp add: temporal_spec_def Let_def)
    moreover have "int (length ?m) \<le> min (mi_group (job_item B P job)) kBmMaxGroup"
      using predictive_matcher_fits [of "\<lambda>_ _. None" "bb_ssd B" "\<lambda>t. Some (mat t)" strides "ps_ntemp P" "ps_width P" "ps_height P" "ps_t0 P" "pass_search P"] g
      unfolding matcher_fits_def by (auto dest!: spec [of _ "job_item B P job"])
    ultimately show ?thesis by simp
  next
    case False
    then have "group_of B P mat strides job = collect_spatial_coords False (ps_width P) (ps_height P) (gj_x job) (gj_y job) (ps_block P) (ps_bm_range P) (ps_group P)
        (\<lambda>cx cy x y. bb_ssd B (mat (ps_t0 P)) (strides (ps_t0 P)) cx cy (mat (ps_t0 P)) (strides (ps_t0 P)) x y (ps_block P))"
      by (simp add: group_of_def Let_def fast_spatial [OF fa] spatial_match_generic [OF args st])
    then show ?thesis using collect_spatial_facts(1,4) [OF args refl] by auto
  qed
  then show "group_of B P mat strides job \<noteq> []" "int (length (group_of B P mat strides job)) \<le> ps_group P" by blast+
qed

lemma match_window_exact:
  assumes "matchable B P mat strides" "js \<noteq> []" "length js * nat kBmMaxGroup \<le> length storage"
  shows "\<exists>storage' counts. match_window B P mat strides (map (job_item B P) js) storage = (0, storage', counts) \<and>
    (\<forall>i < length js. group_matches storage' counts i = group_of B P mat strides (js ! i))"
proof -
  let ?items = "map (job_item B P) js"
  let ?run = "if 0 < ps_radius P
     then (\<lambda>item. predictive_match (pass_fast B P mat strides) (bb_ssd B) False (\<lambda>t. Some (mat t)) strides (ps_ntemp P) (ps_width P) (ps_height P) (mi_bx item) (mi_by item) (ps_t0 P)
             (item_search (pass_search P) item))
     else (\<lambda>item. spatial_match (pass_fast B P mat strides) False False (strides (ps_t0 P)) (ps_width P) (ps_height P) (mi_bx item) (mi_by item) (mi_block item) (mi_bm_range item) (mi_group item)
             (\<lambda>cx cy x y. bb_ssd B (mat (ps_t0 P)) (strides (ps_t0 P)) cx cy (mat (ps_t0 P)) (strides (ps_t0 P)) x y (mi_block item)))"
  note g = group_of_facts [OF assms(1)]
  have alone: "item_matches ?run kBmMaxGroup (job_item B P job) = group_of B P mat strides job" for job
  proof -
    have "match_capacity_valid (mi_group (job_item B P job)) kBmMaxGroup"
      using g(3,4) by (simp add: match_capacity_valid_def)
    moreover have "?run (job_item B P job) = group_of B P mat strides job"
      by (simp add: group_of_def Let_def)
    ultimately show ?thesis by (simp add: item_matches_def)
  qed
  obtain rc storage' counts where res: "match_batch_with False ?run False ?items (int (length ?items)) kBmMaxGroup storage (replicate (length ?items) 0) = (rc, storage', counts)"
    by (rule prod_cases3)
  have m: "match_window B P mat strides ?items storage = (rc, storage', counts)"
    using res unfolding match_window_def Let_def predictive_match_batch_def spatial_match_batch_def by (simp split: if_splits)
  have one: "1 \<le> kBmMaxGroup" by (simp add: kBmMaxGroup_def)
  have fits: "\<forall>item \<in> set ?items. int (length (item_matches ?run kBmMaxGroup item)) \<le> kBmMaxGroup"
    using alone g(2,4) by (auto intro: order_trans)
  have ne: "?items \<noteq> []" "length (replicate (length ?items) (0::int)) = length ?items" "length ?items * nat kBmMaxGroup \<le> length storage"
    using assms(2,3) by simp_all
  note r = match_batch_result [OF ne(1) one ne(2,3) fits res]
  have "{i. i < length ?items \<and> item_matches ?run kBmMaxGroup (?items ! i) = []} = {}" using alone g(1) by auto
  then have rc: "rc = 0" using r(1) by (simp add: first_failure_def)
  have "group_matches storage' counts i = group_of B P mat strides (js ! i)" if i: "i < length js" for i
  proof (rule nth_equalityI)
    let ?ms = "group_of B P mat strides (js ! i)"
    have c: "counts ! i = int (length ?ms)" using r(2) i alone by simp
    have "length ?ms \<le> nat kBmMaxGroup" using g(2) [of "js ! i"] g(4) by simp
    moreover have "i * nat kBmMaxGroup + nat kBmMaxGroup \<le> length js * nat kBmMaxGroup" using mult_le_mono1 [of "Suc i" "length js" "nat kBmMaxGroup"] i by simp
    ultimately have room: "i * nat kBmMaxGroup + length ?ms \<le> length storage'" using r(3) assms(3) by simp
    then show l: "length (group_matches storage' counts i) = length ?ms" by (simp add: group_matches_def c)
    fix j
    assume "j < length (group_matches storage' counts i)"
    then have j: "j < length ?ms" using l by simp
    then show "group_matches storage' counts i ! j = ?ms ! j"
      using r(4) [of i j] i alone room by (simp add: group_matches_def c)
  qed
  then show ?thesis using m rc by blast
qed

subsection \<open>The windows of a pass\<close>

lemma foldE_append: "foldE f (xs @ ys) s = bindE (foldE f xs s) (foldE f ys)"
proof (induction xs arbitrary: s)
  case (Cons x xs)
  then show ?case by (cases "f x s") simp_all
qed simp

definition same_jobs :: "group_job list \<Rightarrow> group_job list \<Rightarrow> bool" where
  "same_jobs js js' \<longleftrightarrow> length js = length js' \<and>
     (\<forall>i < length js. gj_ordinal (js ! i) = gj_ordinal (js' ! i) \<and> gj_x (js ! i) = gj_x (js' ! i) \<and> gj_y (js ! i) = gj_y (js' ! i))"

lemma with_k_fields [simp]: "gj_ordinal (with_k k job) = gj_ordinal job" "gj_x (with_k k job) = gj_x job" "gj_y (with_k k job) = gj_y job"
  by (simp_all add: with_k_def Let_def)

lemma same_jobs_with_k:
  "same_jobs js js' \<Longrightarrow> same_jobs (fold (\<lambda>i jobs. jobs[b + i := with_k (counts ! i) (jobs ! (b + i))]) is js) js'"
proof (induction "is" arbitrary: js)
  case (Cons i "is")
  have "same_jobs (js[b + i := with_k (counts ! i) (js ! (b + i))]) js'"
    unfolding same_jobs_def
  proof (intro conjI allI impI)
    fix j
    assume "j < length (js[b + i := with_k (counts ! i) (js ! (b + i))])"
    then show "gj_ordinal (js[b + i := with_k (counts ! i) (js ! (b + i))] ! j) = gj_ordinal (js' ! j)"
      "gj_x (js[b + i := with_k (counts ! i) (js ! (b + i))] ! j) = gj_x (js' ! j)"
      "gj_y (js[b + i := with_k (counts ! i) (js ! (b + i))] ! j) = gj_y (js' ! j)"
      using Cons.prems by (cases "b + i = j"; simp add: same_jobs_def)+
  qed (use Cons.prems in \<open>simp add: same_jobs_def\<close>)
  then show ?case using Cons.IH by simp
qed simp

lemma same_jobs_group: "gj_x a = gj_x b \<Longrightarrow> gj_y a = gj_y b \<Longrightarrow> group_of B P mat strides a = group_of B P mat strides b"
  by (simp add: group_of_def Let_def)

lemma pass_jobs_ordinal:
  assumes "1 \<le> ps_step P" "ps_block P \<le> ps_width P" "ps_block P \<le> ps_height P" "i < length (pass_jobs P)"
  shows "gj_ordinal (pass_jobs P ! i) = i"
  using assms(4) unfolding pass_jobs_def append_raster_jobs_nth [OF assms(1-3)] by simp

lemma channel_window_exact:
  assumes n: "1 \<le> n" "begin' + n \<le> length jobs" "\<forall>i < n. gj_ordinal (jobs ! (begin' + i)) = begin' + i"
    and shape: "bm_allowed_block (ps_block P)" "bm_allowed_group (ps_group P)"
    and groups: "\<forall>i < n. groups i \<noteq> [] \<and> int (length (groups i)) \<le> ps_group P"
    and B: "kernel_local B P" "0 < sd_lanes (bb_simd B)"
  shows "\<exists>pool'. channel_window B P ch jobs begin' groups n pool s = Inr (pool', fold (\<lambda>i. filter_group B P ch (groups i)) [0..<n] s)"
proof (cases "fused_kernel B P")
  case None
  then show ?thesis using group_window_exact [OF n shape groups B None] by (simp add: channel_window_def)
next
  case (Some f)
  have "fold (\<lambda>i s. if groups i = [] then s else f P ch (groups i) s) [0..<n] s = fold (\<lambda>i. filter_group B P ch (groups i)) [0..<n] s"
    by (rule fold_cong_set) (use groups in \<open>simp add: filter_group_def Some\<close>)
  then show ?thesis by (simp add: channel_window_def Some)
qed

text \<open>All the channels of a window.\<close>

lemma channels_exact:
  assumes "1 \<le> n" "begin' + n \<le> length jobs" "\<forall>i < n. gj_ordinal (jobs ! (begin' + i)) = begin' + i"
    and "bm_allowed_block (ps_block P)" "bm_allowed_group (ps_group P)"
    and "\<forall>i < n. groups i \<noteq> [] \<and> int (length (groups i)) \<le> ps_group P"
    and "kernel_local B P" "0 < sd_lanes (bb_simd B)" "length (pa_sums st) = length channels"
  shows "\<exists>st'. foldE (\<lambda>c st. bindE (channel_window B P (channels ! c) jobs begin' groups n (pa_pool st) (pa_sums st ! c))
        (\<lambda>(pool, s). Inr (st\<lparr>pa_pool := pool, pa_sums := (pa_sums st)[c := s]\<rparr>))) [0..<length channels] st = Inr st' \<and>
    pa_jobs st' = pa_jobs st \<and>
    pa_sums st' = map (\<lambda>c. fold (\<lambda>i. filter_group B P (channels ! c) (groups i)) [0..<n] (pa_sums st ! c)) [0..<length channels]"
proof -
  let ?f = "\<lambda>c st. bindE (channel_window B P (channels ! c) jobs begin' groups n (pa_pool st) (pa_sums st ! c))
        (\<lambda>(pool, s). Inr (st\<lparr>pa_pool := pool, pa_sums := (pa_sums st)[c := s]\<rparr>))"
  let ?new = "\<lambda>c. fold (\<lambda>i. filter_group B P (channels ! c) (groups i)) [0..<n] (pa_sums st ! c)"
  have "\<exists>st'. foldE ?f [0..<m] st = Inr st' \<and> pa_jobs st' = pa_jobs st \<and> length (pa_sums st') = length channels \<and>
      (\<forall>c < length channels. pa_sums st' ! c = (if c < m then ?new c else pa_sums st ! c))" if "m \<le> length channels" for m
    using that
  proof (induction m)
    case 0
    then show ?case using assms(9) by simp
  next
    case (Suc m)
    then obtain st1 where s: "foldE ?f [0..<m] st = Inr st1" "pa_jobs st1 = pa_jobs st" "length (pa_sums st1) = length channels"
      "\<And>c. c < length channels \<Longrightarrow> pa_sums st1 ! c = (if c < m then ?new c else pa_sums st ! c)" by auto
    obtain pool' where w: "channel_window B P (channels ! m) jobs begin' groups n (pa_pool st1) (pa_sums st1 ! m) =
        Inr (pool', fold (\<lambda>i. filter_group B P (channels ! m) (groups i)) [0..<n] (pa_sums st1 ! m))"
      using channel_window_exact [OF assms(1-8), of "channels ! m" "pa_pool st1" "pa_sums st1 ! m"] by (elim exE) (rule that)
    have "pa_sums st1 ! m = pa_sums st ! m" using s(4) [of m] Suc.prems by simp
    then have "foldE ?f [0..<Suc m] st = Inr (st1\<lparr>pa_pool := pool', pa_sums := (pa_sums st1)[m := ?new m]\<rparr>)"
      unfolding upt_Suc_append [OF le0] foldE_append s(1) using w by simp
    then show ?case using s Suc.prems by (auto simp: nth_list_update less_Suc_eq)
  qed
  then obtain st' where st': "foldE ?f [0..<length channels] st = Inr st'" "pa_jobs st' = pa_jobs st" "length (pa_sums st') = length channels"
    "\<forall>c < length channels. pa_sums st' ! c = ?new c" by fastforce
  moreover have "pa_sums st' = map ?new [0..<length channels]" by (rule nth_equalityI) (use st' in simp_all)
  ultimately show ?thesis by blast
qed

lemma pass_window_exact:
  assumes m: "matchable B P mat strides" and shape: "bm_allowed_block (ps_block P)" "bm_allowed_group (ps_group P)"
    and B: "kernel_local B P" "0 < sd_lanes (bb_simd B)"
    and st: "same_jobs (pa_jobs st) (pass_jobs P)" "length (pa_sums st) = length channels" and b: "begin' < length (pass_jobs P)"
  defines "n \<equiv> min (length (pass_jobs P) - begin') kGroupBatchWindow"
  shows "\<exists>st'. pass_window B P mat strides channels begin' st = Inr st' \<and> same_jobs (pa_jobs st') (pass_jobs P) \<and>
    pa_sums st' = map (\<lambda>c. fold (\<lambda>i. filter_group B P (channels ! c) (group_of B P mat strides (pass_jobs P ! (begin' + i)))) [0..<n] (pa_sums st ! c))
      [0..<length channels]"
proof -
  let ?jobs = "pa_jobs st" and ?js = "map (\<lambda>i. pa_jobs st ! (begin' + i)) [0..<n]"
  let ?st0 = "map (bb_storage B begin') [0..<kGroupBatchWindow * nat kBmMaxGroup]"
  have len: "length ?jobs = length (pass_jobs P)" using st(1) by (simp add: same_jobs_def)
  have n: "1 \<le> n" "begin' + n \<le> length (pass_jobs P)" "n \<le> kGroupBatchWindow" using b by (auto simp: n_def kGroupBatchWindow_def)
  have geo: "1 \<le> ps_step P" "ps_block P \<le> ps_width P" "ps_block P \<le> ps_height P"
    using m by (auto simp: matchable_def predictive_args_ok_def)
  obtain storage' counts where mw: "match_window B P mat strides (map (job_item B P) ?js) ?st0 = (0, storage', counts)"
    and gm: "\<forall>i < length ?js. group_matches storage' counts i = group_of B P mat strides (?js ! i)"
    using match_window_exact [OF m, of ?js ?st0] n by (auto intro: mult_le_mono1)
  let ?groups = "group_matches storage' counts"
  have groups: "?groups i = group_of B P mat strides (pass_jobs P ! (begin' + i))" if "i < n" for i
  proof -
    have i: "begin' + i < length ?jobs" using that n(2) len by simp
    have "?groups i = group_of B P mat strides (?jobs ! (begin' + i))" using gm that by simp
    also have "\<dots> = group_of B P mat strides (pass_jobs P ! (begin' + i))"
      by (rule same_jobs_group) (use st(1) i in \<open>simp_all add: same_jobs_def\<close>)
    finally show ?thesis .
  qed
  let ?jobs' = "fold (\<lambda>i jobs. jobs[begin' + i := with_k (counts ! i) (jobs ! (begin' + i))]) [0..<n] ?jobs"
  have same: "same_jobs ?jobs' (pass_jobs P)" by (rule same_jobs_with_k [OF st(1)])
  then have len': "length ?jobs' = length (pass_jobs P)" by (simp add: same_jobs_def)
  have ord: "\<forall>i < n. gj_ordinal (?jobs' ! (begin' + i)) = begin' + i"
    using same n(2) pass_jobs_ordinal [OF geo] unfolding same_jobs_def by auto
  have gok: "\<forall>i < n. ?groups i \<noteq> [] \<and> int (length (?groups i)) \<le> ps_group P" using groups group_of_facts(1,2) [OF m] by simp
  have room: "begin' + n \<le> length ?jobs'" using n(2) len' by simp
  have lens: "length (pa_sums (st\<lparr>pa_jobs := ?jobs'\<rparr>)) = length channels" using st(2) by simp
  obtain st' where r: "foldE (\<lambda>c st. bindE (channel_window B P (channels ! c) ?jobs' begin' ?groups n (pa_pool st) (pa_sums st ! c))
        (\<lambda>(pool, s). Inr (st\<lparr>pa_pool := pool, pa_sums := (pa_sums st)[c := s]\<rparr>))) [0..<length channels] (st\<lparr>pa_jobs := ?jobs'\<rparr>) = Inr st'"
    "pa_jobs st' = ?jobs'" "pa_sums st' = map (\<lambda>c. fold (\<lambda>i. filter_group B P (channels ! c) (?groups i)) [0..<n] (pa_sums st ! c)) [0..<length channels]"
    using channels_exact [OF n(1) room ord shape gok B lens] by auto
  have n': "min (length ?jobs - begin') kGroupBatchWindow = n" by (simp add: n_def len)
  have items: "map (\<lambda>i. job_item B P (?jobs ! (begin' + i))) [0..<n] = map (job_item B P) ?js" by simp
  have "pass_window B P mat strides channels begin' st = Inr st'"
    unfolding pass_window_def Let_def n' items mw prod.case using r(1) by simp
  moreover have "fold (\<lambda>i. filter_group B P ch (?groups i)) [0..<n] s =
      fold (\<lambda>i. filter_group B P ch (group_of B P mat strides (pass_jobs P ! (begin' + i)))) [0..<n] s" for ch s
    by (rule fold_cong_set) (simp add: groups)
  ultimately show ?thesis using r(2,3) same by auto
qed

text \<open>The specification: one group after the other, in raster order.\<close>

definition one_by_one :: "bm3d_build \<Rightarrow> bm3d_pass \<Rightarrow> (int \<Rightarrow> buffer) \<Rightarrow> (int \<Rightarrow> int) \<Rightarrow> bm3d_channel \<Rightarrow> sums" where
  "one_by_one B P mat strides ch = fold (\<lambda>job. filter_group B P ch (group_of B P mat strides job)) (pass_jobs P) zero_sums"

lemma pass_sums_exact:
  assumes m: "matchable B P mat strides" and shape: "bm_allowed_block (ps_block P)" "bm_allowed_group (ps_group P)"
    and B: "kernel_local B P" "0 < sd_lanes (bb_simd B)"
  shows "pass_sums B P mat strides channels = Inr (map (one_by_one B P mat strides) channels)"
proof -
  let ?W = kGroupBatchWindow and ?js = "pass_jobs P"
  let ?N = "length ?js"
  let ?M = "(?N + ?W - 1) div ?W"
  let ?g = "\<lambda>c i. filter_group B P (channels ! c) (group_of B P mat strides (?js ! i))"
  let ?st = "\<lparr>pa_jobs = ?js, pa_pool = (bb_pool B 0, bb_pool B 1), pa_sums = replicate (length channels) zero_sums\<rparr>"
  have W: "0 < ?W" by (simp add: kGroupBatchWindow_def)
  have M: "m * ?W < ?N" if "m < ?M" for m using that by (auto simp: kGroupBatchWindow_def)
  have "\<exists>st. foldE (pass_window B P mat strides channels) (map (\<lambda>w. w * ?W) [0..<m]) ?st = Inr st \<and> same_jobs (pa_jobs st) ?js \<and>
      pa_sums st = map (\<lambda>c. fold (?g c) [0..<min (m * ?W) ?N] zero_sums) [0..<length channels]" if "m \<le> ?M" for m
    using that
  proof (induction m)
    case 0
    have "same_jobs ?js ?js" by (simp add: same_jobs_def)
    moreover have "replicate (length channels) zero_sums = map (\<lambda>c. zero_sums) [0..<length channels]" by (rule nth_equalityI) simp_all
    ultimately show ?case by simp
  next
    case (Suc m)
    then obtain st where st: "foldE (pass_window B P mat strides channels) (map (\<lambda>w. w * ?W) [0..<m]) ?st = Inr st" "same_jobs (pa_jobs st) ?js"
      "pa_sums st = map (\<lambda>c. fold (?g c) [0..<min (m * ?W) ?N] zero_sums) [0..<length channels]" by auto
    have b: "m * ?W < ?N" using M Suc.prems by simp
    let ?n = "min (?N - m * ?W) ?W"
    have "length (pa_sums st) = length channels" by (simp add: st(3))
    from pass_window_exact [OF m shape B st(2) this b]
    obtain st' where w: "pass_window B P mat strides channels (m * ?W) st = Inr st'" "same_jobs (pa_jobs st') ?js"
      "pa_sums st' = map (\<lambda>c. fold (\<lambda>i. ?g c (m * ?W + i)) [0..<?n] (pa_sums st ! c)) [0..<length channels]" by (elim exE conjE) (rule that)
    have e: "min (Suc m * ?W) ?N = m * ?W + ?n" "min (m * ?W) ?N = m * ?W" using b W by auto
    have "fold (\<lambda>i. ?g c (m * ?W + i)) [0..<?n] (fold (?g c) [0..<m * ?W] s) = fold (?g c) [0..<m * ?W + ?n] s" for c s
    proof -
      have u: "[m * ?W..<m * ?W + ?n] = map (\<lambda>i. m * ?W + i) [0..<?n]" by (rule nth_equalityI) simp_all
      show ?thesis unfolding upt_add_eq_append [OF le0] fold_append u fold_map by (simp add: comp_def)
    qed
    then have "pa_sums st' = map (\<lambda>c. fold (?g c) [0..<min (Suc m * ?W) ?N] zero_sums) [0..<length channels]"
      unfolding w(3) st(3) e by simp
    then show ?case using st(1) w(1,2) unfolding upt_Suc_append [OF le0] map_append foldE_append by simp
  qed
  from this [OF order_refl] obtain st where st: "foldE (pass_window B P mat strides channels) (pass_begins ?N) ?st = Inr st"
    "pa_sums st = map (\<lambda>c. fold (?g c) [0..<min (?M * ?W) ?N] zero_sums) [0..<length channels]" unfolding pass_begins_def by blast
  have "?N \<le> ?M * ?W" by (simp add: kGroupBatchWindow_def)
  then have "min (?M * ?W) ?N = ?N" by simp
  moreover have "fold (?g c) [0..<?N] s = fold (\<lambda>job. filter_group B P (channels ! c) (group_of B P mat strides job)) ?js s" for c s
  proof -
    have "fold (\<lambda>job. filter_group B P (channels ! c) (group_of B P mat strides job)) (map ((!) ?js) [0..<?N]) s = fold (?g c) [0..<?N] s"
      by (simp only: fold_map comp_def)
    then show ?thesis by (simp only: map_nth)
  qed
  ultimately have "pa_sums st = map (\<lambda>c. one_by_one B P mat strides (channels ! c)) [0..<length channels]"
    unfolding st(2) one_by_one_def by simp
  also have "\<dots> = map (one_by_one B P mat strides) channels" by (rule nth_equalityI) simp_all
  finally show ?thesis using st(1) by (simp add: pass_sums_def)
qed

subsection \<open>The pass of an accepted call\<close>

text \<open>The arguments \<open>bm3dGetFrame\<close> gives the pass of a plane, those of plane 0 with chroma.\<close>

definition plane_pass :: "bm3d_params \<Rightarrow> video_info \<Rightarrow> bool \<Rightarrow> int \<Rightarrow> nat \<Rightarrow> bm3d_pass" where
  "plane_pass p vi wiener center plane =
     \<lparr>ps_ntemp = 2 * bp_radius p + 1, ps_t0 = bp_radius p, ps_width = plane_width vi (int plane), ps_height = plane_height vi (int plane),
      ps_block = bp_block p ! plane, ps_group = bp_group p ! plane, ps_step = bp_step p ! plane, ps_bm_range = bp_range p ! plane,
      ps_ps_num = bp_ps_num p ! plane, ps_ps_range = bp_ps_range p ! plane, ps_radius = bp_radius p, ps_wiener = wiener,
      ps_center = center, ps_frame_count = vi_num_frames vi\<rparr>"

lemma plane_pass_ok:
  assumes "parse_bm3d h F m vi ref_vi ns = Inr p" "1 \<le> vi_planes vi" "vi_planes vi \<le> 3" "plane < nat (vi_planes vi)"
    and "0 \<le> center" "center < vi_num_frames vi" "\<forall>t. 0 \<le> t \<and> t \<le> 2 * bp_radius p \<longrightarrow> plane_width vi (int plane) \<le> strides t"
    and "fast_agrees B (plane_pass p vi wiener center plane) mat strides"
  shows "matchable B (plane_pass p vi wiener center plane) mat strides" "bm_allowed_block (bp_block p ! plane)" "bm_allowed_group (bp_group p ! plane)"
    "pass_jobs (plane_pass p vi wiener center plane) \<noteq> []"
proof -
  let ?P = "plane_pass p vi wiener center plane"
  note ok = parse_bm3d_ok [OF assms(1-3)]
  note pl = ok(6) [OF assms(4)]
  have r: "0 \<le> bp_radius p" "bp_radius p \<le> kBmMaxRadius" by (rule ok(3), rule ok(4))
  show shape: "bm_allowed_block (bp_block p ! plane)" "bm_allowed_group (bp_group p ! plane)" using pl by (simp_all add: bm3d_plane_ok_def)
  have g: "1 \<le> bp_group p ! plane \<and> bp_group p ! plane \<le> kBmMaxGroup" "1 \<le> bp_block p ! plane"
    using shape by (auto simp: bm_allowed_group_def bm_allowed_block_def kBmMaxGroup_def)
  have "predictive_args_ok (\<lambda>t. Some (mat t)) strides (ps_ntemp ?P) (ps_width ?P) (ps_height ?P) (ps_t0 ?P) (pass_search ?P)"
    using pl r g assms(5-7)
    by (auto simp: predictive_args_ok_def pass_search_def plane_pass_def bm3d_search_def default_search_config_def bm3d_plane_ok_def)
  then show "matchable B ?P mat strides" using assms(8) by (simp add: matchable_def)
  have geo: "1 \<le> ps_step ?P" "ps_block ?P \<le> ps_width ?P" "ps_block ?P \<le> ps_height ?P"
    using pl by (simp_all add: plane_pass_def bm3d_plane_ok_def)
  show "pass_jobs ?P \<noteq> []"
    using axis_count_bounds(1) [OF geo(1,2)] axis_count_bounds(1) [OF geo(1,3)]
    unfolding pass_jobs_def append_raster_jobs_nth [OF geo] by auto
qed

text \<open>
  C15. The pass BM3D runs for arguments it accepted, at every frame of the clip and for
  every channel: it never fails, every group has between one patch and \<open>group\<close> patches, and
  the sums are those of one group after the other in raster order, each matched and filtered
  alone. Nothing of the windows, the batches and their order, the reused buffers of patches
  and the vector matchers shows in the result.
\<close>

theorem bm3d_pass_exact:
  fixes wiener :: bool
  assumes "parse_bm3d h F m vi ref_vi ns = Inr p" "1 \<le> vi_planes vi" "vi_planes vi \<le> 3" "plane < nat (vi_planes vi)"
    and "0 \<le> center" "center < vi_num_frames vi" "\<forall>t. 0 \<le> t \<and> t \<le> 2 * bp_radius p \<longrightarrow> plane_width vi (int plane) \<le> strides t"
  defines "P \<equiv> plane_pass p vi wiener center plane"
  assumes "fast_agrees B P mat strides" "kernel_local B P" "0 < sd_lanes (bb_simd B)"
  shows "process_planes_batched B P fat scratch_only mat strides channels dsts =
      Inr (map (one_by_one B P mat strides) channels,
           if scratch_only then dsts
           else map (\<lambda>c. pass_output B P fat (channels ! c) (one_by_one B P mat strides (channels ! c)) (dsts ! c)) [0..<length channels]) \<and>
    (\<forall>job \<in> set (pass_jobs P). group_of B P mat strides job \<noteq> [] \<and> int (length (group_of B P mat strides job)) \<le> bp_group p ! plane)"
proof (rule conjI)
  note ok = plane_pass_ok [OF assms(1-7) assms(9) [unfolded P_def], folded P_def]
  have shape: "bm_allowed_block (ps_block P)" "bm_allowed_group (ps_group P)" using ok(2,3) by (simp_all add: P_def plane_pass_def)
  have "ps_group P = bp_group p ! plane" by (simp add: P_def plane_pass_def)
  then show "\<forall>job \<in> set (pass_jobs P). group_of B P mat strides job \<noteq> [] \<and> int (length (group_of B P mat strides job)) \<le> bp_group p ! plane"
    using group_of_facts(1,2) [OF ok(1)] by simp
  show "process_planes_batched B P fat scratch_only mat strides channels dsts =
      Inr (map (one_by_one B P mat strides) channels,
           if scratch_only then dsts
           else map (\<lambda>c. pass_output B P fat (channels ! c) (one_by_one B P mat strides (channels ! c)) (dsts ! c)) [0..<length channels])"
    using ok(4) by (simp add: process_planes_batched_def pass_sums_exact [OF ok(1) shape assms(10,11)])
qed

text \<open>A target without vector matchers and kernels, and a filter that keeps its patches.\<close>

definition example_build :: bm3d_build where
  "example_build =
     \<lparr>bb_simd = example_simd, bb_fast = (\<lambda>_ _ _ _ _ _. None), bb_ssd = (\<lambda>_ _ _ _ _ _ _ _ _. 0), bb_features = (\<lambda>_ _ _ _. 0), bb_serves = (\<lambda>_ _. False),
      bb_fused = (\<lambda>_ _ _ s. s), bb_filter8 = (\<lambda>_ _ _ s. s), bb_direct = (\<lambda>_ _ _ s. s), bb_group = (\<lambda>_ _ _ _ _ p. (p, f32_one)),
      bb_storage = (\<lambda>_ _. self_match 0 0), bb_pool = (\<lambda>_ _. f32_zero)\<rparr>"

lemma example_build_ok: "fast_agrees example_build P mat strides" "kernel_local example_build P" "0 < sd_lanes (bb_simd example_build)"
  by (simp_all add: fast_agrees_def kernel_local_def example_build_def example_simd_def)

theorem bm3d_pass_exact_witness:
  "\<exists>p s. parse_bm3d example_helpers example_arith empty_map gray_clip None ''nss'' = Inr p \<and>
     process_planes_batched example_build (plane_pass p gray_clip False 7 0) False True (\<lambda>t i. word_of_int i) (\<lambda>_. 640) [] [] = Inr ([], s)"
proof -
  obtain p where p: "parse_bm3d example_helpers example_arith empty_map gray_clip None ''nss'' = Inr p"
    using parse_defaults by blast
  have "1 \<le> vi_planes gray_clip" "vi_planes gray_clip \<le> 3" "0 < nat (vi_planes gray_clip)" "(0::int) \<le> 7" "7 < vi_num_frames gray_clip"
    "\<forall>t. 0 \<le> t \<and> t \<le> 2 * bp_radius p \<longrightarrow> plane_width gray_clip (int 0) \<le> 640"
    by (simp_all add: gray_clip_def plane_width_def)
  from bm3d_pass_exact [OF p this example_build_ok, where mat = "\<lambda>t i. word_of_int i" and channels = "[]" and dsts = "[]" and fat = False
      and scratch_only = True and wiener = False] p show ?thesis by auto
qed

end
