(* ===== verification/Bm3d_Ring.thy ===== *)
theory Bm3d_Ring
  imports Bm3d_Pass
begin

text \<open>
  The sums of a rolling chunk of BM3D (the ring of \<open>rolling_fill_chunk_carried\<close> in
  src/host/filter_bm3d.cpp): \<open>2 r + 1\<close> slots of a numerator and a denominator plane, into
  which every center adds its slices, from which a frame is finished when its last center has
  run, and whose remaining slots are the carry for the next chunk. \<open>con c\<close> stands for the
  sums of the pass of center \<open>c\<close>.
\<close>

subsection \<open>The operations\<close>

definition slot_off :: "int \<Rightarrow> int \<Rightarrow> int \<Rightarrow> int" where
  "slot_off r sz target = target mod (2 * r + 1) * (2 * sz)"

text \<open>The slots of a carry.\<close>

definition ring_load :: "int \<Rightarrow> int \<Rightarrow> int \<Rightarrow> int \<Rightarrow> buffer \<Rightarrow> buffer \<Rightarrow> buffer" where
  "ring_load r sz start targets carry ring =
     fold (\<lambda>i. map_span (slot_off r sz (start + i)) 0 (2 * sz) (\<lambda>q _. carry (i * (2 * sz) + q))) [0..targets - 1] ring"

definition ring_add :: "farith \<Rightarrow> int \<Rightarrow> int \<Rightarrow> int \<Rightarrow> int \<Rightarrow> int \<Rightarrow> sums \<Rightarrow> buffer \<Rightarrow> buffer" where
  "ring_add F r sz frames start center s ring =
     fold (\<lambda>target ring.
       let sl = target - center + r; num = slot_off r sz target;
           ring = map_span num 0 sz (\<lambda>q old. fadd F old (fst s (sl * sz + q))) ring
       in map_span (num + sz) 0 sz (\<lambda>q old. fadd F old (snd s (sl * sz + q))) ring)
     [max start (center - r)..temporal_last center r frames] ring"

definition ring_clear :: "int \<Rightarrow> int \<Rightarrow> int \<Rightarrow> buffer \<Rightarrow> buffer" where
  "ring_clear r sz target = map_span (slot_off r sz target) 0 (2 * sz) (\<lambda>_ _. f32_zero)"

definition ring_save :: "int \<Rightarrow> int \<Rightarrow> int \<Rightarrow> int \<Rightarrow> buffer \<Rightarrow> buffer" where
  "ring_save r sz first targets ring =
     fold (\<lambda>i. map_span (i * (2 * sz)) 0 (2 * sz) (\<lambda>q _. ring (slot_off r sz (first + i) + q))) [0..targets - 1] (\<lambda>_. f32_zero)"

text \<open>The first and last center of a chunk, and the frames it leaves for the next one.\<close>

definition chunk_first :: "int \<Rightarrow> int \<Rightarrow> bool \<Rightarrow> int \<Rightarrow> int" where
  "chunk_first r frames carried start = (if carried then temporal_last (start - 1) r frames + 1 else max 0 (start - r))"

definition chunk_last :: "int \<Rightarrow> int \<Rightarrow> int \<Rightarrow> int \<Rightarrow> int" where
  "chunk_last r frames start cnt = temporal_last (start + cnt - 1) r frames"

definition carry_targets :: "int \<Rightarrow> int \<Rightarrow> int \<Rightarrow> int \<Rightarrow> int" where
  "carry_targets r frames start cnt = max 0 (min (chunk_last r frames start cnt + r) (frames - 1) - (start + cnt) + 1)"

subsection \<open>Specification\<close>

text \<open>The sums of a frame after center \<open>c\<close>: of all its centers up to \<open>c\<close>, in ascending order.\<close>

definition partial_sum :: "farith \<Rightarrow> int \<Rightarrow> int \<Rightarrow> int \<Rightarrow> (int \<Rightarrow> sums) \<Rightarrow> int \<Rightarrow> int \<Rightarrow> int \<Rightarrow> f32" where
  "partial_sum F r sz frames con target c q =
     fold (\<lambda>center acc. fadd F acc
         (if q < sz then fst (con center) ((target - center + r) * sz + q) else snd (con center) ((target - center + r) * sz + (q - sz))))
       [max 0 (target - r)..min c (temporal_last target r frames)] f32_zero"

definition full_sum :: "farith \<Rightarrow> int \<Rightarrow> int \<Rightarrow> int \<Rightarrow> (int \<Rightarrow> sums) \<Rightarrow> int \<Rightarrow> int \<Rightarrow> f32" where
  "full_sum F r sz frames con target = partial_sum F r sz frames con target (temporal_last target r frames)"

lemma partial_done: "temporal_last target r frames \<le> c \<Longrightarrow> partial_sum F r sz frames con target c = full_sum F r sz frames con target"
  by (simp add: fun_eq_iff full_sum_def partial_sum_def min_def)

lemma partial_none: "c < max 0 (target - r) \<Longrightarrow> partial_sum F r sz frames con target c q = f32_zero"
  by (simp add: partial_sum_def)

lemma partial_step:
  assumes "max 0 (target - r) \<le> c" "c \<le> temporal_last target r frames"
  shows "partial_sum F r sz frames con target c q = fadd F (partial_sum F r sz frames con target (c - 1) q)
    (if q < sz then fst (con c) ((target - c + r) * sz + q) else snd (con c) ((target - c + r) * sz + (q - sz)))"
proof -
  have "[max 0 (target - r)..c] = [max 0 (target - r)..c - 1] @ [c]" using assms(1) by (rule upto_rec2)
  then show ?thesis using assms by (simp add: partial_sum_def min_def)
qed

text \<open>The ring over \<open>2 r + 1\<close> frames from \<open>lo\<close>: those from \<open>next\<close> on hold their sums, the others are empty.\<close>

definition ring_content :: "farith \<Rightarrow> int \<Rightarrow> int \<Rightarrow> int \<Rightarrow> (int \<Rightarrow> sums) \<Rightarrow> int \<Rightarrow> int \<Rightarrow> int \<Rightarrow> int \<Rightarrow> f32" where
  "ring_content F r sz frames con nxt c target q =
     (if nxt \<le> target \<and> target < frames then partial_sum F r sz frames con target c q else f32_zero)"

definition ring_ok :: "farith \<Rightarrow> int \<Rightarrow> int \<Rightarrow> int \<Rightarrow> (int \<Rightarrow> sums) \<Rightarrow> int \<Rightarrow> int \<Rightarrow> int \<Rightarrow> buffer \<Rightarrow> bool" where
  "ring_ok F r sz frames con lo nxt c ring \<longleftrightarrow>
     (\<forall>target q. lo \<le> target \<longrightarrow> target \<le> lo + 2 * r \<longrightarrow> 0 \<le> q \<longrightarrow> q < 2 * sz \<longrightarrow>
        ring (slot_off r sz target + q) = ring_content F r sz frames con nxt c target q)"

subsection \<open>Slots do not overlap\<close>

lemma mod_window:
  fixes m :: int
  assumes "0 < m" "a mod m = b mod m" "a < b + m" "b < a + m"
  shows "a = b"
proof -
  have "m dvd a - b" using assms(2) by (simp add: mod_eq_dvd_iff)
  then obtain k where k: "a - b = m * k" by blast
  have "k < 1"
  proof (rule ccontr)
    assume "\<not> k < 1"
    then have "m * 1 \<le> m * k" using assms(1) by (intro mult_left_mono) auto
    then show False using k assms(3) by simp
  qed
  moreover have "- 1 < k"
  proof (rule ccontr)
    assume "\<not> - 1 < k"
    then have "m * k \<le> m * (- 1)" using assms(1) by (intro mult_left_mono) auto
    then show False using k assms(4) by simp
  qed
  ultimately have "k = 0" by simp
  then show ?thesis using k by simp
qed

lemma slot_write:
  assumes r: "0 \<le> r" and t: "lo \<le> t" "t \<le> lo + 2 * r" "lo \<le> t'" "t' \<le> lo + 2 * r"
    and q: "0 \<le> q" "q < 2 * sz" and ab: "0 \<le> a" "b \<le> 2 * sz"
  shows "map_span (slot_off r sz t' + e) (a - e) (b - e) g ring (slot_off r sz t + q) =
    (if t = t' \<and> a \<le> q \<and> q < b then g (q - e) (ring (slot_off r sz t + q)) else ring (slot_off r sz t + q))"
proof (cases "t = t'")
  case True
  then show ?thesis by (auto simp: map_span_def)
next
  case False
  let ?m = "2 * r + 1"
  have ne: "t mod ?m \<noteq> t' mod ?m" using mod_window [of ?m t t'] r t False by auto
  have "slot_off r sz t + q < slot_off r sz t' \<or> slot_off r sz t' + 2 * sz \<le> slot_off r sz t + q"
  proof (cases "t mod ?m < t' mod ?m")
    case True
    then have "(t mod ?m + 1) * (2 * sz) \<le> t' mod ?m * (2 * sz)" using q by (intro mult_right_mono) auto
    then show ?thesis using q unfolding slot_off_def by (simp add: distrib_right)
  next
    case False
    then have "(t' mod ?m + 1) * (2 * sz) \<le> t mod ?m * (2 * sz)" using ne q by (intro mult_right_mono) auto
    then show ?thesis using q unfolding slot_off_def by (simp add: distrib_right)
  qed
  then show ?thesis using ab False by (auto simp: map_span_def)
qed

lemmas slot_write_all = slot_write [where e = 0 and a = 0, simplified]

subsection \<open>What the operations do to the ring\<close>

lemma ring_add_at:
  assumes "0 \<le> r" "0 \<le> sz" "lo \<le> t" "t \<le> lo + 2 * r" "0 \<le> q" "q < 2 * sz"
    and "lo \<le> max start (center - r)" "temporal_last center r frames \<le> lo + 2 * r"
  shows "ring_add F r sz frames start center s ring (slot_off r sz t + q) =
    (if max start (center - r) \<le> t \<and> t \<le> temporal_last center r frames
     then fadd F (ring (slot_off r sz t + q)) (if q < sz then fst s ((t - center + r) * sz + q) else snd s ((t - center + r) * sz + (q - sz)))
     else ring (slot_off r sz t + q))"
proof -
  let ?f = "\<lambda>target ring. let sl = target - center + r; num = slot_off r sz target;
           ring = map_span num 0 sz (\<lambda>q old. fadd F old (fst s (sl * sz + q))) ring
       in map_span (num + sz) 0 sz (\<lambda>q old. fadd F old (snd s (sl * sz + q))) ring"
  have one: "?f t' ring (slot_off r sz t + q) =
      (if t = t' then fadd F (ring (slot_off r sz t + q)) (if q < sz then fst s ((t - center + r) * sz + q) else snd s ((t - center + r) * sz + (q - sz)))
       else ring (slot_off r sz t + q))" if "lo \<le> t'" "t' \<le> lo + 2 * r" for t' ring
  proof -
    have num: "map_span (slot_off r sz t') 0 sz g ring (slot_off r sz t + q) = (if t = t' \<and> q < sz then g q (ring (slot_off r sz t + q)) else ring (slot_off r sz t + q))" for g
      using slot_write [OF assms(1) assms(3,4) that assms(5,6), of 0 sz 0 g ring] assms(2,5) by simp
    have den: "map_span (slot_off r sz t' + sz) 0 sz g ring (slot_off r sz t + q) =
        (if t = t' \<and> sz \<le> q then g (q - sz) (ring (slot_off r sz t + q)) else ring (slot_off r sz t + q))" for g ring
      using slot_write [OF assms(1) assms(3,4) that assms(5,6), of sz "2 * sz" sz g ring] assms(2,6) by simp
    show ?thesis unfolding Let_def den num by auto
  qed
  have "fold ?f ts ring (slot_off r sz t + q) =
      (if t \<in> set ts then fadd F (ring (slot_off r sz t + q)) (if q < sz then fst s ((t - center + r) * sz + q) else snd s ((t - center + r) * sz + (q - sz)))
       else ring (slot_off r sz t + q))" if "distinct ts" "\<forall>t' \<in> set ts. lo \<le> t' \<and> t' \<le> lo + 2 * r" for ts
    using that
  proof (induction ts arbitrary: ring)
    case (Cons t' ts)
    then show ?case using one [of t' ring] by (auto simp del: Let_def)
  qed simp
  moreover have "\<forall>t' \<in> set [max start (center - r)..temporal_last center r frames]. lo \<le> t' \<and> t' \<le> lo + 2 * r"
    using assms(7,8) by auto
  ultimately show ?thesis by (simp add: ring_add_def)
qed

lemma ring_clear_at:
  assumes "0 \<le> r" "0 \<le> sz" "lo \<le> t" "t \<le> lo + 2 * r" "lo \<le> t'" "t' \<le> lo + 2 * r" "0 \<le> q" "q < 2 * sz"
  shows "ring_clear r sz t' ring (slot_off r sz t + q) = (if t = t' then f32_zero else ring (slot_off r sz t + q))"
  using slot_write [OF assms(1,3-8), of 0 "2 * sz" 0 "\<lambda>_ _. f32_zero" ring] assms(7,8) by (simp add: ring_clear_def)

lemma ring_load_at:
  assumes "0 \<le> r" "0 \<le> sz" "lo \<le> t" "t \<le> lo + 2 * r" "0 \<le> q" "q < 2 * sz" "lo \<le> start" "start + targets - 1 \<le> lo + 2 * r"
  shows "ring_load r sz start targets carry ring (slot_off r sz t + q) =
    (if start \<le> t \<and> t < start + targets then carry ((t - start) * (2 * sz) + q) else ring (slot_off r sz t + q))"
proof -
  have "fold (\<lambda>i. map_span (slot_off r sz (start + i)) 0 (2 * sz) (\<lambda>q _. carry (i * (2 * sz) + q))) is ring (slot_off r sz t + q) =
      (if t - start \<in> set is then carry ((t - start) * (2 * sz) + q) else ring (slot_off r sz t + q))"
    if "\<forall>i \<in> set is. 0 \<le> i \<and> i \<le> targets - 1" for "is"
    using that
  proof (induction "is" arbitrary: ring)
    case (Cons i "is")
    have b: "lo \<le> start + i" "start + i \<le> lo + 2 * r" using Cons.prems assms(7,8) by auto
    show ?case using Cons slot_write [OF assms(1,3,4) b assms(5,6), of 0 "2 * sz" 0 "\<lambda>q _. carry (i * (2 * sz) + q)" ring] assms(5,6)
      by auto
  qed simp
  from this [of "[0..targets - 1]"] show ?thesis by (auto simp: ring_load_def)
qed

lemma ring_save_at:
  assumes "0 \<le> i" "i < targets" "0 \<le> q" "q < 2 * sz"
  shows "ring_save r sz first targets ring (i * (2 * sz) + q) = ring (slot_off r sz (first + i) + q)"
proof -
  have one: "map_span (j * (2 * sz)) 0 (2 * sz) (\<lambda>q _. ring (slot_off r sz (first + j) + q)) b (i * (2 * sz) + q) =
      (if i = j then ring (slot_off r sz (first + i) + q) else b (i * (2 * sz) + q))" for j b
  proof (cases "i = j")
    case True
    then show ?thesis using assms by (simp add: map_span_def)
  next
    case False
    have "i * (2 * sz) + q < j * (2 * sz) \<or> j * (2 * sz) + 2 * sz \<le> i * (2 * sz) + q"
    proof (cases "i < j")
      case True
      then have "(i + 1) * (2 * sz) \<le> j * (2 * sz)" using assms by (intro mult_right_mono) auto
      then show ?thesis using assms by (simp add: distrib_right)
    next
      case False
      then have "(j + 1) * (2 * sz) \<le> i * (2 * sz)" using assms \<open>i \<noteq> j\<close> by (intro mult_right_mono) auto
      then show ?thesis using assms by (simp add: distrib_right)
    qed
    then show ?thesis using False by (auto simp: map_span_def)
  qed
  have "fold (\<lambda>j. map_span (j * (2 * sz)) 0 (2 * sz) (\<lambda>q _. ring (slot_off r sz (first + j) + q))) is b (i * (2 * sz) + q) =
      (if i \<in> set is then ring (slot_off r sz (first + i) + q) else b (i * (2 * sz) + q))" for "is" b
    by (induction "is" arbitrary: b) (auto simp: one)
  then show ?thesis using assms by (simp add: ring_save_def)
qed

subsection \<open>The invariant\<close>

lemma ring_okD:
  "ring_ok F r sz frames con lo nxt c ring \<Longrightarrow> lo \<le> t \<Longrightarrow> t \<le> lo + 2 * r \<Longrightarrow> 0 \<le> q \<Longrightarrow> q < 2 * sz \<Longrightarrow>
    ring (slot_off r sz t + q) = ring_content F r sz frames con nxt c t q"
  by (simp add: ring_ok_def)

text \<open>A chunk that starts afresh.\<close>

lemma ring_fresh:
  assumes "0 \<le> r"
  shows "ring_ok F r sz frames con (max 0 (start - r) - r) start (max 0 (start - r) - 1) (\<lambda>_. f32_zero)"
  using assms by (auto simp: ring_ok_def ring_content_def intro!: partial_none [symmetric])

text \<open>The carry of a chunk whose last center was \<open>c\<close>.\<close>

definition carry_ok :: "farith \<Rightarrow> int \<Rightarrow> int \<Rightarrow> int \<Rightarrow> (int \<Rightarrow> sums) \<Rightarrow> int \<Rightarrow> int \<Rightarrow> int \<Rightarrow> buffer \<Rightarrow> bool" where
  "carry_ok F r sz frames con start targets c carry \<longleftrightarrow>
     targets = max 0 (min (c + r) (frames - 1) - start + 1) \<and>
     (\<forall>i q. 0 \<le> i \<longrightarrow> i < targets \<longrightarrow> 0 \<le> q \<longrightarrow> q < 2 * sz \<longrightarrow> carry (i * (2 * sz) + q) = partial_sum F r sz frames con (start + i) c q)"

lemma ring_carried:
  assumes "0 \<le> r" "0 \<le> sz" "start - 1 \<le> c" "c \<le> start - 1 + r" "carry_ok F r sz frames con start targets c carry"
  shows "ring_ok F r sz frames con (c + 1 - r) start c (ring_load r sz start targets carry (\<lambda>_. f32_zero))"
  unfolding ring_ok_def
proof (intro allI impI)
  fix t q :: int
  assume t: "c + 1 - r \<le> t" "t \<le> c + 1 - r + 2 * r" and q: "0 \<le> q" "q < 2 * sz"
  have targets: "targets = max 0 (min (c + r) (frames - 1) - start + 1)"
    and carry: "\<And>i. 0 \<le> i \<Longrightarrow> i < targets \<Longrightarrow> carry (i * (2 * sz) + q) = partial_sum F r sz frames con (start + i) c q"
    using assms(5) q by (simp_all add: carry_ok_def)
  have b: "c + 1 - r \<le> start" "start + targets - 1 \<le> c + 1 - r + 2 * r" using assms(1,3,4) targets by auto
  note at = ring_load_at [OF assms(1,2) t q b, of carry "\<lambda>_. f32_zero"]
  show "ring_load r sz start targets carry (\<lambda>_. f32_zero) (slot_off r sz t + q) = ring_content F r sz frames con start c t q"
  proof (cases "start \<le> t \<and> t < start + targets")
    case True
    then show ?thesis using at carry [of "t - start"] targets by (auto simp: ring_content_def)
  next
    case False
    then have "start \<le> t \<Longrightarrow> t < frames \<Longrightarrow> c < t - r" using targets t by auto
    then show ?thesis using at False by (auto simp: ring_content_def intro!: partial_none [symmetric])
  qed
qed

text \<open>A center: the frames finished so far had their last center before it.\<close>

lemma ring_center:
  assumes "0 \<le> r" "0 \<le> sz" "0 \<le> c" "c < frames" "start \<le> nxt" "\<And>t. start \<le> t \<Longrightarrow> t < nxt \<Longrightarrow> temporal_last t r frames < c"
    and ok: "ring_ok F r sz frames con (c - r) nxt (c - 1) ring"
  shows "ring_ok F r sz frames con (c - r) nxt c (ring_add F r sz frames start c (con c) ring)"
  unfolding ring_ok_def
proof (intro allI impI)
  fix t q :: int
  assume t: "c - r \<le> t" "t \<le> c - r + 2 * r" and q: "0 \<le> q" "q < 2 * sz"
  have last: "temporal_last c r frames = min (c + r) (frames - 1)" using assms by (simp add: temporal_last_def min_def)
  have b: "c - r \<le> max start (c - r)" "temporal_last c r frames \<le> c - r + 2 * r" unfolding last by auto
  note at = ring_add_at [OF assms(1,2) t q b, of F "con c" ring]
  note old = ring_okD [OF ok t q]
  show "ring_add F r sz frames start c (con c) ring (slot_off r sz t + q) = ring_content F r sz frames con nxt c t q"
  proof (cases "max start (c - r) \<le> t \<and> t \<le> temporal_last c r frames")
    case True
    then have tf: "start \<le> t" "t < frames" and tl: "c \<le> temporal_last t r frames"
      using assms(4) last t by (auto simp: temporal_last_def min_def split: if_splits)
    then have n: "nxt \<le> t" using assms(6) [of t] by fastforce
    have "max 0 (t - r) \<le> c" using t assms(3) by simp
    from partial_step [OF this tl] show ?thesis using at True old n tf by (simp add: ring_content_def)
  next
    case False
    then have "t < start \<or> frames \<le> t" using t last by auto
    then have "\<not> (nxt \<le> t \<and> t < frames)" using assms(5) by auto
    then show ?thesis using at False old by (auto simp: ring_content_def)
  qed
qed

text \<open>Finishing a frame, and moving on to the next center.\<close>

lemma ring_finish:
  assumes "0 \<le> r" "0 \<le> sz" "lo \<le> nxt" "nxt \<le> lo + 2 * r" "ring_ok F r sz frames con lo nxt c ring"
  shows "ring_ok F r sz frames con lo (nxt + 1) c (ring_clear r sz nxt ring)"
    "nxt < frames \<Longrightarrow> temporal_last nxt r frames \<le> c \<Longrightarrow> 0 \<le> q \<Longrightarrow> q < 2 * sz \<Longrightarrow> ring (slot_off r sz nxt + q) = full_sum F r sz frames con nxt q"
proof -
  show "ring_ok F r sz frames con lo (nxt + 1) c (ring_clear r sz nxt ring)"
    unfolding ring_ok_def using ring_clear_at [OF assms(1,2) _ _ assms(3,4)] ring_okD [OF assms(5)] by (auto simp: ring_content_def)
  assume "nxt < frames" "temporal_last nxt r frames \<le> c" "0 \<le> q" "q < 2 * sz"
  then show "ring (slot_off r sz nxt + q) = full_sum F r sz frames con nxt q"
    using ring_okD [OF assms(5,3,4)] by (simp add: ring_content_def partial_done)
qed

lemma ring_shift:
  assumes "0 \<le> r" "c - r < nxt" "ring_ok F r sz frames con (c - r) nxt c ring"
  shows "ring_ok F r sz frames con (c + 1 - r) nxt c ring"
  unfolding ring_ok_def
proof (intro allI impI)
  fix t q :: int
  assume t: "c + 1 - r \<le> t" "t \<le> c + 1 - r + 2 * r" and q: "0 \<le> q" "q < 2 * sz"
  show "ring (slot_off r sz t + q) = ring_content F r sz frames con nxt c t q"
  proof (cases "t = c + 1 + r")
    case True
    have "(c - r + (2 * r + 1) * 1) mod (2 * r + 1) = (c - r) mod (2 * r + 1)" by (rule mod_mult_self2)
    moreover have "t = c - r + (2 * r + 1) * 1" using True by simp
    ultimately have "slot_off r sz t = slot_off r sz (c - r)" by (simp only: slot_off_def)
    moreover have "ring (slot_off r sz (c - r) + q) = f32_zero"
      using ring_okD [OF assms(3) _ _ q, of "c - r"] assms(1,2) by (simp add: ring_content_def)
    moreover have "c < max 0 (t - r)" using True by simp
    then have "ring_content F r sz frames con nxt c t q = f32_zero" by (simp add: ring_content_def partial_none)
    ultimately show ?thesis by simp
  next
    case False
    then show ?thesis using ring_okD [OF assms(3) _ _ q] t by simp
  qed
qed

text \<open>What a chunk leaves.\<close>

lemma ring_carry:
  assumes "ring_ok F r sz frames con (c + 1 - r) nxt c ring" "c + 1 - r \<le> nxt"
    and "targets = max 0 (min (c + r) (frames - 1) - nxt + 1)"
  shows "carry_ok F r sz frames con nxt targets c (ring_save r sz nxt targets ring)"
  unfolding carry_ok_def
proof (intro conjI allI impI)
  fix i q :: int
  assume i: "0 \<le> i" "i < targets" and q: "0 \<le> q" "q < 2 * sz"
  have t: "c + 1 - r \<le> nxt + i" "nxt + i \<le> c + 1 - r + 2 * r" "nxt + i < frames" using i assms(2,3) by auto
  show "ring_save r sz nxt targets ring (i * (2 * sz) + q) = partial_sum F r sz frames con (nxt + i) c q"
    using ring_save_at [OF i q, of r nxt ring] ring_okD [OF assms(1) t(1,2) q] t(3) i by (simp add: ring_content_def)
qed (rule assms(3))

end
