(* ===== verification/Bm3d_Rolling.thy ===== *)
theory Bm3d_Rolling
  imports Bm3d_Ring Vaggregate_Filter
begin

text \<open>
  Filling a chunk of the rolling BM3D (\<open>rolling_fill_chunk\<close> and its two forms in
  src/host/filter_bm3d.cpp, as the default build compiles it): the frames of the chunk are
  computed from passes over the centers of their windows, with the ring of sums, from the
  carry of the chunk before when there is one. Node 0 is the clip, node 1 the reference. The
  frames a fill holds are those of its own scope, which is destroyed when it ends; here they
  are in the scope of the callback, which holds none at that point.
\<close>

subsection \<open>Data\<close>

record rolling_plane =
  rp_data :: buffer
  rp_width :: int
  rp_height :: int

record rolling_chunk =
  rs_start :: int
  rs_count :: int
  rs_frames :: "int \<Rightarrow> int \<Rightarrow> rolling_plane"

record rolling_carry =
  rc_start :: int
  rc_targets :: int
  rc_sums :: "int \<Rightarrow> buffer"

definition rolling_store_plane :: "buffer \<Rightarrow> int \<Rightarrow> int \<Rightarrow> int \<Rightarrow> rolling_plane" where
  "rolling_store_plane src w h stride = \<lparr>rp_data = copy_rows w h w stride src (\<lambda>_. f32_zero), rp_width = w, rp_height = h\<rparr>"

definition rolling_write_plane :: "int \<Rightarrow> rolling_plane \<Rightarrow> buffer \<Rightarrow> buffer" where
  "rolling_write_plane dstride plane = copy_rows (rp_width plane) (rp_height plane) dstride (rp_width plane) (rp_data plane)"

definition set_plane :: "int \<Rightarrow> int \<Rightarrow> rolling_plane \<Rightarrow> rolling_chunk \<Rightarrow> rolling_chunk" where
  "set_plane n plane v chunk = chunk\<lparr>rs_frames := (rs_frames chunk)(n := (rs_frames chunk n)(plane := v))\<rparr>"

text \<open>
  What a fill works on: the parameters, the clip, whether there is a reference, the planes it
  reads, those it filters (the channels) and the plane it matches on.
\<close>

record rolling_job =
  rj_params :: bm3d_params
  rj_vi :: video_info
  rj_ref :: bool
  rj_read :: "int list"
  rj_active :: "int list"
  rj_match :: int

abbreviation rj_r :: "rolling_job \<Rightarrow> int" where "rj_r J \<equiv> bp_radius (rj_params J)"
abbreviation rj_frames :: "rolling_job \<Rightarrow> int" where "rj_frames J \<equiv> vi_num_frames (rj_vi J)"
abbreviation rj_width :: "rolling_job \<Rightarrow> int" where "rj_width J \<equiv> plane_width (rj_vi J) (rj_match J)"
abbreviation rj_height :: "rolling_job \<Rightarrow> int" where "rj_height J \<equiv> plane_height (rj_vi J) (rj_match J)"
abbreviation rj_size :: "rolling_job \<Rightarrow> int" where "rj_size J \<equiv> rj_width J * rj_height J"

subsection \<open>Finishing frames\<close>

function finish_loop :: "int \<Rightarrow> int \<Rightarrow> int \<Rightarrow> int \<Rightarrow> (int \<Rightarrow> 'r \<Rightarrow> (callback, 'r) act) \<Rightarrow> int \<Rightarrow> 'r \<Rightarrow> (callback, int \<times> 'r) act" where
  "finish_loop r frames stop center body nxt st =
     (if nxt < stop \<and> temporal_last nxt r frames \<le> center
      then bind_act (body nxt st) (finish_loop r frames stop center body (nxt + 1)) else return_act (nxt, st))"
  by pat_completeness auto
termination
  by (relation "measure (\<lambda>(r, frames, stop, center, body, nxt, st). nat (stop - nxt))") auto

declare finish_loop.simps [simp del]

definition channel_index :: "int list \<Rightarrow> int \<Rightarrow> nat" where
  "channel_index active plane = length (takeWhile (\<lambda>q. q \<noteq> plane) active)"

type_synonym rings = "nat \<Rightarrow> buffer"

definition finish_plane_act :: "host \<Rightarrow> bm3d_build \<Rightarrow> rolling_job \<Rightarrow> int \<Rightarrow> int \<Rightarrow> nat \<Rightarrow> int \<Rightarrow> rings \<times> rolling_chunk \<Rightarrow> (callback, rings \<times> rolling_chunk) act" where
  "finish_plane_act H B J start nxt frame plane st =
     (case st of (rings, chunk) \<Rightarrow>
        bind_act (plane_of frame plane) (\<lambda>src.
        bind_act (float_stride frame plane) (\<lambda>stride.
        bind_act (reserve_act H (nat (rj_size J))) (\<lambda>_.
          let w = rj_width J; h = rj_height J; c = channel_index (rj_active J) plane
          in if c = length (rj_active J) then return_act (rings, set_plane (nxt - start) plane (rolling_store_plane src w h stride) chunk)
             else
               let num = slot_off (rj_r J) (rj_size J) nxt;
                   out = aggregate_finish (bb_simd B) (\<lambda>_. f32_zero) (\<lambda>i. rings c (num + i)) (\<lambda>i. rings c (num + rj_size J + i)) src w h w w stride
               in return_act (rings(c := ring_clear (rj_r J) (rj_size J) nxt (rings c)),
                    set_plane (nxt - start) plane \<lparr>rp_data = out, rp_width = w, rp_height = h\<rparr> chunk)))))"

definition finish_frame_act :: "host \<Rightarrow> bm3d_build \<Rightarrow> rolling_job \<Rightarrow> int \<Rightarrow> int \<Rightarrow> rings \<times> rolling_chunk \<Rightarrow> (callback, rings \<times> rolling_chunk) act" where
  "finish_frame_act H B J start nxt st =
     bind_act (get_frame H 0 nxt) (\<lambda>frame.
     bind_act (fold_act (finish_plane_act H B J start nxt frame) (rj_read J) st) (\<lambda>st.
     bind_act (free_act frame) (\<lambda>_. return_act st)))"

definition finish_act :: "host \<Rightarrow> bm3d_build \<Rightarrow> rolling_job \<Rightarrow> int \<Rightarrow> int \<Rightarrow> int \<Rightarrow> int \<times> rings \<times> rolling_chunk \<Rightarrow> (callback, int \<times> rings \<times> rolling_chunk) act" where
  "finish_act H B J start cnt center st =
     (case st of (nxt, rest) \<Rightarrow> finish_loop (rj_r J) (rj_frames J) (start + cnt) center (finish_frame_act H B J start) nxt rest)"

subsection \<open>The pass of a center\<close>

text \<open>A slot of the window: the frame and its reference, with the planes of both.\<close>

type_synonym window_slot = "nat \<times> nat \<times> ((buffer \<times> int) \<times> (buffer \<times> int)) list"

definition slot_act :: "host \<Rightarrow> rolling_job \<Rightarrow> int \<Rightarrow> int \<Rightarrow> (callback, window_slot) act" where
  "slot_act H J center t =
     (let fn = temporal_slot_frame center t (rj_r J) (rj_frames J)
      in bind_act (get_frame H 0 fn) (\<lambda>sf.
         bind_act (get_frame H (if rj_ref J then 1 else 0) fn) (\<lambda>rf.
         bind_act (map_act (\<lambda>plane.
           bind_act (plane_of sf plane) (\<lambda>sp. bind_act (plane_of rf plane) (\<lambda>rp.
           bind_act (float_stride sf plane) (\<lambda>ss. bind_act (float_stride rf plane) (\<lambda>rs. return_act ((sp, ss), (rp, rs))))))) (rj_read J)) (\<lambda>planes.
         return_act (sf, rf, planes)))))"

definition slot_plane :: "rolling_job \<Rightarrow> window_slot list \<Rightarrow> int \<Rightarrow> int \<Rightarrow> (buffer \<times> int) \<times> (buffer \<times> int)" where
  "slot_plane J slots' plane t = snd (snd (slots' ! nat t)) ! channel_index (rj_read J) plane"

definition window_channel :: "rolling_job \<Rightarrow> window_slot list \<Rightarrow> int \<Rightarrow> bm3d_channel" where
  "window_channel J slots' plane =
     \<lparr>bc_srcs = (\<lambda>t. fst (fst (slot_plane J slots' plane t))), bc_src_strides = (\<lambda>t. snd (fst (slot_plane J slots' plane t))),
      bc_refs = (\<lambda>t. fst (snd (slot_plane J slots' plane t))), bc_ref_strides = (\<lambda>t. snd (snd (slot_plane J slots' plane t))),
      bc_dstride = rj_width J, bc_fat_stride = rj_width J, bc_sigma = bp_sigma (rj_params J) ! nat plane\<rparr>"

definition center_pass :: "rolling_job \<Rightarrow> int \<Rightarrow> bm3d_pass" where
  "center_pass J center = plane_pass (rj_params J) (rj_vi J) (rj_ref J) center (nat (rj_match J))"

text \<open>The scratch of the pass holds its sums; they are added to the ring of each channel.\<close>

definition center_act :: "host \<Rightarrow> bm3d_build \<Rightarrow> rolling_job \<Rightarrow> int \<Rightarrow> int \<Rightarrow> rings \<Rightarrow> (callback, rings) act" where
  "center_act H B J start center rings =
     bind_act (map_act (slot_act H J center) [0..2 * rj_r J]) (\<lambda>slots'.
     let mat = window_channel J slots' (rj_match J); channels = map (window_channel J slots') (rj_active J)
     in bind_act (lift_res (process_planes_batched B (center_pass J center) True True (bc_refs mat) (bc_ref_strides mat) channels [])) (\<lambda>(ss, _).
        bind_act (for_act (\<lambda>(sf, rf, _). bind_act (free_act sf) (\<lambda>_. free_act rf)) slots') (\<lambda>_.
        return_act (\<lambda>c. if c < length channels
                         then ring_add (sd_scalar (bb_simd B)) (rj_r J) (rj_size J) (rj_frames J) start center (ss ! c) (rings c) else rings c))))"

subsection \<open>A chunk\<close>

text \<open>
  The planes of a job from \<open>start\<close> on: \<open>from\<close> gives the sums of the channels in the carry
  and their number of frames; \<open>last_finish\<close> is the final call of the chroma form.
\<close>

definition fill_job_act :: "host \<Rightarrow> bm3d_build \<Rightarrow> rolling_job \<Rightarrow> bool \<Rightarrow> int \<Rightarrow> int \<Rightarrow> (int \<times> (nat \<Rightarrow> buffer)) option \<Rightarrow> rolling_chunk \<Rightarrow>
    (callback, rings \<times> rolling_chunk) act" where
  "fill_job_act H B J last_finish start cnt from' chunk =
     (let r = rj_r J; frames = rj_frames J; sz = rj_size J; nch = length (rj_active J);
          from' = (if nch = 0 then None else from');
          first = chunk_first r frames (from' \<noteq> None) start; last = chunk_last r frames start cnt;
          rings = (\<lambda>c. case from' of None \<Rightarrow> (\<lambda>_. f32_zero) | Some (targets, sums) \<Rightarrow> ring_load r sz start targets (sums c) (\<lambda>_. f32_zero))
      in bind_act (reserve_act H (nch * nat (2 * r + 1) * 2 * nat sz)) (\<lambda>_.
         bind_act (finish_act H B J start cnt (first - 1) (start, rings, chunk)) (\<lambda>st.
         bind_act (if nch = 0 then return_act 0 else scratch_floats H (nch * nat (2 * r + 1) * 2 * nat sz)) (\<lambda>_.
         bind_act (fold_act (\<lambda>center (nxt, rings, chunk).
             bind_act (center_act H B J start center rings) (\<lambda>rings. finish_act H B J start cnt center (nxt, rings, chunk)))
           (if nch = 0 then [] else [first..last]) st) (\<lambda>st.
         bind_act (if last_finish then finish_act H B J start cnt last st else return_act st) (\<lambda>(_, rings, chunk). return_act (rings, chunk)))))))"

definition save_carry_act :: "host \<Rightarrow> rolling_job \<Rightarrow> int \<Rightarrow> int \<Rightarrow> buffer \<Rightarrow> (callback, buffer) act" where
  "save_carry_act H J first targets ring =
     bind_act (reserve_act H (nat (targets * 2 * rj_size J))) (\<lambda>_. return_act (ring_save (rj_r J) (rj_size J) first targets ring))"

text \<open>A plane that is not filtered.\<close>

definition store_frames_act :: "host \<Rightarrow> video_info \<Rightarrow> int \<Rightarrow> int \<Rightarrow> int \<Rightarrow> rolling_chunk \<Rightarrow> (callback, rolling_chunk) act" where
  "store_frames_act H vi plane start cnt chunk =
     (let w = plane_width vi plane; h = plane_height vi plane
      in fold_act (\<lambda>i chunk.
        bind_act (get_frame H 0 (start + i)) (\<lambda>frame.
        bind_act (plane_of frame plane) (\<lambda>src.
        bind_act (float_stride frame plane) (\<lambda>stride.
        bind_act (reserve_act H (nat (w * h))) (\<lambda>_.
        bind_act (free_act frame) (\<lambda>_. return_act (set_plane i plane (rolling_store_plane src w h stride) chunk))))))) [0..cnt - 1] chunk)"

definition plane_job :: "bm3d_params \<Rightarrow> video_info \<Rightarrow> bool \<Rightarrow> int \<Rightarrow> rolling_job" where
  "plane_job p vi ref plane = \<lparr>rj_params = p, rj_vi = vi, rj_ref = ref, rj_read = [plane], rj_active = [plane], rj_match = plane\<rparr>"

definition chroma_job :: "bm3d_params \<Rightarrow> video_info \<Rightarrow> bool \<Rightarrow> rolling_job" where
  "chroma_job p vi ref =
     \<lparr>rj_params = p, rj_vi = vi, rj_ref = ref, rj_read = [0, 1, 2],
      rj_active = filter (\<lambda>plane. \<not> f32_eq (bp_sigma p ! nat plane) f32_zero) [0, 1, 2], rj_match = 0\<rparr>"

definition fill_chunk_carried :: "host \<Rightarrow> bm3d_build \<Rightarrow> bm3d_params \<Rightarrow> video_info \<Rightarrow> bool \<Rightarrow> int \<Rightarrow> int \<Rightarrow> rolling_carry option \<Rightarrow> rolling_chunk \<Rightarrow>
    (callback, rolling_chunk \<times> rolling_carry option) act" where
  "fill_chunk_carried H B p vi ref start cnt from' chunk =
     (let targets = carry_targets (bp_radius p) (vi_num_frames vi) start cnt
      in bind_act (fold_act (\<lambda>plane (chunk, sums).
           if f32_eq (bp_sigma p ! nat plane) f32_zero
           then bind_act (store_frames_act H vi plane start cnt chunk) (\<lambda>chunk. return_act (chunk, sums))
           else bind_act (fill_job_act H B (plane_job p vi ref plane) False start cnt
                    (map_option (\<lambda>f. (rc_targets f, \<lambda>_. rc_sums f plane)) from') chunk) (\<lambda>(rings, chunk).
                if 0 < targets
                then bind_act (save_carry_act H (plane_job p vi ref plane) (start + cnt) targets (rings 0)) (\<lambda>saved. return_act (chunk, sums(plane := saved)))
                else return_act (chunk, sums)))
           [0..vi_planes vi - 1] (chunk, \<lambda>_ _. f32_zero)) (\<lambda>(chunk, sums).
         return_act (chunk, if 0 < targets then Some \<lparr>rc_start = start + cnt, rc_targets = targets, rc_sums = sums\<rparr> else None)))"

definition fill_chunk_chroma :: "host \<Rightarrow> bm3d_build \<Rightarrow> bm3d_params \<Rightarrow> video_info \<Rightarrow> bool \<Rightarrow> int \<Rightarrow> int \<Rightarrow> rolling_carry option \<Rightarrow> rolling_chunk \<Rightarrow>
    (callback, rolling_chunk \<times> rolling_carry option) act" where
  "fill_chunk_chroma H B p vi ref start cnt from' chunk =
     (let J = chroma_job p vi ref; nch = length (rj_active J);
          targets = (if nch = 0 then 0 else carry_targets (bp_radius p) (vi_num_frames vi) start cnt)
      in bind_act (fill_job_act H B J True start cnt (map_option (\<lambda>f. (rc_targets f, \<lambda>c. rc_sums f (int c))) from') chunk) (\<lambda>(rings, chunk).
         if 0 < targets
         then bind_act (fold_act (\<lambda>c sums. bind_act (save_carry_act H J (start + cnt) targets (rings c)) (\<lambda>saved. return_act (sums(int c := saved))))
                [0..<nch] (\<lambda>_ _. f32_zero)) (\<lambda>sums.
              return_act (chunk, Some \<lparr>rc_start = start + cnt, rc_targets = targets, rc_sums = sums\<rparr>))
         else return_act (chunk, None)))"

definition empty_chunk :: "int \<Rightarrow> int \<Rightarrow> rolling_chunk" where
  "empty_chunk start cnt = \<lparr>rs_start = start, rs_count = cnt, rs_frames = (\<lambda>_ _. \<lparr>rp_data = (\<lambda>_. f32_zero), rp_width = 0, rp_height = 0\<rparr>)\<rparr>"

definition rolling_fill_chunk :: "host \<Rightarrow> bm3d_build \<Rightarrow> bm3d_params \<Rightarrow> video_info \<Rightarrow> bool \<Rightarrow> int \<Rightarrow> int \<Rightarrow> rolling_carry option \<Rightarrow>
    (callback, rolling_chunk \<times> rolling_carry option) act" where
  "rolling_fill_chunk H B p vi ref start cnt from' =
     (if bp_chroma p then fill_chunk_chroma H B p vi ref start cnt from' (empty_chunk start cnt)
      else fill_chunk_carried H B p vi ref start cnt from' (empty_chunk start cnt))"

subsection \<open>Steps that leave the frames alone\<close>

abbreviation holds :: "host \<Rightarrow> (nat \<Rightarrow> vs_frame) \<Rightarrow> nat multiset \<Rightarrow> callback \<Rightarrow> bool" where
  "holds H frames M s \<equiv> owns H M s \<and> cb_frames s = frames"

lemma bind_hold:
  assumes "outcome P m (\<lambda>v s. R v \<and> P' v s) E" "\<And>v. R v \<Longrightarrow> outcome (P' v) (f v) Q E"
  shows "outcome P (bind_act m f) Q E"
  by (rule outcome_bind [OF assms(1)]) (rule outcome_pure, rule assms(2))

lemma get_hold:
  "host_ok H \<Longrightarrow> outcome (holds H frames M) (get_frame H node n)
    (\<lambda>f s. (f = ho_source H node n \<and> f \<noteq> 0 \<and> f \<noteq> ho_fresh H) \<and> holds H frames (add_mset f M) s) (failed H)"
  by (rule outcome_weaken [OF get_frame_step [where K = "\<lambda>fr. fr = frames"]]) auto

lemma plane_hold: "outcome (holds H frames M) (plane_of f plane) (\<lambda>b s. b = vf_plane (frames f) plane \<and> holds H frames M s) (failed H)"
  by (rule outcome_weaken [OF plane_of_step [where K = "\<lambda>fr. fr = frames"]]) auto

lemma stride_hold:
  assumes "has_format vi (frames f)" "0 \<le> plane" "plane < vi_planes vi"
  shows "outcome (holds H frames M) (float_stride f plane)
    (\<lambda>v s. (v = vf_stride (frames f) plane div 4 \<and> plane_width vi plane \<le> v) \<and> holds H frames M s) (failed H)"
  by (rule outcome_weaken [OF float_stride_step [where K = "\<lambda>fr. fr = frames", OF _ assms(2,3)]]) (use assms(1) in auto)

lemma reserve_hold: "host_ok H \<Longrightarrow> outcome (holds H frames M) (reserve_act H n) (\<lambda>_. holds H frames M) (failed H)"
  unfolding reserve_act_def
  by (rule outcome_lift) (auto simp: host_ok_def owns_def failed_def generous_def split: option.splits)

lemma scratch_hold: "host_ok H \<Longrightarrow> outcome (holds H frames M) (scratch_floats H n) (\<lambda>_. holds H frames M) (failed H)"
  by (rule outcome_weaken [OF scratch_step [where K = "\<lambda>fr. fr = frames"]]) auto

lemma free_hold: "f \<in># M \<Longrightarrow> outcome (holds H frames M) (free_act f) (\<lambda>_. holds H frames (M - {#f#})) (failed H)"
  by (rule free_act_step [where K = "\<lambda>fr. fr = frames"])

subsection \<open>The window of a center\<close>

definition source_plane :: "(nat \<Rightarrow> vs_frame) \<Rightarrow> nat \<Rightarrow> int \<Rightarrow> buffer \<times> int" where
  "source_plane frames f plane = (vf_plane (frames f) plane, vf_stride (frames f) plane div 4)"

definition slot_of :: "host \<Rightarrow> (nat \<Rightarrow> vs_frame) \<Rightarrow> rolling_job \<Rightarrow> int \<Rightarrow> int \<Rightarrow> window_slot" where
  "slot_of H frames J center t =
     (let fn = temporal_slot_frame center t (rj_r J) (rj_frames J); sf = ho_source H 0 fn; rf = ho_source H (if rj_ref J then 1 else 0) fn
      in (sf, rf, map (\<lambda>plane. (source_plane frames sf plane, source_plane frames rf plane)) (rj_read J)))"

definition window_of :: "host \<Rightarrow> (nat \<Rightarrow> vs_frame) \<Rightarrow> rolling_job \<Rightarrow> int \<Rightarrow> window_slot list" where
  "window_of H frames J center = map (slot_of H frames J center) [0..2 * rj_r J]"

text \<open>The sums of the pass of a center, as specified: one group after the other.\<close>

definition center_sums :: "host \<Rightarrow> (nat \<Rightarrow> vs_frame) \<Rightarrow> bm3d_build \<Rightarrow> rolling_job \<Rightarrow> int \<Rightarrow> int \<Rightarrow> sums" where
  "center_sums H frames B J plane center =
     (let w = window_of H frames J center; mat = window_channel J w (rj_match J)
      in one_by_one B (center_pass J center) (bc_refs mat) (bc_ref_strides mat) (window_channel J w plane))"

text \<open>The frames a fill may use: those of the clip and of the reference, in the format of the clip.\<close>

definition clips_formatted :: "host \<Rightarrow> (nat \<Rightarrow> vs_frame) \<Rightarrow> video_info \<Rightarrow> bool \<Rightarrow> bool" where
  "clips_formatted H frames vi ref \<longleftrightarrow>
     (\<forall>n. 0 \<le> n \<and> n < vi_num_frames vi \<longrightarrow> has_format vi (frames (ho_source H 0 n)) \<and> (ref \<longrightarrow> has_format vi (frames (ho_source H 1 n))))"

definition job_ok :: "host \<Rightarrow> (nat \<Rightarrow> vs_frame) \<Rightarrow> bm3d_build \<Rightarrow> rolling_job \<Rightarrow> bool" where
  "job_ok H frames B J \<longleftrightarrow>
     host_ok H \<and> 0 < sd_lanes (bb_simd B) \<and> clips_formatted H frames (rj_vi J) (rj_ref J) \<and> 0 \<le> rj_r J \<and> 0 \<le> rj_width J \<and> 0 \<le> rj_height J \<and>
     distinct (rj_active J) \<and> distinct (rj_read J) \<and> set (rj_active J) \<subseteq> set (rj_read J) \<and>
     (\<forall>plane \<in> set (rj_read J). 0 \<le> plane \<and> plane < vi_planes (rj_vi J) \<and>
        plane_width (rj_vi J) plane = rj_width J \<and> plane_height (rj_vi J) plane = rj_height J) \<and>
     (\<forall>center. 0 \<le> center \<and> center < rj_frames J \<and> rj_active J \<noteq> [] \<longrightarrow>
        (let P = center_pass J center; mat = window_channel J (window_of H frames J center) (rj_match J)
         in matchable B P (bc_refs mat) (bc_ref_strides mat) \<and> bm_allowed_block (ps_block P) \<and> bm_allowed_group (ps_group P) \<and> kernel_local B P))"

lemma slot_frame_inside:
  "0 \<le> center \<Longrightarrow> center < frames \<Longrightarrow> 0 \<le> temporal_slot_frame center t r frames \<and> temporal_slot_frame center t r frames < frames"
  by (auto simp: temporal_slot_frame_def cclamp_def)

definition slot_frames :: "window_slot list \<Rightarrow> nat list" where
  "slot_frames slots' = concat (map (\<lambda>(sf, rf, _). [sf, rf]) slots')"

lemma slot_frames_append [simp]: "slot_frames (vs @ ws) = slot_frames vs @ slot_frames ws"
  by (simp add: slot_frames_def)

lemma slot_step:
  assumes "job_ok H frames B J" "0 \<le> center" "center < rj_frames J"
  shows "outcome (holds H frames M) (slot_act H J center t)
    (\<lambda>v s. v = slot_of H frames J center t \<and> holds H frames (M + mset (slot_frames [v])) s) (failed H)"
proof -
  let ?fn = "temporal_slot_frame center t (rj_r J) (rj_frames J)"
  let ?sf = "ho_source H 0 ?fn" and ?rf = "ho_source H (if rj_ref J then 1 else 0) ?fn"
  have H: "host_ok H" using assms(1) by (simp add: job_ok_def)
  have fm: "has_format (rj_vi J) (frames ?sf)" "has_format (rj_vi J) (frames ?rf)"
    using assms(1) slot_frame_inside [OF assms(2,3), of t "rj_r J"] by (auto simp: job_ok_def clips_formatted_def)
  have planes: "0 \<le> plane \<and> plane < vi_planes (rj_vi J)" if "plane \<in> set (rj_read J)" for plane
    using assms(1) that by (simp add: job_ok_def)
  let ?M = "add_mset ?rf (add_mset ?sf M)" and ?g = "\<lambda>plane. (source_plane frames ?sf plane, source_plane frames ?rf plane)"
  let ?read = "\<lambda>plane. bind_act (plane_of ?sf plane) (\<lambda>sp. bind_act (plane_of ?rf plane) (\<lambda>rp.
           bind_act (float_stride ?sf plane) (\<lambda>ss. bind_act (float_stride ?rf plane) (\<lambda>rs. return_act ((sp, ss), (rp, rs))))))"
  have one: "outcome (holds H frames ?M) (?read plane) (\<lambda>v s. v = ?g plane \<and> holds H frames ?M s) (failed H)" if "plane \<in> set (rj_read J)" for plane
    by (rule bind_hold [OF plane_hold], rule bind_hold [OF plane_hold], rule bind_hold [OF stride_hold [where vi = "rj_vi J"]],
        (rule fm planes [OF that, THEN conjunct1] planes [OF that, THEN conjunct2])+,
        rule bind_hold [OF stride_hold [where vi = "rj_vi J"]],
        (rule fm planes [OF that, THEN conjunct1] planes [OF that, THEN conjunct2])+, rule outcome_return) (auto simp: source_plane_def)
  have all: "outcome (holds H frames ?M) (map_act ?read (rj_read J)) (\<lambda>vs s. vs = map ?g (rj_read J) \<and> holds H frames ?M s) (failed H)"
  proof (rule outcome_weaken [OF outcome_map [where I = "\<lambda>xs vs s. vs = map ?g xs \<and> holds H frames ?M s" and f = ?read]])
    fix xs0 x xs1 vs
    assume x: "rj_read J = xs0 @ x # xs1"
    show "outcome (\<lambda>s. vs = map ?g xs0 \<and> holds H frames ?M s) (?read x) (\<lambda>v s. vs @ [v] = map ?g (xs0 @ [x]) \<and> holds H frames ?M s) (failed H)"
      by (rule outcome_pure, rule outcome_weaken [OF one]) (auto simp: x)
  qed auto
  show ?thesis
    unfolding slot_act_def Let_def
  proof (rule bind_hold [OF get_hold [OF H]], elim conjE, hypsubst, rule bind_hold [OF get_hold [OF H]], elim conjE, hypsubst, rule bind_hold [OF all], rule outcome_return)
    fix planes s
    assume "planes = map ?g (rj_read J)" "holds H frames ?M s"
    moreover have "M + mset (slot_frames [(a, b, planes)]) = add_mset b (add_mset a M)" for a b
      by (simp add: slot_frames_def add_mset_commute)
    ultimately show "(?sf, ?rf, planes) = slot_of H frames J center t \<and> holds H frames (M + mset (slot_frames [(?sf, ?rf, planes)])) s"
      by (simp only: slot_of_def Let_def)
  qed
qed

lemma window_of_step:
  assumes "job_ok H frames B J" "0 \<le> center" "center < rj_frames J"
  shows "outcome (holds H frames M) (map_act (slot_act H J center) [0..2 * rj_r J])
    (\<lambda>vs s. vs = window_of H frames J center \<and> holds H frames (M + mset (slot_frames vs)) s) (failed H)"
proof -
  let ?I = "\<lambda>xs vs s. vs = map (slot_of H frames J center) xs \<and> holds H frames (M + mset (slot_frames vs)) s"
  have "outcome (?I [] []) (map_act (slot_act H J center) [0..2 * rj_r J]) (\<lambda>vs s. length vs = length [0..2 * rj_r J] \<and> ?I [0..2 * rj_r J] vs s) (failed H)"
  proof (rule outcome_map)
    fix xs0 x xs1 vs
    show "outcome (?I xs0 vs) (slot_act H J center x) (\<lambda>v. ?I (xs0 @ [x]) (vs @ [v])) (failed H)"
      by (rule outcome_pure, rule outcome_weaken [OF slot_step [OF assms, where M = "M + mset (slot_frames vs)"]]) (auto simp: add.assoc)
  qed
  then show ?thesis by (rule outcome_weaken) (simp_all add: window_of_def slot_frames_def)
qed

lemma free_slots_step:
  "outcome (holds H frames (M + mset (slot_frames vs))) (for_act (\<lambda>(sf, rf, _). bind_act (free_act sf) (\<lambda>_. free_act rf)) vs)
    (\<lambda>_. holds H frames M) (failed H)"
proof (induction vs)
  case Nil
  then show ?case by (simp add: outcome_return slot_frames_def)
next
  case (Cons v vs)
  obtain sf rf ps where v: "v = (sf, rf, ps)" by (cases v)
  have m: "sf \<in># M + mset (slot_frames (v # vs))" "rf \<in># M + mset (slot_frames (v # vs)) - {#sf#}"
    "M + mset (slot_frames (v # vs)) - {#sf#} - {#rf#} = M + mset (slot_frames vs)" by (simp_all add: v slot_frames_def)
  have "outcome (holds H frames (M + mset (slot_frames (v # vs)))) (bind_act (free_act sf) (\<lambda>_. free_act rf))
      (\<lambda>_. holds H frames (M + mset (slot_frames vs))) (failed H)"
    by (rule outcome_bind [OF free_hold [OF m(1)]]) (use free_hold [OF m(2)] m(3) in simp)
  then show ?case unfolding for_act.simps using Cons by (intro outcome_bind [where R = "\<lambda>_. holds H frames (M + mset (slot_frames vs))"]) (simp_all add: v)
qed

lemma center_step:
  assumes J: "job_ok H frames B J" and c: "0 \<le> center" "center < rj_frames J" and active: "rj_active J \<noteq> []"
  shows "outcome (holds H frames M) (center_act H B J start center rings)
    (\<lambda>v s. v = (\<lambda>c. if c < length (rj_active J)
         then ring_add (sd_scalar (bb_simd B)) (rj_r J) (rj_size J) (rj_frames J) start center (center_sums H frames B J (rj_active J ! c) center) (rings c)
         else rings c) \<and> holds H frames M s) (failed H)"
proof -
  let ?w = "window_of H frames J center" and ?P = "center_pass J center"
  let ?mat = "window_channel J ?w (rj_match J)"
  have ok: "matchable B ?P (bc_refs ?mat) (bc_ref_strides ?mat)" "bm_allowed_block (ps_block ?P)" "bm_allowed_group (ps_group ?P)" "kernel_local B ?P"
    "0 < sd_lanes (bb_simd B)" using J c active by (simp_all add: job_ok_def Let_def)
  have pass: "process_planes_batched B ?P True True (bc_refs ?mat) (bc_ref_strides ?mat) (map (window_channel J ?w) (rj_active J)) [] =
      Inr (map (\<lambda>plane. center_sums H frames B J plane center) (rj_active J), [])"
    by (simp add: process_planes_batched_def pass_sums_exact [OF ok] center_sums_def Let_def comp_def)
  show ?thesis
    unfolding center_act_def Let_def
  proof (rule bind_hold [OF window_of_step [OF J c]], hypsubst)
    show "outcome (holds H frames (M + mset (slot_frames ?w)))
      (bind_act (lift_res (process_planes_batched B ?P True True (bc_refs ?mat) (bc_ref_strides ?mat) (map (window_channel J ?w) (rj_active J)) [])) (\<lambda>(ss, _).
        bind_act (for_act (\<lambda>(sf, rf, _). bind_act (free_act sf) (\<lambda>_. free_act rf)) ?w) (\<lambda>_.
        return_act (\<lambda>c. if c < length (map (window_channel J ?w) (rj_active J))
                         then ring_add (sd_scalar (bb_simd B)) (rj_r J) (rj_size J) (rj_frames J) start center (ss ! c) (rings c) else rings c))))
      (\<lambda>v s. v = (\<lambda>c. if c < length (rj_active J)
         then ring_add (sd_scalar (bb_simd B)) (rj_r J) (rj_size J) (rj_frames J) start center (center_sums H frames B J (rj_active J ! c) center) (rings c)
         else rings c) \<and> holds H frames M s) (failed H)"
      unfolding pass
      by (rule bind_hold [where R = "\<lambda>v. v = (map (\<lambda>plane. center_sums H frames B J plane center) (rj_active J), [])" and
            P' = "\<lambda>_. holds H frames (M + mset (slot_frames ?w))"], rule outcome_lift, simp, simp, simp,
          rule outcome_bind [OF free_slots_step], rule outcome_return) (auto simp: fun_eq_iff)
  qed
qed

subsection \<open>Finishing a frame\<close>

lemma aggregate_finish_cong:
  assumes "0 < sd_lanes sd" "0 \<le> w" "agree (w * h) num num'" "agree (w * h) den den'"
  shows "aggregate_finish sd dst num den src w h w w sstride = aggregate_finish sd dst num' den' src w h w w sstride"
proof -
  have at: "num (y * w + k) = num' (y * w + k) \<and> den (y * w + k) = den' (y * w + k)" if "y \<in> set [0..h - 1]" "0 \<le> k" "k < w" for y k
  proof -
    have "y * w + w \<le> w * h" using mult_right_mono [of "y + 1" h w] that assms(2) by (simp add: algebra_simps)
    moreover have "0 \<le> y * w" using that assms(2) by simp
    ultimately show ?thesis using assms(3,4) that by (simp add: agree_def)
  qed
  have row: "finish_row l base w v t b = finish_row l base w v' t' b"
    if "0 < l" "\<And>k. 0 \<le> k \<Longrightarrow> k < w \<Longrightarrow> v k = v' k \<and> t k = t' k" for l base v t v' t' b
    using that assms(2) by (auto simp: finish_row_eq map_span_def fun_eq_iff)
  show ?thesis
    unfolding aggregate_finish_def Let_def by (rule fold_cong_set, rule row [OF assms(1)]) (simp add: at pixel_quotient_def)
qed

definition filtered_plane :: "host \<Rightarrow> (nat \<Rightarrow> vs_frame) \<Rightarrow> bm3d_build \<Rightarrow> rolling_job \<Rightarrow> int \<Rightarrow> int \<Rightarrow> rolling_plane" where
  "filtered_plane H frames B J plane n =
     (let (src, stride) = source_plane frames (ho_source H 0 n) plane; w = rj_width J; h = rj_height J;
          sums = full_sum (sd_scalar (bb_simd B)) (rj_r J) (rj_size J) (rj_frames J) (center_sums H frames B J plane) n
      in \<lparr>rp_data = aggregate_finish (bb_simd B) (\<lambda>_. f32_zero) sums (\<lambda>i. sums (rj_size J + i)) src w h w w stride, rp_width = w, rp_height = h\<rparr>)"

text \<open>A plane of a frame of the chunk: filtered, or the source.\<close>

definition job_plane :: "host \<Rightarrow> (nat \<Rightarrow> vs_frame) \<Rightarrow> bm3d_build \<Rightarrow> rolling_job \<Rightarrow> int \<Rightarrow> int \<Rightarrow> rolling_plane" where
  "job_plane H frames B J plane n =
     (if plane \<in> set (rj_active J) then filtered_plane H frames B J plane n
      else let (src, stride) = source_plane frames (ho_source H 0 n) plane in rolling_store_plane src (rj_width J) (rj_height J) stride)"

lemma channel_index_in:
  "plane \<in> set active \<Longrightarrow> channel_index active plane < length active \<and> active ! channel_index active plane = plane"
  unfolding channel_index_def
proof (induction active)
  case (Cons a active)
  then show ?case by (cases "a = plane") auto
qed simp

lemma channel_index_out: "plane \<notin> set active \<Longrightarrow> channel_index active plane = length active"
  unfolding channel_index_def by (induction active) auto

lemma set_plane_at:
  "rs_frames (set_plane n plane v chunk) n' plane' = (if n' = n \<and> plane' = plane then v else rs_frames chunk n' plane')"
  "rs_start (set_plane n plane v chunk) = rs_start chunk" "rs_count (set_plane n plane v chunk) = rs_count chunk"
  by (simp_all add: set_plane_def)

definition rings_ok :: "host \<Rightarrow> (nat \<Rightarrow> vs_frame) \<Rightarrow> bm3d_build \<Rightarrow> rolling_job \<Rightarrow> int \<Rightarrow> int \<Rightarrow> int \<Rightarrow> rings \<Rightarrow> bool" where
  "rings_ok H frames B J lo nxt center rings \<longleftrightarrow>
     (\<forall>c < length (rj_active J). ring_ok (sd_scalar (bb_simd B)) (rj_r J) (rj_size J) (rj_frames J)
        (center_sums H frames B J (rj_active J ! c)) lo nxt center (rings c))"

text \<open>The planes \<open>xs\<close> of the frame \<open>nxt\<close> are done.\<close>

definition planes_done :: "host \<Rightarrow> (nat \<Rightarrow> vs_frame) \<Rightarrow> bm3d_build \<Rightarrow> rolling_job \<Rightarrow> int \<Rightarrow> int \<Rightarrow> rings \<Rightarrow> rolling_chunk \<Rightarrow> int list \<Rightarrow> rings \<times> rolling_chunk \<Rightarrow> bool" where
  "planes_done H frames B J start nxt rings chunk xs st \<longleftrightarrow>
     fst st = (\<lambda>c. if c < length (rj_active J) \<and> rj_active J ! c \<in> set xs then ring_clear (rj_r J) (rj_size J) nxt (rings c) else rings c) \<and>
     (\<forall>n plane. rs_frames (snd st) n plane = (if n = nxt - start \<and> plane \<in> set xs then job_plane H frames B J plane nxt else rs_frames chunk n plane)) \<and>
     rs_start (snd st) = rs_start chunk \<and> rs_count (snd st) = rs_count chunk"

lemma finish_plane_step:
  assumes J: "job_ok H frames B J" and nxt: "0 \<le> nxt" "nxt < rj_frames J" "temporal_last nxt (rj_r J) (rj_frames J) \<le> center"
    and near: "rj_active J \<noteq> [] \<Longrightarrow> lo \<le> nxt" "rj_active J \<noteq> [] \<Longrightarrow> nxt \<le> lo + 2 * rj_r J"
    and ring: "rings_ok H frames B J lo nxt center rings" and plane: "plane \<in> set (rj_read J)" "plane \<notin> set xs"
    and st: "planes_done H frames B J start nxt rings chunk xs st"
  shows "outcome (holds H frames M) (finish_plane_act H B J start nxt (ho_source H 0 nxt) plane st)
    (\<lambda>st' s. planes_done H frames B J start nxt rings chunk (xs @ [plane]) st' \<and> holds H frames M s) (failed H)"
proof -
  let ?f = "ho_source H 0 nxt" and ?r = "rj_r J" and ?sz = "rj_size J" and ?w = "rj_width J" and ?h = "rj_height J" and ?sd = "bb_simd B"
  obtain rings' chunk' where s: "st = (rings', chunk')" by (cases st)
  have H: "host_ok H" and lanes: "0 < sd_lanes ?sd" and r: "0 \<le> ?r" "0 \<le> ?w" "0 \<le> ?h" and dist: "distinct (rj_active J)"
    using J by (simp_all add: job_ok_def)
  have sz: "0 \<le> ?sz" using r by simp
  have pl: "0 \<le> plane" "plane < vi_planes (rj_vi J)" using J plane(1) by (auto simp: job_ok_def)
  have fm: "has_format (rj_vi J) (frames ?f)" using J nxt by (simp add: job_ok_def clips_formatted_def)
  let ?src = "vf_plane (frames ?f) plane" and ?stride = "vf_stride (frames ?f) plane div 4"
  let ?c = "channel_index (rj_active J) plane" and ?num = "slot_off ?r ?sz nxt"
  let ?out = "aggregate_finish ?sd (\<lambda>_. f32_zero) (\<lambda>i. rings' ?c (?num + i)) (\<lambda>i. rings' ?c (?num + ?sz + i)) ?src ?w ?h ?w ?w ?stride"
  have act: "outcome (holds H frames M) (finish_plane_act H B J start nxt ?f plane st)
      (\<lambda>st' s. st' = (if ?c = length (rj_active J) then (rings', set_plane (nxt - start) plane (rolling_store_plane ?src ?w ?h ?stride) chunk')
          else (rings'(?c := ring_clear ?r ?sz nxt (rings' ?c)), set_plane (nxt - start) plane \<lparr>rp_data = ?out, rp_width = ?w, rp_height = ?h\<rparr> chunk')) \<and>
        holds H frames M s) (failed H)"
    unfolding finish_plane_act_def s prod.case Let_def
    by (rule bind_hold [OF plane_hold], rule bind_hold [OF stride_hold [where vi = "rj_vi J"]], (rule fm pl)+, rule outcome_bind [OF reserve_hold [OF H]])
      (auto intro!: outcome_return)
  have done1: "planes_done H frames B J start nxt rings chunk (xs @ [plane])
      (if ?c = length (rj_active J) then (rings', set_plane (nxt - start) plane (rolling_store_plane ?src ?w ?h ?stride) chunk')
          else (rings'(?c := ring_clear ?r ?sz nxt (rings' ?c)), set_plane (nxt - start) plane \<lparr>rp_data = ?out, rp_width = ?w, rp_height = ?h\<rparr> chunk'))"
  proof (cases "plane \<in> set (rj_active J)")
    case False
    have "job_plane H frames B J plane nxt = rolling_store_plane ?src ?w ?h ?stride" using False by (simp add: job_plane_def source_plane_def)
    moreover have "rj_active J ! c \<noteq> plane" if "c < length (rj_active J)" for c using that False by (metis nth_mem)
    ultimately show ?thesis using st channel_index_out [OF False] unfolding s by (auto simp: planes_done_def set_plane_at fun_eq_iff)
  next
    case True
    note c = channel_index_in [OF True]
    have same: "rings' ?c = rings ?c" using st c plane(2) unfolding s by (simp add: planes_done_def)
    have rok: "ring_ok (sd_scalar ?sd) ?r ?sz (rj_frames J) (center_sums H frames B J plane) lo nxt center (rings ?c)"
      using ring c unfolding rings_ok_def by metis
    let ?full = "full_sum (sd_scalar ?sd) ?r ?sz (rj_frames J) (center_sums H frames B J plane) nxt"
    have act: "rj_active J \<noteq> []" using True by auto
    note fin = ring_finish(2) [OF r(1) sz near(1) [OF act] near(2) [OF act] rok nxt(2,3)]
    have lower: "rings ?c (?num + ?sz + i) = ?full (?sz + i)" if "0 \<le> i" "i < ?sz" for i
    proof -
      have "0 \<le> ?sz + i" "?sz + i < 2 * ?sz" using that sz by linarith+
      from fin [OF this] show ?thesis by (simp only: add.assoc)
    qed
    have upper: "rings ?c (?num + i) = ?full i" if "0 \<le> i" "i < ?sz" for i using fin [OF that(1)] that sz by linarith
    have "agree (?w * ?h) (\<lambda>i. rings ?c (?num + i)) ?full" "agree (?w * ?h) (\<lambda>i. rings ?c (?num + ?sz + i)) (\<lambda>i. ?full (?sz + i))"
      unfolding agree_def using lower upper by blast+
    from aggregate_finish_cong [OF lanes r(2) this]
    have out: "job_plane H frames B J plane nxt = \<lparr>rp_data = ?out, rp_width = ?w, rp_height = ?h\<rparr>"
      unfolding same using True by (simp add: job_plane_def filtered_plane_def source_plane_def Let_def)
    have idx: "c' = ?c" if "c' < length (rj_active J)" "rj_active J ! c' = plane" for c'
      using that c nth_eq_iff_index_eq [OF dist] by metis
    define k where "k = ?c"
    have k: "k < length (rj_active J)" "rj_active J ! k = plane" "\<And>c'. c' < length (rj_active J) \<Longrightarrow> rj_active J ! c' = plane \<Longrightarrow> c' = k"
      using c idx by (simp_all add: k_def)
    note st' = st [unfolded s planes_done_def fst_conv snd_conv]
    have R: "rings' = (\<lambda>c. if c < length (rj_active J) \<and> rj_active J ! c \<in> set xs then ring_clear ?r ?sz nxt (rings c) else rings c)"
      and Fr: "\<And>n q. rs_frames chunk' n q = (if n = nxt - start \<and> q \<in> set xs then job_plane H frames B J q nxt else rs_frames chunk n q)"
      and hd: "rs_start chunk' = rs_start chunk" "rs_count chunk' = rs_count chunk"
      by (rule st' [THEN conjunct1], rule st' [THEN conjunct2, THEN conjunct1, rule_format],
          rule st' [THEN conjunct2, THEN conjunct2, THEN conjunct1], rule st' [THEN conjunct2, THEN conjunct2, THEN conjunct2])
    have 1: "(rings'(k := ring_clear ?r ?sz nxt (rings k))) c' =
        (if c' < length (rj_active J) \<and> rj_active J ! c' \<in> set (xs @ [plane]) then ring_clear ?r ?sz nxt (rings c') else rings c')" for c'
    proof (cases "c' = k")
      case True
      then show ?thesis using k(1,2) by simp
    next
      case False
      then have "c' < length (rj_active J) \<Longrightarrow> rj_active J ! c' \<noteq> plane" using k(3) by blast
      then show ?thesis using False unfolding R by auto
    qed
    have 2: "planes_done H frames B J start nxt rings chunk (xs @ [plane])
        (rings'(k := ring_clear ?r ?sz nxt (rings k)), set_plane (nxt - start) plane (job_plane H frames B J plane nxt) chunk')"
      unfolding planes_done_def fst_conv snd_conv set_plane_at hd by (intro conjI allI refl, rule ext, rule 1) (auto simp: Fr)
    show ?thesis using 2 k(1) c(1) unfolding out same k_def by (simp only: less_imp_neq if_False)
  qed
  show ?thesis by (rule outcome_weaken [OF act]) (use done1 in auto)
qed

lemma finish_frame_step:
  assumes J: "job_ok H frames B J" and nxt: "0 \<le> nxt" "nxt < rj_frames J" "temporal_last nxt (rj_r J) (rj_frames J) \<le> center"
    and near: "rj_active J \<noteq> [] \<Longrightarrow> lo \<le> nxt" "rj_active J \<noteq> [] \<Longrightarrow> nxt \<le> lo + 2 * rj_r J"
    and ring: "rings_ok H frames B J lo nxt center rings"
  shows "outcome (holds H frames M) (finish_frame_act H B J start nxt (rings, chunk))
    (\<lambda>st s. planes_done H frames B J start nxt rings chunk (rj_read J) st \<and> holds H frames M s) (failed H)"
proof -
  let ?f = "ho_source H 0 nxt"
  have H: "host_ok H" and dist: "distinct (rj_read J)" using J by (simp_all add: job_ok_def)
  have planes: "outcome (holds H frames (add_mset ?f M)) (fold_act (finish_plane_act H B J start nxt ?f) (rj_read J) (rings, chunk))
      (\<lambda>st s. planes_done H frames B J start nxt rings chunk (rj_read J) st \<and> holds H frames (add_mset ?f M) s) (failed H)"
  proof (rule outcome_weaken [OF outcome_fold [where I = "\<lambda>xs st s. planes_done H frames B J start nxt rings chunk xs st \<and> holds H frames (add_mset ?f M) s"]])
    fix xs0 x xs1 st
    assume x: "rj_read J = xs0 @ x # xs1"
    show "outcome (\<lambda>s. planes_done H frames B J start nxt rings chunk xs0 st \<and> holds H frames (add_mset ?f M) s) (finish_plane_act H B J start nxt ?f x st)
        (\<lambda>st' s. planes_done H frames B J start nxt rings chunk (xs0 @ [x]) st' \<and> holds H frames (add_mset ?f M) s) (failed H)"
      by (rule outcome_pure, rule finish_plane_step [OF J nxt near ring]) (use x dist in auto)
  qed (auto simp: planes_done_def)
  show ?thesis
    unfolding finish_frame_act_def
    by (rule bind_hold [OF get_hold [OF H]], elim conjE, hypsubst, rule bind_hold [OF planes], rule outcome_bind [OF free_hold])
      (auto intro!: outcome_return)
qed

lemma planes_done_rings:
  assumes J: "job_ok H frames B J" and near: "rj_active J \<noteq> [] \<Longrightarrow> lo \<le> nxt" "rj_active J \<noteq> [] \<Longrightarrow> nxt \<le> lo + 2 * rj_r J"
    and ring: "rings_ok H frames B J lo nxt center rings"
    and st: "planes_done H frames B J start nxt rings chunk (rj_read J) st"
  shows "rings_ok H frames B J lo (nxt + 1) center (fst st)"
proof -
  have r: "0 \<le> rj_r J" and sz: "0 \<le> rj_size J" and sub: "set (rj_active J) \<subseteq> set (rj_read J)" using J by (simp_all add: job_ok_def)
  show ?thesis
    unfolding rings_ok_def
  proof (intro allI impI)
    fix c
    assume c: "c < length (rj_active J)"
    then have "fst st c = ring_clear (rj_r J) (rj_size J) nxt (rings c)" using st subsetD [OF sub nth_mem [OF c]] by (simp add: planes_done_def)
    moreover have "ring_ok (sd_scalar (bb_simd B)) (rj_r J) (rj_size J) (rj_frames J) (center_sums H frames B J (rj_active J ! c)) lo nxt center (rings c)"
      using ring c by (simp add: rings_ok_def)
    ultimately show "ring_ok (sd_scalar (bb_simd B)) (rj_r J) (rj_size J) (rj_frames J) (center_sums H frames B J (rj_active J ! c)) lo (nxt + 1) center (fst st c)"
      using ring_finish(1) [OF r sz] near c by fastforce
  qed
qed

text \<open>The frames of the chunk from \<open>start\<close> on that are finished.\<close>

definition frames_done :: "host \<Rightarrow> (nat \<Rightarrow> vs_frame) \<Rightarrow> bm3d_build \<Rightarrow> rolling_job \<Rightarrow> int \<Rightarrow> int \<Rightarrow> rolling_chunk \<Rightarrow> rolling_chunk \<Rightarrow> bool" where
  "frames_done H frames B J start nxt chunk0 chunk \<longleftrightarrow>
     (\<forall>i plane. rs_frames chunk i plane =
        (if 0 \<le> i \<and> i < nxt - start \<and> plane \<in> set (rj_read J) then job_plane H frames B J plane (start + i) else rs_frames chunk0 i plane)) \<and>
     rs_start chunk = rs_start chunk0 \<and> rs_count chunk = rs_count chunk0"

lemma finish_loop_step:
  assumes J: "job_ok H frames B J" and start: "0 \<le> start" "start \<le> nxt" "nxt \<le> stop" "stop \<le> rj_frames J"
    and near: "\<And>n. nxt \<le> n \<Longrightarrow> n < stop \<Longrightarrow> temporal_last n (rj_r J) (rj_frames J) \<le> center \<Longrightarrow> rj_active J \<noteq> [] \<Longrightarrow> lo \<le> n \<and> n \<le> lo + 2 * rj_r J"
    and ring: "rings_ok H frames B J lo nxt center rings" and fin: "frames_done H frames B J start nxt chunk0 chunk"
  shows "outcome (holds H frames M) (finish_loop (rj_r J) (rj_frames J) stop center (finish_frame_act H B J start) nxt (rings, chunk))
    (\<lambda>(nxt', rings', chunk') s. (nxt \<le> nxt' \<and> nxt' \<le> stop \<and> (\<forall>n. nxt \<le> n \<longrightarrow> n < nxt' \<longrightarrow> temporal_last n (rj_r J) (rj_frames J) \<le> center) \<and>
       (nxt' = stop \<or> center < temporal_last nxt' (rj_r J) (rj_frames J)) \<and>
       rings_ok H frames B J lo nxt' center rings' \<and> frames_done H frames B J start nxt' chunk0 chunk') \<and> holds H frames M s) (failed H)"
  using start near ring fin
proof (induction "nat (stop - nxt)" arbitrary: nxt rings chunk)
  case 0
  then show ?case by (subst finish_loop.simps) (auto intro!: outcome_return)
next
  case (Suc k)
  then have lt: "nxt < stop" by simp
  show ?case
  proof (cases "temporal_last nxt (rj_r J) (rj_frames J) \<le> center")
    case False
    then show ?thesis using Suc.prems by (subst finish_loop.simps) (auto intro!: outcome_return)
  next
    case True
    have b: "0 \<le> nxt" "nxt < rj_frames J" using Suc.prems(1-4) lt by auto
    have nr: "rj_active J \<noteq> [] \<Longrightarrow> lo \<le> nxt" "rj_active J \<noteq> [] \<Longrightarrow> nxt \<le> lo + 2 * rj_r J"
      using Suc.prems(5) [OF order.refl lt True] by auto
    have step: "outcome (holds H frames M) (finish_loop (rj_r J) (rj_frames J) stop center (finish_frame_act H B J start) (nxt + 1) st)
        (\<lambda>(nxt', rings', chunk') s. (nxt \<le> nxt' \<and> nxt' \<le> stop \<and> (\<forall>n. nxt \<le> n \<longrightarrow> n < nxt' \<longrightarrow> temporal_last n (rj_r J) (rj_frames J) \<le> center) \<and>
           (nxt' = stop \<or> center < temporal_last nxt' (rj_r J) (rj_frames J)) \<and>
           rings_ok H frames B J lo nxt' center rings' \<and> frames_done H frames B J start nxt' chunk0 chunk') \<and> holds H frames M s) (failed H)"
      if st: "planes_done H frames B J start nxt rings chunk (rj_read J) st" for st
    proof -
      obtain rings1 chunk1 where s: "st = (rings1, chunk1)" by (cases st)
      have r1: "rings_ok H frames B J lo (nxt + 1) center rings1" using planes_done_rings [OF J nr Suc.prems(6) st] by (simp add: s)
      have f1: "frames_done H frames B J start (nxt + 1) chunk0 chunk1"
        using st Suc.prems(2,7) unfolding frames_done_def planes_done_def s by auto
      have k: "k = nat (stop - (nxt + 1))" using Suc.hyps(2) by simp
      have n1: "lo \<le> n \<and> n \<le> lo + 2 * rj_r J" if "nxt + 1 \<le> n" "n < stop" "temporal_last n (rj_r J) (rj_frames J) \<le> center" "rj_active J \<noteq> []" for n
        by (rule Suc.prems(5)) (use that in auto)
      have le: "start \<le> nxt + 1" "nxt + 1 \<le> stop" using Suc.prems(2) lt by auto
      note IH = Suc.hyps(1) [OF k Suc.prems(1) le Suc.prems(4) n1 r1 f1]
      have ext: "temporal_last n (rj_r J) (rj_frames J) \<le> center"
        if "nxt \<le> n" "\<forall>n. nxt + 1 \<le> n \<longrightarrow> n < m \<longrightarrow> temporal_last n (rj_r J) (rj_frames J) \<le> center" "n < m" for n m
        using that True by (cases "n = nxt") auto
      show ?thesis unfolding s by (rule outcome_weaken [OF IH]) (auto intro: ext)
    qed
    have cond: "(nxt < stop \<and> temporal_last nxt (rj_r J) (rj_frames J) \<le> center) = True" using lt True by simp
    show ?thesis
      by (subst finish_loop.simps, subst cond, subst if_True,
          rule bind_hold [OF finish_frame_step [OF J b True nr Suc.prems(6)] step])
  qed
qed
subsection \<open>The centers of a chunk\<close>

lemma temporal_last_at: "0 \<le> r \<Longrightarrow> n < frames \<Longrightarrow> n \<le> temporal_last n r frames"
  "temporal_last n r frames \<le> n + r" "n < frames \<Longrightarrow> temporal_last n r frames < frames"
  "n \<le> m \<Longrightarrow> temporal_last n r frames \<le> temporal_last m r frames"
  by (auto simp: temporal_last_def)

text \<open>The state before the center \<open>c\<close>: the sums hold the centers up to \<open>c - 1\<close>, and the frames whose last center that was are done.\<close>

definition loop_inv :: "host \<Rightarrow> (nat \<Rightarrow> vs_frame) \<Rightarrow> bm3d_build \<Rightarrow> rolling_job \<Rightarrow> int \<Rightarrow> int \<Rightarrow> rolling_chunk \<Rightarrow> int \<Rightarrow> int \<times> rings \<times> rolling_chunk \<Rightarrow> bool" where
  "loop_inv H frames B J start stop chunk0 c st \<longleftrightarrow>
     (case st of (nxt, rings, chunk) \<Rightarrow>
        start \<le> nxt \<and> nxt \<le> stop \<and> (\<forall>t. start \<le> t \<longrightarrow> t < nxt \<longrightarrow> temporal_last t (rj_r J) (rj_frames J) < c) \<and>
        (nxt = stop \<or> c \<le> temporal_last nxt (rj_r J) (rj_frames J)) \<and>
        rings_ok H frames B J (c - rj_r J) nxt (c - 1) rings \<and> frames_done H frames B J start nxt chunk0 chunk)"

lemma finish_act_step:
  assumes J: "job_ok H frames B J" and start: "0 \<le> start" "start \<le> nxt" "nxt \<le> start + cnt" "start + cnt \<le> rj_frames J"
    and before: "\<And>t. start \<le> t \<Longrightarrow> t < nxt \<Longrightarrow> temporal_last t (rj_r J) (rj_frames J) < c"
    and near: "\<And>n. nxt \<le> n \<Longrightarrow> n < start + cnt \<Longrightarrow> temporal_last n (rj_r J) (rj_frames J) < c \<Longrightarrow> rj_active J \<noteq> [] \<Longrightarrow> lo \<le> n \<and> n \<le> lo + 2 * rj_r J"
    and ring: "rings_ok H frames B J lo nxt (c - 1) rings" and fin: "frames_done H frames B J start nxt chunk0 chunk"
    and shift: "\<And>nxt' rings'. start \<le> nxt' \<Longrightarrow> nxt' \<le> start + cnt \<Longrightarrow> nxt' = start + cnt \<or> c \<le> temporal_last nxt' (rj_r J) (rj_frames J) \<Longrightarrow>
      rings_ok H frames B J lo nxt' (c - 1) rings' \<Longrightarrow> rings_ok H frames B J (c - rj_r J) nxt' (c - 1) rings'"
  shows "outcome (holds H frames M) (finish_act H B J start cnt (c - 1) (nxt, rings, chunk))
    (\<lambda>st s. loop_inv H frames B J start (start + cnt) chunk0 c st \<and> holds H frames M s) (failed H)"
proof -
  have near': "lo \<le> n \<and> n \<le> lo + 2 * rj_r J"
    if "nxt \<le> n" "n < start + cnt" "temporal_last n (rj_r J) (rj_frames J) \<le> c - 1" "rj_active J \<noteq> []" for n
    using near [OF that(1,2) _ that(4)] that(3) by simp
  have inv: "loop_inv H frames B J start (start + cnt) chunk0 c (nxt', rings', chunk')"
    if a: "nxt \<le> nxt'" "nxt' \<le> start + cnt" "\<forall>n. nxt \<le> n \<longrightarrow> n < nxt' \<longrightarrow> temporal_last n (rj_r J) (rj_frames J) \<le> c - 1"
      "nxt' = start + cnt \<or> c - 1 < temporal_last nxt' (rj_r J) (rj_frames J)"
      "rings_ok H frames B J lo nxt' (c - 1) rings'" "frames_done H frames B J start nxt' chunk0 chunk'" for nxt' rings' chunk'
  proof -
    have n: "start \<le> nxt'" "nxt' = start + cnt \<or> c \<le> temporal_last nxt' (rj_r J) (rj_frames J)" using a start(2) by auto
    have b: "temporal_last t (rj_r J) (rj_frames J) < c" if t: "start \<le> t" "t < nxt'" for t
    proof (cases "t < nxt")
      case False
      then have "temporal_last t (rj_r J) (rj_frames J) \<le> c - 1" using a(3) t by simp
      then show ?thesis by simp
    qed (rule before [OF t(1)])
    show ?thesis using n b a(2,6) shift [OF n(1) a(2) n(2) a(5)] by (simp add: loop_inv_def)
  qed
  show ?thesis
    unfolding finish_act_def prod.case
  proof (rule outcome_weaken [OF finish_loop_step [OF J start near' ring fin]])
    fix v s
    assume a: "(case v of (nxt', rings', chunk') \<Rightarrow> \<lambda>s. (nxt \<le> nxt' \<and> nxt' \<le> start + cnt \<and>
          (\<forall>n. nxt \<le> n \<longrightarrow> n < nxt' \<longrightarrow> temporal_last n (rj_r J) (rj_frames J) \<le> c - 1) \<and>
          (nxt' = start + cnt \<or> c - 1 < temporal_last nxt' (rj_r J) (rj_frames J)) \<and>
          rings_ok H frames B J lo nxt' (c - 1) rings' \<and> frames_done H frames B J start nxt' chunk0 chunk') \<and> holds H frames M s) s"
    obtain nxt' rings' chunk' where v: "v = (nxt', rings', chunk')" by (cases v) auto
    show "loop_inv H frames B J start (start + cnt) chunk0 c v \<and> holds H frames M s"
      using a unfolding v prod.case by (intro conjI inv) (elim conjE, assumption)+
  qed assumption
qed
lemma center_loop_step:
  assumes J: "job_ok H frames B J" and active: "rj_active J \<noteq> []" and start: "0 \<le> start" "0 < cnt" "start + cnt \<le> rj_frames J"
    and c: "0 \<le> c" "c \<le> chunk_last (rj_r J) (rj_frames J) start cnt"
    and inv: "loop_inv H frames B J start (start + cnt) chunk0 c st"
  shows "outcome (holds H frames M) ((\<lambda>(nxt, rings, chunk). bind_act (center_act H B J start c rings) (\<lambda>rings. finish_act H B J start cnt c (nxt, rings, chunk))) st)
    (\<lambda>st s. loop_inv H frames B J start (start + cnt) chunk0 (c + 1) st \<and> holds H frames M s) (failed H)"
proof -
  let ?r = "rj_r J" and ?F = "rj_frames J" and ?sz = "rj_size J"
  obtain nxt rings chunk where st: "st = (nxt, rings, chunk)" by (cases st) auto
  have r: "0 \<le> ?r" "0 \<le> ?sz" using J by (simp_all add: job_ok_def)
  have nxt: "start \<le> nxt" "nxt \<le> start + cnt" "nxt = start + cnt \<or> c \<le> temporal_last nxt ?r ?F"
    and before: "\<And>t. start \<le> t \<Longrightarrow> t < nxt \<Longrightarrow> temporal_last t ?r ?F < c"
    and ring: "rings_ok H frames B J (c - ?r) nxt (c - 1) rings" and fin: "frames_done H frames B J start nxt chunk0 chunk"
    using inv by (auto simp: loop_inv_def st)
  have cF: "c < ?F" using c(2) temporal_last_at(3) [of "start + cnt - 1" ?F ?r] start by (simp add: chunk_last_def)
  have end_near: "c \<le> start + cnt - 1 + ?r" using c(2) temporal_last_at(2) [of "start + cnt - 1" ?r ?F] by (simp add: chunk_last_def)
  have close: "c - ?r < n" if "start \<le> n" "n = start + cnt \<or> c + 1 \<le> temporal_last n ?r ?F" for n
    using that end_near temporal_last_at(2) [of n ?r ?F] by auto
  let ?rings = "\<lambda>k. if k < length (rj_active J)
       then ring_add (sd_scalar (bb_simd B)) ?r ?sz ?F start c (center_sums H frames B J (rj_active J ! k) c) (rings k) else rings k"
  have added: "rings_ok H frames B J (c - ?r) nxt c ?rings"
    unfolding rings_ok_def
  proof (intro allI impI)
    fix k
    assume k: "k < length (rj_active J)"
    have ok: "ring_ok (sd_scalar (bb_simd B)) ?r ?sz ?F (center_sums H frames B J (rj_active J ! k)) (c - ?r) nxt (c - 1) (rings k)"
      using ring k by (simp add: rings_ok_def)
    show "ring_ok (sd_scalar (bb_simd B)) ?r ?sz ?F (center_sums H frames B J (rj_active J ! k)) (c - ?r) nxt c (?rings k)"
      using ring_center [OF r c(1) cF nxt(1) before ok] k by simp
  qed
  have near: "c - ?r \<le> n \<and> n \<le> c - ?r + 2 * ?r" if "nxt \<le> n" "n < start + cnt" "temporal_last n ?r ?F < c + 1" for n
  proof -
    have "c - ?r \<le> nxt" using that nxt(3) temporal_last_at(2) [of nxt ?r ?F] by auto
    moreover have "n \<le> temporal_last n ?r ?F" using temporal_last_at(1) [OF r(1), of n ?F] that start by simp
    ultimately show ?thesis using that r(1) by linarith
  qed
  have shift: "rings_ok H frames B J (c + 1 - ?r) n c rings'"
    if a: "start \<le> n" "n = start + cnt \<or> c + 1 \<le> temporal_last n ?r ?F" "rings_ok H frames B J (c - ?r) n c rings'" for n rings'
    using a(3) ring_shift [OF r(1) close [OF a(1,2)]] by (auto simp: rings_ok_def)
  show ?thesis
    unfolding st prod.case
  proof (rule bind_hold [OF center_step [OF J c(1) cF active]], hypsubst)
    have b1: "temporal_last t ?r ?F < c + 1" if "start \<le> t" "t < nxt" for t using before [OF that] by simp
    have ring1: "rings_ok H frames B J (c - ?r) nxt (c + 1 - 1) ?rings" using added by simp
    have "outcome (holds H frames M) (finish_act H B J start cnt (c + 1 - 1) (nxt, ?rings, chunk))
        (\<lambda>st s. loop_inv H frames B J start (start + cnt) chunk0 (c + 1) st \<and> holds H frames M s) (failed H)"
    proof (rule finish_act_step [OF J start(1) nxt(1,2) start(3) b1 near ring1 fin])
      fix n rings'
      assume "start \<le> n" "n = start + cnt \<or> c + 1 \<le> temporal_last n ?r ?F" "rings_ok H frames B J (c - ?r) n (c + 1 - 1) rings'"
      then show "rings_ok H frames B J (c + 1 - ?r) n (c + 1 - 1) rings'" using shift by simp
    qed
    then show "outcome (holds H frames M) (finish_act H B J start cnt c (nxt, ?rings, chunk))
        (\<lambda>st s. loop_inv H frames B J start (start + cnt) chunk0 (c + 1) st \<and> holds H frames M s) (failed H)" by simp
  qed
qed

lemma loop_end:
  assumes "0 < cnt" "loop_inv H frames B J start (start + cnt) chunk0 (chunk_last (rj_r J) (rj_frames J) start cnt + 1) st"
  shows "fst st = start + cnt"
proof (rule ccontr)
  assume "fst st \<noteq> start + cnt"
  then have "fst st \<le> start + cnt - 1" "chunk_last (rj_r J) (rj_frames J) start cnt < temporal_last (fst st) (rj_r J) (rj_frames J)"
    using assms by (auto simp: loop_inv_def)
  then show False using temporal_last_at(4) [of "fst st" "start + cnt - 1" "rj_r J" "rj_frames J"] by (simp add: chunk_last_def)
qed
text \<open>A carry that a fill may start from: the sums the chunk before it left.\<close>

definition from_ok :: "host \<Rightarrow> (nat \<Rightarrow> vs_frame) \<Rightarrow> bm3d_build \<Rightarrow> rolling_job \<Rightarrow> int \<Rightarrow> (int \<times> (nat \<Rightarrow> buffer)) option \<Rightarrow> bool" where
  "from_ok H frames B J start from' \<longleftrightarrow>
     (case from' of None \<Rightarrow> True | Some (targets, carried) \<Rightarrow>
        0 < start \<and> (\<forall>c < length (rj_active J). carry_ok (sd_scalar (bb_simd B)) (rj_r J) (rj_size J) (rj_frames J)
          (center_sums H frames B J (rj_active J ! c)) start targets (temporal_last (start - 1) (rj_r J) (rj_frames J)) (carried c)))"

definition start_rings :: "rolling_job \<Rightarrow> int \<Rightarrow> (int \<times> (nat \<Rightarrow> buffer)) option \<Rightarrow> rings" where
  "start_rings J start from' c =
     (case from' of None \<Rightarrow> (\<lambda>_. f32_zero) | Some (targets, carried) \<Rightarrow> ring_load (rj_r J) (rj_size J) start targets (carried c) (\<lambda>_. f32_zero))"

lemma start_rings_ok:
  assumes J: "job_ok H frames B J" and start: "start < rj_frames J" and fr: "from_ok H frames B J start from'"
  defines "first \<equiv> chunk_first (rj_r J) (rj_frames J) (from' \<noteq> None) start"
  shows "rings_ok H frames B J (first - rj_r J) start (first - 1) (start_rings J start from')"
proof (cases from')
  case None
  have "0 \<le> rj_r J" using J by (simp add: job_ok_def)
  from ring_fresh [OF this] show ?thesis by (simp add: rings_ok_def start_rings_def None first_def chunk_first_def)
next
  case (Some f)
  obtain targets carried where f: "f = (targets, carried)" by (cases f)
  let ?c = "temporal_last (start - 1) (rj_r J) (rj_frames J)"
  have r: "0 \<le> rj_r J" "0 \<le> rj_size J" using J by (simp_all add: job_ok_def)
  have b: "start - 1 \<le> ?c" "?c \<le> start - 1 + rj_r J"
    using temporal_last_at(1) [OF r(1), of "start - 1" "rj_frames J"] temporal_last_at(2) [of "start - 1" "rj_r J" "rj_frames J"] start by simp_all
  have first: "first = ?c + 1" by (simp add: first_def chunk_first_def Some)
  show ?thesis
    unfolding rings_ok_def first
  proof (intro allI impI)
    fix c
    assume "c < length (rj_active J)"
    then have "carry_ok (sd_scalar (bb_simd B)) (rj_r J) (rj_size J) (rj_frames J) (center_sums H frames B J (rj_active J ! c)) start targets ?c (carried c)"
      using fr by (simp add: from_ok_def Some f)
    from ring_carried [OF r b this]
    show "ring_ok (sd_scalar (bb_simd B)) (rj_r J) (rj_size J) (rj_frames J) (center_sums H frames B J (rj_active J ! c)) (?c + 1 - rj_r J) start
        (?c + 1 - 1) (start_rings J start from' c)"
      by (simp add: start_rings_def Some f)
  qed
qed

lemma frames_done_none: "frames_done H frames B J start start chunk chunk"
  by (auto simp: frames_done_def)

lemma first_finish_step:
  assumes J: "job_ok H frames B J" and start: "0 \<le> start" "0 \<le> cnt" "start < rj_frames J" "start + cnt \<le> rj_frames J"
    and fr: "from_ok H frames B J start from'"
  defines "first \<equiv> chunk_first (rj_r J) (rj_frames J) (from' \<noteq> None) start"
  shows "outcome (holds H frames M) (finish_act H B J start cnt (first - 1) (start, start_rings J start from', chunk))
    (\<lambda>st s. loop_inv H frames B J start (start + cnt) chunk first st \<and> holds H frames M s) (failed H)"
proof (rule finish_act_step [where lo = "first - rj_r J"])
  show "job_ok H frames B J" "0 \<le> start" "start \<le> start" "start \<le> start + cnt" "start + cnt \<le> rj_frames J" using J start by simp_all
  show "rings_ok H frames B J (first - rj_r J) start (first - 1) (start_rings J start from')"
    unfolding first_def by (rule start_rings_ok [OF J start(3) fr])
  show "frames_done H frames B J start start chunk chunk" by (rule frames_done_none)
  have r: "0 \<le> rj_r J" using J by (simp add: job_ok_def)
  fix n
  assume n: "start \<le> n" "n < start + cnt" "temporal_last n (rj_r J) (rj_frames J) < first"
  have "n \<le> temporal_last n (rj_r J) (rj_frames J)" using temporal_last_at(1) [OF r, of n "rj_frames J"] n start by simp
  then have "n < first" using n by simp
  moreover have "first \<le> start + rj_r J" using r start temporal_last_at(2) [of "start - 1" "rj_r J" "rj_frames J"] by (auto simp: first_def chunk_first_def)
  ultimately show "first - rj_r J \<le> n \<and> n \<le> first - rj_r J + 2 * rj_r J" using n(1) r by linarith
qed auto

lemma chunk_first_last:
  assumes "0 \<le> r" "0 \<le> start" "0 < cnt" "start + cnt \<le> frames" "carried \<longrightarrow> 0 < start"
  shows "0 \<le> chunk_first r frames carried start" "chunk_first r frames carried start \<le> chunk_last r frames start cnt + 1"
proof -
  have "carried \<longrightarrow> start - 1 \<le> temporal_last (start - 1) r frames" using temporal_last_at(1) [of r "start - 1" frames] assms by simp
  then show "0 \<le> chunk_first r frames carried start" using assms by (auto simp: chunk_first_def)
  have "temporal_last (start - 1) r frames \<le> temporal_last (start + cnt - 1) r frames" using temporal_last_at(4) assms(3) by simp
  moreover have "start + cnt - 1 \<le> temporal_last (start + cnt - 1) r frames" using temporal_last_at(1) assms by simp
  ultimately show "chunk_first r frames carried start \<le> chunk_last r frames start cnt + 1"
    using assms by (auto simp: chunk_first_def chunk_last_def)
qed

lemma fill_job_step:
  assumes J: "job_ok H frames B J" and start: "0 \<le> start" "0 < cnt" "start + cnt \<le> rj_frames J"
    and fr: "from_ok H frames B J start from'" and covered: "last_finish \<or> rj_active J \<noteq> []"
  shows "outcome (holds H frames M) (fill_job_act H B J last_finish start cnt from' chunk)
    (\<lambda>(rings, chunk') s. (rings_ok H frames B J (chunk_last (rj_r J) (rj_frames J) start cnt + 1 - rj_r J) (start + cnt)
         (chunk_last (rj_r J) (rj_frames J) start cnt) rings \<and>
       frames_done H frames B J start (start + cnt) chunk chunk') \<and> holds H frames M s) (failed H)"
proof -
  let ?r = "rj_r J" and ?F = "rj_frames J" and ?nch = "length (rj_active J)"
  let ?src = "if ?nch = 0 then None else from'" and ?last = "chunk_last ?r ?F start cnt"
  let ?first = "chunk_first ?r ?F (?src \<noteq> None) start" and ?inv = "loop_inv H frames B J start (start + cnt) chunk"
  let ?step = "\<lambda>center (nxt, rings, chunk). bind_act (center_act H B J start center rings) (\<lambda>rings. finish_act H B J start cnt center (nxt, rings, chunk))"
  let ?done = "\<lambda>st. fst st = start + cnt \<and> rings_ok H frames B J (?last + 1 - ?r) (start + cnt) ?last (fst (snd st)) \<and>
      frames_done H frames B J start (start + cnt) chunk (snd (snd st))"
  have H: "host_ok H" and r: "0 \<le> ?r" using J by (simp_all add: job_ok_def)
  have fr': "from_ok H frames B J start ?src" using fr by (simp add: from_ok_def)
  then have carried: "?src \<noteq> None \<longrightarrow> 0 < start" by (auto simp: from_ok_def split: option.splits)
  note fl = chunk_first_last [OF r start carried]
  have all: "?done st" if "?inv (?last + 1) st" for st
    using loop_end [OF start(2) that] that by (auto simp: loop_inv_def)
  have loop: "outcome (\<lambda>s. ?inv ?first st \<and> holds H frames M s) (fold_act ?step (if ?nch = 0 then [] else [?first..?last]) st)
      (\<lambda>st s. (if ?nch = 0 then ?inv ?first st else ?done st) \<and> holds H frames M s) (failed H)" for st
  proof (cases "?nch = 0")
    case True
    then show ?thesis by (auto intro: outcome_return)
  next
    case False
    have "outcome (\<lambda>s. ?inv ?first st \<and> holds H frames M s) (fold_act ?step [?first..?last] st)
        (\<lambda>st s. ?inv (?last + 1) st \<and> holds H frames M s) (failed H)"
    proof (rule outcome_weaken [OF outcome_fold [where I = "\<lambda>xs st s. ?inv (?first + int (length xs)) st \<and> holds H frames M s"]])
      fix xs0 x xs1 st
      assume x: "[?first..?last] = xs0 @ x # xs1"
      have len: "length xs0 < length [?first..?last]" unfolding x by simp
      have "x = [?first..?last] ! length xs0" unfolding x by simp
      also have "\<dots> = ?first + int (length xs0)" by (rule nth_upto) (use len in simp)
      finally have xe: "x = ?first + int (length xs0)" .
      have "x \<in> set [?first..?last]" unfolding x by simp
      then have xb: "0 \<le> x" "x \<le> ?last" using fl(1) by auto
      show "outcome (\<lambda>s. ?inv (?first + int (length xs0)) st \<and> holds H frames M s) (?step x st)
          (\<lambda>st s. ?inv (?first + int (length (xs0 @ [x]))) st \<and> holds H frames M s) (failed H)"
      proof (rule outcome_pure)
        assume "?inv (?first + int (length xs0)) st"
        then have i: "?inv x st" by (simp only: xe)
        have e: "?first + int (length (xs0 @ [x])) = x + 1" by (simp add: xe)
        show "outcome (holds H frames M) (?step x st) (\<lambda>st s. ?inv (?first + int (length (xs0 @ [x]))) st \<and> holds H frames M s) (failed H)"
          unfolding e by (rule center_loop_step [OF J _ start xb i]) (use False in simp)
      qed
    next
      have "?first + int (length [?first..?last]) = ?last + 1" using fl(2) by simp
      then show "?inv (?first + int (length [?first..?last])) st \<and> holds H frames M s \<Longrightarrow> ?inv (?last + 1) st \<and> holds H frames M s" for st s by simp
    qed simp_all
    then show ?thesis using False all by (auto elim: outcome_weaken)
  qed
  have final: "outcome (\<lambda>s. (if ?nch = 0 then ?inv ?first st \<and> last_finish else ?done st) \<and> holds H frames M s)
      (if last_finish then finish_act H B J start cnt ?last st else return_act st) (\<lambda>st s. ?done st \<and> holds H frames M s) (failed H)" for st
  proof (cases "?nch = 0")
    case False
    obtain nxt rings chunk1 where st: "st = (nxt, rings, chunk1)" by (cases st) auto
    have "finish_act H B J start cnt ?last st = return_act st" if "fst st = start + cnt"
      using that by (simp add: st finish_act_def finish_loop.simps)
    then have e: "(if last_finish then finish_act H B J start cnt ?last st else return_act st) = return_act st" if "fst st = start + cnt"
      using that by simp
    have "outcome (\<lambda>s. ?done st \<and> holds H frames M s) (if last_finish then finish_act H B J start cnt ?last st else return_act st)
        (\<lambda>st s. ?done st \<and> holds H frames M s) (failed H)"
    proof (rule outcome_pure)
      assume d: "?done st"
      show "outcome (holds H frames M) (if last_finish then finish_act H B J start cnt ?last st else return_act st)
          (\<lambda>st s. ?done st \<and> holds H frames M s) (failed H)"
        unfolding e [OF conjunct1 [OF d]] by (rule outcome_return) (use d in blast)
    qed
    then show ?thesis by (rule outcome_weaken) (use False in \<open>simp_all only: if_False\<close>)
  next
    case True
    have none: "rings_ok H frames B J lo n c rings" for lo n c rings using True by (simp add: rings_ok_def)
    have act: "rj_active J = []" using True by simp
    have run: "outcome (holds H frames M) (finish_act H B J start cnt (?last + 1 - 1) st) (\<lambda>st s. ?inv (?last + 1) st \<and> holds H frames M s) (failed H)"
      if i: "?inv ?first st"
    proof -
      obtain nxt rings chunk1 where st: "st = (nxt, rings, chunk1)" by (cases st) auto
      have b: "start \<le> nxt" "nxt \<le> start + cnt" "\<And>t. start \<le> t \<Longrightarrow> t < nxt \<Longrightarrow> temporal_last t ?r ?F < ?first" "frames_done H frames B J start nxt chunk chunk1"
        using i by (auto simp: loop_inv_def st)
      have before: "temporal_last t ?r ?F < ?last + 1" if "start \<le> t" "t < nxt" for t using b(3) [OF that] fl(2) by linarith
      show ?thesis unfolding st by (rule finish_act_step [OF J start(1) b(1,2) start(3) before _ none b(4)]) (simp_all add: act none)
    qed
    have "outcome (\<lambda>s. (?inv ?first st \<and> last_finish) \<and> holds H frames M s) (if last_finish then finish_act H B J start cnt ?last st else return_act st)
        (\<lambda>st s. ?done st \<and> holds H frames M s) (failed H)"
    proof (rule outcome_pure)
      assume i: "?inv ?first st \<and> last_finish"
      have e: "(if last_finish then finish_act H B J start cnt ?last st else return_act st) = finish_act H B J start cnt (?last + 1 - 1) st" using i by simp
      show "outcome (holds H frames M) (if last_finish then finish_act H B J start cnt ?last st else return_act st)
          (\<lambda>st s. ?done st \<and> holds H frames M s) (failed H)"
        unfolding e by (rule outcome_weaken [OF run [OF conjunct1 [OF i]]]) (use all in blast)+
    qed
    then show ?thesis by (rule outcome_weaken) (use True in \<open>simp_all only: if_True\<close>)
  qed
  have m: "(if ?nch = 0 then ?inv ?first st \<and> last_finish else ?done st)" if "if ?nch = 0 then ?inv ?first st else ?done st" for st
    using that covered by auto
  have rings: "(\<lambda>c. case ?src of None \<Rightarrow> (\<lambda>_. f32_zero) | Some (targets, sums) \<Rightarrow> ring_load ?r (rj_size J) start targets (sums c) (\<lambda>_. f32_zero)) = start_rings J start ?src"
    by (simp add: fun_eq_iff start_rings_def)
  show ?thesis
    unfolding fill_job_act_def Let_def rings
  proof (rule outcome_bind [OF reserve_hold [OF H]])
    show "outcome (holds H frames M)
      (bind_act (finish_act H B J start cnt (?first - 1) (start, start_rings J start ?src, chunk)) (\<lambda>st.
         bind_act (if ?nch = 0 then return_act 0 else scratch_floats H (?nch * nat (2 * ?r + 1) * 2 * nat (rj_size J))) (\<lambda>_.
         bind_act (fold_act ?step (if ?nch = 0 then [] else [?first..?last]) st) (\<lambda>st.
         bind_act (if last_finish then finish_act H B J start cnt ?last st else return_act st) (\<lambda>(_, rings, chunk). return_act (rings, chunk))))))
      (\<lambda>(rings, chunk') s. (rings_ok H frames B J (?last + 1 - ?r) (start + cnt) ?last rings \<and> frames_done H frames B J start (start + cnt) chunk chunk') \<and> holds H frames M s) (failed H)"
    proof (rule outcome_bind [OF first_finish_step [OF J _ _ _ _ fr']])
      fix st
      have scratch: "outcome (\<lambda>s. ?inv ?first st \<and> holds H frames M s)
          (if ?nch = 0 then return_act 0 else scratch_floats H (?nch * nat (2 * ?r + 1) * 2 * nat (rj_size J)))
          (\<lambda>_ s. ?inv ?first st \<and> holds H frames M s) (failed H)"
        by (rule outcome_pure) (auto intro: outcome_return outcome_weaken [OF scratch_hold [OF H]])
      have ends: "outcome (\<lambda>s. ?done st \<and> holds H frames M s) ((\<lambda>(_, rings, chunk). return_act (rings, chunk)) st)
          (\<lambda>(rings, chunk') s. (rings_ok H frames B J (?last + 1 - ?r) (start + cnt) ?last rings \<and> frames_done H frames B J start (start + cnt) chunk chunk') \<and> holds H frames M s) (failed H)" for st
        by (cases st) (auto intro: outcome_return)
      show "outcome (\<lambda>s. ?inv ?first st \<and> holds H frames M s)
        (bind_act (if ?nch = 0 then return_act 0 else scratch_floats H (?nch * nat (2 * ?r + 1) * 2 * nat (rj_size J))) (\<lambda>_.
         bind_act (fold_act ?step (if ?nch = 0 then [] else [?first..?last]) st) (\<lambda>st.
         bind_act (if last_finish then finish_act H B J start cnt ?last st else return_act st) (\<lambda>(_, rings, chunk). return_act (rings, chunk)))))
        (\<lambda>(rings, chunk') s. (rings_ok H frames B J (?last + 1 - ?r) (start + cnt) ?last rings \<and> frames_done H frames B J start (start + cnt) chunk chunk') \<and> holds H frames M s) (failed H)"
      proof (rule outcome_bind [OF scratch], rule outcome_bind [OF loop], rule outcome_bind [OF outcome_weaken [OF final]])
        fix st s
        assume "(if ?nch = 0 then ?inv ?first st else ?done st) \<and> holds H frames M s"
        then show "(if ?nch = 0 then ?inv ?first st \<and> last_finish else ?done st) \<and> holds H frames M s" using m by blast
      qed (assumption | rule ends)+
    qed (use start in simp_all)
  qed
qed
subsection \<open>Unfiltered planes and the carry\<close>

lemma store_frames_step:
  assumes H: "host_ok H" and clips: "clips_formatted H frames vi ref" and plane: "0 \<le> plane" "plane < vi_planes vi"
    and start: "0 \<le> start" "start + cnt \<le> vi_num_frames vi"
  shows "outcome (holds H frames M) (store_frames_act H vi plane start cnt chunk)
    (\<lambda>chunk' s. ((\<forall>i q. rs_frames chunk' i q =
         (if 0 \<le> i \<and> i < cnt \<and> q = plane
          then let (src, stride) = source_plane frames (ho_source H 0 (start + i)) plane in rolling_store_plane src (plane_width vi plane) (plane_height vi plane) stride
          else rs_frames chunk i q)) \<and>
       rs_start chunk' = rs_start chunk \<and> rs_count chunk' = rs_count chunk) \<and> holds H frames M s) (failed H)"
proof -
  let ?w = "plane_width vi plane" and ?h = "plane_height vi plane"
  let ?v = "\<lambda>i. rolling_store_plane (vf_plane (frames (ho_source H 0 (start + i))) plane) ?w ?h (vf_stride (frames (ho_source H 0 (start + i))) plane div 4)"
  let ?step = "\<lambda>i chunk. bind_act (get_frame H 0 (start + i)) (\<lambda>frame. bind_act (plane_of frame plane) (\<lambda>src. bind_act (float_stride frame plane) (\<lambda>stride.
      bind_act (reserve_act H (nat (?w * ?h))) (\<lambda>_. bind_act (free_act frame) (\<lambda>_. return_act (set_plane i plane (rolling_store_plane src ?w ?h stride) chunk))))))"
  let ?I = "\<lambda>is c. (\<forall>i q. rs_frames c i q = (if i \<in> set is \<and> q = plane then ?v i else rs_frames chunk i q)) \<and> rs_start c = rs_start chunk \<and> rs_count c = rs_count chunk"
  have one: "outcome (holds H frames M) (?step i c) (\<lambda>c' s. c' = set_plane i plane (?v i) c \<and> holds H frames M s) (failed H)"
    if i: "0 \<le> i" "i < cnt" for i c
  proof -
    have fm: "has_format vi (frames (ho_source H 0 (start + i)))" using clips i start by (simp add: clips_formatted_def)
    show ?thesis
      by (rule bind_hold [OF get_hold [OF H]], elim conjE, hypsubst, rule bind_hold [OF plane_hold], rule bind_hold [OF stride_hold [where vi = vi]],
          (rule fm plane)+, rule outcome_bind [OF reserve_hold [OF H]], rule outcome_bind [OF free_hold]) (auto intro!: outcome_return)
  qed
  have "outcome (\<lambda>s. ?I [] chunk \<and> holds H frames M s) (fold_act ?step [0..cnt - 1] chunk) (\<lambda>c s. ?I [0..cnt - 1] c \<and> holds H frames M s) (failed H)"
  proof (rule outcome_fold)
    fix is0 i is1 c
    assume x: "[0..cnt - 1] = is0 @ i # is1"
    have "i \<in> set [0..cnt - 1]" unfolding x by simp
    then have i: "0 \<le> i" "i < cnt" by auto
    show "outcome (\<lambda>s. ?I is0 c \<and> holds H frames M s) (?step i c) (\<lambda>c s. ?I (is0 @ [i]) c \<and> holds H frames M s) (failed H)"
      by (rule outcome_pure, rule outcome_weaken [OF one [OF i]]) (auto simp: set_plane_at)
  qed
  then show ?thesis
    unfolding store_frames_act_def Let_def by (rule outcome_weaken) (auto simp: source_plane_def)
qed

lemma save_carry_step:
  "host_ok H \<Longrightarrow> outcome (holds H frames M) (save_carry_act H J first targets ring)
    (\<lambda>v s. v = ring_save (rj_r J) (rj_size J) first targets ring \<and> holds H frames M s) (failed H)"
  unfolding save_carry_act_def by (rule outcome_bind [OF reserve_hold]) (auto intro!: outcome_return)

lemma saved_carry:
  assumes J: "job_ok H frames B J" and start: "0 \<le> start" "0 < cnt" "start + cnt \<le> rj_frames J" and c: "c < length (rj_active J)"
    and rings: "rings_ok H frames B J (chunk_last (rj_r J) (rj_frames J) start cnt + 1 - rj_r J) (start + cnt) (chunk_last (rj_r J) (rj_frames J) start cnt) rings"
  shows "carry_ok (sd_scalar (bb_simd B)) (rj_r J) (rj_size J) (rj_frames J) (center_sums H frames B J (rj_active J ! c)) (start + cnt)
    (carry_targets (rj_r J) (rj_frames J) start cnt) (temporal_last (start + cnt - 1) (rj_r J) (rj_frames J))
    (ring_save (rj_r J) (rj_size J) (start + cnt) (carry_targets (rj_r J) (rj_frames J) start cnt) (rings c))"
proof -
  have "ring_ok (sd_scalar (bb_simd B)) (rj_r J) (rj_size J) (rj_frames J) (center_sums H frames B J (rj_active J ! c))
      (chunk_last (rj_r J) (rj_frames J) start cnt + 1 - rj_r J) (start + cnt) (chunk_last (rj_r J) (rj_frames J) start cnt) (rings c)"
    using rings c by (simp add: rings_ok_def)
  moreover have "chunk_last (rj_r J) (rj_frames J) start cnt + 1 - rj_r J \<le> start + cnt"
    using temporal_last_at(2) [of "start + cnt - 1" "rj_r J" "rj_frames J"] by (simp add: chunk_last_def)
  ultimately show ?thesis unfolding chunk_last_def [symmetric] by (rule ring_carry) (simp add: carry_targets_def)
qed

subsection \<open>The chunk of accepted arguments\<close>

text \<open>
  What the fill relies on of the target: in the passes it runs, the vector matchers give what the
  scan gives, and the group kernels look at nothing but their group.
\<close>

definition build_ok :: "bm3d_build \<Rightarrow> bm3d_params \<Rightarrow> video_info \<Rightarrow> bool \<Rightarrow> bool" where
  "build_ok B p vi ref \<longleftrightarrow>
     0 < sd_lanes (bb_simd B) \<and>
     (\<forall>center plane mat strides. 0 \<le> center \<and> center < vi_num_frames vi \<and> plane < nat (vi_planes vi) \<longrightarrow>
        fast_agrees B (plane_pass p vi ref center plane) mat strides \<and> kernel_local B (plane_pass p vi ref center plane))"

lemma window_stride:
  assumes "clips_formatted H frames (rj_vi J) (rj_ref J)" "0 \<le> center" "center < rj_frames J" "plane \<in> set (rj_read J)"
    and "0 \<le> plane" "plane < vi_planes (rj_vi J)" "0 \<le> t" "t \<le> 2 * rj_r J"
  shows "plane_width (rj_vi J) plane \<le> bc_ref_strides (window_channel J (window_of H frames J center) plane) t"
proof -
  let ?fn = "temporal_slot_frame center t (rj_r J) (rj_frames J)"
  have "has_format (rj_vi J) (frames (ho_source H (if rj_ref J then 1 else 0) ?fn))"
    using assms(1) slot_frame_inside [OF assms(2,3), of t "rj_r J"] by (auto simp: clips_formatted_def)
  then have w: "plane_width (rj_vi J) plane \<le> vf_stride (frames (ho_source H (if rj_ref J then 1 else 0) ?fn)) plane div 4"
    using assms(5,6) by (simp add: has_format_def)
  have "window_of H frames J center ! nat t = slot_of H frames J center t"
    using assms(7,8) by (simp add: window_of_def)
  then show ?thesis
    using w channel_index_in [OF assms(4)]
    by (simp add: window_channel_def slot_plane_def slot_of_def Let_def source_plane_def)
qed

lemma jobs_ok:
  assumes parse: "parse_bm3d h F m vi ref_vi ns = Inr p" and planes: "1 \<le> vi_planes vi" "vi_planes vi \<le> 3"
    and H: "host_ok H" "clips_formatted H frames vi ref" "build_ok B p vi ref"
  shows "0 \<le> plane \<Longrightarrow> plane < vi_planes vi \<Longrightarrow> job_ok H frames B (plane_job p vi ref plane)"
    "bp_chroma p \<Longrightarrow> vi_planes vi = 3 \<Longrightarrow> job_ok H frames B (chroma_job p vi ref)"
proof -
  note ok = parse_bm3d_ok [OF parse planes]
  have size: "1 \<le> plane_width vi q \<and> 1 \<le> plane_height vi q" if "0 \<le> q" "q < vi_planes vi" for q
    using ok(6) [of "nat q"] that by (auto simp: bm3d_plane_ok_def bm_allowed_block_def)
  have center: "matchable B (center_pass J c) (bc_refs mat) (bc_ref_strides mat) \<and> bm_allowed_block (ps_block (center_pass J c)) \<and>
      bm_allowed_group (ps_group (center_pass J c)) \<and> kernel_local B (center_pass J c)"
    if J: "rj_params J = p" "rj_vi J = vi" "rj_ref J = ref" "rj_match J \<in> set (rj_read J)" "0 \<le> rj_match J" "rj_match J < vi_planes vi"
      and c: "0 \<le> c" "c < vi_num_frames vi" and mat: "mat = window_channel J (window_of H frames J c) (rj_match J)" for J c mat
  proof -
    have strides: "\<forall>t. 0 \<le> t \<and> t \<le> 2 * bp_radius p \<longrightarrow> plane_width vi (int (nat (rj_match J))) \<le> bc_ref_strides mat t"
      using window_stride [of H frames J c "rj_match J"] J c H(2) by (simp add: mat)
    have k: "nat (rj_match J) < nat (vi_planes vi)" using J by simp
    have fa: "fast_agrees B (plane_pass p vi ref c (nat (rj_match J))) (bc_refs mat) (bc_ref_strides mat)"
      "kernel_local B (plane_pass p vi ref c (nat (rj_match J)))" using H(3) c k by (simp_all add: build_ok_def)
    show ?thesis using plane_pass_ok [OF parse planes k c strides fa(1)] fa(2) J by (simp add: center_pass_def) (simp add: plane_pass_def)
  qed
  show "job_ok H frames B (plane_job p vi ref plane)" if pl: "0 \<le> plane" "plane < vi_planes vi"
    using size [OF pl] center [of "plane_job p vi ref plane"] pl H ok(3) by (simp add: job_ok_def plane_job_def build_ok_def Let_def)
  show "job_ok H frames B (chroma_job p vi ref)" if ch: "bp_chroma p" "vi_planes vi = 3"
  proof -
    have ss: "vi_ss_w vi = 0 \<and> vi_ss_h vi = 0" using ok(8) [OF ch(1), of 0] ch(2) by simp
    have same: "plane_width vi q = plane_width vi 0 \<and> plane_height vi q = plane_height vi 0" for q
      using ss by (simp add: plane_width_def plane_height_def)
    show ?thesis using size [of 0] same [of 1] same [of 2] center [of "chroma_job p vi ref"] ch H ok(3)
      by (auto simp: job_ok_def chroma_job_def build_ok_def Let_def)
  qed
qed
text \<open>What a chunk holds: a function of the clips and the parameters, whatever the chunks were and in what order they ran.\<close>

definition unfiltered :: "bm3d_params \<Rightarrow> int \<Rightarrow> bool" where
  "unfiltered p plane \<longleftrightarrow> f32_eq (bp_sigma p ! nat plane) f32_zero"

definition rolling_result :: "host \<Rightarrow> (nat \<Rightarrow> vs_frame) \<Rightarrow> bm3d_build \<Rightarrow> bm3d_params \<Rightarrow> video_info \<Rightarrow> bool \<Rightarrow> int \<Rightarrow> int \<Rightarrow> rolling_plane" where
  "rolling_result H frames B p vi ref plane n =
     (if unfiltered p plane
      then let (src, stride) = source_plane frames (ho_source H 0 n) plane in rolling_store_plane src (plane_width vi plane) (plane_height vi plane) stride
      else filtered_plane H frames B (if bp_chroma p then chroma_job p vi ref else plane_job p vi ref plane) plane n)"

definition chunk_exact :: "host \<Rightarrow> (nat \<Rightarrow> vs_frame) \<Rightarrow> bm3d_build \<Rightarrow> bm3d_params \<Rightarrow> video_info \<Rightarrow> bool \<Rightarrow> int \<Rightarrow> int \<Rightarrow> rolling_chunk \<Rightarrow> bool" where
  "chunk_exact H frames B p vi ref start cnt chunk \<longleftrightarrow>
     rs_start chunk = start \<and> rs_count chunk = cnt \<and>
     (\<forall>i plane. 0 \<le> i \<longrightarrow> i < cnt \<longrightarrow> 0 \<le> plane \<longrightarrow> plane < vi_planes vi \<longrightarrow>
        rs_frames chunk i plane = rolling_result H frames B p vi ref plane (start + i))"

text \<open>A carry for the chunk at \<open>start\<close>: of every filtered plane, the sums after the last center of the chunk before.\<close>

definition carry_exact :: "host \<Rightarrow> (nat \<Rightarrow> vs_frame) \<Rightarrow> bm3d_build \<Rightarrow> bm3d_params \<Rightarrow> video_info \<Rightarrow> bool \<Rightarrow> int \<Rightarrow> rolling_carry \<Rightarrow> bool" where
  "carry_exact H frames B p vi ref start f \<longleftrightarrow>
     rc_start f = start \<and> 0 < start \<and>
     (if bp_chroma p then from_ok H frames B (chroma_job p vi ref) start (Some (rc_targets f, \<lambda>c. rc_sums f (int c)))
      else \<forall>plane. 0 \<le> plane \<longrightarrow> plane < vi_planes vi \<longrightarrow> \<not> unfiltered p plane \<longrightarrow>
        from_ok H frames B (plane_job p vi ref plane) start (Some (rc_targets f, \<lambda>_. rc_sums f plane)))"

lemma chunk_chroma_step:
  assumes J: "job_ok H frames B (chroma_job p vi ref)" and ch: "bp_chroma p" "vi_planes vi = 3"
    and start: "0 \<le> start" "0 < cnt" "start + cnt \<le> vi_num_frames vi" and fr: "\<forall>f. from' = Some f \<longrightarrow> carry_exact H frames B p vi ref start f"
  shows "outcome (holds H frames M) (fill_chunk_chroma H B p vi ref start cnt from' (empty_chunk start cnt))
    (\<lambda>(chunk, nxt) s. (chunk_exact H frames B p vi ref start cnt chunk \<and> (\<forall>f. nxt = Some f \<longrightarrow> carry_exact H frames B p vi ref (start + cnt) f) \<and>
       (nxt \<noteq> None \<longleftrightarrow> 0 < carry_targets (bp_radius p) (vi_num_frames vi) start cnt \<and> rj_active (chroma_job p vi ref) \<noteq> [])) \<and> holds H frames M s) (failed H)"
proof -
  let ?J = "chroma_job p vi ref"
  let ?nch = "length (rj_active ?J)" and ?ct = "carry_targets (bp_radius p) (vi_num_frames vi) start cnt"
  let ?targets = "if ?nch = 0 then 0 else ?ct" and ?last = "chunk_last (bp_radius p) (vi_num_frames vi) start cnt"
  let ?rings = "rings_ok H frames B ?J (?last + 1 - bp_radius p) (start + cnt) ?last"
  let ?save = "\<lambda>rings c sums. bind_act (save_carry_act H ?J (start + cnt) ?targets (rings c)) (\<lambda>saved. return_act (sums(int c := saved)))"
  have f: "rj_r ?J = bp_radius p" "rj_frames ?J = vi_num_frames vi" "set (rj_read ?J) = {0, 1, 2}" "rj_width ?J = plane_width vi 0" "rj_height ?J = plane_height vi 0"
    by (auto simp: chroma_job_def)
  have act: "plane \<in> set (rj_active ?J) \<longleftrightarrow> \<not> unfiltered p plane" if "0 \<le> plane" "plane < 3" for plane
  proof -
    have "plane = 0 \<or> plane = 1 \<or> plane = 2" using that by auto
    then show ?thesis by (auto simp: chroma_job_def unfiltered_def)
  qed
  have sizes: "plane_width vi plane = plane_width vi 0 \<and> plane_height vi plane = plane_height vi 0" if "plane \<in> {0, 1, 2}" for plane
    using J that unfolding job_ok_def f by (auto simp: chroma_job_def)
  have H: "host_ok H" using J by (simp add: job_ok_def)
  have from1: "from_ok H frames B ?J start (map_option (\<lambda>f. (rc_targets f, \<lambda>c. rc_sums f (int c))) from')"
    using fr ch(1) by (cases from') (auto simp: carry_exact_def from_ok_def)
  have exact: "chunk_exact H frames B p vi ref start cnt chunk" if "frames_done H frames B ?J start (start + cnt) (empty_chunk start cnt) chunk" for chunk
  proof -
    have pl: "plane \<in> {0, 1, 2}" if "0 \<le> plane" "plane < 3" for plane :: int using that by auto
    have "job_plane H frames B ?J plane n = rolling_result H frames B p vi ref plane n" if b: "0 \<le> plane" "plane < 3" for plane n
      using act [OF b] sizes [OF pl [OF b]] ch(1) by (simp add: job_plane_def rolling_result_def f)
    moreover note pl
    ultimately show ?thesis using that ch(2) unfolding chunk_exact_def frames_done_def f by (simp add: empty_chunk_def)
  qed
  have save: "outcome (holds H frames M) (fold_act (?save rings) [0..<?nch] (\<lambda>_ _. f32_zero))
      (\<lambda>sums s. (\<forall>c < ?nch. sums (int c) = ring_save (rj_r ?J) (rj_size ?J) (start + cnt) ?targets (rings c)) \<and> holds H frames M s) (failed H)" for rings
  proof (rule outcome_weaken [OF outcome_fold [where I = "\<lambda>cs sums s. (\<forall>c \<in> set cs. sums (int c) = ring_save (rj_r ?J) (rj_size ?J) (start + cnt) ?targets (rings c)) \<and> holds H frames M s"]])
    fix cs0 c cs1 sums
    assume x: "[0..<?nch] = cs0 @ c # cs1"
    show "outcome (\<lambda>s. (\<forall>c \<in> set cs0. sums (int c) = ring_save (rj_r ?J) (rj_size ?J) (start + cnt) ?targets (rings c)) \<and> holds H frames M s) (?save rings c sums)
        (\<lambda>sums s. (\<forall>c \<in> set (cs0 @ [c]). sums (int c) = ring_save (rj_r ?J) (rj_size ?J) (start + cnt) ?targets (rings c)) \<and> holds H frames M s) (failed H)"
      by (rule outcome_pure, rule bind_hold [OF save_carry_step [OF H]]) (auto intro!: outcome_return)
  qed auto
  have saved: "carry_exact H frames B p vi ref (start + cnt) \<lparr>rc_start = start + cnt, rc_targets = ?targets, rc_sums = sums\<rparr>"
    if r: "?rings rings" and t: "0 < ?targets" and s: "\<forall>c < ?nch. sums (int c) = ring_save (rj_r ?J) (rj_size ?J) (start + cnt) ?targets (rings c)" for rings sums
  proof -
    have nch: "?nch \<noteq> 0" and te: "?targets = ?ct" using t by (auto split: if_splits)
    have "carry_ok (sd_scalar (bb_simd B)) (rj_r ?J) (rj_size ?J) (rj_frames ?J) (center_sums H frames B ?J (rj_active ?J ! c)) (start + cnt) ?ct
        (temporal_last (start + cnt - 1) (rj_r ?J) (rj_frames ?J)) (sums (int c))" if c: "c < ?nch" for c
      using saved_carry [OF J start(1,2) _ c, unfolded f, OF start(3) r] s c te by (simp add: f)
    then show ?thesis using ch(1) start unfolding te by (simp add: carry_exact_def from_ok_def)
  qed
  show ?thesis
    unfolding fill_chunk_chroma_def Let_def
  proof (rule outcome_bind [OF fill_job_step [OF J start(1,2) _ from1, unfolded f, OF start(3)]])
    fix v :: "rings \<times> rolling_chunk"
    obtain rings chunk where v: "v = (rings, chunk)" by (cases v)
    show "outcome ((case v of (rings, chunk') \<Rightarrow> \<lambda>s. (?rings rings \<and> frames_done H frames B ?J start (start + cnt) (empty_chunk start cnt) chunk') \<and> holds H frames M s))
        (case v of (rings, chunk) \<Rightarrow> if 0 < ?targets
           then bind_act (fold_act (?save rings) [0..<?nch] (\<lambda>_ _. f32_zero)) (\<lambda>sums. return_act (chunk, Some \<lparr>rc_start = start + cnt, rc_targets = ?targets, rc_sums = sums\<rparr>))
           else return_act (chunk, None))
        (\<lambda>(chunk, nxt) s. (chunk_exact H frames B p vi ref start cnt chunk \<and> (\<forall>f. nxt = Some f \<longrightarrow> carry_exact H frames B p vi ref (start + cnt) f) \<and>
           (nxt \<noteq> None \<longleftrightarrow> 0 < ?ct \<and> rj_active ?J \<noteq> [])) \<and> holds H frames M s) (failed H)"
      unfolding v prod.case
    proof (rule outcome_pure)
      assume d: "?rings rings \<and> frames_done H frames B ?J start (start + cnt) (empty_chunk start cnt) chunk"
      show "outcome (holds H frames M)
        (if 0 < ?targets
           then bind_act (fold_act (?save rings) [0..<?nch] (\<lambda>_ _. f32_zero)) (\<lambda>sums. return_act (chunk, Some \<lparr>rc_start = start + cnt, rc_targets = ?targets, rc_sums = sums\<rparr>))
           else return_act (chunk, None))
        (\<lambda>(chunk, nxt) s. (chunk_exact H frames B p vi ref start cnt chunk \<and> (\<forall>f. nxt = Some f \<longrightarrow> carry_exact H frames B p vi ref (start + cnt) f) \<and>
           (nxt \<noteq> None \<longleftrightarrow> 0 < ?ct \<and> rj_active ?J \<noteq> [])) \<and> holds H frames M s) (failed H)"
      proof (cases "0 < ?targets")
        case True
        then have te: "0 < ?ct" "rj_active ?J \<noteq> []" by (auto split: if_splits)
        show ?thesis unfolding if_P [OF True]
          by (rule bind_hold [OF save], rule outcome_return) (use exact [of chunk] saved [OF _ True] d te in auto)
      next
        case False
        then show ?thesis using exact [of chunk] d by (auto intro!: outcome_return split: if_splits)
      qed
    qed
  qed simp
qed
text \<open>The planes \<open>xs\<close> of a chunk are done, with their part of the carry.\<close>

definition carried_planes :: "host \<Rightarrow> (nat \<Rightarrow> vs_frame) \<Rightarrow> bm3d_build \<Rightarrow> bm3d_params \<Rightarrow> video_info \<Rightarrow> bool \<Rightarrow> int \<Rightarrow> int \<Rightarrow> int list \<Rightarrow> rolling_chunk \<times> (int \<Rightarrow> buffer) \<Rightarrow> bool" where
  "carried_planes H frames B p vi ref start cnt xs st \<longleftrightarrow>
     rs_start (fst st) = start \<and> rs_count (fst st) = cnt \<and>
     (\<forall>plane \<in> set xs. (\<forall>i. 0 \<le> i \<longrightarrow> i < cnt \<longrightarrow> rs_frames (fst st) i plane = rolling_result H frames B p vi ref plane (start + i)) \<and>
        (\<not> unfiltered p plane \<longrightarrow> 0 < carry_targets (bp_radius p) (vi_num_frames vi) start cnt \<longrightarrow>
           from_ok H frames B (plane_job p vi ref plane) (start + cnt) (Some (carry_targets (bp_radius p) (vi_num_frames vi) start cnt, \<lambda>_. snd st plane))))"

lemma carried_planes_add:
  assumes "carried_planes H frames B p vi ref start cnt xs (chunk, carried)" "plane \<notin> set xs"
    and "rs_start chunk' = rs_start chunk" "rs_count chunk' = rs_count chunk" "\<And>i q. q \<noteq> plane \<Longrightarrow> rs_frames chunk' i q = rs_frames chunk i q"
    and "\<And>q. q \<noteq> plane \<Longrightarrow> carried' q = carried q"
    and "\<And>i. 0 \<le> i \<Longrightarrow> i < cnt \<Longrightarrow> rs_frames chunk' i plane = rolling_result H frames B p vi ref plane (start + i)"
    and "\<not> unfiltered p plane \<Longrightarrow> 0 < carry_targets (bp_radius p) (vi_num_frames vi) start cnt \<Longrightarrow>
      from_ok H frames B (plane_job p vi ref plane) (start + cnt) (Some (carry_targets (bp_radius p) (vi_num_frames vi) start cnt, \<lambda>_. carried' plane))"
  shows "carried_planes H frames B p vi ref start cnt (xs @ [plane]) (chunk', carried')"
proof -
  have same: "rs_frames chunk' i q = rs_frames chunk i q" "carried' q = carried q" if "q \<in> set xs" for i q
    using that assms(2) by (auto intro: assms(5,6))
  have old: "\<forall>q \<in> set xs. (\<forall>i. 0 \<le> i \<longrightarrow> i < cnt \<longrightarrow> rs_frames chunk' i q = rolling_result H frames B p vi ref q (start + i)) \<and>
        (\<not> unfiltered p q \<longrightarrow> 0 < carry_targets (bp_radius p) (vi_num_frames vi) start cnt \<longrightarrow>
           from_ok H frames B (plane_job p vi ref q) (start + cnt) (Some (carry_targets (bp_radius p) (vi_num_frames vi) start cnt, \<lambda>_. carried' q)))"
    using assms(1) by (simp add: carried_planes_def same)
  show ?thesis
    using assms(1,3,4) old assms(7,8) unfolding carried_planes_def fst_conv snd_conv set_append list.set Un_iff ball_Un by simp
qed

lemma plane_job_result:
  "\<not> bp_chroma p \<Longrightarrow> \<not> unfiltered p plane \<Longrightarrow> job_plane H frames B (plane_job p vi ref plane) plane n = rolling_result H frames B p vi ref plane n"
  by (simp add: job_plane_def rolling_result_def plane_job_def)

lemma carried_plane_step:
  assumes J: "job_ok H frames B (plane_job p vi ref plane)" and clips: "clips_formatted H frames vi ref" and plane: "0 \<le> plane" "plane < vi_planes vi"
    and start: "0 \<le> start" "0 < cnt" "start + cnt \<le> vi_num_frames vi" and ch: "\<not> bp_chroma p"
    and fr: "\<forall>f. from' = Some f \<longrightarrow> carry_exact H frames B p vi ref start f"
    and st: "carried_planes H frames B p vi ref start cnt xs (chunk, carried)" and new: "plane \<notin> set xs"
  defines "targets \<equiv> carry_targets (bp_radius p) (vi_num_frames vi) start cnt"
  shows "outcome (holds H frames M)
    (if f32_eq (bp_sigma p ! nat plane) f32_zero
     then bind_act (store_frames_act H vi plane start cnt chunk) (\<lambda>chunk. return_act (chunk, carried))
     else bind_act (fill_job_act H B (plane_job p vi ref plane) False start cnt (map_option (\<lambda>f. (rc_targets f, \<lambda>_. rc_sums f plane)) from') chunk) (\<lambda>(rings, chunk).
          if 0 < targets
          then bind_act (save_carry_act H (plane_job p vi ref plane) (start + cnt) targets (rings 0)) (\<lambda>saved. return_act (chunk, carried(plane := saved)))
          else return_act (chunk, carried)))
    (\<lambda>st s. carried_planes H frames B p vi ref start cnt (xs @ [plane]) st \<and> holds H frames M s) (failed H)"
proof (cases "f32_eq (bp_sigma p ! nat plane) f32_zero")
  case True
  have H: "host_ok H" using J by (simp add: job_ok_def)
  have un: "unfiltered p plane" using True by (simp add: unfiltered_def)
  show ?thesis
    unfolding if_P [OF True]
  proof (rule bind_hold [OF store_frames_step [OF H clips plane start(1,3)]], elim conjE, rule outcome_return, rule conjI)
    fix chunk' :: rolling_chunk
    assume c: "\<forall>i q. rs_frames chunk' i q =
         (if 0 \<le> i \<and> i < cnt \<and> q = plane
          then let (src, stride) = source_plane frames (ho_source H 0 (start + i)) plane in rolling_store_plane src (plane_width vi plane) (plane_height vi plane) stride
          else rs_frames chunk i q)" "rs_start chunk' = rs_start chunk" "rs_count chunk' = rs_count chunk"
    show "carried_planes H frames B p vi ref start cnt (xs @ [plane]) (chunk', carried)"
      by (rule carried_planes_add [OF st new c(2,3)]) (use c(1) un in \<open>simp_all add: rolling_result_def\<close>)
  qed assumption
next
  case False
  let ?J = "plane_job p vi ref plane"
  have H: "host_ok H" using J by (simp add: job_ok_def)
  have un: "\<not> unfiltered p plane" using False by (simp add: unfiltered_def)
  have f: "rj_r ?J = bp_radius p" "rj_frames ?J = vi_num_frames vi" "rj_active ?J = [plane]" "rj_read ?J = [plane]"
    by (simp_all add: plane_job_def)
  have from1: "from_ok H frames B ?J start (map_option (\<lambda>f. (rc_targets f, \<lambda>_. rc_sums f plane)) from')"
    using fr ch un plane by (cases from') (auto simp: carry_exact_def, simp add: from_ok_def)
  let ?last = "chunk_last (bp_radius p) (vi_num_frames vi) start cnt"
  let ?rings = "rings_ok H frames B ?J (?last + 1 - bp_radius p) (start + cnt) ?last"
  show ?thesis
    unfolding if_not_P [OF False]
  proof (rule outcome_bind [OF fill_job_step [OF J start(1,2) _ from1, unfolded f, OF start(3)]])
    fix v :: "rings \<times> rolling_chunk"
    obtain rings chunk' where v: "v = (rings, chunk')" by (cases v)
    show "outcome (case v of (rings, chunk') \<Rightarrow> \<lambda>s. (?rings rings \<and> frames_done H frames B ?J start (start + cnt) chunk chunk') \<and> holds H frames M s)
        (case v of (rings, chunk) \<Rightarrow>
          if 0 < targets
          then bind_act (save_carry_act H ?J (start + cnt) targets (rings 0)) (\<lambda>saved. return_act (chunk, carried(plane := saved)))
          else return_act (chunk, carried))
        (\<lambda>st s. carried_planes H frames B p vi ref start cnt (xs @ [plane]) st \<and> holds H frames M s) (failed H)"
      unfolding v prod.case
    proof (rule outcome_pure)
      assume d: "?rings rings \<and> frames_done H frames B ?J start (start + cnt) chunk chunk'"
      have fd: "rs_start chunk' = rs_start chunk" "rs_count chunk' = rs_count chunk"
        "\<And>i q. rs_frames chunk' i q = (if 0 \<le> i \<and> i < cnt \<and> q = plane then rolling_result H frames B p vi ref plane (start + i) else rs_frames chunk i q)"
        using d plane_job_result [OF ch un] by (auto simp: frames_done_def f)
      have add: "carried_planes H frames B p vi ref start cnt (xs @ [plane]) (chunk', carried')"
        if "\<And>q. q \<noteq> plane \<Longrightarrow> carried' q = carried q" "0 < targets \<Longrightarrow> from_ok H frames B ?J (start + cnt) (Some (targets, \<lambda>_. carried' plane))" for carried'
        by (rule carried_planes_add [OF st new fd(1,2)]) (use fd(3) that in \<open>simp_all add: targets_def\<close>)
      have ok: "from_ok H frames B ?J (start + cnt) (Some (targets, \<lambda>_. ring_save (rj_r ?J) (rj_size ?J) (start + cnt) targets (rings 0)))"
        using saved_carry [OF J start(1,2) _ _ conjunct1 [OF d, folded f], unfolded f, OF start(3), of 0] start
        by (simp add: from_ok_def f targets_def)
      show "outcome (holds H frames M)
        (if 0 < targets
          then bind_act (save_carry_act H ?J (start + cnt) targets (rings 0)) (\<lambda>saved. return_act (chunk', carried(plane := saved)))
          else return_act (chunk', carried))
        (\<lambda>st s. carried_planes H frames B p vi ref start cnt (xs @ [plane]) st \<and> holds H frames M s) (failed H)"
      proof (cases "0 < targets")
        case True
        show ?thesis unfolding if_P [OF True]
          by (rule bind_hold [OF save_carry_step [OF H]], rule outcome_return, rule conjI, rule add) (use ok in simp_all)
      next
        case nt: False
        show ?thesis unfolding if_not_P [OF nt] by (rule outcome_return, rule conjI, rule add) (use nt in simp_all)
      qed
    qed
  qed (simp add: f)
qed
lemma chunk_carried_step:
  assumes J: "\<And>plane. 0 \<le> plane \<Longrightarrow> plane < vi_planes vi \<Longrightarrow> job_ok H frames B (plane_job p vi ref plane)" and clips: "clips_formatted H frames vi ref"
    and start: "0 \<le> start" "0 < cnt" "start + cnt \<le> vi_num_frames vi" and ch: "\<not> bp_chroma p"
    and fr: "\<forall>f. from' = Some f \<longrightarrow> carry_exact H frames B p vi ref start f"
  shows "outcome (holds H frames M) (fill_chunk_carried H B p vi ref start cnt from' (empty_chunk start cnt))
    (\<lambda>(chunk, nxt) s. (chunk_exact H frames B p vi ref start cnt chunk \<and> (\<forall>f. nxt = Some f \<longrightarrow> carry_exact H frames B p vi ref (start + cnt) f) \<and>
       (nxt \<noteq> None \<longleftrightarrow> 0 < carry_targets (bp_radius p) (vi_num_frames vi) start cnt)) \<and> holds H frames M s) (failed H)"
proof -
  let ?ct = "carry_targets (bp_radius p) (vi_num_frames vi) start cnt"
  let ?done = "carried_planes H frames B p vi ref start cnt"
  let ?step = "\<lambda>plane (chunk, carried). if f32_eq (bp_sigma p ! nat plane) f32_zero
     then bind_act (store_frames_act H vi plane start cnt chunk) (\<lambda>chunk. return_act (chunk, carried))
     else bind_act (fill_job_act H B (plane_job p vi ref plane) False start cnt (map_option (\<lambda>f. (rc_targets f, \<lambda>_. rc_sums f plane)) from') chunk) (\<lambda>(rings, chunk).
          if 0 < ?ct
          then bind_act (save_carry_act H (plane_job p vi ref plane) (start + cnt) ?ct (rings 0)) (\<lambda>saved. return_act (chunk, carried(plane := saved)))
          else return_act (chunk, carried))"
  have planes: "outcome (\<lambda>s. ?done [] (empty_chunk start cnt, \<lambda>_ _. f32_zero) \<and> holds H frames M s)
      (fold_act ?step [0..vi_planes vi - 1] (empty_chunk start cnt, \<lambda>_ _. f32_zero)) (\<lambda>st s. ?done [0..vi_planes vi - 1] st \<and> holds H frames M s) (failed H)"
  proof (rule outcome_fold)
    fix xs0 plane xs1 and st :: "rolling_chunk \<times> (int \<Rightarrow> buffer)"
    assume x: "[0..vi_planes vi - 1] = xs0 @ plane # xs1"
    have "plane \<in> set [0..vi_planes vi - 1]" unfolding x by simp
    then have pl: "0 \<le> plane" "plane < vi_planes vi" by auto
    have "distinct (xs0 @ plane # xs1)" unfolding x [symmetric] by simp
    then have new: "plane \<notin> set xs0" by simp
    obtain chunk carried where st: "st = (chunk, carried)" by (cases st)
    show "outcome (\<lambda>s. ?done xs0 st \<and> holds H frames M s) (?step plane st) (\<lambda>st s. ?done (xs0 @ [plane]) st \<and> holds H frames M s) (failed H)"
      unfolding st prod.case by (rule outcome_pure) (rule carried_plane_step [OF J [OF pl] clips pl start ch fr _ new])
  qed
  have none: "?done [] (empty_chunk start cnt, \<lambda>_ _. f32_zero)" by (simp add: carried_planes_def empty_chunk_def)
  have result: "chunk_exact H frames B p vi ref start cnt chunk \<and>
      (0 < ?ct \<longrightarrow> carry_exact H frames B p vi ref (start + cnt) \<lparr>rc_start = start + cnt, rc_targets = ?ct, rc_sums = carried\<rparr>)"
    if "?done [0..vi_planes vi - 1] (chunk, carried)" for chunk carried
    using that start ch unfolding carried_planes_def chunk_exact_def carry_exact_def by auto
  show ?thesis
    unfolding fill_chunk_carried_def Let_def
  proof (rule bind_hold [OF outcome_weaken [OF planes]])
    fix v
    assume d: "?done [0..vi_planes vi - 1] v"
    obtain chunk carried where v: "v = (chunk, carried)" by (cases v)
    show "outcome (holds H frames M) (case v of (chunk, sums) \<Rightarrow> return_act (chunk, if 0 < ?ct then Some \<lparr>rc_start = start + cnt, rc_targets = ?ct, rc_sums = sums\<rparr> else None))
        (\<lambda>(chunk, nxt) s. (chunk_exact H frames B p vi ref start cnt chunk \<and> (\<forall>f. nxt = Some f \<longrightarrow> carry_exact H frames B p vi ref (start + cnt) f) \<and>
           (nxt \<noteq> None \<longleftrightarrow> 0 < ?ct)) \<and> holds H frames M s) (failed H)"
      using result [OF d [unfolded v]] unfolding v by (auto intro!: outcome_return)
  qed (use none in auto)
qed



end
