(* ===== verification/Bm3d_Cache.thy ===== *)
theory Bm3d_Cache
  imports Bm3d_Rolling Temporal_Args
begin

text \<open>
  The frame callback of the rolling BM3D and the cache of chunks behind it (\<open>RollingData\<close>,
  \<open>rollingGetFrame\<close> and the functions on chunks in src/host/filter_bm3d.cpp). What the mutex
  guards is a record, every section under the mutex is one operation, and any number of
  threads run them between the fills of their chunks. The resource accounts of the chunks, which
  follow them without changing them, are left out.
\<close>

subsection \<open>State and operations\<close>

record rolling_data =
  rd_chunk :: int
  rd_limit :: int
  rd_computing :: "int set"
  rd_carry :: "rolling_carry option"
  rd_cache :: "rolling_chunk list"

definition rolling_new :: "rolling_params \<Rightarrow> rolling_data" where
  "rolling_new q = \<lparr>rd_chunk = rp_chunk q, rd_limit = rp_cache_limit q, rd_computing = {}, rd_carry = None, rd_cache = []\<rparr>"

definition rolling_chunk_start :: "int \<Rightarrow> int \<Rightarrow> int" where
  "rolling_chunk_start n chunk = n div chunk * chunk"

definition rolling_chunk_count :: "int \<Rightarrow> int \<Rightarrow> int \<Rightarrow> int" where
  "rolling_chunk_count chunk frames start = min chunk (frames - start)"

text \<open>The frames of each node that are requested up front.\<close>

definition rolling_requests :: "int \<Rightarrow> int \<Rightarrow> int \<Rightarrow> int \<Rightarrow> int list" where
  "rolling_requests chunk radius frames n =
     (let start = rolling_chunk_start n chunk; cnt = rolling_chunk_count chunk frames start
      in [max 0 (start - 2 * radius)..temporal_last (start + cnt - 1) (2 * radius) frames])"

definition rolling_find_chunk :: "int \<Rightarrow> rolling_data \<Rightarrow> rolling_chunk option" where
  "rolling_find_chunk start d = find (\<lambda>c. rs_start c = start) (rd_cache d)"

definition rolling_touch_chunk :: "int \<Rightarrow> rolling_data \<Rightarrow> rolling_data" where
  "rolling_touch_chunk start d =
     (case dropWhile (\<lambda>c. rs_start c \<noteq> start) (rd_cache d) of
        [] \<Rightarrow> d
      | c # rest \<Rightarrow> d\<lparr>rd_cache := c # takeWhile (\<lambda>c. rs_start c \<noteq> start) (rd_cache d) @ rest\<rparr>)"

text \<open>The first section: the chunk is there, another thread computes it, or this one does, with the carry if it is for this chunk.\<close>

datatype rolling_lookup = Found rolling_chunk rolling_data | Awaited | Begun "rolling_carry option" rolling_data

definition rolling_look :: "int \<Rightarrow> rolling_data \<Rightarrow> rolling_lookup" where
  "rolling_look start d =
     (case rolling_find_chunk start d of
        Some hit \<Rightarrow> Found hit (rolling_touch_chunk start d)
      | None \<Rightarrow>
          if start \<in> rd_computing d then Awaited
          else let d = d\<lparr>rd_computing := insert start (rd_computing d)\<rparr>
               in case rd_carry d of
                    Some f \<Rightarrow> if rc_start f = start then Begun (Some f) (d\<lparr>rd_carry := None\<rparr>) else Begun None d
                  | None \<Rightarrow> Begun None d)"

text \<open>The second: the chunk is published, the oldest are dropped, and the carry of the furthest chunk is kept.\<close>

fun rolling_evict :: "int \<Rightarrow> rolling_chunk list \<Rightarrow> rolling_chunk list" where
  "rolling_evict limit cache = (if cache \<noteq> [] \<and> int (length cache) > limit then rolling_evict limit (butlast cache) else cache)"

declare rolling_evict.simps [simp del]

definition rolling_publish :: "rolling_chunk \<Rightarrow> rolling_carry option \<Rightarrow> rolling_data \<Rightarrow> rolling_data" where
  "rolling_publish computed nxt d =
     (let d = d\<lparr>rd_cache := rolling_evict (rd_limit d) (computed # rd_cache d)\<rparr>
      in case nxt of
           None \<Rightarrow> d
         | Some f \<Rightarrow>
             if (case rd_carry d of None \<Rightarrow> True | Some old \<Rightarrow> rc_start old < rc_start f) then d\<lparr>rd_carry := Some f\<rparr> else d)"

text \<open>The destructor of \<open>Computing\<close>: whatever happened, the chunk is no longer being computed.\<close>

definition rolling_end :: "int \<Rightarrow> rolling_data \<Rightarrow> rolling_data" where
  "rolling_end start d = d\<lparr>rd_computing := rd_computing d - {start}\<rparr>"

subsection \<open>The frame\<close>

definition rolling_plane_act :: "rolling_chunk \<Rightarrow> int \<Rightarrow> nat \<Rightarrow> int \<Rightarrow> (callback, unit) act" where
  "rolling_plane_act chunk n dst plane =
     bind_act (float_stride dst plane) (\<lambda>dstride.
     write_plane dst plane (rolling_write_plane dstride (rs_frames chunk (n - rs_start chunk) plane)))"

definition rolling_emit :: "host \<Rightarrow> video_info \<Rightarrow> rolling_chunk \<Rightarrow> int \<Rightarrow> (callback, nat) act" where
  "rolling_emit H vi chunk n =
     bind_act (get_frame H 0 n) (\<lambda>srcn.
     bind_act (new_frame H (vi_width vi) (vi_height vi) srcn) (\<lambda>dst.
     bind_act (write_props dst (stamp_contribution (ho_refuses H) 0 n M_bm3d)) (\<lambda>_.
     bind_act (free_act srcn) (\<lambda>_.
     bind_act (for_act (rolling_plane_act chunk n dst) [0..vi_planes vi - 1]) (\<lambda>_. keep_act H dst)))))"

subsection \<open>Threads\<close>

text \<open>
  A thread wants frame \<open>n\<close>, computes its chunk from a carry or afresh, has published it, or
  has the chunk its frame comes from. \<open>fill t start cnt from r\<close> says that the fill of thread
  \<open>t\<close> may return \<open>r\<close>; that it may throw is a step of its own.
\<close>

datatype rolling_pc = R_idle | R_want int | R_computing int "rolling_carry option" | R_published int rolling_chunk | R_ready int rolling_chunk

type_synonym rolling_fill = "nat \<Rightarrow> int \<Rightarrow> int \<Rightarrow> rolling_carry option \<Rightarrow> rolling_chunk \<times> rolling_carry option \<Rightarrow> bool"

type_synonym rolling_state = "rolling_data \<times> (nat \<Rightarrow> rolling_pc)"

inductive rolling_step :: "rolling_fill \<Rightarrow> int \<Rightarrow> rolling_state \<Rightarrow> rolling_state \<Rightarrow> bool" for fill frames where
  request: "pc t = R_idle \<Longrightarrow> 0 \<le> n \<Longrightarrow> n < frames \<Longrightarrow> rolling_step fill frames (d, pc) (d, pc(t := R_want n))"
| hit: "pc t = R_want n \<Longrightarrow> rolling_look (rolling_chunk_start n (rd_chunk d)) d = Found chunk d' \<Longrightarrow>
    rolling_step fill frames (d, pc) (d', pc(t := R_ready n chunk))"
| begin_: "pc t = R_want n \<Longrightarrow> rolling_look (rolling_chunk_start n (rd_chunk d)) d = Begun carried d' \<Longrightarrow>
    rolling_step fill frames (d, pc) (d', pc(t := R_computing n carried))"
| throws: "pc t = R_computing n carried \<Longrightarrow>
    rolling_step fill frames (d, pc) (rolling_end (rolling_chunk_start n (rd_chunk d)) d, pc(t := R_idle))"
| filled: "pc t = R_computing n carried \<Longrightarrow> start = rolling_chunk_start n (rd_chunk d) \<Longrightarrow>
    fill t start (rolling_chunk_count (rd_chunk d) frames start) carried (chunk, nxt) \<Longrightarrow>
    rolling_step fill frames (d, pc) (rolling_publish chunk nxt d, pc(t := R_published n chunk))"
| ended: "pc t = R_published n chunk \<Longrightarrow>
    rolling_step fill frames (d, pc) (rolling_end (rolling_chunk_start n (rd_chunk d)) d, pc(t := R_ready n chunk))"
| delivered: "pc t = R_ready n chunk \<Longrightarrow> rolling_step fill frames (d, pc) (d, pc(t := R_idle))"

inductive rolling_reachable :: "rolling_fill \<Rightarrow> int \<Rightarrow> rolling_params \<Rightarrow> rolling_state \<Rightarrow> bool" for fill frames q where
  start: "rolling_reachable fill frames q (rolling_new q, \<lambda>t. R_idle)"
| step: "rolling_reachable fill frames q s \<Longrightarrow> rolling_step fill frames s s' \<Longrightarrow> rolling_reachable fill frames q s'"

subsection \<open>The cache\<close>

lemma rolling_find_Some: "rolling_find_chunk start d = Some c \<Longrightarrow> c \<in> set (rd_cache d) \<and> rs_start c = start"
  by (auto simp: rolling_find_chunk_def find_Some_iff)

lemma rolling_find_None: "rolling_find_chunk start d = None \<longleftrightarrow> start \<notin> rs_start ` set (rd_cache d)"
  by (auto simp: rolling_find_chunk_def find_None_iff)

lemma rolling_touch:
  "mset (rd_cache (rolling_touch_chunk start d)) = mset (rd_cache d)" "rd_computing (rolling_touch_chunk start d) = rd_computing d"
  "rd_carry (rolling_touch_chunk start d) = rd_carry d" "rd_limit (rolling_touch_chunk start d) = rd_limit d"
  "rd_chunk (rolling_touch_chunk start d) = rd_chunk d"
proof -
  have "rd_cache d = takeWhile (\<lambda>c. rs_start c \<noteq> start) (rd_cache d) @ dropWhile (\<lambda>c. rs_start c \<noteq> start) (rd_cache d)" by simp
  then have "mset (rd_cache d) = mset (takeWhile (\<lambda>c. rs_start c \<noteq> start) (rd_cache d)) + mset (dropWhile (\<lambda>c. rs_start c \<noteq> start) (rd_cache d))"
    by (metis mset_append)
  then show "mset (rd_cache (rolling_touch_chunk start d)) = mset (rd_cache d)"
    by (auto simp: rolling_touch_chunk_def split: list.splits)
qed (auto simp: rolling_touch_chunk_def split: list.splits)

lemma rolling_evict_take: "0 \<le> limit \<Longrightarrow> rolling_evict limit cache = take (nat limit) cache"
proof (induction limit cache rule: rolling_evict.induct)
  case (1 limit cache)
  show ?case
  proof (cases "cache \<noteq> [] \<and> int (length cache) > limit")
    case True
    then have "nat limit \<le> length cache - 1" using 1(2) by auto
    then have "take (nat limit) (butlast cache) = take (nat limit) cache" by (simp add: butlast_conv_take min_def)
    then show ?thesis using 1 True by (simp add: rolling_evict.simps [of limit cache])
  next
    case False
    then show ?thesis using 1(2) by (subst rolling_evict.simps) auto
  qed
qed
subsection \<open>The interface of a fill\<close>

text \<open>
  What the cache relies on, for a filter whose arguments were accepted: a fill that starts from nothing or from a carry made for its chunk
  returns a good chunk, and a carry, if any, that is fine for the chunk it names.
\<close>

locale chunk_filler =
  fixes accepted :: bool and fill :: rolling_fill and frames :: int and size :: int and limit :: int
    and good :: "int \<Rightarrow> rolling_chunk \<Rightarrow> bool" and fine :: "int \<Rightarrow> rolling_carry \<Rightarrow> bool"
  assumes size: "accepted \<Longrightarrow> 1 \<le> size" and limit: "accepted \<Longrightarrow> 1 \<le> limit"
    and fill_good: "accepted \<Longrightarrow> 0 \<le> start \<Longrightarrow> start < frames \<Longrightarrow> (\<And>f. carried = Some f \<Longrightarrow> fine start f) \<Longrightarrow>
      fill t start (rolling_chunk_count size frames start) carried (chunk, nxt) \<Longrightarrow>
      rs_start chunk = start \<and> good start chunk \<and> (\<forall>f. nxt = Some f \<longrightarrow> fine (rc_start f) f)"
begin

definition data_ok :: "rolling_data \<Rightarrow> bool" where
  "data_ok d \<longleftrightarrow>
     rd_chunk d = size \<and> rd_limit d = limit \<and> distinct (map rs_start (rd_cache d)) \<and> int (length (rd_cache d)) \<le> limit \<and>
     (\<forall>c \<in> set (rd_cache d). good (rs_start c) c) \<and> (\<forall>f. rd_carry d = Some f \<longrightarrow> fine (rc_start f) f)"

abbreviation inside :: "int \<Rightarrow> bool" where "inside n \<equiv> 0 \<le> n \<and> n < frames"

fun pc_ok :: "rolling_data \<Rightarrow> rolling_pc \<Rightarrow> bool" where
  "pc_ok d R_idle = True"
| "pc_ok d (R_want n) = inside n"
| "pc_ok d (R_computing n carried) =
     (inside n \<and> (\<forall>f. carried = Some f \<longrightarrow> fine (rolling_chunk_start n size) f) \<and> rolling_chunk_start n size \<notin> rs_start ` set (rd_cache d))"
| "pc_ok d (R_published n c) = (inside n \<and> rs_start c = rolling_chunk_start n size \<and> good (rolling_chunk_start n size) c)"
| "pc_ok d (R_ready n c) = (inside n \<and> rs_start c = rolling_chunk_start n size \<and> good (rolling_chunk_start n size) c)"

fun busy :: "rolling_pc \<Rightarrow> int option" where
  "busy (R_computing n carried) = Some (rolling_chunk_start n size)"
| "busy (R_published n c) = Some (rolling_chunk_start n size)"
| "busy p = None"

definition pcs_ok :: "rolling_data \<Rightarrow> (nat \<Rightarrow> rolling_pc) \<Rightarrow> bool" where
  "pcs_ok d pc \<longleftrightarrow>
     (\<forall>t. pc_ok d (pc t)) \<and> (\<forall>s. s \<in> rd_computing d \<longleftrightarrow> (\<exists>t. busy (pc t) = Some s)) \<and>
     (\<forall>t t' s. busy (pc t) = Some s \<longrightarrow> busy (pc t') = Some s \<longrightarrow> t = t')"

definition inv :: "rolling_state \<Rightarrow> bool" where
  "inv st \<longleftrightarrow> data_ok (fst st) \<and> pcs_ok (fst st) (snd st)"

text \<open>A step that does not take a chunk or give one back.\<close>

lemma pcs_move:
  assumes "pcs_ok d pc" "busy x = busy (pc t)" "pc_ok d' x" "rd_computing d' = rd_computing d"
    and "\<And>u. u \<noteq> t \<Longrightarrow> pc_ok d (pc u) \<Longrightarrow> pc_ok d' (pc u)"
  shows "pcs_ok d' (pc(t := x))"
proof -
  have b: "busy ((pc(t := x)) u) = busy (pc u)" for u using assms(2) by simp
  show ?thesis using assms unfolding pcs_ok_def b by simp
qed

lemma pcs_end:
  assumes "pcs_ok d pc" "busy (pc t) = Some s" "busy x = None" "pc_ok (rolling_end s d) x"
  shows "pcs_ok (rolling_end s d) (pc(t := x))"
proof -
  have cache: "rd_cache (rolling_end s d) = rd_cache d" by (simp add: rolling_end_def)
  have same: "pc_ok (rolling_end s d) p = pc_ok d p" for p by (cases p) (simp_all add: cache)
  have other: "u \<noteq> t \<Longrightarrow> busy (pc u) \<noteq> Some s" for u using assms(1,2) unfolding pcs_ok_def by blast
  have bu: "busy ((pc(t := x)) u) = Some r \<longleftrightarrow> r \<noteq> s \<and> busy (pc u) = Some r" for u r
    using assms(2,3) other [of u] by (cases "u = t") auto
  have ok: "pc_ok (rolling_end s d) ((pc(t := x)) u)" for u
    using assms(1,4) by (cases "u = t") (auto simp: same pcs_ok_def)
  have comp: "r \<in> rd_computing (rolling_end s d) \<longleftrightarrow> (\<exists>u. busy ((pc(t := x)) u) = Some r)" for r
    unfolding bu using assms(1) by (auto simp: rolling_end_def pcs_ok_def)
  show ?thesis unfolding pcs_ok_def bu comp using ok assms(1) by (auto simp: pcs_ok_def bu)
qed

lemma roll_start: "accepted \<Longrightarrow> rolling_new q = d \<Longrightarrow> rp_chunk q = size \<Longrightarrow> rp_cache_limit q = limit \<Longrightarrow> inv (d, \<lambda>t. R_idle)"
  using limit by (auto simp: inv_def data_ok_def pcs_ok_def rolling_new_def)

lemma chunk_start_inside: "accepted \<Longrightarrow> inside n \<Longrightarrow> inside (rolling_chunk_start n size)"
proof -
  assume acc: "accepted" and n: "inside n"
  have "n div size * size = n - n mod size" by (simp add: minus_mod_eq_div_mult)
  moreover have "0 \<le> n mod size" "n mod size \<le> n" using size [OF acc] n by (simp_all add: zmod_le_nonneg_dividend)
  ultimately show ?thesis using n by (simp add: rolling_chunk_start_def)
qed

lemma roll_hit:
  assumes "inv (d, pc)" "pc t = R_want n" "rolling_look (rolling_chunk_start n (rd_chunk d)) d = Found chunk d'"
  shows "inv (d', pc(t := R_ready n chunk))"
proof -
  let ?s = "rolling_chunk_start n size"
  have s: "rd_chunk d = size" and ok: "data_ok d" "pcs_ok d pc" using assms(1) by (simp_all add: inv_def data_ok_def)
  have f: "rolling_find_chunk ?s d = Some chunk" and d': "d' = rolling_touch_chunk ?s d"
    using assms(3) by (auto simp: rolling_look_def s Let_def split: option.splits if_splits)
  note t = rolling_touch [of ?s d, folded d'] and c = rolling_find_Some [OF f]
  have set: "set (rd_cache d') = set (rd_cache d)" using t(1) by (metis set_mset_mset)
  have "mset (map rs_start (rd_cache d')) = mset (map rs_start (rd_cache d))" using t(1) by simp
  then have "distinct (map rs_start (rd_cache d'))" using ok(1) by (metis data_ok_def distinct_count_atmost_1 set_mset_mset)
  moreover have "length (rd_cache d') = length (rd_cache d)" using t(1) by (metis size_mset)
  ultimately have "data_ok d'" using ok(1) t set by (simp add: data_ok_def)
  moreover have "pcs_ok d' (pc(t := R_ready n chunk))"
  proof (rule pcs_move [OF ok(2)])
    have "pc_ok d (R_want n)" using ok(2) assms(2) by (metis pcs_ok_def)
    moreover have "good (rs_start chunk) chunk" using conjunct1 [OF c] ok(1) unfolding data_ok_def by blast
    ultimately show "pc_ok d' (R_ready n chunk)" using c by simp
    show "pc_ok d (pc u) \<Longrightarrow> pc_ok d' (pc u)" for u by (cases "pc u") (simp_all add: set)
  qed (use assms(2) t in simp_all)
  ultimately show ?thesis by (simp add: inv_def)
qed

lemma roll_begin:
  assumes "inv (d, pc)" "pc t = R_want n" "rolling_look (rolling_chunk_start n (rd_chunk d)) d = Begun carried d'"
  shows "inv (d', pc(t := R_computing n carried))"
proof -
  let ?s = "rolling_chunk_start n size"
  have s: "rd_chunk d = size" and ok: "data_ok d" "pcs_ok d pc" using assms(1) by (simp_all add: inv_def data_ok_def)
  have look: "rolling_find_chunk ?s d = None" "?s \<notin> rd_computing d"
    and d': "rd_cache d' = rd_cache d" "rd_chunk d' = rd_chunk d" "rd_limit d' = rd_limit d" "rd_computing d' = insert ?s (rd_computing d)"
    and carry: "\<And>f. carried = Some f \<Longrightarrow> rd_carry d = Some f \<and> rc_start f = ?s" "\<And>f. rd_carry d' = Some f \<Longrightarrow> rd_carry d = Some f"
    using assms(3) by (auto simp: rolling_look_def s Let_def split: option.splits if_splits)
  have data: "data_ok d'" using ok(1) carry(2) by (simp add: data_ok_def d')
  have want: "inside n" using ok(2) assms(2) by (metis pcs_ok_def pc_ok.simps(2))
  have fresh: "?s \<notin> rs_start ` set (rd_cache d)" using look(1) by (simp add: rolling_find_None)
  have fine: "fine ?s f" if "carried = Some f" for f using carry(1) [OF that] ok(1) by (auto simp: data_ok_def)
  have same: "pc_ok d' p = pc_ok d p" for p by (cases p) (simp_all add: d')
  have none: "busy (pc u) \<noteq> Some ?s" for u using ok(2) look(2) unfolding pcs_ok_def by blast
  have tn: "busy (pc t) = None" by (simp add: assms(2))
  have "pcs_ok d' (pc(t := R_computing n carried))"
    unfolding pcs_ok_def
  proof (intro conjI allI impI)
    fix u
    show "pc_ok d' ((pc(t := R_computing n carried)) u)"
      using ok(2) want fresh fine same [of "pc u"] by (cases "u = t") (simp_all add: pcs_ok_def d')
  next
    fix r
    show "r \<in> rd_computing d' \<longleftrightarrow> (\<exists>u. busy ((pc(t := R_computing n carried)) u) = Some r)"
    proof
      assume "r \<in> rd_computing d'"
      then consider "r = ?s" | "r \<in> rd_computing d" using d'(4) by blast
      then show "\<exists>u. busy ((pc(t := R_computing n carried)) u) = Some r"
      proof cases
        case 1
        then show ?thesis by (intro exI [of _ t]) simp
      next
        case 2
        then obtain u where "busy (pc u) = Some r" using ok(2) by (auto simp: pcs_ok_def)
        moreover from this have "u \<noteq> t" using tn by auto
        ultimately show ?thesis by (intro exI [of _ u]) simp
      qed
    next
      assume "\<exists>u. busy ((pc(t := R_computing n carried)) u) = Some r"
      then obtain u where u: "busy ((pc(t := R_computing n carried)) u) = Some r" by blast
      show "r \<in> rd_computing d'"
      proof (cases "u = t")
        case True
        then show ?thesis using u d'(4) by simp
      next
        case False
        then have "busy (pc u) = Some r" using u by simp
        then show ?thesis using ok(2) d'(4) unfolding pcs_ok_def by blast
      qed
    qed
  next
    fix u v r
    assume a: "busy ((pc(t := R_computing n carried)) u) = Some r" "busy ((pc(t := R_computing n carried)) v) = Some r"
    have "u = t \<longleftrightarrow> r = ?s" "v = t \<longleftrightarrow> r = ?s" using a none by (auto split: if_splits)
    then show "u = v" using a ok(2) unfolding pcs_ok_def by (cases "u = t") auto
  qed
  then show ?thesis using data by (simp add: inv_def)
qed

end
context chunk_filler
begin

lemma roll_filled:
  assumes acc: "accepted"
    and "inv (d, pc)" "pc t = R_computing n carried" "start = rolling_chunk_start n (rd_chunk d)"
    and "fill t start (rolling_chunk_count (rd_chunk d) frames start) carried (chunk, nxt)"
  shows "inv (rolling_publish chunk nxt d, pc(t := R_published n chunk))"
proof -
  let ?d = "rolling_publish chunk nxt d"
  have ok: "data_ok d" "pcs_ok d pc" and s: "rd_chunk d = size" "rd_limit d = limit" using assms(2) by (simp_all add: inv_def data_ok_def)
  have start: "start = rolling_chunk_start n size" using assms(4) s by simp
  have p: "inside n" "\<And>f. carried = Some f \<Longrightarrow> fine start f" "start \<notin> rs_start ` set (rd_cache d)"
    using ok(2) assms(3) unfolding pcs_ok_def start by (metis pc_ok.simps(3))+
  have g: "rs_start chunk = start" "good start chunk" "\<And>f. nxt = Some f \<Longrightarrow> fine (rc_start f) f"
    using fill_good [OF acc, of start carried t chunk nxt] p(2) chunk_start_inside [OF acc p(1), folded start] assms(5) s by auto
  have cache: "rd_cache ?d = take (nat limit) (chunk # rd_cache d)"
    using limit [OF acc] s by (simp add: rolling_publish_def Let_def rolling_evict_take split: option.splits)
  have rest: "rd_chunk ?d = size" "rd_limit ?d = limit" "rd_computing ?d = rd_computing d"
    "\<And>f. rd_carry ?d = Some f \<Longrightarrow> rd_carry d = Some f \<or> nxt = Some f"
    using s by (auto simp: rolling_publish_def Let_def split: option.splits if_splits)
  have set: "set (rd_cache ?d) \<subseteq> insert chunk (set (rd_cache d))" unfolding cache using set_take_subset by fastforce
  have "distinct (map rs_start (chunk # rd_cache d))" using ok(1) p(3) g(1) by (simp add: data_ok_def)
  then have "distinct (map rs_start (rd_cache ?d))" unfolding cache take_map [symmetric] by (rule distinct_take)
  moreover have "int (length (rd_cache ?d)) \<le> limit" unfolding cache using limit [OF acc] by simp
  moreover have "good (rs_start c) c" if "c \<in> set (rd_cache ?d)" for c
    using that set ok(1) g by (auto simp: data_ok_def)
  moreover have "fine (rc_start f) f" if "rd_carry ?d = Some f" for f
    using rest(4) [OF that] ok(1) g(3) by (auto simp: data_ok_def)
  ultimately have data: "data_ok ?d" using rest by (simp add: data_ok_def)
  have "pcs_ok ?d (pc(t := R_published n chunk))"
  proof (rule pcs_move [OF ok(2)])
    show "pc_ok ?d (R_published n chunk)" using p(1) g start by simp
    fix u
    assume u: "u \<noteq> t" "pc_ok d (pc u)"
    have "busy (pc u) \<noteq> Some start"
    proof
      assume "busy (pc u) = Some start"
      moreover have "busy (pc t) = Some start" by (simp add: assms(3) start)
      ultimately show False using ok(2) u(1) unfolding pcs_ok_def by blast
    qed
    then show "pc_ok ?d (pc u)" using u(2) set g(1) by (cases "pc u") auto
  qed (use assms(3) rest in simp_all)
  then show ?thesis using data by (simp add: inv_def)
qed

lemma roll_end:
  assumes "inv (d, pc)" "busy (pc t) = Some s" "busy x = None" "pc_ok (rolling_end s d) x"
  shows "inv (rolling_end s d, pc(t := x))"
proof -
  have "data_ok (rolling_end s d)" using assms(1) by (simp add: inv_def data_ok_def rolling_end_def)
  moreover have "pcs_ok (rolling_end s d) (pc(t := x))" using assms by (intro pcs_end) (simp_all add: inv_def)
  ultimately show ?thesis by (simp add: inv_def)
qed

lemma roll_step: "rolling_step fill frames st st' \<Longrightarrow> accepted \<Longrightarrow> inv st \<Longrightarrow> inv st'"
proof (induction rule: rolling_step.induct)
  case (request pc t n d)
  then show ?case using pcs_move [of d pc "R_want n" t d] by (simp add: inv_def)
next
  case (hit pc t n d chunk d')
  show ?case by (rule roll_hit [OF hit.prems(2) hit.hyps])
next
  case (begin_ pc t n d carried d')
  show ?case by (rule roll_begin [OF begin_.prems(2) begin_.hyps])
next
  case (throws pc t n carried d)
  then have "rd_chunk d = size" by (simp add: inv_def data_ok_def)
  then show ?case using roll_end [OF throws.prems(2), of t "rolling_chunk_start n size" R_idle] throws.hyps by simp
next
  case (filled pc t n carried start d chunk nxt)
  show ?case by (rule roll_filled [OF filled.prems filled.hyps])
next
  case (ended pc t n chunk d)
  have s: "rd_chunk d = size" using ended.prems by (simp add: inv_def data_ok_def)
  have "pc_ok d (pc t)" using ended.prems unfolding inv_def pcs_ok_def snd_conv fst_conv by blast
  then have "pc_ok (rolling_end (rolling_chunk_start n size) d) (R_ready n chunk)" using ended.hyps by simp
  then show ?case using roll_end [OF ended.prems(2), of t "rolling_chunk_start n size" "R_ready n chunk"] ended.hyps s by simp
next
  case (delivered pc t n chunk d)
  then show ?case using pcs_move [of d pc R_idle t d] by (simp add: inv_def)
qed

lemma reachable_inv:
  assumes "rolling_reachable fill frames q st" "accepted" "rp_chunk q = size" "rp_cache_limit q = limit"
  shows "inv st"
  using assms(1)
proof (induction rule: rolling_reachable.induct)
  case start
  show ?case by (rule roll_start [OF assms(2) refl assms(3,4)])
next
  case (step s s')
  then show ?case using roll_step assms(2) by blast
qed

text \<open>What the invariant says, without its definitions.\<close>

lemma reachable_facts:
  assumes "rolling_reachable fill frames q (d, pc)" "accepted" "rp_chunk q = size" "rp_cache_limit q = limit"
  shows "int (length (rd_cache d)) \<le> limit" "distinct (map rs_start (rd_cache d))" "c \<in> set (rd_cache d) \<Longrightarrow> good (rs_start c) c"
    "rd_carry d = Some f \<Longrightarrow> fine (rc_start f) f"
    "pc t = R_ready n chunk \<Longrightarrow> inside n \<and> rs_start chunk = rolling_chunk_start n size \<and> good (rolling_chunk_start n size) chunk"
    "pc t = R_computing n carried \<Longrightarrow> pc u = R_computing m carried' \<Longrightarrow> rolling_chunk_start n size = rolling_chunk_start m size \<Longrightarrow> t = u"
    "pc t = R_computing n carried \<Longrightarrow> rolling_chunk_start n size \<notin> rs_start ` set (rd_cache d)"
proof -
  have ok: "data_ok d" "pcs_ok d pc" using reachable_inv [OF assms] by (simp_all add: inv_def)
  show "int (length (rd_cache d)) \<le> limit" "distinct (map rs_start (rd_cache d))" "c \<in> set (rd_cache d) \<Longrightarrow> good (rs_start c) c"
    "rd_carry d = Some f \<Longrightarrow> fine (rc_start f) f" using ok(1) by (auto simp: data_ok_def)
  have pcs: "pc_ok d (pc u)" for u using ok(2) unfolding pcs_ok_def by blast
  show "pc t = R_ready n chunk \<Longrightarrow> inside n \<and> rs_start chunk = rolling_chunk_start n size \<and> good (rolling_chunk_start n size) chunk"
    "pc t = R_computing n carried \<Longrightarrow> rolling_chunk_start n size \<notin> rs_start ` set (rd_cache d)"
    using pcs [of t] by simp_all
  have one: "busy (pc t) = Some r \<Longrightarrow> busy (pc u) = Some r \<Longrightarrow> t = u" for r using ok(2) unfolding pcs_ok_def by blast
  show "pc t = R_computing n carried \<Longrightarrow> pc u = R_computing m carried' \<Longrightarrow> rolling_chunk_start n size = rolling_chunk_start m size \<Longrightarrow> t = u"
    by (rule one) simp_all
qed

text \<open>A thread that waits, waits for one that computes its chunk or has just published it.\<close>

lemma waits_for:
  assumes "rolling_reachable fill frames q (d, pc)" "accepted" "rp_chunk q = size" "rp_cache_limit q = limit"
    and "pc t = R_want n" "rolling_look (rolling_chunk_start n (rd_chunk d)) d = Awaited"
  shows "\<exists>u. u \<noteq> t \<and> busy (pc u) = Some (rolling_chunk_start n size)"
proof -
  have ok: "data_ok d" "pcs_ok d pc" using reachable_inv [OF assms(1-4)] by (simp_all add: inv_def)
  have "rolling_chunk_start n size \<in> rd_computing d"
    using assms(6) ok(1) by (auto simp: rolling_look_def data_ok_def Let_def split: option.splits if_splits)
  then obtain u where u: "busy (pc u) = Some (rolling_chunk_start n size)" using ok(2) by (auto simp: pcs_ok_def)
  moreover have "u \<noteq> t" using u assms(5) by auto
  ultimately show ?thesis by blast
qed

end

subsection \<open>The pixels of a chunk\<close>

text \<open>
  The pixel of a frame: that of the source, where the plane is not filtered or no patch reached it,
  and otherwise the quotient of the sums of its centers.
\<close>

definition rolling_pixel :: "host \<Rightarrow> (nat \<Rightarrow> vs_frame) \<Rightarrow> bm3d_build \<Rightarrow> bm3d_params \<Rightarrow> video_info \<Rightarrow> bool \<Rightarrow> int \<Rightarrow> int \<Rightarrow> int \<Rightarrow> int \<Rightarrow> f32" where
  "rolling_pixel H frames B p vi ref n plane y x =
     (let vf = frames (ho_source H 0 n); v = vf_plane vf plane (y * (vf_stride vf plane div 4) + x);
          J = (if bp_chroma p then chroma_job p vi ref else plane_job p vi ref plane); w = plane_width vi plane; h = plane_height vi plane;
          sums = full_sum (sd_scalar (bb_simd B)) (bp_radius p) (w * h) (vi_num_frames vi) (center_sums H frames B J plane) n;
          F = (if x < sd_lanes (bb_simd B) * (w div sd_lanes (bb_simd B)) then sd_vec (bb_simd B) else sd_scalar (bb_simd B))
      in if unfiltered p plane then v else pixel_quotient F (sums (y * w + x)) (sums (w * h + (y * w + x))) v)"

lemma aggregate_finish_pixel:
  assumes "0 < sd_lanes sd" "w \<le> dstride" "1 \<le> sstride" "0 \<le> y" "y < h" "0 \<le> x" "x < w"
  shows "aggregate_finish sd dst num den src w h dstride bs sstride (y * dstride + x) =
    pixel_quotient (if x < sd_lanes sd * (w div sd_lanes sd) then sd_vec sd else sd_scalar sd) (num (y * bs + x)) (den (y * bs + x)) (src (y * sstride + x))"
  unfolding aggregate_finish_def Let_def using fold_finish_rows [OF assms(1,6,7,2,4,5)] assms(3) by simp

text \<open>CBM3D filters planes of one size.\<close>

definition sizes_ok :: "bm3d_params \<Rightarrow> video_info \<Rightarrow> bool" where
  "sizes_ok p vi \<longleftrightarrow> (bp_chroma p \<longrightarrow> vi_ss_w vi = 0 \<and> vi_ss_h vi = 0)"

lemma rolling_result_pixel:
  assumes "0 < sd_lanes (bb_simd B)" "sizes_ok p vi" "has_format vi (frames (ho_source H 0 n))" "0 \<le> plane" "plane < vi_planes vi"
  shows "rp_width (rolling_result H frames B p vi ref plane n) = plane_width vi plane"
    "rp_height (rolling_result H frames B p vi ref plane n) = plane_height vi plane"
    "0 \<le> y \<Longrightarrow> y < plane_height vi plane \<Longrightarrow> 0 \<le> x \<Longrightarrow> x < plane_width vi plane \<Longrightarrow>
      rp_data (rolling_result H frames B p vi ref plane n) (y * plane_width vi plane + x) = rolling_pixel H frames B p vi ref n plane y x"
proof -
  let ?J = "if bp_chroma p then chroma_job p vi ref else plane_job p vi ref plane"
  have size: "rj_width ?J = plane_width vi plane" "rj_height ?J = plane_height vi plane"
    using assms(2) by (auto simp: chroma_job_def plane_job_def sizes_ok_def plane_width_def plane_height_def)
  have J: "rj_r ?J = bp_radius p" "rj_frames ?J = vi_num_frames vi" by (simp_all add: chroma_job_def plane_job_def)
  have stride: "plane_width vi plane \<le> vf_stride (frames (ho_source H 0 n)) plane div 4" "1 \<le> plane_width vi plane"
    using assms(3-5) by (simp_all add: has_format_def)
  show "rp_width (rolling_result H frames B p vi ref plane n) = plane_width vi plane"
    "rp_height (rolling_result H frames B p vi ref plane n) = plane_height vi plane"
    using size by (simp_all add: rolling_result_def filtered_plane_def rolling_store_plane_def source_plane_def Let_def)
  assume yx: "0 \<le> y" "y < plane_height vi plane" "0 \<le> x" "x < plane_width vi plane"
  show "rp_data (rolling_result H frames B p vi ref plane n) (y * plane_width vi plane + x) = rolling_pixel H frames B p vi ref n plane y x"
  proof (cases "unfiltered p plane")
    case True
    then show ?thesis using copy_rows_at [OF order.refl yx]
      by (simp add: rolling_result_def rolling_pixel_def rolling_store_plane_def source_plane_def Let_def)
  next
    case False
    have s: "1 \<le> vf_stride (frames (ho_source H 0 n)) plane div 4" using stride by linarith
    show ?thesis
      unfolding rolling_result_def rolling_pixel_def filtered_plane_def source_plane_def Let_def prod.case if_not_P [OF False] size J
        rolling_plane.select_convs
      by (rule aggregate_finish_pixel [OF assms(1) order.refl s yx])
  qed
qed

subsection \<open>The result of the callback\<close>

definition emit_clips_ok :: "host \<Rightarrow> (nat \<Rightarrow> vs_frame) \<Rightarrow> video_info \<Rightarrow> int \<Rightarrow> bool" where
  "emit_clips_ok H frames vi n \<longleftrightarrow> has_format vi (ho_blank H) \<and> has_format vi (frames (ho_source H 0 n))"

lemma rolling_plane_step:
  fixes frames :: "nat \<Rightarrow> vs_frame"
  assumes H: "has_format vi (ho_blank H)" and plane: "0 \<le> plane" "plane < vi_planes vi"
    and rp: "rp_width (rs_frames chunk (n - rs_start chunk) plane) = plane_width vi plane" "rp_height (rs_frames chunk (n - rs_start chunk) plane) = plane_height vi plane"
    and px: "\<And>y x. 0 \<le> y \<Longrightarrow> y < plane_height vi plane \<Longrightarrow> 0 \<le> x \<Longrightarrow> x < plane_width vi plane \<Longrightarrow>
      rp_data (rs_frames chunk (n - rs_start chunk) plane) (y * plane_width vi plane + x) = px plane y x"
  defines "K \<equiv> painted H vi frames (plane_width vi) (plane_height vi) px"
  shows "outcome (\<lambda>s. owns H M s \<and> K planes (cb_frames s)) (rolling_plane_act chunk n (ho_fresh H) plane)
    (\<lambda>_ s. owns H M s \<and> K (planes @ [plane]) (cb_frames s)) (failed H)"
proof -
  let ?os = "vf_stride (ho_blank H) plane div 4"
  have os: "plane_width vi plane \<le> ?os" using H plane by (simp add: has_format_def)
  show ?thesis
    unfolding rolling_plane_act_def K_def
  proof (rule outcome_bind [OF painted_stride [OF plane]])
    fix v
    show "outcome (\<lambda>s. v = ?os \<and> (owns H M s \<and> painted H vi frames (plane_width vi) (plane_height vi) px planes (cb_frames s)))
      (write_plane (ho_fresh H) plane (rolling_write_plane v (rs_frames chunk (n - rs_start chunk) plane)))
      (\<lambda>_ s. owns H M s \<and> painted H vi frames (plane_width vi) (plane_height vi) px (planes @ [plane]) (cb_frames s)) (failed H)"
    proof (rule outcome_pure, hypsubst, rule write_plane_step, rule painted_write)
      fix fr
      show "plane_painted H (plane_width vi) (plane_height vi) px plane
          (rolling_write_plane ?os (rs_frames chunk (n - rs_start chunk) plane) (vf_plane (fr (ho_fresh H)) plane))"
        using copy_rows_at [OF os] px by (simp add: plane_painted_def rolling_write_plane_def rp)
    qed
  qed
qed

definition rolling_emitted :: "host \<Rightarrow> (nat \<Rightarrow> vs_frame) \<Rightarrow> bm3d_build \<Rightarrow> bm3d_params \<Rightarrow> video_info \<Rightarrow> bool \<Rightarrow> int \<Rightarrow> nat \<Rightarrow> callback \<Rightarrow> bool" where
  "rolling_emitted H frames B p vi ref n f s \<longleftrightarrow>
     f = ho_fresh H \<and> handed f {#f#} s \<and>
     painted H vi frames (plane_width vi) (plane_height vi) (rolling_pixel H frames B p vi ref n) [0..vi_planes vi - 1] (cb_frames s)"

lemma rolling_emit_step:
  assumes H: "host_ok H" "emit_clips_ok H frames vi n" and lanes: "0 < sd_lanes (bb_simd B)" and sizes: "sizes_ok p vi"
    and chunk: "chunk_exact H frames B p vi ref start cnt chunk" "start \<le> n" "n < start + cnt"
  shows "outcome (holds H frames {#}) (rolling_emit H vi chunk n) (rolling_emitted H frames B p vi ref n) (failed H)"
proof -
  let ?src = "ho_source H 0 n" and ?d = "ho_fresh H" and ?ps = "[0..vi_planes vi - 1]"
  let ?W = "\<lambda>planes. painted H vi frames (plane_width vi) (plane_height vi) (rolling_pixel H frames B p vi ref n) planes"
  have blank: "has_format vi (ho_blank H)" and fm: "has_format vi (frames ?src)" using H(2) by (simp_all add: emit_clips_ok_def)
  have at: "rs_frames chunk (n - rs_start chunk) plane = rolling_result H frames B p vi ref plane n" if "0 \<le> plane" "plane < vi_planes vi" for plane
    using chunk that by (simp add: chunk_exact_def)
  show ?thesis
    unfolding rolling_emit_def
  proof (rule bind_hold [OF get_hold [OF H(1)]], elim conjE, hypsubst, rule outcome_bind)
    show "outcome (holds H frames {#?src#}) (new_frame H (vi_width vi) (vi_height vi) ?src)
        (\<lambda>dst s. dst = ?d \<and> dst \<noteq> 0 \<and> owns H (add_mset dst {#?src#}) s \<and> ?W [] (cb_frames s)) (failed H)"
      by (rule new_frame_step [OF H(1), where K = "\<lambda>fr. fr = frames"]) (hypsubst, rule painted_blank [OF blank])
    fix dst
    show "outcome (\<lambda>s. dst = ?d \<and> dst \<noteq> 0 \<and> owns H (add_mset dst {#?src#}) s \<and> ?W [] (cb_frames s))
      (bind_act (write_props dst (stamp_contribution (ho_refuses H) 0 n M_bm3d)) (\<lambda>_.
       bind_act (free_act ?src) (\<lambda>_. bind_act (for_act (rolling_plane_act chunk n dst) ?ps) (\<lambda>_. keep_act H dst))))
      (rolling_emitted H frames B p vi ref n) (failed H)"
    proof (rule outcome_pure, hypsubst, rule outcome_pure, rule outcome_bind)
      show "outcome (\<lambda>s. owns H (add_mset ?d {#?src#}) s \<and> ?W [] (cb_frames s)) (write_props ?d (stamp_contribution (ho_refuses H) 0 n M_bm3d))
          (\<lambda>_ s. owns H (add_mset ?d {#?src#}) s \<and> ?W [] (cb_frames s)) (failed H)"
      proof (rule write_props_step)
        show "?W [] fr \<Longrightarrow> ?W [] (fr(?d := fr ?d\<lparr>vf_props := pr\<rparr>))" for fr pr by (rule painted_props)
        fix pr e
        assume "stamp_contribution (ho_refuses H) 0 n M_bm3d pr = Inl e"
        from stamp_no_refusal [OF this] show "\<not> refusal e \<and> (generous H \<longrightarrow> size_error e)" by (auto simp: generous_def)
      qed
      fix u
      show "outcome (\<lambda>s. owns H (add_mset ?d {#?src#}) s \<and> ?W [] (cb_frames s))
        (bind_act (free_act ?src) (\<lambda>_. bind_act (for_act (rolling_plane_act chunk n ?d) ?ps) (\<lambda>_. keep_act H ?d)))
        (rolling_emitted H frames B p vi ref n) (failed H)"
      proof (rule outcome_bind)
        show "outcome (\<lambda>s. owns H (add_mset ?d {#?src#}) s \<and> ?W [] (cb_frames s)) (free_act ?src) (\<lambda>_ s. owns H {#?d#} s \<and> ?W [] (cb_frames s)) (failed H)"
          using free_act_step [of ?src "add_mset ?d {#?src#}" H "?W []"] by simp
        fix u
        show "outcome (\<lambda>s. owns H {#?d#} s \<and> ?W [] (cb_frames s)) (bind_act (for_act (rolling_plane_act chunk n ?d) ?ps) (\<lambda>_. keep_act H ?d))
          (rolling_emitted H frames B p vi ref n) (failed H)"
        proof (rule outcome_bind)
          show "outcome (\<lambda>s. owns H {#?d#} s \<and> ?W [] (cb_frames s)) (for_act (rolling_plane_act chunk n ?d) ?ps)
              (\<lambda>_ s. owns H {#?d#} s \<and> ?W ?ps (cb_frames s)) (failed H)"
          proof (rule outcome_for)
            fix xs0 plane xs1
            assume "?ps = xs0 @ plane # xs1"
            then have "plane \<in> set ?ps" by simp
            then have pl: "0 \<le> plane" "plane < vi_planes vi" by auto
            note res = rolling_result_pixel [where H = H and frames = frames and n = n and ref = ref, OF lanes sizes fm pl]
            show "outcome (\<lambda>s. owns H {#?d#} s \<and> ?W xs0 (cb_frames s)) (rolling_plane_act chunk n ?d plane)
                (\<lambda>_ s. owns H {#?d#} s \<and> ?W (xs0 @ [plane]) (cb_frames s)) (failed H)"
              by (rule rolling_plane_step [OF blank pl]) (simp_all add: at [OF pl] res)
          qed
          show "outcome (\<lambda>s. owns H {#?d#} s \<and> ?W ?ps (cb_frames s)) (keep_act H ?d) (rolling_emitted H frames B p vi ref n) (failed H)" for v
            
          proof (rule outcome_weaken [OF keep_act_step [of ?d "{#?d#}" "?W ?ps" "?W ?ps"]])
            show "?W ?ps fr \<Longrightarrow> ?W ?ps (fr(?d := fr ?d\<lparr>vf_props := pr\<rparr>))" for fr pr by (rule painted_props)
          qed (simp_all add: rolling_emitted_def)
        qed
      qed
    qed
  qed
qed
subsection \<open>The fill of the model\<close>

text \<open>What the specifications of a chunk use of a host are the frames its nodes give.\<close>

lemma center_sums_source:
  assumes "ho_source H = ho_source H'"
  shows "center_sums H frames B J = center_sums H' frames B J"
proof -
  have "slot_of H frames J c t = slot_of H' frames J c t" for c t by (simp add: slot_of_def assms)
  then have "window_of H frames J c = window_of H' frames J c" for c by (simp add: window_of_def)
  then show ?thesis by (simp add: fun_eq_iff center_sums_def)
qed

lemma rolling_spec_source:
  assumes "ho_source H = ho_source H'"
  shows "chunk_exact H frames B p vi ref = chunk_exact H' frames B p vi ref" "carry_exact H frames B p vi ref = carry_exact H' frames B p vi ref"
    "rolling_pixel H frames B p vi ref = rolling_pixel H' frames B p vi ref"
proof -
  note sums = center_sums_source [OF assms, of frames B]
  have "rolling_result H frames B p vi ref = rolling_result H' frames B p vi ref"
    by (simp add: fun_eq_iff rolling_result_def filtered_plane_def sums assms)
  then show "chunk_exact H frames B p vi ref = chunk_exact H' frames B p vi ref" by (simp add: fun_eq_iff chunk_exact_def)
  show "carry_exact H frames B p vi ref = carry_exact H' frames B p vi ref"
    by (simp add: fun_eq_iff carry_exact_def from_ok_def sums)
  show "rolling_pixel H frames B p vi ref = rolling_pixel H' frames B p vi ref"
    by (simp add: fun_eq_iff rolling_pixel_def sums assms)
qed

text \<open>
  A rolling filter in use: arguments the parsers accepted, clips in their format, and for every
  thread a host of its own whose nodes give the same frames.
\<close>

record rolling_setup =
  su_hosts :: "nat \<Rightarrow> host"
  su_frames :: "nat \<Rightarrow> vs_frame"
  su_build :: bm3d_build
  su_params :: bm3d_params
  su_vi :: video_info
  su_ref :: bool
  su_rolling :: rolling_params

definition setup_ok :: "rolling_setup \<Rightarrow> bool" where
  "setup_ok S \<longleftrightarrow>
     (\<exists>h F m ref_vi ns. parse_bm3d h F m (su_vi S) ref_vi ns = Inr (su_params S)) \<and>
     (\<exists>m ns. parse_rolling m (bp_radius (su_params S)) ''BM3D'' ns Fixed = Inr (su_rolling S)) \<and>
     1 \<le> vi_planes (su_vi S) \<and> vi_planes (su_vi S) \<le> 3 \<and> (vi_family (su_vi S) = Cf_yuv \<longrightarrow> vi_planes (su_vi S) = 3) \<and>
     (\<forall>t. host_ok (su_hosts S t) \<and> ho_source (su_hosts S t) = ho_source (su_hosts S 0)) \<and>
     clips_formatted (su_hosts S 0) (su_frames S) (su_vi S) (su_ref S) \<and> build_ok (su_build S) (su_params S) (su_vi S) (su_ref S)"

definition bm3d_fill :: "rolling_setup \<Rightarrow> rolling_fill" where
  "bm3d_fill S t start cnt carried r \<longleftrightarrow>
     (\<exists>s s'. owns (su_hosts S t) {#} s \<and> cb_frames s = su_frames S \<and>
        rolling_fill_chunk (su_hosts S t) (su_build S) (su_params S) (su_vi S) (su_ref S) start cnt carried s = (Inr r, s'))"

definition good_chunk :: "rolling_setup \<Rightarrow> int \<Rightarrow> rolling_chunk \<Rightarrow> bool" where
  "good_chunk S start c \<longleftrightarrow>
     chunk_exact (su_hosts S 0) (su_frames S) (su_build S) (su_params S) (su_vi S) (su_ref S) start
       (rolling_chunk_count (rp_chunk (su_rolling S)) (vi_num_frames (su_vi S)) start) c"

definition fine_carry :: "rolling_setup \<Rightarrow> int \<Rightarrow> rolling_carry \<Rightarrow> bool" where
  "fine_carry S start f \<longleftrightarrow> carry_exact (su_hosts S 0) (su_frames S) (su_build S) (su_params S) (su_vi S) (su_ref S) start f"

lemma setup_rolling: "setup_ok S \<Longrightarrow> rolling_params_ok Fixed (su_rolling S)"
  using parse_rolling_ok unfolding setup_ok_def by blast

lemma bm3d_fill_good:
  assumes S: "setup_ok S" and start: "0 \<le> start" "start < vi_num_frames (su_vi S)" and carried: "\<And>f. carried = Some f \<Longrightarrow> fine_carry S start f"
    and fill: "bm3d_fill S t start (rolling_chunk_count (rp_chunk (su_rolling S)) (vi_num_frames (su_vi S)) start) carried (chunk, nxt)"
  shows "rs_start chunk = start \<and> good_chunk S start chunk \<and> (\<forall>f. nxt = Some f \<longrightarrow> fine_carry S (rc_start f) f)"
proof -
  let ?H = "su_hosts S t" and ?cnt = "rolling_chunk_count (rp_chunk (su_rolling S)) (vi_num_frames (su_vi S)) start"
  let ?B = "su_build S" and ?p = "su_params S" and ?vi = "su_vi S" and ?ref = "su_ref S" and ?fr = "su_frames S"
  obtain h F m ref_vi ns where parse: "parse_bm3d h F m ?vi ref_vi ns = Inr ?p" using S unfolding setup_ok_def by blast
  have rolling: "rolling_params_ok Fixed (su_rolling S)" by (rule setup_rolling [OF S])
  have planes: "1 \<le> vi_planes ?vi" "vi_planes ?vi \<le> 3" "vi_family ?vi = Cf_yuv \<longrightarrow> vi_planes ?vi = 3"
    and H: "host_ok ?H" "ho_source ?H = ho_source (su_hosts S 0)" and b: "build_ok ?B ?p ?vi ?ref"
    and fm: "clips_formatted (su_hosts S 0) ?fr ?vi ?ref" using S unfolding setup_ok_def by blast+
  have fm': "clips_formatted ?H ?fr ?vi ?ref" using fm by (simp add: clips_formatted_def H(2))
  have cnt: "0 < ?cnt" "start + ?cnt \<le> vi_num_frames ?vi" using start rolling by (auto simp: rolling_chunk_count_def rolling_params_ok_def)
  note spec = rolling_spec_source [OF H(2), of ?fr ?B ?p ?vi ?ref]
  have carry: "\<forall>f. carried = Some f \<longrightarrow> carry_exact ?H ?fr ?B ?p ?vi ?ref start f" using carried by (simp add: fine_carry_def spec)
  obtain s s' where s: "owns ?H {#} s" "cb_frames s = ?fr" "rolling_fill_chunk ?H ?B ?p ?vi ?ref start ?cnt carried s = (Inr (chunk, nxt), s')"
    using fill unfolding bm3d_fill_def by blast
  have yuv: "bp_chroma ?p \<Longrightarrow> vi_planes ?vi = 3" using parse_bm3d_ok(8) [OF parse planes(1,2), of 0] planes(1,3) by simp
  note jobs = jobs_ok [OF parse planes(1,2) H(1) fm' b]
  have "chunk_exact ?H ?fr ?B ?p ?vi ?ref start ?cnt chunk \<and> (\<forall>f. nxt = Some f \<longrightarrow> carry_exact ?H ?fr ?B ?p ?vi ?ref (start + ?cnt) f)"
  proof (cases "bp_chroma ?p")
    case True
    show ?thesis
      using outcomeD(1) [OF chunk_chroma_step [OF jobs(2) [OF True yuv [OF True]] True yuv [OF True] start(1) cnt carry, where M = "{#}"], of s] s True
      by (simp add: rolling_fill_chunk_def)
  next
    case False
    show ?thesis
      using outcomeD(1) [OF chunk_carried_step [OF jobs(1) fm' start(1) cnt False carry, where M = "{#}"], of s] s False
      by (simp add: rolling_fill_chunk_def)
  qed
  then show ?thesis by (auto simp: good_chunk_def fine_carry_def spec chunk_exact_def carry_exact_def)
qed

interpretation rolling_fills: chunk_filler "setup_ok S" "bm3d_fill S" "vi_num_frames (su_vi S)" "rp_chunk (su_rolling S)" "rp_cache_limit (su_rolling S)"
  "good_chunk S" "fine_carry S" for S
proof unfold_locales
  show "setup_ok S \<Longrightarrow> 1 \<le> rp_chunk (su_rolling S)" "setup_ok S \<Longrightarrow> 1 \<le> rp_cache_limit (su_rolling S)" for S
    using setup_rolling [of S] by (simp_all add: rolling_params_ok_def)
qed (rule bm3d_fill_good)
subsection \<open>Properties\<close>

text \<open>Every frame of the window of a center, and every frame of the chunk, lies in the requested range.\<close>

lemma window_requested:
  assumes "0 \<le> r" "0 \<le> start" "0 < cnt" "start + cnt \<le> frames" "chunk_first r frames carried start \<le> c" "c \<le> chunk_last r frames start cnt"
    and "0 \<le> t" "t \<le> 2 * r"
  shows "max 0 (start - 2 * r) \<le> temporal_slot_frame c t r frames \<and> temporal_slot_frame c t r frames \<le> temporal_last (start + cnt - 1) (2 * r) frames"
proof -
  have "start - 1 \<le> temporal_last (start - 1) r frames" using temporal_last_at(1) [OF assms(1), of "start - 1" frames] assms by simp
  then have "start - r \<le> c" using assms(1,5) by (auto simp: chunk_first_def split: if_splits)
  moreover have "c \<le> start + cnt - 1 + r" using assms(6) temporal_last_at(2) [of "start + cnt - 1" r frames] by (simp add: chunk_last_def)
  ultimately show ?thesis using assms by (auto simp: temporal_slot_frame_def cclamp_def temporal_last_def)
qed

text \<open>
  C40. The rolling BM3D asks for every frame a fill may use: the frames of the chunk and those
  of the window of each center it runs, whether it starts afresh or from a carry, are among the
  frames requested at arInitial.
\<close>

theorem rolling_requests_cover:
  assumes "parse_rolling m r flt ns Fixed = Inr q" "0 \<le> n" "n < frames"
    and "start = rolling_chunk_start n (rp_chunk q)" "cnt = rolling_chunk_count (rp_chunk q) frames start"
  shows "start \<le> n \<and> n < start + cnt \<and> (\<forall>k. start \<le> k \<longrightarrow> k < start + cnt \<longrightarrow> k \<in> set (rolling_requests (rp_chunk q) r frames n)) \<and>
    (\<forall>carried c t. chunk_first r frames carried start \<le> c \<longrightarrow> c \<le> chunk_last r frames start cnt \<longrightarrow> 0 \<le> t \<longrightarrow> t \<le> 2 * r \<longrightarrow>
       temporal_slot_frame c t r frames \<in> set (rolling_requests (rp_chunk q) r frames n))"
proof -
  have q: "1 \<le> rp_chunk q" "1 \<le> r" using parse_rolling_ok [OF assms(1)] by (simp_all add: rolling_params_ok_def)
  have "n mod rp_chunk q < rp_chunk q" "0 \<le> n mod rp_chunk q" "n mod rp_chunk q \<le> n" using q assms(2) by (simp_all add: zmod_le_nonneg_dividend)
  moreover have s: "start = n - n mod rp_chunk q" by (simp add: assms(4) rolling_chunk_start_def minus_mod_eq_div_mult)
  ultimately have b: "0 \<le> start" "start \<le> n" "n < start + rp_chunk q" by auto
  then have c: "0 < cnt" "start + cnt \<le> frames" "n < start + cnt" using assms(3) q by (auto simp: assms(5) rolling_chunk_count_def)
  have req: "rolling_requests (rp_chunk q) r frames n = [max 0 (start - 2 * r)..temporal_last (start + cnt - 1) (2 * r) frames]"
    by (simp add: rolling_requests_def Let_def assms(4,5))
  have "max 0 (start - 2 * r) \<le> k \<and> k \<le> temporal_last (start + cnt - 1) (2 * r) frames" if "start \<le> k" "k < start + cnt" for k
    using that b q temporal_last_at(1) [of "2 * r" "start + cnt - 1" frames] c by auto
  then show ?thesis unfolding req set_upto using b c window_requested [of r start cnt frames] q by auto
qed

theorem rolling_requests_cover_witness:
  "\<exists>q. parse_rolling example_map 3 ''BM3D'' ''nss'' Fixed = Inr q \<and> 17 \<in> set (rolling_requests (rp_chunk q) 3 100 17) \<and>
     temporal_slot_frame 13 0 3 100 \<in> set (rolling_requests (rp_chunk q) 3 100 17)"
proof -
  obtain q where q: "parse_rolling example_map 3 ''BM3D'' ''nss'' Fixed = Inr q" "rp_chunk q = 4"
    by (simp add: parse_rolling_def Let_def example_map_def map_int_def map_int_err_def resolve_cache_def)
  have s: "16 = rolling_chunk_start 17 (rp_chunk q)" "4 = rolling_chunk_count (rp_chunk q) 100 16"
    by (simp_all add: q(2) rolling_chunk_start_def rolling_chunk_count_def)
  have "chunk_first 3 100 False 16 \<le> 13" "13 \<le> chunk_last 3 100 16 4" by (simp_all add: chunk_first_def chunk_last_def temporal_last_def)
  then have "temporal_slot_frame 13 0 3 100 \<in> set (rolling_requests (rp_chunk q) 3 100 17)" using rolling_requests_cover [OF q(1) _ _ s] by simp
  moreover have "17 \<in> set (rolling_requests (rp_chunk q) 3 100 17)" using rolling_requests_cover [OF q(1) _ _ s] by simp
  ultimately show ?thesis using q(1) by blast
qed

text \<open>A chunk that is exact for the first frame of a wanted one covers the wanted one.\<close>

lemma good_chunk_covers:
  fixes S n
  defines "first \<equiv> rolling_chunk_start n (rp_chunk (su_rolling S))"
  assumes "setup_ok S" "n < vi_num_frames (su_vi S)" "rs_start chunk = first" "good_chunk S first chunk"
  shows "rs_start chunk \<le> n \<and> n < rs_start chunk + rs_count chunk"
proof -
  have q: "1 \<le> rp_chunk (su_rolling S)" using setup_rolling [OF assms(2)] by (simp add: rolling_params_ok_def)
  have "first = n - n mod rp_chunk (su_rolling S)" by (simp add: first_def rolling_chunk_start_def minus_mod_eq_div_mult)
  moreover have "0 \<le> n mod rp_chunk (su_rolling S)" "n mod rp_chunk (su_rolling S) < rp_chunk (su_rolling S)" using q by simp_all
  moreover have "rs_count chunk = rolling_chunk_count (rp_chunk (su_rolling S)) (vi_num_frames (su_vi S)) first"
    using assms(5) by (simp add: good_chunk_def chunk_exact_def)
  ultimately show ?thesis using assms(3,4) by (simp add: rolling_chunk_count_def)
qed


text \<open>The filter of the examples, with a radius of 3.\<close>

lemma parse_example: "\<exists>p. parse_bm3d example_helpers F example_map gray_clip None ''nss'' = Inr p \<and> bp_radius p = 3"
proof -
  have "\<not> sigma_invalid kBmDefaultSigma"
    by (simp add: sigma_invalid_def finite_bits_def f32_lt_def f32_zero_def f32_nan_def f32_key_def f32_mag_def f32_neg_def kBmDefaultSigma_def)
  then show ?thesis
    by (simp add: parse_bm3d_def is_const_32f_def example_helpers_def gray_clip_def int_max_def parse_sigma_def Let_def to_int32_def
        map_float_array_def example_map_def default_bm3d_params_def numeral_3_eq_3 sigma_step_def read_shapes_def
        map_inherit_int_def map_adaptive_def map_int_array_def map_int_def kBmMaxRadius_def parse_chroma_def parse_final_def
        check_planes_def check_plane_def bm_allowed_block_def bm_allowed_group_def kBmBlock_def kBmGroup_def plane_width_def plane_height_def
        kBmDefaultStep_def kBmDefaultPsNum_def kBmDefaultPsRange_def kBm3dDefaultRange_def kBmMaxRange_def fail_def
        del: upt_Suc add: upt_conv_Cons)
qed

definition example_setup :: "bm3d_params \<Rightarrow> rolling_params \<Rightarrow> rolling_setup" where
  "example_setup p q =
     \<lparr>su_hosts = (\<lambda>t. example_host plain_frame), su_frames = (\<lambda>_. plain_frame), su_build = example_build, su_params = p, su_vi = gray_clip,
      su_ref = False, su_rolling = q\<rparr>"

lemma plain_format: "has_format gray_clip plain_frame"
  by (simp add: has_format_def gray_clip_def plane_width_def plane_height_def plain_frame_def fat_frame_def)

lemma example_setup_ok:
  assumes "parse_bm3d example_helpers example_arith example_map gray_clip None ''nss'' = Inr p" "bp_radius p = 3"
    and "parse_rolling example_map 3 ''BM3D'' ''nss'' Fixed = Inr q"
  shows "setup_ok (example_setup p q)"
proof -
  have "build_ok example_build p gray_clip False" using example_build_ok by (simp add: build_ok_def)
  moreover have "clips_formatted (example_host plain_frame) (\<lambda>_. plain_frame) gray_clip False" by (simp add: clips_formatted_def plain_format)
  moreover have "1 \<le> vi_planes gray_clip" "vi_planes gray_clip \<le> 3" "vi_family gray_clip \<noteq> Cf_yuv" by (simp_all add: gray_clip_def)
  moreover have "\<exists>h F m ref_vi ns. parse_bm3d h F m gray_clip ref_vi ns = Inr p" using assms(1) by blast
  moreover have "\<exists>m ns. parse_rolling m (bp_radius p) ''BM3D'' ns Fixed = Inr q" using assms(2,3) by metis
  ultimately show ?thesis using example_host_ok by (simp add: setup_ok_def example_setup_def)
qed

text \<open>
  C18. The frame of the rolling BM3D, from a chunk that is exact and covers it: the callback
  fails only for want of resources, and otherwise returns a new frame every pixel of which is
  that of the source, where its plane is not filtered or no patch reached it, and the quotient of
  the sums over the centers of its window elsewhere; either way every other reference is given
  back. The pixel does not depend on the chunks, their cache or the threads.
\<close>

theorem rolling_frame_exact:
  assumes "setup_ok S" "good_chunk S start chunk" "start \<le> n" "n < start + rs_count chunk" "0 \<le> n" "n < vi_num_frames (su_vi S)"
    and "has_format (su_vi S) (ho_blank (su_hosts S t))" "ws_inv ws" "\<not> ho_limited (su_hosts S t) \<longrightarrow> b = None \<and> ws_budget ws = None"
    and "rolling_emit (su_hosts S t) (su_vi S) chunk n (start_callback b ws (su_frames S)) = (r, s)"
  shows "case r of
      Inl e \<Rightarrow> \<not> refusal e \<and> (generous (su_hosts S t) \<longrightarrow> size_error e) \<and> (\<forall>f. f \<noteq> 0 \<longrightarrow> fs_refs (scope_destroy (cb_scope s)) f = 0)
    | Inr f \<Rightarrow> f = ho_fresh (su_hosts S t) \<and> (\<forall>g. g \<noteq> 0 \<longrightarrow> fs_refs (scope_destroy (cb_scope s)) g = (if g = f then 1 else 0)) \<and>
        (\<forall>plane y x. 0 \<le> plane \<longrightarrow> plane < vi_planes (su_vi S) \<longrightarrow> 0 \<le> y \<longrightarrow> y < plane_height (su_vi S) plane \<longrightarrow>
           0 \<le> x \<longrightarrow> x < plane_width (su_vi S) plane \<longrightarrow>
           vf_plane (cb_frames s f) plane (y * (vf_stride (ho_blank (su_hosts S t)) plane div 4) + x) =
             rolling_pixel (su_hosts S 0) (su_frames S) (su_build S) (su_params S) (su_vi S) (su_ref S) n plane y x)"
proof -
  let ?H = "su_hosts S t" and ?fr = "su_frames S"
  have H: "host_ok ?H" "ho_source ?H = ho_source (su_hosts S 0)" and planes: "1 \<le> vi_planes (su_vi S)" "vi_planes (su_vi S) \<le> 3"
    and fm: "clips_formatted (su_hosts S 0) ?fr (su_vi S) (su_ref S)" and b: "build_ok (su_build S) (su_params S) (su_vi S) (su_ref S)"
    using assms(1) unfolding setup_ok_def by blast+
  obtain h F m ref_vi ns where parse: "parse_bm3d h F m (su_vi S) ref_vi ns = Inr (su_params S)" using assms(1) unfolding setup_ok_def by blast
  have sizes: "sizes_ok (su_params S) (su_vi S)" using parse_bm3d_ok(8) [OF parse planes, of 0] planes(1) by (simp add: sizes_ok_def)
  have emit: "emit_clips_ok ?H ?fr (su_vi S) n" using assms(5-7) fm by (simp add: emit_clips_ok_def clips_formatted_def H(2))
  have lanes: "0 < sd_lanes (bb_simd (su_build S))" using b by (simp add: build_ok_def)
  note spec = rolling_spec_source [OF H(2), of ?fr "su_build S" "su_params S" "su_vi S" "su_ref S"]
  have chunk: "chunk_exact ?H ?fr (su_build S) (su_params S) (su_vi S) (su_ref S) start (rs_count chunk) chunk"
    using assms(2) by (simp add: good_chunk_def spec chunk_exact_def)
  have pre: "holds ?H ?fr {#} (start_callback b ws ?fr)" using start_owns [OF assms(8,9)] by (simp add: start_callback_def)
  note triple = outcomeD [OF rolling_emit_step [OF H(1) emit lanes sizes chunk assms(3,4)], OF pre]
  show ?thesis
  proof (cases r)
    case (Inl e)
    then have "failed ?H e s" using triple(2) assms(10) by simp
    then show ?thesis using Inl handed_clean(2) by (auto simp: failed_def)
  next
    case (Inr f)
    then have e: "rolling_emitted ?H ?fr (su_build S) (su_params S) (su_vi S) (su_ref S) n f s" using triple(1) assms(10) by simp
    then have f: "f = ho_fresh ?H" "handed f {#f#} s" unfolding rolling_emitted_def by blast+
    have px: "vf_plane (cb_frames s f) plane (y * (vf_stride (ho_blank ?H) plane div 4) + x) =
        rolling_pixel (su_hosts S 0) ?fr (su_build S) (su_params S) (su_vi S) (su_ref S) n plane y x"
      if "0 \<le> plane" "plane < vi_planes (su_vi S)" "0 \<le> y" "y < plane_height (su_vi S) plane" "0 \<le> x" "x < plane_width (su_vi S) plane" for plane y x
      using e that by (simp add: rolling_emitted_def painted_def plane_painted_def spec(3))
    show ?thesis unfolding Inr sum.case using f handed_clean(1) [OF f(2)] px by blast
  qed
qed

theorem rolling_frame_exact_witness:
  "\<exists>p q r s. setup_ok (example_setup p q) \<and>
     rolling_emit (example_host plain_frame) gray_clip
       \<lparr>rs_start = 16, rs_count = 4, rs_frames = (\<lambda>i plane. rolling_result (example_host plain_frame) (\<lambda>_. plain_frame) example_build p gray_clip False plane (16 + i))\<rparr>
       17 (start_callback None (ws_new None) (\<lambda>_. plain_frame)) = (r, s) \<and>
     (\<forall>e. r = Inl e \<longrightarrow> size_error e) \<and>
     (\<forall>f. r = Inr f \<longrightarrow> f = 1 \<and> vf_plane (cb_frames s f) 0 (7 * 640 + 9) = rolling_pixel (example_host plain_frame) (\<lambda>_. plain_frame) example_build p gray_clip False 17 0 7 9)"
proof -
  obtain p where p: "parse_bm3d example_helpers example_arith example_map gray_clip None ''nss'' = Inr p" "bp_radius p = 3" using parse_example by blast
  obtain q where q: "parse_rolling example_map 3 ''BM3D'' ''nss'' Fixed = Inr q" "rp_chunk q = 4"
    by (simp add: parse_rolling_def Let_def example_map_def map_int_def map_int_err_def resolve_cache_def)
  let ?H = "example_host plain_frame" and ?S = "example_setup p q"
  let ?c = "\<lparr>rs_start = 16, rs_count = 4, rs_frames = (\<lambda>i plane. rolling_result ?H (\<lambda>_. plain_frame) example_build p gray_clip False plane (16 + i))\<rparr>"
  have S: "setup_ok ?S" by (rule example_setup_ok [OF p q(1)])
  have fields: "su_hosts ?S t = ?H" "su_frames ?S = (\<lambda>_. plain_frame)" "su_build ?S = example_build" "su_params ?S = p" "su_vi ?S = gray_clip" "su_ref ?S = False"
    "su_rolling ?S = q" for t by (simp_all add: example_setup_def)
  have vi: "vi_num_frames gray_clip = 100" "vi_planes gray_clip = 1" "plane_height gray_clip 0 = 480" "plane_width gray_clip 0 = 640"
    by (simp_all add: gray_clip_def plane_height_def plane_width_def)
  have c: "good_chunk ?S 16 ?c" by (simp add: good_chunk_def chunk_exact_def fields rolling_chunk_count_def q(2) vi)
  have blank: "ho_blank ?H = plain_frame" "ho_fresh ?H = 1" by (simp_all add: example_host_def)
  have stride: "vf_stride plain_frame 0 div 4 = 640" by (simp add: plain_frame_def fat_frame_def)
  have budget: "ws_budget (ws_new None) = None" by (simp add: ws_new_def)
  obtain r s where g: "rolling_emit ?H gray_clip ?c 17 (start_callback None (ws_new None) (\<lambda>_. plain_frame)) = (r, s)" by (meson surj_pair)
  have "case r of
      Inl e \<Rightarrow> \<not> refusal e \<and> (generous ?H \<longrightarrow> size_error e) \<and> (\<forall>f. f \<noteq> 0 \<longrightarrow> fs_refs (scope_destroy (cb_scope s)) f = 0)
    | Inr f \<Rightarrow> f = ho_fresh ?H \<and> (\<forall>g. g \<noteq> 0 \<longrightarrow> fs_refs (scope_destroy (cb_scope s)) g = (if g = f then 1 else 0)) \<and>
        (\<forall>plane y x. 0 \<le> plane \<longrightarrow> plane < vi_planes gray_clip \<longrightarrow> 0 \<le> y \<longrightarrow> y < plane_height gray_clip plane \<longrightarrow>
           0 \<le> x \<longrightarrow> x < plane_width gray_clip plane \<longrightarrow>
           vf_plane (cb_frames s f) plane (y * (vf_stride (ho_blank ?H) plane div 4) + x) =
             rolling_pixel ?H (\<lambda>_. plain_frame) example_build p gray_clip False 17 plane y x)"
    using rolling_frame_exact [OF S c, of 17 0 "ws_new None" None r s, unfolded fields] g plain_format
    by (simp add: vi(1) blank(1) new_workspace_inv budget)
  note result = this
  have px: "vf_plane (cb_frames s f) 0 (7 * 640 + 9) = rolling_pixel ?H (\<lambda>_. plain_frame) example_build p gray_clip False 17 0 7 9" if "r = Inr f" for f
  proof -
    have "\<forall>plane y x. 0 \<le> plane \<longrightarrow> plane < vi_planes gray_clip \<longrightarrow> 0 \<le> y \<longrightarrow> y < plane_height gray_clip plane \<longrightarrow> 0 \<le> x \<longrightarrow> x < plane_width gray_clip plane \<longrightarrow>
        vf_plane (cb_frames s f) plane (y * (vf_stride (ho_blank ?H) plane div 4) + x) =
          rolling_pixel ?H (\<lambda>_. plain_frame) example_build p gray_clip False 17 plane y x" using result unfolding that sum.case by blast
    from this [rule_format, of 0 7 9] show ?thesis by (simp add: vi blank stride)
  qed
  have "(\<forall>e. r = Inl e \<longrightarrow> size_error e) \<and>
      (\<forall>f. r = Inr f \<longrightarrow> f = 1 \<and> vf_plane (cb_frames s f) 0 (7 * 640 + 9) = rolling_pixel ?H (\<lambda>_. plain_frame) example_build p gray_clip False 17 0 7 9)"
    using result px example_host_generous by (cases r) (auto simp: blank(2))
  then show ?thesis using S g by blast
qed

end
