(* ===== verification/Da3d_Weights.thy ===== *)
theory Da3d_Weights
  imports Frames "HOL-Library.While_Combinator"
begin

text \<open>
  The weight map of DA3D (\<open>WeightMap\<close> and \<open>IncreaseWeights\<close> of src/cpu/da3d/da3d.cpp): a
  pyramid over the core of a tile whose level 0 holds the weights, padded with infinity to a
  power of two, and whose cells above hold the least of the four cells below. All levels are in
  one buffer, one behind the other, so that an index outside a level reads its neighbour as
  in the code. The smallest weight is found by descending from the top.
\<close>

unbundle bit_operations_syntax

subsection \<open>Sizes\<close>

definition da3d_align16 :: "int \<Rightarrow> int" where
  "da3d_align16 n = (n + 15) AND NOT 15"

definition symmetric :: "int \<Rightarrow> int \<Rightarrow> int" where
  "symmetric pos n =
     (let pos = (if pos < 0 then - pos - 1 else pos);
          pos = (if pos \<ge> 2 * n then cmod pos (2 * n) else pos)
      in if pos \<ge> n then 2 * n - 1 - pos else pos)"

definition next_pow2 :: "int \<Rightarrow> int" where
  "next_pow2 n =
     (let n = n - 1;
          n = n OR drop_bit 1 n;
          n = n OR drop_bit 2 n;
          n = n OR drop_bit 4 n;
          n = n OR drop_bit 8 n;
          n = n OR drop_bit 16 n
      in n + 1)"

text \<open>Called for numbers that are not negative.\<close>

function number_of_bits :: "int \<Rightarrow> int" where
  "number_of_bits n = (if n \<le> 0 then 0 else 1 + number_of_bits (drop_bit 1 n))"
  by pat_completeness auto
termination
  by (relation "measure nat") (auto simp: drop_bit_eq_div)

declare number_of_bits.simps [simp del]

subsection \<open>The map\<close>

record weight_map =
  wm_levels :: int
  wm_width :: int
  wm_height :: int
  wm_rows :: "int \<Rightarrow> int"
  wm_cols :: "int \<Rightarrow> int"
  wm_base :: "int \<Rightarrow> int"
  wm_store :: buffer

definition wm_level_count :: "int \<Rightarrow> int \<Rightarrow> int" where
  "wm_level_count h w = max (number_of_bits (h - 1) + 1) (number_of_bits (w - 1) + 1)"

text \<open>The edge of the next level.\<close>

definition next_edge :: "int \<Rightarrow> int" where
  "next_edge e = push_bit 1 (drop_bit 2 (e + 3))"

fun wm_floats_from :: "nat \<Rightarrow> int \<Rightarrow> int \<Rightarrow> int" where
  "wm_floats_from 0 rr cr = 0"
| "wm_floats_from (Suc n) rr cr = da3d_align16 (rr * cr) + wm_floats_from n (next_edge rr) (next_edge cr)"

definition wm_floats :: "int \<Rightarrow> int \<Rightarrow> int" where
  "wm_floats h w = wm_floats_from (nat (wm_level_count h w)) (next_pow2 h) (next_pow2 w)"

definition f32_inf :: f32 where "f32_inf = 0x7f800000"

text \<open>One level: \<open>rr\<close> rows of \<open>cr\<close> cells, zero in the first \<open>vr\<close> rows and \<open>vc\<close> columns and infinity outside.\<close>

definition fill_level :: "int \<Rightarrow> int \<Rightarrow> int \<Rightarrow> int \<Rightarrow> int \<Rightarrow> buffer \<Rightarrow> buffer" where
  "fill_level base rr cr vr vc store =
     fold (\<lambda>r. map_span (base + r * cr) 0 cr (\<lambda>c _. if r < vr \<and> c < vc then f32_zero else f32_inf)) [0..rr - 1] store"

fun init_levels :: "int list \<Rightarrow> int \<Rightarrow> int \<Rightarrow> int \<Rightarrow> int \<Rightarrow> int \<Rightarrow> weight_map \<Rightarrow> weight_map" where
  "init_levels [] base rr cr vr vc wm = wm"
| "init_levels (l # ls) base rr cr vr vc wm =
     init_levels ls (base + da3d_align16 (rr * cr)) (next_edge rr) (next_edge cr) (drop_bit 1 (vr + 1)) (drop_bit 1 (vc + 1))
       (wm\<lparr>wm_rows := (wm_rows wm)(l := rr), wm_cols := (wm_cols wm)(l := cr), wm_base := (wm_base wm)(l := base),
           wm_store := fill_level base rr cr vr vc (wm_store wm)\<rparr>)"

definition wm_init :: "int \<Rightarrow> int \<Rightarrow> buffer \<Rightarrow> weight_map" where
  "wm_init h w storage =
     (let levels = wm_level_count h w
      in init_levels [0..levels - 1] 0 (next_pow2 h) (next_pow2 w) h w
           \<lparr>wm_levels = levels, wm_width = w, wm_height = h, wm_rows = (\<lambda>_. 0), wm_cols = (\<lambda>_. 0), wm_base = (\<lambda>_. 0), wm_store = storage\<rparr>)"

definition wm_at :: "weight_map \<Rightarrow> int \<Rightarrow> int \<Rightarrow> int \<Rightarrow> f32" where
  "wm_at wm l r c = wm_store wm (wm_base wm l + (r * wm_cols wm l + c))"

definition wm_minimum :: "weight_map \<Rightarrow> f32" where
  "wm_minimum wm = wm_at wm (wm_levels wm - 1) 0 0"

text \<open>One level of the descent: the first of the four cells that is least.\<close>

definition descend :: "weight_map \<Rightarrow> int \<Rightarrow> int \<times> int \<Rightarrow> int \<times> int" where
  "descend wm l rc =
     (case rc of (r, c) \<Rightarrow>
        let r = push_bit 1 r; c = push_bit 1 c
        in snd (fold (\<lambda>(qr, qc) (best, b). let v = wm_at wm l qr qc in if f32_lt v best then (v, qr, qc) else (best, b))
             [(r + 1, c), (r, c + 1), (r + 1, c + 1)] (wm_at wm l r c, r, c)))"

definition find_minimum :: "weight_map \<Rightarrow> int \<times> int" where
  "find_minimum wm = fold (descend wm) (rev [0..wm_levels wm - 2]) (0, 0)"

subsection \<open>Increasing the weights\<close>

text \<open>\<open>std::min\<close>.\<close>

definition fmin :: "f32 \<Rightarrow> f32 \<Rightarrow> f32" where
  "fmin a b = (if f32_lt b a then b else a)"

definition kDa3dPatch :: int where "kDa3dPatch = 64"
definition kDa3dRadius :: int where "kDa3dRadius = 31"

text \<open>
  The cells \<open>c\<close> to \<open>c + N - 1\<close> of a row in one vector: the loads come before the store.
  \<open>q0\<close>, \<open>q1\<close> and \<open>dst\<close> are the offsets of the rows; \<open>N = 0\<close> is the target without vectors.
\<close>

definition min_vector :: "int \<Rightarrow> int \<Rightarrow> int \<Rightarrow> int \<Rightarrow> int \<Rightarrow> buffer \<Rightarrow> buffer" where
  "min_vector N q0 q1 dst c s =
     map_span dst c (c + N) (\<lambda>k _. fmin (fmin (s (q0 + 2 * k)) (s (q1 + 2 * k))) (fmin (s (q0 + (2 * k + 1))) (s (q1 + (2 * k + 1))))) s"

function min_vectors :: "int \<Rightarrow> int \<Rightarrow> int \<Rightarrow> int \<Rightarrow> int \<Rightarrow> int \<Rightarrow> int \<Rightarrow> buffer \<Rightarrow> int \<times> buffer" where
  "min_vectors N hi lc q0 q1 dst c s =
     (if 0 < N \<and> c \<le> hi \<and> 2 * (c + N) \<le> lc then min_vectors N hi lc q0 q1 dst (c + N) (min_vector N q0 q1 dst c s) else (c, s))"
  by pat_completeness auto
termination
  by (relation "measure (\<lambda>(N, hi, lc, q0, q1, dst, c, s). nat (hi + 1 - c))") auto

declare min_vectors.simps [simp del]

definition min_cell :: "int \<Rightarrow> int \<Rightarrow> int \<Rightarrow> int \<Rightarrow> buffer \<Rightarrow> buffer" where
  "min_cell q0 q1 dst c s =
     s(dst + c := fmin (fmin (fmin (s (q0 + 2 * c)) (s (q0 + (2 * c + 1)))) (s (q1 + 2 * c))) (s (q1 + (2 * c + 1))))"

text \<open>The cells \<open>lo\<close> to \<open>hi\<close> of row \<open>r\<close> of level \<open>l\<close>.\<close>

definition refresh_row :: "int \<Rightarrow> weight_map \<Rightarrow> int \<Rightarrow> int \<Rightarrow> int \<Rightarrow> int \<Rightarrow> buffer \<Rightarrow> buffer" where
  "refresh_row N wm l lo hi r s =
     (let lc = wm_cols wm (l - 1); dst = wm_base wm l + r * wm_cols wm l;
          q0 = wm_base wm (l - 1) + 2 * r * lc; q1 = q0 + lc;
          (c, s) = min_vectors N hi lc q0 q1 dst lo s
      in fold (min_cell q0 q1 dst) [c..hi] s)"

definition refresh_level :: "int \<Rightarrow> weight_map \<Rightarrow> int \<Rightarrow> int \<Rightarrow> int \<Rightarrow> int \<Rightarrow> int \<Rightarrow> buffer \<Rightarrow> buffer" where
  "refresh_level N wm first_r last_r first_c last_c l s =
     fold (refresh_row N wm l (drop_bit (nat l) first_c) (drop_bit (nat l) last_c)) [drop_bit (nat l) first_r..drop_bit (nat l) last_r] s"

definition add_weights :: "farith \<Rightarrow> weight_map \<Rightarrow> buffer \<Rightarrow> int \<Rightarrow> int \<Rightarrow> int \<Rightarrow> int \<Rightarrow> int \<Rightarrow> int \<Rightarrow> buffer \<Rightarrow> buffer" where
  "add_weights F wm kk row0 col0 first_r last_r first_c last_c s =
     fold (\<lambda>r. map_span (wm_base wm 0 + r * wm_cols wm 0) first_c (last_c + 1)
         (\<lambda>c old. fadd F old (kk ((r - row0) * kDa3dPatch - col0 + c)))) [first_r..last_r] s"

definition increase_weights :: "farith \<Rightarrow> int \<Rightarrow> weight_map \<Rightarrow> buffer \<Rightarrow> int \<Rightarrow> int \<Rightarrow> weight_map" where
  "increase_weights F N wm kk row0 col0 =
     (let first_r = max 0 row0; last_r = min (wm_height wm) (row0 + kDa3dPatch) - 1;
          first_c = max 0 col0; last_c = min (wm_width wm) (col0 + kDa3dPatch) - 1;
          s = add_weights F wm kk row0 col0 first_r last_r first_c last_c (wm_store wm)
      in wm\<lparr>wm_store := fold (refresh_level N wm first_r last_r first_c last_c) [1..wm_levels wm - 1] s\<rparr>)"


subsection \<open>Powers of two\<close>

lemma number_of_bits_nonneg: "0 \<le> number_of_bits n"
proof (induction n rule: number_of_bits.induct)
  case (1 n)
  then show ?case by (subst number_of_bits.simps) simp
qed

lemma number_of_bits_bounds:
  assumes "0 \<le> n"
  shows "0 \<le> number_of_bits n \<and> n < 2 ^ nat (number_of_bits n) \<and> (0 < n \<longrightarrow> 2 ^ nat (number_of_bits n - 1) \<le> n)"
  using assms
proof (induction n rule: number_of_bits.induct)
  case (1 n)
  show ?case
  proof (cases "n \<le> 0")
    case True
    then have "n = 0" using 1(2) by simp
    then show ?thesis by (simp add: number_of_bits.simps [of 0])
  next
    case False
    let ?b = "number_of_bits (drop_bit 1 n)"
    have h: "drop_bit 1 n = n div 2" by (simp add: drop_bit_eq_div)
    have ih: "0 \<le> ?b" "n div 2 < 2 ^ nat ?b" "0 < n div 2 \<longrightarrow> 2 ^ nat (?b - 1) \<le> n div 2"
      using 1(1) [OF False] False h by (simp_all add: pos_imp_zdiv_nonneg_iff)
    have e: "number_of_bits n = 1 + ?b" using False by (simp add: number_of_bits.simps [of n])
    have s: "nat (1 + ?b) = Suc (nat ?b)" using ih(1) by simp
    have "n < 2 ^ nat (1 + ?b)" using ih(2) unfolding s by simp
    moreover have "2 ^ nat ?b \<le> n"
    proof (cases "n = 1")
      case True
      then have "?b = 0" unfolding h by (simp add: number_of_bits.simps [of 0])
      then show ?thesis using True by simp
    next
      case F: False
      then have d: "0 < n div 2" using False by simp
      then have "1 \<le> ?b" unfolding h using number_of_bits_nonneg by (subst number_of_bits.simps) simp
      then have "nat ?b = Suc (nat (?b - 1))" by simp
      then have "2 ^ nat ?b \<le> 2 * (n div 2)" using ih(3) d by simp
      also have "\<dots> \<le> n" by simp
      finally show ?thesis .
    qed
    ultimately show ?thesis using ih(1) e by simp
  qed
qed

text \<open>Smearing the highest bit downwards.\<close>

lemma smear_bits:
  fixes n :: int
  shows "bit (let n = n OR drop_bit 1 n; n = n OR drop_bit 2 n; n = n OR drop_bit 4 n; n = n OR drop_bit 8 n
      in n OR drop_bit 16 n) i \<longleftrightarrow> (\<exists>j < 32. bit n (i + j))"
proof -
  have two: "(\<exists>j < 2 * k. P (i + j)) \<longleftrightarrow> (\<exists>j < k. P (i + j)) \<or> (\<exists>j < k. P (i + k + j))" for P and i k :: nat
  proof
    assume "\<exists>j < 2 * k. P (i + j)"
    then obtain j where j: "j < 2 * k" "P (i + j)" by blast
    then have "j < k \<and> P (i + j) \<or> j - k < k \<and> P (i + k + (j - k))" by auto
    then show "(\<exists>j < k. P (i + j)) \<or> (\<exists>j < k. P (i + k + j))" by blast
  next
    assume "(\<exists>j < k. P (i + j)) \<or> (\<exists>j < k. P (i + k + j))"
    then have "\<exists>j < k. P (i + j) \<or> P (i + (k + j))" by (metis add.assoc)
    then obtain j where "j < k" "P (i + j) \<or> P (i + (k + j))" by blast
    then have "j < 2 * k \<and> P (i + j) \<or> k + j < 2 * k \<and> P (i + (k + j))" by auto
    then show "\<exists>j < 2 * k. P (i + j)" by blast
  qed
  have step: "(\<forall>i. bit m i \<longleftrightarrow> (\<exists>j < k. bit n (i + j))) \<Longrightarrow> \<forall>i. bit (m OR drop_bit k m) i \<longleftrightarrow> (\<exists>j < 2 * k. bit n (i + j))" for m :: int and k
    using two [of k "bit n"] by (simp add: bit_or_iff bit_drop_bit_eq add.commute)
  have "\<forall>i. bit n i \<longleftrightarrow> (\<exists>j < 1. bit n (i + j))" by simp
  from step [OF step [OF step [OF step [OF step [OF this]]]]] show ?thesis by (simp add: Let_def)
qed

lemma next_pow2_eq:
  assumes "1 \<le> n" "n \<le> 2 ^ 31"
  shows "next_pow2 n = 2 ^ nat (number_of_bits (n - 1))"
proof -
  define m where "m = n - 1"
  define b where "b = nat (number_of_bits m)"
  have m: "0 \<le> m" "m < 2 ^ b" "0 < m \<longrightarrow> 2 ^ nat (number_of_bits m - 1) \<le> m" "m < 2 ^ 31"
    using number_of_bits_bounds [of m] assms by (auto simp: m_def b_def)
  let ?s = "let n = m OR drop_bit 1 m; n = n OR drop_bit 2 n; n = n OR drop_bit 4 n; n = n OR drop_bit 8 n in n OR drop_bit 16 n"
  have "?s = mask b"
  proof (cases "m = 0")
    case True
    then have "b = 0" by (simp add: b_def number_of_bits.simps [of 0])
    then show ?thesis using True by (simp add: Let_def)
  next
    case False
    then have lo: "2 ^ nat (number_of_bits m - 1) \<le> m" using m by simp
    have bp: "0 < b"
    proof (rule ccontr)
      assume "\<not> 0 < b"
      then show False using m(1,2) False by simp
    qed
    then have e: "nat (number_of_bits m - 1) = b - 1" by (simp add: b_def nat_diff_distrib)
    have top: "bit m (b - 1)"
    proof -
      have "m div 2 ^ (b - 1) = 1"
      proof -
        have "1 \<le> m div 2 ^ (b - 1)" using lo e by (simp add: int_div_pos_eq zdiv_mono1 [of "2 ^ (b - 1)" m "2 ^ (b - 1)", simplified])
        moreover have "2 ^ b = (2 :: int) * 2 ^ (b - 1)" using bp by (metis Suc_diff_1 power_Suc)
        have "\<not> 2 \<le> m div 2 ^ (b - 1)"
        proof
          assume "2 \<le> m div 2 ^ (b - 1)"
          then have "2 * 2 ^ (b - 1) \<le> m div 2 ^ (b - 1) * 2 ^ (b - 1)" by (rule mult_right_mono) simp
          also have "\<dots> \<le> m" by (simp add: minus_mod_eq_div_mult [symmetric])
          finally show False using m(2) \<open>2 ^ b = 2 * 2 ^ (b - 1)\<close> by linarith
        qed
        ultimately show ?thesis by linarith
      qed
      then show ?thesis by (simp add: bit_iff_odd)
    qed
    have high: "\<not> bit m i" if "b \<le> i" for i
    proof -
      have "m < 2 ^ i" using m(2) that by (meson order_less_le_trans power_increasing one_le_numeral)
      then show ?thesis using m(1) by (simp add: bit_iff_odd)
    qed
    have b32: "b \<le> 31"
    proof (rule ccontr)
      assume "\<not> b \<le> 31"
      then have "31 \<le> b - 1" by simp
      then have "(2 :: int) ^ 31 \<le> 2 ^ (b - 1)" by (intro power_increasing) auto
      then show False using lo m(4) unfolding e by linarith
    qed
    show ?thesis
    proof (rule bit_eqI)
      fix i
      show "bit ?s i \<longleftrightarrow> bit (mask b :: int) i"
      proof (cases "i < b")
        case True
        then have "bit m (i + (b - 1 - i))" "b - 1 - i < 32" using top b32 by simp_all
        then have "\<exists>j < 32. bit m (i + j)" by blast
        then show ?thesis using True unfolding smear_bits by (simp add: bit_mask_iff)
      next
        case False
        then show ?thesis unfolding smear_bits using high by (auto simp: bit_mask_iff)
      qed
    qed
  qed
  then have "next_pow2 n = mask b + 1" unfolding next_pow2_def by (simp add: m_def [symmetric] Let_def)
  then show ?thesis by (simp add: mask_eq_exp_minus_1 b_def m_def)
qed


subsection \<open>The shape of the pyramid\<close>

definition wm_edge :: "int \<Rightarrow> nat \<Rightarrow> int" where
  "wm_edge h l = (next_edge ^^ l) (next_pow2 h)"

definition wm_valid :: "int \<Rightarrow> nat \<Rightarrow> int" where
  "wm_valid h l = ((\<lambda>v. drop_bit 1 (v + 1)) ^^ l) h"

fun wm_offset :: "int \<Rightarrow> int \<Rightarrow> nat \<Rightarrow> int" where
  "wm_offset h w 0 = 0"
| "wm_offset h w (Suc l) = wm_offset h w l + da3d_align16 (wm_edge h l * wm_edge w l)"

definition edge_ok :: "int \<Rightarrow> bool" where
  "edge_ok h \<longleftrightarrow> 2 \<le> h \<and> h \<le> 2 ^ 31"

lemma align16_div: "da3d_align16 n = 16 * ((n + 15) div 16)"
proof -
  have m: "(15 :: int) = mask 4" by (simp add: mask_eq_exp_minus_1)
  have "(n + 15) AND NOT 15 = push_bit 4 (drop_bit 4 (n + 15))"
    unfolding m by (rule bit_eqI) (auto simp: bit_simps)
  then show ?thesis by (simp add: da3d_align16_def push_bit_eq_mult drop_bit_eq_div mult.commute)
qed

lemma align16_ge: "n \<le> da3d_align16 n"
  unfolding align16_div using div_mult_mod_eq [of "n + 15" 16] pos_mod_bound [of 16 "n + 15"] by linarith

lemma edge_bits:
  assumes "edge_ok h"
  shows "1 \<le> nat (number_of_bits (h - 1))" "h \<le> 2 ^ nat (number_of_bits (h - 1))" "next_pow2 h = 2 ^ nat (number_of_bits (h - 1))"
proof -
  have b: "0 \<le> number_of_bits (h - 1)" "h - 1 < 2 ^ nat (number_of_bits (h - 1))"
    using number_of_bits_bounds [of "h - 1"] assms by (auto simp: edge_ok_def)
  then show "h \<le> 2 ^ nat (number_of_bits (h - 1))" by linarith
  show "1 \<le> nat (number_of_bits (h - 1))"
  proof (rule ccontr)
    assume "\<not> 1 \<le> nat (number_of_bits (h - 1))"
    then show False using b(2) assms by (simp add: edge_ok_def)
  qed
  show "next_pow2 h = 2 ^ nat (number_of_bits (h - 1))" using assms by (intro next_pow2_eq) (auto simp: edge_ok_def)
qed

lemma next_edge_pow: "next_edge (2 ^ Suc k) = 2 ^ max 1 k"
proof (cases k)
  case 0
  then show ?thesis by (simp add: next_edge_def drop_bit_eq_div push_bit_eq_mult)
next
  case (Suc j)
  have "(4 * 2 ^ j + 3) div 4 = (2 :: int) ^ j" by simp
  then show ?thesis using Suc by (simp add: next_edge_def drop_bit_eq_div push_bit_eq_mult)
qed

lemma wm_edge_pow:
  assumes "edge_ok h"
  shows "wm_edge h l = 2 ^ max 1 (nat (number_of_bits (h - 1)) - l)"
proof (induction l)
  case 0
  then show ?case using edge_bits [OF assms] by (simp add: wm_edge_def max_def)
next
  case (Suc l)
  let ?a = "nat (number_of_bits (h - 1))"
  have "wm_edge h (Suc l) = next_edge (wm_edge h l)" by (simp add: wm_edge_def)
  also have "\<dots> = next_edge (2 ^ Suc (max 1 (?a - l) - 1))" using Suc by simp
  also have "\<dots> = 2 ^ max 1 (max 1 (?a - l) - 1)" by (rule next_edge_pow)
  also have "max 1 (max 1 (?a - l) - 1) = max 1 (?a - Suc l)" by (simp add: max_def)
  finally show ?case .
qed

lemma wm_edge_pos: "edge_ok h \<Longrightarrow> 2 \<le> wm_edge h l"
  using power_increasing [of 1 "max 1 (nat (number_of_bits (h - 1)) - l)" "2::int"] by (simp add: wm_edge_pow)

lemma wm_edge_next: "edge_ok h \<Longrightarrow> wm_edge h l \<le> 2 * wm_edge h (Suc l)"
proof -
  assume e: "edge_ok h"
  let ?a = "nat (number_of_bits (h - 1))"
  have "(2 :: int) ^ max 1 (?a - l) \<le> 2 ^ Suc (max 1 (?a - Suc l))" by (rule power_increasing) auto
  then show ?thesis by (simp add: wm_edge_pow [OF e])
qed

lemma wm_valid_iff: "r < wm_valid h l \<longleftrightarrow> r * 2 ^ l < h"
proof (induction l arbitrary: r)
  case 0
  then show ?case by (simp add: wm_valid_def)
next
  case (Suc l)
  have "wm_valid h (Suc l) = (wm_valid h l + 1) div 2" by (simp add: wm_valid_def drop_bit_eq_div)
  then have "r < wm_valid h (Suc l) \<longleftrightarrow> 2 * r < wm_valid h l" by auto
  also have "\<dots> \<longleftrightarrow> r * 2 ^ Suc l < h" unfolding Suc by (simp add: mult.assoc mult.commute mult.left_commute)
  finally show ?case .
qed

text \<open>A valid cell has its four children.\<close>

lemma valid_children:
  assumes "edge_ok h" "0 \<le> r" "r < wm_valid h (Suc l)"
  shows "2 * r + 1 < wm_edge h l"
proof -
  let ?a = "nat (number_of_bits (h - 1))"
  have r: "r * 2 ^ Suc l < 2 ^ ?a" using assms(3) edge_bits(2) [OF assms(1)] by (simp only: wm_valid_iff)
  show ?thesis
  proof (cases "l < ?a")
    case True
    then have "(2 :: int) ^ ?a = 2 ^ (?a - Suc l) * 2 ^ Suc l" unfolding power_add [symmetric] by simp
    then have "r * 2 ^ Suc l < 2 ^ (?a - Suc l) * 2 ^ Suc l" using r by simp
    then have "r < 2 ^ (?a - Suc l)" by (rule mult_right_less_imp_less) simp
    moreover have "(2 :: int) ^ max 1 (?a - l) = 2 * 2 ^ (?a - Suc l)" using True by (simp add: max_def Suc_diff_Suc flip: power_Suc)
    ultimately show ?thesis by (simp add: wm_edge_pow [OF assms(1)])
  next
    case False
    have "r = 0"
    proof (rule ccontr)
      assume "r \<noteq> 0"
      then have "2 ^ Suc l \<le> r * 2 ^ Suc l" using assms(2) mult_right_mono [of 1 r "2 ^ Suc l"] by simp
      moreover have "(2 :: int) ^ ?a \<le> 2 ^ Suc l" using False by (intro power_increasing) auto
      ultimately show False using r by linarith
    qed
    then show ?thesis using wm_edge_pos [OF assms(1), of l] by simp
  qed
qed

lemma valid_le_edge: "edge_ok h \<Longrightarrow> 0 \<le> r \<Longrightarrow> r < wm_valid h l \<Longrightarrow> r < wm_edge h l"
proof (cases l)
  case 0
  assume "edge_ok h" "r < wm_valid h l"
  then show ?thesis using 0 edge_bits [of h] by (simp add: wm_valid_def wm_edge_def)
next
  case (Suc k)
  assume a: "edge_ok h" "0 \<le> r" "r < wm_valid h l"
  have "2 * r + 1 < wm_edge h k" using valid_children [OF a(1,2)] a(3) Suc by simp
  then show ?thesis using wm_edge_next [OF a(1), of k] unfolding Suc by linarith
qed

definition wm_shape :: "int \<Rightarrow> int \<Rightarrow> weight_map \<Rightarrow> bool" where
  "wm_shape h w wm \<longleftrightarrow>
     edge_ok h \<and> edge_ok w \<and> wm_levels wm = wm_level_count h w \<and> wm_width wm = w \<and> wm_height wm = h \<and>
     (\<forall>l. int l < wm_levels wm \<longrightarrow> wm_rows wm (int l) = wm_edge h l \<and> wm_cols wm (int l) = wm_edge w l \<and> wm_base wm (int l) = wm_offset h w l)"

text \<open>The address of a cell, and the cells of a map.\<close>

definition cell_addr :: "int \<Rightarrow> int \<Rightarrow> nat \<Rightarrow> int \<Rightarrow> int \<Rightarrow> int" where
  "cell_addr h w l r c = wm_offset h w l + (r * wm_edge w l + c)"

definition is_cell :: "int \<Rightarrow> int \<Rightarrow> nat \<Rightarrow> int \<Rightarrow> int \<Rightarrow> bool" where
  "is_cell h w l r c \<longleftrightarrow> 0 \<le> r \<and> r < wm_edge h l \<and> 0 \<le> c \<and> c < wm_edge w l"

lemma cell_in_level:
  assumes "is_cell h w l r c"
  shows "wm_offset h w l \<le> cell_addr h w l r c" "cell_addr h w l r c < wm_offset h w (Suc l)"
proof -
  have "r * wm_edge w l + wm_edge w l \<le> wm_edge h l * wm_edge w l"
    using assms mult_right_mono [of "r + 1" "wm_edge h l" "wm_edge w l"] by (simp add: is_cell_def distrib_right)
  then have "r * wm_edge w l + c < da3d_align16 (wm_edge h l * wm_edge w l)" using assms align16_ge [of "wm_edge h l * wm_edge w l"]
    by (simp add: is_cell_def)
  then show "cell_addr h w l r c < wm_offset h w (Suc l)" by (simp add: cell_addr_def)
  show "wm_offset h w l \<le> cell_addr h w l r c" using assms by (auto simp: is_cell_def cell_addr_def)
qed

lemma offset_mono:
  assumes "edge_ok h" "edge_ok w" "l \<le> l'"
  shows "wm_offset h w l \<le> wm_offset h w l'"
  using assms(3)
proof (induction rule: dec_induct)
  case (step n)
  have "0 \<le> wm_edge h n * wm_edge w n" using wm_edge_pos [OF assms(1), of n] wm_edge_pos [OF assms(2), of n] by simp
  then show ?case using step align16_ge [of "wm_edge h n * wm_edge w n"] by simp
qed simp

lemma cell_addr_inj:
  assumes ok: "edge_ok h" "edge_ok w" and c: "is_cell h w l r c" "is_cell h w l' r' c'" and eq: "cell_addr h w l r c = cell_addr h w l' r' c'"
  shows "l = l' \<and> r = r' \<and> c = c'"
proof -
  have l: "l = l'"
  proof (rule ccontr)
    assume "l \<noteq> l'"
    then consider "Suc l \<le> l'" | "Suc l' \<le> l" by linarith
    then show False
      by cases (use offset_mono [OF ok, of "Suc l" l'] offset_mono [OF ok, of "Suc l'" l] cell_in_level [OF c(1)] cell_in_level [OF c(2)] eq in linarith)+
  qed
  let ?n = "wm_edge w l"
  have e: "r * ?n + c = r' * ?n + c'" using eq l by (simp add: cell_addr_def)
  have n: "0 < ?n" using wm_edge_pos [OF ok(2), of l] by simp
  have cc: "0 \<le> c" "c < ?n" "0 \<le> c'" "c' < ?n" using c l by (auto simp: is_cell_def)
  have "r = (r * ?n + c) div ?n" "r' = (r' * ?n + c') div ?n" using n cc by simp_all
  then have "r = r'" using e by metis
  then show ?thesis using e l by simp
qed


subsection \<open>Weights and minima\<close>

text \<open>What a weight is: not a NaN and not negative, nor the negative zero.\<close>

definition weight_ok :: "f32 \<Rightarrow> bool" where
  "weight_ok v \<longleftrightarrow> \<not> f32_neg v \<and> \<not> f32_nan v"

lemma weight_key_inj: "weight_ok a \<Longrightarrow> weight_ok b \<Longrightarrow> f32_key a = f32_key b \<Longrightarrow> a = b"
proof -
  have u: "f32_key v = uint v" if "weight_ok v" for v
  proof -
    have "\<not> bit v 31" using that by (simp add: weight_ok_def f32_neg_def)
    then have "take_bit 31 v = v" by (intro bit_word_eqI) (auto simp: bit_simps less_Suc_eq numeral_eq_Suc)
    then show ?thesis using that by (simp add: f32_key_def f32_mag_def weight_ok_def)
  qed
  assume "weight_ok a" "weight_ok b" "f32_key a = f32_key b"
  then show "a = b" using u by (simp add: word_uint_eq_iff)
qed

lemma weight_lt: "weight_ok a \<Longrightarrow> weight_ok b \<Longrightarrow> f32_lt a b \<longleftrightarrow> f32_key a < f32_key b"
  by (simp add: f32_lt_def weight_ok_def)

lemma fmin_weight:
  assumes "weight_ok a" "weight_ok b"
  shows "weight_ok (fmin a b)" "f32_key (fmin a b) = min (f32_key a) (f32_key b)"
  using assms by (auto simp: fmin_def weight_lt)

lemma fmin_vector:
  assumes "weight_ok a" "weight_ok b" "weight_ok c" "weight_ok d"
  shows "fmin (fmin a c) (fmin b d) = fmin (fmin (fmin a b) c) d"
  by (rule weight_key_inj) (simp_all add: fmin_weight assms)

lemma weight_constants [simp]: "weight_ok f32_zero" "weight_ok f32_inf" "f32_key f32_zero = 0" "f32_key f32_inf = 0x7f800000"
  by (simp_all add: weight_ok_def f32_neg_def f32_nan_def f32_mag_def f32_key_def f32_zero_def f32_inf_def)

subsection \<open>One row of a level\<close>

definition row_min :: "int \<Rightarrow> int \<Rightarrow> buffer \<Rightarrow> int \<Rightarrow> f32" where
  "row_min q0 q1 s c = fmin (fmin (fmin (s (q0 + 2 * c)) (s (q0 + (2 * c + 1)))) (s (q1 + 2 * c))) (s (q1 + (2 * c + 1)))"

lemma map_span_below: "i < base + lo \<Longrightarrow> map_span base lo hi g b i = b i"
  by (simp add: map_span_def)

lemma map_span_cong:
  "(\<And>k. lo \<le> k \<Longrightarrow> k < hi \<Longrightarrow> g k (b (base + k)) = g' k (b (base + k))) \<Longrightarrow> map_span base lo hi g b = map_span base lo hi g' b"
proof (rule ext)
  fix i
  assume a: "\<And>k. lo \<le> k \<Longrightarrow> k < hi \<Longrightarrow> g k (b (base + k)) = g' k (b (base + k))"
  show "map_span base lo hi g b i = map_span base lo hi g' b i"
    using a [of "i - base"] by (auto simp: map_span_def)
qed

lemma min_vectors_span:
  assumes sep: "\<And>k. 0 \<le> k \<Longrightarrow> k < lc \<Longrightarrow> q0 + k < dst \<and> q1 + k < dst" and ok: "\<And>k. 0 \<le> k \<Longrightarrow> k < lc \<Longrightarrow> weight_ok (s (q0 + k)) \<and> weight_ok (s (q1 + k))"
    and "0 \<le> lo" "lo \<le> c"
  shows "\<exists>c'. c \<le> c' \<and> (c' = c \<or> 2 * c' \<le> lc) \<and>
    min_vectors N hi lc q0 q1 dst c (map_span dst lo c (\<lambda>k _. row_min q0 q1 s k) s) = (c', map_span dst lo c' (\<lambda>k _. row_min q0 q1 s k) s)"
  using assms(4)
proof (induction "nat (hi + 1 - c)" arbitrary: c rule: less_induct)
  case less
  let ?g = "\<lambda>k _. row_min q0 q1 s k"
  show ?case
  proof (cases "0 < N \<and> c \<le> hi \<and> 2 * (c + N) \<le> lc")
    case True
    define t where "t = map_span dst lo c ?g s"
    have kept: "t (q + k) = s (q + k)" if "q = q0 \<or> q = q1" "0 \<le> k" "k < lc" for q k
      using sep [OF that(2,3)] that(1) assms(3) unfolding t_def by (intro map_span_below) auto
    have vec: "min_vector N q0 q1 dst c t = map_span dst c (c + N) ?g t"
      unfolding min_vector_def
    proof (rule map_span_cong)
      fix k
      assume k: "c \<le> k" "k < c + N"
      then have in0: "0 \<le> 2 * k" "2 * k < lc" "0 \<le> 2 * k + 1" "2 * k + 1 < lc" using True less.prems assms(3) by auto
      show "fmin (fmin (t (q0 + 2 * k)) (t (q1 + 2 * k))) (fmin (t (q0 + (2 * k + 1))) (t (q1 + (2 * k + 1)))) = row_min q0 q1 s k"
        unfolding kept [OF disjI1 [OF refl] in0(1,2)] kept [OF disjI2 [OF refl] in0(1,2)] kept [OF disjI1 [OF refl] in0(3,4)]
          kept [OF disjI2 [OF refl] in0(3,4)] row_min_def
        by (rule fmin_vector) (use ok in0 in blast)+
    qed
    have "map_span dst c (c + N) ?g t = map_span dst lo (c + N) ?g s"
      unfolding t_def using True less.prems by (intro map_span_split) auto
    then have step: "min_vectors N hi lc q0 q1 dst c (map_span dst lo c ?g s) = min_vectors N hi lc q0 q1 dst (c + N) (map_span dst lo (c + N) ?g s)"
      using True vec unfolding t_def by (subst min_vectors.simps) simp
    have "nat (hi + 1 - (c + N)) < nat (hi + 1 - c)" "lo \<le> c + N" using True less.prems by auto
    from less.hyps [OF this] True show ?thesis unfolding step by fastforce
  next
    case False
    then show ?thesis by (subst min_vectors.simps) auto
  qed
qed

lemma min_cells_span:
  assumes sep: "\<And>k. 0 \<le> k \<Longrightarrow> k < lc \<Longrightarrow> q0 + k < dst \<and> q1 + k < dst" and "0 \<le> lo" "lo \<le> c" "2 * hi + 1 < lc"
  shows "fold (min_cell q0 q1 dst) [c..hi] (map_span dst lo c (\<lambda>k _. row_min q0 q1 s k) s) = map_span dst lo (max c (hi + 1)) (\<lambda>k _. row_min q0 q1 s k) s"
  using assms(3)
proof (induction "nat (hi + 1 - c)" arbitrary: c)
  case 0
  then show ?case by simp
next
  case (Suc n)
  let ?g = "\<lambda>k _. row_min q0 q1 s k"
  have c: "c \<le> hi" using Suc.hyps(2) by simp
  define t where "t = map_span dst lo c ?g s"
  have kept: "t (q + k) = s (q + k)" if "q = q0 \<or> q = q1" "0 \<le> k" "k < lc" for q k
    using sep [OF that(2,3)] that(1) assms(2) unfolding t_def by (intro map_span_below) auto
  have in0: "0 \<le> 2 * c" "2 * c < lc" "0 \<le> 2 * c + 1" "2 * c + 1 < lc" using c Suc.prems assms(2,4) by auto
  have "min_cell q0 q1 dst c t = t(dst + c := row_min q0 q1 s c)"
    unfolding min_cell_def kept [OF disjI1 [OF refl] in0(1,2)] kept [OF disjI2 [OF refl] in0(1,2)] kept [OF disjI1 [OF refl] in0(3,4)]
      kept [OF disjI2 [OF refl] in0(3,4)] by (simp only: row_min_def)
  also have "\<dots> = map_span dst lo (c + 1) ?g s"
    using Suc.prems by (auto simp: t_def map_span_def fun_eq_iff)
  finally have "fold (min_cell q0 q1 dst) [c..hi] (map_span dst lo c ?g s) = fold (min_cell q0 q1 dst) [c + 1..hi] (map_span dst lo (c + 1) ?g s)"
    using c by (simp add: upto_rec1 t_def)
  also have "\<dots> = map_span dst lo (max (c + 1) (hi + 1)) ?g s"
    by (rule Suc.hyps(1)) (use Suc in auto)
  also have "max (c + 1) (hi + 1) = max c (hi + 1)" using c by simp
  finally show ?case .
qed


subsection \<open>One level\<close>

definition cell_at :: "int \<Rightarrow> int \<Rightarrow> buffer \<Rightarrow> nat \<Rightarrow> int \<Rightarrow> int \<Rightarrow> f32" where
  "cell_at h w s l r c = s (cell_addr h w l r c)"

definition child_min :: "int \<Rightarrow> int \<Rightarrow> buffer \<Rightarrow> nat \<Rightarrow> int \<Rightarrow> int \<Rightarrow> f32" where
  "child_min h w s k r c =
     fmin (fmin (fmin (cell_at h w s k (2 * r) (2 * c)) (cell_at h w s k (2 * r) (2 * c + 1))) (cell_at h w s k (2 * r + 1) (2 * c)))
       (cell_at h w s k (2 * r + 1) (2 * c + 1))"

definition has_children :: "int \<Rightarrow> int \<Rightarrow> nat \<Rightarrow> int \<Rightarrow> int \<Rightarrow> bool" where
  "has_children h w k r c \<longleftrightarrow> 0 \<le> r \<and> 2 * r + 1 < wm_edge h k \<and> 0 \<le> c \<and> 2 * c + 1 < wm_edge w k"

definition cells_ok :: "int \<Rightarrow> int \<Rightarrow> nat \<Rightarrow> buffer \<Rightarrow> bool" where
  "cells_ok h w l s \<longleftrightarrow> (\<forall>r c. is_cell h w l r c \<longrightarrow> weight_ok (cell_at h w s l r c))"

lemma children_are_cells:
  assumes "has_children h w k r c"
  shows "is_cell h w k (2 * r) (2 * c)" "is_cell h w k (2 * r) (2 * c + 1)" "is_cell h w k (2 * r + 1) (2 * c)" "is_cell h w k (2 * r + 1) (2 * c + 1)"
  using assms by (auto simp: has_children_def is_cell_def)

lemma parent_is_cell:
  assumes "edge_ok h" "edge_ok w" "has_children h w k r c"
  shows "is_cell h w (Suc k) r c"
  using assms(3) wm_edge_next [OF assms(1), of k] wm_edge_next [OF assms(2), of k] by (auto simp: has_children_def is_cell_def)

lemma row_min_child: "row_min (cell_addr h w k (2 * r) 0) (cell_addr h w k (2 * r + 1) 0) s c = child_min h w s k r c"
  by (simp add: row_min_def child_min_def cell_at_def cell_addr_def add.assoc)

lemma child_min_ok: "cells_ok h w k s \<Longrightarrow> has_children h w k r c \<Longrightarrow> weight_ok (child_min h w s k r c)"
  unfolding child_min_def cells_ok_def by (intro fmin_weight) (auto dest: children_are_cells)

lemma child_min_cong:
  assumes "\<And>r c. is_cell h w k r c \<Longrightarrow> cell_at h w s' k r c = cell_at h w s k r c" "has_children h w k r c"
  shows "child_min h w s' k r c = child_min h w s k r c"
  unfolding child_min_def using assms(1) children_are_cells [OF assms(2)] by simp

text \<open>What a pass over some rows \<open>R\<close> of level \<open>k + 1\<close> leaves.\<close>

definition refreshed :: "int \<Rightarrow> int \<Rightarrow> nat \<Rightarrow> int set \<Rightarrow> int \<Rightarrow> int \<Rightarrow> buffer \<Rightarrow> buffer \<Rightarrow> bool" where
  "refreshed h w k R lo hi s s' \<longleftrightarrow>
     (\<forall>l r c. is_cell h w l r c \<longrightarrow> l \<noteq> Suc k \<longrightarrow> cell_at h w s' l r c = cell_at h w s l r c) \<and>
     (\<forall>r c. is_cell h w (Suc k) r c \<longrightarrow> cell_at h w s' (Suc k) r c = cell_at h w s (Suc k) r c \<or>
        has_children h w k r c \<and> cell_at h w s' (Suc k) r c = child_min h w s k r c) \<and>
     (\<forall>r \<in> R. \<forall>c. lo \<le> c \<and> c \<le> hi \<longrightarrow> cell_at h w s' (Suc k) r c = child_min h w s k r c)"

lemma shape_level:
  assumes "wm_shape h w wm" "int l < wm_levels wm"
  shows "wm_rows wm (int l) = wm_edge h l" "wm_cols wm (int l) = wm_edge w l" "wm_base wm (int l) = wm_offset h w l"
  using assms unfolding wm_shape_def by blast+

text \<open>Writing a span of one row, seen by the cells.\<close>

lemma span_cell:
  assumes e: "edge_ok h" "edge_ok w" and dom: "\<And>c. lo \<le> c \<Longrightarrow> c < hi \<Longrightarrow> is_cell h w ro row c" and cell: "is_cell h w l r c"
  shows "cell_at h w (map_span (cell_addr h w ro row 0) lo hi g s) l r c =
    (if l = ro \<and> r = row \<and> lo \<le> c \<and> c < hi then g c (cell_at h w s l r c) else cell_at h w s l r c)"
proof (cases "cell_addr h w ro row 0 + lo \<le> cell_addr h w l r c \<and> cell_addr h w l r c < cell_addr h w ro row 0 + hi")
  case True
  define j where "j = cell_addr h w l r c - cell_addr h w ro row 0"
  have j: "lo \<le> j" "j < hi" "cell_addr h w l r c = cell_addr h w ro row j" using True by (auto simp: j_def cell_addr_def)
  have lrc: "l = ro" "r = row" "c = j" using cell_addr_inj [OF e cell dom [OF j(1,2)] j(3)] by simp_all
  have "cell_addr h w ro row j = cell_addr h w ro row 0 + j" by (simp add: cell_addr_def)
  then show ?thesis using j(1,2) unfolding lrc by (simp add: cell_at_def map_span_def)
next
  case False
  then have "\<not> (l = ro \<and> r = row \<and> lo \<le> c \<and> c < hi)" by (auto simp: cell_addr_def)
  then show ?thesis using False by (auto simp: cell_at_def map_span_def)
qed

lemma refresh_row_refreshed:
  assumes shape: "wm_shape h w wm" and k: "int (Suc k) < wm_levels wm" and r: "0 \<le> r" "2 * r + 1 < wm_edge h k"
    and c: "0 \<le> lo" "2 * hi + 1 < wm_edge w k" and ok: "cells_ok h w k s"
  shows "refreshed h w k {r} lo hi s (refresh_row N wm (int (Suc k)) lo hi r s)"
proof -
  have e: "edge_ok h" "edge_ok w" using shape by (auto simp: wm_shape_def)
  have f: "wm_cols wm (int k) = wm_edge w k" "wm_cols wm (int (Suc k)) = wm_edge w (Suc k)" "wm_base wm (int k) = wm_offset h w k"
    "wm_base wm (int (Suc k)) = wm_offset h w (Suc k)"
    using shape_level [OF shape, of k] shape_level [OF shape k] k by simp_all
  have pred: "int (Suc k) - 1 = int k" by simp
  let ?lc = "wm_edge w k" and ?q0 = "cell_addr h w k (2 * r) 0" and ?q1 = "cell_addr h w k (2 * r + 1) 0" and ?dst = "cell_addr h w (Suc k) r 0"
  have q0: "wm_offset h w k + 2 * r * ?lc = ?q0" and q1: "?q0 + ?lc = ?q1" and dst: "wm_offset h w (Suc k) + r * wm_edge w (Suc k) = ?dst"
    by (simp_all add: cell_addr_def distrib_right)
  have cells: "is_cell h w k (2 * r) j" "is_cell h w k (2 * r + 1) j" if "0 \<le> j" "j < ?lc" for j using r that by (auto simp: is_cell_def)
  have at: "cell_addr h w k y j = cell_addr h w k y 0 + j" for y j by (simp add: cell_addr_def)
  have dge: "wm_offset h w (Suc k) \<le> ?dst" using r wm_edge_pos [OF e(2), of "Suc k"] by (simp add: cell_addr_def)
  have sep: "?q0 + j < ?dst \<and> ?q1 + j < ?dst" if "0 \<le> j" "j < ?lc" for j
    using cell_in_level(2) [OF cells(1) [OF that]] cell_in_level(2) [OF cells(2) [OF that]] dge unfolding at [of _ j] by linarith
  have wok: "weight_ok (s (?q0 + j)) \<and> weight_ok (s (?q1 + j))" if "0 \<le> j" "j < ?lc" for j
    using ok cells [OF that] by (simp add: cells_ok_def cell_at_def at [symmetric])
  obtain c' where c': "lo \<le> c'" "c' = lo \<or> 2 * c' \<le> ?lc"
    "min_vectors N hi ?lc ?q0 ?q1 ?dst lo s = (c', map_span ?dst lo c' (\<lambda>k _. row_min ?q0 ?q1 s k) s)"
    using min_vectors_span [where lc = ?lc and N = N and hi = hi, OF sep wok c(1) order_refl] by (auto simp: map_span_empty)
  let ?e = "max c' (hi + 1)"
  have new: "refresh_row N wm (int (Suc k)) lo hi r s = map_span ?dst lo ?e (\<lambda>c _. child_min h w s k r c) s"
    unfolding refresh_row_def Let_def pred f q0 q1 dst c'(3) prod.case
    using min_cells_span [where lc = ?lc and s = s, OF sep c(1) c'(1) c(2)] by (simp only: row_min_child)
  have dom: "has_children h w k r c" if "lo \<le> c" "c < ?e" for c
    using that c' c r by (auto simp: has_children_def)
  have at1: "cell_at h w (map_span ?dst lo ?e g s) l r' c =
      (if l = Suc k \<and> r' = r \<and> lo \<le> c \<and> c < ?e then g c (cell_at h w s l r' c) else cell_at h w s l r' c)" if "is_cell h w l r' c" for l r' c g
    by (rule span_cell [OF e parent_is_cell [OF e dom] that])
  let ?s = "map_span ?dst lo ?e (\<lambda>c _. child_min h w s k r c) s"
  show ?thesis
    unfolding new refreshed_def
  proof (intro conjI allI ballI impI)
    fix l r' c
    assume "is_cell h w l r' c" "l \<noteq> Suc k"
    then show "cell_at h w ?s l r' c = cell_at h w s l r' c" by (simp only: at1 simp_thms if_False)
  next
    fix r' c
    assume a: "is_cell h w (Suc k) r' c"
    show "cell_at h w ?s (Suc k) r' c = cell_at h w s (Suc k) r' c \<or>
        has_children h w k r' c \<and> cell_at h w ?s (Suc k) r' c = child_min h w s k r' c"
    proof (cases "r' = r \<and> lo \<le> c \<and> c < ?e")
      case True
      then have "has_children h w k r' c" using dom [of c] by simp
      then show ?thesis unfolding at1 [OF a] using True by simp
    next
      case False
      then show ?thesis unfolding at1 [OF a] by auto
    qed
  next
    fix r' c
    assume "r' \<in> {r}" "lo \<le> c \<and> c \<le> hi"
    then have r': "r' = r" and in0: "lo \<le> c" "c < ?e" by auto
    show "cell_at h w ?s (Suc k) r' c = child_min h w s k r' c"
      unfolding r' at1 [OF parent_is_cell [OF e dom [OF in0]]] using in0 by simp
  qed
qed

lemma refresh_rows_refreshed:
  assumes shape: "wm_shape h w wm" and k: "int (Suc k) < wm_levels wm" and R: "\<forall>r \<in> set rows. 0 \<le> r \<and> 2 * r + 1 < wm_edge h k"
    and c: "0 \<le> lo" "2 * hi + 1 < wm_edge w k" and ok: "cells_ok h w k s"
  shows "refreshed h w k (set rows) lo hi s (fold (refresh_row N wm (int (Suc k)) lo hi) rows s)"
  using R
proof (induction rows rule: rev_induct)
  case Nil
  then show ?case by (simp add: refreshed_def)
next
  case (snoc r rows)
  let ?s = "fold (refresh_row N wm (int (Suc k)) lo hi) rows s" and ?t = "fold (refresh_row N wm (int (Suc k)) lo hi) (rows @ [r]) s"
  have e: "edge_ok h" "edge_ok w" using shape by (auto simp: wm_shape_def)
  have ih: "refreshed h w k (set rows) lo hi s ?s" using snoc by simp
  then have kk: "cell_at h w ?s k r' c' = cell_at h w s k r' c'" if "is_cell h w k r' c'" for r' c'
    using that by (simp add: refreshed_def)
  have "cells_ok h w k ?s" using ok kk by (simp add: cells_ok_def)
  then have st: "refreshed h w k {r} lo hi ?s ?t" using refresh_row_refreshed [OF shape k _ _ c] snoc.prems by simp
  have cm: "child_min h w ?s k r' c' = child_min h w s k r' c'" if "has_children h w k r' c'" for r' c' by (rule child_min_cong [OF kk that])
  have hc: "has_children h w k r' c'" if "r' \<in> set (rows @ [r])" "lo \<le> c'" "c' \<le> hi" for r' c'
    using that c snoc.prems by (auto simp: has_children_def)
  have new: "cell_at h w ?t (Suc k) r' c' = child_min h w s k r' c'" if m: "r' \<in> set (rows @ [r])" and cc: "lo \<le> c'" "c' \<le> hi" for r' c'
  proof (cases "r' = r")
    case True
    then show ?thesis using st cc cm [OF hc [OF m cc]] by (simp add: refreshed_def)
  next
    case False
    have "cell_at h w ?s (Suc k) r' c' = child_min h w s k r' c'" using ih m False cc by (simp add: refreshed_def)
    moreover have "is_cell h w (Suc k) r' c'" by (rule parent_is_cell [OF e hc [OF m cc]])
    ultimately show ?thesis using st cm [OF hc [OF m cc]] unfolding refreshed_def by metis
  qed
  have "cell_at h w ?t (Suc k) r' c' = cell_at h w s (Suc k) r' c' \<or> has_children h w k r' c' \<and> cell_at h w ?t (Suc k) r' c' = child_min h w s k r' c'"
    if "is_cell h w (Suc k) r' c'" for r' c' using ih st that cm unfolding refreshed_def by metis
  moreover have "cell_at h w ?t l r' c' = cell_at h w s l r' c'" if "is_cell h w l r' c'" "l \<noteq> Suc k" for l r' c'
    using ih st that unfolding refreshed_def by metis
  ultimately show ?case unfolding refreshed_def using new by blast
qed


subsection \<open>The pyramid\<close>

text \<open>A cell with four children holds the least of them; a cell outside the core holds infinity.\<close>

definition consistent :: "int \<Rightarrow> int \<Rightarrow> nat \<Rightarrow> buffer \<Rightarrow> bool" where
  "consistent h w k s \<longleftrightarrow> (\<forall>r c. has_children h w k r c \<longrightarrow> cell_at h w s (Suc k) r c = child_min h w s k r c)"

definition valid_cell :: "int \<Rightarrow> int \<Rightarrow> nat \<Rightarrow> int \<Rightarrow> int \<Rightarrow> bool" where
  "valid_cell h w l r c \<longleftrightarrow> 0 \<le> r \<and> r < wm_valid h l \<and> 0 \<le> c \<and> c < wm_valid w l"

definition pyramid :: "int \<Rightarrow> int \<Rightarrow> weight_map \<Rightarrow> bool" where
  "pyramid h w wm \<longleftrightarrow>
     wm_shape h w wm \<and> (\<forall>l. int l < wm_levels wm \<longrightarrow> cells_ok h w l (wm_store wm)) \<and>
     (\<forall>k. int (Suc k) < wm_levels wm \<longrightarrow> consistent h w k (wm_store wm)) \<and>
     (\<forall>l r c. int l < wm_levels wm \<longrightarrow> is_cell h w l r c \<longrightarrow> \<not> valid_cell h w l r c \<longrightarrow> cell_at h w (wm_store wm) l r c = f32_inf)"

text \<open>The cells of level \<open>l\<close> above a region of the core.\<close>

definition above :: "int \<Rightarrow> int \<Rightarrow> int \<Rightarrow> int \<Rightarrow> nat \<Rightarrow> int \<Rightarrow> int \<Rightarrow> bool" where
  "above fr lr fc lc l r c \<longleftrightarrow> drop_bit l fr \<le> r \<and> r \<le> drop_bit l lr \<and> drop_bit l fc \<le> c \<and> c \<le> drop_bit l lc"

lemma drop_bit_Suc_bounds:
  fixes x :: int
  shows "2 * drop_bit (Suc k) x \<le> drop_bit k x" "drop_bit k x < 2 * drop_bit (Suc k) x + 2"
proof -
  have "drop_bit (Suc k) x = drop_bit k x div 2" by (simp add: drop_bit_eq_div zdiv_zmult2_eq [symmetric] mult.commute)
  then show "2 * drop_bit (Suc k) x \<le> drop_bit k x" "drop_bit k x < 2 * drop_bit (Suc k) x + 2" by presburger+
qed

lemma above_child:
  assumes "above fr lr fc lc k (2 * r + i) (2 * c + j)" "0 \<le> i" "i \<le> 1" "0 \<le> j" "j \<le> 1"
  shows "above fr lr fc lc (Suc k) r c"
  using assms drop_bit_Suc_bounds [of k fr] drop_bit_Suc_bounds [of k lr] drop_bit_Suc_bounds [of k fc] drop_bit_Suc_bounds [of k lc]
  unfolding above_def by linarith

lemma drop_bit_valid: "0 \<le> x \<Longrightarrow> x < h \<Longrightarrow> drop_bit l x < wm_valid h l"
proof -
  assume "0 \<le> x" "x < h"
  moreover have "drop_bit l x * 2 ^ l \<le> x" by (simp add: drop_bit_eq_div minus_mod_eq_div_mult [symmetric])
  ultimately show ?thesis by (simp add: wm_valid_iff)
qed

text \<open>
  After the levels up to \<open>k\<close>: consistent so far, and what is not above the region, or in a
  higher level, is as in \<open>s0\<close>; level 0 is as in \<open>s1\<close>.
\<close>

definition refreshed_to :: "int \<Rightarrow> int \<Rightarrow> nat \<Rightarrow> int \<Rightarrow> int \<Rightarrow> int \<Rightarrow> int \<Rightarrow> nat \<Rightarrow> buffer \<Rightarrow> buffer \<Rightarrow> buffer \<Rightarrow> bool" where
  "refreshed_to h w L fr lr fc lc k s0 s1 s \<longleftrightarrow>
     (\<forall>r c. is_cell h w 0 r c \<longrightarrow> cell_at h w s 0 r c = cell_at h w s1 0 r c) \<and> (\<forall>j < k. consistent h w j s) \<and> (\<forall>l < L. cells_ok h w l s) \<and>
     (\<forall>l r c. l < L \<longrightarrow> is_cell h w l r c \<longrightarrow> k < l \<or> \<not> above fr lr fc lc l r c \<longrightarrow> cell_at h w s l r c = cell_at h w s0 l r c)"

lemma refresh_level_step:
  assumes shape: "wm_shape h w wm" and L: "L = nat (wm_levels wm)" "Suc k < L" and cons: "consistent h w k s0"
    and region: "0 \<le> fr" "lr < h" "0 \<le> fc" "lc < w" "0 \<le> lr" "0 \<le> lc" and s: "refreshed_to h w L fr lr fc lc k s0 s1 s"
  shows "refreshed_to h w L fr lr fc lc (Suc k) s0 s1 (refresh_level N wm fr lr fc lc (int (Suc k)) s)"
proof -
  let ?lo = "drop_bit (Suc k) fc" and ?hi = "drop_bit (Suc k) lc" and ?R = "{drop_bit (Suc k) fr..drop_bit (Suc k) lr}"
  let ?t = "refresh_level N wm fr lr fc lc (int (Suc k)) s"
  have e: "edge_ok h" "edge_ok w" using shape by (auto simp: wm_shape_def)
  have k: "int (Suc k) < wm_levels wm" using L by simp
  have nn: "0 \<le> drop_bit n x" if "0 \<le> x" for n and x :: int using that by simp
  have hi: "2 * ?hi + 1 < wm_edge w k" by (rule valid_children [OF e(2) nn [OF region(6)] drop_bit_valid [OF region(6,4)]])
  have rows: "0 \<le> r \<and> 2 * r + 1 < wm_edge h k" if "r \<in> ?R" for r
    using that nn [OF region(1), of "Suc k"] valid_children [OF e(1) nn [OF region(5)] drop_bit_valid [OF region(5,2)], of k]
    by (simp only: atLeastAtMost_iff) linarith
  have ok: "cells_ok h w l s" if "l < L" for l using s that by (simp add: refreshed_to_def)
  have t: "refreshed h w k ?R ?lo ?hi s ?t"
    unfolding refresh_level_def nat_int using refresh_rows_refreshed [where rows = "[drop_bit (Suc k) fr..drop_bit (Suc k) lr]" and N = N, OF shape k _ nn [OF region(3)] hi ok] rows L by simp
  have other: "cell_at h w ?t l r c = cell_at h w s l r c" if "is_cell h w l r c" "l \<noteq> Suc k" for l r c
    using t that by (simp add: refreshed_def)
  have cmt: "child_min h w ?t j r c = child_min h w s j r c" if "has_children h w j r c" "j \<noteq> Suc k" for j r c
    by (rule child_min_cong [OF other that(1)]) (use that in auto)
  have same: "child_min h w s k r c = cell_at h w s0 (Suc k) r c" if hc: "has_children h w k r c" and out: "\<not> above fr lr fc lc (Suc k) r c" for r c
  proof -
    have kept: "cell_at h w s k (2 * r + i) (2 * c + j) = cell_at h w s0 k (2 * r + i) (2 * c + j)" if "i \<in> {0, 1}" "j \<in> {0, 1}" for i j
    proof -
      have "is_cell h w k (2 * r + i) (2 * c + j)" using hc that by (auto simp: has_children_def is_cell_def)
      moreover have "\<not> above fr lr fc lc k (2 * r + i) (2 * c + j)" using above_child [of fr lr fc lc k r i c j] out that by auto
      ultimately show ?thesis using s L by (simp add: refreshed_to_def)
    qed
    have "child_min h w s k r c = child_min h w s0 k r c"
      unfolding child_min_def using kept [of 0 0] kept [of 0 1] kept [of 1 0] kept [of 1 1] by simp
    then show ?thesis using cons hc by (simp add: consistent_def)
  qed
  have here: "cell_at h w ?t (Suc k) r c = (if above fr lr fc lc (Suc k) r c then child_min h w s k r c else cell_at h w s0 (Suc k) r c)"
    if cell: "is_cell h w (Suc k) r c" for r c
  proof (cases "above fr lr fc lc (Suc k) r c")
    case True
    then show ?thesis using t by (simp add: refreshed_def above_def)
  next
    case False
    have "cell_at h w s (Suc k) r c = cell_at h w s0 (Suc k) r c" using s L cell by (simp add: refreshed_to_def)
    moreover have "cell_at h w ?t (Suc k) r c = cell_at h w s (Suc k) r c \<or> has_children h w k r c \<and> cell_at h w ?t (Suc k) r c = child_min h w s k r c"
      using t cell by (simp add: refreshed_def)
    ultimately show ?thesis using False same by auto
  qed
  have hc: "has_children h w k r c" if "above fr lr fc lc (Suc k) r c" for r c
    using that rows [of r] hi nn [OF region(3), of "Suc k"] unfolding above_def has_children_def atLeastAtMost_iff by linarith
  have "consistent h w k ?t"
    unfolding consistent_def
  proof (intro allI impI)
    fix r c
    assume a: "has_children h w k r c"
    show "cell_at h w ?t (Suc k) r c = child_min h w ?t k r c"
      unfolding here [OF parent_is_cell [OF e a]] cmt [OF a n_not_Suc_n] using same [OF a] by simp
  qed
  moreover have "consistent h w j ?t" if "j < k" for j
    unfolding consistent_def
  proof (intro allI impI)
    fix r c
    assume a: "has_children h w j r c"
    have ne: "j \<noteq> Suc k" "Suc j \<noteq> Suc k" using that by simp_all
    show "cell_at h w ?t (Suc j) r c = child_min h w ?t j r c"
      unfolding other [OF parent_is_cell [OF e a] ne(2)] cmt [OF a ne(1)] using s that a by (simp add: refreshed_to_def consistent_def)
  qed
  moreover have "cells_ok h w l ?t" if "l < L" for l
  proof (cases "l = Suc k")
    case True
    show ?thesis
      unfolding cells_ok_def True
    proof (intro allI impI)
      fix r c
      assume a: "is_cell h w (Suc k) r c"
      have "weight_ok (cell_at h w ?t (Suc k) r c)"
      proof (cases "above fr lr fc lc (Suc k) r c")
        case ab: True
        then show ?thesis using here [OF a] child_min_ok [OF ok hc [OF ab]] L by simp
      next
        case ab: False
        have "cell_at h w s (Suc k) r c = cell_at h w s0 (Suc k) r c" using s L a by (simp add: refreshed_to_def)
        moreover have "weight_ok (cell_at h w s (Suc k) r c)" using ok [OF L(2)] a by (simp add: cells_ok_def)
        ultimately show ?thesis using here [OF a] ab by simp
      qed
      then show "weight_ok (cell_at h w ?t (Suc k) r c)" .
    qed
  next
    case False
    then show ?thesis using ok [OF that] other by (simp add: cells_ok_def)
  qed
  moreover have "cell_at h w ?t l r c = cell_at h w s0 l r c"
    if "l < L" "is_cell h w l r c" "Suc k < l \<or> \<not> above fr lr fc lc l r c" for l r c
  proof (cases "l = Suc k")
    case True
    then show ?thesis using here that by auto
  next
    case False
    then show ?thesis using other [OF that(2)] s that by (auto simp: refreshed_to_def)
  qed
  moreover have "cell_at h w ?t 0 r c = cell_at h w s1 0 r c" if "is_cell h w 0 r c" for r c
    using other [OF that] s that by (simp add: refreshed_to_def)
  ultimately show ?thesis unfolding refreshed_to_def using less_Suc_eq by auto
qed


subsection \<open>Increasing the weights keeps the pyramid\<close>

text \<open>What the documented addition of weights guarantees: it never lowers a weight.\<close>

definition weights_add :: "farith \<Rightarrow> bool" where
  "weights_add F \<longleftrightarrow> (\<forall>a b. weight_ok a \<longrightarrow> weight_ok b \<longrightarrow> weight_ok (fadd F a b) \<and> f32_key a \<le> f32_key (fadd F a b))"

text \<open>The core pixels a patch at \<open>row0\<close>, \<open>col0\<close> covers.\<close>

definition covers :: "int \<Rightarrow> int \<Rightarrow> int \<Rightarrow> int \<Rightarrow> int \<Rightarrow> int \<Rightarrow> bool" where
  "covers h w row0 col0 r c \<longleftrightarrow>
     0 \<le> r \<and> r < h \<and> row0 \<le> r \<and> r < row0 + kDa3dPatch \<and> 0 \<le> c \<and> c < w \<and> col0 \<le> c \<and> c < col0 + kDa3dPatch"

lemma core_is_cell:
  assumes "edge_ok h" "edge_ok w" "0 \<le> r" "r < h" "0 \<le> c" "c < w"
  shows "is_cell h w 0 r c" "valid_cell h w 0 r c"
  using assms edge_bits [OF assms(1)] edge_bits [OF assms(2)] by (auto simp: is_cell_def valid_cell_def wm_edge_def wm_valid_def)

lemma add_weights_cells:
  assumes shape: "wm_shape h w wm" and L: "0 < wm_levels wm" and "0 \<le> fc" "lc < w" "distinct rows" "\<forall>r \<in> set rows. 0 \<le> r \<and> r < h"
    and cell: "is_cell h w l r c"
  shows "cell_at h w (fold (\<lambda>r. map_span (wm_base wm 0 + r * wm_cols wm 0) fc (lc + 1) (\<lambda>c old. g r c old)) rows s) l r c =
    (if l = 0 \<and> r \<in> set rows \<and> fc \<le> c \<and> c \<le> lc then g r c (cell_at h w s 0 r c) else cell_at h w s l r c)"
proof -
  have e: "edge_ok h" "edge_ok w" using shape by (auto simp: wm_shape_def)
  have base: "wm_base wm 0 + row * wm_cols wm 0 = cell_addr h w 0 row 0" for row
    using shape_level [OF shape, of 0] L by (simp add: cell_addr_def)
  show ?thesis
    using assms(5,6)
  proof (induction rows arbitrary: s)
    case Nil
    then show ?case by simp
  next
    case (Cons row rows)
    have dom: "is_cell h w 0 row c'" if "fc \<le> c'" "c' < lc + 1" for c'
      using core_is_cell(1) [OF e, of row c'] Cons.prems that assms(3,4) by auto
    let ?t = "map_span (cell_addr h w 0 row 0) fc (lc + 1) (\<lambda>c old. g row c old) s"
    have at: "cell_at h w ?t l r c = (if l = 0 \<and> r = row \<and> fc \<le> c \<and> c < lc + 1 then g row c (cell_at h w s l r c) else cell_at h w s l r c)"
      by (rule span_cell [OF e dom cell])
    have "cell_at h w (fold (\<lambda>r. map_span (wm_base wm 0 + r * wm_cols wm 0) fc (lc + 1) (\<lambda>c old. g r c old)) (row # rows) s) l r c =
        (if l = 0 \<and> r \<in> set rows \<and> fc \<le> c \<and> c \<le> lc then g r c (cell_at h w ?t 0 r c) else cell_at h w ?t l r c)"
      unfolding fold_simps comp_apply base using Cons.IH [of ?t] Cons.prems by (simp add: base)
    then show ?case using at Cons.prems(1) by auto
  qed
qed

lemma increase_pyramid:
  fixes N :: int
  assumes pyr: "pyramid h w wm" and add: "weights_add F" and kk: "\<And>i. 0 \<le> i \<Longrightarrow> i < kDa3dPatch * kDa3dPatch \<Longrightarrow> weight_ok (kk i)"
    and pos: "- kDa3dPatch < row0" "row0 < h" "- kDa3dPatch < col0" "col0 < w"
  defines "wm' \<equiv> increase_weights F N wm kk row0 col0"
  shows "pyramid h w wm'" "wm_levels wm' = wm_levels wm"
    "0 \<le> r \<Longrightarrow> r < h \<Longrightarrow> 0 \<le> c \<Longrightarrow> c < w \<Longrightarrow> cell_at h w (wm_store wm') 0 r c =
      (if covers h w row0 col0 r c then fadd F (cell_at h w (wm_store wm) 0 r c) (kk ((r - row0) * kDa3dPatch + (c - col0)))
       else cell_at h w (wm_store wm) 0 r c)"
proof -
  have shape: "wm_shape h w wm" using pyr by (simp add: pyramid_def)
  have e: "edge_ok h" "edge_ok w" and dims: "wm_height wm = h" "wm_width wm = w" using shape by (auto simp: wm_shape_def)
  let ?L = "nat (wm_levels wm)"
  define fr where "fr = max 0 row0"
  define lr where "lr = min h (row0 + kDa3dPatch) - 1"
  define fc where "fc = max 0 col0"
  define lc where "lc = min w (col0 + kDa3dPatch) - 1"
  have Lp: "0 < wm_levels wm" using shape number_of_bits_nonneg [of "h - 1"] by (simp add: wm_shape_def wm_level_count_def max_def)
  have region: "0 \<le> fr" "lr < h" "0 \<le> fc" "lc < w" "0 \<le> lr" "0 \<le> lc" using pos e by (auto simp: edge_ok_def fr_def lr_def fc_def lc_def)
  define s0 where "s0 = wm_store wm"
  define s1 where "s1 = add_weights F wm kk row0 col0 fr lr fc lc s0"
  have cov: "covers h w row0 col0 r c \<longleftrightarrow> r \<in> set [fr..lr] \<and> fc \<le> c \<and> c \<le> lc" for r c
    by (auto simp: covers_def fr_def lr_def fc_def lc_def)
  have at1: "cell_at h w s1 l r c = (if l = 0 \<and> covers h w row0 col0 r c
      then fadd F (cell_at h w s0 0 r c) (kk ((r - row0) * kDa3dPatch - col0 + c)) else cell_at h w s0 l r c)" if "is_cell h w l r c" for l r c
    unfolding s1_def add_weights_def cov
    using add_weights_cells [OF shape Lp region(3,4) _ _ that, of "[fr..lr]" "\<lambda>r c old. fadd F old (kk ((r - row0) * kDa3dPatch - col0 + c))" s0] region
    by simp
  have ab0: "covers h w row0 col0 r c \<longleftrightarrow> above fr lr fc lc 0 r c" for r c unfolding cov by (auto simp: above_def)
  have ok0: "cells_ok h w l s0" if "l < ?L" for l using pyr that by (auto simp: pyramid_def s0_def)
  have cons0: "consistent h w k s0" if "Suc k < ?L" for k using pyr that by (auto simp: pyramid_def s0_def)
  have kk_ok: "weight_ok (kk ((r - row0) * kDa3dPatch - col0 + c))" if "covers h w row0 col0 r c" for r c
  proof (rule kk)
    have b: "0 \<le> r - row0" "r - row0 \<le> 63" "0 \<le> c - col0" "c - col0 \<le> 63" using that by (auto simp: covers_def kDa3dPatch_def)
    then show "0 \<le> (r - row0) * kDa3dPatch - col0 + c" unfolding kDa3dPatch_def left_diff_distrib by linarith
    show "(r - row0) * kDa3dPatch - col0 + c < kDa3dPatch * kDa3dPatch" using b unfolding kDa3dPatch_def left_diff_distrib by linarith
  qed
  have r0: "refreshed_to h w ?L fr lr fc lc 0 s0 s1 s1"
    unfolding refreshed_to_def
  proof (intro conjI allI impI)
    fix l
    assume l: "l < ?L"
    have "weight_ok (cell_at h w s1 l r c)" if "is_cell h w l r c" for r c
    proof (cases "l = 0 \<and> covers h w row0 col0 r c")
      case True
      then have "weight_ok (cell_at h w s0 0 r c)" using ok0 [OF l] that by (simp add: cells_ok_def)
      then show ?thesis unfolding at1 [OF that] using True add kk_ok by (simp add: weights_add_def)
    next
      case False
      then show ?thesis unfolding at1 [OF that] using ok0 [OF l] that by (auto simp: cells_ok_def)
    qed
    then show "cells_ok h w l s1" by (simp add: cells_ok_def)
  next
    fix l r c
    assume "l < ?L" "is_cell h w l r c" "0 < l \<or> \<not> above fr lr fc lc l r c"
    then show "cell_at h w s1 l r c = cell_at h w s0 l r c" using at1 ab0 by auto
  qed simp_all
  have all: "refreshed_to h w ?L fr lr fc lc n s0 s1 (fold (refresh_level N wm fr lr fc lc) (map int [1..<Suc n]) s1)"
    if "n < ?L" for n
    using that
  proof (induction n)
    case 0
    then show ?case using r0 by simp
  next
    case (Suc n)
    then show ?case using refresh_level_step [OF shape refl Suc.prems cons0 [OF Suc.prems] region] by simp
  qed
  have levels: "[1..wm_levels wm - 1] = map int [1..<Suc (?L - 1)]"
  proof (rule nth_equalityI)
    show "length [1..wm_levels wm - 1] = length (map int [1..<Suc (?L - 1)])" using Lp by simp
    show "[1..wm_levels wm - 1] ! i = map int [1..<Suc (?L - 1)] ! i" if "i < length [1..wm_levels wm - 1]" for i
      using that by simp
  qed
  define s2 where "s2 = fold (refresh_level N wm fr lr fc lc) [1..wm_levels wm - 1] s1"
  have fin: "refreshed_to h w ?L fr lr fc lc (?L - 1) s0 s1 s2" unfolding s2_def levels by (rule all) (use Lp in simp)
  have wm': "wm' = wm\<lparr>wm_store := s2\<rparr>" unfolding wm'_def increase_weights_def s2_def s1_def s0_def fr_def lr_def fc_def lc_def by (simp add: Let_def dims)
  show "wm_levels wm' = wm_levels wm" by (simp add: wm')
  have "cell_at h w s2 l r c = f32_inf" if "l < ?L" "is_cell h w l r c" "\<not> valid_cell h w l r c" for l r c
  proof -
    have "\<not> above fr lr fc lc l r c"
    proof
      assume "above fr lr fc lc l r c"
      then have "r \<le> drop_bit l lr" "c \<le> drop_bit l lc" by (auto simp: above_def)
      then have "valid_cell h w l r c" using that(2) drop_bit_valid [OF region(5,2), of l] drop_bit_valid [OF region(6,4), of l]
        unfolding valid_cell_def is_cell_def by linarith
      then show False using that by simp
    qed
    then have "cell_at h w s2 l r c = cell_at h w s0 l r c" using fin that by (simp add: refreshed_to_def)
    then show ?thesis using pyr that by (simp add: pyramid_def s0_def)
  qed
  then show "pyramid h w wm'" using shape fin unfolding wm' pyramid_def by (auto simp: wm_shape_def refreshed_to_def)
  assume rc: "0 \<le> r" "r < h" "0 \<le> c" "c < w"
  note cell = core_is_cell(1) [OF e rc]
  have "cell_at h w s2 0 r c = cell_at h w s1 0 r c" using fin cell by (simp add: refreshed_to_def)
  then show "cell_at h w (wm_store wm') 0 r c =
      (if covers h w row0 col0 r c then fadd F (cell_at h w (wm_store wm) 0 r c) (kk ((r - row0) * kDa3dPatch + (c - col0)))
       else cell_at h w (wm_store wm) 0 r c)"
    using at1 [OF cell] by (simp add: wm' s0_def algebra_simps)
qed


subsection \<open>The minimum\<close>

lemma level_count_pos: "0 < wm_level_count h w"
  using number_of_bits_nonneg [of "h - 1"] by (simp add: wm_level_count_def max_def)

lemma child_min_least:
  assumes "cells_ok h w k s" "has_children h w k r c" "i \<in> {0, 1}" "j \<in> {0, 1}"
  shows "f32_key (child_min h w s k r c) \<le> f32_key (cell_at h w s k (2 * r + i) (2 * c + j))"
proof -
  have ok: "weight_ok (cell_at h w s k (2 * r) (2 * c))" "weight_ok (cell_at h w s k (2 * r) (2 * c + 1))"
    "weight_ok (cell_at h w s k (2 * r + 1) (2 * c))" "weight_ok (cell_at h w s k (2 * r + 1) (2 * c + 1))"
    using assms(1) children_are_cells [OF assms(2)] by (auto simp: cells_ok_def)
  show ?thesis using assms(3,4) unfolding child_min_def by (auto simp: fmin_weight ok)
qed

text \<open>Every core pixel lies below the top cell, which holds the least weight.\<close>

lemma top_least:
  assumes pyr: "pyramid h w wm" and rc: "0 \<le> r" "r < h" "0 \<le> c" "c < w"
  shows "int l < wm_levels wm \<Longrightarrow>
    f32_key (cell_at h w (wm_store wm) l (drop_bit l r) (drop_bit l c)) \<le> f32_key (cell_at h w (wm_store wm) 0 r c)"
proof (induction l)
  case 0
  then show ?case by simp
next
  case (Suc l)
  have e: "edge_ok h" "edge_ok w" using pyr by (auto simp: pyramid_def wm_shape_def)
  let ?r = "drop_bit (Suc l) r" and ?c = "drop_bit (Suc l) c"
  have "?r < wm_valid h (Suc l)" "?c < wm_valid w (Suc l)" using drop_bit_valid rc by blast+
  then have hc: "has_children h w l ?r ?c" using valid_children [OF e(1)] valid_children [OF e(2)] rc by (simp add: has_children_def)
  obtain i j where ij: "drop_bit l r = 2 * ?r + i" "drop_bit l c = 2 * ?c + j" "i \<in> {0, 1}" "j \<in> {0, 1}"
  proof
    show "drop_bit l r = 2 * ?r + (drop_bit l r - 2 * ?r)" "drop_bit l c = 2 * ?c + (drop_bit l c - 2 * ?c)" by simp_all
    show "drop_bit l r - 2 * ?r \<in> {0, 1}" using drop_bit_Suc_bounds [of l r] by (simp only: insert_iff empty_iff) linarith
    show "drop_bit l c - 2 * ?c \<in> {0, 1}" using drop_bit_Suc_bounds [of l c] by (simp only: insert_iff empty_iff) linarith
  qed
  have "cell_at h w (wm_store wm) (Suc l) ?r ?c = child_min h w (wm_store wm) l ?r ?c"
    using pyr hc Suc.prems by (auto simp: pyramid_def consistent_def)
  also have "f32_key \<dots> \<le> f32_key (cell_at h w (wm_store wm) l (drop_bit l r) (drop_bit l c))"
    unfolding ij(1,2) using pyr Suc.prems by (intro child_min_least hc ij) (auto simp: pyramid_def)
  finally show ?case using Suc by simp
qed

lemma drop_bits_zero: "0 \<le> x \<Longrightarrow> x < h \<Longrightarrow> number_of_bits (h - 1) \<le> int l \<Longrightarrow> drop_bit l x = 0"
proof -
  assume a: "0 \<le> x" "x < h" "number_of_bits (h - 1) \<le> int l"
  have "h - 1 < 2 ^ nat (number_of_bits (h - 1))" using number_of_bits_bounds [of "h - 1"] a by simp
  also have "\<dots> \<le> 2 ^ l" using a(3) by (intro power_increasing) auto
  finally show ?thesis using a by (simp add: drop_bit_eq_div)
qed

lemma minimum_cell:
  assumes "wm_shape h w wm"
  shows "wm_minimum wm = cell_at h w (wm_store wm) (nat (wm_levels wm) - 1) 0 0" "int (nat (wm_levels wm) - 1) < wm_levels wm"
    "is_cell h w (nat (wm_levels wm) - 1) 0 0" "int (nat (wm_levels wm) - 1) = wm_level_count h w - 1"
proof -
  let ?l = "nat (wm_levels wm) - 1"
  have L: "int ?l < wm_levels wm" "int ?l = wm_levels wm - 1" "wm_levels wm = wm_level_count h w"
    using assms level_count_pos [of h w] by (auto simp: wm_shape_def)
  show "wm_minimum wm = cell_at h w (wm_store wm) ?l 0 0"
    unfolding wm_minimum_def wm_at_def L(2) [symmetric] using shape_level [OF assms L(1)] by (simp add: cell_at_def cell_addr_def)
  show "is_cell h w ?l 0 0" using assms wm_edge_pos [of h ?l] wm_edge_pos [of w ?l] by (auto simp: is_cell_def wm_shape_def)
  show "int ?l < wm_levels wm" "int ?l = wm_level_count h w - 1" using L by simp_all
qed

lemma minimum_ok: "pyramid h w wm \<Longrightarrow> weight_ok (wm_minimum wm)"
  using minimum_cell [of h w wm] by (auto simp: pyramid_def cells_ok_def)

lemma minimum_le:
  assumes pyr: "pyramid h w wm" and rc: "0 \<le> r" "r < h" "0 \<le> c" "c < w"
  shows "f32_key (wm_minimum wm) \<le> f32_key (cell_at h w (wm_store wm) 0 r c)"
proof -
  let ?l = "nat (wm_levels wm) - 1"
  have shape: "wm_shape h w wm" using pyr by (simp add: pyramid_def)
  have "drop_bit ?l r = 0" "drop_bit ?l c = 0"
    using rc minimum_cell(4) [OF shape] by (auto intro!: drop_bits_zero simp: wm_level_count_def)
  then show ?thesis using top_least [OF pyr rc minimum_cell(2) [OF shape]] minimum_cell(1) [OF shape] by simp
qed

lemma pick_least:
  assumes "weight_ok (f b)" "\<forall>q \<in> set qs. weight_ok (f q)"
    and "fold (\<lambda>q (best, b). if f32_lt (f q) best then (f q, q) else (best, b)) qs (f b, b) = (v, p)"
  shows "v = f p \<and> p \<in> insert b (set qs) \<and> f32_key v \<le> f32_key (f b) \<and> (\<forall>q \<in> set qs. f32_key v \<le> f32_key (f q))"
  using assms
proof (induction qs arbitrary: b)
  case (Cons q qs)
  show ?case
  proof (cases "f32_lt (f q) (f b)")
    case True
    then show ?thesis using Cons.IH [of q] Cons.prems by (auto simp: weight_lt)
  next
    case False
    then show ?thesis using Cons.IH [of b] Cons.prems by (auto simp: weight_lt)
  qed
qed auto

text \<open>One step of the descent keeps the weight.\<close>

lemma descend_step:
  assumes pyr: "pyramid h w wm" and l: "int (Suc k) < wm_levels wm" and hc: "has_children h w k r c"
  shows "\<exists>i j. i \<in> {0, 1} \<and> j \<in> {0, 1} \<and> descend wm (int k) (r, c) = (2 * r + i, 2 * c + j) \<and>
    cell_at h w (wm_store wm) k (2 * r + i) (2 * c + j) = child_min h w (wm_store wm) k r c"
proof -
  have shape: "wm_shape h w wm" and ok: "cells_ok h w k (wm_store wm)" using pyr l by (auto simp: pyramid_def)
  have k: "int k < wm_levels wm" using l by simp
  let ?a = "cell_at h w (wm_store wm) k"
  have at: "wm_at wm (int k) y x = ?a y x" for y x
    unfolding wm_at_def using shape_level [OF shape k] by (simp add: cell_at_def cell_addr_def)
  have w: "weight_ok (?a (2 * r) (2 * c))" "weight_ok (?a (2 * r) (2 * c + 1))" "weight_ok (?a (2 * r + 1) (2 * c))" "weight_ok (?a (2 * r + 1) (2 * c + 1))"
    using ok children_are_cells [OF hc] by (auto simp: cells_ok_def)
  have sh: "push_bit 1 r = 2 * r" "push_bit 1 c = 2 * c" by (simp_all add: push_bit_eq_mult)
  define f where "f = (\<lambda>(y, x). ?a y x)"
  define res where "res = fold (\<lambda>q (best, b). if f32_lt (f q) best then (f q, q) else (best, b))
      [(2 * r + 1, 2 * c), (2 * r, 2 * c + 1), (2 * r + 1, 2 * c + 1)] (f (2 * r, 2 * c), (2 * r, 2 * c))"
  obtain v y x where d: "res = (v, y, x)" by (cases res) auto
  have p: "v = ?a y x" "(y, x) \<in> {(2 * r, 2 * c), (2 * r + 1, 2 * c), (2 * r, 2 * c + 1), (2 * r + 1, 2 * c + 1)}"
    "f32_key v \<le> f32_key (?a (2 * r) (2 * c))" "f32_key v \<le> f32_key (?a (2 * r) (2 * c + 1))"
    "f32_key v \<le> f32_key (?a (2 * r + 1) (2 * c))" "f32_key v \<le> f32_key (?a (2 * r + 1) (2 * c + 1))"
    using pick_least [of f "(2 * r, 2 * c)", OF _ _ d [unfolded res_def]] w by (auto simp: f_def)
  have m: "f32_key (child_min h w (wm_store wm) k r c) = min (min (min (f32_key (?a (2 * r) (2 * c))) (f32_key (?a (2 * r) (2 * c + 1))))
      (f32_key (?a (2 * r + 1) (2 * c)))) (f32_key (?a (2 * r + 1) (2 * c + 1)))"
    unfolding child_min_def by (simp add: fmin_weight w)
  have "f32_key v \<le> f32_key (child_min h w (wm_store wm) k r c)" unfolding m using p(3-6) by simp
  moreover have "f32_key (child_min h w (wm_store wm) k r c) \<le> f32_key v" unfolding m using p(1,2) by auto
  moreover have "weight_ok v" using p(1,2) w by auto
  ultimately have "v = child_min h w (wm_store wm) k r c" using weight_key_inj child_min_ok [OF ok hc] by (meson order_antisym)
  then have "\<exists>i j. i \<in> {0, 1} \<and> j \<in> {0, 1} \<and> (y, x) = (2 * r + i, 2 * c + j) \<and> ?a (2 * r + i) (2 * c + j) = child_min h w (wm_store wm) k r c"
    using p(1,2) by auto
  moreover have "(\<lambda>(qr, qc) (best, b). let v = ?a qr qc in if f32_lt v best then (v, qr, qc) else (best, b)) =
      (\<lambda>q (best, b). if f32_lt (f q) best then (f q, q) else (best, b))"
    by (auto simp: fun_eq_iff f_def Let_def)
  then have "descend wm (int k) (r, c) = snd res" unfolding descend_def prod.case sh at res_def by (simp only: Let_def f_def prod.case)
  then have "descend wm (int k) (r, c) = (y, x)" using d by simp
  ultimately show ?thesis by auto
qed


lemma descend_all:
  assumes pyr: "pyramid h w wm"
  shows "int m < wm_levels wm \<Longrightarrow> valid_cell h w m r c \<Longrightarrow> cell_at h w (wm_store wm) m r c \<noteq> f32_inf \<Longrightarrow>
    \<exists>y x. fold (descend wm) (map int (rev [0..<m])) (r, c) = (y, x) \<and> 0 \<le> y \<and> y < h \<and> 0 \<le> x \<and> x < w \<and>
      cell_at h w (wm_store wm) 0 y x = cell_at h w (wm_store wm) m r c"
proof (induction m arbitrary: r c)
  case 0
  then show ?case by (simp add: valid_cell_def wm_valid_def)
next
  case (Suc m)
  have e: "edge_ok h" "edge_ok w" using pyr by (auto simp: pyramid_def wm_shape_def)
  have hc: "has_children h w m r c"
    using Suc.prems(2) valid_children [OF e(1), of r m] valid_children [OF e(2), of c m] by (simp add: has_children_def valid_cell_def)
  obtain i j where ij: "i \<in> {0, 1}" "j \<in> {0, 1}" "descend wm (int m) (r, c) = (2 * r + i, 2 * c + j)"
    "cell_at h w (wm_store wm) m (2 * r + i) (2 * c + j) = child_min h w (wm_store wm) m r c"
    using descend_step [OF pyr Suc.prems(1) hc] by blast
  have v: "cell_at h w (wm_store wm) m (2 * r + i) (2 * c + j) = cell_at h w (wm_store wm) (Suc m) r c"
    using ij(4) pyr Suc.prems(1) hc by (simp add: pyramid_def consistent_def)
  have m: "int m < wm_levels wm" using Suc.prems(1) by simp
  have "is_cell h w m (2 * r + i) (2 * c + j)" using hc ij(1,2) by (auto simp: has_children_def is_cell_def)
  then have "valid_cell h w m (2 * r + i) (2 * c + j)" using pyr m v Suc.prems(3) unfolding pyramid_def by metis
  from Suc.IH [OF m this] show ?case using v Suc.prems(3) ij(3) by simp
qed

text \<open>\<open>find_minimum\<close> finds a core pixel of least weight, as long as some weight is finite.\<close>

lemma find_minimum_least:
  assumes pyr: "pyramid h w wm" and fin: "wm_minimum wm \<noteq> f32_inf"
  shows "\<exists>y x. find_minimum wm = (y, x) \<and> 0 \<le> y \<and> y < h \<and> 0 \<le> x \<and> x < w \<and> cell_at h w (wm_store wm) 0 y x = wm_minimum wm"
proof -
  have shape: "wm_shape h w wm" using pyr by (simp add: pyramid_def)
  let ?l = "nat (wm_levels wm) - 1"
  note top = minimum_cell(1) [OF shape]
  have L: "int ?l < wm_levels wm" "int ?l = wm_levels wm - 1" using minimum_cell [OF shape] shape by (simp_all add: wm_shape_def)
  have list: "rev [0..wm_levels wm - 2] = map int (rev [0..<?l])"
    unfolding rev_map [symmetric] using L by (intro arg_cong [where f = rev] nth_equalityI) auto
  have "valid_cell h w ?l 0 0" using shape by (simp add: valid_cell_def wm_valid_iff wm_shape_def edge_ok_def)
  from descend_all [OF pyr L(1) this] show ?thesis unfolding find_minimum_def list using fin top by simp
qed

subsection \<open>A new map\<close>

lemma init_levels_frame:
  "l' \<notin> set ls \<Longrightarrow> wm_rows (init_levels ls base rr cr vr vc wm) l' = wm_rows wm l'"
  "l' \<notin> set ls \<Longrightarrow> wm_cols (init_levels ls base rr cr vr vc wm) l' = wm_cols wm l'"
  "l' \<notin> set ls \<Longrightarrow> wm_base (init_levels ls base rr cr vr vc wm) l' = wm_base wm l'"
  "wm_levels (init_levels ls base rr cr vr vc wm) = wm_levels wm" "wm_width (init_levels ls base rr cr vr vc wm) = wm_width wm"
  "wm_height (init_levels ls base rr cr vr vc wm) = wm_height wm"
  by (induction ls arbitrary: base rr cr vr vc wm) auto

lemma fill_level_cell:
  assumes e: "edge_ok h" "edge_ok w" and cell: "is_cell h w l r c"
  shows "cell_at h w (fill_level (wm_offset h w l0) (wm_edge h l0) (wm_edge w l0) (wm_valid h l0) (wm_valid w l0) s) l r c =
    (if l = l0 then if valid_cell h w l r c then f32_zero else f32_inf else cell_at h w s l r c)"
proof -
  let ?g = "\<lambda>r c. if r < wm_valid h l0 \<and> c < wm_valid w l0 then f32_zero else f32_inf"
  have "cell_at h w (fold (\<lambda>r. map_span (cell_addr h w l0 r 0) 0 (wm_edge w l0) (\<lambda>c _. ?g r c)) rows s) l r c =
      (if l = l0 \<and> r \<in> set rows then ?g r c else cell_at h w s l r c)" if "\<forall>r \<in> set rows. 0 \<le> r \<and> r < wm_edge h l0" for rows
    using that
  proof (induction rows arbitrary: s)
    case (Cons row rows)
    have dom: "is_cell h w l0 row c'" if "0 \<le> c'" "c' < wm_edge w l0" for c' using Cons.prems that by (simp add: is_cell_def)
    have "cell_at h w (map_span (cell_addr h w l0 row 0) 0 (wm_edge w l0) (\<lambda>c _. ?g row c) s) l r c =
        (if l = l0 \<and> r = row \<and> 0 \<le> c \<and> c < wm_edge w l0 then ?g row c else cell_at h w s l r c)"
      by (rule span_cell [OF e dom cell])
    then show ?case using Cons cell by (auto simp: is_cell_def)
  qed simp
  from this [of "[0..wm_edge h l0 - 1]"] show ?thesis
    unfolding fill_level_def using cell by (auto simp: cell_addr_def is_cell_def valid_cell_def)
qed

lemma init_levels_shape:
  fixes L :: nat
  assumes e: "edge_ok h" "edge_ok w"
  defines "init \<equiv> \<lambda>m wm. init_levels (map int [m..<L]) (wm_offset h w m) (wm_edge h m) (wm_edge w m) (wm_valid h m) (wm_valid w m) wm"
  shows "m \<le> L \<Longrightarrow> (\<forall>l. m \<le> l \<longrightarrow> l < L \<longrightarrow> wm_rows (init m wm) (int l) = wm_edge h l \<and> wm_cols (init m wm) (int l) = wm_edge w l \<and>
      wm_base (init m wm) (int l) = wm_offset h w l) \<and>
    (\<forall>l r c. is_cell h w l r c \<longrightarrow> cell_at h w (wm_store (init m wm)) l r c =
      (if m \<le> l \<and> l < L then if valid_cell h w l r c then f32_zero else f32_inf else cell_at h w (wm_store wm) l r c))"
proof (induction "L - m" arbitrary: m wm)
  case 0
  then show ?case by (auto simp: init_def)
next
  case (Suc n)
  have m: "m < L" "Suc m \<le> L" "n = L - Suc m" using Suc.hyps(2) by auto
  let ?w = "wm\<lparr>wm_rows := (wm_rows wm)(int m := wm_edge h m), wm_cols := (wm_cols wm)(int m := wm_edge w m), wm_base := (wm_base wm)(int m := wm_offset h w m),
           wm_store := fill_level (wm_offset h w m) (wm_edge h m) (wm_edge w m) (wm_valid h m) (wm_valid w m) (wm_store wm)\<rparr>"
  have eq: "init m wm = init (Suc m) ?w"
    unfolding init_def using m by (simp add: upt_conv_Cons wm_edge_def wm_valid_def)
  have "int m \<notin> set (map int [Suc m..<L])" by auto
  note f = init_levels_frame(1-3) [OF this]
  have here: "wm_rows (init (Suc m) ?w) (int m) = wm_edge h m" "wm_cols (init (Suc m) ?w) (int m) = wm_edge w m"
    "wm_base (init (Suc m) ?w) (int m) = wm_offset h w m"
    unfolding init_def f by simp_all
  note ih = Suc.hyps(1) [OF m(3,2), of ?w]
  show ?case
    unfolding eq
  proof (intro conjI allI impI)
    fix l
    assume l: "m \<le> l" "l < L"
    show "wm_rows (init (Suc m) ?w) (int l) = wm_edge h l" "wm_cols (init (Suc m) ?w) (int l) = wm_edge w l"
      "wm_base (init (Suc m) ?w) (int l) = wm_offset h w l"
      by (cases "l = m"; use ih here l in simp)+
  next
    fix l r c
    assume cell: "is_cell h w l r c"
    have "cell_at h w (wm_store (init (Suc m) ?w)) l r c =
        (if Suc m \<le> l \<and> l < L then if valid_cell h w l r c then f32_zero else f32_inf else cell_at h w (wm_store ?w) l r c)"
      using ih cell by blast
    moreover have "cell_at h w (wm_store ?w) l r c = (if l = m then if valid_cell h w l r c then f32_zero else f32_inf else cell_at h w (wm_store wm) l r c)"
      using fill_level_cell [OF e cell] by simp
    ultimately show "cell_at h w (wm_store (init (Suc m) ?w)) l r c =
        (if m \<le> l \<and> l < L then if valid_cell h w l r c then f32_zero else f32_inf else cell_at h w (wm_store wm) l r c)"
      using m(1) by (cases "l = m") auto
  qed
qed

lemma wm_init_pyramid:
  assumes "edge_ok h" "edge_ok w"
  shows "pyramid h w (wm_init h w storage)" "0 \<le> r \<Longrightarrow> r < h \<Longrightarrow> 0 \<le> c \<Longrightarrow> c < w \<Longrightarrow> cell_at h w (wm_store (wm_init h w storage)) 0 r c = f32_zero"
proof -
  let ?L = "nat (wm_level_count h w)" and ?wm = "wm_init h w storage"
  let ?w0 = "\<lparr>wm_levels = wm_level_count h w, wm_width = w, wm_height = h, wm_rows = (\<lambda>_. 0), wm_cols = (\<lambda>_. 0), wm_base = (\<lambda>_. 0), wm_store = storage\<rparr>"
  have list: "[0..wm_level_count h w - 1] = map int [0..<?L]" using level_count_pos [of h w] by (intro nth_equalityI) auto
  have wm: "?wm = init_levels (map int [0..<?L]) (wm_offset h w 0) (wm_edge h 0) (wm_edge w 0) (wm_valid h 0) (wm_valid w 0) ?w0"
    unfolding wm_init_def Let_def list by (simp add: wm_edge_def wm_valid_def)
  note f = init_levels_shape [OF assms, of 0 ?L ?w0, folded wm]
  have lv: "wm_levels ?wm = wm_level_count h w" "wm_width ?wm = w" "wm_height ?wm = h" unfolding wm by (simp_all add: init_levels_frame)
  have shape: "wm_shape h w ?wm" unfolding wm_shape_def using f assms lv by simp
  have at: "cell_at h w (wm_store ?wm) l r c = (if valid_cell h w l r c then f32_zero else f32_inf)" if "int l < wm_levels ?wm" "is_cell h w l r c" for l r c
    using f that lv by (auto simp: nat_less_iff)
  have ok: "cells_ok h w l (wm_store ?wm)" if "int l < wm_levels ?wm" for l
    unfolding cells_ok_def using at [OF that] by simp
  have "consistent h w k (wm_store ?wm)" if k: "int (Suc k) < wm_levels ?wm" for k
    unfolding consistent_def
  proof (intro allI impI)
    fix r c
    assume hc: "has_children h w k r c"
    have k': "int k < wm_levels ?wm" using k by simp
    note ch = at [OF k' children_are_cells(1) [OF hc]] at [OF k' children_are_cells(2) [OF hc]] at [OF k' children_are_cells(3) [OF hc]] at [OF k' children_are_cells(4) [OF hc]]
    have valid_eq: "valid_cell h w (Suc k) r c \<longleftrightarrow> valid_cell h w k (2 * r) (2 * c)"
      by (simp add: valid_cell_def wm_valid_iff mult.assoc mult.left_commute)
    have first: "valid_cell h w k (2 * r) (2 * c)" if "valid_cell h w k (2 * r + i) (2 * c + j)" "i \<in> {0, 1}" "j \<in> {0, 1}" for i j
      using that hc by (auto simp: valid_cell_def has_children_def)
    have "weight_ok (if P then f32_zero else f32_inf)" for P by simp
    note key = fmin_weight [OF fmin_weight(1) [OF fmin_weight(1) [OF this this] this] this] fmin_weight [OF fmin_weight(1) [OF this this] this] fmin_weight [OF this this] this
    show "cell_at h w (wm_store ?wm) (Suc k) r c = child_min h w (wm_store ?wm) k r c"
      unfolding child_min_def ch at [OF k parent_is_cell [OF assms hc]] valid_eq
    proof (rule weight_key_inj [OF key(7) key(1)], cases "valid_cell h w k (2 * r) (2 * c)")
      case True
      then show "f32_key (if valid_cell h w k (2 * r) (2 * c) then f32_zero else f32_inf) =
        f32_key (fmin (fmin (fmin (if valid_cell h w k (2 * r) (2 * c) then f32_zero else f32_inf) (if valid_cell h w k (2 * r) (2 * c + 1) then f32_zero else f32_inf))
          (if valid_cell h w k (2 * r + 1) (2 * c) then f32_zero else f32_inf)) (if valid_cell h w k (2 * r + 1) (2 * c + 1) then f32_zero else f32_inf))"
        unfolding key(2,4,6) by simp
    next
      case False
      then have "\<not> valid_cell h w k (2 * r) (2 * c + 1)" "\<not> valid_cell h w k (2 * r + 1) (2 * c)" "\<not> valid_cell h w k (2 * r + 1) (2 * c + 1)"
        using first [of 0 1] first [of 1 0] first [of 1 1] by auto
      then show "f32_key (if valid_cell h w k (2 * r) (2 * c) then f32_zero else f32_inf) =
        f32_key (fmin (fmin (fmin (if valid_cell h w k (2 * r) (2 * c) then f32_zero else f32_inf) (if valid_cell h w k (2 * r) (2 * c + 1) then f32_zero else f32_inf))
          (if valid_cell h w k (2 * r + 1) (2 * c) then f32_zero else f32_inf)) (if valid_cell h w k (2 * r + 1) (2 * c + 1) then f32_zero else f32_inf))"
        using False unfolding key(2,4,6) by simp
    qed
  qed
  then show "pyramid h w ?wm" unfolding pyramid_def using shape ok at by simp
  show "cell_at h w (wm_store ?wm) 0 r c = f32_zero" if rc: "0 \<le> r" "r < h" "0 \<le> c" "c < w"
    using at [of 0 r c] core_is_cell [OF assms rc] lv level_count_pos [of h w] by simp
qed


subsection \<open>The loop over the patches of a tile\<close>

definition kDa3dThreshold :: f32 where "kDa3dThreshold = 0x40000000"

text \<open>
  The loop of a tile: while a core pixel lacks weight, the patch around the one with the least
  is processed and the map gains its weights. \<open>process\<close> is \<open>ProcessPatch\<close>: it updates the
  tile and leaves the squared weights of the patch.
\<close>

definition patch_step :: "farith \<Rightarrow> int \<Rightarrow> (int \<Rightarrow> int \<Rightarrow> 't \<Rightarrow> 't \<times> buffer) \<Rightarrow> weight_map \<times> 't \<Rightarrow> weight_map \<times> 't" where
  "patch_step F N process s =
     (case s of (wm, t) \<Rightarrow>
        let (pr, pc) = find_minimum wm; (t, kk) = process pr pc t
        in (increase_weights F N wm kk (pr - kDa3dRadius) (pc - kDa3dRadius), t))"

definition lacks_weight :: "weight_map \<times> 't \<Rightarrow> bool" where
  "lacks_weight s \<longleftrightarrow> f32_lt (wm_minimum (fst s)) kDa3dThreshold"

definition tile_patches :: "farith \<Rightarrow> int \<Rightarrow> (int \<Rightarrow> int \<Rightarrow> 't \<Rightarrow> 't \<times> buffer) \<Rightarrow> weight_map \<Rightarrow> 't \<Rightarrow> (weight_map \<times> 't) option" where
  "tile_patches F N process wm t = while_option lacks_weight (patch_step F N process) (wm, t)"

text \<open>What the addition of two ones gives at least: the threshold.\<close>

definition ones_add :: "farith \<Rightarrow> bool" where
  "ones_add F \<longleftrightarrow> weights_add F \<and>
     (\<forall>a. weight_ok a \<longrightarrow> f32_key f32_one \<le> f32_key (fadd F a f32_one) \<and>
       (f32_key f32_one \<le> f32_key a \<longrightarrow> f32_key kDa3dThreshold \<le> f32_key (fadd F a f32_one)))"

text \<open>The patches that may still be needed around a core pixel.\<close>

definition need :: "int \<Rightarrow> int \<Rightarrow> buffer \<Rightarrow> int \<times> int \<Rightarrow> nat" where
  "need h w s rc =
     (let k = f32_key (cell_at h w s 0 (fst rc) (snd rc))
      in if k < f32_key f32_one then 2 else if k < f32_key kDa3dThreshold then 1 else 0)"

definition needed :: "int \<Rightarrow> int \<Rightarrow> weight_map \<Rightarrow> nat" where
  "needed h w wm = sum (need h w (wm_store wm)) ({0..<h} \<times> {0..<w})"

lemma threshold_key: "f32_key kDa3dThreshold = 0x40000000" "\<not> f32_nan kDa3dThreshold" "f32_key f32_one = 0x3f800000" "weight_ok f32_one"
  by (simp_all add: kDa3dThreshold_def f32_one_def f32_key_def f32_mag_def f32_neg_def f32_nan_def weight_ok_def)

lemma patch_step_progress:
  assumes pyr: "pyramid h w wm" and add: "ones_add F" and lacks: "lacks_weight (wm, t)"
    and process: "\<And>pr pc t' kk. 0 \<le> pr \<Longrightarrow> pr < h \<Longrightarrow> 0 \<le> pc \<Longrightarrow> pc < w \<Longrightarrow> process pr pc t = (t', kk) \<Longrightarrow>
      (\<forall>i. 0 \<le> i \<longrightarrow> i < kDa3dPatch * kDa3dPatch \<longrightarrow> weight_ok (kk i)) \<and> kk (kDa3dRadius * kDa3dPatch + kDa3dRadius) = f32_one"
  shows "\<exists>pr pc t' kk. find_minimum wm = (pr, pc) \<and> 0 \<le> pr \<and> pr < h \<and> 0 \<le> pc \<and> pc < w \<and> process pr pc t = (t', kk) \<and>
    patch_step F N process (wm, t) = (increase_weights F N wm kk (pr - kDa3dRadius) (pc - kDa3dRadius), t') \<and>
    pyramid h w (increase_weights F N wm kk (pr - kDa3dRadius) (pc - kDa3dRadius)) \<and>
    needed h w (increase_weights F N wm kk (pr - kDa3dRadius) (pc - kDa3dRadius)) < needed h w wm"
proof -
  have lt: "f32_key (wm_minimum wm) < f32_key kDa3dThreshold" using lacks by (simp add: lacks_weight_def f32_lt_def)
  then have "wm_minimum wm \<noteq> f32_inf" using threshold_key by auto
  then obtain pr pc where p: "find_minimum wm = (pr, pc)" "0 \<le> pr" "pr < h" "0 \<le> pc" "pc < w" "cell_at h w (wm_store wm) 0 pr pc = wm_minimum wm"
    using find_minimum_least [OF pyr] by blast
  obtain t' kk where pk: "process pr pc t = (t', kk)" by (meson surj_pair)
  note kk = process [OF p(2-5) pk]
  have wadd: "weights_add F" using add by (simp add: ones_add_def)
  have pos: "- kDa3dPatch < pr - kDa3dRadius" "pr - kDa3dRadius < h" "- kDa3dPatch < pc - kDa3dRadius" "pc - kDa3dRadius < w"
    using p(2-5) by (auto simp: kDa3dPatch_def kDa3dRadius_def)
  let ?wm = "increase_weights F N wm kk (pr - kDa3dRadius) (pc - kDa3dRadius)"
  have kok: "weight_ok (kk i)" if "0 \<le> i" "i < kDa3dPatch * kDa3dPatch" for i using kk that by blast
  have inc: "cell_at h w (wm_store ?wm) 0 r c = (if covers h w (pr - kDa3dRadius) (pc - kDa3dRadius) r c
      then fadd F (cell_at h w (wm_store wm) 0 r c) (kk ((r - (pr - kDa3dRadius)) * kDa3dPatch + (c - (pc - kDa3dRadius))))
      else cell_at h w (wm_store wm) 0 r c)" if "0 \<le> r" "r < h" "0 \<le> c" "c < w" for r c
    by (rule increase_pyramid(3) [OF pyr wadd _ pos that]) (rule kok)
  have e: "edge_ok h" "edge_ok w" and ok: "cells_ok h w 0 (wm_store wm)"
    using pyr level_count_pos [of h w] by (auto simp: pyramid_def wm_shape_def)
  have core: "weight_ok (cell_at h w (wm_store wm) 0 r c)" if "0 \<le> r" "r < h" "0 \<le> c" "c < w" for r c
    using ok core_is_cell(1) [OF e that] by (simp add: cells_ok_def)
  have up: "f32_key (cell_at h w (wm_store wm) 0 r c) \<le> f32_key (cell_at h w (wm_store ?wm) 0 r c)"
    if "0 \<le> r" "r < h" "0 \<le> c" "c < w" for r c
  proof -
    have "weight_ok (kk ((r - (pr - kDa3dRadius)) * kDa3dPatch + (c - (pc - kDa3dRadius))))" if "covers h w (pr - kDa3dRadius) (pc - kDa3dRadius) r c"
    proof (rule kok)
      have b: "0 \<le> r - (pr - kDa3dRadius)" "r - (pr - kDa3dRadius) \<le> 63" "0 \<le> c - (pc - kDa3dRadius)" "c - (pc - kDa3dRadius) \<le> 63"
        using that by (auto simp: covers_def kDa3dPatch_def)
      then show "0 \<le> (r - (pr - kDa3dRadius)) * kDa3dPatch + (c - (pc - kDa3dRadius))" by (simp add: kDa3dPatch_def)
      have "(r - (pr - kDa3dRadius)) * kDa3dPatch \<le> 63 * kDa3dPatch" using b(2) by (intro mult_right_mono) (simp_all add: kDa3dPatch_def)
      then show "(r - (pr - kDa3dRadius)) * kDa3dPatch + (c - (pc - kDa3dRadius)) < kDa3dPatch * kDa3dPatch"
        using b(4) unfolding kDa3dPatch_def by linarith
    qed
    then show ?thesis unfolding inc [OF that] using wadd core [OF that] by (simp add: weights_add_def)
  qed
  have cov: "covers h w (pr - kDa3dRadius) (pc - kDa3dRadius) pr pc" using p(2-5) by (simp add: covers_def kDa3dPatch_def kDa3dRadius_def)
  have center: "cell_at h w (wm_store ?wm) 0 pr pc = fadd F (wm_minimum wm) f32_one"
    unfolding inc [OF p(2-5)] using cov kk p(6) by (simp add: algebra_simps)
  have "need h w (wm_store ?wm) (r, c) \<le> need h w (wm_store wm) (r, c)" if "0 \<le> r" "r < h" "0 \<le> c" "c < w" for r c
    using up [OF that] threshold_key by (auto simp: need_def Let_def)
  moreover have "need h w (wm_store ?wm) (pr, pc) < need h w (wm_store wm) (pr, pc)"
    using add core [OF p(2-5)] lt threshold_key unfolding need_def fst_conv snd_conv center p(6) ones_add_def Let_def by auto
  ultimately have "needed h w ?wm < needed h w wm"
    unfolding needed_def by (intro sum_strict_mono_ex1 bexI [of _ "(pr, pc)"]) (use p(2-5) in auto)
  moreover have "pyramid h w ?wm" by (rule increase_pyramid(1) [OF pyr wadd _ pos]) (rule kok)
  moreover have "patch_step F N process (wm, t) = (?wm, t')" by (simp add: patch_step_def p(1) pk)
  ultimately show ?thesis using p(1-5) pk by blast
qed

text \<open>
  The loop ends when every patch gives its own center the weight one: at most two patches per
  core pixel are processed, and then every pixel has at least the threshold.
\<close>

lemma tile_loop_ends:
  fixes visits :: "'t \<Rightarrow> int" and N :: int
  assumes "edge_ok h" "edge_ok w" "ones_add F" "I (wm_init h w storage) t0"
    and process: "\<And>pr pc wm t t' kk. pyramid h w wm \<Longrightarrow> I wm t \<Longrightarrow> 0 \<le> pr \<Longrightarrow> pr < h \<Longrightarrow> 0 \<le> pc \<Longrightarrow> pc < w \<Longrightarrow> process pr pc t = (t', kk) \<Longrightarrow>
      (\<forall>i. 0 \<le> i \<longrightarrow> i < kDa3dPatch * kDa3dPatch \<longrightarrow> weight_ok (kk i)) \<and> kk (kDa3dRadius * kDa3dPatch + kDa3dRadius) = f32_one \<and>
      I (increase_weights F N wm kk (pr - kDa3dRadius) (pc - kDa3dRadius)) t' \<and> visits t' = visits t + 1"
  shows "\<exists>wm t. tile_patches F N process (wm_init h w storage) t0 = Some (wm, t) \<and> visits t \<le> visits t0 + 2 * (h * w) \<and> I wm t \<and> pyramid h w wm \<and>
    (\<forall>r c. 0 \<le> r \<longrightarrow> r < h \<longrightarrow> 0 \<le> c \<longrightarrow> c < w \<longrightarrow> \<not> f32_lt (wm_at wm 0 r c) kDa3dThreshold)"
proof -
  let ?P = "\<lambda>(wm, t). pyramid h w wm \<and> I wm t \<and> visits t + int (needed h w wm) \<le> visits t0 + 2 * (h * w)"
  have step: "?P (patch_step F N process s) \<and> needed h w (fst (patch_step F N process s)) < needed h w (fst s)"
    if s: "?P s" "lacks_weight s" for s
  proof -
    obtain wm t where st: "s = (wm, t)" by (cases s)
    have P: "pyramid h w wm" "I wm t" "visits t + int (needed h w wm) \<le> visits t0 + 2 * (h * w)" "lacks_weight (wm, t)" using s st by auto
    note pr = process [OF P(1,2)]
    obtain pr pc t' kk where p: "0 \<le> pr" "pr < h" "0 \<le> pc" "pc < w" "process pr pc t = (t', kk)"
      "patch_step F N process (wm, t) = (increase_weights F N wm kk (pr - kDa3dRadius) (pc - kDa3dRadius), t')"
      "pyramid h w (increase_weights F N wm kk (pr - kDa3dRadius) (pc - kDa3dRadius))"
      "needed h w (increase_weights F N wm kk (pr - kDa3dRadius) (pc - kDa3dRadius)) < needed h w wm"
      using patch_step_progress [OF P(1) assms(3) P(4), of process N] pr by blast
    show ?thesis using p(6-8) P(3) pr [OF p(1-5)] by (simp add: st)
  qed
  have "needed h w (wm_init h w storage) \<le> (\<Sum>_ \<in> {0..<h} \<times> {0..<w}. 2)" unfolding needed_def by (intro sum_mono) (simp add: need_def Let_def)
  also have "\<dots> = nat h * nat w * 2" by (simp add: card_cartesian_product)
  finally have "int (needed h w (wm_init h w storage)) \<le> int (nat h * nat w * 2)" by (rule of_nat_mono)
  then have start: "?P (wm_init h w storage, t0)"
    using wm_init_pyramid(1) [OF assms(1,2)] assms(1,2,4) by (simp add: edge_ok_def)
  have "\<exists>s. while_option lacks_weight (patch_step F N process) (wm_init h w storage, t0) = Some s"
    by (rule measure_while_option_Some [where P = ?P and f = "\<lambda>s. needed h w (fst s)"]) (rule step, assumption+, rule start)
  then obtain s where s: "while_option lacks_weight (patch_step F N process) (wm_init h w storage, t0) = Some s" by blast
  obtain wm t where st: "s = (wm, t)" by (cases s)
  have "?P s" by (rule while_option_rule [where P = ?P, OF _ s start]) (rule conjunct1 [OF step], assumption+)
  then have P: "pyramid h w wm" "visits t + int (needed h w wm) \<le> visits t0 + 2 * (h * w)" "I wm t" using st by auto
  have "\<not> lacks_weight s" by (rule while_option_stop [OF s])
  then have min: "\<not> f32_lt (wm_minimum wm) kDa3dThreshold" by (simp add: lacks_weight_def st)
  have shape: "wm_shape h w wm" using P(1) by (simp add: pyramid_def)
  have L: "0 < wm_levels wm" using shape level_count_pos [of h w] by (simp add: wm_shape_def)
  have "\<not> f32_lt (wm_at wm 0 r c) kDa3dThreshold" if rc: "0 \<le> r" "r < h" "0 \<le> c" "c < w" for r c
  proof
    assume lt: "f32_lt (wm_at wm 0 r c) kDa3dThreshold"
    have at: "wm_at wm 0 r c = cell_at h w (wm_store wm) 0 r c"
      unfolding wm_at_def using shape_level [OF shape, of 0] L by (simp add: cell_at_def cell_addr_def)
    have "f32_key (wm_minimum wm) < f32_key kDa3dThreshold" using lt minimum_le [OF P(1) rc] by (simp add: at f32_lt_def)
    moreover have "\<not> f32_nan (wm_minimum wm)" using minimum_ok [OF P(1)] by (simp add: weight_ok_def)
    ultimately show False using min threshold_key(2) by (simp add: f32_lt_def)
  qed
  then show ?thesis using s st P by (auto simp: tile_patches_def)
qed


subsection \<open>The maps a tile goes through\<close>

text \<open>A map of a tile: initialized, or after a patch whose weights are no NaN and not negative.\<close>

inductive wm_reach :: "farith \<Rightarrow> int \<Rightarrow> int \<Rightarrow> int \<Rightarrow> weight_map \<Rightarrow> bool" for F N h w where
  wm_start: "wm_reach F N h w (wm_init h w storage)"
| wm_gain: "wm_reach F N h w wm \<Longrightarrow> \<forall>i. 0 \<le> i \<and> i < kDa3dPatch * kDa3dPatch \<longrightarrow> weight_ok (kk i) \<Longrightarrow>
    - kDa3dPatch < row0 \<Longrightarrow> row0 < h \<Longrightarrow> - kDa3dPatch < col0 \<Longrightarrow> col0 < w \<Longrightarrow>
    wm_reach F N h w (increase_weights F N wm kk row0 col0)"

lemma wm_reach_pyramid:
  assumes "wm_reach F N h w wm" "edge_ok h" "edge_ok w" "weights_add F"
  shows "pyramid h w wm"
  using assms(1)
proof induction
  case wm_start
  show ?case by (rule wm_init_pyramid(1) [OF assms(2,3)])
next
  case (wm_gain wm kk row0 col0)
  show ?case by (rule increase_pyramid(1) [OF wm_gain.IH assms(4) _ wm_gain.hyps(3-6)]) (use wm_gain.hyps(2) in blast)
qed

text \<open>The weight of a core pixel as the code reads it.\<close>

lemma wm_at_core:
  assumes "pyramid h w wm"
  shows "wm_at wm 0 r c = cell_at h w (wm_store wm) 0 r c"
proof -
  have shape: "wm_shape h w wm" using assms by (simp add: pyramid_def)
  then have "0 < wm_levels wm" using level_count_pos [of h w] by (simp add: wm_shape_def)
  then show ?thesis unfolding wm_at_def using shape_level [OF shape, of 0] by (simp add: cell_at_def cell_addr_def)
qed


text \<open>An addition for examples: it only counts ones, up to the threshold.\<close>

definition counting_arith :: farith where
  "counting_arith = example_arith\<lparr>fadd := \<lambda>a b. if b \<noteq> f32_one then a else if f32_key a < f32_key f32_one then f32_one
     else if f32_key a < f32_key kDa3dThreshold then kDa3dThreshold else a\<rparr>"

lemma threshold_positive: "\<not> f32_neg kDa3dThreshold"
  by (simp add: kDa3dThreshold_def f32_neg_def)

lemma counting_ones: "ones_add counting_arith"
  using threshold_key threshold_positive by (auto simp: ones_add_def weights_add_def counting_arith_def weight_ok_def f32_key_def)


end
