(* ===== verification/Da3d_Dft.thy ===== *)
theory Da3d_Dft
  imports Complex_Main Da3d_Weights
begin

text \<open>
  The 64x64 transform of DA3D (\<open>Dif4\<close>, \<open>Dit4\<close>, \<open>Transpose\<close>, \<open>Forward2\<close>, \<open>Inverse2\<close> and
  \<open>Da3dDft64x64\<close> of src/cpu/da3d/da3d.cpp). The routines are over an arithmetic, a record of
  operations: the kernel's is single precision, and over the real numbers they compute the
  discrete Fourier transform exactly, which is what the second half of the theory shows. A
  complex array is a pair of buffers of 64 rows of 64 elements.
\<close>

subsection \<open>The arithmetic\<close>

record 'a ring_ops =
  r_add :: "'a \<Rightarrow> 'a \<Rightarrow> 'a"
  r_sub :: "'a \<Rightarrow> 'a \<Rightarrow> 'a"
  r_mul :: "'a \<Rightarrow> 'a \<Rightarrow> 'a"
  r_mad :: "'a \<Rightarrow> 'a \<Rightarrow> 'a \<Rightarrow> 'a"
  r_msb :: "'a \<Rightarrow> 'a \<Rightarrow> 'a \<Rightarrow> 'a"
  r_one :: 'a
  r_minus_one :: 'a

text \<open>The operations of the kernel, and the exact ones.\<close>

definition f32_ops :: "farith \<Rightarrow> f32 ring_ops" where
  "f32_ops F = \<lparr>r_add = fadd F, r_sub = fsub F, r_mul = fmul F, r_mad = ffma F,
     r_msb = (\<lambda>a b c. ffma F a b (f32_negate c)), r_one = f32_one, r_minus_one = f32_negate f32_one\<rparr>"

definition real_ops :: "real ring_ops" where
  "real_ops = \<lparr>r_add = (+), r_sub = (-), r_mul = (*), r_mad = (\<lambda>a b c. a * b + c), r_msb = (\<lambda>a b c. a * b - c),
     r_one = 1, r_minus_one = -1\<rparr>"

type_synonym 'a cbuf = "(int \<Rightarrow> 'a) \<times> (int \<Rightarrow> 'a)"

subsection \<open>The radix-4 transforms along the rows\<close>

text \<open>\<open>(xr, xi)\<close> times the twiddle \<open>(wr, wi)\<close>.\<close>

definition twiddle :: "'a ring_ops \<Rightarrow> 'a \<times> 'a \<Rightarrow> 'a \<times> 'a \<Rightarrow> 'a \<times> 'a" where
  "twiddle A w x =
     (case (w, x) of ((wr, wi), (xr, xi)) \<Rightarrow> (r_msb A xr wr (r_mul A xi wi), r_mad A xr wi (r_mul A xi wr)))"

text \<open>The twiddle of a stage: the table holds \<open>e^(-2 pi i t / 64)\<close>.\<close>

definition stage_twiddle :: "'a ring_ops \<Rightarrow> (int \<Rightarrow> 'a \<times> 'a) \<Rightarrow> bool \<Rightarrow> int \<Rightarrow> 'a \<times> 'a" where
  "stage_twiddle A tw inverted t =
     (fst (tw t), r_mul A (if inverted then r_minus_one A else r_one A) (snd (tw t)))"

text \<open>
  The four results of a butterfly: the sum, \<open>b - i d\<close>, the alternating sum and \<open>b + i d\<close> (the
  second and the fourth swapped for the inverse).
\<close>

definition butterfly :: "'a ring_ops \<Rightarrow> bool \<Rightarrow> 'a \<times> 'a \<Rightarrow> 'a \<times> 'a \<Rightarrow> 'a \<times> 'a \<Rightarrow> 'a \<times> 'a \<Rightarrow> ('a \<times> 'a) \<times> ('a \<times> 'a) \<times> ('a \<times> 'a) \<times> ('a \<times> 'a)" where
  "butterfly A inverted x0 x1 x2 x3 =
     (let plus = (\<lambda>x y. (r_add A (fst x) (fst y), r_add A (snd x) (snd y)));
          minus = (\<lambda>x y. (r_sub A (fst x) (fst y), r_sub A (snd x) (snd y)));
          a = plus x0 x2; b = minus x0 x2; c = plus x1 x3; d = minus x1 x3;
          m = (r_add A (fst b) (snd d), r_sub A (snd b) (fst d));
          p = (r_sub A (fst b) (snd d), r_add A (snd b) (fst d))
      in if inverted then (plus a c, p, minus a c, m) else (plus a c, m, minus a c, p))"

definition cget :: "'a cbuf \<Rightarrow> int \<Rightarrow> 'a \<times> 'a" where
  "cget z i = (fst z i, snd z i)"

definition cput :: "int \<Rightarrow> 'a \<times> 'a \<Rightarrow> 'a cbuf \<Rightarrow> 'a cbuf" where
  "cput i v z = ((fst z)(i := fst v), (snd z)(i := snd v))"

text \<open>
  One column \<open>c\<close> of the rows \<open>g + j\<close>, \<open>g + j + q\<close>, \<open>g + j + 2 q\<close>, \<open>g + j + 3 q\<close> in decimation in
  frequency; the vector loop handles some columns at once, each on its own.
\<close>

definition dif_cell :: "'a ring_ops \<Rightarrow> (int \<Rightarrow> 'a \<times> 'a) \<Rightarrow> bool \<Rightarrow> int \<Rightarrow> int \<times> int \<times> int \<Rightarrow> 'a cbuf \<Rightarrow> 'a cbuf" where
  "dif_cell A tw inverted q gjc z =
     (case gjc of (g, j, c) \<Rightarrow>
        let s = 16 div q; t = j * s;
            i0 = (g + j) * 64 + c; i1 = i0 + q * 64; i2 = i1 + q * 64; i3 = i2 + q * 64;
            (sm, m, e, p) = butterfly A inverted (cget z i0) (cget z i1) (cget z i2) (cget z i3);
            w = (\<lambda>k x. if t \<noteq> 0 then twiddle A (stage_twiddle A tw inverted (k * t)) x else x)
        in cput i3 (w 3 p) (cput i2 (w 2 e) (cput i1 (w 1 m) (cput i0 sm z))))"

text \<open>The same in decimation in time.\<close>

definition dit_cell :: "'a ring_ops \<Rightarrow> (int \<Rightarrow> 'a \<times> 'a) \<Rightarrow> bool \<Rightarrow> int \<Rightarrow> int \<times> int \<times> int \<Rightarrow> 'a cbuf \<Rightarrow> 'a cbuf" where
  "dit_cell A tw inverted q gjc z =
     (case gjc of (g, j, c) \<Rightarrow>
        let s = 16 div q; t = j * s;
            i0 = (g + j) * 64 + c; i1 = i0 + q * 64; i2 = i1 + q * 64; i3 = i2 + q * 64;
            w = (\<lambda>k x. if t \<noteq> 0 then twiddle A (stage_twiddle A tw inverted (k * t)) x else x);
            (sm, m, e, p) = butterfly A inverted (cget z i0) (w 1 (cget z i1)) (w 2 (cget z i2)) (w 3 (cget z i3))
        in cput i3 p (cput i2 e (cput i1 m (cput i0 sm z))))"

text \<open>The loops over the groups, the rows of a quarter and the columns.\<close>

definition stage_cells :: "int \<Rightarrow> (int \<times> int \<times> int) list" where
  "stage_cells q = List.product (map (\<lambda>i. 4 * q * i) [0..64 div (4 * q) - 1]) (List.product [0..q - 1] [0..63])"

definition dif4 :: "'a ring_ops \<Rightarrow> (int \<Rightarrow> 'a \<times> 'a) \<Rightarrow> bool \<Rightarrow> 'a cbuf \<Rightarrow> 'a cbuf" where
  "dif4 A tw inverted z = fold (\<lambda>q. fold (dif_cell A tw inverted q) (stage_cells q)) [16, 4, 1] z"

definition dit4 :: "'a ring_ops \<Rightarrow> (int \<Rightarrow> 'a \<times> 'a) \<Rightarrow> bool \<Rightarrow> 'a cbuf \<Rightarrow> 'a cbuf" where
  "dit4 A tw inverted z = fold (\<lambda>q. fold (dit_cell A tw inverted q) (stage_cells q)) [1, 4, 16] z"

text \<open>The base-4 digit reversal.\<close>

definition rev4 :: "int \<Rightarrow> int" where
  "rev4 i = push_bit 4 (i AND 3) OR (i AND 12) OR drop_bit 4 i"

subsection \<open>Transposition\<close>

definition transpose_scalar :: "(int \<Rightarrow> int) option \<Rightarrow> (int \<Rightarrow> 'a) \<Rightarrow> (int \<Rightarrow> 'a) \<Rightarrow> (int \<Rightarrow> 'a)" where
  "transpose_scalar perm src dst =
     fold (\<lambda>f. let s = (case perm of Some p \<Rightarrow> p f | None \<Rightarrow> f) * 64
               in fold (\<lambda>c dst. dst(c * 64 + f := src (s + c))) [0..63]) [0..63] dst"

text \<open>Vectors of 4 or 8 lanes, which the shuffles treat in blocks of 4.\<close>

definition load_lanes :: "int \<Rightarrow> (int \<Rightarrow> 'a) \<Rightarrow> int \<Rightarrow> 'a list" where
  "load_lanes N b o1 = map (\<lambda>l. b (o1 + l)) [0..N - 1]"

definition store_lanes :: "int \<Rightarrow> 'a list \<Rightarrow> (int \<Rightarrow> 'a) \<Rightarrow> (int \<Rightarrow> 'a)" where
  "store_lanes o1 v b = (\<lambda>i. if o1 \<le> i \<and> i < o1 + int (length v) then v ! nat (i - o1) else b i)"

fun interleave_lower :: "'a list \<Rightarrow> 'a list \<Rightarrow> 'a list" where
  "interleave_lower (a0 # a1 # a2 # a3 # as) (b0 # b1 # b2 # b3 # bs) = a0 # b0 # a1 # b1 # interleave_lower as bs"
| "interleave_lower _ _ = []"

fun interleave_upper :: "'a list \<Rightarrow> 'a list \<Rightarrow> 'a list" where
  "interleave_upper (a0 # a1 # a2 # a3 # as) (b0 # b1 # b2 # b3 # bs) = a2 # b2 # a3 # b3 # interleave_upper as bs"
| "interleave_upper _ _ = []"

text \<open>The interleaves of 64-bit lanes on the same vectors.\<close>

fun interleave_lower64 :: "'a list \<Rightarrow> 'a list \<Rightarrow> 'a list" where
  "interleave_lower64 (a0 # a1 # a2 # a3 # as) (b0 # b1 # b2 # b3 # bs) = a0 # a1 # b0 # b1 # interleave_lower64 as bs"
| "interleave_lower64 _ _ = []"

fun interleave_upper64 :: "'a list \<Rightarrow> 'a list \<Rightarrow> 'a list" where
  "interleave_upper64 (a0 # a1 # a2 # a3 # as) (b0 # b1 # b2 # b3 # bs) = a2 # a3 # b2 # b3 # interleave_upper64 as bs"
| "interleave_upper64 _ _ = []"

definition concat_lower :: "'a list \<Rightarrow> 'a list \<Rightarrow> 'a list" where
  "concat_lower hi lo = take (length lo div 2) lo @ take (length hi div 2) hi"

definition concat_upper :: "'a list \<Rightarrow> 'a list \<Rightarrow> 'a list" where
  "concat_upper hi lo = drop (length lo div 2) lo @ drop (length hi div 2) hi"

definition perm_row :: "(int \<Rightarrow> int) option \<Rightarrow> int \<Rightarrow> int" where
  "perm_row perm f = (case perm of Some p \<Rightarrow> p f | None \<Rightarrow> f) * 64"

definition block8 :: "(int \<Rightarrow> int) option \<Rightarrow> (int \<Rightarrow> 'a) \<Rightarrow> int \<times> int \<Rightarrow> (int \<Rightarrow> 'a) \<Rightarrow> (int \<Rightarrow> 'a)" where
  "block8 perm src fc dst =
     (case fc of (f, c) \<Rightarrow>
        let a = (\<lambda>q. load_lanes 8 src (perm_row perm (f + q) + c));
            t0 = interleave_lower (a 0) (a 1); t1 = interleave_upper (a 0) (a 1);
            t2 = interleave_lower (a 2) (a 3); t3 = interleave_upper (a 2) (a 3);
            t4 = interleave_lower (a 4) (a 5); t5 = interleave_upper (a 4) (a 5);
            t6 = interleave_lower (a 6) (a 7); t7 = interleave_upper (a 6) (a 7);
            u0 = interleave_lower64 t0 t2; u1 = interleave_upper64 t0 t2;
            u2 = interleave_lower64 t1 t3; u3 = interleave_upper64 t1 t3;
            u4 = interleave_lower64 t4 t6; u5 = interleave_upper64 t4 t6;
            u6 = interleave_lower64 t5 t7; u7 = interleave_upper64 t5 t7;
            o1 = c * 64 + f
        in fold (\<lambda>(k, v). store_lanes (o1 + k * 64) v)
             [(0, concat_lower u4 u0), (1, concat_lower u5 u1), (2, concat_lower u6 u2), (3, concat_lower u7 u3),
              (4, concat_upper u4 u0), (5, concat_upper u5 u1), (6, concat_upper u6 u2), (7, concat_upper u7 u3)] dst)"

definition block4 :: "(int \<Rightarrow> int) option \<Rightarrow> (int \<Rightarrow> 'a) \<Rightarrow> int \<times> int \<Rightarrow> (int \<Rightarrow> 'a) \<Rightarrow> (int \<Rightarrow> 'a)" where
  "block4 perm src fc dst =
     (case fc of (f, c) \<Rightarrow>
        let a = (\<lambda>q. load_lanes 4 src (perm_row perm (f + q) + c));
            t0 = interleave_lower (a 0) (a 1); t1 = interleave_lower (a 2) (a 3);
            t2 = interleave_upper (a 0) (a 1); t3 = interleave_upper (a 2) (a 3)
        in fold (\<lambda>(k, v). store_lanes ((c + k) * 64 + f) v)
             [(0, concat_lower t1 t0), (1, concat_upper t1 t0), (2, concat_lower t3 t2), (3, concat_upper t3 t2)] dst)"

definition block_grid :: "int \<Rightarrow> (int \<times> int) list" where
  "block_grid b = List.product (map ((*) b) [0..64 div b - 1]) (map ((*) b) [0..64 div b - 1])"

text \<open>The routine as compiled: without vectors, with 32-byte ones or with 16-byte ones.\<close>

datatype transpose_arm = Scalar_Arm | Wide_Arm | Narrow_Arm

definition transpose64 :: "transpose_arm \<Rightarrow> (int \<Rightarrow> int) option \<Rightarrow> (int \<Rightarrow> 'a) \<Rightarrow> (int \<Rightarrow> 'a) \<Rightarrow> (int \<Rightarrow> 'a)" where
  "transpose64 arm perm src dst =
     (case arm of Scalar_Arm \<Rightarrow> transpose_scalar perm src dst
      | Wide_Arm \<Rightarrow> fold (block8 perm src) (block_grid 8) dst
      | Narrow_Arm \<Rightarrow> fold (block4 perm src) (block_grid 4) dst)"

subsection \<open>The two-dimensional transforms\<close>

text \<open>Each takes the array, which it destroys, and the destination, and returns both.\<close>

definition forward2 :: "'a ring_ops \<Rightarrow> (int \<Rightarrow> 'a \<times> 'a) \<Rightarrow> transpose_arm \<Rightarrow> 'a cbuf \<Rightarrow> 'a cbuf \<Rightarrow> 'a cbuf \<times> 'a cbuf" where
  "forward2 A tw arm z out =
     (let z = dif4 A tw False z;
          out = (transpose64 arm (Some rev4) (fst z) (fst out), transpose64 arm (Some rev4) (snd z) (snd out))
      in (z, dif4 A tw False out))"

definition inverse2 :: "'a ring_ops \<Rightarrow> (int \<Rightarrow> 'a \<times> 'a) \<Rightarrow> transpose_arm \<Rightarrow> 'a cbuf \<Rightarrow> 'a cbuf \<Rightarrow> 'a cbuf \<times> 'a cbuf" where
  "inverse2 A tw arm z out =
     (let z = dit4 A tw True z;
          out = (transpose64 arm None (fst z) (fst out), transpose64 arm None (snd z) (snd out))
      in (z, dif4 A tw True out))"

text \<open>\<open>memcpy\<close> of the row \<open>from\<close> of one buffer to the row \<open>to\<close> of another.\<close>

definition copy_row64 :: "int \<Rightarrow> int \<Rightarrow> (int \<Rightarrow> 'a) \<Rightarrow> (int \<Rightarrow> 'a) \<Rightarrow> (int \<Rightarrow> 'a)" where
  "copy_row64 from to src dst = (\<lambda>i. if to * 64 \<le> i \<and> i < to * 64 + 64 then src (from * 64 + (i - to * 64)) else dst i)"

definition copy_rev_rows :: "(int \<Rightarrow> 'a) \<Rightarrow> (int \<Rightarrow> 'a) \<Rightarrow> (int \<Rightarrow> 'a)" where
  "copy_rev_rows src dst = fold (\<lambda>p. copy_row64 (rev4 p) p src) [0..63] dst"

text \<open>The entry for tests: natural layouts, \<open>x[row][col]\<close> and \<open>F[fc][fr]\<close>.\<close>

definition copy_area :: "(int \<Rightarrow> 'a) \<Rightarrow> (int \<Rightarrow> 'a) \<Rightarrow> (int \<Rightarrow> 'a)" where
  "copy_area src dst = (\<lambda>i. if 0 \<le> i \<and> i < 4096 then src i else dst i)"

definition da3d_dft64x64 :: "'a ring_ops \<Rightarrow> (int \<Rightarrow> 'a \<times> 'a) \<Rightarrow> transpose_arm \<Rightarrow> bool \<Rightarrow> 'a cbuf \<Rightarrow> 'a cbuf \<Rightarrow> 'a cbuf \<times> 'a cbuf" where
  "da3d_dft64x64 A tw arm inverted z scratch =
     (let (z, s) =
        (if \<not> inverted then forward2 A tw arm z scratch
         else let s = (copy_rev_rows (fst z) (fst scratch), copy_rev_rows (snd z) (snd scratch));
                  (s, z) = inverse2 A tw arm s z
              in (z, (copy_area (fst z) (fst s), copy_area (snd z) (snd s))))
      in ((copy_rev_rows (fst s) (fst z), copy_rev_rows (snd s) (snd z)), s))"

subsection \<open>Loops over disjoint parts of an array\<close>

text \<open>
  A loop whose steps read and write disjoint parts: on the part of a step, the result is that
  of the step alone.
\<close>

lemma fold_footprint:
  assumes out_of: "\<And>x s i. x \<in> set xs \<Longrightarrow> i \<notin> P x \<Longrightarrow> get (f x s) i = get s i"
    and reads: "\<And>x s s'. x \<in> set xs \<Longrightarrow> \<forall>i \<in> P x. get s i = get s' i \<Longrightarrow> \<forall>i \<in> P x. get (f x s) i = get (f x s') i"
    and disj: "\<And>x y. x \<in> set xs \<Longrightarrow> y \<in> set xs \<Longrightarrow> x \<noteq> y \<Longrightarrow> P x \<inter> P y = {}"
    and dist: "distinct xs"
  shows "(\<forall>x \<in> set xs. \<forall>i \<in> P x. get (fold f xs s) i = get (f x s) i) \<and>
    (\<forall>i. (\<forall>x \<in> set xs. i \<notin> P x) \<longrightarrow> get (fold f xs s) i = get s i)"
  using assms
proof (induction xs arbitrary: s)
  case (Cons x xs)
  have ih: "(\<forall>y \<in> set xs. \<forall>i \<in> P y. get (fold f xs (f x s)) i = get (f y (f x s)) i) \<and>
    (\<forall>i. (\<forall>y \<in> set xs. i \<notin> P y) \<longrightarrow> get (fold f xs (f x s)) i = get (f x s) i)"
  proof (rule Cons.IH)
    show "P y \<inter> P z = {}" if "y \<in> set xs" "z \<in> set xs" "y \<noteq> z" for y z using Cons.prems(3) that by simp
    show "distinct xs" using Cons.prems(4) by simp
  qed (simp_all add: Cons.prems(1,2))
  have other: "P x \<inter> P y = {}" if "y \<in> set xs" for y using Cons.prems(3) [of x y] Cons.prems(4) that by auto
  have "get (f y (f x s)) i = get (f y s) i" if "y \<in> set xs" "i \<in> P y" for y i
    using Cons.prems(2) [of y "f x s" s] Cons.prems(1) [of x] other [OF that(1)] that by (auto simp: disjoint_iff)
  moreover have "get (fold f xs (f x s)) i = get (f x s) i" if "i \<in> P x" for i
    using ih other that by (metis disjoint_iff)
  ultimately show ?case using ih Cons.prems(1) by auto
qed simp

subsection \<open>Exact transforms\<close>

definition exact_twiddles :: "int \<Rightarrow> real \<times> real" where
  "exact_twiddles t = (cos (2 * pi * of_int t / 64), - sin (2 * pi * of_int t / 64))"

text \<open>The 64-th root of unity of the transform, to the power \<open>t\<close>, and the array as complex numbers.\<close>

definition unity :: "bool \<Rightarrow> int \<Rightarrow> complex" where
  "unity inverted t = cis ((if inverted then 1 else - 1) * (2 * pi * of_int t / 64))"

definition cplx :: "real cbuf \<Rightarrow> int \<Rightarrow> complex" where
  "cplx z i = Complex (fst z i) (snd z i)"

lemma unity_add: "unity d (s + t) = unity d s * unity d t"
  by (auto simp: unity_def cis_mult add_divide_distrib distrib_left algebra_simps)

lemma unity_zero [simp]: "unity d 0 = 1"
  by (simp add: unity_def)

lemma unity_period: "unity d (64 * t) = 1"
proof -
  have "cis (2 * pi * of_int t) = 1" by (rule cis_multiple_2pi) simp
  moreover have "cis (- (2 * pi * of_int t)) = 1"
    using cis_multiple_2pi [of "- of_int t"] by simp
  ultimately show ?thesis by (simp add: unity_def mult.assoc)
qed

lemma unity_mod: "unity d (t mod 64) = unity d t"
proof -
  have "unity d t = unity d (64 * (t div 64) + t mod 64)" by simp
  then show ?thesis unfolding unity_add unity_period by simp
qed

lemma unity_quarter: "unity d 16 = (if d then \<i> else - \<i>)"
  by (simp add: unity_def cis_minus_pi_half)

lemma unity_quarters: "unity d 32 = -1" "unity d 48 = - unity d 16"
proof -
  show h: "unity d 32 = -1" using unity_add [of d 16 16] by (simp add: unity_quarter)
  show "unity d 48 = - unity d 16" using unity_add [of d 32 16] h by simp
qed

lemma unity_values:
  "unity d 16 = (if d then \<i> else - \<i>)" "unity d 32 = -1" "unity d 48 = (if d then - \<i> else \<i>)" "unity d 64 = 1" "unity d 96 = -1"
  "unity d 144 = (if d then \<i> else - \<i>)"
proof -
  show "unity d 16 = (if d then \<i> else - \<i>)" "unity d 32 = -1" by (rule unity_quarter, rule unity_quarters)
  then show "unity d 48 = (if d then - \<i> else \<i>)" using unity_quarters(2) [of d] by auto
  show "unity d 64 = 1" using unity_period [of d 1] by simp
  show "unity d 96 = -1" "unity d 144 = (if d then \<i> else - \<i>)"
    using unity_mod [of d 96] unity_mod [of d 144] unity_quarter [of d] unity_quarters [of d] by simp_all
qed

lemma sum_four: "sum f {0..<4::int} = f 0 + f 1 + f 2 + f 3"
proof -
  have "{0..<4::int} = {0, 1, 2, 3}" by auto
  then show ?thesis by (simp add: add.assoc)
qed

lemma stage_twiddle_exact: "stage_twiddle real_ops exact_twiddles d t = (Re (unity d t), Im (unity d t))"
  by (simp add: stage_twiddle_def real_ops_def exact_twiddles_def unity_def)

lemma twiddle_exact: "twiddle real_ops (Re w, Im w) (Re x, Im x) = (Re (x * w), Im (x * w))"
  by (simp add: twiddle_def real_ops_def)

definition pair_of :: "complex \<Rightarrow> real \<times> real" where "pair_of x = (Re x, Im x)"

lemma cget_cplx: "cget z i = pair_of (cplx z i)"
  by (simp add: cget_def pair_of_def cplx_def)

lemma cput_cplx: "cplx (cput i (pair_of v) z) j = (if j = i then v else cplx z j)"
  by (simp add: cput_def pair_of_def cplx_def)

lemma stage_factor:
  "(if t \<noteq> 0 then twiddle real_ops (stage_twiddle real_ops exact_twiddles d (k * t)) (pair_of x) else pair_of x) = pair_of (x * unity d (k * t))"
  by (simp add: pair_of_def stage_twiddle_exact twiddle_exact)

lemma butterfly_exact:
  "butterfly real_ops d (pair_of x0) (pair_of x1) (pair_of x2) (pair_of x3) =
    (let X = (\<lambda>m. pair_of (x0 + unity d (16 * m) * x1 + unity d (16 * 2 * m) * x2 + unity d (16 * 3 * m) * x3)) in (X 0, X 1, X 2, X 3))"
  by (simp add: butterfly_def pair_of_def real_ops_def Let_def unity_values)

text \<open>A cell of a stage, exactly.\<close>

definition cell_row :: "int \<Rightarrow> int \<times> int \<times> int \<Rightarrow> int \<Rightarrow> int" where
  "cell_row q gjc k = (case gjc of (g, j, c) \<Rightarrow> (g + j + k * q) * 64 + c)"

definition footprint :: "int \<Rightarrow> int \<times> int \<times> int \<Rightarrow> int set" where
  "footprint q x = cell_row q x ` {0..<4}"

lemma footprint_four: "footprint q x = {cell_row q x 0, cell_row q x 1, cell_row q x 2, cell_row q x 3}"
proof -
  have "{0..<4::int} = {0, 1, 2, 3}" by auto
  then show ?thesis by (simp add: footprint_def)
qed

lemma cell_rows:
  "(g + j) * 64 + c = cell_row q (g, j, c) 0" "cell_row q x 0 + q * 64 = cell_row q x 1"
  "cell_row q x 1 + q * 64 = cell_row q x 2" "cell_row q x 2 + q * 64 = cell_row q x 3"
  by (simp_all add: cell_row_def distrib_right split: prod.splits)

lemma cell_row_inj: "0 < q \<Longrightarrow> cell_row q x k = cell_row q x m \<longleftrightarrow> k = m"
  by (simp add: cell_row_def split: prod.splits)

lemma dif_cell_exact:
  assumes "0 < q" "m \<in> {0..<4}"
  shows "cplx (dif_cell real_ops exact_twiddles d q (g, j, c) z) (cell_row q (g, j, c) m) =
    (\<Sum>k = 0..<4. unity d (16 * k * m) * cplx z (cell_row q (g, j, c) k)) * unity d (m * (j * (16 div q)))"
proof -
  have "m \<in> {0, 1, 2, 3}" using assms(2) by auto
  then show ?thesis
    unfolding dif_cell_def Let_def prod.case cell_rows(1) [of g j c q] cell_rows(2-4) cget_cplx butterfly_exact stage_factor cput_cplx cell_row_inj [OF assms(1)] sum_four
    by (auto simp: algebra_simps)
qed

lemma dit_cell_exact:
  assumes "0 < q" "m \<in> {0..<4}"
  shows "cplx (dit_cell real_ops exact_twiddles d q (g, j, c) z) (cell_row q (g, j, c) m) =
    (\<Sum>k = 0..<4. unity d (16 * k * m) * (cplx z (cell_row q (g, j, c) k) * unity d (k * (j * (16 div q)))))"
proof -
  have "m \<in> {0, 1, 2, 3}" using assms(2) by auto
  then show ?thesis
    unfolding dit_cell_def Let_def prod.case cell_rows(1) [of g j c q] cell_rows(2-4) cget_cplx stage_factor butterfly_exact cput_cplx cell_row_inj [OF assms(1)] sum_four
    by (auto simp: algebra_simps)
qed

lemma dif_cell_outside:
  assumes "i \<notin> footprint q x"
  shows "cplx (dif_cell real_ops exact_twiddles d q x z) i = cplx z i"
proof (cases x)
  case (fields g j c)
  show ?thesis
    using assms
    unfolding fields footprint_four dif_cell_def Let_def prod.case cell_rows(1) [of g j c q] cell_rows(2-4) cget_cplx butterfly_exact stage_factor cput_cplx
    by simp
qed

lemma dit_cell_outside:
  assumes "i \<notin> footprint q x"
  shows "cplx (dit_cell real_ops exact_twiddles d q x z) i = cplx z i"
proof (cases x)
  case (fields g j c)
  show ?thesis
    using assms
    unfolding fields footprint_four dit_cell_def Let_def prod.case cell_rows(1) [of g j c q] cell_rows(2-4) cget_cplx stage_factor butterfly_exact cput_cplx
    by simp
qed

lemma dif_cell_reads:
  assumes "0 < q" "\<forall>i \<in> footprint q x. cplx z i = cplx z' i"
  shows "\<forall>i \<in> footprint q x. cplx (dif_cell real_ops exact_twiddles d q x z) i = cplx (dif_cell real_ops exact_twiddles d q x z') i"
proof (cases x)
  case (fields g j c)
  show ?thesis using assms(2) unfolding footprint_def fields by (auto simp: dif_cell_exact [OF assms(1)])
qed

lemma dit_cell_reads:
  assumes "0 < q" "\<forall>i \<in> footprint q x. cplx z i = cplx z' i"
  shows "\<forall>i \<in> footprint q x. cplx (dit_cell real_ops exact_twiddles d q x z) i = cplx (dit_cell real_ops exact_twiddles d q x z') i"
proof (cases x)
  case (fields g j c)
  show ?thesis using assms(2) unfolding footprint_def fields by (auto simp: dit_cell_exact [OF assms(1)])
qed

lemma row_split:
  fixes r r' c c' :: int
  assumes "r * 64 + c = r' * 64 + c'" "0 \<le> c" "c < 64" "0 \<le> c'" "c' < 64"
  shows "r = r'" "c = c'"
proof -
  have "r \<le> r'" "r' \<le> r" using assms by linarith+
  then show "r = r'" by simp
  then show "c = c'" using assms(1) by simp
qed

lemma group_split:
  fixes q :: int
  assumes "4 * q * i + j + k * q = 4 * q * i' + j' + k' * q" "0 \<le> j" "j < q" "0 \<le> j'" "j' < q" "0 \<le> k" "k < 4" "0 \<le> k'" "k' < 4"
  shows "i = i'" "j = j'"
proof -
  define a where "a = 4 * i + k"
  define a' where "a' = 4 * i' + k'"
  have e: "a * q + j = a' * q + j'" using assms(1) unfolding a_def a'_def by (simp only: algebra_simps)
  have "j mod q = j' mod q" using arg_cong [OF e, of "\<lambda>x. x mod q"] unfolding mod_mult_self3 .
  then show j: "j = j'" using assms(2-5) by simp
  have "0 < q" using assms(2,3) by linarith
  then have "a = a'" using e unfolding j by simp
  then have "i \<le> i'" "i' \<le> i" using assms(6-9) unfolding a_def a'_def by linarith+
  then show "i = i'" by simp
qed

lemma stage_disjoint:
  assumes "0 < q" "x \<in> set (stage_cells q)" "y \<in> set (stage_cells q)" "x \<noteq> y"
  shows "footprint q x \<inter> footprint q y = {}"
proof -
  obtain i j c i' j' c' where xy: "x = (4 * q * i, j, c)" "y = (4 * q * i', j', c')" "0 \<le> j" "j < q" "0 \<le> c" "c < 64"
    "0 \<le> j'" "j' < q" "0 \<le> c'" "c' < 64"
    using assms(2,3) by (auto simp: stage_cells_def)
  have "x = y" if e: "cell_row q x k = cell_row q y m" and km: "0 \<le> k" "k < 4" "0 \<le> m" "m < 4" for k m
  proof -
    have r: "(4 * q * i + j + k * q) * 64 + c = (4 * q * i' + j' + m * q) * 64 + c'" using e by (simp add: cell_row_def xy)
    note rs = row_split [OF r xy(5,6,9,10)]
    note gs = group_split [OF rs(1) xy(3,4,7,8) km]
    show ?thesis using rs(2) gs xy(1,2) by simp
  qed
  then show ?thesis using assms(4) by (auto simp: footprint_def)
qed

lemma stage_distinct: "0 < q \<Longrightarrow> distinct (stage_cells q)"
  unfolding stage_cells_def by (intro distinct_product) (auto simp: distinct_map inj_on_def)

lemma stage_result:
  assumes q: "0 < q" and out_of: "\<And>x z i. i \<notin> footprint q x \<Longrightarrow> cplx (f x z) i = cplx z i"
    and reads: "\<And>x z z'. \<forall>i \<in> footprint q x. cplx z i = cplx z' i \<Longrightarrow> \<forall>i \<in> footprint q x. cplx (f x z) i = cplx (f x z') i"
    and at: "0 \<le> i" "i < 64 div (4 * q)" "0 \<le> j" "j < q" "0 \<le> c" "c < 64" "m \<in> {0..<4}"
  shows "cplx (fold f (stage_cells q) z) ((4 * q * i + j + m * q) * 64 + c) =
    cplx (f (4 * q * i, j, c) z) (cell_row q (4 * q * i, j, c) m)"
proof -
  have "(4 * q * i, j, c) \<in> set (stage_cells q)" using at by (auto simp: stage_cells_def)
  moreover have "cell_row q (4 * q * i, j, c) m \<in> footprint q (4 * q * i, j, c)" using at by (simp add: footprint_def)
  ultimately show ?thesis
    using fold_footprint [where P = "footprint q" and get = cplx and f = f and xs = "stage_cells q" and s = z, OF out_of reads stage_disjoint [OF q] stage_distinct [OF q]]
    by (auto simp: cell_row_def)
qed

text \<open>A sum over \<open>4 q\<close> indices by quarters.\<close>

lemma sum_quarters:
  fixes q :: int
  assumes "0 < q"
  shows "sum f {0..<4 * q} = (\<Sum>j = 0..<q. \<Sum>k = 0..<4. f (j + k * q))"
proof -
  have "(\<Sum>j = 0..<q. \<Sum>k = 0..<4. f (j + k * q)) = (\<Sum>(j, k) \<in> {0..<q} \<times> {0..<4}. f (j + k * q))"
    by (simp add: sum.cartesian_product)
  also have "\<dots> = sum f {0..<4 * q}"
  proof (rule sum.reindex_bij_witness [where i = "\<lambda>i. (i mod q, i div q)" and j = "\<lambda>(j, k). j + k * q"])
    fix a
    assume "a \<in> {0..<q} \<times> {0..<4::int}"
    then obtain j k where a: "a = (j, k)" "0 \<le> j" "j < q" "0 \<le> k" "k < 4" by auto
    have "j + k * q < q + 3 * q" using a(3) mult_right_mono [of k 3 q] a(5) assms by linarith
    then show "(case a of (j, k) \<Rightarrow> j + k * q) \<in> {0..<4 * q}" using a assms by simp
    show "((case a of (j, k) \<Rightarrow> j + k * q) mod q, (case a of (j, k) \<Rightarrow> j + k * q) div q) = a" using a assms by simp
  next
    fix i
    assume i: "i \<in> {0..<4 * q}"
    have "i div q < 4"
    proof (rule ccontr)
      assume "\<not> i div q < 4"
      then have "q * 4 \<le> q * (i div q)" using assms by (intro mult_left_mono) simp_all
      moreover have "q * (i div q) + i mod q = i" "0 \<le> i mod q" "i < 4 * q" using i assms by simp_all
      ultimately show False by linarith
    qed
    then show "(i mod q, i div q) \<in> {0..<q} \<times> {0..<4}" using i assms by (simp add: pos_imp_zdiv_nonneg_iff)
  qed auto
  finally show ?thesis ..
qed

text \<open>
  One step of the recursion of either transform: transforms of size \<open>q\<close> over the quarters, which
  see the frequencies in the order \<open>rv\<close>, give the one of size \<open>4 q\<close>.
\<close>

lemma dif_combine:
  assumes q: "0 < q" "s * q = 16"
    and y: "\<And>j m. 0 \<le> j \<Longrightarrow> j < q \<Longrightarrow> m \<in> {0..<4} \<Longrightarrow>
      y (j + m * q) = (\<Sum>k = 0..<4. unity d (16 * k * m) * x (j + k * q)) * unity d (m * (j * s))"
    and z: "z (m * q + p) = (\<Sum>j = 0..<q. unity d (4 * s * j * r) * y (j + m * q))"
    and m: "m \<in> {0..<4}"
  shows "z (m * q + p) = (\<Sum>i = 0..<4 * q. unity d (s * i * (4 * r + m)) * x i)"
proof -
  have e: "unity d (4 * s * j * r) * (unity d (16 * k * m) * unity d (m * (j * s))) = unity d (s * (j + k * q) * (4 * r + m))" for j k
  proof -
    have "s * (j + k * q) * (4 * r + m) = 4 * s * j * r + (16 * k * m + m * (j * s)) + 64 * (k * r) + (s * q - 16) * (k * (4 * r + m))"
      by (simp add: algebra_simps)
    also have "\<dots> = 4 * s * j * r + (16 * k * m + m * (j * s)) + 64 * (k * r)" using q(2) by simp
    finally show ?thesis by (simp only: unity_add unity_period mult_1_right)
  qed
  have "z (m * q + p) = (\<Sum>j = 0..<q. \<Sum>k = 0..<4. unity d (4 * s * j * r) * (unity d (16 * k * m) * unity d (m * (j * s))) * x (j + k * q))"
    unfolding z by (intro sum.cong refl) (simp add: y [OF _ _ m] sum_distrib_left sum_distrib_right algebra_simps)
  then show ?thesis unfolding e sum_quarters [OF q(1)] .
qed

lemma dit_combine:
  assumes q: "0 < q" "s * q = 16" and j: "0 \<le> j" "j < q" and m: "m \<in> {0..<4}"
    and b: "\<And>k. k \<in> {0..<4} \<Longrightarrow> b (j + k * q) = (\<Sum>p = 0..<q. unity d (4 * s * j * rv p) * a (p + k * q))"
    and out: "w (j + m * q) = (\<Sum>k = 0..<4. unity d (16 * k * m) * (b (j + k * q) * unity d (k * (j * s))))"
    and rv: "\<And>p k. 0 \<le> p \<Longrightarrow> p < q \<Longrightarrow> k \<in> {0..<4} \<Longrightarrow> rv' (p + k * q) = 4 * rv p + k"
  shows "w (j + m * q) = (\<Sum>p = 0..<4 * q. unity d (s * (j + m * q) * rv' p) * a p)"
proof -
  have e: "unity d (16 * k * m) * (unity d (4 * s * j * r) * unity d (k * (j * s))) = unity d (s * (j + m * q) * (4 * r + k))" for r k
  proof -
    have "s * (j + m * q) * (4 * r + k) = 16 * k * m + (4 * s * j * r + k * (j * s)) + 64 * (m * r) + (s * q - 16) * (m * (4 * r + k))"
      by (simp add: algebra_simps)
    also have "\<dots> = 16 * k * m + (4 * s * j * r + k * (j * s)) + 64 * (m * r)" using q(2) by simp
    finally show ?thesis by (simp only: unity_add unity_period mult_1_right)
  qed
  have "w (j + m * q) = (\<Sum>k = 0..<4. \<Sum>p = 0..<q. unity d (16 * k * m) * (unity d (4 * s * j * rv p) * unity d (k * (j * s))) * a (p + k * q))"
    unfolding out by (intro sum.cong refl) (simp add: b sum_distrib_left sum_distrib_right algebra_simps)
  also have "\<dots> = (\<Sum>p = 0..<q. \<Sum>k = 0..<4. unity d (s * (j + m * q) * (4 * rv p + k)) * a (p + k * q))"
    unfolding e by (rule sum.swap)
  also have "\<dots> = (\<Sum>p = 0..<q. \<Sum>k = 0..<4. unity d (s * (j + m * q) * rv' (p + k * q)) * a (p + k * q))"
    by (intro sum.cong refl) (simp add: rv)
  finally show ?thesis unfolding sum_quarters [OF q(1)] .
qed

lemma rev4_digits:
  assumes "0 \<le> p" "p < 16" "m \<in> {0..<4}"
  shows "rev4 (p + m * 16) = 4 * (4 * (p mod 4) + p div 4) + m"
proof -
  have "p \<in> set [0..15]" "m \<in> set [0..3]" using assms by auto
  then show ?thesis by (auto simp: upto.simps rev4_def)
qed

text \<open>The rows of a column, and the three sizes of the transforms.\<close>

definition column :: "real cbuf \<Rightarrow> int \<Rightarrow> int \<Rightarrow> complex" where
  "column z c r = cplx z (r * 64 + c)"

lemma dif_stage_column:
  assumes "0 < q" "0 \<le> i" "i < 64 div (4 * q)" "0 \<le> j" "j < q" "0 \<le> c" "c < 64" "m \<in> {0..<4}"
  shows "column (fold (dif_cell real_ops exact_twiddles d q) (stage_cells q) z) c (4 * q * i + j + m * q) =
    (\<Sum>k = 0..<4. unity d (16 * k * m) * column z c (4 * q * i + j + k * q)) * unity d (m * (j * (16 div q)))"
  unfolding column_def
  by (subst stage_result [where f = "dif_cell real_ops exact_twiddles d q", OF assms(1) dif_cell_outside dif_cell_reads [OF assms(1)] assms(2-8)])
    (simp_all add: dif_cell_exact [OF assms(1,8)], simp_all add: cell_row_def)

lemma dit_stage_column:
  assumes "0 < q" "0 \<le> i" "i < 64 div (4 * q)" "0 \<le> j" "j < q" "0 \<le> c" "c < 64" "m \<in> {0..<4}"
  shows "column (fold (dit_cell real_ops exact_twiddles d q) (stage_cells q) z) c (4 * q * i + j + m * q) =
    (\<Sum>k = 0..<4. unity d (16 * k * m) * (column z c (4 * q * i + j + k * q) * unity d (k * (j * (16 div q)))))"
  unfolding column_def
  by (subst stage_result [where f = "dit_cell real_ops exact_twiddles d q", OF assms(1) dit_cell_outside dit_cell_reads [OF assms(1)] assms(2-8)])
    (simp_all add: dit_cell_exact [OF assms(1,8)], simp_all add: cell_row_def)

lemma digit_range: "p \<in> {0..<4 * q} \<Longrightarrow> 0 < q \<Longrightarrow> 0 \<le> p mod q \<and> p mod q < q \<and> p div q \<in> {0..<4} \<and> p mod q + p div q * q = (p::int)"
proof -
  assume a: "p \<in> {0..<4 * q}" "0 < q"
  have "p div q < 4"
  proof (rule ccontr)
    assume "\<not> p div q < 4"
    then have "q * 4 \<le> q * (p div q)" using a by (intro mult_left_mono) simp_all
    moreover have "q * (p div q) + p mod q = p" "0 \<le> p mod q" "p < 4 * q" using a by simp_all
    ultimately show False by linarith
  qed
  then show ?thesis using a by (simp add: pos_imp_zdiv_nonneg_iff)
qed

lemma dif4_exact:
  assumes c: "0 \<le> c" "c < 64" and p: "p \<in> {0..<64}"
  shows "column (dif4 real_ops exact_twiddles d z) c p = (\<Sum>k = 0..<64. unity d (k * rev4 p) * column z c k)"
proof -
  let ?S = "\<lambda>q. fold (dif_cell real_ops exact_twiddles d q) (stage_cells q)"
  note st = dif_stage_column [OF _ _ _ _ _ c, of _ _ _ _ d]
  have L1: "column (?S 1 z) c (4 * i + p) = (\<Sum>k = 0..<4. unity d (16 * k * p) * column z c (4 * i + k))"
    if "0 \<le> i" "i < 16" "p \<in> {0..<4}" for i p z
    using st [of 1 i 0 p z] that by simp
  have L2: "column (?S 1 (?S 4 z)) c (16 * i + p) = (\<Sum>k = 0..<16. unity d (4 * k * (4 * (p mod 4) + p div 4)) * column z c (16 * i + k))"
    if i: "0 \<le> i" "i < 4" and p: "p \<in> {0..<16}" for i p z
  proof -
    have pd: "0 \<le> p mod 4" "p mod 4 < 4" "p div 4 \<in> {0..<4}" "p mod 4 + p div 4 * 4 = p" using digit_range [of p 4] p by simp_all
    have "column (?S 1 (?S 4 z)) c (16 * i + (p div 4 * 4 + p mod 4)) =
        (\<Sum>k = 0..<4 * 4. unity d (4 * k * (4 * (p mod 4) + p div 4)) * column z c (16 * i + k))"
    proof (rule dif_combine [where x = "\<lambda>r. column z c (16 * i + r)" and z = "\<lambda>r. column (?S 1 (?S 4 z)) c (16 * i + r)" and y = "\<lambda>r. column (?S 4 z) c (16 * i + r)"])
      fix j m :: int
      assume "0 \<le> j" "j < 4" "m \<in> {0..<4}"
      then show "column (?S 4 z) c (16 * i + (j + m * 4)) =
          (\<Sum>k = 0..<4. unity d (16 * k * m) * column z c (16 * i + (j + k * 4))) * unity d (m * (j * 4))"
        using st [of 4 i j m z] i by (simp add: add.assoc)
    next
      show "column (?S 1 (?S 4 z)) c (16 * i + (p div 4 * 4 + p mod 4)) =
          (\<Sum>j = 0..<4. unity d (4 * 4 * j * (p mod 4)) * column (?S 4 z) c (16 * i + (j + p div 4 * 4)))"
        using L1 [of "4 * i + p div 4" "p mod 4" "?S 4 z"] i pd by (simp add: algebra_simps)
    qed (use pd in simp_all)
    then show ?thesis using pd(4) by (simp add: add.commute)
  qed
  have pd: "0 \<le> p mod 16" "p mod 16 < 16" "p div 16 \<in> {0..<4}" "p mod 16 + p div 16 * 16 = p" using digit_range [of p 16] p by simp_all
  have "column (?S 1 (?S 4 (?S 16 z))) c (p div 16 * 16 + p mod 16) =
      (\<Sum>k = 0..<4 * 16. unity d (1 * k * (4 * (4 * (p mod 16 mod 4) + p mod 16 div 4) + p div 16)) * column z c k)"
  proof (rule dif_combine [where x = "\<lambda>r. column z c r" and z = "\<lambda>r. column (?S 1 (?S 4 (?S 16 z))) c r" and y = "\<lambda>r. column (?S 16 z) c r"])
    fix j m :: int
    assume "0 \<le> j" "j < 16" "m \<in> {0..<4}"
    then show "column (?S 16 z) c (j + m * 16) =
        (\<Sum>k = 0..<4. unity d (16 * k * m) * column z c (j + k * 16)) * unity d (m * (j * 1))"
      using st [of 16 0 j m z] by simp
  next
    show "column (?S 1 (?S 4 (?S 16 z))) c (p div 16 * 16 + p mod 16) =
        (\<Sum>j = 0..<16. unity d (4 * 1 * j * (4 * (p mod 16 mod 4) + p mod 16 div 4)) * column (?S 16 z) c (j + p div 16 * 16))"
      using L2 [of "p div 16" "p mod 16" "?S 16 z"] pd by (simp add: algebra_simps)
  qed (use pd in simp_all)
  then show ?thesis using pd rev4_digits [OF pd(1-3)] by (simp add: dif4_def add.commute)
qed

lemma dit4_exact:
  assumes c: "0 \<le> c" "c < 64" and r: "r \<in> {0..<64}"
  shows "column (dit4 real_ops exact_twiddles d z) c r = (\<Sum>p = 0..<64. unity d (r * rev4 p) * column z c p)"
proof -
  let ?S = "\<lambda>q. fold (dit_cell real_ops exact_twiddles d q) (stage_cells q)"
  let ?rv = "\<lambda>x::int. 4 * (x mod 4) + x div 4"
  note st = dit_stage_column [OF _ _ _ _ _ c, of _ _ _ _ d]
  have L1: "column (?S 1 z) c (4 * i + m) = (\<Sum>k = 0..<4. unity d (16 * m * k) * column z c (4 * i + k))"
    if "0 \<le> i" "i < 16" "m \<in> {0..<4}" for i m z
    using st [of 1 i 0 m z] that by (simp add: mult.commute mult.left_commute)
  have L2: "column (?S 4 (?S 1 z)) c (16 * i + r) = (\<Sum>p = 0..<16. unity d (4 * r * ?rv p) * column z c (16 * i + p))"
    if i: "0 \<le> i" "i < 4" and r: "r \<in> {0..<16}" for i r z
  proof -
    have rd: "0 \<le> r mod 4" "r mod 4 < 4" "r div 4 \<in> {0..<4}" "r mod 4 + r div 4 * 4 = r" using digit_range [of r 4] r by simp_all
    have "column (?S 4 (?S 1 z)) c (16 * i + (r mod 4 + r div 4 * 4)) =
        (\<Sum>p = 0..<4 * 4. unity d (4 * (r mod 4 + r div 4 * 4) * ?rv p) * column z c (16 * i + p))"
    proof (rule dit_combine [where a = "\<lambda>r. column z c (16 * i + r)" and b = "\<lambda>r. column (?S 1 z) c (16 * i + r)"
          and w = "\<lambda>r. column (?S 4 (?S 1 z)) c (16 * i + r)" and rv = "\<lambda>p. p" and rv' = ?rv])
      fix k :: int
      assume "k \<in> {0..<4}"
      then show "column (?S 1 z) c (16 * i + (r mod 4 + k * 4)) = (\<Sum>p = 0..<4. unity d (4 * 4 * (r mod 4) * p) * column z c (16 * i + (p + k * 4)))"
        using L1 [of "4 * i + k" "r mod 4" z] i rd by (simp add: algebra_simps)
    next
      show "column (?S 4 (?S 1 z)) c (16 * i + (r mod 4 + r div 4 * 4)) =
          (\<Sum>k = 0..<4. unity d (16 * k * (r div 4)) * (column (?S 1 z) c (16 * i + (r mod 4 + k * 4)) * unity d (k * (r mod 4 * 4))))"
        using st [of 4 i "r mod 4" "r div 4" "?S 1 z"] i rd by (simp add: add.assoc)
    qed (use rd in simp_all)
    then show ?thesis using rd(4) by simp
  qed
  have rd: "0 \<le> r mod 16" "r mod 16 < 16" "r div 16 \<in> {0..<4}" "r mod 16 + r div 16 * 16 = r" using digit_range [of r 16] r by simp_all
  have "column (?S 16 (?S 4 (?S 1 z))) c (r mod 16 + r div 16 * 16) =
      (\<Sum>p = 0..<4 * 16. unity d (1 * (r mod 16 + r div 16 * 16) * rev4 p) * column z c p)"
  proof (rule dit_combine [where a = "\<lambda>r. column z c r" and b = "\<lambda>r. column (?S 4 (?S 1 z)) c r"
        and w = "\<lambda>r. column (?S 16 (?S 4 (?S 1 z))) c r" and rv = ?rv and rv' = rev4])
    fix k :: int
    assume "k \<in> {0..<4}"
    then show "column (?S 4 (?S 1 z)) c (r mod 16 + k * 16) = (\<Sum>p = 0..<16. unity d (4 * 1 * (r mod 16) * ?rv p) * column z c (p + k * 16))"
      using L2 [of k "r mod 16" z] rd by (simp add: algebra_simps)
  next
    show "column (?S 16 (?S 4 (?S 1 z))) c (r mod 16 + r div 16 * 16) =
        (\<Sum>k = 0..<4. unity d (16 * k * (r div 16)) * (column (?S 4 (?S 1 z)) c (r mod 16 + k * 16) * unity d (k * (r mod 16 * 1))))"
      using st [of 16 0 "r mod 16" "r div 16" "?S 4 (?S 1 z)"] rd by simp
  next
    fix p k :: int
    assume "0 \<le> p" "p < 16" "k \<in> {0..<4}"
    then show "rev4 (p + k * 16) = 4 * ?rv p + k" by (rule rev4_digits)
  qed (use rd in simp_all)
  then show ?thesis using rd by (simp add: dit4_def)
qed

subsection \<open>Transposition in any arm\<close>

definition transposed :: "(int \<Rightarrow> int) option \<Rightarrow> (int \<Rightarrow> 'a) \<Rightarrow> (int \<Rightarrow> 'a) \<Rightarrow> (int \<Rightarrow> 'a)" where
  "transposed perm src dst = (\<lambda>i. if 0 \<le> i \<and> i < 4096 then src (perm_row perm (i mod 64) + i div 64) else dst i)"

text \<open>What a block of \<open>N\<close> rows and columns writes.\<close>

definition block_cells :: "int \<Rightarrow> int \<times> int \<Rightarrow> int set" where
  "block_cells N fc = {i. fst fc \<le> i mod 64 \<and> i mod 64 < fst fc + N \<and> snd fc \<le> i div 64 \<and> i div 64 < snd fc + N}"

definition column_of :: "(int \<Rightarrow> int) option \<Rightarrow> (int \<Rightarrow> 'a) \<Rightarrow> int \<Rightarrow> int \<Rightarrow> int \<Rightarrow> 'a list" where
  "column_of perm src N f r = map (\<lambda>l. src (perm_row perm (f + l) + r)) [0..N - 1]"

lemma store_column:
  assumes "0 \<le> f" "f + N \<le> 64" "0 \<le> N"
  shows "store_lanes (r * 64 + f) (column_of perm src N f r) dst i =
    (if i div 64 = r \<and> f \<le> i mod 64 \<and> i mod 64 < f + N then src (perm_row perm (i mod 64) + i div 64) else dst i)"
proof -
  have e: "i = i div 64 * 64 + i mod 64" "0 \<le> i mod 64" "i mod 64 < 64" by simp_all
  have "r * 64 + f \<le> i \<and> i < r * 64 + f + N \<longleftrightarrow> i div 64 = r \<and> f \<le> i mod 64 \<and> i mod 64 < f + N"
  proof
    assume a: "r * 64 + f \<le> i \<and> i < r * 64 + f + N"
    then have "r \<le> i div 64" "i div 64 \<le> r" using e assms by linarith+
    then have "i div 64 = r" by simp
    then show "i div 64 = r \<and> f \<le> i mod 64 \<and> i mod 64 < f + N" using a e(1) by linarith
  next
    assume "i div 64 = r \<and> f \<le> i mod 64 \<and> i mod 64 < f + N"
    then show "r * 64 + f \<le> i \<and> i < r * 64 + f + N" using e(1) by linarith
  qed
  moreover have "column_of perm src N f r ! nat (i - (r * 64 + f)) = src (perm_row perm (i mod 64) + i div 64)"
    if "i div 64 = r" "f \<le> i mod 64" "i mod 64 < f + N"
  proof -
    have "i - (r * 64 + f) = i mod 64 - f" using e(1) that(1) by simp
    then show ?thesis using that by (simp add: column_of_def nat_less_iff)
  qed
  moreover have "int (length (column_of perm src N f r)) = N" using assms by (simp add: column_of_def)
  ultimately show ?thesis by (simp add: store_lanes_def)
qed

lemma store_columns:
  assumes "0 \<le> f" "f + N \<le> 64" "0 \<le> N"
  shows "fold (\<lambda>k. store_lanes ((c + k) * 64 + f) (column_of perm src N f (c + k))) ks dst i =
    (if i div 64 - c \<in> set ks \<and> f \<le> i mod 64 \<and> i mod 64 < f + N then src (perm_row perm (i mod 64) + i div 64) else dst i)"
proof (induction ks arbitrary: dst)
  case (Cons k ks)
  have "i div 64 = c + k \<longleftrightarrow> i div 64 - c = k" by linarith
  then show ?case by (subst fold_simps(2), subst Cons.IH, subst store_column [OF assms]) auto
qed simp

lemma block8_writes:
  assumes "0 \<le> f" "f + 8 \<le> 64"
  shows "block8 perm src (f, c) dst i = (if i \<in> block_cells 8 (f, c) then src (perm_row perm (i mod 64) + i div 64) else dst i)"
proof -
  have l: "load_lanes 8 src b = [src b, src (b + 1), src (b + 2), src (b + 3), src (b + 4), src (b + 5), src (b + 6), src (b + 7)]" for b
    by (simp add: load_lanes_def upto.simps)
  have col: "column_of perm src 8 f r = [src (perm_row perm f + r), src (perm_row perm (f + 1) + r), src (perm_row perm (f + 2) + r), src (perm_row perm (f + 3) + r),
    src (perm_row perm (f + 4) + r), src (perm_row perm (f + 5) + r), src (perm_row perm (f + 6) + r), src (perm_row perm (f + 7) + r)]" for r
    by (simp add: column_of_def upto.simps)
  have "block8 perm src (f, c) dst = fold (\<lambda>k. store_lanes ((c + k) * 64 + f) (column_of perm src 8 f (c + k))) [0, 1, 2, 3, 4, 5, 6, 7] dst"
    by (simp add: block8_def l col concat_lower_def concat_upper_def Let_def algebra_simps)
  moreover have "x \<in> {0, 1, 2, 3, 4, 5, 6, 7} \<longleftrightarrow> 0 \<le> x \<and> x < 8" for x :: int by auto
  ultimately show ?thesis
    using assms by (simp only: store_columns list.set block_cells_def) auto
qed

lemma block4_writes:
  assumes "0 \<le> f" "f + 4 \<le> 64"
  shows "block4 perm src (f, c) dst i = (if i \<in> block_cells 4 (f, c) then src (perm_row perm (i mod 64) + i div 64) else dst i)"
proof -
  have l: "load_lanes 4 src b = [src b, src (b + 1), src (b + 2), src (b + 3)]" for b
    by (simp add: load_lanes_def upto.simps)
  have col: "column_of perm src 4 f r = [src (perm_row perm f + r), src (perm_row perm (f + 1) + r), src (perm_row perm (f + 2) + r), src (perm_row perm (f + 3) + r)]" for r
    by (simp add: column_of_def upto.simps)
  have "block4 perm src (f, c) dst = fold (\<lambda>k. store_lanes ((c + k) * 64 + f) (column_of perm src 4 f (c + k))) [0, 1, 2, 3] dst"
    by (simp add: block4_def l col concat_lower_def concat_upper_def Let_def algebra_simps)
  moreover have "x \<in> {0, 1, 2, 3} \<longleftrightarrow> 0 \<le> x \<and> x < 4" for x :: int by auto
  ultimately show ?thesis
    using assms by (simp only: store_columns list.set block_cells_def) auto
qed

lemma block_member:
  fixes x :: int
  assumes "0 < N" "N * (64 div N) = 64" "0 \<le> x" "x < 64"
  shows "x div N \<in> set [0..64 div N - 1] \<and> N * (x div N) \<le> x \<and> x < N * (x div N) + N"
proof -
  have x: "N * (x div N) + x mod N = x" "0 \<le> x mod N" "x mod N < N" using assms by simp_all
  have "x div N < 64 div N"
  proof (rule ccontr)
    assume "\<not> x div N < 64 div N"
    then have "N * (64 div N) \<le> N * (x div N)" using assms by (intro mult_left_mono) simp_all
    then show False using assms x by linarith
  qed
  moreover have "0 \<le> x div N" using assms by (simp add: pos_imp_zdiv_nonneg_iff)
  moreover have "N * (x div N) \<le> x" "x < N * (x div N) + N" using x by linarith+
  ultimately show ?thesis by simp
qed

lemma blocks_transpose:
  assumes N: "0 < N" "64 mod N = 0"
    and block: "\<And>f c dst i. 0 \<le> f \<Longrightarrow> f + N \<le> 64 \<Longrightarrow> b (f, c) dst i = (if i \<in> block_cells N (f, c) then src (perm_row perm (i mod 64) + i div 64) else dst i)"
  shows "fold b (block_grid N) dst = transposed perm src dst"
proof
  fix i
  have n64: "N * (64 div N) = 64" using mult_div_mod_eq [of N 64] N(2) by simp
  have range: "0 \<le> N * k \<and> N * k + N \<le> 64" if "k \<in> set [0..64 div N - 1]" for k
  proof -
    have "N * (k + 1) \<le> N * (64 div N)" using that N(1) by (intro mult_left_mono) simp_all
    then show ?thesis using that N(1) n64 by (simp add: algebra_simps)
  qed
  have grid: "\<exists>k m. x = (N * k, N * m) \<and> k \<in> set [0..64 div N - 1] \<and> m \<in> set [0..64 div N - 1]" if "x \<in> set (block_grid N)" for x
    using that by (force simp: block_grid_def)
  have bl: "b x dst i = (if i \<in> block_cells N x then src (perm_row perm (i mod 64) + i div 64) else dst i)" if "x \<in> set (block_grid N)" for x dst i
    using grid [OF that] range block by auto
  have same: "k = k'" if "N * k \<le> x" "x < N * k + N" "N * k' \<le> x" "x < N * k' + N" for k k' x
  proof -
    have "N * k < N * (k' + 1)" "N * k' < N * (k + 1)" using that by (simp_all add: algebra_simps)
    then show ?thesis using N(1) by simp
  qed
  have disj: "block_cells N x \<inter> block_cells N y = {}" if "x \<in> set (block_grid N)" "y \<in> set (block_grid N)" "x \<noteq> y" for x y
    using grid [OF that(1)] grid [OF that(2)] that(3) same by (fastforce simp: block_cells_def)
  have dist: "distinct (block_grid N)"
    unfolding block_grid_def using N(1) by (intro distinct_product) (auto simp: distinct_map inj_on_def)
  note fp = fold_footprint [where f = b and P = "block_cells N" and get = "\<lambda>s i. s i" and s = dst, OF _ _ disj dist]
  have fold: "(\<forall>x \<in> set (block_grid N). \<forall>i \<in> block_cells N x. fold b (block_grid N) dst i = b x dst i) \<and>
    (\<forall>i. (\<forall>x \<in> set (block_grid N). i \<notin> block_cells N x) \<longrightarrow> fold b (block_grid N) dst i = dst i)"
    by (rule fp) (simp_all add: bl)
  show "fold b (block_grid N) dst i = transposed perm src dst i"
  proof (cases "0 \<le> i \<and> i < 4096")
    case True
    let ?x = "(N * (i mod 64 div N), N * (i div 64 div N))"
    have d: "0 \<le> i div 64" "i div 64 < 64" "0 \<le> i mod 64" "i mod 64 < 64" using True by (simp add: pos_imp_zdiv_nonneg_iff, linarith, simp_all)
    have "?x \<in> set (block_grid N)" "i \<in> block_cells N ?x"
      using block_member [OF N(1) n64 d(1,2)] block_member [OF N(1) n64 d(3,4)] by (simp_all add: block_grid_def block_cells_def)
    then show ?thesis using fold bl True by (simp add: transposed_def)
  next
    case False
    have "i \<notin> block_cells N x" if xin: "x \<in> set (block_grid N)" for x
    proof
      assume "i \<in> block_cells N x"
      then obtain m where m: "N * m \<le> i div 64" "i div 64 < N * m + N" "m \<in> set [0..64 div N - 1]"
        using grid [OF xin] by (auto simp: block_cells_def)
      then have "0 \<le> i div 64" "i div 64 < 64" using range [OF m(3)] by linarith+
      then show False using False by (simp add: pos_imp_zdiv_nonneg_iff)
    qed
    then show ?thesis using fold False by (auto simp: transposed_def)
  qed
qed

lemma scalar_columns:
  fixes perm :: "(int \<Rightarrow> int) option" and src dst :: "int \<Rightarrow> 'a"
  assumes "0 \<le> f" "f < 64"
  shows "fold (\<lambda>c dst. dst(c * 64 + f := src (r + c))) cs dst i = (if i div 64 \<in> set cs \<and> i mod 64 = f then src (r + i div 64) else dst i)"
proof (induction cs arbitrary: dst)
  case (Cons c cs)
  have "i = c * 64 + f \<longleftrightarrow> i div 64 = c \<and> i mod 64 = f" using assms by auto
  then show ?case by (subst fold_simps(2), subst Cons.IH) auto
qed simp

lemma scalar_transpose: "transpose_scalar perm src dst = transposed perm src dst"
proof
  fix i
  have "fold (\<lambda>f. let s = (case perm of Some p \<Rightarrow> p f | None \<Rightarrow> f) * 64 in fold (\<lambda>c dst. dst(c * 64 + f := src (s + c))) [0..63]) fs dst i =
    (if i div 64 \<in> set [0..63] \<and> i mod 64 \<in> set fs then src (perm_row perm (i mod 64) + i div 64) else dst i)"
    if "set fs \<subseteq> {0..63}" for fs
    using that
  proof (induction fs arbitrary: dst)
    case (Cons f fs)
    have f: "0 \<le> f" "f < 64" using Cons.prems by auto
    have sub: "set fs \<subseteq> {0..63}" using Cons.prems by simp
    show ?case
      by (subst fold_simps(2), subst Cons.IH [OF sub]) (auto simp: Let_def scalar_columns [OF f] perm_row_def)
  qed simp
  from this [of "[0..63]"]
  have t: "transpose_scalar perm src dst i = (if i div 64 \<in> set [0..63] \<and> i mod 64 \<in> set [0..63] then src (perm_row perm (i mod 64) + i div 64) else dst i)"
    by (simp add: transpose_scalar_def)
  have "i div 64 \<in> set [0..63] \<and> i mod 64 \<in> set [0..63] \<longleftrightarrow> 0 \<le> i \<and> i < 4096"
  proof -
    have m: "0 \<le> i mod 64" "i mod 64 \<le> 63" by simp_all
    have "0 \<le> i div 64 \<longleftrightarrow> 0 \<le> i" by (simp add: pos_imp_zdiv_nonneg_iff)
    moreover have "i div 64 \<le> 63 \<longleftrightarrow> i < 4096" by linarith
    ultimately show ?thesis using m by simp
  qed
  then show "transpose_scalar perm src dst i = transposed perm src dst i" unfolding t by (simp add: transposed_def)
qed

lemma transpose64_arms: "transpose64 arm perm src dst = transposed perm src dst"
  unfolding transpose64_def using scalar_transpose [of perm src dst]
    blocks_transpose [of 8 "block8 perm src" src perm dst, OF _ _ block8_writes]
    blocks_transpose [of 4 "block4 perm src" src perm dst, OF _ _ block4_writes]
  by (cases arm) simp_all

subsection \<open>The two-dimensional transform\<close>

lemma rev4_involution:
  assumes "p \<in> {0..<64}"
  shows "rev4 p \<in> {0..<64}" "rev4 (rev4 p) = p"
proof -
  have "\<forall>p \<in> set [0..63]. rev4 p \<in> {0..<64} \<and> rev4 (rev4 p) = p" by (simp add: upto.simps rev4_def)
  then show "rev4 p \<in> {0..<64}" "rev4 (rev4 p) = p" using assms by auto
qed

lemma copy_rev_rows_at:
  assumes "0 \<le> p" "p < 64" "0 \<le> c" "c < 64"
  shows "copy_rev_rows src dst (p * 64 + c) = src (rev4 p * 64 + c)"
proof -
  have "fold (\<lambda>p. copy_row64 (rev4 p) p src) ps dst i = (if i div 64 \<in> set ps then src (rev4 (i div 64) * 64 + i mod 64) else dst i)" for ps dst i
  proof (induction ps arbitrary: dst)
    case (Cons p ps)
    have e: "i = i div 64 * 64 + i mod 64" "0 \<le> i mod 64" "i mod 64 < 64" by simp_all
    have "p * 64 \<le> i \<and> i < p * 64 + 64 \<longleftrightarrow> i div 64 = p"
    proof
      assume "p * 64 \<le> i \<and> i < p * 64 + 64"
      then have "p \<le> i div 64" "i div 64 \<le> p" using e by linarith+
      then show "i div 64 = p" by simp
    next
      assume "i div 64 = p"
      then show "p * 64 \<le> i \<and> i < p * 64 + 64" using e by linarith
    qed
    moreover have "i - i div 64 * 64 = i mod 64" using e(1) by linarith
    ultimately have "copy_row64 (rev4 p) p src dst i = (if i div 64 = p then src (rev4 p * 64 + i mod 64) else dst i)"
      by (auto simp: copy_row64_def)
    then show ?case by (subst fold_simps(2), subst Cons.IH) simp
  qed simp
  then show ?thesis unfolding copy_rev_rows_def using assms by simp
qed

lemma column_transposed:
  assumes "f \<in> {0..<64}" "r \<in> {0..<64}"
  shows "column (transposed perm (fst z) o1, transposed perm (snd z) o2) f r = column z r (case perm of Some p \<Rightarrow> p f | None \<Rightarrow> f)"
proof -
  have "0 \<le> r * 64 + f" "r * 64 + f < 4096" "(r * 64 + f) mod 64 = f" "(r * 64 + f) div 64 = r" using assms by auto
  then show ?thesis by (simp add: column_def cplx_def transposed_def perm_row_def)
qed

lemma column_copied:
  assumes "p \<in> {0..<64}" "c \<in> {0..<64}"
  shows "column (copy_rev_rows (fst s) d1, copy_rev_rows (snd s) d2) c p = column s c (rev4 p)"
  using assms by (simp add: column_def cplx_def copy_rev_rows_at)

text \<open>The two passes of either direction.\<close>

lemma forward2_exact:
  assumes "p \<in> {0..<64}" "f \<in> {0..<64}"
  shows "column (snd (forward2 real_ops exact_twiddles arm z out)) f p =
    (\<Sum>c = 0..<64. \<Sum>r = 0..<64. unity False (c * rev4 p + r * f) * column z c r)"
proof -
  define z1 where "z1 = dif4 real_ops exact_twiddles False z"
  define o1 where "o1 = (transposed (Some rev4) (fst z1) (fst out), transposed (Some rev4) (snd z1) (snd out))"
  have "snd (forward2 real_ops exact_twiddles arm z out) = dif4 real_ops exact_twiddles False o1"
    by (simp add: forward2_def Let_def transpose64_arms z1_def o1_def)
  moreover have "column (dif4 real_ops exact_twiddles False o1) f p = (\<Sum>c = 0..<64. unity False (c * rev4 p) * column o1 f c)"
    using assms by (intro dif4_exact) simp_all
  moreover have "column o1 f c = (\<Sum>r = 0..<64. unity False (r * f) * column z c r)" if "c \<in> {0..<64}" for c
  proof -
    have "column o1 f c = column z1 c (rev4 f)" unfolding o1_def using column_transposed [OF assms(2) that, of "Some rev4"] by simp
    also have "\<dots> = (\<Sum>r = 0..<64. unity False (r * rev4 (rev4 f)) * column z c r)"
      unfolding z1_def using that rev4_involution(1) [OF assms(2)] by (intro dif4_exact) simp_all
    finally show ?thesis unfolding rev4_involution(2) [OF assms(2)] .
  qed
  ultimately show ?thesis by (simp add: sum_distrib_left unity_add mult.assoc)
qed

lemma inverse2_exact:
  assumes "p \<in> {0..<64}" "c \<in> {0..<64}"
  shows "column (snd (inverse2 real_ops exact_twiddles arm z out)) c p =
    (\<Sum>f = 0..<64. \<Sum>q = 0..<64. unity True (f * rev4 p + c * rev4 q) * column z f q)"
proof -
  define z1 where "z1 = dit4 real_ops exact_twiddles True z"
  define o1 where "o1 = (transposed None (fst z1) (fst out), transposed None (snd z1) (snd out))"
  have "snd (inverse2 real_ops exact_twiddles arm z out) = dif4 real_ops exact_twiddles True o1"
    by (simp add: inverse2_def Let_def transpose64_arms z1_def o1_def)
  moreover have "column (dif4 real_ops exact_twiddles True o1) c p = (\<Sum>f = 0..<64. unity True (f * rev4 p) * column o1 c f)"
    using assms by (intro dif4_exact) simp_all
  moreover have "column o1 c f = (\<Sum>q = 0..<64. unity True (c * rev4 q) * column z f q)" if "f \<in> {0..<64}" for f
  proof -
    have "column o1 c f = column z1 f c" unfolding o1_def using column_transposed [OF assms(2) that, of None] by simp
    also have "\<dots> = (\<Sum>q = 0..<64. unity True (c * rev4 q) * column z f q)"
      unfolding z1_def using that assms(2) by (intro dit4_exact) simp_all
    finally show ?thesis .
  qed
  ultimately show ?thesis by (simp add: sum_distrib_left unity_add mult.assoc)
qed

text \<open>The reference: the two-dimensional discrete Fourier transform, unnormalized.\<close>

definition dft2 :: "bool \<Rightarrow> real cbuf \<Rightarrow> int \<Rightarrow> int \<Rightarrow> complex" where
  "dft2 d z a b = (\<Sum>x = 0..<64. \<Sum>y = 0..<64. unity d (x * b + y * a) * cplx z (x * 64 + y))"

lemma sum_rev4: "(\<Sum>q = 0..<64. g (rev4 q)) = (\<Sum>k = 0..<64. g k)"
  by (rule sum.reindex_bij_witness [where i = rev4 and j = rev4]) (use rev4_involution in auto)

lemma dft_column:
  assumes "a \<in> {0..<64}" "b \<in> {0..<64}"
  shows "column (fst (da3d_dft64x64 real_ops exact_twiddles arm d z scratch)) b a = dft2 d z a b"
proof (cases d)
  case False
  define s where "s = snd (forward2 real_ops exact_twiddles arm z scratch)"
  have "column (fst (da3d_dft64x64 real_ops exact_twiddles arm d z scratch)) b a = column s b (rev4 a)"
    using False assms by (simp add: da3d_dft64x64_def case_prod_unfold Let_def s_def column_copied)
  also have "\<dots> = (\<Sum>c = 0..<64. \<Sum>r = 0..<64. unity False (c * a + r * b) * column z c r)"
    unfolding s_def using forward2_exact [OF rev4_involution(1) [OF assms(1)] assms(2)] by (simp add: rev4_involution(2) [OF assms(1)])
  also have "\<dots> = dft2 d z a b" unfolding dft2_def using False by (subst sum.swap) (simp add: column_def add.commute)
  finally show ?thesis .
next
  case True
  define s where "s = (copy_rev_rows (fst z) (fst scratch), copy_rev_rows (snd z) (snd scratch))"
  define t where "t = snd (inverse2 real_ops exact_twiddles arm s z)"
  have area: "copy_area src dst (p * 64 + c) = src (p * 64 + c)" if "p \<in> {0..<64}" "c \<in> {0..<64}" for src dst :: "int \<Rightarrow> real" and p c :: int
    using that by (auto simp: copy_area_def)
  have "column (fst (da3d_dft64x64 real_ops exact_twiddles arm d z scratch)) b a = column t b (rev4 a)"
    using True assms rev4_involution(1) [OF assms(1)]
    by (simp add: da3d_dft64x64_def case_prod_unfold Let_def s_def [symmetric] t_def [symmetric] column_def cplx_def copy_rev_rows_at area)
  also have "\<dots> = (\<Sum>f = 0..<64. \<Sum>q = 0..<64. unity True (f * a + b * rev4 q) * column s f q)"
    unfolding t_def using inverse2_exact [OF rev4_involution(1) [OF assms(1)] assms(2)] by (simp add: rev4_involution(2) [OF assms(1)])
  also have "\<dots> = (\<Sum>f = 0..<64. \<Sum>q = 0..<64. unity True (f * a + b * rev4 q) * column z f (rev4 q))"
    unfolding s_def by (intro sum.cong refl) (simp add: column_copied)
  also have "\<dots> = (\<Sum>f = 0..<64. \<Sum>k = 0..<64. unity True (f * a + b * k) * column z f k)"
    by (rule sum.cong [OF refl]) (rule sum_rev4)
  also have "\<dots> = dft2 d z a b" unfolding dft2_def using True by (subst sum.swap) (simp add: column_def ac_simps)
  finally show ?thesis .
qed

text \<open>Orthogonality of the powers of the root.\<close>

lemma unity_conj: "unity True t = unity False (- t)"
  by (simp add: unity_def)

lemma unity_one_iff:
  assumes "- 64 < t" "t < 64"
  shows "unity False t = 1 \<longleftrightarrow> t = 0"
proof
  assume "unity False t = 1"
  then have "cis (2 * pi * (- of_int t / 64)) = 1" by (simp add: unity_def)
  then have "cos (2 * pi * (- of_int t / 64)) = 1" by (simp only: complex_eq_iff cis.sel one_complex.sel)
  then obtain n :: int where "2 * pi * (- of_int t / 64) = of_int n * 2 * pi" unfolding cos_one_2pi_int by blast
  then have "(2 * pi) * (- of_int t / 64) = (2 * pi) * of_int n" by (simp only: ac_simps)
  then have "- of_int t / 64 = (of_int n :: real)" by (simp only: mult_cancel_left) simp
  then have "of_int (- t) = (of_int (64 * n) :: real)" by simp
  then have "- t = 64 * n" by (simp only: of_int_eq_iff)
  moreover from this have "n \<le> 0" "0 \<le> n" using assms by linarith+
  ultimately show "t = 0" by simp
qed simp

lemma unity_power: "unity d (of_nat k * t) = unity d t ^ k"
  by (induction k) (simp_all add: distrib_right unity_add)

lemma unity_sum:
  assumes "- 64 < t" "t < 64"
  shows "(\<Sum>k = 0..<64. unity False (k * t)) = (if t = 0 then 64 else 0)"
proof -
  have "(\<Sum>k = 0..<64. unity False (k * t)) = (\<Sum>k < 64. unity False (of_nat k * t))"
    by (rule sum.reindex_bij_witness [where i = int and j = nat]) auto
  also have "\<dots> = (\<Sum>k < 64. unity False t ^ k)" by (simp add: unity_power)
  also have "\<dots> = (if t = 0 then 64 else 0)"
  proof (cases "t = 0")
    case False
    then have "unity False t \<noteq> 1" using unity_one_iff [OF assms] by simp
    moreover have "unity False t ^ 64 = 1" using unity_power [of False 64 t] unity_period [of False t] by simp
    ultimately show ?thesis using False by (simp add: geometric_sum)
  qed simp
  finally show ?thesis .
qed

lemma dft2_inverse:
  assumes x: "x \<in> {0..<64}" and y: "y \<in> {0..<64}"
    and z': "\<And>a b. a \<in> {0..<64} \<Longrightarrow> b \<in> {0..<64} \<Longrightarrow> cplx z' (a * 64 + b) = dft2 False z a b"
  shows "dft2 True z' x y = 4096 * cplx z (x * 64 + y)"
proof -
  let ?w = "\<lambda>u v. cplx z (u * 64 + v)" and ?U = "unity False"
  have e: "unity True (a * y + b * x) * (?U (u * b + v * a) * c) = ?U (b * (u - x)) * (?U (a * (v - y)) * c)" for a b u v c
  proof -
    have "unity True (a * y + b * x) * ?U (u * b + v * a) = ?U (b * (u - x)) * ?U (a * (v - y))"
      unfolding unity_conj unity_add [symmetric] by (rule arg_cong) (simp add: algebra_simps)
    then show ?thesis by (simp only: mult.assoc [symmetric])
  qed
  have "dft2 True z' x y = (\<Sum>a = 0..<64. \<Sum>b = 0..<64. unity True (a * y + b * x) * dft2 False z a b)"
    unfolding dft2_def [of True] by (intro sum.cong refl) (simp add: z')
  also have "\<dots> = (\<Sum>a = 0..<64. \<Sum>b = 0..<64. \<Sum>u = 0..<64. ?U (b * (u - x)) * (\<Sum>v = 0..<64. ?U (a * (v - y)) * ?w u v))"
    unfolding dft2_def sum_distrib_left e ..
  also have "\<dots> = (\<Sum>a = 0..<64. \<Sum>u = 0..<64. (\<Sum>b = 0..<64. ?U (b * (u - x))) * (\<Sum>v = 0..<64. ?U (a * (v - y)) * ?w u v))"
    unfolding sum_distrib_right by (rule sum.cong [OF refl]) (rule sum.swap)
  also have "\<dots> = (\<Sum>a = 0..<64. \<Sum>u = 0..<64. if u = x then 64 * (\<Sum>v = 0..<64. ?U (a * (v - y)) * ?w u v) else 0)"
    using x by (intro sum.cong refl) (simp add: unity_sum)
  also have "\<dots> = (\<Sum>a = 0..<64. 64 * (\<Sum>v = 0..<64. ?U (a * (v - y)) * ?w x v))" using x by simp
  also have "\<dots> = 64 * (\<Sum>v = 0..<64. (\<Sum>a = 0..<64. ?U (a * (v - y))) * ?w x v)"
    unfolding sum_distrib_left [symmetric] sum_distrib_right by (rule arg_cong [OF sum.swap])
  also have "\<dots> = 64 * (\<Sum>v = 0..<64. if v = y then 64 * ?w x v else 0)"
    using y by (intro arg_cong [of _ _ "(*) 64"] sum.cong refl) (simp add: unity_sum)
  also have "\<dots> = 4096 * ?w x y" using y by simp
  finally show ?thesis .
qed

text \<open>
  C20. In exact arithmetic the radix-4 routines compute the discrete Fourier transform: whatever
  the arm of the transposition and the direction, the entry for tests leaves at \<open>(a, b)\<close> the
  sum of all elements times the power of the root, in natural order.
\<close>

theorem da3d_dft_exact:
  assumes "0 \<le> a" "a < 64" "0 \<le> b" "b < 64"
  shows "cplx (fst (da3d_dft64x64 real_ops exact_twiddles arm d z scratch)) (a * 64 + b) = dft2 d z a b"
  using dft_column [of a b arm d z scratch] assms by (simp add: column_def)

theorem da3d_dft_exact_witness:
  "cplx (fst (da3d_dft64x64 real_ops exact_twiddles Narrow_Arm True (\<lambda>_. 1, \<lambda>_. 0) (\<lambda>_. 0, \<lambda>_. 0))) (0 * 64 + 0) = 4096"
  by (subst da3d_dft_exact) (simp_all add: dft2_def cplx_def complex_eq_iff)

text \<open>
  C24. The inverse transform undoes the forward one up to the factor 4096, which the kernel
  divides out: in exact arithmetic, for any arms of the transposition and any scratch.
\<close>

theorem da3d_dft_roundtrip:
  assumes "0 \<le> x" "x < 64" "0 \<le> y" "y < 64"
  shows "cplx (fst (da3d_dft64x64 real_ops exact_twiddles arm True
      (fst (da3d_dft64x64 real_ops exact_twiddles arm' False z scratch)) scratch')) (x * 64 + y) = 4096 * cplx z (x * 64 + y)"
proof -
  have "dft2 True (fst (da3d_dft64x64 real_ops exact_twiddles arm' False z scratch)) x y = 4096 * cplx z (x * 64 + y)"
    using assms dft_column [of _ _ arm' False z scratch] by (intro dft2_inverse) (simp_all add: column_def)
  then show ?thesis
    using dft_column [of x y arm True "fst (da3d_dft64x64 real_ops exact_twiddles arm' False z scratch)" scratch'] assms by (simp add: column_def)
qed

theorem da3d_dft_roundtrip_witness:
  "cplx (fst (da3d_dft64x64 real_ops exact_twiddles Wide_Arm True
      (fst (da3d_dft64x64 real_ops exact_twiddles Scalar_Arm False (\<lambda>i. of_int i, \<lambda>_. 0) (\<lambda>_. 0, \<lambda>_. 0))) (\<lambda>_. 0, \<lambda>_. 0))) (1 * 64 + 2) = 4096 * 66"
  by (subst da3d_dft_roundtrip) (simp_all add: cplx_def complex_eq_iff)

end
