(* ===== verification/Da3d_Shrink.thy ===== *)
theory Da3d_Shrink
  imports Da3d_Dft Pnlm_Plane
begin

text \<open>
  The shrinkage of the spectrum in DA3D (\<open>FastExp\<close> and \<open>ShrinkChannel\<close> of
  src/cpu/da3d/da3d.cpp, \<open>da3d_fastexp\<close> of include/nss/params/da3d.hpp). One complex transform
  holds the spectra of two real arrays; they are separated with the mirrored frequency, and a
  pair of mirrored rows is computed from the first of them with vectors of \<open>N\<close> lanes. A vector
  is a function from the lane.
\<close>

subsection \<open>The exponential\<close>

definition fexp_scale :: f32 where "fexp_scale = 0x4b38aa3b"
definition fexp_floor :: f32 where "fexp_floor = 0xce7e0000"

text \<open>A lane of \<open>FastExp\<close>: the conversion to an integer truncates, and the sum of integers wraps.\<close>

definition fast_exp :: "farith \<Rightarrow> fexp \<Rightarrow> f32 \<Rightarrow> f32" where
  "fast_exp F E x =
     (let t = fmul F fexp_scale x;
          keep = f32_lt fexp_floor t;
          bits = word_of_int (f_to_int E (if keep then t else f32_zero)) + 1065353216
      in if keep then if 0 \<le> sint bits then bits else 0 else 0)"

text \<open>The scalar exponential of the parameters; an overflow of the addition has no value.\<close>

definition da3d_fastexp :: "farith \<Rightarrow> fexp \<Rightarrow> f32 \<Rightarrow> f32 option" where
  "da3d_fastexp F E x =
     (let t = fmul F fexp_scale x
      in if \<not> f32_lt fexp_floor t then Some f32_zero
         else if \<not> int32 (f_to_int E t + 1065353216) then None
         else let bits = f_to_int E t + 1065353216
              in Some (if bits \<le> 0 then f32_zero else word_of_int bits))"

subsection \<open>Vectors\<close>

type_synonym vec = "int \<Rightarrow> f32"

definition vload :: "buffer \<Rightarrow> int \<Rightarrow> vec" where "vload b i = (\<lambda>l. b (i + l))"
definition vstore :: "int \<Rightarrow> int \<Rightarrow> vec \<Rightarrow> buffer \<Rightarrow> buffer" where "vstore N i v = map_span i 0 N (\<lambda>l _. v l)"
definition vreverse :: "int \<Rightarrow> vec \<Rightarrow> vec" where "vreverse N v = (\<lambda>l. v (N - 1 - l))"
definition vslide1up :: "vec \<Rightarrow> vec" where "vslide1up v = (\<lambda>l. if l = 0 then f32_zero else v (l - 1))"
definition vinsert0 :: "f32 \<Rightarrow> vec \<Rightarrow> vec" where "vinsert0 x v = v(0 := x)"

subsection \<open>Shrinkage of a channel\<close>

definition f32_half :: f32 where "f32_half = 0x3f000000"

text \<open>The row of the frequency \<open>-f\<close>, both in digit-reversed order.\<close>

definition negrow :: "int \<Rightarrow> int" where
  "negrow i = rev4 ((64 - rev4 i) AND 63)"

text \<open>Writes \<open>Y'\<close> at \<open>i\<close>, or adds \<open>i Y'\<close>.\<close>

definition shrink_put :: "farith \<Rightarrow> int \<Rightarrow> bool \<Rightarrow> int \<Rightarrow> vec \<Rightarrow> vec \<Rightarrow> f32 cbuf \<Rightarrow> f32 cbuf" where
  "shrink_put F N addi i ry iy out =
     (if addi then (vstore N i (\<lambda>l. fsub F (vload (fst out) i l) (iy l)) (fst out), vstore N i (\<lambda>l. fadd F (vload (snd out) i l) (ry l)) (snd out))
      else (vstore N i ry (fst out), vstore N i iy (snd out)))"

text \<open>The factor of a frequency, from \<open>Z\<close> there and at the mirrored frequency.\<close>

definition shrink_factor :: "farith \<Rightarrow> fexp \<Rightarrow> f32 \<Rightarrow> f32 \<Rightarrow> f32 \<Rightarrow> f32 \<Rightarrow> f32 \<Rightarrow> f32" where
  "shrink_factor F E coef zr zi qr qi =
     (let gr = fmul F f32_half (fadd F zi qi); gi = fmul F f32_half (fsub F qr zr)
      in fast_exp F E (fdiv F coef (ffma F gr gr (fmul F gi gi))))"

text \<open>
  A block of \<open>N\<close> frequencies: \<open>q\<close> is \<open>Z\<close> at the mirrored ones. Gives the arrays, and \<open>Y'\<close> at
  the mirrored frequencies.
\<close>

definition shrink_block :: "farith \<Rightarrow> fexp \<Rightarrow> int \<Rightarrow> bool \<Rightarrow> f32 \<Rightarrow> f32 cbuf \<Rightarrow> vec \<Rightarrow> vec \<Rightarrow> bool \<Rightarrow> int \<Rightarrow> f32 cbuf \<Rightarrow> f32 cbuf \<times> vec \<times> vec" where
  "shrink_block F E N addi coef z qr qi dc i out =
     (let zr = vload (fst z) i; zi = vload (snd z) i;
          yr = (\<lambda>l. fmul F f32_half (fadd F (zr l) (qr l)));
          yi = (\<lambda>l. fmul F f32_half (fsub F (zi l) (qi l)));
          K = (\<lambda>l. shrink_factor F E coef (zr l) (zi l) (qr l) (qi l));
          K = (if dc then vinsert0 f32_one K else K);
          ry = (\<lambda>l. fmul F (K l) (yr l))
      in (shrink_put F N addi i ry (\<lambda>l. fmul F (K l) (yi l)) out, ry,
          (\<lambda>l. fmul F (K l) (fmul F f32_half (fsub F (qi l) (zi l))))))"

text \<open>
  The first block of a row: lane 0 pairs with column 0 of the mirrored row \<open>na\<close>, lane \<open>j\<close>
  with column \<open>64 - j\<close>.
\<close>

definition shrink_first :: "farith \<Rightarrow> fexp \<Rightarrow> int \<Rightarrow> bool \<Rightarrow> f32 \<Rightarrow> f32 cbuf \<Rightarrow> int \<Rightarrow> int \<Rightarrow> f32 cbuf \<Rightarrow> f32 cbuf" where
  "shrink_first F E N addi coef z a0 na out =
     (let m = na * 64; o1 = m + 64 - N;
          qr = vinsert0 (fst z m) (vslide1up (vreverse N (vload (fst z) o1)));
          qi = vinsert0 (snd z m) (vslide1up (vreverse N (vload (snd z) o1)));
          (out, ry, iy) = shrink_block F E N addi coef z qr qi (a0 = 0) (a0 * 64) out
      in if na = a0 then out
         else let oldr = vload (fst out) o1; oldi = vload (snd out) o1;
                  sr = vslide1up (vreverse N ry); si = vslide1up (vreverse N iy)
              in if addi
                 then let outr = vstore N o1 (\<lambda>l. if l < 1 then oldr l else fsub F (oldr l) (si l)) (fst out);
                          outi = vstore N o1 (\<lambda>l. if l < 1 then oldi l else fadd F (oldi l) (sr l)) (snd out)
                      in (outr(m := fsub F (outr m) (iy 0)), outi(m := fadd F (outi m) (ry 0)))
                 else let outr = vstore N o1 (\<lambda>l. if l < 1 then oldr l else sr l) (fst out);
                          outi = vstore N o1 (\<lambda>l. if l < 1 then oldi l else si l) (snd out)
                      in (outr(m := ry 0), outi(m := iy 0)))"

text \<open>The block at column \<open>b0 > 0\<close>: lane \<open>j\<close> pairs with column \<open>64 - b0 - j\<close>.\<close>

definition shrink_next :: "farith \<Rightarrow> fexp \<Rightarrow> int \<Rightarrow> bool \<Rightarrow> f32 \<Rightarrow> f32 cbuf \<Rightarrow> int \<Rightarrow> int \<Rightarrow> int \<Rightarrow> f32 cbuf \<Rightarrow> f32 cbuf" where
  "shrink_next F E N addi coef z a0 na b0 out =
     (let o1 = na * 64 + 64 - b0 - N + 1;
          (out, ry, iy) = shrink_block F E N addi coef z (vreverse N (vload (fst z) o1)) (vreverse N (vload (snd z) o1)) False (a0 * 64 + b0) out
      in if na = a0 then out else shrink_put F N addi o1 (vreverse N ry) (vreverse N iy) out)"

definition shrink_row :: "farith \<Rightarrow> fexp \<Rightarrow> int \<Rightarrow> bool \<Rightarrow> f32 \<Rightarrow> f32 cbuf \<Rightarrow> int \<Rightarrow> f32 cbuf \<Rightarrow> f32 cbuf" where
  "shrink_row F E N addi coef z a0 out =
     (let na = negrow a0
      in if na < a0 then out
         else fold (shrink_next F E N addi coef z a0 na) (map (\<lambda>k. k * N) [1..64 div N - 1]) (shrink_first F E N addi coef z a0 na out))"

definition shrink_channel :: "farith \<Rightarrow> fexp \<Rightarrow> int \<Rightarrow> bool \<Rightarrow> f32 cbuf \<Rightarrow> f32 \<Rightarrow> f32 cbuf \<Rightarrow> f32 cbuf" where
  "shrink_channel F E N addi z coef out = fold (shrink_row F E N addi coef z) [0..63] out"

subsection \<open>The exponential of the parameters\<close>

lemma sint_of_int32: "int32 k \<Longrightarrow> sint (word_of_int k :: f32) = k"
  by (simp add: sint_sbintrunc' signed_take_bit_int_eq_self int32_def int_min_def int_max_def)

lemma fast_exp_scalar:
  assumes "da3d_fastexp F E x = Some v"
  shows "fast_exp F E x = v"
proof (cases "f32_lt fexp_floor (fmul F fexp_scale x)")
  case True
  define b where "b = f_to_int E (fmul F fexp_scale x) + 1065353216"
  have b: "int32 b" and v: "v = (if b \<le> 0 then f32_zero else word_of_int b)"
    using assms True by (auto simp: da3d_fastexp_def Let_def b_def split: if_splits)
  have w: "word_of_int (f_to_int E (fmul F fexp_scale x)) + 1065353216 = (word_of_int b :: f32)" by (simp add: b_def)
  show ?thesis using True v by (auto simp: fast_exp_def Let_def w sint_of_int32 [OF b] f32_zero_def)
next
  case False
  then show ?thesis using assms by (simp add: fast_exp_def da3d_fastexp_def Let_def f32_zero_def)
qed

subsection \<open>One frequency at a time\<close>

text \<open>
  The reference: \<open>Y'\<close> at \<open>(a, b)\<close>. A frequency of a mirrored row (\<open>negrow a < a\<close>) is computed
  with the operands of its mirror image, which is what keeps \<open>K\<close> symmetric.
\<close>

definition mirror_col :: "int \<Rightarrow> int" where "mirror_col b = (64 - b) mod 64"

definition shrunk :: "farith \<Rightarrow> fexp \<Rightarrow> f32 \<Rightarrow> f32 cbuf \<Rightarrow> int \<Rightarrow> int \<Rightarrow> f32 \<times> f32" where
  "shrunk F E coef z a b =
     (let (a0, b0) = (if negrow a < a then (negrow a, mirror_col b) else (a, b));
          zr = fst z (a0 * 64 + b0); zi = snd z (a0 * 64 + b0);
          qr = fst z (negrow a0 * 64 + mirror_col b0); qi = snd z (negrow a0 * 64 + mirror_col b0);
          K = (if a0 = 0 \<and> b0 = 0 then f32_one else shrink_factor F E coef zr zi qr qi)
      in (fmul F K (fmul F f32_half (fadd F zr qr)), fmul F K (fmul F f32_half (if negrow a < a then fsub F qi zi else fsub F zi qi))))"

definition shrink_add :: "farith \<Rightarrow> bool \<Rightarrow> f32 \<times> f32 \<Rightarrow> f32 \<times> f32 \<Rightarrow> f32 \<times> f32" where
  "shrink_add F addi y old = (if addi then (fsub F (fst old) (snd y), fadd F (snd old) (fst y)) else y)"

text \<open>A routine that gives exactly the cells of \<open>A\<close> their value.\<close>

definition shrinks :: "farith \<Rightarrow> fexp \<Rightarrow> bool \<Rightarrow> f32 \<Rightarrow> f32 cbuf \<Rightarrow> (f32 cbuf \<Rightarrow> f32 cbuf) \<Rightarrow> (int \<times> int) set \<Rightarrow> bool" where
  "shrinks F E addi coef z f A \<longleftrightarrow> (\<forall>out a b. 0 \<le> b \<longrightarrow> b < 64 \<longrightarrow> cget (f out) (a * 64 + b) =
     (if (a, b) \<in> A then shrink_add F addi (shrunk F E coef z a b) (cget out (a * 64 + b)) else cget out (a * 64 + b)))"

lemma shrinks_fold:
  assumes "\<And>x. x \<in> set xs \<Longrightarrow> shrinks F E addi coef z (f x) (A x)"
    and "\<And>x y. x \<in> set xs \<Longrightarrow> y \<in> set xs \<Longrightarrow> x \<noteq> y \<Longrightarrow> A x \<inter> A y = {}" "distinct xs"
  shows "shrinks F E addi coef z (fold f xs) (\<Union>x \<in> set xs. A x)"
  using assms
proof (induction xs)
  case (Cons x xs)
  have tail: "shrinks F E addi coef z (fold f xs) (\<Union>y \<in> set xs. A y)"
    by (rule Cons.IH) (use Cons.prems in auto)
  have head: "shrinks F E addi coef z (f x) (A x)" using Cons.prems(1) by simp
  have "A x \<inter> A y = {}" if "y \<in> set xs" for y using Cons.prems(2) [of x y] Cons.prems(3) that by auto
  then have disj: "(a, b) \<in> A x \<Longrightarrow> (a, b) \<notin> (\<Union>y \<in> set xs. A y)" for a b by auto
  show ?case
    unfolding shrinks_def
  proof (intro allI impI)
    fix out a b
    assume b: "0 \<le> (b::int)" "b < 64"
    note t = tail [unfolded shrinks_def, rule_format, OF b, of "f x out" a]
    note h = head [unfolded shrinks_def, rule_format, OF b, of out a]
    show "cget (fold f (x # xs) out) (a * 64 + b) = (if (a, b) \<in> (\<Union>y \<in> set (x # xs). A y)
        then shrink_add F addi (shrunk F E coef z a b) (cget out (a * 64 + b)) else cget out (a * 64 + b))"
      using t h disj [of a b] by auto
  qed
qed (simp add: shrinks_def)

lemma shrinks_comp:
  assumes "shrinks F E addi coef z f A" "shrinks F E addi coef z g B" "A \<inter> B = {}"
  shows "shrinks F E addi coef z (\<lambda>out. g (f out)) (A \<union> B)"
  unfolding shrinks_def
proof (intro allI impI)
  fix out a b
  assume b: "0 \<le> (b::int)" "b < 64"
  note h = assms(1) [unfolded shrinks_def, rule_format, OF b, of out a] assms(2) [unfolded shrinks_def, rule_format, OF b, of "f out" a]
  show "cget (g (f out)) (a * 64 + b) = (if (a, b) \<in> A \<union> B
      then shrink_add F addi (shrunk F E coef z a b) (cget out (a * 64 + b)) else cget out (a * 64 + b))"
    using h assms(3) by auto
qed

lemma vstore_at:
  assumes "0 \<le> c" "c + N \<le> 64" "0 \<le> b" "b < 64"
  shows "vstore N (r * 64 + c) v buf (a * 64 + b) = (if a = r \<and> c \<le> b \<and> b < c + N then v (b - c) else buf (a * 64 + b))"
proof -
  have "r * 64 + c \<le> a * 64 + b \<and> a * 64 + b < r * 64 + c + N \<longleftrightarrow> a = r \<and> c \<le> b \<and> b < c + N"
  proof
    assume h: "r * 64 + c \<le> a * 64 + b \<and> a * 64 + b < r * 64 + c + N"
    then have "a \<le> r" "r \<le> a" using assms by linarith+
    then show "a = r \<and> c \<le> b \<and> b < c + N" using h by auto
  qed auto
  then show ?thesis by (auto simp: vstore_def map_span_def)
qed

text \<open>The values of a block, in terms of the reference.\<close>

definition block_values :: "farith \<Rightarrow> fexp \<Rightarrow> f32 \<Rightarrow> f32 cbuf \<Rightarrow> int \<Rightarrow> int \<Rightarrow> int \<Rightarrow> vec \<Rightarrow> vec \<Rightarrow> vec \<Rightarrow> bool" where
  "block_values F E coef z a0 N b0 ry iy iym \<longleftrightarrow> (\<forall>l. 0 \<le> l \<longrightarrow> l < N \<longrightarrow>
     (ry l, iy l) = shrunk F E coef z a0 (b0 + l) \<and>
     (a0 < negrow a0 \<longrightarrow> (ry l, iym l) = shrunk F E coef z (negrow a0) (mirror_col (b0 + l))))"

lemma negrow_involution:
  assumes "a \<in> {0..<64}"
  shows "negrow a \<in> {0..<64}" "negrow (negrow a) = a" "negrow a = 0 \<longleftrightarrow> a = 0"
proof -
  have "\<forall>a \<in> set [0..63]. negrow a \<in> {0..<64} \<and> negrow (negrow a) = a \<and> (negrow a = 0 \<longleftrightarrow> a = 0)"
    by (simp add: upto.simps rev4_def negrow_def)
  then show "negrow a \<in> {0..<64}" "negrow (negrow a) = a" "negrow a = 0 \<longleftrightarrow> a = 0" using assms by auto
qed

lemma mirror_col_simps:
  assumes "0 \<le> b" "b < 64"
  shows "mirror_col b = (if b = 0 then 0 else 64 - b)" "0 \<le> mirror_col b" "mirror_col b < 64" "mirror_col (mirror_col b) = b"
proof -
  show e: "mirror_col b = (if b = 0 then 0 else 64 - b)"
    using assms mod_pos_pos_trivial [of "64 - b" 64] unfolding mirror_col_def by auto
  show "0 \<le> mirror_col b" "mirror_col b < 64" using assms unfolding e by auto
  show "mirror_col (mirror_col b) = b"
    using assms mod_pos_pos_trivial [of b 64] unfolding e by (auto simp: mirror_col_def)
qed

lemma shrink_block_values:
  assumes a0: "a0 \<in> {0..<64}" "a0 \<le> negrow a0" and b0: "0 \<le> b0" "b0 + N \<le> 64" "dc \<longleftrightarrow> a0 = 0 \<and> b0 = 0"
    and q: "\<And>l. 0 \<le> l \<Longrightarrow> l < N \<Longrightarrow> qr l = fst z (negrow a0 * 64 + mirror_col (b0 + l)) \<and> qi l = snd z (negrow a0 * 64 + mirror_col (b0 + l))"
  obtains ry iy iym where "shrink_block F E N addi coef z qr qi dc (a0 * 64 + b0) out = (shrink_put F N addi (a0 * 64 + b0) ry iy out, ry, iym)"
    "block_values F E coef z a0 N b0 ry iy iym"
proof -
  define K0 where "K0 = (\<lambda>l. shrink_factor F E coef (vload (fst z) (a0 * 64 + b0) l) (vload (snd z) (a0 * 64 + b0) l) (qr l) (qi l))"
  define K where "K = (if dc then vinsert0 f32_one K0 else K0)"
  define ry where "ry = (\<lambda>l. fmul F (K l) (fmul F f32_half (fadd F (vload (fst z) (a0 * 64 + b0) l) (qr l))))"
  define iy where "iy = (\<lambda>l. fmul F (K l) (fmul F f32_half (fsub F (vload (snd z) (a0 * 64 + b0) l) (qi l))))"
  define iym where "iym = (\<lambda>l. fmul F (K l) (fmul F f32_half (fsub F (qi l) (vload (snd z) (a0 * 64 + b0) l))))"
  have "shrink_block F E N addi coef z qr qi dc (a0 * 64 + b0) out = (shrink_put F N addi (a0 * 64 + b0) ry iy out, ry, iym)"
    unfolding ry_def iy_def iym_def K_def K0_def shrink_block_def Let_def ..
  moreover have "block_values F E coef z a0 N b0 ry iy iym"
    unfolding block_values_def
  proof (intro allI impI conjI)
    fix l
    assume l: "0 \<le> l" "l < N"
    have b: "0 \<le> b0 + l" "b0 + l < 64" using l b0 by linarith+
    have K: "K l = (if a0 = 0 \<and> b0 + l = 0 then f32_one else K0 l)" using l b0 by (auto simp: K_def vinsert0_def)
    have zl: "vload y (a0 * 64 + b0) l = y (a0 * 64 + (b0 + l))" for y by (simp add: vload_def add.assoc)
    show "(ry l, iy l) = shrunk F E coef z a0 (b0 + l)"
      using a0(2) q [OF l] by (simp add: shrunk_def ry_def iy_def K K0_def zl Let_def)
    assume lt: "a0 < negrow a0"
    show "(ry l, iym l) = shrunk F E coef z (negrow a0) (mirror_col (b0 + l))"
      using lt q [OF l] by (simp add: shrunk_def ry_def iym_def K K0_def zl Let_def negrow_involution [OF a0(1)] mirror_col_simps(4) [OF b])
  qed
  ultimately show thesis using that by blast
qed

text \<open>The cells of the block at column \<open>b0\<close>.\<close>

definition block_area :: "int \<Rightarrow> int \<Rightarrow> int \<Rightarrow> (int \<times> int) set" where
  "block_area a0 N b0 = {(a0, b) | b. b0 \<le> b \<and> b < b0 + N} \<union>
     (if negrow a0 = a0 then {} else {(negrow a0, b) | b. 0 \<le> b \<and> b < 64 \<and> b0 \<le> mirror_col b \<and> mirror_col b < b0 + N})"

lemma put_at:
  assumes "0 \<le> c" "c + N \<le> 64" "0 \<le> b" "b < 64"
  shows "cget (shrink_put F N addi (r * 64 + c) ry iy out) (a * 64 + b) =
    (if a = r \<and> c \<le> b \<and> b < c + N then shrink_add F addi (ry (b - c), iy (b - c)) (cget out (a * 64 + b)) else cget out (a * 64 + b))"
  by (auto simp: shrink_put_def cget_def vstore_at [OF assms] shrink_add_def vload_def)

lemma shrink_next_area:
  assumes a0: "a0 \<in> {0..<64}" "a0 \<le> negrow a0" and b0: "0 < b0" "b0 + N \<le> 64" "0 < N"
  shows "shrinks F E addi coef z (shrink_next F E N addi coef z a0 (negrow a0) b0) (block_area a0 N b0)"
  unfolding shrinks_def
proof (intro allI impI)
  fix out a b
  assume b: "0 \<le> (b::int)" "b < 64"
  let ?na = "negrow a0"
  define c where "c = 64 - b0 - N + 1"
  have c: "0 \<le> c" "c + N \<le> 64" using b0 by (simp_all add: c_def)
  have o1: "?na * 64 + 64 - b0 - N + 1 = ?na * 64 + c" by (simp add: c_def)
  have mc: "mirror_col (b0 + l) = 64 - b0 - l" if "0 \<le> l" "l < N" for l
    using that b0 mirror_col_simps(1) [of "b0 + l"] by simp
  have q: "vreverse N (vload y (?na * 64 + c)) l = y (?na * 64 + mirror_col (b0 + l))" if "0 \<le> l" "l < N" for y l
    unfolding mc [OF that] by (simp add: vreverse_def vload_def c_def algebra_simps)
  obtain ry iy iym where sb: "shrink_block F E N addi coef z (vreverse N (vload (fst z) (?na * 64 + c))) (vreverse N (vload (snd z) (?na * 64 + c))) False (a0 * 64 + b0) out =
      (shrink_put F N addi (a0 * 64 + b0) ry iy out, ry, iym)" and v: "block_values F E coef z a0 N b0 ry iy iym"
    by (rule shrink_block_values [OF a0, where ?b0.0 = b0 and N = N and dc = False and z = z and qr = "vreverse N (vload (fst z) (?na * 64 + c))"
        and qi = "vreverse N (vload (snd z) (?na * 64 + c))"]) (use b0 q in auto)
  note va = v [unfolded block_values_def, rule_format]
  have prim: "(ry (b - b0), iy (b - b0)) = shrunk F E coef z a0 b" if "b0 \<le> b" "b < b0 + N"
    using va [of "b - b0"] that by simp
  have mir: "(vreverse N ry (b - c), vreverse N iym (b - c)) = shrunk F E coef z ?na b" if "c \<le> b" "b < c + N" "a0 < ?na"
  proof -
    have l: "0 \<le> N - 1 - (b - c)" "N - 1 - (b - c) < N" "b0 + (N - 1 - (b - c)) = 64 - b" using that by (auto simp: c_def)
    have "mirror_col (64 - b) = b" using mirror_col_simps(1) [of "64 - b"] that b0 by (simp add: c_def)
    then show ?thesis using va [OF l(1,2)] that(3) by (simp add: vreverse_def l(3))
  qed
  have area: "c \<le> b \<and> b < c + N \<longleftrightarrow> b0 \<le> mirror_col b \<and> mirror_col b < b0 + N"
    using b b0 mirror_col_simps(1) [OF b] by (auto simp: c_def)
  have eq: "shrink_next F E N addi coef z a0 ?na b0 out = (if ?na = a0 then shrink_put F N addi (a0 * 64 + b0) ry iy out
      else shrink_put F N addi (?na * 64 + c) (vreverse N ry) (vreverse N iym) (shrink_put F N addi (a0 * 64 + b0) ry iy out))"
    by (simp only: shrink_next_def Let_def o1 sb prod.case)
  have b0': "0 \<le> b0" using b0(1) by simp
  show "cget (shrink_next F E N addi coef z a0 ?na b0 out) (a * 64 + b) = (if (a, b) \<in> block_area a0 N b0
      then shrink_add F addi (shrunk F E coef z a b) (cget out (a * 64 + b)) else cget out (a * 64 + b))"
  proof (cases "?na = a0")
    case True
    then show ?thesis unfolding eq using prim b by (auto simp: put_at [OF b0' b0(2) b] block_area_def)
  next
    case False
    then have "a0 < ?na" using a0(2) by simp
    then show ?thesis unfolding eq using False prim mir area b
      by (auto simp: put_at [OF b0' b0(2) b] put_at [OF c b] block_area_def)
  qed
qed

lemma cell_eq: "0 \<le> b \<Longrightarrow> b < 64 \<Longrightarrow> a * 64 + b = r * 64 \<longleftrightarrow> a = r \<and> b = (0::int)"
  using row_split [of a b r 0] by auto

lemma shrink_first_area:
  assumes a0: "a0 \<in> {0..<64}" "a0 \<le> negrow a0" and N: "0 < N" "N < 64"
  shows "shrinks F E addi coef z (shrink_first F E N addi coef z a0 (negrow a0)) (block_area a0 N 0)"
  unfolding shrinks_def
proof (intro allI impI)
  fix out a b
  assume b: "0 \<le> (b::int)" "b < 64"
  let ?na = "negrow a0"
  define c where "c = 64 - N"
  have c: "0 \<le> c" "c + N \<le> 64" "0 < c" using N by (simp_all add: c_def)
  have o1: "?na * 64 + 64 - N = ?na * 64 + c" by (simp add: c_def)
  let ?q = "\<lambda>y :: buffer. vinsert0 (y (?na * 64)) (vslide1up (vreverse N (vload y (?na * 64 + c))))"
  have q: "?q y l = y (?na * 64 + mirror_col (0 + l))" if "0 \<le> l" "l < N" for y l
    using that N mirror_col_simps(1) [of l] by (auto simp: vinsert0_def vslide1up_def vreverse_def vload_def c_def algebra_simps)
  obtain ry iy iym where sb: "shrink_block F E N addi coef z (?q (fst z)) (?q (snd z)) (a0 = 0) (a0 * 64 + 0) out =
      (shrink_put F N addi (a0 * 64 + 0) ry iy out, ry, iym)" and v: "block_values F E coef z a0 N 0 ry iy iym"
    by (rule shrink_block_values [OF a0, where ?b0.0 = 0 and N = N and dc = "a0 = 0" and z = z and qr = "?q (fst z)" and qi = "?q (snd z)"])
      (use N q in auto)
  note va = v [unfolded block_values_def, rule_format]
  have prim: "(ry b, iy b) = shrunk F E coef z a0 b" if "b < N" using va [of b] that b by simp
  have mir: "(ry (mirror_col b), iym (mirror_col b)) = shrunk F E coef z ?na b" if "mirror_col b < N" "a0 < ?na"
    using va [of "mirror_col b"] that mirror_col_simps(2,4) [OF b] by simp
  define p where "p = shrink_put F N addi (a0 * 64 + 0) ry iy out"
  have p: "cget p (x * 64 + b) = (if x = a0 \<and> b < N then shrink_add F addi (shrunk F E coef z a0 b) (cget out (x * 64 + b)) else cget out (x * 64 + b))" for x
  proof -
    have "0 \<le> (0::int)" "0 + N \<le> 64" using N by simp_all
    from put_at [OF this b] show ?thesis unfolding p_def using prim b by auto
  qed
  define sl where "sl = (\<lambda>v :: vec. vslide1up (vreverse N v))"
  define upd where "upd = (\<lambda>f (v :: vec) (y :: buffer). (vstore N (?na * 64 + c) (\<lambda>l. if l < 1 then vload y (?na * 64 + c) l else f (vload y (?na * 64 + c) l) (sl v l)) y))"
  have sl: "sl v (b - c) = v (mirror_col b)" if "c < b" for v
  proof -
    have m: "mirror_col b = 64 - b" using that c(3) mirror_col_simps(1) [OF b] by simp
    show ?thesis using that unfolding m by (simp add: sl_def vslide1up_def vreverse_def c_def algebra_simps)
  qed
  have upd: "((upd f v y)(?na * 64 := f (upd f v y (?na * 64)) (v 0))) (x * 64 + b) = (if x = ?na \<and> mirror_col b < N then f (y (x * 64 + b)) (v (mirror_col b)) else y (x * 64 + b))" for f v y x
  proof (cases "b = 0")
    case True
    then have "upd f v y (?na * 64) = y (?na * 64)" using vstore_at [OF c(1,2), of 0 ?na _ y ?na] c(3) by (simp add: upd_def)
    moreover have "upd f v y (x * 64 + b) = y (x * 64 + b)" using vstore_at [OF c(1,2) b] c(3) True by (simp add: upd_def)
    ultimately show ?thesis using True N by (simp add: mirror_col_def)
  next
    case False
    have "mirror_col b < N \<longleftrightarrow> c < b" using False mirror_col_simps(1) [OF b] by (auto simp: c_def)
    moreover have "upd f v y (x * 64 + b) = (if x = ?na \<and> c < b then f (y (x * 64 + b)) (v (mirror_col b)) else y (x * 64 + b))"
      using sl [of v] b unfolding upd_def vstore_at [OF c(1,2) b] by (auto simp: vload_def c_def)
    ultimately show ?thesis using False by (simp add: cell_eq [OF b])
  qed
  have eq: "shrink_first F E N addi coef z a0 ?na out = (if ?na = a0 then p else
      if addi then ((upd (fsub F) iym (fst p))(?na * 64 := fsub F (upd (fsub F) iym (fst p) (?na * 64)) (iym 0)),
        (upd (fadd F) ry (snd p))(?na * 64 := fadd F (upd (fadd F) ry (snd p) (?na * 64)) (ry 0)))
      else ((upd (\<lambda>_ v. v) ry (fst p))(?na * 64 := ry 0), (upd (\<lambda>_ v. v) iym (snd p))(?na * 64 := iym 0)))"
  proof -
    have "shrink_block F E N addi coef z (?q (fst z)) (?q (snd z)) (a0 = 0) (a0 * 64) out = (p, ry, iym)" using sb by (simp add: p_def)
    then show ?thesis unfolding shrink_first_def Let_def o1 upd_def sl_def by (simp only: prod.case)
  qed
  show "cget (shrink_first F E N addi coef z a0 ?na out) (a * 64 + b) = (if (a, b) \<in> block_area a0 N 0
      then shrink_add F addi (shrunk F E coef z a b) (cget out (a * 64 + b)) else cget out (a * 64 + b))"
  proof (cases "?na = a0")
    case True
    then show ?thesis unfolding eq using b by (auto simp: p block_area_def)
  next
    case False
    then have lt: "a0 < ?na" using a0(2) by simp
    have "cget (shrink_first F E N addi coef z a0 ?na out) (a * 64 + b) =
      (if a = ?na \<and> mirror_col b < N then shrink_add F addi (ry (mirror_col b), iym (mirror_col b)) (cget p (a * 64 + b)) else cget p (a * 64 + b))"
      using False upd [of "\<lambda>_ v. v"] upd [of "fsub F"] upd [of "fadd F"]
      unfolding eq by (simp add: cget_def shrink_add_def del: fun_upd_apply)
    then show ?thesis using False lt mir b mirror_col_simps(2) [OF b] by (auto simp: p block_area_def)
  qed
qed

subsection \<open>A channel\<close>

lemma multiples_distinct: "0 < N \<Longrightarrow> distinct (map (\<lambda>k. k * N) [1..64 div N - 1 :: int])"
  by (auto simp: distinct_map inj_on_def)

text \<open>The columns of a row by blocks.\<close>

lemma block_of:
  fixes b :: int
  assumes N: "0 < N" "N * (64 div N) = 64" and b: "0 \<le> b" "b < 64"
  shows "(b < N \<or> (\<exists>k \<in> set [1..64 div N - 1]. k * N \<le> b \<and> b < k * N + N))"
proof -
  have m: "b div N \<in> set [0..64 div N - 1] \<and> N * (b div N) \<le> b \<and> b < N * (b div N) + N" by (rule block_member [OF N b])
  show ?thesis
  proof (cases "b div N = 0")
    case False
    then have "b div N \<in> set [1..64 div N - 1]" using m by auto
    then show ?thesis using m by (intro disjI2 bexI [of _ "b div N"]) (simp_all add: mult.commute)
  qed (use m in simp)
qed

lemma shrink_row_area:
  assumes a0: "a0 \<in> {0..<64}" and N: "0 < N" "N < 64" "N * (64 div N) = 64"
  shows "shrinks F E addi coef z (shrink_row F E N addi coef z a0) {(a, b). 0 \<le> b \<and> b < 64 \<and> a0 \<le> negrow a0 \<and> (a = a0 \<or> a = negrow a0)}"
proof (cases "negrow a0 < a0")
  case True
  then show ?thesis by (simp add: shrinks_def shrink_row_def)
next
  case False
  then have le: "a0 \<le> negrow a0" by simp
  let ?xs = "map (\<lambda>k. k * N) [1..64 div N - 1]"
  have x: "0 < x \<and> x + N \<le> 64 \<and> N \<le> x" if xin: "x \<in> set ?xs" for x
  proof -
    obtain k where "x = k * N" "k \<in> set [1..64 div N - 1]" using xin unfolding set_map by blast
    then have k: "x = k * N" "1 \<le> k" "k + 1 \<le> 64 div N" by auto
    have "(k + 1) * N \<le> (64 div N) * N" "1 * N \<le> k * N" using k(2,3) N(1) by (intro mult_right_mono; simp)+
    then show ?thesis using k(1) N by (simp add: algebra_simps)
  qed
  have apart: "b < x + N \<Longrightarrow> x \<le> b \<Longrightarrow> b < y + N \<Longrightarrow> y \<le> b \<Longrightarrow> x = y" if xy: "x \<in> set ?xs" "y \<in> set ?xs" for x y b
  proof -
    assume h: "b < x + N" "x \<le> b" "b < y + N" "y \<le> b"
    obtain k m where km: "x = k * N" "y = m * N" using xy unfolding set_map by blast
    have "k * N < (m + 1) * N" "m * N < (k + 1) * N" using h unfolding km by (simp_all add: algebra_simps)
    then have "k < m + 1" "m < k + 1" using N(1) by simp_all
    then show "x = y" by (simp add: km)
  qed
  have "shrinks F E addi coef z (fold (shrink_next F E N addi coef z a0 (negrow a0)) ?xs) (\<Union>x \<in> set ?xs. block_area a0 N x)"
  proof (rule shrinks_fold)
    show "shrinks F E addi coef z (shrink_next F E N addi coef z a0 (negrow a0) x) (block_area a0 N x)" if "x \<in> set ?xs" for x
      using shrink_next_area [OF a0 le] x [OF that] N by simp
    show "block_area a0 N x \<inter> block_area a0 N y = {}" if "x \<in> set ?xs" "y \<in> set ?xs" "x \<noteq> y" for x y
      using apart [OF that(1,2)] that(3) by (auto simp: block_area_def split: if_splits)
    show "distinct ?xs" by (rule multiples_distinct [OF N(1)])
  qed
  moreover have "block_area a0 N 0 \<inter> (\<Union>x \<in> set ?xs. block_area a0 N x) = {}"
    using x by (fastforce simp: block_area_def split: if_splits)
  moreover note shrink_first_area [OF a0 le N(1,2)]
  ultimately have "shrinks F E addi coef z (\<lambda>out. fold (shrink_next F E N addi coef z a0 (negrow a0)) ?xs (shrink_first F E N addi coef z a0 (negrow a0) out))
      (block_area a0 N 0 \<union> (\<Union>x \<in> set ?xs. block_area a0 N x))" by (intro shrinks_comp)
  moreover have "block_area a0 N 0 \<union> (\<Union>x \<in> set ?xs. block_area a0 N x) = {(a, b). 0 \<le> b \<and> b < 64 \<and> a0 \<le> negrow a0 \<and> (a = a0 \<or> a = negrow a0)}"
  proof (intro set_eqI iffI)
    fix p :: "int \<times> int"
    assume "p \<in> block_area a0 N 0 \<union> (\<Union>x \<in> set ?xs. block_area a0 N x)"
    then obtain x where "p \<in> block_area a0 N x" "0 \<le> x \<and> x + N \<le> 64" using x N by fastforce
    then show "p \<in> {(a, b). 0 \<le> b \<and> b < 64 \<and> a0 \<le> negrow a0 \<and> (a = a0 \<or> a = negrow a0)}"
      using le by (auto simp: block_area_def split: if_splits)
  next
    fix p :: "int \<times> int"
    assume "p \<in> {(a, b). 0 \<le> b \<and> b < 64 \<and> a0 \<le> negrow a0 \<and> (a = a0 \<or> a = negrow a0)}"
    then obtain a b where p: "p = (a, b)" "0 \<le> b" "b < 64" "a = a0 \<or> a = negrow a0" by auto
    show "p \<in> block_area a0 N 0 \<union> (\<Union>x \<in> set ?xs. block_area a0 N x)"
    proof (cases "a = a0")
      case True
      then show ?thesis using block_of [OF N(1,3) p(2,3)] p by (auto simp: block_area_def)
    next
      case False
      then show ?thesis using block_of [OF N(1,3) mirror_col_simps(2,3) [OF p(2,3)]] p mirror_col_simps(2) [OF p(2,3)] by (auto simp: block_area_def)
    qed
  qed
  moreover have "shrink_row F E N addi coef z a0 = (\<lambda>out. fold (shrink_next F E N addi coef z a0 (negrow a0)) ?xs (shrink_first F E N addi coef z a0 (negrow a0) out))"
    using False by (simp add: fun_eq_iff shrink_row_def Let_def)
  ultimately show ?thesis by (simp only:)
qed

text \<open>
  C23. The vectorized shrinkage computes every frequency as the reference does, for every width
  of the vectors: \<open>Y'\<close> is written, or \<open>i Y'\<close> added, exactly once at each of the 4096 cells.
\<close>

theorem shrink_channel_exact:
  assumes "N \<in> {1, 2, 4, 8, 16}" "0 \<le> a" "a < 64" "0 \<le> b" "b < 64"
  shows "cget (shrink_channel F E N addi z coef out) (a * 64 + b) =
    shrink_add F addi (shrunk F E coef z a b) (cget out (a * 64 + b))"
proof -
  have N: "0 < N" "N < 64" "N * (64 div N) = 64" using assms(1) by auto
  let ?A = "\<lambda>a0. {(a, b). 0 \<le> b \<and> b < 64 \<and> a0 \<le> negrow a0 \<and> (a = a0 \<or> a = negrow a0)} :: (int \<times> int) set"
  have all: "shrinks F E addi coef z (fold (shrink_row F E N addi coef z) [0..63]) (\<Union>x \<in> set [0..63]. ?A x)"
  proof (rule shrinks_fold)
    show "shrinks F E addi coef z (shrink_row F E N addi coef z x) (?A x)" if "x \<in> set [0..63]" for x
      by (rule shrink_row_area [OF _ N]) (use that in auto)
    show "?A x \<inter> ?A y = {}" if "x \<in> set [0..63]" "y \<in> set [0..63]" "x \<noteq> y" for x y
      using that negrow_involution(2) [of x] negrow_involution(2) [of y] by auto
  qed simp
  have "(a, b) \<in> (\<Union>x \<in> set [0..63]. ?A x)"
  proof (cases "a \<le> negrow a")
    case True
    then show ?thesis using assms by (intro UN_I [of a]) auto
  next
    case False
    then show ?thesis using assms negrow_involution [of a] by (intro UN_I [of "negrow a"]) auto
  qed
  then show ?thesis using all [unfolded shrinks_def, rule_format, OF assms(4,5), of out a] by (simp only: shrink_channel_def if_True)
qed

theorem shrink_channel_exact_witness:
  "cget (shrink_channel example_arith \<lparr>f_rint = (\<lambda>v. v), f_to_int = sint\<rparr> 8 True (\<lambda>_. 3, \<lambda>_. 5) 2 (\<lambda>_. 1, \<lambda>_. 1)) (0 * 64 + 0) =
    shrink_add example_arith True (shrunk example_arith \<lparr>f_rint = (\<lambda>v. v), f_to_int = sint\<rparr> 2 (\<lambda>_. 3, \<lambda>_. 5) 0 0) (1, 1)"
  by (subst shrink_channel_exact) (simp_all add: cget_def)

end
