(* ===== verification/Da3d_Patch.thy ===== *)
theory Da3d_Patch
  imports Da3d_Shrink
begin

text \<open>
  A patch of DA3D (\<open>Tables\<close>, \<open>LaneSums\<close>, \<open>Bilateral\<close>, \<open>TileContext\<close> and \<open>ProcessPatch\<close> of
  src/cpu/da3d/da3d.cpp): the regression plane, the bilateral weights, the shrinkage of the
  spectrum and the aggregation into the sums of the tile. The working arrays of a patch are
  written before they are read, so they are values here, except \<open>k\<close>, which the caller reads.
\<close>

subsection \<open>Constants and tables\<close>

definition kDa3dArea :: int where "kDa3dArea = kDa3dPatch * kDa3dPatch"
definition kDa3dCenter :: int where "kDa3dCenter = kDa3dRadius * kDa3dPatch + kDa3dRadius"
definition kDa3dSigmaS :: f32 where "kDa3dSigmaS = 0x41600000"
definition kDa3dGammaR :: f32 where "kDa3dGammaR = 0x3f333333"
definition kDa3dGammaF :: f32 where "kDa3dGammaF = 0x3f4ccccd"
definition kDa3dGuideOnlyMass :: f32 where "kDa3dGuideOnlyMass = 0x41200000"
definition kDa3dRegressionRangeScale :: f32 where "kDa3dRegressionRangeScale = 0x41200000"
definition kDa3dRegressionSpatialScale :: f32 where "kDa3dRegressionSpatialScale = 0x40000000"
definition kDa3dRegressionEpsilon :: f32 where "kDa3dRegressionEpsilon = 0x38d1b717"

text \<open>Element \<open>i\<close> of a patch: its offsets from the center and the distances.\<close>

definition patch_row :: "int \<Rightarrow> int" where "patch_row i = i div kDa3dPatch - kDa3dRadius"
definition patch_col :: "int \<Rightarrow> int" where "patch_col i = i mod kDa3dPatch - kDa3dRadius"

definition tab_rr :: "farith \<Rightarrow> buffer" where "tab_rr F i = f_of_int F (patch_row i)"
definition tab_cc :: "farith \<Rightarrow> buffer" where "tab_cc F i = f_of_int F (patch_col i)"
definition tab_rr2 :: "farith \<Rightarrow> buffer" where "tab_rr2 F i = f_of_int F (patch_row i * patch_row i)"
definition tab_rc :: "farith \<Rightarrow> buffer" where "tab_rc F i = f_of_int F (patch_row i * patch_col i)"
definition tab_cc2 :: "farith \<Rightarrow> buffer" where "tab_cc2 F i = f_of_int F (patch_col i * patch_col i)"

definition tab_dist :: "farith \<Rightarrow> f32 \<Rightarrow> buffer" where
  "tab_dist F sigma2 i =
     fdiv F (f_of_int F (patch_row i * patch_row i + patch_col i * patch_col i)) (fmul F (f_of_int F 2) sigma2)"

definition tab_dist_k :: "farith \<Rightarrow> buffer" where
  "tab_dist_k F = tab_dist F (fmul F kDa3dSigmaS kDa3dSigmaS)"

definition tab_dist_reg :: "farith \<Rightarrow> buffer" where
  "tab_dist_reg F = tab_dist F (fmul F (fmul F kDa3dSigmaS kDa3dSigmaS) kDa3dRegressionSpatialScale)"

subsection \<open>Sums and weights\<close>

text \<open>
  A sum over the patch: lane \<open>l\<close> takes the terms \<open>l\<close>, \<open>l + 32\<close>, ... in order, then the lanes
  are added by halving; \<open>term\<close> adds the term of an element.
\<close>

definition patch_sum :: "farith \<Rightarrow> (int \<Rightarrow> f32 \<Rightarrow> f32) \<Rightarrow> f32" where
  "patch_sum F addterm =
     lane_sum F 32 (\<lambda>l. fold (\<lambda>j. addterm (32 * j + l)) [0..kDa3dArea div 32 - 1] f32_zero)"

text \<open>\<open>Bilateral\<close> of one element: \<open>g\<close> gives its value in each channel.\<close>

definition bilateral :: "farith \<Rightarrow> fexp \<Rightarrow> int \<Rightarrow> (int \<Rightarrow> f32) \<Rightarrow> (int \<Rightarrow> f32) \<Rightarrow> f32 \<Rightarrow> f32 \<Rightarrow> f32" where
  "bilateral F E C g center vinv spatial =
     (let e = fsub F (g 0) (center 0);
          x = fold (\<lambda>c x. let e = fsub F (g c) (center c) in ffma F e e x) [1..C - 1] (fmul F e e)
      in fast_exp F E (f32_negate (ffma F x vinv spatial)))"

definition f32_abs :: "f32 \<Rightarrow> f32" where "f32_abs v = v AND 0x7fffffff"

subsection \<open>The tile\<close>

record da3d_tile =
  dt_channels :: int
  dt_sigma2 :: f32
  dt_noisy :: "int \<Rightarrow> buffer"
  dt_guide :: "int \<Rightarrow> buffer"
  dt_num :: "int \<Rightarrow> buffer"
  dt_den :: buffer
  dt_stride :: int
  dt_patches :: int
  dt_guide_only :: int

text \<open>The target: arithmetic, conversions, lanes, transposition and the table of twiddles.\<close>

record da3d_target =
  da_arith :: farith
  da_exp :: fexp
  da_lanes :: int
  da_arm :: transpose_arm
  da_twiddles :: "int \<Rightarrow> f32 \<times> f32"

text \<open>Where element \<open>i\<close> of the patch at \<open>(pr, pc)\<close> lies in the tile.\<close>

definition patch_at :: "da3d_tile \<Rightarrow> int \<Rightarrow> int \<Rightarrow> int \<Rightarrow> int" where
  "patch_at t pr pc i = (pr * dt_stride t + pc) + (i div kDa3dPatch * dt_stride t + i mod kDa3dPatch)"

text \<open>The weighted moments, and the slopes of the plane of a channel.\<close>

definition plane_slopes :: "farith \<Rightarrow> f32 \<Rightarrow> f32 \<Rightarrow> f32 \<Rightarrow> f32 \<Rightarrow> f32 \<Rightarrow> f32 \<times> f32" where
  "plane_slopes F a b cq de0 de1 =
     (let det = fsub F (fmul F a cq) (fmul F b b)
      in if f32_lt (f32_abs det) kDa3dRegressionEpsilon then (f32_zero, f32_zero)
         else (fdiv F (fsub F (fmul F cq de0) (fmul F b de1)) det, fdiv F (fsub F (fmul F a de1) (fmul F b de0)) det))"

definition regression :: "farith \<Rightarrow> fexp \<Rightarrow> da3d_tile \<Rightarrow> int \<Rightarrow> int \<Rightarrow> int \<Rightarrow> f32 \<times> f32" where
  "regression F E t pr pc =
     (let C = dt_channels t; cell = patch_at t pr pc;
          center = (\<lambda>c. dt_guide t c (cell kDa3dCenter));
          vinv = fdiv F f32_one (fmul F (fmul F kDa3dGammaR (dt_sigma2 t)) kDa3dRegressionRangeScale);
          kv = (\<lambda>i. bilateral F E C (\<lambda>c. dt_guide t c (cell i)) center vinv (tab_dist_reg F i));
          a = patch_sum F (\<lambda>i. ffma F (tab_rr2 F i) (kv i));
          b = patch_sum F (\<lambda>i. ffma F (tab_rc F i) (kv i));
          cq = patch_sum F (\<lambda>i. ffma F (tab_cc2 F i) (kv i));
          v = (\<lambda>c i. fsub F (dt_noisy t c (cell i)) (center c))
      in (\<lambda>c. plane_slopes F a b cq
           (patch_sum F (\<lambda>i. ffma F (fmul F (tab_rr F i) (v c i)) (kv i)))
           (patch_sum F (\<lambda>i. ffma F (fmul F (tab_cc F i) (v c i)) (kv i)))))"

text \<open>The plane of a channel at element \<open>i\<close>.\<close>

definition plane_value :: "farith \<Rightarrow> (int \<Rightarrow> f32 \<times> f32) \<Rightarrow> int \<Rightarrow> int \<Rightarrow> f32" where
  "plane_value F slopes c i = ffma F (snd (slopes c)) (tab_cc F i) (fmul F (fst (slopes c)) (tab_rr F i))"

text \<open>The bilateral weight of element \<open>i\<close> of the patch less its plane.\<close>

definition patch_weight :: "farith \<Rightarrow> fexp \<Rightarrow> da3d_tile \<Rightarrow> int \<Rightarrow> int \<Rightarrow> buffer" where
  "patch_weight F E t pr pc =
     (let slopes = regression F E t pr pc; cell = patch_at t pr pc;
          center2 = (\<lambda>c. fsub F (dt_guide t c (cell kDa3dCenter)) (plane_value F slopes c kDa3dCenter));
          vinv = fdiv F f32_one (fmul F kDa3dGammaR (dt_sigma2 t))
      in (\<lambda>i. bilateral F E (dt_channels t) (\<lambda>c. fsub F (dt_guide t c (cell i)) (plane_value F slopes c i)) center2 vinv (tab_dist_k F i)))"

text \<open>A pass over the 64 rows of a buffer of the tile.\<close>

definition patch_rows :: "da3d_tile \<Rightarrow> int \<Rightarrow> int \<Rightarrow> (int \<Rightarrow> f32 \<Rightarrow> f32) \<Rightarrow> buffer \<Rightarrow> buffer" where
  "patch_rows t pr pc f b =
     fold (\<lambda>row. map_span (pr * dt_stride t + pc + row * dt_stride t) 0 kDa3dPatch (\<lambda>col old. f (row * kDa3dPatch + col) old)) [0..kDa3dPatch - 1] b"

text \<open>\<open>(g + plane) k^2\<close> and \<open>k^2\<close>, when the mass is too small.\<close>

definition add_guide :: "farith \<Rightarrow> (int \<Rightarrow> f32 \<times> f32) \<Rightarrow> buffer \<Rightarrow> int \<Rightarrow> int \<Rightarrow> da3d_tile \<Rightarrow> da3d_tile" where
  "add_guide F slopes k pr pc t =
     (let cell = patch_at t pr pc; kk = (\<lambda>i. fmul F (k i) (k i));
          v = (\<lambda>c i. fadd F (fsub F (dt_guide t c (cell i)) (plane_value F slopes c i)) (plane_value F slopes c i))
      in t\<lparr>dt_guide_only := dt_guide_only t + 1,
           dt_num := (\<lambda>c. if 0 \<le> c \<and> c < dt_channels t then patch_rows t pr pc (\<lambda>i old. ffma F (v c i) (kk i) old) (dt_num t c) else dt_num t c),
           dt_den := patch_rows t pr pc (\<lambda>i old. fadd F old (kk i)) (dt_den t)\<rparr>)"

text \<open>
  The filtered branch: \<open>y_m\<close> and \<open>g_m\<close> are packed as \<open>y_m + i g_m\<close> and transformed, the
  spectra of channels 0 and 1 are shrunk into one array (the second times \<open>i\<close>), that of
  channel 2 into another, and the results of the inverse transforms are read in the order of
  their rows. \<open>blank\<close> stands for the old contents of an array, all of which is overwritten.
\<close>

definition blank :: "f32 cbuf" where "blank = (\<lambda>_. f32_zero, \<lambda>_. f32_zero)"

definition spectral_filter :: "da3d_target \<Rightarrow> int \<Rightarrow> (int \<Rightarrow> f32 cbuf) \<Rightarrow> f32 \<Rightarrow> int \<Rightarrow> buffer" where
  "spectral_filter T C packed coef =
     (let F = da_arith T; E = da_exp T; N = da_lanes T; A = f32_ops F; tw = da_twiddles T; arm = da_arm T;
          z = (\<lambda>c. snd (forward2 A tw arm (packed c) blank));
          w0 = shrink_channel F E N False (z 0) coef blank;
          w0 = (if C = 3 then shrink_channel F E N True (z 1) coef w0 else w0);
          (w0, out) = inverse2 A tw arm w0 blank;
          y2 = (if C = 3 then fst (snd (inverse2 A tw arm (shrink_channel F E N False (z 2) coef blank) w0)) else fst w0)
      in (\<lambda>c. if c = 0 then fst out else if c = 1 then snd out else y2))"

definition add_filtered :: "da3d_target \<Rightarrow> (int \<Rightarrow> f32 \<times> f32) \<Rightarrow> buffer \<Rightarrow> f32 \<Rightarrow> int \<Rightarrow> int \<Rightarrow> da3d_tile \<Rightarrow> da3d_tile" where
  "add_filtered T slopes k mass pr pc t =
     (let F = da_arith T; C = dt_channels t; cell = patch_at t pr pc;
          plane = plane_value F slopes;
          y = (\<lambda>c i. fsub F (dt_noisy t c (cell i)) (plane c i));
          g = (\<lambda>c i. fsub F (dt_guide t c (cell i)) (plane c i));
          avg = (\<lambda>c. fdiv F (patch_sum F (\<lambda>i. ffma F (k i) (y c i))) mass);
          gavg = (\<lambda>c. fdiv F (patch_sum F (\<lambda>i. ffma F (k i) (g c i))) mass);
          rest = (\<lambda>i. fsub F f32_one (k i));
          packed = (\<lambda>c. (\<lambda>i. ffma F (k i) (y c i) (fmul F (rest i) (avg c)), \<lambda>i. ffma F (k i) (g c i) (fmul F (rest i) (gavg c))));
          sigma_f2 = fmul F (patch_sum F (\<lambda>i. ffma F (k i) (k i))) (dt_sigma2 t);
          yout = spectral_filter T C packed (fmul F (f32_negate kDa3dGammaF) sigma_f2);
          inv_n = fdiv F f32_one (f_of_int F kDa3dArea);
          v = (\<lambda>c i. ffma F (plane c i) (k i)
                (fsub F (fmul F (yout c (rev4 (i div kDa3dPatch) * kDa3dPatch + i mod kDa3dPatch)) inv_n) (fmul F (rest i) (avg c))))
      in t\<lparr>dt_num := (\<lambda>c. if 0 \<le> c \<and> c < C then patch_rows t pr pc (\<lambda>i old. ffma F (v c i) (k i) old) (dt_num t c) else dt_num t c),
           dt_den := patch_rows t pr pc (\<lambda>i old. fadd F old (fmul F (k i) (k i))) (dt_den t)\<rparr>)"

text \<open>\<open>ProcessPatch\<close>: the tile, and \<open>k^2\<close>, which the loop adds to the weight map.\<close>

definition process_patch :: "da3d_target \<Rightarrow> int \<Rightarrow> int \<Rightarrow> da3d_tile \<Rightarrow> da3d_tile \<times> buffer" where
  "process_patch T pr pc t =
     (let F = da_arith T; E = da_exp T;
          slopes = regression F E t pr pc;
          k = patch_weight F E t pr pc;
          mass = patch_sum F (\<lambda>i acc. fadd F acc (k i));
          t = t\<lparr>dt_patches := dt_patches t + 1\<rparr>;
          t = (if f32_lt mass kDa3dGuideOnlyMass then add_guide F slopes k pr pc t else add_filtered T slopes k mass pr pc t)
      in (t, \<lambda>i. fmul F (k i) (k i)))"

subsection \<open>What a patch leaves\<close>

text \<open>The fields of the tile that no patch changes.\<close>

definition same_tile :: "da3d_tile \<Rightarrow> da3d_tile \<Rightarrow> bool" where
  "same_tile t t' \<longleftrightarrow> dt_channels t' = dt_channels t \<and> dt_sigma2 t' = dt_sigma2 t \<and> dt_noisy t' = dt_noisy t \<and>
     dt_guide t' = dt_guide t \<and> dt_stride t' = dt_stride t"

lemma same_tile_refl [simp]: "same_tile t t" and same_tile_trans: "same_tile t u \<Longrightarrow> same_tile u v \<Longrightarrow> same_tile t v"
  by (simp_all add: same_tile_def)

lemma same_tile_weight: "same_tile t t' \<Longrightarrow> patch_weight F E t' pr pc = patch_weight F E t pr pc"
  and same_tile_regression: "same_tile t t' \<Longrightarrow> regression F E t' pr pc = regression F E t pr pc"
  by (simp_all add: same_tile_def patch_weight_def regression_def patch_at_def Let_def)

lemma patch_rows_same: "same_tile t t' \<Longrightarrow> patch_rows t' = patch_rows t"
  by (simp add: fun_eq_iff same_tile_def patch_rows_def)

text \<open>Both branches add \<open>k^2\<close> to the denominators.\<close>

lemma process_patch_result:
  assumes "process_patch T pr pc t = (t', kk)"
  defines "k \<equiv> patch_weight (da_arith T) (da_exp T) t pr pc"
  shows "same_tile t t'" "dt_patches t' = dt_patches t + 1" "kk = (\<lambda>i. fmul (da_arith T) (k i) (k i))"
    "dt_den t' = patch_rows t pr pc (\<lambda>i old. fadd (da_arith T) old (kk i)) (dt_den t)"
proof -
  let ?u = "t\<lparr>dt_patches := dt_patches t + 1\<rparr>"
  have rows: "patch_rows ?u = patch_rows t" by (intro patch_rows_same) (simp add: same_tile_def)
  show "kk = (\<lambda>i. fmul (da_arith T) (k i) (k i))" using assms by (auto simp: process_patch_def Let_def)
  then show "same_tile t t'" "dt_patches t' = dt_patches t + 1"
    "dt_den t' = patch_rows t pr pc (\<lambda>i old. fadd (da_arith T) old (kk i)) (dt_den t)"
    using assms by (auto simp: process_patch_def Let_def same_tile_def add_guide_def add_filtered_def rows split: if_splits)
qed

text \<open>The element of a patch a cell of the tile belongs to.\<close>

lemma patch_rows_at:
  assumes pc: "0 \<le> pc" "pc + kDa3dPatch \<le> dt_stride t" and x: "0 \<le> pc + x" "pc + x < dt_stride t"
  shows "patch_rows t pr pc f b ((pr + y) * dt_stride t + (pc + x)) =
    (if 0 \<le> y \<and> y < kDa3dPatch \<and> 0 \<le> x \<and> x < kDa3dPatch then f (y * kDa3dPatch + x) (b ((pr + y) * dt_stride t + (pc + x)))
     else b ((pr + y) * dt_stride t + (pc + x)))"
proof -
  define S where "S = dt_stride t"
  have S: "pc + kDa3dPatch \<le> S" "pc + x < S" using assms by (simp_all add: S_def)
  let ?i = "(pr + y) * S + (pc + x)"
  have row: "map_span (pr * S + pc + row * S) 0 kDa3dPatch (\<lambda>col old. f (row * kDa3dPatch + col) old) b ?i =
      (if row = y \<and> 0 \<le> x \<and> x < kDa3dPatch then f (y * kDa3dPatch + x) (b ?i) else b ?i)"
    for row b
  proof -
    let ?g = "\<lambda>col old. f (row * kDa3dPatch + col) old"
    have span: "map_span o1 0 kDa3dPatch ?g b ?i = (if 0 \<le> ?i - o1 \<and> ?i - o1 < kDa3dPatch then ?g (?i - o1) (b ?i) else b ?i)" for o1
      by (auto simp: map_span_def)
    have d: "?i - (pr * S + pc + row * S) = (y - row) * S + x" by (simp add: algebra_simps)
    have "row = y" if h: "0 \<le> (y - row) * S + x" "(y - row) * S + x < kDa3dPatch"
    proof -
      have s: "0 < S" using S(1) pc(1) by (simp add: kDa3dPatch_def)
      have "(y - row) * S < 1 * S" "(- 1) * S < (y - row) * S" using h S x(1) pc(1) by linarith+
      then have "y - row < 1" "- 1 < y - row" using s unfolding mult_less_cancel_right by auto
      then show ?thesis by simp
    qed
    then show ?thesis unfolding span d by (cases "row = y") auto
  qed
  have "fold (\<lambda>row. map_span (pr * S + pc + row * S) 0 kDa3dPatch (\<lambda>col old. f (row * kDa3dPatch + col) old)) rows b ?i =
      (if y \<in> set rows \<and> 0 \<le> x \<and> x < kDa3dPatch then f (y * kDa3dPatch + x) (b ?i) else b ?i)"
    if "distinct rows" for rows
    using that
  proof (induction rows arbitrary: b)
    case (Cons r rows)
    then show ?case by (auto simp: row)
  qed simp
  from this [of "[0..kDa3dPatch - 1]"] show ?thesis unfolding patch_rows_def S_def by auto
qed

end
