(* ===== verification/Da3d_Ends.thy ===== *)
theory Da3d_Ends
  imports Da3d_Patch
begin

text \<open>
  The loop over the patches of a tile ends. What the proof needs of the arithmetic is a few
  rules of IEEE 754 about signs and zeros (\<open>ieee_rules\<close>), and of the tile that the values at the
  centers of its patches, less the regression plane, are finite.
\<close>

subsection \<open>Signs\<close>

text \<open>A value that is not negative, or is a NaN.\<close>

definition nonneg :: "f32 \<Rightarrow> bool" where "nonneg v \<longleftrightarrow> weight_ok v \<or> f32_nan v"

definition f32_nzero :: f32 where "f32_nzero = f32_negate f32_zero"

definition ieee_rules :: "farith \<Rightarrow> fexp \<Rightarrow> bool" where
  "ieee_rules F E \<longleftrightarrow>
     (f_of_int F 0 = f32_zero \<and> f_of_int F 2 = 0x40000000 \<and> (\<forall>n \<ge> 0. weight_ok (f_of_int F n))) \<and>
     (\<forall>v. is_finite_bits v \<longrightarrow> fsub F v v = f32_zero) \<and>
     (fmul F f32_zero f32_zero = f32_zero \<and> fmul F f32_one f32_one = f32_one \<and> fmul F fexp_scale f32_nzero = f32_nzero \<and>
      fmul F kDa3dSigmaS kDa3dSigmaS = 0x43440000 \<and> fmul F 0x40000000 0x43440000 = 0x43c40000) \<and>
     (\<forall>v. nonneg (fmul F v v) \<and> (weight_ok v \<and> f32_key v \<le> f32_key f32_one \<longrightarrow> weight_ok (fmul F v v))) \<and>
     (\<forall>v. f32_nan v \<longrightarrow> f32_nan (fmul F fexp_scale v)) \<and>
     (\<forall>v. f32_neg v \<longrightarrow> f32_neg (fmul F fexp_scale v) \<or> f32_nan (fmul F fexp_scale v)) \<and>
     (\<forall>v x. nonneg x \<longrightarrow> nonneg (ffma F v v x)) \<and>
     (\<forall>x y z. nonneg x \<and> weight_ok y \<and> weight_ok z \<longrightarrow> nonneg (ffma F x y z)) \<and>
     (\<forall>y. weight_ok y \<and> is_finite_bits y \<longrightarrow> ffma F f32_zero y f32_zero = f32_zero) \<and>
     (\<forall>a. weight_ok a \<longrightarrow> weight_ok (fdiv F a 0x43c40000)) \<and> fdiv F f32_zero 0x43c40000 = f32_zero \<and>
     (\<forall>v. f32_neg v \<and> f32_lt fexp_floor v \<longrightarrow> - 1065353216 \<le> f_to_int E v \<and> f_to_int E v \<le> 0) \<and> f_to_int E f32_nzero = 0"

lemma ieeeD:
  assumes "ieee_rules F E"
  shows "f_of_int F 0 = f32_zero" "f_of_int F 2 = 0x40000000" "0 \<le> n \<Longrightarrow> weight_ok (f_of_int F n)"
    "is_finite_bits v \<Longrightarrow> fsub F v v = f32_zero"
    "fmul F f32_zero f32_zero = f32_zero" "fmul F f32_one f32_one = f32_one" "fmul F fexp_scale f32_nzero = f32_nzero"
    "fmul F kDa3dSigmaS kDa3dSigmaS = 0x43440000" "fmul F 0x40000000 0x43440000 = 0x43c40000"
    "nonneg (fmul F v v)" "weight_ok v \<Longrightarrow> f32_key v \<le> f32_key f32_one \<Longrightarrow> weight_ok (fmul F v v)"
    "f32_nan v \<Longrightarrow> f32_nan (fmul F fexp_scale v)" "f32_neg v \<Longrightarrow> \<not> f32_nan (fmul F fexp_scale v) \<Longrightarrow> f32_neg (fmul F fexp_scale v)"
    "nonneg x \<Longrightarrow> nonneg (ffma F v v x)" "nonneg x \<Longrightarrow> weight_ok y \<Longrightarrow> weight_ok z \<Longrightarrow> nonneg (ffma F x y z)"
    "weight_ok y \<Longrightarrow> is_finite_bits y \<Longrightarrow> ffma F f32_zero y f32_zero = f32_zero"
    "weight_ok a \<Longrightarrow> weight_ok (fdiv F a 0x43c40000)" "fdiv F f32_zero 0x43c40000 = f32_zero"
    "f32_neg v \<Longrightarrow> f32_lt fexp_floor v \<Longrightarrow> - 1065353216 \<le> f_to_int E v \<and> f_to_int E v \<le> 0" "f_to_int E f32_nzero = 0"
  using assms unfolding ieee_rules_def by blast+

lemma negate_sign [simp]: "f32_nan (f32_negate v) = f32_nan v" "f32_neg (f32_negate v) \<longleftrightarrow> \<not> f32_neg v"
proof -
  have "take_bit 31 (v XOR 0x80000000) = take_bit 31 v" by (simp add: take_bit_xor)
  then show "f32_nan (f32_negate v) = f32_nan v" by (simp add: f32_nan_def f32_mag_def f32_negate_def)
  have "bit (0x80000000 :: f32) 31" by simp
  then show "f32_neg (f32_negate v) \<longleftrightarrow> \<not> f32_neg v" by (simp add: f32_neg_def f32_negate_def bit_xor_iff)
qed

lemma small_word:
  assumes "0 \<le> m" "m \<le> 0x3f800000"
  shows "weight_ok (word_of_int m)" "f32_key (word_of_int m) = m"
proof -
  have t: "take_bit 31 m = m" "take_bit 32 m = m" using assms by (simp_all add: take_bit_int_eq_self)
  have mag: "f32_mag (word_of_int m) = m" using assms by (simp add: f32_mag_def unsigned_take_bit_eq unsigned_of_int t)
  have "\<not> bit (take_bit 31 m) 31" by (simp add: bit_take_bit_iff)
  then have neg: "\<not> f32_neg (word_of_int m)" unfolding t by (simp add: f32_neg_def bit_word_of_int_iff)
  show "weight_ok (word_of_int m)" "f32_key (word_of_int m) = m"
    using mag neg assms by (simp_all add: weight_ok_def f32_nan_def f32_key_def)
qed

lemma weight_zero [simp]: "weight_ok f32_zero" "nonneg f32_zero" "is_finite_bits f32_zero"
  by (simp_all add: nonneg_def weight_ok_def f32_neg_def f32_zero_def is_finite_bits_def f32_nan_def f32_mag_def)

subsection \<open>The exponential of a value that is not positive\<close>

lemma fast_exp_range:
  assumes R: "ieee_rules F E" and x: "nonneg x"
  shows "weight_ok (fast_exp F E (f32_negate x))" "f32_key (fast_exp F E (f32_negate x)) \<le> f32_key f32_one"
proof -
  let ?t = "fmul F fexp_scale (f32_negate x)" and ?e = "fast_exp F E (f32_negate x)"
  have "weight_ok ?e \<and> f32_key ?e \<le> f32_key f32_one"
  proof (cases "f32_lt fexp_floor ?t")
    case True
    then have nan: "\<not> f32_nan ?t" by (simp add: f32_lt_def)
    then have "\<not> f32_nan x" using ieeeD(12) [OF R, of "f32_negate x"] by auto
    then have "f32_neg (f32_negate x)" using x by (simp add: nonneg_def weight_ok_def)
    then have "f32_neg ?t" using nan by (rule ieeeD(13) [OF R])
    then have n: "- 1065353216 \<le> f_to_int E ?t" "f_to_int E ?t \<le> 0" using ieeeD(19) [OF R _ True] by simp_all
    define m where "m = f_to_int E ?t + 1065353216"
    have m: "0 \<le> m" "m \<le> 0x3f800000" using n by (simp_all add: m_def)
    have w: "word_of_int (f_to_int E ?t) + 1065353216 = (word_of_int m :: f32)" by (simp add: m_def)
    have "int32 m" using m by (simp add: int32_def int_min_def int_max_def)
    then have "?e = word_of_int m" using True m by (simp add: fast_exp_def Let_def w sint_of_int32)
    then show ?thesis using small_word [OF m] m threshold_key by simp
  next
    case False
    then have "?e = f32_zero" by (simp add: fast_exp_def Let_def f32_zero_def)
    then show ?thesis using threshold_key by simp
  qed
  then show "weight_ok ?e" "f32_key ?e \<le> f32_key f32_one" by simp_all
qed

lemma fast_exp_zero:
  assumes "ieee_rules F E"
  shows "fast_exp F E (f32_negate f32_zero) = f32_one"
proof -
  have "f32_lt fexp_floor f32_nzero"
    by (simp add: f32_lt_def f32_nan_def f32_key_def f32_mag_def f32_neg_def fexp_floor_def f32_nzero_def f32_negate_def f32_zero_def)
  then show ?thesis
    unfolding fast_exp_def f32_nzero_def [symmetric] by (simp add: ieeeD [OF assms] Let_def f32_one_def sint_of_int32 int32_def int_min_def int_max_def)
qed

subsection \<open>The weights of a patch\<close>

definition range_factor :: "farith \<Rightarrow> da3d_tile \<Rightarrow> f32" where
  "range_factor F t = fdiv F f32_one (fmul F kDa3dGammaR (dt_sigma2 t))"

text \<open>What the proof needs of a tile: a usable range factor and finite values at the centers.\<close>

definition regular_center :: "farith \<Rightarrow> fexp \<Rightarrow> da3d_tile \<Rightarrow> int \<Rightarrow> int \<Rightarrow> bool" where
  "regular_center F E t pr pc \<longleftrightarrow> (\<forall>c. 0 \<le> c \<and> c < dt_channels t \<longrightarrow>
     is_finite_bits (fsub F (dt_guide t c (patch_at t pr pc kDa3dCenter)) (plane_value F (regression F E t pr pc) c kDa3dCenter)))"

definition regular_tile :: "farith \<Rightarrow> fexp \<Rightarrow> int \<Rightarrow> int \<Rightarrow> da3d_tile \<Rightarrow> bool" where
  "regular_tile F E h w t \<longleftrightarrow> 1 \<le> dt_channels t \<and> weight_ok (range_factor F t) \<and> is_finite_bits (range_factor F t) \<and>
     (\<forall>pr pc. 0 \<le> pr \<and> pr < h \<and> 0 \<le> pc \<and> pc < w \<longrightarrow> regular_center F E t pr pc)"

lemma dist_table:
  assumes R: "ieee_rules F E"
  shows "weight_ok (tab_dist_k F i)" "tab_dist_k F kDa3dCenter = f32_zero"
proof -
  show "weight_ok (tab_dist_k F i)"
    unfolding tab_dist_k_def tab_dist_def ieeeD(2,8,9) [OF R] by (intro ieeeD(17) [OF R] ieeeD(3) [OF R]) simp
  show "tab_dist_k F kDa3dCenter = f32_zero"
    unfolding tab_dist_k_def tab_dist_def ieeeD(2,8,9) [OF R]
    by (simp add: patch_row_def patch_col_def kDa3dCenter_def kDa3dPatch_def kDa3dRadius_def ieeeD(1,18) [OF R])
qed

lemma bilateral_range:
  assumes R: "ieee_rules F E" and v: "weight_ok vinv" and d: "weight_ok spatial"
  shows "weight_ok (bilateral F E C g center vinv spatial)" "f32_key (bilateral F E C g center vinv spatial) \<le> f32_key f32_one"
proof -
  have "nonneg x0 \<Longrightarrow> nonneg (fold (\<lambda>c x. let e = fsub F (g c) (center c) in ffma F e e x) cs x0)" for cs x0
    by (induction cs arbitrary: x0) (simp_all add: Let_def ieeeD(14) [OF R])
  then have "nonneg (ffma F (fold (\<lambda>c x. let e = fsub F (g c) (center c) in ffma F e e x) [1..C - 1]
      (fmul F (fsub F (g 0) (center 0)) (fsub F (g 0) (center 0)))) vinv spatial)"
    using v d by (intro ieeeD(15) [OF R]) (simp_all add: ieeeD(10) [OF R])
  note r = fast_exp_range [OF R this]
  show "weight_ok (bilateral F E C g center vinv spatial)" "f32_key (bilateral F E C g center vinv spatial) \<le> f32_key f32_one"
    unfolding bilateral_def Let_def using r [unfolded Let_def] by simp_all
qed

lemma bilateral_center:
  assumes R: "ieee_rules F E" and v: "weight_ok vinv" "is_finite_bits vinv" and C: "1 \<le> C"
    and same: "\<And>c. 0 \<le> c \<Longrightarrow> c < C \<Longrightarrow> g c = center c \<and> is_finite_bits (center c)"
  shows "bilateral F E C g center vinv f32_zero = f32_one"
proof -
  have z: "fsub F (g c) (center c) = f32_zero" if "0 \<le> c" "c < C" for c using same [OF that] ieeeD(4) [OF R] by simp
  have "set cs \<subseteq> {1..C - 1} \<Longrightarrow> fold (\<lambda>c x. let e = fsub F (g c) (center c) in ffma F e e x) cs f32_zero = f32_zero" for cs
    by (induction cs) (simp_all add: Let_def z ieeeD(16) [OF R])
  from this [of "[1..C - 1]"] show ?thesis
    unfolding bilateral_def Let_def using z [of 0] C v by (simp add: ieeeD(5,16) [OF R] fast_exp_zero [OF R])
qed

lemma patch_weight_range:
  assumes R: "ieee_rules F E" and t: "weight_ok (range_factor F t)"
  shows "weight_ok (patch_weight F E t pr pc i)" "f32_key (patch_weight F E t pr pc i) \<le> f32_key f32_one"
  using bilateral_range [OF R t dist_table(1) [OF R]] by (simp_all add: patch_weight_def Let_def range_factor_def)

lemma patch_weight_center:
  assumes R: "ieee_rules F E" and t: "regular_tile F E h w t" and p: "0 \<le> pr" "pr < h" "0 \<le> pc" "pc < w"
  shows "patch_weight F E t pr pc kDa3dCenter = f32_one"
  unfolding patch_weight_def Let_def dist_table(2) [OF R]
proof (rule bilateral_center [OF R])
  show "weight_ok (fdiv F f32_one (fmul F kDa3dGammaR (dt_sigma2 t)))" "is_finite_bits (fdiv F f32_one (fmul F kDa3dGammaR (dt_sigma2 t)))" "1 \<le> dt_channels t"
    using t by (simp_all add: regular_tile_def range_factor_def)
  have "regular_center F E t pr pc" using t p by (simp add: regular_tile_def)
  then show "fsub F (dt_guide t c (patch_at t pr pc kDa3dCenter)) (plane_value F (regression F E t pr pc) c kDa3dCenter) =
      fsub F (dt_guide t c (patch_at t pr pc kDa3dCenter)) (plane_value F (regression F E t pr pc) c kDa3dCenter) \<and>
    is_finite_bits (fsub F (dt_guide t c (patch_at t pr pc kDa3dCenter)) (plane_value F (regression F E t pr pc) c kDa3dCenter))"
    if "0 \<le> c" "c < dt_channels t" for c
    using that by (simp add: regular_center_def)
qed

lemma regular_tile_same: "same_tile t t' \<Longrightarrow> regular_tile F E h w t' = regular_tile F E h w t"
  using same_tile_regression [of t t' F E]
  by (simp add: regular_tile_def regular_center_def range_factor_def same_tile_def patch_at_def)

subsection \<open>The loop of a tile\<close>

text \<open>The denominators of the core are the weights of level 0.\<close>

definition core_den :: "int \<Rightarrow> int \<Rightarrow> weight_map \<Rightarrow> da3d_tile \<Rightarrow> bool" where
  "core_den h w wm t \<longleftrightarrow> (\<forall>r c. 0 \<le> r \<and> r < h \<and> 0 \<le> c \<and> c < w \<longrightarrow>
     dt_den t ((r + kDa3dRadius) * dt_stride t + (c + kDa3dRadius)) = cell_at h w (wm_store wm) 0 r c)"

lemma center_square: "kDa3dRadius * kDa3dPatch + kDa3dRadius = kDa3dCenter"
  by (simp add: kDa3dCenter_def)

lemma process_core_den:
  assumes pyr: "pyramid h w wm" and add: "weights_add F" and F: "F = da_arith T" and den: "core_den h w wm t"
    and stride: "w + kDa3dPatch - 1 \<le> dt_stride t" and p: "0 \<le> pr" "pr < h" "0 \<le> pc" "pc < w"
    and run: "process_patch T pr pc t = (t', kk)" and ok: "\<And>i. 0 \<le> i \<Longrightarrow> i < kDa3dPatch * kDa3dPatch \<Longrightarrow> weight_ok (kk i)"
  shows "core_den h w (increase_weights F N wm kk (pr - kDa3dRadius) (pc - kDa3dRadius)) t'"
  unfolding core_den_def
proof (intro allI impI, elim conjE)
  fix r c
  assume rc: "0 \<le> r" "r < h" "0 \<le> c" "c < w"
  define y where "y = r - (pr - kDa3dRadius)"
  define x where "x = c - (pc - kDa3dRadius)"
  have yx: "r + kDa3dRadius = pr + y" "c + kDa3dRadius = pc + x" by (simp_all add: y_def x_def)
  have S: "pc + kDa3dPatch \<le> dt_stride t" "0 \<le> pc + x" "pc + x < dt_stride t"
    using stride p rc by (simp_all add: x_def kDa3dPatch_def kDa3dRadius_def)
  have pos: "- kDa3dPatch < pr - kDa3dRadius" "pr - kDa3dRadius < h" "- kDa3dPatch < pc - kDa3dRadius" "pc - kDa3dRadius < w"
    using p by (auto simp: kDa3dPatch_def kDa3dRadius_def)
  have same: "dt_stride t' = dt_stride t" using process_patch_result(1) [OF run] by (simp add: same_tile_def)
  have old: "dt_den t ((pr + y) * dt_stride t + (pc + x)) = cell_at h w (wm_store wm) 0 r c"
    using den rc unfolding core_den_def yx [symmetric] by blast
  have cov: "covers h w (pr - kDa3dRadius) (pc - kDa3dRadius) r c \<longleftrightarrow> 0 \<le> y \<and> y < kDa3dPatch \<and> 0 \<le> x \<and> x < kDa3dPatch"
    using rc by (auto simp: covers_def y_def x_def)
  have "cell_at h w (wm_store (increase_weights F N wm kk (pr - kDa3dRadius) (pc - kDa3dRadius))) 0 r c =
      (if covers h w (pr - kDa3dRadius) (pc - kDa3dRadius) r c
       then fadd F (cell_at h w (wm_store wm) 0 r c) (kk (y * kDa3dPatch + x)) else cell_at h w (wm_store wm) 0 r c)"
    unfolding y_def x_def by (rule increase_pyramid(3) [OF pyr add _ pos rc]) (rule ok)
  then show "dt_den t' ((r + kDa3dRadius) * dt_stride t' + (c + kDa3dRadius)) =
      cell_at h w (wm_store (increase_weights F N wm kk (pr - kDa3dRadius) (pc - kDa3dRadius))) 0 r c"
    unfolding same yx process_patch_result(4) [OF run] patch_rows_at [OF p(3) S] old cov F [symmetric] by simp
qed

text \<open>A tile before its first patch.\<close>

definition fresh_tile :: "farith \<Rightarrow> fexp \<Rightarrow> int \<Rightarrow> int \<Rightarrow> da3d_tile \<Rightarrow> bool" where
  "fresh_tile F E h w t \<longleftrightarrow> regular_tile F E h w t \<and> w + kDa3dPatch - 1 \<le> dt_stride t \<and>
     (\<forall>y x. 0 \<le> y \<and> y < h + kDa3dPatch - 1 \<and> 0 \<le> x \<and> x < w + kDa3dPatch - 1 \<longrightarrow> dt_den t (y * dt_stride t + x) = f32_zero)"

text \<open>No denominator of the padded tile is negative or a NaN.\<close>

definition den_ok :: "int \<Rightarrow> int \<Rightarrow> da3d_tile \<Rightarrow> bool" where
  "den_ok h w t \<longleftrightarrow> (\<forall>y x. 0 \<le> y \<and> y < h + kDa3dPatch - 1 \<and> 0 \<le> x \<and> x < w + kDa3dPatch - 1 \<longrightarrow> weight_ok (dt_den t (y * dt_stride t + x)))"

lemma patch_rows_keeps:
  assumes "\<And>i v. P v \<Longrightarrow> P (f i v)" "P (b i)"
  shows "P (patch_rows t pr pc f b i)"
proof -
  have "P (b i) \<Longrightarrow> P (fold (\<lambda>row. map_span (o1 row) 0 kDa3dPatch (\<lambda>col old. f (row * kDa3dPatch + col) old)) rows b i)" for o1 rows
    by (induction rows arbitrary: b) (simp_all add: map_span_def assms(1))
  from this [where ?o1.0 = "\<lambda>row. pr * dt_stride t + pc + row * dt_stride t"] show ?thesis unfolding patch_rows_def using assms(2) by blast
qed

lemma process_den_ok:
  assumes "den_ok h w t" "weights_add (da_arith T)" "process_patch T pr pc t = (t', kk)" "\<And>i. weight_ok (kk i)"
  shows "den_ok h w t'"
proof -
  note r = process_patch_result [OF assms(3)]
  have "weight_ok (dt_den t i) \<Longrightarrow> weight_ok (dt_den t' i)" for i
    unfolding r(4) by (rule patch_rows_keeps) (use assms(2,4) in \<open>simp_all add: weights_add_def\<close>)
  then show ?thesis using assms(1) r(1) by (simp add: den_ok_def same_tile_def)
qed

lemma tile_ends:
  assumes e: "edge_ok h" "edge_ok w" and F: "ones_add (da_arith T)" "ieee_rules (da_arith T) (da_exp T)"
    and t0: "fresh_tile (da_arith T) (da_exp T) h w t0"
  shows "\<exists>wm t. tile_patches (da_arith T) N (process_patch T) (wm_init h w storage) t0 = Some (wm, t) \<and>
    dt_patches t \<le> dt_patches t0 + 2 * (h * w) \<and> same_tile t0 t \<and> den_ok h w t \<and>
    (\<forall>r c. 0 \<le> r \<and> r < h \<and> 0 \<le> c \<and> c < w \<longrightarrow>
      \<not> f32_lt (dt_den t ((r + kDa3dRadius) * dt_stride t + (c + kDa3dRadius))) kDa3dThreshold)"
proof -
  let ?F = "da_arith T" and ?E = "da_exp T"
  let ?I = "\<lambda>wm t. same_tile t0 t \<and> core_den h w wm t \<and> den_ok h w t"
  have add: "weights_add ?F" using F(1) by (simp add: ones_add_def)
  have reg: "regular_tile ?F ?E h w t0" "w + kDa3dPatch - 1 \<le> dt_stride t0" using t0 by (simp_all add: fresh_tile_def)
  have "\<exists>wm t. tile_patches ?F N (process_patch T) (wm_init h w storage) t0 = Some (wm, t) \<and> dt_patches t \<le> dt_patches t0 + 2 * (h * w) \<and>
      ?I wm t \<and> pyramid h w wm \<and> (\<forall>r c. 0 \<le> r \<longrightarrow> r < h \<longrightarrow> 0 \<le> c \<longrightarrow> c < w \<longrightarrow> \<not> f32_lt (wm_at wm 0 r c) kDa3dThreshold)"
  proof (rule tile_loop_ends [where I = ?I and visits = dt_patches, OF e F(1)])
    show "?I (wm_init h w storage) t0"
      using t0 wm_init_pyramid(2) [OF e] by (simp add: core_den_def fresh_tile_def den_ok_def kDa3dPatch_def kDa3dRadius_def)
  next
    fix pr pc wm t t' kk
    assume pyr: "pyramid h w wm" and I: "?I wm t" and p: "0 \<le> pr" "pr < h" "0 \<le> pc" "pc < w" and run: "process_patch T pr pc t = (t', kk)"
    have rt: "regular_tile ?F ?E h w t" using reg(1) I regular_tile_same by blast
    have st: "w + kDa3dPatch - 1 \<le> dt_stride t" using reg(2) I by (simp add: same_tile_def)
    note r = process_patch_result [OF run]
    have rf: "weight_ok (range_factor ?F t)" using rt by (simp add: regular_tile_def)
    have ok: "weight_ok (kk i)" for i unfolding r(3) by (intro ieeeD(11) [OF F(2)] patch_weight_range [OF F(2) rf])
    have "kk kDa3dCenter = f32_one" unfolding r(3) patch_weight_center [OF F(2) rt p] by (rule ieeeD(6) [OF F(2)])
    moreover have "core_den h w (increase_weights ?F N wm kk (pr - kDa3dRadius) (pc - kDa3dRadius)) t'"
      using process_core_den [OF pyr add refl _ st p run ok] I by simp
    moreover have "den_ok h w t'" using process_den_ok [OF _ add run ok] I by simp
    moreover have "same_tile t0 t'" using I r(1) same_tile_trans by blast
    ultimately show "(\<forall>i. 0 \<le> i \<longrightarrow> i < kDa3dPatch * kDa3dPatch \<longrightarrow> weight_ok (kk i)) \<and> kk (kDa3dRadius * kDa3dPatch + kDa3dRadius) = f32_one \<and>
        ?I (increase_weights ?F N wm kk (pr - kDa3dRadius) (pc - kDa3dRadius)) t' \<and> dt_patches t' = dt_patches t + 1"
      using ok r(2) by (simp add: center_square)
  qed
  then obtain wm t where t: "tile_patches ?F N (process_patch T) (wm_init h w storage) t0 = Some (wm, t)" "dt_patches t \<le> dt_patches t0 + 2 * (h * w)"
    "?I wm t" "pyramid h w wm" "\<forall>r c. 0 \<le> r \<longrightarrow> r < h \<longrightarrow> 0 \<le> c \<longrightarrow> c < w \<longrightarrow> \<not> f32_lt (wm_at wm 0 r c) kDa3dThreshold" by blast
  have "\<not> f32_lt (dt_den t ((r + kDa3dRadius) * dt_stride t + (c + kDa3dRadius))) kDa3dThreshold"
    if rc: "0 \<le> r" "r < h" "0 \<le> c" "c < w" for r c
  proof -
    have den: "dt_den t ((r + kDa3dRadius) * dt_stride t + (c + kDa3dRadius)) = cell_at h w (wm_store wm) 0 r c"
      using t(3) rc by (simp add: core_den_def)
    have "\<not> f32_lt (wm_at wm 0 r c) kDa3dThreshold" using t(5) rc by blast
    then show ?thesis unfolding den wm_at_core [OF t(4), of r c] .
  qed
  then show ?thesis using t by blast
qed

subsection \<open>An arithmetic for examples\<close>

text \<open>An addition of weights that lowers neither.\<close>

definition weights_rise :: "farith \<Rightarrow> bool" where
  "weights_rise F \<longleftrightarrow> ones_add F \<and> (\<forall>a b. weight_ok a \<longrightarrow> weight_ok b \<longrightarrow> f32_key b \<le> f32_key (fadd F a b))"

text \<open>An arithmetic for examples: it counts ones, and its other results are zeros but for the products the rules name.\<close>

definition sign_arith :: farith where
  "sign_arith = \<lparr>fadd = (\<lambda>a b. if b = f32_one \<and> f32_key f32_one \<le> f32_key a \<and> f32_key a < f32_key kDa3dThreshold then kDa3dThreshold
       else if f32_key a < f32_key b then b else a),
     fsub = (\<lambda>_ _. f32_zero),
     fmul = (\<lambda>a b. if a = fexp_scale \<and> f32_nan b then b else if a = fexp_scale \<and> f32_neg b then f32_nzero
       else if a = kDa3dSigmaS \<and> b = kDa3dSigmaS then 0x43440000 else if a = 0x40000000 \<and> b = 0x43440000 then 0x43c40000
       else if a = f32_one \<and> b = f32_one then f32_one else f32_zero),
     fdiv = (\<lambda>_ _. f32_zero), ffma = (\<lambda>_ _ _. f32_zero), f_of_int = (\<lambda>n. if n = 2 then 0x40000000 else f32_zero),
     f_of_f64 = (\<lambda>_. f32_zero), f64_of_f32 = (\<lambda>_. 0)\<rparr>"

lemma sign_rise: "weights_rise sign_arith"
  using threshold_key threshold_positive
  by (auto simp: weights_rise_def ones_add_def weights_add_def sign_arith_def weight_ok_def)

lemma sign_ieee: "ieee_rules sign_arith \<lparr>f_rint = (\<lambda>v. v), f_to_int = (\<lambda>_. 0)\<rparr>"
proof -
  have kc: "fexp_scale \<noteq> kDa3dSigmaS" "fexp_scale \<noteq> f32_one" "fexp_scale \<noteq> 0x40000000" "fexp_scale \<noteq> f32_zero" "f32_one \<noteq> kDa3dSigmaS" "f32_one \<noteq> 0x40000000"
    "kDa3dSigmaS \<noteq> f32_zero" "f32_one \<noteq> f32_zero" "f32_nzero \<noteq> f32_zero" "kDa3dSigmaS \<noteq> 0x40000000" "\<not> f32_nan fexp_scale" "\<not> f32_neg fexp_scale"
    "f32_zero \<noteq> 0x40000000"
    by (simp_all add: fexp_scale_def kDa3dSigmaS_def f32_one_def f32_zero_def f32_nzero_def f32_negate_def f32_nan_def f32_mag_def f32_neg_def)
  have ok: "weight_ok 0x43440000" "weight_ok 0x43c40000" "weight_ok 0x40000000" "weight_ok f32_one" "f32_neg f32_nzero" "\<not> f32_nan f32_nzero"
    by (simp_all add: weight_ok_def f32_nan_def f32_mag_def f32_neg_def f32_one_def f32_nzero_def f32_negate_def f32_zero_def)
  show ?thesis
    unfolding ieee_rules_def using kc ok by (auto simp: sign_arith_def nonneg_def)
qed

subsection \<open>A pixel without a value\<close>

text \<open>A NaN spreads through differences and products, and a zero weight adds nothing.\<close>

definition nan_rules :: "farith \<Rightarrow> bool" where
  "nan_rules F \<longleftrightarrow> (\<forall>a b. f32_nan a \<or> f32_nan b \<longrightarrow> f32_nan (fsub F a b) \<and> f32_nan (fmul F a b)) \<and>
     (\<forall>a b c. f32_nan a \<or> f32_nan b \<or> f32_nan c \<longrightarrow> f32_nan (ffma F a b c)) \<and>
     fmul F f32_zero f32_zero = f32_zero \<and> fadd F f32_zero f32_zero = f32_zero"

lemma bilateral_nan:
  assumes R: "nan_rules F" and g: "f32_nan (g 0)"
  shows "bilateral F E C g center vinv spatial = f32_zero"
proof -
  have e: "f32_nan (fsub F (g 0) (center 0))" using R g by (simp add: nan_rules_def)
  have "f32_nan x \<Longrightarrow> f32_nan (fold (\<lambda>c x. let e = fsub F (g c) (center c) in ffma F e e x) cs x)" for cs x
    by (induction cs arbitrary: x) (use R in \<open>simp_all add: Let_def nan_rules_def\<close>)
  then have "f32_nan (fold (\<lambda>c x. let e = fsub F (g c) (center c) in ffma F e e x) [1..C - 1] (fmul F (fsub F (g 0) (center 0)) (fsub F (g 0) (center 0))))"
    using R e by (simp add: nan_rules_def)
  then have "f32_nan (fmul F fexp_scale (f32_negate (ffma F (fold (\<lambda>c x. let e = fsub F (g c) (center c) in ffma F e e x) [1..C - 1]
      (fmul F (fsub F (g 0) (center 0)) (fsub F (g 0) (center 0)))) vinv spatial)))"
    using R by (simp add: nan_rules_def)
  then show ?thesis unfolding bilateral_def fast_exp_def Let_def by (simp add: f32_lt_def f32_zero_def)
qed

text \<open>
  C22. A NaN hangs the kernel: when the guide has no value at some pixel of the core of a tile, no
  patch ever gives that pixel weight, and the loop over the patches of the tile never ends.
\<close>

theorem nan_guide_never_ends:
  assumes e: "edge_ok h" "edge_ok w" and F: "weights_add (da_arith T)" "ieee_rules (da_arith T) (da_exp T)" "nan_rules (da_arith T)"
    and t0: "weight_ok (range_factor (da_arith T) t0)" "w + kDa3dPatch - 1 \<le> dt_stride t0"
    and rc: "0 \<le> r" "r < h" "0 \<le> c" "c < w" and nan: "f32_nan (dt_guide t0 0 ((r + kDa3dRadius) * dt_stride t0 + (c + kDa3dRadius)))"
  shows "tile_patches (da_arith T) N (process_patch T) (wm_init h w storage) t0 = None"
proof (rule ccontr)
  let ?F = "da_arith T" and ?E = "da_exp T"
  let ?P = "\<lambda>s. pyramid h w (fst s) \<and> same_tile t0 (snd s) \<and> cell_at h w (wm_store (fst s)) 0 r c = f32_zero"
  assume "tile_patches ?F N (process_patch T) (wm_init h w storage) t0 \<noteq> None"
  then obtain s where s: "while_option lacks_weight (patch_step ?F N (process_patch T)) (wm_init h w storage, t0) = Some s"
    by (auto simp: tile_patches_def)
  have lacks: "f32_key (wm_minimum (fst s)) \<le> 0" if "?P s" for s :: "weight_map \<times> da3d_tile"
    using minimum_le [OF _ rc, of "fst s"] that by simp
  have "?P s"
  proof (rule while_option_rule [OF _ s])
    show "?P (wm_init h w storage, t0)" using wm_init_pyramid [OF e] rc by simp
    fix s :: "weight_map \<times> da3d_tile"
    assume P: "?P s"
    obtain wm t where st: "s = (wm, t)" by (cases s)
    have pyr: "pyramid h w wm" and same: "same_tile t0 t" and zero: "cell_at h w (wm_store wm) 0 r c = f32_zero" using P st by simp_all
    have "wm_minimum wm \<noteq> f32_inf" using lacks [OF P] by (auto simp: st f32_inf_def f32_key_def f32_mag_def f32_neg_def)
    then obtain pr pc where p: "find_minimum wm = (pr, pc)" "0 \<le> pr" "pr < h" "0 \<le> pc" "pc < w" using find_minimum_least [OF pyr] by blast
    obtain t' kk where run: "process_patch T pr pc t = (t', kk)" by (cases "process_patch T pr pc t")
    note res = process_patch_result [OF run]
    have "weight_ok (range_factor ?F t)" using t0(1) same by (simp add: same_tile_def range_factor_def)
    then have ok: "weight_ok (kk i)" for i unfolding res(3) by (intro ieeeD(11) [OF F(2)] patch_weight_range [OF F(2)])
    let ?i = "(r - (pr - kDa3dRadius)) * kDa3dPatch + (c - (pc - kDa3dRadius))"
    let ?wm = "increase_weights ?F N wm kk (pr - kDa3dRadius) (pc - kDa3dRadius)"
    have pos: "- kDa3dPatch < pr - kDa3dRadius" "pr - kDa3dRadius < h" "- kDa3dPatch < pc - kDa3dRadius" "pc - kDa3dRadius < w"
      using p(2-5) by (auto simp: kDa3dPatch_def kDa3dRadius_def)
    have "kk ?i = f32_zero" if cov: "covers h w (pr - kDa3dRadius) (pc - kDa3dRadius) r c"
    proof -
      have x: "0 \<le> c - (pc - kDa3dRadius)" "c - (pc - kDa3dRadius) < kDa3dPatch" using cov by (simp_all add: covers_def)
      have split: "(y * kDa3dPatch + x) div kDa3dPatch = y" "(y * kDa3dPatch + x) mod kDa3dPatch = x" if "0 \<le> x" "x < kDa3dPatch" for x y
        using that by (simp_all add: kDa3dPatch_def)
      have "patch_at t pr pc ?i = (r + kDa3dRadius) * dt_stride t + (c + kDa3dRadius)"
        unfolding patch_at_def split [OF x] by (simp add: algebra_simps)
      then have "f32_nan (fsub ?F (dt_guide t 0 (patch_at t pr pc ?i)) v)" for v
        using nan same F(3) by (simp add: same_tile_def nan_rules_def)
      then have "patch_weight ?F ?E t pr pc ?i = f32_zero" unfolding patch_weight_def Let_def by (rule bilateral_nan [OF F(3)])
      then show ?thesis using F(3) unfolding res(3) by (simp add: nan_rules_def)
    qed
    then have "cell_at h w (wm_store ?wm) 0 r c = f32_zero"
      using increase_pyramid(3) [OF pyr F(1) ok pos rc, of N] zero F(3) by (simp add: nan_rules_def)
    moreover have "pyramid h w ?wm" by (rule increase_pyramid(1) [OF pyr F(1) ok pos])
    moreover have "same_tile t0 t'" using same res(1) same_tile_trans by blast
    ultimately show "?P (patch_step ?F N (process_patch T) s)" by (simp add: patch_step_def st p(1) run)
  qed
  then have "lacks_weight s"
    using lacks [of s] minimum_ok [of h w "fst s"] threshold_key by (auto simp: lacks_weight_def f32_lt_def weight_ok_def)
  then show False using while_option_stop [OF s] by simp
qed

definition nan_arith :: farith where
  "nan_arith = sign_arith\<lparr>fsub := (\<lambda>a b. if f32_nan a \<or> f32_nan b then 0x7fc00000 else f32_zero),
     fmul := (\<lambda>a b. if f32_nan a \<or> f32_nan b then 0x7fc00000 else fmul sign_arith a b),
     ffma := (\<lambda>a b c. if f32_nan a \<or> f32_nan b \<or> f32_nan c then 0x7fc00000 else f32_zero)\<rparr>"

lemma nan_arith_rules: "nan_rules nan_arith" "ieee_rules nan_arith \<lparr>f_rint = (\<lambda>v. v), f_to_int = (\<lambda>_. 0)\<rparr>" "weights_add nan_arith"
proof -
  let ?E = "\<lparr>f_rint = (\<lambda>v. v), f_to_int = (\<lambda>_. 0)\<rparr> :: fexp"
  have q: "f32_nan 0x7fc00000" by (simp add: f32_nan_def f32_mag_def)
  have n: "\<not> f32_nan kDa3dSigmaS" "\<not> f32_nan 0x40000000" "\<not> f32_nan 0x43440000" "\<not> f32_nan fexp_scale" "\<not> f32_nan f32_nzero" "\<not> f32_nan f32_one" "\<not> f32_neg f32_zero"
    by (simp_all add: f32_neg_def kDa3dSigmaS_def fexp_scale_def f32_nzero_def f32_negate_def f32_zero_def f32_one_def f32_nan_def f32_mag_def)
  have fin: "is_finite_bits v \<Longrightarrow> \<not> f32_nan v" for v by (rule finite_not_nan)
  show "weights_add nan_arith" using sign_rise by (simp add: weights_rise_def ones_add_def weights_add_def nan_arith_def)
  have "f32_zero \<noteq> f32_one" by (simp add: f32_zero_def f32_one_def)
  then have "fadd sign_arith f32_zero f32_zero = f32_zero" by (simp add: sign_arith_def)
  then show "nan_rules nan_arith" using q ieeeD(5) [OF sign_ieee] by (simp add: nan_rules_def nan_arith_def)
  show "ieee_rules nan_arith ?E"
    using sign_ieee q n fin unfolding ieee_rules_def by (simp add: nan_arith_def nonneg_def weight_ok_def)
qed

definition nan_tile :: da3d_tile where
  "nan_tile = \<lparr>dt_channels = 1, dt_sigma2 = f32_one, dt_noisy = (\<lambda>_ _. f32_zero), dt_guide = (\<lambda>_ i. if i = 33 * 70 + 34 then 0x7fc00000 else f32_zero),
     dt_num = (\<lambda>_ _. f32_zero), dt_den = (\<lambda>_. f32_zero), dt_stride = 70, dt_patches = 0, dt_guide_only = 0\<rparr>"

theorem nan_guide_never_ends_witness:
  "tile_patches nan_arith 8 (process_patch \<lparr>da_arith = nan_arith, da_exp = \<lparr>f_rint = (\<lambda>v. v), f_to_int = (\<lambda>_. 0)\<rparr>, da_lanes = 8,
      da_arm = Wide_Arm, da_twiddles = (\<lambda>_. (f32_zero, f32_zero))\<rparr>) (wm_init 4 6 (\<lambda>_. f32_zero)) nan_tile = None"
proof -
  let ?T = "\<lparr>da_arith = nan_arith, da_exp = \<lparr>f_rint = (\<lambda>v. v), f_to_int = (\<lambda>_. 0)\<rparr>, da_lanes = 8, da_arm = Wide_Arm, da_twiddles = (\<lambda>_. (f32_zero, f32_zero))\<rparr> :: da3d_target"
  have "f32_nan 0x7fc00000" by (simp add: f32_nan_def f32_mag_def)
  then show ?thesis
    using nan_guide_never_ends [of 4 6 ?T nan_tile 2 3 8 "\<lambda>_. f32_zero"] nan_arith_rules
    by (simp add: edge_ok_def range_factor_def nan_tile_def kDa3dPatch_def kDa3dRadius_def nan_arith_def sign_arith_def)
qed

end
