(* ===== verification/Da3d_Denoise.thy ===== *)
theory Da3d_Denoise
  imports Da3d_Ends Geometry
begin

text \<open>
  The kernel of DA3D (\<open>Da3dDenoise\<close> and \<open>da3d_work_floats\<close> of src/cpu/da3d/da3d.cpp): the
  plane is cut into tiles, every tile is copied with mirrored borders, its patches are
  processed, its sums are added to those of the image, and the image is their quotient. A
  kernel that never returns is \<open>Inr None\<close>.
\<close>

subsection \<open>The image\<close>

record da3d_image =
  di_channels :: int
  di_width :: int
  di_height :: int
  di_noisy :: "int \<Rightarrow> buffer"
  di_guide :: "int \<Rightarrow> buffer"
  di_noisy_stride :: "int \<Rightarrow> int"
  di_guide_stride :: "int \<Rightarrow> int"
  di_out_stride :: "int \<Rightarrow> int"
  di_rgb :: bool
  di_sigma :: f32

definition kDa3dAfter :: int where "kDa3dAfter = kDa3dPatch - kDa3dRadius - 1"

definition patch_floats :: int where
  "patch_floats = kDa3dArea * (2 * 3 + 1 + 2 + 3 * 2 + 2 * 2)"

definition da3d_work_floats :: "int \<Rightarrow> int \<Rightarrow> int \<Rightarrow> int" where
  "da3d_work_floats w h channels =
     (let plane = w * h; tile = (da3d_tile_max w + kDa3dPatch - 1) * (da3d_tile_max h + kDa3dPatch - 1)
      in (channels + 1) * da3d_align16 plane + (3 * channels + 1) * da3d_align16 tile +
         da3d_align16 (wm_floats (da3d_tile_max h) (da3d_tile_max w)) + da3d_align16 patch_floats + 16)"

text \<open>The square roots of 3, 2 and 6.\<close>

definition rs3 :: f32 where "rs3 = 0x3fddb3d7"
definition rs2 :: f32 where "rs2 = 0x3fb504f3"
definition rs6 :: f32 where "rs6 = 0x401cc471"

text \<open>The orthonormal colour transform and its inverse.\<close>

definition to_opponent :: "farith \<Rightarrow> (int \<Rightarrow> f32) \<Rightarrow> (int \<Rightarrow> f32)" where
  "to_opponent F v =
     (let r = v 0; g = v 1; b = v 2
      in v(0 := fdiv F (fadd F (fadd F r g) b) rs3, 1 := fdiv F (fsub F r b) rs2,
           2 := fdiv F (fadd F (fsub F r (fmul F (f_of_int F 2) g)) b) rs6))"

definition from_opponent :: "farith \<Rightarrow> (int \<Rightarrow> f32) \<Rightarrow> (int \<Rightarrow> f32)" where
  "from_opponent F v =
     (let y = v 0; u = v 1; w = v 2
      in v(0 := fdiv F (fadd F (fadd F (fmul F rs2 y) (fmul F rs3 u)) w) rs6, 1 := fdiv F (fsub F y (fmul F rs2 w)) rs3,
           2 := fdiv F (fadd F (fsub F (fmul F rs2 y) (fmul F rs3 u)) w) rs6))"

subsection \<open>A tile\<close>

text \<open>The source pixel of a cell of the padded tile at \<open>(r0, c0)\<close>, in all channels.\<close>

definition tile_pixel :: "farith \<Rightarrow> da3d_image \<Rightarrow> (int \<Rightarrow> buffer) \<Rightarrow> (int \<Rightarrow> int) \<Rightarrow> int \<Rightarrow> int \<Rightarrow> int \<Rightarrow> int \<Rightarrow> (int \<Rightarrow> f32)" where
  "tile_pixel F img src stride r0 c0 row col =
     (let sy = symmetric (r0 - kDa3dRadius + row) (di_height img);
          sx = symmetric (c0 - kDa3dRadius + col) (di_width img);
          v = (\<lambda>c. src c (sy * stride c + sx))
      in if di_rgb img then to_opponent F v else v)"

text \<open>A pass over the \<open>ph\<close> rows and \<open>pw\<close> columns of a buffer of the tile.\<close>

definition tile_rows :: "int \<Rightarrow> int \<Rightarrow> int \<Rightarrow> (int \<Rightarrow> int \<Rightarrow> f32) \<Rightarrow> buffer \<Rightarrow> buffer" where
  "tile_rows stride ph pw f b = fold (\<lambda>row. map_span (row * stride) 0 pw (\<lambda>col _. f row col)) [0..ph - 1] b"

definition fill_tile :: "farith \<Rightarrow> da3d_image \<Rightarrow> int \<Rightarrow> int \<Rightarrow> int \<Rightarrow> int \<Rightarrow> da3d_tile \<Rightarrow> da3d_tile" where
  "fill_tile F img r0 r1 c0 c1 t =
     (let ph = r1 - r0 + kDa3dPatch - 1; pw = c1 - c0 + kDa3dPatch - 1; S = dt_stride t; C = di_channels img;
          upd = (\<lambda>f b c. if 0 \<le> c \<and> c < C then tile_rows S ph pw (f c) (b c) else b c)
      in t\<lparr>dt_noisy := upd (\<lambda>c row col. tile_pixel F img (di_noisy img) (di_noisy_stride img) r0 c0 row col c) (dt_noisy t),
           dt_guide := upd (\<lambda>c row col. tile_pixel F img (di_guide img) (di_guide_stride img) r0 c0 row col c) (dt_guide t),
           dt_num := upd (\<lambda>c row col. f32_zero) (dt_num t),
           dt_den := tile_rows S ph pw (\<lambda>row col. f32_zero) (dt_den t)\<rparr>)"

text \<open>The sums of the image, the arrays of the tile and the storage of the weight map.\<close>

record da3d_sums =
  ds_num :: "int \<Rightarrow> buffer"
  ds_den :: buffer
  ds_tile :: da3d_tile
  ds_storage :: buffer

text \<open>The sums of a tile added to those of the image.\<close>

definition add_tile :: "farith \<Rightarrow> da3d_image \<Rightarrow> int \<Rightarrow> int \<Rightarrow> int \<Rightarrow> int \<Rightarrow> int \<Rightarrow> buffer \<Rightarrow> buffer \<Rightarrow> buffer" where
  "add_tile F img r0 r1 c0 c1 S tile b =
     (let W = di_width img; H = di_height img
      in fold (\<lambda>row. let trow = row - (r0 - kDa3dRadius)
           in map_span (row * W) (max 0 (c0 - kDa3dRadius)) (min W (c1 + kDa3dAfter))
                (\<lambda>col old. fadd F old (tile (trow * S + (col - (c0 - kDa3dRadius))))))
           [max 0 (r0 - kDa3dRadius)..min H (r1 + kDa3dAfter) - 1] b)"

text \<open>The vector lanes of the refresh of the weight map: none without vectors.\<close>

definition refresh_lanes :: "da3d_target \<Rightarrow> int" where
  "refresh_lanes T = (if da_arm T = Scalar_Arm then 0 else da_lanes T)"

definition denoise_tile :: "da3d_target \<Rightarrow> da3d_image \<Rightarrow> int \<times> int \<Rightarrow> da3d_sums \<Rightarrow> da3d_sums option" where
  "denoise_tile T img trc s =
     (let F = da_arith T; rows = da3d_tile_count (di_height img); cols = da3d_tile_count (di_width img);
          r0 = da3d_tile_start (di_height img) rows (fst trc); r1 = da3d_tile_start (di_height img) rows (fst trc + 1);
          c0 = da3d_tile_start (di_width img) cols (snd trc); c1 = da3d_tile_start (di_width img) cols (snd trc + 1);
          t = fill_tile F img r0 r1 c0 c1 (ds_tile s)
      in case tile_patches F (refresh_lanes T) (process_patch T) (wm_init (r1 - r0) (c1 - c0) (ds_storage s)) t of
           None \<Rightarrow> None
         | Some (wm, t) \<Rightarrow> Some (s\<lparr>
             ds_num := (\<lambda>c. if 0 \<le> c \<and> c < di_channels img then add_tile F img r0 r1 c0 c1 (dt_stride t) (dt_num t c) (ds_num s c) else ds_num s c),
             ds_den := add_tile F img r0 r1 c0 c1 (dt_stride t) (dt_den t) (ds_den s),
             ds_tile := t, ds_storage := wm_store wm\<rparr>))"

fun denoise_tiles :: "da3d_target \<Rightarrow> da3d_image \<Rightarrow> (int \<times> int) list \<Rightarrow> da3d_sums \<Rightarrow> da3d_sums option" where
  "denoise_tiles T img [] s = Some s"
| "denoise_tiles T img (p # ps) s = (case denoise_tile T img p s of None \<Rightarrow> None | Some s \<Rightarrow> denoise_tiles T img ps s)"

subsection \<open>The kernel\<close>

text \<open>
  The initial state: \<open>work c\<close> is the content of the carved arrays, in the order of the carving.
\<close>

definition initial_sums :: "da3d_target \<Rightarrow> da3d_image \<Rightarrow> (int \<Rightarrow> buffer) \<Rightarrow> da3d_sums" where
  "initial_sums T img work =
     (let F = da_arith T; C = di_channels img; plane = di_width img * di_height img; zeros = map_span 0 0 plane (\<lambda>_ _. f32_zero)
      in \<lparr>ds_num = (\<lambda>c. if 0 \<le> c \<and> c < C then zeros (work c) else work c), ds_den = zeros (work C),
          ds_tile = \<lparr>dt_channels = C, dt_sigma2 = fmul F (di_sigma img) (di_sigma img),
            dt_noisy = (\<lambda>c. work (C + 1 + 3 * c)), dt_guide = (\<lambda>c. work (C + 1 + 3 * c + 1)), dt_num = (\<lambda>c. work (C + 1 + 3 * c + 2)),
            dt_den = work (4 * C + 1), dt_stride = da3d_tile_max (di_width img) + kDa3dPatch - 1, dt_patches = 0, dt_guide_only = 0\<rparr>,
          ds_storage = work (4 * C + 2)\<rparr>)"

text \<open>The sums of all tiles, in the order of their rows.\<close>

definition da3d_sums_of :: "da3d_target \<Rightarrow> da3d_image \<Rightarrow> (int \<Rightarrow> buffer) \<Rightarrow> da3d_sums option" where
  "da3d_sums_of T img work =
     denoise_tiles T img (List.product [0..da3d_tile_count (di_height img) - 1] [0..da3d_tile_count (di_width img) - 1])
       (initial_sums T img work)"

text \<open>The quotients, transformed back.\<close>

definition out_pixel :: "farith \<Rightarrow> da3d_image \<Rightarrow> da3d_sums \<Rightarrow> int \<Rightarrow> (int \<Rightarrow> f32)" where
  "out_pixel F img s q =
     (let v = (\<lambda>c. fdiv F (ds_num s c q) (ds_den s q)) in if di_rgb img then from_opponent F v else v)"

definition write_out :: "farith \<Rightarrow> da3d_image \<Rightarrow> da3d_sums \<Rightarrow> int \<Rightarrow> buffer \<Rightarrow> buffer" where
  "write_out F img s c out =
     fold (\<lambda>row. map_span (row * di_out_stride img c) 0 (di_width img) (\<lambda>col _. out_pixel F img s (row * di_width img + col) c))
       [0..di_height img - 1] out"

text \<open>The planes, and the two counters of the statistics.\<close>

definition da3d_denoise :: "da3d_target \<Rightarrow> da3d_image \<Rightarrow> int \<Rightarrow> (int \<Rightarrow> buffer) \<Rightarrow> (int \<Rightarrow> buffer) \<Rightarrow> ((int \<Rightarrow> buffer) \<times> int \<times> int) option res" where
  "da3d_denoise T img work_floats work out =
     (let C = di_channels img; W = di_width img; H = di_height img
      in if C \<noteq> 1 \<and> C \<noteq> 3 \<or> W < 1 \<or> H < 1 \<or> \<not> f32_lt f32_zero (di_sigma img)
         then Inl (Invalid_argument ''nss: DA3D kernel arguments are invalid'')
         else if work_floats < da3d_work_floats W H C then Inl (Invalid_argument ''nss: DA3D work buffer too small'')
         else Inr (case da3d_sums_of T img work of None \<Rightarrow> None
              | Some s \<Rightarrow> Some (\<lambda>c. if 0 \<le> c \<and> c < C then write_out (da_arith T) img s c (out c) else out c,
                  dt_patches (ds_tile s), dt_guide_only (ds_tile s))))"

subsection \<open>The grid\<close>

abbreviation grid_start :: "int \<Rightarrow> int \<Rightarrow> int" where
  "grid_start n i \<equiv> da3d_tile_start n (da3d_tile_count n) i"

lemma tile_count_half: "2 \<le> n \<Longrightarrow> 1 \<le> da3d_tile_count n \<and> 2 * da3d_tile_count n \<le> n"
  by (simp add: da3d_tile_count_def kDa3dTile_def Let_def cdiv_nonneg) linarith

lemma tile_edges:
  assumes n: "2 \<le> n" and i: "0 \<le> i" "i < da3d_tile_count n"
  shows "2 \<le> grid_start n (i + 1) - grid_start n i" "grid_start n (i + 1) - grid_start n i \<le> da3d_tile_max n" "da3d_tile_max n \<le> 192"
    "0 \<le> grid_start n i" "grid_start n (i + 1) \<le> n"
proof -
  let ?k = "da3d_tile_count n"
  have k: "1 \<le> ?k" "2 * ?k \<le> n" using tile_count_half [OF n] by simp_all
  have st: "grid_start n j = n * j div ?k" if "0 \<le> j" for j
    unfolding da3d_tile_start_def using that n k by (intro cdiv_nonneg) auto
  have "(n * i + 2 * ?k) div ?k \<le> (n * i + n) div ?k" using k by (intro zdiv_mono1) auto
  moreover have "(n * i + 2 * ?k) div ?k = n * i div ?k + 2" using k(1) by simp
  ultimately show "2 \<le> grid_start n (i + 1) - grid_start n i" using i by (simp add: st distrib_left)
  have n1: "1 \<le> n" using n by simp
  show "grid_start n (i + 1) - grid_start n i \<le> da3d_tile_max n" "da3d_tile_max n \<le> 192"
    using da3d.widest [OF n1] i by (simp_all add: da3d_tile_max_def kDa3dTile_def Let_def)
  show "0 \<le> grid_start n i" using st [OF i(1)] n i(1) k(1) by (simp add: pos_imp_zdiv_nonneg_iff)
  show "grid_start n (i + 1) \<le> n" using da3d.mono [OF n1, of "i + 1" ?k] da3d.last [OF n1] i by simp
qed

lemma edges_ok: "2 \<le> n \<Longrightarrow> 0 \<le> i \<Longrightarrow> i < da3d_tile_count n \<Longrightarrow> edge_ok (grid_start n (i + 1) - grid_start n i)"
  using tile_edges [of n i] by (simp add: edge_ok_def)

subsection \<open>Passes over rows\<close>

lemma tile_rows_at:
  assumes "0 \<le> x" "x < pw" "pw \<le> S"
  shows "tile_rows S ph pw f b (y * S + x) = (if 0 \<le> y \<and> y < ph then f y x else b (y * S + x))"
proof -
  have row: "map_span (r * S) 0 pw (\<lambda>col _. f r col) b (y * S + x) = (if r = y then f y x else b (y * S + x))" for r b
  proof -
    have d: "y * S + x - r * S = (y - r) * S + x" by (simp add: algebra_simps)
    have "r = y" if h: "0 \<le> (y - r) * S + x" "(y - r) * S + x < pw"
    proof -
      have "0 < S" "(y - r) * S < 1 * S" "(- 1) * S < (y - r) * S" using h assms by linarith+
      then have "y - r < 1" "- 1 < y - r" unfolding mult_less_cancel_right by auto
      then show ?thesis by simp
    qed
    moreover have "map_span (r * S) 0 pw (\<lambda>col _. f r col) b (y * S + x) =
        (if 0 \<le> y * S + x - r * S \<and> y * S + x - r * S < pw then f r (y * S + x - r * S) else b (y * S + x))" by (auto simp: map_span_def)
    ultimately show ?thesis using assms unfolding d by (cases "r = y") auto
  qed
  have "fold (\<lambda>row. map_span (row * S) 0 pw (\<lambda>col _. f row col)) rows b (y * S + x) = (if y \<in> set rows then f y x else b (y * S + x))" for rows
    by (induction rows arbitrary: b) (auto simp: row)
  then show ?thesis unfolding tile_rows_def by simp
qed

text \<open>What the sums of a tile give to a pixel of the image.\<close>

lemma add_tile_at:
  assumes W: "0 \<le> col" "col < di_width img" and H: "0 \<le> row" "row < di_height img"
  shows "add_tile F img r0 r1 c0 c1 S tile b (row * di_width img + col) =
    (if r0 - kDa3dRadius \<le> row \<and> row < r1 + kDa3dAfter \<and> c0 - kDa3dRadius \<le> col \<and> col < c1 + kDa3dAfter
     then fadd F (b (row * di_width img + col)) (tile ((row - (r0 - kDa3dRadius)) * S + (col - (c0 - kDa3dRadius))))
     else b (row * di_width img + col))"
proof -
  define w where "w = di_width img"
  let ?g = "\<lambda>r col old. fadd F old (tile ((r - (r0 - kDa3dRadius)) * S + (col - (c0 - kDa3dRadius))))"
  let ?lo = "max 0 (c0 - kDa3dRadius)" and ?hi = "min w (c1 + kDa3dAfter)"
  have row: "map_span (r * w) ?lo ?hi (?g r) b (row * w + col) =
      (if r = row \<and> c0 - kDa3dRadius \<le> col \<and> col < c1 + kDa3dAfter then ?g row col (b (row * w + col)) else b (row * w + col))" for r b
  proof -
    have d: "row * w + col - r * w = (row - r) * w + col" by (simp add: algebra_simps)
    have "r = row" if h: "0 \<le> (row - r) * w + col" "(row - r) * w + col < w"
    proof -
      have "0 < w" "(row - r) * w < 1 * w" "(- 1) * w < (row - r) * w" using h W unfolding w_def by linarith+
      then have "row - r < 1" "- 1 < row - r" unfolding mult_less_cancel_right by auto
      then show ?thesis by simp
    qed
    moreover have "map_span (r * w) ?lo ?hi (?g r) b (row * w + col) =
        (if ?lo \<le> row * w + col - r * w \<and> row * w + col - r * w < ?hi then ?g r (row * w + col - r * w) (b (row * w + col)) else b (row * w + col))"
      by (auto simp: map_span_def)
    ultimately show ?thesis using W unfolding d w_def [symmetric] by (cases "r = row") auto
  qed
  have "fold (\<lambda>r. map_span (r * w) ?lo ?hi (?g r)) rows b (row * w + col) =
      (if row \<in> set rows \<and> c0 - kDa3dRadius \<le> col \<and> col < c1 + kDa3dAfter then ?g row col (b (row * w + col)) else b (row * w + col))"
    if "distinct rows" for rows
    using that
  proof (induction rows arbitrary: b)
    case (Cons r rows)
    then show ?case by (auto simp: row)
  qed simp
  from this [of "[max 0 (r0 - kDa3dRadius)..min (di_height img) (r1 + kDa3dAfter) - 1]"]
  show ?thesis using H unfolding add_tile_def Let_def w_def by auto
qed

subsection \<open>The kernel returns\<close>

text \<open>Every tile is regular, whatever the arrays of the tile held before.\<close>

definition regular_image :: "da3d_target \<Rightarrow> da3d_image \<Rightarrow> bool" where
  "regular_image T img \<longleftrightarrow> (\<forall>tr tc t. 0 \<le> tr \<and> tr < da3d_tile_count (di_height img) \<and> 0 \<le> tc \<and> tc < da3d_tile_count (di_width img) \<and>
     dt_channels t = di_channels img \<and> dt_sigma2 t = fmul (da_arith T) (di_sigma img) (di_sigma img) \<and>
     dt_stride t = da3d_tile_max (di_width img) + kDa3dPatch - 1 \<longrightarrow>
     regular_tile (da_arith T) (da_exp T) (grid_start (di_height img) (tr + 1) - grid_start (di_height img) tr)
       (grid_start (di_width img) (tc + 1) - grid_start (di_width img) tc)
       (fill_tile (da_arith T) img (grid_start (di_height img) tr) (grid_start (di_height img) (tr + 1))
         (grid_start (di_width img) tc) (grid_start (di_width img) (tc + 1)) t))"

definition tile_area :: "da3d_image \<Rightarrow> int \<times> int \<Rightarrow> int" where
  "tile_area img p = (grid_start (di_height img) (fst p + 1) - grid_start (di_height img) (fst p)) *
     (grid_start (di_width img) (snd p + 1) - grid_start (di_width img) (snd p))"

definition tile_core :: "da3d_image \<Rightarrow> int \<times> int \<Rightarrow> int \<Rightarrow> int \<Rightarrow> bool" where
  "tile_core img p row col \<longleftrightarrow> grid_start (di_height img) (fst p) \<le> row \<and> row < grid_start (di_height img) (fst p + 1) \<and>
     grid_start (di_width img) (snd p) \<le> col \<and> col < grid_start (di_width img) (snd p + 1)"

text \<open>The sums after the tiles \<open>D\<close>, whose cores have \<open>m\<close> pixels.\<close>

definition sums_ok :: "da3d_target \<Rightarrow> da3d_image \<Rightarrow> (int \<times> int) set \<Rightarrow> int \<Rightarrow> da3d_sums \<Rightarrow> bool" where
  "sums_ok T img D m s \<longleftrightarrow>
     dt_channels (ds_tile s) = di_channels img \<and> dt_sigma2 (ds_tile s) = fmul (da_arith T) (di_sigma img) (di_sigma img) \<and>
     dt_stride (ds_tile s) = da3d_tile_max (di_width img) + kDa3dPatch - 1 \<and> dt_patches (ds_tile s) \<le> 2 * m \<and>
     (\<forall>row col. 0 \<le> row \<and> row < di_height img \<and> 0 \<le> col \<and> col < di_width img \<longrightarrow>
       weight_ok (ds_den s (row * di_width img + col)) \<and>
       ((\<exists>p \<in> D. tile_core img p row col) \<longrightarrow> f32_key kDa3dThreshold \<le> f32_key (ds_den s (row * di_width img + col))))"

lemma weight_key: "weight_ok v \<Longrightarrow> \<not> f32_lt v kDa3dThreshold \<Longrightarrow> f32_key kDa3dThreshold \<le> f32_key v"
  using threshold_key by (auto simp: f32_lt_def weight_ok_def)

lemma fill_tile_fields [simp]:
  "dt_channels (fill_tile F img r0 r1 c0 c1 t) = dt_channels t" "dt_sigma2 (fill_tile F img r0 r1 c0 c1 t) = dt_sigma2 t"
  "dt_stride (fill_tile F img r0 r1 c0 c1 t) = dt_stride t" "dt_patches (fill_tile F img r0 r1 c0 c1 t) = dt_patches t"
  by (simp_all add: fill_tile_def Let_def)

lemma denoise_tile_ok:
  assumes F: "weights_rise (da_arith T)" "ieee_rules (da_arith T) (da_exp T)"
    and size: "2 \<le> di_width img" "2 \<le> di_height img" and reg: "regular_image T img"
    and p: "0 \<le> fst p" "fst p < da3d_tile_count (di_height img)" "0 \<le> snd p" "snd p < da3d_tile_count (di_width img)"
    and s: "sums_ok T img D m s"
  shows "\<exists>s'. denoise_tile T img p s = Some s' \<and> sums_ok T img (insert p D) (m + tile_area img p) s'"
proof -
  let ?F = "da_arith T" and ?E = "da_exp T" and ?W = "di_width img" and ?H = "di_height img"
  define r0 where "r0 = grid_start ?H (fst p)"
  define r1 where "r1 = grid_start ?H (fst p + 1)"
  define c0 where "c0 = grid_start ?W (snd p)"
  define c1 where "c1 = grid_start ?W (snd p + 1)"
  note bounds = tile_edges [OF size(2) p(1,2), folded r0_def r1_def] tile_edges [OF size(1) p(3,4), folded c0_def c1_def]
  have e: "edge_ok (r1 - r0)" "edge_ok (c1 - c0)"
    using edges_ok [OF size(2) p(1,2)] edges_ok [OF size(1) p(3,4)] by (simp_all add: r0_def r1_def c0_def c1_def)
  define t where "t = fill_tile ?F img r0 r1 c0 c1 (ds_tile s)"
  have fields: "dt_channels (ds_tile s) = di_channels img" "dt_sigma2 (ds_tile s) = fmul ?F (di_sigma img) (di_sigma img)"
    "dt_stride (ds_tile s) = da3d_tile_max ?W + kDa3dPatch - 1" "dt_patches (ds_tile s) \<le> 2 * m"
    using s by (simp_all add: sums_ok_def)
  have stride: "c1 - c0 + kDa3dPatch - 1 \<le> dt_stride t" using bounds(7) by (simp add: t_def fields)
  have "dt_den t (y * dt_stride t + x) = f32_zero" if "0 \<le> y" "y < r1 - r0 + kDa3dPatch - 1" "0 \<le> x" "x < c1 - c0 + kDa3dPatch - 1" for y x
    using tile_rows_at [OF that(3,4) stride, of "r1 - r0 + kDa3dPatch - 1" "\<lambda>_ _. f32_zero" "dt_den (ds_tile s)" y] that
    by (simp add: t_def fill_tile_def Let_def)
  moreover have "regular_tile ?F ?E (r1 - r0) (c1 - c0) t"
    using reg p fields unfolding regular_image_def t_def r0_def r1_def c0_def c1_def by blast
  ultimately have fresh: "fresh_tile ?F ?E (r1 - r0) (c1 - c0) t" using stride by (simp add: fresh_tile_def)
  have one: "ones_add ?F" and wadd: "\<And>a b. weight_ok a \<Longrightarrow> weight_ok b \<Longrightarrow> weight_ok (fadd ?F a b) \<and> f32_key a \<le> f32_key (fadd ?F a b) \<and> f32_key b \<le> f32_key (fadd ?F a b)"
    using F(1) by (simp_all add: weights_rise_def ones_add_def weights_add_def)
  obtain wm t' where run: "tile_patches ?F (refresh_lanes T) (process_patch T) (wm_init (r1 - r0) (c1 - c0) (ds_storage s)) t = Some (wm, t')"
    and t': "dt_patches t' \<le> dt_patches t + 2 * ((r1 - r0) * (c1 - c0))" "same_tile t t'" "den_ok (r1 - r0) (c1 - c0) t'"
      "\<And>r c. 0 \<le> r \<Longrightarrow> r < r1 - r0 \<Longrightarrow> 0 \<le> c \<Longrightarrow> c < c1 - c0 \<Longrightarrow> \<not> f32_lt (dt_den t' ((r + kDa3dRadius) * dt_stride t' + (c + kDa3dRadius))) kDa3dThreshold"
    using tile_ends [OF e one F(2) fresh, of "refresh_lanes T" "ds_storage s"] by blast
  define den where "den = add_tile ?F img r0 r1 c0 c1 (dt_stride t') (dt_den t') (ds_den s)"
  obtain num where s': "denoise_tile T img p s = Some (s\<lparr>ds_num := num, ds_den := den, ds_tile := t', ds_storage := wm_store wm\<rparr>)"
    using run by (simp add: denoise_tile_def Let_def r0_def r1_def c0_def c1_def t_def den_def)
  have den_old: "weight_ok (ds_den s (row * ?W + col))" "\<And>q. q \<in> D \<Longrightarrow> tile_core img q row col \<Longrightarrow> f32_key kDa3dThreshold \<le> f32_key (ds_den s (row * ?W + col))"
    if "0 \<le> row" "row < ?H" "0 \<le> col" "col < ?W" for row col
    using s that unfolding sums_ok_def by blast+
  have new: "weight_ok (den (row * ?W + col)) \<and> f32_key (ds_den s (row * ?W + col)) \<le> f32_key (den (row * ?W + col)) \<and>
      (tile_core img p row col \<longrightarrow> f32_key kDa3dThreshold \<le> f32_key (den (row * ?W + col)))"
    if rc: "0 \<le> row" "row < ?H" "0 \<le> col" "col < ?W" for row col
  proof (cases "r0 - kDa3dRadius \<le> row \<and> row < r1 + kDa3dAfter \<and> c0 - kDa3dRadius \<le> col \<and> col < c1 + kDa3dAfter")
    case True
    define y where "y = row - (r0 - kDa3dRadius)"
    define x where "x = col - (c0 - kDa3dRadius)"
    have at: "den (row * ?W + col) = fadd ?F (ds_den s (row * ?W + col)) (dt_den t' (y * dt_stride t' + x))"
      unfolding den_def add_tile_at [OF rc(3,4,1,2)] using True by (simp add: y_def x_def)
    have tok: "weight_ok (dt_den t' (y * dt_stride t' + x))"
      using t'(3) True unfolding den_ok_def y_def x_def kDa3dAfter_def by auto
    have "f32_key kDa3dThreshold \<le> f32_key (dt_den t' (y * dt_stride t' + x))" if "tile_core img p row col"
    proof (rule weight_key [OF tok])
      have "0 \<le> row - r0" "row - r0 < r1 - r0" "0 \<le> col - c0" "col - c0 < c1 - c0"
        using that by (simp_all add: tile_core_def r0_def r1_def c0_def c1_def)
      from t'(4) [OF this] show "\<not> f32_lt (dt_den t' (y * dt_stride t' + x)) kDa3dThreshold" by (simp add: y_def x_def algebra_simps)
    qed
    then show ?thesis using wadd [OF den_old(1) [OF rc] tok] unfolding at by force
  next
    case False
    moreover have "tile_core img p row col \<Longrightarrow> False"
      using False by (auto simp: tile_core_def r0_def r1_def c0_def c1_def kDa3dRadius_def kDa3dAfter_def kDa3dPatch_def)
    moreover have "den (row * ?W + col) = ds_den s (row * ?W + col)"
      unfolding den_def add_tile_at [OF rc(3,4,1,2)] if_not_P [OF False] ..
    ultimately show ?thesis using den_old(1) [OF rc] by auto
  qed
  have "weight_ok (den (row * ?W + col)) \<and> ((\<exists>q \<in> insert p D. tile_core img q row col) \<longrightarrow> f32_key kDa3dThreshold \<le> f32_key (den (row * ?W + col)))"
    if rc: "0 \<le> row" "row < ?H" "0 \<le> col" "col < ?W" for row col
    using new [OF rc] den_old(2) [OF rc] by (auto intro: order_trans)
  moreover have "dt_patches t' \<le> 2 * (m + tile_area img p)"
    using t'(1) fields(4) by (simp add: tile_area_def r0_def r1_def c0_def c1_def t_def)
  ultimately have "sums_ok T img (insert p D) (m + tile_area img p) (s\<lparr>ds_num := num, ds_den := den, ds_tile := t', ds_storage := wm_store wm\<rparr>)"
    using t'(2) fields by (simp add: sums_ok_def same_tile_def t_def)
  then show ?thesis using s' by blast
qed

lemma denoise_tiles_ok:
  assumes F: "weights_rise (da_arith T)" "ieee_rules (da_arith T) (da_exp T)"
    and size: "2 \<le> di_width img" "2 \<le> di_height img" and reg: "regular_image T img"
  shows "\<forall>p \<in> set ps. 0 \<le> fst p \<and> fst p < da3d_tile_count (di_height img) \<and> 0 \<le> snd p \<and> snd p < da3d_tile_count (di_width img) \<Longrightarrow>
    sums_ok T img D m s \<Longrightarrow>
    \<exists>s'. denoise_tiles T img ps s = Some s' \<and> sums_ok T img (D \<union> set ps) (m + sum_list (map (tile_area img) ps)) s'"
proof (induction ps arbitrary: D m s)
  case (Cons p ps)
  then have p: "0 \<le> fst p" "fst p < da3d_tile_count (di_height img)" "0 \<le> snd p" "snd p < da3d_tile_count (di_width img)" by auto
  obtain s' where s': "denoise_tile T img p s = Some s'" "sums_ok T img (insert p D) (m + tile_area img p) s'"
    using denoise_tile_ok [OF F size reg p Cons.prems(2)] by blast
  have "\<forall>p \<in> set ps. 0 \<le> fst p \<and> fst p < da3d_tile_count (di_height img) \<and> 0 \<le> snd p \<and> snd p < da3d_tile_count (di_width img)"
    using Cons.prems(1) by simp
  from Cons.IH [OF this s'(2)] show ?case using s'(1) by (simp add: add.assoc)
qed simp

text \<open>The areas of the tiles are those of the image.\<close>

lemma sum_edges: "sum_list (map (\<lambda>i. f (i + 1) - f i) [0..int k - 1]) = (f (int k) - f 0 :: int)"
proof (induction k)
  case (Suc k)
  have "[0..int (Suc k) - 1] = [0..int k - 1] @ [int k]" by (simp add: upto_rec2)
  then show ?case using Suc by (simp add: add.commute)
qed simp

lemma sum_areas:
  assumes "2 \<le> di_width img" "2 \<le> di_height img"
  shows "sum_list (map (tile_area img) (List.product [0..da3d_tile_count (di_height img) - 1] [0..da3d_tile_count (di_width img) - 1])) =
    di_height img * di_width img"
proof -
  have prod: "sum_list (map (tile_area img) (List.product rs cs)) =
      sum_list (map (\<lambda>i. grid_start (di_height img) (i + 1) - grid_start (di_height img) i) rs) *
      sum_list (map (\<lambda>i. grid_start (di_width img) (i + 1) - grid_start (di_width img) i) cs)" for rs cs
    by (induction rs) (simp_all add: tile_area_def sum_list_const_mult distrib_right comp_def)
  have edge: "sum_list (map (\<lambda>i. grid_start n (i + 1) - grid_start n i) [0..da3d_tile_count n - 1]) = n" if "2 \<le> n" for n
  proof -
    have "1 \<le> da3d_tile_count n" using tile_count_half [OF that] by simp
    then show ?thesis
      using sum_edges [of "grid_start n" "nat (da3d_tile_count n)"] da3d.first [of n] da3d.last [of n] that by simp
  qed
  show ?thesis unfolding prod edge [OF assms(1)] edge [OF assms(2)] ..
qed

lemma initial_sums_ok: "sums_ok T img {} 0 (initial_sums T img work)"
proof -
  have "ds_den (initial_sums T img work) (row * di_width img + col) = f32_zero" if "0 \<le> row" "row < di_height img" "0 \<le> col" "col < di_width img" for row col
  proof -
    have "row * di_width img \<le> (di_height img - 1) * di_width img" using that by (intro mult_right_mono) simp_all
    then have "row * di_width img + col < di_width img * di_height img" using that unfolding left_diff_distrib by (simp add: mult.commute)
    moreover have "0 \<le> row * di_width img + col" using that by simp
    ultimately have "0 \<le> row * di_width img + col" "row * di_width img + col < di_width img * di_height img" by simp_all
    then show ?thesis by (simp add: initial_sums_def Let_def map_span_def)
  qed
  then show ?thesis by (simp add: sums_ok_def initial_sums_def Let_def)
qed


text \<open>A target for examples.\<close>

definition sign_target :: da3d_target where
  "sign_target = \<lparr>da_arith = sign_arith, da_exp = \<lparr>f_rint = (\<lambda>v. v), f_to_int = (\<lambda>_. 0)\<rparr>, da_lanes = 8, da_arm = Wide_Arm,
     da_twiddles = (\<lambda>_. (f32_zero, f32_zero))\<rparr>"

definition small_plane :: da3d_image where
  "small_plane = \<lparr>di_channels = 1, di_width = 70, di_height = 3, di_noisy = (\<lambda>_ i. word_of_int i), di_guide = (\<lambda>_ i. word_of_int (2 * i)),
     di_noisy_stride = (\<lambda>_. 80), di_guide_stride = (\<lambda>_. 70), di_out_stride = (\<lambda>_. 96), di_rgb = False, di_sigma = f32_one\<rparr>"


end
