(* ===== verification/Spec2Isabelle.thy ===== *)
theory Spec2Isabelle
  imports Prelude Floats TopK Matcher Temporal_Match Match_Batch Checked Resources Workspace Group_Batch Vs_Map
    Commit_Queue Chunk_Cache Aggregate Contribution Temporal_Args Bm3d_Args
    Filter_Args Raster Geometry Pnlm_Search Pnlm_Plane Bm3d_Nodes Full_Image_Args Frames
    Ownership Callback Pnlm_Filter Vaggregate_Filter Bm3d_Pass Bm3d_Ring Bm3d_Rolling Bm3d_Cache
    Da3d_Weights Da3d_Dft Da3d_Shrink Da3d_Patch Da3d_Ends Da3d_Denoise
begin

text \<open>
  vapoursynth-nssfactory: a verification library for the CPU side of the plugin.

  The program is a VapourSynth plugin of denoisers that work on groups of similar patches. A
  filter is created from an argument map (src/frontend); for every frame the host asks for, its
  callback (src/host) declares the frames it needs and, when they are there, matches patches
  (src/cpu/bm), filters groups of them in batches (src/cpu/batch.cpp) and adds the results into
  sums whose quotients are the frame (src/cpu/bm/agg.cpp). A temporal filter either emits its
  sums as a fat frame that VAggregate reduces (legacy), or keeps them itself in chunks (rolling).
  Memory is charged to budgets, and every frame reference a callback takes is given back by the
  scope that holds it.

  Theories and the code they model.

  Foundations. Prelude: errors, results, integer limits, shared lemmas. Floats: bit patterns with
  the IEEE comparisons, the arithmetic being a parameter (\<open>farith\<close>, \<open>darith\<close>). Checked
  (include/nss/checked.hpp, params.hpp): size arithmetic that detects overflow. Resources
  (include/nss/resources.hpp): budgets and accounts as a transition system. Workspace
  (src/host/workspace.cpp): the scratch buffers of the threads.

  Matching. TopK (src/cpu/bm/matcher.hpp): the order of matches and four bounded sets of the best.
  Matcher and Temporal_Match (matcher.hpp, match.cpp): the scans of a window, the predictive
  search over the frames of a temporal window, and their agreement with a specification that
  ranks all admissible candidates. Match_Batch (src/cpu/batch.cpp, batch_contract.hpp): batches
  in buckets of equal shape, whose order does not show. Raster (src/host/batch_runner.hpp): the
  reference positions. Geometry: tile grids, chunks of frames and temporal slots.

  Filtering. Group_Batch (src/cpu/batch.cpp): the group batches with their status protocol.
  Commit_Queue (include/nss/cpu_batch.hpp): groups from concurrent workers committed in order.
  Aggregate (src/cpu/bm/pack.cpp, agg.cpp): gathering, weighted accumulation, quotients and the
  reduction of fat slices. Contribution (include/nss/contracts.hpp, src/frontend/contribution.hpp):
  the identity of fat frames. Chunk_Cache (src/gpuhost/chunk_cache.hpp): chunks shared by
  concurrent requests.

  Arguments. Vs_Map, Temporal_Args, Bm3d_Args, Bm3d_Nodes, Filter_Args, Full_Image_Args
  (src/frontend): the parsers, in the order in which they check, with what an accepted call
  satisfies.

  Frame callbacks. Ownership (src/frontend/ownership.hpp): the scope of frames. Callback: steps
  over the scope, the workspace and the frames, with \<open>outcome\<close> as their Hoare triple. Frames,
  Pnlm_Filter (src/host/filter_pnlm.cpp) and Vaggregate_Filter (filter_vaggregate.cpp): whole
  callbacks, from the window to the result.

  PNLM. Pnlm_Search and Pnlm_Plane (src/cpu/pnlm/pnlm.cpp): packed keys, row search with shared
  column sums, the ring of grid rows and the plane.

  BM3D. Bm3d_Pass (\<open>process_planes_batched\<close> of src/host/filter_bm3d.cpp): the pass of a center.
  Bm3d_Ring and Bm3d_Rolling (same file): the ring of sums of a rolling chunk with its carry, and
  the fill of a chunk in both forms. Bm3d_Cache (\<open>rollingGetFrame\<close>): the frames requested, the
  cache of chunks with the threads that compute, await and use them, and the frame. The three
  join the parsers, the matching, the pass, the ownership of frames and the cache.

  DA3D (src/cpu/da3d/da3d.cpp). Da3d_Weights: the pyramid of weights and the loop over patches.
  Da3d_Dft: the transforms over any ring. Da3d_Shrink, Da3d_Patch: the shrinkage and a patch.
  Da3d_Ends: why the loop ends. Da3d_Denoise: the kernel.

  How state and control are represented. A record stands for each structure; a C++ exception is a
  value of \<open>nss_error\<close> in a sum; a callback is a function from its state to a result and a state.
  An \<open>int\<close> is an unbounded integer with the range conditions under which the code does not
  overflow proved or checked as it checks them; \<open>std::size_t\<close> is \<open>nat\<close> with its limit written
  out, ordinals wrap at \<open>2 ^ 64\<close>, keys are words. A buffer is a function from element offsets. A
  mutex makes the body it guards one step. The loop of DA3D over the patches of a tile is a
  \<open>while_option\<close> and is proved to return, after at most two patches for each core pixel; all other
  loops are structural or end by a measure. The only fuel is that of the digits of a number in an
  error message: 20, where a 64-bit number has at most 19 or 20 digits. The bounds that appear
  (group of at most 64, radius at most 16, sizes below \<open>2 ^ 31\<close>) are the constants of the code.

  What the lemmas show. For each operation its behaviour on every branch; for each component its
  invariant; and, between components: vector and scalar forms agree for any number of lanes;
  batches, windows, rings and chunks give what one group after the other gives; the callbacks
  return the pixels their specification names and give every reference back, also when they
  throw; accepted arguments make every later size, shape and range condition true.

  Locales state the interfaces that several implementations share or a client relies on: the
  bounded sets of best candidates (\<open>topk\<close> and its extensions, interpreted on the four sets of the
  code), the fill of a chunk as the rolling cache sees it (\<open>chunk_filler\<close>, on the fill of the
  rolling BM3D), the queue that restores an order (\<open>reorder_queue\<close>, on \<open>OrderedCommitQueue\<close>) and
  the tilings of BM4D and DA3D (\<open>tiling\<close>).

  Not modelled. The numeric group kernels (DCT, SVD, Jacobi, GEMM, and the estimators of NLM,
  NCSR, TWSC, NLH, LSSC, BM4D, WNNM): sequences of float operations whose correctness is a matter
  of rounding; they are parameters, with the locality that the code relies on as a hypothesis. The
  vector matchers of the block sizes 4, 8, 12 and 16 are parameters with the hypothesis that they
  agree with the scan. The VapourSynth API, the allocator and the plugin registration are
  parameters or left out. The CUDA and Vulkan back ends are device code and calls of their
  drivers. The accounts of cached chunks, the locks of frame memory, the legacy callback of BM3D
  and the callbacks of the filters not named above are left out. PNLM's and VAggregate's creation
  functions only register the callbacks.
\<close>

end
